(* ===== verification/FS_Prelude.thy ===== *)
theory FS_Prelude
  imports Main "HOL-Library.Word" "HOL-Library.Monad_Syntax"
begin

text \<open>
  Shared vocabulary of the development: the names of the machine types of \<open>compat.h\<close>,
  the error numbers, the reading of control flow that never comes back, and the generic
  facts on lists, words and the option monad that the components use.

  A function of the kit that can reach \<open>panic\<close> or \<open>myfs_die\<close> (both spin for ever), or that
  can dereference a bad pointer, is modelled by a function into \<open>'a option\<close>: \<open>None\<close> is
  ``control does not come back''.  Functions that return an error number keep returning it
  as a value.
\<close>

section \<open>Types and constants\<close>

unbundle bit_operations_syntax

type_synonym byte = "8 word"
type_synonym chunk = "32 word"
type_synonym fs_off_t = int
type_synonym errno = int

abbreviation (input) EPERM :: errno where "EPERM \<equiv> 1"
abbreviation (input) ENOENT :: errno where "ENOENT \<equiv> 2"
abbreviation (input) E2BIG :: errno where "E2BIG \<equiv> 7"
abbreviation (input) EBADF :: errno where "EBADF \<equiv> 9"
abbreviation (input) ENOMEM :: errno where "ENOMEM \<equiv> 12"
abbreviation (input) EBUSY :: errno where "EBUSY \<equiv> 16"
abbreviation (input) EEXIST :: errno where "EEXIST \<equiv> 17"
abbreviation (input) EXDEV :: errno where "EXDEV \<equiv> 18"
abbreviation (input) ENODEV :: errno where "ENODEV \<equiv> 19"
abbreviation (input) ENOTDIR :: errno where "ENOTDIR \<equiv> 20"
abbreviation (input) EISDIR :: errno where "EISDIR \<equiv> 21"
abbreviation (input) EINVAL :: errno where "EINVAL \<equiv> 22"
abbreviation (input) EMFILE :: errno where "EMFILE \<equiv> 24"
abbreviation (input) ENOSPC :: errno where "ENOSPC \<equiv> 28"
abbreviation (input) ENAMETOOLONG :: errno where "ENAMETOOLONG \<equiv> 36"
abbreviation (input) ENOTEMPTY :: errno where "ENOTEMPTY \<equiv> 39"
abbreviation (input) ELOOP :: errno where "ELOOP \<equiv> 40"

text \<open>The two ways of control that never comes back.\<close>

definition panic :: "'a option" where
  "panic = None"

definition myfs_die :: "'a option" where
  "myfs_die = None"

section \<open>Theorem collections\<close>

named_theorems halt_simps \<open>the readings of panic and myfs_die\<close>
named_theorems bit_rules \<open>bit-level readings of the C shift and mask idioms\<close>

declare panic_def [halt_simps] myfs_die_def [halt_simps]

section \<open>The option monad\<close>

lemma bind_Some_iff [simp]:
  "Option.bind x f = Some y \<longleftrightarrow> (\<exists>a. x = Some a \<and> f a = Some y)"
  by (cases x) auto

lemma bind_None_iff:
  "Option.bind x f = None \<longleftrightarrow> x = None \<or> (\<exists>a. x = Some a \<and> f a = None)"
  by (cases x) auto

section \<open>Words: testing, setting and clearing one bit\<close>

text \<open>\<open>w & (1 << j)\<close> is non-zero exactly when bit \<open>j\<close> of \<open>w\<close> is set; \<open>w | (1 << j)\<close> and
  \<open>w & ~(1 << j)\<close> set and clear it.\<close>

definition tst_bit :: "'a::len word \<Rightarrow> nat \<Rightarrow> bool" where
  "tst_bit w j \<longleftrightarrow> w AND push_bit j 1 \<noteq> 0"

definition or_bit :: "'a::len word \<Rightarrow> nat \<Rightarrow> 'a word" where
  "or_bit w j = w OR push_bit j 1"

definition clr_bit :: "'a::len word \<Rightarrow> nat \<Rightarrow> 'a word" where
  "clr_bit w j = w AND NOT (push_bit j 1)"

lemma tst_bit_iff [bit_rules]: "tst_bit w j \<longleftrightarrow> bit w j"
  by (auto simp: tst_bit_def push_bit_of_1 and_exp_eq_0_iff_not_bit)

lemma bit_or_bit [bit_rules]:
  "j < LENGTH('a) \<Longrightarrow> bit (or_bit (w::'a::len word) j) m \<longleftrightarrow> bit w m \<or> m = j"
  by (auto simp: or_bit_def bit_simps)

lemma bit_clr_bit [bit_rules]:
  "j < LENGTH('a) \<Longrightarrow> bit (clr_bit (w::'a::len word) j) m \<longleftrightarrow> bit w m \<and> m \<noteq> j"
  by (auto simp: clr_bit_def bit_simps dest: bit_imp_le_length)

lemma word_all_ones_bit: "n < LENGTH('a) \<Longrightarrow> bit (- 1 :: 'a::len word) n"
  by (simp add: bit_simps)

lemma word_eq_all_ones_iff:
  "(w :: 'a::len word) = - 1 \<longleftrightarrow> (\<forall>n < LENGTH('a). bit w n)"
  by (auto simp: bit_eq_iff bit_simps)

section \<open>Positions in an array of 32-bit chunks\<close>

lemma chunk_pos_div [simp]: "(t::nat) < 32 \<Longrightarrow> (n * 32 + t) div 32 = n"
  by simp

lemma chunk_pos_mod [simp]: "(t::nat) < 32 \<Longrightarrow> (n * 32 + t) mod 32 = t"
  by simp

lemma chunk_pos_eq_iff:
  "(t::nat) < 32 \<Longrightarrow> (x div 32 = n \<and> x mod 32 = t) \<longleftrightarrow> x = n * 32 + t"
  by auto

section \<open>Lists\<close>

lemma int_length_pred: "a \<in> set xs \<Longrightarrow> int (length xs - Suc 0) = int (length xs) - 1"
  by (cases xs) auto

end
