(* ===== verification/Bit_Vector.thy ===== *)
theory Bit_Vector
  imports FS_Prelude
begin

text \<open>
  \<open>bitvector.c\<close>: the bit vector that holds the map of used disk blocks and the map of used
  inodes.  The vector is an array of 32-bit chunks with the number of valid bits, a hint
  where the next search starts, and a flag that remembers that every bit is taken.

  An access \<open>bits[i]\<close> outside the array is undefined in C and is \<open>None\<close> here; the
  well-formedness predicate excludes it.  The abstraction of a vector is the set of the bits
  that are set.
\<close>

section \<open>State\<close>

record BitVector =
  numbits :: int
  next_free :: int
  is_full :: bool
  bits :: "chunk list"

section \<open>Single bits\<close>

definition SetBV :: "BitVector \<Rightarrow> int \<Rightarrow> (bool \<times> BitVector) option" where
  "SetBV bv which =
     (if which \<ge> numbits bv \<or> which < 0 then Some (False, bv)
      else let i = nat (which div 32); j = nat (which mod 32)
           in if i < length (bits bv)
              then Some (True, bv\<lparr>bits := (bits bv)[i := or_bit (bits bv ! i) j]\<rparr>)
              else None)"

definition UnSetBV :: "BitVector \<Rightarrow> int \<Rightarrow> (bool \<times> BitVector) option" where
  "UnSetBV bv which =
     (if which \<ge> numbits bv \<or> which < 0 then Some (False, bv)
      else let i = nat (which div 32); j = nat (which mod 32)
           in if i < length (bits bv)
              then Some (True, bv\<lparr>bits := (bits bv)[i := clr_bit (bits bv ! i) j],
                                  next_free := which\<rparr>)
              else None)"

definition IsSetBV :: "BitVector \<Rightarrow> int \<Rightarrow> bool option" where
  "IsSetBV bv which =
     (if which \<ge> numbits bv \<or> which < 0 then Some False
      else let i = nat (which div 32); j = nat (which mod 32)
           in if i < length (bits bv) then Some (tst_bit (bits bv ! i) j) else None)"

text \<open>The loop of \<open>UnSetRangeBV\<close>: \<open>m\<close> bits are left to clear, the next one is \<open>k\<close>.\<close>

fun clear_bits :: "chunk list \<Rightarrow> nat \<Rightarrow> nat \<Rightarrow> chunk list option" where
  "clear_bits bs k 0 = Some bs"
| "clear_bits bs k (Suc m) =
     (if k div 32 < length bs
      then clear_bits (bs[k div 32 := clr_bit (bs ! (k div 32)) (k mod 32)]) (Suc k) m
      else None)"

definition UnSetRangeBV :: "BitVector \<Rightarrow> int \<Rightarrow> int \<Rightarrow> (bool \<times> BitVector) option" where
  "UnSetRangeBV bv start len =
     (if start < 0 \<or> len < 0 \<or> start + len > numbits bv then Some (False, bv)
      else do {
        bs \<leftarrow> clear_bits (bits bv) (nat start) (nat len);
        Some (True, bv\<lparr>next_free := start, bits := bs\<rparr>)
      })"

section \<open>Allocation of a range\<close>

text \<open>
  The loop on \<open>k\<close> that measures the run of free bits at chunk \<open>n\<close>, bit \<open>t\<close>: it stops after
  \<open>len\<close> bits, at the first set bit, or at the end of the vector.
\<close>

function scan_run :: "chunk list \<Rightarrow> nat \<Rightarrow> nat \<Rightarrow> nat \<Rightarrow> nat \<Rightarrow> nat \<Rightarrow> (nat \<times> nat \<times> nat) option" where
  "scan_run bs nb len k n t =
     (if k < len \<and> n * 32 + t < nb then
        (if n < length bs then
           (if tst_bit (bs ! n) t then Some (k, n, t)
            else if t + 1 = 32 then scan_run bs nb len (Suc k) (Suc n) 0
            else scan_run bs nb len (Suc k) n (Suc t))
         else None)
      else Some (k, n, t))"
  by pat_completeness auto
termination
  by (relation "measure (\<lambda>(bs, nb, len, k, n, t). len - k)") auto

declare scan_run.simps [simp del]

text \<open>The loop that goes back and sets the \<open>m\<close> bits of the run found.\<close>

fun set_run :: "chunk list \<Rightarrow> nat \<Rightarrow> nat \<Rightarrow> nat \<Rightarrow> (chunk list \<times> nat \<times> nat) option" where
  "set_run bs 0 n t = Some (bs, n, t)"
| "set_run bs (Suc m) n t =
     (if n < length bs
      then (let bs' = bs[n := or_bit (bs ! n) t]
            in if t + 1 = 32 then set_run bs' m (Suc n) 0 else set_run bs' m n (Suc t))
      else None)"

text \<open>How a pass over one chunk ends: with the range found (its first bit and the changed
  vector), or with the loop variables \<open>i\<close>, \<open>max_free\<close> and \<open>non_zero_bits\<close> for the next one.\<close>

datatype scan_end = Found nat BitVector | Next nat int nat

text \<open>Setting the range that was found and moving the hint (lines 195 to 213).\<close>

definition take_range :: "BitVector \<Rightarrow> nat \<Rightarrow> nat \<Rightarrow> nat \<Rightarrow> nat \<Rightarrow> scan_end option" where
  "take_range bv count len b j =
     do {
       (bs, n, t) \<leftarrow> set_run (bits bv) len b j;
       if n < count
       then (if n < length bs
             then Some (Found (b * 32 + j)
                    (if \<not> tst_bit (bs ! n) t
                     then bv\<lparr>bits := bs, next_free := int (b * 32 + j + len)\<rparr>
                     else bv\<lparr>bits := bs\<rparr>))
             else None)
       else Some (Found (b * 32 + j) (bv\<lparr>bits := bs\<rparr>))
     }"

lemma scan_run_pos:
  "scan_run bs nb len k n t = Some (k', n', t') \<Longrightarrow> t < 32 \<Longrightarrow>
     n' * 32 + t' + k = n * 32 + t + k' \<and> k \<le> k' \<and> t' < 32"
proof (induction bs nb len k n t rule: scan_run.induct)
  case (1 bs nb len k n t)
  show ?case
  proof (cases "k < len \<and> n * 32 + t < nb \<and> n < length bs \<and> \<not> tst_bit (bs ! n) t")
    case True
    then have c: "k < len \<and> n * 32 + t < nb" "n < length bs" "\<not> tst_bit (bs ! n) t"
      by auto
    show ?thesis
    proof (cases "t + 1 = 32")
      case True
      with "1.prems"(1) c have "scan_run bs nb len (Suc k) (Suc n) 0 = Some (k', n', t')"
        by (simp add: scan_run.simps [of bs nb len k n t])
      from "1.IH"(1) [OF c True this] True show ?thesis by auto
    next
      case False
      with "1.prems"(1) c have "scan_run bs nb len (Suc k) n (Suc t) = Some (k', n', t')"
        by (simp add: scan_run.simps [of bs nb len k n t])
      from "1.IH"(2) [OF c False this] False "1.prems"(2) show ?thesis by auto
    qed
  next
    case False
    with "1.prems" show ?thesis
      by (auto simp: scan_run.simps [of bs nb len k n t] split: if_splits)
  qed
qed

text \<open>
  The loop on \<open>j\<close> over the bits of chunk \<open>b\<close>.  After a run that is too short the loop goes on
  behind it, in whatever chunk that is; a run that ends at the end of the vector leaves the
  loop and moves \<open>i\<close> on.
\<close>

function scan_chunk ::
  "BitVector \<Rightarrow> nat \<Rightarrow> nat \<Rightarrow> nat \<Rightarrow> nat \<Rightarrow> nat \<Rightarrow> nat \<Rightarrow> int \<Rightarrow> nat \<Rightarrow> scan_end option" where
  "scan_chunk bv nb count len i b j max_free non_zero =
     (if j < 32 then
        (if b < length (bits bv) then
           (if tst_bit (bits bv ! b) j
            then scan_chunk bv nb count len i b (Suc j) max_free (Suc non_zero)
            else (case scan_run (bits bv) nb len 0 b j of
                    None \<Rightarrow> None
                  | Some (k, n, t) \<Rightarrow>
                      (let max_free' = (if int k > max_free then int k else max_free) in
                       if n * 32 + t \<ge> nb \<and> k < len
                       then Some (Next (if n > b then i + (n - b) else i + 1) max_free' non_zero)
                       else if k < len
                       then scan_chunk bv nb count len (i + (n - b)) n (Suc t) max_free' non_zero
                       else if b * 32 + j + len > nb then Some (Next i max_free' non_zero)
                       else take_range bv count len b j)))
         else None)
      else Some (Next i max_free non_zero))"
  by pat_completeness auto
termination
  by (relation "measure (\<lambda>(bv, nb, count, len, i, b, j, mf, nz).
        32 * length (bits bv) + 64 - (b * 32 + j))")
     (auto dest!: scan_run_pos)

declare scan_chunk.simps [simp del]

text \<open>\<open>i\<close> never goes back.\<close>

lemma scan_chunk_i_le:
  "scan_chunk bv nb count len i b j mf nz = Some (Next i' mf' nz') \<Longrightarrow> i \<le> i'"
proof (induction bv nb count len i b j mf nz rule: scan_chunk.induct)
  case (1 bv nb count len i b j mf nz)
  note eq = scan_chunk.simps [of bv nb count len i b j mf nz]
  show ?case
  proof (cases "j < 32 \<and> b < length (bits bv)")
    case True
    then have j: "j < 32" and b: "b < length (bits bv)" by auto
    show ?thesis
    proof (cases "tst_bit (bits bv ! b) j")
      case T: True
      with "1.prems" j b have "scan_chunk bv nb count len i b (Suc j) mf (Suc nz) =
          Some (Next i' mf' nz')"
        by (simp add: eq)
      from "1.IH"(1) [OF j b T this] show ?thesis .
    next
      case F: False
      with "1.prems" j b obtain k n t where r: "scan_run (bits bv) nb len 0 b j = Some (k, n, t)"
        by (auto simp: eq split: option.splits)
      show ?thesis
      proof (cases "k < len \<and> \<not> n * 32 + t \<ge> nb")
        case True
        then have c: "\<not> (nb \<le> n * 32 + t \<and> k < len)" "k < len" by auto
        from "1.prems" j b F r c
        have "scan_chunk bv nb count len (i + (n - b)) n (Suc t)
                (if mf < int k then int k else mf) nz = Some (Next i' mf' nz')"
          by (simp add: eq Let_def split: if_splits)
        from "1.IH"(2) [OF j b F r refl refl refl c this] show ?thesis by simp
      next
        case False
        with "1.prems" j b F r show ?thesis
          by (auto simp: eq Let_def take_range_def split: if_splits)
      qed
    qed
  next
    case False
    with "1.prems" show ?thesis by (auto simp: eq split: if_splits)
  qed
qed

text \<open>The loop on \<open>i\<close> over the chunks, from the chunk of the hint, round the end.\<close>

function scan_chunks ::
  "BitVector \<Rightarrow> nat \<Rightarrow> nat \<Rightarrow> nat \<Rightarrow> nat \<Rightarrow> nat \<Rightarrow> nat \<Rightarrow> int \<Rightarrow> nat \<Rightarrow> scan_end option" where
  "scan_chunks bv nb count len base i real_count max_free non_zero =
     (if i < count then
        (if real_count > count then panic
         else let b = (base + i) mod count in
           if b < length (bits bv) then
             (if bits bv ! b = - 1
              then scan_chunks bv nb count len base (Suc i) (Suc real_count) max_free (non_zero + 32)
              else (case scan_chunk bv nb count len i b 0 max_free non_zero of
                      None \<Rightarrow> None
                    | Some (Found start bv') \<Rightarrow> Some (Found start bv')
                    | Some (Next i' max_free' non_zero') \<Rightarrow>
                        scan_chunks bv nb count len base (Suc i') (Suc real_count)
                          max_free' non_zero'))
           else None)
      else Some (Next i max_free non_zero))"
  by pat_completeness auto
termination
  by (relation "measure (\<lambda>(bv, nb, count, len, base, i, rc, mf, nz). count - i)")
     (auto dest!: scan_chunk_i_le)

declare scan_chunks.simps [simp del]

text \<open>
  The result is the first bit of the range, or -1, with the value stored through
  \<open>biggest_free_chunk\<close> and the changed vector.
\<close>

definition GetFreeRangeOfBits :: "BitVector \<Rightarrow> int \<Rightarrow> (int \<times> int \<times> BitVector) option" where
  "GetFreeRangeOfBits bv len =
     (if len \<le> 0 \<or> len > numbits bv \<or> is_full bv then Some (-1, -1, bv)
      else let nb = nat (numbits bv);
               count = nb div 32 + (if nb mod 32 \<noteq> 0 then 1 else 0);
               base = nat (next_free bv) div 32
           in (case scan_chunks bv nb count (nat len) base 0 0 (-1) 0 of
                 None \<Rightarrow> None
               | Some (Found start bv') \<Rightarrow> Some (int start, -1, bv')
               | Some (Next i max_free non_zero) \<Rightarrow>
                   Some (-1, max_free,
                         if int non_zero \<ge> numbits bv then bv\<lparr>is_full := True\<rparr> else bv)))"

section \<open>The set of used bits\<close>

definition bit_set :: "chunk list \<Rightarrow> nat set" where
  "bit_set bs = {x. x div 32 < length bs \<and> bit (bs ! (x div 32)) (x mod 32)}"

definition used_bits :: "BitVector \<Rightarrow> nat set" where
  "used_bits bv = bit_set (bits bv) \<inter> {..< nat (numbits bv)}"

text \<open>Well-formed: the array covers every valid bit and the hint is not negative.\<close>

definition bv_wf :: "BitVector \<Rightarrow> bool" where
  "bv_wf bv \<longleftrightarrow> 0 \<le> numbits bv \<and> numbits bv \<le> 32 * int (length (bits bv)) \<and>
     0 \<le> next_free bv \<and> next_free bv \<le> numbits bv"

text \<open>No bit is set behind the last valid one.\<close>

definition tail_clear :: "BitVector \<Rightarrow> bool" where
  "tail_clear bv \<longleftrightarrow> bit_set (bits bv) \<subseteq> {..< nat (numbits bv)}"

lemma bit_set_pos:
  "t < 32 \<Longrightarrow> n < length bs \<Longrightarrow> n * 32 + t \<in> bit_set bs \<longleftrightarrow> bit (bs ! n) t"
  by (simp add: bit_set_def)

lemma bit_set_upd_or:
  assumes "n < length bs" and "t < 32"
  shows "bit_set (bs[n := or_bit (bs ! n) t]) = insert (n * 32 + t) (bit_set bs)"
  using assms by (auto simp: bit_set_def nth_list_update bit_rules split: if_splits)

lemma bit_set_upd_clr:
  assumes "n < length bs" and "t < 32"
  shows "bit_set (bs[n := clr_bit (bs ! n) t]) = bit_set bs - {n * 32 + t}"
  using assms by (auto simp: bit_set_def nth_list_update bit_rules split: if_splits)

lemma nat_div_32: "0 \<le> w \<Longrightarrow> nat (w div 32) = nat w div 32"
  by (simp add: nat_div_distrib)

lemma nat_mod_32: "0 \<le> w \<Longrightarrow> nat (w mod 32) = nat w mod 32"
  by (simp add: nat_mod_distrib)

lemmas chunk_index = nat_div_32 nat_mod_32

lemma bv_wf_index:
  "bv_wf bv \<Longrightarrow> 0 \<le> w \<Longrightarrow> w < numbits bv \<Longrightarrow> nat w div 32 < length (bits bv)"
  unfolding bv_wf_def by linarith

section \<open>Single bits: what each operation does\<close>

lemma SetBV_in_range:
  assumes "bv_wf bv" "0 \<le> w" "w < numbits bv"
  obtains bv' where "SetBV bv w = Some (True, bv')" "bv_wf bv'"
    "bit_set (bits bv') = insert (nat w) (bit_set (bits bv))"
    "numbits bv' = numbits bv" "next_free bv' = next_free bv" "is_full bv' = is_full bv"
proof -
  note i = bv_wf_index [OF assms]
  have "bit_set ((bits bv)[nat w div 32 := or_bit (bits bv ! (nat w div 32)) (nat w mod 32)]) =
      insert (nat w) (bit_set (bits bv))"
    using bit_set_upd_or [OF i, of "nat w mod 32"] by simp
  with assms i show thesis
    by (intro that [of "bv\<lparr>bits := (bits bv)[nat w div 32 :=
          or_bit (bits bv ! (nat w div 32)) (nat w mod 32)]\<rparr>"])
       (simp_all add: SetBV_def chunk_index Let_def bv_wf_def)
qed

lemma UnSetBV_in_range:
  assumes "bv_wf bv" "0 \<le> w" "w < numbits bv"
  obtains bv' where "UnSetBV bv w = Some (True, bv')" "bv_wf bv'"
    "bit_set (bits bv') = bit_set (bits bv) - {nat w}"
    "numbits bv' = numbits bv" "next_free bv' = w" "is_full bv' = is_full bv"
proof -
  note i = bv_wf_index [OF assms]
  have "bit_set ((bits bv)[nat w div 32 := clr_bit (bits bv ! (nat w div 32)) (nat w mod 32)]) =
      bit_set (bits bv) - {nat w}"
    using bit_set_upd_clr [OF i, of "nat w mod 32"] by simp
  with assms i show thesis
    by (intro that [of "bv\<lparr>bits := (bits bv)[nat w div 32 :=
          clr_bit (bits bv ! (nat w div 32)) (nat w mod 32)], next_free := w\<rparr>"])
       (simp_all add: UnSetBV_def chunk_index Let_def bv_wf_def)
qed

lemma IsSetBV_used:
  assumes "bv_wf bv"
  shows "IsSetBV bv w = Some (0 \<le> w \<and> w < numbits bv \<and> nat w \<in> used_bits bv)"
proof (cases "0 \<le> w \<and> w < numbits bv")
  case True
  with bv_wf_index [OF assms, of w] show ?thesis
    by (auto simp: IsSetBV_def chunk_index Let_def used_bits_def bit_set_def bit_rules)
next
  case False
  then show ?thesis by (auto simp: IsSetBV_def)
qed

lemma clear_bits_spec:
  "k + m \<le> 32 * length bs \<Longrightarrow>
     \<exists>bs'. clear_bits bs k m = Some bs' \<and> length bs' = length bs \<and>
       bit_set bs' = bit_set bs - {k..<k + m}"
proof (induction m arbitrary: bs k)
  case 0
  then show ?case by simp
next
  case (Suc m)
  let ?bs = "bs[k div 32 := clr_bit (bs ! (k div 32)) (k mod 32)]"
  have i: "k div 32 < length bs" using Suc.prems by simp
  have "Suc k + m \<le> 32 * length ?bs" using Suc.prems by simp
  from Suc.IH [OF this] obtain bs' where
    bs': "clear_bits ?bs (Suc k) m = Some bs'" "length bs' = length bs"
      "bit_set bs' = bit_set ?bs - {Suc k..<Suc k + m}"
    by auto
  have "bit_set ?bs = bit_set bs - {k}"
    using bit_set_upd_clr [OF i, of "k mod 32"] by simp
  moreover have "{k..<k + Suc m} = insert k {Suc k..<Suc k + m}" by auto
  ultimately have "bit_set bs' = bit_set bs - {k..<k + Suc m}" using bs'(3) by blast
  with bs' i show ?case by simp
qed

lemma UnSetRangeBV_in_range:
  assumes wf: "bv_wf bv" and r: "0 \<le> start" "0 \<le> len" "start + len \<le> numbits bv"
  obtains bv' where "UnSetRangeBV bv start len = Some (True, bv')" "bv_wf bv'"
    "bit_set (bits bv') = bit_set (bits bv) - {nat start..<nat (start + len)}"
    "numbits bv' = numbits bv" "next_free bv' = start" "is_full bv' = is_full bv"
proof -
  have "nat start + nat len \<le> 32 * length (bits bv)"
    using wf r unfolding bv_wf_def by linarith
  from clear_bits_spec [OF this] obtain bs' where bs':
    "clear_bits (bits bv) (nat start) (nat len) = Some bs'" "length bs' = length (bits bv)"
    "bit_set bs' = bit_set (bits bv) - {nat start..<nat start + nat len}"
    by auto
  with wf r show thesis
    by (intro that [of "bv\<lparr>next_free := start, bits := bs'\<rparr>"])
       (simp_all add: UnSetRangeBV_def bv_wf_def nat_add_distrib)
qed

section \<open>The interface of a bit map\<close>

text \<open>
  What a client of single bits relies on: with an invariant and the set of used bits as the
  abstraction, setting, clearing and testing are insertion, removal and membership.
\<close>

locale bit_map =
  fixes invar :: "'b \<Rightarrow> bool"
    and size_of :: "'b \<Rightarrow> int"
    and used :: "'b \<Rightarrow> nat set"
    and set_bit_op :: "'b \<Rightarrow> int \<Rightarrow> (bool \<times> 'b) option"
    and unset_bit_op :: "'b \<Rightarrow> int \<Rightarrow> (bool \<times> 'b) option"
    and is_set_op :: "'b \<Rightarrow> int \<Rightarrow> bool option"
  assumes set_law: "invar b \<Longrightarrow> 0 \<le> w \<Longrightarrow> w < size_of b \<Longrightarrow>
      \<exists>b'. set_bit_op b w = Some (True, b') \<and> invar b' \<and> size_of b' = size_of b \<and>
        used b' = insert (nat w) (used b)"
    and unset_law: "invar b \<Longrightarrow> 0 \<le> w \<Longrightarrow> w < size_of b \<Longrightarrow>
      \<exists>b'. unset_bit_op b w = Some (True, b') \<and> invar b' \<and> size_of b' = size_of b \<and>
        used b' = used b - {nat w}"
    and is_set_law: "invar b \<Longrightarrow>
      is_set_op b w = Some (0 \<le> w \<and> w < size_of b \<and> nat w \<in> used b)"
begin

lemma set_then_is_set:
  assumes "invar b" "0 \<le> w" "w < size_of b"
  shows "\<exists>b'. set_bit_op b w = Some (True, b') \<and> is_set_op b' w = Some True"
  using set_law [OF assms] is_set_law assms by fastforce

lemma unset_then_not_set:
  assumes "invar b" "0 \<le> w" "w < size_of b"
  shows "\<exists>b'. unset_bit_op b w = Some (True, b') \<and> is_set_op b' w = Some False"
  using unset_law [OF assms] is_set_law assms by fastforce

lemma set_other_unchanged:
  assumes "invar b" "0 \<le> w" "w < size_of b" "v \<noteq> w"
  shows "\<exists>b'. set_bit_op b w = Some (True, b') \<and> is_set_op b' v = is_set_op b v"
proof -
  obtain b' where b': "set_bit_op b w = Some (True, b')" "invar b'" "size_of b' = size_of b"
      "used b' = insert (nat w) (used b)"
    using set_law [OF assms(1-3)] by blast
  moreover have "is_set_op b' v = is_set_op b v"
    using b' assms by (auto simp: is_set_law [OF assms(1)] is_set_law [OF b'(2)])
  ultimately show ?thesis by blast
qed

lemma set_unset_restores:
  assumes "invar b" "0 \<le> w" "w < size_of b" "nat w \<notin> used b"
  shows "\<exists>b' b''. set_bit_op b w = Some (True, b') \<and> unset_bit_op b' w = Some (True, b'') \<and>
    used b'' = used b"
proof -
  obtain b' where b': "set_bit_op b w = Some (True, b')" "invar b'" "size_of b' = size_of b"
      "used b' = insert (nat w) (used b)"
    using set_law [OF assms(1-3)] by blast
  with unset_law [OF b'(2), of w] assms show ?thesis by auto
qed

end

interpretation bv: bit_map bv_wf numbits used_bits SetBV UnSetBV IsSetBV
proof unfold_locales
  fix b w
  assume b: "bv_wf b" "0 \<le> w" "w < numbits b"
  obtain b' where "SetBV b w = Some (True, b')" "bv_wf b'" "numbits b' = numbits b"
      "bit_set (bits b') = insert (nat w) (bit_set (bits b))"
    by (rule SetBV_in_range [OF b]) auto
  with b show "\<exists>b'. SetBV b w = Some (True, b') \<and> bv_wf b' \<and> numbits b' = numbits b \<and>
      used_bits b' = insert (nat w) (used_bits b)"
    by (auto simp: used_bits_def)
next
  fix b w
  assume b: "bv_wf b" "0 \<le> w" "w < numbits b"
  obtain b' where "UnSetBV b w = Some (True, b')" "bv_wf b'" "numbits b' = numbits b"
      "bit_set (bits b') = bit_set (bits b) - {nat w}"
    by (rule UnSetBV_in_range [OF b]) auto
  then show "\<exists>b'. UnSetBV b w = Some (True, b') \<and> bv_wf b' \<and> numbits b' = numbits b \<and>
      used_bits b' = used_bits b - {nat w}"
    by (auto simp: used_bits_def)
next
  fix b w
  assume "bv_wf b"
  then show "IsSetBV b w = Some (0 \<le> w \<and> w < numbits b \<and> nat w \<in> used_bits b)"
    by (rule IsSetBV_used)
qed

end
