(* ===== verification/Bit_Range.thy ===== *)
theory Bit_Range
  imports Bit_Vector
begin

text \<open>
  Correctness of \<open>GetFreeRangeOfBits\<close>, the allocator under the block map and the inode map:
  it always comes back (the \<open>panic\<close> in its loop is never reached), a range it returns was
  free and is now used and nothing else changed, \<open>is_full\<close> is only set when every bit is
  taken, and a search that starts in the first chunk misses no range.
\<close>

section \<open>One run of free bits\<close>

lemma scan_run_total:
  "nb \<le> 32 * length bs \<Longrightarrow> t < 32 \<Longrightarrow> \<exists>r. scan_run bs nb len k n t = Some r"
proof (induction bs nb len k n t rule: scan_run.induct)
  case (1 bs nb len k n t)
  show ?case
  proof (cases "k < len \<and> n * 32 + t < nb")
    case True
    with "1.prems" have n: "n < length bs" by linarith
    from "1.IH" [OF True n] "1.prems" True n show ?thesis
      by (subst scan_run.simps) (auto simp: less_Suc_eq)
  next
    case False
    then show ?thesis by (subst scan_run.simps) auto
  qed
qed

lemma atLeastLessThan_first: "(a::nat) < b \<Longrightarrow> {a..<b} = insert a {Suc a..<b}"
  by auto

lemma scan_run_spec:
  "scan_run bs nb len k n t = Some (k', n', t') \<Longrightarrow> t < 32 \<Longrightarrow> k \<le> len \<Longrightarrow>
     {n * 32 + t..<n * 32 + t + (k' - k)} \<inter> bit_set bs = {} \<and> k' \<le> len \<and>
     (k < k' \<longrightarrow> n * 32 + t + (k' - k) \<le> nb) \<and>
     (k' < len \<longrightarrow> n' * 32 + t' < nb \<longrightarrow> n' * 32 + t' \<in> bit_set bs)"
proof (induction bs nb len k n t rule: scan_run.induct)
  case (1 bs nb len k n t)
  note eq = scan_run.simps [of bs nb len k n t]
  show ?case
  proof (cases "k < len \<and> n * 32 + t < nb \<and> n < length bs \<and> \<not> tst_bit (bs ! n) t")
    case True
    then have c: "k < len \<and> n * 32 + t < nb" "n < length bs" "\<not> tst_bit (bs ! n) t" by auto
    obtain n1 t1 where nt: "scan_run bs nb len (Suc k) n1 t1 = Some (k', n', t')" "t1 < 32"
        "n1 * 32 + t1 = Suc (n * 32 + t)"
        "{n1 * 32 + t1..<n1 * 32 + t1 + (k' - Suc k)} \<inter> bit_set bs = {} \<and> k' \<le> len \<and>
         (Suc k < k' \<longrightarrow> n1 * 32 + t1 + (k' - Suc k) \<le> nb) \<and>
         (k' < len \<longrightarrow> n' * 32 + t' < nb \<longrightarrow> n' * 32 + t' \<in> bit_set bs)"
    proof (cases "t + 1 = 32")
      case T: True
      with "1.prems"(1) c have r: "scan_run bs nb len (Suc k) (Suc n) 0 = Some (k', n', t')"
        by (simp add: eq)
      from "1.IH"(1) [OF c T r] c have h: "{Suc n * 32 + 0..<Suc n * 32 + 0 + (k' - Suc k)} \<inter> bit_set bs = {} \<and> k' \<le> len \<and>
         (Suc k < k' \<longrightarrow> Suc n * 32 + 0 + (k' - Suc k) \<le> nb) \<and>
         (k' < len \<longrightarrow> n' * 32 + t' < nb \<longrightarrow> n' * 32 + t' \<in> bit_set bs)" by linarith
      show ?thesis by (rule that [OF r _ _ h]) (use T in auto)
    next
      case T: False
      with "1.prems"(1) c have r: "scan_run bs nb len (Suc k) n (Suc t) = Some (k', n', t')"
        by (simp add: eq)
      from "1.IH"(2) [OF c T r] c "1.prems"(2) T have h: "{n * 32 + Suc t..<n * 32 + Suc t + (k' - Suc k)} \<inter> bit_set bs = {} \<and> k' \<le> len \<and>
         (Suc k < k' \<longrightarrow> n * 32 + Suc t + (k' - Suc k) \<le> nb) \<and>
         (k' < len \<longrightarrow> n' * 32 + t' < nb \<longrightarrow> n' * 32 + t' \<in> bit_set bs)" by linarith
      show ?thesis by (rule that [OF r _ _ h]) (use T "1.prems"(2) in auto)
    qed
    have k': "Suc k \<le> k'" using scan_run_pos [OF nt(1,2)] by simp
    then have e: "n1 * 32 + t1 + (k' - Suc k) = n * 32 + t + (k' - k)" using nt(3) by linarith
    have "n * 32 + t \<notin> bit_set bs"
      using c "1.prems"(2) by (simp add: bit_set_pos bit_rules)
    moreover have "{n * 32 + t..<n * 32 + t + (k' - k)} =
        insert (n * 32 + t) {n1 * 32 + t1..<n1 * 32 + t1 + (k' - Suc k)}"
      using k' nt(3) unfolding e by auto
    ultimately have "{n * 32 + t..<n * 32 + t + (k' - k)} \<inter> bit_set bs = {}"
      using nt(4) by simp
    moreover have "n * 32 + t + (k' - k) \<le> nb"
      using nt(3,4) k' c e by (cases "Suc k < k'") auto
    ultimately show ?thesis using nt(4) by blast
  next
    case False
    with "1.prems" show ?thesis
      by (auto simp: eq bit_set_pos bit_rules split: if_splits)
  qed
qed

section \<open>Setting the run\<close>

lemma set_run_spec:
  "t < 32 \<Longrightarrow> n * 32 + t + m \<le> 32 * length bs \<Longrightarrow>
     \<exists>bs' n' t'. set_run bs m n t = Some (bs', n', t') \<and> length bs' = length bs \<and>
       n' * 32 + t' = n * 32 + t + m \<and> t' < 32 \<and>
       bit_set bs' = bit_set bs \<union> {n * 32 + t..<n * 32 + t + m}"
proof (induction m arbitrary: bs n t)
  case 0
  then show ?case by simp
next
  case (Suc m)
  let ?bs = "bs[n := or_bit (bs ! n) t]"
  have n: "n < length bs" using Suc.prems by linarith
  define n1 t1 where "n1 = (if t + 1 = 32 then Suc n else n)" "t1 = (if t + 1 = 32 then 0 else Suc t)"
  then have nt: "n1 * 32 + t1 = Suc (n * 32 + t)" "t1 < 32" using Suc.prems by auto
  then have "n1 * 32 + t1 + m \<le> 32 * length ?bs" using Suc.prems by simp
  from Suc.IH [OF nt(2) this] obtain bs' n' t' where
    r: "set_run ?bs m n1 t1 = Some (bs', n', t')" "length bs' = length bs"
      "n' * 32 + t' = n1 * 32 + t1 + m" "t' < 32"
      "bit_set bs' = bit_set ?bs \<union> {n1 * 32 + t1..<n1 * 32 + t1 + m}"
    by auto
  have "set_run bs (Suc m) n t = set_run ?bs m n1 t1"
    using n by (simp add: n1_t1_def Let_def)
  moreover have "{n * 32 + t..<n * 32 + t + Suc m} =
      insert (n * 32 + t) {n1 * 32 + t1..<n1 * 32 + t1 + m}" using nt(1) by auto
  ultimately show ?case using r bit_set_upd_or [OF n Suc.prems(1)] nt(1) by auto
qed

section \<open>What an allocation does\<close>

definition free_run :: "chunk list \<Rightarrow> nat \<Rightarrow> nat \<Rightarrow> nat \<Rightarrow> bool" where
  "free_run bs nb len x \<longleftrightarrow> x + len \<le> nb \<and> {x..<x + len} \<inter> bit_set bs = {}"


lemma free_run_end: "free_run bs nb len x \<Longrightarrow> x + len \<le> nb"
  by (simp add: free_run_def)

definition range_taken :: "BitVector \<Rightarrow> nat \<Rightarrow> nat \<Rightarrow> BitVector \<Rightarrow> bool" where
  "range_taken bv len start bv' \<longleftrightarrow>
     bit_set (bits bv') = bit_set (bits bv) \<union> {start..<start + len} \<and>
     length (bits bv') = length (bits bv) \<and> numbits bv' = numbits bv \<and>
     is_full bv' = is_full bv \<and> next_free bv' \<in> {next_free bv, int (start + len)}"

lemma take_range_spec:
  assumes "j < 32" and "b * 32 + j + len \<le> 32 * length (bits bv)" and "count \<le> length (bits bv)"
  shows "\<exists>bv'. take_range bv count len b j = Some (Found (b * 32 + j) bv') \<and>
     range_taken bv len (b * 32 + j) bv'"
proof -
  from set_run_spec [OF assms(1,2)] obtain bs' n' t' where
    "set_run (bits bv) len b j = Some (bs', n', t')" "length bs' = length (bits bv)"
    "bit_set bs' = bit_set (bits bv) \<union> {b * 32 + j..<b * 32 + j + len}"
    by auto
  with assms(3) show ?thesis by (auto simp: take_range_def range_taken_def)
qed

section \<open>One chunk\<close>

text \<open>The scan of a chunk comes back, and a range it finds was free.\<close>

lemma scan_chunk_sound:
  "nb \<le> 32 * length (bits bv) \<Longrightarrow> count \<le> length (bits bv) \<Longrightarrow> b < count \<Longrightarrow> nb \<le> 32 * count \<Longrightarrow>
   \<exists>r. scan_chunk bv nb count len i b j mf nz = Some r \<and>
     (\<forall>start bv'. r = Found start bv' \<longrightarrow>
        free_run (bits bv) nb len start \<and> range_taken bv len start bv')"
proof (induction bv nb count len i b j mf nz rule: scan_chunk.induct)
  case (1 bv nb count len i b j mf nz)
  note eq = scan_chunk.simps [of bv nb count len i b j mf nz]
  have b: "b < length (bits bv)" using "1.prems" by simp
  show ?case
  proof (cases "j < 32")
    case j: True
    show ?thesis
    proof (cases "tst_bit (bits bv ! b) j")
      case T: True
      with "1.IH"(1) [OF j b T "1.prems"] j b show ?thesis by (simp add: eq)
    next
      case F: False
      obtain k n t where r: "scan_run (bits bv) nb len 0 b j = Some (k, n, t)"
        using scan_run_total [OF "1.prems"(1) j] by (metis prod_cases3)
      note pos = scan_run_pos [OF r j] and spec = scan_run_spec [OF r j]
      show ?thesis
      proof (cases "k < len \<and> \<not> n * 32 + t \<ge> nb")
        case True
        then have c: "\<not> (nb \<le> n * 32 + t \<and> k < len)" "k < len" by auto
        have n: "n < count" using True "1.prems"(4) by linarith
        from "1.IH"(2) [OF j b F r refl refl refl c "1.prems"(1,2) n "1.prems"(4)] j b F r c
        show ?thesis by (simp add: eq Let_def)
      next
        case False
        show ?thesis
        proof (cases "k < len \<or> b * 32 + j + len > nb")
          case True
          with False j b F r show ?thesis by (auto simp: eq Let_def)
        next
          case ok: False
          then have k: "k = len" using spec by auto
          have fr: "free_run (bits bv) nb len (b * 32 + j)"
            using spec k ok by (simp add: free_run_def)
          have "b * 32 + j + len \<le> 32 * length (bits bv)" using ok "1.prems"(1) by linarith
          from take_range_spec [OF j this "1.prems"(2)] obtain bv' where
            "take_range bv count len b j = Some (Found (b * 32 + j) bv')"
            "range_taken bv len (b * 32 + j) bv'" by blast
          with fr ok k j b F r show ?thesis by (simp add: eq Let_def)
        qed
      qed
    qed
  next
    case False
    then show ?thesis by (simp add: eq)
  qed
qed


section \<open>The whole search\<close>

lemma scan_chunks_sound:
  "nb \<le> 32 * length (bits bv) \<Longrightarrow> count \<le> length (bits bv) \<Longrightarrow> nb \<le> 32 * count \<Longrightarrow>
   rc \<le> i \<Longrightarrow>
   \<exists>r. scan_chunks bv nb count len base i rc mf nz = Some r \<and>
     (\<forall>start bv'. r = Found start bv' \<longrightarrow>
        free_run (bits bv) nb len start \<and> range_taken bv len start bv')"
proof (induction bv nb count len base i rc mf nz rule: scan_chunks.induct)
  case (1 bv nb count len base i rc mf nz)
  note eq = scan_chunks.simps [of bv nb count len base i rc mf nz]
  show ?case
  proof (cases "i < count")
    case i: True
    define b where "b = (base + i) mod count"
    have bc: "b < count" using i by (simp add: b_def)
    then have bl: "b < length (bits bv)" using "1.prems" by simp
    have rc: "\<not> count < rc" using "1.prems" i by simp
    show ?thesis
    proof (cases "bits bv ! b = - 1")
      case full: True
      from "1.IH"(1) [OF i rc b_def bl full "1.prems"(1-3)] "1.prems"(4) i rc bl full
      show ?thesis by (simp add: eq Let_def flip: b_def)
    next
      case nf: False
      from scan_chunk_sound [OF "1.prems"(1,2) bc "1.prems"(3), of len i 0 mf nz]
      obtain r where r: "scan_chunk bv nb count len i b 0 mf nz = Some r"
        "\<forall>start bv'. r = Found start bv' \<longrightarrow>
           free_run (bits bv) nb len start \<and> range_taken bv len start bv'" by blast
      show ?thesis
      proof (cases r)
        case (Found start bv')
        with r i rc bl nf show ?thesis by (simp add: eq Let_def flip: b_def)
      next
        case (Next i' mf' nz')
        with r have s: "scan_chunk bv nb count len i b 0 mf nz = Some (Next i' mf' nz')" by simp
        have "Suc rc \<le> Suc i'" using scan_chunk_i_le [OF s] "1.prems"(4) by simp
        from "1.IH"(2) [OF i rc b_def bl nf s refl "1.prems"(1-3) this] i rc bl nf s
        show ?thesis by (simp add: eq Let_def flip: b_def)
      qed
    qed
  next
    case False
    then show ?thesis by (simp add: eq)
  qed
qed


section \<open>The count of used bits\<close>

text \<open>
  When the search starts in the first chunk, the count it keeps never exceeds the number of
  used bits below the position it has reached.
\<close>

lemma below_Suc_used:
  "p \<in> A \<Longrightarrow> card (A \<inter> {..<Suc p}) = Suc (card (A \<inter> {..<p}))" for p :: nat
  by (simp add: lessThan_Suc)

lemma below_mono: "p \<le> q \<Longrightarrow> card (A \<inter> {..<p}) \<le> card (A \<inter> {..<q})" for p :: nat
  by (rule card_mono) auto

lemma below_chunk:
  fixes A :: "nat set"
  assumes "\<forall>t < m. p + t \<in> A"
  shows "card (A \<inter> {..<p + m}) = card (A \<inter> {..<p}) + m"
  using assms by (induction m) (simp_all add: below_Suc_used)

lemma scan_chunk_count:
  "scan_chunk bv nb count len i b j mf nz = Some (Next i' mf' nz') \<Longrightarrow> i = b \<Longrightarrow> j \<le> 32 \<Longrightarrow>
   nz \<le> card (bit_set (bits bv) \<inter> {..<b * 32 + j}) \<Longrightarrow>
   nz' \<le> card (bit_set (bits bv) \<inter> {..<Suc i' * 32})"
proof (induction bv nb count len i b j mf nz rule: scan_chunk.induct)
  case (1 bv nb count len i b j mf nz)
  note eq = scan_chunk.simps [of bv nb count len i b j mf nz]
  let ?U = "bit_set (bits bv)"
  show ?case
  proof (cases "j < 32")
    case j: True
    from "1.prems"(1) j have b: "b < length (bits bv)" by (auto simp: eq split: if_splits)
    show ?thesis
    proof (cases "tst_bit (bits bv ! b) j")
      case T: True
      then have "b * 32 + j \<in> ?U" using j b by (simp add: bit_set_pos bit_rules)
      with "1.prems"(4) have *: "Suc nz \<le> card (?U \<inter> {..<b * 32 + Suc j})"
        by (simp add: below_Suc_used)
      from "1.prems"(1) j b T
      have "scan_chunk bv nb count len i b (Suc j) mf (Suc nz) = Some (Next i' mf' nz')"
        by (simp add: eq)
      from "1.IH"(1) [OF j b T this "1.prems"(2) _ *] j show ?thesis by simp
    next
      case F: False
      from "1.prems"(1) j b F obtain k n t where
        r: "scan_run (bits bv) nb len 0 b j = Some (k, n, t)"
        by (auto simp: eq split: option.splits)
      note pos = scan_run_pos [OF r j]
      have b_n: "b \<le> n" using pos j by linarith
      show ?thesis
      proof (cases "k < len \<and> \<not> n * 32 + t \<ge> nb")
        case True
        then have c: "\<not> (nb \<le> n * 32 + t \<and> k < len)" "k < len" by auto
        from "1.prems"(1) j b F r c
        have s: "scan_chunk bv nb count len (i + (n - b)) n (Suc t)
                (if mf < int k then int k else mf) nz = Some (Next i' mf' nz')"
          by (simp add: eq Let_def split: if_splits)
        have "b * 32 + j \<le> n * 32 + Suc t" using pos by simp
        with "1.prems"(4) have *: "nz \<le> card (?U \<inter> {..<n * 32 + Suc t})"
          using below_mono [of "b * 32 + j" "n * 32 + Suc t" ?U] by linarith
        have "i + (n - b) = n" using "1.prems"(2) b_n by simp
        from "1.IH"(2) [OF j b F r refl refl refl c s this _ *] pos show ?thesis by simp
      next
        case False
        with "1.prems"(1) j b F r have "nz' = nz"
          by (auto simp: eq Let_def take_range_def split: if_splits)
        moreover have "b * 32 + j \<le> Suc i' * 32"
          using scan_chunk_i_le [OF "1.prems"(1)] "1.prems"(2) j by simp
        ultimately show ?thesis using "1.prems"(4) below_mono le_trans by blast
      qed
    qed
  next
    case False
    with "1.prems"(1,3) have "i' = i" "nz' = nz" "j = 32" by (simp_all add: eq)
    with "1.prems"(2,4) show ?thesis by (simp add: add.commute)
  qed
qed

lemma scan_chunks_count:
  "scan_chunks bv nb count len 0 i rc mf nz = Some (Next i' mf' nz') \<Longrightarrow>
   nz \<le> card (bit_set (bits bv) \<inter> {..<i * 32}) \<Longrightarrow>
   nz' \<le> card (bit_set (bits bv) \<inter> {..<i' * 32})"
proof (induction bv nb count len "0::nat" i rc mf nz rule: scan_chunks.induct)
  case (1 bv nb count len i rc mf nz)
  note eq = scan_chunks.simps [of bv nb count len 0 i rc mf nz]
  let ?U = "bit_set (bits bv)"
  show ?case
  proof (cases "i < count")
    case i: True
    from "1.prems"(1) i have rc: "\<not> count < rc" and bl: "i < length (bits bv)"
      by (auto simp: eq halt_simps Let_def split: if_splits)
    show ?thesis
    proof (cases "bits bv ! i = - 1")
      case full: True
      have "\<forall>t < 32. i * 32 + t \<in> ?U"
        using full bl by (simp add: bit_set_def word_all_ones_bit)
      then have *: "nz + 32 \<le> card (?U \<inter> {..<Suc i * 32})"
        using "1.prems"(2) below_chunk [of 32 "i * 32" ?U] by (simp add: add.commute)
      from "1.prems"(1) i rc bl full
      have "scan_chunks bv nb count len 0 (Suc i) (Suc rc) mf (nz + 32) = Some (Next i' mf' nz')"
        by (simp add: eq Let_def)
      from "1.hyps"(1) [OF i rc refl _ _ this *] i bl full show ?thesis by simp
    next
      case nf: False
      from "1.prems"(1) i rc bl nf obtain i1 mf1 nz1 where
        s: "scan_chunk bv nb count len i i 0 mf nz = Some (Next i1 mf1 nz1)"
        and c: "scan_chunks bv nb count len 0 (Suc i1) (Suc rc) mf1 nz1 = Some (Next i' mf' nz')"
        by (auto simp: eq Let_def split: option.splits scan_end.splits)
      have "nz1 \<le> card (?U \<inter> {..<Suc i1 * 32})"
        by (rule scan_chunk_count [OF s refl]) (use "1.prems"(2) in auto)
      from "1.hyps"(2) [OF i rc refl _ _ _ refl c this] i bl nf s show ?thesis by simp
    qed
  next
    case False
    with "1.prems" show ?thesis by (simp add: eq)
  qed
qed


section \<open>The allocator\<close>

definition num_chunks :: "nat \<Rightarrow> nat" where
  "num_chunks nb = nb div 32 + (if nb mod 32 \<noteq> 0 then 1 else 0)"

lemma num_chunks_cover: "nb \<le> 32 * num_chunks nb"
  by (auto simp: num_chunks_def)

lemma num_chunks_least:
  assumes "nb \<le> 32 * m"
  shows "num_chunks nb \<le> m"
proof (cases "nb mod 32 = 0")
  case True
  with assms show ?thesis by (auto simp: num_chunks_def)
next
  case False
  with assms div_mult_mod_eq [of nb 32] have "nb div 32 < m" by linarith
  with False show ?thesis by (simp add: num_chunks_def)
qed

lemma bv_wf_chunks:
  "bv_wf bv \<Longrightarrow> nat (numbits bv) \<le> 32 * length (bits bv) \<and>
     num_chunks (nat (numbits bv)) \<le> length (bits bv)"
  by (auto simp: bv_wf_def intro!: num_chunks_least)

lemma range_taken_wf:
  "bv_wf bv \<Longrightarrow> free_run (bits bv) (nat (numbits bv)) len start \<Longrightarrow> range_taken bv len start bv' \<Longrightarrow>
     bv_wf bv' \<and> used_bits bv' = used_bits bv \<union> {start..<start + len}"
  by (auto simp: bv_wf_def range_taken_def used_bits_def free_run_def)

text \<open>The allocator always comes back, with one of two outcomes.\<close>

lemma GetFreeRangeOfBits_cases:
  assumes wf: "bv_wf bv"
  obtains (none) big bv' where "GetFreeRangeOfBits bv len = Some (-1, big, bv')"
      "bv' = bv \<or> bv' = bv\<lparr>is_full := True\<rparr>"
  | (some) start bv' where "GetFreeRangeOfBits bv len = Some (int start, -1, bv')" "0 < len"
      "free_run (bits bv) (nat (numbits bv)) (nat len) start" "range_taken bv (nat len) start bv'"
proof (cases "len \<le> 0 \<or> len > numbits bv \<or> is_full bv")
  case True
  then show ?thesis using none by (simp add: GetFreeRangeOfBits_def)
next
  case False
  let ?nb = "nat (numbits bv)"
  note w = bv_wf_chunks [OF wf]
  from scan_chunks_sound [OF conjunct1 [OF w] conjunct2 [OF w] num_chunks_cover, of 0 0]
  obtain r where r: "scan_chunks bv ?nb (num_chunks ?nb) (nat len) (nat (next_free bv) div 32)
      0 0 (-1) 0 = Some r"
    "\<forall>start bv'. r = Found start bv' \<longrightarrow>
        free_run (bits bv) ?nb (nat len) start \<and> range_taken bv (nat len) start bv'"
    by (metis le_refl)
  show ?thesis
  proof (cases r)
    case (Found start bv')
    with r False show ?thesis
      by (intro some [of start bv']) (auto simp: GetFreeRangeOfBits_def num_chunks_def Let_def)
  next
    case (Next i mf nz)
    show ?thesis
      by (rule none) (use r Next False in \<open>auto simp: GetFreeRangeOfBits_def num_chunks_def Let_def\<close>)
  qed
qed

lemma GetFreeRangeOfBits_none:
  assumes "GetFreeRangeOfBits bv len = Some (-1, big, bv')" "0 < len" "len \<le> numbits bv"
    "\<not> is_full bv" "0 \<le> next_free bv" "next_free bv < 32"
  obtains i nz where "scan_chunks bv (nat (numbits bv)) (num_chunks (nat (numbits bv))) (nat len)
      0 0 0 (-1) 0 = Some (Next i big nz)"
    "bv' = (if int nz \<ge> numbits bv then bv\<lparr>is_full := True\<rparr> else bv)"
proof -
  have "nat (next_free bv) div 32 = 0" using assms(6) by simp
  then show thesis using assms that
    by (auto simp: GetFreeRangeOfBits_def num_chunks_def Let_def
        split: option.splits scan_end.splits)
qed

section \<open>Requests for one bit\<close>

text \<open>
  A request for one bit is complete wherever the hint is, when the bits fill whole chunks: a chunk that is not full has a bit to
  give, so the search only goes on over full chunks, and each of them is looked at once.
\<close>

lemma scan_chunk_one:
  "b < length (bits bv) \<Longrightarrow> (b + 1) * 32 \<le> nb \<Longrightarrow> j \<le> t \<Longrightarrow> t < 32 \<Longrightarrow> \<not> tst_bit (bits bv ! b) t \<Longrightarrow> count \<le> length (bits bv) \<Longrightarrow>
   \<exists>start bv'. scan_chunk bv nb count 1 i b j mf nz = Some (Found start bv')"
proof (induction "32 - j" arbitrary: j nz rule: less_induct)
  case less
  note eq = scan_chunk.simps [of bv nb count "Suc 0" i b j mf nz]
  have j: "j < 32" using less.prems(3,4) by simp
  show ?case
  proof (cases "tst_bit (bits bv ! b) j")
    case True
    then have "Suc j \<le> t" using less.prems(3,5) by (cases "j = t") auto
    then have "\<exists>start bv'. scan_chunk bv nb count 1 i b (Suc j) mf (Suc nz) = Some (Found start bv')"
      using less.hyps [of "Suc j"] less.prems j by simp
    then show ?thesis using True j less.prems(1) by (simp add: eq)
  next
    case False
    have lt: "b * 32 + j < nb" using j less.prems(2) by simp
    have r: "\<exists>n u. scan_run (bits bv) nb 1 0 b j = Some (1, n, u)"
      using False lt less.prems(1) by (subst scan_run.simps) (simp add: scan_run.simps [of _ _ _ "Suc 0"])
    have "b * 32 + j + 1 \<le> 32 * length (bits bv)" using j less.prems(1) by simp
    from take_range_spec [OF j this less.prems(6)] obtain bv' where
      "take_range bv count 1 b j = Some (Found (b * 32 + j) bv')" by blast
    then show ?thesis using r False j lt less.prems(1) by (auto simp: eq Let_def)
  qed
qed

lemma not_full_chunk: "c \<noteq> - 1 \<Longrightarrow> \<exists>t < 32. \<not> tst_bit c t" for c :: chunk
proof (rule ccontr)
  assume "c \<noteq> - 1" "\<not> (\<exists>t < 32. \<not> tst_bit c t)"
  then have "c = - 1" by (intro bit_word_eqI) (auto simp: bit_rules word_all_ones_bit)
  then show False using \<open>c \<noteq> - 1\<close> by simp
qed

lemma scan_chunks_one:
  "scan_chunks bv nb count 1 base i rc mf nz = Some (Next i' mf' nz') \<Longrightarrow> nb = 32 * count \<Longrightarrow> count \<le> length (bits bv) \<Longrightarrow>
   i \<le> x \<Longrightarrow> x < count \<Longrightarrow> bits bv ! ((base + x) mod count) = - 1"
proof (induction "count - i" arbitrary: i rc nz rule: less_induct)
  case less
  note eq = scan_chunks.simps [of bv nb count "Suc 0" base i rc mf nz]
  let ?b = "(base + i) mod count"
  have i: "i < count" using less.prems(4,5) by simp
  have b: "?b < count" using i by simp
  with less.prems(3) have b: "?b < count" "?b < length (bits bv)" by linarith+
  have rc: "\<not> count < rc" using less.prems(1) i by (auto simp: eq halt_simps split: if_splits)
  show ?case
  proof (cases "bits bv ! ?b = - 1")
    case True
    show ?thesis
    proof (cases "x = i")
      case False
      have "scan_chunks bv nb count 1 base (Suc i) (Suc rc) mf (nz + 32) = Some (Next i' mf' nz')"
        using less.prems(1) i b rc True by (simp add: eq Let_def)
      then show ?thesis using less.hyps [of "Suc i"] less.prems i False by simp
    qed (use True in simp)
  next
    case False
    obtain t where "t < 32" "\<not> tst_bit (bits bv ! ?b) t" using not_full_chunk [OF False] by blast
    then obtain start bv' where "scan_chunk bv nb count 1 i ?b 0 mf nz = Some (Found start bv')"
      using scan_chunk_one [of ?b bv nb 0 t count i mf nz] b less.prems(2,3) by auto
    then show ?thesis using less.prems(1) i b rc False by (simp add: eq Let_def)
  qed
qed

lemma wrap_inverse:
  fixes a b c :: nat
  assumes "b < c"
  shows "(a + (b + (c - a mod c)) mod c) mod c = b"
proof -
  have r: "a mod c < c" using assms by simp
  have "(a + (b + (c - a mod c)) mod c) mod c = (a mod c + (b + (c - a mod c))) mod c" by (simp only: mod_add_left_eq mod_add_right_eq)
  also have "a mod c + (b + (c - a mod c)) = b + c" using r by linarith
  finally show ?thesis using assms by simp
qed

lemma GetFreeRangeOfBits_one:
  assumes wf: "bv_wf bv" and d: "32 dvd numbits bv" and nf: "\<not> is_full bv" and n: "1 \<le> numbits bv"
    and r: "GetFreeRangeOfBits bv 1 = Some (-1, big, bv')"
  shows "used_bits bv = {..<nat (numbits bv)}"
proof -
  let ?c = "nat (numbits bv) div 32" and ?base = "nat (next_free bv) div 32"
  obtain q where "numbits bv = 32 * q" using d by (auto simp: dvd_def)
  then have m: "nat (numbits bv) = 32 * ?c" using n by (simp add: nat_mult_distrib)
  then have m0: "nat (numbits bv) mod 32 = 0" by (metis mod_mult_self1_is_0)
  have c: "?c \<le> length (bits bv)" using wf m by (auto simp: bv_wf_def)
  obtain i mf nz where s: "scan_chunks bv (nat (numbits bv)) ?c 1 ?base 0 0 (-1) 0 = Some (Next i mf nz)"
    using r nf n m0 by (auto simp: GetFreeRangeOfBits_def Let_def split: option.splits scan_end.splits if_splits)
  have full: "bits bv ! b = - 1" if b: "b < ?c" for b
  proof -
    let ?x = "(b + (?c - ?base mod ?c)) mod ?c"
    have "(?base + ?x) mod ?c = b" by (rule wrap_inverse [OF b])
    then show ?thesis using scan_chunks_one [OF s m c, of ?x] b by simp
  qed
  have "x \<in> used_bits bv" if "x < nat (numbits bv)" for x
  proof -
    have "x div 32 < ?c" using that m by (simp add: div_less_iff_less_mult)
    then show ?thesis using full [of "x div 32"] c that by (simp add: used_bits_def bit_set_def word_all_ones_bit)
  qed
  then show ?thesis by (auto simp: used_bits_def)
qed

section \<open>Properties of the allocator\<close>

text \<open>Claim C17: on a well-formed vector \<open>GetFreeRangeOfBits\<close> always returns.  Either it returns
  -1 and the used bits are as before, or it returns the start of a range of \<open>len\<close> valid bits that
  were all free; those bits are then used and no other bit changed.  The vector stays
  well-formed.\<close>

theorem GetFreeRangeOfBits_correct:
  assumes "bv_wf bv"
  shows "\<exists>start big bv'. GetFreeRangeOfBits bv len = Some (start, big, bv') \<and>
    bv_wf bv' \<and> numbits bv' = numbits bv \<and>
    (start = -1 \<and> used_bits bv' = used_bits bv \<or>
     0 < len \<and> 0 \<le> start \<and> start + len \<le> numbits bv \<and>
     used_bits bv \<inter> {nat start..<nat (start + len)} = {} \<and>
     used_bits bv' = used_bits bv \<union> {nat start..<nat (start + len)})"
proof (rule GetFreeRangeOfBits_cases [OF assms, of len])
  fix big bv'
  assume "GetFreeRangeOfBits bv len = Some (-1, big, bv')"
    and "bv' = bv \<or> bv' = bv\<lparr>is_full := True\<rparr>"
  with assms show ?thesis by (auto simp: bv_wf_def used_bits_def)
next
  fix start bv'
  assume r: "GetFreeRangeOfBits bv len = Some (int start, -1, bv')" "0 < len"
    and fr: "free_run (bits bv) (nat (numbits bv)) (nat len) start"
    and t: "range_taken bv (nat len) start bv'"
  have "used_bits bv \<inter> {start..<start + nat len} = {}"
    using fr by (auto simp: free_run_def used_bits_def disjoint_iff)
  moreover have "int start + len \<le> numbits bv" "nat (int start + len) = start + nat len"
    using free_run_end [OF fr] r(2) by auto
  moreover have "numbits bv' = numbits bv" using t by (simp add: range_taken_def)
  ultimately show ?thesis using r range_taken_wf [OF assms fr t] by auto
qed

theorem GetFreeRangeOfBits_correct_witness:
  "\<exists>start big bv'. GetFreeRangeOfBits \<lparr>numbits = 40, next_free = 0, is_full = False, bits = [7, 0]\<rparr> 4
      = Some (start, big, bv') \<and> bv_wf bv'"
  using GetFreeRangeOfBits_correct
    [of "\<lparr>numbits = 40, next_free = 0, is_full = False, bits = [7, 0]\<rparr>" 4]
  by (fastforce simp: bv_wf_def)



text \<open>A search whose hint lies in the first chunk marks the vector full only when it is:
  on a vector with no bit set behind the last valid one, the mark goes on only if every valid
  bit is used.\<close>

theorem GetFreeRangeOfBits_full_mark:
  assumes "bv_wf bv" "tail_clear bv" "next_free bv < 32" "\<not> is_full bv"
    and "GetFreeRangeOfBits bv len = Some (-1, big, bv')" "is_full bv'"
  shows "used_bits bv = {..<nat (numbits bv)}"
proof -
  have nf: "0 \<le> next_free bv" using assms(1) by (simp add: bv_wf_def)
  have len: "0 < len" "len \<le> numbits bv"
    using assms(4-6) by (auto simp: GetFreeRangeOfBits_def split: if_splits)
  from GetFreeRangeOfBits_none [OF assms(5) len assms(4) nf assms(3)] obtain i nz where
    s: "scan_chunks bv (nat (numbits bv)) (num_chunks (nat (numbits bv))) (nat len)
      0 0 0 (-1) 0 = Some (Next i big nz)"
    and "bv' = (if int nz \<ge> numbits bv then bv\<lparr>is_full := True\<rparr> else bv)" by blast
  with assms(4,6) have "nat (numbits bv) \<le> nz" by (auto split: if_splits)
  also have "nz \<le> card (bit_set (bits bv) \<inter> {..<i * 32})"
    by (rule scan_chunks_count [OF s]) simp
  also have "\<dots> \<le> card (used_bits bv)"
    by (rule card_mono) (use assms(2) in \<open>auto simp: used_bits_def tail_clear_def\<close>)
  finally show ?thesis
    by (intro card_seteq) (auto simp: used_bits_def)
qed

theorem GetFreeRangeOfBits_full_mark_witness:
  "used_bits \<lparr>numbits = 32, next_free = 0, is_full = False, bits = [- 1]\<rparr> = {..<nat 32}"
proof -
  let ?bv = "\<lparr>numbits = 32, next_free = 0, is_full = False, bits = [- 1]\<rparr>"
  have "tail_clear ?bv" by (auto simp: tail_clear_def bit_set_def div_less_iff_less_mult)
  moreover have "GetFreeRangeOfBits ?bv 1 = Some (-1, -1, ?bv\<lparr>is_full := True\<rparr>)" by code_simp
  ultimately show ?thesis
    using GetFreeRangeOfBits_full_mark [of ?bv 1 "-1" "?bv\<lparr>is_full := True\<rparr>"]
    by (simp add: bv_wf_def)
qed

text \<open>
  Both restrictions to a hint in the first chunk are needed.  After a run that reaches the end of
  the vector the outer loop steps over the first chunk of the second round, so a free range there
  is missed; and after a run that crosses from the second round back into the chunk of the hint,
  the used bits of that chunk are counted twice, so a vector with free bits is marked full.
\<close>

text \<open>On a vector of 40 bits with the bits 0 to 7 and 36 to 39 free and the hint at 36,
  a request for five bits returns -1 and leaves the vector as it is: the range at bit 0, which is
  long enough, is not found.\<close>

theorem GetFreeRangeOfBits_wrap_misses:
  "GetFreeRangeOfBits \<lparr>numbits = 40, next_free = 36, is_full = False, bits = [0xFFFFFF00, 0x0F]\<rparr> 5
     = Some (-1, 4, \<lparr>numbits = 40, next_free = 36, is_full = False, bits = [0xFFFFFF00, 0x0F]\<rparr>) \<and>
   list_all (\<lambda>x. IsSetBV \<lparr>numbits = 40, next_free = 36, is_full = False, bits = [0xFFFFFF00, 0x0F]\<rparr> x
     = Some False) [0, 1, 2, 3, 4, 5, 6, 7]"
  by code_simp

text \<open>On a vector of 64 bits with the bits 31 and 32 free and the hint in the second
  chunk, a request for three bits marks the vector full, and the request for one bit that follows
  fails although two bits are free.\<close>

theorem GetFreeRangeOfBits_false_full:
  "GetFreeRangeOfBits \<lparr>numbits = 64, next_free = 32, is_full = False, bits = [0x7FFFFFFF, 0xFFFFFFFE]\<rparr> 3
     = Some (-1, 2, \<lparr>numbits = 64, next_free = 32, is_full = True, bits = [0x7FFFFFFF, 0xFFFFFFFE]\<rparr>) \<and>
   GetFreeRangeOfBits \<lparr>numbits = 64, next_free = 32, is_full = True, bits = [0x7FFFFFFF, 0xFFFFFFFE]\<rparr> 1
     = Some (-1, -1, \<lparr>numbits = 64, next_free = 32, is_full = True, bits = [0x7FFFFFFF, 0xFFFFFFFE]\<rparr>) \<and>
   IsSetBV \<lparr>numbits = 64, next_free = 32, is_full = True, bits = [0x7FFFFFFF, 0xFFFFFFFE]\<rparr> 31
     = Some False"
  by code_simp

end
