(* ===== verification/Cache_List.thy ===== *)
theory Cache_List
  imports FS_Prelude
begin

text \<open>
  The doubly linked lists of \<open>cache.c\<close> (\<open>delete_from_list\<close>, \<open>add_to_head\<close>, \<open>add_to_tail\<close>), with
  their pointers.  A cache entry is named by its address, a natural number; NULL is \<open>None\<close>.
  \<open>links\<close> holds the \<open>next\<close> and \<open>prev\<close> fields of all entries, \<open>cache_ent_list\<close> the two ends of one
  list.  Each operation is related to the operation on the list of the addresses from the LRU
  end to the MRU end; the model of the cache works on those lists.
\<close>

section \<open>Pointers\<close>

record links =
  nxt :: "nat \<Rightarrow> nat option"
  prv :: "nat \<Rightarrow> nat option"

record cache_ent_list =
  lru :: "nat option"
  mru :: "nat option"

definition set_nxt :: "nat \<Rightarrow> nat option \<Rightarrow> links \<Rightarrow> links" where
  "set_nxt a p h = h\<lparr>nxt := (nxt h)(a := p)\<rparr>"

definition set_prv :: "nat \<Rightarrow> nat option \<Rightarrow> links \<Rightarrow> links" where
  "set_prv a p h = h\<lparr>prv := (prv h)(a := p)\<rparr>"

definition delete_from_list ::
  "cache_ent_list \<Rightarrow> nat \<Rightarrow> links \<Rightarrow> cache_ent_list \<times> links" where
  "delete_from_list cel ce h0 =
     (let h1 = (case nxt h0 ce of None \<Rightarrow> h0 | Some n \<Rightarrow> set_prv n (prv h0 ce) h0);
          h2 = (case prv h1 ce of None \<Rightarrow> h1 | Some p \<Rightarrow> set_nxt p (nxt h1 ce) h1);
          cel1 = (if lru cel = Some ce then cel\<lparr>lru := nxt h2 ce\<rparr> else cel);
          cel2 = (if mru cel1 = Some ce then cel1\<lparr>mru := prv h2 ce\<rparr> else cel1)
      in (cel2, set_prv ce None (set_nxt ce None h2)))"

definition add_to_head ::
  "cache_ent_list \<Rightarrow> nat \<Rightarrow> links \<Rightarrow> (cache_ent_list \<times> links) option" where
  "add_to_head cel ce h0 =
     (if nxt h0 ce \<noteq> None \<or> prv h0 ce \<noteq> None then panic
      else let h1 = set_prv ce (mru cel) (set_nxt ce None h0);
               h2 = (case mru cel of None \<Rightarrow> h1 | Some m \<Rightarrow> set_nxt m (Some ce) h1);
               cel1 = cel\<lparr>mru := Some ce\<rparr>
           in Some (if lru cel1 = None then cel1\<lparr>lru := Some ce\<rparr> else cel1, h2))"

definition add_to_tail ::
  "cache_ent_list \<Rightarrow> nat \<Rightarrow> links \<Rightarrow> (cache_ent_list \<times> links) option" where
  "add_to_tail cel ce h0 =
     (if nxt h0 ce \<noteq> None \<or> prv h0 ce \<noteq> None then panic
      else let h1 = set_prv ce None (set_nxt ce (lru cel) h0);
               h2 = (case lru cel of None \<Rightarrow> h1 | Some m \<Rightarrow> set_prv m (Some ce) h1);
               cel1 = cel\<lparr>lru := Some ce\<rparr>
           in Some (if mru cel1 = None then cel1\<lparr>mru := Some ce\<rparr> else cel1, h2))"

section \<open>The list a pair of ends stands for\<close>

definition first_of :: "nat list \<Rightarrow> nat option \<Rightarrow> nat option" where
  "first_of xs q = (case xs of [] \<Rightarrow> q | x # _ \<Rightarrow> Some x)"

definition last_of :: "nat option \<Rightarrow> nat list \<Rightarrow> nat option" where
  "last_of p xs = (if xs = [] then p else Some (last xs))"

fun dseg :: "links \<Rightarrow> nat option \<Rightarrow> nat list \<Rightarrow> nat option \<Rightarrow> bool" where
  "dseg h p [] q = True"
| "dseg h p (x # xs) q =
     (prv h x = p \<and> nxt h x = first_of xs q \<and> dseg h (Some x) xs q)"

definition dlist :: "links \<Rightarrow> cache_ent_list \<Rightarrow> nat list \<Rightarrow> bool" where
  "dlist h cel xs \<longleftrightarrow> distinct xs \<and> dseg h None xs None \<and>
     lru cel = first_of xs None \<and> mru cel = last_of None xs"

text \<open>An entry that is in no list.\<close>

definition detached :: "links \<Rightarrow> nat \<Rightarrow> bool" where
  "detached h a \<longleftrightarrow> nxt h a = None \<and> prv h a = None"

lemma first_of_simps [simp]: "first_of [] q = q" "first_of (x # xs) q = Some x"
  by (simp_all add: first_of_def)

lemma last_of_simps [simp]: "last_of p [] = p" "last_of p (x # xs) = last_of (Some x) xs"
  by (simp_all add: last_of_def)

lemma first_of_append [simp]: "first_of (xs @ ys) q = first_of xs (first_of ys q)"
  by (cases xs) simp_all

lemma last_of_append [simp]: "last_of p (xs @ ys) = last_of (last_of p xs) ys"
  by (simp add: last_of_def)

lemma dseg_append [simp]:
  "dseg h p (xs @ ys) q \<longleftrightarrow> dseg h p xs (first_of ys q) \<and> dseg h (last_of p xs) ys q"
  by (induction xs arbitrary: p) auto

lemma set_fields [simp]:
  "nxt (set_nxt a v h) = (nxt h)(a := v)" "prv (set_nxt a v h) = prv h"
  "nxt (set_prv a v h) = nxt h" "prv (set_prv a v h) = (prv h)(a := v)"
  by (simp_all add: set_nxt_def set_prv_def)

lemma dseg_frame:
  "(\<And>a. a \<in> set xs \<Longrightarrow> nxt h' a = nxt h a \<and> prv h' a = prv h a) \<Longrightarrow>
     dseg h' p xs q = dseg h p xs q"
  by (induction xs arbitrary: p) auto

lemma first_of_mem: "first_of xs None = Some a \<Longrightarrow> a \<in> set xs"
  by (cases xs) auto

lemma last_of_mem: "last_of None xs = Some a \<Longrightarrow> a \<in> set xs"
  by (auto simp: last_of_def split: if_splits)

text \<open>Changing only the successor of the last, or only the predecessor of the first.\<close>

lemma dseg_new_succ:
  "distinct xs \<Longrightarrow> dseg h p xs q \<Longrightarrow>
   (case last_of None xs of None \<Rightarrow> True | Some l \<Rightarrow> nxt h' l = q') \<Longrightarrow>
   (\<And>a. a \<in> set xs \<Longrightarrow> last_of None xs \<noteq> Some a \<Longrightarrow> nxt h' a = nxt h a) \<Longrightarrow>
   (\<And>a. a \<in> set xs \<Longrightarrow> prv h' a = prv h a) \<Longrightarrow> dseg h' p xs q'"
proof (induction xs arbitrary: p)
  case (Cons x xs)
  show ?case
  proof (cases xs)
    case Nil
    with Cons.prems show ?thesis by auto
  next
    case (Cons y ys)
    then have l: "last_of None (x # xs) = last_of None xs" by (simp add: last_of_def)
    have "last_of None xs \<noteq> Some x" using Cons.prems(1) by (auto dest: last_of_mem)
    with Cons.prems(2) Cons.prems(4) [of x] have "nxt h' x = Some y"
      using Cons by (simp add: last_of_def)
    moreover have "dseg h' (Some x) xs q'"
      by (rule Cons.IH) (use Cons.prems l in auto)
    ultimately show ?thesis using Cons.prems(2,5) Cons by simp
  qed
qed simp

lemma dseg_new_pred:
  assumes "distinct xs" "dseg h p xs q"
    and "case first_of xs None of None \<Rightarrow> True | Some a \<Rightarrow> prv h' a = p'"
    and "\<And>a. a \<in> set xs \<Longrightarrow> first_of xs None \<noteq> Some a \<Longrightarrow> prv h' a = prv h a"
    and "\<And>a. a \<in> set xs \<Longrightarrow> nxt h' a = nxt h a"
  shows "dseg h' p' xs q"
proof (cases xs)
  case (Cons x ys)
  have "dseg h' (Some x) ys q = dseg h (Some x) ys q"
    by (rule dseg_frame) (use assms Cons in auto)
  with assms Cons show ?thesis by auto
qed simp

section \<open>The operations on the lists\<close>

lemma delete_from_list_refines:
  assumes d: "dlist h cel xs" and m: "ce \<in> set xs"
  shows "\<exists>cel' h'. delete_from_list cel ce h = (cel', h') \<and> dlist h' cel' (remove1 ce xs) \<and>
    detached h' ce \<and> (\<forall>a. a \<notin> set xs \<longrightarrow> nxt h' a = nxt h a \<and> prv h' a = prv h a)"
proof -
  obtain ys zs where xs: "xs = ys @ ce # zs" using split_list [OF m] by blast
  have dist: "distinct (ys @ ce # zs)" using d xs by (simp add: dlist_def)
  have p: "prv h ce = last_of None ys" and n: "nxt h ce = first_of zs None"
    and sy: "dseg h None ys (Some ce)" and sz: "dseg h (Some ce) zs None"
    using d xs by (simp_all add: dlist_def)
  define h1 where "h1 = (case nxt h ce of None \<Rightarrow> h | Some a \<Rightarrow> set_prv a (prv h ce) h)"
  define h2 where "h2 = (case prv h1 ce of None \<Rightarrow> h1 | Some a \<Rightarrow> set_nxt a (nxt h1 ce) h1)"
  have h1: "nxt h1 = nxt h"
    "prv h1 = (case first_of zs None of None \<Rightarrow> prv h | Some a \<Rightarrow> (prv h)(a := prv h ce))"
    by (simp_all add: h1_def n split: option.split)
  have ce1: "prv h1 ce = prv h ce"
    using dist by (auto simp: h1 dest: first_of_mem split: option.split)
  have h2: "prv h2 = prv h1"
    "nxt h2 = (case last_of None ys of None \<Rightarrow> nxt h | Some a \<Rightarrow> (nxt h)(a := nxt h ce))"
    by (simp_all add: h2_def ce1 p h1(1) split: option.split)
  have ce2: "nxt h2 ce = nxt h ce" "prv h2 ce = prv h ce"
    using dist by (auto simp: h2 h1 ce1 dest: last_of_mem first_of_mem split: option.split)
  let ?h = "set_prv ce None (set_nxt ce None h2)"
  have "dseg ?h None ys (first_of zs None)"
    by (rule dseg_new_succ [OF _ sy])
       (use dist in \<open>auto simp: h2 h1 n dest: last_of_mem first_of_mem split: option.split\<close>)
  moreover have "dseg ?h (last_of None ys) zs None"
    by (rule dseg_new_pred [OF _ sz])
       (use dist in \<open>auto simp: h2 h1 p dest: last_of_mem first_of_mem split: option.split\<close>)
  moreover have "remove1 ce xs = ys @ zs" using dist by (simp add: xs remove1_append)
  moreover have out: "nxt ?h a = nxt h a \<and> prv ?h a = prv h a" if "a \<notin> set xs" for a
    using that by (auto simp: xs h2 h1 dest: last_of_mem first_of_mem split: option.split)
  moreover have "delete_from_list cel ce h =
      (\<lparr>lru = first_of (ys @ zs) None, mru = last_of None (ys @ zs)\<rparr>, ?h)"
  proof -
    have "lru cel = first_of (ys @ ce # zs) None" "mru cel = last_of None (ys @ ce # zs)"
      using d xs by (auto simp: dlist_def)
    with dist ce2 p n show ?thesis
      unfolding delete_from_list_def h1_def [symmetric] Let_def h2_def [symmetric]
      by (cases cel; cases ys; cases zs rule: rev_cases) (auto simp: last_of_def)
  qed
  ultimately show ?thesis
    using dist by (auto simp: dlist_def detached_def simp del: set_fields) (simp_all add: set_fields)
qed

lemma add_to_head_refines:
  assumes d: "dlist h cel xs" and c: "detached h ce" and m: "ce \<notin> set xs"
  shows "\<exists>cel' h'. add_to_head cel ce h = Some (cel', h') \<and> dlist h' cel' (xs @ [ce]) \<and>
    (\<forall>a. a \<notin> set xs \<longrightarrow> a \<noteq> ce \<longrightarrow> nxt h' a = nxt h a \<and> prv h' a = prv h a)"
proof -
  let ?h1 = "set_prv ce (mru cel) (set_nxt ce None h)"
  define h2 where "h2 = (case mru cel of None \<Rightarrow> ?h1 | Some m \<Rightarrow> set_nxt m (Some ce) ?h1)"
  have mr: "mru cel = last_of None xs" using d by (simp add: dlist_def)
  have "dseg h2 None xs (Some ce)"
    by (rule dseg_new_succ [of _ h None None])
       (use d m in \<open>auto simp: h2_def dlist_def mr dest: last_of_mem split: option.split\<close>)
  moreover have "prv h2 ce = mru cel" "nxt h2 ce = None"
    using m mr by (auto simp: h2_def dest: last_of_mem split: option.split)
  moreover have "nxt h2 a = nxt h a \<and> prv h2 a = prv h a" if "a \<notin> set xs" "a \<noteq> ce" for a
    using that mr by (auto simp: h2_def dest: last_of_mem split: option.split)
  moreover have "add_to_head cel ce h =
      Some (\<lparr>lru = first_of (xs @ [ce]) None, mru = Some ce\<rparr>, h2)"
    unfolding add_to_head_def Let_def h2_def [symmetric]
    using d c by (cases cel; cases xs) (auto simp: detached_def dlist_def)
  ultimately show ?thesis using d m mr by (auto simp: dlist_def)
qed

lemma add_to_tail_refines:
  assumes d: "dlist h cel xs" and c: "detached h ce" and m: "ce \<notin> set xs"
  shows "\<exists>cel' h'. add_to_tail cel ce h = Some (cel', h') \<and> dlist h' cel' (ce # xs) \<and>
    (\<forall>a. a \<notin> set xs \<longrightarrow> a \<noteq> ce \<longrightarrow> nxt h' a = nxt h a \<and> prv h' a = prv h a)"
proof -
  let ?h1 = "set_prv ce None (set_nxt ce (lru cel) h)"
  define h2 where "h2 = (case lru cel of None \<Rightarrow> ?h1 | Some m \<Rightarrow> set_prv m (Some ce) ?h1)"
  have lr: "lru cel = first_of xs None" using d by (simp add: dlist_def)
  have "dseg h2 (Some ce) xs None"
    by (rule dseg_new_pred [of _ h None])
       (use d m in \<open>auto simp: h2_def dlist_def lr dest: first_of_mem split: option.split\<close>)
  moreover have "prv h2 ce = None" "nxt h2 ce = lru cel"
    using m lr by (auto simp: h2_def dest: first_of_mem split: option.split)
  moreover have "nxt h2 a = nxt h a \<and> prv h2 a = prv h a" if "a \<notin> set xs" "a \<noteq> ce" for a
    using that lr by (auto simp: h2_def dest: first_of_mem split: option.split)
  moreover have "add_to_tail cel ce h =
      Some (\<lparr>lru = Some ce, mru = last_of None (ce # xs)\<rparr>, h2)"
    unfolding add_to_tail_def Let_def h2_def [symmetric]
    using d c by (cases cel) (auto simp: detached_def dlist_def last_of_def)
  ultimately show ?thesis using d m lr by (auto simp: dlist_def)
qed

section \<open>The interface of the lists\<close>

text \<open>
  What the cache relies on: \<open>rep h l xs\<close> says that the pair of ends \<open>l\<close> stands for \<open>xs\<close> in the heap \<open>h\<close>;
  \<open>free h a\<close> that \<open>a\<close> is in no list; \<open>same A h h'\<close> that the two heaps agree outside \<open>A\<close>.
\<close>

locale lru_lists =
  fixes rep :: "'h \<Rightarrow> 'l \<Rightarrow> nat list \<Rightarrow> bool"
    and free :: "'h \<Rightarrow> nat \<Rightarrow> bool"
    and same :: "nat set \<Rightarrow> 'h \<Rightarrow> 'h \<Rightarrow> bool"
    and del :: "'l \<Rightarrow> nat \<Rightarrow> 'h \<Rightarrow> 'l \<times> 'h"
    and head :: "'l \<Rightarrow> nat \<Rightarrow> 'h \<Rightarrow> ('l \<times> 'h) option"
    and tail :: "'l \<Rightarrow> nat \<Rightarrow> 'h \<Rightarrow> ('l \<times> 'h) option"
  assumes del_law: "rep h l xs \<Longrightarrow> a \<in> set xs \<Longrightarrow>
      \<exists>l' h'. del l a h = (l', h') \<and> rep h' l' (remove1 a xs) \<and> free h' a \<and> same (set xs) h h'"
    and head_law: "rep h l xs \<Longrightarrow> free h a \<Longrightarrow> a \<notin> set xs \<Longrightarrow>
      \<exists>l' h'. head l a h = Some (l', h') \<and> rep h' l' (xs @ [a]) \<and> same (insert a (set xs)) h h'"
    and tail_law: "rep h l xs \<Longrightarrow> free h a \<Longrightarrow> a \<notin> set xs \<Longrightarrow>
      \<exists>l' h'. tail l a h = Some (l', h') \<and> rep h' l' (a # xs) \<and> same (insert a (set xs)) h h'"
    and frame: "rep h l xs \<Longrightarrow> same A h h' \<Longrightarrow> A \<inter> set xs = {} \<Longrightarrow> rep h' l xs"
    and rep_distinct: "rep h l xs \<Longrightarrow> distinct xs"
begin

lemma move_to_head:
  assumes "rep h l xs" "rep h m ys" "set xs \<inter> set ys = {}" "a \<in> set xs"
  shows "\<exists>l' h' m' h''. del l a h = (l', h') \<and> head m a h' = Some (m', h'') \<and>
    rep h'' l' (remove1 a xs) \<and> rep h'' m' (ys @ [a])"
proof -
  from del_law [OF assms(1,4)] obtain l' h' where
    d: "del l a h = (l', h')" "rep h' l' (remove1 a xs)" "free h' a" "same (set xs) h h'" by blast
  from frame [OF assms(2) d(4) assms(3)] have "rep h' m ys" .
  moreover have "a \<notin> set ys" using assms(3,4) by blast
  ultimately obtain m' h'' where
    t: "head m a h' = Some (m', h'')" "rep h'' m' (ys @ [a])" "same (insert a (set ys)) h' h''"
    using head_law d(3) by blast
  have "insert a (set ys) \<inter> set (remove1 a xs) = {}"
    using assms(3) rep_distinct [OF assms(1)] by auto
  with frame [OF d(2) t(3)] d t show ?thesis by blast
qed

lemma touch:
  assumes "rep h l xs" "a \<in> set xs"
  shows "\<exists>l' h' l'' h''. del l a h = (l', h') \<and> head l' a h' = Some (l'', h'') \<and>
    rep h'' l'' (remove1 a xs @ [a])"
proof -
  from del_law [OF assms] obtain l' h' where
    d: "del l a h = (l', h')" "rep h' l' (remove1 a xs)" "free h' a" by blast
  have "a \<notin> set (remove1 a xs)" using rep_distinct [OF assms(1)] by simp
  with head_law [OF d(2,3)] d(1) show ?thesis by blast
qed

end

definition same_links :: "nat set \<Rightarrow> links \<Rightarrow> links \<Rightarrow> bool" where
  "same_links A h h' \<longleftrightarrow> (\<forall>a. a \<notin> A \<longrightarrow> nxt h' a = nxt h a \<and> prv h' a = prv h a)"

interpretation dl: lru_lists dlist detached same_links delete_from_list add_to_head add_to_tail
proof unfold_locales
  show "dlist h l xs \<Longrightarrow> a \<in> set xs \<Longrightarrow> \<exists>l' h'. delete_from_list l a h = (l', h') \<and>
      dlist h' l' (remove1 a xs) \<and> detached h' a \<and> same_links (set xs) h h'" for h l xs a
    using delete_from_list_refines [of h l xs a] by (auto simp: same_links_def)
  show "dlist h l xs \<Longrightarrow> detached h a \<Longrightarrow> a \<notin> set xs \<Longrightarrow> \<exists>l' h'. add_to_head l a h = Some (l', h') \<and>
      dlist h' l' (xs @ [a]) \<and> same_links (insert a (set xs)) h h'" for h l xs a
    using add_to_head_refines [of h l xs a] by (auto simp: same_links_def)
  show "dlist h l xs \<Longrightarrow> detached h a \<Longrightarrow> a \<notin> set xs \<Longrightarrow> \<exists>l' h'. add_to_tail l a h = Some (l', h') \<and>
      dlist h' l' (a # xs) \<and> same_links (insert a (set xs)) h h'" for h l xs a
    using add_to_tail_refines [of h l xs a] by (auto simp: same_links_def)
  show "dlist h l xs \<Longrightarrow> same_links A h h' \<Longrightarrow> A \<inter> set xs = {} \<Longrightarrow> dlist h' l xs" for h h' l xs A
    unfolding dlist_def same_links_def disjoint_iff by (metis dseg_frame)
  show "dlist h l xs \<Longrightarrow> distinct xs" for h l xs by (simp add: dlist_def)
qed

section \<open>Properties\<close>

text \<open>Claim C20: unlinking an entry from one list and putting it at the head of another, as the cache
  does when the last lock of a block goes, works on the pointers as on the lists: both pairs of
  ends stand for the expected lists and the check of the null pointers does not fire.\<close>

theorem cache_list_move:
  assumes "dlist h l xs" "dlist h m ys" "set xs \<inter> set ys = {}" "a \<in> set xs"
  shows "\<exists>l' h' m' h''. delete_from_list l a h = (l', h') \<and> add_to_head m a h' = Some (m', h'') \<and>
    dlist h'' l' (remove1 a xs) \<and> dlist h'' m' (ys @ [a])"
  by (rule dl.move_to_head [OF assms])

theorem cache_list_move_witness:
  "\<exists>l' h' m' h''. delete_from_list \<lparr>lru = Some 1, mru = Some 2\<rparr> 1
       \<lparr>nxt = Map.empty(1 \<mapsto> 2), prv = Map.empty(2 \<mapsto> 1)\<rparr> = (l', h') \<and>
     add_to_head \<lparr>lru = Some 7, mru = Some 7\<rparr> 1 h' = Some (m', h'') \<and>
     dlist h'' l' (remove1 1 [1, 2]) \<and> dlist h'' m' ([7] @ [1])"
  by (rule cache_list_move) (simp_all add: dlist_def last_of_def)

end
