(* ===== verification/Hash_Table.thy ===== *)
theory Hash_Table
  imports FS_Prelude "HOL-Library.Multiset"
begin

text \<open>
  The hash table of \<open>cache.c\<close> (\<open>init_hash_table\<close> to \<open>hash_delete\<close>): chained buckets, a power of
  two of them, doubled when three quarters full.  A \<open>hash_ent\<close> is a record, a chain is a list
  with the head of the chain first, the table is the list of its chains; the stored pointer is a
  value of the parameter type \<open>'a\<close>.  \<open>mem_ok\<close> says whether the allocator of the C library
  has memory: \<open>malloc\<close> and \<open>calloc\<close> return NULL when it is false.

  The abstraction of a table is a finite map from (device, block number) to the stored value.
\<close>

section \<open>State\<close>

record 'a hash_ent =
  he_dev :: int
  he_bnum :: fs_off_t
  hash_val :: "64 word"
  he_data :: 'a

record 'a hash_table =
  table :: "'a hash_ent list list"
  ht_max :: int
  mask_of :: int
  num_elements :: int

definition HT_DEFAULT_MAX :: int where
  "HT_DEFAULT_MAX = 128"

section \<open>Operations\<close>

definition init_hash_table :: "bool \<Rightarrow> errno \<times> 'a hash_table" where
  "init_hash_table mem_ok =
     (if mem_ok
      then (0, \<lparr>table = replicate (nat HT_DEFAULT_MAX) [], ht_max = HT_DEFAULT_MAX,
                mask_of = HT_DEFAULT_MAX - 1, num_elements = 0\<rparr>)
      else (ENOMEM, \<lparr>table = [], ht_max = HT_DEFAULT_MAX, mask_of = HT_DEFAULT_MAX - 1,
                     num_elements = 0\<rparr>))"

definition shutdown_hash_table :: "'a hash_table \<Rightarrow> 'a hash_table" where
  "shutdown_hash_table ht = ht\<lparr>table := []\<rparr>"

definition HASH :: "int \<Rightarrow> fs_off_t \<Rightarrow> 64 word" where
  "HASH d b = push_bit (8 * 8 - 6) (word_of_int d) OR word_of_int b"

definition bucket :: "64 word \<Rightarrow> int \<Rightarrow> nat" where
  "bucket h m = unat (h AND word_of_int m)"

definition new_hash_ent :: "bool \<Rightarrow> int \<Rightarrow> fs_off_t \<Rightarrow> 'a \<Rightarrow> 'a hash_ent option" where
  "new_hash_ent mem_ok d b x =
     (if mem_ok then Some \<lparr>he_dev = d, he_bnum = b, hash_val = HASH d b, he_data = x\<rparr> else None)"

text \<open>Moving one chain to the new table: each entry goes to the head of its new chain.\<close>

fun move_chain :: "int \<Rightarrow> 'a hash_ent list \<Rightarrow> 'a hash_ent list list \<Rightarrow> 'a hash_ent list list" where
  "move_chain newmask [] new_table = new_table"
| "move_chain newmask (he # hes) new_table =
     (let hash = bucket (hash_val he) newmask
      in move_chain newmask hes (new_table[hash := he # new_table ! hash]))"

definition grow_hash_table :: "bool \<Rightarrow> 'a hash_table \<Rightarrow> errno \<times> 'a hash_table" where
  "grow_hash_table mem_ok ht =
     (let newsize = ht_max ht * 2; newmask = newsize - 1
      in if \<not> mem_ok then (ENOMEM, ht)
         else (0, ht\<lparr>table := fold (move_chain newmask) (table ht) (replicate (nat newsize) []),
                     ht_max := newsize, mask_of := newmask\<rparr>))"

definition same_block :: "int \<Rightarrow> fs_off_t \<Rightarrow> 'a hash_ent \<Rightarrow> bool" where
  "same_block d b he \<longleftrightarrow> he_dev he = d \<and> he_bnum he = b"

text \<open>\<open>mem_ok\<close> says whether there is memory for the entry, \<open>tab_ok\<close> whether there is for a table of twice the size: when only the
  second is missing the entry is in the table, and the result is \<open>ENOMEM\<close> all the same.\<close>

definition hash_insert ::
  "bool \<Rightarrow> bool \<Rightarrow> 'a hash_table \<Rightarrow> int \<Rightarrow> fs_off_t \<Rightarrow> 'a \<Rightarrow> errno \<times> 'a hash_table" where
  "hash_insert mem_ok tab_ok ht d b x =
     (let hash = bucket (HASH d b) (mask_of ht) in
      if find (same_block d b) (table ht ! hash) \<noteq> None then (EEXIST, ht)
      else (case new_hash_ent mem_ok d b x of
              None \<Rightarrow> (ENOMEM, ht)
            | Some he \<Rightarrow>
                (let ht1 = ht\<lparr>table := (table ht)[hash := he # table ht ! hash],
                              num_elements := num_elements ht + 1\<rparr>
                 in if num_elements ht1 \<ge> ht_max ht1 * 3 div 4
                    then (let (err, ht2) = grow_hash_table tab_ok ht1
                          in if err \<noteq> 0 then (ENOMEM, ht2) else (0, ht2))
                    else (0, ht1))))"

definition hash_lookup :: "'a hash_table \<Rightarrow> int \<Rightarrow> fs_off_t \<Rightarrow> 'a option" where
  "hash_lookup ht d b =
     map_option he_data (find (same_block d b) (table ht ! bucket (HASH d b) (mask_of ht)))"

text \<open>Unlinking the first entry of a chain that matches.\<close>

fun unlink_first :: "('b \<Rightarrow> bool) \<Rightarrow> 'b list \<Rightarrow> 'b list" where
  "unlink_first P [] = []"
| "unlink_first P (x # xs) = (if P x then xs else x # unlink_first P xs)"

definition hash_delete ::
  "'a hash_table \<Rightarrow> int \<Rightarrow> fs_off_t \<Rightarrow> 'a option \<times> 'a hash_table" where
  "hash_delete ht d b =
     (let hash = bucket (HASH d b) (mask_of ht) in
      case find (same_block d b) (table ht ! hash) of
        None \<Rightarrow> (None, ht)
      | Some he \<Rightarrow>
          (Some (he_data he),
           ht\<lparr>table := (table ht)[hash := unlink_first (same_block d b) (table ht ! hash)],
              num_elements := num_elements ht - 1\<rparr>))"

section \<open>Well-formed tables\<close>

text \<open>The chain an entry belongs to, by its own hash value.\<close>

definition ent_ok :: "int \<Rightarrow> nat \<Rightarrow> 'a hash_ent \<Rightarrow> bool" where
  "ent_ok m i he \<longleftrightarrow> hash_val he = HASH (he_dev he) (he_bnum he) \<and> bucket (hash_val he) m = i"

definition ent_key :: "'a hash_ent \<Rightarrow> int \<times> fs_off_t" where
  "ent_key he = (he_dev he, he_bnum he)"

definition chains_ok :: "int \<Rightarrow> 'a hash_ent list list \<Rightarrow> bool" where
  "chains_ok m t \<longleftrightarrow> (\<forall>i < length t. \<forall>he \<in> set (t ! i). ent_ok m i he) \<and>
     distinct (map ent_key (concat t))"

definition ht_wf :: "'a hash_table \<Rightarrow> bool" where
  "ht_wf ht \<longleftrightarrow> (\<exists>k. ht_max ht = 2 ^ k) \<and> mask_of ht = ht_max ht - 1 \<and>
     length (table ht) = nat (ht_max ht) \<and> chains_ok (mask_of ht) (table ht) \<and>
     num_elements ht = int (length (concat (table ht)))"

text \<open>The map a table stands for.\<close>

definition ht_map :: "'a hash_table \<Rightarrow> int \<times> fs_off_t \<Rightarrow> 'a option" where
  "ht_map ht = map_of (map (\<lambda>he. (ent_key he, he_data he)) (concat (table ht)))"

section \<open>Facts on chains\<close>

lemma same_block_key: "same_block d b he \<longleftrightarrow> ent_key he = (d, b)"
  by (auto simp: same_block_def ent_key_def)

lemma bucket_take_bit: "bucket h (2 ^ k - 1) = take_bit k (unat h)"
proof -
  have "(word_of_int (2 ^ k - 1) :: 64 word) = mask k"
    by (simp add: mask_eq_exp_minus_1)
  then show ?thesis
    by (simp add: bucket_def flip: take_bit_eq_mask) (simp add: unsigned_take_bit_eq)
qed

lemma bucket_bound: "bucket h (2 ^ k - 1) < 2 ^ k"
  by (simp add: bucket_take_bit)

lemma mset_concat_upd:
  "i < length t \<Longrightarrow> mset (concat (t[i := c])) + mset (t ! i) = mset (concat t) + mset c"
  by (induction t arbitrary: i) (auto split: nat.splits simp: ac_simps)

lemma mset_concat_cons:
  assumes "i < length t"
  shows "mset (concat (t[i := x # t ! i])) = add_mset x (mset (concat t))"
  using mset_concat_upd [OF assms, of "x # t ! i"] by simp

lemma mset_unlink_first:
  "find P xs = Some x \<Longrightarrow> mset xs = add_mset x (mset (unlink_first P xs))"
  by (induction xs) (auto split: if_splits)

lemma set_unlink_first: "set (unlink_first P xs) \<subseteq> set xs"
  by (induction xs) auto

lemma mset_concat_unlink:
  assumes "i < length t" "find P (t ! i) = Some x"
  shows "mset (concat t) = add_mset x (mset (concat (t[i := unlink_first P (t ! i)])))"
proof -
  let ?c = "unlink_first P (t ! i)"
  have "mset (concat (t[i := ?c])) + add_mset x (mset ?c) = mset (concat t) + mset ?c"
    using mset_concat_upd [OF assms(1), of ?c] mset_unlink_first [OF assms(2)] by simp
  then show ?thesis by simp
qed

lemma distinct_keys_mset:
  "mset xs = mset ys \<Longrightarrow> distinct (map f xs) \<longleftrightarrow> distinct (map f ys)"
  by (metis mset_eq_imp_distinct_iff mset_map)

text \<open>The map is determined by the set of the entries, when the keys are distinct.\<close>

lemma ht_map_Some_iff:
  assumes "distinct (map ent_key (concat (table ht)))"
  shows "ht_map ht k = Some x \<longleftrightarrow> (\<exists>he \<in> set (concat (table ht)). ent_key he = k \<and> he_data he = x)"
proof -
  let ?l = "map (\<lambda>he. (ent_key he, he_data he)) (concat (table ht))"
  have "distinct (map fst ?l)" using assms by (simp add: comp_def)
  then have "map_of ?l k = Some x \<longleftrightarrow> (k, x) \<in> set ?l"
    by (simp add: map_of_eq_Some_iff)
  then show ?thesis unfolding ht_map_def by (auto simp del: set_concat)
qed

lemma ht_map_None_iff:
  "ht_map ht k = None \<longleftrightarrow> k \<notin> ent_key ` set (concat (table ht))"
  unfolding ht_map_def by (subst map_of_eq_None_iff) (simp only: set_map image_image fst_conv)

section \<open>The invariant is preserved\<close>

lemma ht_wf_bucket:
  assumes "ht_wf ht"
  shows "bucket h (mask_of ht) < length (table ht)"
proof -
  obtain k where "ht_max ht = 2 ^ k" using assms by (auto simp: ht_wf_def)
  with assms bucket_bound [of h k] show ?thesis by (simp add: ht_wf_def nat_power_eq)
qed

lemma chains_ok_concat:
  assumes "chains_ok m t" "he \<in> set (concat t)"
  shows "he \<in> set (t ! bucket (HASH (he_dev he) (he_bnum he)) m)"
proof -
  obtain i where "i < length t" "he \<in> set (t ! i)"
    using assms(2) by (metis UN_E in_set_conv_nth set_concat)
  moreover from this assms(1) have "bucket (HASH (he_dev he) (he_bnum he)) m = i"
    by (fastforce simp: chains_ok_def ent_ok_def)
  ultimately show ?thesis by simp
qed

lemma ht_map_cong:
  assumes "set (concat (table ht)) = set (concat (table ht'))"
    and "distinct (map ent_key (concat (table ht)))" "distinct (map ent_key (concat (table ht')))"
  shows "ht_map ht = ht_map ht'"
proof
  fix k
  have "ht_map ht k = Some x \<longleftrightarrow> ht_map ht' k = Some x" for x
    unfolding ht_map_Some_iff [OF assms(2)] ht_map_Some_iff [OF assms(3)] assms(1) ..
  then show "ht_map ht k = ht_map ht' k" by (metis not_Some_eq)
qed

lemma hash_lookup_map:
  assumes "ht_wf ht"
  shows "hash_lookup ht d b = ht_map ht (d, b)"
proof (cases "find (same_block d b) (table ht ! bucket (HASH d b) (mask_of ht))")
  case None
  have "(d, b) \<notin> ent_key ` set (concat (table ht))"
  proof
    assume "(d, b) \<in> ent_key ` set (concat (table ht))"
    then obtain he where he: "he \<in> set (concat (table ht))" "ent_key he = (d, b)"
      by (metis imageE)
    with chains_ok_concat [OF _ he(1)] assms
    have "he \<in> set (table ht ! bucket (HASH d b) (mask_of ht))"
      by (auto simp: ht_wf_def ent_key_def)
    with None he(2) show False by (auto simp: find_None_iff same_block_key)
  qed
  then have "ht_map ht (d, b) = None" using ht_map_None_iff by blast
  with None show ?thesis by (simp add: hash_lookup_def)
next
  case (Some he)
  then have "he \<in> set (table ht ! bucket (HASH d b) (mask_of ht))" "ent_key he = (d, b)"
    by (auto simp: find_Some_iff same_block_key)
  with ht_wf_bucket [OF assms] have "he \<in> set (concat (table ht))" "ent_key he = (d, b)"
    by (auto intro: nth_mem)
  with assms have "ht_map ht (d, b) = Some (he_data he)"
    by (subst ht_map_Some_iff) (auto simp: ht_wf_def chains_ok_def)
  with Some show ?thesis by (simp add: hash_lookup_def)
qed

lemma chains_ok_cons:
  assumes "chains_ok m t" "i < length t" "ent_ok m i he" "ent_key he \<notin> ent_key ` set (concat t)"
  shows "chains_ok m (t[i := he # t ! i])"
proof -
  have "distinct (map ent_key (concat (t[i := he # t ! i]))) \<longleftrightarrow>
      distinct (map ent_key (he # concat t))"
    by (rule distinct_keys_mset) (simp add: mset_concat_cons [OF assms(2)])
  with assms show ?thesis by (auto simp: chains_ok_def nth_list_update)
qed

lemma move_chain_length [simp]: "length (move_chain m hes t) = length t"
  by (induction m hes t rule: move_chain.induct) (auto simp: Let_def)

lemma fold_move_chain_length [simp]: "length (fold (move_chain m) c t) = length t"
  by (induction c arbitrary: t) auto

lemma move_chain_ok:
  "chains_ok m t \<Longrightarrow> (\<And>h. bucket h m < length t) \<Longrightarrow>
   (\<And>he. he \<in> set hes \<Longrightarrow> hash_val he = HASH (he_dev he) (he_bnum he)) \<Longrightarrow>
   distinct (map ent_key hes) \<Longrightarrow> ent_key ` set hes \<inter> ent_key ` set (concat t) = {} \<Longrightarrow>
   chains_ok m (move_chain m hes t) \<and>
   mset (concat (move_chain m hes t)) = mset hes + mset (concat t)"
proof (induction m hes t rule: move_chain.induct)
  case (2 m he hes t)
  let ?i = "bucket (hash_val he) m"
  let ?t = "t[?i := he # t ! ?i]"
  have i: "?i < length t" by (rule "2.prems")
  have ms: "mset (concat ?t) = add_mset he (mset (concat t))" by (rule mset_concat_cons [OF i])
  have st: "set (concat ?t) = insert he (set (concat t))" using arg_cong [OF ms, of set_mset] by simp
  have "chains_ok m ?t"
    by (rule chains_ok_cons [OF "2.prems"(1) i]) (use "2.prems" in \<open>auto simp: ent_ok_def\<close>)
  moreover have "ent_key ` set hes \<inter> ent_key ` set (concat ?t) = {}"
    using "2.prems"(4,5) unfolding st by (auto simp: disjoint_iff)
  ultimately have "chains_ok m (move_chain m hes ?t) \<and>
      mset (concat (move_chain m hes ?t)) = mset hes + mset (concat ?t)"
    using "2.prems" by (intro "2.IH" [OF refl]) auto
  then show ?case using ms by (simp add: Let_def)
qed simp

lemma fold_move_chain_ok:
  "chains_ok m t \<Longrightarrow> (\<And>h. bucket h m < length t) \<Longrightarrow>
   (\<And>he. he \<in> set (concat cs) \<Longrightarrow> hash_val he = HASH (he_dev he) (he_bnum he)) \<Longrightarrow>
   distinct (map ent_key (concat cs)) \<Longrightarrow>
   ent_key ` set (concat cs) \<inter> ent_key ` set (concat t) = {} \<Longrightarrow>
   chains_ok m (fold (move_chain m) cs t) \<and>
   mset (concat (fold (move_chain m) cs t)) = mset (concat cs) + mset (concat t)"
proof (induction cs arbitrary: t)
  case (Cons c cs)
  have c: "chains_ok m (move_chain m c t) \<and>
      mset (concat (move_chain m c t)) = mset c + mset (concat t)"
    by (rule move_chain_ok [OF Cons.prems(1,2)])
       (use Cons.prems in \<open>auto simp: image_Un Int_Un_distrib2\<close>)
  then have st: "set (concat (move_chain m c t)) = set c \<union> set (concat t)"
    by (metis mset_append set_append set_mset_mset)
  have "ent_key ` set (concat cs) \<inter> ent_key ` set (concat (move_chain m c t)) = {}"
    using Cons.prems(4,5) unfolding st by (simp add: image_Un Int_Un_distrib Int_Un_distrib2 Int_commute)
  with Cons.IH [of "move_chain m c t"] c Cons.prems show ?case by (simp add: ac_simps)
qed simp

lemma grow_hash_table_ok:
  assumes wf: "ht_wf ht" and g: "grow_hash_table mem_ok ht = (err, ht')"
  shows "ht_wf ht' \<and> ht_map ht' = ht_map ht \<and> (err = 0 \<longleftrightarrow> mem_ok)"
proof (cases mem_ok)
  case False
  with g wf show ?thesis by (auto simp: grow_hash_table_def Let_def)
next
  case True
  obtain k where k: "ht_max ht = 2 ^ k" using wf by (auto simp: ht_wf_def)
  let ?m = "ht_max ht * 2 - 1" and ?e = "replicate (nat (ht_max ht * 2)) []"
  let ?t = "fold (move_chain ?m) (table ht) ?e"
  have ht': "ht' = ht\<lparr>table := ?t, ht_max := ht_max ht * 2, mask_of := ?m\<rparr>" and "err = 0"
    using g True by (auto simp: grow_hash_table_def Let_def)
  have m: "?m = 2 ^ Suc k - 1" using k by simp
  have b: "bucket h ?m < length ?e" for h
    using bucket_bound [of h "Suc k"] unfolding m by (simp add: k nat_mult_distrib nat_power_eq)
  have hv: "hash_val he = HASH (he_dev he) (he_bnum he)" if "he \<in> set (concat (table ht))" for he
    using wf that by (fastforce simp: ht_wf_def chains_ok_def ent_ok_def in_set_conv_nth)
  have ok: "chains_ok ?m ?t \<and> mset (concat ?t) = mset (concat (table ht)) + mset (concat ?e)"
    by (rule fold_move_chain_ok [OF _ b hv]) (use wf in \<open>auto simp: ht_wf_def chains_ok_def\<close>)
  then have ms: "mset (concat ?t) = mset (concat (table ht))" by simp
  have st: "set (concat ?t) = set (concat (table ht))" using ms by (metis set_mset_mset)
  have d: "distinct (map ent_key (concat ?t))" "distinct (map ent_key (concat (table ht)))"
    using ok wf by (auto simp: chains_ok_def ht_wf_def)
  have "ht_map ht' = ht_map ht" 
    by (rule ht_map_cong) (use st d ht' in \<open>simp_all del: set_concat map_concat\<close>)
  moreover have "ht_wf ht'"
    using wf ok ht' k mset_eq_length [OF ms]
    by (auto simp: ht_wf_def simp del: length_concat intro!: exI [of _ "Suc k"])
  ultimately show ?thesis using \<open>err = 0\<close> True by auto
qed


lemma hash_insert_ok:
  assumes wf: "ht_wf ht" and r: "hash_insert mem_ok tab_ok ht d b x = (err, ht')"
  shows "ht_wf ht' \<and>
    (if ht_map ht (d, b) \<noteq> None then err = EEXIST \<and> ht' = ht
     else if mem_ok then (err = 0 \<or> \<not> tab_ok \<and> err = ENOMEM) \<and> ht_map ht' = (ht_map ht)((d, b) \<mapsto> x)
     else err = ENOMEM \<and> ht' = ht)"
proof (cases "ht_map ht (d, b) = None \<and> mem_ok")
  case True
  let ?i = "bucket (HASH d b) (mask_of ht)"
  let ?he = "\<lparr>he_dev = d, he_bnum = b, hash_val = HASH d b, he_data = x\<rparr>"
  let ?t = "(table ht)[?i := ?he # table ht ! ?i]"
  let ?ht = "ht\<lparr>table := ?t, num_elements := num_elements ht + 1\<rparr>"
  note i = ht_wf_bucket [OF wf, of "HASH d b"]
  have nf: "find (same_block d b) (table ht ! ?i) = None"
    using True hash_lookup_map [OF wf, of d b] by (simp add: hash_lookup_def)
  have ms: "mset (concat ?t) = add_mset ?he (mset (concat (table ht)))" by (rule mset_concat_cons [OF i])
  have st: "set (concat ?t) = insert ?he (set (concat (table ht)))"
    using arg_cong [OF ms, of set_mset] by simp
  have new: "ent_key ?he \<notin> ent_key ` set (concat (table ht))"
    using True by (metis ent_key_def hash_ent.select_convs(1,2) ht_map_None_iff)
  have ok: "chains_ok (mask_of ht) ?t"
    by (rule chains_ok_cons [OF _ i _ new]) (use wf in \<open>auto simp: ht_wf_def ent_ok_def\<close>)
  have wf1: "ht_wf ?ht"
    using wf ok arg_cong [OF ms, of size] by (auto simp: ht_wf_def simp del: length_concat)
  have d: "distinct (map ent_key (concat (table ?ht)))" "distinct (map ent_key (concat (table ht)))"
    using ok wf by (auto simp: chains_ok_def ht_wf_def)
  have ne: "ent_key he \<noteq> (d, b)" if "he \<in> set (concat (table ht))" for he
    using new that by (metis ent_key_def hash_ent.select_convs(1,2) image_eqI)
  have m1: "ht_map ?ht k = ((ht_map ht)((d, b) \<mapsto> x)) k" for k
  proof -
    have "ht_map ?ht k = Some y \<longleftrightarrow> ((ht_map ht)((d, b) \<mapsto> x)) k = Some y" for y
      using ne by (auto simp: ht_map_Some_iff [OF d(1)] ht_map_Some_iff [OF d(2)] st ent_key_def
          simp del: set_concat)
    then show ?thesis by (metis not_Some_eq)
  qed
  obtain e2 ht2 where g: "grow_hash_table tab_ok ?ht = (e2, ht2)" by fastforce
  from grow_hash_table_ok [OF wf1 g] r g True nf m1 wf1 show ?thesis
    by (auto simp: hash_insert_def Let_def new_hash_ent_def fun_eq_iff split: if_splits)
next
  case False
  with wf r show ?thesis
    using hash_lookup_map [OF wf, of d b, symmetric]
    by (auto simp: hash_insert_def Let_def new_hash_ent_def hash_lookup_def split: if_splits)
qed

lemma chains_ok_unlink:
  assumes "chains_ok m t" "i < length t" "find P (t ! i) = Some he"
  shows "chains_ok m (t[i := unlink_first P (t ! i)]) \<and>
    ent_key he \<notin> ent_key ` set (concat (t[i := unlink_first P (t ! i)]))"
proof -
  let ?t = "t[i := unlink_first P (t ! i)]"
  have "distinct (map ent_key (concat t)) \<longleftrightarrow> distinct (map ent_key (he # concat ?t))"
    by (rule distinct_keys_mset) (simp add: mset_concat_unlink [OF assms(2,3)])
  with assms have "distinct (map ent_key (he # concat ?t))" by (simp add: chains_ok_def)
  moreover have "\<forall>j < length ?t. \<forall>he \<in> set (?t ! j). ent_ok m j he"
    using assms(1,2) set_unlink_first [of P "t ! i"] by (auto simp: chains_ok_def nth_list_update)
  ultimately show ?thesis by (simp add: chains_ok_def)
qed

lemma hash_delete_ok:
  assumes wf: "ht_wf ht" and r: "hash_delete ht d b = (res, ht')"
  shows "ht_wf ht' \<and> res = ht_map ht (d, b) \<and> ht_map ht' = (ht_map ht)((d, b) := None)"
proof (cases "find (same_block d b) (table ht ! bucket (HASH d b) (mask_of ht))")
  case None
  then have "ht_map ht (d, b) = None"
    using hash_lookup_map [OF wf, of d b] by (simp add: hash_lookup_def)
  with None wf r show ?thesis by (auto simp: hash_delete_def Let_def fun_upd_idem)
next
  case (Some he)
  let ?i = "bucket (HASH d b) (mask_of ht)"
  let ?t = "(table ht)[?i := unlink_first (same_block d b) (table ht ! ?i)]"
  note i = ht_wf_bucket [OF wf, of "HASH d b"]
  have ht': "ht' = ht\<lparr>table := ?t, num_elements := num_elements ht - 1\<rparr>"
    and res: "res = Some (he_data he)"
    using r Some by (auto simp: hash_delete_def Let_def)
  have key: "ent_key he = (d, b)" using Some by (auto simp: find_Some_iff same_block_key)
  have ms: "mset (concat (table ht)) = add_mset he (mset (concat ?t))"
    by (rule mset_concat_unlink [OF i Some])
  have st: "set (concat (table ht)) = insert he (set (concat ?t))"
    using arg_cong [OF ms, of set_mset] by simp
  from chains_ok_unlink [OF _ i Some] wf
  have ok: "chains_ok (mask_of ht) ?t" and nk: "ent_key he \<notin> ent_key ` set (concat ?t)"
    by (auto simp: ht_wf_def)
  have "ht_wf ht'"
    using wf ok ht' arg_cong [OF ms, of size] by (auto simp: ht_wf_def simp del: length_concat)
  moreover have m: "res = ht_map ht (d, b)"
    using hash_lookup_map [OF wf, of d b] Some res by (simp add: hash_lookup_def)
  moreover have "ht_map ht' k = ((ht_map ht)((d, b) := None)) k" for k
  proof -
    have d: "distinct (map ent_key (concat (table ht')))" "distinct (map ent_key (concat (table ht)))"
      using ok wf ht' by (auto simp: chains_ok_def ht_wf_def)
    have t': "table ht' = ?t" by (simp add: ht')
    have nk': "ent_key h \<noteq> (d, b)" if "h \<in> set (concat ?t)" for h
      using nk key that by (metis imageI)
    have "ht_map ht' k = Some y \<longleftrightarrow> ((ht_map ht)((d, b) := None)) k = Some y" for y
      using nk' unfolding ht_map_Some_iff [OF d(1)] fun_upd_apply
      by (auto simp: ht_map_Some_iff [OF d(2)] st t' key simp del: set_concat)
    then show ?thesis by (metis not_Some_eq)
  qed
  ultimately show ?thesis by auto
qed

lemma init_hash_table_ok: "ht_wf (snd (init_hash_table True)) \<and> ht_map (snd (init_hash_table True)) = Map.empty"
proof -
  have "concat (replicate n []) = []" for n :: nat by simp
  moreover have "(\<exists>k. (128::int) = 2 ^ k)" by (rule exI [of _ 7]) simp
  ultimately show ?thesis
    by (auto simp: init_hash_table_def ht_wf_def HT_DEFAULT_MAX_def chains_ok_def ht_map_def)
qed

section \<open>The interface of a block index\<close>

text \<open>What the cache relies on: an invariant and a map as the abstraction, with lookup, insertion
  of a key that is not there and deletion as the operations of the map.\<close>

locale block_index =
  fixes wf :: "'t \<Rightarrow> bool"
    and amap :: "'t \<Rightarrow> int \<times> fs_off_t \<Rightarrow> 'a option"
    and lookup :: "'t \<Rightarrow> int \<Rightarrow> fs_off_t \<Rightarrow> 'a option"
    and insert_op :: "bool \<Rightarrow> bool \<Rightarrow> 't \<Rightarrow> int \<Rightarrow> fs_off_t \<Rightarrow> 'a \<Rightarrow> errno \<times> 't"
    and delete_op :: "'t \<Rightarrow> int \<Rightarrow> fs_off_t \<Rightarrow> 'a option \<times> 't"
  assumes lookup_law: "wf t \<Longrightarrow> lookup t d b = amap t (d, b)"
    and insert_law: "wf t \<Longrightarrow> insert_op m g t d b x = (err, t') \<Longrightarrow>
      wf t' \<and> (if amap t (d, b) \<noteq> None then err = EEXIST \<and> t' = t
              else if m then (err = 0 \<or> \<not> g \<and> err = ENOMEM) \<and> amap t' = (amap t)((d, b) \<mapsto> x)
              else err = ENOMEM \<and> t' = t)"
    and delete_law: "wf t \<Longrightarrow> delete_op t d b = (res, t') \<Longrightarrow>
      wf t' \<and> res = amap t (d, b) \<and> amap t' = (amap t)((d, b) := None)"
begin

lemma insert_fresh:
  assumes "wf t" "amap t (d, b) = None"
  obtains t' where "insert_op True True t d b x = (0, t')" "wf t'" "amap t' = (amap t)((d, b) \<mapsto> x)"
proof -
  obtain err t' where r: "insert_op True True t d b x = (err, t')" by fastforce
  from insert_law [OF assms(1) r] assms(2) r show thesis by (intro that [of t']) simp_all
qed

lemma delete_present:
  assumes "wf t"
  obtains t' where "delete_op t d b = (amap t (d, b), t')" "wf t'" "amap t' = (amap t)((d, b) := None)"
proof -
  obtain res t' where r: "delete_op t d b = (res, t')" by fastforce
  from delete_law [OF assms r] r show thesis by (intro that [of t']) (simp_all del: fun_upd_apply)
qed

lemma insert_delete_restores:
  assumes "wf t" "amap t (d, b) = None"
    and "insert_op True True t d b x = (err, t')" "delete_op t' d b = (res, t'')"
  shows "res = Some x \<and> amap t'' = amap t"
proof -
  from insert_law [OF assms(1,3)] assms(2) have "wf t'" "amap t' = (amap t)((d, b) \<mapsto> x)" by auto
  with delete_law [OF _ assms(4)] assms(2) show ?thesis by (simp add: fun_upd_idem)
qed

end

interpretation ht: block_index ht_wf ht_map hash_lookup hash_insert hash_delete
proof unfold_locales
  show "ht_wf t \<Longrightarrow> hash_lookup t d b = ht_map t (d, b)" for t :: "'a hash_table" and d b
    by (rule hash_lookup_map)
  show "ht_wf t \<Longrightarrow> hash_insert m g t d b x = (err, t') \<Longrightarrow>
      ht_wf t' \<and> (if ht_map t (d, b) \<noteq> None then err = EEXIST \<and> t' = t
              else if m then (err = 0 \<or> \<not> g \<and> err = ENOMEM) \<and> ht_map t' = (ht_map t)((d, b) \<mapsto> x)
              else err = ENOMEM \<and> t' = t)" for m g d b err and x :: 'a and t t'
    by (rule hash_insert_ok)
  show "ht_wf t \<Longrightarrow> hash_delete t d b = (res, t') \<Longrightarrow>
      ht_wf t' \<and> res = ht_map t (d, b) \<and> ht_map t' = (ht_map t)((d, b) := None)"
    for t t' :: "'a hash_table" and d b res
    by (rule hash_delete_ok)
qed

section \<open>Properties\<close>

text \<open>Histories of insertions and deletions, on the table and on a map; for each insertion, whether there is memory for a bigger
  table.\<close>

datatype 'a index_op = Ins bool int fs_off_t 'a | Del int fs_off_t

primrec run_table :: "'a index_op list \<Rightarrow> 'a hash_table \<Rightarrow> 'a hash_table" where
  "run_table [] ht = ht"
| "run_table (x # xs) ht = run_table xs
     (case x of Ins g d b v \<Rightarrow> snd (hash_insert True g ht d b v) | Del d b \<Rightarrow> snd (hash_delete ht d b))"

primrec run_map ::
  "'a index_op list \<Rightarrow> (int \<times> fs_off_t \<Rightarrow> 'a option) \<Rightarrow> int \<times> fs_off_t \<Rightarrow> 'a option" where
  "run_map [] m = m"
| "run_map (x # xs) m = run_map xs
     (case x of Ins g d b v \<Rightarrow> if m (d, b) = None then m((d, b) \<mapsto> v) else m
      | Del d b \<Rightarrow> m((d, b) := None))"

lemma run_table_refines:
  "ht_wf ht \<Longrightarrow> ht_wf (run_table ops ht) \<and> ht_map (run_table ops ht) = run_map ops (ht_map ht)"
proof (induction ops arbitrary: ht)
  case (Cons x ops)
  show ?case
  proof (cases x)
    case (Ins g d b v)
    obtain err ht' where "hash_insert True g ht d b v = (err, ht')" by fastforce
    with Ins ht.insert_law [OF Cons.prems this] Cons.IH [of ht'] show ?thesis
      by (auto split: if_splits)
  next
    case (Del d b)
    obtain res ht' where "hash_delete ht d b = (res, ht')" by fastforce
    with Del ht.delete_law [OF Cons.prems this] Cons.IH [of ht'] show ?thesis
      by (simp del: fun_upd_apply)
  qed
qed simp

text \<open>Claim C19: the hash table implements a finite map.  After any history of insertions and
  deletions on a fresh table, with as many doublings as the history causes and the memory allows, \<open>hash_lookup\<close> of any
  device and block number returns what the same history leaves in a map (an insertion of a key
  that is present changes nothing).\<close>

theorem hash_table_refines_map:
  "hash_lookup (run_table ops (snd (init_hash_table True))) d b = run_map ops Map.empty (d, b)"
  using run_table_refines [OF conjunct1 [OF init_hash_table_ok], of ops]
  by (simp only: ht.lookup_law conjunct2 [OF init_hash_table_ok])

end
