(* ===== verification/Phys_IO.thy ===== *)
theory Phys_IO
  imports FS_Prelude
begin

text \<open>
  Transfers to a device: \<open>read_pos\<close>, \<open>write_pos\<close>, \<open>readv_pos\<close>, \<open>writev_pos\<close> of \<open>sysdep.c\<close> (the Unix
  variant) and \<open>read_phys_blocks\<close>, \<open>write_phys_blocks\<close> of \<open>cache.c\<close>.

  A device is an open file: a list of bytes for each file descriptor.  \<open>io_fault fd pos\<close> says that
  the system call that starts at \<open>pos\<close> fails.  The model of \<open>lseek\<close>, \<open>read\<close> and \<open>write\<close> is the one of
  Unix: a seek to a negative offset fails, a read stops at the end of the file, a write past the
  end extends the file with zero bytes.  A read returns the bytes it stored in the buffer.
\<close>

section \<open>Devices\<close>

record devices =
  file_of :: "int \<Rightarrow> byte list"
  io_fault :: "int \<Rightarrow> int \<Rightarrow> bool"

definition overwrite :: "byte list \<Rightarrow> nat \<Rightarrow> byte list \<Rightarrow> byte list" where
  "overwrite f p xs = take p f @ replicate (p - length f) 0 @ xs @ drop (p + length xs) f"

text \<open>The system calls at a position that was set by \<open>lseek\<close>.\<close>

definition sys_read :: "devices \<Rightarrow> int \<Rightarrow> int \<Rightarrow> nat \<Rightarrow> int \<times> byte list" where
  "sys_read d fd pos n =
     (if io_fault d fd pos then (-1, [])
      else let got = take n (drop (nat pos) (file_of d fd)) in (int (length got), got))"

definition sys_write :: "devices \<Rightarrow> int \<Rightarrow> int \<Rightarrow> byte list \<Rightarrow> int \<times> devices" where
  "sys_write d fd pos xs =
     (if io_fault d fd pos then (-1, d)
      else (int (length xs), d\<lparr>file_of := (file_of d)(fd := overwrite (file_of d fd) (nat pos) xs)\<rparr>))"

definition get_device_block_size :: "int \<Rightarrow> int" where
  "get_device_block_size fd = 512"

definition get_num_device_blocks :: "devices \<Rightarrow> int \<Rightarrow> fs_off_t" where
  "get_num_device_blocks d fd = int (length (file_of d fd)) div get_device_block_size fd"

definition read_pos :: "devices \<Rightarrow> int \<Rightarrow> int \<Rightarrow> nat \<Rightarrow> int \<times> byte list" where
  "read_pos d fd pos nbytes =
     (if pos < 0 then (EINVAL, [])
      else let (ret, got) = sys_read d fd pos nbytes
           in if ret \<noteq> int nbytes then (-1, got) else (ret, got))"

definition write_pos :: "devices \<Rightarrow> int \<Rightarrow> int \<Rightarrow> byte list \<Rightarrow> int \<times> devices" where
  "write_pos d fd pos xs =
     (if pos < 0 then (EINVAL, d)
      else let (ret, d') = sys_write d fd pos xs
           in if ret \<noteq> int (length xs) then (-1, d') else (ret, d'))"

definition MAX_IOV :: nat where
  "MAX_IOV = 8192"

text \<open>The loop of \<open>readv_pos\<close>: \<open>lens\<close> are the lengths of the vectors that are left.\<close>

function readv_loop :: "devices \<Rightarrow> int \<Rightarrow> int \<Rightarrow> nat list \<Rightarrow> int \<Rightarrow> byte list \<Rightarrow> int \<times> byte list" where
  "readv_loop d fd pos lens amt acc =
     (if lens = [] then (amt, acc)
      else let n = (if MAX_IOV < length lens then MAX_IOV else length lens);
               (ret, got) = sys_read d fd pos (sum_list (take n lens))
           in if ret < 0 then (amt + ret, acc @ got)
              else readv_loop d fd (pos + ret) (drop n lens) (amt + ret) (acc @ got))"
  by pat_completeness auto
termination
  by (relation "measure (\<lambda>(d, fd, pos, lens, amt, acc). length lens)")
     (auto simp: MAX_IOV_def)

definition readv_pos :: "devices \<Rightarrow> int \<Rightarrow> int \<Rightarrow> nat list \<Rightarrow> int \<times> byte list" where
  "readv_pos d fd pos lens = (if pos < 0 then (EINVAL, []) else readv_loop d fd pos lens 0 [])"

function writev_loop :: "devices \<Rightarrow> int \<Rightarrow> int \<Rightarrow> byte list list \<Rightarrow> int \<Rightarrow> int \<times> devices" where
  "writev_loop d fd pos iov amt =
     (if iov = [] then (amt, d)
      else let n = (if MAX_IOV < length iov then MAX_IOV else length iov);
               (ret, d') = sys_write d fd pos (concat (take n iov))
           in if ret < 0 then (amt + ret, d')
              else writev_loop d' fd (pos + ret) (drop n iov) (amt + ret))"
  by pat_completeness auto
termination
  by (relation "measure (\<lambda>(d, fd, pos, iov, amt). length iov)")
     (auto simp: MAX_IOV_def)

definition writev_pos :: "devices \<Rightarrow> int \<Rightarrow> int \<Rightarrow> byte list list \<Rightarrow> int \<times> devices" where
  "writev_pos d fd pos iov = (if pos < 0 then (EINVAL, d) else writev_loop d fd pos iov 0)"

declare readv_loop.simps [simp del] writev_loop.simps [simp del]

section \<open>Blocks\<close>

definition CHUNK :: nat where
  "CHUNK = 512 * 1024"

text \<open>The number of bytes of a request is computed in 32-bit unsigned arithmetic.\<close>

definition req_bytes :: "int \<Rightarrow> int \<Rightarrow> nat" where
  "req_bytes num_blocks bsize = nat ((num_blocks * bsize) mod 2 ^ 32)"

text \<open>The loop over whole chunks: it returns \<open>ret\<close>, \<open>sum\<close> and the bytes read.\<close>

function read_chunks ::
  "devices \<Rightarrow> int \<Rightarrow> int \<Rightarrow> nat \<Rightarrow> int \<Rightarrow> nat \<Rightarrow> byte list \<Rightarrow> int \<times> nat \<times> byte list" where
  "read_chunks d fd pos n ret sm acc =
     (if sm + CHUNK \<le> n
      then let (ret', got) = read_pos d fd (pos + int sm) CHUNK
           in if ret' \<noteq> int CHUNK then (ret', sm, acc @ got)
              else read_chunks d fd pos n ret' (sm + CHUNK) (acc @ got)
      else (ret, sm, acc))"
  by pat_completeness auto
termination
  by (relation "measure (\<lambda>(d, fd, pos, n, ret, sm, acc). n - sm)") (auto simp: CHUNK_def)

declare read_chunks.simps [simp del]

definition read_phys_blocks ::
  "devices \<Rightarrow> int \<Rightarrow> fs_off_t \<Rightarrow> int \<Rightarrow> int \<Rightarrow> errno \<times> byte list" where
  "read_phys_blocks d fd bnum num_blocks bsize =
     (let n = req_bytes num_blocks bsize;
          (ret, got) =
            (if n < CHUNK then read_pos d fd (bnum * bsize) n
             else let (ret, sm, acc) = read_chunks d fd (bnum * bsize) n 0 0 []
                  in if ret = int CHUNK \<and> n - sm > 0
                     then let (ret', got) = read_pos d fd (bnum * bsize + int sm) (n - sm)
                          in (if ret' = int (n - sm) then int n else ret', acc @ got)
                     else if ret = int CHUNK then (int n, acc)
                     else (ret, acc))
      in if ret = int n then (0, got) else (EBADF, got))"

function write_chunks ::
  "devices \<Rightarrow> int \<Rightarrow> int \<Rightarrow> byte list \<Rightarrow> nat \<Rightarrow> int \<Rightarrow> nat \<Rightarrow> int \<times> nat \<times> devices" where
  "write_chunks d fd pos xs n ret sm =
     (if sm + CHUNK \<le> n
      then let (ret', d') = write_pos d fd (pos + int sm) (take CHUNK (drop sm xs))
           in if ret' \<noteq> int CHUNK then (ret', sm, d')
              else write_chunks d' fd pos xs n ret' (sm + CHUNK)
      else (ret, sm, d))"
  by pat_completeness auto
termination
  by (relation "measure (\<lambda>(d, fd, pos, xs, n, ret, sm). n - sm)") (auto simp: CHUNK_def)

declare write_chunks.simps [simp del]

definition write_phys_blocks ::
  "devices \<Rightarrow> int \<Rightarrow> fs_off_t \<Rightarrow> byte list \<Rightarrow> int \<Rightarrow> int \<Rightarrow> errno \<times> devices" where
  "write_phys_blocks d fd bnum xs num_blocks bsize =
     (let n = req_bytes num_blocks bsize;
          (ret, d') =
            (if n < CHUNK then write_pos d fd (bnum * bsize) (take n xs)
             else let (ret, sm, d1) = write_chunks d fd (bnum * bsize) xs n 0 0
                  in if ret = int CHUNK \<and> n - sm > 0
                     then let (ret', d2) = write_pos d1 fd (bnum * bsize + int sm)
                                             (take (n - sm) (drop sm xs))
                          in (if ret' = int (n - sm) then int n else ret', d2)
                     else if ret = int CHUNK then (int n, d1)
                     else (ret, d1))
      in if ret = int n then (0, d') else (EBADF, d'))"

section \<open>A device in good order\<close>

text \<open>No transfer of device \<open>fd\<close> fails.\<close>

definition good_dev :: "devices \<Rightarrow> int \<Rightarrow> bool" where
  "good_dev d fd \<longleftrightarrow> (\<forall>pos. \<not> io_fault d fd pos)"

definition put_bytes :: "devices \<Rightarrow> int \<Rightarrow> nat \<Rightarrow> byte list \<Rightarrow> devices" where
  "put_bytes d fd p xs = d\<lparr>file_of := (file_of d)(fd := overwrite (file_of d fd) p xs)\<rparr>"

definition get_bytes :: "devices \<Rightarrow> int \<Rightarrow> nat \<Rightarrow> nat \<Rightarrow> byte list" where
  "get_bytes d fd p n = take n (drop p (file_of d fd))"

lemma overwrite_length: "p + length xs \<le> length f \<Longrightarrow> length (overwrite f p xs) = length f"
  by (simp add: overwrite_def)

lemma overwrite_nth:
  "p + length xs \<le> length f \<Longrightarrow> i < length f \<Longrightarrow>
     overwrite f p xs ! i = (if p \<le> i \<and> i < p + length xs then xs ! (i - p) else f ! i)"
  by (auto simp: overwrite_def nth_append)

lemma overwrite_get:
  "p + length xs \<le> length f \<Longrightarrow> take (length xs) (drop p (overwrite f p xs)) = xs"
  by (simp add: overwrite_def)

lemma overwrite_other:
  assumes "p + length xs \<le> length f" "q + n \<le> p \<or> p + length xs \<le> q"
  shows "take n (drop q (overwrite f p xs)) = take n (drop q f)"
proof (rule nth_equalityI)
  show "length (take n (drop q (overwrite f p xs))) = length (take n (drop q f))"
    using overwrite_length [OF assms(1)] by simp
  fix i
  assume "i < length (take n (drop q (overwrite f p xs)))"
  then have "i < n" "q + i < length f" using overwrite_length [OF assms(1)] by auto
  with assms overwrite_nth [OF assms(1), of "q + i"] show
    "take n (drop q (overwrite f p xs)) ! i = take n (drop q f) ! i"
    using overwrite_length [OF assms(1)] by auto
qed

lemma overwrite_append:
  assumes "p + length xs + length ys \<le> length f"
  shows "overwrite (overwrite f p xs) (p + length xs) ys = overwrite f p (xs @ ys)"
proof -
  have "drop (length ys + (p + length xs)) f = drop (p + (length xs + length ys)) f"
    by (simp add: ac_simps)
  with assms show ?thesis by (simp add: overwrite_def)
qed

lemma overwrite_nil [simp]: "p \<le> length f \<Longrightarrow> overwrite f p [] = f"
  by (simp add: overwrite_def)


lemma put_bytes_simps [simp]:
  "file_of (put_bytes d fd p xs) = (file_of d)(fd := overwrite (file_of d fd) p xs)"
  "io_fault (put_bytes d fd p xs) = io_fault d"
  by (simp_all add: put_bytes_def)

lemma good_put [simp]: "good_dev (put_bytes d fd p xs) fd' = good_dev d fd'"
  by (simp add: good_dev_def)

lemma get_put_same:
  "p + length xs \<le> length (file_of d fd) \<Longrightarrow> n = length xs \<Longrightarrow>
     get_bytes (put_bytes d fd p xs) fd p n = xs"
  by (simp add: get_bytes_def overwrite_get)

lemma get_put_other:
  "p + length xs \<le> length (file_of d fd) \<Longrightarrow> fd' \<noteq> fd \<or> q + n \<le> p \<or> p + length xs \<le> q \<Longrightarrow>
     get_bytes (put_bytes d fd p xs) fd' q n = get_bytes d fd' q n"
  by (auto simp: get_bytes_def overwrite_other)

lemma get_bytes_length:
  "p + n \<le> length (file_of d fd) \<Longrightarrow> length (get_bytes d fd p n) = n"
  by (simp add: get_bytes_def)

lemma get_bytes_append:
  "get_bytes d fd p (m + n) = get_bytes d fd p m @ get_bytes d fd (p + m) n"
  by (simp add: get_bytes_def take_add add.commute)

lemma put_put_append:
  assumes "p + length xs + length ys \<le> length (file_of d fd)"
  shows "put_bytes (put_bytes d fd p xs) fd (p + length xs) ys = put_bytes d fd p (xs @ ys)"
  using assms by (simp add: put_bytes_def overwrite_append)

text \<open>One transfer.\<close>

lemma read_pos_good:
  assumes "good_dev d fd" "0 \<le> pos" "nat pos + n \<le> length (file_of d fd)"
  shows "read_pos d fd pos n = (int n, get_bytes d fd (nat pos) n)"
  using assms by (simp add: read_pos_def sys_read_def good_dev_def get_bytes_def Let_def)

lemma write_pos_good:
  assumes "good_dev d fd" "0 \<le> pos"
  shows "write_pos d fd pos xs = (int (length xs), put_bytes d fd (nat pos) xs)"
  using assms by (simp add: write_pos_def sys_write_def good_dev_def put_bytes_def)

lemma readv_pos_good:
  assumes "good_dev d fd" "0 \<le> pos" "nat pos + sum_list lens \<le> length (file_of d fd)"
    "length lens \<le> MAX_IOV"
  shows "readv_pos d fd pos lens = (int (sum_list lens), get_bytes d fd (nat pos) (sum_list lens))"
  using assms by (auto simp: readv_pos_def readv_loop.simps sys_read_def good_dev_def get_bytes_def Let_def)

lemma writev_pos_good:
  assumes "good_dev d fd" "0 \<le> pos" "length iov \<le> MAX_IOV" "iov \<noteq> []"
  shows "writev_pos d fd pos iov = (int (length (concat iov)), put_bytes d fd (nat pos) (concat iov))"
  using assms
  by (auto simp: writev_pos_def writev_loop.simps sys_write_def good_dev_def put_bytes_def Let_def)

section \<open>Whole blocks\<close>

lemma read_chunks_good:
  "good_dev d fd \<Longrightarrow> 0 \<le> pos \<Longrightarrow> nat pos + n \<le> length (file_of d fd) \<Longrightarrow> sm \<le> n \<Longrightarrow>
   acc = get_bytes d fd (nat pos) sm \<Longrightarrow> ret = int CHUNK \<or> sm + CHUNK \<le> n \<Longrightarrow>
   \<exists>sm'. read_chunks d fd pos n ret sm acc = (int CHUNK, sm', get_bytes d fd (nat pos) sm') \<and>
     sm' \<le> n \<and> n < sm' + CHUNK"
proof (induction d fd pos n ret sm acc rule: read_chunks.induct)
  case (1 d fd pos n ret sm acc)
  show ?case
  proof (cases "sm + CHUNK \<le> n")
    case True
    have r: "read_pos d fd (pos + int sm) CHUNK =
        (int CHUNK, get_bytes d fd (nat pos + sm) CHUNK)"
      using "1.prems" True by (subst read_pos_good) (auto simp: nat_add_distrib)
    have "\<exists>sm'. read_chunks d fd pos n (int CHUNK) (sm + CHUNK)
          (acc @ get_bytes d fd (nat pos + sm) CHUNK) = (int CHUNK, sm', get_bytes d fd (nat pos) sm') \<and>
        sm' \<le> n \<and> n < sm' + CHUNK"
      by (rule "1.IH" [OF True r [symmetric] refl]) (use "1.prems" True in \<open>simp_all add: get_bytes_append\<close>)
    with True r show ?thesis by (simp add: read_chunks.simps [of d fd pos n ret sm acc])
  next
    case False
    then have "read_chunks d fd pos n ret sm acc = (ret, sm, acc)"
      by (simp add: read_chunks.simps)
    with "1.prems" False show ?thesis by auto
  qed
qed

text \<open>A request whose byte count fits in 32 bits.\<close>

definition fits32 :: "int \<Rightarrow> int \<Rightarrow> bool" where
  "fits32 num_blocks bsize \<longleftrightarrow> 0 \<le> num_blocks \<and> 0 < bsize \<and> num_blocks * bsize < 2 ^ 32"

lemma req_bytes_fits: "fits32 nb bs \<Longrightarrow> req_bytes nb bs = nat nb * nat bs"
  by (simp add: req_bytes_def fits32_def nat_mult_distrib)

lemma read_phys_blocks_good:
  assumes "good_dev d fd" "0 \<le> bnum" "fits32 nb bs"
    "nat bnum * nat bs + nat nb * nat bs \<le> length (file_of d fd)"
  shows "read_phys_blocks d fd bnum nb bs = (0, get_bytes d fd (nat bnum * nat bs) (nat nb * nat bs))"
proof -
  let ?n = "nat nb * nat bs"
  have bs: "0 < bs" using assms(3) by (simp add: fits32_def)
  have pos: "0 \<le> bnum * bs" "nat (bnum * bs) = nat bnum * nat bs"
    using assms(2) bs by (simp_all add: nat_mult_distrib)
  show ?thesis
  proof (cases "?n < CHUNK")
    case True
    with assms pos show ?thesis
      by (simp add: read_phys_blocks_def req_bytes_fits read_pos_good)
  next
    case False
    from read_chunks_good [OF assms(1) pos(1), of ?n 0 "[]" 0] assms(4) False pos(2)
    obtain sm where sm: "read_chunks d fd (bnum * bs) ?n 0 0 [] =
        (int CHUNK, sm, get_bytes d fd (nat bnum * nat bs) sm)" "sm \<le> ?n"
      by (auto simp: get_bytes_def)
    have "read_pos d fd (bnum * bs + int sm) (?n - sm) =
        (int (?n - sm), get_bytes d fd (nat bnum * nat bs + sm) (?n - sm))"
      using assms(1,4) pos sm(2) by (subst read_pos_good) (auto simp: nat_add_distrib)
    moreover have "get_bytes d fd (nat bnum * nat bs) sm @
        get_bytes d fd (nat bnum * nat bs + sm) (?n - sm) = get_bytes d fd (nat bnum * nat bs) ?n"
      using sm(2) by (simp flip: get_bytes_append)
    ultimately show ?thesis using False sm unfolding read_phys_blocks_def req_bytes_fits [OF assms(3)] Let_def
      by (cases "sm = ?n") (simp_all del: of_nat_mult of_nat_diff int_nat_eq)
  qed
qed

lemma write_chunks_good:
  "good_dev d fd \<Longrightarrow> 0 \<le> pos \<Longrightarrow> nat pos + n \<le> length (file_of d fd) \<Longrightarrow> sm \<le> n \<Longrightarrow> n \<le> length xs \<Longrightarrow>
   d = put_bytes d0 fd (nat pos) (take sm xs) \<Longrightarrow> nat pos + n \<le> length (file_of d0 fd) \<Longrightarrow>
   ret = int CHUNK \<or> sm + CHUNK \<le> n \<Longrightarrow>
   \<exists>sm'. write_chunks d fd pos xs n ret sm =
       (int CHUNK, sm', put_bytes d0 fd (nat pos) (take sm' xs)) \<and> sm' \<le> n \<and> n < sm' + CHUNK"
proof (induction d fd pos xs n ret sm rule: write_chunks.induct)
  case (1 d fd pos xs n ret sm)
  show ?case
  proof (cases "sm + CHUNK \<le> n")
    case True
    let ?c = "take CHUNK (drop sm xs)"
    let ?d = "put_bytes d0 fd (nat pos) (take (sm + CHUNK) xs)"
    have len: "length ?c = CHUNK" "length (take sm xs) = sm" using "1.prems"(4,5) True by auto
    have "put_bytes d fd (nat pos + sm) ?c = put_bytes d0 fd (nat pos) (take sm xs @ ?c)"
      using put_put_append [of "nat pos" "take sm xs" ?c d0 fd] "1.prems"(6,7) len True by simp
    then have w: "write_pos d fd (pos + int sm) ?c = (int CHUNK, ?d)"
      using "1.prems"(1,2) len write_pos_good [OF "1.prems"(1), of "pos + int sm" ?c]
      by (simp add: nat_add_distrib take_add)
    have "\<exists>sm'. write_chunks ?d fd pos xs n (int CHUNK) (sm + CHUNK) =
        (int CHUNK, sm', put_bytes d0 fd (nat pos) (take sm' xs)) \<and> sm' \<le> n \<and> n < sm' + CHUNK"
      by (rule "1.IH" [OF True w [symmetric] refl])
         (use "1.prems" True overwrite_length in \<open>auto simp: min_def\<close>)
    with True w show ?thesis by (simp add: write_chunks.simps [of d fd pos xs n ret sm])
  next
    case False
    then have "write_chunks d fd pos xs n ret sm = (ret, sm, d)" by (simp add: write_chunks.simps)
    with "1.prems" False show ?thesis by auto
  qed
qed

lemma write_phys_blocks_good:
  assumes "good_dev d fd" "0 \<le> bnum" "fits32 nb bs" "length xs = nat nb * nat bs"
    "nat bnum * nat bs + nat nb * nat bs \<le> length (file_of d fd)"
  shows "write_phys_blocks d fd bnum xs nb bs = (0, put_bytes d fd (nat bnum * nat bs) xs)"
proof -
  let ?n = "nat nb * nat bs"
  have bs: "0 < bs" using assms(3) by (simp add: fits32_def)
  have pos: "0 \<le> bnum * bs" "nat (bnum * bs) = nat bnum * nat bs"
    using assms(2) bs by (simp_all add: nat_mult_distrib)
  show ?thesis
  proof (cases "?n < CHUNK")
    case True
    with assms pos show ?thesis
      by (simp add: write_phys_blocks_def req_bytes_fits write_pos_good)
  next
    case False
    have d: "d = put_bytes d fd (nat (bnum * bs)) (take 0 xs)"
      using assms(5) pos(2) by (simp add: put_bytes_def)
    from write_chunks_good [OF assms(1) pos(1) _ _ _ d, of ?n 0] assms(4,5) False pos(2)
    obtain sm where sm: "write_chunks d fd (bnum * bs) xs ?n 0 0 =
        (int CHUNK, sm, put_bytes d fd (nat bnum * nat bs) (take sm xs))" "sm \<le> ?n" by auto
    have "put_bytes (put_bytes d fd (nat bnum * nat bs) (take sm xs)) fd (nat bnum * nat bs + sm)
        (drop sm xs) = put_bytes d fd (nat bnum * nat bs) xs"
      using put_put_append [of "nat bnum * nat bs" "take sm xs" "drop sm xs" d fd] assms(4,5) sm(2)
      by simp
    then have "write_pos (put_bytes d fd (nat bnum * nat bs) (take sm xs)) fd (bnum * bs + int sm)
        (take (?n - sm) (drop sm xs)) = (int (?n - sm), put_bytes d fd (nat bnum * nat bs) xs)"
      using assms(1,4) pos sm(2) by (subst write_pos_good) (auto simp: nat_add_distrib)
    with False sm assms(4) show ?thesis unfolding write_phys_blocks_def req_bytes_fits [OF assms(3)] Let_def
      by (cases "sm = ?n") (simp_all del: of_nat_mult of_nat_diff int_nat_eq)
  qed
qed

section \<open>Properties\<close>

text \<open>On a device without faults, \<open>write_phys_blocks\<close> of a run of blocks inside the device
  succeeds, whatever the number of 512 KB pieces it is cut into; \<open>read_phys_blocks\<close> of the same run
  then returns the bytes written, and no byte outside the run changes.\<close>

theorem phys_blocks_round_trip:
  assumes "good_dev d fd" "0 \<le> bnum" "fits32 nb bs" "length xs = nat nb * nat bs"
    "nat bnum * nat bs + nat nb * nat bs \<le> length (file_of d fd)"
  shows "\<exists>d'. write_phys_blocks d fd bnum xs nb bs = (0, d') \<and>
    read_phys_blocks d' fd bnum nb bs = (0, xs) \<and>
    (\<forall>fd' q n. fd' \<noteq> fd \<or> q + n \<le> nat bnum * nat bs \<or> nat bnum * nat bs + length xs \<le> q \<longrightarrow>
       get_bytes d' fd' q n = get_bytes d fd' q n)"
proof -
  let ?d = "put_bytes d fd (nat bnum * nat bs) xs"
  have "length (file_of ?d fd) = length (file_of d fd)"
    using assms(4,5) by (simp add: overwrite_length)
  then have "read_phys_blocks ?d fd bnum nb bs = (0, xs)"
    using assms by (subst read_phys_blocks_good) (simp_all add: get_put_same)
  with write_phys_blocks_good [OF assms] assms(4,5) show ?thesis by (auto intro!: get_put_other)
qed

theorem phys_blocks_round_trip_witness:
  "\<exists>d'. write_phys_blocks \<lparr>file_of = (\<lambda>_. replicate 8 0), io_fault = (\<lambda>_ _. False)\<rparr> 3 1 [1, 2, 3, 4] 2 2
      = (0, d') \<and> read_phys_blocks d' 3 1 2 2 = (0, [1, 2, 3, 4])"
  using phys_blocks_round_trip [of "\<lparr>file_of = (\<lambda>_. replicate 8 0), io_fault = (\<lambda>_ _. False)\<rparr>"
      3 1 2 2 "[1, 2, 3, 4]"]
  by (auto simp: good_dev_def fits32_def)

end
