(* ===== verification/Block_Cache.thy ===== *)
theory Block_Cache
  imports Hash_Table Phys_IO
begin

text \<open>
  The block cache of \<open>cache.c\<close>: its state and its operations.

  A \<open>cache_ent\<close> is a record, named by its address (a natural number) in a heap; the two LRU lists
  are lists of addresses with the LRU end first (the pointer operations are related to these
  lists in the theory of the cache lists).  The hash table stores addresses.  The state also holds
  what the code uses of the world: the devices, whether \<open>malloc\<close> has memory, and the calls made to
  the callbacks of \<open>set_blocks_info\<close>.

  Locks are those of \<open>stub.c\<close>, with one thread of control: nobody else can clear the busy flag of
  an entry, so a lookup that waits for it waits for ever (\<open>None\<close>).  A crash on a bad pointer and a
  \<open>panic\<close> are \<open>None\<close> too.
\<close>

section \<open>State\<close>

record cache_ent =
  ce_dev :: int
  block_num :: fs_off_t
  ce_bsize :: int
  ce_dirty :: bool
  ce_busy :: bool
  ce_data :: "byte list"
  ce_clone :: "byte list option"
  ce_lock :: int
  ce_func :: "nat option"
  logged_bnum :: fs_off_t
  ce_arg :: int

record block_cache =
  cur_blocks :: int
  max_blocks :: int
  ht :: "nat hash_table"
  ents :: "nat \<Rightarrow> cache_ent"
  next_addr :: nat
  normal :: "nat list"
  locked :: "nat list"
  max_device_blocks :: "int \<Rightarrow> fs_off_t"
  iovec_pool :: "bool list"
  iovec_used :: "bool list"
  devs :: devices
  mem_ok :: bool
  calls :: "(nat \<times> fs_off_t \<times> int) list"

definition MAX_IOVECS :: nat where "MAX_IOVECS = 64"
definition NUM_FLUSH_BLOCKS :: nat where "NUM_FLUSH_BLOCKS = 64"
definition MAX_DEVICES :: int where "MAX_DEVICES = 256"
definition read_ahead_size :: int where "read_ahead_size = 32 * 1024"

definition upd_ent :: "nat \<Rightarrow> (cache_ent \<Rightarrow> cache_ent) \<Rightarrow> block_cache \<Rightarrow> block_cache" where
  "upd_ent a f s = s\<lparr>ents := (ents s)(a := f (ents s a))\<rparr>"

definition set_busy :: "bool \<Rightarrow> nat \<Rightarrow> block_cache \<Rightarrow> block_cache" where
  "set_busy b a = upd_ent a (\<lambda>ce. ce\<lparr>ce_busy := b\<rparr>)"

text \<open>An entry with something to write: dirty, or cloned.\<close>

definition to_write :: "cache_ent \<Rightarrow> bool" where
  "to_write ce \<longleftrightarrow> ce_dirty ce \<or> ce_clone ce \<noteq> None"

section \<open>Start-up\<close>

definition blank_ent :: cache_ent where
  "blank_ent = \<lparr>ce_dev = 0, block_num = 0, ce_bsize = 0, ce_dirty = False, ce_busy = False,
     ce_data = [], ce_clone = None, ce_lock = 0, ce_func = None, logged_bnum = 0, ce_arg = 0\<rparr>"

definition init_block_cache :: "devices \<Rightarrow> bool \<Rightarrow> int \<Rightarrow> errno \<times> block_cache" where
  "init_block_cache d mem mx =
     (let (err, h) = init_hash_table mem;
          s = \<lparr>cur_blocks = 0, max_blocks = 0, ht = h, ents = (\<lambda>_. blank_ent), next_addr = 0,
               normal = [], locked = [], max_device_blocks = (\<lambda>_. 0),
               iovec_pool = replicate MAX_IOVECS False, iovec_used = replicate MAX_IOVECS False,
               devs = d, mem_ok = mem, calls = []\<rparr>
      in if err \<noteq> 0 then (ENOMEM, s)
         else (0, s\<lparr>max_blocks := mx,
                    iovec_pool := True # True # replicate (MAX_IOVECS - 2) False\<rparr>))"

definition init_cache_for_device :: "int \<Rightarrow> fs_off_t \<Rightarrow> block_cache \<Rightarrow> (int \<times> block_cache) option" where
  "init_cache_for_device fd mx s =
     (if fd \<ge> MAX_DEVICES then Some (-1, s)
      else if fd < 0 then None
      else if max_device_blocks s fd \<noteq> 0 then Some (-1, s)
      else Some (0, s\<lparr>max_device_blocks := (max_device_blocks s)(fd := mx)\<rparr>))"

text \<open>
  The pool of iovec arrays.  The test that the allocation succeeded looks at the address of the
  pool and not at the element, so an allocation that fails hands out NULL (the inner \<open>None\<close>).
\<close>

definition get_iovec_array :: "block_cache \<Rightarrow> (nat option \<times> block_cache) option" where
  "get_iovec_array s =
     (case find (\<lambda>i. \<not> iovec_used s ! i) [0..<MAX_IOVECS] of
        None \<Rightarrow> panic
      | Some i \<Rightarrow>
          let pool = (if iovec_pool s ! i then iovec_pool s else (iovec_pool s)[i := mem_ok s])
          in Some (if pool ! i then Some i else None,
                   s\<lparr>iovec_pool := pool, iovec_used := (iovec_used s)[i := True]\<rparr>))"

definition release_iovec_array :: "nat \<Rightarrow> block_cache \<Rightarrow> block_cache" where
  "release_iovec_array i s = s\<lparr>iovec_used := (iovec_used s)[i := False]\<rparr>"

section \<open>Ordering entries\<close>

text \<open>The difference of the block numbers is cut down to a 32-bit int.\<close>

definition cache_ent_cmp :: "cache_ent \<Rightarrow> cache_ent \<Rightarrow> int" where
  "cache_ent_cmp p1 p2 =
     (if ce_dev p1 = ce_dev p2 then signed_take_bit 31 (block_num p1 - block_num p2)
      else ce_dev p1 - ce_dev p2)"

text \<open>\<open>qsort\<close> of an array of entry pointers.\<close>

fun insert_ent :: "(nat \<Rightarrow> cache_ent) \<Rightarrow> nat \<Rightarrow> nat list \<Rightarrow> nat list" where
  "insert_ent h x [] = [x]"
| "insert_ent h x (y # ys) =
     (if cache_ent_cmp (h x) (h y) \<le> 0 then x # y # ys else y # insert_ent h x ys)"

definition sort_ents :: "(nat \<Rightarrow> cache_ent) \<Rightarrow> nat list \<Rightarrow> nat list" where
  "sort_ents h xs = foldr (insert_ent h) xs []"

section \<open>Writing entries back\<close>

definition run_func :: "nat \<Rightarrow> block_cache \<Rightarrow> block_cache" where
  "run_func a s =
     (case ce_func (ents s a) of
        None \<Rightarrow> s
      | Some f \<Rightarrow> (upd_ent a (\<lambda>ce. ce\<lparr>ce_func := None\<rparr>) s)
                    \<lparr>calls := calls s @ [(f, logged_bnum (ents s a), ce_arg (ents s a))]\<rparr>)"

definition out_data :: "cache_ent \<Rightarrow> byte list" where
  "out_data ce = (case ce_clone ce of Some c \<Rightarrow> c | None \<Rightarrow> ce_data ce)"

text \<open>One write of an entry and its callback.\<close>

definition write_ent :: "nat \<Rightarrow> block_cache \<Rightarrow> errno \<times> block_cache" where
  "write_ent a s =
     (let ce = ents s a;
          (ret, d) = write_phys_blocks (devs s) (ce_dev ce) (block_num ce) (out_data ce) 1 (ce_bsize ce)
      in (ret, run_func a (s\<lparr>devs := d\<rparr>)))"

definition flush_cache_ent :: "nat \<Rightarrow> block_cache \<Rightarrow> errno \<times> block_cache" where
  "flush_cache_ent a s =
     (let ce = ents s a in
      if \<not> ce_dirty ce \<and> ce_clone ce = None then (0, s)
      else if ce_clone ce = None \<and> ce_lock ce \<noteq> 0 then (0, s)
      else let (ret, s1) = write_ent a s in
        if ce_clone ce \<noteq> None
        then let s2 = upd_ent a (\<lambda>ce. ce\<lparr>ce_clone := None\<rparr>) s1 in
             if ce_lock ce = 0 \<and> ce_dirty ce
             then let (ret', s3) = write_ent a s2
                  in (ret', upd_ent a (\<lambda>ce. ce\<lparr>ce_dirty := False\<rparr>) s3)
             else (ret, s2)
        else (ret, upd_ent a (\<lambda>ce. ce\<lparr>ce_dirty := False\<rparr>) s1))"

text \<open>How many entries behind entry \<open>a\<close> go out in the same write: the next blocks of the device.\<close>

fun run_len :: "(nat \<Rightarrow> cache_ent) \<Rightarrow> nat \<Rightarrow> nat \<Rightarrow> nat list \<Rightarrow> nat" where
  "run_len h a k [] = 0"
| "run_len h a k (b # bs) =
     (if k < NUM_FLUSH_BLOCKS \<and> ce_dev (h b) = ce_dev (h a) \<and>
         block_num (h b) = block_num (h a) + int k \<and> \<not> (ce_clone (h b) = None \<and> ce_lock (h b) \<noteq> 0)
      then Suc (run_len h a (Suc k) bs) else 0)"

text \<open>What happens to an entry after its run was written.\<close>

definition flushed_ent :: "nat \<Rightarrow> block_cache \<Rightarrow> block_cache" where
  "flushed_ent a s =
     (let s1 = run_func a s
      in if ce_clone (ents s1 a) \<noteq> None then upd_ent a (\<lambda>ce. ce\<lparr>ce_clone := None\<rparr>) s1
         else upd_ent a (\<lambda>ce. ce\<lparr>ce_dirty := False\<rparr>) s1)"

text \<open>One pass of the loop of \<open>flush_ents\<close>; \<open>ret\<close> is the variable of that name.\<close>

function flush_pass :: "errno \<Rightarrow> nat list \<Rightarrow> block_cache \<Rightarrow> errno \<times> block_cache" where
  "flush_pass ret [] s = (ret, s)"
| "flush_pass ret (a # as) s =
     (let ce = ents s a in
      if \<not> ce_dirty ce \<and> ce_clone ce = None then flush_pass ret as s
      else if ce_clone ce = None \<and> ce_lock ce \<noteq> 0 then flush_pass ret as s
      else let n = run_len (ents s) a 1 as in
        if n = 0
        then let (r, s1) = flush_cache_ent a s
             in if r \<noteq> 0 then (r, s1) else flush_pass r as s1
        else let grp = a # take n as;
                 (r, d) = writev_pos (devs s) (ce_dev ce) (block_num ce * ce_bsize ce)
                            (map (\<lambda>k. take (nat (ce_bsize ce)) (out_data (ents s k))) grp)
             in if r \<noteq> int (length grp) * ce_bsize ce then (EINVAL, s\<lparr>devs := d\<rparr>)
                else flush_pass 0 (drop n as) (fold flushed_ent grp (s\<lparr>devs := d\<rparr>)))"
  by pat_completeness auto
termination
  by (relation "measure (\<lambda>(r, as, s). length as)") auto

declare flush_pass.simps(2) [simp del]

definition flush_ents :: "nat list \<Rightarrow> block_cache \<Rightarrow> (errno \<times> block_cache) option" where
  "flush_ents as s = do {
     (iov, s1) \<leftarrow> get_iovec_array s;
     case iov of
       None \<Rightarrow> Some (ENOMEM, s1)
     | Some i \<Rightarrow>
         let (ret, s2) = flush_pass 0 as s1;
             (ret', s3) =
               (if \<exists>a \<in> set as. ce_dirty (ents s2 a) \<and> ce_lock (ents s2 a) = 0
                then flush_pass ret as s2 else (ret, s2))
         in Some (ret', release_iovec_array i s3)
   }"

section \<open>Looking up a block\<close>

definition block_lookup :: "int \<Rightarrow> fs_off_t \<Rightarrow> block_cache \<Rightarrow> nat option option" where
  "block_lookup d b s =
     (case hash_lookup (ht s) d b of
        None \<Rightarrow> Some None
      | Some a \<Rightarrow> if ce_busy (ents s a) then None else Some (Some a))"

definition wrong_block :: "int \<Rightarrow> fs_off_t \<Rightarrow> cache_ent \<Rightarrow> bool" where
  "wrong_block d b ce \<longleftrightarrow> b \<noteq> block_num ce \<or> d \<noteq> ce_dev ce"

fun mark_loop :: "int \<Rightarrow> fs_off_t \<Rightarrow> nat \<Rightarrow> block_cache \<Rightarrow> (errno \<times> block_cache) option" where
  "mark_loop d b 0 s = Some (0, s)"
| "mark_loop d b (Suc n) s = do {
     ce \<leftarrow> block_lookup d b s;
     case ce of
       None \<Rightarrow> Some (ENOENT, s)
     | Some a \<Rightarrow> mark_loop d (b + 1) n (upd_ent a (\<lambda>ce. ce\<lparr>ce_dirty := True\<rparr>) s)
   }"

definition mark_blocks_dirty :: "int \<Rightarrow> fs_off_t \<Rightarrow> int \<Rightarrow> block_cache \<Rightarrow> (errno \<times> block_cache) option" where
  "mark_blocks_dirty d b nblocks s = mark_loop d b (nat nblocks) s"

text \<open>An entry whose last lock went moves to the head of the normal list.\<close>

definition drop_lock :: "nat \<Rightarrow> block_cache \<Rightarrow> block_cache" where
  "drop_lock a s =
     (let s1 = upd_ent a (\<lambda>ce. ce\<lparr>ce_lock := ce_lock ce - 1\<rparr>) s
      in if ce_lock (ents s1 a) = 0
         then s1\<lparr>locked := remove1 a (locked s1), normal := normal s1 @ [a]\<rparr>
         else s1)"

definition release_block :: "int \<Rightarrow> fs_off_t \<Rightarrow> block_cache \<Rightarrow> (errno \<times> block_cache) option" where
  "release_block d b s = do {
     ce \<leftarrow> block_lookup d b s;
     case ce of
       None \<Rightarrow> panic
     | Some a \<Rightarrow> if wrong_block d b (ents s a) then panic else Some (0, drop_lock a s)
   }"

end
