(* ===== verification/Cache_Ops.thy ===== *)
theory Cache_Ops
  imports Block_Cache
begin

text \<open>
  The rest of the operations of \<open>cache.c\<close>: flushing a device, a range of blocks or whatever is
  idle, dropping the blocks of a device, the journal hook \<open>set_blocks_info\<close>, and
  \<open>cache_block_io\<close> with its callers.
\<close>

section \<open>Flushing\<close>

text \<open>Mark the entries busy, sort and flush them, clear the marks.\<close>

definition do_flush :: "nat list \<Rightarrow> block_cache \<Rightarrow> block_cache option" where
  "do_flush as s = do {
     let s1 = fold (set_busy True) as s;
     (ret, s2) \<leftarrow> flush_ents (sort_ents (ents s1) as) s1;
     Some (fold (set_busy False) as s2)
   }"

text \<open>
  The two loops of \<open>flush_device\<close>.  Whenever 64 entries have been collected they are flushed and
  the walk starts again at the LRU end; when the entries stay dirty because the device fails, the
  loop never ends.
\<close>

partial_function (option) flush_scan ::
  "int \<Rightarrow> (block_cache \<Rightarrow> nat list) \<Rightarrow> (cache_ent \<Rightarrow> bool) \<Rightarrow> nat list \<Rightarrow> nat list \<Rightarrow>
   block_cache \<Rightarrow> block_cache option" where
  "flush_scan d lst want rest acc s =
     (case rest of
        [] \<Rightarrow> if acc \<noteq> [] then do_flush acc s else Some s
      | a # as \<Rightarrow>
          if ce_dev (ents s a) \<noteq> d \<or> ce_busy (ents s a) then flush_scan d lst want as acc s
          else if want (ents s a)
          then if length (acc @ [a]) \<ge> NUM_FLUSH_BLOCKS
               then Option.bind (do_flush (acc @ [a]) s) (\<lambda>s1. flush_scan d lst want (lst s1) [] s1)
               else flush_scan d lst want as (acc @ [a]) s
          else flush_scan d lst want as acc s)"

definition flush_device :: "int \<Rightarrow> block_cache \<Rightarrow> (errno \<times> block_cache) option" where
  "flush_device d s = do {
     s1 \<leftarrow> flush_scan d normal to_write (normal s) [] s;
     s2 \<leftarrow> flush_scan d locked (\<lambda>ce. ce_clone ce \<noteq> None) (locked s1) [] s1;
     Some (0, s2)
   }"

text \<open>\<open>flush_blocks\<close>: the entries are marked busy as they are collected.\<close>

definition flush_batch :: "nat list \<Rightarrow> block_cache \<Rightarrow> block_cache option" where
  "flush_batch as s = do {
     (ret, s1) \<leftarrow> flush_ents (sort_ents (ents s) as) s;
     Some (fold (set_busy False) as s1)
   }"

fun flush_range :: "int \<Rightarrow> fs_off_t \<Rightarrow> nat \<Rightarrow> nat list \<Rightarrow> block_cache \<Rightarrow> block_cache option" where
  "flush_range d b 0 acc s = (if acc = [] then Some s else flush_batch acc s)"
| "flush_range d b (Suc n) acc s = do {
     ce \<leftarrow> block_lookup d b s;
     case ce of
       None \<Rightarrow> flush_range d (b + 1) n acc s
     | Some a \<Rightarrow>
         if wrong_block d b (ents s a) then panic
         else if \<not> to_write (ents s a) then flush_range d (b + 1) n acc s
         else if length (acc @ [a]) \<ge> NUM_FLUSH_BLOCKS
         then do {
           s1 \<leftarrow> flush_batch (acc @ [a]) (set_busy True a s);
           flush_range d (b + 1) n [] s1
         }
         else flush_range d (b + 1) n (acc @ [a]) (set_busy True a s)
   }"

definition flush_blocks :: "int \<Rightarrow> fs_off_t \<Rightarrow> int \<Rightarrow> block_cache \<Rightarrow> (errno \<times> block_cache) option" where
  "flush_blocks d b nblocks s =
     (if nblocks = 0 then Some (0, s)
      else do { s1 \<leftarrow> flush_range d b (nat nblocks) [] s; Some (0, s1) })"

text \<open>Collecting at most 64 entries of a list that pass a test, marking them busy.\<close>

fun collect_busy ::
  "(cache_ent \<Rightarrow> bool) \<Rightarrow> nat list \<Rightarrow> nat list \<Rightarrow> block_cache \<Rightarrow> nat list \<times> block_cache" where
  "collect_busy P [] acc s = (acc, s)"
| "collect_busy P (a # as) acc s =
     (if length acc < NUM_FLUSH_BLOCKS
      then if \<not> ce_busy (ents s a) \<and> P (ents s a)
           then collect_busy P as (acc @ [a]) (set_busy True a s)
           else collect_busy P as acc s
      else (acc, s))"

definition force_cache_flush :: "int \<Rightarrow> bool \<Rightarrow> block_cache \<Rightarrow> block_cache option" where
  "force_cache_flush d prefer_log s =
     (let (acc, s1) = collect_busy
            (\<lambda>ce. ce_dev ce = d \<and> to_write ce \<and> (prefer_log \<and> ce_func ce \<noteq> None \<or> \<not> prefer_log))
            (normal s) [] s;
          (acc', s2) = collect_busy (\<lambda>ce. ce_dev ce = d \<and> ce_clone ce \<noteq> None) (locked s1) acc s1
      in if acc' \<noteq> [] then flush_batch acc' s2 else Some s2)"

text \<open>The idle flusher; \<open>idle\<close> is the time since the last access, in microseconds.\<close>

definition cache_flusher :: "int \<Rightarrow> block_cache \<Rightarrow> block_cache option" where
  "cache_flusher idle s =
     (if idle < 1000000 then Some s
      else let (acc, s1) = collect_busy to_write (normal s) [] s;
               (acc', s2) = collect_busy (\<lambda>ce. ce_clone ce \<noteq> None) (locked s1) acc s1
           in if acc' = [] then Some s2 else flush_batch acc' s2)"

section \<open>The hook of the journal\<close>

fun info_check :: "int \<Rightarrow> fs_off_t list \<Rightarrow> nat list \<Rightarrow> block_cache \<Rightarrow> block_cache option" where
  "info_check d [] acc s = (if acc = [] then Some s else flush_batch acc s)"
| "info_check d (b # bs) acc s = do {
     ce \<leftarrow> block_lookup d b s;
     case ce of
       None \<Rightarrow> panic
     | Some a \<Rightarrow>
         if wrong_block d b (ents s a) \<or> ce_lock (ents s a) = 0 \<or> \<not> ce_dirty (ents s a) then panic
         else let s1 = set_busy True a s in
           if ce_clone (ents s a) \<noteq> None \<and> ce_func (ents s a) \<noteq> None
           then if length (acc @ [a]) \<ge> NUM_FLUSH_BLOCKS
                then do { s2 \<leftarrow> flush_batch (acc @ [a]) s1; info_check d bs [] s2 }
                else info_check d bs (acc @ [a]) s1
           else info_check d bs acc s1
   }"

fun info_set :: "int \<Rightarrow> fs_off_t list \<Rightarrow> nat \<Rightarrow> int \<Rightarrow> block_cache \<Rightarrow> block_cache option" where
  "info_set d [] f x s = Some s"
| "info_set d (b # bs) f x s =
     (case hash_lookup (ht s) d b of
        None \<Rightarrow> panic
      | Some a \<Rightarrow>
          if ce_func (ents s a) \<noteq> None \<or> ce_clone (ents s a) \<noteq> None \<or> \<not> mem_ok s then panic
          else info_set d bs f x
            (drop_lock a (upd_ent a (\<lambda>ce. ce\<lparr>ce_dirty := False, ce_busy := False,
               ce_clone := Some (ce_data ce), ce_func := Some f, ce_arg := x, logged_bnum := b\<rparr>) s)))"

definition set_blocks_info ::
  "int \<Rightarrow> fs_off_t list \<Rightarrow> nat \<Rightarrow> int \<Rightarrow> block_cache \<Rightarrow> (errno \<times> block_cache) option" where
  "set_blocks_info d blocks f x s = do {
     s1 \<leftarrow> info_check d blocks [] s;
     s2 \<leftarrow> info_set d blocks f x s1;
     Some (0, s2)
   }"

section \<open>Dropping entries\<close>

definition forget_ent :: "nat \<Rightarrow> block_cache \<Rightarrow> nat option \<times> block_cache" where
  "forget_ent a s =
     (let (junk, h) = hash_delete (ht s) (ce_dev (ents s a)) (block_num (ents s a))
      in (junk, s\<lparr>ht := h, cur_blocks := cur_blocks s - 1\<rparr>))"

fun delete_cache_list :: "nat list \<Rightarrow> block_cache \<Rightarrow> block_cache" where
  "delete_cache_list [] s = s"
| "delete_cache_list (a # as) s =
     (let s1 = (if to_write (ents s a) then snd (flush_cache_ent a s) else s)
      in delete_cache_list as (snd (forget_ent a s1)))"

definition shutdown_block_cache :: "block_cache \<Rightarrow> block_cache" where
  "shutdown_block_cache s =
     (let s1 = delete_cache_list (normal s) s;
          s2 = delete_cache_list (locked s1) s1
      in s2\<lparr>normal := [], locked := [], ht := shutdown_hash_table (ht s2)\<rparr>)"

text \<open>\<open>real_remove_cached_blocks\<close> on one list: the entries that stay, and the state.\<close>

fun remove_blocks ::
  "int \<Rightarrow> bool \<Rightarrow> nat list \<Rightarrow> block_cache \<Rightarrow> (nat list \<times> block_cache) option" where
  "remove_blocks d wr [] s = Some ([], s)"
| "remove_blocks d wr (a # as) s =
     (if ce_dev (ents s a) \<noteq> d
      then do { (keep, s1) \<leftarrow> remove_blocks d wr as s; Some (a # keep, s1) }
      else let s1 = (if wr \<and> to_write (ents s a)
                     then set_busy False a (snd (flush_cache_ent a (set_busy True a s))) else s);
               (junk, s2) = forget_ent a s1
           in if junk \<noteq> Some a then panic else remove_blocks d wr as s2)"

definition remove_cached_device_blocks ::
  "int \<Rightarrow> bool \<Rightarrow> block_cache \<Rightarrow> (errno \<times> block_cache) option" where
  "remove_cached_device_blocks d allow_writes s = do {
     (keep1, s1) \<leftarrow> remove_blocks d allow_writes (normal s) s;
     (keep2, s2) \<leftarrow> remove_blocks d allow_writes (locked s) s1;
     if d < 0 \<or> d \<ge> MAX_DEVICES then None
     else Some (0, s2\<lparr>normal := keep1, locked := keep2,
                      max_device_blocks := (max_device_blocks s2)(d := 0)\<rparr>)
   }"

section \<open>Finding room\<close>

text \<open>The block that \<open>malloc\<close> returns is not initialised; the code fills it before it is read.\<close>

definition new_cache_ent :: "block_cache \<Rightarrow> (nat \<times> block_cache) option" where
  "new_cache_ent s =
     (if \<not> mem_ok s then panic
      else Some (next_addr s,
             s\<lparr>ents := (ents s)(next_addr s := blank_ent\<lparr>ce_dev := -1, block_num := -1\<rparr>),
               next_addr := next_addr s + 1\<rparr>))"

fun alloc_ents :: "nat \<Rightarrow> block_cache \<Rightarrow> (nat list \<times> block_cache) option" where
  "alloc_ents 0 s = Some ([], s)"
| "alloc_ents (Suc n) s =
     (if cur_blocks s < max_blocks s
      then do {
        (a, s1) \<leftarrow> new_cache_ent s;
        (as, s2) \<leftarrow> alloc_ents n (s1\<lparr>cur_blocks := cur_blocks s1 + 1\<rparr>);
        Some (a # as, s2)
      }
      else Some ([], s))"

text \<open>Taking entries that are not busy from (a part of) the normal list until there are \<open>lim\<close>.\<close>

fun pluck :: "nat \<Rightarrow> nat list \<Rightarrow> nat list \<Rightarrow> block_cache \<Rightarrow> (nat list \<times> block_cache) option" where
  "pluck lim [] acc s = Some (acc, s)"
| "pluck lim (a # as) acc s =
     (if length acc < lim
      then if ce_lock (ents s a) \<noteq> 0 then panic
           else if ce_busy (ents s a) then pluck lim as acc s
           else pluck lim as (acc @ [a]) (set_busy True a s)
      else Some (acc, s))"

text \<open>The loop that keeps trying.\<close>

fun pluck_retry :: "nat \<Rightarrow> nat \<Rightarrow> nat list \<Rightarrow> block_cache \<Rightarrow> (nat list \<times> block_cache) option" where
  "pluck_retry 0 need acc s = (if length acc < need then panic else Some (acc, s))"
| "pluck_retry (Suc r) need acc s =
     (if length acc < need
      then do {
        (acc', s') \<leftarrow> pluck need (normal s) acc s;
        if length acc' < need then pluck_retry r need acc' s' else Some (acc', s')
      }
      else Some (acc, s))"

text \<open>The entries behind one in a list.  (In the second loop the busy test comes first.)\<close>

definition behind :: "nat \<Rightarrow> nat list \<Rightarrow> nat list" where
  "behind a xs = tl (dropWhile (\<lambda>x. x \<noteq> a) xs)"

fun pluck_more :: "nat \<Rightarrow> nat list \<Rightarrow> nat list \<Rightarrow> block_cache \<Rightarrow> (nat list \<times> block_cache) option" where
  "pluck_more lim [] acc s = Some (acc, s)"
| "pluck_more lim (a # as) acc s =
     (if length acc < lim
      then if ce_busy (ents s a) then pluck_more lim as acc s
           else if ce_lock (ents s a) \<noteq> 0 then panic
           else pluck_more lim as (acc @ [a]) (set_busy True a s)
      else Some (acc, s))"

definition get_ents :: "nat \<Rightarrow> nat \<Rightarrow> block_cache \<Rightarrow> (nat list \<times> block_cache) option" where
  "get_ents need mx s =
     (if need > mx then panic
      else do {
        (new, s1) \<leftarrow> alloc_ents need s;
        (acc, s2) \<leftarrow> pluck_retry (need * 256) need new s1;
        if acc \<noteq> [] \<and> length acc < mx \<and> to_write (ents s2 (last acc))
        then pluck_more mx (behind (last acc) (normal s2)) acc s2
        else Some (acc, s2)
      })"

section \<open>Reading into entries\<close>

fun fill_ents :: "nat \<Rightarrow> nat list \<Rightarrow> byte list \<Rightarrow> block_cache \<Rightarrow> block_cache" where
  "fill_ents n [] xs s = s"
| "fill_ents n (a # as) xs s =
     fill_ents n as (drop n xs) (upd_ent a (\<lambda>ce. ce\<lparr>ce_data := take n xs\<rparr>) s)"

definition read_into_ents ::
  "int \<Rightarrow> fs_off_t \<Rightarrow> nat list \<Rightarrow> int \<Rightarrow> block_cache \<Rightarrow> (errno \<times> block_cache) option" where
  "read_into_ents d b as bsize s = do {
     (iov, s1) \<leftarrow> get_iovec_array s;
     case iov of
       None \<Rightarrow> None
     | Some i \<Rightarrow>
         let (ret, got) = readv_pos (devs s1) d (b * bsize) (replicate (length as) (nat bsize));
             s2 = release_iovec_array i s1
         in if ret \<noteq> int (length as) * bsize then Some (EINVAL, s2)
            else Some (0, fill_ents (nat bsize) as got s2)
   }"

end
