(* ===== verification/Cache_IO.thy ===== *)
theory Cache_IO
  imports Cache_Ops
begin

text \<open>
  \<open>cache_block_io\<close> of \<open>cache.c\<close> and its callers \<open>get_block\<close>, \<open>get_empty_block\<close>, \<open>cached_read\<close>,
  \<open>cached_write\<close>, \<open>cached_write_locked\<close>.

  The caller's buffer is a list of bytes.  The loop keeps it in two parts: the bytes of the blocks
  that are done, and the rest.  A null \<open>data\<close> pointer is \<open>nul\<close>; what is stored through \<open>dataptr\<close> is
  the address of the entry whose data it points to.
\<close>

section \<open>Operation codes\<close>

record cache_op =
  CACHE_READ :: bool
  CACHE_WRITE :: bool
  CACHE_NOOP :: bool
  CACHE_LOCKED :: bool
  CACHE_READ_AHEAD_OK :: bool

section \<open>Transfers of 64 KB and more, done directly\<close>

text \<open>Blocks that are in the cache replace those that were read.\<close>

fun overlay_read ::
  "int \<Rightarrow> fs_off_t \<Rightarrow> nat \<Rightarrow> nat \<Rightarrow> byte list \<Rightarrow> block_cache \<Rightarrow> byte list option" where
  "overlay_read d b bsize 0 buf s = Some []"
| "overlay_read d b bsize (Suc n) buf s = do {
     ce \<leftarrow> block_lookup d b s;
     blk \<leftarrow> (case ce of
       None \<Rightarrow> Some (take bsize buf)
     | Some a \<Rightarrow> if wrong_block d b (ents s a) then panic else Some (take bsize (ce_data (ents s a))));
     rest \<leftarrow> overlay_read d (b + 1) bsize n (drop bsize buf) s;
     Some (blk @ rest)
   }"

text \<open>Blocks that are in the cache get the data that is written.\<close>

fun overlay_write ::
  "int \<Rightarrow> fs_off_t \<Rightarrow> nat \<Rightarrow> nat \<Rightarrow> byte list \<Rightarrow> block_cache \<Rightarrow> block_cache option" where
  "overlay_write d b bsize 0 buf s = Some s"
| "overlay_write d b bsize (Suc n) buf s = do {
     ce \<leftarrow> block_lookup d b s;
     s1 \<leftarrow> (case ce of
       None \<Rightarrow> Some s
     | Some a \<Rightarrow>
         if wrong_block d b (ents s a) then panic
         else let s1 = (if ce_clone (ents s a) \<noteq> None then snd (flush_cache_ent a s) else s)
              in Some (upd_ent a (\<lambda>ce. ce\<lparr>ce_data := take bsize buf @ drop bsize (ce_data ce)\<rparr>) s1));
     overlay_write d (b + 1) bsize n (drop bsize buf) s1
   }"

definition large_io ::
  "int \<Rightarrow> fs_off_t \<Rightarrow> bool \<Rightarrow> byte list \<Rightarrow> int \<Rightarrow> int \<Rightarrow> cache_op \<Rightarrow> block_cache \<Rightarrow>
   (errno \<times> byte list \<times> block_cache) option" where
  "large_io d b nul buf num bsize op s =
     (if nul \<or> CACHE_LOCKED op then panic
      else if CACHE_READ op
      then let (err, got) = read_phys_blocks (devs s) d b num bsize
           in if err \<noteq> 0 then Some (EINVAL, buf, s)
              else do {
                out \<leftarrow> overlay_read d b (nat bsize) (nat num) got s;
                Some (0, out, s)
              }
      else if CACHE_WRITE op
      then do {
        s1 \<leftarrow> overlay_write d b (nat bsize) (nat num) buf s;
        let (err, dv) = write_phys_blocks (devs s1) d b buf num bsize;
        if err \<noteq> 0 then Some (EINVAL, buf, s1\<lparr>devs := dv\<rparr>) else Some (0, buf, s1\<lparr>devs := dv\<rparr>)
      }
      else Some (EINVAL, buf, s))"

section \<open>A block that is in the cache\<close>

text \<open>The list an entry is taken from and put into.\<close>

definition unlist :: "nat \<Rightarrow> block_cache \<Rightarrow> block_cache" where
  "unlist a s = (if ce_lock (ents s a) \<noteq> 0 then s\<lparr>locked := remove1 a (locked s)\<rparr>
                 else s\<lparr>normal := remove1 a (normal s)\<rparr>)"

definition enlist :: "nat \<Rightarrow> block_cache \<Rightarrow> block_cache" where
  "enlist a s = (if ce_lock (ents s a) \<noteq> 0 then s\<lparr>locked := locked s @ [a]\<rparr>
                 else s\<lparr>normal := normal s @ [a]\<rparr>)"

text \<open>The new state and the bytes that the block of the buffer holds afterwards.\<close>

definition hit_data ::
  "nat \<Rightarrow> bool \<Rightarrow> byte list \<Rightarrow> int \<Rightarrow> cache_op \<Rightarrow> block_cache \<Rightarrow> (byte list \<times> block_cache) option" where
  "hit_data a nul blk bsize op s =
     (if CACHE_READ op then Some (ce_data (ents s a), s)
      else if CACHE_WRITE op
      then Some (blk, upd_ent a (\<lambda>ce. if nul then ce\<lparr>ce_dirty := True\<rparr>
                                      else ce\<lparr>ce_data := blk, ce_dirty := True\<rparr>) s)
      else if CACHE_NOOP op
      then Some (replicate (nat bsize) 0,
                 upd_ent a (\<lambda>ce. ce\<lparr>ce_data := replicate (nat bsize) 0, ce_dirty := True\<rparr>) s)
      else panic)"

definition cache_hit ::
  "nat \<Rightarrow> int \<Rightarrow> fs_off_t \<Rightarrow> bool \<Rightarrow> byte list \<Rightarrow> int \<Rightarrow> cache_op \<Rightarrow> block_cache \<Rightarrow>
   (byte list \<times> block_cache) option" where
  "cache_hit a d b nul blk bsize op s =
     (if wrong_block d b (ents s a) then panic
      else if bsize \<noteq> ce_bsize (ents s a) then panic
      else do {
        let s1 = unlist a s;
        (out, s2) \<leftarrow> hit_data a nul blk bsize op s1;
        let s3 = (if CACHE_LOCKED op then upd_ent a (\<lambda>ce. ce\<lparr>ce_lock := ce_lock ce + 1\<rparr>) s2 else s2);
        Some (out, enlist a s3)
      })"

section \<open>Blocks that are not in the cache\<close>

function count_until :: "(nat \<Rightarrow> bool) \<Rightarrow> nat \<Rightarrow> nat \<Rightarrow> nat" where
  "count_until P k n = (if k < n \<and> \<not> P k then count_until P (Suc k) n else k)"
  by pat_completeness auto
termination
  by (relation "measure (\<lambda>(P, k, n). n - k)") auto

declare count_until.simps [simp del]

definition miss_nblocks :: "int \<Rightarrow> fs_off_t \<Rightarrow> nat \<Rightarrow> block_cache \<Rightarrow> nat" where
  "miss_nblocks d b num s =
     count_until (\<lambda>j. hash_lookup (ht s) d (b + int j) \<noteq> None) 1 (min num NUM_FLUSH_BLOCKS)"

definition miss_needed :: "int \<Rightarrow> fs_off_t \<Rightarrow> nat \<Rightarrow> int \<Rightarrow> cache_op \<Rightarrow> block_cache \<Rightarrow> nat" where
  "miss_needed d b cur bsize op s =
     (if CACHE_READ op \<and> CACHE_READ_AHEAD_OK op \<and> int cur * bsize < read_ahead_size
      then count_until (\<lambda>j. b + int j \<ge> max_device_blocks s d \<or> hash_lookup (ht s) d (b + int j) \<noteq> None)
             cur (nat (read_ahead_size div bsize))
      else cur)"

text \<open>Entering the new block numbers and unlinking the entries; the count of those to write.\<close>

fun claim_ents ::
  "int \<Rightarrow> fs_off_t \<Rightarrow> nat \<Rightarrow> nat list \<Rightarrow> block_cache \<Rightarrow> (nat \<times> block_cache) option" where
  "claim_ents d b need [] s = Some (0, s)"
| "claim_ents d b need (a # as) s = do {
     let s1 = set_busy True a s;
     s2 \<leftarrow> (if need > 0
           then let (err, h) = hash_insert (mem_ok s1) (mem_ok s1) (ht s1) d b a
                in if err \<noteq> 0 then panic else Some (s1\<lparr>ht := h\<rparr>)
           else Some s1);
     if ce_dev (ents s2 a) = -1 then claim_ents d (b + 1) (need - 1) as s2
     else if ce_lock (ents s2 a) \<noteq> 0 then panic
     else do {
       (nd, s3) \<leftarrow> claim_ents d (b + 1) (need - 1) as (s2\<lparr>normal := remove1 a (normal s2)\<rparr>);
       Some ((if to_write (ents s2 a) then 1 else 0) + nd, s3)
     }
   }"

text \<open>Making the data blocks of the entries to be used the right size.\<close>

definition resize_ent :: "int \<Rightarrow> nat \<Rightarrow> block_cache \<Rightarrow> block_cache" where
  "resize_ent bsize a s =
     (if ce_bsize (ents s a) \<noteq> bsize
      then upd_ent a (\<lambda>ce. ce\<lparr>ce_data := replicate (nat bsize) 0, ce_clone := None,
                               ce_bsize := bsize\<rparr>) s
      else s)"

definition resize_ents :: "int \<Rightarrow> nat list \<Rightarrow> block_cache \<Rightarrow> errno \<times> block_cache" where
  "resize_ents bsize as s =
     (if \<not> mem_ok s \<and> (\<exists>a \<in> set as. ce_bsize (ents s a) \<noteq> bsize) then (ENOMEM, s)
      else (0, fold (resize_ent bsize) as s))"

definition drop_key :: "int \<Rightarrow> fs_off_t \<Rightarrow> nat \<Rightarrow> block_cache \<Rightarrow> block_cache option" where
  "drop_key d b a s =
     (let (res, h) = hash_delete (ht s) d b
      in if res \<noteq> Some a then panic else Some (s\<lparr>ht := h\<rparr>))"

definition put_back :: "nat \<Rightarrow> block_cache \<Rightarrow> block_cache" where
  "put_back a s = (let s1 = set_busy False a s in s1\<lparr>normal := a # normal s1\<rparr>)"

text \<open>The error exit before the transfer: both keys of each entry go, new entries have no old one.\<close>

fun back_out :: "int \<Rightarrow> fs_off_t \<Rightarrow> nat list \<Rightarrow> block_cache \<Rightarrow> block_cache option" where
  "back_out d b [] s = Some s"
| "back_out d b (a # as) s = do {
     s1 \<leftarrow> drop_key d b a s;
     s2 \<leftarrow> drop_key (ce_dev (ents s1 a)) (block_num (ents s1 a)) a s1;
     back_out d (b + 1) as (s2\<lparr>cur_blocks := cur_blocks s2 - 1\<rparr>)
   }"

text \<open>After the transfer: the old keys go, read-ahead blocks (those from \<open>cur\<close> on) become normal.\<close>

fun settle_ents ::
  "int \<Rightarrow> fs_off_t \<Rightarrow> nat \<Rightarrow> bool \<Rightarrow> nat list \<Rightarrow> block_cache \<Rightarrow> block_cache option" where
  "settle_ents d b cur ok [] s = Some s"
| "settle_ents d b cur ok (a # as) s = do {
     s1 \<leftarrow> (if ce_dev (ents s a) \<noteq> -1
           then drop_key (ce_dev (ents s a)) (block_num (ents s a)) a s else Some s);
     let s2 = (if ok \<and> cur = 0
               then (let s' = upd_ent a (\<lambda>ce. ce\<lparr>ce_dev := d, block_num := b, ce_busy := False\<rparr>) s1
                     in s'\<lparr>normal := normal s' @ [a]\<rparr>)
               else s1);
     settle_ents d (b + 1) (cur - 1) ok as s2
   }"

fun return_ents :: "nat list \<Rightarrow> block_cache \<Rightarrow> block_cache option" where
  "return_ents [] s = Some s"
| "return_ents (a # as) s =
     (if ce_lock (ents s a) \<noteq> 0 then panic else return_ents as (put_back a s))"

fun discard_ents :: "int \<Rightarrow> fs_off_t \<Rightarrow> nat list \<Rightarrow> block_cache \<Rightarrow> block_cache option" where
  "discard_ents d b [] s = Some s"
| "discard_ents d b (a # as) s = do {
     s1 \<leftarrow> drop_key d b a s;
     discard_ents d (b + 1) as (s1\<lparr>cur_blocks := cur_blocks s1 - 1\<rparr>)
   }"

text \<open>The last step on one entry of the request.\<close>

definition fresh_ent :: "int \<Rightarrow> fs_off_t \<Rightarrow> int \<Rightarrow> byte list \<Rightarrow> bool \<Rightarrow> int \<Rightarrow> cache_ent \<Rightarrow> cache_ent" where
  "fresh_ent d b bsize xs dirt lk ce =
     ce\<lparr>ce_dev := d, block_num := b, ce_bsize := bsize, ce_dirty := dirt, ce_busy := False,
        ce_lock := lk, ce_clone := None, ce_func := None, ce_arg := 0, ce_data := xs\<rparr>"

fun finish_ents ::
  "int \<Rightarrow> fs_off_t \<Rightarrow> bool \<Rightarrow> int \<Rightarrow> cache_op \<Rightarrow> nat list \<Rightarrow> byte list \<Rightarrow> block_cache \<Rightarrow>
   byte list \<times> block_cache" where
  "finish_ents d b nul bsize op [] rest s = ([], s)"
| "finish_ents d b nul bsize op (a # as) rest s =
     (let n = nat bsize; blk = take n rest;
          old = ce_data (ents s a);
          (out, xs, dirt) =
            (if CACHE_READ op then (old, old, False)
             else if CACHE_WRITE op then (blk, blk, True)
             else if CACHE_NOOP op then (replicate n 0, replicate n 0, True)
             else (blk, old, False));
          s1 = upd_ent a (fresh_ent d b bsize xs dirt (if CACHE_LOCKED op then 1 else 0)) s;
          s2 = enlist a s1;
          (outs, s3) = finish_ents d (b + 1) nul bsize op as (drop n rest) s2
      in (out @ outs, s3))"

text \<open>Getting the entries, flushing what they hold and sizing them; the entries to be used and the
  extra ones that were only flushed.\<close>

definition miss_prepare ::
  "int \<Rightarrow> fs_off_t \<Rightarrow> nat \<Rightarrow> int \<Rightarrow> block_cache \<Rightarrow>
   (errno \<times> nat list \<times> nat list \<times> block_cache) option" where
  "miss_prepare d b need bsize s = do {
     (got, s1) \<leftarrow> get_ents need NUM_FLUSH_BLOCKS s;
     let es = sort_ents (ents s1) got;
     (ndirty, s2) \<leftarrow> claim_ents d b need es s1;
     (err, s3) \<leftarrow> (if ndirty > 0 then flush_ents es s2 else Some (0, s2));
     let (err', s4) = (if err \<noteq> 0 then (err, s3) else resize_ents bsize (take need es) s3);
     Some (err', take need es, drop need es, s4)
   }"

text \<open>
  The transfer and what follows.  The result is the error, the number of blocks done, their bytes
  and the entry whose data pointer was handed out.
\<close>

definition miss_transfer ::
  "int \<Rightarrow> fs_off_t \<Rightarrow> bool \<Rightarrow> byte list \<Rightarrow> nat \<Rightarrow> int \<Rightarrow> cache_op \<Rightarrow> nat list \<Rightarrow> nat list \<Rightarrow>
   block_cache \<Rightarrow> (errno \<times> nat \<times> byte list \<times> nat option \<times> block_cache) option" where
  "miss_transfer d b nul rest cur bsize op use extra s4 = do {
     (err, s5) \<leftarrow> (if CACHE_READ op then read_into_ents d b use bsize s4 else Some (0, s4));
     s6 \<leftarrow> settle_ents d b cur (err = 0) use s5;
     s7 \<leftarrow> return_ents extra s6;
     if err \<noteq> 0
     then do { s8 \<leftarrow> discard_ents d b use s7; Some (err, 0, [], None, s8) }
     else if nul \<and> cur \<noteq> 1 then panic
     else let (out, s8) = finish_ents d b nul bsize op (take cur use) rest s7
          in Some (0, cur, out, Some (last (take cur use)), s8)
   }"

definition cache_miss ::
  "int \<Rightarrow> fs_off_t \<Rightarrow> bool \<Rightarrow> byte list \<Rightarrow> nat \<Rightarrow> int \<Rightarrow> cache_op \<Rightarrow> block_cache \<Rightarrow>
   (errno \<times> nat \<times> byte list \<times> nat option \<times> block_cache) option" where
  "cache_miss d b nul rest num bsize op s = do {
     let cur = miss_nblocks d b num s;
     (err, use, extra, s4) \<leftarrow> miss_prepare d b (miss_needed d b cur bsize op s) bsize s;
     if err \<noteq> 0
     then do { s5 \<leftarrow> back_out d b use s4; Some (ENOMEM, 0, [], None, fold put_back extra s5) }
     else miss_transfer d b nul rest cur bsize op use extra s4
   }"

section \<open>The loop over the blocks\<close>

lemma count_until_ge: "k \<le> count_until P k n"
  by (induction P k n rule: count_until.induct) (subst count_until.simps, auto)

lemma miss_nblocks_pos: "0 < miss_nblocks d b num s"
  using count_until_ge [of 1] by (simp add: miss_nblocks_def Suc_le_eq)

lemma miss_transfer_done:
  "miss_transfer d b nul rest cur bsize op use extra s = Some (0, n, out, p, s') \<Longrightarrow> n = cur"
  by (auto simp: miss_transfer_def halt_simps Let_def split: if_splits prod.splits)

lemma cache_miss_progress:
  "cache_miss d b nul rest num bsize op s = Some (0, n, out, p, s') \<Longrightarrow> 0 < n"
  using miss_nblocks_pos
  by (auto simp: cache_miss_def Let_def split: if_splits prod.splits dest!: miss_transfer_done)

function block_io_loop ::
  "int \<Rightarrow> fs_off_t \<Rightarrow> bool \<Rightarrow> byte list \<Rightarrow> byte list \<Rightarrow> nat option \<Rightarrow> nat \<Rightarrow> int \<Rightarrow> cache_op \<Rightarrow>
   block_cache \<Rightarrow> (errno \<times> byte list \<times> nat option \<times> block_cache) option" where
  "block_io_loop d b nul dn rest ptr num bsize op s =
     (if num = 0 then Some (0, dn @ rest, ptr, s)
      else case block_lookup d b s of
        None \<Rightarrow> None
      | Some (Some a) \<Rightarrow>
          (case cache_hit a d b nul (take (nat bsize) rest) bsize op s of
             None \<Rightarrow> None
           | Some (out, s1) \<Rightarrow>
               block_io_loop d (b + 1) nul (dn @ out) (drop (nat bsize) rest) (Some a) (num - 1)
                 bsize op s1)
      | Some None \<Rightarrow>
          (case cache_miss d b nul rest num bsize op s of
             None \<Rightarrow> None
           | Some (err, n, out, p, s1) \<Rightarrow>
               if err \<noteq> 0 then Some (err, dn @ rest, ptr, s1)
               else block_io_loop d (b + int n) nul (dn @ out) (drop (n * nat bsize) rest) p
                      (num - n) bsize op s1))"
  by pat_completeness auto
termination
  by (relation "measure (\<lambda>(d, b, nul, dn, rest, ptr, num, bsize, op, s). num)")
     (auto dest: cache_miss_progress)

declare block_io_loop.simps [simp del]

text \<open>
  The checks.  An access behind the end of the device crashes on purpose.  A negative number of
  blocks would make the loop count down without end.
\<close>

definition cache_block_io ::
  "int \<Rightarrow> fs_off_t \<Rightarrow> byte list option \<Rightarrow> int \<Rightarrow> int \<Rightarrow> cache_op \<Rightarrow> bool \<Rightarrow> block_cache \<Rightarrow>
   (errno \<times> byte list \<times> nat option \<times> block_cache) option" where
  "cache_block_io d b data num bsize op dataptr s =
     (let nul = (data = None); buf = (case data of None \<Rightarrow> [] | Some x \<Rightarrow> x) in
      if bsize = 0 \<or> num = 0 then panic
      else if nul \<and> \<not> dataptr then Some (ENOMEM, buf, None, s)
      else if nul \<and> (num \<noteq> 1 \<or> CACHE_WRITE op) then panic
      else if d < 0 \<or> d \<ge> MAX_DEVICES then None
      else if b + num > max_device_blocks s d then None
      else if num * bsize \<ge> 64 * 1024
      then do { (err, out, s1) \<leftarrow> large_io d b nul buf num bsize op s; Some (err, out, None, s1) }
      else if num < 0 then None
      else block_io_loop d b nul [] buf None (nat num) bsize op s)"

section \<open>The callers\<close>

definition op_none :: cache_op where
  "op_none = \<lparr>CACHE_READ = False, CACHE_WRITE = False, CACHE_NOOP = False, CACHE_LOCKED = False,
     CACHE_READ_AHEAD_OK = False\<rparr>"

text \<open>NULL or the entry whose data the returned pointer points to.\<close>

definition get_block :: "int \<Rightarrow> fs_off_t \<Rightarrow> int \<Rightarrow> block_cache \<Rightarrow> (nat option \<times> block_cache) option" where
  "get_block d b bsize s = do {
     (err, _, p, s1) \<leftarrow> cache_block_io d b None 1 bsize
        (op_none\<lparr>CACHE_READ := True, CACHE_LOCKED := True, CACHE_READ_AHEAD_OK := True\<rparr>) True s;
     Some (if err \<noteq> 0 then None else p, s1)
   }"

definition get_empty_block ::
  "int \<Rightarrow> fs_off_t \<Rightarrow> int \<Rightarrow> block_cache \<Rightarrow> (nat option \<times> block_cache) option" where
  "get_empty_block d b bsize s = do {
     (err, _, p, s1) \<leftarrow> cache_block_io d b None 1 bsize
        (op_none\<lparr>CACHE_NOOP := True, CACHE_LOCKED := True\<rparr>) True s;
     Some (if err \<noteq> 0 then None else p, s1)
   }"

definition cached_read ::
  "int \<Rightarrow> fs_off_t \<Rightarrow> byte list \<Rightarrow> int \<Rightarrow> int \<Rightarrow> block_cache \<Rightarrow> (errno \<times> byte list \<times> block_cache) option" where
  "cached_read d b buf num bsize s = do {
     (err, out, _, s1) \<leftarrow> cache_block_io d b (Some buf) num bsize
        (op_none\<lparr>CACHE_READ := True, CACHE_READ_AHEAD_OK := True\<rparr>) False s;
     Some (err, out, s1)
   }"

definition cached_write ::
  "int \<Rightarrow> fs_off_t \<Rightarrow> byte list \<Rightarrow> int \<Rightarrow> int \<Rightarrow> block_cache \<Rightarrow> (errno \<times> block_cache) option" where
  "cached_write d b buf num bsize s = do {
     (err, _, _, s1) \<leftarrow> cache_block_io d b (Some buf) num bsize (op_none\<lparr>CACHE_WRITE := True\<rparr>) False s;
     Some (err, s1)
   }"

definition cached_write_locked ::
  "int \<Rightarrow> fs_off_t \<Rightarrow> byte list \<Rightarrow> int \<Rightarrow> int \<Rightarrow> block_cache \<Rightarrow> (errno \<times> block_cache) option" where
  "cached_write_locked d b buf num bsize s = do {
     (err, _, _, s1) \<leftarrow> cache_block_io d b (Some buf) num bsize
        (op_none\<lparr>CACHE_WRITE := True, CACHE_LOCKED := True\<rparr>) False s;
     Some (err, s1)
   }"

text \<open>What the holder of a pointer to a block's data reads, and writes, through it.\<close>

definition peek :: "nat \<Rightarrow> block_cache \<Rightarrow> byte list" where
  "peek a s = ce_data (ents s a)"

definition poke :: "nat \<Rightarrow> byte list \<Rightarrow> block_cache \<Rightarrow> block_cache" where
  "poke a xs s = upd_ent a (\<lambda>ce. ce\<lparr>ce_data := xs\<rparr>) s"

end
