(* ===== verification/Cache_Flush.thy ===== *)
theory Cache_Flush
  imports Cache_IO
begin

text \<open>
  What flushing does.  Each entry of the array goes through at most one of three steps, all of
  which keep it \<^emph>\<open>settled\<close> (an entry that is not dirty has the bytes of the disk, or a clone with
  those bytes); after the second pass of \<open>flush_ents\<close> every unlocked entry is clean.  Flushing
  never changes the data of an entry, so it never changes what a reader sees.
\<close>

section \<open>Blocks of a device\<close>

text \<open>\<open>bs\<close> gives the block size each device is used with.\<close>

definition blk_of :: "(int \<Rightarrow> int) \<Rightarrow> devices \<Rightarrow> int \<Rightarrow> fs_off_t \<Rightarrow> byte list" where
  "blk_of bs dv d b = get_bytes dv d (nat b * nat (bs d)) (nat (bs d))"

text \<open>A device that works, with \<open>m\<close> blocks.\<close>

definition dev_ok :: "(int \<Rightarrow> int) \<Rightarrow> devices \<Rightarrow> int \<Rightarrow> int \<Rightarrow> bool" where
  "dev_ok bs dv d m \<longleftrightarrow> good_dev dv d \<and> 0 < bs d \<and> bs d < 2 ^ 31 \<and>
     nat m * nat (bs d) \<le> length (file_of dv d)"

lemma length_concat_const: "\<forall>x \<in> set xs. length x = n \<Longrightarrow> length (concat xs) = length xs * n"
  by (induction xs) auto

lemma put_run_other_dev:
  "fd' \<noteq> fd \<Longrightarrow> get_bytes (put_bytes dv fd p xs) fd' q n = get_bytes dv fd' q n"
  by (simp add: get_bytes_def)

lemma put_run:
  assumes "\<forall>x \<in> set xs. length x = n" "(m + length xs) * n \<le> length (file_of dv fd)"
    "(c + 1) * n \<le> length (file_of dv fd)"
  shows "get_bytes (put_bytes dv fd (m * n) (concat xs)) fd (c * n) n =
    (if m \<le> c \<and> c < m + length xs then xs ! (c - m) else get_bytes dv fd (c * n) n)"
  using assms
proof (induction xs arbitrary: dv m)
  case Nil
  then have "put_bytes dv fd (m * n) (concat []) = dv" by (simp add: put_bytes_def)
  then show ?case by auto
next
  case (Cons x xs)
  let ?dv = "put_bytes dv fd (m * n) x"
  have x: "length x = n" using Cons.prems(1) by simp
  have len: "length (concat xs) = length xs * n"
    using Cons.prems(1) by (intro length_concat_const) simp
  have fit: "m * n + n \<le> length (file_of dv fd)"
    using Cons.prems(2) by (simp add: algebra_simps)
  have keep: "length (file_of ?dv fd) = length (file_of dv fd)"
    using fit x by (simp add: overwrite_length)
  have "put_bytes dv fd (m * n) (concat (x # xs)) = put_bytes ?dv fd (Suc m * n) (concat xs)"
    using put_put_append [of "m * n" x "concat xs" dv fd] Cons.prems(2) x len
    by (simp add: algebra_simps)
  moreover have "get_bytes (put_bytes ?dv fd (Suc m * n) (concat xs)) fd (c * n) n =
      (if Suc m \<le> c \<and> c < Suc m + length xs then xs ! (c - Suc m) else get_bytes ?dv fd (c * n) n)"
    by (rule Cons.IH) (use Cons.prems keep in \<open>auto simp: algebra_simps\<close>)
  moreover have "get_bytes ?dv fd (c * n) n = (if c = m then x else get_bytes dv fd (c * n) n)"
  proof (cases "c = m")
    case True
    with fit x show ?thesis by (simp add: get_put_same)
  next
    case False
    then have "c * n + n \<le> m * n \<or> m * n + n \<le> c * n"
      by (metis Suc_leI add.commute mult_Suc mult_le_mono1 nat_neq_iff)
    with False fit x show ?thesis by (auto intro!: get_put_other)
  qed
  ultimately show ?case by (auto simp: nth_Cons')
qed

section \<open>Sound and settled entries\<close>

definition sound_ent :: "(int \<Rightarrow> int) \<Rightarrow> block_cache \<Rightarrow> cache_ent \<Rightarrow> bool" where
  "sound_ent bs s ce \<longleftrightarrow> 0 \<le> ce_dev ce \<and> ce_dev ce < MAX_DEVICES \<and>
     dev_ok bs (devs s) (ce_dev ce) (max_device_blocks s (ce_dev ce)) \<and>
     ce_bsize ce = bs (ce_dev ce) \<and> 0 \<le> block_num ce \<and>
     block_num ce < max_device_blocks s (ce_dev ce) \<and> length (ce_data ce) = nat (ce_bsize ce) \<and>
     (\<forall>c. ce_clone ce = Some c \<longrightarrow> length c = nat (ce_bsize ce))"

definition settled :: "cache_ent \<Rightarrow> byte list \<Rightarrow> bool" where
  "settled ce blk \<longleftrightarrow> (\<not> ce_dirty ce \<longrightarrow>
     (case ce_clone ce of None \<Rightarrow> blk = ce_data ce | Some c \<Rightarrow> c = ce_data ce))"

definition ce_key :: "cache_ent \<Rightarrow> int \<times> fs_off_t" where
  "ce_key ce = (ce_dev ce, block_num ce)"

text \<open>Entries that agree in everything that flushing leaves alone.\<close>

definition same_core :: "cache_ent \<Rightarrow> cache_ent \<Rightarrow> bool" where
  "same_core ce ce' \<longleftrightarrow> (\<exists>di cl fu. ce' = ce\<lparr>ce_dirty := di, ce_clone := cl, ce_func := fu\<rparr>)"

text \<open>The three things that can happen to an entry and its block on the disk.\<close>

inductive fl_step :: "cache_ent \<Rightarrow> byte list \<Rightarrow> cache_ent \<Rightarrow> byte list \<Rightarrow> bool" where
  skip: "\<not> to_write ce \<or> ce_clone ce = None \<and> ce_lock ce \<noteq> 0 \<Longrightarrow> fl_step ce x ce x"
| data: "ce_clone ce = None \<Longrightarrow> ce_lock ce = 0 \<Longrightarrow>
    fl_step ce x (ce\<lparr>ce_dirty := False, ce_func := None\<rparr>) (ce_data ce)"
| clone: "ce_clone ce = Some c \<Longrightarrow> fl_step ce x (ce\<lparr>ce_clone := None, ce_func := None\<rparr>) c"
| both: "ce_clone ce = Some c \<Longrightarrow> ce_lock ce = 0 \<Longrightarrow>
    fl_step ce x (ce\<lparr>ce_dirty := False, ce_clone := None, ce_func := None\<rparr>) (ce_data ce)"

inductive_cases fl_stepE: "fl_step ce x ce' x'"

lemma func_last:
  "ce\<lparr>ce_func := f, ce_dirty := x\<rparr> = ce\<lparr>ce_dirty := x, ce_func := f\<rparr>"
  "ce\<lparr>ce_func := f, ce_clone := y\<rparr> = ce\<lparr>ce_clone := y, ce_func := f\<rparr>"
  by (cases ce; simp)+

lemma fl_step_core: "fl_step ce x ce' x' \<Longrightarrow> same_core ce ce'"
  by (erule fl_stepE; unfold same_core_def; hypsubst)
     (rule exI [of _ "ce_dirty ce"] exI [of _ False], rule exI [of _ "ce_clone ce"] exI [of _ None],
      rule exI [of _ "ce_func ce"] exI [of _ None], simp; fail)+

lemma fl_step_settled: "fl_step ce x ce' x' \<Longrightarrow> settled ce x \<Longrightarrow> settled ce' x'"
  by (erule fl_stepE) (auto simp: settled_def)

lemma fl_step_progress:
  "fl_step ce x ce' x' \<Longrightarrow> ce_lock ce = 0 \<Longrightarrow> to_write ce' \<Longrightarrow>
     ce_clone ce \<noteq> None \<and> ce_clone ce' = None \<and> ce_dirty ce'"
  by (erule fl_stepE) (auto simp: to_write_def)

lemma fl_step_clone: "fl_step ce x ce' x' \<Longrightarrow> ce_clone ce' = None"
  by (erule fl_stepE) (auto simp: to_write_def)

lemma fl_step_wrote:
  "fl_step ce x ce' x' \<Longrightarrow> ce_dirty ce \<Longrightarrow> \<not> ce_dirty ce' \<Longrightarrow> x' = ce_data ce"
  by (erule fl_stepE) auto

lemma fl_step_locked:
  "fl_step ce x ce' x' \<Longrightarrow> ce_lock ce \<noteq> 0 \<Longrightarrow> ce_dirty ce' = ce_dirty ce"
  by (erule fl_stepE) auto

section \<open>The relation between the states before and after\<close>

definition devs_shape :: "devices \<Rightarrow> devices \<Rightarrow> bool" where
  "devs_shape dv dv' \<longleftrightarrow> io_fault dv' = io_fault dv \<and>
     (\<forall>d. length (file_of dv' d) = length (file_of dv d))"

definition flush_rel :: "(int \<Rightarrow> int) \<Rightarrow> nat set \<Rightarrow> block_cache \<Rightarrow> block_cache \<Rightarrow> bool" where
  "flush_rel bs A s s' \<longleftrightarrow>
     s' = s\<lparr>ents := ents s', devs := devs s', calls := calls s'\<rparr> \<and>
     (\<forall>a. a \<notin> A \<longrightarrow> ents s' a = ents s a) \<and>
     (\<forall>a \<in> A. fl_step (ents s a) (blk_of bs (devs s) (ce_dev (ents s a)) (block_num (ents s a)))
        (ents s' a) (blk_of bs (devs s') (ce_dev (ents s a)) (block_num (ents s a)))) \<and>
     (\<forall>d b. (d, b) \<notin> ce_key ` ents s ` A \<longrightarrow> 0 \<le> b \<longrightarrow> b < max_device_blocks s d \<longrightarrow>
        dev_ok bs (devs s) d (max_device_blocks s d) \<longrightarrow>
        blk_of bs (devs s') d b = blk_of bs (devs s) d b) \<and>
     devs_shape (devs s) (devs s')"

lemma devs_shape_refl [simp]: "devs_shape dv dv"
  by (simp add: devs_shape_def)

lemma devs_shape_trans: "devs_shape a b \<Longrightarrow> devs_shape b c \<Longrightarrow> devs_shape a c"
  by (simp add: devs_shape_def)

lemma dev_ok_shape: "devs_shape dv dv' \<Longrightarrow> dev_ok bs dv' d m = dev_ok bs dv d m"
  by (simp add: devs_shape_def dev_ok_def good_dev_def)

lemma same_core_simps:
  assumes "same_core ce ce'"
  shows "ce_dev ce' = ce_dev ce" "block_num ce' = block_num ce" "ce_bsize ce' = ce_bsize ce"
    "ce_data ce' = ce_data ce" "ce_lock ce' = ce_lock ce" "ce_busy ce' = ce_busy ce" "ce_key ce' = ce_key ce"
  using assms by (auto simp: same_core_def ce_key_def)

lemma same_core_refl [simp]: "same_core ce ce"
  unfolding same_core_def
  by (intro exI [of _ "ce_dirty ce"] exI [of _ "ce_clone ce"] exI [of _ "ce_func ce"]) simp

lemma flush_rel_core:
  assumes "flush_rel bs A s s'"
  shows "same_core (ents s a) (ents s' a)"
  using assms fl_step_core by (cases "a \<in> A") (auto simp: flush_rel_def)

lemma flush_rel_fields:
  assumes "flush_rel bs A s s'"
  shows "cur_blocks s' = cur_blocks s" "max_blocks s' = max_blocks s" "ht s' = ht s"
    "next_addr s' = next_addr s" "normal s' = normal s" "locked s' = locked s"
    "max_device_blocks s' = max_device_blocks s" "iovec_pool s' = iovec_pool s"
    "iovec_used s' = iovec_used s" "mem_ok s' = mem_ok s"
proof -
  have "s' = s\<lparr>ents := ents s', devs := devs s', calls := calls s'\<rparr>"
    using assms by (simp add: flush_rel_def)
  from arg_cong [OF this, of cur_blocks] arg_cong [OF this, of max_blocks] arg_cong [OF this, of ht]
    arg_cong [OF this, of next_addr] arg_cong [OF this, of normal] arg_cong [OF this, of locked]
    arg_cong [OF this, of max_device_blocks] arg_cong [OF this, of iovec_pool]
    arg_cong [OF this, of iovec_used] arg_cong [OF this, of mem_ok]
  show "cur_blocks s' = cur_blocks s" "max_blocks s' = max_blocks s" "ht s' = ht s"
    "next_addr s' = next_addr s" "normal s' = normal s" "locked s' = locked s"
    "max_device_blocks s' = max_device_blocks s" "iovec_pool s' = iovec_pool s"
    "iovec_used s' = iovec_used s" "mem_ok s' = mem_ok s" by simp_all
qed

lemma flush_rel_sound:
  assumes r: "flush_rel bs A s s'" and a: "sound_ent bs s (ents s a)"
  shows "sound_ent bs s' (ents s' a)"
proof -
  have "\<forall>c. ce_clone (ents s' a) = Some c \<longrightarrow> length c = nat (ce_bsize (ents s a))"
  proof (cases "a \<in> A")
    case True
    with r fl_step_clone show ?thesis by (fastforce simp: flush_rel_def)
  next
    case False
    with r a show ?thesis by (simp add: flush_rel_def sound_ent_def)
  qed
  moreover have "devs_shape (devs s) (devs s')" using r by (simp add: flush_rel_def)
  ultimately show ?thesis using a
    by (simp add: sound_ent_def same_core_simps [OF flush_rel_core [OF r]]
        flush_rel_fields [OF r] dev_ok_shape)
qed

lemma flush_rel_empty: "flush_rel bs {} s s"
  by (simp add: flush_rel_def)

lemma flush_rel_skip:
  "\<not> to_write (ents s a) \<or> ce_clone (ents s a) = None \<and> ce_lock (ents s a) \<noteq> 0 \<Longrightarrow>
     flush_rel bs {a} s s"
  by (simp add: flush_rel_def fl_step.skip)

text \<open>Flushing one set of entries and then another one with other keys.\<close>

lemma flush_rel_trans:
  assumes r1: "flush_rel bs A s s1" and r2: "flush_rel bs B s1 s2"
    and disj: "ce_key ` ents s ` A \<inter> ce_key ` ents s ` B = {}"
    and sound: "\<forall>a \<in> A \<union> B. sound_ent bs s (ents s a)"
  shows "flush_rel bs (A \<union> B) s s2"
proof -
  have ab: "A \<inter> B = {}" using disj by blast
  have k1: "ce_key ` ents s1 ` B = ce_key ` ents s ` B"
    using same_core_simps(7) [OF flush_rel_core [OF r1]] by (force simp: image_image)
  have sh1: "devs_shape (devs s) (devs s1)" and sh2: "devs_shape (devs s1) (devs s2)"
    using r1 r2 by (auto simp: flush_rel_def)
  have eqB: "ents s1 b = ents s b" if "b \<in> B" for b
    using r1 ab that by (auto simp: flush_rel_def)
  have d1: "blk_of bs (devs s1) d b = blk_of bs (devs s) d b"
    if "(d, b) \<notin> ce_key ` ents s ` A" "0 \<le> b" "b < max_device_blocks s d"
      "dev_ok bs (devs s) d (max_device_blocks s d)" for d b
    using r1 that by (simp add: flush_rel_def)
  have d2: "blk_of bs (devs s2) d b = blk_of bs (devs s1) d b"
    if "(d, b) \<notin> ce_key ` ents s ` B" "0 \<le> b" "b < max_device_blocks s d"
      "dev_ok bs (devs s) d (max_device_blocks s d)" for d b
    using r2 that dev_ok_shape [OF sh1] flush_rel_fields(7) [OF r1] unfolding flush_rel_def k1 by simp
  have so: "0 \<le> block_num (ents s a)" "block_num (ents s a) < max_device_blocks s (ce_dev (ents s a))"
    "dev_ok bs (devs s) (ce_dev (ents s a)) (max_device_blocks s (ce_dev (ents s a)))"
    if "a \<in> A \<union> B" for a using sound that by (auto simp: sound_ent_def)
  have key: "(ce_dev (ents s a), block_num (ents s a)) = ce_key (ents s a)" for a
    by (simp add: ce_key_def)
  have stepA: "fl_step (ents s a) (blk_of bs (devs s) (ce_dev (ents s a)) (block_num (ents s a)))
      (ents s2 a) (blk_of bs (devs s2) (ce_dev (ents s a)) (block_num (ents s a)))" if "a \<in> A" for a
  proof -
    have "blk_of bs (devs s2) (ce_dev (ents s a)) (block_num (ents s a)) =
        blk_of bs (devs s1) (ce_dev (ents s a)) (block_num (ents s a))"
      by (rule d2) (use that disj so in \<open>auto simp: key\<close>)
    moreover have "ents s2 a = ents s1 a" using r2 ab that by (auto simp: flush_rel_def)
    ultimately show ?thesis using r1 that by (simp add: flush_rel_def)
  qed
  have stepB: "fl_step (ents s a) (blk_of bs (devs s) (ce_dev (ents s a)) (block_num (ents s a)))
      (ents s2 a) (blk_of bs (devs s2) (ce_dev (ents s a)) (block_num (ents s a)))" if "a \<in> B" for a
  proof -
    have "blk_of bs (devs s1) (ce_dev (ents s a)) (block_num (ents s a)) =
        blk_of bs (devs s) (ce_dev (ents s a)) (block_num (ents s a))"
      by (rule d1) (use that disj so in \<open>auto simp: key\<close>)
    moreover have "fl_step (ents s1 a) (blk_of bs (devs s1) (ce_dev (ents s1 a)) (block_num (ents s1 a)))
      (ents s2 a) (blk_of bs (devs s2) (ce_dev (ents s1 a)) (block_num (ents s1 a)))"
      using r2 that by (simp add: flush_rel_def)
    ultimately show ?thesis using eqB [OF that] by simp
  qed
  have "s2 = s\<lparr>ents := ents s2, devs := devs s2, calls := calls s2\<rparr>"
  proof -
    obtain e1 v1 c1 where "s1 = s\<lparr>ents := e1, devs := v1, calls := c1\<rparr>"
      using r1 unfolding flush_rel_def by blast
    moreover obtain e2 v2 c2 where "s2 = s1\<lparr>ents := e2, devs := v2, calls := c2\<rparr>"
      using r2 unfolding flush_rel_def by blast
    ultimately show ?thesis by simp
  qed
  moreover have "ents s2 a = ents s a" if "a \<notin> A \<union> B" for a
    using r1 r2 that by (simp add: flush_rel_def)
  moreover have "blk_of bs (devs s2) d b = blk_of bs (devs s) d b"
    if "(d, b) \<notin> ce_key ` ents s ` (A \<union> B)" "0 \<le> b" "b < max_device_blocks s d"
      "dev_ok bs (devs s) d (max_device_blocks s d)" for d b
    using that d1 d2 by (simp add: image_Un)
  ultimately show ?thesis
    unfolding flush_rel_def using stepA stepB devs_shape_trans [OF sh1 sh2] by blast
qed

section \<open>The functions that flush\<close>

lemma write_block_good:
  assumes "dev_ok bs dv d m" "0 \<le> b" "b < m" "length xs = nat (bs d)"
  shows "write_phys_blocks dv d b xs 1 (bs d) = (0, put_bytes dv d (nat b * nat (bs d)) xs)"
    "nat b * nat (bs d) + nat (bs d) \<le> length (file_of dv d)"
proof -
  have "(nat b + 1) * nat (bs d) \<le> nat m * nat (bs d)"
    using assms(2,3) by (intro mult_le_mono1) simp
  then show fit: "nat b * nat (bs d) + nat (bs d) \<le> length (file_of dv d)"
    using assms(1) by (simp add: dev_ok_def)
  have "fits32 1 (bs d)" using assms(1) by (simp add: fits32_def dev_ok_def)
  from write_phys_blocks_good [OF _ assms(2) this, of dv d xs] assms fit
  show "write_phys_blocks dv d b xs 1 (bs d) = (0, put_bytes dv d (nat b * nat (bs d)) xs)"
    by (simp add: dev_ok_def)
qed

lemma devs_shape_put:
  "p + length xs \<le> length (file_of dv d) \<Longrightarrow> devs_shape dv (put_bytes dv d p xs)"
  by (simp add: devs_shape_def overwrite_length)

text \<open>The blocks of a device after a run of blocks was written.\<close>

lemma blk_of_run:
  assumes "dev_ok bs dv d m" "0 \<le> b" "b + int (length xs) \<le> m" "\<forall>x \<in> set xs. length x = nat (bs d)"
  defines "dv' \<equiv> put_bytes dv d (nat b * nat (bs d)) (concat xs)"
  shows "devs_shape dv dv'"
    and "\<And>i. i < length xs \<Longrightarrow> blk_of bs dv' d (b + int i) = xs ! i"
    and "\<And>d' c. d' \<noteq> d \<or> 0 \<le> c \<and> c < m \<and> (\<forall>i < length xs. c \<noteq> b + int i) \<Longrightarrow>
           blk_of bs dv' d' c = blk_of bs dv d' c"
proof -
  let ?n = "nat (bs d)"
  have len_m: "nat m * ?n \<le> length (file_of dv d)" using assms(1) by (simp add: dev_ok_def)
  have "nat b + length xs \<le> nat m" using assms(2,3) by linarith
  then have fit: "(nat b + length xs) * ?n \<le> length (file_of dv d)"
    using len_m by (meson le_trans mult_le_mono1)
  have "length (concat xs) = length xs * ?n" using assms(4) by (rule length_concat_const)
  then show "devs_shape dv dv'"
    unfolding dv'_def using fit by (intro devs_shape_put) (simp add: algebra_simps)
  have blk: "blk_of bs dv' d c = (if nat b \<le> nat c \<and> nat c < nat b + length xs
      then xs ! (nat c - nat b) else blk_of bs dv d c)" if "nat c < nat m" for c
  proof -
    have "(nat c + 1) * ?n \<le> nat m * ?n"
      by (intro mult_le_mono1) (simp only: Suc_eq_plus1 [symmetric] Suc_le_eq that)
    then show ?thesis unfolding blk_of_def dv'_def
      using put_run [OF assms(4) fit, of "nat c"] len_m by simp
  qed
  show "blk_of bs dv' d (b + int i) = xs ! i" if "i < length xs" for i
    using blk [of "b + int i"] that assms(2,3) by (simp add: nat_add_distrib)
  show "blk_of bs dv' d' c = blk_of bs dv d' c"
    if c: "d' \<noteq> d \<or> 0 \<le> c \<and> c < m \<and> (\<forall>i < length xs. c \<noteq> b + int i)" for d' c
  proof (cases "d' = d")
    case False
    then show ?thesis by (simp add: blk_of_def dv'_def put_run_other_dev)
  next
    case True
    with c have c: "0 \<le> c" "c < m" "\<forall>i < length xs. c \<noteq> b + int i" by auto
    have "\<not> (nat b \<le> nat c \<and> nat c < nat b + length xs)"
    proof
      assume h: "nat b \<le> nat c \<and> nat c < nat b + length xs"
      then have "nat c - nat b < length xs" "c = b + int (nat c - nat b)" using c(1) assms(2) by auto
      with c(3) show False by blast
    qed
    with blk [of c] c True show ?thesis by auto
  qed
qed

lemma run_func_simps [simp]:
  "devs (run_func a s) = devs s" "max_device_blocks (run_func a s) = max_device_blocks s"
  "ents (run_func a s) = (ents s)(a := (ents s a)\<lparr>ce_func := None\<rparr>)"
  by (auto simp: run_func_def upd_ent_def split: option.split)

lemma run_func_shape: "run_func a s = s\<lparr>ents := ents (run_func a s), calls := calls (run_func a s)\<rparr>"
  by (auto simp: run_func_def upd_ent_def split: option.split)

lemma upd_ent_simps [simp]:
  "ents (upd_ent a f s) = (ents s)(a := f (ents s a))" "devs (upd_ent a f s) = devs s"
  "calls (upd_ent a f s) = calls s" "max_device_blocks (upd_ent a f s) = max_device_blocks s"
  by (simp_all add: upd_ent_def)


text \<open>One entry.\<close>

lemma write_ent_good:
  assumes "sound_ent bs s (ents s a)"
  obtains s' where "write_ent a s = (0, s')"
    "s' = s\<lparr>ents := ents s', devs := devs s', calls := calls s'\<rparr>"
    "ents s' = (ents s)(a := (ents s a)\<lparr>ce_func := None\<rparr>)"
    "devs s' = put_bytes (devs s) (ce_dev (ents s a)) (nat (block_num (ents s a)) * nat (bs (ce_dev (ents s a))))
       (concat [out_data (ents s a)])"
proof -
  let ?ce = "ents s a"
  have len: "length (out_data ?ce) = nat (bs (ce_dev ?ce))"
    using assms by (auto simp: sound_ent_def out_data_def split: option.split)
  let ?dv = "put_bytes (devs s) (ce_dev ?ce) (nat (block_num ?ce) * nat (bs (ce_dev ?ce))) (out_data ?ce)"
  let ?s = "run_func a (s\<lparr>devs := ?dv\<rparr>)"
  have w: "write_ent a s = (0, ?s)"
    using assms len write_block_good(1) [of bs "devs s" "ce_dev ?ce"
        "max_device_blocks s (ce_dev ?ce)" "block_num ?ce" "out_data ?ce"]
    by (simp add: write_ent_def sound_ent_def Let_def)
  have sh: "?s = s\<lparr>ents := ents ?s, devs := devs ?s, calls := calls ?s\<rparr>"
    by (subst run_func_shape) simp
  show thesis by (rule that [OF w sh]) simp_all
qed

text \<open>A relation that holds once a run of entries was written and each of them updated.\<close>

lemma flush_rel_run:
  assumes sound: "\<forall>a \<in> set as. sound_ent bs s (ents s a)" and ne: "as \<noteq> []"
    and run: "\<forall>i < length as. ce_dev (ents s (as ! i)) = d \<and> block_num (ents s (as ! i)) = b + int i"
    and len: "length xs = length as" "\<forall>x \<in> set xs. length x = nat (bs d)"
    and s': "s' = s\<lparr>ents := ents s', devs := devs s', calls := calls s'\<rparr>"
      "devs s' = put_bytes (devs s) d (nat b * nat (bs d)) (concat xs)"
    and out: "\<And>a. a \<notin> set as \<Longrightarrow> ents s' a = ents s a"
    and step: "\<And>i x. i < length as \<Longrightarrow> fl_step (ents s (as ! i)) x (ents s' (as ! i)) (xs ! i)"
  shows "flush_rel bs (set as) s s'"
proof -
  let ?m = "max_device_blocks s d"
  have so: "sound_ent bs s (ents s (as ! i))" if "i < length as" for i using sound that by simp
  have l: "length as - 1 < length as" using ne by simp
  have dok: "dev_ok bs (devs s) d ?m" "0 \<le> b"
    using so [of 0] run ne by (auto simp: sound_ent_def)
  have "b + int (length as - 1) < ?m"
    using so [OF l] run l by (auto simp: sound_ent_def)
  then have bm: "b + int (length xs) \<le> ?m" using len(1) ne by (cases as) auto
  note wr = blk_of_run [OF dok bm len(2), folded s'(2)]
  have key: "ce_key (ents s (as ! i)) = (d, b + int i)" if "i < length as" for i
    using run that by (simp add: ce_key_def)
  have "fl_step (ents s a) (blk_of bs (devs s) (ce_dev (ents s a)) (block_num (ents s a)))
      (ents s' a) (blk_of bs (devs s') (ce_dev (ents s a)) (block_num (ents s a)))" if "a \<in> set as" for a
  proof -
    from that obtain i where i: "i < length as" "a = as ! i" by (auto simp: in_set_conv_nth)
    with run step [OF i(1)] wr(2) [of i] len(1) show ?thesis by simp
  qed
  moreover have "blk_of bs (devs s') d' c = blk_of bs (devs s) d' c"
    if "(d', c) \<notin> ce_key ` ents s ` set as" "0 \<le> c" "c < max_device_blocks s d'" for d' c
  proof (rule wr(3))
    have "(d', c) \<noteq> (d, b + int i)" if "i < length xs" for i
      using \<open>(d', c) \<notin> _\<close> key [of i] that len(1) by (metis image_eqI nth_mem)
    then show "d' \<noteq> d \<or> 0 \<le> c \<and> c < ?m \<and> (\<forall>i < length xs. c \<noteq> b + int i)" using that by auto
  qed
  ultimately show ?thesis unfolding flush_rel_def using s'(1) out wr(1) by blast
qed

lemma flush_rel_twice:
  assumes r1: "flush_rel bs {a} s s1" and r2: "flush_rel bs {a} s1 s2"
    and c: "ce_clone (ents s a) = Some c" "ce_lock (ents s a) = 0"
    and e1: "ce_clone (ents s1 a) = None" "ce_dirty (ents s1 a)"
    and e2: "ents s2 a = (ents s a)\<lparr>ce_dirty := False, ce_clone := None, ce_func := None\<rparr>"
  shows "flush_rel bs {a} s s2"
proof -
  note core = same_core_simps [OF flush_rel_core [OF r1, of a]]
  have sh: "devs_shape (devs s) (devs s1)" "devs_shape (devs s1) (devs s2)"
    using r1 r2 by (auto simp: flush_rel_def)
  have "fl_step (ents s1 a) (blk_of bs (devs s1) (ce_dev (ents s a)) (block_num (ents s a)))
      (ents s2 a) (blk_of bs (devs s2) (ce_dev (ents s a)) (block_num (ents s a)))"
    using r2 core by (simp add: flush_rel_def)
  from fl_step_wrote [OF this e1(2)] e2
  have "blk_of bs (devs s2) (ce_dev (ents s a)) (block_num (ents s a)) = ce_data (ents s a)"
    using core(4) by simp
  then have st: "fl_step (ents s a) x (ents s2 a)
      (blk_of bs (devs s2) (ce_dev (ents s a)) (block_num (ents s a)))" for x
    using fl_step.both [OF c] e2 by simp
  have "s2 = s\<lparr>ents := ents s2, devs := devs s2, calls := calls s2\<rparr>"
  proof -
    obtain f1 v1 c1 where "s1 = s\<lparr>ents := f1, devs := v1, calls := c1\<rparr>"
      using r1 unfolding flush_rel_def by blast
    moreover obtain f2 v2 c2 where "s2 = s1\<lparr>ents := f2, devs := v2, calls := c2\<rparr>"
      using r2 unfolding flush_rel_def by blast
    ultimately show ?thesis by simp
  qed
  moreover have "blk_of bs (devs s2) d b = blk_of bs (devs s) d b"
    if "(d, b) \<notin> ce_key ` ents s ` {a}" "0 \<le> b" "b < max_device_blocks s d"
      "dev_ok bs (devs s) d (max_device_blocks s d)" for d b
    using that r1 r2 core(7) dev_ok_shape [OF sh(1)] flush_rel_fields(7) [OF r1]
    by (simp add: flush_rel_def)
  moreover have "ents s2 x = ents s x" if "x \<notin> {a}" for x
    using that r1 r2 by (simp add: flush_rel_def)
  ultimately show ?thesis unfolding flush_rel_def using st devs_shape_trans [OF sh] by blast
qed

lemma flush_cache_ent_good:
  assumes so: "sound_ent bs s (ents s a)"
  obtains s' where "flush_cache_ent a s = (0, s')" "flush_rel bs {a} s s'"
proof -
  let ?ce = "ents s a"
  show thesis
  proof (cases "\<not> to_write ?ce \<or> ce_clone ?ce = None \<and> ce_lock ?ce \<noteq> 0")
    case True
    then have "flush_cache_ent a s = (0, s)" by (auto simp: flush_cache_ent_def to_write_def Let_def)
    then show thesis by (rule that [OF _ flush_rel_skip [OF True]])
  next
    case False
    let ?b = "block_num ?ce" and ?d = "ce_dev ?ce"
    obtain s1 where w: "write_ent a s = (0, s1)"
      and s1: "s1 = s\<lparr>ents := ents s1, devs := devs s1, calls := calls s1\<rparr>"
        "ents s1 = (ents s)(a := ?ce\<lparr>ce_func := None\<rparr>)"
        "devs s1 = put_bytes (devs s) ?d (nat ?b * nat (bs ?d)) (concat [out_data ?ce])"
      using write_ent_good [OF so] by blast
    have len: "length (out_data ?ce) = nat (bs ?d)" "length (ce_data ?ce) = nat (bs ?d)"
      using so by (auto simp: sound_ent_def out_data_def split: option.split)
    have once: "flush_rel bs {a} s (upd_ent a f s1)"
      if f: "\<And>x. fl_step ?ce x (f (?ce\<lparr>ce_func := None\<rparr>)) (out_data ?ce)" for f
    proof -
      have "flush_rel bs (set [a]) s (upd_ent a f s1)"
      proof (rule flush_rel_run [of "[a]" bs s ?d ?b "[out_data ?ce]"])
        show "upd_ent a f s1 = s\<lparr>ents := ents (upd_ent a f s1), devs := devs (upd_ent a f s1),
            calls := calls (upd_ent a f s1)\<rparr>"
          by (subst s1(1)) (simp add: upd_ent_def)
      qed (use so len f s1 in auto)
      then show ?thesis by simp
    qed
    show thesis
    proof (cases "ce_clone ?ce")
      case None
      with False have "flush_cache_ent a s = (0, upd_ent a (\<lambda>ce. ce\<lparr>ce_dirty := False\<rparr>) s1)"
        by (auto simp: flush_cache_ent_def w to_write_def Let_def)
      moreover have "fl_step ?ce x (?ce\<lparr>ce_func := None, ce_dirty := False\<rparr>) (out_data ?ce)" for x
        using fl_step.data [OF None, of x] None False by (simp add: out_data_def func_last)
      ultimately show thesis by (intro that [OF _ once])
    next
      case (Some c)
      let ?s2 = "upd_ent a (\<lambda>ce. ce\<lparr>ce_clone := None\<rparr>) s1"
      have st2: "fl_step ?ce x (?ce\<lparr>ce_func := None, ce_clone := None\<rparr>) (out_data ?ce)" for x
        using fl_step.clone [OF Some, of x] Some by (simp add: out_data_def func_last)
      have r2: "flush_rel bs {a} s ?s2" by (rule once) (rule st2)
      show thesis
      proof (cases "ce_lock ?ce = 0 \<and> ce_dirty ?ce")
        case F: False
        with Some have "flush_cache_ent a s = (0, ?s2)"
          by (auto simp: flush_cache_ent_def w Let_def)
        with r2 show thesis by (rule that [rotated])
      next
        case both: True
        have ce2: "ents ?s2 a = ?ce\<lparr>ce_func := None, ce_clone := None\<rparr>" by (simp add: s1(2))
        from flush_rel_sound [OF r2 so] have so2: "sound_ent bs ?s2 (ents ?s2 a)" .
        obtain s3 where w3: "write_ent a ?s2 = (0, s3)"
          and s3: "s3 = ?s2\<lparr>ents := ents s3, devs := devs s3, calls := calls s3\<rparr>"
            "ents s3 = (ents ?s2)(a := (ents ?s2 a)\<lparr>ce_func := None\<rparr>)"
            "devs s3 = put_bytes (devs ?s2) (ce_dev (ents ?s2 a)) (nat (block_num (ents ?s2 a)) *
               nat (bs (ce_dev (ents ?s2 a)))) (concat [out_data (ents ?s2 a)])"
          using write_ent_good [OF so2] by blast
        let ?s4 = "upd_ent a (\<lambda>ce. ce\<lparr>ce_dirty := False\<rparr>) s3"
        have "flush_cache_ent a s = (0, ?s4)"
          using Some both by (simp add: flush_cache_ent_def w w3 Let_def)
        moreover have r4: "flush_rel bs (set [a]) ?s2 ?s4"
        proof (rule flush_rel_run [of "[a]" bs ?s2 ?d ?b "[ce_data ?ce]"])
          show "?s4 = ?s2\<lparr>ents := ents ?s4, devs := devs ?s4, calls := calls ?s4\<rparr>"
            by (subst s3(1)) (simp add: upd_ent_def)
          show "devs ?s4 = put_bytes (devs ?s2) ?d (nat ?b * nat (bs ?d)) (concat [ce_data ?ce])"
            using s3(3) by (simp add: out_data_def s1(2))
          fix i x
          assume "i < length [a]"
          moreover have "fl_step (ents ?s2 a) x ((ents ?s2 a)\<lparr>ce_dirty := False, ce_func := None\<rparr>)
              (ce_data (ents ?s2 a))" by (rule fl_step.data) (use both ce2 in simp_all)
          ultimately show "fl_step (ents ?s2 ([a] ! i)) x (ents ?s4 ([a] ! i)) ([ce_data ?ce] ! i)"
            by (simp add: s3(2) s1(2) func_last)
        qed (use so2 len ce2 s3(2) in auto)
        moreover have "flush_rel bs {a} s ?s4"
          by (rule flush_rel_twice [OF r2 _ Some]) (use r4 both ce2 s3(2) in simp_all)
        ultimately show thesis using that by blast
      qed
    qed
  qed
qed


text \<open>A run of entries.\<close>

lemma flushed_ent_ents:
  "ents (flushed_ent a s) = (ents s)(a := (if ce_clone (ents s a) \<noteq> None
     then (ents s a)\<lparr>ce_clone := None, ce_func := None\<rparr>
     else (ents s a)\<lparr>ce_dirty := False, ce_func := None\<rparr>))"
  by (simp add: flushed_ent_def Let_def func_last)

lemma flushed_ent_shape:
  "flushed_ent a s = s\<lparr>ents := ents (flushed_ent a s), calls := calls (flushed_ent a s)\<rparr>"
proof -
  obtain e c where r: "run_func a s = s\<lparr>ents := e, calls := c\<rparr>" using run_func_shape by blast
  show ?thesis unfolding flushed_ent_def Let_def r by (simp add: upd_ent_def)
qed

lemma flushed_ents_shape:
  "fold flushed_ent as s =
     s\<lparr>ents := ents (fold flushed_ent as s), calls := calls (fold flushed_ent as s)\<rparr>"
proof (induction as arbitrary: s)
  case (Cons a as)
  obtain e c where "flushed_ent a s = s\<lparr>ents := e, calls := c\<rparr>" using flushed_ent_shape by blast
  moreover obtain e' c' where
    "fold flushed_ent as (flushed_ent a s) = (flushed_ent a s)\<lparr>ents := e', calls := c'\<rparr>"
    using Cons by blast
  ultimately show ?case by simp
qed simp

lemma flushed_ents_ents:
  "distinct as \<Longrightarrow> ents (fold flushed_ent as s) x =
     (if x \<in> set as then (if ce_clone (ents s x) \<noteq> None
        then (ents s x)\<lparr>ce_clone := None, ce_func := None\<rparr>
        else (ents s x)\<lparr>ce_dirty := False, ce_func := None\<rparr>) else ents s x)"
  by (induction as arbitrary: s) (auto simp: flushed_ent_ents)

lemma run_len_le: "run_len h a k bs \<le> length bs"
  by (induction h a k bs rule: run_len.induct) auto

lemma run_len_run:
  "i < run_len h a k bs \<Longrightarrow> ce_dev (h (bs ! i)) = ce_dev (h a) \<and>
     block_num (h (bs ! i)) = block_num (h a) + int (k + i) \<and>
     \<not> (ce_clone (h (bs ! i)) = None \<and> ce_lock (h (bs ! i)) \<noteq> 0)"
  by (induction h a k bs arbitrary: i rule: run_len.induct)
     (auto simp: nth_Cons' split: if_splits)

lemma run_len_64: "1 \<le> k \<Longrightarrow> run_len h a k bs + k \<le> max k NUM_FLUSH_BLOCKS"
  by (induction h a k bs rule: run_len.induct) auto

lemma flush_group_good:
  assumes sound: "\<forall>x \<in> set (a # as). sound_ent bs s (ents s x)" and dist: "distinct (a # as)"
    and n: "run_len (ents s) a 1 as = n" and ne: "0 < n"
    and nskip: "\<not> (ce_clone (ents s a) = None \<and> ce_lock (ents s a) \<noteq> 0)"
  defines "grp \<equiv> a # take n as" and "z \<equiv> ce_bsize (ents s a)"
  obtains dv where
    "writev_pos (devs s) (ce_dev (ents s a)) (block_num (ents s a) * z)
       (map (\<lambda>k. take (nat z) (out_data (ents s k))) grp) = (int (length grp) * z, dv)"
    "flush_rel bs (set grp) s (fold flushed_ent grp (s\<lparr>devs := dv\<rparr>))"
proof -
  let ?d = "ce_dev (ents s a)" and ?b = "block_num (ents s a)"
  let ?xs = "map (\<lambda>k. take (nat z) (out_data (ents s k))) grp"
  have na: "n \<le> length as" using run_len_le [of "ents s" a 1 as] n by simp
  have run: "ce_dev (ents s (grp ! i)) = ?d \<and> block_num (ents s (grp ! i)) = ?b + int i \<and>
      \<not> (ce_clone (ents s (grp ! i)) = None \<and> ce_lock (ents s (grp ! i)) \<noteq> 0)"
    if "i < length grp" for i
    using that run_len_run [of "i - 1" "ents s" a 1 as] n na nskip
    by (auto simp: grp_def nth_Cons')
  have sub: "set grp \<subseteq> set (a # as)" using set_take_subset by (fastforce simp: grp_def)
  have dg: "distinct grp" using dist by (auto simp: grp_def dest: in_set_takeD)
  have sa: "sound_ent bs s (ents s a)" using sound by simp
  then have z: "z = bs ?d" and d: "dev_ok bs (devs s) ?d (max_device_blocks s ?d)" and b: "0 \<le> ?b"
    by (auto simp: sound_ent_def z_def)
  have "length (out_data (ents s x)) = nat z" if "x \<in> set grp" for x
  proof -
    from that obtain i where "i < length grp" "x = grp ! i" by (auto simp: in_set_conv_nth)
    with run [of i] have "ce_dev (ents s x) = ?d" by simp
    with sound sub that show ?thesis
      by (auto simp: sound_ent_def z out_data_def split: option.split)
  qed
  then have xs: "?xs = map (\<lambda>k. out_data (ents s k)) grp"
    and len: "\<forall>x \<in> set ?xs. length x = nat (bs ?d)" by (auto simp: z)
  have "length (concat ?xs) = length grp * nat z"
    using length_concat_const [OF len] by (simp only: z length_map)
  then have tot: "int (length (concat ?xs)) = int (length grp) * z"
    using d z by (simp add: dev_ok_def)
  have l64: "length ?xs \<le> MAX_IOV"
    using run_len_64 [of 1 "ents s" a as] n na by (simp add: grp_def MAX_IOV_def NUM_FLUSH_BLOCKS_def)
  let ?dv = "put_bytes (devs s) ?d (nat ?b * nat (bs ?d)) (concat ?xs)"
  have pos: "0 \<le> ?b * z" "nat (?b * z) = nat ?b * nat (bs ?d)"
    using b d by (simp_all add: z dev_ok_def nat_mult_distrib)
  have gd: "good_dev (devs s) ?d" using d by (simp add: dev_ok_def)
  have w: "writev_pos (devs s) ?d (?b * z) ?xs = (int (length grp) * z, ?dv)"
    using writev_pos_good [OF gd pos(1) l64] tot pos(2) by (simp add: grp_def)
  let ?s1 = "s\<lparr>devs := ?dv\<rparr>"
  let ?s' = "fold flushed_ent grp ?s1"
  have "flush_rel bs (set grp) s ?s'"
  proof (rule flush_rel_run [of grp bs s ?d ?b ?xs])
    show "\<forall>x \<in> set grp. sound_ent bs s (ents s x)" using sound sub by blast
    show "\<forall>i<length grp. ce_dev (ents s (grp ! i)) = ?d \<and> block_num (ents s (grp ! i)) = ?b + int i"
      using run by blast
    obtain e c where sh: "?s' = ?s1\<lparr>ents := e, calls := c\<rparr>" using flushed_ents_shape by blast
    then show "?s' = s\<lparr>ents := ents ?s', devs := devs ?s', calls := calls ?s'\<rparr>"
      and "devs ?s' = ?dv" by simp_all
    show "ents ?s' x = ents s x" if "x \<notin> set grp" for x
      using that by (simp add: flushed_ents_ents [OF dg])
    fix i x
    assume i: "i < length grp"
    then have "ents ?s' (grp ! i) = (if ce_clone (ents s (grp ! i)) \<noteq> None
        then (ents s (grp ! i))\<lparr>ce_clone := None, ce_func := None\<rparr>
        else (ents s (grp ! i))\<lparr>ce_dirty := False, ce_func := None\<rparr>)"
      by (simp add: flushed_ents_ents [OF dg])
    moreover have "?xs ! i = out_data (ents s (grp ! i))" by (simp only: xs nth_map i)
    ultimately show "fl_step (ents s (grp ! i)) x (ents ?s' (grp ! i)) (?xs ! i)"
      using run [OF i] fl_step.data [of "ents s (grp ! i)" x] fl_step.clone [of "ents s (grp ! i)" _ x]
      by (cases "ce_clone (ents s (grp ! i))") (simp_all only: out_data_def option.simps if_True if_False simp_thms)
  qed (use len in \<open>auto simp: grp_def\<close>)
  with w show thesis by (rule that)
qed


text \<open>One pass, and the whole of \<open>flush_ents\<close>.\<close>

definition distinct_keys :: "block_cache \<Rightarrow> nat list \<Rightarrow> bool" where
  "distinct_keys s as \<longleftrightarrow> distinct (map (\<lambda>a. ce_key (ents s a)) as)"

lemma distinct_keys_distinct: "distinct_keys s as \<Longrightarrow> distinct as"
  by (simp add: distinct_keys_def distinct_map)

lemma distinct_keys_Cons:
  "distinct_keys s (a # as) \<longleftrightarrow> ce_key (ents s a) \<notin> ce_key ` ents s ` set as \<and> distinct_keys s as"
  by (auto simp: distinct_keys_def image_image)

lemma distinct_keys_append:
  "distinct_keys s (as @ cs) \<longleftrightarrow> distinct_keys s as \<and> distinct_keys s cs \<and>
     ce_key ` ents s ` set as \<inter> ce_key ` ents s ` set cs = {}"
  by (auto simp: distinct_keys_def image_image)

lemma distinct_keys_flush:
  "flush_rel bs A s s' \<Longrightarrow> distinct_keys s' as = distinct_keys s as"
  by (simp add: distinct_keys_def same_core_simps(7) [OF flush_rel_core])

lemma flush_pass_good:
  "\<forall>x \<in> set as. sound_ent bs s (ents s x) \<Longrightarrow> distinct_keys s as \<Longrightarrow>
     \<exists>s'. flush_pass 0 as s = (0, s') \<and> flush_rel bs (set as) s s'"
proof (induction as arbitrary: s rule: length_induct)
  case (1 as)
  show ?case
  proof (cases as)
    case Nil
    then show ?thesis by (simp add: flush_rel_empty)
  next
    case (Cons a rest)
    let ?ce = "ents s a"
    have so: "sound_ent bs s ?ce" "\<forall>x \<in> set rest. sound_ent bs s (ents s x)"
      and dk: "distinct_keys s (a # rest)" using "1.prems" Cons by auto
    have go_on: "\<exists>s'. flush_pass 0 cs s1 = (0, s') \<and> flush_rel bs (set as) s s'"
      if r1: "flush_rel bs (set gs) s s1" and split: "as = gs @ cs" "gs \<noteq> []" for gs cs s1
    proof -
      have "length cs < length as" using split by simp
      moreover have "\<forall>x \<in> set cs. sound_ent bs s1 (ents s1 x)"
        using "1.prems"(1) split flush_rel_sound [OF r1] by simp
      moreover have "distinct_keys s1 cs"
        using "1.prems"(2) split distinct_keys_flush [OF r1] by (simp add: distinct_keys_append)
      ultimately obtain s' where s': "flush_pass 0 cs s1 = (0, s')" "flush_rel bs (set cs) s1 s'"
        using "1.IH" by blast
      have "flush_rel bs (set gs \<union> set cs) s s'"
        by (rule flush_rel_trans [OF r1 s'(2)])
           (use "1.prems" split in \<open>auto simp: distinct_keys_append\<close>)
      with s'(1) split show ?thesis by auto
    qed
    show ?thesis
    proof (cases "\<not> to_write ?ce \<or> ce_clone ?ce = None \<and> ce_lock ?ce \<noteq> 0")
      case True
      then have "flush_pass 0 as s = flush_pass 0 rest s"
        using Cons by (auto simp: flush_pass.simps Let_def to_write_def)
      with go_on [of "[a]" s rest] flush_rel_skip [OF True] Cons show ?thesis by simp
    next
      case F: False
      then have nskip: "\<not> (\<not> ce_dirty ?ce \<and> ce_clone ?ce = None)"
        "\<not> (ce_clone ?ce = None \<and> ce_lock ?ce \<noteq> 0)" by (auto simp: to_write_def)
      show ?thesis
      proof (cases "run_len (ents s) a 1 rest = 0")
        case True
        obtain s1 where s1: "flush_cache_ent a s = (0, s1)" "flush_rel bs {a} s s1"
          using flush_cache_ent_good [OF so(1)] by blast
        then have "flush_pass 0 as s = flush_pass 0 rest s1"
          using Cons nskip True by (auto simp: flush_pass.simps Let_def)
        with go_on [of "[a]" s1 rest] s1(2) Cons show ?thesis by simp
      next
        case False
        let ?n = "run_len (ents s) a 1 rest" and ?z = "ce_bsize ?ce"
        let ?grp = "a # take ?n rest"
        have "distinct (a # rest)" using distinct_keys_distinct [OF dk] .
        then obtain dv where
          w: "writev_pos (devs s) (ce_dev ?ce) (block_num ?ce * ?z)
              (map (\<lambda>k. take (nat ?z) (out_data (ents s k))) ?grp) = (int (length ?grp) * ?z, dv)"
          and r: "flush_rel bs (set ?grp) s (fold flushed_ent ?grp (s\<lparr>devs := dv\<rparr>))"
          using flush_group_good [of a rest bs s ?n] so False nskip(2) by auto
        have "flush_pass 0 as s = flush_pass 0 (drop ?n rest) (fold flushed_ent ?grp (s\<lparr>devs := dv\<rparr>))"
          unfolding Cons flush_pass.simps(2) Let_def w using False nskip
          by (simp only: prod.case if_False simp_thms)
        with go_on [OF r, of "drop ?n rest"] Cons show ?thesis by simp
      qed
    qed
  qed
qed

text \<open>The pool of iovec arrays when nobody uses it.\<close>

definition iovecs_idle :: "block_cache \<Rightarrow> bool" where
  "iovecs_idle s \<longleftrightarrow> iovec_used s = replicate MAX_IOVECS False \<and> length (iovec_pool s) = MAX_IOVECS \<and>
     iovec_pool s ! 0"

lemma iovec_cycle:
  assumes "iovecs_idle s"
  shows "get_iovec_array s = Some (Some 0, s\<lparr>iovec_used := (iovec_used s)[0 := True]\<rparr>)"
    "s'\<lparr>iovec_used := (iovec_used s)[0 := True]\<rparr> = s1 \<Longrightarrow> iovec_used s' = iovec_used s \<Longrightarrow>
     release_iovec_array 0 s1 = s'"
proof -
  have "find (\<lambda>i. \<not> iovec_used s ! i) [0..<MAX_IOVECS] = Some 0"
    using assms by (simp add: iovecs_idle_def MAX_IOVECS_def upt_conv_Cons)
  then show "get_iovec_array s = Some (Some 0, s\<lparr>iovec_used := (iovec_used s)[0 := True]\<rparr>)"
    using assms by (simp add: get_iovec_array_def iovecs_idle_def Let_def)
  assume "s'\<lparr>iovec_used := (iovec_used s)[0 := True]\<rparr> = s1" "iovec_used s' = iovec_used s"
  moreover have "(iovec_used s)[0 := False] = iovec_used s"
    using assms by (simp add: iovecs_idle_def MAX_IOVECS_def numeral_eq_Suc)
  ultimately show "release_iovec_array 0 s1 = s'"
    by (auto simp: release_iovec_array_def)
qed

text \<open>What \<open>flush_ents\<close> guarantees: the data of no entry changes; settled entries stay settled; an
  unlocked entry is clean afterwards; a locked one keeps its dirty flag but has no clone.\<close>

definition flushed_rel :: "(int \<Rightarrow> int) \<Rightarrow> nat set \<Rightarrow> block_cache \<Rightarrow> block_cache \<Rightarrow> bool" where
  "flushed_rel bs A s s' \<longleftrightarrow>
     s' = s\<lparr>ents := ents s', devs := devs s', calls := calls s'\<rparr> \<and>
     (\<forall>a. same_core (ents s a) (ents s' a)) \<and> (\<forall>a. a \<notin> A \<longrightarrow> ents s' a = ents s a) \<and>
     (\<forall>a \<in> A. ce_clone (ents s' a) = None \<and>
        (ce_lock (ents s a) = 0 \<longrightarrow> \<not> ce_dirty (ents s' a)) \<and>
        (ce_lock (ents s a) \<noteq> 0 \<longrightarrow> ce_dirty (ents s' a) = ce_dirty (ents s a)) \<and>
        (settled (ents s a) (blk_of bs (devs s) (ce_dev (ents s a)) (block_num (ents s a))) \<longrightarrow>
         settled (ents s' a) (blk_of bs (devs s') (ce_dev (ents s a)) (block_num (ents s a))))) \<and>
     (\<forall>d b. (d, b) \<notin> ce_key ` ents s ` A \<longrightarrow> 0 \<le> b \<longrightarrow> b < max_device_blocks s d \<longrightarrow>
        dev_ok bs (devs s) d (max_device_blocks s d) \<longrightarrow>
        blk_of bs (devs s') d b = blk_of bs (devs s) d b) \<and>
     devs_shape (devs s) (devs s')"

lemma flush_rel_same_core: "flush_rel bs A s s' \<Longrightarrow> \<forall>a. same_core (ents s a) (ents s' a)"
  using flush_rel_core by blast

lemma flushed_rel_once:
  assumes r: "flush_rel bs A s s'"
    and clean: "\<And>a. a \<in> A \<Longrightarrow> ce_lock (ents s' a) = 0 \<Longrightarrow> \<not> ce_dirty (ents s' a)"
  shows "flushed_rel bs A s s'"
proof -
  note core = same_core_simps [OF flush_rel_core [OF r]]
  have st: "fl_step (ents s a) (blk_of bs (devs s) (ce_dev (ents s a)) (block_num (ents s a)))
      (ents s' a) (blk_of bs (devs s') (ce_dev (ents s a)) (block_num (ents s a)))" if "a \<in> A" for a
    using r that by (simp add: flush_rel_def)
  have "ce_clone (ents s' a) = None \<and> (ce_lock (ents s a) = 0 \<longrightarrow> \<not> ce_dirty (ents s' a)) \<and>
      (ce_lock (ents s a) \<noteq> 0 \<longrightarrow> ce_dirty (ents s' a) = ce_dirty (ents s a)) \<and>
      (settled (ents s a) (blk_of bs (devs s) (ce_dev (ents s a)) (block_num (ents s a))) \<longrightarrow>
       settled (ents s' a) (blk_of bs (devs s') (ce_dev (ents s a)) (block_num (ents s a))))"
    if "a \<in> A" for a
    using fl_step_clone [OF st [OF that]] fl_step_locked [OF st [OF that]]
      fl_step_settled [OF st [OF that]] clean [OF that] core(5) [of a] by auto
  with r flush_rel_same_core [OF r] show ?thesis
    unfolding flushed_rel_def flush_rel_def by blast
qed

lemma flushed_rel_again:
  assumes r2: "flush_rel bs A s s2" and r3: "flush_rel bs A s2 s3"
  shows "flushed_rel bs A s s3"
proof -
  note core = same_core_simps [OF flush_rel_core [OF r2]]
  note core3 = same_core_simps [OF flush_rel_core [OF r3]]
  let ?blk = "\<lambda>s' a. blk_of bs (devs s') (ce_dev (ents s a)) (block_num (ents s a))"
  have sh: "devs_shape (devs s) (devs s2)" "devs_shape (devs s2) (devs s3)"
    using r2 r3 by (auto simp: flush_rel_def)
  have st2: "fl_step (ents s a) (?blk s a) (ents s2 a) (?blk s2 a)" if "a \<in> A" for a
    using r2 that by (simp add: flush_rel_def)
  have st3: "fl_step (ents s2 a) (?blk s2 a) (ents s3 a) (?blk s3 a)" if "a \<in> A" for a
    using r3 that core by (simp add: flush_rel_def)
  have "ce_clone (ents s3 a) = None \<and> (ce_lock (ents s a) = 0 \<longrightarrow> \<not> ce_dirty (ents s3 a)) \<and>
      (ce_lock (ents s a) \<noteq> 0 \<longrightarrow> ce_dirty (ents s3 a) = ce_dirty (ents s a)) \<and>
      (settled (ents s a) (?blk s a) \<longrightarrow> settled (ents s3 a) (?blk s3 a))" if "a \<in> A" for a
    using fl_step_clone [OF st3 [OF that]] fl_step_clone [OF st2 [OF that]]
      fl_step_locked [OF st2 [OF that]] fl_step_locked [OF st3 [OF that]]
      fl_step_settled [OF st2 [OF that]] fl_step_settled [OF st3 [OF that]]
      fl_step_progress [OF st3 [OF that]] core(5) [of a] by (auto simp: to_write_def)
  moreover have "s3 = s\<lparr>ents := ents s3, devs := devs s3, calls := calls s3\<rparr>"
  proof -
    obtain f1 v1 c1 where "s2 = s\<lparr>ents := f1, devs := v1, calls := c1\<rparr>"
      using r2 unfolding flush_rel_def by blast
    moreover obtain f2 v2 c2 where "s3 = s2\<lparr>ents := f2, devs := v2, calls := c2\<rparr>"
      using r3 unfolding flush_rel_def by blast
    ultimately show ?thesis by simp
  qed
  moreover have "blk_of bs (devs s3) d b = blk_of bs (devs s) d b"
    if "(d, b) \<notin> ce_key ` ents s ` A" "0 \<le> b" "b < max_device_blocks s d"
      "dev_ok bs (devs s) d (max_device_blocks s d)" for d b
  proof -
    have "ce_key ` ents s2 ` A = ce_key ` ents s ` A" by (simp add: image_image core(7))
    with that r2 r3 dev_ok_shape [OF sh(1)] flush_rel_fields(7) [OF r2] show ?thesis
      unfolding flush_rel_def by simp
  qed
  moreover have "ents s3 a = ents s a" if "a \<notin> A" for a
    using r2 r3 that by (simp add: flush_rel_def)
  moreover have "same_core (ents s a) (ents s3 a)" for a
  proof -
    obtain di cl fu where "ents s2 a = (ents s a)\<lparr>ce_dirty := di, ce_clone := cl, ce_func := fu\<rparr>"
      using flush_rel_core [OF r2, of a] unfolding same_core_def by blast
    moreover obtain di' cl' fu' where
      "ents s3 a = (ents s2 a)\<lparr>ce_dirty := di', ce_clone := cl', ce_func := fu'\<rparr>"
      using flush_rel_core [OF r3, of a] unfolding same_core_def by blast
    ultimately show ?thesis unfolding same_core_def by fastforce
  qed
  ultimately show ?thesis unfolding flushed_rel_def using devs_shape_trans [OF sh] by blast
qed

lemma flushed_rel_iovec:
  assumes "flushed_rel bs A (s\<lparr>iovec_used := u\<rparr>) r"
  shows "flushed_rel bs A s (r\<lparr>iovec_used := iovec_used s\<rparr>)"
proof -
  obtain e v c where "r = s\<lparr>iovec_used := u, ents := e, devs := v, calls := c\<rparr>"
    using assms unfolding flushed_rel_def by blast
  with assms show ?thesis by (simp add: flushed_rel_def)
qed

lemma flush_ents_good:
  assumes "iovecs_idle s" "\<forall>x \<in> set as. sound_ent bs s (ents s x)" "distinct_keys s as"
  obtains s' where "flush_ents as s = Some (0, s')" "flushed_rel bs (set as) s s'"
proof -
  let ?s1 = "s\<lparr>iovec_used := (iovec_used s)[0 := True]\<rparr>"
  have "\<forall>x \<in> set as. sound_ent bs ?s1 (ents ?s1 x)" "distinct_keys ?s1 as"
    using assms(2,3) by (simp_all add: sound_ent_def distinct_keys_def)
  from flush_pass_good [OF this] obtain s2 where
    p2: "flush_pass 0 as ?s1 = (0, s2)" and r2: "flush_rel bs (set as) ?s1 s2" by blast
  define again where "again \<longleftrightarrow> (\<exists>a \<in> set as. ce_dirty (ents s2 a) \<and> ce_lock (ents s2 a) = 0)"
  have so2: "\<forall>x \<in> set as. sound_ent bs s2 (ents s2 x)"
    using flush_rel_sound [OF r2] \<open>\<forall>x \<in> set as. sound_ent bs ?s1 (ents ?s1 x)\<close> by blast
  have "distinct_keys s2 as" using distinct_keys_flush [OF r2] \<open>distinct_keys ?s1 as\<close> by simp
  from flush_pass_good [OF so2 this] obtain s3 where
    p3: "flush_pass 0 as s2 = (0, s3)" and r3: "flush_rel bs (set as) s2 s3" by blast
  let ?r = "if again then s3 else s2"
  let ?s' = "?r\<lparr>iovec_used := iovec_used s\<rparr>"
  have fl: "flush_ents as s = Some (0, release_iovec_array 0 ?r)"
    unfolding flush_ents_def iovec_cycle(1) [OF assms(1)] using p2 p3
    by (simp add: again_def [symmetric])
  have u: "iovec_used ?r = (iovec_used s)[0 := True]"
    using flush_rel_fields(9) [OF r2] flush_rel_fields(9) [OF r3] by simp
  have "release_iovec_array 0 ?r = ?s'"
    by (rule iovec_cycle(2) [OF assms(1)]) (use u in \<open>simp_all flip: u\<close>)
  with fl have "flush_ents as s = Some (0, ?s')" by simp
  moreover have "flushed_rel bs (set as) ?s1 ?r"
    using flushed_rel_once [OF r2] flushed_rel_again [OF r2 r3] by (auto simp: again_def)
  then have "flushed_rel bs (set as) s ?s'" by (rule flushed_rel_iovec)
  ultimately show thesis by (rule that)
qed

end
