(* ===== verification/Cache_Inv.thy ===== *)
theory Cache_Inv
  imports Cache_Flush
begin

text \<open>
  The invariant of the block cache between two calls, what a client sees through it (\<open>view\<close>), and
  the operations on blocks that are in the cache.
\<close>

section \<open>Invariant and abstraction\<close>

definition listed :: "block_cache \<Rightarrow> nat set" where
  "listed s = set (normal s) \<union> set (locked s)"

abbreviation ent_blk :: "(int \<Rightarrow> int) \<Rightarrow> block_cache \<Rightarrow> nat \<Rightarrow> byte list" where
  "ent_blk bs s a \<equiv> blk_of bs (devs s) (ce_dev (ents s a)) (block_num (ents s a))"

text \<open>Devices in use are in order, with blocks of at least 512 bytes.\<close>

definition devs_ok :: "(int \<Rightarrow> int) \<Rightarrow> block_cache \<Rightarrow> bool" where
  "devs_ok bs s \<longleftrightarrow> (\<forall>d. 0 < max_device_blocks s d \<longrightarrow> 0 \<le> d \<and> d < MAX_DEVICES \<and> 512 \<le> bs d \<and>
     dev_ok bs (devs s) d (max_device_blocks s d))"

definition cache_inv :: "(int \<Rightarrow> int) \<Rightarrow> block_cache \<Rightarrow> bool" where
  "cache_inv bs s \<longleftrightarrow> ht_wf (ht s) \<and> distinct (normal s @ locked s) \<and>
     (\<forall>k a. ht_map (ht s) k = Some a \<longleftrightarrow> a \<in> listed s \<and> ce_key (ents s a) = k) \<and>
     (\<forall>a \<in> listed s. sound_ent bs s (ents s a) \<and> \<not> ce_busy (ents s a) \<and> a < next_addr s) \<and>
     (\<forall>a \<in> set (normal s). ce_lock (ents s a) = 0 \<and> settled (ents s a) (ent_blk bs s a)) \<and>
     (\<forall>a \<in> set (locked s). 0 < ce_lock (ents s a)) \<and>
     cur_blocks s = int (length (normal s)) + int (length (locked s)) \<and>
     mem_ok s \<and> iovecs_idle s \<and> devs_ok bs s"

text \<open>What a reader of block \<open>b\<close> of device \<open>d\<close> gets.\<close>

definition view :: "(int \<Rightarrow> int) \<Rightarrow> block_cache \<Rightarrow> int \<Rightarrow> fs_off_t \<Rightarrow> byte list" where
  "view bs s d b = (case ht_map (ht s) (d, b) of
     Some a \<Rightarrow> ce_data (ents s a) | None \<Rightarrow> blk_of bs (devs s) d b)"

text \<open>Room for one more request, whatever it needs.\<close>

definition roomy :: "block_cache \<Rightarrow> bool" where
  "roomy s \<longleftrightarrow> int (length (locked s)) + int NUM_FLUSH_BLOCKS \<le> max_blocks s"

definition on_device :: "block_cache \<Rightarrow> int \<Rightarrow> fs_off_t \<Rightarrow> bool" where
  "on_device s d b \<longleftrightarrow> 0 \<le> b \<and> b < max_device_blocks s d"

lemma cache_invD:
  assumes "cache_inv bs s"
  shows "ht_wf (ht s)" "distinct (normal s)" "distinct (locked s)"
    "set (normal s) \<inter> set (locked s) = {}"
    "\<And>k a. ht_map (ht s) k = Some a \<longleftrightarrow> a \<in> listed s \<and> ce_key (ents s a) = k"
    "\<And>a. a \<in> listed s \<Longrightarrow> sound_ent bs s (ents s a)"
    "\<And>a. a \<in> listed s \<Longrightarrow> \<not> ce_busy (ents s a)"
    "\<And>a. a \<in> listed s \<Longrightarrow> a < next_addr s"
    "\<And>a. a \<in> set (normal s) \<Longrightarrow> ce_lock (ents s a) = 0"
    "\<And>a. a \<in> set (normal s) \<Longrightarrow> settled (ents s a) (ent_blk bs s a)"
    "\<And>a. a \<in> set (locked s) \<Longrightarrow> 0 < ce_lock (ents s a)"
    "cur_blocks s = int (length (normal s)) + int (length (locked s))"
    "mem_ok s" "iovecs_idle s" "devs_ok bs s"
  using assms by (auto simp: cache_inv_def)

lemma cache_inv_key_inj:
  assumes "cache_inv bs s" "a \<in> listed s" "c \<in> listed s" "ce_key (ents s a) = ce_key (ents s c)"
  shows "a = c"
  using assms cache_invD(5) [OF assms(1)] by (metis option.inject)

lemma cache_inv_lookup:
  assumes "cache_inv bs s" "ht_map (ht s) (d, b) = Some a"
  shows "a \<in> listed s" "ce_dev (ents s a) = d" "block_num (ents s a) = b"
  using assms cache_invD(5) [OF assms(1)] by (auto simp: ce_key_def)

lemma block_lookup_inv:
  assumes "cache_inv bs s"
  shows "block_lookup d b s = Some (ht_map (ht s) (d, b))"
  using cache_inv_lookup(1) [OF assms, of d b] cache_invD(7) [OF assms]
  by (auto simp: block_lookup_def ht.lookup_law [OF cache_invD(1) [OF assms]] split: option.split)

lemma view_cached: "ht_map (ht s) (d, b) = Some a \<Longrightarrow> view bs s d b = ce_data (ents s a)"
  by (simp add: view_def)

lemma view_not_cached: "ht_map (ht s) (d, b) = None \<Longrightarrow> view bs s d b = blk_of bs (devs s) d b"
  by (simp add: view_def)

lemma view_length:
  assumes "cache_inv bs s" "on_device s d b"
  shows "length (view bs s d b) = nat (bs d)"
proof (cases "ht_map (ht s) (d, b)")
  case (Some a)
  note l = cache_inv_lookup [OF assms(1) Some]
  from cache_invD(6) [OF assms(1) l(1)] l Some show ?thesis
    by (simp add: view_cached sound_ent_def)
next
  case None
  from assms cache_invD(15) have d: "dev_ok bs (devs s) d (max_device_blocks s d)"
    by (fastforce simp: devs_ok_def on_device_def)
  have "nat b * nat (bs d) + nat (bs d) \<le> length (file_of (devs s) d)"
    by (rule write_block_good(2) [OF d, of _ "replicate (nat (bs d)) 0"])
       (use assms in \<open>simp_all add: on_device_def\<close>)
  with None show ?thesis by (simp add: view_not_cached blk_of_def get_bytes_length)
qed

section \<open>Changing entries that stay where they are\<close>

text \<open>Entries keep their key and size; the lists, the table and the devices do not change.\<close>

lemma cache_inv_upd_ent:
  assumes inv: "cache_inv bs s" and a: "a \<in> listed s"
    and f: "ce_dev (f (ents s a)) = ce_dev (ents s a)" "block_num (f (ents s a)) = block_num (ents s a)"
      "ce_bsize (f (ents s a)) = ce_bsize (ents s a)" "ce_busy (f (ents s a)) = ce_busy (ents s a)"
      "ce_lock (f (ents s a)) = ce_lock (ents s a)"
      "length (ce_data (f (ents s a))) = length (ce_data (ents s a))"
      "\<And>c. ce_clone (f (ents s a)) = Some c \<Longrightarrow> length c = nat (ce_bsize (ents s a))"
    and st: "a \<in> set (normal s) \<Longrightarrow> settled (f (ents s a)) (ent_blk bs s a)"
  shows "cache_inv bs (upd_ent a f s)"
proof -
  have key: "ce_key (f (ents s a)) = ce_key (ents s a)" using f by (simp add: ce_key_def)
  have lists: "listed (upd_ent a f s) = listed s" "normal (upd_ent a f s) = normal s"
    "locked (upd_ent a f s) = locked s" "ht (upd_ent a f s) = ht s"
    "next_addr (upd_ent a f s) = next_addr s" "cur_blocks (upd_ent a f s) = cur_blocks s"
    "mem_ok (upd_ent a f s) = mem_ok s" "iovecs_idle (upd_ent a f s) = iovecs_idle s"
    "devs_ok bs (upd_ent a f s) = devs_ok bs s" "max_device_blocks (upd_ent a f s) = max_device_blocks s"
    by (simp_all add: upd_ent_def listed_def iovecs_idle_def devs_ok_def)
  have so: "sound_ent bs (upd_ent a f s) (ents (upd_ent a f s) x)" if "x \<in> listed s" for x
    using cache_invD(6) [OF inv that] cache_invD(6) [OF inv a] f
    by (auto simp: sound_ent_def)
  note D = cache_invD [OF inv]
  show ?thesis unfolding cache_inv_def lists
  proof (intro conjI)
    show "\<forall>k x. ht_map (ht s) k = Some x \<longleftrightarrow>
        x \<in> listed s \<and> ce_key (ents (upd_ent a f s) x) = k"
      using D(5) key by auto
    show "\<forall>x\<in>listed s. sound_ent bs (upd_ent a f s) (ents (upd_ent a f s) x) \<and>
        \<not> ce_busy (ents (upd_ent a f s) x) \<and> x < next_addr s"
      using so D(7,8) f(4) by auto
    show "\<forall>x\<in>set (normal s). ce_lock (ents (upd_ent a f s) x) = 0 \<and>
        settled (ents (upd_ent a f s) x) (ent_blk bs (upd_ent a f s) x)"
      using D(9,10) st f by auto
    show "\<forall>x\<in>set (locked s). 0 < ce_lock (ents (upd_ent a f s) x)" using D(11) f(5) by auto
  qed (use D in simp_all)
qed

lemma view_upd_ent:
  assumes inv: "cache_inv bs s" and a: "a \<in> listed s" and k: "ce_key (ents s a) = (d, b)"
  shows "view bs (upd_ent a f s) = (view bs s)(d := (view bs s d)(b := ce_data (f (ents s a))))"
proof -
  have h: "ht (upd_ent a f s) = ht s" by (simp add: upd_ent_def)
  have m: "ht_map (ht s) (d, b) = Some a" using cache_invD(5) [OF inv] a k by simp
  show ?thesis
  proof (intro ext)
    fix x y
    show "view bs (upd_ent a f s) x y =
        ((view bs s)(d := (view bs s d)(b := ce_data (f (ents s a))))) x y"
    proof (cases "(x, y) = (d, b)")
      case True
      then show ?thesis using m by (simp add: view_def h)
    next
      case False
      then have "ht_map (ht s) (x, y) \<noteq> Some a" using cache_invD(5) [OF inv] k by auto
      with False show ?thesis by (auto simp: view_def h split: option.split)
    qed
  qed
qed

section \<open>Marking and writing through a pointer\<close>

text \<open>Marking a cached block dirty changes nothing that a client sees.\<close>

lemma mark_one_inv:
  assumes inv: "cache_inv bs s" and a: "a \<in> listed s"
  shows "cache_inv bs (upd_ent a (\<lambda>ce. ce\<lparr>ce_dirty := True\<rparr>) s)"
    "view bs (upd_ent a (\<lambda>ce. ce\<lparr>ce_dirty := True\<rparr>) s) = view bs s"
proof -
  show "cache_inv bs (upd_ent a (\<lambda>ce. ce\<lparr>ce_dirty := True\<rparr>) s)"
    by (rule cache_inv_upd_ent [OF inv a])
       (use cache_invD(6) [OF inv a] in \<open>auto simp: settled_def sound_ent_def\<close>)
  obtain d b where k: "ce_key (ents s a) = (d, b)" by fastforce
  then have "view bs s d b = ce_data (ents s a)"
    using cache_invD(5) [OF inv] a by (intro view_cached) simp
  with view_upd_ent [OF inv a k] show
    "view bs (upd_ent a (\<lambda>ce. ce\<lparr>ce_dirty := True\<rparr>) s) = view bs s" by (auto simp: fun_eq_iff)
qed

lemma mark_blocks_dirty_one:
  assumes inv: "cache_inv bs s" and c: "ht_map (ht s) (d, b) = Some a"
  shows "mark_blocks_dirty d b 1 s = Some (0, upd_ent a (\<lambda>ce. ce\<lparr>ce_dirty := True\<rparr>) s)"
  using c by (simp add: mark_blocks_dirty_def block_lookup_inv [OF inv])

text \<open>A write through the pointer to a pinned block.\<close>

lemma poke_inv:
  assumes inv: "cache_inv bs s" and a: "a \<in> set (locked s)"
    and len: "length xs = length (ce_data (ents s a))" and k: "ce_key (ents s a) = (d, b)"
  shows "cache_inv bs (poke a xs s)"
    "view bs (poke a xs s) = (view bs s)(d := (view bs s d)(b := xs))"
proof -
  have l: "a \<in> listed s" "a \<notin> set (normal s)" using a cache_invD(4) [OF inv] by (auto simp: listed_def)
  show "cache_inv bs (poke a xs s)" unfolding poke_def
    by (rule cache_inv_upd_ent [OF inv l(1)])
       (use cache_invD(6) [OF inv l(1)] len l(2) in \<open>auto simp: sound_ent_def\<close>)
  show "view bs (poke a xs s) = (view bs s)(d := (view bs s d)(b := xs))"
    unfolding poke_def using view_upd_ent [OF inv l(1) k] by simp
qed

section \<open>Releasing a block\<close>

lemma settled_other [simp]:
  "settled (ce\<lparr>ce_lock := n\<rparr>) = settled ce" "settled (ce\<lparr>ce_busy := p\<rparr>) = settled ce"
  by (simp_all add: settled_def fun_eq_iff split: option.split)

lemma drop_lock_inv:
  assumes inv: "cache_inv bs s" and a: "a \<in> set (locked s)"
    and st: "ce_lock (ents s a) = 1 \<Longrightarrow> settled (ents s a) (ent_blk bs s a)"
  shows "cache_inv bs (drop_lock a s)" "view bs (drop_lock a s) = view bs s"
proof -
  note D = cache_invD [OF inv]
  let ?f = "\<lambda>ce. ce\<lparr>ce_lock := ce_lock ce - 1\<rparr>"
  let ?s = "drop_lock a s"
  have l: "a \<in> listed s" "a \<notin> set (normal s)" "0 < ce_lock (ents s a)"
    using a D(4,11) by (auto simp: listed_def)
  have e: "ents ?s = (ents s)(a := ?f (ents s a))" "ht ?s = ht s" "devs ?s = devs s"
    "max_device_blocks ?s = max_device_blocks s" "next_addr ?s = next_addr s"
    "cur_blocks ?s = cur_blocks s" "mem_ok ?s = mem_ok s" "iovecs_idle ?s = iovecs_idle s"
    "devs_ok bs ?s = devs_ok bs s"
    by (simp_all add: drop_lock_def Let_def upd_ent_def iovecs_idle_def devs_ok_def)
  show "view bs ?s = view bs s"
    by (intro ext) (auto simp: view_def e split: option.split)
  have lists: "normal ?s = (if ce_lock (ents s a) = 1 then normal s @ [a] else normal s)"
    "locked ?s = (if ce_lock (ents s a) = 1 then remove1 a (locked s) else locked s)"
    by (auto simp: drop_lock_def Let_def upd_ent_def)
  have sl: "set (locked ?s) = (if ce_lock (ents s a) = 1 then set (locked s) - {a} else set (locked s))"
    using D(3) by (simp add: lists)
  have li: "listed ?s = listed s" using a by (auto simp: listed_def lists sl split: if_splits)
  show "cache_inv bs ?s" unfolding cache_inv_def li e(2,5-9)
  proof (intro conjI)
    show "distinct (normal ?s @ locked ?s)"
      using D(2-4) l by (auto simp: lists)
    show "\<forall>k x. ht_map (ht s) k = Some x \<longleftrightarrow> x \<in> listed s \<and> ce_key (ents ?s x) = k"
      using D(5) by (auto simp: e ce_key_def)
    show "\<forall>x\<in>listed s. sound_ent bs ?s (ents ?s x) \<and> \<not> ce_busy (ents ?s x) \<and> x < next_addr s"
      using D(6-8) l(1) by (auto simp: e sound_ent_def)
    show "\<forall>x\<in>set (normal ?s). ce_lock (ents ?s x) = 0 \<and> settled (ents ?s x) (ent_blk bs ?s x)"
      using D(9,10) st l by (auto simp: lists e)
    show "\<forall>x\<in>set (locked ?s). 0 < ce_lock (ents ?s x)"
      using D(11) l by (auto simp: sl e split: if_splits)
    show "cur_blocks s = int (length (normal ?s)) + int (length (locked ?s))"
      using D(12) a by (simp add: lists length_remove1 int_length_pred)
  qed (use D in simp_all)
qed

lemma release_block_eq:
  assumes inv: "cache_inv bs s" and c: "ht_map (ht s) (d, b) = Some a"
  shows "release_block d b s = Some (0, drop_lock a s)"
  using c cache_inv_lookup [OF inv c]
  by (simp add: release_block_def block_lookup_inv [OF inv] wrong_block_def)

section \<open>A hit\<close>

text \<open>The contents of the block after an operation.\<close>

definition op_data :: "cache_op \<Rightarrow> int \<Rightarrow> byte list \<Rightarrow> byte list \<Rightarrow> byte list" where
  "op_data op bsize blk old =
     (if CACHE_READ op then old else if CACHE_WRITE op then blk else replicate (nat bsize) 0)"

definition good_op :: "cache_op \<Rightarrow> bool \<Rightarrow> bool" where
  "good_op op nul \<longleftrightarrow> CACHE_READ op \<or> CACHE_WRITE op \<and> \<not> nul \<or> CACHE_NOOP op \<and> \<not> CACHE_WRITE op"

text \<open>An entry that was changed and put at the head of the list its lock count asks for.\<close>

lemma cache_inv_relist:
  assumes inv: "cache_inv bs s" and a: "a \<in> listed s"
    and s': "s' = s\<lparr>ents := (ents s)(a := ce), normal := normal s', locked := locked s'\<rparr>"
    and n: "normal s' = remove1 a (normal s) @ (if ce_lock ce = 0 then [a] else [])"
    and l: "locked s' = remove1 a (locked s) @ (if ce_lock ce = 0 then [] else [a])"
    and so: "sound_ent bs s ce" and key: "ce_key ce = ce_key (ents s a)"
    and ce: "\<not> ce_busy ce" "0 \<le> ce_lock ce" "ce_lock ce = 0 \<Longrightarrow> settled ce (ent_blk bs s a)"
  shows "cache_inv bs s'" "listed s' = listed s"
    "ce_key ce = (d, b) \<Longrightarrow> view bs s' = (view bs s)(d := (view bs s d)(b := ce_data ce))"
proof -
  note D = cache_invD [OF inv]
  have e: "ents s' = (ents s)(a := ce)" "ht s' = ht s" "devs s' = devs s"
    "max_device_blocks s' = max_device_blocks s" "next_addr s' = next_addr s"
    "cur_blocks s' = cur_blocks s" "mem_ok s' = mem_ok s" "iovecs_idle s' = iovecs_idle s"
    "devs_ok bs s' = devs_ok bs s"
    by (subst s', simp add: iovecs_idle_def devs_ok_def)+
  have sn: "set (normal s') = set (normal s) - {a} \<union> (if ce_lock ce = 0 then {a} else {})"
    "set (locked s') = set (locked s) - {a} \<union> (if ce_lock ce = 0 then {} else {a})"
    using D(2,3) by (simp_all add: n l)
  show li: "listed s' = listed s" using a by (auto simp: listed_def sn)
  have kd: "ce_dev ce = ce_dev (ents s a)" "block_num ce = block_num (ents s a)"
    using key by (simp_all add: ce_key_def)
  have one: "a \<in> set (normal s) \<and> a \<notin> set (locked s) \<or> a \<notin> set (normal s) \<and> a \<in> set (locked s)"
    using a D(4) by (auto simp: listed_def)
  show "cache_inv bs s'" unfolding cache_inv_def li e(2,5-9)
  proof (intro conjI)
    show "distinct (normal s' @ locked s')" using D(2-4) by (auto simp: n l)
    show "\<forall>k x. ht_map (ht s) k = Some x \<longleftrightarrow> x \<in> listed s \<and> ce_key (ents s' x) = k"
      using D(5) key by (auto simp: e)
    show "\<forall>x\<in>listed s. sound_ent bs s' (ents s' x) \<and> \<not> ce_busy (ents s' x) \<and> x < next_addr s"
      using D(6-8) so ce(1) by (auto simp: e sound_ent_def)
    show "\<forall>x\<in>set (normal s'). ce_lock (ents s' x) = 0 \<and> settled (ents s' x) (ent_blk bs s' x)"
      using D(9,10) ce(3) kd by (auto simp: sn e)
    show "\<forall>x\<in>set (locked s'). 0 < ce_lock (ents s' x)"
      using D(11) ce(2) by (auto simp: sn e)
    show "cur_blocks s = int (length (normal s')) + int (length (locked s'))"
      using D(12) one by (auto simp: n l length_remove1 int_length_pred)
  qed (use D in simp_all)
  show "view bs s' = (view bs s)(d := (view bs s d)(b := ce_data ce))" if k: "ce_key ce = (d, b)"
  proof -
    have "view bs s' = view bs (upd_ent a (\<lambda>_. ce) s)"
      by (intro ext) (simp add: view_def e upd_ent_def split: option.split)
    then show ?thesis using view_upd_ent [OF inv a, of d b "\<lambda>_. ce"] k key by simp
  qed
qed

lemma unlist_lists:
  assumes "cache_inv bs s" "a \<in> listed s"
  shows "unlist a s = s\<lparr>normal := remove1 a (normal s), locked := remove1 a (locked s)\<rparr>"
proof -
  note D = cache_invD [OF assms(1)]
  have "a \<in> set (normal s) \<and> a \<notin> set (locked s) \<or> a \<notin> set (normal s) \<and> a \<in> set (locked s)"
    using assms(2) D(4) by (auto simp: listed_def)
  then show ?thesis using D(9,11) [of a] by (auto simp: unlist_def remove1_idem)
qed

lemma cache_hit_good:
  assumes inv: "cache_inv bs s" and c: "ht_map (ht s) (d, b) = Some a" and op: "good_op op nul"
    and blk: "\<not> CACHE_READ op \<Longrightarrow> CACHE_WRITE op \<Longrightarrow> length blk = nat (bs d)"
  defines "xs \<equiv> op_data op (bs d) blk (view bs s d b)"
    and "lk \<equiv> ce_lock (ents s a) + (if CACHE_LOCKED op then 1 else 0)"
  obtains s' where "cache_hit a d b nul blk (bs d) op s = Some (xs, s')" "cache_inv bs s'"
    "view bs s' = (view bs s)(d := (view bs s d)(b := xs))"
    "s' = s\<lparr>ents := ents s', normal := normal s', locked := locked s'\<rparr>" "listed s' = listed s"
    "\<And>x. x \<noteq> a \<Longrightarrow> ents s' x = ents s x" "ce_lock (ents s' a) = lk"
    "locked s' = remove1 a (locked s) @ (if lk = 0 then [] else [a])"
    "settled (ents s a) (ent_blk bs s a) \<Longrightarrow> settled (ents s' a) (ent_blk bs s' a)"
proof -
  note l = cache_inv_lookup [OF inv c]
  note D = cache_invD [OF inv]
  have so: "sound_ent bs s (ents s a)" using D(6) [OF l(1)] .
  have v: "view bs s d b = ce_data (ents s a)" by (rule view_cached [OF c])
  let ?ce = "(ents s a)\<lparr>ce_data := xs, ce_dirty := (ce_dirty (ents s a) \<or> \<not> CACHE_READ op), ce_lock := lk\<rparr>"
  let ?s = "enlist a (s\<lparr>normal := remove1 a (normal s), locked := remove1 a (locked s),
      ents := (ents s)(a := ?ce)\<rparr>)"
  have "hit_data a nul blk (bs d) op (unlist a s) =
      Some (xs, upd_ent a (\<lambda>ce. ce\<lparr>ce_data := xs, ce_dirty := (ce_dirty ce \<or> \<not> CACHE_READ op)\<rparr>) (unlist a s))"
    using op v unlist_lists [OF inv l(1)]
    by (auto simp: hit_data_def xs_def op_data_def good_op_def upd_ent_def)
  then have hit: "cache_hit a d b nul blk (bs d) op s = Some (xs, ?s)"
    using l so unlist_lists [OF inv l(1)]
    by (auto simp: cache_hit_def wrong_block_def sound_ent_def Let_def upd_ent_def lk_def)
  have len: "length xs = length (ce_data (ents s a))"
    using so l blk v by (auto simp: xs_def op_data_def sound_ent_def)
  have lk0: "0 \<le> lk" using D(9,11) [of a] l(1) by (auto simp: lk_def listed_def)
  have sh: "?s = s\<lparr>ents := (ents s)(a := ?ce), normal := normal ?s, locked := locked ?s\<rparr>"
    and n: "normal ?s = remove1 a (normal s) @ (if lk = 0 then [a] else [])"
    and lo: "locked ?s = remove1 a (locked s) @ (if lk = 0 then [] else [a])"
    and en: "ents ?s = (ents s)(a := ?ce)" "devs ?s = devs s"
    by (auto simp: enlist_def intro: block_cache.equality)
  have sce: "sound_ent bs s ?ce" using so len by (simp add: sound_ent_def)
  have st: "settled ?ce (ent_blk bs s a)" if "settled (ents s a) (ent_blk bs s a)"
    using that v by (auto simp: settled_def xs_def op_data_def split: option.split)
  have st0: "settled ?ce (ent_blk bs s a)" if "lk = 0"
  proof (rule st, rule D(10))
    have "ce_lock (ents s a) = 0" using that lk0 D(9,11) [of a] l(1)
      by (auto simp: lk_def listed_def split: if_splits)
    with D(11) [of a] l(1) show "a \<in> set (normal s)" by (auto simp: listed_def)
  qed
  have inv': "cache_inv bs ?s" and li: "listed ?s = listed s"
    and vw: "view bs ?s = (view bs s)(d := (view bs s d)(b := xs))"
    using cache_inv_relist [OF inv l(1) sh _ _ sce] n lo st0 lk0 D(7) [OF l(1)] l
    by (auto simp: ce_key_def)
  show thesis
    by (rule that [OF hit inv' vw]) (use sh li en lo st l in \<open>auto simp: ce_key_def intro: block_cache.equality\<close>)
qed

end
