(* ===== verification/Cache_Miss.thy ===== *)
theory Cache_Miss
  imports Cache_Inv
begin

text \<open>
  \<open>cache_block_io\<close> on a block that is not in the cache: getting entries, entering their new block
  numbers, flushing, reading, and putting everything back.  Each loop of the branch gets a lemma
  that gives its result in closed form; the last section puts them together.
\<close>

section \<open>How many blocks\<close>

lemma count_until_spec:
  "k \<le> n \<Longrightarrow> count_until P k n \<le> n \<and> (\<forall>j. k \<le> j \<longrightarrow> j < count_until P k n \<longrightarrow> \<not> P j)"
proof (induction P k n rule: count_until.induct)
  case (1 P k n)
  show ?case
  proof (cases "k < n \<and> \<not> P k")
    case True
    with "1.IH" show ?thesis
      by (subst (1 2) count_until.simps) (auto, metis Suc_leI le_neq_implies_less)
  next
    case False
    with "1.prems" show ?thesis by (subst (1 2) count_until.simps) auto
  qed
qed

lemma miss_nblocks_spec:
  assumes "ht_wf (ht s)" "ht_map (ht s) (d, b) = None" "0 < num"
  shows "0 < miss_nblocks d b num s" "miss_nblocks d b num s \<le> num" "miss_nblocks d b num s \<le> 64"
    "\<And>j. j < miss_nblocks d b num s \<Longrightarrow> ht_map (ht s) (d, b + int j) = None"
proof -
  let ?P = "\<lambda>j. hash_lookup (ht s) d (b + int j) \<noteq> None"
  have "1 \<le> min num NUM_FLUSH_BLOCKS" using assms(3) by (simp add: NUM_FLUSH_BLOCKS_def)
  from count_until_spec [OF this, of ?P]
  have c: "miss_nblocks d b num s \<le> min num NUM_FLUSH_BLOCKS"
    "\<And>j. 1 \<le> j \<Longrightarrow> j < miss_nblocks d b num s \<Longrightarrow> hash_lookup (ht s) d (b + int j) = None"
    by (auto simp: miss_nblocks_def)
  then show "miss_nblocks d b num s \<le> num" "miss_nblocks d b num s \<le> 64"
    by (auto simp: NUM_FLUSH_BLOCKS_def)
  show "0 < miss_nblocks d b num s" by (rule miss_nblocks_pos)
  show "ht_map (ht s) (d, b + int j) = None" if "j < miss_nblocks d b num s" for j
    using c(2) [of j] that assms(2) ht.lookup_law [OF assms(1)] by (cases j) auto
qed

lemma miss_needed_spec:
  fixes op :: cache_op
  assumes wf: "ht_wf (ht s)" and z: "512 \<le> bsize" and cur: "cur \<le> 64" "b + int cur \<le> max_device_blocks s d"
    and free: "\<And>j. j < cur \<Longrightarrow> ht_map (ht s) (d, b + int j) = None"
  defines "need \<equiv> miss_needed d b cur bsize op s"
  shows "cur \<le> need" "need \<le> 64" "b + int need \<le> max_device_blocks s d"
    "\<And>j. j < need \<Longrightarrow> ht_map (ht s) (d, b + int j) = None"
proof -
  let ?P = "\<lambda>j. b + int j \<ge> max_device_blocks s d \<or> hash_lookup (ht s) d (b + int j) \<noteq> None"
  let ?n = "nat (read_ahead_size div bsize)"
  have n64: "?n \<le> 64"
  proof -
    have "read_ahead_size div bsize \<le> read_ahead_size div 512"
      using z by (intro zdiv_mono2) (simp_all add: read_ahead_size_def)
    then show ?thesis by (simp add: read_ahead_size_def)
  qed
  have "cur \<le> need \<and> need \<le> 64 \<and> b + int need \<le> max_device_blocks s d \<and>
      (\<forall>j < need. ht_map (ht s) (d, b + int j) = None)"
  proof (cases "CACHE_READ op \<and> CACHE_READ_AHEAD_OK op \<and> int cur * bsize < read_ahead_size")
    case False
    with assms show ?thesis by (auto simp: need_def miss_needed_def)
  next
    case True
    then have need: "need = count_until ?P cur ?n" by (simp add: need_def miss_needed_def)
    have "int cur * bsize div bsize \<le> read_ahead_size div bsize"
      using True z by (intro zdiv_mono1) auto
    then have "cur \<le> ?n" using z by simp
    note c = count_until_spec [OF this, of ?P, folded need]
    have ge: "cur \<le> need" unfolding need by (rule count_until_ge)
    have "b + int need \<le> max_device_blocks s d"
    proof (cases "need = cur")
      case False
      then have "cur \<le> need - 1" "need - 1 < need" using ge by auto
      with c have "\<not> ?P (need - 1)" by blast
      with \<open>need - 1 < need\<close> show ?thesis by (auto simp: of_nat_diff)
    qed (use cur in simp)
    moreover have "ht_map (ht s) (d, b + int j) = None" if "j < need" for j
      using free [of j] c that ht.lookup_law [OF wf] by (cases "j < cur") auto
    ultimately show ?thesis using ge c n64 by auto
  qed
  then show "cur \<le> need" "need \<le> 64" "b + int need \<le> max_device_blocks s d"
    "\<And>j. j < need \<Longrightarrow> ht_map (ht s) (d, b + int j) = None" by auto
qed

section \<open>Finding entries\<close>

abbreviation new_ent :: cache_ent where
  "new_ent \<equiv> blank_ent\<lparr>ce_dev := -1, block_num := -1\<rparr>"

lemma alloc_ents_eq:
  "mem_ok s \<Longrightarrow>
   alloc_ents n s = (let m = min n (nat (max_blocks s - cur_blocks s)) in
     Some ([next_addr s ..< next_addr s + m],
       s\<lparr>ents := (\<lambda>a. if next_addr s \<le> a \<and> a < next_addr s + m then new_ent else ents s a),
         next_addr := next_addr s + m, cur_blocks := cur_blocks s + int m\<rparr>))"
proof (induction n arbitrary: s)
  case 0
  then show ?case by (auto simp: Let_def fun_eq_iff intro!: block_cache.equality)
next
  case (Suc n)
  show ?case
  proof (cases "cur_blocks s < max_blocks s")
    case True
    let ?s1 = "s\<lparr>ents := (ents s)(next_addr s := new_ent), next_addr := next_addr s + 1,
        cur_blocks := cur_blocks s + 1\<rparr>"
    let ?m = "min n (nat (max_blocks s - (cur_blocks s + 1)))"
    have m: "min (Suc n) (nat (max_blocks s - cur_blocks s)) = Suc ?m" using True by simp
    have "alloc_ents n ?s1 = Some ([next_addr s + 1 ..< next_addr s + 1 + ?m],
        ?s1\<lparr>ents := (\<lambda>a. if next_addr s + 1 \<le> a \<and> a < next_addr s + 1 + ?m then new_ent else ents ?s1 a),
         next_addr := next_addr s + 1 + ?m, cur_blocks := cur_blocks s + 1 + int ?m\<rparr>)"
      using Suc.IH [of ?s1] Suc.prems by (simp add: Let_def)
    with True Suc.prems show ?thesis unfolding m
      by (auto simp: new_cache_ent_def Let_def upt_conv_Cons fun_eq_iff intro!: block_cache.equality)
  next
    case False
    then show ?thesis by (auto simp: Let_def fun_eq_iff intro!: block_cache.equality)
  qed
qed

definition busy_all :: "nat list \<Rightarrow> block_cache \<Rightarrow> block_cache" where
  "busy_all as s = s\<lparr>ents := (\<lambda>a. if a \<in> set as then (ents s a)\<lparr>ce_busy := True\<rparr> else ents s a)\<rparr>"

lemma busy_all_simps [simp]:
  "busy_all [] s = s"
  "busy_all as (set_busy True a s) = busy_all (a # as) s"
  "busy_all as (busy_all cs s) = busy_all (as @ cs) s"
  "normal (busy_all as s) = normal s" "locked (busy_all as s) = locked s"
  by (auto simp: busy_all_def set_busy_def upd_ent_def fun_eq_iff intro!: block_cache.equality)

lemma pluck_eq:
  "\<forall>a \<in> set as. ce_lock (ents s a) = 0 \<and> \<not> ce_busy (ents s a) \<Longrightarrow> distinct as \<Longrightarrow>
     pluck lim as acc s = Some (acc @ take (lim - length acc) as, busy_all (take (lim - length acc) as) s)"
proof (induction lim as acc s rule: pluck.induct)
  case (2 lim a as acc s)
  show ?case
  proof (cases "length acc < lim")
    case True
    then obtain k where k: "lim - length acc = Suc k" by (metis Suc_diff_Suc)
    then have "lim - length (acc @ [a]) = k" by simp
    moreover have "pluck lim as (acc @ [a]) (set_busy True a s) =
        Some ((acc @ [a]) @ take (lim - length (acc @ [a])) as,
          busy_all (take (lim - length (acc @ [a])) as) (set_busy True a s))"
      by (rule "2.IH"(2) [OF True]) (use "2.prems" in \<open>auto simp: set_busy_def\<close>)
    ultimately show ?thesis using True "2.prems" k by simp
  next
    case False
    then show ?thesis by simp
  qed
qed simp

lemma pluck_more_eq:
  "\<forall>a \<in> set as. ce_lock (ents s a) = 0 \<and> \<not> ce_busy (ents s a) \<Longrightarrow> distinct as \<Longrightarrow>
     pluck_more lim as acc s = pluck lim as acc s"
proof (induction lim as acc s rule: pluck_more.induct)
  case (2 lim a as acc s)
  have "length acc < lim \<Longrightarrow> pluck_more lim as (acc @ [a]) (set_busy True a s) =
      pluck lim as (acc @ [a]) (set_busy True a s)"
    by (rule "2.IH"(2)) (use "2.prems" in \<open>auto simp: set_busy_def\<close>)
  with "2.prems" show ?case by simp
qed simp


lemma behind_last:
  assumes "distinct xs" "0 < k" "k \<le> length xs"
  shows "behind (last (take k xs)) xs = drop k xs"
proof -
  let ?x = "xs ! (k - 1)"
  have l: "last (take k xs) = ?x" using assms by (subst last_conv_nth) (auto simp: min_def)
  have xs: "xs = take (k - 1) xs @ ?x # drop k xs"
    using assms by (metis Suc_diff_1 Suc_le_lessD diff_less id_take_nth_drop less_le_trans less_numeral_extra(1))
  have "?x \<notin> set (take (k - 1) xs)"
    using assms(1) xs by (metis disjoint_insert(1) distinct_append list.simps(15))
  then have "dropWhile (\<lambda>x. x \<noteq> ?x) (take (k - 1) xs @ ?x # drop k xs) = ?x # drop k xs"
    by (subst dropWhile_append2) auto
  then show ?thesis using xs l by (simp add: behind_def)
qed

text \<open>The entries \<open>get_ents\<close> finds: \<open>m\<close> new ones and the first \<open>k\<close> of the normal list.\<close>

definition gotten :: "nat \<Rightarrow> nat \<Rightarrow> block_cache \<Rightarrow> nat list" where
  "gotten m k s = [next_addr s ..< next_addr s + m] @ take k (normal s)"

definition after_get :: "nat \<Rightarrow> nat \<Rightarrow> block_cache \<Rightarrow> block_cache" where
  "after_get m k s = s\<lparr>ents := (\<lambda>a. if next_addr s \<le> a \<and> a < next_addr s + m then new_ent
       else if a \<in> set (take k (normal s)) then (ents s a)\<lparr>ce_busy := True\<rparr> else ents s a),
     next_addr := next_addr s + m, cur_blocks := cur_blocks s + int m\<rparr>"

lemma get_ents_good:
  assumes inv: "cache_inv bs s" and room: "roomy s" and need: "0 < need" "need \<le> 64"
  obtains m k where "get_ents need 64 s = Some (gotten m k s, after_get m k s)"
    "k \<le> length (normal s)" "need \<le> m + k" "m + k \<le> 64" "m \<le> need"
    "int m \<le> max 0 (max_blocks s - cur_blocks s)"
proof -
  note D = cache_invD [OF inv]
  define m where "m = min need (nat (max_blocks s - cur_blocks s))"
  define s1 where "s1 = s\<lparr>ents := (\<lambda>a. if next_addr s \<le> a \<and> a < next_addr s + m then new_ent else ents s a),
      next_addr := next_addr s + m, cur_blocks := cur_blocks s + int m\<rparr>"
  have al: "alloc_ents need s = Some ([next_addr s ..< next_addr s + m], s1)"
    using alloc_ents_eq [OF D(13)] by (simp add: m_def s1_def Let_def)
  have old: "a < next_addr s" if "a \<in> set (normal s)" for a
    using D(8) that by (auto simp: listed_def)
  then have n1: "\<forall>a \<in> set (normal s). ce_lock (ents s1 a) = 0 \<and> \<not> ce_busy (ents s1 a)"
    using D(7,9) by (fastforce simp: s1_def listed_def)
  define k where "k = need - m"
  have k: "k \<le> length (normal s)"
    using room D(12) need by (auto simp: k_def m_def roomy_def NUM_FLUSH_BLOCKS_def)
  let ?new = "[next_addr s ..< next_addr s + m]"
  have pl: "pluck need (normal s1) ?new s1 = Some (?new @ take k (normal s), busy_all (take k (normal s)) s1)"
    using pluck_eq [OF n1 D(2), of need ?new] by (simp add: k_def s1_def)
  have s2: "busy_all (take j (normal s)) s1 = after_get m j s" for j
  proof -
    have "a \<notin> set (take j (normal s))" if "next_addr s \<le> a" for a
      using old that in_set_takeD leD by metis
    then show ?thesis
      by (auto simp: busy_all_def after_get_def s1_def fun_eq_iff intro!: block_cache.equality)
  qed
  have len: "length (gotten m k s) = need" using k by (simp add: gotten_def k_def m_def)
  have rt: "pluck_retry (need * 256) need ?new s1 = Some (gotten m k s, after_get m k s)"
  proof (cases "length ?new < need")
    case True
    obtain r where r: "need * 256 = Suc r" using need(1) by (cases "need * 256") auto
    show ?thesis unfolding r using True pl s2 len by (simp add: gotten_def s1_def)
  next
    case False
    then have "k = 0" by (simp add: k_def)
    with False need s2 [of 0] show ?thesis by (cases "need * 256") (simp_all add: gotten_def)
  qed
  have bound: "m \<le> need" "int m \<le> max 0 (max_blocks s - cur_blocks s)" by (auto simp: m_def)
  have ge: "get_ents need 64 s = (if gotten m k s \<noteq> [] \<and> length (gotten m k s) < 64 \<and>
        to_write (ents (after_get m k s) (last (gotten m k s)))
      then pluck_more 64 (behind (last (gotten m k s)) (normal (after_get m k s))) (gotten m k s) (after_get m k s)
      else Some (gotten m k s, after_get m k s))"
    using need by (simp add: get_ents_def al rt)
  show thesis
  proof (cases "gotten m k s \<noteq> [] \<and> length (gotten m k s) < 64 \<and>
        to_write (ents (after_get m k s) (last (gotten m k s)))")
    case False
    then have "get_ents need 64 s = Some (gotten m k s, after_get m k s)"
      using ge by (simp only: if_False)
    then show thesis by (rule that) (use k bound len need in \<open>auto simp: k_def\<close>)
  next
    case True
    have k0: "0 < k"
    proof (rule ccontr)
      assume "\<not> 0 < k"
      then have "last (gotten m k s) = next_addr s + m - 1" "0 < m"
        using True by (auto simp: gotten_def split: if_splits)
      then have "ents (after_get m k s) (last (gotten m k s)) = new_ent" by (auto simp: after_get_def)
      with True show False by (simp add: to_write_def blank_ent_def)
    qed
    let ?rest = "drop k (normal s)"
    have lst: "last (gotten m k s) = last (take k (normal s))"
      using k0 k by (auto simp: gotten_def last_append)
    have be: "behind (last (gotten m k s)) (normal (after_get m k s)) = ?rest"
      using behind_last [OF D(2) k0 k] lst by (simp add: after_get_def)
    have nr: "a \<notin> set (take k (normal s))" if "a \<in> set ?rest" for a
      using D(2) that by (metis append_take_drop_id disjoint_iff distinct_append)
    have rest: "\<forall>a \<in> set ?rest. ce_lock (ents (after_get m k s) a) = 0 \<and>
        \<not> ce_busy (ents (after_get m k s) a)"
    proof
      fix a
      assume a: "a \<in> set ?rest"
      then have "a \<in> set (normal s)" by (rule in_set_dropD)
      with nr [OF a] old [OF this] D(7,9) show "ce_lock (ents (after_get m k s) a) = 0 \<and>
        \<not> ce_busy (ents (after_get m k s) a)" by (auto simp: after_get_def listed_def)
    qed
    let ?j = "min (64 - length (gotten m k s)) (length ?rest)"
    have t: "take (k + ?j) (normal s) = take k (normal s) @ take (64 - length (gotten m k s)) ?rest"
      by (simp add: take_add min_def)
    have "busy_all (take (64 - length (gotten m k s)) ?rest) (after_get m k s) = after_get m (k + ?j) s"
      unfolding s2 [of k, symmetric] s2 [of "k + ?j", symmetric] t
      by (auto simp: busy_all_def fun_eq_iff intro!: block_cache.equality)
    then have "get_ents need 64 s = Some (gotten m (k + ?j) s, after_get m (k + ?j) s)"
      using ge True be pluck_more_eq [OF rest] pluck_eq [OF rest] D(2) t by (simp add: gotten_def)
    then show thesis by (rule that) (use k bound len True in \<open>auto simp: k_def\<close>)
  qed
qed

section \<open>Sorting\<close>

lemma insert_ent_mset: "mset (insert_ent h x xs) = add_mset x (mset xs)"
  by (induction xs) auto

lemma sort_ents_mset: "mset (sort_ents h xs) = mset xs"
  by (induction xs) (simp_all add: sort_ents_def insert_ent_mset)

lemma sort_ents_simps [simp]:
  "set (sort_ents h xs) = set xs" "length (sort_ents h xs) = length xs"
  "distinct (sort_ents h xs) = distinct xs"
  using sort_ents_mset [of h xs] by (auto dest: mset_eq_setD mset_eq_length mset_eq_imp_distinct_iff)

text \<open>New entries (device -1) come first.\<close>

definition new_first :: "(nat \<Rightarrow> cache_ent) \<Rightarrow> nat list \<Rightarrow> bool" where
  "new_first h xs \<longleftrightarrow> (\<exists>ns os. xs = ns @ os \<and> (\<forall>a \<in> set ns. ce_dev (h a) = -1) \<and>
     (\<forall>a \<in> set os. 0 \<le> ce_dev (h a)))"

lemma insert_new_first:
  assumes "new_first h xs" "ce_dev (h x) = -1 \<or> 0 \<le> ce_dev (h x)"
  shows "new_first h (insert_ent h x xs)"
  using assms
proof (induction xs)
  case Nil
  then show ?case by (auto simp: new_first_def intro: exI [of _ "[]"] exI [of _ "[x]"])
next
  case (Cons y ys)
  from Cons.prems(1) obtain ns os where
    p: "y # ys = ns @ os" "\<forall>a \<in> set ns. ce_dev (h a) = -1" "\<forall>a \<in> set os. 0 \<le> ce_dev (h a)"
    by (auto simp: new_first_def)
  show ?case
  proof (cases "cache_ent_cmp (h x) (h y) \<le> 0")
    case True
    show ?thesis
    proof (cases "ce_dev (h x) = -1")
      case T: True
      with p have "x # y # ys = (x # ns) @ os" "\<forall>a \<in> set (x # ns). ce_dev (h a) = -1" by auto
      with p(3) True show ?thesis unfolding new_first_def by (metis insert_ent.simps(2))
    next
      case F: False
      then have "ns = []" using True Cons.prems(2) p(1,2)
        by (cases ns) (auto simp: cache_ent_cmp_def)
      with p Cons.prems(2) F True show ?thesis unfolding new_first_def
        by (intro exI [of _ "[]"] exI [of _ "x # y # ys"]) auto
    qed
  next
    case False
    have tl: "new_first h ys"
    proof (cases ns)
      case Nil
      with p show ?thesis unfolding new_first_def by (intro exI [of _ "[]"] exI [of _ ys]) auto
    next
      case (Cons n ns')
      with p show ?thesis unfolding new_first_def by (intro exI [of _ ns'] exI [of _ os]) auto
    qed
    from Cons.IH [OF this Cons.prems(2)] obtain ns2 os2 where
      q: "insert_ent h x ys = ns2 @ os2" "\<forall>a \<in> set ns2. ce_dev (h a) = -1"
        "\<forall>a \<in> set os2. 0 \<le> ce_dev (h a)" by (auto simp: new_first_def)
    show ?thesis
    proof (cases "ce_dev (h y) = -1")
      case True
      with q False show ?thesis unfolding new_first_def
        by (intro exI [of _ "y # ns2"] exI [of _ os2]) auto
    next
      case F: False
      then have "ns = []" using p by (cases ns) auto
      with p have y: "0 \<le> ce_dev (h y)" "\<forall>a \<in> set ys. 0 \<le> ce_dev (h a)" by auto
      have "ce_dev (h x) \<noteq> -1" using False y by (auto simp: cache_ent_cmp_def)
      with Cons.prems(2) y have "\<forall>a \<in> set (insert_ent h x ys). 0 \<le> ce_dev (h a)"
        using mset_eq_setD [OF insert_ent_mset [of h x ys, folded mset.simps(2)]] by auto
      with y False show ?thesis unfolding new_first_def
        by (intro exI [of _ "[]"] exI [of _ "y # insert_ent h x ys"]) auto
    qed
  qed
qed

lemma sort_new_first:
  "\<forall>a \<in> set xs. ce_dev (h a) = -1 \<or> 0 \<le> ce_dev (h a) \<Longrightarrow> new_first h (sort_ents h xs)"
proof (induction xs)
  case Nil
  then show ?case by (simp add: sort_ents_def new_first_def)
next
  case (Cons x xs)
  with insert_new_first [of h "sort_ents h xs" x] show ?case by (simp add: sort_ents_def)
qed

section \<open>Claiming\<close>

text \<open>A run of consecutive keys entered into a map.\<close>

fun ins_run :: "(int \<times> fs_off_t \<Rightarrow> nat option) \<Rightarrow> int \<Rightarrow> fs_off_t \<Rightarrow> nat list \<Rightarrow>
    int \<times> fs_off_t \<Rightarrow> nat option" where
  "ins_run m d b [] = m"
| "ins_run m d b (a # as) = ins_run (m((d, b) \<mapsto> a)) d (b + 1) as"

lemma ins_run_apply:
  "ins_run m d b as (d', c) =
     (if d' = d \<and> b \<le> c \<and> c < b + int (length as) then Some (as ! nat (c - b)) else m (d', c))"
proof (induction as arbitrary: m b)
  case (Cons a as)
  have "nat (c - b) = Suc (nat (c - (b + 1)))" if "b < c" using that by simp
  with Cons [of "m((d, b) \<mapsto> a)" "b + 1"] show ?case
    by (cases "d' = d"; cases "c = b"; cases "b < c") (auto simp: nth_Cons' simp del: fun_upd_apply, auto)
qed auto

lemma claim_ents_good:
  "ht_wf (ht s) \<Longrightarrow> mem_ok s \<Longrightarrow> distinct es \<Longrightarrow>
   (\<And>j. j < need \<Longrightarrow> ht_map (ht s) (d, b + int j) = None) \<Longrightarrow>
   (\<And>a. a \<in> set es \<Longrightarrow> ce_dev (ents s a) \<noteq> -1 \<Longrightarrow> ce_lock (ents s a) = 0) \<Longrightarrow>
   (\<And>a. a \<in> set es \<Longrightarrow> ce_dev (ents s a) = -1 \<Longrightarrow> a \<notin> set (normal s)) \<Longrightarrow> distinct (normal s) \<Longrightarrow>
   \<exists>nd h. claim_ents d b need es s = Some (nd, (busy_all es s)\<lparr>ht := h,
        normal := filter (\<lambda>a. a \<notin> set es) (normal s)\<rparr>) \<and>
     ht_wf h \<and> ht_map h = ins_run (ht_map (ht s)) d b (take need es) \<and>
     (nd = 0 \<longleftrightarrow> (\<forall>a \<in> set es. ce_dev (ents s a) = -1 \<or> \<not> to_write (ents s a)))"
proof (induction es arbitrary: b need s)
  case Nil
  then show ?case by (auto intro!: exI [of _ "ht s"] block_cache.equality)
next
  case (Cons a es)
  let ?s1 = "set_busy True a s"
  obtain h1 where h1: "ht_wf h1" "ht_map h1 = ins_run (ht_map (ht s)) d b (take (min need 1) [a])"
    and ins: "(if need > 0 then let (err, h) = hash_insert (mem_ok ?s1) (mem_ok ?s1) (ht ?s1) d b a
        in if err \<noteq> 0 then panic else Some (?s1\<lparr>ht := h\<rparr>) else Some ?s1) = Some (?s1\<lparr>ht := h1\<rparr>)"
  proof (cases "need > 0")
    case True
    have "ht_map (ht s) (d, b) = None" using Cons.prems(4) [OF True] by simp
    then obtain h where "hash_insert True True (ht s) d b a = (0, h)" "ht_wf h"
      "ht_map h = (ht_map (ht s))((d, b) \<mapsto> a)" using ht.insert_fresh [OF Cons.prems(1)] by metis
    with True Cons.prems(2) show thesis
      by (intro that [of h]) (auto simp: set_busy_def upd_ent_def min_def)
  next
    case False
    then show thesis
      by (intro that [of "ht s"]) (auto simp: Cons.prems(1) set_busy_def upd_ent_def)
  qed
  define s3 where "s3 = ?s1\<lparr>ht := h1, normal := remove1 a (normal s)\<rparr>"
  have new: "ce_dev (ents s a) = -1 \<Longrightarrow> ?s1\<lparr>ht := h1\<rparr> = s3"
    using Cons.prems(6) [of a]
    by (auto simp: s3_def set_busy_def upd_ent_def remove1_idem intro!: block_cache.equality)
  have "\<exists>nd h. claim_ents d (b + 1) (need - 1) es s3 = Some (nd, (busy_all es s3)\<lparr>ht := h,
        normal := filter (\<lambda>a. a \<notin> set es) (normal s3)\<rparr>) \<and>
     ht_wf h \<and> ht_map h = ins_run (ht_map (ht s3)) d (b + 1) (take (need - 1) es) \<and>
     (nd = 0 \<longleftrightarrow> (\<forall>a \<in> set es. ce_dev (ents s3 a) = -1 \<or> \<not> to_write (ents s3 a)))"
  proof (rule Cons.IH)
    show "ht_map (ht s3) (d, b + 1 + int j) = None" if "j < need - 1" for j
      using Cons.prems(4) [of "Suc j"] that h1(2)
      by (auto simp: s3_def ins_run_apply min_def add.assoc split: if_splits)
    show "x \<notin> set (normal s3)" if "x \<in> set es" "ce_dev (ents s3 x) = -1" for x
      using Cons.prems(3,6,7) that by (auto simp: s3_def set_busy_def split: if_splits)
  qed (use Cons.prems h1 in \<open>auto simp: s3_def set_busy_def upd_ent_def\<close>)
  then obtain nd h where c: "claim_ents d (b + 1) (need - 1) es s3 = Some (nd, (busy_all es s3)\<lparr>ht := h,
        normal := filter (\<lambda>a. a \<notin> set es) (normal s3)\<rparr>)"
    and h: "ht_wf h" "ht_map h = ins_run (ht_map (ht s3)) d (b + 1) (take (need - 1) es)"
    and nd: "nd = 0 \<longleftrightarrow> (\<forall>a \<in> set es. ce_dev (ents s3 a) = -1 \<or> \<not> to_write (ents s3 a))" by blast
  have fin: "(busy_all es s3)\<lparr>ht := h, normal := filter (\<lambda>a. a \<notin> set es) (normal s3)\<rparr> =
      (busy_all (a # es) s)\<lparr>ht := h, normal := filter (\<lambda>x. x \<notin> set (a # es)) (normal s)\<rparr>"
    using Cons.prems(7)
    by (auto simp: s3_def busy_all_def set_busy_def upd_ent_def fun_eq_iff distinct_remove1_removeAll
        removeAll_filter_not_eq intro!: block_cache.equality filter_cong)
  have mp: "ht_map h = ins_run (ht_map (ht s)) d b (take need (a # es))"
    using h(2) h1(2) by (cases need) (simp_all add: s3_def)
  have e3: "ents s3 x = ents s x" if "x \<in> set es" for x
    using Cons.prems(3) that by (auto simp: s3_def set_busy_def)
  have s1a: "ce_dev (ents (?s1\<lparr>ht := h1\<rparr>) a) = ce_dev (ents s a)"
    "ce_lock (ents (?s1\<lparr>ht := h1\<rparr>) a) = ce_lock (ents s a)"
    "to_write (ents (?s1\<lparr>ht := h1\<rparr>) a) = to_write (ents s a)"
    "normal (?s1\<lparr>ht := h1\<rparr>) = normal s"
    by (simp_all add: set_busy_def to_write_def upd_ent_def)
  show ?case
  proof (cases "ce_dev (ents s a) = -1")
    case True
    have "claim_ents d b need (a # es) s = claim_ents d (b + 1) (need - 1) es s3"
      using True ins s1a new by (simp add: Let_def)
    with True c h(1) mp fin nd e3 show ?thesis by auto
  next
    case False
    then have "ce_lock (ents s a) = 0" using Cons.prems(5) [of a] by simp
    then have "claim_ents d b need (a # es) s = Some ((if to_write (ents s a) then 1 else 0) + nd,
        (busy_all es s3)\<lparr>ht := h, normal := filter (\<lambda>a. a \<notin> set es) (normal s3)\<rparr>)"
      using False ins s1a c unfolding claim_ents.simps Let_def by (simp add: s3_def)
    with False h(1) mp fin nd e3 show ?thesis by auto
  qed
qed

end
