(* ===== verification/Cache_Fill.thy ===== *)
theory Cache_Fill
  imports Cache_Miss
begin

text \<open>
  The second half of a miss: flushing the entries that were claimed, sizing them, reading, moving
  the table and the lists to the new block numbers.
\<close>

section \<open>Flushing with new entries in the array\<close>

lemma flush_pass_skip:
  "\<forall>a \<in> set ns. \<not> to_write (ents s a) \<Longrightarrow> flush_pass r (ns @ os) s = flush_pass r os s"
  by (induction ns) (auto simp: flush_pass.simps(2) Let_def to_write_def)

lemma flush_ents_skip:
  assumes "iovecs_idle s" "\<forall>x \<in> set os. sound_ent bs s (ents s x)" "distinct_keys s os"
    and inert: "\<forall>a \<in> set ns. \<not> to_write (ents s a)" "set ns \<inter> set os = {}"
  shows "flush_ents (ns @ os) s = flush_ents os s"
proof -
  let ?s1 = "s\<lparr>iovec_used := (iovec_used s)[0 := True]\<rparr>"
  have "\<forall>x \<in> set os. sound_ent bs ?s1 (ents ?s1 x)" "distinct_keys ?s1 os"
    using assms(2,3) by (simp_all add: sound_ent_def distinct_keys_def)
  from flush_pass_good [OF this] obtain s2 where
    p: "flush_pass 0 os ?s1 = (0, s2)" and r: "flush_rel bs (set os) ?s1 s2" by blast
  have same: "ents s2 a = ents s a" if "a \<in> set ns" for a
    using r inert(2) that by (auto simp: flush_rel_def)
  have p': "flush_pass 0 (ns @ os) ?s1 = (0, s2)"
    using flush_pass_skip [of ns ?s1 0 os] inert(1) p by simp
  have q: "flush_pass 0 (ns @ os) s2 = flush_pass 0 os s2"
    by (rule flush_pass_skip) (use inert(1) same in simp)
  have "(\<exists>a \<in> set (ns @ os). ce_dirty (ents s2 a) \<and> ce_lock (ents s2 a) = 0) \<longleftrightarrow>
      (\<exists>a \<in> set os. ce_dirty (ents s2 a) \<and> ce_lock (ents s2 a) = 0)"
    using inert(1) same by (auto simp: to_write_def)
  then show ?thesis unfolding flush_ents_def iovec_cycle(1) [OF assms(1)] using p p' q by auto
qed

section \<open>Sizing\<close>

lemma resize_fold:
  "distinct as \<Longrightarrow> fold (resize_ent z) as s = s\<lparr>ents := (\<lambda>a. if a \<in> set as \<and> ce_bsize (ents s a) \<noteq> z
     then (ents s a)\<lparr>ce_data := replicate (nat z) 0, ce_clone := None, ce_bsize := z\<rparr> else ents s a)\<rparr>"
proof (induction as arbitrary: s)
  case Nil
  show ?case by (auto intro!: block_cache.equality)
next
  case (Cons a as)
  then show ?case
    by (auto simp: resize_ent_def upd_ent_def fun_eq_iff intro!: block_cache.equality)
qed

section \<open>Reading\<close>

lemma fill_ents_spec:
  "distinct as \<Longrightarrow>
   fill_ents n as xs s = s\<lparr>ents := ents (fill_ents n as xs s)\<rparr> \<and>
   (\<forall>a. a \<notin> set as \<longrightarrow> ents (fill_ents n as xs s) a = ents s a) \<and>
   (\<forall>i < length as. ents (fill_ents n as xs s) (as ! i) =
      (ents s (as ! i))\<lparr>ce_data := take n (drop (i * n) xs)\<rparr>)"
proof (induction as arbitrary: xs s)
  case (Cons a as)
  let ?s1 = "upd_ent a (\<lambda>ce. ce\<lparr>ce_data := take n xs\<rparr>) s"
  have IH: "fill_ents n as (drop n xs) ?s1 = ?s1\<lparr>ents := ents (fill_ents n as (drop n xs) ?s1)\<rparr>"
    "\<And>x. x \<notin> set as \<Longrightarrow> ents (fill_ents n as (drop n xs) ?s1) x = ents ?s1 x"
    "\<And>i. i < length as \<Longrightarrow> ents (fill_ents n as (drop n xs) ?s1) (as ! i) =
      (ents ?s1 (as ! i))\<lparr>ce_data := take n (drop (i * n) (drop n xs))\<rparr>"
    using Cons.IH [of "drop n xs" ?s1] Cons.prems by auto
  obtain e where e: "fill_ents n as (drop n xs) ?s1 = ?s1\<lparr>ents := e\<rparr>" using IH(1) by blast
  show ?case
  proof (intro conjI allI impI)
    show "fill_ents n (a # as) xs s = s\<lparr>ents := ents (fill_ents n (a # as) xs s)\<rparr>"
      using e by (simp add: upd_ent_def)
    show "ents (fill_ents n (a # as) xs s) x = ents s x" if "x \<notin> set (a # as)" for x
      using IH(2) [of x] that by simp
    show "ents (fill_ents n (a # as) xs s) ((a # as) ! i) =
        (ents s ((a # as) ! i))\<lparr>ce_data := take n (drop (i * n) xs)\<rparr>" if "i < length (a # as)" for i
    proof (cases i)
      case 0
      then show ?thesis using IH(2) [of a] Cons.prems by simp
    next
      case (Suc j)
      with that have "j < length as" by simp
      moreover from this have "as ! j \<noteq> a" using Cons.prems by auto
      ultimately show ?thesis using IH(3) [of j] Suc by (simp add: add.commute)
    qed
  qed
qed simp

lemma get_bytes_slice:
  "i < k \<Longrightarrow> take n (drop (i * n) (get_bytes dv fd (c * n) (k * n))) = get_bytes dv fd ((c + i) * n) n"
proof -
  assume "i < k"
  then have "i * n + n \<le> k * n" by (metis Suc_leI add.commute mult_Suc mult_le_mono1)
  then show ?thesis by (simp add: get_bytes_def drop_take min_def algebra_simps)
qed

lemma read_into_ents_good:
  assumes "iovecs_idle s" "dev_ok bs (devs s) d m" "0 \<le> b" "b + int (length as) \<le> m" "distinct as"
    "length as \<le> 64"
  obtains s' where "read_into_ents d b as (bs d) s = Some (0, s')" "s' = s\<lparr>ents := ents s'\<rparr>"
    "\<And>a. a \<notin> set as \<Longrightarrow> ents s' a = ents s a"
    "\<And>i. i < length as \<Longrightarrow> ents s' (as ! i) =
       (ents s (as ! i))\<lparr>ce_data := blk_of bs (devs s) d (b + int i)\<rparr>"
proof -
  let ?n = "nat (bs d)" and ?k = "length as"
  have bs: "0 < bs d" "good_dev (devs s) d" "nat m * ?n \<le> length (file_of (devs s) d)"
    using assms(2) by (auto simp: dev_ok_def)
  have pos: "0 \<le> b * bs d" "nat (b * bs d) = nat b * ?n" using assms(3) bs(1)
    by (simp_all add: nat_mult_distrib)
  have "(nat b + ?k) * ?n \<le> nat m * ?n" using assms(3,4) by (intro mult_le_mono1) linarith
  then have fit: "nat (b * bs d) + sum_list (replicate ?k ?n) \<le> length (file_of (devs s) d)"
    using bs(3) pos(2) by (simp add: sum_list_replicate algebra_simps)
  let ?got = "get_bytes (devs s) d (nat b * ?n) (?k * ?n)"
  have rd: "readv_pos (devs s) d (b * bs d) (replicate ?k ?n) = (int ?k * bs d, ?got)"
    using readv_pos_good [OF bs(2) pos(1) fit] assms(6) bs(1) pos(2)
    by (simp add: sum_list_replicate MAX_IOV_def)
  let ?s1 = "s\<lparr>iovec_used := (iovec_used s)[0 := True]\<rparr>"
  have rl: "release_iovec_array 0 ?s1 = s" by (rule iovec_cycle(2) [OF assms(1)]) simp_all
  have r: "read_into_ents d b as (bs d) s = Some (0, fill_ents ?n as ?got s)"
    unfolding read_into_ents_def iovec_cycle(1) [OF assms(1)] using rd rl by simp
  note f = fill_ents_spec [OF assms(5), of ?n ?got s]
  show thesis
  proof (rule that [OF r])
    show "fill_ents ?n as ?got s = s\<lparr>ents := ents (fill_ents ?n as ?got s)\<rparr>" using f by blast
    show "ents (fill_ents ?n as ?got s) a = ents s a" if "a \<notin> set as" for a using f that by blast
    show "ents (fill_ents ?n as ?got s) (as ! i) =
       (ents s (as ! i))\<lparr>ce_data := blk_of bs (devs s) d (b + int i)\<rparr>" if "i < length as" for i
      using f that assms(3) get_bytes_slice [OF that, of ?n "devs s" d "nat b"]
      by (simp add: blk_of_def nat_add_distrib)
  qed
qed

section \<open>Moving to the new block numbers\<close>

text \<open>The keys that entries of an array had before, for those that had one.\<close>

definition old_keys :: "(nat \<Rightarrow> cache_ent) \<Rightarrow> nat list \<Rightarrow> (int \<times> fs_off_t) set" where
  "old_keys h as = {ce_key (h a) | a. a \<in> set as \<and> ce_dev (h a) \<noteq> -1}"

lemma old_keys_Cons:
  "old_keys h (a # as) = (if ce_dev (h a) \<noteq> -1 then insert (ce_key (h a)) (old_keys h as) else old_keys h as)"
  by (auto simp: old_keys_def)

lemma old_keys_cong: "(\<And>a. a \<in> set as \<Longrightarrow> h a = h' a) \<Longrightarrow> old_keys h as = old_keys h' as"
  unfolding old_keys_def by (metis (no_types, lifting))

text \<open>An entry with its new device and block number.\<close>

definition rekey :: "int \<Rightarrow> fs_off_t \<Rightarrow> cache_ent \<Rightarrow> cache_ent" where
  "rekey d b ce = ce\<lparr>ce_dev := d, block_num := b, ce_busy := False\<rparr>"

definition without :: "('k \<Rightarrow> 'v option) \<Rightarrow> 'k set \<Rightarrow> 'k \<Rightarrow> 'v option" where
  "without m K k = (if k \<in> K then None else m k)"

lemma settle_ents_good:
  "ht_wf (ht s) \<Longrightarrow> distinct as \<Longrightarrow>
   (\<And>a. a \<in> set as \<Longrightarrow> ce_dev (ents s a) \<noteq> -1 \<Longrightarrow> ht_map (ht s) (ce_key (ents s a)) = Some a) \<Longrightarrow>
   \<exists>s'. settle_ents d b cur True as s = Some s' \<and>
     s' = s\<lparr>ht := ht s', ents := ents s', normal := normal s @ drop cur as\<rparr> \<and>
     ht_wf (ht s') \<and> ht_map (ht s') = without (ht_map (ht s)) (old_keys (ents s) as) \<and>
     (\<forall>a. a \<notin> set as \<longrightarrow> ents s' a = ents s a) \<and>
     (\<forall>i < length as. ents s' (as ! i) =
        (if i < cur then ents s (as ! i) else rekey d (b + int i) (ents s (as ! i))))"
proof (induction as arbitrary: b cur s)
  case Nil
  then show ?case by (auto simp: without_def old_keys_def intro!: block_cache.equality)
next
  case (Cons a as)
  let ?old = "ce_dev (ents s a) \<noteq> -1"
  obtain h1 where h1: "ht_wf h1"
    "ht_map h1 = (if ?old then (ht_map (ht s))(ce_key (ents s a) := None) else ht_map (ht s))"
    "(if ?old then drop_key (ce_dev (ents s a)) (block_num (ents s a)) a s else Some s) = Some (s\<lparr>ht := h1\<rparr>)"
  proof (cases ?old)
    case True
    obtain h where "hash_delete (ht s) (ce_dev (ents s a)) (block_num (ents s a)) =
        (ht_map (ht s) (ce_key (ents s a)), h)" "ht_wf h"
      "ht_map h = (ht_map (ht s))(ce_key (ents s a) := None)"
      using ht.delete_present [OF Cons.prems(1)] unfolding ce_key_def by metis
    with True Cons.prems(3) [of a] show thesis
      by (intro that [of h]) (simp_all add: drop_key_def del: fun_upd_apply)
  next
    case False
    with Cons.prems(1) show thesis by (intro that [of "ht s"]) simp_all
  qed
  define s2 where "s2 = (if cur = 0
      then s\<lparr>ht := h1, ents := (ents s)(a := rekey d b (ents s a)), normal := normal s @ [a]\<rparr>
      else s\<lparr>ht := h1\<rparr>)"
  have st: "settle_ents d b cur True (a # as) s = settle_ents d (b + 1) (cur - 1) True as s2"
    using h1(3) by (simp add: Let_def s2_def upd_ent_def rekey_def)
  have e2: "ents s2 x = ents s x" if "x \<noteq> a" for x using that by (simp add: s2_def)
  have as: "ents s2 x = ents s x" "x \<noteq> a" if "x \<in> set as" for x
  proof -
    show "x \<noteq> a" using that Cons.prems(2) by auto
    then show "ents s2 x = ents s x" by (rule e2)
  qed
  have h2: "ht s2 = h1" by (simp add: s2_def)
  have key2: "ht_map h1 (ce_key (ents s2 x)) = Some x" if "x \<in> set as" "ce_dev (ents s2 x) \<noteq> -1" for x
    using Cons.prems(3) [of x] Cons.prems(3) [of a] that as [OF that(1)] h1(2)
    by (cases ?old) auto
  have "\<exists>s'. settle_ents d (b + 1) (cur - 1) True as s2 = Some s' \<and>
     s' = s2\<lparr>ht := ht s', ents := ents s', normal := normal s2 @ drop (cur - 1) as\<rparr> \<and>
     ht_wf (ht s') \<and> ht_map (ht s') = without (ht_map (ht s2)) (old_keys (ents s2) as) \<and>
     (\<forall>a. a \<notin> set as \<longrightarrow> ents s' a = ents s2 a) \<and>
     (\<forall>i < length as. ents s' (as ! i) =
        (if i < cur - 1 then ents s2 (as ! i) else rekey d (b + 1 + int i) (ents s2 (as ! i))))"
    by (rule Cons.IH) (use Cons.prems h1 h2 key2 in auto)
  then obtain s' where s': "settle_ents d (b + 1) (cur - 1) True as s2 = Some s'"
     "s' = s2\<lparr>ht := ht s', ents := ents s', normal := normal s2 @ drop (cur - 1) as\<rparr>"
     "ht_wf (ht s')" "ht_map (ht s') = without (ht_map h1) (old_keys (ents s2) as)"
     "\<And>x. x \<notin> set as \<Longrightarrow> ents s' x = ents s2 x"
     "\<And>i. i < length as \<Longrightarrow> ents s' (as ! i) =
        (if i < cur - 1 then ents s2 (as ! i) else rekey d (b + 1 + int i) (ents s2 (as ! i)))"
    unfolding h2 by blast
  have ok: "old_keys (ents s2) as = old_keys (ents s) as" by (rule old_keys_cong) (simp add: as)
  show ?case
  proof (intro exI [of _ s'] conjI allI impI)
    show "settle_ents d b cur True (a # as) s = Some s'" using st s'(1) by simp
    obtain h e where "s' = s2\<lparr>ht := h, ents := e, normal := normal s2 @ drop (cur - 1) as\<rparr>"
      using s'(2) by blast
    then show "s' = s\<lparr>ht := ht s', ents := ents s', normal := normal s @ drop cur (a # as)\<rparr>"
      by (cases cur) (auto simp: s2_def intro!: block_cache.equality)
    show "ht_wf (ht s')" by (rule s'(3))
    show "ht_map (ht s') = without (ht_map (ht s)) (old_keys (ents s) (a # as))"
      using s'(4) h1(2) ok by (auto simp: without_def old_keys_Cons fun_eq_iff)
    show "ents s' x = ents s x" if "x \<notin> set (a # as)" for x using s'(5) e2 that by simp
    show "ents s' ((a # as) ! i) = (if i < cur then ents s ((a # as) ! i)
        else rekey d (b + int i) (ents s ((a # as) ! i)))" if "i < length (a # as)" for i
    proof (cases i)
      case 0
      then show ?thesis using s'(5) [of a] Cons.prems(2) by (simp add: s2_def)
    next
      case (Suc j)
      then have j: "j < length as" using that by simp
      from s'(6) [OF j] as(1) [OF nth_mem [OF j]] Suc show ?thesis by (auto simp: add.assoc)
    qed
  qed
qed

lemma return_ents_good:
  "distinct as \<Longrightarrow> (\<And>a. a \<in> set as \<Longrightarrow> ce_lock (ents s a) = 0) \<Longrightarrow>
   return_ents as s = Some (s\<lparr>ents := (\<lambda>a. if a \<in> set as then (ents s a)\<lparr>ce_busy := False\<rparr> else ents s a),
     normal := rev as @ normal s\<rparr>)"
proof (induction as arbitrary: s)
  case Nil
  then show ?case by (auto intro!: block_cache.equality)
next
  case (Cons a as)
  have "return_ents as (put_back a s) = Some ((put_back a s)\<lparr>ents :=
      (\<lambda>x. if x \<in> set as then (ents (put_back a s) x)\<lparr>ce_busy := False\<rparr> else ents (put_back a s) x),
      normal := rev as @ normal (put_back a s)\<rparr>)"
    by (rule Cons.IH) (use Cons.prems in \<open>auto simp: put_back_def Let_def set_busy_def\<close>)
  with Cons.prems(2) [of a] show ?case
    by (auto simp: put_back_def Let_def set_busy_def upd_ent_def fun_eq_iff intro!: block_cache.equality)
qed

text \<open>The contents of each block of the request and of the buffer.\<close>

lemma finish_ents_good:
  assumes "good_op op nul"
  shows "distinct as \<Longrightarrow> \<exists>s'. finish_ents d b nul z op as rest s =
      (concat (map (\<lambda>i. op_data op z (take (nat z) (drop (i * nat z) rest)) (ce_data (ents s (as ! i))))
         [0..<length as]), s') \<and>
     s' = s\<lparr>ents := ents s', normal := normal s @ (if CACHE_LOCKED op then [] else as),
            locked := locked s @ (if CACHE_LOCKED op then as else [])\<rparr> \<and>
     (\<forall>a. a \<notin> set as \<longrightarrow> ents s' a = ents s a) \<and>
     (\<forall>i < length as. ents s' (as ! i) = fresh_ent d (b + int i) z
        (op_data op z (take (nat z) (drop (i * nat z) rest)) (ce_data (ents s (as ! i))))
        (\<not> CACHE_READ op) (if CACHE_LOCKED op then 1 else 0) (ents s (as ! i)))"
proof (induction as arbitrary: b rest s)
  case Nil
  show ?case by (auto intro!: block_cache.equality)
next
  case (Cons a as)
  let ?n = "nat z" and ?lk = "if CACHE_LOCKED op then 1 else 0 :: int"
  let ?x = "op_data op z (take ?n rest) (ce_data (ents s a))"
  let ?s2 = "enlist a (upd_ent a (fresh_ent d b z ?x (\<not> CACHE_READ op) ?lk) s)"
  have s2: "?s2 = s\<lparr>ents := (ents s)(a := fresh_ent d b z ?x (\<not> CACHE_READ op) ?lk (ents s a)),
      normal := normal s @ (if CACHE_LOCKED op then [] else [a]),
      locked := locked s @ (if CACHE_LOCKED op then [a] else [])\<rparr>"
    by (auto simp: enlist_def fresh_ent_def upd_ent_def intro!: block_cache.equality)
  from Cons.IH [of "b + 1" "drop ?n rest" ?s2] Cons.prems obtain s' where
    f: "finish_ents d (b + 1) nul z op as (drop ?n rest) ?s2 =
      (concat (map (\<lambda>i. op_data op z (take ?n (drop (i * ?n) (drop ?n rest))) (ce_data (ents ?s2 (as ! i))))
         [0..<length as]), s')"
    and sh: "s' = ?s2\<lparr>ents := ents s', normal := normal ?s2 @ (if CACHE_LOCKED op then [] else as),
            locked := locked ?s2 @ (if CACHE_LOCKED op then as else [])\<rparr>"
    and out: "\<And>x. x \<notin> set as \<Longrightarrow> ents s' x = ents ?s2 x"
    and ins: "\<And>i. i < length as \<Longrightarrow> ents s' (as ! i) = fresh_ent d (b + 1 + int i) z
        (op_data op z (take ?n (drop (i * ?n) (drop ?n rest))) (ce_data (ents ?s2 (as ! i))))
        (\<not> CACHE_READ op) ?lk (ents ?s2 (as ! i))" by auto
  have e2: "ents ?s2 (as ! i) = ents s (as ! i)" if "i < length as" for i
    using Cons.prems nth_mem [OF that] by (auto simp: s2)
  have d2: "drop (i * ?n) (drop ?n rest) = drop (Suc i * ?n) rest" for i by (simp add: add.commute)
  have head: "finish_ents d b nul z op (a # as) rest s =
      (let (outs, s3) = finish_ents d (b + 1) nul z op as (drop ?n rest) ?s2 in (?x @ outs, s3))"
    using assms by (auto simp: Let_def op_data_def good_op_def)
  let ?g = "\<lambda>i. op_data op z (take ?n (drop (i * ?n) rest)) (ce_data (ents s ((a # as) ! i)))"
  have "map (\<lambda>i. op_data op z (take ?n (drop (i * ?n) (drop ?n rest))) (ce_data (ents ?s2 (as ! i))))
      [0..<length as] = map (\<lambda>i. ?g (Suc i)) [0..<length as]"
    by (rule map_cong [OF refl]) (simp only: d2 nth_Cons_Suc, simp only: e2 set_upt atLeastLessThan_iff)
  also have "\<dots> = map ?g [Suc 0..<length (a # as)]"
    by (simp add: map_Suc_upt [symmetric] comp_def del: upt_Suc)
  finally have "finish_ents d b nul z op (a # as) rest s = (concat (map ?g [0..<length (a # as)]), s')"
    unfolding head f by (simp add: upt_conv_Cons del: upt_Suc)
  moreover have "s' = s\<lparr>ents := ents s', normal := normal s @ (if CACHE_LOCKED op then [] else a # as),
            locked := locked s @ (if CACHE_LOCKED op then a # as else [])\<rparr>"
  proof -
    obtain e where "s' = ?s2\<lparr>ents := e, normal := normal ?s2 @ (if CACHE_LOCKED op then [] else as),
            locked := locked ?s2 @ (if CACHE_LOCKED op then as else [])\<rparr>" using sh by blast
    then show ?thesis by (auto simp: s2 intro!: block_cache.equality)
  qed
  moreover have "ents s' ((a # as) ! i) = fresh_ent d (b + int i) z
        (op_data op z (take ?n (drop (i * ?n) rest)) (ce_data (ents s ((a # as) ! i))))
        (\<not> CACHE_READ op) ?lk (ents s ((a # as) ! i))" if "i < length (a # as)" for i
  proof (cases i)
    case 0
    then show ?thesis using out [of a] Cons.prems by (simp add: s2)
  next
    case (Suc j)
    then have j: "j < length as" using that by simp
    from ins [OF j] e2 [OF j] Suc show ?thesis by (simp add: add.assoc add.commute [of "nat z"])
  qed
  moreover have "ents s' x = ents s x" if "x \<notin> set (a # as)" for x
    using out that by (simp add: s2)
  ultimately show ?case by (intro exI [of _ s']) blast
qed

end
