(* ===== verification/Cache_Prepare.thy ===== *)
theory Cache_Prepare
  imports Cache_Fill
begin

text \<open>
  The first half of a miss put together: after \<open>miss_prepare\<close> the entries to be used and the extra
  ones are off the lists, clean, and what they held is on the disk; the table has both their old
  keys and the new ones.
\<close>

lemma normal_without_prefix:
  assumes "distinct xs" "set es \<inter> set xs = set (take k xs)"
  shows "filter (\<lambda>a. a \<notin> set es) xs = drop k xs"
proof -
  have "filter (\<lambda>a. a \<notin> set es) (take k xs @ drop k xs) = drop k xs"
  proof -
    have "filter (\<lambda>a. a \<notin> set es) (take k xs) = []"
      using assms(2) by (auto simp: filter_empty_conv)
    moreover have "filter (\<lambda>a. a \<notin> set es) (drop k xs) = drop k xs"
    proof (rule filter_True, rule ballI)
      fix x
      assume x: "x \<in> set (drop k xs)"
      then have "x \<notin> set (take k xs)" "x \<in> set xs"
        using assms(1) by (metis append_take_drop_id disjoint_iff distinct_append, metis in_set_dropD)
      with assms(2) show "x \<notin> set es" by blast
    qed
    ultimately show ?thesis by (simp only: filter_append append_Nil)
  qed
  then show ?thesis by simp
qed

lemma new_first_drop:
  assumes nf: "new_first h es" and d: "distinct es" and N: "{a \<in> set es. ce_dev (h a) = -1} \<subseteq> N"
    "finite N" "card N \<le> need"
  obtains ns os where "es = ns @ os" "\<forall>a \<in> set ns. ce_dev (h a) = -1" "\<forall>a \<in> set os. 0 \<le> ce_dev (h a)"
    "set (drop need es) \<subseteq> set os"
proof -
  obtain ns os where es: "es = ns @ os" "\<forall>a \<in> set ns. ce_dev (h a) = -1" "\<forall>a \<in> set os. 0 \<le> ce_dev (h a)"
    using nf by (auto simp: new_first_def)
  have "set ns \<subseteq> N" using es(1,2) N(1) by auto
  then have "card (set ns) \<le> card N" using N(2) by (rule card_mono [rotated])
  then have "length ns \<le> need" using d es(1) N(3) by (simp add: distinct_card)
  then have "set (drop need es) \<subseteq> set os"
    using es(1) by (auto simp: drop_append dest: in_set_dropD)
  with es show thesis by (rule that)
qed

text \<open>The result of \<open>miss_prepare\<close>, as a relation between the states.\<close>

definition prepared ::
  "(int \<Rightarrow> int) \<Rightarrow> int \<Rightarrow> fs_off_t \<Rightarrow> nat \<Rightarrow> nat \<Rightarrow> nat \<Rightarrow> nat list \<Rightarrow> nat list \<Rightarrow> block_cache \<Rightarrow>
   block_cache \<Rightarrow> bool" where
  "prepared bs d b need m k use extra s s4 \<longleftrightarrow>
     length use = need \<and> distinct (use @ extra) \<and> k \<le> length (normal s) \<and>
     set (use @ extra) = {next_addr s ..< next_addr s + m} \<union> set (take k (normal s)) \<and>
     set extra \<subseteq> set (take k (normal s)) \<and>
     s4 = s\<lparr>ents := ents s4, devs := devs s4, calls := calls s4, ht := ht s4,
            normal := drop k (normal s), next_addr := next_addr s + m, cur_blocks := cur_blocks s + int m\<rparr> \<and>
     ht_wf (ht s4) \<and> ht_map (ht s4) = ins_run (ht_map (ht s)) d b use \<and>
     (\<forall>a. a \<notin> set (use @ extra) \<longrightarrow> ents s4 a = ents s a) \<and>
     (\<forall>a. next_addr s \<le> a \<longrightarrow> a < next_addr s + m \<longrightarrow> ce_dev (ents s4 a) = -1) \<and>
     (\<forall>a \<in> set (take k (normal s)). ce_key (ents s4 a) = ce_key (ents s a) \<and>
        blk_of bs (devs s4) (ce_dev (ents s a)) (block_num (ents s a)) = ce_data (ents s a)) \<and>
     (\<forall>a \<in> set (use @ extra). ce_lock (ents s4 a) = 0 \<and> \<not> ce_dirty (ents s4 a) \<and>
        ce_clone (ents s4 a) = None) \<and>
     (\<forall>a \<in> set use. ce_bsize (ents s4 a) = bs d \<and> length (ce_data (ents s4 a)) = nat (bs d)) \<and>
     (\<forall>a \<in> set extra. ce_bsize (ents s4 a) = ce_bsize (ents s a) \<and> ce_data (ents s4 a) = ce_data (ents s a)) \<and>
     (\<forall>d' c. on_device s d' c \<longrightarrow> (\<forall>a \<in> set (take k (normal s)). ce_key (ents s a) \<noteq> (d', c)) \<longrightarrow>
        blk_of bs (devs s4) d' c = blk_of bs (devs s) d' c) \<and>
     devs_shape (devs s) (devs s4)"

lemma miss_prepare_good:
  assumes inv: "cache_inv bs s" and room: "roomy s" and need: "0 < need" "need \<le> 64"
    and free: "\<And>j. j < need \<Longrightarrow> ht_map (ht s) (d, b + int j) = None"
  obtains m k use extra s4 where "miss_prepare d b need (bs d) s = Some (0, use, extra, s4)"
    "prepared bs d b need m k use extra s s4"
proof -
  note D = cache_invD [OF inv]
  obtain m k where g: "get_ents need 64 s = Some (gotten m k s, after_get m k s)"
    and mk: "k \<le> length (normal s)" "need \<le> m + k" "m + k \<le> 64" "m \<le> need"
    using get_ents_good [OF inv room need] by blast
  let ?N = "{next_addr s ..< next_addr s + m}" and ?O = "set (take k (normal s))"
  define s1 where "s1 = after_get m k s"
  define es where "es = sort_ents (ents s1) (gotten m k s)"
  have O: "a \<in> set (normal s)" "a \<in> listed s" "a < next_addr s" if "a \<in> ?O" for a
    using that D(8) [of a] by (auto simp: listed_def dest: in_set_takeD)
  have NO: "?N \<inter> ?O = {}" using O(3) by force
  have set_es: "set es = ?N \<union> ?O" by (auto simp: es_def gotten_def)
  have dist: "distinct es"
    using D(2) NO by (auto simp: es_def gotten_def)
  have len: "length es = m + k" using mk(1) by (simp add: es_def gotten_def)
  have e1N: "ents s1 a = new_ent" if "a \<in> ?N" for a using that by (simp add: s1_def after_get_def)
  have e1O: "ents s1 a = (ents s a)\<lparr>ce_busy := True\<rparr>" if "a \<in> ?O" for a
    using that O(3) [OF that] by (simp add: s1_def after_get_def)
  have e1x: "ents s1 a = ents s a" if "a \<notin> set es" for a
    using that set_es by (auto simp: s1_def after_get_def)
  have s1: "ht s1 = ht s" "normal s1 = normal s" "mem_ok s1 = mem_ok s" "devs s1 = devs s"
    "iovecs_idle s1 = iovecs_idle s" "max_device_blocks s1 = max_device_blocks s"
    by (simp_all add: s1_def after_get_def iovecs_idle_def)
  have so: "sound_ent bs s (ents s a)" if "a \<in> ?O" for a using D(6) [OF O(2) [OF that]] .
  have dO: "0 \<le> ce_dev (ents s1 a)" if "a \<in> ?O" for a
    using so [OF that] e1O [OF that] by (simp add: sound_ent_def)
  have dN: "ce_dev (ents s1 a) = -1" if "a \<in> ?N" for a using e1N [OF that] by simp
  have "\<exists>nd h. claim_ents d b need es s1 = Some (nd, (busy_all es s1)\<lparr>ht := h,
        normal := filter (\<lambda>a. a \<notin> set es) (normal s1)\<rparr>) \<and>
     ht_wf h \<and> ht_map h = ins_run (ht_map (ht s1)) d b (take need es) \<and>
     (nd = 0 \<longleftrightarrow> (\<forall>a \<in> set es. ce_dev (ents s1 a) = -1 \<or> \<not> to_write (ents s1 a)))"
  proof (rule claim_ents_good)
    show "ce_lock (ents s1 a) = 0" if "a \<in> set es" "ce_dev (ents s1 a) \<noteq> -1" for a
      using that set_es dN e1O [of a] O(1) [of a] D(9) [of a] by auto
    show "a \<notin> set (normal s1)" if "a \<in> set es" "ce_dev (ents s1 a) = -1" for a
    proof -
      have "a \<in> ?N" using that set_es dO [of a] by auto
      then show ?thesis using D(8) [of a] by (auto simp: s1 listed_def)
    qed
  qed (use D dist free s1 in auto)
  then obtain nd h where cl: "claim_ents d b need es s1 = Some (nd, (busy_all es s1)\<lparr>ht := h,
        normal := filter (\<lambda>a. a \<notin> set es) (normal s)\<rparr>)"
    and h: "ht_wf h" "ht_map h = ins_run (ht_map (ht s)) d b (take need es)"
    and nd: "nd = 0 \<longleftrightarrow> (\<forall>a \<in> set es. ce_dev (ents s1 a) = -1 \<or> \<not> to_write (ents s1 a))"
    unfolding s1 by blast
  have "set es \<inter> set (normal s) = set (take k (normal s))"
    using set_es O(1) D(8) by (auto simp: listed_def) (metis leD listed_def UnI1)
  note nrm = normal_without_prefix [OF D(2) this]
  define s2 where "s2 = (busy_all es s1)\<lparr>ht := h, normal := drop k (normal s)\<rparr>"
  have cl2: "claim_ents d b need es s1 = Some (nd, s2)" using cl by (simp add: s2_def nrm)
  have e2: "ents s2 a = (if a \<in> set es then (ents s1 a)\<lparr>ce_busy := True\<rparr> else ents s1 a)" for a
    by (simp add: s2_def busy_all_def)
  have e2O: "ents s2 a = (ents s a)\<lparr>ce_busy := True\<rparr>" if "a \<in> ?O" for a
    using that set_es e1O [OF that] by (simp add: e2)
  have s2: "devs s2 = devs s" "max_device_blocks s2 = max_device_blocks s" "iovecs_idle s2"
    "mem_ok s2"
    using s1 D(13,14) by (simp_all add: s2_def busy_all_def iovecs_idle_def)
  have so2: "sound_ent bs s2 (ents s2 a)" if "a \<in> ?O" for a
    using so [OF that] e2O [OF that] s2 by (simp add: sound_ent_def)
  have "new_first (ents s1) es" unfolding es_def
    by (rule sort_new_first) (use set_es dN dO in \<open>auto simp: es_def\<close>)
  moreover have "{a \<in> set es. ce_dev (ents s1 a) = -1} \<subseteq> ?N" using set_es dO by fastforce
  ultimately obtain ns os where es: "es = ns @ os" "\<forall>a \<in> set ns. ce_dev (ents s1 a) = -1"
    "\<forall>a \<in> set os. 0 \<le> ce_dev (ents s1 a)" "set (drop need es) \<subseteq> set os"
    using new_first_drop [OF _ dist, of "ents s1" ?N need] mk(4) by auto
  have set_os: "set os = ?O" and set_ns: "set ns = ?N"
  proof -
    have all: "x \<in> ?N \<or> x \<in> ?O" if "x \<in> set ns \<or> x \<in> set os" for x
      using that es(1) set_es by (metis Un_iff set_append)
    have "x \<in> ?O" if "x \<in> set os" for x
      using all [of x] that es(3) dN [of x] by (metis neg_0_le_iff_le not_one_le_zero)
    moreover have "x \<in> ?N" if "x \<in> set ns" for x
      using all [of x] that es(2) dO [of x] by (metis neg_0_le_iff_le not_one_le_zero)
    ultimately have "set os \<subseteq> ?O" "set ns \<subseteq> ?N" by blast+
    moreover have "set ns \<union> set os = ?N \<union> ?O" using es(1) set_es by auto
    ultimately show "set os = ?O" "set ns = ?N" using NO by blast+
  qed
  obtain s3 where fl: "(if nd > 0 then flush_ents es s2 else Some (0, s2)) = Some (0, s3)"
    and r3: "flushed_rel bs ?O s2 s3"
  proof (cases "nd > 0")
    case False
    then have "\<not> to_write (ents s2 a)" if "a \<in> ?O" for a
      using nd that set_es dO [OF that] e2 [of a] by (force simp: to_write_def)
    then have "flushed_rel bs ?O s2 s2" by (auto simp: flushed_rel_def to_write_def)
    with False show thesis by (intro that [of s2]) simp_all
  next
    case True
    have dk: "distinct_keys s2 os"
      unfolding distinct_keys_def distinct_map
    proof (intro conjI inj_onI)
      show "distinct os" using dist es(1) by simp
      show "x = y" if "x \<in> set os" "y \<in> set os" "ce_key (ents s2 x) = ce_key (ents s2 y)" for x y
        using that set_os O(2) e2O cache_inv_key_inj [OF inv] by (auto simp: ce_key_def)
    qed
    have sos: "\<forall>x \<in> set os. sound_ent bs s2 (ents s2 x)" using so2 set_os by blast
    have "flush_ents es s2 = flush_ents os s2" unfolding es(1)
      by (rule flush_ents_skip [OF s2(3) sos dk])
         (use set_ns set_os NO set_es e1N e2 in \<open>auto simp: to_write_def blank_ent_def\<close>)
    with True flush_ents_good [OF s2(3) sos dk] set_os that show thesis by auto
  qed
  let ?use = "take need es" and ?extra = "drop need es"
  have core: "same_core (ents s2 a) (ents s3 a)" for a using r3 by (simp add: flushed_rel_def)
  note c3 = same_core_simps [OF core]
  have f3: "s3 = s2\<lparr>ents := ents s3, devs := devs s3, calls := calls s3\<rparr>"
    using r3 by (simp add: flushed_rel_def)
  have m3: "mem_ok s3" using s2(4) by (subst f3) simp
  have du: "distinct ?use" using dist by simp
  define s4 where "s4 = s3\<lparr>ents := (\<lambda>a. if a \<in> set ?use \<and> ce_bsize (ents s3 a) \<noteq> bs d
     then (ents s3 a)\<lparr>ce_data := replicate (nat (bs d)) 0, ce_clone := None, ce_bsize := bs d\<rparr>
     else ents s3 a)\<rparr>"
  have rs: "resize_ents (bs d) ?use s3 = (0, s4)"
    using m3 by (simp add: resize_ents_def resize_fold [OF du] s4_def)
  have "miss_prepare d b need (bs d) s = Some (0, ?use, ?extra, s4)"
    unfolding miss_prepare_def NUM_FLUSH_BLOCKS_def g
    using cl2 fl rs by (simp add: s1_def [symmetric] es_def [symmetric])
  moreover have "prepared bs d b need m k ?use ?extra s s4"
  proof -
    have ue: "set (?use @ ?extra) = ?N \<union> ?O" "distinct (?use @ ?extra)" "?use @ ?extra = es"
      using set_es dist by simp_all
    have ext: "set ?extra \<subseteq> ?O" using es(4) set_os by simp
    have eo: "a \<notin> set ?use" if "a \<in> set ?extra" for a
      using that ue(2) unfolding distinct_append by blast
    have e4: "ents s4 a = (if a \<in> set ?use \<and> ce_bsize (ents s3 a) \<noteq> bs d
       then (ents s3 a)\<lparr>ce_data := replicate (nat (bs d)) 0, ce_clone := None, ce_bsize := bs d\<rparr>
       else ents s3 a)" for a by (simp add: s4_def)
    have e3: "ents s3 a = ents s2 a" if "a \<notin> ?O" for a using r3 that by (simp add: flushed_rel_def)
    have e3N: "ents s3 a = new_ent\<lparr>ce_busy := True\<rparr>" if "a \<in> ?N" for a
    proof -
      have "a \<notin> ?O" using that NO by blast
      with e3 [of a] set_es that e1N [OF that] e2 [of a] show ?thesis by simp
    qed
    have key4: "ce_key (ents s4 a) = ce_key (ents s3 a)" "ce_lock (ents s4 a) = ce_lock (ents s3 a)"
      "ce_dirty (ents s4 a) = ce_dirty (ents s3 a)"
      "ce_clone (ents s3 a) = None \<Longrightarrow> ce_clone (ents s4 a) = None"
      "ce_dev (ents s4 a) = ce_dev (ents s3 a)" for a
      by (simp_all add: e4 ce_key_def)
    have fO: "ce_clone (ents s3 a) = None" "\<not> ce_dirty (ents s3 a)" "ce_lock (ents s3 a) = 0"
        "blk_of bs (devs s3) (ce_dev (ents s a)) (block_num (ents s a)) = ce_data (ents s a)"
        "ce_key (ents s3 a) = ce_key (ents s a)" "ce_bsize (ents s3 a) = ce_bsize (ents s a)"
        "ce_data (ents s3 a) = ce_data (ents s a)"
      if "a \<in> ?O" for a
    proof -
      note n = O(1) [OF that] and e = e2O [OF that]
      have lk: "ce_lock (ents s2 a) = 0" using e D(9) [OF n] by simp
      have st: "settled (ents s2 a) (blk_of bs (devs s2) (ce_dev (ents s2 a)) (block_num (ents s2 a)))"
        using e D(10) [OF n] s2(1) by simp
      show cl: "ce_clone (ents s3 a) = None" and di: "\<not> ce_dirty (ents s3 a)"
        using r3 that lk by (auto simp: flushed_rel_def)
      have "settled (ents s3 a) (blk_of bs (devs s3) (ce_dev (ents s2 a)) (block_num (ents s2 a)))"
        using r3 that st by (simp add: flushed_rel_def)
      then show "blk_of bs (devs s3) (ce_dev (ents s a)) (block_num (ents s a)) = ce_data (ents s a)"
        using cl di c3(4) [of a] e by (simp add: settled_def)
      show "ce_lock (ents s3 a) = 0" "ce_key (ents s3 a) = ce_key (ents s a)"
        "ce_bsize (ents s3 a) = ce_bsize (ents s a)" "ce_data (ents s3 a) = ce_data (ents s a)"
        using c3 [of a] e lk by (simp_all add: ce_key_def)
    qed
    have d4: "devs s4 = devs s3" by (simp add: s4_def)
    have kO: "ce_key ` ents s2 ` ?O = ce_key ` ents s ` ?O"
      using e2O by (force simp: image_image ce_key_def intro!: image_cong)
    have lenu: "length (ce_data (ents s3 a)) = nat (ce_bsize (ents s3 a))" if "a \<in> ?O" for a
      using so [OF that] fO(6,7) [OF that] by (simp add: sound_ent_def)
    show ?thesis unfolding prepared_def
    proof (intro conjI)
      show "length ?use = need" using len mk(2) by simp
      show "s4 = s\<lparr>ents := ents s4, devs := devs s4, calls := calls s4, ht := ht s4,
            normal := drop k (normal s), next_addr := next_addr s + m, cur_blocks := cur_blocks s + int m\<rparr>"
      proof -
        obtain e3' v3 k3 where "s3 = s2\<lparr>ents := e3', devs := v3, calls := k3\<rparr>" using f3 by blast
        then show ?thesis
          by (simp add: s4_def s2_def s1_def busy_all_def after_get_def)
      qed
      show "ht_wf (ht s4)" "ht_map (ht s4) = ins_run (ht_map (ht s)) d b ?use"
      proof -
        have "ht s4 = h" using arg_cong [OF f3, of ht] by (simp add: s4_def s2_def)
        with h show "ht_wf (ht s4)" "ht_map (ht s4) = ins_run (ht_map (ht s)) d b ?use" by simp_all
      qed
      show "\<forall>a. a \<notin> set (?use @ ?extra) \<longrightarrow> ents s4 a = ents s a"
      proof (intro allI impI)
        fix a
        assume a: "a \<notin> set (?use @ ?extra)"
        then have "a \<notin> set ?use" unfolding set_append by blast
        moreover have "a \<notin> set es" "a \<notin> ?O" using a unfolding ue(1) set_es by auto
        ultimately show "ents s4 a = ents s a" using e3 [of a] e2 [of a] e1x [of a] by (simp add: e4)
      qed
      show "\<forall>a. next_addr s \<le> a \<longrightarrow> a < next_addr s + m \<longrightarrow> ce_dev (ents s4 a) = -1"
        using e3N key4(5) by simp
      show "\<forall>a \<in> ?O. ce_key (ents s4 a) = ce_key (ents s a) \<and>
          blk_of bs (devs s4) (ce_dev (ents s a)) (block_num (ents s a)) = ce_data (ents s a)"
        using fO key4(1) d4 by simp
      show "\<forall>a \<in> set (?use @ ?extra). ce_lock (ents s4 a) = 0 \<and> \<not> ce_dirty (ents s4 a) \<and>
          ce_clone (ents s4 a) = None"
      proof
        fix a
        assume "a \<in> set (?use @ ?extra)"
        then consider "a \<in> ?N" | "a \<in> ?O" using ue(1) by blast
        then show "ce_lock (ents s4 a) = 0 \<and> \<not> ce_dirty (ents s4 a) \<and> ce_clone (ents s4 a) = None"
          using e3N [of a] fO(1-3) [of a] key4 [of a] by cases (simp_all add: blank_ent_def)
      qed
      show "\<forall>a \<in> set ?use. ce_bsize (ents s4 a) = bs d \<and> length (ce_data (ents s4 a)) = nat (bs d)"
      proof
        fix a
        assume a: "a \<in> set ?use"
        then consider "a \<in> ?N" | "a \<in> ?O" using ue(1) unfolding set_append by blast
        then show "ce_bsize (ents s4 a) = bs d \<and> length (ce_data (ents s4 a)) = nat (bs d)"
          using e3N [of a] lenu [of a] a by cases (auto simp: e4 blank_ent_def)
      qed
      show "\<forall>a \<in> set ?extra. ce_bsize (ents s4 a) = ce_bsize (ents s a) \<and> ce_data (ents s4 a) = ce_data (ents s a)"
        using ext eo fO(6,7) by (auto simp: e4)
      show "\<forall>d' c. on_device s d' c \<longrightarrow> (\<forall>a \<in> ?O. ce_key (ents s a) \<noteq> (d', c)) \<longrightarrow>
          blk_of bs (devs s4) d' c = blk_of bs (devs s) d' c"
      proof (intro allI impI)
        fix d' c
        assume on: "on_device s d' c" and nk: "\<forall>a \<in> ?O. ce_key (ents s a) \<noteq> (d', c)"
        have "0 < max_device_blocks s d'" using on by (auto simp: on_device_def)
        then have "dev_ok bs (devs s2) d' (max_device_blocks s2 d')"
          using D(15) s2 by (simp add: devs_ok_def)
        moreover have "(d', c) \<notin> ce_key ` ents s2 ` ?O" using nk unfolding kO by force
        ultimately have "blk_of bs (devs s3) d' c = blk_of bs (devs s2) d' c"
          using r3 on s2(2) unfolding flushed_rel_def on_device_def by simp
        then show "blk_of bs (devs s4) d' c = blk_of bs (devs s) d' c" using d4 s2(1) by simp
      qed
      show "devs_shape (devs s) (devs s4)" using r3 d4 s2(1) by (simp add: flushed_rel_def)
    qed (use ue ext mk(1) in simp_all)
  qed
  ultimately show thesis by (rule that)
qed

end
