(* ===== verification/Cache_Install.thy ===== *)
theory Cache_Install
  imports Cache_Prepare
begin

text \<open>
  The second half of a miss put together: the invariant holds again, the request was served, and
  no other block looks different.
\<close>

section \<open>The state after a miss\<close>

text \<open>
  The entries of \<open>use\<close> have become the blocks \<open>b\<close>, \<open>b + 1\<close>, \dots of device \<open>d\<close>; entry number \<open>i\<close> holds \<open>val i\<close>.
  The first \<open>cur\<close> of them were asked for and go to the locked list if \<open>lk\<close>.
\<close>

definition installed ::
  "(int \<Rightarrow> int) \<Rightarrow> int \<Rightarrow> fs_off_t \<Rightarrow> nat \<Rightarrow> bool \<Rightarrow> (nat \<Rightarrow> byte list) \<Rightarrow> nat \<Rightarrow> nat \<Rightarrow> nat list \<Rightarrow> nat list \<Rightarrow>
   block_cache \<Rightarrow> block_cache \<Rightarrow> block_cache \<Rightarrow> bool" where
  "installed bs d b cur lk val m k use extra s s4 s' \<longleftrightarrow>
     s' = s4\<lparr>ents := ents s', ht := ht s', normal := normal s', locked := locked s'\<rparr> \<and>
     normal s' = rev extra @ drop k (normal s) @ drop cur use @ (if lk then [] else take cur use) \<and>
     locked s' = locked s @ (if lk then take cur use else []) \<and>
     ht_wf (ht s') \<and> ht_map (ht s') = without (ht_map (ht s4)) (old_keys (ents s4) use) \<and>
     (\<forall>a. a \<notin> set (use @ extra) \<longrightarrow> ents s' a = ents s a) \<and>
     (\<forall>a \<in> set extra. ents s' a = (ents s4 a)\<lparr>ce_busy := False\<rparr>) \<and>
     (\<forall>i < length use. ce_key (ents s' (use ! i)) = (d, b + int i) \<and> ce_bsize (ents s' (use ! i)) = bs d \<and>
        ce_data (ents s' (use ! i)) = val i \<and> length (val i) = nat (bs d) \<and>
        ce_clone (ents s' (use ! i)) = None \<and> \<not> ce_busy (ents s' (use ! i)) \<and>
        ce_lock (ents s' (use ! i)) = (if i < cur \<and> lk then 1 else 0) \<and>
        (\<not> ce_dirty (ents s' (use ! i)) \<longrightarrow> blk_of bs (devs s4) d (b + int i) = val i))"

lemma preparedD:
  assumes "prepared bs d b need m k use extra s s4"
  shows "length use = need" "distinct use" "distinct extra" "\<And>a. a \<in> set extra \<Longrightarrow> a \<notin> set use"
    "k \<le> length (normal s)"
    "set use \<union> set extra = {next_addr s ..< next_addr s + m} \<union> set (take k (normal s))"
    "set extra \<subseteq> set (take k (normal s))"
    "ht_wf (ht s4)" "ht_map (ht s4) = ins_run (ht_map (ht s)) d b use"
    "\<And>a. a \<notin> set use \<Longrightarrow> a \<notin> set extra \<Longrightarrow> ents s4 a = ents s a"
    "\<And>a. next_addr s \<le> a \<Longrightarrow> a < next_addr s + m \<Longrightarrow> ce_dev (ents s4 a) = -1"
    "\<And>a. a \<in> set (take k (normal s)) \<Longrightarrow> ce_key (ents s4 a) = ce_key (ents s a)"
    "\<And>a. a \<in> set (take k (normal s)) \<Longrightarrow>
       blk_of bs (devs s4) (ce_dev (ents s a)) (block_num (ents s a)) = ce_data (ents s a)"
    "\<And>a. a \<in> set use \<union> set extra \<Longrightarrow> ce_lock (ents s4 a) = 0 \<and> \<not> ce_dirty (ents s4 a) \<and>
        ce_clone (ents s4 a) = None"
    "\<And>a. a \<in> set use \<Longrightarrow> ce_bsize (ents s4 a) = bs d \<and> length (ce_data (ents s4 a)) = nat (bs d)"
    "\<And>a. a \<in> set extra \<Longrightarrow> ce_bsize (ents s4 a) = ce_bsize (ents s a) \<and>
       ce_data (ents s4 a) = ce_data (ents s a)"
    "\<And>d' c. on_device s d' c \<Longrightarrow> (\<forall>a \<in> set (take k (normal s)). ce_key (ents s a) \<noteq> (d', c)) \<Longrightarrow>
        blk_of bs (devs s4) d' c = blk_of bs (devs s) d' c"
    "devs_shape (devs s) (devs s4)"
  using assms unfolding prepared_def by auto

lemma prepared_mem:
  assumes "prepared bs d b need m k use extra s s4"
  shows "a \<in> set use \<or> a \<in> set extra \<longleftrightarrow>
    next_addr s \<le> a \<and> a < next_addr s + m \<or> a \<in> set (take k (normal s))"
proof -
  have "a \<in> set use \<union> set extra \<longleftrightarrow> a \<in> {next_addr s ..< next_addr s + m} \<union> set (take k (normal s))"
    by (simp only: preparedD(6) [OF assms])
  then show ?thesis by auto
qed

lemma prepared_fields:
  assumes "prepared bs d b need m k use extra s s4"
  shows "normal s4 = drop k (normal s)" "locked s4 = locked s" "next_addr s4 = next_addr s + m"
    "cur_blocks s4 = cur_blocks s + int m" "max_blocks s4 = max_blocks s"
    "max_device_blocks s4 = max_device_blocks s" "iovec_pool s4 = iovec_pool s"
    "iovec_used s4 = iovec_used s" "mem_ok s4 = mem_ok s"
proof -
  obtain e v c h where "s4 = s\<lparr>ents := e, devs := v, calls := c, ht := h,
      normal := drop k (normal s), next_addr := next_addr s + m, cur_blocks := cur_blocks s + int m\<rparr>"
    using assms unfolding prepared_def by blast
  then show "normal s4 = drop k (normal s)" "locked s4 = locked s" "next_addr s4 = next_addr s + m"
    "cur_blocks s4 = cur_blocks s + int m" "max_blocks s4 = max_blocks s"
    "max_device_blocks s4 = max_device_blocks s" "iovec_pool s4 = iovec_pool s"
    "iovec_used s4 = iovec_used s" "mem_ok s4 = mem_ok s" by simp_all
qed

text \<open>The context of the lemmas below: a well-formed cache, and a request that was prepared.\<close>

definition miss_ctx ::
  "(int \<Rightarrow> int) \<Rightarrow> int \<Rightarrow> fs_off_t \<Rightarrow> nat \<Rightarrow> nat \<Rightarrow> nat \<Rightarrow> nat list \<Rightarrow> nat list \<Rightarrow> block_cache \<Rightarrow>
   block_cache \<Rightarrow> bool" where
  "miss_ctx bs d b need m k use extra s s4 \<longleftrightarrow> cache_inv bs s \<and>
     prepared bs d b need m k use extra s s4 \<and> 0 \<le> b \<and> b + int need \<le> max_device_blocks s d \<and> 0 < need \<and>
     (\<forall>j < need. ht_map (ht s) (d, b + int j) = None)"

lemma miss_old:
  assumes "miss_ctx bs d b need m k use extra s s4" "a \<in> set (take k (normal s))"
  shows "a \<in> set (normal s)" "a \<in> listed s" "a < next_addr s" "sound_ent bs s (ents s a)"
    "ht_map (ht s) (ce_key (ents s a)) = Some a" "ce_dev (ents s4 a) \<noteq> -1"
    "ht_map (ht s4) (ce_key (ents s4 a)) = Some a" "ce_key (ents s4 a) = ce_key (ents s a)"
proof -
  have inv: "cache_inv bs s" and p: "prepared bs d b need m k use extra s s4"
    and free: "\<forall>j < need. ht_map (ht s) (d, b + int j) = None"
    using assms(1) by (auto simp: miss_ctx_def)
  note D = cache_invD [OF inv] and P = preparedD [OF p]
  show n: "a \<in> set (normal s)" using assms(2) by (rule in_set_takeD)
  then show l: "a \<in> listed s" by (simp add: listed_def)
  then show "a < next_addr s" and so: "sound_ent bs s (ents s a)" using D(6,8) by auto
  show mp: "ht_map (ht s) (ce_key (ents s a)) = Some a" using D(5) l by simp
  show key: "ce_key (ents s4 a) = ce_key (ents s a)" by (rule P(12) [OF assms(2)])
  show "ce_dev (ents s4 a) \<noteq> -1" using key so by (auto simp: ce_key_def sound_ent_def)
  obtain d' c where k: "ce_key (ents s a) = (d', c)" by fastforce
  have "\<not> (d' = d \<and> b \<le> c \<and> c < b + int (length use))"
  proof
    assume h: "d' = d \<and> b \<le> c \<and> c < b + int (length use)"
    then have "nat (c - b) < need" "c = b + int (nat (c - b))" using P(1) by auto
    with free h have "ht_map (ht s) (d', c) = None" by metis
    with mp k show False by simp
  qed
  then show "ht_map (ht s4) (ce_key (ents s4 a)) = Some a"
    using mp k by (auto simp: key P(9) ins_run_apply)
qed

section \<open>The transfer\<close>

lemma blk_length:
  "cache_inv bs s \<Longrightarrow> on_device s d b \<Longrightarrow> devs_shape (devs s) dv \<Longrightarrow> length (blk_of bs dv d b) = nat (bs d)"
proof -
  assume inv: "cache_inv bs s" and on: "on_device s d b" and sh: "devs_shape (devs s) dv"
  have "dev_ok bs (devs s) d (max_device_blocks s d)"
    using cache_invD(15) [OF inv] on by (auto simp: devs_ok_def on_device_def)
  then have "dev_ok bs dv d (max_device_blocks s d)" using dev_ok_shape [OF sh] by simp
  from write_block_good(2) [OF this, of b "replicate (nat (bs d)) 0"] on show ?thesis
    by (simp add: blk_of_def get_bytes_length on_device_def)
qed

lemma miss_transfer_good:
  assumes ctx: "miss_ctx bs d b need m k use extra s s4" and op: "good_op op nul"
    and cur: "0 < cur" "cur \<le> need" "cur < need \<Longrightarrow> CACHE_READ op" "nul \<Longrightarrow> cur = 1" and n64: "need \<le> 64"
    and rest: "\<not> CACHE_READ op \<Longrightarrow> CACHE_WRITE op \<Longrightarrow> cur * nat (bs d) \<le> length rest"
  defines "val \<equiv> \<lambda>i. op_data op (bs d) (take (nat (bs d)) (drop (i * nat (bs d)) rest))
      (blk_of bs (devs s4) d (b + int i))"
  obtains s' where "miss_transfer d b nul rest cur (bs d) op use extra s4 =
      Some (0, cur, concat (map val [0..<cur]), Some (last (take cur use)), s')"
    "installed bs d b cur (CACHE_LOCKED op) val m k use extra s s4 s'"
proof -
  have inv: "cache_inv bs s" and p: "prepared bs d b need m k use extra s s4"
    and b: "0 \<le> b" "b + int need \<le> max_device_blocks s d" "0 < need"
    using ctx by (auto simp: miss_ctx_def)
  note D = cache_invD [OF inv] and P = preparedD [OF p] and F = prepared_fields [OF p]
  have on: "on_device s d (b + int i)" if "i < need" for i using b that by (simp add: on_device_def)
  have "0 < max_device_blocks s d" using b by simp
  then have dok: "dev_ok bs (devs s4) d (max_device_blocks s d)"
    using D(15) dev_ok_shape [OF P(18)] by (simp add: devs_ok_def)
  have idle: "iovecs_idle s4" using D(14) F by (simp add: iovecs_idle_def)
  obtain s5 where rd: "(if CACHE_READ op then read_into_ents d b use (bs d) s4 else Some (0, s4)) = Some (0, s5)"
    and s5: "s5 = s4\<lparr>ents := ents s5\<rparr>" and o5: "\<And>a. a \<notin> set use \<Longrightarrow> ents s5 a = ents s4 a"
    and u5: "\<And>i. i < need \<Longrightarrow> ents s5 (use ! i) = (if CACHE_READ op
        then (ents s4 (use ! i))\<lparr>ce_data := blk_of bs (devs s4) d (b + int i)\<rparr> else ents s4 (use ! i))"
  proof (cases "CACHE_READ op")
    case True
    have "b + int (length use) \<le> max_device_blocks s d" "length use \<le> 64" using b P(1) n64 by simp_all
    then obtain s' where "read_into_ents d b use (bs d) s4 = Some (0, s')" "s' = s4\<lparr>ents := ents s'\<rparr>"
      "\<And>a. a \<notin> set use \<Longrightarrow> ents s' a = ents s4 a"
      "\<And>i. i < length use \<Longrightarrow> ents s' (use ! i) =
         (ents s4 (use ! i))\<lparr>ce_data := blk_of bs (devs s4) d (b + int i)\<rparr>"
      using read_into_ents_good [OF idle dok b(1) _ P(2)] by blast
    with True P(1) show thesis by (intro that [of s']) auto
  next
    case False
    then show thesis by (intro that [of s4]) auto
  qed
  have same5: "ce_key (ents s5 a) = ce_key (ents s4 a)" "ce_dev (ents s5 a) = ce_dev (ents s4 a)"
    "ce_lock (ents s5 a) = ce_lock (ents s4 a)" "ce_dirty (ents s5 a) = ce_dirty (ents s4 a)"
    "ce_clone (ents s5 a) = ce_clone (ents s4 a)" "ce_bsize (ents s5 a) = ce_bsize (ents s4 a)" for a
  proof -
    have "ents s5 a = ents s4 a \<or> (\<exists>x. ents s5 a = (ents s4 a)\<lparr>ce_data := x\<rparr>)"
      using o5 [of a] u5 P(1) by (metis in_set_conv_nth)
    then show "ce_key (ents s5 a) = ce_key (ents s4 a)" "ce_dev (ents s5 a) = ce_dev (ents s4 a)"
    "ce_lock (ents s5 a) = ce_lock (ents s4 a)" "ce_dirty (ents s5 a) = ce_dirty (ents s4 a)"
    "ce_clone (ents s5 a) = ce_clone (ents s4 a)" "ce_bsize (ents s5 a) = ce_bsize (ents s4 a)"
      by (auto simp: ce_key_def)
  qed
  have h5: "ht s5 = ht s4" "normal s5 = normal s4" "locked s5 = locked s4" "devs s5 = devs s4"
    by (subst s5, simp)+
  have old: "a \<in> set (take k (normal s))" if "a \<in> set use" "ce_dev (ents s4 a) \<noteq> -1" for a
    using that prepared_mem [OF p, of a] P(11) [of a] by blast
  have "\<exists>s6. settle_ents d b cur True use s5 = Some s6 \<and>
     s6 = s5\<lparr>ht := ht s6, ents := ents s6, normal := normal s5 @ drop cur use\<rparr> \<and>
     ht_wf (ht s6) \<and> ht_map (ht s6) = without (ht_map (ht s5)) (old_keys (ents s5) use) \<and>
     (\<forall>a. a \<notin> set use \<longrightarrow> ents s6 a = ents s5 a) \<and>
     (\<forall>i < length use. ents s6 (use ! i) =
        (if i < cur then ents s5 (use ! i) else rekey d (b + int i) (ents s5 (use ! i))))"
    by (rule settle_ents_good) (use h5 P(2,8) same5 old miss_old(7) [OF ctx] in auto)
  then obtain s6 where st: "settle_ents d b cur True use s5 = Some s6"
    and s6: "s6 = s5\<lparr>ht := ht s6, ents := ents s6, normal := normal s5 @ drop cur use\<rparr>"
    and h6: "ht_wf (ht s6)" "ht_map (ht s6) = without (ht_map (ht s4)) (old_keys (ents s5) use)"
    and o6: "\<And>a. a \<notin> set use \<Longrightarrow> ents s6 a = ents s5 a"
    and u6: "\<And>i. i < need \<Longrightarrow> ents s6 (use ! i) =
        (if i < cur then ents s5 (use ! i) else rekey d (b + int i) (ents s5 (use ! i)))"
    unfolding h5 P(1) by blast
  have x6: "ents s6 a = ents s4 a" if "a \<notin> set use" for a using o6 o5 that by simp
  have "ce_lock (ents s6 a) = 0" if "a \<in> set extra" for a
    using x6 [of a] P(4) P(14) [of a] that by auto
  note rt = return_ents_good [OF P(3) this]
  define s7 where "s7 = s6\<lparr>ents := (\<lambda>a. if a \<in> set extra then (ents s6 a)\<lparr>ce_busy := False\<rparr> else ents s6 a),
     normal := rev extra @ normal s6\<rparr>"
  have use7: "ents s7 (use ! i) = ents s6 (use ! i)" if "i < need" for i
    using that P(1) P(4) [of "use ! i"] by (auto simp: s7_def)
  have dcur: "distinct (take cur use)" using P(2) by simp
  have lc: "length (take cur use) = cur" using cur(2) P(1) by simp
  obtain s8 where fin: "finish_ents d b nul (bs d) op (take cur use) rest s7 =
      (concat (map (\<lambda>i. op_data op (bs d) (take (nat (bs d)) (drop (i * nat (bs d)) rest))
         (ce_data (ents s7 (take cur use ! i)))) [0..<cur]), s8)"
    and s8: "s8 = s7\<lparr>ents := ents s8, normal := normal s7 @ (if CACHE_LOCKED op then [] else take cur use),
            locked := locked s7 @ (if CACHE_LOCKED op then take cur use else [])\<rparr>"
    and o8: "\<And>a. a \<notin> set (take cur use) \<Longrightarrow> ents s8 a = ents s7 a"
    and t8: "\<And>i. i < cur \<Longrightarrow> ents s8 (take cur use ! i) = fresh_ent d (b + int i) (bs d)
        (op_data op (bs d) (take (nat (bs d)) (drop (i * nat (bs d)) rest)) (ce_data (ents s7 (take cur use ! i))))
        (\<not> CACHE_READ op) (if CACHE_LOCKED op then 1 else 0) (ents s7 (take cur use ! i))"
    using finish_ents_good [OF op dcur, of d b "bs d" rest s7] unfolding lc by blast
  have u8: "ents s8 (use ! i) = fresh_ent d (b + int i) (bs d)
        (op_data op (bs d) (take (nat (bs d)) (drop (i * nat (bs d)) rest)) (ce_data (ents s7 (use ! i))))
        (\<not> CACHE_READ op) (if CACHE_LOCKED op then 1 else 0) (ents s7 (use ! i))" if "i < cur" for i
    using t8 [OF that] that by simp
  have d7: "op_data op (bs d) (take (nat (bs d)) (drop (i * nat (bs d)) rest)) (ce_data (ents s7 (use ! i))) = val i"
    if "i < cur" for i
    using that cur(2) use7 [of i] u6 [of i] u5 [of i] by (auto simp: val_def op_data_def)
  have out: "concat (map (\<lambda>i. op_data op (bs d) (take (nat (bs d)) (drop (i * nat (bs d)) rest))
         (ce_data (ents s7 (take cur use ! i)))) [0..<cur]) = concat (map val [0..<cur])"
    by (rule arg_cong [of _ _ concat], rule map_cong) (simp_all add: d7)
  have "miss_transfer d b nul rest cur (bs d) op use extra s4 =
      Some (0, cur, concat (map val [0..<cur]), Some (last (take cur use)), s8)"
  proof -
    have "\<not> (nul \<and> cur \<noteq> 1)" using cur(4) by blast
    then show ?thesis using rd st rt fin out
      by (simp only: miss_transfer_def s7_def [symmetric] bind.bind_lunit prod.case simp_thms if_False Let_def)
  qed
  moreover have "installed bs d b cur (CACHE_LOCKED op) val m k use extra s s4 s8"
    unfolding installed_def
  proof (intro conjI)
    obtain e5 e6 h6' e8 where f: "s5 = s4\<lparr>ents := e5\<rparr>"
      "s6 = s5\<lparr>ht := h6', ents := e6, normal := normal s5 @ drop cur use\<rparr>"
      "s8 = s7\<lparr>ents := e8, normal := normal s7 @ (if CACHE_LOCKED op then [] else take cur use),
            locked := locked s7 @ (if CACHE_LOCKED op then take cur use else [])\<rparr>"
      using s5 s6 s8 by blast
    then show "s8 = s4\<lparr>ents := ents s8, ht := ht s8, normal := normal s8, locked := locked s8\<rparr>"
      by (auto simp: s7_def intro!: block_cache.equality)
    show "normal s8 = rev extra @ drop k (normal s) @ drop cur use @
        (if CACHE_LOCKED op then [] else take cur use)" using f F(1) by (simp add: s7_def)
    show "locked s8 = locked s @ (if CACHE_LOCKED op then take cur use else [])"
      using f F(2) by (simp add: s7_def)
    have "ht s8 = ht s6" using f by (simp add: s7_def)
    moreover have "old_keys (ents s5) use = old_keys (ents s4) use"
      by (simp add: old_keys_def same5)
    ultimately show "ht_wf (ht s8)" "ht_map (ht s8) = without (ht_map (ht s4)) (old_keys (ents s4) use)"
      using h6 by simp_all
    have nt: "a \<notin> set (take cur use)" if "a \<notin> set use" for a using that by (metis in_set_takeD)
    show "\<forall>a. a \<notin> set (use @ extra) \<longrightarrow> ents s8 a = ents s a"
      using o8 nt x6 P(10) by (auto simp: s7_def)
    show "\<forall>a \<in> set extra. ents s8 a = (ents s4 a)\<lparr>ce_busy := False\<rparr>"
      using o8 nt x6 P(4) by (auto simp: s7_def)
    show "\<forall>i < length use. ce_key (ents s8 (use ! i)) = (d, b + int i) \<and> ce_bsize (ents s8 (use ! i)) = bs d \<and>
        ce_data (ents s8 (use ! i)) = val i \<and> length (val i) = nat (bs d) \<and>
        ce_clone (ents s8 (use ! i)) = None \<and> \<not> ce_busy (ents s8 (use ! i)) \<and>
        ce_lock (ents s8 (use ! i)) = (if i < cur \<and> CACHE_LOCKED op then 1 else 0) \<and>
        (\<not> ce_dirty (ents s8 (use ! i)) \<longrightarrow> blk_of bs (devs s4) d (b + int i) = val i)"
    proof (intro allI impI)
      fix i
      assume "i < length use"
      then have i: "i < need" by (simp add: P(1))
      note bl = blk_length [OF inv on [OF i] P(18)]
      show "ce_key (ents s8 (use ! i)) = (d, b + int i) \<and> ce_bsize (ents s8 (use ! i)) = bs d \<and>
        ce_data (ents s8 (use ! i)) = val i \<and> length (val i) = nat (bs d) \<and>
        ce_clone (ents s8 (use ! i)) = None \<and> \<not> ce_busy (ents s8 (use ! i)) \<and>
        ce_lock (ents s8 (use ! i)) = (if i < cur \<and> CACHE_LOCKED op then 1 else 0) \<and>
        (\<not> ce_dirty (ents s8 (use ! i)) \<longrightarrow> blk_of bs (devs s4) d (b + int i) = val i)"
      proof (cases "i < cur")
        case True
        have "i * nat (bs d) + nat (bs d) \<le> cur * nat (bs d)"
          using True by (metis Suc_leI add.commute mult_Suc mult_le_mono1)
        then have "length (val i) = nat (bs d)"
          using rest bl by (auto simp: val_def op_data_def)
        then show ?thesis using u8 [OF True] d7 [OF True] True
          by (auto simp: fresh_ent_def ce_key_def val_def op_data_def)
      next
        case False
        then have R: "CACHE_READ op" using cur(3) i by simp
        have "use ! i \<notin> set (take cur use)"
        proof
          assume "use ! i \<in> set (take cur use)"
          then obtain j where "j < cur" "use ! j = use ! i" "j < length use"
            by (auto simp: in_set_conv_nth)
          with False i P(1,2) show False by (simp add: nth_eq_iff_index_eq)
        qed
        with o8 use7 [OF i] u6 [OF i] u5 [OF i] False R
        have e: "ents s8 (use ! i) = rekey d (b + int i)
            ((ents s4 (use ! i))\<lparr>ce_data := blk_of bs (devs s4) d (b + int i)\<rparr>)" by simp
        have "use ! i \<in> set use" using i P(1) by simp
        with e R False bl P(14,15) [of "use ! i"] show ?thesis
          by (simp add: rekey_def ce_key_def val_def op_data_def)
      qed
    qed
  qed
  ultimately show thesis by (rule that)
qed

section \<open>The invariant again\<close>

lemma installedD:
  assumes "installed bs d b cur lk val m k use extra s s4 s'"
  shows "normal s' = rev extra @ drop k (normal s) @ drop cur use @ (if lk then [] else take cur use)"
    "locked s' = locked s @ (if lk then take cur use else [])" "ht_wf (ht s')"
    "ht_map (ht s') = without (ht_map (ht s4)) (old_keys (ents s4) use)"
    "\<And>a. a \<notin> set use \<Longrightarrow> a \<notin> set extra \<Longrightarrow> ents s' a = ents s a"
    "\<And>a. a \<in> set extra \<Longrightarrow> ents s' a = (ents s4 a)\<lparr>ce_busy := False\<rparr>"
    "\<And>i. i < length use \<Longrightarrow> ce_key (ents s' (use ! i)) = (d, b + int i) \<and>
        ce_bsize (ents s' (use ! i)) = bs d \<and>
        ce_data (ents s' (use ! i)) = val i \<and> length (val i) = nat (bs d) \<and>
        ce_clone (ents s' (use ! i)) = None \<and> \<not> ce_busy (ents s' (use ! i)) \<and>
        ce_lock (ents s' (use ! i)) = (if i < cur \<and> lk then 1 else 0) \<and>
        (\<not> ce_dirty (ents s' (use ! i)) \<longrightarrow> blk_of bs (devs s4) d (b + int i) = val i)"
  using assms unfolding installed_def by auto

lemma installed_fields:
  assumes "installed bs d b cur lk val m k use extra s s4 s'"
  shows "devs s' = devs s4" "next_addr s' = next_addr s4" "cur_blocks s' = cur_blocks s4"
    "max_blocks s' = max_blocks s4" "max_device_blocks s' = max_device_blocks s4"
    "iovec_pool s' = iovec_pool s4" "iovec_used s' = iovec_used s4" "mem_ok s' = mem_ok s4"
proof -
  obtain e h n l where "s' = s4\<lparr>ents := e, ht := h, normal := n, locked := l\<rparr>"
    using assms unfolding installed_def by blast
  then show "devs s' = devs s4" "next_addr s' = next_addr s4" "cur_blocks s' = cur_blocks s4"
    "max_blocks s' = max_blocks s4" "max_device_blocks s' = max_device_blocks s4"
    "iovec_pool s' = iovec_pool s4" "iovec_used s' = iovec_used s4" "mem_ok s' = mem_ok s4"
    by simp_all
qed

text \<open>Which entries are listed, and under which keys.\<close>

lemma miss_listed:
  assumes ctx: "miss_ctx bs d b need m k use extra s s4"
    and ins: "installed bs d b cur lk val m k use extra s s4 s'" and a: "a \<notin> set use" "a \<notin> set extra"
  shows "a \<in> set (normal s') \<longleftrightarrow> a \<in> set (normal s)" "a \<in> set (locked s') \<longleftrightarrow> a \<in> set (locked s)"
proof -
  have inv: "cache_inv bs s" and p: "prepared bs d b need m k use extra s s4"
    using ctx by (auto simp: miss_ctx_def)
  have nt: "a \<notin> set (take cur use)" "a \<notin> set (drop cur use)" "a \<notin> set (take k (normal s))"
    using a prepared_mem [OF p, of a] by (auto dest: in_set_takeD in_set_dropD)
  have "a \<in> set (normal s) \<longleftrightarrow> a \<in> set (take k (normal s)) \<or> a \<in> set (drop k (normal s))"
    by (metis Un_iff append_take_drop_id set_append)
  then show "a \<in> set (normal s') \<longleftrightarrow> a \<in> set (normal s)" using a nt installedD(1) [OF ins] by auto
  show "a \<in> set (locked s') \<longleftrightarrow> a \<in> set (locked s)" using nt installedD(2) [OF ins] by auto
qed

lemma miss_lists:
  assumes ctx: "miss_ctx bs d b need m k use extra s s4"
    and ins: "installed bs d b cur lk val m k use extra s s4 s'"
  shows "distinct (normal s' @ locked s')" "set use \<subseteq> listed s'" "set extra \<subseteq> set (normal s')"
    "int (length (normal s')) + int (length (locked s')) = cur_blocks s'"
proof -
  have inv: "cache_inv bs s" and p: "prepared bs d b need m k use extra s s4"
    using ctx by (auto simp: miss_ctx_def)
  note D = cache_invD [OF inv] and P = preparedD [OF p] and I = installedD [OF ins]
  let ?new = "{next_addr s ..< next_addr s + m}"
  have split: "distinct (take k (normal s) @ drop k (normal s))" using D(2) by simp
  have uo: "a \<notin> set (drop k (normal s)) \<and> a \<notin> set (locked s)" if "a \<in> set use \<union> set extra" for a
  proof (cases "a \<in> set (take k (normal s))")
    case True
    then have "a \<notin> set (drop k (normal s))" using split unfolding distinct_append by blast
    moreover have "a \<notin> set (locked s)" using in_set_takeD [OF True] D(4) by blast
    ultimately show ?thesis ..
  next
    case False
    then have "next_addr s \<le> a" using that prepared_mem [OF p, of a] by auto
    then have "a \<notin> listed s" using D(8) leD by blast
    then show ?thesis by (auto simp: listed_def dest: in_set_dropD)
  qed
  have td: "distinct (take cur use @ drop cur use)" using P(2) by simp
  have "set (drop k (normal s)) \<inter> set (locked s) = {}" using D(4) set_drop_subset by fastforce
  moreover have tdd: "set (take cur use) \<inter> set (drop cur use) = {}" using td unfolding distinct_append by blast
  moreover have sub: "set (take cur use) \<subseteq> set use" "set (drop cur use) \<subseteq> set use"
    by (auto dest: in_set_takeD in_set_dropD)
  have dx: "set extra \<inter> set use = {}" using P(4) by blast
  moreover have "distinct (drop k (normal s))" using D(2) by simp
  ultimately show "distinct (normal s' @ locked s')"
    unfolding I(1,2) using P(3) D(3) td sub uo by (auto simp: disjoint_iff)
  show "set use \<subseteq> listed s'"
  proof
    fix a
    assume "a \<in> set use"
    then have "a \<in> set (take cur use) \<or> a \<in> set (drop cur use)"
      by (metis Un_iff append_take_drop_id set_append)
    then show "a \<in> listed s'" unfolding listed_def I(1,2) by auto
  qed
  show "set extra \<subseteq> set (normal s')" unfolding I(1) by auto
  have ne: "?new \<inter> set (take k (normal s)) = {}"
    using miss_old(3) [OF ctx] by force
  have "length use + length extra = card (set use \<union> set extra)"
    using P(2,3) dx by (simp add: card_Un_disjoint distinct_card Int_commute)
  also have "\<dots> = card ?new + card (set (take k (normal s)))"
    unfolding P(6) by (rule card_Un_disjoint) (use ne in auto)
  also have "\<dots> = m + k" using D(2) P(5) by (simp add: distinct_card)
  finally have "length use + length extra = m + k" .
  then show "int (length (normal s')) + int (length (locked s')) = cur_blocks s'"
    using D(12) P(5) prepared_fields(4) [OF p] installed_fields(3) [OF ins]
    unfolding I(1,2) by (cases "cur \<le> length use") (auto simp: min_def)
qed

end
