(* ===== verification/Cache_Serve.thy ===== *)
theory Cache_Serve
  imports Cache_Install
begin

text \<open>
  After a miss the invariant holds again and every block of every device looks as it did, but for
  the blocks the request wrote.
\<close>

section \<open>The table after a miss\<close>

lemma miss_old_keys:
  assumes ctx: "miss_ctx bs d b need m k use extra s s4"
  shows "q \<in> old_keys (ents s4) use \<longleftrightarrow>
    (\<exists>a \<in> set use. a \<in> set (take k (normal s)) \<and> ce_key (ents s a) = q)"
proof -
  have p: "prepared bs d b need m k use extra s s4" using ctx by (simp add: miss_ctx_def)
  have "ce_dev (ents s4 a) \<noteq> -1 \<longleftrightarrow> a \<in> set (take k (normal s))" if "a \<in> set use" for a
    using that prepared_mem [OF p, of a] preparedD(11) [OF p, of a] miss_old(6) [OF ctx, of a] by blast
  moreover have "ce_key (ents s4 a) = ce_key (ents s a)" if "a \<in> set (take k (normal s))" for a
    by (rule miss_old(8) [OF ctx that])
  ultimately show ?thesis unfolding old_keys_def by (auto, metis+)
qed

lemma miss_new_key:
  assumes ctx: "miss_ctx bs d b need m k use extra s s4" and a: "a \<in> listed s"
  shows "\<not> (ce_dev (ents s a) = d \<and> b \<le> block_num (ents s a) \<and> block_num (ents s a) < b + int need)"
proof
  assume h: "ce_dev (ents s a) = d \<and> b \<le> block_num (ents s a) \<and> block_num (ents s a) < b + int need"
  then have "nat (block_num (ents s a) - b) < need"
    "block_num (ents s a) = b + int (nat (block_num (ents s a) - b))" by auto
  moreover have inv: "cache_inv bs s" and free: "\<forall>j < need. ht_map (ht s) (d, b + int j) = None"
    using ctx by (simp_all add: miss_ctx_def)
  ultimately have "ht_map (ht s) (ce_key (ents s a)) = None" using h unfolding ce_key_def by metis
  with cache_invD(5) [OF inv, of "ce_key (ents s a)" a] a show False by simp
qed

lemma miss_map:
  assumes ctx: "miss_ctx bs d b need m k use extra s s4"
    and ins: "installed bs d b cur lk val m k use extra s s4 s'"
  shows "ht_map (ht s') (d', c) =
    (if d' = d \<and> b \<le> c \<and> c < b + int need then Some (use ! nat (c - b))
     else if \<exists>a \<in> set use. a \<in> set (take k (normal s)) \<and> ce_key (ents s a) = (d', c) then None
     else ht_map (ht s) (d', c))"
proof -
  have p: "prepared bs d b need m k use extra s s4" using ctx by (simp add: miss_ctx_def)
  have "\<not> (d' = d \<and> b \<le> c \<and> c < b + int need)"
    if "a \<in> set (take k (normal s))" "ce_key (ents s a) = (d', c)" for a
    using miss_new_key [OF ctx miss_old(2) [OF ctx that(1)]] that(2) by (auto simp: ce_key_def)
  then show ?thesis
    unfolding installedD(4) [OF ins] without_def miss_old_keys [OF ctx] preparedD(9) [OF p] ins_run_apply
    using preparedD(1) [OF p] by auto
qed

text \<open>The entries on the lists are those of the request, those put back, and those not touched.\<close>

lemma miss_listed_iff:
  assumes ctx: "miss_ctx bs d b need m k use extra s s4"
    and ins: "installed bs d b cur lk val m k use extra s s4 s'"
  shows "a \<in> listed s' \<longleftrightarrow> a \<in> set use \<or> a \<in> listed s"
proof (cases "a \<in> set use \<or> a \<in> set extra")
  case True
  have p: "prepared bs d b need m k use extra s s4" using ctx by (simp add: miss_ctx_def)
  have "a \<in> set extra \<Longrightarrow> a \<in> listed s" using preparedD(7) [OF p] miss_old(2) [OF ctx] by blast
  moreover have "a \<in> listed s'" using True miss_lists(2,3) [OF ctx ins] by (auto simp: listed_def)
  ultimately show ?thesis using True by blast
next
  case False
  with miss_listed [OF ctx ins, of a] show ?thesis by (simp add: listed_def)
qed

lemma miss_key:
  assumes ctx: "miss_ctx bs d b need m k use extra s s4"
    and ins: "installed bs d b cur lk val m k use extra s s4 s'"
    and a: "a \<in> listed s" "a \<notin> set use"
  shows "ce_key (ents s' a) = ce_key (ents s a)" "ce_data (ents s' a) = ce_data (ents s a)"
    "ce_bsize (ents s' a) = ce_bsize (ents s a)" "\<not> ce_busy (ents s' a)"
    "ce_clone (ents s' a) = None \<or> ents s' a = ents s a"
proof -
  have p: "prepared bs d b need m k use extra s s4" and inv: "cache_inv bs s"
    using ctx by (simp_all add: miss_ctx_def)
  note P = preparedD [OF p] and I = installedD [OF ins]
  have "ce_key (ents s' a) = ce_key (ents s a) \<and> ce_data (ents s' a) = ce_data (ents s a) \<and>
    ce_bsize (ents s' a) = ce_bsize (ents s a) \<and> \<not> ce_busy (ents s' a) \<and>
    (ce_clone (ents s' a) = None \<or> ents s' a = ents s a)"
  proof (cases "a \<in> set extra")
    case True
    then have "a \<in> set (take k (normal s))" using P(7) by blast
    then show ?thesis using I(6) [OF True] P(14) [of a] P(16) [OF True] miss_old(8) [OF ctx, of a] True
      by (simp add: ce_key_def)
  next
    case False
    with I(5) a cache_invD(7) [OF inv a(1)] show ?thesis by simp
  qed
  then show "ce_key (ents s' a) = ce_key (ents s a)" "ce_data (ents s' a) = ce_data (ents s a)"
    "ce_bsize (ents s' a) = ce_bsize (ents s a)" "\<not> ce_busy (ents s' a)"
    "ce_clone (ents s' a) = None \<or> ents s' a = ents s a" by blast+
qed

lemma miss_map_iff:
  assumes ctx: "miss_ctx bs d b need m k use extra s s4"
    and ins: "installed bs d b cur lk val m k use extra s s4 s'"
  shows "ht_map (ht s') q = Some a \<longleftrightarrow> a \<in> listed s' \<and> ce_key (ents s' a) = q"
proof -
  have p: "prepared bs d b need m k use extra s s4" and inv: "cache_inv bs s"
    using ctx by (simp_all add: miss_ctx_def)
  note P = preparedD [OF p] and I = installedD [OF ins] and M = miss_map [OF ctx ins]
  obtain d' c where q: "q = (d', c)" by fastforce
  show ?thesis
  proof (cases "a \<in> set use")
    case True
    then obtain i where i: "i < need" "a = use ! i" using P(1) by (metis in_set_conv_nth)
    then have key: "ce_key (ents s' a) = (d, b + int i)" using I(7) P(1) by simp
    have l: "a \<in> listed s'" using True miss_listed_iff [OF ctx ins] by blast
    show ?thesis
    proof
      assume h: "ht_map (ht s') q = Some a"
      show "a \<in> listed s' \<and> ce_key (ents s' a) = q"
      proof (cases "d' = d \<and> b \<le> c \<and> c < b + int need")
        case True
        with h M [of d' c] have "use ! nat (c - b) = use ! i" "nat (c - b) < need" by (auto simp: q i)
        then have "nat (c - b) = i" using P(1,2) i(1) by (simp add: nth_eq_iff_index_eq)
        with True l key show ?thesis by (auto simp: q)
      next
        case False
        with h M [of d' c] have hs: "ht_map (ht s) q = Some a"
          and no: "\<not> (\<exists>a \<in> set use. a \<in> set (take k (normal s)) \<and> ce_key (ents s a) = q)"
          by (auto simp: q split: if_splits)
        have "a \<in> listed s" "ce_key (ents s a) = q" using hs cache_invD(5) [OF inv] by auto
        moreover have "a < next_addr s" using cache_invD(8) [OF inv] calculation(1) by blast
        ultimately have "a \<in> set (take k (normal s))"
          using prepared_mem [OF p, of a] \<open>a \<in> set use\<close> by auto
        with no \<open>a \<in> set use\<close> \<open>ce_key (ents s a) = q\<close> show ?thesis by blast
      qed
    next
      assume "a \<in> listed s' \<and> ce_key (ents s' a) = q"
      with key show "ht_map (ht s') q = Some a" using M [of d' c] i by (auto simp: q)
    qed
  next
    case False
    have lq: "a \<in> listed s' \<longleftrightarrow> a \<in> listed s" using miss_listed_iff [OF ctx ins] False by blast
    have "ht_map (ht s') q = Some a \<longleftrightarrow> ht_map (ht s) q = Some a"
    proof (cases "d' = d \<and> b \<le> c \<and> c < b + int need")
      case True
      then have "use ! nat (c - b) \<in> set use" using P(1) by (intro nth_mem) auto
      moreover have "ht_map (ht s) q \<noteq> Some a"
        using cache_invD(5) [OF inv, of q a] miss_new_key [OF ctx, of a] True by (auto simp: q ce_key_def)
      ultimately show ?thesis using M [of d' c] True False by (auto simp: q)
    next
      case nk: False
      have "ht_map (ht s) q \<noteq> Some a" if "x \<in> set use" "x \<in> set (take k (normal s))" "ce_key (ents s x) = q" for x
        using that miss_old(5) [OF ctx that(2)] False by auto
      then show ?thesis using M [of d' c] nk by (auto simp: q)
    qed
    also have "\<dots> \<longleftrightarrow> a \<in> listed s \<and> ce_key (ents s a) = q" by (rule cache_invD(5) [OF inv])
    also have "\<dots> \<longleftrightarrow> a \<in> listed s' \<and> ce_key (ents s' a) = q" using lq miss_key(1) [OF ctx ins _ False] by auto
    finally show ?thesis .
  qed
qed


section \<open>Invariant and view after a miss\<close>

lemma miss_disk:
  assumes ctx: "miss_ctx bs d b need m k use extra s s4"
    and a: "a \<in> listed s" "a \<notin> set (take k (normal s))"
  shows "blk_of bs (devs s4) (ce_dev (ents s a)) (block_num (ents s a)) = ent_blk bs s a"
proof -
  have p: "prepared bs d b need m k use extra s s4" and inv: "cache_inv bs s"
    using ctx by (simp_all add: miss_ctx_def)
  have "on_device s (ce_dev (ents s a)) (block_num (ents s a))"
    using cache_invD(6) [OF inv a(1)] by (simp add: on_device_def sound_ent_def)
  moreover have "ce_key (ents s x) \<noteq> (ce_dev (ents s a), block_num (ents s a))"
    if "x \<in> set (take k (normal s))" for x
    using cache_inv_key_inj [OF inv miss_old(2) [OF ctx that] a(1)] a(2) that by (auto simp: ce_key_def)
  ultimately show ?thesis using preparedD(17) [OF p] by blast
qed

lemma miss_settled:
  assumes ctx: "miss_ctx bs d b need m k use extra s s4"
    and ins: "installed bs d b cur lk val m k use extra s s4 s'" and a: "a \<in> set (normal s')"
  shows "ce_lock (ents s' a) = 0 \<and> settled (ents s' a) (ent_blk bs s' a)"
proof -
  have p: "prepared bs d b need m k use extra s s4" and inv: "cache_inv bs s"
    using ctx by (simp_all add: miss_ctx_def)
  note P = preparedD [OF p] and I = installedD [OF ins]
  have dv: "devs s' = devs s4" by (rule installed_fields(1) [OF ins])
  consider "a \<in> set use" | "a \<in> set extra" "a \<notin> set use" | "a \<notin> set use" "a \<notin> set extra" by blast
  then show ?thesis
  proof cases
    case 1
    then obtain i where i: "i < length use" "a = use ! i" by (metis in_set_conv_nth)
    have "\<not> (i < cur \<and> lk)"
    proof
      assume h: "i < cur \<and> lk"
      then have "a \<in> set (locked s')" using i unfolding I(2) by (auto simp: in_set_conv_nth)
      with a miss_lists(1) [OF ctx ins] show False by auto
    qed
    then show ?thesis using I(7) [OF i(1)] i(2) dv by (auto simp: settled_def ce_key_def)
  next
    case 2
    then have t: "a \<in> set (take k (normal s))" using P(7) by blast
    have "ent_blk bs s' a = ce_data (ents s' a)"
      using P(13) [OF t] miss_key(1,2) [OF ctx ins miss_old(2) [OF ctx t] 2(2)] dv by (simp add: ce_key_def)
    moreover have "ce_lock (ents s' a) = 0" "ce_clone (ents s' a) = None"
      using I(6) [OF 2(1)] P(14) [of a] 2 by auto
    ultimately show ?thesis by (simp add: settled_def)
  next
    case 3
    then have n: "a \<in> set (normal s)" "ents s' a = ents s a"
      using a miss_listed(1) [OF ctx ins] I(5) by blast+
    have "a \<notin> set (take k (normal s))" using 3 prepared_mem [OF p, of a] by blast
    then have "ent_blk bs s' a = ent_blk bs s a"
      using miss_disk [OF ctx, of a] n dv by (simp add: listed_def)
    then show ?thesis using cache_invD(9,10) [OF inv n(1)] n(2) by simp
  qed
qed

lemma miss_sound:
  assumes ctx: "miss_ctx bs d b need m k use extra s s4"
    and ins: "installed bs d b cur lk val m k use extra s s4 s'" and a: "a \<in> listed s'"
  shows "sound_ent bs s' (ents s' a)" "\<not> ce_busy (ents s' a)" "a < next_addr s'"
proof -
  have p: "prepared bs d b need m k use extra s s4" and inv: "cache_inv bs s"
    and b: "0 \<le> b" "b + int need \<le> max_device_blocks s d"
    using ctx by (simp_all add: miss_ctx_def)
  note P = preparedD [OF p] and I = installedD [OF ins] and D = cache_invD [OF inv]
  have dv: "devs s' = devs s4" "max_device_blocks s' = max_device_blocks s" "next_addr s' = next_addr s + m"
    using installed_fields [OF ins] prepared_fields [OF p] by simp_all
  note sh = dev_ok_shape [OF P(18)]
  have "sound_ent bs s' (ents s' a) \<and> \<not> ce_busy (ents s' a) \<and> a < next_addr s'"
  proof (cases "a \<in> set use")
    case True
    then obtain i where i: "i < length use" "a = use ! i" by (metis in_set_conv_nth)
    have "0 < max_device_blocks s d" "b + int i < max_device_blocks s d" using b i P(1) by auto
    then have "sound_ent bs s' (ents s' a)" "\<not> ce_busy (ents s' a)" using D(15) b(1) I(7) [OF i(1)] i(2) dv sh
      by (auto simp: sound_ent_def devs_ok_def ce_key_def)
    moreover have "a < next_addr s'"
      using True prepared_mem [OF p, of a] miss_old(3) [OF ctx, of a] dv(3) by auto
    ultimately show ?thesis by blast
  next
    case False
    then have l: "a \<in> listed s" using a miss_listed_iff [OF ctx ins] by blast
    note k = miss_key [OF ctx ins l False]
    have "sound_ent bs s' (ents s' a)"
      using D(6) [OF l] k(1-3,5) dv sh by (auto simp: sound_ent_def ce_key_def)
    then show ?thesis using k(4) D(8) [OF l] dv(3) by simp
  qed
  then show "sound_ent bs s' (ents s' a)" "\<not> ce_busy (ents s' a)" "a < next_addr s'" by blast+
qed

lemma miss_inv:
  assumes ctx: "miss_ctx bs d b need m k use extra s s4"
    and ins: "installed bs d b cur lk val m k use extra s s4 s'"
  shows "cache_inv bs s'"
proof -
  have p: "prepared bs d b need m k use extra s s4" and inv: "cache_inv bs s"
    using ctx by (simp_all add: miss_ctx_def)
  note P = preparedD [OF p] and I = installedD [OF ins] and D = cache_invD [OF inv]
    and F = installed_fields [OF ins] prepared_fields [OF p]
  have "0 < ce_lock (ents s' a)" if "a \<in> set (locked s')" for a
  proof (cases "a \<in> set (locked s)")
    case True
    then have l: "a \<in> listed s" by (simp add: listed_def)
    have "a \<notin> set (take k (normal s))" using True D(4) in_set_takeD by fastforce
    then have "a \<notin> set use" "a \<notin> set extra" using D(8) [OF l] prepared_mem [OF p, of a] by auto
    with I(5) D(11) [OF True] show ?thesis by simp
  next
    case False
    with that have "a \<in> set (take cur use)" lk unfolding I(2) by (auto split: if_splits)
    then obtain i where "i < cur" "i < length use" "a = use ! i" by (auto simp: in_set_conv_nth)
    with I(7) \<open>lk\<close> show ?thesis by simp
  qed
  moreover have "devs_ok bs s'" using D(15) dev_ok_shape [OF P(18)] F by (simp add: devs_ok_def)
  moreover have "iovecs_idle s'" using D(14) F by (simp add: iovecs_idle_def)
  moreover have "mem_ok s'" using D(13) F by simp
  ultimately show ?thesis
    unfolding cache_inv_def
    using I(3) miss_lists(1,4) [OF ctx ins] miss_map_iff [OF ctx ins] miss_sound [OF ctx ins]
      miss_settled [OF ctx ins] by simp
qed

lemma miss_view:
  assumes ctx: "miss_ctx bs d b need m k use extra s s4"
    and ins: "installed bs d b cur lk val m k use extra s s4 s'" and on: "on_device s d' c"
  shows "view bs s' d' c = (if d' = d \<and> b \<le> c \<and> c < b + int need then val (nat (c - b)) else view bs s d' c)"
proof -
  have p: "prepared bs d b need m k use extra s s4" and inv: "cache_inv bs s"
    using ctx by (simp_all add: miss_ctx_def)
  note P = preparedD [OF p] and I = installedD [OF ins] and M = miss_map [OF ctx ins, of d' c]
  have dv: "devs s' = devs s4" by (rule installed_fields(1) [OF ins])
  consider "d' = d \<and> b \<le> c \<and> c < b + int need"
    | a where "\<not> (d' = d \<and> b \<le> c \<and> c < b + int need)" "a \<in> set (take k (normal s))"
        "ce_key (ents s a) = (d', c)"
    | "\<not> (d' = d \<and> b \<le> c \<and> c < b + int need)"
        "\<forall>a \<in> set (take k (normal s)). ce_key (ents s a) \<noteq> (d', c)" by blast
  then show ?thesis
  proof cases
    case 1
    moreover have "nat (c - b) < length use" using 1 P(1) by auto
    ultimately show ?thesis using M I(7) by (simp add: view_def)
  next
    case 2
    have hs: "ht_map (ht s) (d', c) = Some a" using miss_old(5) [OF ctx 2(2)] 2(3) by simp
    have "view bs s' d' c = ce_data (ents s a)"
    proof (cases "\<exists>a \<in> set use. a \<in> set (take k (normal s)) \<and> ce_key (ents s a) = (d', c)")
      case True
      then have "ht_map (ht s') (d', c) = None" using M by (simp only: 2(1) if_False if_True)
      then show ?thesis using P(13) [OF 2(2)] 2(3) dv by (simp add: view_def ce_key_def)
    next
      case False
      then have "ht_map (ht s') (d', c) = Some a" "a \<notin> set use" using M hs 2
        by (simp only: if_False) (use False 2 in blast)
      then show ?thesis using miss_key(2) [OF ctx ins miss_old(2) [OF ctx 2(2)]] by (simp add: view_def)
    qed
    with hs 2(1) show ?thesis by (auto simp: view_def)
  next
    case 3
    then have m: "ht_map (ht s') (d', c) = ht_map (ht s) (d', c)" using M by auto
    show ?thesis
    proof (cases "ht_map (ht s) (d', c)")
      case None
      with m P(17) [OF on 3(2)] dv 3(1) show ?thesis by (auto simp: view_def)
    next
      case (Some a)
      note l = cache_inv_lookup [OF inv Some]
      have "a \<notin> set (take k (normal s))" using 3(2) l by (auto simp: ce_key_def)
      then have "a \<notin> set use" using cache_invD(8) [OF inv l(1)] prepared_mem [OF p, of a] by auto
      with Some 3 m miss_key(2) [OF ctx ins l(1)] show ?thesis by (auto simp: view_def)
    qed
  qed
qed

end
