(* ===== verification/Cache_Loop.thy ===== *)
theory Cache_Loop
  imports Cache_Serve
begin

text \<open>
  What a request through \<open>cache_block_io\<close> does, as the client sees it: the contents of every block,
  how often each block is pinned, and where the pinned blocks are.
\<close>

section \<open>Pins\<close>

definition pins :: "block_cache \<Rightarrow> int \<Rightarrow> fs_off_t \<Rightarrow> int" where
  "pins s d b = (case ht_map (ht s) (d, b) of Some a \<Rightarrow> ce_lock (ents s a) | None \<Rightarrow> 0)"

text \<open>A block that was changed through a pointer and not yet marked.\<close>

definition stale :: "(int \<Rightarrow> int) \<Rightarrow> block_cache \<Rightarrow> int \<Rightarrow> fs_off_t \<Rightarrow> bool" where
  "stale bs s d b = (case ht_map (ht s) (d, b) of
     Some a \<Rightarrow> \<not> settled (ents s a) (ent_blk bs s a) | None \<Rightarrow> False)"

lemma pins_nonneg: "cache_inv bs s \<Longrightarrow> 0 \<le> pins s d b"
  using cache_inv_lookup(1) [of bs s d b] cache_invD(9,11) [of bs s]
  by (fastforce simp: pins_def listed_def split: option.split)

lemma pinned_locked:
  assumes inv: "cache_inv bs s"
  shows "0 < pins s d b \<longleftrightarrow> (\<exists>a \<in> set (locked s). ht_map (ht s) (d, b) = Some a)"
proof (cases "ht_map (ht s) (d, b)")
  case (Some a)
  then show ?thesis using cache_inv_lookup(1) [OF inv Some] cache_invD(9,11) [OF inv, of a]
    by (auto simp: pins_def listed_def)
qed (simp add: pins_def)

lemma stale_pinned: "cache_inv bs s \<Longrightarrow> stale bs s d b \<Longrightarrow> 0 < pins s d b"
  using cache_inv_lookup(1) [of bs s d b] cache_invD(10) [of bs s]
  by (fastforce simp: pinned_locked stale_def listed_def split: option.splits)

section \<open>The result of a request\<close>

definition io_val :: "(int \<Rightarrow> int) \<Rightarrow> cache_op \<Rightarrow> int \<Rightarrow> fs_off_t \<Rightarrow> byte list \<Rightarrow> block_cache \<Rightarrow> nat \<Rightarrow> byte list" where
  "io_val bs op d b buf s i =
     op_data op (bs d) (take (nat (bs d)) (drop (i * nat (bs d)) buf)) (view bs s d (b + int i))"

definition in_run :: "int \<Rightarrow> fs_off_t \<Rightarrow> nat \<Rightarrow> int \<Rightarrow> fs_off_t \<Rightarrow> bool" where
  "in_run d b n d' c \<longleftrightarrow> d' = d \<and> b \<le> c \<and> c < b + int n"

definition served ::
  "(int \<Rightarrow> int) \<Rightarrow> cache_op \<Rightarrow> int \<Rightarrow> fs_off_t \<Rightarrow> byte list \<Rightarrow> nat \<Rightarrow> block_cache \<Rightarrow> block_cache \<Rightarrow> bool" where
  "served bs op d b buf n s s' \<longleftrightarrow> cache_inv bs s' \<and> max_blocks s' = max_blocks s \<and>
     max_device_blocks s' = max_device_blocks s \<and>
     (\<forall>d' c. on_device s d' c \<longrightarrow> view bs s' d' c =
        (if in_run d b n d' c then io_val bs op d b buf s (nat (c - b)) else view bs s d' c)) \<and>
     (\<forall>d' c. pins s' d' c = pins s d' c + (if CACHE_LOCKED op \<and> in_run d b n d' c then 1 else 0)) \<and>
     (\<forall>d' c. 0 < pins s d' c \<longrightarrow> ht_map (ht s') (d', c) = ht_map (ht s) (d', c)) \<and>
     (\<forall>d' c. stale bs s' d' c \<longrightarrow> stale bs s d' c) \<and>
     length (locked s') \<le> length (locked s) + (if CACHE_LOCKED op then n else 0) \<and>
     (\<forall>d' c. ht_map (ht s) (d', c) = None \<and> (d' = d \<longrightarrow> c < b) \<longrightarrow> ht_map (ht s') (d', c) = None)"

lemma servedD:
  assumes "served bs op d b buf n s s'"
  shows "cache_inv bs s'" "max_blocks s' = max_blocks s" "max_device_blocks s' = max_device_blocks s"
    "\<And>d' c. on_device s d' c \<Longrightarrow> view bs s' d' c =
        (if in_run d b n d' c then io_val bs op d b buf s (nat (c - b)) else view bs s d' c)"
    "\<And>d' c. pins s' d' c = pins s d' c + (if CACHE_LOCKED op \<and> in_run d b n d' c then 1 else 0)"
    "\<And>d' c. 0 < pins s d' c \<Longrightarrow> ht_map (ht s') (d', c) = ht_map (ht s) (d', c)"
    "\<And>d' c. stale bs s' d' c \<Longrightarrow> stale bs s d' c"
    "length (locked s') \<le> length (locked s) + (if CACHE_LOCKED op then n else 0)"
    "\<And>d' c. ht_map (ht s) (d', c) = None \<Longrightarrow> (d' = d \<Longrightarrow> c < b) \<Longrightarrow> ht_map (ht s') (d', c) = None"
  using assms unfolding served_def by blast+

lemma served_refl: "cache_inv bs s \<Longrightarrow> served bs op d b buf 0 s s"
  by (auto simp: served_def in_run_def)

lemma in_run_split:
  "in_run d b (m + n) d' c \<longleftrightarrow> in_run d b m d' c \<or> in_run d (b + int m) n d' c"
  "in_run d b m d' c \<Longrightarrow> \<not> in_run d (b + int m) n d' c"
  by (auto simp: in_run_def)

lemma in_run_index: "in_run d (b + int m) n d' c \<Longrightarrow> nat (c - b) = m + nat (c - (b + int m))"
  by (auto simp: in_run_def)

lemma served_trans:
  assumes 1: "served bs op d b buf m s s1" and 2: "served bs op d (b + int m) (drop (m * nat (bs d)) buf) n s1 s2"
  shows "served bs op d b buf (m + n) s s2"
proof -
  note A = servedD [OF 1] and B = servedD [OF 2]
  have on: "on_device s1 d' c = on_device s d' c" for d' c by (simp add: on_device_def A(3))
  have v: "view bs s2 d' c = (if in_run d b (m + n) d' c then io_val bs op d b buf s (nat (c - b))
      else view bs s d' c)" if o: "on_device s d' c" for d' c
  proof (cases "in_run d (b + int m) n d' c")
    case True
    then have "d' = d" and c: "b + int m + int (nat (c - (b + int m))) = c"
      "b + int (m + nat (c - (b + int m))) = c" by (auto simp: in_run_def)
    have "view bs s1 d c = view bs s d c"
      using A(4) [of d c] o \<open>d' = d\<close> True in_run_split(2) [of d b m d c n] by auto
    then have "io_val bs op d (b + int m) (drop (m * nat (bs d)) buf) s1 (nat (c - (b + int m))) =
        io_val bs op d b buf s (nat (c - b))"
      unfolding io_val_def in_run_index [OF True] c by (simp add: add_mult_distrib add.commute)
    with B(4) [of d' c] o on True show ?thesis by (simp add: in_run_split(1))
  next
    case False
    with B(4) [of d' c] A(4) [of d' c] o on show ?thesis by (simp add: in_run_split(1))
  qed
  have p: "pins s2 d' c = pins s d' c + (if CACHE_LOCKED op \<and> in_run d b (m + n) d' c then 1 else 0)" for d' c
    using A(5) [of d' c] B(5) [of d' c] in_run_split(1) [of d b m n d' c] in_run_split(2) [of d b m d' c n] by auto
  have h: "ht_map (ht s2) (d', c) = ht_map (ht s) (d', c)" if "0 < pins s d' c" for d' c
    using A(6) [OF that] B(6) [of d' c] A(5) [of d' c] that by (simp split: if_splits)
  have st: "stale bs s d' c" if "stale bs s2 d' c" for d' c using A(7) B(7) that by blast
  have l: "length (locked s2) \<le> length (locked s) + (if CACHE_LOCKED op then m + n else 0)"
    using A(8) B(8) by (auto split: if_splits)
  have no: "ht_map (ht s2) (d', c) = None" if "ht_map (ht s) (d', c) = None" "d' = d \<longrightarrow> c < b" for d' c
    by (rule B(9) [OF A(9)]) (use that in auto)
  show ?thesis unfolding served_def using A(2,3) B(1,2,3) v p h st l no by simp
qed

section \<open>One step of the loop\<close>

lemma served_hit:
  assumes inv: "cache_inv bs s" and c: "ht_map (ht s) (d, b) = Some a" and op: "good_op op nul"
    and blk: "\<not> CACHE_READ op \<Longrightarrow> CACHE_WRITE op \<Longrightarrow> nat (bs d) \<le> length buf"
  obtains s' where "cache_hit a d b nul (take (nat (bs d)) buf) (bs d) op s = Some (io_val bs op d b buf s 0, s')"
    "served bs op d b buf 1 s s'" "ht_map (ht s') (d, b) = Some a"
proof -
  have len: "length (take (nat (bs d)) buf) = nat (bs d)" if "\<not> CACHE_READ op" "CACHE_WRITE op"
    using blk that by simp
  obtain s' where h: "cache_hit a d b nul (take (nat (bs d)) buf) (bs d) op s =
        Some (op_data op (bs d) (take (nat (bs d)) buf) (view bs s d b), s')"
    and i: "cache_inv bs s'"
    and v: "view bs s' = (view bs s)(d := (view bs s d)(b := op_data op (bs d) (take (nat (bs d)) buf) (view bs s d b)))"
    and f: "s' = s\<lparr>ents := ents s', normal := normal s', locked := locked s'\<rparr>" and li: "listed s' = listed s"
    and o: "\<And>x. x \<noteq> a \<Longrightarrow> ents s' x = ents s x"
    and lk: "ce_lock (ents s' a) = ce_lock (ents s a) + (if CACHE_LOCKED op then 1 else 0)"
    and lo: "locked s' = remove1 a (locked s) @
        (if ce_lock (ents s a) + (if CACHE_LOCKED op then 1 else 0) = 0 then [] else [a])"
    and st: "settled (ents s a) (ent_blk bs s a) \<Longrightarrow> settled (ents s' a) (ent_blk bs s' a)"
    by (rule cache_hit_good [OF inv c op len]) (assumption | (rule that; (assumption | blast)))+
  obtain e n l where "s' = s\<lparr>ents := e, normal := n, locked := l\<rparr>" using f by blast
  then have F: "ht s' = ht s" "devs s' = devs s" "max_blocks s' = max_blocks s"
    "max_device_blocks s' = max_device_blocks s" by simp_all
  have k: "x = a \<longleftrightarrow> d' = d \<and> e = b" if "ht_map (ht s) (d', e) = Some x" for d' e x
    using that c cache_inv_lookup(2,3) [OF inv that] cache_inv_lookup(2,3) [OF inv c]
    by (metis option.inject)
  have io: "io_val bs op d b buf s 0 = op_data op (bs d) (take (nat (bs d)) buf) (view bs s d b)"
    by (simp add: io_val_def)
  have run: "in_run d b (Suc 0) d' e \<longleftrightarrow> d' = d \<and> e = b" for d' e by (auto simp: in_run_def)
  have p: "pins s' d' e = pins s d' e + (if CACHE_LOCKED op \<and> in_run d b 1 d' e then 1 else 0)" for d' e
  proof (cases "ht_map (ht s) (d', e)")
    case (Some x)
    with k [OF Some] lk o show ?thesis by (cases "x = a") (auto simp: pins_def F run)
  next
    case None
    with c show ?thesis by (auto simp: pins_def F run)
  qed
  have stl: "stale bs s d' e" if "stale bs s' d' e" for d' e
    using that st o F by (cases "ht_map (ht s) (d', e)") (auto simp: stale_def, metis)
  have l: "length (locked s') \<le> length (locked s) + (if CACHE_LOCKED op then 1 else 0)"
  proof (cases "a \<in> set (locked s)")
    case True
    then have "0 < length (locked s)" by auto
    with True show ?thesis unfolding lo by (auto simp: length_remove1)
  next
    case False
    then have "ce_lock (ents s a) = 0"
      using cache_inv_lookup(1) [OF inv c] cache_invD(9) [OF inv] by (auto simp: listed_def)
    with False show ?thesis unfolding lo by (auto simp: remove1_idem)
  qed
  have vw: "view bs s' d' e = (if in_run d b 1 d' e then io_val bs op d b buf s (nat (e - b)) else view bs s d' e)"
    for d' e using v by (auto simp: run io)
  have "served bs op d b buf 1 s s'"
    unfolding served_def using i F p stl l vw by simp
  with h io c F show thesis by (intro that [of s']) auto
qed

lemma miss_pinned:
  assumes ctx: "miss_ctx bs d b need m k use extra s s4"
    and ins: "installed bs d b cur lk val m k use extra s s4 s'" and a: "a \<in> set (locked s)"
  shows "a \<notin> set use" "a \<notin> set extra" "ents s' a = ents s a" "ent_blk bs s' a = ent_blk bs s a"
proof -
  have p: "prepared bs d b need m k use extra s s4" and inv: "cache_inv bs s"
    using ctx by (simp_all add: miss_ctx_def)
  note D = cache_invD [OF inv]
  have l: "a \<in> listed s" using a by (simp add: listed_def)
  have t: "a \<notin> set (take k (normal s))" using a D(4) in_set_takeD by fastforce
  then show u: "a \<notin> set use" "a \<notin> set extra" using D(8) [OF l] prepared_mem [OF p, of a] by auto
  then show e: "ents s' a = ents s a" using installedD(5) [OF ins] by blast
  show "ent_blk bs s' a = ent_blk bs s a"
    using miss_disk [OF ctx l t] e installed_fields(1) [OF ins] by simp
qed

lemma served_install:
  assumes ctx: "miss_ctx bs d b need m k use extra s s4"
    and ins: "installed bs d b cur (CACHE_LOCKED op) val m k use extra s s4 s'"
    and rd: "cur < need \<Longrightarrow> CACHE_READ op" and val: "\<And>i. i < need \<Longrightarrow> val i = io_val bs op d b buf s i"
    and cur: "0 < cur" "cur \<le> need"
  shows "served bs op d b buf cur s s'"
proof -
  have p: "prepared bs d b need m k use extra s s4" and inv: "cache_inv bs s"
    and free: "\<forall>j < need. ht_map (ht s) (d, b + int j) = None"
    using ctx by (simp_all add: miss_ctx_def)
  note P = preparedD [OF p] and I = installedD [OF ins] and D = cache_invD [OF inv]
    and M = miss_map [OF ctx ins] and F = installed_fields [OF ins] prepared_fields [OF p]
  have inv': "cache_inv bs s'" by (rule miss_inv [OF ctx ins])
  have none: "ht_map (ht s) (d, c) = None" if "b \<le> c" "c < b + int need" for c
  proof -
    have "nat (c - b) < need" "c = b + int (nat (c - b))" using that by auto
    then show ?thesis using free by metis
  qed
  have v: "view bs s' d' c = (if in_run d b cur d' c then io_val bs op d b buf s (nat (c - b)) else view bs s d' c)"
    if "on_device s d' c" for d' c
  proof -
    have "io_val bs op d b buf s (nat (c - b)) = view bs s d c" if "b + int cur \<le> c" "c < b + int need"
      using rd that by (simp add: io_val_def op_data_def)
    then show ?thesis using miss_view [OF ctx ins that] val [of "nat (c - b)"] cur
      by (auto simp: in_run_def)
  qed
  have keep: "ht_map (ht s') (d', c) = Some a" if h: "ht_map (ht s) (d', c) = Some a" "a \<in> set (locked s)" for d' c a
  proof -
    have "\<not> (d' = d \<and> b \<le> c \<and> c < b + int need)" using none h(1) by auto
    moreover have "ce_key (ents s x) \<noteq> (d', c)" if "x \<in> set (take k (normal s))" for x
      using miss_old(1,5) [OF ctx that] h D(4) by auto
    ultimately show ?thesis using M [of d' c] h(1) by auto
  qed
  have pin: "pins s' d' c = pins s d' c + (if CACHE_LOCKED op \<and> in_run d b cur d' c then 1 else 0)" for d' c
  proof (cases "d' = d \<and> b \<le> c \<and> c < b + int need")
    case True
    then have i: "nat (c - b) < length use" using P(1) by auto
    show ?thesis using True M [of d' c] none [of c] I(7) [OF i] by (auto simp: pins_def in_run_def)
  next
    case out: False
    then have nr: "\<not> in_run d b cur d' c" using cur by (auto simp: in_run_def)
    show ?thesis
    proof (cases "0 < pins s d' c")
      case True
      then obtain a where a: "a \<in> set (locked s)" "ht_map (ht s) (d', c) = Some a"
        using pinned_locked [OF inv] by blast
      then show ?thesis using keep [OF a(2,1)] miss_pinned(3) [OF ctx ins a(1)] nr by (simp add: pins_def)
    next
      case False
      then have z: "pins s d' c = 0" using pins_nonneg [OF inv, of d' c] by simp
      have "\<not> 0 < pins s' d' c"
      proof
        assume "0 < pins s' d' c"
        then obtain a where a: "a \<in> set (locked s')" "ht_map (ht s') (d', c) = Some a"
          using pinned_locked [OF inv'] by blast
        have "a \<in> set (locked s)"
        proof (rule ccontr)
          assume "a \<notin> set (locked s)"
          then have "a \<in> set (take cur use)" using a(1) unfolding I(2) by (auto split: if_splits)
          then obtain i where i: "i < cur" "i < length use" "a = use ! i" by (auto simp: in_set_conv_nth)
          then show False using I(7) [OF i(2)] cache_inv_lookup(2,3) [OF inv' a(2)] nr
            by (auto simp: ce_key_def in_run_def)
        qed
        moreover have "ht_map (ht s) (d', c) = Some a" using M [of d' c] a(2) out by (auto split: if_splits)
        ultimately show False using False pinned_locked [OF inv] by blast
      qed
      then show ?thesis using z nr pins_nonneg [OF inv', of d' c] by simp
    qed
  qed
  have ptr: "ht_map (ht s') (d', c) = ht_map (ht s) (d', c)" if "0 < pins s d' c" for d' c
    using that keep pinned_locked [OF inv] by metis
  have st: "stale bs s d' c" if st: "stale bs s' d' c" for d' c
  proof -
    obtain a where a: "a \<in> set (locked s')" "ht_map (ht s') (d', c) = Some a"
      using stale_pinned [OF inv' st] pinned_locked [OF inv'] by blast
    then have ns: "\<not> settled (ents s' a) (ent_blk bs s' a)" using st by (simp add: stale_def)
    have l: "a \<in> set (locked s)"
    proof (rule ccontr)
      assume "a \<notin> set (locked s)"
      then have "a \<in> set (take cur use)" using a(1) unfolding I(2) by (auto split: if_splits)
      then obtain i where i: "i < length use" "a = use ! i" by (auto simp: in_set_conv_nth)
      then show False using I(7) [OF i(1)] ns F(1) by (auto simp: settled_def ce_key_def)
    qed
    note mp = miss_pinned [OF ctx ins l]
    have "ht_map (ht s) (d', c) = Some a"
      using cache_inv_lookup(2,3) [OF inv' a(2)] mp(3) l D(5) [of "(d', c)" a] by (simp add: listed_def ce_key_def)
    then show ?thesis using ns mp(3,4) by (simp add: stale_def)
  qed
  have l: "length (locked s') \<le> length (locked s) + (if CACHE_LOCKED op then cur else 0)"
    unfolding I(2) by simp
  have no: "ht_map (ht s') (d', c) = None" if "ht_map (ht s) (d', c) = None" "d' = d \<longrightarrow> c < b" for d' c
    using M [of d' c] that by auto
  show ?thesis unfolding served_def using inv' F v pin ptr st l no by simp
qed

lemma served_miss:
  assumes inv: "cache_inv bs s" and room: "roomy s" and op: "good_op op nul"
    and b: "0 \<le> b" "b + int num \<le> max_device_blocks s d" "0 < num" "nul \<Longrightarrow> num = 1"
    and c: "ht_map (ht s) (d, b) = None"
    and blk: "\<not> CACHE_READ op \<Longrightarrow> CACHE_WRITE op \<Longrightarrow> num * nat (bs d) \<le> length buf"
  obtains n a s' where "cache_miss d b nul buf num (bs d) op s =
      Some (0, n, concat (map (io_val bs op d b buf s) [0..<n]), Some a, s')"
    "0 < n" "n \<le> num" "served bs op d b buf n s s'" "ht_map (ht s') (d, b + int n - 1) = Some a"
proof -
  note D = cache_invD [OF inv]
  define cur where "cur = miss_nblocks d b num s"
  note C = miss_nblocks_spec [OF D(1) c b(3), folded cur_def]
  have "0 < max_device_blocks s d" using b by linarith
  then have z: "512 \<le> bs d" using D(15) by (simp add: devs_ok_def)
  have bc: "b + int cur \<le> max_device_blocks s d" using C(2) b(2) by linarith
  define need where "need = miss_needed d b cur (bs d) op s"
  have N: "cur \<le> need" "need \<le> 64" "b + int need \<le> max_device_blocks s d"
    "\<And>j. j < need \<Longrightarrow> ht_map (ht s) (d, b + int j) = None"
    using miss_needed_spec [where op = op, OF D(1) z C(3) bc] C(4) unfolding need_def by blast+
  have need0: "0 < need" using C(1) N(1) by simp
  obtain m k use extra s4 where mp: "miss_prepare d b need (bs d) s = Some (0, use, extra, s4)"
    and p: "prepared bs d b need m k use extra s s4"
    by (rule miss_prepare_good [OF inv room need0 N(2) N(4)])
  have ctx: "miss_ctx bs d b need m k use extra s s4"
    using inv p b(1) N need0 by (simp add: miss_ctx_def)
  let ?val = "\<lambda>i. op_data op (bs d) (take (nat (bs d)) (drop (i * nat (bs d)) buf))
      (blk_of bs (devs s4) d (b + int i))"
  have rd: "CACHE_READ op" if "cur < need" using that by (simp add: need_def miss_needed_def split: if_splits)
  have nc: "cur = 1" if nul using b(4) [OF that] C(1,2) by simp
  have bb: "cur * nat (bs d) \<le> length buf" if "\<not> CACHE_READ op" "CACHE_WRITE op"
    using blk [OF that] C(2) mult_le_mono1 order_trans by blast
  obtain s' where mt: "miss_transfer d b nul buf cur (bs d) op use extra s4 =
      Some (0, cur, concat (map ?val [0..<cur]), Some (last (take cur use)), s')"
    and ins: "installed bs d b cur (CACHE_LOCKED op) ?val m k use extra s s4 s'"
    by (rule miss_transfer_good [OF ctx op C(1) N(1) rd nc N(2) bb])
  note P = preparedD [OF p] and I = installedD [OF ins]
  have disk: "blk_of bs (devs s4) d (b + int i) = view bs s d (b + int i)" if i: "i < need" for i
  proof -
    have "on_device s d (b + int i)" using i N(3) b(1) by (simp add: on_device_def)
    moreover have "ce_key (ents s x) \<noteq> (d, b + int i)" if "x \<in> set (take k (normal s))" for x
      using miss_old(5) [OF ctx that] N(4) [OF i] by auto
    ultimately show ?thesis using P(17) N(4) [OF i] by (simp add: view_def)
  qed
  have val: "?val i = io_val bs op d b buf s i" if "i < need" for i using disk [OF that] by (simp add: io_val_def)
  show thesis
  proof (rule that [of cur "last (take cur use)" s'])
    have "map ?val [0..<cur] = map (io_val bs op d b buf s) [0..<cur]" using val N(1) by simp
    then show "cache_miss d b nul buf num (bs d) op s =
      Some (0, cur, concat (map (io_val bs op d b buf s) [0..<cur]), Some (last (take cur use)), s')"
      using mp mt by (simp add: cache_miss_def cur_def [symmetric] need_def [symmetric] del: map_eq_conv)
    show "served bs op d b buf cur s s'"
      by (rule served_install [OF ctx ins rd val]) (use C N in simp_all)
    have "last (take cur use) = use ! (cur - 1)"
      using C(1) N(1) P(1) by (subst last_conv_nth) auto
    moreover have "nat (b + int cur - 1 - b) = cur - 1" by simp
    ultimately show "ht_map (ht s') (d, b + int cur - 1) = Some (last (take cur use))"
      using miss_map [OF ctx ins, of d "b + int cur - 1"] C(1) N(1) by simp
  qed (use C in simp_all)
qed

section \<open>The loop\<close>

text \<open>Room for the request, at every step of it.\<close>

definition room_for :: "cache_op \<Rightarrow> nat \<Rightarrow> block_cache \<Rightarrow> bool" where
  "room_for op n s \<longleftrightarrow>
     int (length (locked s)) + (if CACHE_LOCKED op then int n else 0) + int NUM_FLUSH_BLOCKS \<le> max_blocks s"

lemma room_for_step:
  "room_for op num s \<Longrightarrow> served bs op d b buf n s s' \<Longrightarrow> n \<le> num \<Longrightarrow> room_for op (num - n) s'"
  using servedD(2,8) [of bs op d b buf n s s'] by (auto simp: room_for_def split: if_splits)

lemma concat_io_val:
  assumes "served bs op d b buf m s s1" "0 \<le> b" "b + int (m + n) \<le> max_device_blocks s d"
  shows "concat (map (io_val bs op d b buf s) [0..<m]) @
      concat (map (io_val bs op d (b + int m) (drop (m * nat (bs d)) buf) s1) [0..<n]) =
    concat (map (io_val bs op d b buf s) [0..<m + n])"
proof -
  have "io_val bs op d (b + int m) (drop (m * nat (bs d)) buf) s1 i = io_val bs op d b buf s (m + i)"
    if i: "i < n" for i
  proof -
    have e: "b + int m + int i = b + int (m + i)" "drop (i * nat (bs d)) (drop (m * nat (bs d)) buf) =
        drop ((m + i) * nat (bs d)) buf" by (simp_all add: add_mult_distrib add.commute)
    have "view bs s1 d (b + int m + int i) = view bs s d (b + int m + int i)"
      using servedD(4) [OF assms(1), of d "b + int m + int i"] assms(2,3) i
      by (simp add: on_device_def in_run_def)
    then show ?thesis unfolding io_val_def e by simp
  qed
  then have "map (io_val bs op d (b + int m) (drop (m * nat (bs d)) buf) s1) [0..<n] =
      map (io_val bs op d b buf s) [m..<m + n]"
    by (intro nth_equalityI) simp_all
  moreover have "[0..<m + n] = [0..<m] @ [m..<m + n]" by (rule upt_add_eq_append) simp
  ultimately show ?thesis by (simp only: map_append concat_append)
qed

lemma served_loop:
  assumes "cache_inv bs s" "room_for op num s" "good_op op nul" "0 \<le> b"
    "b + int num \<le> max_device_blocks s d" "nul \<Longrightarrow> num \<le> 1"
    "\<not> CACHE_READ op \<Longrightarrow> CACHE_WRITE op \<Longrightarrow> num * nat (bs d) \<le> length buf"
  shows "\<exists>p s'. block_io_loop d b nul dn buf ptr num (bs d) op s =
        Some (0, dn @ concat (map (io_val bs op d b buf s) [0..<num]) @ drop (num * nat (bs d)) buf, p, s') \<and>
      served bs op d b buf num s s' \<and> (0 < num \<longrightarrow> p = ht_map (ht s') (d, b + int num - 1) \<and> p \<noteq> None) \<and>
      (num = 0 \<longrightarrow> p = ptr)"
  using assms
proof (induction num arbitrary: b dn buf ptr s rule: less_induct)
  case (less num)
  note inv = less.prems(1)
  show ?case
  proof (cases "num = 0")
    case True
    with served_refl [OF inv] show ?thesis by (subst block_io_loop.simps) simp
  next
    case pos: False
    have "\<exists>n a s1. 0 < n \<and> n \<le> num \<and> served bs op d b buf n s s1 \<and>
        ht_map (ht s1) (d, b + int n - 1) = Some a \<and>
        block_io_loop d b nul dn buf ptr num (bs d) op s =
          block_io_loop d (b + int n) nul (dn @ concat (map (io_val bs op d b buf s) [0..<n]))
            (drop (n * nat (bs d)) buf) (Some a) (num - n) (bs d) op s1"
    proof (cases "ht_map (ht s) (d, b)")
      case (Some a)
      have "nat (bs d) \<le> length buf" if "\<not> CACHE_READ op" "CACHE_WRITE op"
        using less.prems(7) [OF that] pos by (cases num) auto
      then obtain s1 where "cache_hit a d b nul (take (nat (bs d)) buf) (bs d) op s =
          Some (io_val bs op d b buf s 0, s1)" "served bs op d b buf 1 s s1" "ht_map (ht s1) (d, b) = Some a"
        using served_hit [OF inv Some less.prems(3)] by metis
      then show ?thesis using Some pos
        by (intro exI [of _ 1] exI [of _ a] exI [of _ s1], subst block_io_loop.simps)
           (simp add: block_lookup_inv [OF inv])
    next
      case None
      have room: "roomy s" using less.prems(2) by (auto simp: room_for_def roomy_def split: if_splits)
      have n1: "num = 1" if nul using less.prems(6) [OF that] pos by simp
      obtain n a s1 where "cache_miss d b nul buf num (bs d) op s =
          Some (0, n, concat (map (io_val bs op d b buf s) [0..<n]), Some a, s1)"
        "0 < n" "n \<le> num" "served bs op d b buf n s s1" "ht_map (ht s1) (d, b + int n - 1) = Some a"
        by (rule served_miss [OF inv room less.prems(3-5) _ n1 None less.prems(7)]) (use pos in auto)
      then show ?thesis using None pos
        by (intro exI [of _ n] exI [of _ a] exI [of _ s1], subst block_io_loop.simps)
           (simp add: block_lookup_inv [OF inv])
    qed
    then obtain n a s1 where n: "0 < n" "n \<le> num" and sv: "served bs op d b buf n s s1"
      and p: "ht_map (ht s1) (d, b + int n - 1) = Some a"
      and eq: "block_io_loop d b nul dn buf ptr num (bs d) op s =
          block_io_loop d (b + int n) nul (dn @ concat (map (io_val bs op d b buf s) [0..<n]))
            (drop (n * nat (bs d)) buf) (Some a) (num - n) (bs d) op s1" by blast
    have "\<exists>p s'. block_io_loop d (b + int n) nul (dn @ concat (map (io_val bs op d b buf s) [0..<n]))
            (drop (n * nat (bs d)) buf) (Some a) (num - n) (bs d) op s1 =
        Some (0, (dn @ concat (map (io_val bs op d b buf s) [0..<n])) @
           concat (map (io_val bs op d (b + int n) (drop (n * nat (bs d)) buf) s1) [0..<num - n]) @
           drop ((num - n) * nat (bs d)) (drop (n * nat (bs d)) buf), p, s') \<and>
      served bs op d (b + int n) (drop (n * nat (bs d)) buf) (num - n) s1 s' \<and>
      (0 < num - n \<longrightarrow> p = ht_map (ht s') (d, b + int n + int (num - n) - 1) \<and> p \<noteq> None) \<and>
      (num - n = 0 \<longrightarrow> p = Some a)"
    proof (rule less.IH)
      show "room_for op (num - n) s1" by (rule room_for_step [OF less.prems(2) sv n(2)])
      show "(num - n) * nat (bs d) \<le> length (drop (n * nat (bs d)) buf)"
        if "\<not> CACHE_READ op" "CACHE_WRITE op"
        using less.prems(7) [OF that] n(2) by (simp add: diff_mult_distrib diff_le_mono)
    qed (use n less.prems servedD(1,3) [OF sv] in auto)
    then obtain p' s' where lp: "block_io_loop d (b + int n) nul (dn @ concat (map (io_val bs op d b buf s) [0..<n]))
            (drop (n * nat (bs d)) buf) (Some a) (num - n) (bs d) op s1 =
        Some (0, (dn @ concat (map (io_val bs op d b buf s) [0..<n])) @
           concat (map (io_val bs op d (b + int n) (drop (n * nat (bs d)) buf) s1) [0..<num - n]) @
           drop ((num - n) * nat (bs d)) (drop (n * nat (bs d)) buf), p', s')"
      and sv2: "served bs op d (b + int n) (drop (n * nat (bs d)) buf) (num - n) s1 s'"
      and p': "0 < num - n \<longrightarrow> p' = ht_map (ht s') (d, b + int n + int (num - n) - 1) \<and> p' \<noteq> None"
        "num - n = 0 \<longrightarrow> p' = Some a" by (elim exE conjE) (rule that)
    have nn: "n + (num - n) = num" using n by simp
    have sv3: "served bs op d b buf num s s'" using served_trans [OF sv sv2] nn by simp
    have out: "concat (map (io_val bs op d b buf s) [0..<n]) @
        concat (map (io_val bs op d (b + int n) (drop (n * nat (bs d)) buf) s1) [0..<num - n]) =
        concat (map (io_val bs op d b buf s) [0..<num])"
      using concat_io_val [OF sv less.prems(4), of "num - n"] less.prems(5) nn by simp
    have dr: "drop ((num - n) * nat (bs d)) (drop (n * nat (bs d)) buf) = drop (num * nat (bs d)) buf"
      using nn by (simp add: add_mult_distrib [symmetric] add.commute)
    have q: "p' = ht_map (ht s') (d, b + int num - 1) \<and> p' \<noteq> None"
    proof (cases "num = n")
      case True
      then have "served bs op d (b + int n) (drop (n * nat (bs d)) buf) 0 s1 s'" using sv2 by simp
      moreover have "s' = s1" using lp True by (subst (asm) block_io_loop.simps) simp
      ultimately show ?thesis using True p p'(2) by simp
    next
      case False
      moreover have "b + int n + int (num - n) - 1 = b + int num - 1" using n by simp
      ultimately show ?thesis using p'(1) n by (metis le_neq_implies_less zero_less_diff)
    qed
    have "dn @ concat (map (io_val bs op d b buf s) [0..<num]) @ drop (num * nat (bs d)) buf =
        (dn @ concat (map (io_val bs op d b buf s) [0..<n])) @
           concat (map (io_val bs op d (b + int n) (drop (n * nat (bs d)) buf) s1) [0..<num - n]) @
           drop ((num - n) * nat (bs d)) (drop (n * nat (bs d)) buf)"
      unfolding out [symmetric] dr by simp
    then show ?thesis unfolding eq lp
      by (intro exI [of _ p'] exI [of _ s'] conjI impI) (use sv3 q pos in auto)
  qed
qed

end
