(* ===== verification/Cache_Large.thy ===== *)
theory Cache_Large
  imports Cache_Loop
begin

text \<open>
  Requests of 64 KB and more go straight to the device; the blocks of the cache are laid over what
  was read, and changed along with what is written.
\<close>

section \<open>Reading\<close>

lemma get_bytes_split:
  "q + (m + n) \<le> length (file_of dv d) \<Longrightarrow> get_bytes dv d q (m + n) = get_bytes dv d q m @ get_bytes dv d (q + m) n"
  by (simp add: get_bytes_def take_add add.commute)

lemma overlay_read_view:
  assumes "cache_inv bs s" "0 \<le> b" "b + int n \<le> max_device_blocks s d" "0 < bs d"
    "(nat b + n) * nat (bs d) \<le> length (file_of (devs s) d)"
    "buf = get_bytes (devs s) d (nat b * nat (bs d)) (n * nat (bs d))"
  shows "overlay_read d b (nat (bs d)) n buf s = Some (concat (map (\<lambda>i. view bs s d (b + int i)) [0..<n]))"
  using assms
proof (induction n arbitrary: b buf)
  case (Suc n)
  let ?z = "nat (bs d)"
  have on: "on_device s d b" using Suc.prems by (simp add: on_device_def)
  have buf: "buf = blk_of bs (devs s) d b @ get_bytes (devs s) d (nat (b + 1) * ?z) (n * ?z)"
    using Suc.prems(2,5,6) get_bytes_split [of "nat b * ?z" ?z "n * ?z" "devs s" d]
    by (simp add: blk_of_def nat_add_distrib algebra_simps)
  have len: "length (blk_of bs (devs s) d b) = ?z" by (rule blk_length [OF Suc.prems(1) on]) simp
  have rest: "overlay_read d (b + 1) ?z n (drop ?z buf) s =
      Some (concat (map (\<lambda>i. view bs s d (b + 1 + int i)) [0..<n]))"
  proof (rule Suc.IH)
    show "drop ?z buf = get_bytes (devs s) d (nat (b + 1) * ?z) (n * ?z)" using len by (simp add: buf)
  qed (use Suc.prems in \<open>auto simp: nat_add_distrib\<close>)
  have up: "map (\<lambda>i. view bs s d (b + int i)) [0..<Suc n] =
      view bs s d b # map (\<lambda>i. view bs s d (b + 1 + int i)) [0..<n]"
    by (simp only: upt_conv_Cons [of 0 "Suc n"] zero_less_Suc map_Suc_upt [symmetric] list.map(2) map_map)
       (simp add: comp_def add.assoc)
  have vl: "length (view bs s d b) = ?z" by (rule view_length [OF Suc.prems(1) on])
  show ?case
  proof (cases "ht_map (ht s) (d, b)")
    case None
    then show ?thesis unfolding up overlay_read.simps block_lookup_inv [OF Suc.prems(1)] rest
      using len buf by (simp add: view_not_cached)
  next
    case (Some a)
    then show ?thesis unfolding up overlay_read.simps block_lookup_inv [OF Suc.prems(1)] rest
      using vl cache_inv_lookup(2,3) [OF Suc.prems(1) Some] by (simp add: view_cached wrong_block_def)
  qed
qed simp

section \<open>Writing\<close>

text \<open>What holds of the entries between the steps of \<open>overlay_write\<close>.\<close>

definition tabled :: "(int \<Rightarrow> int) \<Rightarrow> block_cache \<Rightarrow> bool" where
  "tabled bs s \<longleftrightarrow> ht_wf (ht s) \<and> (\<forall>k a. ht_map (ht s) k = Some a \<longrightarrow>
     ce_key (ents s a) = k \<and> sound_ent bs s (ents s a) \<and> \<not> ce_busy (ents s a))"

lemma tabled_inv: "cache_inv bs s \<Longrightarrow> tabled bs s"
  using cache_invD [of bs s] by (auto simp: tabled_def)

lemma tabledD:
  assumes "tabled bs s" "ht_map (ht s) (d, b) = Some a"
  shows "ce_dev (ents s a) = d" "block_num (ents s a) = b" "sound_ent bs s (ents s a)" "\<not> ce_busy (ents s a)"
  using assms by (auto simp: tabled_def ce_key_def)

lemma tabled_lookup: "tabled bs s \<Longrightarrow> block_lookup d b s = Some (ht_map (ht s) (d, b))"
proof -
  assume t: "tabled bs s"
  then have "ht_wf (ht s)" by (simp add: tabled_def)
  then show ?thesis using tabledD(4) [OF t]
    by (cases "ht_map (ht s) (d, b)") (simp_all add: block_lookup_def ht.lookup_law)
qed

definition overlaid ::
  "(int \<Rightarrow> int) \<Rightarrow> int \<Rightarrow> fs_off_t \<Rightarrow> nat \<Rightarrow> byte list \<Rightarrow> block_cache \<Rightarrow> block_cache \<Rightarrow> bool" where
  "overlaid bs d b n buf s s' \<longleftrightarrow>
     s' = s\<lparr>ents := ents s', devs := devs s', calls := calls s'\<rparr> \<and> devs_shape (devs s) (devs s') \<and>
     (\<forall>a. (\<forall>c. in_run d b n d c \<longrightarrow> ht_map (ht s) (d, c) \<noteq> Some a) \<longrightarrow> ents s' a = ents s a) \<and>
     (\<forall>c a. in_run d b n d c \<longrightarrow> ht_map (ht s) (d, c) = Some a \<longrightarrow>
        (\<exists>ce. same_core (ents s a) ce \<and> ce_clone ce = None \<and>
           ents s' a = ce\<lparr>ce_data := take (nat (bs d)) (drop (nat (c - b) * nat (bs d)) buf)\<rparr>)) \<and>
     (\<forall>d' c. on_device s d' c \<longrightarrow> dev_ok bs (devs s) d' (max_device_blocks s d') \<longrightarrow> \<not> in_run d b n d' c \<longrightarrow>
        blk_of bs (devs s') d' c = blk_of bs (devs s) d' c)"

lemma overlaidD:
  assumes "overlaid bs d b n buf s s'"
  shows "devs_shape (devs s) (devs s')"
    "\<And>a. (\<And>c. in_run d b n d c \<Longrightarrow> ht_map (ht s) (d, c) \<noteq> Some a) \<Longrightarrow> ents s' a = ents s a"
    "\<And>c a. in_run d b n d c \<Longrightarrow> ht_map (ht s) (d, c) = Some a \<Longrightarrow>
        (\<exists>ce. same_core (ents s a) ce \<and> ce_clone ce = None \<and>
           ents s' a = ce\<lparr>ce_data := take (nat (bs d)) (drop (nat (c - b) * nat (bs d)) buf)\<rparr>)"
    "\<And>d' c. on_device s d' c \<Longrightarrow> dev_ok bs (devs s) d' (max_device_blocks s d') \<Longrightarrow> \<not> in_run d b n d' c \<Longrightarrow>
        blk_of bs (devs s') d' c = blk_of bs (devs s) d' c"
    "ht s' = ht s" "normal s' = normal s" "locked s' = locked s" "next_addr s' = next_addr s"
    "cur_blocks s' = cur_blocks s" "max_blocks s' = max_blocks s" "max_device_blocks s' = max_device_blocks s"
    "iovec_pool s' = iovec_pool s" "iovec_used s' = iovec_used s" "mem_ok s' = mem_ok s"
proof -
  obtain e v k where "s' = s\<lparr>ents := e, devs := v, calls := k\<rparr>" using assms unfolding overlaid_def by blast
  then show "ht s' = ht s" "normal s' = normal s" "locked s' = locked s" "next_addr s' = next_addr s"
    "cur_blocks s' = cur_blocks s" "max_blocks s' = max_blocks s" "max_device_blocks s' = max_device_blocks s"
    "iovec_pool s' = iovec_pool s" "iovec_used s' = iovec_used s" "mem_ok s' = mem_ok s" by simp_all
qed (use assms in \<open>unfold overlaid_def, blast+\<close>)

text \<open>One block.\<close>

lemma overlay_one:
  assumes t: "tabled bs s" and len: "nat (bs d) \<le> length buf"
  obtains s1 where "overlay_write d b (nat (bs d)) (Suc n) buf s =
      overlay_write d (b + 1) (nat (bs d)) n (drop (nat (bs d)) buf) s1"
    "overlaid bs d b 1 buf s s1" "tabled bs s1"
proof (cases "ht_map (ht s) (d, b)")
  case None
  show thesis
  proof (rule that [of s])
    show "overlaid bs d b 1 buf s s" using None by (auto simp: overlaid_def in_run_def)
  qed (use t None in \<open>simp_all add: tabled_lookup [OF t]\<close>)
next
  case (Some a)
  note a = tabledD [OF t Some]
  let ?z = "nat (bs d)"
  obtain s1 where s1: "s1 = (if ce_clone (ents s a) \<noteq> None then snd (flush_cache_ent a s) else s)"
    and r: "flush_rel bs {a} s s1 \<or> s1 = s \<and> ce_clone (ents s a) = None"
    by (rule flush_cache_ent_good [OF a(3)]) (cases "ce_clone (ents s a)"; force)
  have F: "s1 = s\<lparr>ents := ents s1, devs := devs s1, calls := calls s1\<rparr>" "devs_shape (devs s) (devs s1)"
    "\<And>x. x \<noteq> a \<Longrightarrow> ents s1 x = ents s x" "same_core (ents s a) (ents s1 a)" "ce_clone (ents s1 a) = None"
    "\<And>d' c. on_device s d' c \<Longrightarrow> dev_ok bs (devs s) d' (max_device_blocks s d') \<Longrightarrow> (d', c) \<noteq> (d, b) \<Longrightarrow>
        blk_of bs (devs s1) d' c = blk_of bs (devs s) d' c"
    using r fl_step_core fl_step_clone same_core_refl a(1,2)
    by (auto simp: flush_rel_def on_device_def ce_key_def)
  let ?s = "upd_ent a (\<lambda>ce. ce\<lparr>ce_data := take ?z buf @ drop ?z (ce_data ce)\<rparr>) s1"
  note core = same_core_simps [OF F(4)]
  have bsz: "ce_bsize (ents s a) = bs d" "length (ce_data (ents s a)) = ?z" using a by (auto simp: sound_ent_def)
  obtain e v k where "s1 = s\<lparr>ents := e, devs := v, calls := k\<rparr>" using F(1) by blast
  then have G: "ht s1 = ht s" "max_device_blocks s1 = max_device_blocks s" by simp_all
  have da: "ents ?s a = (ents s1 a)\<lparr>ce_data := take ?z buf\<rparr>"
    using bsz core by (simp add: upd_ent_def)
  show thesis
  proof (rule that [of ?s])
    show "overlay_write d b ?z (Suc n) buf s = overlay_write d (b + 1) ?z n (drop ?z buf) ?s"
      using Some a(1,2) by (simp add: tabled_lookup [OF t] wrong_block_def s1 Let_def)
    have es: "ents ?s = (ents s1)(a := (ents s1 a)\<lparr>ce_data := take ?z buf\<rparr>)" "devs ?s = devs s1"
      using da by (auto simp: upd_ent_def)
    have key: "x = a \<longleftrightarrow> c = b" if "ht_map (ht s) (d, c) = Some x" for c x
      using Some that a(2) tabledD(2) [OF t that] by (metis option.inject)
    show "overlaid bs d b 1 buf s ?s"
      unfolding overlaid_def es(2)
    proof (intro conjI allI impI)
      show "?s = s\<lparr>ents := ents ?s, devs := devs s1, calls := calls ?s\<rparr>"
        unfolding upd_ent_def by (subst F(1)) simp
      show "ents ?s x = ents s x" if "\<forall>c. in_run d b 1 d c \<longrightarrow> ht_map (ht s) (d, c) \<noteq> Some x" for x
        using that Some F(3) [of x] by (auto simp: es in_run_def)
      show "\<exists>ce. same_core (ents s x) ce \<and> ce_clone ce = None \<and>
          ents ?s x = ce\<lparr>ce_data := take ?z (drop (nat (c - b) * ?z) buf)\<rparr>"
        if "in_run d b 1 d c" "ht_map (ht s) (d, c) = Some x" for c x
      proof -
        have "c = b" using that(1) by (simp add: in_run_def)
        then show ?thesis using key [OF that(2)] F(4,5) da by (intro exI [of _ "ents s1 a"]) simp
      qed
    qed (use F in \<open>auto simp: in_run_def\<close>)
    show "tabled bs ?s" unfolding tabled_def
    proof (intro conjI allI impI)
      show "ht_wf (ht ?s)" using t G by (simp add: tabled_def upd_ent_def)
      fix k x
      assume "ht_map (ht ?s) k = Some x"
      then have h: "ht_map (ht s) k = Some x" by (simp add: upd_ent_def G)
      then have o: "ce_key (ents s x) = k" "sound_ent bs s (ents s x)" "\<not> ce_busy (ents s x)"
        using t unfolding tabled_def by blast+
      have sh: "dev_ok bs (devs s1) d' m = dev_ok bs (devs s) d' m" for d' m by (rule dev_ok_shape [OF F(2)])
      have mx: "max_device_blocks ?s = max_device_blocks s" by (simp add: upd_ent_def G)
      show "ce_key (ents ?s x) = k"
        using o(1) F(3) [of x] core(1,2) by (cases "x = a") (simp_all add: es ce_key_def)
      show "\<not> ce_busy (ents ?s x)" using o(3) F(3) [of x] core(6) by (cases "x = a") (simp_all add: es)
      show "sound_ent bs ?s (ents ?s x)"
      proof (cases "x = a")
        case True
        with o(2) core(1-4) F(5) len bsz G(2) show ?thesis by (simp add: es mx sound_ent_def sh)
      next
        case False
        with o(2) F(3) G(2) show ?thesis by (simp add: es mx sound_ent_def sh)
      qed
    qed
  qed
qed

lemma overlaid_trans:
  assumes t: "tabled bs s" and 1: "overlaid bs d b 1 buf s s1"
    and 2: "overlaid bs d (b + 1) n (drop (nat (bs d)) buf) s1 s2"
  shows "overlaid bs d b (Suc n) buf s s2"
proof -
  let ?z = "nat (bs d)"
  note A = overlaidD [OF 1] and B = overlaidD [OF 2]
  have run: "in_run d b (Suc n) d' c \<longleftrightarrow> d' = d \<and> c = b \<or> in_run d (b + 1) n d' c" for d' c
    by (auto simp: in_run_def)
  have r1: "in_run d b 1 d' c \<longleftrightarrow> d' = d \<and> c = b" for d' c by (auto simp: in_run_def)
  have key: "c = c'" if "ht_map (ht s) (d, c) = Some a" "ht_map (ht s) (d, c') = Some a" for c c' a
    using tabledD(2) [OF t that(1)] tabledD(2) [OF t that(2)] by simp
  show ?thesis unfolding overlaid_def
  proof (intro conjI allI impI)
    obtain e1 v1 k1 e2 v2 k2 where "s1 = s\<lparr>ents := e1, devs := v1, calls := k1\<rparr>"
      "s2 = s1\<lparr>ents := e2, devs := v2, calls := k2\<rparr>"
      using 1 2 unfolding overlaid_def by blast
    then show "s2 = s\<lparr>ents := ents s2, devs := devs s2, calls := calls s2\<rparr>" by simp
    show "devs_shape (devs s) (devs s2)" by (rule devs_shape_trans [OF A(1) B(1)])
    show "ents s2 a = ents s a" if "\<forall>c. in_run d b (Suc n) d c \<longrightarrow> ht_map (ht s) (d, c) \<noteq> Some a" for a
      using that A(2,5) B(2) by (metis r1 run)
    show "\<exists>ce. same_core (ents s a) ce \<and> ce_clone ce = None \<and>
          ents s2 a = ce\<lparr>ce_data := take ?z (drop (nat (c - b) * ?z) buf)\<rparr>"
      if c: "in_run d b (Suc n) d c" "ht_map (ht s) (d, c) = Some a" for c a
    proof (cases "c = b")
      case True
      have "ents s2 a = ents s1 a"
      proof (rule B(2))
        fix c' assume "in_run d (b + 1) n d c'"
        then have "c' \<noteq> b" by (simp add: in_run_def)
        then show "ht_map (ht s1) (d, c') \<noteq> Some a" using key [OF c(2)] True A(5) by auto
      qed
      then show ?thesis using A(3) [OF _ c(2)] True r1 by simp
    next
      case False
      then have i: "in_run d (b + 1) n d c" using c(1) run by blast
      have "ents s1 a = ents s a"
        by (rule A(2)) (use key [OF c(2)] False r1 in blast)
      moreover have "nat (c - b) = Suc (nat (c - (b + 1)))" using i by (auto simp: in_run_def)
      then have "nat (c - b) * ?z = nat (c - (b + 1)) * ?z + ?z" by simp
      ultimately show ?thesis using B(3) [OF i] c(2) A(5) by (auto simp: add.commute)
    qed
    show "blk_of bs (devs s2) d' c = blk_of bs (devs s) d' c"
      if "on_device s d' c" "dev_ok bs (devs s) d' (max_device_blocks s d')" "\<not> in_run d b (Suc n) d' c" for d' c
      using that A(4) [of d' c] B(4) [of d' c] A(11) dev_ok_shape [OF A(1)] run r1 by (auto simp: on_device_def)
  qed
qed

lemma overlay_write_good:
  "tabled bs s \<Longrightarrow> n * nat (bs d) \<le> length buf \<Longrightarrow>
   \<exists>s'. overlay_write d b (nat (bs d)) n buf s = Some s' \<and> overlaid bs d b n buf s s'"
proof (induction n arbitrary: b buf s)
  case 0
  then show ?case by (auto simp: overlaid_def in_run_def)
next
  case (Suc n)
  have "nat (bs d) \<le> length buf" using Suc.prems(2) by simp
  then obtain s1 where s1: "overlay_write d b (nat (bs d)) (Suc n) buf s =
      overlay_write d (b + 1) (nat (bs d)) n (drop (nat (bs d)) buf) s1"
    "overlaid bs d b 1 buf s s1" "tabled bs s1" using overlay_one [OF Suc.prems(1)] by metis
  have "n * nat (bs d) \<le> length (drop (nat (bs d)) buf)" using Suc.prems(2) by simp
  from Suc.IH [OF s1(3) this, of "b + 1"] s1 overlaid_trans [OF Suc.prems(1) s1(2)] show ?case by metis
qed

text \<open>Then the device is written; the blocks that are in the cache agree with it.\<close>

fun chop :: "nat \<Rightarrow> nat \<Rightarrow> byte list \<Rightarrow> byte list list" where
  "chop z 0 xs = []"
| "chop z (Suc n) xs = take z xs # chop z n (drop z xs)"

lemma chop_props:
  "length (chop z n xs) = n" "n * z \<le> length xs \<Longrightarrow> concat (chop z n xs) = take (n * z) xs"
  "i < n \<Longrightarrow> chop z n xs ! i = take z (drop (i * z) xs)"
  by (induction n arbitrary: xs i)
     (auto simp: take_add nth_Cons drop_drop add.commute split: nat.split)

lemma chop_length: "n * z \<le> length xs \<Longrightarrow> x \<in> set (chop z n xs) \<Longrightarrow> length x = z"
proof (induction n arbitrary: xs)
  case (Suc n)
  from Suc.prems Suc.IH [of "drop z xs"] show ?case by auto
qed simp

lemma served_overlay:
  assumes inv: "cache_inv bs s" and ov: "overlaid bs d b n buf s s1" and b: "0 \<le> b" "b + int n \<le> max_device_blocks s d"
    and op: "\<not> CACHE_READ op" "CACHE_WRITE op" "\<not> CACHE_LOCKED op" and len: "length buf = n * nat (bs d)"
    and dok: "dev_ok bs (devs s) d (max_device_blocks s d)"
  shows "served bs op d b buf n s (s1\<lparr>devs := put_bytes (devs s1) d (nat b * nat (bs d)) buf\<rparr>)"
    (is "served bs op d b buf n s ?s")
proof -
  let ?z = "nat (bs d)"
  note D = cache_invD [OF inv] and O = overlaidD [OF ov]
  have dok1: "dev_ok bs (devs s1) d (max_device_blocks s d)" using dok dev_ok_shape [OF O(1)] by simp
  have cc: "concat (chop ?z n buf) = buf" "\<forall>x \<in> set (chop ?z n buf). length x = ?z"
    "length (chop ?z n buf) = n"
    using chop_props(1,2) chop_length [of n ?z buf] len by auto
  note R = blk_of_run [OF dok1 b(1), of "chop ?z n buf", unfolded cc(1,3), OF b(2) cc(2)]
  have blk: "blk_of bs (devs ?s) d' c = (if in_run d b n d' c then take ?z (drop (nat (c - b) * ?z) buf)
      else blk_of bs (devs s) d' c)" if o: "on_device s d' c" for d' c
  proof (cases "in_run d b n d' c")
    case True
    then have i: "nat (c - b) < n" "c = b + int (nat (c - b))" "d' = d" by (auto simp: in_run_def)
    have "blk_of bs (devs ?s) d (b + int (nat (c - b))) = chop ?z n buf ! nat (c - b)" using R(2) [OF i(1)] by simp
    then show ?thesis using True i chop_props(3) [OF i(1)] by simp
  next
    case False
    have "dev_ok bs (devs s) d' (max_device_blocks s d')"
      using D(15) o by (auto simp: devs_ok_def on_device_def)
    moreover have "d' \<noteq> d \<or> 0 \<le> c \<and> c < max_device_blocks s d \<and> (\<forall>i < n. c \<noteq> b + int i)"
      using False o by (auto simp: on_device_def in_run_def)
    ultimately show ?thesis using R(3) [of d' c] O(4) [OF o] False by simp
  qed
  have shape: "devs_shape (devs s) (devs ?s)" using devs_shape_trans [OF O(1) R(1)] by simp
  have ent: "ents s1 a = ents s a \<and> \<not> in_run d b n (ce_dev (ents s a)) (block_num (ents s a)) \<or>
      in_run d b n (ce_dev (ents s a)) (block_num (ents s a)) \<and> (\<exists>ce. same_core (ents s a) ce \<and> ce_clone ce = None \<and>
           ents s1 a = ce\<lparr>ce_data := take ?z (drop (nat (block_num (ents s a) - b) * ?z) buf)\<rparr>)"
    if a: "a \<in> listed s" for a
  proof (cases "in_run d b n (ce_dev (ents s a)) (block_num (ents s a))")
    case True
    moreover have "ht_map (ht s) (ce_dev (ents s a), block_num (ents s a)) = Some a"
      using D(5) a by (simp add: ce_key_def)
    ultimately show ?thesis using O(3) [of "block_num (ents s a)" a] by (auto simp: in_run_def)
  next
    case False
    have "ents s1 a = ents s a"
      by (rule O(2)) (use False cache_inv_lookup(2,3) [OF inv] in fastforce)
    with False show ?thesis by blast
  qed
  have core: "ce_dev (ents s1 a) = ce_dev (ents s a)" "block_num (ents s1 a) = block_num (ents s a)"
    "ce_bsize (ents s1 a) = ce_bsize (ents s a)" "ce_lock (ents s1 a) = ce_lock (ents s a)"
    "ce_busy (ents s1 a) = ce_busy (ents s a)" if "a \<in> listed s" for a
    using ent [OF that] same_core_simps by fastforce+
  have dat: "ce_data (ents s1 a) = (if in_run d b n (ce_dev (ents s a)) (block_num (ents s a))
      then take ?z (drop (nat (block_num (ents s a) - b) * ?z) buf) else ce_data (ents s a))"
    "ce_clone (ents s1 a) = None \<or> ents s1 a = ents s a" if "a \<in> listed s" for a
    using ent [OF that] by auto
  have bl: "length (take ?z (drop (nat (c - b) * ?z) buf)) = ?z" if "in_run d b n d c" for c
  proof -
    have i: "nat (c - b) < n" using that by (auto simp: in_run_def)
    then have "chop ?z n buf ! nat (c - b) \<in> set (chop ?z n buf)" using cc(3) by (intro nth_mem) simp
    then show ?thesis using cc(2) chop_props(3) [OF i, of ?z buf] by fastforce
  qed
  have so: "sound_ent bs ?s (ents ?s a)" if a: "a \<in> listed s" for a
    using D(6) [OF a] core [OF a] dat [OF a] bl [of "block_num (ents s a)"] O(11) dev_ok_shape [OF shape]
    by (auto simp: sound_ent_def in_run_def)
  have st: "settled (ents ?s a) (ent_blk bs ?s a)"
    if a: "a \<in> listed s" and "settled (ents s a) (ent_blk bs s a)" for a
  proof -
    have "on_device s (ce_dev (ents s a)) (block_num (ents s a))"
      using D(6) [OF a] by (simp add: on_device_def sound_ent_def)
    from blk [OF this] that(2) ent [OF a] core(1,2) [OF a] show ?thesis
      by (auto simp: settled_def split: option.splits)
  qed
  have lists: "listed ?s = listed s" using O by (simp add: listed_def)
  have inv': "cache_inv bs ?s"
    unfolding cache_inv_def lists
  proof (intro conjI)
    show "\<forall>k a. ht_map (ht ?s) k = Some a \<longleftrightarrow> a \<in> listed s \<and> ce_key (ents ?s a) = k"
      using D(5) core(1,2) O(5) by (auto simp: ce_key_def)
    show "\<forall>a\<in>listed s. sound_ent bs ?s (ents ?s a) \<and> \<not> ce_busy (ents ?s a) \<and> a < next_addr ?s"
      using so core(5) D(7,8) O(8) by simp
    show "\<forall>a\<in>set (normal ?s). ce_lock (ents ?s a) = 0 \<and> settled (ents ?s a) (ent_blk bs ?s a)"
      using st core(4) D(9,10) O(6) by (simp add: listed_def)
    show "\<forall>a\<in>set (locked ?s). 0 < ce_lock (ents ?s a)" using core(4) D(11) O(7) by (simp add: listed_def)
    show "iovecs_idle ?s" using D(14) O by (simp add: iovecs_idle_def)
    show "devs_ok bs ?s" using D(15) O(11) dev_ok_shape [OF shape] by (simp add: devs_ok_def)
  qed (use D O in simp_all)
  have v: "view bs ?s d' c = (if in_run d b n d' c then io_val bs op d b buf s (nat (c - b)) else view bs s d' c)"
    if "on_device s d' c" for d' c
  proof (cases "ht_map (ht s) (d', c)")
    case None
    then show ?thesis using blk [OF that] O(5) op by (auto simp: view_def io_val_def op_data_def in_run_def)
  next
    case (Some a)
    note l = cache_inv_lookup [OF inv Some]
    show ?thesis using Some l dat(1) [OF l(1)] O(5) op by (auto simp: view_def io_val_def op_data_def in_run_def)
  qed
  have p: "pins ?s d' c = pins s d' c" for d' c
    using core(4) cache_inv_lookup(1) [OF inv] O(5) by (simp add: pins_def split: option.split)
  have sl: "stale bs s d' c" if "stale bs ?s d' c" for d' c
    using that st cache_inv_lookup(1) [OF inv] O(5) by (auto simp: stale_def split: option.splits)
  show ?thesis unfolding served_def using inv' O v p sl op by simp
qed

section \<open>The whole of \<open>cache_block_io\<close>\<close>

lemma large_run:
  assumes inv: "cache_inv bs s" and b: "0 \<le> b" "b + int n \<le> max_device_blocks s d" "0 < n"
  shows "dev_ok bs (devs s) d (max_device_blocks s d)" "(nat b + n) * nat (bs d) \<le> length (file_of (devs s) d)"
    "0 \<le> d" "d < MAX_DEVICES" "512 \<le> bs d"
proof -
  have "0 < max_device_blocks s d" using b by linarith
  then show d: "dev_ok bs (devs s) d (max_device_blocks s d)" "0 \<le> d" "d < MAX_DEVICES" "512 \<le> bs d"
    using cache_invD(15) [OF inv] by (simp_all add: devs_ok_def)
  have "nat b + n \<le> nat (max_device_blocks s d)" using b by linarith
  then show "(nat b + n) * nat (bs d) \<le> length (file_of (devs s) d)"
    using d(1) unfolding dev_ok_def by (meson le_trans mult_le_mono1)
qed

lemma large_io_good:
  assumes inv: "cache_inv bs s" and b: "0 \<le> b" "b + int n \<le> max_device_blocks s d" "0 < n"
    and op: "CACHE_READ op \<or> CACHE_WRITE op" "\<not> CACHE_LOCKED op" and z: "int n * bs d < 2 ^ 31"
    and len: "\<not> CACHE_READ op \<Longrightarrow> length buf = n * nat (bs d)"
  obtains s' where "large_io d b False buf (int n) (bs d) op s =
      Some (0, concat (map (io_val bs op d b buf s) [0..<n]), s')" "served bs op d b buf n s s'"
proof -
  note L = large_run [OF inv b]
  have f32: "fits32 (int n) (bs d)" using z L(5) b(3) by (simp add: fits32_def)
  have gd: "good_dev (devs s) d" using L(1) by (simp add: dev_ok_def)
  have fit: "nat b * nat (bs d) + nat (int n) * nat (bs d) \<le> length (file_of (devs s) d)"
    using L(2) by (simp add: add_mult_distrib)
  show thesis
  proof (cases "CACHE_READ op")
    case True
    have "read_phys_blocks (devs s) d b (int n) (bs d) =
        (0, get_bytes (devs s) d (nat b * nat (bs d)) (n * nat (bs d)))"
      using read_phys_blocks_good [OF gd b(1) f32 fit] by simp
    moreover have "overlay_read d b (nat (bs d)) n (get_bytes (devs s) d (nat b * nat (bs d)) (n * nat (bs d))) s =
        Some (concat (map (io_val bs op d b buf s) [0..<n]))"
      using overlay_read_view [OF inv b(1,2) _ L(2) refl] L(5) True by (simp add: io_val_def [abs_def] op_data_def)
    ultimately have "large_io d b False buf (int n) (bs d) op s =
      Some (0, concat (map (io_val bs op d b buf s) [0..<n]), s)"
      using True op by (simp add: large_io_def)
    moreover have "served bs op d b buf n s s"
      using inv True op by (auto simp: served_def io_val_def op_data_def in_run_def)
    ultimately show thesis by (rule that)
  next
    case False
    note ln = len [OF False]
    obtain s1 where s1: "overlay_write d b (nat (bs d)) n buf s = Some s1" "overlaid bs d b n buf s s1"
      using overlay_write_good [OF tabled_inv [OF inv], of n d buf b] ln by auto
    have sh: "devs_shape (devs s) (devs s1)" by (rule overlaidD(1) [OF s1(2)])
    have gd1: "good_dev (devs s1) d" using sh gd by (simp add: devs_shape_def good_dev_def)
    have "write_phys_blocks (devs s1) d b buf (int n) (bs d) = (0, put_bytes (devs s1) d (nat b * nat (bs d)) buf)"
      by (rule write_phys_blocks_good [OF gd1 b(1) f32]) (use ln fit sh in \<open>simp_all add: devs_shape_def\<close>)
    moreover have "buf = concat (map (io_val bs op d b buf s) [0..<n])"
    proof -
      have "chop (nat (bs d)) n buf = map (io_val bs op d b buf s) [0..<n]"
        by (rule nth_equalityI) (use False op in \<open>simp_all add: chop_props io_val_def op_data_def\<close>)
      then show ?thesis using chop_props(2) [of n "nat (bs d)" buf] ln by simp
    qed
    ultimately have "large_io d b False buf (int n) (bs d) op s =
      Some (0, concat (map (io_val bs op d b buf s) [0..<n]),
        s1\<lparr>devs := put_bytes (devs s1) d (nat b * nat (bs d)) buf\<rparr>)"
      using False op s1 by (simp add: large_io_def)
    moreover have "served bs op d b buf n s (s1\<lparr>devs := put_bytes (devs s1) d (nat b * nat (bs d)) buf\<rparr>)"
      by (rule served_overlay [OF inv s1(2) b(1,2) False _ op(2) ln L(1)]) (use False op in simp)
    ultimately show thesis by (rule that)
  qed
qed

text \<open>A request for blocks of a device that is in use.\<close>

definition request_ok ::
  "(int \<Rightarrow> int) \<Rightarrow> cache_op \<Rightarrow> bool \<Rightarrow> int \<Rightarrow> fs_off_t \<Rightarrow> nat \<Rightarrow> byte list \<Rightarrow> block_cache \<Rightarrow> bool" where
  "request_ok bs op nul d b n buf s \<longleftrightarrow> 0 \<le> b \<and> b + int n \<le> max_device_blocks s d \<and> 0 < n \<and>
     int n * bs d < (if CACHE_LOCKED op \<or> nul \<or> \<not> (CACHE_READ op \<or> CACHE_WRITE op) then 64 * 1024 else 2 ^ 31) \<and>
     (if nul then n = 1 else length buf = n * nat (bs d)) \<and> (CACHE_WRITE op \<longrightarrow> \<not> nul) \<and>
     room_for op n s"

lemma cache_block_io_good:
  assumes inv: "cache_inv bs s" and rq: "request_ok bs op nul d b n buf s" and op: "good_op op nul"
    and data: "data = (if nul then None else Some buf)" "nul \<Longrightarrow> dp" "nul \<Longrightarrow> buf = []"
  obtains p s' where "cache_block_io d b data (int n) (bs d) op dp s =
      Some (0, concat (map (io_val bs op d b buf s) [0..<n]), p, s')" "served bs op d b buf n s s'"
    "CACHE_LOCKED op \<or> nul \<Longrightarrow> p = ht_map (ht s') (d, b + int n - 1) \<and> p \<noteq> None"
proof -
  have b: "0 \<le> b" "b + int n \<le> max_device_blocks s d" "0 < n" and room: "room_for op n s"
    using rq by (auto simp: request_ok_def)
  note L = large_run [OF inv b]
  have n1: "nul \<Longrightarrow> n = 1" "nul \<Longrightarrow> \<not> CACHE_WRITE op" using rq by (auto simp: request_ok_def)
  have pre: "cache_block_io d b data (int n) (bs d) op dp s =
      (if int n * bs d \<ge> 64 * 1024
       then do { (err, out, s1) \<leftarrow> large_io d b nul buf (int n) (bs d) op s; Some (err, out, None, s1) }
       else block_io_loop d b nul [] buf None n (bs d) op s)"
    using b L(3-5) n1 data by (auto simp: cache_block_io_def Let_def)
  show thesis
  proof (cases "int n * bs d \<ge> 64 * 1024")
    case True
    then have small: "\<not> CACHE_LOCKED op" "\<not> nul" "CACHE_READ op \<or> CACHE_WRITE op" "int n * bs d < 2 ^ 31"
      using rq by (auto simp: request_ok_def split: if_splits)
    then have len: "length buf = n * nat (bs d)" using rq by (simp add: request_ok_def)
    obtain s' where s': "large_io d b False buf (int n) (bs d) op s =
      Some (0, concat (map (io_val bs op d b buf s) [0..<n]), s')" "served bs op d b buf n s s'"
      by (rule large_io_good [OF inv b small(3,1,4) len])
    show thesis by (rule that [of None s']) (use pre True s' small in auto)
  next
    case False
    have len: "n * nat (bs d) \<le> length buf" if "\<not> CACHE_READ op" "CACHE_WRITE op"
      using rq that by (auto simp: request_ok_def)
    obtain p s' where s': "block_io_loop d b nul [] buf None n (bs d) op s =
        Some (0, [] @ concat (map (io_val bs op d b buf s) [0..<n]) @ drop (n * nat (bs d)) buf, p, s')"
      "served bs op d b buf n s s'" "p = ht_map (ht s') (d, b + int n - 1)" "p \<noteq> None"
      using served_loop [OF inv room op b(1,2) _ len, of "[]" None] n1(1) b(3) by force
    have "drop (n * nat (bs d)) buf = []" using rq data(3) by (cases nul) (auto simp: request_ok_def)
    then show thesis by (intro that [of p s']) (use pre False s' in simp_all)
  qed
qed

end
