(* ===== verification/Block_Store.thy ===== *)
theory Block_Store
  imports Cache_Large
begin

text \<open>
  The contract between the block cache and the file system code that uses it: a locale with the
  operations \<open>get_block\<close>, \<open>mark_blocks_dirty\<close>, \<open>release_block\<close> and the reads and writes through the
  pointer that \<open>get_block\<close> returned, the two patterns in which the file system uses them, and the
  interpretation of the locale on the cache.
\<close>

section \<open>The contract\<close>

text \<open>The blocks that are pinned.\<close>

definition held :: "('s \<Rightarrow> int \<Rightarrow> fs_off_t \<Rightarrow> int) \<Rightarrow> 's \<Rightarrow> (int \<times> fs_off_t) set" where
  "held pin s = {(d, b). 0 < pin s d b}"

text \<open>Nothing a client sees is different.\<close>

definition same_store ::
  "('s \<Rightarrow> int \<Rightarrow> fs_off_t \<Rightarrow> bool) \<Rightarrow> ('s \<Rightarrow> int \<Rightarrow> fs_off_t \<Rightarrow> byte list) \<Rightarrow> 's \<Rightarrow> 's \<Rightarrow> bool" where
  "same_store has look s s' \<longleftrightarrow> (\<forall>d c. has s' d c = has s d c) \<and>
     (\<forall>d c. has s d c \<longrightarrow> look s' d c = look s d c)"

lemma same_store_trans:
  "same_store has look s s1 \<Longrightarrow> same_store has look s1 s2 \<Longrightarrow> same_store has look s s2"
  by (simp add: same_store_def)

locale block_store =
  fixes inv :: "'s \<Rightarrow> bool"
    and has :: "'s \<Rightarrow> int \<Rightarrow> fs_off_t \<Rightarrow> bool"
    and size :: "int \<Rightarrow> int"
    and look :: "'s \<Rightarrow> int \<Rightarrow> fs_off_t \<Rightarrow> byte list"
    and pin :: "'s \<Rightarrow> int \<Rightarrow> fs_off_t \<Rightarrow> int"
    and unsaved :: "'s \<Rightarrow> int \<Rightarrow> fs_off_t \<Rightarrow> bool"
    and addr :: "'s \<Rightarrow> int \<Rightarrow> fs_off_t \<Rightarrow> nat option"
    and cap :: "'s \<Rightarrow> int"
    and get :: "int \<Rightarrow> fs_off_t \<Rightarrow> int \<Rightarrow> 's \<Rightarrow> (nat option \<times> 's) option"
    and load :: "nat \<Rightarrow> 's \<Rightarrow> byte list"
    and store :: "nat \<Rightarrow> byte list \<Rightarrow> 's \<Rightarrow> 's"
    and mark :: "int \<Rightarrow> fs_off_t \<Rightarrow> int \<Rightarrow> 's \<Rightarrow> (errno \<times> 's) option"
    and release :: "int \<Rightarrow> fs_off_t \<Rightarrow> 's \<Rightarrow> (errno \<times> 's) option"
  assumes pin_nonneg: "inv s \<Longrightarrow> 0 \<le> pin s d b"
    and look_length: "inv s \<Longrightarrow> has s d b \<Longrightarrow> length (look s d b) = nat (size d)"
    and unsaved_pinned: "inv s \<Longrightarrow> unsaved s d b \<Longrightarrow> 0 < pin s d b"
    and load_law: "inv s \<Longrightarrow> addr s d b = Some a \<Longrightarrow> load a s = look s d b"
    and get_law: "inv s \<Longrightarrow> has s d b \<Longrightarrow> size d < 64 * 1024 \<Longrightarrow> int (card (held pin s)) < cap s \<Longrightarrow>
      \<exists>a s'. get d b (size d) s = Some (Some a, s') \<and> inv s' \<and> same_store has look s s' \<and>
        addr s' d b = Some a \<and> pin s' = (pin s)(d := (pin s d)(b := pin s d b + 1)) \<and> cap s' = cap s \<and>
        (\<forall>d' c. unsaved s' d' c \<longrightarrow> unsaved s d' c) \<and>
        (\<forall>d' c. 0 < pin s d' c \<longrightarrow> addr s' d' c = addr s d' c) \<and>
        (\<forall>d' c. addr s d' c = None \<and> c < b \<longrightarrow> addr s' d' c = None)"
    and store_law: "inv s \<Longrightarrow> addr s d b = Some a \<Longrightarrow> 0 < pin s d b \<Longrightarrow> length xs = nat (size d) \<Longrightarrow>
      inv (store a xs s) \<and> has (store a xs s) = has s \<and>
      look (store a xs s) = (look s)(d := (look s d)(b := xs)) \<and> pin (store a xs s) = pin s \<and>
      addr (store a xs s) = addr s \<and> cap (store a xs s) = cap s \<and>
      (\<forall>d' c. unsaved (store a xs s) d' c \<longrightarrow> unsaved s d' c \<or> (d', c) = (d, b))"
    and mark_law: "inv s \<Longrightarrow> 0 < pin s d b \<Longrightarrow> \<exists>s'. mark d b 1 s = Some (0, s') \<and> inv s' \<and> has s' = has s \<and>
      look s' = look s \<and> pin s' = pin s \<and> addr s' = addr s \<and> cap s' = cap s \<and>
      (\<forall>d' c. unsaved s' d' c \<longrightarrow> unsaved s d' c \<and> (d', c) \<noteq> (d, b))"
    and release_law: "inv s \<Longrightarrow> 0 < pin s d b \<Longrightarrow> (pin s d b = 1 \<Longrightarrow> \<not> unsaved s d b) \<Longrightarrow>
      \<exists>s'. release d b s = Some (0, s') \<and> inv s' \<and> has s' = has s \<and> look s' = look s \<and>
        pin s' = (pin s)(d := (pin s d)(b := pin s d b - 1)) \<and> addr s' = addr s \<and> cap s' = cap s \<and>
        (\<forall>d' c. unsaved s' d' c \<longrightarrow> unsaved s d' c)"
begin

text \<open>What the file system keeps at each step: no block is left unsaved, the pins are as they were.\<close>

definition calm :: "'s \<Rightarrow> 's \<Rightarrow> bool" where
  "calm s s' \<longleftrightarrow> inv s' \<and> has s' = has s \<and> pin s' = pin s \<and> cap s' = cap s \<and>
     (\<forall>d c. unsaved s' d c \<longrightarrow> unsaved s d c) \<and> (\<forall>d c. 0 < pin s d c \<longrightarrow> addr s' d c = addr s d c)"

lemma calm_trans: "calm s s1 \<Longrightarrow> calm s1 s2 \<Longrightarrow> calm s s2"
  by (simp add: calm_def)

lemma calm_refl: "inv s \<Longrightarrow> calm s s"
  by (simp add: calm_def)

text \<open>Looking at a block: \<open>get_block\<close>, reads through the pointer, \<open>release_block\<close>.\<close>

lemma visit_block:
  assumes s: "inv s" "has s d b" "size d < 64 * 1024" "int (card (held pin s)) < cap s" "\<not> unsaved s d b"
  shows "\<exists>a s1 s2. get d b (size d) s = Some (Some a, s1) \<and> load a s1 = look s d b \<and>
    release d b s1 = Some (0, s2) \<and> calm s s2 \<and> same_store has look s s2 \<and>
    (\<forall>d' c. addr s d' c = None \<and> c < b \<longrightarrow> addr s2 d' c = None)"
proof -
  obtain a s1 where g: "get d b (size d) s = Some (Some a, s1)" and i: "inv s1"
    and ss: "same_store has look s s1" and a: "addr s1 d b = Some a"
    and p: "pin s1 = (pin s)(d := (pin s d)(b := pin s d b + 1))" and c: "cap s1 = cap s"
    and u: "\<forall>d' c. unsaved s1 d' c \<longrightarrow> unsaved s d' c" and ad: "\<forall>d' c. 0 < pin s d' c \<longrightarrow> addr s1 d' c = addr s d' c"
    and no: "\<forall>d' c. addr s d' c = None \<and> c < b \<longrightarrow> addr s1 d' c = None"
    using get_law [OF s(1-4)] by blast
  have "0 < pin s1 d b" using pin_nonneg [OF s(1), of d b] p by simp
  moreover have "\<not> unsaved s1 d b" using u s(5) by blast
  ultimately obtain s2 where r: "release d b s1 = Some (0, s2)" "inv s2" "has s2 = has s1" "look s2 = look s1"
    "pin s2 = (pin s1)(d := (pin s1 d)(b := pin s1 d b - 1))" "addr s2 = addr s1" "cap s2 = cap s1"
    "\<forall>d' c. unsaved s2 d' c \<longrightarrow> unsaved s1 d' c" using release_law [OF i] by blast
  have "calm s s2" using r p c u ad ss by (auto simp: calm_def same_store_def fun_eq_iff)
  moreover have "same_store has look s s2" using ss r by (simp add: same_store_def)
  moreover have "load a s1 = look s d b" using load_law [OF i a] ss s(2) by (simp add: same_store_def)
  moreover have "\<forall>d' c. addr s d' c = None \<and> c < b \<longrightarrow> addr s2 d' c = None" using r(6) no by simp
  ultimately show ?thesis using g r(1) by blast
qed

text \<open>Changing a block: \<open>get_block\<close>, writes through the pointer, \<open>mark_blocks_dirty\<close>, \<open>release_block\<close>.\<close>

lemma change_block:
  assumes s: "inv s" "has s d b" "size d < 64 * 1024" "int (card (held pin s)) < cap s"
    and f: "length (f (look s d b)) = nat (size d)"
  shows "\<exists>a s1 s2 s3. get d b (size d) s = Some (Some a, s1) \<and> load a s1 = look s d b \<and>
    mark d b 1 (store a (f (load a s1)) s1) = Some (0, s2) \<and> release d b s2 = Some (0, s3) \<and>
    calm s s3 \<and> \<not> unsaved s3 d b \<and>
    (\<forall>d' c. has s d' c \<longrightarrow> look s3 d' c = (if (d', c) = (d, b) then f (look s d b) else look s d' c)) \<and>
    (\<forall>d' c. addr s d' c = None \<and> c < b \<longrightarrow> addr s3 d' c = None)"
proof -
  obtain a s1 where g: "get d b (size d) s = Some (Some a, s1)" and i: "inv s1"
    and ss: "same_store has look s s1" and a: "addr s1 d b = Some a"
    and p: "pin s1 = (pin s)(d := (pin s d)(b := pin s d b + 1))" and c: "cap s1 = cap s"
    and u: "\<forall>d' c. unsaved s1 d' c \<longrightarrow> unsaved s d' c" and ad: "\<forall>d' c. 0 < pin s d' c \<longrightarrow> addr s1 d' c = addr s d' c"
    and no: "\<forall>d' c. addr s d' c = None \<and> c < b \<longrightarrow> addr s1 d' c = None"
    using get_law [OF s(1-4)] by blast
  have pos: "0 < pin s1 d b" using pin_nonneg [OF s(1), of d b] p by simp
  have l: "load a s1 = look s d b" using load_law [OF i a] ss s(2) by (simp add: same_store_def)
  let ?xs = "f (look s d b)"
  note w = store_law [OF i a pos f]
  obtain s2 where m: "mark d b 1 (store a ?xs s1) = Some (0, s2)" "inv s2" "has s2 = has (store a ?xs s1)"
    "look s2 = look (store a ?xs s1)" "pin s2 = pin (store a ?xs s1)" "addr s2 = addr (store a ?xs s1)"
    "cap s2 = cap (store a ?xs s1)"
    "\<forall>d' c. unsaved s2 d' c \<longrightarrow> unsaved (store a ?xs s1) d' c \<and> (d', c) \<noteq> (d, b)"
    using mark_law [of "store a ?xs s1" d b] w pos by metis
  have "\<not> unsaved s2 d b" using m(8) by blast
  moreover have "0 < pin s2 d b" using m(5) w pos by simp
  ultimately obtain s3 where r: "release d b s2 = Some (0, s3)" "inv s3" "has s3 = has s2" "look s3 = look s2"
    "pin s3 = (pin s2)(d := (pin s2 d)(b := pin s2 d b - 1))" "addr s3 = addr s2" "cap s3 = cap s2"
    "\<forall>d' c. unsaved s3 d' c \<longrightarrow> unsaved s2 d' c" using release_law [OF m(2)] by blast
  have us: "unsaved s3 d' c \<longrightarrow> unsaved s d' c \<and> (d', c) \<noteq> (d, b)" for d' c using r(8) m(8) w u by blast
  have "calm s s3" unfolding calm_def
    using r(2,3,5,6,7) m(3,5,6,7) w p c us ad ss by (simp add: same_store_def fun_eq_iff)
  moreover have "look s3 d' c = (if (d', c) = (d, b) then ?xs else look s d' c)" if "has s d' c" for d' c
    using r(4) m(4) w ss that by (auto simp: same_store_def)
  moreover have "\<forall>d' c. addr s d' c = None \<and> c < b \<longrightarrow> addr s3 d' c = None" using r(6) m(6) w no by simp
  ultimately show ?thesis using g l m(1) r(1) us [of d b]
    by - (rule exI [of _ a], rule exI [of _ s1], rule exI [of _ s2], rule exI [of _ s3], auto)
qed

end

section \<open>The cache keeps the contract\<close>

definition block_addr :: "block_cache \<Rightarrow> int \<Rightarrow> fs_off_t \<Rightarrow> nat option" where
  "block_addr s d b = ht_map (ht s) (d, b)"

definition pin_room :: "block_cache \<Rightarrow> int" where
  "pin_room s = max_blocks s - int NUM_FLUSH_BLOCKS"

text \<open>The locked list has one entry for every pinned block.\<close>

lemma held_card:
  assumes inv: "cache_inv bs s"
  shows "card (held pins s) = length (locked s)"
proof -
  note D = cache_invD [OF inv]
  have "held pins s = (\<lambda>a. ce_key (ents s a)) ` set (locked s)"
  proof (intro equalityI subsetI)
    fix x assume "x \<in> held pins s"
    then obtain d b where x: "x = (d, b)" "0 < pins s d b" by (auto simp: held_def)
    then obtain a where "a \<in> set (locked s)" "ht_map (ht s) (d, b) = Some a" using pinned_locked [OF inv] by blast
    then show "x \<in> (\<lambda>a. ce_key (ents s a)) ` set (locked s)" using D(5) x(1) by force
  next
    fix x assume "x \<in> (\<lambda>a. ce_key (ents s a)) ` set (locked s)"
    then obtain a where a: "a \<in> set (locked s)" "x = ce_key (ents s a)" by blast
    obtain d b where x: "x = (d, b)" by fastforce
    have "ht_map (ht s) (d, b) = Some a" using D(5) [of "(d, b)" a] a x by (simp add: listed_def)
    then show "x \<in> held pins s" using pinned_locked [OF inv] a(1) x by (auto simp: held_def)
  qed
  moreover have "inj_on (\<lambda>a. ce_key (ents s a)) (set (locked s))"
    using cache_inv_key_inj [OF inv] by (auto intro!: inj_onI simp: listed_def)
  ultimately show ?thesis using D(3) by (simp add: card_image distinct_card)
qed

lemma get_block_law:
  assumes inv: "cache_inv bs s" and on: "on_device s d b" and z: "bs d < 64 * 1024"
    and room: "int (card (held pins s)) < pin_room s"
  shows "\<exists>a s'. get_block d b (bs d) s = Some (Some a, s') \<and> cache_inv bs s' \<and>
    same_store on_device (view bs) s s' \<and> block_addr s' d b = Some a \<and>
    pins s' = (pins s)(d := (pins s d)(b := pins s d b + 1)) \<and> pin_room s' = pin_room s \<and>
    (\<forall>d' c. stale bs s' d' c \<longrightarrow> stale bs s d' c) \<and>
    (\<forall>d' c. 0 < pins s d' c \<longrightarrow> block_addr s' d' c = block_addr s d' c) \<and>
    (\<forall>d' c. block_addr s d' c = None \<and> c < b \<longrightarrow> block_addr s' d' c = None)"
proof -
  let ?op = "op_none\<lparr>CACHE_READ := True, CACHE_LOCKED := True, CACHE_READ_AHEAD_OK := True\<rparr>"
  have "request_ok bs ?op True d b 1 [] s"
    using on z room held_card [OF inv] by (simp add: request_ok_def on_device_def room_for_def pin_room_def op_none_def)
  moreover have "good_op ?op True" by (simp add: good_op_def)
  ultimately obtain p s' where c: "cache_block_io d b None (int 1) (bs d) ?op True s =
      Some (0, concat (map (io_val bs ?op d b [] s) [0..<1]), p, s')" and sv: "served bs ?op d b [] 1 s s'"
    and p: "CACHE_LOCKED ?op \<or> True \<Longrightarrow> p = ht_map (ht s') (d, b + int 1 - 1) \<and> p \<noteq> None"
    by (rule cache_block_io_good [OF inv, of _ True _ _ _ "[]" None True]) simp_all
  note S = servedD [OF sv]
  obtain a where a: "p = Some a" "ht_map (ht s') (d, b) = Some a" using p by auto
  have g: "get_block d b (bs d) s = Some (Some a, s')" using c a(1) by (simp add: get_block_def)
  have run: "in_run d b (Suc 0) d' c \<longleftrightarrow> d' = d \<and> c = b" for d' c by (auto simp: in_run_def)
  have v: "same_store on_device (view bs) s s'"
    using S(3,4) by (auto simp: same_store_def on_device_def run io_val_def op_data_def)
  have pn: "pins s' = (pins s)(d := (pins s d)(b := pins s d b + 1))"
    using S(5) by (auto simp: fun_eq_iff run)
  show ?thesis using g S(1,2,6,7,9) v pn a(2) by (auto simp: block_addr_def pin_room_def)
qed

lemma upd_ent_pins:
  assumes inv: "cache_inv bs s" and c: "ht_map (ht s) (d, b) = Some a"
    and f: "ce_lock (f (ents s a)) = ce_lock (ents s a)"
  shows "pins (upd_ent a f s) = pins s"
  using f by (auto simp: fun_eq_iff pins_def upd_ent_def split: option.split)

lemma stale_upd_ent:
  assumes inv: "cache_inv bs s" and c: "ht_map (ht s) (d, b) = Some a" and st: "stale bs (upd_ent a f s) d' c"
    and k: "ce_dev (f (ents s a)) = d" "block_num (f (ents s a)) = b"
  shows "(d', c) \<noteq> (d, b) \<and> stale bs s d' c \<or>
    (d', c) = (d, b) \<and> \<not> settled (f (ents s a)) (ent_blk bs s a)"
proof -
  obtain x where x: "ht_map (ht s) (d', c) = Some x"
    and ns: "\<not> settled (ents (upd_ent a f s) x) (ent_blk bs (upd_ent a f s) x)"
    using st by (auto simp: stale_def upd_ent_def split: option.splits)
  have "x = a \<longleftrightarrow> (d', c) = (d, b)"
    using x c cache_inv_lookup(2,3) [OF inv x] cache_inv_lookup(2,3) [OF inv c] by (metis option.inject)
  then show ?thesis using ns x c k cache_inv_lookup(2,3) [OF inv c] by (cases "x = a") (auto simp: upd_ent_def stale_def)
qed

lemma poke_law:
  assumes inv: "cache_inv bs s" and a: "block_addr s d b = Some a" and p: "0 < pins s d b"
    and len: "length xs = nat (bs d)"
  shows "cache_inv bs (poke a xs s) \<and> on_device (poke a xs s) = on_device s \<and>
      view bs (poke a xs s) = (view bs s)(d := (view bs s d)(b := xs)) \<and> pins (poke a xs s) = pins s \<and>
      block_addr (poke a xs s) = block_addr s \<and> pin_room (poke a xs s) = pin_room s \<and>
      (\<forall>d' c. stale bs (poke a xs s) d' c \<longrightarrow> stale bs s d' c \<or> (d', c) = (d, b))"
proof -
  have c: "ht_map (ht s) (d, b) = Some a" using a by (simp add: block_addr_def)
  note l = cache_inv_lookup [OF inv c]
  have lk: "a \<in> set (locked s)" using p c pinned_locked [OF inv] by auto
  have "length xs = length (ce_data (ents s a))" using cache_invD(6) [OF inv l(1)] l len by (simp add: sound_ent_def)
  note pk = poke_inv [OF inv lk this, of d b]
  have st: "stale bs s d' e \<or> (d', e) = (d, b)" if "stale bs (poke a xs s) d' e" for d' e
    using stale_upd_ent [OF inv c that [unfolded poke_def]] l by auto
  show ?thesis using pk l st upd_ent_pins [OF inv c, of "\<lambda>ce. ce\<lparr>ce_data := xs\<rparr>"]
    by (simp add: ce_key_def poke_def block_addr_def pin_room_def on_device_def fun_eq_iff upd_ent_def)
qed

lemma mark_law:
  assumes inv: "cache_inv bs s" and p: "0 < pins s d b"
  shows "\<exists>s'. mark_blocks_dirty d b 1 s = Some (0, s') \<and> cache_inv bs s' \<and> on_device s' = on_device s \<and>
      view bs s' = view bs s \<and> pins s' = pins s \<and> block_addr s' = block_addr s \<and> pin_room s' = pin_room s \<and>
      (\<forall>d' c. stale bs s' d' c \<longrightarrow> stale bs s d' c \<and> (d', c) \<noteq> (d, b))"
proof -
  obtain a where c: "ht_map (ht s) (d, b) = Some a" using p pinned_locked [OF inv] by blast
  note l = cache_inv_lookup [OF inv c]
  let ?s = "upd_ent a (\<lambda>ce. ce\<lparr>ce_dirty := True\<rparr>) s"
  have st: "stale bs s d' e \<and> (d', e) \<noteq> (d, b)" if "stale bs ?s d' e" for d' e
    using stale_upd_ent [OF inv c that] l by (auto simp: settled_def)
  show ?thesis
    by (intro exI [of _ ?s] conjI)
       (use mark_blocks_dirty_one [OF inv c] mark_one_inv [OF inv l(1)] upd_ent_pins [OF inv c] st in
         \<open>auto simp: block_addr_def pin_room_def on_device_def fun_eq_iff upd_ent_def\<close>)
qed

lemma release_law:
  assumes inv: "cache_inv bs s" and p: "0 < pins s d b" and st: "pins s d b = 1 \<Longrightarrow> \<not> stale bs s d b"
  shows "\<exists>s'. release_block d b s = Some (0, s') \<and> cache_inv bs s' \<and> on_device s' = on_device s \<and>
      view bs s' = view bs s \<and> pins s' = (pins s)(d := (pins s d)(b := pins s d b - 1)) \<and>
      block_addr s' = block_addr s \<and> pin_room s' = pin_room s \<and>
      (\<forall>d' c. stale bs s' d' c \<longrightarrow> stale bs s d' c)"
proof -
  obtain a where a: "a \<in> set (locked s)" and c: "ht_map (ht s) (d, b) = Some a"
    using p pinned_locked [OF inv] by blast
  note l = cache_inv_lookup [OF inv c]
  let ?s = "drop_lock a s"
  have f: "ht ?s = ht s" "devs ?s = devs s" "max_blocks ?s = max_blocks s"
    "max_device_blocks ?s = max_device_blocks s"
    "ents ?s = (ents s)(a := (ents s a)\<lparr>ce_lock := ce_lock (ents s a) - 1\<rparr>)"
    by (simp_all add: drop_lock_def Let_def upd_ent_def)
  have "settled (ents s a) (ent_blk bs s a)" if "ce_lock (ents s a) = 1"
    using st that c by (simp add: pins_def stale_def)
  note dl = drop_lock_inv [OF inv a this]
  have key: "x = a \<longleftrightarrow> (d', e) = (d, b)" if "ht_map (ht s) (d', e) = Some x" for d' e x
    using that c cache_inv_lookup(2,3) [OF inv that] l(2,3) by (metis option.inject)
  have pn: "pins ?s = (pins s)(d := (pins s d)(b := pins s d b - 1))"
    using key c by (fastforce simp: pins_def f fun_eq_iff split: option.splits)
  have sl: "stale bs s d' e" if "stale bs ?s d' e" for d' e
    using that by (auto simp: stale_def f split: option.splits if_splits)
  show ?thesis
    by (intro exI [of _ ?s] conjI)
       (use release_block_eq [OF inv c] dl pn sl f in \<open>auto simp: block_addr_def pin_room_def on_device_def fun_eq_iff\<close>)
qed

interpretation bc: block_store "cache_inv bs" on_device bs "view bs" pins "stale bs" block_addr pin_room
    get_block peek poke mark_blocks_dirty release_block
  for bs
proof (unfold_locales, goal_cases)
  case (1 s d b)
  then show ?case by (rule pins_nonneg)
next
  case (2 s d b)
  then show ?case by (rule view_length)
next
  case (3 s d b)
  then show ?case by (rule stale_pinned)
next
  case (4 s d b a)
  then show ?case by (simp add: peek_def block_addr_def view_cached)
next
  case (5 s d b)
  then show ?case by (rule get_block_law)
next
  case (6 s d b a xs)
  then show ?case by (rule poke_law)
next
  case (7 s d b)
  then show ?case by (rule mark_law)
next
  case (8 s d b)
  then show ?case by (intro release_law)
qed

end
