(* ===== verification/Cache_Sync.thy ===== *)
theory Cache_Sync
  imports Block_Store
begin

text \<open>
  Flushing a device: it ends, it changes nothing a client sees, and afterwards the device holds what
  the clients see of every block that is not pinned.
\<close>

section \<open>Flushing a set of entries\<close>

definition synced :: "(int \<Rightarrow> int) \<Rightarrow> block_cache \<Rightarrow> block_cache \<Rightarrow> bool" where
  "synced bs s s' \<longleftrightarrow> cache_inv bs s' \<and> s' = s\<lparr>ents := ents s', devs := devs s', calls := calls s'\<rparr> \<and>
     (\<forall>a. same_core (ents s a) (ents s' a)) \<and> (\<forall>d c. on_device s d c \<longrightarrow> view bs s' d c = view bs s d c) \<and>
     (\<forall>d c. stale bs s' d c \<longrightarrow> stale bs s d c) \<and>
     (\<forall>a. (ce_dirty (ents s' a) \<longrightarrow> ce_dirty (ents s a)) \<and> (ce_clone (ents s a) = None \<longrightarrow> ce_clone (ents s' a) = None))"

lemma synced_fields:
  assumes "synced bs s s'"
  shows "normal s' = normal s" "locked s' = locked s" "ht s' = ht s" "max_blocks s' = max_blocks s"
    "max_device_blocks s' = max_device_blocks s" "listed s' = listed s" "on_device s' = on_device s"
    "pin_room s' = pin_room s" "block_addr s' = block_addr s" "pins s' = pins s"
proof -
  obtain e v k where "s' = s\<lparr>ents := e, devs := v, calls := k\<rparr>" using assms unfolding synced_def by blast
  then show f: "normal s' = normal s" "locked s' = locked s" "ht s' = ht s" "max_blocks s' = max_blocks s"
    "max_device_blocks s' = max_device_blocks s" "listed s' = listed s" "on_device s' = on_device s"
    "pin_room s' = pin_room s" "block_addr s' = block_addr s"
    by (simp_all add: listed_def on_device_def pin_room_def block_addr_def fun_eq_iff)
  have "ce_lock (ents s' a) = ce_lock (ents s a)" for a
    using assms same_core_simps(5) unfolding synced_def by blast
  then show "pins s' = pins s" by (auto simp: fun_eq_iff pins_def f split: option.split)
qed

lemma synced_refl: "cache_inv bs s \<Longrightarrow> synced bs s s"
  by (simp add: synced_def)

lemma same_core_trans: "same_core a b \<Longrightarrow> same_core b c \<Longrightarrow> same_core a c"
proof -
  assume "same_core a b" "same_core b c"
  then obtain d1 c1 f1 d2 c2 f2 where "b = a\<lparr>ce_dirty := d1, ce_clone := c1, ce_func := f1\<rparr>"
    "c = b\<lparr>ce_dirty := d2, ce_clone := c2, ce_func := f2\<rparr>" by (auto simp: same_core_def)
  then have "c = a\<lparr>ce_dirty := d2, ce_clone := c2, ce_func := f2\<rparr>" by simp
  then show ?thesis unfolding same_core_def by blast
qed

lemma synced_trans:
  assumes 1: "synced bs s s1" and 2: "synced bs s1 s2"
  shows "synced bs s s2"
proof -
  obtain e1 v1 k1 e2 v2 k2 where "s1 = s\<lparr>ents := e1, devs := v1, calls := k1\<rparr>"
    "s2 = s1\<lparr>ents := e2, devs := v2, calls := k2\<rparr>" using 1 2 unfolding synced_def by blast
  then have "s2 = s\<lparr>ents := ents s2, devs := devs s2, calls := calls s2\<rparr>" by simp
  moreover have "same_core (ents s a) (ents s2 a)" for a
    using 1 2 same_core_trans unfolding synced_def by blast
  ultimately show ?thesis
    using 1 2 synced_fields(7) [OF 1] unfolding synced_def by simp
qed

lemma flushed_synced:
  assumes inv: "cache_inv bs s" and r: "flushed_rel bs A s s'" and A: "A \<subseteq> listed s"
  shows "synced bs s s'"
proof -
  note D = cache_invD [OF inv]
  obtain e v k where eq: "s' = s\<lparr>ents := e, devs := v, calls := k\<rparr>" using r unfolding flushed_rel_def by blast
  then have F: "normal s' = normal s" "locked s' = locked s" "ht s' = ht s" "next_addr s' = next_addr s"
    "cur_blocks s' = cur_blocks s" "mem_ok s' = mem_ok s" "iovecs_idle s' = iovecs_idle s" "listed s' = listed s"
    "max_device_blocks s' = max_device_blocks s" "on_device s' = on_device s"
    by (simp_all add: iovecs_idle_def listed_def on_device_def fun_eq_iff)
  have core: "same_core (ents s a) (ents s' a)" for a using r unfolding flushed_rel_def by blast
  note C = same_core_simps [OF core]
  have shape: "devs_shape (devs s) (devs s')" using r unfolding flushed_rel_def by blast
  note sh = dev_ok_shape [OF shape]
  have out: "ents s' a = ents s a" if "a \<notin> A" for a using r that unfolding flushed_rel_def by blast
  have inA: "ce_clone (ents s' a) = None \<and> (ce_lock (ents s a) = 0 \<longrightarrow> \<not> ce_dirty (ents s' a)) \<and>
        (ce_lock (ents s a) \<noteq> 0 \<longrightarrow> ce_dirty (ents s' a) = ce_dirty (ents s a)) \<and>
        (settled (ents s a) (ent_blk bs s a) \<longrightarrow>
         settled (ents s' a) (blk_of bs (devs s') (ce_dev (ents s a)) (block_num (ents s a))))" if "a \<in> A" for a
    using r that unfolding flushed_rel_def by blast
  have disk: "blk_of bs (devs s') d b = blk_of bs (devs s) d b"
    if "(d, b) \<notin> ce_key ` ents s ` A" "on_device s d b" for d b
  proof -
    have "dev_ok bs (devs s) d (max_device_blocks s d)" using D(15) that(2) by (auto simp: devs_ok_def on_device_def)
    then show ?thesis using r that unfolding flushed_rel_def on_device_def by blast
  qed
  have st: "settled (ents s' a) (ent_blk bs s' a)" if a: "a \<in> listed s" "settled (ents s a) (ent_blk bs s a)" for a
  proof (cases "a \<in> A")
    case True
    then show ?thesis using inA a(2) C by simp
  next
    case False
    have "ce_key (ents s a) \<notin> ce_key ` ents s ` A"
    proof
      assume "ce_key (ents s a) \<in> ce_key ` ents s ` A"
      then obtain x where x: "x \<in> A" "ce_key (ents s x) = ce_key (ents s a)" by force
      then have "x = a" using A a(1) by (intro cache_inv_key_inj [OF inv]) auto
      with x False show False by simp
    qed
    moreover have "on_device s (ce_dev (ents s a)) (block_num (ents s a))"
      using D(6) [OF a(1)] by (simp add: sound_ent_def on_device_def)
    ultimately have "ent_blk bs s' a = ent_blk bs s a" using disk C by (simp add: ce_key_def)
    with a(2) out [OF False] show ?thesis by simp
  qed
  have so: "sound_ent bs s' (ents s' a)" if "a \<in> listed s" for a
    using D(6) [OF that] C sh F(9) inA [of a] out [of a] by (cases "a \<in> A") (auto simp: sound_ent_def)
  have inv': "cache_inv bs s'" unfolding cache_inv_def F
  proof (intro conjI)
    show "devs_ok bs s'" using D(15) sh F(9) by (simp add: devs_ok_def)
  qed (use D C so st in \<open>simp_all add: listed_def\<close>)
  have vw: "view bs s' d c = view bs s d c" if "on_device s d c" for d c
  proof (cases "ht_map (ht s) (d, c)")
    case None
    have "(d, c) \<notin> ce_key ` ents s ` A" using None A D(5) [of "(d, c)"] by force
    then show ?thesis using disk [OF _ that] None by (simp add: view_def F)
  qed (simp add: view_def F C)
  have sl: "stale bs s d c" if "stale bs s' d c" for d c
    using that st cache_inv_lookup(1) [OF inv] by (auto simp: stale_def F split: option.splits)
  have df: "(ce_dirty (ents s' a) \<longrightarrow> ce_dirty (ents s a)) \<and>
      (ce_clone (ents s a) = None \<longrightarrow> ce_clone (ents s' a) = None)" for a
    using inA [of a] out [of a] by (cases "a \<in> A") auto
  have "s' = s\<lparr>ents := ents s', devs := devs s', calls := calls s'\<rparr>" using eq by simp
  then show ?thesis unfolding synced_def using inv' core vw sl df by blast
qed

section \<open>\<open>do_flush\<close>\<close>

lemma fold_busy:
  "fold (set_busy p) as s = s\<lparr>ents := (\<lambda>a. if a \<in> set as then (ents s a)\<lparr>ce_busy := p\<rparr> else ents s a)\<rparr>"
  by (induction as arbitrary: s) (auto simp: set_busy_def upd_ent_def fun_eq_iff intro!: block_cache.equality)

lemma do_flush_good:
  assumes inv: "cache_inv bs s" and as: "distinct as" "set as \<subseteq> listed s"
  obtains s' where "do_flush as s = Some s'" "synced bs s s'"
    "\<forall>a \<in> set as. ce_clone (ents s' a) = None \<and> (ce_lock (ents s a) = 0 \<longrightarrow> \<not> ce_dirty (ents s' a))"
proof -
  note D = cache_invD [OF inv]
  let ?s1 = "fold (set_busy True) as s"
  let ?q = "sort_ents (ents ?s1) as"
  have so: "\<forall>a \<in> set ?q. sound_ent bs ?s1 (ents ?s1 a)"
    using D(6) as(2) by (auto simp: fold_busy sound_ent_def)
  have key: "ce_key (ents ?s1 a) = ce_key (ents s a)" for a by (simp add: fold_busy ce_key_def)
  have "inj_on (\<lambda>a. ce_key (ents s a)) (set as)"
    using cache_inv_key_inj [OF inv] as(2) by (auto intro!: inj_onI)
  then have dk: "distinct_keys ?s1 ?q"
    using as(1) by (simp add: distinct_keys_def distinct_map key)
  have "iovecs_idle ?s1" using D(14) by (simp add: iovecs_idle_def fold_busy)
  then obtain s2 where f: "flush_ents ?q ?s1 = Some (0, s2)" and r0: "flushed_rel bs (set ?q) ?s1 s2"
    using flush_ents_good [OF _ so dk] by blast
  have r: "flushed_rel bs (set as) ?s1 s2" using r0 by simp
  let ?s3 = "fold (set_busy False) as s2"
  have df: "do_flush as s = Some ?s3" using f by (simp add: do_flush_def)
  obtain e v k where eq: "s2 = ?s1\<lparr>ents := e, devs := v, calls := k\<rparr>" using r unfolding flushed_rel_def by blast
  have C: "same_core (ents ?s1 a) (ents s2 a)" for a using r unfolding flushed_rel_def by blast
  have core3: "same_core (ents s a) (ents ?s3 a)" for a
  proof -
    obtain x y z where "ents s2 a = (ents ?s1 a)\<lparr>ce_dirty := x, ce_clone := y, ce_func := z\<rparr>"
      using C [of a] by (auto simp: same_core_def)
    moreover have "\<not> ce_busy (ents s a)" if "a \<in> set as" using D(7) as(2) that by blast
    ultimately have "ents ?s3 a = (ents s a)\<lparr>ce_dirty := x, ce_clone := y, ce_func := z\<rparr>"
      by (auto simp: fold_busy intro!: cache_ent.equality)
    then show ?thesis unfolding same_core_def by blast
  qed
  have "flushed_rel bs (set as) s ?s3"
    unfolding flushed_rel_def
  proof (intro conjI)
    show "?s3 = s\<lparr>ents := ents ?s3, devs := devs ?s3, calls := calls ?s3\<rparr>" using eq by (simp add: fold_busy)
    show "\<forall>a. same_core (ents s a) (ents ?s3 a)" using core3 by blast
    show "\<forall>a. a \<notin> set as \<longrightarrow> ents ?s3 a = ents s a" using r by (simp add: flushed_rel_def fold_busy)
    have bl: "blk_of bs (devs ?s3) = blk_of bs (devs s2)" "blk_of bs (devs ?s1) = blk_of bs (devs s)"
      by (simp_all add: fold_busy)
    show "\<forall>a\<in>set as. ce_clone (ents ?s3 a) = None \<and> (ce_lock (ents s a) = 0 \<longrightarrow> \<not> ce_dirty (ents ?s3 a)) \<and>
        (ce_lock (ents s a) \<noteq> 0 \<longrightarrow> ce_dirty (ents ?s3 a) = ce_dirty (ents s a)) \<and>
        (settled (ents s a) (ent_blk bs s a) \<longrightarrow>
         settled (ents ?s3 a) (blk_of bs (devs ?s3) (ce_dev (ents s a)) (block_num (ents s a))))"
      using r unfolding bl by (simp add: flushed_rel_def fold_busy)
    have "ce_key ` ents ?s1 ` set as = ce_key ` ents s ` set as" using key by (auto simp: image_iff)
    then show "\<forall>d b. (d, b) \<notin> ce_key ` ents s ` set as \<longrightarrow> 0 \<le> b \<longrightarrow> b < max_device_blocks s d \<longrightarrow>
        dev_ok bs (devs s) d (max_device_blocks s d) \<longrightarrow> blk_of bs (devs ?s3) d b = blk_of bs (devs s) d b"
      using r unfolding flushed_rel_def bl by (simp add: fold_busy)
    show "devs_shape (devs s) (devs ?s3)" using r by (simp add: flushed_rel_def fold_busy)
  qed
  then have sy: "synced bs s ?s3" and cl: "\<forall>a \<in> set as.
      ce_clone (ents ?s3 a) = None \<and> (ce_lock (ents s a) = 0 \<longrightarrow> \<not> ce_dirty (ents ?s3 a))"
    using flushed_synced [OF inv _ as(2)] unfolding flushed_rel_def by blast+
  show thesis by (rule that [OF df sy cl])
qed

section \<open>The walk over a list\<close>

text \<open>A list of the cache and the test of its entries that have to be written.\<close>

definition flushable :: "(int \<Rightarrow> int) \<Rightarrow> (block_cache \<Rightarrow> nat list) \<Rightarrow> (cache_ent \<Rightarrow> bool) \<Rightarrow> bool" where
  "flushable bs lst want \<longleftrightarrow> (lst = normal \<and> want = to_write \<or> lst = locked \<and> want = (\<lambda>ce. ce_clone ce \<noteq> None))"

lemma flushableD:
  assumes f: "flushable bs lst want" and inv: "cache_inv bs s"
  shows "set (lst s) \<subseteq> listed s" "distinct (lst s)" "synced bs s s' \<Longrightarrow> lst s' = lst s"
    "synced bs s s' \<Longrightarrow> want (ents s' a) \<Longrightarrow> want (ents s a)"
    "a \<in> set (lst s) \<Longrightarrow> ce_clone ce = None \<and> (ce_lock (ents s a) = 0 \<longrightarrow> \<not> ce_dirty ce) \<Longrightarrow> \<not> want ce"
  using f cache_invD(2,3,9) [OF inv] synced_fields(1,2) [of bs s s']
  by (auto simp: flushable_def listed_def synced_def to_write_def)

lemma flush_scan_good:
  assumes fl: "flushable bs lst want"
  shows "cache_inv bs s \<Longrightarrow> distinct (acc @ rest) \<Longrightarrow> set acc \<subseteq> set (lst s) \<Longrightarrow> set rest \<subseteq> set (lst s) \<Longrightarrow>
    length acc < NUM_FLUSH_BLOCKS \<Longrightarrow> (\<And>a. a \<in> set acc \<Longrightarrow> want (ents s a)) \<Longrightarrow>
    (\<And>a. a \<in> set (lst s) \<Longrightarrow> ce_dev (ents s a) = d \<Longrightarrow> want (ents s a) \<Longrightarrow> a \<in> set (acc @ rest)) \<Longrightarrow>
    \<exists>s'. flush_scan d lst want rest acc s = Some s' \<and> synced bs s s' \<and>
      (\<forall>a \<in> set (lst s). ce_dev (ents s a) = d \<longrightarrow> \<not> want (ents s' a))"
proof (induction "card {a \<in> set (lst s). want (ents s a)}" arbitrary: s acc rest rule: less_induct)
  case less
  from less.prems show ?case
  proof (induction rest arbitrary: acc)
    case Nil
    note inv = Nil.prems(1)
    show ?case
    proof (cases "acc = []")
      case True
      then show ?thesis using Nil.prems(7) synced_refl [OF inv]
        by (subst flush_scan.simps) auto
    next
      case False
      obtain s' where s': "do_flush acc s = Some s'" "synced bs s s'"
        "\<forall>a \<in> set acc. ce_clone (ents s' a) = None \<and> (ce_lock (ents s a) = 0 \<longrightarrow> \<not> ce_dirty (ents s' a))"
        by (rule do_flush_good [OF inv, of acc]) (use Nil.prems(2,3) flushableD(1) [OF fl inv] in auto)
      have "\<not> want (ents s' a)" if "a \<in> set (lst s)" "ce_dev (ents s a) = d" for a
      proof
        assume w: "want (ents s' a)"
        then have "a \<in> set acc" using Nil.prems(7) [OF that] flushableD(4) [OF fl inv s'(2)] by simp
        then show False using flushableD(5) [OF fl inv that(1)] s'(3) w by blast
      qed
      then show ?thesis using False s' by (subst flush_scan.simps) auto
    qed
  next
    case (Cons a rest)
    note inv = Cons.prems(1)
    have al: "a \<in> set (lst s)" "a \<in> listed s" using Cons.prems(4) flushableD(1) [OF fl inv] by auto
    have nb: "\<not> ce_busy (ents s a)" using cache_invD(7) [OF inv al(2)] .
    consider "ce_dev (ents s a) \<noteq> d \<or> \<not> want (ents s a)"
      | "ce_dev (ents s a) = d" "want (ents s a)" "length (acc @ [a]) < NUM_FLUSH_BLOCKS"
      | "ce_dev (ents s a) = d" "want (ents s a)" "\<not> length (acc @ [a]) < NUM_FLUSH_BLOCKS" by blast
    then show ?case
    proof cases
      case 1
      have "\<exists>s'. flush_scan d lst want rest acc s = Some s' \<and> synced bs s s' \<and>
        (\<forall>a \<in> set (lst s). ce_dev (ents s a) = d \<longrightarrow> \<not> want (ents s' a))"
      proof (rule Cons.IH)
        show "x \<in> set (acc @ rest)" if "x \<in> set (lst s)" "ce_dev (ents s x) = d" "want (ents s x)" for x
          using Cons.prems(7) [OF that] 1 that by auto
      qed (use Cons.prems in auto)
      then show ?thesis using 1 nb by (subst flush_scan.simps) auto
    next
      case 2
      have "\<exists>s'. flush_scan d lst want rest (acc @ [a]) s = Some s' \<and> synced bs s s' \<and>
        (\<forall>a \<in> set (lst s). ce_dev (ents s a) = d \<longrightarrow> \<not> want (ents s' a))"
        by (rule Cons.IH) (use Cons.prems 2 in auto)
      then show ?thesis using 2 nb by (subst flush_scan.simps) (auto simp: not_le)
    next
      case 3
      obtain s1 where s1: "do_flush (acc @ [a]) s = Some s1" "synced bs s s1"
        "\<forall>x \<in> set (acc @ [a]). ce_clone (ents s1 x) = None \<and> (ce_lock (ents s x) = 0 \<longrightarrow> \<not> ce_dirty (ents s1 x))"
        by (rule do_flush_good [OF inv, of "acc @ [a]"]) (use Cons.prems(2,3) al flushableD(1) [OF fl inv] in auto)
      have inv1: "cache_inv bs s1" using s1(2) by (simp add: synced_def)
      have ls: "lst s1 = lst s" by (rule flushableD(3) [OF fl inv s1(2)])
      have dev: "ce_dev (ents s1 x) = ce_dev (ents s x)" for x
        using s1(2) same_core_simps(1) unfolding synced_def by blast
      have "\<not> want (ents s1 a)" using flushableD(5) [OF fl inv al(1)] s1(3) by simp
      then have "{x \<in> set (lst s1). want (ents s1 x)} \<subset> {x \<in> set (lst s). want (ents s x)}"
        using 3(2) al(1) ls flushableD(4) [OF fl inv s1(2)] by auto
      then have lt: "card {x \<in> set (lst s1). want (ents s1 x)} < card {x \<in> set (lst s). want (ents s x)}"
        by (intro psubset_card_mono) auto
      have "\<exists>s'. flush_scan d lst want (lst s1) [] s1 = Some s' \<and> synced bs s1 s' \<and>
        (\<forall>x \<in> set (lst s1). ce_dev (ents s1 x) = d \<longrightarrow> \<not> want (ents s' x))"
        by (rule less.hyps [OF lt inv1])
           (use flushableD(2) [OF fl inv1] in \<open>auto simp: NUM_FLUSH_BLOCKS_def\<close>)
      then obtain s' where s': "flush_scan d lst want (lst s1) [] s1 = Some s'" "synced bs s1 s'"
        "\<forall>x \<in> set (lst s). ce_dev (ents s x) = d \<longrightarrow> \<not> want (ents s' x)" unfolding ls dev by blast
      have "flush_scan d lst want (a # rest) acc s = Some s'"
        using 3 nb s1(1) s'(1) by (subst flush_scan.simps) (simp add: not_less)
      then show ?thesis using synced_trans [OF s1(2) s'(2)] s'(3) by blast
    qed
  qed
qed

text \<open>The whole of \<open>flush_device\<close>.\<close>

lemma flush_device_good:
  assumes inv: "cache_inv bs s"
  obtains s' where "flush_device d s = Some (0, s')" "synced bs s s'"
    "\<And>c. on_device s d c \<Longrightarrow> pins s d c = 0 \<Longrightarrow> blk_of bs (devs s') d c = view bs s d c"
proof -
  have f1: "flushable bs normal to_write" and f2: "flushable bs locked (\<lambda>ce. ce_clone ce \<noteq> None)"
    by (simp_all add: flushable_def)
  obtain s1 where s1: "flush_scan d normal to_write (normal s) [] s = Some s1" "synced bs s s1"
    "\<forall>a \<in> set (normal s). ce_dev (ents s a) = d \<longrightarrow> \<not> to_write (ents s1 a)"
    using flush_scan_good [OF f1 inv, of "[]" "normal s" d] cache_invD(2) [OF inv] by (auto simp: NUM_FLUSH_BLOCKS_def)
  have inv1: "cache_inv bs s1" using s1(2) by (simp add: synced_def)
  obtain s2 where s2: "flush_scan d locked (\<lambda>ce. ce_clone ce \<noteq> None) (locked s1) [] s1 = Some s2" "synced bs s1 s2"
    using flush_scan_good [OF f2 inv1, of "[]" "locked s1" d] cache_invD(3) [OF inv1] by (auto simp: NUM_FLUSH_BLOCKS_def)
  have sy: "synced bs s s2" by (rule synced_trans [OF s1(2) s2(2)])
  have inv2: "cache_inv bs s2" using sy by (simp add: synced_def)
  note F = synced_fields [OF sy]
  have "blk_of bs (devs s2) d c = view bs s d c" if c: "on_device s d c" "pins s d c = 0" for c
  proof -
    have v: "view bs s2 d c = view bs s d c" using sy c(1) by (simp add: synced_def)
    show ?thesis
    proof (cases "ht_map (ht s2) (d, c)")
      case None
      with v show ?thesis by (simp add: view_def)
    next
      case (Some a)
      note l = cache_inv_lookup [OF inv2 Some]
      have "a \<notin> set (locked s2)" using pinned_locked [OF inv2, of d c] F(10) c(2) Some by auto
      then have n: "a \<in> set (normal s)" using l(1) F(1) by (simp add: listed_def)
      have "ce_dev (ents s a) = d" using l(2) sy same_core_simps(1) unfolding synced_def by metis
      then have "\<not> to_write (ents s1 a)" using s1(3) n by blast
      then have "\<not> to_write (ents s2 a)" using s2(2) by (auto simp: synced_def to_write_def)
      moreover have "settled (ents s2 a) (ent_blk bs s2 a)" using cache_invD(10) [OF inv2] n F(1) by simp
      ultimately have "ent_blk bs s2 a = ce_data (ents s2 a)" by (auto simp: settled_def to_write_def)
      then show ?thesis using v Some l by (simp add: view_def)
    qed
  qed
  moreover have "flush_device d s = Some (0, s2)" using s1 s2 by (simp add: flush_device_def)
  ultimately show thesis using sy that by blast
qed

end
