(* ===== verification/Cache_Props.thy ===== *)
theory Cache_Props
  imports Cache_Sync
begin

text \<open>
  The properties of the block cache that its clients rely on, from start-up to the flush of a device.
  Throughout, \<open>bs\<close> gives the block size of each device, \<open>view bs s d b\<close> is what a reader of block \<open>b\<close>
  of device \<open>d\<close> gets, and \<open>blk_of bs (devs s) d b\<close> is what the device itself holds.
\<close>

section \<open>Start-up\<close>

lemma cache_started:
  assumes dv: "dev_ok bs dv fd n" "0 < n" "512 \<le> bs fd" "0 \<le> fd" "fd < MAX_DEVICES"
  obtains s s' where "init_block_cache dv True mx = (0, s)" "init_cache_for_device fd n s = Some (0, s')"
    "cache_inv bs s'" "max_blocks s' = mx" "locked s' = []" "devs s' = dv"
    "max_device_blocks s' = (\<lambda>_. 0)(fd := n)" "\<forall>k. ht_map (ht s') k = None"
proof -
  define h :: "nat hash_table" where "h = snd (init_hash_table True)"
  have h: "ht_wf h" "ht_map h = (\<lambda>_. None)" using init_hash_table_ok unfolding h_def by blast+
  have h3: "init_hash_table True = (0, h)" by (simp add: h_def init_hash_table_def)
  let ?s = "\<lparr>cur_blocks = 0, max_blocks = mx, ht = h, ents = (\<lambda>_. blank_ent), next_addr = 0,
               normal = [], locked = [], max_device_blocks = (\<lambda>_. 0),
               iovec_pool = True # True # replicate (MAX_IOVECS - 2) False, iovec_used = replicate MAX_IOVECS False,
               devs = dv, mem_ok = True, calls = []\<rparr>"
  let ?s' = "?s\<lparr>max_device_blocks := (\<lambda>_. 0)(fd := n)\<rparr>"
  have "init_block_cache dv True mx = (0, ?s)" using h3 by (simp add: init_block_cache_def)
  moreover have "init_cache_for_device fd n ?s = Some (0, ?s')" using dv by (simp add: init_cache_for_device_def)
  moreover have "cache_inv bs ?s'" using h dv
    by (simp add: cache_inv_def listed_def iovecs_idle_def devs_ok_def MAX_IOVECS_def)
  ultimately show thesis by (rule that) (simp_all add: h)
qed

text \<open>
  After \<open>init_block_cache\<close> and \<open>init_cache_for_device\<close> on a working device the invariant of
  the cache holds and every block reads as the device has it.
\<close>

theorem cache_start:
  assumes "dev_ok bs dv fd n" "0 < n" "512 \<le> bs fd" "0 \<le> fd" "fd < MAX_DEVICES"
  shows "\<exists>s s'. init_block_cache dv True mx = (0, s) \<and> init_cache_for_device fd n s = Some (0, s') \<and>
    cache_inv bs s' \<and> (\<forall>d b. view bs s' d b = blk_of bs dv d b)"
proof -
  obtain s s' where "init_block_cache dv True mx = (0, s)" "init_cache_for_device fd n s = Some (0, s')"
    "cache_inv bs s'" "max_blocks s' = mx" "locked s' = []" "devs s' = dv"
    "max_device_blocks s' = (\<lambda>_. 0)(fd := n)" "\<forall>k. ht_map (ht s') k = None"
    by (rule cache_started [OF assms, of mx])
  then show ?thesis by (auto simp: view_def)
qed

definition demo_dev :: devices where
  "demo_dev = \<lparr>file_of = (\<lambda>_. replicate 1024 0), io_fault = (\<lambda>_ _. False)\<rparr>"

definition demo_bs :: "int \<Rightarrow> int" where
  "demo_bs d = 512"

definition demo_cache :: block_cache where
  "demo_cache = (case init_cache_for_device 3 2 (snd (init_block_cache demo_dev True 100)) of
     Some (e, s) \<Rightarrow> s | None \<Rightarrow> snd (init_block_cache demo_dev True 100))"

lemma demo_dev_ok: "dev_ok demo_bs demo_dev 3 2" "demo_bs d = 512"
  by (simp_all add: dev_ok_def demo_bs_def demo_dev_def good_dev_def)

theorem cache_start_witness:
  "\<exists>s s'. init_block_cache demo_dev True 100 = (0, s) \<and> init_cache_for_device 3 2 s = Some (0, s') \<and>
    cache_inv demo_bs s' \<and> (\<forall>d b. view demo_bs s' d b = blk_of demo_bs demo_dev d b)"
  by (rule cache_start [OF demo_dev_ok(1)]) (simp_all add: demo_dev_ok MAX_DEVICES_def)

lemma demo_cache_facts:
  "cache_inv demo_bs demo_cache" "max_blocks demo_cache = 100" "locked demo_cache = []"
  "max_device_blocks demo_cache 3 = 2" "devs demo_cache = demo_dev" "ht_map (ht demo_cache) k = None"
proof -
  have p: "0 < (2::int)" "512 \<le> demo_bs 3" "0 \<le> (3::int)" "3 < MAX_DEVICES"
    by (simp_all add: demo_dev_ok MAX_DEVICES_def)
  obtain s s' where h: "init_block_cache demo_dev True 100 = (0, s)" "init_cache_for_device 3 2 s = Some (0, s')"
    "cache_inv demo_bs s'" "max_blocks s' = 100" "locked s' = []" "devs s' = demo_dev"
    "max_device_blocks s' = (\<lambda>_. 0)(3 := 2)" "\<forall>k. ht_map (ht s') k = None"
    by (rule cache_started [OF demo_dev_ok(1) p, of 100])
  then have "demo_cache = s'" by (simp add: demo_cache_def)
  with h show "cache_inv demo_bs demo_cache" "max_blocks demo_cache = 100" "locked demo_cache = []"
    "max_device_blocks demo_cache 3 = 2" "devs demo_cache = demo_dev" "ht_map (ht demo_cache) k = None"
    by (simp_all, metis surj_pair)
qed

section \<open>Reading and writing through the cache\<close>

text \<open>Room for the entries of any request beside those that are pinned.\<close>

lemma room_roomy: "roomy s \<Longrightarrow> \<not> CACHE_LOCKED op \<Longrightarrow> room_for op n s"
  by (simp add: room_for_def roomy_def)

lemma cached_read_served:
  assumes inv: "cache_inv bs s" and room: "roomy s" and b: "0 \<le> b" "b + int n \<le> max_device_blocks s d" "0 < n"
    and z: "int n * bs d < 2 ^ 31" "length buf = n * nat (bs d)"
  obtains s' where "cached_read d b buf (int n) (bs d) s =
      Some (0, concat (map (\<lambda>i. view bs s d (b + int i)) [0..<n]), s')"
    "served bs (op_none\<lparr>CACHE_READ := True, CACHE_READ_AHEAD_OK := True\<rparr>) d b buf n s s'"
proof -
  let ?op = "op_none\<lparr>CACHE_READ := True, CACHE_READ_AHEAD_OK := True\<rparr>"
  have "request_ok bs ?op False d b n buf s"
    using b z room_roomy [OF room, of ?op n] by (simp add: request_ok_def op_none_def)
  moreover have "good_op ?op False" by (simp add: good_op_def)
  ultimately obtain p s' where c: "cache_block_io d b (Some buf) (int n) (bs d) ?op False s =
      Some (0, concat (map (io_val bs ?op d b buf s) [0..<n]), p, s')" and sv: "served bs ?op d b buf n s s'"
    by (rule cache_block_io_good [OF inv, of _ False _ _ _ buf "Some buf" False]) simp_all
  have "io_val bs ?op d b buf s = (\<lambda>i. view bs s d (b + int i))"
    by (simp add: fun_eq_iff io_val_def op_data_def)
  then show thesis using that c sv by (simp add: cached_read_def)
qed

lemma cached_write_served:
  assumes inv: "cache_inv bs s" and room: "roomy s" and b: "0 \<le> b" "b + int n \<le> max_device_blocks s d" "0 < n"
    and z: "int n * bs d < 2 ^ 31" "length buf = n * nat (bs d)"
  obtains s' where "cached_write d b buf (int n) (bs d) s = Some (0, s')"
    "served bs (op_none\<lparr>CACHE_WRITE := True\<rparr>) d b buf n s s'"
proof -
  let ?op = "op_none\<lparr>CACHE_WRITE := True\<rparr>"
  have "request_ok bs ?op False d b n buf s"
    using b z room_roomy [OF room, of ?op n] by (simp add: request_ok_def op_none_def)
  moreover have "good_op ?op False" by (simp add: good_op_def)
  ultimately obtain p s' where c: "cache_block_io d b (Some buf) (int n) (bs d) ?op False s =
      Some (0, concat (map (io_val bs ?op d b buf s) [0..<n]), p, s')" and sv: "served bs ?op d b buf n s s'"
    by (rule cache_block_io_good [OF inv, of _ False _ _ _ buf "Some buf" False]) simp_all
  then show thesis using that by (simp add: cached_write_def)
qed

text \<open>What a request that pins nothing leaves for the client, written out.\<close>

lemma served_read:
  assumes "served bs (op_none\<lparr>CACHE_READ := True, CACHE_READ_AHEAD_OK := True\<rparr>) d b buf n s s'"
  shows "cache_inv bs s'" "\<And>d' c. on_device s d' c \<Longrightarrow> view bs s' d' c = view bs s d' c" "pins s' = pins s"
  using servedD(1,4,5) [OF assms] by (auto simp: fun_eq_iff op_none_def io_val_def op_data_def in_run_def)

lemma served_write:
  assumes "served bs (op_none\<lparr>CACHE_WRITE := True\<rparr>) d b buf n s s'"
  shows "cache_inv bs s'" "\<And>d' c. on_device s d' c \<Longrightarrow> view bs s' d' c =
       (if d' = d \<and> b \<le> c \<and> c < b + int n then take (nat (bs d)) (drop (nat (c - b) * nat (bs d)) buf)
        else view bs s d' c)" "pins s' = pins s"
  using servedD(1,4,5) [OF assms] by (auto simp: fun_eq_iff op_none_def io_val_def op_data_def in_run_def)

text \<open>
  Claim C9: \<open>cached_read\<close> of a run of blocks returns what the blocks look like through the cache, whether
  they are cached, dirty, cloned, read ahead or only on the device, and whatever has to be evicted
  and written to make room; no block of any device looks different afterwards and the pins are the same.
\<close>

theorem cached_read_correct:
  assumes inv: "cache_inv bs s" and room: "roomy s" and b: "0 \<le> b" "b + int n \<le> max_device_blocks s d" "0 < n"
    and z: "int n * bs d < 2 ^ 31" "length buf = n * nat (bs d)"
  shows "\<exists>s'. cached_read d b buf (int n) (bs d) s =
      Some (0, concat (map (\<lambda>i. view bs s d (b + int i)) [0..<n]), s') \<and> cache_inv bs s' \<and>
    (\<forall>d' c. on_device s d' c \<longrightarrow> view bs s' d' c = view bs s d' c) \<and> pins s' = pins s"
proof -
  obtain s' where s': "cached_read d b buf (int n) (bs d) s =
      Some (0, concat (map (\<lambda>i. view bs s d (b + int i)) [0..<n]), s')"
    "served bs (op_none\<lparr>CACHE_READ := True, CACHE_READ_AHEAD_OK := True\<rparr>) d b buf n s s'"
    by (rule cached_read_served [OF assms])
  show ?thesis by (rule exI [of _ s']) (use s'(1) served_read [OF s'(2)] in simp)
qed

theorem cached_read_correct_witness:
  "\<exists>s'. cached_read 3 0 (replicate 1024 9) 2 512 demo_cache = Some (0, replicate 1024 0, s')"
proof -
  have "concat (map (\<lambda>i. view demo_bs demo_cache 3 (0 + int i)) [0..<2]) = replicate 1024 0"
    by (simp add: numeral_2_eq_2 view_def demo_cache_facts blk_of_def get_bytes_def demo_dev_def demo_bs_def
        replicate_add [symmetric])
  moreover have "\<exists>s'. cached_read 3 0 (replicate 1024 9) (int 2) (demo_bs 3) demo_cache =
      Some (0, concat (map (\<lambda>i. view demo_bs demo_cache 3 (0 + int i)) [0..<2]), s') \<and> cache_inv demo_bs s' \<and>
    (\<forall>d' c. on_device demo_cache d' c \<longrightarrow> view demo_bs s' d' c = view demo_bs demo_cache d' c) \<and>
    pins s' = pins demo_cache"
    by (rule cached_read_correct [OF demo_cache_facts(1)])
       (simp_all add: roomy_def demo_cache_facts demo_dev_ok NUM_FLUSH_BLOCKS_def)
  ultimately show ?thesis by (auto simp: demo_dev_ok)
qed

text \<open>
  Claim C10: \<open>cached_write\<close> makes the blocks of the request look like the bytes written and changes no
  other block; the invariant holds again.
\<close>

theorem cached_write_correct:
  assumes inv: "cache_inv bs s" and room: "roomy s" and b: "0 \<le> b" "b + int n \<le> max_device_blocks s d" "0 < n"
    and z: "int n * bs d < 2 ^ 31" "length buf = n * nat (bs d)"
  shows "\<exists>s'. cached_write d b buf (int n) (bs d) s = Some (0, s') \<and> cache_inv bs s' \<and>
    (\<forall>d' c. on_device s d' c \<longrightarrow> view bs s' d' c =
       (if d' = d \<and> b \<le> c \<and> c < b + int n then take (nat (bs d)) (drop (nat (c - b) * nat (bs d)) buf)
        else view bs s d' c)) \<and> pins s' = pins s"
proof -
  obtain s' where s': "cached_write d b buf (int n) (bs d) s = Some (0, s')"
    "served bs (op_none\<lparr>CACHE_WRITE := True\<rparr>) d b buf n s s'"
    by (rule cached_write_served [OF assms])
  show ?thesis by (rule exI [of _ s']) (use s'(1) served_write [OF s'(2)] in simp)
qed

theorem cached_write_correct_witness:
  "\<exists>s'. cached_write 3 1 (replicate 512 7) 1 512 demo_cache = Some (0, s') \<and>
     view demo_bs s' 3 1 = replicate 512 7 \<and> view demo_bs s' 3 0 = replicate 512 0"
proof -
  have v0: "view demo_bs demo_cache 3 0 = replicate 512 0"
    by (simp add: view_def demo_cache_facts blk_of_def get_bytes_def demo_dev_def demo_bs_def)
  have "\<exists>s'. cached_write 3 1 (replicate 512 7) (int 1) (demo_bs 3) demo_cache = Some (0, s') \<and> cache_inv demo_bs s' \<and>
    (\<forall>d' c. on_device demo_cache d' c \<longrightarrow> view demo_bs s' d' c =
       (if d' = 3 \<and> 1 \<le> c \<and> c < 1 + int 1
        then take (nat (demo_bs 3)) (drop (nat (c - 1) * nat (demo_bs 3)) (replicate 512 7))
        else view demo_bs demo_cache d' c)) \<and> pins s' = pins demo_cache"
    by (rule cached_write_correct [OF demo_cache_facts(1)])
       (simp_all add: roomy_def demo_cache_facts demo_dev_ok NUM_FLUSH_BLOCKS_def)
  then show ?thesis by (force simp: demo_dev_ok on_device_def demo_cache_facts v0)
qed

section \<open>Blocks accessed through a pointer\<close>

text \<open>
  Claim C13: the cycle by which the file system changes a block (\<open>get_block\<close>, stores through the pointer,
  \<open>mark_blocks_dirty\<close>, \<open>release_block\<close>) never fails while fewer blocks are pinned than the cache has
  to spare; afterwards the block holds the stored bytes, every other block looks the same, the pins are
  the same and the change is marked for writing.
\<close>

theorem block_change_cycle:
  assumes "cache_inv bs s" "on_device s d b" "bs d < 64 * 1024" "int (card (held pins s)) < pin_room s"
    "length (f (view bs s d b)) = nat (bs d)"
  shows "\<exists>a s1 s2 s3. get_block d b (bs d) s = Some (Some a, s1) \<and> peek a s1 = view bs s d b \<and>
    mark_blocks_dirty d b 1 (poke a (f (peek a s1)) s1) = Some (0, s2) \<and> release_block d b s2 = Some (0, s3) \<and>
    cache_inv bs s3 \<and> pins s3 = pins s \<and> \<not> stale bs s3 d b \<and>
    (\<forall>d' c. on_device s d' c \<longrightarrow>
       view bs s3 d' c = (if (d', c) = (d, b) then f (view bs s d b) else view bs s d' c))"
  using bc.change_block [OF assms(1-4), of f, OF assms(5)] unfolding bc.calm_def by blast

theorem block_change_cycle_witness:
  "\<exists>a s1 s2 s3. get_block 3 0 512 demo_cache = Some (Some a, s1) \<and>
    mark_blocks_dirty 3 0 1 (poke a (map (\<lambda>x. x + 1) (peek a s1)) s1) = Some (0, s2) \<and>
    release_block 3 0 s2 = Some (0, s3) \<and> view demo_bs s3 3 0 = replicate 512 1"
proof -
  have v0: "view demo_bs demo_cache 3 0 = replicate 512 0"
    by (simp add: view_def demo_cache_facts blk_of_def get_bytes_def demo_dev_def demo_bs_def)
  have on: "on_device demo_cache 3 0" by (simp add: on_device_def demo_cache_facts)
  have "int (card (held pins demo_cache)) < pin_room demo_cache"
    by (simp add: held_card [OF demo_cache_facts(1)] demo_cache_facts pin_room_def NUM_FLUSH_BLOCKS_def)
  from block_change_cycle [OF demo_cache_facts(1) on _ this, of "map (\<lambda>x. x + 1)"] on v0
  show ?thesis by (force simp: demo_dev_ok)
qed

section \<open>Flushing\<close>

text \<open>
  Claim C11: \<open>flush_device\<close> ends; afterwards the device holds, for each of its blocks that is not pinned,
  what clients of the cache see, and clients see no difference.
\<close>

theorem flush_device_durable:
  assumes "cache_inv bs s"
  shows "\<exists>s'. flush_device d s = Some (0, s') \<and> cache_inv bs s' \<and> pins s' = pins s \<and>
    (\<forall>d' c. on_device s d' c \<longrightarrow> view bs s' d' c = view bs s d' c) \<and>
    (\<forall>c. on_device s d c \<longrightarrow> pins s d c = 0 \<longrightarrow> blk_of bs (devs s') d c = view bs s d c)"
proof -
  obtain s' where s': "flush_device d s = Some (0, s')" "synced bs s s'"
    "\<And>c. on_device s d c \<Longrightarrow> pins s d c = 0 \<Longrightarrow> blk_of bs (devs s') d c = view bs s d c"
    using flush_device_good [OF assms] by blast
  then show ?thesis using synced_fields(10) [OF s'(2)] unfolding synced_def by blast
qed

theorem flush_device_durable_witness:
  "\<exists>s'. flush_device 3 demo_cache = Some (0, s') \<and> blk_of demo_bs (devs s') 3 1 = view demo_bs demo_cache 3 1"
  using flush_device_durable [OF demo_cache_facts(1), of 3]
  by (auto simp: on_device_def demo_cache_facts pins_def)

text \<open>
  Claim C12: what was written with \<open>cached_write\<close> to blocks that are not pinned is on the device after
  \<open>flush_device\<close>.
\<close>

theorem written_data_reaches_device:
  assumes inv: "cache_inv bs s" and room: "roomy s" and b: "0 \<le> b" "b + int n \<le> max_device_blocks s d" "0 < n"
    and z: "int n * bs d < 2 ^ 31" "length buf = n * nat (bs d)" and pin: "\<forall>i < n. pins s d (b + int i) = 0"
  shows "\<exists>s1 s2. cached_write d b buf (int n) (bs d) s = Some (0, s1) \<and> flush_device d s1 = Some (0, s2) \<and>
    (\<forall>i < n. blk_of bs (devs s2) d (b + int i) = take (nat (bs d)) (drop (i * nat (bs d)) buf))"
proof -
  obtain s1 where c: "cached_write d b buf (int n) (bs d) s = Some (0, s1)"
    and sv: "served bs (op_none\<lparr>CACHE_WRITE := True\<rparr>) d b buf n s s1"
    by (rule cached_write_served [OF inv room b z])
  note S = servedD [OF sv]
  obtain s2 where s2: "flush_device d s1 = Some (0, s2)"
    "\<And>c. on_device s1 d c \<Longrightarrow> pins s1 d c = 0 \<Longrightarrow> blk_of bs (devs s2) d c = view bs s1 d c"
    using flush_device_good [OF S(1)] by blast
  have "blk_of bs (devs s2) d (b + int i) = take (nat (bs d)) (drop (i * nat (bs d)) buf)" if i: "i < n" for i
  proof -
    have on: "on_device s d (b + int i)" using b i by (simp add: on_device_def)
    have "view bs s1 d (b + int i) = take (nat (bs d)) (drop (i * nat (bs d)) buf)"
      using served_write(2) [OF sv on] i by simp
    moreover have "pins s1 d (b + int i) = 0" using served_write(3) [OF sv] pin i by simp
    ultimately show ?thesis using s2(2) [of "b + int i"] on S(3) by (simp add: on_device_def)
  qed
  then show ?thesis using c s2(1) by blast
qed

theorem written_data_reaches_device_witness:
  "\<exists>s1 s2. cached_write 3 0 (replicate 1024 5) 2 512 demo_cache = Some (0, s1) \<and>
    flush_device 3 s1 = Some (0, s2) \<and> blk_of demo_bs (devs s2) 3 1 = replicate 512 5"
proof -
  have "\<exists>s1 s2. cached_write 3 0 (replicate 1024 5) (int 2) (demo_bs 3) demo_cache = Some (0, s1) \<and>
    flush_device 3 s1 = Some (0, s2) \<and>
    (\<forall>i < 2. blk_of demo_bs (devs s2) 3 (0 + int i) =
       take (nat (demo_bs 3)) (drop (i * nat (demo_bs 3)) (replicate 1024 5)))"
    by (rule written_data_reaches_device [OF demo_cache_facts(1)])
       (simp_all add: roomy_def demo_cache_facts demo_dev_ok NUM_FLUSH_BLOCKS_def pins_def)
  then obtain s1 s2 where h: "cached_write 3 0 (replicate 1024 5) (int 2) (demo_bs 3) demo_cache = Some (0, s1)"
    "flush_device 3 s1 = Some (0, s2)" "\<forall>i < 2. blk_of demo_bs (devs s2) 3 (0 + int i) =
       take (nat (demo_bs 3)) (drop (i * nat (demo_bs 3)) (replicate 1024 5))" by blast
  from h(3) have "blk_of demo_bs (devs s2) 3 (0 + int 1) =
      take (nat (demo_bs 3)) (drop (1 * nat (demo_bs 3)) (replicate 1024 5))"
    by (rule spec [of _ "1 :: nat", THEN mp]) simp
  with h(1,2) show ?thesis by (simp add: demo_dev_ok)
qed

end
