(* ===== verification/Byte_Codec.thy ===== *)
theory Byte_Codec
  imports Bit_Vector
begin

text \<open>
  How the integers and the bit vectors of the kit lie in memory and on the disk: structures are
  copied with \<open>memcpy\<close>, on a little-endian machine with 64-bit pointers.
\<close>

section \<open>Integers\<close>

definition le_bytes :: "nat \<Rightarrow> int \<Rightarrow> byte list" where
  "le_bytes n x = map (\<lambda>i. word_of_int (drop_bit (8 * i) x)) [0..<n]"

fun le_nat :: "byte list \<Rightarrow> int" where
  "le_nat [] = 0"
| "le_nat (b # bs) = uint b + 256 * le_nat bs"

text \<open>Unsigned and signed reading.\<close>

definition le_uint :: "byte list \<Rightarrow> int" where
  "le_uint bs = le_nat bs"

definition le_sint :: "byte list \<Rightarrow> int" where
  "le_sint bs = signed_take_bit (8 * length bs - 1) (le_nat bs)"

lemma le_bytes_length [simp]: "length (le_bytes n x) = n"
  by (simp add: le_bytes_def)

lemma le_bytes_Suc: "le_bytes (Suc n) x = word_of_int x # le_bytes n (drop_bit 8 x)"
  unfolding le_bytes_def upt_conv_Cons [OF zero_less_Suc] map_Suc_upt [symmetric]
  by (simp add: comp_def add.commute)

lemma le_nat_bytes: "le_nat (le_bytes n x) = take_bit (8 * n) x"
proof (induction n arbitrary: x)
  case 0
  show ?case by (simp add: le_bytes_def)
next
  case (Suc n)
  have "take_bit (8 * Suc n) x = take_bit 8 x + 256 * take_bit (8 * n) (drop_bit 8 x)"
  proof -
    have "take_bit (8 * Suc n) x = x mod (2 ^ 8 * 2 ^ (8 * n))"
      by (simp add: take_bit_eq_mod power_add)
    also have "\<dots> = 2 ^ 8 * (x div 2 ^ 8 mod 2 ^ (8 * n)) + x mod 2 ^ 8" by (rule zmod_zmult2_eq) simp
    finally show ?thesis by (simp add: take_bit_eq_mod drop_bit_eq_div)
  qed
  then show ?case unfolding le_bytes_Suc le_nat.simps Suc.IH by (simp add: uint_word_of_int_eq)
qed

lemma le_uint_bytes: "0 \<le> x \<Longrightarrow> x < 2 ^ (8 * n) \<Longrightarrow> le_uint (le_bytes n x) = x"
  by (simp add: le_uint_def le_nat_bytes take_bit_int_eq_self)

lemma le_sint_bytes:
  assumes "0 < n" "- (2 ^ (8 * n - 1)) \<le> x" "x < 2 ^ (8 * n - 1)"
  shows "le_sint (le_bytes n x) = x"
proof -
  have "signed_take_bit (8 * n - 1) (take_bit (8 * n) x) = signed_take_bit (8 * n - 1) x"
    using assms(1) by (auto simp: signed_take_bit_take_bit)
  then show ?thesis using assms by (simp add: le_sint_def le_nat_bytes signed_take_bit_int_eq_self)
qed

section \<open>Bit vectors\<close>

definition chunk_bytes :: "chunk list \<Rightarrow> byte list" where
  "chunk_bytes cs = concat (map (\<lambda>c. le_bytes 4 (uint c)) cs)"

fun bytes_chunks :: "byte list \<Rightarrow> chunk list" where
  "bytes_chunks (a # b # c # d # xs) = word_of_int (le_nat [a, b, c, d]) # bytes_chunks xs"
| "bytes_chunks _ = []"

lemma chunk_bytes_simps [simp]:
  "chunk_bytes [] = []" "chunk_bytes (c # cs) = le_bytes 4 (uint c) @ chunk_bytes cs"
  by (simp_all add: chunk_bytes_def)

lemma chunk_bytes_length [simp]: "length (chunk_bytes cs) = 4 * length cs"
  by (induction cs) simp_all

lemma bytes_chunks_bytes: "bytes_chunks (chunk_bytes cs) = cs"
proof (induction cs)
  case (Cons c cs)
  obtain x y z w where l: "le_bytes 4 (uint c) = [x, y, z, w]"
    by (simp add: le_bytes_def numeral_eq_Suc)
  have "uint c < 2 ^ 32" using uint_lt2p [of c] by simp
  then have "take_bit 32 (uint c) = uint c" by (simp add: take_bit_int_eq_self_iff)
  then have "le_nat [x, y, z, w] = uint c"
    using le_nat_bytes [of 4 "uint c"] unfolding l by simp
  then have "word_of_int (le_nat [x, y, z, w]) = c" by simp
  then show ?case unfolding chunk_bytes_simps l append_Cons append_Nil bytes_chunks.simps Cons.IH by simp
qed simp

lemma bytes_chunks_length: "length (bytes_chunks xs) = length xs div 4"
  by (induction xs rule: bytes_chunks.induct) simp_all

end
