(* ===== verification/Sem_Lock.thy ===== *)
theory Sem_Lock
  imports FS_Prelude
begin

text \<open>
  The semaphores of \<open>stub.c\<close> (a counter that must be positive when it is acquired, else the kit
  stops) and the locks that \<open>lock.h\<close> and \<open>sysdep.c\<close> build on them.
\<close>

section \<open>Semaphores\<close>

type_synonym sem = int

text \<open>\<open>create_sem\<close> writes through the pointer that \<open>malloc\<close> returned without looking at it.\<close>

definition create_sem :: "bool \<Rightarrow> int \<Rightarrow> sem option" where
  "create_sem mem count = (if mem then Some count else None)"

definition acquire_sem :: "sem \<Rightarrow> sem option" where
  "acquire_sem s = (if s \<le> 0 then myfs_die else Some (s - 1))"

definition acquire_sem_etc :: "sem \<Rightarrow> int \<Rightarrow> sem option" where
  "acquire_sem_etc s count = (if s \<le> 0 then myfs_die else Some (s - count))"

definition release_sem :: "sem \<Rightarrow> sem" where
  "release_sem s = s + 1"

definition release_sem_etc :: "sem \<Rightarrow> int \<Rightarrow> sem" where
  "release_sem_etc s count = s + count"

text \<open>The old value is a long that is cut down to an int.\<close>

definition atomic_add :: "int \<Rightarrow> int \<Rightarrow> int \<times> int" where
  "atomic_add v d = (signed_take_bit 31 v, v + d)"

section \<open>Locks\<close>

record lock =
  lock_s :: sem
  lock_c :: int

definition new_lock :: "bool \<Rightarrow> lock option" where
  "new_lock mem = do { s \<leftarrow> create_sem mem 0; Some \<lparr>lock_s = s, lock_c = 1\<rparr> }"

definition new_mlock :: "bool \<Rightarrow> int \<Rightarrow> sem option" where
  "new_mlock mem c = create_sem mem c"

definition LOCK :: "lock \<Rightarrow> lock option" where
  "LOCK l = (let (old, c) = atomic_add (lock_c l) (-1) in
     if old \<le> 0 then do { s \<leftarrow> acquire_sem (lock_s l); Some (l\<lparr>lock_s := s, lock_c := c\<rparr>) }
     else Some (l\<lparr>lock_c := c\<rparr>))"

definition UNLOCK :: "lock \<Rightarrow> lock" where
  "UNLOCK l = (let (old, c) = atomic_add (lock_c l) 1 in
     if old < 0 then l\<lparr>lock_s := release_sem (lock_s l), lock_c := c\<rparr> else l\<lparr>lock_c := c\<rparr>)"

definition LOCKM :: "sem \<Rightarrow> int \<Rightarrow> sem option" where
  "LOCKM s cnt = acquire_sem_etc s cnt"

definition UNLOCKM :: "sem \<Rightarrow> int \<Rightarrow> sem" where
  "UNLOCKM s cnt = release_sem_etc s cnt"

section \<open>The protocol\<close>

datatype lock_act = Lock | Unlock

text \<open>A step of the code on the pair of the lock and the number of holders.\<close>

inductive lock_step :: "lock \<times> nat \<Rightarrow> lock_act \<Rightarrow> lock \<times> nat \<Rightarrow> bool" where
  lock: "LOCK l = Some l' \<Longrightarrow> lock_step (l, n) Lock (l', n + 1)"
| unlock: "lock_step (l, Suc n) Unlock (UNLOCK l, n)"

inductive_cases lock_stepE: "lock_step p a p'"

inductive lock_reach :: "lock \<times> nat \<Rightarrow> lock \<times> nat \<Rightarrow> bool" for p where
  start: "lock_reach p p"
| step: "lock_reach p q \<Longrightarrow> lock_step q a q' \<Longrightarrow> lock_reach p q'"

definition lock_inv :: "lock \<times> nat \<Rightarrow> bool" where
  "lock_inv p \<longleftrightarrow> lock_s (fst p) = 0 \<and> snd p \<le> 1 \<and> lock_c (fst p) = 1 - int (snd p)"

lemma lock_inv_step: "lock_inv p \<Longrightarrow> lock_step p a p' \<Longrightarrow> lock_inv p'"
  by (elim lock_stepE)
     (auto simp: lock_inv_def LOCK_def UNLOCK_def atomic_add_def acquire_sem_def halt_simps Let_def
       le_Suc_eq split: if_splits)

text \<open>
  A lock made by \<open>new_lock\<close> has at most one holder however often \<open>LOCK\<close> and \<open>UNLOCK\<close> run: no
  sequence of steps of the code leads to a state in which two hold it, and a second \<open>LOCK\<close> does
  not come back.
\<close>

theorem lock_exclusive:
  "lock_reach (l, 0) (l', n) \<Longrightarrow> new_lock True = Some l \<Longrightarrow> n \<le> 1 \<and> (n = 1 \<longleftrightarrow> LOCK l' = None)"
proof -
  assume r: "lock_reach (l, 0) (l', n)" and l: "new_lock True = Some l"
  have "lock_inv (l, 0)" using l by (auto simp: new_lock_def create_sem_def lock_inv_def)
  from r this have "lock_inv (l', n)"
    by (induction "(l', n)" arbitrary: l' n rule: lock_reach.induct) (auto dest: lock_inv_step)
  then show ?thesis
    by (auto simp: lock_inv_def LOCK_def atomic_add_def acquire_sem_def halt_simps Let_def le_Suc_eq)
qed

theorem lock_exclusive_witness:
  "LOCK (UNLOCK \<lparr>lock_s = 0, lock_c = 0\<rparr>) = Some \<lparr>lock_s = 0, lock_c = 0\<rparr> \<and>
   LOCK \<lparr>lock_s = 0, lock_c = 0\<rparr> = None"
proof -
  let ?l = "\<lparr>lock_s = 0, lock_c = 1\<rparr>" and ?h = "\<lparr>lock_s = 0, lock_c = 0\<rparr>"
  have lk: "LOCK ?l = Some ?h" by (simp add: LOCK_def atomic_add_def Let_def)
  have "lock_step (?l, 0) Lock (?h, 0 + 1)" by (rule lock_step.lock [OF lk])
  then have "lock_reach (?l, 0) (?h, 1)"
    using lock_reach.step [OF lock_reach.start] by simp
  moreover have "new_lock True = Some ?l" by (simp add: new_lock_def create_sem_def)
  ultimately have "LOCK ?h = None" using lock_exclusive [of ?l ?h 1] by simp
  moreover have "UNLOCK ?h = ?l" by (simp add: UNLOCK_def atomic_add_def Let_def)
  ultimately show ?thesis using lk by simp
qed

text \<open>
  \<open>acquire_sem_etc\<close> only asks that the counter is positive, so a writer that takes all of a
  reader-writer lock gets in while readers are inside (the counter goes negative).
\<close>

theorem mlock_overdraws:
  "0 < readers \<Longrightarrow> readers < c \<Longrightarrow> \<exists>s. new_mlock True c = Some s \<and>
     (\<exists>s'. LOCKM s readers = Some s' \<and> (\<exists>s''. LOCKM s' c = Some s'' \<and> s'' < 0))"
  by (auto simp: new_mlock_def create_sem_def LOCKM_def acquire_sem_etc_def)

theorem mlock_overdraws_witness: "\<exists>s''. LOCKM 999999 1000000 = Some s'' \<and> s'' < 0"
  using mlock_overdraws [of 1 1000000] by (auto simp: new_mlock_def create_sem_def LOCKM_def acquire_sem_etc_def)

end
