(* ===== verification/Tmp_Blocks.thy ===== *)
theory Tmp_Blocks
  imports Sem_Lock
begin

text \<open>
  The temporary blocks of \<open>util.c\<close>: groups of 16 blocks, each with an array of pointers to its free
  blocks.  Memory is a line of addresses from which \<open>malloc\<close> hands out fresh pieces; a pointer is an
  address and \<open>NULL\<close> is \<open>None\<close>.
\<close>

section \<open>State and operations\<close>

definition NUM_TMP_BLOCKS :: nat where
  "NUM_TMP_BLOCKS = 16"

record tmp_blocks =
  tmp_data :: int
  block_ptrs :: "int option list"

record tmp_state =
  tmp_blocks_sem :: sem
  tmp_list :: "tmp_blocks list"
  heap_next :: int
  heap_ok :: bool

definition malloc :: "int \<Rightarrow> tmp_state \<Rightarrow> int option \<times> tmp_state" where
  "malloc n s = (if heap_ok s then (Some (heap_next s), s\<lparr>heap_next := heap_next s + n\<rparr>) else (None, s))"

definition tmp_ptrs :: "int \<Rightarrow> int \<Rightarrow> nat \<Rightarrow> int option list" where
  "tmp_ptrs bsize base used = map (\<lambda>i. if i < used then None else Some (base + int i * bsize)) [0..<NUM_TMP_BLOCKS]"

definition init_tmp_blocks :: "int \<Rightarrow> tmp_state \<Rightarrow> (errno \<times> tmp_state) option" where
  "init_tmp_blocks bsize s = do {
     sm \<leftarrow> create_sem (heap_ok s) 1;
     let (d, s1) = malloc (int NUM_TMP_BLOCKS * bsize) s;
     case d of
       None \<Rightarrow> Some (ENOMEM, s1\<lparr>tmp_blocks_sem := -1, tmp_list := []\<rparr>)
     | Some base \<Rightarrow> Some (0, s1\<lparr>tmp_blocks_sem := sm,
                     tmp_list := [\<lparr>tmp_data = base, block_ptrs = tmp_ptrs bsize base 0\<rparr>]\<rparr>)
   }"

definition shutdown_tmp_blocks :: "tmp_state \<Rightarrow> tmp_state" where
  "shutdown_tmp_blocks s = s\<lparr>tmp_list := [], tmp_blocks_sem := -1\<rparr>"

text \<open>The search through one group: \<open>st\<close> is \<open>start\<close> and \<open>blocks\<close> once they are set.\<close>

fun find_run :: "int \<Rightarrow> int option list \<Rightarrow> nat \<Rightarrow> (nat \<times> int) option \<Rightarrow> (nat \<times> nat \<times> int) option" where
  "find_run n [] i st = None"
| "find_run n (p # ps) i st =
     (let st' = (case st of Some x \<Rightarrow> Some x | None \<Rightarrow> map_option (\<lambda>a. (i, a)) p) in
      case (st', p) of
        (Some (start, a), Some _) \<Rightarrow>
          if int (i + 1) - int start = n then Some (start, i, a) else find_run n ps (i + 1) st'
      | _ \<Rightarrow> find_run n ps (i + 1) None)"

fun take_ptrs :: "int option list \<Rightarrow> nat \<Rightarrow> nat \<Rightarrow> int option list option" where
  "take_ptrs ps j 0 = Some ps"
| "take_ptrs ps j (Suc k) = (if ps ! j = None then myfs_die else take_ptrs (ps[j := None]) (Suc j) k)"

fun search_groups :: "int \<Rightarrow> tmp_blocks list \<Rightarrow> (int \<times> tmp_blocks list) option option" where
  "search_groups n [] = Some None"
| "search_groups n (t # ts) =
     (case find_run n (block_ptrs t) 0 None of
        Some (start, i, a) \<Rightarrow> do {
          ps \<leftarrow> take_ptrs (block_ptrs t) start (i + 1 - start);
          Some (Some (a, t\<lparr>block_ptrs := ps\<rparr> # ts))
        }
      | None \<Rightarrow> do {
          r \<leftarrow> search_groups n ts;
          Some (map_option (\<lambda>(a, ts'). (a, t # ts')) r)
        })"

text \<open>When \<open>malloc\<close> fails the semaphore is not given back.\<close>

definition get_tmp_blocks :: "int \<Rightarrow> int \<Rightarrow> tmp_state \<Rightarrow> (int option \<times> tmp_state) option" where
  "get_tmp_blocks bsize nblocks s =
     (if nblocks > int NUM_TMP_BLOCKS then Some (None, s)
      else do {
        sm \<leftarrow> acquire_sem (tmp_blocks_sem s);
        let s1 = s\<lparr>tmp_blocks_sem := sm\<rparr>;
        r \<leftarrow> search_groups nblocks (tmp_list s1);
        case r of
          Some (a, ts) \<Rightarrow> Some (Some a, s1\<lparr>tmp_list := ts, tmp_blocks_sem := release_sem sm\<rparr>)
        | None \<Rightarrow>
            let (d, s2) = malloc (int NUM_TMP_BLOCKS * bsize) s1 in
            (case d of
               None \<Rightarrow> Some (None, s2)
             | Some base \<Rightarrow>
                 Some (Some base, s2\<lparr>tmp_list := \<lparr>tmp_data = base, block_ptrs = tmp_ptrs bsize base (nat nblocks)\<rparr>
                        # tmp_list s2, tmp_blocks_sem := release_sem sm\<rparr>))
      })"

fun give_ptrs :: "int \<Rightarrow> int option list \<Rightarrow> nat \<Rightarrow> int \<Rightarrow> nat \<Rightarrow> int option list option" where
  "give_ptrs bsize ps j a 0 = Some ps"
| "give_ptrs bsize ps j a (Suc k) =
     (if length ps \<le> j then None
      else if ps ! j \<noteq> None then myfs_die
      else give_ptrs bsize (ps[j := Some a]) (Suc j) (a + bsize) k)"

fun free_in :: "int \<Rightarrow> int \<Rightarrow> nat \<Rightarrow> tmp_blocks list \<Rightarrow> tmp_blocks list option" where
  "free_in bsize a n [] = myfs_die"
| "free_in bsize a n (t # ts) =
     (if tmp_data t \<le> a \<and> a < tmp_data t + int NUM_TMP_BLOCKS * bsize
      then do {
        ps \<leftarrow> give_ptrs bsize (block_ptrs t) (nat ((a - tmp_data t) div bsize)) a n;
        Some (t\<lparr>block_ptrs := ps\<rparr> # ts)
      }
      else do { ts' \<leftarrow> free_in bsize a n ts; Some (t # ts') })"

definition free_tmp_blocks :: "int \<Rightarrow> int option \<Rightarrow> int \<Rightarrow> tmp_state \<Rightarrow> tmp_state option" where
  "free_tmp_blocks bsize blocks nblocks s =
     (case blocks of
        None \<Rightarrow> myfs_die
      | Some a \<Rightarrow>
          if nblocks > int NUM_TMP_BLOCKS then myfs_die
          else do {
            sm \<leftarrow> acquire_sem (tmp_blocks_sem s);
            ts \<leftarrow> free_in bsize a (nat nblocks) (tmp_list s);
            Some (s\<lparr>tmp_list := ts, tmp_blocks_sem := release_sem sm\<rparr>)
          })"

section \<open>Invariant and the blocks in use\<close>

definition group_ok :: "int \<Rightarrow> int \<Rightarrow> tmp_blocks \<Rightarrow> bool" where
  "group_ok bsize lim t \<longleftrightarrow> length (block_ptrs t) = NUM_TMP_BLOCKS \<and>
     tmp_data t + int NUM_TMP_BLOCKS * bsize \<le> lim \<and>
     (\<forall>i < NUM_TMP_BLOCKS. \<forall>a. block_ptrs t ! i = Some a \<longrightarrow> a = tmp_data t + int i * bsize)"

definition apart :: "int \<Rightarrow> tmp_blocks \<Rightarrow> tmp_blocks \<Rightarrow> bool" where
  "apart bsize t u \<longleftrightarrow> tmp_data t + int NUM_TMP_BLOCKS * bsize \<le> tmp_data u \<or>
     tmp_data u + int NUM_TMP_BLOCKS * bsize \<le> tmp_data t"

definition tmp_inv :: "int \<Rightarrow> tmp_state \<Rightarrow> bool" where
  "tmp_inv bsize s \<longleftrightarrow> 0 < bsize \<and> tmp_blocks_sem s = 1 \<and> (\<forall>t \<in> set (tmp_list s). group_ok bsize (heap_next s) t) \<and>
     sorted_wrt (apart bsize) (tmp_list s)"

definition used_in :: "int \<Rightarrow> tmp_blocks \<Rightarrow> int set" where
  "used_in bsize t = {tmp_data t + int i * bsize | i. i < NUM_TMP_BLOCKS \<and> block_ptrs t ! i = None}"

definition tmp_used :: "int \<Rightarrow> tmp_state \<Rightarrow> int set" where
  "tmp_used bsize s = (\<Union>t \<in> set (tmp_list s). used_in bsize t)"

definition tmp_run :: "int \<Rightarrow> int \<Rightarrow> nat \<Rightarrow> int set" where
  "tmp_run bsize a n = {a + int k * bsize | k. k < n}"

text \<open>A run of blocks of one group that is in use.\<close>

definition handed :: "int \<Rightarrow> tmp_state \<Rightarrow> int \<Rightarrow> nat \<Rightarrow> bool" where
  "handed bsize s a n \<longleftrightarrow> (\<exists>t \<in> set (tmp_list s). \<exists>i. a = tmp_data t + int i * bsize \<and> i + n \<le> NUM_TMP_BLOCKS \<and>
     (\<forall>k < n. block_ptrs t ! (i + k) = None))"

section \<open>The loops\<close>

definition blank_ptrs :: "int option list \<Rightarrow> nat \<Rightarrow> nat \<Rightarrow> int option list" where
  "blank_ptrs ps j n = map (\<lambda>x. if j \<le> x \<and> x < j + n then None else ps ! x) [0..<length ps]"

lemma blank_ptrs_simps [simp]:
  "length (blank_ptrs ps j n) = length ps"
  "x < length ps \<Longrightarrow> blank_ptrs ps j n ! x = (if j \<le> x \<and> x < j + n then None else ps ! x)"
  by (simp_all add: blank_ptrs_def)

lemma take_ptrs_eq:
  "j + n \<le> length ps \<Longrightarrow> (\<forall>x. j \<le> x \<and> x < j + n \<longrightarrow> ps ! x \<noteq> None) \<Longrightarrow>
     take_ptrs ps j n = Some (blank_ptrs ps j n)"
proof (induction n arbitrary: ps j)
  case 0
  show ?case by (auto simp: blank_ptrs_def intro!: nth_equalityI)
next
  case (Suc n)
  have "take_ptrs (ps[j := None]) (Suc j) n = Some (blank_ptrs (ps[j := None]) (Suc j) n)"
    by (rule Suc.IH) (use Suc.prems in auto)
  moreover have "blank_ptrs (ps[j := None]) (Suc j) n = blank_ptrs ps j (Suc n)"
    by (rule nth_equalityI) (use Suc.prems in \<open>auto simp: nth_list_update\<close>)
  moreover have "ps ! j \<noteq> None" using Suc.prems(2) by simp
  ultimately show ?case by auto
qed

definition fill_ptrs :: "int \<Rightarrow> int option list \<Rightarrow> nat \<Rightarrow> int \<Rightarrow> nat \<Rightarrow> int option list" where
  "fill_ptrs bsize ps j a n =
     map (\<lambda>x. if j \<le> x \<and> x < j + n then Some (a + int (x - j) * bsize) else ps ! x) [0..<length ps]"

lemma fill_ptrs_simps [simp]:
  "length (fill_ptrs bsize ps j a n) = length ps"
  "x < length ps \<Longrightarrow> fill_ptrs bsize ps j a n ! x =
     (if j \<le> x \<and> x < j + n then Some (a + int (x - j) * bsize) else ps ! x)"
  by (simp_all add: fill_ptrs_def)

lemma give_ptrs_eq:
  "j + n \<le> length ps \<Longrightarrow> (\<forall>x. j \<le> x \<and> x < j + n \<longrightarrow> ps ! x = None) \<Longrightarrow>
     give_ptrs bsize ps j a n = Some (fill_ptrs bsize ps j a n)"
proof (induction n arbitrary: ps j a)
  case 0
  show ?case by (auto simp: fill_ptrs_def intro!: nth_equalityI)
next
  case (Suc n)
  have "give_ptrs bsize (ps[j := Some a]) (Suc j) (a + bsize) n =
      Some (fill_ptrs bsize (ps[j := Some a]) (Suc j) (a + bsize) n)"
    by (rule Suc.IH) (use Suc.prems in auto)
  moreover have "fill_ptrs bsize (ps[j := Some a]) (Suc j) (a + bsize) n = fill_ptrs bsize ps j a (Suc n)"
    by (rule nth_equalityI)
       (use Suc.prems in \<open>auto simp: nth_list_update of_nat_diff algebra_simps\<close>)
  ultimately show ?case using Suc.prems by simp
qed

lemma find_run_sound:
  "find_run n (drop i qs) i st = Some (start, e, a) \<Longrightarrow> i \<le> length qs \<Longrightarrow>
   (\<And>s0 a0. st = Some (s0, a0) \<Longrightarrow> s0 < i \<and> (\<forall>k. s0 \<le> k \<and> k < i \<longrightarrow> qs ! k \<noteq> None) \<and> qs ! s0 = Some a0) \<Longrightarrow>
   start \<le> e \<and> e < length qs \<and> (\<forall>k. start \<le> k \<and> k \<le> e \<longrightarrow> qs ! k \<noteq> None) \<and> qs ! start = Some a \<and>
   int (e + 1) - int start = n"
proof (induction "length qs - i" arbitrary: i st)
  case 0
  then show ?case by simp
next
  case (Suc m)
  have i: "i < length qs" using Suc.hyps(2) by simp
  let ?st = "case st of Some x \<Rightarrow> Some x | None \<Rightarrow> map_option (\<lambda>a. (i, a)) (qs ! i)"
  have fr: "find_run n (drop i qs) i st = (case (?st, qs ! i) of
        (Some (start, a), Some _) \<Rightarrow>
          if int (i + 1) - int start = n then Some (start, i, a) else find_run n (drop (i + 1) qs) (i + 1) ?st
      | _ \<Rightarrow> find_run n (drop (i + 1) qs) (i + 1) None)"
    unfolding Cons_nth_drop_Suc [OF i, symmetric] find_run.simps Let_def Suc_eq_plus1 by (rule refl)
  show ?case
  proof (cases "qs ! i")
    case None
    then have "find_run n (drop (i + 1) qs) (i + 1) None = Some (start, e, a)"
      using Suc.prems(1) fr by (auto split: option.splits)
    then show ?thesis by (intro Suc.hyps(1) [of "i + 1" None]) (use Suc.hyps(2) i in auto)
  next
    case (Some b)
    obtain s0 a0 where st': "?st = Some (s0, a0)" using Some by (cases st) auto
    have ok: "s0 < i + 1 \<and> (\<forall>k. s0 \<le> k \<and> k < i + 1 \<longrightarrow> qs ! k \<noteq> None) \<and> qs ! s0 = Some a0"
      using Suc.prems(3) st' Some by (cases st) (auto simp: less_Suc_eq)
    show ?thesis
    proof (cases "int (i + 1) - int s0 = n")
      case True
      then have "(start, e, a) = (s0, i, a0)" using Suc.prems(1) fr st' Some by simp
      then show ?thesis using ok i True by (auto simp: less_Suc_eq_le)
    next
      case False
      then have "find_run n (drop (i + 1) qs) (i + 1) ?st = Some (start, e, a)"
        using Suc.prems(1) fr st' Some by simp
      then show ?thesis
        by (intro Suc.hyps(1) [of "i + 1" ?st]) (use Suc.hyps(2) i ok st' in \<open>auto simp: less_Suc_eq_le\<close>)
    qed
  qed
qed

text \<open>The group in which a run was found, before and after.\<close>

lemma search_groups_found:
  assumes "search_groups (int n) ts = Some (Some (a, ts'))" "\<forall>t \<in> set ts. group_ok bsize lim t" "0 < n"
  shows "\<exists>xs t ys j. ts = xs @ t # ys \<and> ts' = xs @ t\<lparr>block_ptrs := blank_ptrs (block_ptrs t) j n\<rparr> # ys \<and>
    j + n \<le> NUM_TMP_BLOCKS \<and> a = tmp_data t + int j * bsize \<and> (\<forall>k < n. block_ptrs t ! (j + k) \<noteq> None)"
  using assms
proof (induction ts arbitrary: ts')
  case (Cons t ts)
  show ?case
  proof (cases "find_run (int n) (block_ptrs t) 0 None")
    case None
    then obtain ts'' where s: "search_groups (int n) ts = Some (Some (a, ts''))" "ts' = t # ts''"
      using Cons.prems(1) by (auto simp: bind_Some_iff)
    from Cons.IH [OF s(1)] Cons.prems obtain xs u ys j where
      "ts = xs @ u # ys" "ts'' = xs @ u\<lparr>block_ptrs := blank_ptrs (block_ptrs u) j n\<rparr> # ys"
      "j + n \<le> NUM_TMP_BLOCKS" "a = tmp_data u + int j * bsize" "\<forall>k < n. block_ptrs u ! (j + k) \<noteq> None" by auto
    then show ?thesis using s(2) by (intro exI [of _ "t # xs"] exI [of _ u] exI [of _ ys] exI [of _ j]) simp
  next
    case (Some r)
    obtain j e b where r: "r = (j, e, b)" by (cases r)
    have f: "j \<le> e" "e < length (block_ptrs t)" "\<forall>k. j \<le> k \<and> k \<le> e \<longrightarrow> block_ptrs t ! k \<noteq> None"
      "block_ptrs t ! j = Some b" "int (e + 1) - int j = int n"
      using find_run_sound [of "int n" 0 "block_ptrs t" None j e b] Some r by auto
    have en: "e + 1 - j = n" "e + 1 = j + n" using f(1,5) by linarith+
    have g: "group_ok bsize lim t" using Cons.prems(2) by simp
    have len: "length (block_ptrs t) = NUM_TMP_BLOCKS" using g by (simp add: group_ok_def)
    have fit: "j + n \<le> length (block_ptrs t)" using f(2) en(2) by linarith
    have "take_ptrs (block_ptrs t) j (e + 1 - j) = Some (blank_ptrs (block_ptrs t) j n)"
      unfolding en(1) by (rule take_ptrs_eq [OF fit]) (use f(3) en(2) in auto)
    then have "a = b" "ts' = t\<lparr>block_ptrs := blank_ptrs (block_ptrs t) j n\<rparr> # ts"
      using Cons.prems(1) Some r by auto
    moreover have "b = tmp_data t + int j * bsize" using g f(1,2,4) len by (simp add: group_ok_def)
    moreover have "\<forall>k < n. block_ptrs t ! (j + k) \<noteq> None" using f(3) en(2) by auto
    ultimately show ?thesis using fit len
      by (intro exI [of _ "[]"] exI [of _ t] exI [of _ ts] exI [of _ j]) simp
  qed
qed simp

lemma search_groups_total: "\<forall>t \<in> set ts. group_ok bsize lim t \<Longrightarrow> 0 < n \<Longrightarrow> search_groups (int n) ts \<noteq> None"
proof (induction ts)
  case (Cons t ts)
  show ?case
  proof (cases "find_run (int n) (block_ptrs t) 0 None")
    case None
    then show ?thesis using Cons by auto
  next
    case (Some r)
    obtain j e b where r: "r = (j, e, b)" by (cases r)
    have f: "j \<le> e" "e < length (block_ptrs t)" "\<forall>k. j \<le> k \<and> k \<le> e \<longrightarrow> block_ptrs t ! k \<noteq> None"
      using find_run_sound [of "int n" 0 "block_ptrs t" None j e b] Some r by auto
    have "take_ptrs (block_ptrs t) j (e + 1 - j) = Some (blank_ptrs (block_ptrs t) j (e + 1 - j))"
      by (rule take_ptrs_eq) (use f in auto)
    then show ?thesis using Some r by simp
  qed
qed simp

section \<open>Allocation and release\<close>

lemma group_ok_ptrs:
  "group_ok bsize lim t \<Longrightarrow> group_ok bsize lim (t\<lparr>block_ptrs := blank_ptrs (block_ptrs t) j n\<rparr>)"
  by (auto simp: group_ok_def)

lemma group_ok_fill:
  "group_ok bsize lim t \<Longrightarrow> a = tmp_data t + int j * bsize \<Longrightarrow>
   group_ok bsize lim (t\<lparr>block_ptrs := fill_ptrs bsize (block_ptrs t) j a n\<rparr>)"
  by (auto simp: group_ok_def of_nat_diff algebra_simps)

lemma apart_ptrs [simp]:
  "apart bsize (t\<lparr>block_ptrs := ps\<rparr>) u = apart bsize t u" "apart bsize t (u\<lparr>block_ptrs := ps\<rparr>) = apart bsize t u"
  by (simp_all add: apart_def)

lemma used_in_range: "0 < bsize \<Longrightarrow> x \<in> used_in bsize t \<Longrightarrow>
    tmp_data t \<le> x \<and> x < tmp_data t + int NUM_TMP_BLOCKS * bsize"
  by (auto simp: used_in_def)

lemma tmp_run_range: "0 < bsize \<Longrightarrow> x \<in> tmp_run bsize (tmp_data t + int j * bsize) n \<Longrightarrow> j + n \<le> NUM_TMP_BLOCKS \<Longrightarrow>
    tmp_data t \<le> x \<and> x < tmp_data t + int NUM_TMP_BLOCKS * bsize"
proof -
  assume b: "0 < bsize" and x: "x \<in> tmp_run bsize (tmp_data t + int j * bsize) n" and j: "j + n \<le> NUM_TMP_BLOCKS"
  obtain k where k: "k < n" "x = tmp_data t + int j * bsize + int k * bsize" using x by (auto simp: tmp_run_def)
  have "int j + int k < int NUM_TMP_BLOCKS" using k(1) j by linarith
  then have "(int j + int k) * bsize < int NUM_TMP_BLOCKS * bsize" using b by (rule mult_strict_right_mono)
  then show ?thesis using k b by (simp add: distrib_right)
qed

lemma run_index:
  assumes b: "0 < (bsize::int)"
  shows "d + int i * bsize \<in> tmp_run bsize (d + int j * bsize) n \<longleftrightarrow> j \<le> i \<and> i < j + n"
proof
  assume "d + int i * bsize \<in> tmp_run bsize (d + int j * bsize) n"
  then obtain k where k: "k < n" "int i * bsize = (int j + int k) * bsize" by (auto simp: tmp_run_def distrib_right)
  then have "int i = int j + int k" using b by simp
  then show "j \<le> i \<and> i < j + n" using k(1) by linarith
next
  assume "j \<le> i \<and> i < j + n"
  then show "d + int i * bsize \<in> tmp_run bsize (d + int j * bsize) n"
    unfolding tmp_run_def by (auto intro!: exI [of _ "i - j"] simp: of_nat_diff algebra_simps)
qed

lemma used_in_image: "used_in bsize t = (\<lambda>i. tmp_data t + int i * bsize) ` {i. i < NUM_TMP_BLOCKS \<and> block_ptrs t ! i = None}"
  by (auto simp: used_in_def)

lemma tmp_run_image: "tmp_run bsize (d + int j * bsize) n = (\<lambda>i. d + int i * bsize) ` {j..<j + n}"
proof -
  have "tmp_run bsize (d + int j * bsize) n = (\<lambda>k. d + int (j + k) * bsize) ` {0..<n}"
    by (auto simp: tmp_run_def algebra_simps)
  also have "\<dots> = (\<lambda>i. d + int i * bsize) ` (\<lambda>k. j + k) ` {0..<n}" unfolding image_image ..
  also have "(\<lambda>k. j + k) ` {0..<n} = {j..<j + n}" by (simp add: add.commute)
  finally show ?thesis .
qed

lemma slot_inj: "0 < bsize \<Longrightarrow> inj (\<lambda>i. d + int i * bsize)"
  by (auto simp: inj_def)

lemma used_in_blank:
  assumes "group_ok bsize lim t" "0 < bsize" "j + n \<le> NUM_TMP_BLOCKS"
  shows "used_in bsize (t\<lparr>block_ptrs := blank_ptrs (block_ptrs t) j n\<rparr>) =
    used_in bsize t \<union> tmp_run bsize (tmp_data t + int j * bsize) n"
proof -
  have "{i. i < NUM_TMP_BLOCKS \<and> blank_ptrs (block_ptrs t) j n ! i = None} =
      {i. i < NUM_TMP_BLOCKS \<and> block_ptrs t ! i = None} \<union> {j..<j + n}"
    using assms(1,3) by (auto simp: group_ok_def)
  then show ?thesis by (simp add: used_in_image tmp_run_image image_Un)
qed

lemma used_in_fill:
  assumes "group_ok bsize lim t" "0 < bsize" "j + n \<le> NUM_TMP_BLOCKS"
  shows "used_in bsize (t\<lparr>block_ptrs := fill_ptrs bsize (block_ptrs t) j a n\<rparr>) =
    used_in bsize t - tmp_run bsize (tmp_data t + int j * bsize) n"
proof -
  have "{i. i < NUM_TMP_BLOCKS \<and> fill_ptrs bsize (block_ptrs t) j a n ! i = None} =
      {i. i < NUM_TMP_BLOCKS \<and> block_ptrs t ! i = None} - {j..<j + n}"
    using assms(1) by (auto simp: group_ok_def split: if_splits)
  then show ?thesis by (simp add: used_in_image tmp_run_image image_set_diff [OF slot_inj [OF assms(2)]])
qed

text \<open>A run of one group has nothing in common with the other groups.\<close>

lemma run_apart:
  assumes b: "0 < bsize" and s: "sorted_wrt (apart bsize) (xs @ t # ys)" and j: "j + n \<le> NUM_TMP_BLOCKS"
    and u: "u \<in> set xs \<union> set ys"
  shows "used_in bsize u \<inter> tmp_run bsize (tmp_data t + int j * bsize) n = {}"
proof -
  have "apart bsize u t \<or> apart bsize t u" using s u by (auto simp: sorted_wrt_append)
  then have "tmp_data u + int NUM_TMP_BLOCKS * bsize \<le> tmp_data t \<or> tmp_data t + int NUM_TMP_BLOCKS * bsize \<le> tmp_data u"
    by (auto simp: apart_def)
  then have "\<not> (x \<in> used_in bsize u \<and> x \<in> tmp_run bsize (tmp_data t + int j * bsize) n)" for x
    using used_in_range [OF b, of x u] tmp_run_range [OF b _ j, of x t] by linarith
  then show ?thesis by blast
qed

lemma get_tmp_blocks_good:
  assumes inv: "tmp_inv bsize s" and ok: "heap_ok s" and n: "0 < n" "n \<le> NUM_TMP_BLOCKS"
  obtains a s' where "get_tmp_blocks bsize (int n) s = Some (Some a, s')" "tmp_inv bsize s'" "handed bsize s' a n"
    "tmp_run bsize a n \<inter> tmp_used bsize s = {}" "tmp_used bsize s' = tmp_used bsize s \<union> tmp_run bsize a n"
proof -
  have b: "0 < bsize" and sem: "tmp_blocks_sem s = 1" and gs: "\<forall>t \<in> set (tmp_list s). group_ok bsize (heap_next s) t"
    and ap: "sorted_wrt (apart bsize) (tmp_list s)" using inv by (auto simp: tmp_inv_def)
  obtain r where r: "search_groups (int n) (tmp_list s) = Some r" using search_groups_total [OF gs n(1)] by blast
  have pre: "get_tmp_blocks bsize (int n) s = (case r of
          Some (a, ts) \<Rightarrow> Some (Some a, s\<lparr>tmp_blocks_sem := 1, tmp_list := ts\<rparr>)
        | None \<Rightarrow> Some (Some (heap_next s), s\<lparr>tmp_blocks_sem := 1, heap_next := heap_next s + int NUM_TMP_BLOCKS * bsize,
           tmp_list := \<lparr>tmp_data = heap_next s, block_ptrs = tmp_ptrs bsize (heap_next s) n\<rparr> # tmp_list s\<rparr>))"
    using n r sem ok by (auto simp: get_tmp_blocks_def acquire_sem_def release_sem_def malloc_def Let_def split: option.split)
  show thesis
  proof (cases r)
    case (Some q)
    obtain a ts where q: "q = (a, ts)" by (cases q)
    obtain xs t ys j where x: "tmp_list s = xs @ t # ys"
      "ts = xs @ t\<lparr>block_ptrs := blank_ptrs (block_ptrs t) j n\<rparr> # ys" "j + n \<le> NUM_TMP_BLOCKS"
      "a = tmp_data t + int j * bsize" "\<forall>k < n. block_ptrs t ! (j + k) \<noteq> None"
      using search_groups_found [of n "tmp_list s" a ts, OF _ gs n(1)] r Some q by blast
    let ?t = "t\<lparr>block_ptrs := blank_ptrs (block_ptrs t) j n\<rparr>"
    let ?s = "s\<lparr>tmp_blocks_sem := 1, tmp_list := ts\<rparr>"
    have gt: "group_ok bsize (heap_next s) t" using gs x(1) by simp
    then have len: "length (block_ptrs t) = NUM_TMP_BLOCKS" by (simp add: group_ok_def)
    have "tmp_inv bsize ?s" using b gs ap x(1,2) group_ok_ptrs [OF gt] by (auto simp: tmp_inv_def sorted_wrt_append)
    moreover have "handed bsize ?s a n"
      unfolding handed_def using x len by (intro bexI [of _ ?t] exI [of _ j]) auto
    moreover have "tmp_run bsize a n \<inter> tmp_used bsize s = {}"
    proof -
      have "tmp_run bsize a n \<inter> used_in bsize t = {}"
      proof (rule ccontr)
        assume "tmp_run bsize a n \<inter> used_in bsize t \<noteq> {}"
        then obtain i where i: "tmp_data t + int i * bsize \<in> tmp_run bsize a n" "block_ptrs t ! i = None"
          by (auto simp: used_in_def)
        then have "j \<le> i" "i < j + n" using run_index [OF b, of "tmp_data t" i j n] x(4) by auto
        then show False using x(5) i(2) by (metis le_add_diff_inverse nat_add_left_cancel_less)
      qed
      moreover have "used_in bsize u \<inter> tmp_run bsize a n = {}" if "u \<in> set xs \<union> set ys" for u
        using run_apart [OF b _ x(3) that] ap x(1,4) by simp
      ultimately show ?thesis using x(1) by (fastforce simp: tmp_used_def)
    qed
    moreover have "tmp_used bsize ?s = tmp_used bsize s \<union> tmp_run bsize a n"
      using x(1,2,4) used_in_blank [OF gt b x(3)] by (auto simp: tmp_used_def)
    ultimately show thesis using that pre Some q by simp
  next
    case None
    let ?t = "\<lparr>tmp_data = heap_next s, block_ptrs = tmp_ptrs bsize (heap_next s) n\<rparr>"
    let ?s = "s\<lparr>tmp_blocks_sem := 1, heap_next := heap_next s + int NUM_TMP_BLOCKS * bsize, tmp_list := ?t # tmp_list s\<rparr>"
    have pos: "0 < int NUM_TMP_BLOCKS * bsize" using b by (simp add: NUM_TMP_BLOCKS_def)
    have "group_ok bsize (heap_next ?s) t" if "t \<in> set (tmp_list s)" for t
      using gs that pos by (auto simp: group_ok_def)
    moreover have "group_ok bsize (heap_next ?s) ?t" by (auto simp: group_ok_def tmp_ptrs_def split: if_splits)
    moreover have "apart bsize ?t t" if "t \<in> set (tmp_list s)" for t
      using gs that by (auto simp: group_ok_def apart_def)
    ultimately have "tmp_inv bsize ?s" using b ap by (simp add: tmp_inv_def)
    moreover have "handed bsize ?s (heap_next s) n"
      unfolding handed_def by (rule bexI [of _ ?t], rule exI [of _ 0]) (use n in \<open>auto simp: tmp_ptrs_def\<close>)
    moreover have "x < heap_next s" if "x \<in> tmp_used bsize s" for x
      using that used_in_range [OF b] gs by (fastforce simp: tmp_used_def group_ok_def)
    then have "tmp_run bsize (heap_next s) n \<inter> tmp_used bsize s = {}"
    proof -
      assume less: "\<And>x. x \<in> tmp_used bsize s \<Longrightarrow> x < heap_next s"
      have "heap_next s \<le> x" if "x \<in> tmp_run bsize (heap_next s) n" for x using that b by (auto simp: tmp_run_def)
      then show ?thesis using less by (meson disjoint_iff not_le)
    qed
    moreover have "used_in bsize ?t = tmp_run bsize (heap_next s) n"
      using n(2) by (auto simp: used_in_def tmp_run_def tmp_ptrs_def split: if_splits)
    then have "tmp_used bsize ?s = tmp_used bsize s \<union> tmp_run bsize (heap_next s) n" by (auto simp: tmp_used_def)
    ultimately show thesis using that pre None by simp
  qed
qed

lemma free_in_good:
  assumes "0 < bsize" "sorted_wrt (apart bsize) ts" "\<forall>t \<in> set ts. group_ok bsize lim t" "ts = xs @ t # ys"
    "j + n \<le> NUM_TMP_BLOCKS" "0 < n" "\<forall>k < n. block_ptrs t ! (j + k) = None"
  shows "free_in bsize (tmp_data t + int j * bsize) n ts =
    Some (xs @ t\<lparr>block_ptrs := fill_ptrs bsize (block_ptrs t) j (tmp_data t + int j * bsize) n\<rparr> # ys)"
  using assms
proof (induction xs arbitrary: ts)
  case Nil
  have "length (block_ptrs t) = NUM_TMP_BLOCKS" using Nil.prems(3,4) by (simp add: group_ok_def)
  then have "give_ptrs bsize (block_ptrs t) j (tmp_data t + int j * bsize) n =
      Some (fill_ptrs bsize (block_ptrs t) j (tmp_data t + int j * bsize) n)"
    using Nil.prems(5,7) by (intro give_ptrs_eq) (auto dest: le_Suc_ex)
  moreover have "tmp_data t + int j * bsize \<in> tmp_run bsize (tmp_data t + int j * bsize) n"
    using Nil.prems(6) run_index [OF Nil.prems(1)] by simp
  then have "tmp_data t \<le> tmp_data t + int j * bsize \<and> tmp_data t + int j * bsize < tmp_data t + int NUM_TMP_BLOCKS * bsize"
    by (intro tmp_run_range [OF Nil.prems(1) _ Nil.prems(5)])
  ultimately show ?case using Nil.prems(1,4) by auto
next
  case (Cons u xs)
  have ap: "apart bsize u t" using Cons.prems(2,4) by simp
  have r: "tmp_data t + int j * bsize \<in> tmp_run bsize (tmp_data t + int j * bsize) n"
    using Cons.prems(6) run_index [OF Cons.prems(1)] by simp
  have "\<not> (tmp_data u \<le> tmp_data t + int j * bsize \<and>
      tmp_data t + int j * bsize < tmp_data u + int NUM_TMP_BLOCKS * bsize)"
    using ap tmp_run_range [OF Cons.prems(1) r Cons.prems(5)] by (auto simp: apart_def)
  moreover have "free_in bsize (tmp_data t + int j * bsize) n (xs @ t # ys) =
    Some (xs @ t\<lparr>block_ptrs := fill_ptrs bsize (block_ptrs t) j (tmp_data t + int j * bsize) n\<rparr> # ys)"
    by (rule Cons.IH) (use Cons.prems in auto)
  ultimately show ?case using Cons.prems(4) by auto
qed

lemma free_tmp_blocks_good:
  assumes inv: "tmp_inv bsize s" and h: "handed bsize s a n" and n: "0 < n"
  obtains s' where "free_tmp_blocks bsize (Some a) (int n) s = Some s'" "tmp_inv bsize s'"
    "tmp_used bsize s' = tmp_used bsize s - tmp_run bsize a n"
proof -
  have b: "0 < bsize" and sem: "tmp_blocks_sem s = 1" and gs: "\<forall>t \<in> set (tmp_list s). group_ok bsize (heap_next s) t"
    and ap: "sorted_wrt (apart bsize) (tmp_list s)" using inv by (auto simp: tmp_inv_def)
  obtain t j where t: "t \<in> set (tmp_list s)" "a = tmp_data t + int j * bsize" "j + n \<le> NUM_TMP_BLOCKS"
    "\<forall>k < n. block_ptrs t ! (j + k) = None" using h by (auto simp: handed_def)
  obtain xs ys where x: "tmp_list s = xs @ t # ys" using split_list [OF t(1)] by blast
  let ?t = "t\<lparr>block_ptrs := fill_ptrs bsize (block_ptrs t) j a n\<rparr>"
  let ?s = "s\<lparr>tmp_list := xs @ ?t # ys, tmp_blocks_sem := 1\<rparr>"
  have gt: "group_ok bsize (heap_next s) t" using gs t(1) by simp
  have "free_tmp_blocks bsize (Some a) (int n) s = Some ?s"
    using free_in_good [OF b ap gs x t(3) n t(4)] t(2,3) sem
    by (simp add: free_tmp_blocks_def acquire_sem_def release_sem_def)
  moreover have "tmp_inv bsize ?s"
    using b gs ap x group_ok_fill [OF gt t(2), of n] by (auto simp: tmp_inv_def sorted_wrt_append)
  moreover have "used_in bsize u \<inter> tmp_run bsize a n = {}" if "u \<in> set xs \<union> set ys" for u
    using run_apart [OF b _ t(3) that] ap x t(2) by simp
  then have "tmp_used bsize ?s = tmp_used bsize s - tmp_run bsize a n"
    using x used_in_fill [OF gt b t(3), of a] t(2) by (fastforce simp: tmp_used_def)
  ultimately show thesis by (rule that)
qed

text \<open>
  Claim C28: \<open>get_tmp_blocks\<close> returns a run of blocks that nobody uses, adds exactly that run to the blocks in
  use, and \<open>free_tmp_blocks\<close> of the run takes exactly it away again; both give the semaphore back.
\<close>

theorem tmp_blocks_cycle:
  assumes "tmp_inv bsize s" "heap_ok s" "0 < n" "n \<le> NUM_TMP_BLOCKS"
  shows "\<exists>a s1 s2. get_tmp_blocks bsize (int n) s = Some (Some a, s1) \<and> tmp_inv bsize s1 \<and>
    tmp_run bsize a n \<inter> tmp_used bsize s = {} \<and> tmp_used bsize s1 = tmp_used bsize s \<union> tmp_run bsize a n \<and>
    free_tmp_blocks bsize (Some a) (int n) s1 = Some s2 \<and> tmp_inv bsize s2 \<and> tmp_used bsize s2 = tmp_used bsize s"
proof -
  obtain a s1 where 1: "get_tmp_blocks bsize (int n) s = Some (Some a, s1)" "tmp_inv bsize s1" "handed bsize s1 a n"
    "tmp_run bsize a n \<inter> tmp_used bsize s = {}" "tmp_used bsize s1 = tmp_used bsize s \<union> tmp_run bsize a n"
    by (rule get_tmp_blocks_good [OF assms])
  obtain s2 where "free_tmp_blocks bsize (Some a) (int n) s1 = Some s2" "tmp_inv bsize s2"
    "tmp_used bsize s2 = tmp_used bsize s1 - tmp_run bsize a n"
    by (rule free_tmp_blocks_good [OF 1(2,3) assms(3)])
  with 1 show ?thesis by blast
qed

theorem tmp_blocks_cycle_witness:
  "\<exists>a s1 s2. get_tmp_blocks 1024 3 \<lparr>tmp_blocks_sem = 1, tmp_list = [], heap_next = 4096, heap_ok = True\<rparr> = Some (Some a, s1) \<and>
     free_tmp_blocks 1024 (Some a) 3 s1 = Some s2 \<and> tmp_used 1024 s2 = {}"
  using tmp_blocks_cycle [of 1024 "\<lparr>tmp_blocks_sem = 1, tmp_list = [], heap_next = 4096, heap_ok = True\<rparr>" 3]
  by (auto simp: tmp_inv_def tmp_used_def NUM_TMP_BLOCKS_def)

text \<open>
  When \<open>malloc\<close> fails, \<open>get_tmp_blocks\<close> returns \<open>NULL\<close> with the semaphore still taken, and the next
  call of \<open>get_tmp_blocks\<close> or \<open>free_tmp_blocks\<close> does not come back.
\<close>

theorem tmp_blocks_sem_leak:
  "tmp_blocks_sem s = 1 \<Longrightarrow> \<not> heap_ok s \<Longrightarrow> n \<le> int NUM_TMP_BLOCKS \<Longrightarrow> search_groups n (tmp_list s) = Some None \<Longrightarrow>
   \<exists>s'. get_tmp_blocks bsize n s = Some (None, s') \<and> get_tmp_blocks bsize n s' = None \<and>
     free_tmp_blocks bsize (Some a) n s' = None"
  by (auto simp: get_tmp_blocks_def free_tmp_blocks_def acquire_sem_def malloc_def halt_simps Let_def)

theorem tmp_blocks_sem_leak_witness:
  "\<exists>s'. get_tmp_blocks 512 1 \<lparr>tmp_blocks_sem = 1, tmp_list = [], heap_next = 0, heap_ok = False\<rparr> = Some (None, s') \<and>
     get_tmp_blocks 512 1 s' = None"
  using tmp_blocks_sem_leak [of "\<lparr>tmp_blocks_sem = 1, tmp_list = [], heap_next = 0, heap_ok = False\<rparr>" 1 512 0]
  by (auto simp: NUM_TMP_BLOCKS_def)

end
