(* ===== verification/Myfs_IO.thy ===== *)
theory Myfs_IO
  imports Cache_Props Byte_Codec Tmp_Blocks
begin

text \<open>
  The state of a mounted file system (\<open>myfs.h\<close>), the super block as it lies on the disk, and \<open>io.c\<close>:
  transfers of file system blocks through the cache and of the super block past it.

  A pointer to a buffer is the list of the bytes that may be accessed through it; an access beyond
  them does not come back (\<open>None\<close>).
\<close>

section \<open>C arithmetic\<close>

text \<open>Conversion to \<open>int\<close>; division and remainder truncate towards zero.\<close>

definition c_int :: "int \<Rightarrow> int" where
  "c_int x = signed_take_bit 31 x"

definition c_div :: "int \<Rightarrow> int \<Rightarrow> int" where
  "c_div a b = sgn a * sgn b * (\<bar>a\<bar> div \<bar>b\<bar>)"

definition c_mod :: "int \<Rightarrow> int \<Rightarrow> int" where
  "c_mod a b = a - c_div a b * b"

lemma c_int_id [simp]: "- (2 ^ 31) \<le> x \<Longrightarrow> x < 2 ^ 31 \<Longrightarrow> c_int x = x"
  by (simp add: c_int_def signed_take_bit_int_eq_self)

lemma c_div_id [simp]: "0 \<le> a \<Longrightarrow> 0 < b \<Longrightarrow> c_div a b = a div b"
  by (cases "a = 0") (simp_all add: c_div_def)

lemma c_mod_id [simp]: "0 \<le> a \<Longrightarrow> 0 < b \<Longrightarrow> c_mod a b = a mod b"
  by (simp add: c_mod_def minus_div_mult_eq_mod)

text \<open>\<open>x & ~(2\<^sup>k - 1)\<close> rounds down to a multiple.\<close>

lemma and_not_low: "(x::int) AND NOT (2 ^ k - 1) = x div 2 ^ k * 2 ^ k"
proof -
  have "x AND NOT (mask k) = push_bit k (drop_bit k x)"
    by (rule bit_eqI) (auto simp: bit_simps)
  then show ?thesis by (simp add: mask_eq_exp_minus_1 push_bit_eq_mult drop_bit_eq_div)
qed

section \<open>The super block\<close>

definition SUPER_BLOCK_MAGIC1 :: int where "SUPER_BLOCK_MAGIC1 = 0x4d594653"
definition SUPER_BLOCK_MAGIC2 :: int where "SUPER_BLOCK_MAGIC2 = 0xce0169f9"
definition SUPER_BLOCK_MAGIC3 :: int where "SUPER_BLOCK_MAGIC3 = 0x53424c4b"
definition MYFS_CLEAN :: int where "MYFS_CLEAN = 0x434c454e"
definition MYFS_DIRTY :: int where "MYFS_DIRTY = 0x44495254"
definition MYFS_BIG_ENDIAN :: int where "MYFS_BIG_ENDIAN = 0x42494745"

text \<open>\<open>sb_pad\<close> is the padding at the end of the structure, which is copied with it.\<close>

record super_block =
  sb_name :: "byte list"
  sb_magic1 :: int
  fs_byte_order :: int
  block_size :: int
  block_shift :: int
  num_blocks :: fs_off_t
  used_blocks :: fs_off_t
  num_inodes :: fs_off_t
  inode_map_start :: fs_off_t
  num_inode_map_blocks :: fs_off_t
  inodes_start :: fs_off_t
  num_inode_blocks :: fs_off_t
  sb_magic2 :: int
  sb_flags :: int
  root_inum :: fs_off_t
  journal_start :: fs_off_t
  journal_length :: fs_off_t
  log_start :: fs_off_t
  log_end :: fs_off_t
  sb_magic3 :: int
  sb_pad :: "byte list"

definition sizeof_super_block :: nat where
  "sizeof_super_block = 160"

definition sb_bytes :: "super_block \<Rightarrow> byte list" where
  "sb_bytes sb = sb_name sb @ le_bytes 4 (sb_magic1 sb) @ le_bytes 4 (fs_byte_order sb) @
     le_bytes 4 (block_size sb) @ le_bytes 4 (block_shift sb) @
     concat (map (le_bytes 8) [num_blocks sb, used_blocks sb, num_inodes sb, inode_map_start sb,
       num_inode_map_blocks sb, inodes_start sb, num_inode_blocks sb]) @
     le_bytes 4 (sb_magic2 sb) @ le_bytes 4 (sb_flags sb) @
     concat (map (le_bytes 8) [root_inum sb, journal_start sb, journal_length sb, log_start sb, log_end sb]) @
     le_bytes 4 (sb_magic3 sb) @ sb_pad sb"

text \<open>The integer of \<open>n\<close> bytes at an offset.\<close>

definition at :: "byte list \<Rightarrow> nat \<Rightarrow> nat \<Rightarrow> byte list" where
  "at xs p n = take n (drop p xs)"

definition sb_of_bytes :: "byte list \<Rightarrow> super_block" where
  "sb_of_bytes xs = \<lparr>sb_name = at xs 0 32, sb_magic1 = le_sint (at xs 32 4), fs_byte_order = le_sint (at xs 36 4),
     block_size = le_uint (at xs 40 4), block_shift = le_uint (at xs 44 4),
     num_blocks = le_sint (at xs 48 8), used_blocks = le_sint (at xs 56 8), num_inodes = le_sint (at xs 64 8),
     inode_map_start = le_sint (at xs 72 8), num_inode_map_blocks = le_sint (at xs 80 8),
     inodes_start = le_sint (at xs 88 8), num_inode_blocks = le_sint (at xs 96 8),
     sb_magic2 = le_sint (at xs 104 4), sb_flags = le_sint (at xs 108 4), root_inum = le_sint (at xs 112 8),
     journal_start = le_sint (at xs 120 8), journal_length = le_sint (at xs 128 8), log_start = le_sint (at xs 136 8),
     log_end = le_sint (at xs 144 8), sb_magic3 = le_sint (at xs 152 4), sb_pad = at xs 156 4\<rparr>"

text \<open>The fields fit their C types.\<close>

definition fits_s :: "nat \<Rightarrow> int \<Rightarrow> bool" where
  "fits_s n x \<longleftrightarrow> - (2 ^ (8 * n - 1)) \<le> x \<and> x < 2 ^ (8 * n - 1)"

definition sb_typed :: "super_block \<Rightarrow> bool" where
  "sb_typed sb \<longleftrightarrow> length (sb_name sb) = 32 \<and> length (sb_pad sb) = 4 \<and>
     list_all (fits_s 4) [sb_magic1 sb, fs_byte_order sb, sb_magic2 sb, sb_flags sb, sb_magic3 sb] \<and>
     0 \<le> block_size sb \<and> block_size sb < 2 ^ 32 \<and> 0 \<le> block_shift sb \<and> block_shift sb < 2 ^ 32 \<and>
     list_all (fits_s 8) [num_blocks sb, used_blocks sb, num_inodes sb, inode_map_start sb, num_inode_map_blocks sb,
       inodes_start sb, num_inode_blocks sb, root_inum sb, journal_start sb, journal_length sb, log_start sb, log_end sb]"

lemma at_skip: "length xs \<le> p \<Longrightarrow> at (xs @ ys) p n = at ys (p - length xs) n"
  by (simp add: at_def)

lemma at_head: "length xs = n \<Longrightarrow> at (xs @ ys) 0 n = xs"
  by (simp add: at_def)

lemma at_whole: "length xs = n \<Longrightarrow> at xs 0 n = xs"
  by (simp add: at_def)

lemma le_sint_fits: "fits_s n x \<Longrightarrow> 0 < n \<Longrightarrow> le_sint (le_bytes n x) = x"
  by (simp add: fits_s_def le_sint_bytes)

lemma sb_bytes_length: "sb_typed sb \<Longrightarrow> length (sb_bytes sb) = sizeof_super_block"
  by (simp add: sb_bytes_def sb_typed_def sizeof_super_block_def)

lemma sb_round_trip: "sb_typed sb \<Longrightarrow> sb_of_bytes (sb_bytes sb @ rest) = sb"
  by (simp add: sb_of_bytes_def sb_bytes_def sb_typed_def at_skip at_head at_whole le_sint_fits le_uint_bytes)


section \<open>Inodes\<close>

definition NUM_DIRECT_BLOCKS :: nat where "NUM_DIRECT_BLOCKS = 6"
definition INODE_MAGIC1 :: int where "INODE_MAGIC1 = 0x496e6f64"

record data_stream =
  direct :: "fs_off_t list"
  indirect :: fs_off_t
  double_indirect :: fs_off_t
  ds_size :: fs_off_t

record myfs_inode_etc =
  i_lock :: lock
  contents :: "byte list option"
  counter :: int

text \<open>\<open>i_pad\<close> is the padding behind \<open>flags\<close>; \<open>etc_ptr\<close> is the number that the pointer \<open>etc\<close> is (it goes to the
  disk with the rest) and \<open>etc\<close> what it points to, \<open>None\<close> for \<open>NULL\<close>.\<close>

record myfs_inode =
  i_magic1 :: int
  i_uid :: int
  i_gid :: int
  i_mode :: int
  inode_num :: fs_off_t
  i_flags :: int
  i_pad :: "byte list"
  create_time :: int
  last_modified_time :: int
  etc_ptr :: int
  etc :: "myfs_inode_etc option"
  i_data :: data_stream

section \<open>A mounted file system\<close>

text \<open>
  \<open>after_dsb\<close> are the bytes that follow the member \<open>dsb\<close> in memory (\<open>write_super_block\<close> writes a whole block
  from its address); \<open>bbm_bv\<close> is \<open>bbm.bv\<close>, \<open>read_only\<close> the flag \<open>FS_READ_ONLY\<close>, \<open>tmp\<close> the temporary blocks with
  the state of the heap, and \<open>cache\<close> the block cache that the file system uses.
\<close>

record myfs_info =
  dsb :: super_block
  after_dsb :: "byte list"
  bbm_bv :: "BitVector option"
  num_bitmap_blocks :: fs_off_t
  bbm_sem :: sem
  inode_map :: BitVector
  myfs_sem :: sem
  myfs_fd :: int
  read_only :: bool
  dev_block_size :: int
  dev_block_conversion :: fs_off_t
  root_dir :: "myfs_inode option"
  tmp :: tmp_state
  cache :: block_cache

abbreviation bsize_of :: "myfs_info \<Rightarrow> int" where
  "bsize_of m \<equiv> block_size (dsb m)"

section \<open>Blocks through the cache\<close>

text \<open>\<open>block_num + nblocks > num_blocks\<close> with an unsigned \<open>nblocks\<close>: both sides are taken modulo \<open>2\<^sup>6\<^sup>4\<close>.\<close>

definition beyond_end :: "myfs_info \<Rightarrow> fs_off_t \<Rightarrow> int \<Rightarrow> bool" where
  "beyond_end m b n \<longleftrightarrow> b < num_blocks (dsb m) \<and> take_bit 64 (b + n) > take_bit 64 (num_blocks (dsb m))"

definition read_blocks :: "myfs_info \<Rightarrow> fs_off_t \<Rightarrow> byte list \<Rightarrow> int \<Rightarrow> (int \<times> byte list \<times> myfs_info) option" where
  "read_blocks m b buf n =
     (if b \<ge> num_blocks (dsb m) then Some (-1, buf, m)
      else if beyond_end m b n then Some (-1, buf, m)
      else if length buf < nat (n * bsize_of m) then None
      else do {
        (ret, out, c) \<leftarrow> cached_read (myfs_fd m) b (take (nat (n * bsize_of m)) buf) n (bsize_of m) (cache m);
        Some (if ret = 0 then n else -1, out @ drop (nat (n * bsize_of m)) buf, m\<lparr>cache := c\<rparr>)
      })"

definition write_blocks :: "myfs_info \<Rightarrow> fs_off_t \<Rightarrow> byte list \<Rightarrow> int \<Rightarrow> (int \<times> myfs_info) option" where
  "write_blocks m b buf n =
     (if read_only m then Some (-1, m)
      else if b \<ge> num_blocks (dsb m) then Some (-1, m)
      else if beyond_end m b n then Some (-1, m)
      else if length buf < nat (n * bsize_of m) then None
      else do {
        (ret, c) \<leftarrow> cached_write (myfs_fd m) b (take (nat (n * bsize_of m)) buf) n (bsize_of m) (cache m);
        Some (if ret = 0 then n else -1, m\<lparr>cache := c\<rparr>)
      })"

section \<open>The super block on the device\<close>

definition read_super_block :: "myfs_info \<Rightarrow> errno \<times> myfs_info" where
  "read_super_block m =
     (let bsz = get_device_block_size (myfs_fd m) in
      if bsz < 0 then (EINVAL, m)
      else let m1 = m\<lparr>dev_block_size := bsz\<rparr>; bsz = (if bsz < 1024 then 1024 else bsz) in
        if \<not> heap_ok (tmp m1) then (ENOMEM, m1)
        else let (ret, got) = read_pos (devs (cache m1)) (myfs_fd m1) 0 (nat bsz) in
          if ret \<noteq> bsz then (EINVAL, m1)
          else let sb = sb_of_bytes got in
            (0, m1\<lparr>dsb := sb, dev_block_size := bsz, dev_block_conversion := block_size sb div bsz\<rparr>))"

definition write_super_block :: "myfs_info \<Rightarrow> (int \<times> myfs_info) option" where
  "write_super_block m =
     (let m1 = m\<lparr>dsb := (dsb m)\<lparr>sb_flags := MYFS_CLEAN\<rparr>\<rparr>; mem = sb_bytes (dsb m1) @ after_dsb m1 in
      if length mem < nat (bsize_of m1) then None
      else let (amt, dv) = write_pos (devs (cache m1)) (myfs_fd m1) 0 (take (nat (bsize_of m1)) mem) in
        Some (if amt = bsize_of m1 then 0 else -1, m1\<lparr>cache := (cache m1)\<lparr>devs := dv\<rparr>\<rparr>))"

section \<open>A file system in working order\<close>

text \<open>
  The cache has its invariant and knows the size of the device, block sizes are powers of two from 512 to
  32768, and the super block, which is written past the cache, is not in the cache.
\<close>

definition fs_ok :: "(int \<Rightarrow> int) \<Rightarrow> myfs_info \<Rightarrow> bool" where
  "fs_ok bs m \<longleftrightarrow> cache_inv bs (cache m) \<and> bs (myfs_fd m) = bsize_of m \<and>
     max_device_blocks (cache m) (myfs_fd m) = num_blocks (dsb m) \<and>
     bsize_of m \<in> {512, 1024, 2048, 4096, 8192, 16384, 32768} \<and> 0 < num_blocks (dsb m) \<and> num_blocks (dsb m) < 2 ^ 31 \<and>
     \<not> read_only m \<and> block_addr (cache m) (myfs_fd m) 0 = None"

text \<open>What block \<open>b\<close> holds; blocks changed through a pointer and not yet marked; pins still to be had.\<close>

definition fs_blk :: "(int \<Rightarrow> int) \<Rightarrow> myfs_info \<Rightarrow> fs_off_t \<Rightarrow> byte list" where
  "fs_blk bs m b = view bs (cache m) (myfs_fd m) b"

definition fs_has :: "myfs_info \<Rightarrow> fs_off_t \<Rightarrow> bool" where
  "fs_has m b \<longleftrightarrow> 0 < b \<and> b < num_blocks (dsb m)"

definition loose :: "(int \<Rightarrow> int) \<Rightarrow> myfs_info \<Rightarrow> fs_off_t \<Rightarrow> bool" where
  "loose bs m b = stale bs (cache m) (myfs_fd m) b"

definition spare :: "myfs_info \<Rightarrow> int" where
  "spare m = pin_room (cache m) - int (card (held pins (cache m)))"

text \<open>A step that only used the cache: everything else is as it was, and so are the pins.\<close>

definition fs_step :: "(int \<Rightarrow> int) \<Rightarrow> myfs_info \<Rightarrow> myfs_info \<Rightarrow> bool" where
  "fs_step bs m m' \<longleftrightarrow> (\<exists>c. m' = m\<lparr>cache := c\<rparr> \<and> bc.calm bs (cache m) c \<and>
     (block_addr (cache m) (myfs_fd m) 0 = None \<longrightarrow> block_addr c (myfs_fd m) 0 = None))"

lemma fs_stepI:
  assumes "m' = m\<lparr>cache := c\<rparr>" "bc.calm bs (cache m) c"
    "block_addr (cache m) (myfs_fd m) 0 = None \<longrightarrow> block_addr c (myfs_fd m) 0 = None"
  shows "fs_step bs m m'"
  unfolding fs_step_def by (intro exI conjI) (rule assms)+

lemma fs_stepE:
  assumes "fs_step bs m m'"
  obtains c where "m' = m\<lparr>cache := c\<rparr>" "bc.calm bs (cache m) c"
    "block_addr (cache m) (myfs_fd m) 0 = None \<longrightarrow> block_addr c (myfs_fd m) 0 = None"
  using assms unfolding fs_step_def by (elim exE conjE) (rule that)

lemma fs_stepD:
  assumes "fs_step bs m m'"
  shows "dsb m' = dsb m" "after_dsb m' = after_dsb m" "bbm_bv m' = bbm_bv m" "num_bitmap_blocks m' = num_bitmap_blocks m"
    "bbm_sem m' = bbm_sem m" "inode_map m' = inode_map m" "myfs_fd m' = myfs_fd m" "tmp m' = tmp m"
    "read_only m' = read_only m" "spare m' = spare m" "loose bs m' b \<Longrightarrow> loose bs m b"
    "pins (cache m') = pins (cache m)" "m'\<lparr>cache := c\<rparr> = m\<lparr>cache := c\<rparr>"
    "0 < pins (cache m) (myfs_fd m) b \<Longrightarrow>
       block_addr (cache m') (myfs_fd m) b = block_addr (cache m) (myfs_fd m) b"
proof -
  obtain c' where m': "m' = m\<lparr>cache := c'\<rparr>" and cl: "bc.calm bs (cache m) c'" using assms unfolding fs_step_def by blast
  note C = cl [unfolded bc.calm_def]
  show "dsb m' = dsb m" "after_dsb m' = after_dsb m" "bbm_bv m' = bbm_bv m" "num_bitmap_blocks m' = num_bitmap_blocks m"
    "bbm_sem m' = bbm_sem m" "inode_map m' = inode_map m" "myfs_fd m' = myfs_fd m" "tmp m' = tmp m"
    "read_only m' = read_only m" "m'\<lparr>cache := c\<rparr> = m\<lparr>cache := c\<rparr>" by (simp_all add: m')
  show p: "pins (cache m') = pins (cache m)" using C by (simp add: m')
  show "spare m' = spare m" using C by (simp add: m' spare_def held_def)
  show "loose bs m' b \<Longrightarrow> loose bs m b" using C by (simp add: m' loose_def)
  show "0 < pins (cache m) (myfs_fd m) b \<Longrightarrow>
       block_addr (cache m') (myfs_fd m) b = block_addr (cache m) (myfs_fd m) b" using C by (simp add: m')
qed

lemma fs_step_trans: "fs_step bs m m1 \<Longrightarrow> fs_step bs m1 m2 \<Longrightarrow> fs_step bs m m2"
proof -
  assume "fs_step bs m m1" "fs_step bs m1 m2"
  then obtain c c' where c: "m1 = m\<lparr>cache := c\<rparr>" "bc.calm bs (cache m) c"
      "block_addr (cache m) (myfs_fd m) 0 = None \<longrightarrow> block_addr c (myfs_fd m) 0 = None"
    and c': "m2 = m1\<lparr>cache := c'\<rparr>" "bc.calm bs (cache m1) c'"
      "block_addr (cache m1) (myfs_fd m1) 0 = None \<longrightarrow> block_addr c' (myfs_fd m1) 0 = None"
    unfolding fs_step_def by (elim exE conjE) (rule that)
  have "m2 = m\<lparr>cache := c'\<rparr>" "bc.calm bs (cache m) c'"
    using c(1,2) c'(1,2) bc.calm_trans [of bs "cache m" c c'] by simp_all
  then show ?thesis unfolding fs_step_def by (intro exI [of _ c']) (use c(1,3) c'(3) in simp)
qed

lemma fs_step_refl: "fs_ok bs m \<Longrightarrow> fs_step bs m m"
  unfolding fs_step_def by (rule exI [of _ "cache m"]) (simp add: fs_ok_def bc.calm_refl)

lemma on_device_max:
  assumes "on_device s' = on_device s" "0 < max_device_blocks s d"
  shows "max_device_blocks s' d = max_device_blocks s d"
proof -
  have "on_device s' d b \<longleftrightarrow> on_device s d b" for b using assms by simp
  from this [of "max_device_blocks s d - 1"] this [of "max_device_blocks s d"] assms(2) show ?thesis
    by (simp add: on_device_def)
qed

lemma fs_step_ok:
  assumes "fs_step bs m m'" "fs_ok bs m"
  shows "fs_ok bs m'"
proof -
  obtain c where c: "m' = m\<lparr>cache := c\<rparr>" "bc.calm bs (cache m) c" "block_addr c (myfs_fd m) 0 = None"
    using assms by (auto simp: fs_step_def fs_ok_def)
  have "max_device_blocks c (myfs_fd m) = max_device_blocks (cache m) (myfs_fd m)"
    by (rule on_device_max) (use c(2) assms(2) in \<open>auto simp: bc.calm_def fs_ok_def\<close>)
  then show ?thesis using c assms(2) by (simp add: fs_ok_def bc.calm_def)
qed

lemma fs_okD:
  assumes "fs_ok bs m"
  shows "512 \<le> bsize_of m" "bsize_of m \<le> 32768" "0 < num_blocks (dsb m)" "num_blocks (dsb m) < 2 ^ 31"
    "cache_inv bs (cache m)" "bs (myfs_fd m) = bsize_of m" "max_device_blocks (cache m) (myfs_fd m) = num_blocks (dsb m)"
    "\<not> read_only m" "c_int (bsize_of m) = bsize_of m"
proof -
  have f: "bsize_of m \<in> {512, 1024, 2048, 4096, 8192, 16384, 32768}" "0 < num_blocks (dsb m)"
    "num_blocks (dsb m) < 2 ^ 31" "cache_inv bs (cache m)" "bs (myfs_fd m) = bsize_of m"
    "max_device_blocks (cache m) (myfs_fd m) = num_blocks (dsb m)" "\<not> read_only m"
    using assms unfolding fs_ok_def by blast+
  from f(2-7) show "0 < num_blocks (dsb m)" "num_blocks (dsb m) < 2 ^ 31"
    "cache_inv bs (cache m)" "bs (myfs_fd m) = bsize_of m" "max_device_blocks (cache m) (myfs_fd m) = num_blocks (dsb m)"
    "\<not> read_only m" by blast+
  from f(1) show l: "512 \<le> bsize_of m" and u: "bsize_of m \<le> 32768"
    unfolding insert_iff empty_iff by (elim disjE; simp)+
  show "c_int (bsize_of m) = bsize_of m" by (rule c_int_id) (use l u in simp_all)
qed

lemma fs_ok_align:
  assumes "fs_ok bs m" shows "x AND NOT (bsize_of m - 1) = x div bsize_of m * bsize_of m"
proof -
  have p: "512 = (2::int) ^ 9" "1024 = (2::int) ^ 10" "2048 = (2::int) ^ 11" "4096 = (2::int) ^ 12"
    "8192 = (2::int) ^ 13" "16384 = (2::int) ^ 14" "32768 = (2::int) ^ 15" by simp_all
  have "bsize_of m \<in> {2 ^ 9, 2 ^ 10, 2 ^ 11, 2 ^ 12, 2 ^ 13, 2 ^ 14, 2 ^ 15}"
    using assms unfolding fs_ok_def p by blast
  then obtain k where "bsize_of m = 2 ^ k" by blast
  then show ?thesis by (simp add: and_not_low)
qed

text \<open>No block holds anything else than before, but for those of a set.\<close>

definition same_blks :: "(int \<Rightarrow> int) \<Rightarrow> fs_off_t set \<Rightarrow> myfs_info \<Rightarrow> myfs_info \<Rightarrow> bool" where
  "same_blks bs A m m' \<longleftrightarrow> (\<forall>b. fs_has m b \<longrightarrow> b \<notin> A \<longrightarrow> fs_blk bs m' b = fs_blk bs m b)"

lemma same_blks_trans:
  "same_blks bs A m m1 \<Longrightarrow> same_blks bs B m1 m2 \<Longrightarrow> num_blocks (dsb m1) = num_blocks (dsb m) \<Longrightarrow> same_blks bs (A \<union> B) m m2"
  by (simp add: same_blks_def fs_has_def)

lemma same_blks_mono: "same_blks bs A m m' \<Longrightarrow> A \<subseteq> B \<Longrightarrow> same_blks bs B m m'"
  by (auto simp: same_blks_def)

lemma same_blksD: "same_blks bs A m m' \<Longrightarrow> fs_has m b \<Longrightarrow> b \<notin> A \<Longrightarrow> fs_blk bs m' b = fs_blk bs m b"
  by (simp add: same_blks_def)

lemma fs_blk_length: "fs_ok bs m \<Longrightarrow> fs_has m b \<Longrightarrow> length (fs_blk bs m b) = nat (bsize_of m)"
  using view_length [of bs "cache m" "myfs_fd m" b] by (simp add: fs_ok_def fs_blk_def fs_has_def on_device_def)

lemma fs_roomy: "fs_ok bs m \<Longrightarrow> 0 \<le> spare m \<Longrightarrow> roomy (cache m)"
  using held_card [of bs "cache m"] by (simp add: fs_ok_def spare_def pin_room_def roomy_def)

section \<open>The four ways to a block\<close>

lemma served_calm:
  assumes "served bs op d b buf n s s'" "\<not> CACHE_LOCKED op"
  shows "bc.calm bs s s'"
  using servedD [OF assms(1)] assms(2)
  by (auto simp: bc.calm_def fun_eq_iff on_device_def pin_room_def block_addr_def)

lemma served_fs_step:
  assumes "served bs op (myfs_fd m) b buf n (cache m) c" "\<not> CACHE_LOCKED op" "0 < b"
  shows "fs_step bs m (m\<lparr>cache := c\<rparr>)"
  unfolding fs_step_def using served_calm [OF assms(1,2)] servedD(9) [OF assms(1)] assms(3)
  by (intro exI [of _ c]) (simp add: block_addr_def)

text \<open>The test against the end of the device is the plain one for the sizes of a working file system.\<close>

lemma beyond_end_iff:
  assumes "fs_ok bs m" "0 \<le> b" "0 \<le> n" "b + n < 2 ^ 64"
  shows "beyond_end m b n \<longleftrightarrow> b < num_blocks (dsb m) \<and> num_blocks (dsb m) < b + n"
proof -
  have "take_bit 64 (num_blocks (dsb m)) = num_blocks (dsb m)" "take_bit 64 (b + n) = b + n"
    using assms fs_okD(3,4) [OF assms(1)] by (auto simp: take_bit_int_eq_self_iff)
  then show ?thesis by (simp add: beyond_end_def)
qed

lemma transfer_size:
  assumes "fs_ok bs m" shows "nat (int n * bsize_of m) = n * nat (bsize_of m)"
  using fs_okD(1) [OF assms] by (simp add: nat_mult_distrib)

lemma read_blocks_good:
  assumes ok: "fs_ok bs m" and sp: "0 \<le> spare m" and b: "0 < b" "b + int n \<le> num_blocks (dsb m)" "0 < n"
    and z: "int n * bsize_of m < 2 ^ 31" "length buf = n * nat (bsize_of m)"
  obtains m' where "read_blocks m b buf (int n) = Some (int n, concat (map (\<lambda>i. fs_blk bs m (b + int i)) [0..<n]), m')"
    "fs_step bs m m'" "same_blks bs {} m m'"
proof -
  note K = fs_okD [OF ok]
  have lt: "b < num_blocks (dsb m)" "b + int n < 2 ^ 64" using b K(4) by simp_all
  have nb: "\<not> beyond_end m b (int n)" using beyond_end_iff [OF ok _ _ lt(2)] b by simp
  obtain c where c: "cached_read (myfs_fd m) b buf (int n) (bsize_of m) (cache m) =
      Some (0, concat (map (\<lambda>i. view bs (cache m) (myfs_fd m) (b + int i)) [0..<n]), c)"
    and sv: "served bs (op_none\<lparr>CACHE_READ := True, CACHE_READ_AHEAD_OK := True\<rparr>) (myfs_fd m) b buf n (cache m) c"
    using cached_read_served [OF K(5) fs_roomy [OF ok sp], of b n "myfs_fd m" buf] b z K(6,7) by auto
  have "same_blks bs {} m (m\<lparr>cache := c\<rparr>)"
    using served_read(2) [OF sv] K(7) by (simp add: same_blks_def fs_blk_def fs_has_def on_device_def)
  moreover have "read_blocks m b buf (int n) =
      Some (int n, concat (map (\<lambda>i. fs_blk bs m (b + int i)) [0..<n]), m\<lparr>cache := c\<rparr>)"
    using lt nb z c by (simp add: read_blocks_def fs_blk_def transfer_size [OF ok])
  ultimately show thesis using served_fs_step [OF sv _ b(1)] that by (simp add: op_none_def)
qed

lemma write_blocks_good:
  assumes ok: "fs_ok bs m" and sp: "0 \<le> spare m" and b: "0 < b" "b + int n \<le> num_blocks (dsb m)" "0 < n"
    and z: "int n * bsize_of m < 2 ^ 31" "n * nat (bsize_of m) \<le> length buf"
  obtains m' where "write_blocks m b buf (int n) = Some (int n, m')" "fs_step bs m m'"
    "same_blks bs {b..<b + int n} m m'"
    "\<forall>i < n. fs_blk bs m' (b + int i) = at buf (i * nat (bsize_of m)) (nat (bsize_of m))"
proof -
  note K = fs_okD [OF ok]
  let ?z = "nat (bsize_of m)"
  have lt: "b < num_blocks (dsb m)" "b + int n < 2 ^ 64" using b K(4) by simp_all
  have nb: "\<not> beyond_end m b (int n)" using beyond_end_iff [OF ok _ _ lt(2)] b by simp
  obtain c where c: "cached_write (myfs_fd m) b (take (n * ?z) buf) (int n) (bsize_of m) (cache m) = Some (0, c)"
    and sv: "served bs (op_none\<lparr>CACHE_WRITE := True\<rparr>) (myfs_fd m) b (take (n * ?z) buf) n (cache m) c"
    using cached_write_served [OF K(5) fs_roomy [OF ok sp], of b n "myfs_fd m" "take (n * ?z) buf"] b z K(6,7) by auto
  note V = served_write(2) [OF sv]
  have "fs_blk bs (m\<lparr>cache := c\<rparr>) (b + int i) = at buf (i * ?z) ?z" if i: "i < n" for i
  proof -
    have "Suc i * ?z \<le> n * ?z" using i by (intro mult_le_mono1) simp
    then have "take ?z (drop (i * ?z) (take (n * ?z) buf)) = take ?z (drop (i * ?z) buf)"
      by (simp add: drop_take min_def)
    then show ?thesis using V [of "myfs_fd m" "b + int i"] b i K(6,7) by (simp add: fs_blk_def at_def on_device_def)
  qed
  moreover have "same_blks bs {b..<b + int n} m (m\<lparr>cache := c\<rparr>)"
    using V K(7) by (auto simp: same_blks_def fs_blk_def fs_has_def on_device_def)
  moreover have "write_blocks m b buf (int n) = Some (int n, m\<lparr>cache := c\<rparr>)"
    using lt nb z c K(8) by (simp add: write_blocks_def transfer_size [OF ok])
  ultimately show thesis using served_fs_step [OF sv _ b(1)] that by (simp add: op_none_def)
qed

text \<open>Access through a pointer.\<close>

definition get_blk :: "fs_off_t \<Rightarrow> myfs_info \<Rightarrow> (nat option \<times> myfs_info) option" where
  "get_blk b m = do { (p, c) \<leftarrow> get_block (myfs_fd m) b (bsize_of m) (cache m); Some (p, m\<lparr>cache := c\<rparr>) }"

definition dirty_blk :: "fs_off_t \<Rightarrow> myfs_info \<Rightarrow> myfs_info option" where
  "dirty_blk b m = do { (r, c) \<leftarrow> mark_blocks_dirty (myfs_fd m) b 1 (cache m); Some (m\<lparr>cache := c\<rparr>) }"

definition release_blk :: "fs_off_t \<Rightarrow> myfs_info \<Rightarrow> myfs_info option" where
  "release_blk b m = do { (r, c) \<leftarrow> release_block (myfs_fd m) b (cache m); Some (m\<lparr>cache := c\<rparr>) }"

abbreviation peek_blk :: "nat \<Rightarrow> myfs_info \<Rightarrow> byte list" where
  "peek_blk a m \<equiv> peek a (cache m)"

abbreviation poke_blk :: "nat \<Rightarrow> byte list \<Rightarrow> myfs_info \<Rightarrow> myfs_info" where
  "poke_blk a xs m \<equiv> m\<lparr>cache := poke a xs (cache m)\<rparr>"

lemma visit_blk:
  assumes ok: "fs_ok bs m" and sp: "0 < spare m" and b: "fs_has m b" and l: "\<not> loose bs m b"
  obtains a m1 m2 where "get_blk b m = Some (Some a, m1)" "peek_blk a m1 = fs_blk bs m b" "dsb m1 = dsb m"
    "release_blk b m1 = Some m2" "fs_step bs m m2" "same_blks bs {} m m2"
proof -
  note K = fs_okD [OF ok]
  have on: "on_device (cache m) (myfs_fd m) c" if "fs_has m c" for c using that K(7) by (simp add: on_device_def fs_has_def)
  have z: "bs (myfs_fd m) < 64 * 1024" "int (card (held pins (cache m))) < pin_room (cache m)"
    using K(2,6) sp by (simp_all add: spare_def)
  obtain a s1 s2 where s: "get_block (myfs_fd m) b (bs (myfs_fd m)) (cache m) = Some (Some a, s1)"
    "peek a s1 = view bs (cache m) (myfs_fd m) b" "release_block (myfs_fd m) b s1 = Some (0, s2)"
    "bc.calm bs (cache m) s2" "same_store on_device (view bs) (cache m) s2"
    "\<forall>d' c. block_addr (cache m) d' c = None \<and> c < b \<longrightarrow> block_addr s2 d' c = None"
    using bc.visit_block [OF K(5) on [OF b] z l [unfolded loose_def]] by (elim exE conjE) (rule that)
  show thesis
  proof (rule that [of a "m\<lparr>cache := s1\<rparr>" "m\<lparr>cache := s2\<rparr>"])
    show "fs_step bs m (m\<lparr>cache := s2\<rparr>)"
      unfolding fs_step_def using s(4,6) b by (intro exI [of _ s2]) (simp add: fs_has_def)
    show "same_blks bs {} m (m\<lparr>cache := s2\<rparr>)" using s(5) on by (simp add: same_blks_def fs_blk_def same_store_def)
  qed (use s K(6) in \<open>simp_all add: get_blk_def release_blk_def fs_blk_def\<close>)
qed

lemma change_blk:
  assumes ok: "fs_ok bs m" and sp: "0 < spare m" and b: "fs_has m b"
    and f: "length (f (fs_blk bs m b)) = nat (bsize_of m)"
  obtains a m1 m2 m3 where "get_blk b m = Some (Some a, m1)" "peek_blk a m1 = fs_blk bs m b" "dsb m1 = dsb m"
    "dirty_blk b (poke_blk a (f (fs_blk bs m b)) m1) = Some m2" "release_blk b m2 = Some m3" "fs_step bs m m3"
    "same_blks bs {b} m m3" "fs_blk bs m3 b = f (fs_blk bs m b)" "\<not> loose bs m3 b"
proof -
  note K = fs_okD [OF ok]
  have on: "on_device (cache m) (myfs_fd m) c" if "fs_has m c" for c using that K(7) by (simp add: on_device_def fs_has_def)
  have z: "bs (myfs_fd m) < 64 * 1024" "int (card (held pins (cache m))) < pin_room (cache m)"
    using K(2,6) sp by (simp_all add: spare_def)
  have f': "length (f (view bs (cache m) (myfs_fd m) b)) = nat (bs (myfs_fd m))" using f K(6) by (simp add: fs_blk_def)
  obtain a s1 s2 s3 where s: "get_block (myfs_fd m) b (bs (myfs_fd m)) (cache m) = Some (Some a, s1)"
    "peek a s1 = view bs (cache m) (myfs_fd m) b"
    "mark_blocks_dirty (myfs_fd m) b 1 (poke a (f (peek a s1)) s1) = Some (0, s2)"
    "release_block (myfs_fd m) b s2 = Some (0, s3)" "bc.calm bs (cache m) s3" "\<not> stale bs s3 (myfs_fd m) b"
    "\<forall>d' c. on_device (cache m) d' c \<longrightarrow> view bs s3 d' c = (if (d', c) = (myfs_fd m, b)
       then f (view bs (cache m) (myfs_fd m) b) else view bs (cache m) d' c)"
    "\<forall>d' c. block_addr (cache m) d' c = None \<and> c < b \<longrightarrow> block_addr s3 d' c = None"
    using bc.change_block [OF K(5) on [OF b] z, of f, OF f'] by (elim exE conjE) (rule that)
  show thesis
  proof (rule that [of a "m\<lparr>cache := s1\<rparr>" "m\<lparr>cache := s2\<rparr>" "m\<lparr>cache := s3\<rparr>"])
    show "fs_step bs m (m\<lparr>cache := s3\<rparr>)"
      unfolding fs_step_def using s(5,8) b by (intro exI [of _ s3]) (simp add: fs_has_def)
    show "same_blks bs {b} m (m\<lparr>cache := s3\<rparr>)" using s(7) on by (simp add: same_blks_def fs_blk_def)
    show "fs_blk bs (m\<lparr>cache := s3\<rparr>) b = f (fs_blk bs m b)" using s(7) on [OF b] by (simp add: fs_blk_def)
    show "dirty_blk b (poke_blk a (f (fs_blk bs m b)) (m\<lparr>cache := s1\<rparr>)) = Some (m\<lparr>cache := s2\<rparr>)"
      using s(2,3) by (simp add: dirty_blk_def fs_blk_def)
  qed (use s K(6) in \<open>simp_all add: get_blk_def release_blk_def fs_blk_def loose_def\<close>)
qed

section \<open>Steps that also change the maps\<close>

text \<open>
  A step that besides the cache changed the two maps and the fields \<open>used_blocks\<close> and \<open>flags\<close> of the super block
  at most.
\<close>

definition fs_move :: "(int \<Rightarrow> int) \<Rightarrow> myfs_info \<Rightarrow> myfs_info \<Rightarrow> bool" where
  "fs_move bs m m' \<longleftrightarrow> (\<exists>bv im u f c. m' = m\<lparr>bbm_bv := bv, inode_map := im,
       dsb := (dsb m)\<lparr>used_blocks := u, sb_flags := f\<rparr>, cache := c\<rparr> \<and> bc.calm bs (cache m) c \<and>
     (block_addr (cache m) (myfs_fd m) 0 = None \<longrightarrow> block_addr c (myfs_fd m) 0 = None))"

lemma fs_moveE:
  assumes "fs_move bs m m'"
  obtains bv im u f c where "m' = m\<lparr>bbm_bv := bv, inode_map := im,
       dsb := (dsb m)\<lparr>used_blocks := u, sb_flags := f\<rparr>, cache := c\<rparr>" "bc.calm bs (cache m) c"
     "block_addr (cache m) (myfs_fd m) 0 = None \<longrightarrow> block_addr c (myfs_fd m) 0 = None"
  using assms unfolding fs_move_def by (elim exE conjE) (rule that)

lemma fs_moveI:
  assumes "m' = m\<lparr>bbm_bv := bv, inode_map := im, dsb := (dsb m)\<lparr>used_blocks := u, sb_flags := f\<rparr>, cache := c\<rparr>"
    "bc.calm bs (cache m) c" "block_addr (cache m) (myfs_fd m) 0 = None \<longrightarrow> block_addr c (myfs_fd m) 0 = None"
  shows "fs_move bs m m'"
  unfolding fs_move_def by (intro exI conjI) (rule assms)+

lemma fs_moveD:
  assumes "fs_move bs m m'"
  shows "after_dsb m' = after_dsb m" "num_bitmap_blocks m' = num_bitmap_blocks m" "bbm_sem m' = bbm_sem m"
    "myfs_fd m' = myfs_fd m" "tmp m' = tmp m" "read_only m' = read_only m" "root_dir m' = root_dir m"
    "spare m' = spare m" "\<And>b. loose bs m' b \<Longrightarrow> loose bs m b" "pins (cache m') = pins (cache m)"
    "block_size (dsb m') = block_size (dsb m)" "num_blocks (dsb m') = num_blocks (dsb m)"
    "num_inodes (dsb m') = num_inodes (dsb m)" "inode_map_start (dsb m') = inode_map_start (dsb m)"
    "num_inode_map_blocks (dsb m') = num_inode_map_blocks (dsb m)" "inodes_start (dsb m') = inodes_start (dsb m)"
    "num_inode_blocks (dsb m') = num_inode_blocks (dsb m)" "root_inum (dsb m') = root_inum (dsb m)"
    "\<And>b. fs_has m' b = fs_has m b"
    "\<And>b. 0 < pins (cache m) (myfs_fd m) b \<Longrightarrow>
       block_addr (cache m') (myfs_fd m) b = block_addr (cache m) (myfs_fd m) b"
proof -
  obtain bv im u f c where e: "m' = m\<lparr>bbm_bv := bv, inode_map := im,
       dsb := (dsb m)\<lparr>used_blocks := u, sb_flags := f\<rparr>, cache := c\<rparr>" and cl: "bc.calm bs (cache m) c"
    using assms by (rule fs_moveE)
  note C = cl [unfolded bc.calm_def]
  show "after_dsb m' = after_dsb m" "num_bitmap_blocks m' = num_bitmap_blocks m" "bbm_sem m' = bbm_sem m"
    "myfs_fd m' = myfs_fd m" "tmp m' = tmp m" "read_only m' = read_only m" "root_dir m' = root_dir m"
    "block_size (dsb m') = block_size (dsb m)" "num_blocks (dsb m') = num_blocks (dsb m)"
    "num_inodes (dsb m') = num_inodes (dsb m)" "inode_map_start (dsb m') = inode_map_start (dsb m)"
    "num_inode_map_blocks (dsb m') = num_inode_map_blocks (dsb m)" "inodes_start (dsb m') = inodes_start (dsb m)"
    "num_inode_blocks (dsb m') = num_inode_blocks (dsb m)" "root_inum (dsb m') = root_inum (dsb m)"
    "\<And>b. fs_has m' b = fs_has m b" by (simp_all add: e fs_has_def)
  show p: "pins (cache m') = pins (cache m)" using C by (simp add: e)
  show "spare m' = spare m" using C by (simp add: e spare_def held_def)
  show "loose bs m' b \<Longrightarrow> loose bs m b" for b using C by (simp add: e loose_def)
  show "0 < pins (cache m) (myfs_fd m) b \<Longrightarrow>
       block_addr (cache m') (myfs_fd m) b = block_addr (cache m) (myfs_fd m) b" for b using C by (simp add: e)
qed

lemma fs_move_trans:
  assumes "fs_move bs m m1" "fs_move bs m1 m2" shows "fs_move bs m m2"
proof -
  obtain bv im u f c where e: "m1 = m\<lparr>bbm_bv := bv, inode_map := im,
       dsb := (dsb m)\<lparr>used_blocks := u, sb_flags := f\<rparr>, cache := c\<rparr>" "bc.calm bs (cache m) c"
     "block_addr (cache m) (myfs_fd m) 0 = None \<longrightarrow> block_addr c (myfs_fd m) 0 = None" using assms(1) by (rule fs_moveE)
  obtain bv' im' u' f' c' where e': "m2 = m1\<lparr>bbm_bv := bv', inode_map := im',
       dsb := (dsb m1)\<lparr>used_blocks := u', sb_flags := f'\<rparr>, cache := c'\<rparr>" "bc.calm bs (cache m1) c'"
     "block_addr (cache m1) (myfs_fd m1) 0 = None \<longrightarrow> block_addr c' (myfs_fd m1) 0 = None" using assms(2) by (rule fs_moveE)
  have "m2 = m\<lparr>bbm_bv := bv', inode_map := im',
       dsb := (dsb m)\<lparr>used_blocks := u', sb_flags := f'\<rparr>, cache := c'\<rparr>" unfolding e'(1) e(1) by simp
  moreover have "bc.calm bs (cache m) c'" using bc.calm_trans [of bs "cache m" c c'] e(2) e'(2) by (simp add: e(1))
  moreover have "block_addr (cache m) (myfs_fd m) 0 = None \<longrightarrow> block_addr c' (myfs_fd m) 0 = None"
    using e(3) e'(3) by (simp add: e(1))
  ultimately show ?thesis by (rule fs_moveI)
qed

lemma fs_step_move:
  assumes "fs_step bs (m\<lparr>bbm_bv := bv, inode_map := im, dsb := (dsb m)\<lparr>used_blocks := u, sb_flags := f\<rparr>\<rparr>) m'"
  shows "fs_move bs m m'"
proof -
  obtain c where c: "m' = m\<lparr>bbm_bv := bv, inode_map := im, dsb := (dsb m)\<lparr>used_blocks := u, sb_flags := f\<rparr>\<rparr>\<lparr>cache := c\<rparr>"
    "bc.calm bs (cache (m\<lparr>bbm_bv := bv, inode_map := im, dsb := (dsb m)\<lparr>used_blocks := u, sb_flags := f\<rparr>\<rparr>)) c"
    "block_addr (cache (m\<lparr>bbm_bv := bv, inode_map := im, dsb := (dsb m)\<lparr>used_blocks := u, sb_flags := f\<rparr>\<rparr>))
       (myfs_fd (m\<lparr>bbm_bv := bv, inode_map := im, dsb := (dsb m)\<lparr>used_blocks := u, sb_flags := f\<rparr>\<rparr>)) 0 = None \<longrightarrow>
     block_addr c (myfs_fd (m\<lparr>bbm_bv := bv, inode_map := im, dsb := (dsb m)\<lparr>used_blocks := u, sb_flags := f\<rparr>\<rparr>)) 0 = None"
    using assms by (rule fs_stepE)
  show ?thesis by (rule fs_moveI [OF c(1)]) (use c(2,3) in simp_all)
qed

lemma fs_step_is_move: "fs_step bs m m' \<Longrightarrow> fs_move bs m m'"
  by (rule fs_step_move [where bv = "bbm_bv m" and im = "inode_map m" and u = "used_blocks (dsb m)" and f = "sb_flags (dsb m)"]) simp

lemma fs_move_refl: "fs_ok bs m \<Longrightarrow> fs_move bs m m"
  by (rule fs_step_is_move [OF fs_step_refl])

lemma fs_move_ok:
  assumes "fs_move bs m m'" "fs_ok bs m" shows "fs_ok bs m'"
proof -
  obtain bv im u f c where e: "m' = m\<lparr>bbm_bv := bv, inode_map := im,
       dsb := (dsb m)\<lparr>used_blocks := u, sb_flags := f\<rparr>, cache := c\<rparr>" "bc.calm bs (cache m) c"
     "block_addr (cache m) (myfs_fd m) 0 = None \<longrightarrow> block_addr c (myfs_fd m) 0 = None" using assms(1) by (rule fs_moveE)
  have st: "fs_step bs m (m\<lparr>cache := c\<rparr>)" by (rule fs_stepI [OF refl e(2,3)])
  from fs_step_ok [OF st assms(2)] show ?thesis by (simp add: e(1) fs_ok_def)
qed

section \<open>Writing the super block past the cache\<close>

lemma listed_not_block0:
  assumes "cache_inv bs s" "block_addr s d 0 = None" "a \<in> listed s"
  shows "ce_dev (ents s a) \<noteq> d \<or> block_num (ents s a) \<noteq> 0"
proof (rule ccontr)
  assume "\<not> ?thesis"
  then have "ht_map (ht s) (d, 0) = Some a" using cache_invD(5) [OF assms(1), of "(d, 0)" a] assms(3) by (simp add: ce_key_def)
  then show False using assms(2) by (simp add: block_addr_def)
qed

lemma write_block0:
  assumes inv: "cache_inv bs s" and out: "block_addr s d 0 = None" and mx: "0 < max_device_blocks s d"
    and len: "length xs = nat (bs d)"
  defines "s' \<equiv> s\<lparr>devs := put_bytes (devs s) d 0 xs\<rparr>"
  shows "cache_inv bs s'" "\<forall>d' c. on_device s d' c \<longrightarrow> (d', c) \<noteq> (d, 0) \<longrightarrow> view bs s' d' c = view bs s d' c"
    "view bs s' d 0 = xs" "pins s' = pins s" "\<forall>d' c. stale bs s' d' c = stale bs s d' c"
    "block_addr s' = block_addr s" "on_device s' = on_device s" "pin_room s' = pin_room s"
proof -
  note D = cache_invD [OF inv]
  have dok: "dev_ok bs (devs s) d (max_device_blocks s d)" using D(15) mx by (simp add: devs_ok_def)
  have one: "0 + int (length [xs]) \<le> max_device_blocks s d" "\<forall>x \<in> set [xs]. length x = nat (bs d)" using mx len by simp_all
  note R = blk_of_run [OF dok order_refl one]
  have sh: "devs_shape (devs s) (devs s')" using R(1) by (simp add: s'_def)
  have blk: "blk_of bs (devs s') d' c = blk_of bs (devs s) d' c" if "on_device s d' c" "(d', c) \<noteq> (d, 0)" for d' c
    using R(3) [of d' c] that by (auto simp: s'_def on_device_def)
  have eb: "ent_blk bs s' a = ent_blk bs s a" if "a \<in> listed s" for a
  proof -
    have "on_device s (ce_dev (ents s a)) (block_num (ents s a))" using D(6) [OF that] by (simp add: sound_ent_def on_device_def)
    then show ?thesis using blk listed_not_block0 [OF inv out that] by (simp add: s'_def)
  qed
  have F: "ht s' = ht s" "ents s' = ents s" "normal s' = normal s" "locked s' = locked s"
    "max_device_blocks s' = max_device_blocks s" "max_blocks s' = max_blocks s" "listed s' = listed s"
    by (simp_all add: s'_def listed_def)
  have se: "sound_ent bs s' ce = sound_ent bs s ce" for ce using dev_ok_shape [OF sh] F by (simp add: sound_ent_def)
  have dv: "devs_ok bs s'" using D(15) dev_ok_shape [OF sh] F by (simp add: devs_ok_def)
  have st: "settled (ents s' a) (ent_blk bs s' a) = settled (ents s a) (ent_blk bs s a)" if "a \<in> listed s" for a
    using eb [OF that] F by simp
  have nl: "a \<in> listed s" if "a \<in> set (normal s)" for a using that by (simp add: listed_def)
  show "cache_inv bs s'"
    using inv st [OF nl] se dv F unfolding cache_inv_def by (simp add: s'_def iovecs_idle_def)
  show "\<forall>d' c. on_device s d' c \<longrightarrow> (d', c) \<noteq> (d, 0) \<longrightarrow> view bs s' d' c = view bs s d' c"
    using blk F by (simp add: view_def split: option.split)
  show "view bs s' d 0 = xs" using out R(2) [of 0] by (simp add: view_def block_addr_def s'_def)
  show "pins s' = pins s" unfolding pins_def F by (rule refl)
  show "\<forall>d' c. stale bs s' d' c = stale bs s d' c"
    using st cache_inv_lookup(1) [OF inv] F by (simp add: stale_def split: option.split)
  show "block_addr s' = block_addr s" "on_device s' = on_device s" "pin_room s' = pin_room s"
    using F by (simp_all add: fun_eq_iff block_addr_def on_device_def pin_room_def)
qed

text \<open>The super block that is written, and the file system after that.\<close>

definition clean_sb :: "super_block \<Rightarrow> super_block" where
  "clean_sb sb = sb\<lparr>sb_flags := MYFS_CLEAN\<rparr>"

definition sb_image :: "myfs_info \<Rightarrow> byte list" where
  "sb_image m = take (nat (bsize_of m)) (sb_bytes (clean_sb (dsb m)) @ after_dsb m)"

definition sb_mem :: "myfs_info \<Rightarrow> bool" where
  "sb_mem m \<longleftrightarrow> sb_typed (dsb m) \<and> nat (bsize_of m) \<le> sizeof_super_block + length (after_dsb m)"

lemma clean_sb_typed: "sb_typed sb \<Longrightarrow> sb_typed (clean_sb sb)"
  by (simp add: sb_typed_def clean_sb_def fits_s_def MYFS_CLEAN_def)

lemma clean_sb_simps [simp]:
  "block_size (clean_sb sb) = block_size sb" "num_blocks (clean_sb sb) = num_blocks sb"
  "used_blocks (clean_sb sb) = used_blocks sb" "clean_sb (clean_sb sb) = clean_sb sb"
  "inodes_start (clean_sb sb) = inodes_start sb" "num_inode_blocks (clean_sb sb) = num_inode_blocks sb"
  "inode_map_start (clean_sb sb) = inode_map_start sb" "num_inode_map_blocks (clean_sb sb) = num_inode_map_blocks sb"
  "num_inodes (clean_sb sb) = num_inodes sb" "root_inum (clean_sb sb) = root_inum sb"
  by (simp_all add: clean_sb_def)

lemma sb_image_length: "sb_mem m \<Longrightarrow> length (sb_image m) = nat (bsize_of m)"
  using sb_bytes_length [OF clean_sb_typed, of "dsb m"] by (auto simp: sb_mem_def sb_image_def min_def)

lemma write_super_block_eq:
  assumes "sb_mem m" "good_dev (devs (cache m)) (myfs_fd m)" "0 \<le> bsize_of m"
  shows "write_super_block m = Some (0, m\<lparr>dsb := clean_sb (dsb m),
    cache := (cache m)\<lparr>devs := put_bytes (devs (cache m)) (myfs_fd m) 0 (sb_image m)\<rparr>\<rparr>)"
proof -
  have l: "nat (bsize_of m) \<le> length (sb_bytes (clean_sb (dsb m)) @ after_dsb m)"
    using assms(1) sb_bytes_length [OF clean_sb_typed, of "dsb m"] by (simp add: sb_mem_def)
  have "write_pos (devs (cache m)) (myfs_fd m) 0 (sb_image m) =
      (bsize_of m, put_bytes (devs (cache m)) (myfs_fd m) 0 (sb_image m))"
    using write_pos_good [OF assms(2), of 0] sb_image_length [OF assms(1)] assms(3) by simp
  then show ?thesis using l by (simp add: write_super_block_def clean_sb_def sb_image_def Let_def)
qed

lemma write_super_block_good:
  assumes ok: "fs_ok bs m" and sm: "sb_mem m"
  obtains m' where "write_super_block m = Some (0, m')" "fs_move bs m m'" "same_blks bs {} m m'"
    "bbm_bv m' = bbm_bv m" "inode_map m' = inode_map m" "dsb m' = clean_sb (dsb m)" "fs_blk bs m' 0 = sb_image m"
proof -
  note K = fs_okD [OF ok]
  let ?c = "(cache m)\<lparr>devs := put_bytes (devs (cache m)) (myfs_fd m) 0 (sb_image m)\<rparr>"
  let ?m = "m\<lparr>dsb := clean_sb (dsb m), cache := ?c\<rparr>"
  have out: "block_addr (cache m) (myfs_fd m) 0 = None" using ok by (simp add: fs_ok_def)
  have mx: "0 < max_device_blocks (cache m) (myfs_fd m)" using K(3,7) by simp
  have len: "length (sb_image m) = nat (bs (myfs_fd m))" using sb_image_length [OF sm] K(6) by simp
  note W = write_block0 [OF K(5) out mx len]
  have "good_dev (devs (cache m)) (myfs_fd m)" using cache_invD(15) [OF K(5)] mx by (simp add: devs_ok_def dev_ok_def)
  then have e: "write_super_block m = Some (0, ?m)"
    using write_super_block_eq [OF sm] K(1) by simp
  have cl: "bc.calm bs (cache m) ?c" unfolding bc.calm_def using W(1,4-8) by simp
  have mv: "fs_move bs m ?m"
    by (rule fs_moveI [where bv = "bbm_bv m" and im = "inode_map m" and u = "used_blocks (dsb m)" and f = MYFS_CLEAN, OF _ cl])
       (use W(6) in \<open>simp_all add: clean_sb_def\<close>)
  have "on_device (cache m) (myfs_fd m) b" if "fs_has m b" for b using that K(7) by (simp add: fs_has_def on_device_def)
  then have sb: "same_blks bs {} m ?m" using W(2) by (simp add: same_blks_def fs_blk_def fs_has_def)
  show thesis by (rule that [OF e mv sb]) (use W(3) in \<open>simp_all add: fs_blk_def\<close>)
qed

text \<open>
  Claim C27: a super block that was written is read back as it was, marked clean, whatever memory lies behind
  the structure that is written with it.
\<close>

theorem super_block_round_trip:
  assumes "sb_mem m" "good_dev (devs (cache m)) (myfs_fd m)" "160 \<le> bsize_of m" "heap_ok (tmp m)"
    "max 1024 (nat (bsize_of m)) \<le> length (file_of (devs (cache m)) (myfs_fd m))"
  shows "\<exists>m1 m2. write_super_block m = Some (0, m1) \<and> read_super_block m1 = (0, m2) \<and>
    dsb m2 = (dsb m)\<lparr>sb_flags := MYFS_CLEAN\<rparr>"
proof -
  let ?dv = "put_bytes (devs (cache m)) (myfs_fd m) 0 (sb_image m)"
  let ?m = "m\<lparr>dsb := clean_sb (dsb m), cache := (cache m)\<lparr>devs := ?dv\<rparr>\<rparr>"
  have w: "write_super_block m = Some (0, ?m)" using write_super_block_eq [OF assms(1,2)] assms(3) by simp
  let ?g = "get_bytes ?dv (myfs_fd m) 0 1024"
  have li: "length (sb_image m) = nat (bsize_of m)" by (rule sb_image_length [OF assms(1)])
  then have fl: "length (file_of ?dv (myfs_fd m)) = length (file_of (devs (cache m)) (myfs_fd m))"
    using assms(5) by (simp add: overwrite_length)
  have r: "read_pos ?dv (myfs_fd m) 0 1024 = (1024, ?g)"
    using read_pos_good [of ?dv "myfs_fd m" 0 1024] assms(2,5) fl by simp
  have ty: "sb_typed (clean_sb (dsb m))" using assms(1) clean_sb_typed by (simp add: sb_mem_def)
  have "take 160 ?g = take 160 (sb_image m)"
    using li assms(3,5) by (auto simp: get_bytes_def overwrite_def min_def)
  also have "\<dots> = sb_bytes (clean_sb (dsb m))"
    using assms(3) sb_bytes_length [OF ty] by (simp add: sb_image_def sizeof_super_block_def min_def)
  finally have "?g = sb_bytes (clean_sb (dsb m)) @ drop 160 ?g" by (metis append_take_drop_id)
  then have "sb_of_bytes ?g = clean_sb (dsb m)" using sb_round_trip [OF ty, of "drop 160 ?g"] by simp
  then have "\<exists>m2. read_super_block ?m = (0, m2) \<and> dsb m2 = clean_sb (dsb m)"
    using r assms(4) by (simp add: read_super_block_def get_device_block_size_def Let_def)
  then show ?thesis using w by (auto simp: clean_sb_def)
qed

text \<open>An empty file system of 64 blocks of 512 bytes, for examples.\<close>

definition demo_disk :: devices where
  "demo_disk = \<lparr>file_of = (\<lambda>_. replicate 32768 0), io_fault = (\<lambda>_ _. False)\<rparr>"

definition demo_blocks_on :: "devices \<Rightarrow> block_cache" where
  "demo_blocks_on dv = (case init_cache_for_device 3 64 (snd (init_block_cache dv True 100)) of
     Some (e, s) \<Rightarrow> s | None \<Rightarrow> snd (init_block_cache dv True 100))"

definition demo_blocks :: block_cache where
  "demo_blocks = demo_blocks_on demo_disk"

definition demo_sb :: super_block where
  "demo_sb = \<lparr>sb_name = replicate 32 0, sb_magic1 = SUPER_BLOCK_MAGIC1, fs_byte_order = MYFS_BIG_ENDIAN,
     block_size = 512, block_shift = 9, num_blocks = 64, used_blocks = 0, num_inodes = 0, inode_map_start = 0,
     num_inode_map_blocks = 0, inodes_start = 0, num_inode_blocks = 0,
     sb_magic2 = signed_take_bit 31 SUPER_BLOCK_MAGIC2, sb_flags = 0, root_inum = 0, journal_start = 0,
     journal_length = 0, log_start = 0, log_end = 0, sb_magic3 = SUPER_BLOCK_MAGIC3, sb_pad = replicate 4 0\<rparr>"

definition demo_fs :: myfs_info where
  "demo_fs = \<lparr>dsb = demo_sb, after_dsb = replicate 352 0xAA, bbm_bv = None, num_bitmap_blocks = 0, bbm_sem = -1,
     inode_map = \<lparr>numbits = 0, next_free = 0, is_full = False, bits = []\<rparr>, myfs_sem = 0, myfs_fd = 3,
     read_only = False, dev_block_size = 512, dev_block_conversion = 1, root_dir = None,
     tmp = \<lparr>tmp_blocks_sem = 1, tmp_list = [], heap_next = 4096, heap_ok = True\<rparr>, cache = demo_blocks\<rparr>"

lemma demo_blocks_on_facts:
  assumes "length (file_of dv 3) = 32768" "\<And>p. \<not> io_fault dv 3 p"
  shows "cache_inv demo_bs (demo_blocks_on dv)" "max_blocks (demo_blocks_on dv) = 100" "locked (demo_blocks_on dv) = []"
    "max_device_blocks (demo_blocks_on dv) 3 = 64" "devs (demo_blocks_on dv) = dv" "ht_map (ht (demo_blocks_on dv)) k = None"
proof -
  have p: "0 < (64::int)" "512 \<le> demo_bs 3" "0 \<le> (3::int)" "3 < MAX_DEVICES"
    by (simp_all add: demo_dev_ok MAX_DEVICES_def)
  have dk: "dev_ok demo_bs dv 3 64" using assms by (simp add: dev_ok_def demo_bs_def good_dev_def)
  obtain s s' where h: "init_block_cache dv True 100 = (0, s)" "init_cache_for_device 3 64 s = Some (0, s')"
    "cache_inv demo_bs s'" "max_blocks s' = 100" "locked s' = []" "devs s' = dv"
    "max_device_blocks s' = (\<lambda>_. 0)(3 := 64)" "\<forall>k. ht_map (ht s') k = None"
    by (rule cache_started [OF dk p, of 100])
  then have e: "demo_blocks_on dv = s'" by (simp add: demo_blocks_on_def)
  show "cache_inv demo_bs (demo_blocks_on dv)" "max_blocks (demo_blocks_on dv) = 100" "locked (demo_blocks_on dv) = []"
    "max_device_blocks (demo_blocks_on dv) 3 = 64" "devs (demo_blocks_on dv) = dv" using h by (simp_all add: e)
  show "ht_map (ht (demo_blocks_on dv)) k = None" using h(8) unfolding e by blast
qed

lemma demo_blocks_facts:
  "cache_inv demo_bs demo_blocks" "max_blocks demo_blocks = 100" "locked demo_blocks = []"
  "max_device_blocks demo_blocks 3 = 64" "devs demo_blocks = demo_disk" "ht_map (ht demo_blocks) k = None"
proof -
  have d: "length (file_of demo_disk 3) = 32768" "\<And>p. \<not> io_fault demo_disk 3 p" by (simp_all add: demo_disk_def)
  note demo_blocks_on_facts [OF d]
  then show "cache_inv demo_bs demo_blocks" "max_blocks demo_blocks = 100" "locked demo_blocks = []"
    "max_device_blocks demo_blocks 3 = 64" "devs demo_blocks = demo_disk" "ht_map (ht demo_blocks) k = None"
    by (simp_all add: demo_blocks_def)
qed

lemma demo_fs_facts:
  "fs_ok demo_bs demo_fs" "spare demo_fs = 100 - int NUM_FLUSH_BLOCKS" "heap_ok (tmp demo_fs)" "sb_mem demo_fs"
  "\<not> loose demo_bs demo_fs b" "bsize_of demo_fs = 512" "num_blocks (dsb demo_fs) = 64" "used_blocks (dsb demo_fs) = 0"
  "0 < b \<Longrightarrow> b < 64 \<Longrightarrow> fs_blk demo_bs demo_fs b = replicate 512 0"
proof -
  show "fs_ok demo_bs demo_fs"
    by (simp add: fs_ok_def demo_fs_def demo_sb_def demo_bs_def demo_blocks_facts block_addr_def)
  show "spare demo_fs = 100 - int NUM_FLUSH_BLOCKS"
    using held_card [OF demo_blocks_facts(1)] by (simp add: spare_def demo_fs_def pin_room_def demo_blocks_facts)
  show "heap_ok (tmp demo_fs)" "bsize_of demo_fs = 512" "num_blocks (dsb demo_fs) = 64" "used_blocks (dsb demo_fs) = 0"
    by (simp_all add: demo_fs_def demo_sb_def)
  show "sb_mem demo_fs"
    by (simp add: demo_fs_def demo_sb_def sb_mem_def sb_typed_def sizeof_super_block_def fits_s_def
        SUPER_BLOCK_MAGIC1_def SUPER_BLOCK_MAGIC2_def SUPER_BLOCK_MAGIC3_def MYFS_BIG_ENDIAN_def)
  show "\<not> loose demo_bs demo_fs b" by (simp add: loose_def demo_fs_def stale_def demo_blocks_facts)
  show "fs_blk demo_bs demo_fs b = replicate 512 0" if b: "0 < b" "b < 64"
  proof -
    have "nat b * 512 + 512 \<le> 32768" using b by linarith
    then show ?thesis
      by (simp add: fs_blk_def demo_fs_def view_def demo_blocks_facts blk_of_def demo_bs_def get_bytes_def demo_disk_def min_def)
  qed
qed

theorem super_block_round_trip_witness:
  "\<exists>m1 m2. write_super_block demo_fs = Some (0, m1) \<and> read_super_block m1 = (0, m2) \<and>
    dsb m2 = demo_sb\<lparr>sb_flags := MYFS_CLEAN\<rparr>"
proof -
  have "dsb demo_fs = demo_sb" "good_dev (devs (cache demo_fs)) (myfs_fd demo_fs)"
    "max 1024 (nat (bsize_of demo_fs)) \<le> length (file_of (devs (cache demo_fs)) (myfs_fd demo_fs))"
    by (simp_all add: demo_fs_def demo_sb_def good_dev_def demo_blocks_facts demo_disk_def)
  moreover have "160 \<le> bsize_of demo_fs" by (simp add: demo_fs_facts)
  ultimately show ?thesis using super_block_round_trip [OF demo_fs_facts(4)] by (simp add: demo_fs_facts)
qed

end
