(* ===== verification/Block_Bitmap.thy ===== *)
theory Block_Bitmap
  imports Myfs_IO Bit_Range
begin

text \<open>
  \<open>bitmap.c\<close>: the map of used blocks.  It lies on the disk behind the super block, from block 1 on, and in
  memory as a bit vector; an allocation changes the vector and writes the changed part of it.
\<close>

section \<open>Creating and loading the map\<close>

text \<open>The number of blocks of the map.\<close>

definition bitmap_blocks :: "super_block \<Rightarrow> int" where
  "bitmap_blocks sb =
     (let bsize = c_int (block_size sb);
          n = c_int (c_div (num_blocks sb) 8);
          n = (n + bsize - 1) AND NOT (bsize - 1)
      in c_div n bsize)"

text \<open>The common error exit.\<close>

definition map_failed :: "errno \<Rightarrow> myfs_info \<Rightarrow> errno \<times> myfs_info" where
  "map_failed ret m = (ret, m\<lparr>bbm_bv := None, bbm_sem := -1\<rparr>)"

definition myfs_create_storage_map :: "myfs_info \<Rightarrow> (errno \<times> myfs_info) option" where
  "myfs_create_storage_map m = do {
     sm \<leftarrow> create_sem (heap_ok (tmp m)) 1;
     let n = bitmap_blocks (dsb m);
     let m1 = m\<lparr>bbm_sem := sm, num_bitmap_blocks := n\<rparr>;
     if \<not> heap_ok (tmp m1) then Some (map_failed ENOMEM m1)
     else do {
       let bv = \<lparr>numbits = c_int (num_blocks (dsb m1)), next_free = 0, is_full = False,
                 bits = replicate (nat (n * bsize_of m1 div 4)) 0\<rparr>;
       (start, big, bv') \<leftarrow> GetFreeRangeOfBits bv (c_int (n + 1));
       if start \<noteq> 0 then Some (map_failed ENOSPC m1)
       else do {
         (amt, m2) \<leftarrow> write_blocks (m1\<lparr>bbm_bv := Some bv'\<rparr>) 1 (chunk_bytes (bits bv')) n;
         if amt \<noteq> n then Some (map_failed EINVAL m2)
         else Some (0, m2\<lparr>dsb := (dsb m2)\<lparr>used_blocks := used_blocks (dsb m2) + (n + 1)\<rparr>\<rparr>)
       }
     }
   }"

text \<open>The count covers the whole chunks only.\<close>

definition chunk_count :: "chunk \<Rightarrow> int" where
  "chunk_count c = int (length (filter (tst_bit c) [0..<32]))"

definition sanity_check_bitmap :: "myfs_info \<Rightarrow> myfs_info option" where
  "sanity_check_bitmap m = do {
     bv \<leftarrow> bbm_bv m;
     let j = nat (numbits bv div 32);
     if length (bits bv) < j then None
     else do {
       let used = sum_list (map chunk_count (take j (bits bv)));
       Some (if used_blocks (dsb m) \<noteq> used then m\<lparr>dsb := (dsb m)\<lparr>used_blocks := used\<rparr>\<rparr> else m)
     }
   }"

text \<open>The buffer for the map comes from \<open>malloc\<close>; its first contents (zeros here) are overwritten or thrown away.\<close>

definition myfs_init_storage_map :: "myfs_info \<Rightarrow> (errno \<times> myfs_info) option" where
  "myfs_init_storage_map m = do {
     sm \<leftarrow> create_sem (heap_ok (tmp m)) 1;
     let n = bitmap_blocks (dsb m);
     let m1 = m\<lparr>bbm_sem := sm, num_bitmap_blocks := n\<rparr>;
     if \<not> heap_ok (tmp m1) then Some (map_failed ENOMEM m1)
     else do {
       (amt, buf, m2) \<leftarrow> read_blocks m1 1 (replicate (nat (n * bsize_of m1)) 0) n;
       if amt \<noteq> n then Some (map_failed EINVAL m2)
       else do {
         let bv = \<lparr>numbits = c_int (num_blocks (dsb m2)), next_free = 0, is_full = False, bits = bytes_chunks buf\<rparr>;
         set0 \<leftarrow> IsSetBV bv 0;
         m3 \<leftarrow> (if set0 then Some (m2\<lparr>bbm_bv := Some bv\<rparr>)
               else do {
                 (_, bv1) \<leftarrow> SetBV bv 0;
                 (_, m') \<leftarrow> write_blocks (m2\<lparr>bbm_bv := Some bv1\<rparr>) 1 (chunk_bytes (bits bv1)) 1;
                 Some m'
               });
         m4 \<leftarrow> sanity_check_bitmap m3;
         Some (0, m4)
       }
     }
   }"

definition myfs_shutdown_storage_map :: "myfs_info \<Rightarrow> myfs_info" where
  "myfs_shutdown_storage_map m = m\<lparr>bbm_bv := None, bbm_sem := -1\<rparr>"

section \<open>Allocation\<close>

datatype alloc_mode = EXACT_ALLOCATION | LOOSE_ALLOCATION | TRY_HARD_ALLOCATION

text \<open>
  The loop over smaller and smaller sizes, with \<open>nblocks\<close> and \<open>max_free_chunk\<close>: it returns \<open>start\<close>, \<open>nblocks\<close> and
  the changed vector.  Each case is a place where the loop is left or goes round.
\<close>

partial_function (option) alloc_loop ::
  "alloc_mode \<Rightarrow> int \<Rightarrow> int \<Rightarrow> BitVector \<Rightarrow> (int \<times> int \<times> BitVector) option" where
  "alloc_loop exact nblocks mx bv =
     (if nblocks < 1 then Some (-1, nblocks, bv)
      else do {
        (start, big, bv1) \<leftarrow> GetFreeRangeOfBits bv nblocks;
        if start \<noteq> -1 then Some (start, nblocks, bv1)
        else do {
          let mx = (if big > mx then big else mx);
          (start, nblocks, bv2) \<leftarrow>
            (if exact = LOOSE_ALLOCATION \<and> big > 0 \<and> big \<ge> drop_bit 4 nblocks
             then do { (st, _, bv2) \<leftarrow> GetFreeRangeOfBits bv1 big; Some (st, big, bv2) }
             else Some (-1, nblocks, bv1));
          if start \<noteq> -1 \<or> exact = EXACT_ALLOCATION then Some (start, nblocks, bv2)
          else do {
            (start, nblocks, bv3) \<leftarrow>
              (if exact = TRY_HARD_ALLOCATION \<and> mx > 1
               then do {
                 let nb = (if mx < nblocks then mx else nblocks);
                 (st, _, bv3) \<leftarrow> GetFreeRangeOfBits bv2 nb;
                 Some (st, nb, bv3)
               }
               else Some (-1, nblocks, bv2));
            if start \<noteq> -1 then Some (start, nblocks, bv3)
            else do {
              let nblocks = (if exact = LOOSE_ALLOCATION \<and> nblocks > mx * 2 then mx * 2 else nblocks);
              alloc_loop exact (c_div nblocks 2) 1 bv3
            }
          }
        }
      })"

text \<open>The bytes of the vector from an offset on.\<close>

definition bitmap_ptr :: "chunk list \<Rightarrow> int \<Rightarrow> byte list option" where
  "bitmap_ptr cs off = (if off < 0 \<or> off > 4 * int (length cs) then None else Some (drop (nat off) (chunk_bytes cs)))"

text \<open>
  The result is the error number with the values stored through \<open>num_blocks\<close> and \<open>start_addr\<close> (\<open>start_addr\<close> is 0
  here where the code leaves it alone).  The journal is switched off by \<open>do_log_write = 0\<close>.
\<close>

definition real_allocate_blocks :: "myfs_info \<Rightarrow> fs_off_t \<Rightarrow> alloc_mode \<Rightarrow> (errno \<times> fs_off_t \<times> fs_off_t \<times> myfs_info) option" where
  "real_allocate_blocks m num exact =
     (if num \<le> 0 then Some (EINVAL, num, 0, m)
      else do {
        sm \<leftarrow> acquire_sem (bbm_sem m);
        let m1 = m\<lparr>bbm_sem := sm\<rparr>;
        if num > num_blocks (dsb m1) - used_blocks (dsb m1)
        then Some (ENOSPC, num, 0, m1\<lparr>bbm_sem := release_sem sm\<rparr>)
        else do {
          bv \<leftarrow> bbm_bv m1;
          (start, nblocks, bv') \<leftarrow> alloc_loop exact (c_int num) 1 bv;
          let m2 = m1\<lparr>bbm_bv := Some bv'\<rparr>;
          if start = -1 then Some (ENOSPC, num, 0, m2\<lparr>bbm_sem := release_sem sm\<rparr>)
          else do {
            let bsize = c_int (bsize_of m2);
            let n = c_int (c_div (c_div start 8) bsize + 1);
            let len = c_div (c_div nblocks 8) bsize + 1;
            ptr \<leftarrow> bitmap_ptr (bits bv') (c_div (c_div start 8) bsize * bsize);
            (amt, m3) \<leftarrow> write_blocks m2 n ptr len;
            if amt \<noteq> len then Some (EINVAL, nblocks, start, m3\<lparr>bbm_sem := release_sem sm\<rparr>)
            else Some (0, nblocks, start, m3\<lparr>bbm_sem := release_sem sm,
                   dsb := (dsb m3)\<lparr>used_blocks := used_blocks (dsb m3) + nblocks, sb_flags := MYFS_DIRTY\<rparr>\<rparr>)
          }
        }
      })"

definition myfs_allocate_blocks ::
  "myfs_info \<Rightarrow> fs_off_t \<Rightarrow> fs_off_t \<Rightarrow> alloc_mode \<Rightarrow> (errno \<times> fs_off_t \<times> fs_off_t \<times> myfs_info) option" where
  "myfs_allocate_blocks m start_hint num exact = real_allocate_blocks m num exact"

definition pre_allocate_blocks :: "myfs_info \<Rightarrow> fs_off_t \<Rightarrow> (errno \<times> fs_off_t \<times> fs_off_t \<times> myfs_info) option" where
  "pre_allocate_blocks m num = real_allocate_blocks m num LOOSE_ALLOCATION"

section \<open>Release\<close>

text \<open>The loop that writes the changed blocks of the map: \<open>n\<close> is the next block and \<open>off\<close> its offset in the vector.\<close>

fun write_map :: "nat \<Rightarrow> fs_off_t \<Rightarrow> int \<Rightarrow> BitVector \<Rightarrow> myfs_info \<Rightarrow> (bool \<times> myfs_info) option" where
  "write_map 0 n off bv m = Some (True, m)"
| "write_map (Suc k) n off bv m = do {
     ptr \<leftarrow> bitmap_ptr (bits bv) off;
     (amt, m1) \<leftarrow> write_blocks m n ptr 1;
     if amt \<noteq> 1 then Some (False, m1) else write_map k (n + 1) (off + bsize_of m1) bv m1
   }"

definition myfs_free_blocks :: "myfs_info \<Rightarrow> fs_off_t \<Rightarrow> fs_off_t \<Rightarrow> (errno \<times> myfs_info) option" where
  "myfs_free_blocks m start num = do {
     sm \<leftarrow> acquire_sem (bbm_sem m);
     bv \<leftarrow> bbm_bv m;
     (_, bv1) \<leftarrow> UnSetRangeBV bv (c_int start) (c_int num);
     let bv2 = bv1\<lparr>is_full := False\<rparr>;
     let m1 = m\<lparr>bbm_sem := sm, bbm_bv := Some bv2\<rparr>;
     let bsize = c_int (bsize_of m1);
     let n = c_int (c_div (c_div start 8) bsize + 1);
     let len = c_int (c_div (c_div num 8) bsize + 1);
     (ok, m2) \<leftarrow> write_map (nat len) n (c_div (c_div start 8) bsize * bsize) bv2 m1;
     if \<not> ok then Some (EINVAL, m2\<lparr>bbm_sem := release_sem sm\<rparr>)
     else Some (0, m2\<lparr>bbm_sem := release_sem sm,
            dsb := (dsb m2)\<lparr>used_blocks := used_blocks (dsb m2) - len, sb_flags := MYFS_DIRTY\<rparr>\<rparr>)
   }"

section \<open>Checking\<close>

fun check_bits :: "BitVector \<Rightarrow> fs_off_t \<Rightarrow> int \<Rightarrow> nat \<Rightarrow> bool option" where
  "check_bits bv start st 0 = Some True"
| "check_bits bv start st (Suc k) = do {
     b \<leftarrow> IsSetBV bv (c_int start);
     if (st = 1 \<and> \<not> b) \<or> (st = 0 \<and> b) then Some False else check_bits bv (start + 1) st k
   }"

definition myfs_check_blocks :: "myfs_info \<Rightarrow> fs_off_t \<Rightarrow> fs_off_t \<Rightarrow> int \<Rightarrow> (int \<times> myfs_info) option" where
  "myfs_check_blocks m start len st = do {
     sm \<leftarrow> acquire_sem (bbm_sem m);
     bv \<leftarrow> bbm_bv m;
     all \<leftarrow> check_bits bv start st (nat len);
     Some (if \<not> all \<or> len < 0 then 0 else 1, m\<lparr>bbm_sem := release_sem sm\<rparr>)
   }"

section \<open>The map in memory and on the disk\<close>

lemma chunk_bytes_take: "take (4 * n) (chunk_bytes cs) = chunk_bytes (take n cs)"
proof (induction cs arbitrary: n)
  case (Cons c cs)
  show ?case by (cases n) (simp_all add: Cons.IH)
qed simp

lemma chunk_bytes_drop: "drop (4 * n) (chunk_bytes cs) = chunk_bytes (drop n cs)"
proof (induction cs arbitrary: n)
  case (Cons c cs)
  show ?case by (cases n) (simp_all add: Cons.IH)
qed simp

text \<open>Part \<open>j\<close> of the vector: the bytes that belong into block \<open>1 + j\<close>.\<close>

definition map_part :: "nat \<Rightarrow> chunk list \<Rightarrow> nat \<Rightarrow> byte list" where
  "map_part z cs j = at (chunk_bytes cs) (j * z) z"

lemma bit_set_chunk:
  assumes "i < length cs" "length cs' = length cs" "\<forall>t < 32. i * 32 + t \<in> bit_set cs' \<longleftrightarrow> i * 32 + t \<in> bit_set cs"
  shows "cs' ! i = cs ! i"
proof (rule bit_word_eqI)
  fix t assume "t < LENGTH(32)"
  then show "bit (cs' ! i) t \<longleftrightarrow> bit (cs ! i) t"
    using assms bit_set_pos [of t i cs] bit_set_pos [of t i cs'] by simp
qed

lemma map_part_eq:
  assumes len: "length cs' = length cs" and z: "z = 4 * w"
    and eq: "\<And>x. j * (8 * z) \<le> x \<Longrightarrow> x < Suc j * (8 * z) \<Longrightarrow> x \<in> bit_set cs' \<longleftrightarrow> x \<in> bit_set cs"
  shows "map_part z cs' j = map_part z cs j"
proof -
  have "take w (drop (j * w) cs') = take w (drop (j * w) cs)"
  proof (rule nth_equalityI)
    fix i assume "i < length (take w (drop (j * w) cs'))"
    then have i: "i < w" "j * w + i < length cs" using len by auto
    have "cs' ! (j * w + i) = cs ! (j * w + i)"
    proof (rule bit_set_chunk [OF i(2) len], intro allI impI)
      fix t :: nat assume "t < 32"
      moreover have "j * (8 * z) = j * w * 32" "Suc j * (8 * z) = j * w * 32 + w * 32" using z by simp_all
      moreover have "(j * w + i) * 32 = j * w * 32 + i * 32" by (simp add: add_mult_distrib)
      moreover have "i * 32 + 32 \<le> w * 32" using i(1) by simp
      ultimately show "(j * w + i) * 32 + t \<in> bit_set cs' \<longleftrightarrow> (j * w + i) * 32 + t \<in> bit_set cs"
        by (intro eq) linarith+
    qed
    then show "take w (drop (j * w) cs') ! i = take w (drop (j * w) cs) ! i" using i len by simp
  qed (simp add: len)
  moreover have "map_part z ds j = chunk_bytes (take w (drop (j * w) ds))" for ds
  proof -
    have "j * z = 4 * (j * w)" using z by simp
    then show ?thesis unfolding map_part_def at_def z by (simp only: chunk_bytes_drop chunk_bytes_take)
  qed
  ultimately show ?thesis by simp
qed

text \<open>
  The invariant: the vector covers the device, its blocks and the super block are marked as used, and the
  blocks of the map hold the vector.
\<close>

definition map_ok :: "(int \<Rightarrow> int) \<Rightarrow> BitVector \<Rightarrow> myfs_info \<Rightarrow> bool" where
  "map_ok bs bv m \<longleftrightarrow> bbm_bv m = Some bv \<and> bbm_sem m = 1 \<and> bv_wf bv \<and> numbits bv = num_blocks (dsb m) \<and>
     int (4 * length (bits bv)) = num_bitmap_blocks m * bsize_of m \<and> 0 < num_bitmap_blocks m \<and>
     num_bitmap_blocks m < num_blocks (dsb m) \<and> {..nat (num_bitmap_blocks m)} \<subseteq> used_bits bv \<and>
     (\<forall>j < nat (num_bitmap_blocks m). fs_blk bs m (1 + int j) = map_part (nat (bsize_of m)) (bits bv) j)"

lemma map_okD:
  assumes "map_ok bs bv m"
  shows "bbm_bv m = Some bv" "bbm_sem m = 1" "bv_wf bv" "numbits bv = num_blocks (dsb m)"
    "int (4 * length (bits bv)) = num_bitmap_blocks m * bsize_of m" "0 < num_bitmap_blocks m"
    "num_bitmap_blocks m < num_blocks (dsb m)" "{..nat (num_bitmap_blocks m)} \<subseteq> used_bits bv"
    "\<And>j. j < nat (num_bitmap_blocks m) \<Longrightarrow> fs_blk bs m (1 + int j) = map_part (nat (bsize_of m)) (bits bv) j"
  using assms unfolding map_ok_def by blast+

lemma fs_ok_quads: "fs_ok bs m \<Longrightarrow> nat (bsize_of m) = 4 * (nat (bsize_of m) div 4)"
  unfolding fs_ok_def insert_iff by (elim conjE disjE) simp_all

text \<open>
  Writing back one block of the map after a change of bits that all belong to it.
\<close>

lemma write_back:
  assumes ok: "fs_ok bs m" and sp: "0 \<le> spare m" and mo: "map_ok bs bv m"
    and w: "bv_wf bv'" "numbits bv' = numbits bv" "length (bits bv') = length (bits bv)"
    and j: "j < nat (num_bitmap_blocks m)"
    and diff: "\<And>x. x div (8 * nat (bsize_of m)) \<noteq> j \<Longrightarrow> x \<in> bit_set (bits bv') \<longleftrightarrow> x \<in> bit_set (bits bv)"
    and keep: "{..nat (num_bitmap_blocks m)} \<subseteq> used_bits bv'"
    and m1: "m1 = m\<lparr>bbm_sem := 0, bbm_bv := Some bv'\<rparr>"
  obtains m2 where "bitmap_ptr (bits bv') (int j * bsize_of m) = Some (drop (j * nat (bsize_of m)) (chunk_bytes (bits bv')))"
    "write_blocks m1 (int j + 1) (drop (j * nat (bsize_of m)) (chunk_bytes (bits bv'))) 1 = Some (1, m2)"
    "dsb m2 = dsb m" "inode_map m2 = inode_map m"
    "\<And>d. d = (dsb m)\<lparr>used_blocks := u, sb_flags := f\<rparr> \<Longrightarrow> fs_move bs m (m2\<lparr>bbm_sem := 1, dsb := d\<rparr>) \<and>
       map_ok bs bv' (m2\<lparr>bbm_sem := 1, dsb := d\<rparr>) \<and> same_blks bs {1..num_bitmap_blocks m} m (m2\<lparr>bbm_sem := 1, dsb := d\<rparr>)"
proof -
  let ?z = "nat (bsize_of m)"
  note K = fs_okD [OF ok] and M = map_okD [OF mo]
  have ok1: "fs_ok bs m1" using ok by (simp add: m1 fs_ok_def)
  have sp1: "0 \<le> spare m1" using sp by (simp add: m1 spare_def)
  have bl: "length (chunk_bytes (bits bv')) = nat (num_bitmap_blocks m) * ?z"
  proof -
    have "int (4 * length (bits bv')) = int (nat (num_bitmap_blocks m) * ?z)" using M(5,6) w(3) K(1) by simp
    then show ?thesis by (simp only: chunk_bytes_length of_nat_eq_iff)
  qed
  have jz: "Suc j * ?z \<le> nat (num_bitmap_blocks m) * ?z" using j by (intro mult_le_mono1) simp
  let ?ptr = "drop (j * ?z) (chunk_bytes (bits bv'))"
  have bp: "bitmap_ptr (bits bv') (int j * bsize_of m) = Some ?ptr"
  proof -
    have e: "int j * bsize_of m = int (j * ?z)" using K(1) by simp
    have "j * ?z \<le> length (chunk_bytes (bits bv'))" unfolding bl using jz by (simp only: mult_Suc)
    then have "int (j * ?z) \<le> int (4 * length (bits bv'))" unfolding chunk_bytes_length of_nat_le_iff .
    then have "int (j * ?z) \<le> 4 * int (length (bits bv'))" unfolding of_nat_mult of_nat_numeral .
    then show ?thesis unfolding bitmap_ptr_def e nat_int by (simp del: of_nat_mult)
  qed
  have pl: "?z \<le> length ?ptr" using jz unfolding length_drop bl mult_Suc by arith
  have b: "0 < int j + 1" "int j + 1 + int 1 \<le> num_blocks (dsb m1)" "0 < (1::nat)"
    "int 1 * bsize_of m1 < 2 ^ 31" "1 * nat (bsize_of m1) \<le> length ?ptr"
    using j M(7) K(2) pl by (simp_all add: m1)
  obtain m2 where m2: "write_blocks m1 (int j + 1) ?ptr (int 1) = Some (int 1, m2)" "fs_step bs m1 m2"
    "same_blks bs {int j + 1..<int j + 1 + int 1} m1 m2"
    "\<forall>i < 1. fs_blk bs m2 (int j + 1 + int i) = at ?ptr (i * nat (bsize_of m1)) (nat (bsize_of m1))"
    by (rule write_blocks_good [OF ok1 sp1 b])
  have D: "dsb m2 = dsb m" "inode_map m2 = inode_map m" "bbm_bv m2 = Some bv'" "num_bitmap_blocks m2 = num_bitmap_blocks m"
    using fs_stepD [OF m2(2)] by (simp_all add: m1)
  obtain c where c: "m2 = m1\<lparr>cache := c\<rparr>" "bc.calm bs (cache m1) c"
    "block_addr (cache m1) (myfs_fd m1) 0 = None \<longrightarrow> block_addr c (myfs_fd m1) 0 = None" using m2(2) by (rule fs_stepE)
  have blk: "fs_blk bs m2 b = (if b = int j + 1 then map_part ?z (bits bv') j else fs_blk bs m b)" if "fs_has m b" for b
    using m2(3,4) that by (auto simp: m1 same_blks_def fs_has_def fs_blk_def map_part_def at_def)
  have part: "map_part ?z (bits bv') i = map_part ?z (bits bv) i" if "i \<noteq> j" for i
  proof (rule map_part_eq [OF w(3) fs_ok_quads [OF ok]])
    fix x assume "i * (8 * ?z) \<le> x" "x < Suc i * (8 * ?z)"
    then have "x div (8 * ?z) = i" by (intro div_nat_eqI) (simp_all add: mult.commute)
    then show "x \<in> bit_set (bits bv') \<longleftrightarrow> x \<in> bit_set (bits bv)" using diff that by simp
  qed
  show thesis
  proof (rule that [OF bp])
    show "write_blocks m1 (int j + 1) ?ptr 1 = Some (1, m2)" using m2(1) by simp
    fix d assume d: "d = (dsb m)\<lparr>used_blocks := u, sb_flags := f\<rparr>"
    let ?m = "m2\<lparr>bbm_sem := 1, dsb := d\<rparr>"
    have "?m = m\<lparr>bbm_bv := Some bv', inode_map := inode_map m, dsb := (dsb m)\<lparr>used_blocks := u, sb_flags := f\<rparr>, cache := c\<rparr>"
      using M(2) by (simp add: c(1) m1 d)
    moreover have "bc.calm bs (cache m) c"
      "block_addr (cache m) (myfs_fd m) 0 = None \<longrightarrow> block_addr c (myfs_fd m) 0 = None" using c(2,3) by (simp_all add: m1)
    ultimately have mv: "fs_move bs m ?m" by (rule fs_moveI)
    have fb: "fs_blk bs ?m b = fs_blk bs m2 b" for b by (simp add: fs_blk_def)
    have "fs_blk bs ?m (1 + int i) = map_part ?z (bits bv') i" if "i < nat (num_bitmap_blocks m)" for i
      unfolding fb using blk [of "1 + int i"] that M(7,9) part by (auto simp: fs_has_def)
    then have "map_ok bs bv' ?m"
      unfolding map_ok_def using M(4-7) w keep D(3,4) d by simp
    moreover have "same_blks bs {1..num_bitmap_blocks m} m ?m"
      using blk j by (auto simp: same_blks_def fb)
    ultimately show "fs_move bs m ?m \<and> map_ok bs bv' ?m \<and> same_blks bs {1..num_bitmap_blocks m} m ?m" using mv by blast
  qed (use D in simp_all)
qed

section \<open>One block\<close>

text \<open>
  The map accounts for every block: the count in the super block is the number of used bits, the mark for a full map is only
  there when it is full, and the device is a multiple of 32 blocks, so that a search for one block misses none.
\<close>

definition exact_map :: "BitVector \<Rightarrow> myfs_info \<Rightarrow> bool" where
  "exact_map bv m \<longleftrightarrow> 32 dvd numbits bv \<and> (is_full bv \<longrightarrow> used_bits bv = {..<nat (numbits bv)}) \<and>
     used_blocks (dsb m) = int (card (used_bits bv))"

lemma used_bits_finite [simp]: "finite (used_bits bv)"
  by (simp add: used_bits_def)

lemma used_bits_card: "bv_wf bv \<Longrightarrow> int (card (used_bits bv)) \<le> numbits bv"
proof -
  assume "bv_wf bv"
  then have "card (used_bits bv) \<le> nat (numbits bv)" "0 \<le> numbits bv"
    using card_mono [of "{..<nat (numbits bv)}" "used_bits bv"] by (simp_all add: used_bits_def bv_wf_def)
  then show ?thesis by linarith
qed

lemma exact_full:
  assumes "exact_map bv m" "map_ok bs bv m" "num_blocks (dsb m) \<le> used_blocks (dsb m)"
  shows "used_bits bv = {..<nat (num_blocks (dsb m))}"
proof (rule card_subset_eq)
  note M = map_okD [OF assms(2)]
  show "used_bits bv \<subseteq> {..<nat (num_blocks (dsb m))}" using M(4) by (auto simp: used_bits_def)
  show "card (used_bits bv) = card {..<nat (num_blocks (dsb m))}"
    using assms(1,3) used_bits_card [OF M(3)] M(4) by (simp add: exact_map_def)
qed simp

lemma exact_marked:
  assumes "exact_map bv m" "map_ok bs bv m" "used_bits bv = {..<nat (num_blocks (dsb m))}" "bv' = bv \<or> bv' = bv\<lparr>is_full := True\<rparr>"
    "dsb m' = dsb m"
  shows "exact_map bv' m'"
proof -
  have "used_bits bv' = used_bits bv" "numbits bv' = numbits bv" using assms(4) by (auto simp: used_bits_def)
  then show ?thesis using assms(1,3,5) map_okD(4) [OF assms(2)] by (simp add: exact_map_def)
qed

lemma not_all_used: "b \<notin> used_bits bv \<Longrightarrow> b < nat n \<Longrightarrow> used_bits bv \<noteq> {..<nat n}"
  by blast

lemma alloc_loop_exact:
  assumes "GetFreeRangeOfBits bv n = Some (start, big, bv')" "1 \<le> n"
  shows "alloc_loop EXACT_ALLOCATION n mx bv = Some (start, n, bv')"
  using assms by (subst alloc_loop.simps) auto

text \<open>The block of the map that holds a bit.\<close>

lemma map_block_of:
  assumes "fs_ok bs m" "map_ok bs bv m" "0 \<le> b" "b < num_blocks (dsb m)"
  defines "j \<equiv> nat b div (8 * nat (bsize_of m))"
  shows "j < nat (num_bitmap_blocks m)" "c_div (c_div b 8) (c_int (bsize_of m)) = int j"
    "c_int (int j + 1) = int j + 1"
proof -
  note K = fs_okD [OF assms(1)] and M = map_okD [OF assms(2)]
  have z: "0 < nat (bsize_of m)" using K(1) by simp
  have "int (32 * length (bits bv)) = int (nat (num_bitmap_blocks m) * (8 * nat (bsize_of m)))"
    using M(5,6) K(1) by simp
  then have eq: "32 * length (bits bv) = nat (num_bitmap_blocks m) * (8 * nat (bsize_of m))" by (simp only: of_nat_eq_iff)
  have "b < int (32 * length (bits bv))" using M(3,4) assms(4) by (simp add: bv_wf_def)
  then have "nat b < 32 * length (bits bv)" using assms(3) by (simp only: nat_less_iff)
  then show j: "j < nat (num_bitmap_blocks m)"
    unfolding eq j_def using z by (simp add: less_mult_imp_div_less)
  have "b div 8 div bsize_of m = b div (8 * bsize_of m)" using K(1) by (simp add: zdiv_zmult2_eq)
  then show "c_div (c_div b 8) (c_int (bsize_of m)) = int j"
    using K(1,9) assms(3) by (simp add: j_def zdiv_int nat_mult_distrib pos_imp_zdiv_nonneg_iff)
  show "c_int (int j + 1) = int j + 1" by (rule c_int_id) (use j M(6,7) K(4) in simp_all)
qed

lemma alloc_block:
  assumes ok: "fs_ok bs m" and sp: "0 \<le> spare m" and mo: "map_ok bs bv m"
  obtains (full) bv' where "myfs_allocate_blocks m h 1 EXACT_ALLOCATION = Some (ENOSPC, 1, 0, m\<lparr>bbm_bv := Some bv'\<rparr>)"
      "bv' = bv \<or> bv' = bv\<lparr>is_full := True\<rparr>"
      "exact_map bv m \<Longrightarrow> used_bits bv = {..<nat (num_blocks (dsb m))}"
  | (taken) b bv' m' where "myfs_allocate_blocks m h 1 EXACT_ALLOCATION = Some (0, 1, b, m')"
      "nat b \<notin> used_bits bv" "num_bitmap_blocks m < b" "b < num_blocks (dsb m)" "fs_move bs m m'" "map_ok bs bv' m'"
      "used_bits bv' = insert (nat b) (used_bits bv)" "same_blks bs {1..num_bitmap_blocks m} m m'"
      "inode_map m' = inode_map m" "dsb m' = (dsb m)\<lparr>used_blocks := used_blocks (dsb m) + 1, sb_flags := MYFS_DIRTY\<rparr>"
      "exact_map bv m \<Longrightarrow> exact_map bv' m'"
proof -
  note K = fs_okD [OF ok] and M = map_okD [OF mo]
  let ?z = "nat (bsize_of m)"
  show thesis
  proof (cases "1 > num_blocks (dsb m) - used_blocks (dsb m)")
    case True
    have "m = m\<lparr>bbm_bv := Some bv\<rparr>" using M(1) by simp
    moreover have "exact_map bv m \<Longrightarrow> used_bits bv = {..<nat (num_blocks (dsb m))}" using exact_full [OF _ mo] True by simp
    ultimately show thesis using True M(2)
      by (intro full [of bv]) (simp_all add: myfs_allocate_blocks_def real_allocate_blocks_def acquire_sem_def release_sem_def Let_def)
  next
    case room: False
    show thesis
    proof (cases rule: GetFreeRangeOfBits_cases [OF M(3), of 1])
      case (1 big bv')
      have "myfs_allocate_blocks m h 1 EXACT_ALLOCATION = Some (ENOSPC, 1, 0, m\<lparr>bbm_bv := Some bv'\<rparr>)"
        using room M(1,2) alloc_loop_exact [OF 1(1)]
        by (simp add: myfs_allocate_blocks_def real_allocate_blocks_def acquire_sem_def release_sem_def Let_def)
      moreover have "used_bits bv = {..<nat (num_blocks (dsb m))}" if "exact_map bv m"
        using that GetFreeRangeOfBits_one [OF M(3) _ _ _ 1(1)] K(3) M(4) by (cases "is_full bv") (auto simp: exact_map_def)
      ultimately show thesis using 1(2) by (intro full)
    next
      case (2 st bv')
      note wf = range_taken_wf [OF M(3) 2(3) [simplified] 2(4) [simplified]]
      have st: "st < nat (num_blocks (dsb m))" "st \<notin> bit_set (bits bv)"
        using 2(3) M(4) by (simp_all add: free_run_def)
      then have lt: "int st < num_blocks (dsb m)" using K(3) by linarith
      let ?j = "st div (8 * ?z)"
      note J = map_block_of [OF ok mo _ lt, simplified]
      have bs': "bit_set (bits bv') = insert st (bit_set (bits bv))" "length (bits bv') = length (bits bv)" "numbits bv' = numbits bv"
        using 2(4) by (auto simp: range_taken_def)
      have nst: "num_bitmap_blocks m < int st"
      proof (rule ccontr)
        assume "\<not> ?thesis"
        then have "st \<in> used_bits bv" using M(8) by auto
        then show False using st(2) by (simp add: used_bits_def)
      qed
      have keep: "{..nat (num_bitmap_blocks m)} \<subseteq> used_bits bv'" using M(8) wf by auto
      have diff: "x \<in> bit_set (bits bv') \<longleftrightarrow> x \<in> bit_set (bits bv)" if "x div (8 * ?z) \<noteq> ?j" for x
        using that bs'(1) by auto
      let ?m1 = "m\<lparr>bbm_sem := 0, bbm_bv := Some bv'\<rparr>"
      obtain m2 where m2: "bitmap_ptr (bits bv') (int ?j * bsize_of m) = Some (drop (?j * ?z) (chunk_bytes (bits bv')))"
        "write_blocks ?m1 (int ?j + 1) (drop (?j * ?z) (chunk_bytes (bits bv'))) 1 = Some (1, m2)"
        "dsb m2 = dsb m" "inode_map m2 = inode_map m"
        "\<And>d. d = (dsb m)\<lparr>used_blocks := used_blocks (dsb m) + 1, sb_flags := MYFS_DIRTY\<rparr> \<Longrightarrow> fs_move bs m (m2\<lparr>bbm_sem := 1, dsb := d\<rparr>) \<and>
           map_ok bs bv' (m2\<lparr>bbm_sem := 1, dsb := d\<rparr>) \<and> same_blks bs {1..num_bitmap_blocks m} m (m2\<lparr>bbm_sem := 1, dsb := d\<rparr>)"
        by (rule write_back [OF ok sp mo conjunct1 [OF wf] bs'(3,2) J(1) diff keep refl,
            where u = "used_blocks (dsb m) + 1" and f = MYFS_DIRTY]) (assumption | blast)+
      let ?m = "m2\<lparr>bbm_sem := 1, dsb := (dsb m)\<lparr>used_blocks := used_blocks (dsb m) + 1, sb_flags := MYFS_DIRTY\<rparr>\<rparr>"
      have l1: "c_div (c_div 1 8) (c_int (bsize_of m)) + 1 = 1" using K(1,9) by simp
      have al: "myfs_allocate_blocks m h 1 EXACT_ALLOCATION = Some (0, 1, int st, ?m)"
        using room M(1,2) alloc_loop_exact [OF 2(1)] m2(1-3) J(2,3) l1 K(9)
        by (simp add: myfs_allocate_blocks_def real_allocate_blocks_def acquire_sem_def release_sem_def Let_def)
      have ex: "exact_map bv' ?m" if "exact_map bv m"
      proof -
        have "\<not> is_full bv" using 2(1) by (auto simp: GetFreeRangeOfBits_def split: if_splits)
        moreover have "st \<notin> used_bits bv" using st(2) by (simp add: used_bits_def)
        moreover have "is_full bv' = is_full bv" using 2(4) by (simp add: range_taken_def)
        ultimately show ?thesis using that wf bs'(3) by (simp add: exact_map_def)
      qed
      have u: "nat (int st) \<notin> used_bits bv" "used_bits bv' = insert (nat (int st)) (used_bits bv)"
        using st wf by (auto simp: used_bits_def)
      show thesis
        by (rule taken [OF al u(1) nst lt _ _ u(2) _ _ _ ex]) (use m2(4) m2(5) [OF refl] in simp_all)
    qed
  qed
qed

text \<open>Release of a run of blocks that one block of the map covers.\<close>

lemma free_run_good:
  assumes ok: "fs_ok bs m" and sp: "0 \<le> spare m" and mo: "map_ok bs bv m"
    and b: "num_bitmap_blocks m < b" "b + n \<le> num_blocks (dsb m)" "0 < n" "n < 8 * bsize_of m"
      "\<forall>x \<in> {b..<b + n}. x div (8 * bsize_of m) = b div (8 * bsize_of m)"
  obtains bv' m' where "myfs_free_blocks m b n = Some (0, m')" "fs_move bs m m'" "map_ok bs bv' m'"
    "used_bits bv' = used_bits bv - {nat b..<nat (b + n)}" "same_blks bs {1..num_bitmap_blocks m} m m'" "inode_map m' = inode_map m"
    "dsb m' = (dsb m)\<lparr>used_blocks := used_blocks (dsb m) - 1, sb_flags := MYFS_DIRTY\<rparr>"
proof -
  note K = fs_okD [OF ok] and M = map_okD [OF mo]
  let ?z = "nat (bsize_of m)"
  have b0: "0 \<le> b" using b(1) M(6) by simp
  have bn: "b < num_blocks (dsb m)" using b(2,3) by simp
  have cb: "c_int b = b" "c_int n = n" by (rule c_int_id; use b0 b(2,3) K(4) in simp)+
  have r: "0 \<le> b" "0 \<le> n" "b + n \<le> numbits bv" using b0 b(2,3) M(4) by simp_all
  obtain bv1 where u: "UnSetRangeBV bv b n = Some (True, bv1)" "bv_wf bv1"
    "bit_set (bits bv1) = bit_set (bits bv) - {nat b..<nat (b + n)}"
    "numbits bv1 = numbits bv" "next_free bv1 = b" "is_full bv1 = is_full bv"
    by (rule UnSetRangeBV_in_range [OF M(3) r])
  have len1: "length (bits bv1) = length (bits bv)"
    using u(1) clear_bits_spec [of "nat b" "nat n" "bits bv"] r M(3) by (auto simp: UnSetRangeBV_def bv_wf_def split: if_splits)
  let ?bv = "bv1\<lparr>is_full := False\<rparr>"
  have ub: "used_bits ?bv = used_bits bv - {nat b..<nat (b + n)}" using u(3,4) by (auto simp: used_bits_def)
  have wf: "bv_wf ?bv" using u(2) by (simp add: bv_wf_def)
  let ?j = "nat b div (8 * ?z)"
  note J = map_block_of [OF ok mo b0 bn]
  have keep: "{..nat (num_bitmap_blocks m)} \<subseteq> used_bits ?bv" using M(6,8) b(1) ub by auto
  have diff: "x \<in> bit_set (bits ?bv) \<longleftrightarrow> x \<in> bit_set (bits bv)" if "x div (8 * ?z) \<noteq> ?j" for x
  proof -
    have "x \<notin> {nat b..<nat (b + n)}"
    proof
      assume "x \<in> {nat b..<nat (b + n)}"
      then have "int x \<in> {b..<b + n}" using b0 by auto
      then have "int x div (8 * bsize_of m) = b div (8 * bsize_of m)" by (rule bspec [OF b(5)])
      moreover have "8 * bsize_of m = int (8 * ?z)" "b = int (nat b)" using b0 K(1) by simp_all
      ultimately have "int (x div (8 * ?z)) = int ?j" by (metis zdiv_int)
      then have "x div (8 * ?z) = ?j" by (rule of_nat_eq_iff [THEN iffD1])
      then show False using that by simp
    qed
    then show ?thesis using u(3) by simp
  qed
  let ?m1 = "m\<lparr>bbm_sem := 0, bbm_bv := Some ?bv\<rparr>"
  have nb: "numbits ?bv = numbits bv" "length (bits ?bv) = length (bits bv)" using u(4) len1 by simp_all
  obtain m2 where m2: "bitmap_ptr (bits ?bv) (int ?j * bsize_of m) = Some (drop (?j * ?z) (chunk_bytes (bits ?bv)))"
    "write_blocks ?m1 (int ?j + 1) (drop (?j * ?z) (chunk_bytes (bits ?bv))) 1 = Some (1, m2)"
    "dsb m2 = dsb m" "inode_map m2 = inode_map m"
    "\<And>d. d = (dsb m)\<lparr>used_blocks := used_blocks (dsb m) - 1, sb_flags := MYFS_DIRTY\<rparr> \<Longrightarrow> fs_move bs m (m2\<lparr>bbm_sem := 1, dsb := d\<rparr>) \<and>
       map_ok bs ?bv (m2\<lparr>bbm_sem := 1, dsb := d\<rparr>) \<and> same_blks bs {1..num_bitmap_blocks m} m (m2\<lparr>bbm_sem := 1, dsb := d\<rparr>)"
    by (rule write_back [OF ok sp mo wf nb J(1) diff keep refl,
        where u = "used_blocks (dsb m) - 1" and f = MYFS_DIRTY]) (assumption | blast)+
  let ?m = "m2\<lparr>bbm_sem := 1, dsb := (dsb m)\<lparr>used_blocks := used_blocks (dsb m) - 1, sb_flags := MYFS_DIRTY\<rparr>\<rparr>"
  have "n div 8 div bsize_of m = 0" using b(3,4) K(1) by (simp add: zdiv_zmult2_eq [symmetric])
  then have l1: "c_int (c_div (c_div n 8) (c_int (bsize_of m)) + 1) = 1" using K(1,9) b(3) by (simp add: pos_imp_zdiv_nonneg_iff)
  have "myfs_free_blocks m b n = Some (0, ?m)"
    using M(1,2) u(1) m2(1-3) J(2,3) l1 K(9) cb
    by (simp add: myfs_free_blocks_def acquire_sem_def release_sem_def Let_def)
  then show thesis
    by (rule that) (use ub m2(4) m2(5) [OF refl] in auto)
qed

lemma free_block:
  assumes "fs_ok bs m" "0 \<le> spare m" "map_ok bs bv m" "num_bitmap_blocks m < b" "b < num_blocks (dsb m)"
  obtains bv' m' where "myfs_free_blocks m b 1 = Some (0, m')" "fs_move bs m m'" "map_ok bs bv' m'"
    "used_bits bv' = used_bits bv - {nat b}" "same_blks bs {1..num_bitmap_blocks m} m m'" "inode_map m' = inode_map m"
    "dsb m' = (dsb m)\<lparr>used_blocks := used_blocks (dsb m) - 1, sb_flags := MYFS_DIRTY\<rparr>"
proof -
  have "0 < b" using map_okD(6) [OF assms(3)] assms(4) by simp
  then have e: "{nat b..<nat (b + 1)} = {nat b}" by (auto simp: nat_add_distrib)
  show thesis
    by (rule free_run_good [OF assms(1-4), of 1]) (use assms(5) fs_okD(1) [OF assms(1)] e that in auto)
qed

section \<open>A new map\<close>

lemma bitmap_blocks_eq:
  assumes ok: "fs_ok bs m"
  shows "bitmap_blocks (dsb m) = (num_blocks (dsb m) div 8 + bsize_of m - 1) div bsize_of m"
proof -
  note K = fs_okD [OF ok]
  have e: "c_int (c_div (num_blocks (dsb m)) 8) = num_blocks (dsb m) div 8" using K(3,4) by simp
  have "0 \<le> num_blocks (dsb m) div 8 + bsize_of m - 1" using K(1,3) by (simp add: pos_imp_zdiv_nonneg_iff)
  then have "0 \<le> (num_blocks (dsb m) div 8 + bsize_of m - 1) div bsize_of m * bsize_of m"
    using K(1) by (simp add: pos_imp_zdiv_nonneg_iff)
  then show ?thesis unfolding bitmap_blocks_def Let_def e K(9) fs_ok_align [OF ok] using K(1) by simp
qed

text \<open>An empty vector gives its first bits.\<close>

lemma bit_set_zero [simp]: "bit_set (replicate n 0) = {}"
  by (auto simp: bit_set_def)

lemma first_range:
  assumes nb: "0 < len" "len \<le> nb" "nb \<le> 32 * n"
  obtains bv' where "GetFreeRangeOfBits \<lparr>numbits = int nb, next_free = 0, is_full = False, bits = replicate n 0\<rparr> (int len)
      = Some (0, -1, bv')" "range_taken \<lparr>numbits = int nb, next_free = 0, is_full = False, bits = replicate n 0\<rparr> len 0 bv'"
proof -
  let ?bv = "\<lparr>numbits = int nb, next_free = 0, is_full = False, bits = replicate n 0\<rparr> :: BitVector"
  have n: "0 < n" using nb by (cases n) auto
  obtain r where r: "scan_run (replicate n 0) nb len 0 0 0 = Some r"
    using scan_run_total [of nb "replicate n 0" 0 len 0 0] nb by auto
  obtain k a t where rk: "r = (k, a, t)" by (cases r)
  have p: "a * 32 + t = k" using scan_run_pos [of "replicate n 0" nb len 0 0 0 k a t] r rk by simp
  have "\<not> (k < len)" "k \<le> len"
    using scan_run_spec [of "replicate n 0" nb len 0 0 0 k a t] r rk p nb by auto
  then have k: "k = len" by simp
  have c: "num_chunks nb \<le> n" "0 < num_chunks nb" using num_chunks_least [OF nb(3)] num_chunks_cover [of nb] nb by auto
  obtain bv' where t: "take_range ?bv (num_chunks nb) len 0 0 = Some (Found 0 bv')" "range_taken ?bv len 0 bv'"
    using take_range_spec [of 0 0 len ?bv "num_chunks nb"] c(1) nb by auto
  have "scan_chunk ?bv nb (num_chunks nb) len 0 0 0 (-1) 0 = Some (Found 0 bv')"
    using n r rk k t(1) nb by (subst scan_chunk.simps) (simp add: tst_bit_iff Let_def p)
  then have "scan_chunks ?bv nb (num_chunks nb) len 0 0 0 (-1) 0 = Some (Found 0 bv')"
    using n c(2) by (subst scan_chunks.simps) (simp add: Let_def)
  then have "GetFreeRangeOfBits ?bv (int len) = Some (0, -1, bv')"
    using nb by (simp add: GetFreeRangeOfBits_def num_chunks_def Let_def)
  then show thesis using t(2) by (rule that)
qed

lemma ceil_div:
  fixes q z :: int assumes "0 < z"
  shows "q \<le> (q + z - 1) div z * z" "(q + z - 1) div z * z < q + z"
proof -
  have "(q + z - 1) div z * z + (q + z - 1) mod z = q + z - 1" by simp
  moreover have "0 \<le> (q + z - 1) mod z" "(q + z - 1) mod z < z" using assms by simp_all
  ultimately show "q \<le> (q + z - 1) div z * z" "(q + z - 1) div z * z < q + z" by linarith+
qed

lemma bitmap_blocks_bounds:
  assumes ok: "fs_ok bs m" and nb: "8 \<le> num_blocks (dsb m)"
  defines "n \<equiv> bitmap_blocks (dsb m)"
  shows "0 < n" "n < num_blocks (dsb m)" "n * bsize_of m < 2 ^ 31" "n * bsize_of m < num_blocks (dsb m) div 8 + bsize_of m"
proof -
  note K = fs_okD [OF ok]
  let ?q = "num_blocks (dsb m) div 8" and ?z = "bsize_of m"
  have q: "1 \<le> ?q" "8 * ?q \<le> num_blocks (dsb m)" using nb by linarith+
  have n: "n = (?q + ?z - 1) div ?z" using bitmap_blocks_eq [OF ok] by (simp add: n_def)
  have "?z div ?z \<le> n" unfolding n by (rule zdiv_mono1) (use q K(1) in linarith)+
  then show n0: "0 < n" using K(1) by simp
  have up: "n * ?z \<le> ?q + ?z - 1" unfolding n using ceil_div(2) [of ?z ?q] K(1) by simp
  then show "n * ?z < ?q + ?z" by simp
  show "n * ?z < 2 ^ 31" using up q(2) K(2,4) by simp
  have "(n - 1) * 512 \<le> (n - 1) * ?z" using K(1) n0 by (intro mult_left_mono) simp_all
  also have "\<dots> = n * ?z - ?z" by (simp add: algebra_simps)
  also have "\<dots> \<le> ?q - 1" using up by simp
  finally have "n * 512 \<le> ?q + 511" by simp
  then show "n < num_blocks (dsb m)" using q by simp
qed

lemma create_map_good:
  assumes ok: "fs_ok bs m" and sp: "0 \<le> spare m" and hp: "heap_ok (tmp m)" and nb: "8 \<le> num_blocks (dsb m)"
  defines "n \<equiv> bitmap_blocks (dsb m)"
  assumes cov: "num_blocks (dsb m) \<le> 8 * (n * bsize_of m)"
  obtains bv m' where "myfs_create_storage_map m = Some (0, m')" "map_ok bs bv m'" "used_bits bv = {..nat n}"
    "fs_ok bs m'" "dsb m' = (dsb m)\<lparr>used_blocks := used_blocks (dsb m) + n + 1\<rparr>" "num_bitmap_blocks m' = n"
    "spare m' = spare m" "\<forall>b. n < b \<longrightarrow> fs_has m b \<longrightarrow> fs_blk bs m' b = fs_blk bs m b" "tmp m' = tmp m"
    "\<forall>b. loose bs m' b \<longrightarrow> loose bs m b" "myfs_fd m' = myfs_fd m" "after_dsb m' = after_dsb m" "\<not> is_full bv"
proof -
  note K = fs_okD [OF ok] and B = bitmap_blocks_bounds [OF ok nb, folded n_def]
  let ?z = "nat (bsize_of m)"
  define w where "w = nat n * (?z div 4)"
  have z4: "?z = 4 * (?z div 4)" by (rule fs_ok_quads [OF ok])
  have w: "nat (n * bsize_of m div 4) = w" "4 * w = nat n * ?z" "int (4 * w) = n * bsize_of m"
  proof -
    show 1: "4 * w = nat n * ?z" unfolding w_def using z4 by (metis mult.left_commute)
    have "int (nat n * ?z) = n * bsize_of m" using B(1) K(1) by simp
    then show 2: "int (4 * w) = n * bsize_of m" unfolding 1 .
    show "nat (n * bsize_of m div 4) = w" unfolding 2 [symmetric] by simp
  qed
  have len: "0 < nat (n + 1)" "nat (n + 1) \<le> nat (num_blocks (dsb m))" "nat (num_blocks (dsb m)) \<le> 32 * w"
    using B(1,2) cov w(3) by simp_all
  let ?bv = "\<lparr>numbits = int (nat (num_blocks (dsb m))), next_free = 0, is_full = False, bits = replicate w 0\<rparr>"
  obtain bv' where g: "GetFreeRangeOfBits ?bv (int (nat (n + 1))) = Some (0, -1, bv')" and t: "range_taken ?bv (nat (n + 1)) 0 bv'"
    by (rule first_range [OF len])
  have T: "bit_set (bits bv') = {0..<nat (n + 1)}" "length (bits bv') = w" "numbits bv' = num_blocks (dsb m)"
    "next_free bv' \<in> {0, n + 1}" using t K(3) B(1) by (auto simp: range_taken_def)
  have wf: "bv_wf bv'" using T B(1,2) K(3) cov w(3) by (auto simp: bv_wf_def)
  have "nat (n + 1) = Suc (nat n)" "Suc (nat n) \<le> nat (num_blocks (dsb m))" using B(1,2) by simp_all
  then have ub: "used_bits bv' = {..nat n}" unfolding used_bits_def T(1,3) by auto
  let ?m1 = "m\<lparr>bbm_sem := 1, num_bitmap_blocks := n, bbm_bv := Some bv'\<rparr>"
  have ok1: "fs_ok bs ?m1" "0 \<le> spare ?m1" using ok sp by (simp_all add: fs_ok_def spare_def)
  have in1: "int (nat n) = n" using B(1) by simp
  have b: "0 < (1::int)" "1 + int (nat n) \<le> num_blocks (dsb ?m1)" "0 < nat n" "int (nat n) * bsize_of ?m1 < 2 ^ 31"
    "nat n * nat (bsize_of ?m1) \<le> length (chunk_bytes (bits bv'))"
    using B(1-3) T(2) w(2) by simp_all
  obtain m2 where m2: "write_blocks ?m1 1 (chunk_bytes (bits bv')) (int (nat n)) = Some (int (nat n), m2)" "fs_step bs ?m1 m2"
    "same_blks bs {1..<1 + int (nat n)} ?m1 m2"
    "\<forall>i < nat n. fs_blk bs m2 (1 + int i) = at (chunk_bytes (bits bv')) (i * nat (bsize_of ?m1)) (nat (bsize_of ?m1))"
    by (rule write_blocks_good [OF ok1 b])
  note S = fs_stepD [OF m2(2)]
  let ?m = "m2\<lparr>dsb := (dsb m2)\<lparr>used_blocks := used_blocks (dsb m2) + (n + 1)\<rparr>\<rparr>"
  have cn: "c_int (num_blocks (dsb m)) = num_blocks (dsb m)" "c_int (n + 1) = n + 1" using K(3,4) B(1,2) by simp_all
  have e: "int (nat (num_blocks (dsb m))) = num_blocks (dsb m)" "int (nat (n + 1)) = n + 1" using K(3) B(1) by simp_all
  have g': "GetFreeRangeOfBits \<lparr>numbits = num_blocks (dsb m), next_free = 0, is_full = False, bits = replicate w 0\<rparr> (n + 1) =
      Some (0, -1, bv')" using g unfolding e .
  have "myfs_create_storage_map m = Some (0, ?m)"
    unfolding myfs_create_storage_map_def n_def [symmetric]
    using hp g' m2(1) cn w(1) in1 by (simp add: create_sem_def Let_def)
  moreover have "map_ok bs bv' ?m"
    unfolding map_ok_def using S m2(4) wf ub T w(3) B(1,2) by (simp add: fs_blk_def map_part_def)
  moreover note ub
  moreover have "fs_ok bs ?m" using fs_step_ok [OF m2(2) ok1(1)] by (simp add: fs_ok_def)
  moreover have "dsb ?m = (dsb m)\<lparr>used_blocks := used_blocks (dsb m) + n + 1\<rparr>" using S(1) by simp
  moreover have "num_bitmap_blocks ?m = n" "tmp ?m = tmp m" "myfs_fd ?m = myfs_fd m" "after_dsb ?m = after_dsb m"
    using S(2,4,7,8) by simp_all
  moreover have "spare ?m = spare m" using S(10) by (simp add: spare_def)
  moreover have "\<forall>b. n < b \<longrightarrow> fs_has m b \<longrightarrow> fs_blk bs ?m b = fs_blk bs m b"
    using m2(3) in1 by (simp add: same_blks_def fs_blk_def fs_has_def)
  moreover have "\<forall>b. loose bs ?m b \<longrightarrow> loose bs m b" using S(11) by (simp add: loose_def)
  moreover have "\<not> is_full bv'" using t by (simp add: range_taken_def)
  ultimately show thesis by (intro that) assumption+
qed

section \<open>Loading the map\<close>

lemma concat_at: "concat (map (\<lambda>i. at xs (i * z) z) [0..<n]) = take (n * z) xs"
proof (induction n)
  case (Suc n)
  have "take (Suc n * z) xs = take (n * z + z) xs" by (simp add: add.commute)
  then show ?case using Suc by (simp only: take_add) (simp add: at_def)
qed simp

lemma chunk_count_card: "chunk_count c = int (card {t. t < 32 \<and> bit c t})"
proof -
  have "length (filter (tst_bit c) [0..<32]) = card (set (filter (tst_bit c) [0..<32]))"
    by (rule distinct_card [symmetric]) simp
  also have "set (filter (tst_bit c) [0..<32]) = {t. t < 32 \<and> bit c t}" by (auto simp: tst_bit_iff)
  finally show ?thesis by (simp add: chunk_count_def)
qed

lemma chunk_counts:
  "j \<le> length cs \<Longrightarrow> sum_list (map chunk_count (take j cs)) = int (card (bit_set cs \<inter> {..<32 * j}))"
proof (induction j)
  case (Suc j)
  let ?A = "bit_set cs \<inter> {..<32 * j}" and ?B = "(\<lambda>t. j * 32 + t) ` {t. t < 32 \<and> bit (cs ! j) t}"
  have "bit_set cs \<inter> {..<32 * Suc j} = ?A \<union> ?B"
  proof (intro set_eqI iffI)
    fix x assume x: "x \<in> bit_set cs \<inter> {..<32 * Suc j}"
    show "x \<in> ?A \<union> ?B"
    proof (cases "x < 32 * j")
      case False
      then have d: "x div 32 = j" "x mod 32 < 32" using x by auto
      then have d3: "x = j * 32 + x mod 32" by (metis div_mult_mod_eq)
      then have "bit (cs ! j) (x mod 32)" using x d(1) by (simp add: bit_set_def)
      then show ?thesis using d(2) d3 by blast
    qed (use x in auto)
  next
    fix x assume "x \<in> ?A \<union> ?B"
    then show "x \<in> bit_set cs \<inter> {..<32 * Suc j}" using Suc.prems by (auto simp: bit_set_pos)
  qed
  moreover have "card (?A \<union> ?B) = card ?A + card ?B" by (rule card_Un_disjoint) auto
  moreover have "card ?B = card {t. t < 32 \<and> bit (cs ! j) t}" by (rule card_image) (simp add: inj_on_def)
  ultimately show ?case using Suc by (simp add: take_Suc_conv_app_nth chunk_count_card)
qed simp

lemma init_map_good:
  assumes ok: "fs_ok bs m" and sp: "0 \<le> spare m" and hp: "heap_ok (tmp m)" and nb: "8 \<le> num_blocks (dsb m)"
  defines "n \<equiv> bitmap_blocks (dsb m)"
  assumes disk: "\<forall>j < nat n. fs_blk bs m (1 + int j) = map_part (nat (bsize_of m)) cs j"
    and len: "int (4 * length cs) = n * bsize_of m" and cov: "num_blocks (dsb m) \<le> 32 * int (length cs)"
    and own: "{..nat n} \<subseteq> bit_set cs"
  defines "bv \<equiv> \<lparr>numbits = num_blocks (dsb m), next_free = 0, is_full = False, bits = cs\<rparr>"
  obtains m' where "myfs_init_storage_map m = Some (0, m')" "map_ok bs bv m'" "fs_ok bs m'"
    "used_blocks (dsb m') = int (card (bit_set cs \<inter> {..<32 * nat (num_blocks (dsb m) div 32)}))"
    "same_blks bs {} m m'" "spare m' = spare m"
proof -
  note K = fs_okD [OF ok] and B = bitmap_blocks_bounds [OF ok nb, folded n_def]
  let ?z = "nat (bsize_of m)"
  let ?m1 = "m\<lparr>bbm_sem := 1, num_bitmap_blocks := n\<rparr>"
  have ok1: "fs_ok bs ?m1" "0 \<le> spare ?m1" using ok sp by (simp_all add: fs_ok_def spare_def)
  have b: "0 < (1::int)" "1 + int (nat n) \<le> num_blocks (dsb ?m1)" "0 < nat n" "int (nat n) * bsize_of ?m1 < 2 ^ 31"
    using B(1-3) by simp_all
  let ?buf = "replicate (nat (n * bsize_of m)) (0::byte)"
  have bl: "length ?buf = nat n * nat (bsize_of ?m1)" using B(1) K(1) by (simp add: nat_mult_distrib)
  obtain m2 where m2: "read_blocks ?m1 1 ?buf (int (nat n)) =
      Some (int (nat n), concat (map (\<lambda>i. fs_blk bs ?m1 (1 + int i)) [0..<nat n]), m2)" "fs_step bs ?m1 m2" "same_blks bs {} ?m1 m2"
    by (rule read_blocks_good [OF ok1 b bl])
  note S = fs_stepD [OF m2(2)]
  have "int (4 * length cs) = int (nat n * ?z)" using len B(1) K(1) by simp
  then have cl: "4 * length cs = nat n * ?z" by (rule of_nat_eq_iff [THEN iffD1])
  have "map (\<lambda>i. fs_blk bs ?m1 (1 + int i)) [0..<nat n] = map (\<lambda>i. at (chunk_bytes cs) (i * ?z) ?z) [0..<nat n]"
    using disk by (simp add: fs_blk_def map_part_def)
  then have "concat (map (\<lambda>i. fs_blk bs ?m1 (1 + int i)) [0..<nat n]) = chunk_bytes cs" using cl by (simp only: concat_at) simp
  then have rd: "read_blocks ?m1 1 ?buf n = Some (n, chunk_bytes cs, m2)" using m2(1) B(1) by simp
  have cn: "c_int (num_blocks (dsb m)) = num_blocks (dsb m)" using K(3,4) by simp
  have wf: "bv_wf bv" using cov K(3) by (simp add: bv_def bv_wf_def)
  have "nat n < nat (num_blocks (dsb m))" using B(1,2) by simp
  then have ub: "{..nat n} \<subseteq> used_bits bv" using own by (auto simp: used_bits_def bv_def)
  have z: "IsSetBV bv 0 = Some True" using IsSetBV_used [OF wf, of 0] ub K(3) by (auto simp: bv_def)
  let ?j = "nat (num_blocks (dsb m) div 32)"
  have j: "?j \<le> length cs" using cov K(3) by linarith
  let ?u = "int (card (bit_set cs \<inter> {..<32 * ?j}))"
  have cc: "sum_list (map chunk_count (take ?j cs)) = ?u" by (rule chunk_counts [OF j])
  let ?m3 = "m2\<lparr>bbm_bv := Some bv\<rparr>"
  let ?m = "?m3\<lparr>dsb := (dsb m2)\<lparr>used_blocks := ?u\<rparr>\<rparr>"
  have "sanity_check_bitmap ?m3 = Some ?m"
    using j cc by (auto simp: sanity_check_bitmap_def Let_def bv_def)
  then have "myfs_init_storage_map m = Some (0, ?m)"
    unfolding myfs_init_storage_map_def n_def [symmetric]
    using hp rd z cn S(1) by (simp add: create_sem_def Let_def bytes_chunks_bytes bv_def [symmetric])
  moreover have "map_ok bs bv ?m"
    unfolding map_ok_def using S(1,4,5) wf ub len B(1,2) disk m2(3)
    by (simp add: bv_def same_blks_def fs_blk_def fs_has_def)
  moreover have "fs_ok bs ?m" using fs_step_ok [OF m2(2) ok1(1)] by (simp add: fs_ok_def)
  moreover have "same_blks bs {} m ?m" using m2(3) by (simp add: same_blks_def fs_blk_def fs_has_def)
  moreover have "spare ?m = spare m" using S(10) by (simp add: spare_def)
  moreover have "used_blocks (dsb ?m) = ?u" by simp
  ultimately show thesis using that by blast
qed

end
