(* ===== verification/Bitmap_Props.thy ===== *)
theory Bitmap_Props
  imports Block_Bitmap
begin

text \<open>
  The properties of the map of used blocks: creation, loading, allocation and release of a block, and where
  the count of used blocks and the size of the map go wrong.
\<close>

section \<open>Creating the map\<close>

text \<open>
  Claim C24: on a device of at least eight blocks \<open>myfs_create_storage_map\<close> makes a map in which exactly the super
  block and the blocks of the map are used, and the map on the disk is the one in memory, provided that the map
  is large enough for the device.
\<close>

theorem create_storage_map_correct:
  assumes "fs_ok bs m" "0 \<le> spare m" "heap_ok (tmp m)" "8 \<le> num_blocks (dsb m)"
    "num_blocks (dsb m) \<le> 8 * (bitmap_blocks (dsb m) * bsize_of m)"
  shows "\<exists>bv m'. myfs_create_storage_map m = Some (0, m') \<and> map_ok bs bv m' \<and>
    used_bits bv = {..nat (bitmap_blocks (dsb m))} \<and>
    used_blocks (dsb m') = used_blocks (dsb m) + int (card (used_bits bv))"
proof -
  obtain bv m' where "myfs_create_storage_map m = Some (0, m')" "map_ok bs bv m'"
    "used_bits bv = {..nat (bitmap_blocks (dsb m))}" "fs_ok bs m'"
    "dsb m' = (dsb m)\<lparr>used_blocks := used_blocks (dsb m) + bitmap_blocks (dsb m) + 1\<rparr>"
    by (rule create_map_good [OF assms]) (rule that, assumption+)
  then show ?thesis using bitmap_blocks_bounds(1) [OF assms(1,4)]
    by (intro exI [of _ bv] exI [of _ m']) simp
qed

lemma demo_fs_map: "bitmap_blocks (dsb demo_fs) = 1"
  using bitmap_blocks_eq [OF demo_fs_facts(1)] by (simp add: demo_fs_facts)

theorem create_storage_map_correct_witness:
  "\<exists>bv m'. myfs_create_storage_map demo_fs = Some (0, m') \<and> map_ok demo_bs bv m' \<and> used_bits bv = {..1} \<and>
    used_blocks (dsb m') = 2"
  using create_storage_map_correct [OF demo_fs_facts(1)]
  by (auto simp: demo_fs_facts demo_fs_map NUM_FLUSH_BLOCKS_def)

text \<open>
  The map is too small for the device exactly when the number of blocks is 1 to 7 more than a
  multiple of what a block of the map covers.
\<close>

theorem bitmap_too_small_iff:
  assumes "fs_ok bs m"
  shows "8 * (bitmap_blocks (dsb m) * bsize_of m) < num_blocks (dsb m) \<longleftrightarrow>
    num_blocks (dsb m) mod (8 * bsize_of m) \<in> {1..7}"
proof -
  note K = fs_okD [OF assms]
  let ?q = "num_blocks (dsb m) div 8" and ?z = "bsize_of m" and ?n = "bitmap_blocks (dsb m)"
  have n: "?n = (?q + ?z - 1) div ?z" by (rule bitmap_blocks_eq [OF assms])
  have c: "?q \<le> ?n * ?z" "?n * ?z < ?q + ?z" unfolding n using ceil_div [of ?z ?q] K(1) by simp_all
  have md: "num_blocks (dsb m) mod (8 * ?z) = 8 * (?q mod ?z) + num_blocks (dsb m) mod 8"
    using K(1) by (simp add: zmod_zmult2_eq)
  have q: "num_blocks (dsb m) = 8 * ?q + num_blocks (dsb m) mod 8" by simp
  have r: "0 \<le> ?q mod ?z" "0 \<le> num_blocks (dsb m) mod 8" "num_blocks (dsb m) mod 8 < 8" using K(1) by simp_all
  have eq: "?n * ?z = ?q \<longleftrightarrow> ?q mod ?z = 0"
  proof
    assume "?n * ?z = ?q"
    then show "?q mod ?z = 0" by (metis mod_mult_self2_is_0)
  next
    assume "?q mod ?z = 0"
    then have "(?n * ?z - ?q) mod ?z = 0" by (simp add: mod_diff_eq [symmetric])
    moreover have "(?n * ?z - ?q) mod ?z = ?n * ?z - ?q" by (rule mod_pos_pos_trivial) (use c in simp_all)
    ultimately show "?n * ?z = ?q" by simp
  qed
  show ?thesis
  proof (cases "?q mod ?z = 0")
    case True
    moreover have "8 * ?q < num_blocks (dsb m) \<longleftrightarrow> num_blocks (dsb m) mod 8 \<in> {1..7}" using q r unfolding atLeastAtMost_iff by linarith
    ultimately show ?thesis using eq md by simp
  next
    case False
    then have "1 \<le> ?q mod ?z" "?q + 1 \<le> ?n * ?z" using eq c r(1) by linarith+
    then show ?thesis unfolding md atLeastAtMost_iff using q r by linarith
  qed
qed


theorem bitmap_too_small_iff_witness:
  "\<not> 8 * (bitmap_blocks (dsb demo_fs) * bsize_of demo_fs) < num_blocks (dsb demo_fs)"
  using bitmap_too_small_iff [OF demo_fs_facts(1)] by (simp add: demo_fs_facts)

text \<open>
  A map that is loaded after \<open>myfs_shutdown_storage_map\<close> is the map that was in use before; the number
  of used blocks is counted again, but only over the whole 32-bit chunks of the device.
\<close>

theorem storage_map_reload:
  assumes ok: "fs_ok bs m" and sp: "0 \<le> spare m" and hp: "heap_ok (tmp m)" and nb: "8 \<le> num_blocks (dsb m)"
    and mo: "map_ok bs bv m" and n: "num_bitmap_blocks m = bitmap_blocks (dsb m)"
  shows "\<exists>m'. myfs_init_storage_map (myfs_shutdown_storage_map m) = Some (0, m') \<and> fs_ok bs m' \<and>
    map_ok bs (bv\<lparr>next_free := 0, is_full := False\<rparr>) m' \<and>
    used_blocks (dsb m') = int (card (used_bits bv \<inter> {..<32 * nat (num_blocks (dsb m) div 32)}))"
proof -
  let ?m = "myfs_shutdown_storage_map m"
  note M = map_okD [OF mo]
  have e: "cache ?m = cache m" "dsb ?m = dsb m" "tmp ?m = tmp m" "spare ?m = spare m" "fs_ok bs ?m"
    "\<And>b. fs_blk bs ?m b = fs_blk bs m b" using ok by (simp_all add: myfs_shutdown_storage_map_def spare_def fs_ok_def fs_blk_def)
  have bv: "bv\<lparr>next_free := 0, is_full := False\<rparr> = \<lparr>numbits = num_blocks (dsb ?m), next_free = 0, is_full = False, bits = bits bv\<rparr>"
    using M(4) e(2) by simp
  have cov: "num_blocks (dsb ?m) \<le> 32 * int (length (bits bv))" using M(3,4) e(2) by (simp add: bv_wf_def)
  have own: "{..nat (bitmap_blocks (dsb ?m))} \<subseteq> bit_set (bits bv)" using M(8) n e(2) by (auto simp: used_bits_def)
  obtain m' where h: "myfs_init_storage_map ?m = Some (0, m')"
    "map_ok bs \<lparr>numbits = num_blocks (dsb ?m), next_free = 0, is_full = False, bits = bits bv\<rparr> m'" "fs_ok bs m'"
    "used_blocks (dsb m') = int (card (bit_set (bits bv) \<inter> {..<32 * nat (num_blocks (dsb ?m) div 32)}))"
    by (rule init_map_good [OF e(5), of "bits bv"]) (use sp hp nb M(5,9) n e cov own in auto)
  have "32 * nat (num_blocks (dsb m) div 32) \<le> nat (numbits bv)" using M(4) fs_okD(3) [OF ok] by linarith
  then have "bit_set (bits bv) \<inter> {..<32 * nat (num_blocks (dsb m) div 32)} =
      used_bits bv \<inter> {..<32 * nat (num_blocks (dsb m) div 32)}" by (auto simp: used_bits_def)
  then show ?thesis using h unfolding bv e(2) by (intro exI [of _ m']) simp
qed

section \<open>Allocation and release\<close>

text \<open>
  Claim C25: \<open>myfs_allocate_blocks\<close> for one block comes back with a block that was not in use and is not part of
  the map, or with \<open>ENOSPC\<close>; the vector gains exactly that block, the map on the disk is again the one in memory,
  and every block outside the map holds what it held.  With an exact map (one that counts the used blocks and covers a
  multiple of 32 blocks) \<open>ENOSPC\<close> comes only when every block is in use, and the map stays exact.
\<close>

theorem allocate_block_correct:
  assumes "fs_ok bs m" "0 \<le> spare m" "map_ok bs bv m"
  shows "\<exists>e b bv' m'. myfs_allocate_blocks m h 1 EXACT_ALLOCATION = Some (e, 1, b, m') \<and> fs_ok bs m' \<and> map_ok bs bv' m' \<and>
    (\<forall>c. fs_has m c \<longrightarrow> num_bitmap_blocks m < c \<longrightarrow> fs_blk bs m' c = fs_blk bs m c) \<and>
    (exact_map bv m \<longrightarrow> exact_map bv' m' \<and> (e = ENOSPC \<longrightarrow> used_bits bv = {..<nat (num_blocks (dsb m))})) \<and>
    (e = 0 \<and> num_bitmap_blocks m < b \<and> b < num_blocks (dsb m) \<and> nat b \<notin> used_bits bv \<and>
       used_bits bv' = insert (nat b) (used_bits bv) \<and> used_blocks (dsb m') = used_blocks (dsb m) + 1 \<or>
     e = ENOSPC \<and> used_bits bv' = used_bits bv \<and> used_blocks (dsb m') = used_blocks (dsb m))"
proof (cases rule: alloc_block [OF assms, of h])
  case (1 bv')
  let ?m = "m\<lparr>bbm_bv := Some bv'\<rparr>"
  have ub: "used_bits bv' = used_bits bv" using 1(2) by (auto simp: used_bits_def)
  have ok: "map_ok bs bv' ?m" "fs_ok bs ?m"
    using assms(1,3) 1(2) by (auto simp: map_ok_def fs_ok_def fs_blk_def bv_wf_def used_bits_def)
  have "exact_map bv' ?m" if "exact_map bv m"
    by (rule exact_marked [OF that assms(3) 1(3) [OF that] 1(2)]) simp
  then have ex: "exact_map bv m \<longrightarrow> exact_map bv' ?m \<and> (ENOSPC = ENOSPC \<longrightarrow> used_bits bv = {..<nat (num_blocks (dsb m))})"
    using 1(3) by blast
  have d: "used_blocks (dsb ?m) = used_blocks (dsb m)" "\<And>c. fs_blk bs ?m c = fs_blk bs m c" by (simp_all add: fs_blk_def)
  show ?thesis
    by (rule exI [of _ ENOSPC], rule exI [of _ 0], rule exI [of _ bv'], rule exI [of _ ?m])
       (intro conjI disjI2 allI refl 1(1) ok ub ex d impI [OF impI [OF d(2)]])
next
  case (2 b bv' m')
  have same: "fs_blk bs m' c = fs_blk bs m c" if "fs_has m c" "num_bitmap_blocks m < c" for c
    using 2(8) that by (simp add: same_blks_def)
  have d: "used_blocks (dsb m') = used_blocks (dsb m) + 1" using 2(10) by simp
  have ex: "exact_map bv m \<longrightarrow> exact_map bv' m' \<and> (0 = ENOSPC \<longrightarrow> used_bits bv = {..<nat (num_blocks (dsb m))})"
    using 2(11) by simp
  show ?thesis
    by (rule exI [of _ 0], rule exI [of _ b], rule exI [of _ bv'], rule exI [of _ m'])
       (intro conjI disjI1 allI refl 2(1-4,6,7) fs_move_ok [OF 2(5) assms(1)] ex d impI [OF impI [OF same]])
qed

text \<open>The example file system with its map.\<close>

lemma demo_mapped:
  obtains bv m where "myfs_create_storage_map demo_fs = Some (0, m)" "map_ok demo_bs bv m" "used_bits bv = {..1}"
    "fs_ok demo_bs m" "spare m = 100 - int NUM_FLUSH_BLOCKS" "num_bitmap_blocks m = 1" "num_blocks (dsb m) = 64"
    "bsize_of m = 512" "used_blocks (dsb m) = 2" "tmp m = tmp demo_fs" "exact_map bv m"
proof -
  have p: "0 \<le> spare demo_fs" "8 \<le> num_blocks (dsb demo_fs)"
    "num_blocks (dsb demo_fs) \<le> 8 * (bitmap_blocks (dsb demo_fs) * bsize_of demo_fs)"
    by (simp_all add: demo_fs_facts demo_fs_map NUM_FLUSH_BLOCKS_def)
  obtain bv m where h: "myfs_create_storage_map demo_fs = Some (0, m)" "map_ok demo_bs bv m"
    "used_bits bv = {..nat (bitmap_blocks (dsb demo_fs))}" "fs_ok demo_bs m"
    "dsb m = (dsb demo_fs)\<lparr>used_blocks := used_blocks (dsb demo_fs) + bitmap_blocks (dsb demo_fs) + 1\<rparr>"
    "num_bitmap_blocks m = bitmap_blocks (dsb demo_fs)" "spare m = spare demo_fs" "tmp m = tmp demo_fs" "\<not> is_full bv"
    by (rule create_map_good [OF demo_fs_facts(1) p(1) demo_fs_facts(3) p(2,3)]) (rule that, assumption+)
  show thesis
    by (rule that [OF h(1,2)]) (use h map_okD(4) [OF h(2)] in \<open>simp_all add: demo_fs_map demo_fs_facts exact_map_def\<close>)
qed

theorem storage_map_reload_witness:
  "\<exists>m m'. myfs_create_storage_map demo_fs = Some (0, m) \<and>
    myfs_init_storage_map (myfs_shutdown_storage_map m) = Some (0, m') \<and> used_blocks (dsb m') = 2"
proof -
  obtain bv m where h: "myfs_create_storage_map demo_fs = Some (0, m)" "map_ok demo_bs bv m" "used_bits bv = {..1}"
    "fs_ok demo_bs m" "spare m = 100 - int NUM_FLUSH_BLOCKS" "num_bitmap_blocks m = 1" "num_blocks (dsb m) = 64"
    "bsize_of m = 512" "tmp m = tmp demo_fs" using demo_mapped by metis
  have p: "0 \<le> spare m" "heap_ok (tmp m)" "8 \<le> num_blocks (dsb m)" "num_bitmap_blocks m = bitmap_blocks (dsb m)"
    using h(5,6,7,8,9) bitmap_blocks_eq [OF h(4)] by (simp_all add: NUM_FLUSH_BLOCKS_def demo_fs_facts)
  obtain m' where "myfs_init_storage_map (myfs_shutdown_storage_map m) = Some (0, m')"
    "used_blocks (dsb m') = int (card (used_bits bv \<inter> {..<32 * nat (num_blocks (dsb m) div 32)}))"
    using storage_map_reload [OF h(4) p(1-3) h(2) p(4)] by blast
  moreover have "used_bits bv \<inter> {..<32 * nat (num_blocks (dsb m) div 32)} = {..1}" unfolding h(3,7) by auto
  ultimately show ?thesis using h(1) by auto
qed

theorem allocate_block_correct_witness:
  "\<exists>m b bv' m'. myfs_create_storage_map demo_fs = Some (0, m) \<and>
    myfs_allocate_blocks m 0 1 EXACT_ALLOCATION = Some (0, 1, b, m') \<and> map_ok demo_bs bv' m' \<and>
    1 < b \<and> b < 64 \<and> used_bits bv' = insert (nat b) {..1} \<and> used_blocks (dsb m') = 3"
proof -
  obtain bv m where h: "myfs_create_storage_map demo_fs = Some (0, m)" "map_ok demo_bs bv m" "fs_ok demo_bs m"
    "spare m = 100 - int NUM_FLUSH_BLOCKS" "exact_map bv m" "used_bits bv = {..1}" "num_bitmap_blocks m = 1"
    "num_blocks (dsb m) = 64" "used_blocks (dsb m) = 2" using demo_mapped by metis
  have p: "0 \<le> spare m" using h(4) by (simp add: NUM_FLUSH_BLOCKS_def)
  have "used_bits bv \<noteq> {..<nat (num_blocks (dsb m))}" by (rule not_all_used [of 2]) (simp_all add: h)
  with allocate_block_correct [OF h(3) p h(2), of 0] h(5) show ?thesis
  proof (elim exE conjE disjE)
    fix e b bv' m'
    assume r: "myfs_allocate_blocks m 0 1 EXACT_ALLOCATION = Some (e, 1, b, m')" "map_ok demo_bs bv' m'" "e = 0"
      "num_bitmap_blocks m < b" "b < num_blocks (dsb m)" "used_bits bv' = insert (nat b) (used_bits bv)"
      "used_blocks (dsb m') = used_blocks (dsb m) + 1"
    show ?thesis using h(1) r unfolding h(6-9) by (intro exI [of _ m] exI [of _ b] exI [of _ bv'] exI [of _ m']) simp
  qed blast
qed

text \<open>
  Claim C26: releasing a block that \<open>myfs_allocate_blocks\<close> handed out gives back the set of used blocks and their
  number, and every block outside the map holds what it held.
\<close>

theorem free_undoes_allocate:
  assumes ok: "fs_ok bs m" and sp: "0 \<le> spare m" and mo: "map_ok bs bv m"
    and al: "myfs_allocate_blocks m h 1 EXACT_ALLOCATION = Some (0, 1, b, m1)"
  shows "\<exists>bv2 m2. myfs_free_blocks m1 b 1 = Some (0, m2) \<and> fs_ok bs m2 \<and> map_ok bs bv2 m2 \<and> used_bits bv2 = used_bits bv \<and>
    used_blocks (dsb m2) = used_blocks (dsb m) \<and>
    (\<forall>c. fs_has m c \<longrightarrow> num_bitmap_blocks m < c \<longrightarrow> fs_blk bs m2 c = fs_blk bs m c)"
proof (cases rule: alloc_block [OF ok sp mo, of h])
  case (1 bv')
  then show ?thesis using al by simp
next
  case (2 b' bv1 m')
  then have e: "b' = b" "m' = m1" using al by simp_all
  note A = 2 [unfolded e]
  note mv = fs_moveD [OF A(5)]
  have ok1: "fs_ok bs m1" by (rule fs_move_ok [OF A(5) ok])
  have b1: "0 \<le> spare m1" "num_bitmap_blocks m1 < b" "b < num_blocks (dsb m1)" using mv sp A(3,4) by simp_all
  obtain bv2 m2 where f: "myfs_free_blocks m1 b 1 = Some (0, m2)" "fs_move bs m1 m2" "map_ok bs bv2 m2"
    "used_bits bv2 = used_bits bv1 - {nat b}" "same_blks bs {1..num_bitmap_blocks m1} m1 m2"
    "dsb m2 = (dsb m1)\<lparr>used_blocks := used_blocks (dsb m1) - 1, sb_flags := MYFS_DIRTY\<rparr>"
    by (rule free_block [OF ok1 b1(1) A(6) b1(2,3)]) (rule that, assumption+)
  have "fs_blk bs m2 c = fs_blk bs m c" if "fs_has m c" "num_bitmap_blocks m < c" for c
    using A(8) f(5) that mv(2,19) by (simp add: same_blks_def)
  moreover have "fs_ok bs m2" by (rule fs_move_ok [OF f(2) ok1])
  ultimately show ?thesis using f A(2,7,10) by (intro exI [of _ bv2] exI [of _ m2]) auto
qed

theorem free_undoes_allocate_witness:
  "\<exists>m b m1 bv2 m2. myfs_create_storage_map demo_fs = Some (0, m) \<and>
    myfs_allocate_blocks m 0 1 EXACT_ALLOCATION = Some (0, 1, b, m1) \<and> used_blocks (dsb m1) = 3 \<and>
    myfs_free_blocks m1 b 1 = Some (0, m2) \<and> map_ok demo_bs bv2 m2 \<and> used_bits bv2 = {..1} \<and> used_blocks (dsb m2) = 2"
proof -
  obtain bv m where h: "myfs_create_storage_map demo_fs = Some (0, m)" "map_ok demo_bs bv m" "fs_ok demo_bs m"
    "spare m = 100 - int NUM_FLUSH_BLOCKS" "used_blocks (dsb m) = 2" "exact_map bv m" "used_bits bv = {..1}"
    "num_blocks (dsb m) = 64" using demo_mapped by metis
  have p: "0 \<le> spare m" using h(4) by (simp add: NUM_FLUSH_BLOCKS_def)
  obtain b m1 where al: "myfs_allocate_blocks m 0 1 EXACT_ALLOCATION = Some (0, 1, b, m1)" "used_blocks (dsb m1) = 3"
  proof (cases rule: alloc_block [OF h(3) p h(2), of 0])
    case (1 bv')
    moreover have "used_bits bv \<noteq> {..<nat (num_blocks (dsb m))}" by (rule not_all_used [of 2]) (simp_all add: h)
    ultimately show thesis using h(6) by blast
  next
    case (2 b bv' m')
    then show thesis using that h(5) by simp
  qed
  from free_undoes_allocate [OF h(3) p h(2) al(1)] obtain bv2 m2 where "myfs_free_blocks m1 b 1 = Some (0, m2)"
    "map_ok demo_bs bv2 m2" "used_bits bv2 = {..1}" "used_blocks (dsb m2) = 2" using h(5,7) by auto
  with h(1) al show ?thesis by blast
qed

text \<open>
  Releasing a run of \<open>n\<close> blocks that one block of the map covers clears all their bits but takes only 1
  from the number of used blocks.
\<close>

theorem free_blocks_undercounts:
  assumes "fs_ok bs m" "0 \<le> spare m" "map_ok bs bv m" "num_bitmap_blocks m < b" "b + n \<le> num_blocks (dsb m)"
    "0 < n" "n < 8 * bsize_of m" "\<forall>x \<in> {b..<b + n}. x div (8 * bsize_of m) = b div (8 * bsize_of m)"
  shows "\<exists>bv' m'. myfs_free_blocks m b n = Some (0, m') \<and> map_ok bs bv' m' \<and>
    used_bits bv' = used_bits bv - {nat b..<nat (b + n)} \<and> used_blocks (dsb m') = used_blocks (dsb m) - 1"
proof -
  obtain bv' m' where "myfs_free_blocks m b n = Some (0, m')" "map_ok bs bv' m'"
    "used_bits bv' = used_bits bv - {nat b..<nat (b + n)}"
    "dsb m' = (dsb m)\<lparr>used_blocks := used_blocks (dsb m) - 1, sb_flags := MYFS_DIRTY\<rparr>"
    by (rule free_run_good [OF assms]) (rule that, assumption+)
  then show ?thesis by (intro exI [of _ bv'] exI [of _ m']) simp
qed

theorem free_blocks_undercounts_witness:
  "\<exists>m m'. myfs_create_storage_map demo_fs = Some (0, m) \<and> myfs_free_blocks m 8 4 = Some (0, m') \<and>
    used_blocks (dsb m') = 1"
proof -
  obtain bv m where h: "myfs_create_storage_map demo_fs = Some (0, m)" "map_ok demo_bs bv m" "fs_ok demo_bs m"
    "spare m = 100 - int NUM_FLUSH_BLOCKS" "used_blocks (dsb m) = 2" "num_bitmap_blocks m = 1" "num_blocks (dsb m) = 64"
    "bsize_of m = 512" using demo_mapped by metis
  have "0 \<le> spare m" using h(4) by (simp add: NUM_FLUSH_BLOCKS_def)
  from free_blocks_undercounts [OF h(3) this h(2), of 8 4] h show ?thesis by auto
qed

end
