(* ===== verification/Inode.thy ===== *)
theory Inode
  imports Block_Bitmap
begin

text \<open>
  \<open>inode.c\<close> and \<open>myfs_read_vnode\<close> of \<open>file.c\<close>: the map of used inodes, the table of inodes on the disk, and
  inodes in memory.  The user and group ids, the time and the address of the part of an inode that is only in
  memory come from outside and are arguments.
\<close>

section \<open>Inodes as bytes\<close>

definition sizeof_inode :: nat where
  "sizeof_inode = 128"

definition inode_bytes :: "myfs_inode \<Rightarrow> byte list" where
  "inode_bytes mi = concat (map (le_bytes 4) [i_magic1 mi, i_uid mi, i_gid mi, i_mode mi]) @
     le_bytes 8 (inode_num mi) @ le_bytes 4 (i_flags mi) @ i_pad mi @ le_bytes 8 (create_time mi) @
     le_bytes 8 (last_modified_time mi) @ le_bytes 8 (etc_ptr mi) @
     concat (map (le_bytes 8) (direct (i_data mi))) @ le_bytes 8 (indirect (i_data mi)) @
     le_bytes 8 (double_indirect (i_data mi)) @ le_bytes 8 (ds_size (i_data mi))"

definition inode_of_bytes :: "byte list \<Rightarrow> myfs_inode" where
  "inode_of_bytes xs = \<lparr>i_magic1 = le_sint (at xs 0 4), i_uid = le_sint (at xs 4 4), i_gid = le_sint (at xs 8 4),
     i_mode = le_sint (at xs 12 4), inode_num = le_sint (at xs 16 8), i_flags = le_sint (at xs 24 4), i_pad = at xs 28 4,
     create_time = le_sint (at xs 32 8), last_modified_time = le_sint (at xs 40 8), etc_ptr = le_sint (at xs 48 8),
     etc = None, i_data = \<lparr>direct = map (\<lambda>i. le_sint (at xs (56 + 8 * i) 8)) [0..<NUM_DIRECT_BLOCKS],
       indirect = le_sint (at xs 104 8), double_indirect = le_sint (at xs 112 8), ds_size = le_sint (at xs 120 8)\<rparr>\<rparr>"

definition inode_typed :: "myfs_inode \<Rightarrow> bool" where
  "inode_typed mi \<longleftrightarrow> list_all (fits_s 4) [i_magic1 mi, i_uid mi, i_gid mi, i_mode mi, i_flags mi] \<and> length (i_pad mi) = 4 \<and>
     list_all (fits_s 8) [inode_num mi, create_time mi, last_modified_time mi, etc_ptr mi, indirect (i_data mi),
       double_indirect (i_data mi), ds_size (i_data mi)] \<and>
     length (direct (i_data mi)) = NUM_DIRECT_BLOCKS \<and> list_all (fits_s 8) (direct (i_data mi))"

section \<open>Consistency check\<close>

definition CHECK_INODE :: "myfs_inode \<Rightarrow> unit option" where
  "CHECK_INODE mi = (if i_magic1 mi \<noteq> INODE_MAGIC1 then myfs_die
     else if etc mi = None then myfs_die
     else if ds_size (i_data mi) < 0 then myfs_die
     else Some ())"

section \<open>Creating and loading the inode map\<close>

text \<open>Zeroing \<open>k\<close> blocks from \<open>b\<close> on; the loop stops at the first block that cannot be written.\<close>

fun zero_blocks :: "nat \<Rightarrow> fs_off_t \<Rightarrow> myfs_info \<Rightarrow> myfs_info option" where
  "zero_blocks 0 b m = Some m"
| "zero_blocks (Suc k) b m = do {
     (amt, m1) \<leftarrow> write_blocks m b (replicate (nat (bsize_of m)) 0) 1;
     if amt \<noteq> 1 then Some m1 else zero_blocks k (b + 1) m1
   }"

definition myfs_create_inodes :: "myfs_info \<Rightarrow> (errno \<times> myfs_info) option" where
  "myfs_create_inodes m = do {
     let bsize = c_int (bsize_of m);
     let ninodes = drop_bit 2 (num_blocks (dsb m));
     let nib = take_bit 64 (ninodes * int sizeof_inode) div bsize;
     let nmb = c_div (c_div nib 8) bsize + 1;
     (e1, nmb, map_start, m1) \<leftarrow> pre_allocate_blocks m nmb;
     if e1 \<noteq> 0 then Some (ENOSPC, m1)
     else do {
       (e2, nib, istart, m2) \<leftarrow> pre_allocate_blocks m1 nib;
       if e2 \<noteq> 0 then Some (ENOSPC, m2)
       else do {
         (block, t) \<leftarrow> get_tmp_blocks (bsize_of m2) 1 (tmp m2);
         a \<leftarrow> block;
         m3 \<leftarrow> zero_blocks (nat nmb) map_start (m2\<lparr>tmp := t\<rparr>);
         m4 \<leftarrow> zero_blocks (nat nib) istart m3;
         t' \<leftarrow> free_tmp_blocks (bsize_of m4) (Some a) 1 (tmp m4);
         let m5 = m4\<lparr>tmp := t', dsb := (dsb m4)\<lparr>num_inodes := ninodes, inodes_start := istart, num_inode_blocks := nib,
                      inode_map_start := map_start, num_inode_map_blocks := nmb\<rparr>\<rparr>;
         if \<not> heap_ok (tmp m5)
         then Some (ENOMEM, m5\<lparr>inode_map := (inode_map m5)\<lparr>bits := [], numbits := c_int ninodes\<rparr>\<rparr>)
         else do {
           let im = (inode_map m5)\<lparr>bits := replicate (nat (nmb * bsize div 4)) 0, numbits := c_int ninodes\<rparr>;
           (_, _, im') \<leftarrow> GetFreeRangeOfBits im 1;
           (_, m6) \<leftarrow> write_blocks (m5\<lparr>inode_map := im'\<rparr>) map_start (chunk_bytes (bits im')) 1;
           Some (0, m6)
         }
       }
     }
   }"

definition myfs_init_inodes :: "myfs_info \<Rightarrow> (errno \<times> myfs_info) option" where
  "myfs_init_inodes m = do {
     let bsize = c_int (bsize_of m);
     let n = num_inode_map_blocks (dsb m);
     let im = (inode_map m)\<lparr>numbits := c_int (num_inodes (dsb m))\<rparr>;
     if \<not> heap_ok (tmp m) then Some (ENOMEM, m\<lparr>inode_map := im\<lparr>bits := []\<rparr>\<rparr>)
     else do {
       (amt, buf, m1) \<leftarrow> read_blocks m (inode_map_start (dsb m)) (replicate (nat (n * bsize)) 0) n;
       let m2 = m1\<lparr>inode_map := im\<lparr>bits := bytes_chunks buf\<rparr>\<rparr>;
       if c_int amt \<noteq> n then Some (EINVAL, m2) else Some (0, m2)
     }
   }"

definition myfs_shutdown_inodes :: "myfs_info \<Rightarrow> myfs_info" where
  "myfs_shutdown_inodes m = m\<lparr>inode_map := (inode_map m)\<lparr>bits := [], numbits := 0\<rparr>\<rparr>"

section \<open>Allocation and release\<close>

text \<open>What comes from outside when an inode is made: ids, time, and the address of its memory-only part.\<close>

record outside =
  o_uid :: int
  o_gid :: int
  o_time :: int
  o_ptr :: int

definition fresh_etc :: "bool \<Rightarrow> myfs_inode_etc option" where
  "fresh_etc mem = do { l \<leftarrow> new_lock mem; Some \<lparr>i_lock = l, contents = None, counter = 0\<rparr> }"

definition myfs_allocate_inode :: "outside \<Rightarrow> int \<Rightarrow> myfs_info \<Rightarrow> (myfs_inode option \<times> myfs_info) option" where
  "myfs_allocate_inode env mode m =
     (if \<not> heap_ok (tmp m) then Some (None, m)
      else do {
        (ia, _, im) \<leftarrow> GetFreeRangeOfBits (inode_map m) 1;
        let m1 = m\<lparr>inode_map := im\<rparr>;
        if ia < 0 then Some (None, m1)
        else do {
          e \<leftarrow> fresh_etc (heap_ok (tmp m1));
          let mi = \<lparr>i_magic1 = INODE_MAGIC1, i_uid = o_uid env, i_gid = o_gid env, i_mode = mode, inode_num = ia, i_flags = 0,
                    i_pad = replicate 4 0, create_time = o_time env, last_modified_time = o_time env,
                    etc_ptr = o_ptr env, etc = Some e,
                    i_data = \<lparr>direct = replicate NUM_DIRECT_BLOCKS 0, indirect = 0, double_indirect = 0, ds_size = 0\<rparr>\<rparr>;
          let bsize = c_int (bsize_of m1);
          let offset = c_int (c_div (c_div ia 8) bsize);
          if offset \<ge> num_inode_map_blocks (dsb m1) then myfs_die
          else do {
            ptr \<leftarrow> bitmap_ptr (bits im) (offset * bsize);
            (_, m2) \<leftarrow> write_blocks m1 (inode_map_start (dsb m1) + offset) ptr 1;
            Some (Some mi, m2)
          }
        }
      })"

definition myfs_free_inode :: "fs_off_t \<Rightarrow> myfs_info \<Rightarrow> (errno \<times> myfs_info) option" where
  "myfs_free_inode ia m = do {
     (_, im) \<leftarrow> UnSetBV (inode_map m) (c_int ia);
     let m1 = m\<lparr>inode_map := im\<rparr>;
     let bsize = c_int (bsize_of m1);
     let offset = c_int (c_div (c_div ia 8) bsize);
     ptr \<leftarrow> bitmap_ptr (bits im) (offset * bsize);
     (_, m2) \<leftarrow> write_blocks m1 (inode_map_start (dsb m1) + offset) ptr 1;
     Some (0, m2)
   }"

section \<open>The inode table\<close>

text \<open>The block and the offset of an inode; \<open>sizeof\<close> makes the arithmetic unsigned.\<close>

definition inode_block :: "myfs_info \<Rightarrow> fs_off_t \<Rightarrow> fs_off_t" where
  "inode_block m ia =
     signed_take_bit 63 (inodes_start (dsb m) + take_bit 64 (ia * int sizeof_inode) div c_int (bsize_of m))"

definition inode_offset :: "myfs_info \<Rightarrow> fs_off_t \<Rightarrow> int" where
  "inode_offset m ia = c_int (take_bit 64 ia mod (c_int (bsize_of m) div int sizeof_inode) * int sizeof_inode)"

definition update_inode :: "myfs_inode \<Rightarrow> myfs_info \<Rightarrow> myfs_info option" where
  "update_inode mi m = do {
     let addr = inode_block m (inode_num mi);
     let offset = inode_offset m (inode_num mi);
     if addr > inodes_start (dsb m) + num_inode_blocks (dsb m) then myfs_die
     else do {
       (block, m1) \<leftarrow> get_blk addr m;
       a \<leftarrow> block;
       if offset < 0 \<or> int (length (peek_blk a m1)) < offset + int sizeof_inode then None
       else do {
         m2 \<leftarrow> dirty_blk addr (poke_blk a (overwrite (peek_blk a m1) (nat offset) (inode_bytes mi)) m1);
         release_blk addr m2
       }
     }
   }"

definition myfs_read_vnode :: "int \<Rightarrow> fs_off_t \<Rightarrow> myfs_info \<Rightarrow> (errno \<times> myfs_inode option \<times> myfs_info) option" where
  "myfs_read_vnode ptr vnid m =
     (if \<not> heap_ok (tmp m) then Some (ENOMEM, None, m)
      else do {
        let addr = inode_block m vnid;
        let offset = inode_offset m vnid;
        (block, m1) \<leftarrow> get_blk addr m;
        case block of
          None \<Rightarrow> Some (EINVAL, None, m1)
        | Some a \<Rightarrow>
            if offset < 0 \<or> int (length (peek_blk a m1)) < offset + int sizeof_inode then None
            else do {
              let mi = inode_of_bytes (at (peek_blk a m1) (nat offset) sizeof_inode);
              m2 \<leftarrow> release_blk addr m1;
              e \<leftarrow> fresh_etc (heap_ok (tmp m2));
              let mi = mi\<lparr>etc_ptr := ptr, etc := Some e\<rparr>;
              _ \<leftarrow> CHECK_INODE mi;
              Some (0, Some mi, m2)
            }
      })"

section \<open>Bytes and inodes\<close>

lemma concat_le8_length: "length (concat (map (le_bytes k) xs)) = k * length xs"
  by (induction xs) simp_all

lemma inode_bytes_length: "inode_typed mi \<Longrightarrow> length (inode_bytes mi) = sizeof_inode"
  by (simp add: inode_bytes_def inode_typed_def sizeof_inode_def concat_le8_length NUM_DIRECT_BLOCKS_def)

text \<open>The in-memory part is not on the disk.\<close>

definition bare :: "myfs_inode \<Rightarrow> myfs_inode" where
  "bare mi = mi\<lparr>etc := None\<rparr>"

lemma inode_round_trip:
  assumes t: "inode_typed mi" shows "inode_of_bytes (inode_bytes mi) = bare mi"
proof -
  obtain ds i di sz where dt: "i_data mi = \<lparr>direct = ds, indirect = i, double_indirect = di, ds_size = sz\<rparr>"
    by (cases "i_data mi")
  then have "length ds = 6" using t by (simp add: inode_typed_def NUM_DIRECT_BLOCKS_def)
  then obtain a b c d e f where ds: "ds = [a, b, c, d, e, f]" by (auto simp: numeral_eq_Suc length_Suc_conv)
  have n: "[0..<NUM_DIRECT_BLOCKS] = [0, 1, 2, 3, 4, 5]" by (simp add: NUM_DIRECT_BLOCKS_def upt_rec)
  show ?thesis
    using t unfolding inode_of_bytes_def inode_bytes_def n dt ds inode_typed_def bare_def
    by (simp add: at_skip at_head at_whole le_sint_fits dt ds)
qed

section \<open>The table\<close>

text \<open>Where an inode is, in plain arithmetic, and the bytes there.\<close>

definition itab_ok :: "myfs_info \<Rightarrow> bool" where
  "itab_ok m \<longleftrightarrow> 0 < inodes_start (dsb m) \<and> 0 \<le> num_inode_blocks (dsb m) \<and>
     inodes_start (dsb m) + num_inode_blocks (dsb m) \<le> num_blocks (dsb m)"

definition in_table :: "myfs_info \<Rightarrow> fs_off_t \<Rightarrow> bool" where
  "in_table m ia \<longleftrightarrow> 0 \<le> ia \<and> ia < num_inode_blocks (dsb m) * (bsize_of m div 128)"

definition inode_at :: "(int \<Rightarrow> int) \<Rightarrow> myfs_info \<Rightarrow> fs_off_t \<Rightarrow> byte list" where
  "inode_at bs m ia = at (fs_blk bs m (inode_block m ia)) (nat (inode_offset m ia)) 128"

lemma fs_ok_inodes: "fs_ok bs m \<Longrightarrow> bsize_of m = 128 * (bsize_of m div 128) \<and> 4 \<le> bsize_of m div 128"
  unfolding fs_ok_def insert_iff by (elim conjE disjE) simp_all

lemma inode_place:
  assumes ok: "fs_ok bs m" and it: "itab_ok m" and ia: "in_table m ia"
  shows "inode_block m ia = inodes_start (dsb m) + ia div (bsize_of m div 128)"
    "inode_offset m ia = ia mod (bsize_of m div 128) * 128" "fs_has m (inode_block m ia)"
    "inode_block m ia < inodes_start (dsb m) + num_inode_blocks (dsb m)"
    "0 \<le> inode_offset m ia" "inode_offset m ia + 128 \<le> bsize_of m"
proof -
  note K = fs_okD [OF ok]
  define k where "k = bsize_of m div 128"
  have k: "bsize_of m = 128 * k" "4 \<le> k" "k \<le> 256" using fs_ok_inodes [OF ok] K(2) by (simp_all add: k_def)
  have ia': "0 \<le> ia" "ia < num_inode_blocks (dsb m) * k" using ia by (simp_all add: in_table_def k_def)
  have nb: "num_inode_blocks (dsb m) < 2 ^ 31" using it K(4) by (simp add: itab_ok_def)
  have "num_inode_blocks (dsb m) * k \<le> num_inode_blocks (dsb m) * 256"
    using k(3) it by (intro mult_left_mono) (simp_all add: itab_ok_def)
  then have big: "ia < 2 ^ 39" using ia'(2) nb by simp
  have t1: "take_bit 64 (ia * 128) = ia * 128" using ia'(1) big by (simp add: take_bit_int_eq_self_iff)
  have t2: "take_bit 64 ia = ia" using ia'(1) big by (simp add: take_bit_int_eq_self_iff)
  have q0: "0 \<le> ia div k" using ia'(1) k(2) by (simp add: pos_imp_zdiv_nonneg_iff)
  have q1: "ia div k < num_inode_blocks (dsb m)"
  proof (rule ccontr)
    assume "\<not> ?thesis"
    then have "num_inode_blocks (dsb m) * k \<le> ia div k * k" using k(2) by (intro mult_right_mono) simp_all
    also have "\<dots> \<le> ia" using k(2) by (simp add: minus_mod_eq_div_mult [symmetric])
    finally show False using ia'(2) by simp
  qed
  have r: "0 \<le> ia mod k" "ia mod k < k" using k(2) by simp_all
  have "ia * 128 div (128 * k) = ia div k" by (simp add: mult.commute)
  then have b0: "inode_block m ia = signed_take_bit 63 (inodes_start (dsb m) + ia div k)"
    using t1 K(9) k(1) by (simp add: inode_block_def sizeof_inode_def)
  have st: "0 < inodes_start (dsb m)" "inodes_start (dsb m) + num_inode_blocks (dsb m) < 2 ^ 31"
    using it K(4) by (simp_all add: itab_ok_def)
  then have b: "inode_block m ia = inodes_start (dsb m) + ia div k" unfolding b0
    using q0 q1 by (intro signed_take_bit_int_eq_self) simp_all
  show "inode_block m ia = inodes_start (dsb m) + ia div (bsize_of m div 128)" using b by (simp add: k_def)
  show bl: "inode_block m ia < inodes_start (dsb m) + num_inode_blocks (dsb m)" using b q1 by simp
  show "fs_has m (inode_block m ia)" using b q0 bl it by (simp add: fs_has_def itab_ok_def)
  have c: "c_int (ia mod k * 128) = ia mod k * 128" by (rule c_int_id) (use r k(3) in simp_all)
  have o: "inode_offset m ia = ia mod k * 128"
    using t2 K(9) c k by (simp add: inode_offset_def sizeof_inode_def)
  then show "inode_offset m ia = ia mod (bsize_of m div 128) * 128" by (simp add: k_def)
  show "0 \<le> inode_offset m ia" "inode_offset m ia + 128 \<le> bsize_of m" using o r k(1) by simp_all
qed

lemma inode_place_cong:
  assumes "dsb m' = dsb m"
  shows "inode_block m' ia = inode_block m ia" "inode_offset m' ia = inode_offset m ia" "in_table m' ia = in_table m ia"
    "itab_ok m' = itab_ok m" "fs_has m' b = fs_has m b"
  using assms by (simp_all add: inode_block_def inode_offset_def in_table_def itab_ok_def fs_has_def)

text \<open>Inodes of one block do not overlap.\<close>

lemma inode_apart:
  assumes ok: "fs_ok bs m" and it: "itab_ok m" and ia: "in_table m ia" "in_table m ib" "ia \<noteq> ib"
    and bl: "inode_block m ia = inode_block m ib"
  shows "inode_offset m ib + 128 \<le> inode_offset m ia \<or> inode_offset m ia + 128 \<le> inode_offset m ib"
proof -
  define k where "k = bsize_of m div 128"
  note A = inode_place [OF ok it ia(1), folded k_def] and B = inode_place [OF ok it ia(2), folded k_def]
  have "ia div k = ib div k" using A(1) B(1) bl by simp
  then have "ia mod k \<noteq> ib mod k" using ia(3) by (metis div_mult_mod_eq)
  then show ?thesis unfolding A(2) B(2) by linarith
qed

lemma update_inode_good:
  assumes ok: "fs_ok bs m" and sp: "0 < spare m" and it: "itab_ok m" and ia: "in_table m (inode_num mi)" and ty: "inode_typed mi"
  obtains m' where "update_inode mi m = Some m'" "fs_step bs m m'" "same_blks bs {inode_block m (inode_num mi)} m m'"
    "inode_at bs m' (inode_num mi) = inode_bytes mi"
    "\<forall>ib. in_table m ib \<longrightarrow> ib \<noteq> inode_num mi \<longrightarrow> inode_at bs m' ib = inode_at bs m ib"
proof -
  note K = fs_okD [OF ok]
  let ?b = "inode_block m (inode_num mi)" and ?o = "nat (inode_offset m (inode_num mi))"
  note P = inode_place [OF ok it ia]
  let ?x = "fs_blk bs m ?b"
  have lx: "length ?x = nat (bsize_of m)" by (rule fs_blk_length [OF ok P(3)])
  have lb: "length (inode_bytes mi) = 128" using inode_bytes_length [OF ty] by (simp add: sizeof_inode_def)
  have fit: "?o + 128 \<le> length ?x" using P(5,6) lx by linarith
  let ?f = "\<lambda>x. overwrite x ?o (inode_bytes mi)"
  have lf: "length (?f ?x) = nat (bsize_of m)" using overwrite_length [of ?o "inode_bytes mi" ?x] fit lb lx by simp
  obtain a m1 m2 m3 where c: "get_blk ?b m = Some (Some a, m1)" "peek_blk a m1 = ?x" "dsb m1 = dsb m"
    "dirty_blk ?b (poke_blk a (?f ?x) m1) = Some m2" "release_blk ?b m2 = Some m3" "fs_step bs m m3"
    "same_blks bs {?b} m m3" "fs_blk bs m3 ?b = ?f ?x"
    by (rule change_blk [OF ok sp P(3), of ?f, OF lf]) (rule that, assumption+)
  have e: "update_inode mi m = Some m3"
    using c(1,2,4,5) P(4,5) fit by (simp add: update_inode_def Let_def sizeof_inode_def)
  have ds: "dsb m3 = dsb m" using fs_stepD(1) [OF c(6)] .
  note C = inode_place_cong [OF ds]
  have own: "inode_at bs m3 (inode_num mi) = inode_bytes mi"
    unfolding inode_at_def C c(8) at_def using overwrite_get [of ?o "inode_bytes mi" ?x] fit lb by simp
  have other: "inode_at bs m3 ib = inode_at bs m ib" if ib: "in_table m ib" "ib \<noteq> inode_num mi" for ib
  proof (cases "inode_block m ib = ?b")
    case True
    note Q = inode_place [OF ok it ib(1)]
    have "nat (inode_offset m ib) + 128 \<le> ?o \<or> ?o + length (inode_bytes mi) \<le> nat (inode_offset m ib)"
      using inode_apart [OF ok it ib(1) ia ib(2) True] P(5) Q(5) lb by linarith
    then show ?thesis unfolding inode_at_def C True c(8) at_def
      using overwrite_other [of ?o "inode_bytes mi" ?x "nat (inode_offset m ib)" 128] fit lb by simp
  next
    case False
    then show ?thesis unfolding inode_at_def C
      using same_blksD [OF c(7) inode_place(3) [OF ok it ib(1)]] by simp
  qed
  show thesis by (rule that [OF e c(6,7) own]) (use other in blast)
qed

lemma read_vnode_good:
  assumes ok: "fs_ok bs m" and sp: "0 < spare m" and it: "itab_ok m" and ia: "in_table m ia" and hp: "heap_ok (tmp m)"
    and l: "\<not> loose bs m (inode_block m ia)" and mi: "inode_of_bytes (inode_at bs m ia) = mi"
    and good: "i_magic1 mi = INODE_MAGIC1" "0 \<le> ds_size (i_data mi)"
  obtains e m' where "myfs_read_vnode ptr ia m = Some (0, Some (mi\<lparr>etc_ptr := ptr, etc := Some e\<rparr>), m')" "fresh_etc True = Some e"
    "fs_step bs m m'" "same_blks bs {} m m'"
proof -
  note P = inode_place [OF ok it ia]
  obtain a m1 m2 where v: "get_blk (inode_block m ia) m = Some (Some a, m1)" "peek_blk a m1 = fs_blk bs m (inode_block m ia)"
    "dsb m1 = dsb m" "release_blk (inode_block m ia) m1 = Some m2" "fs_step bs m m2" "same_blks bs {} m m2"
    by (rule visit_blk [OF ok sp P(3) l])
  have lx: "length (fs_blk bs m (inode_block m ia)) = nat (bsize_of m)" by (rule fs_blk_length [OF ok P(3)])
  obtain e where e: "fresh_etc True = Some e" by (simp add: fresh_etc_def new_lock_def create_sem_def)
  have "heap_ok (tmp m2)" using fs_stepD(8) [OF v(5)] hp by simp
  then have "myfs_read_vnode ptr ia m = Some (0, Some (mi\<lparr>etc_ptr := ptr, etc := Some e\<rparr>), m2)"
    using hp v(1,2,4) P(5,6) lx e good mi
    by (simp add: myfs_read_vnode_def Let_def sizeof_inode_def CHECK_INODE_def inode_at_def)
  then show thesis using e v(5,6) by (rule that)
qed

text \<open>
  Claim C22: an inode that \<open>update_inode\<close> wrote is read back by \<open>myfs_read_vnode\<close> as it was, with a fresh
  memory-only part, and every other inode of the table is as before.
\<close>

theorem inode_write_read:
  assumes "fs_ok bs m" "0 < spare m" "itab_ok m" "heap_ok (tmp m)" "in_table m (inode_num mi)" "inode_typed mi"
    "i_magic1 mi = INODE_MAGIC1" "0 \<le> ds_size (i_data mi)" "\<not> loose bs m (inode_block m (inode_num mi))"
  shows "\<exists>m1 e m2. update_inode mi m = Some m1 \<and>
    myfs_read_vnode ptr (inode_num mi) m1 = Some (0, Some (mi\<lparr>etc_ptr := ptr, etc := Some e\<rparr>), m2) \<and> fs_ok bs m2 \<and>
    (\<forall>ib. in_table m ib \<longrightarrow> ib \<noteq> inode_num mi \<longrightarrow> inode_at bs m2 ib = inode_at bs m ib)"
proof -
  obtain m1 where u: "update_inode mi m = Some m1" "fs_step bs m m1" "inode_at bs m1 (inode_num mi) = inode_bytes mi"
    "\<forall>ib. in_table m ib \<longrightarrow> ib \<noteq> inode_num mi \<longrightarrow> inode_at bs m1 ib = inode_at bs m ib"
    by (rule update_inode_good [OF assms(1-3,5,6)]) (rule that, assumption+)
  note S = fs_stepD [OF u(2)]
  note C = inode_place_cong [OF S(1)]
  have ok1: "fs_ok bs m1" by (rule fs_step_ok [OF u(2) assms(1)])
  have r: "0 < spare m1" "itab_ok m1" "in_table m1 (inode_num mi)" "heap_ok (tmp m1)" "\<not> loose bs m1 (inode_block m1 (inode_num mi))"
    using S assms C by auto
  have mi: "inode_of_bytes (inode_at bs m1 (inode_num mi)) = bare mi" using u(3) inode_round_trip [OF assms(6)] by simp
  have g: "i_magic1 (bare mi) = INODE_MAGIC1" "0 \<le> ds_size (i_data (bare mi))" using assms(7,8) by (simp_all add: bare_def)
  obtain e m2 where v: "myfs_read_vnode ptr (inode_num mi) m1 = Some (0, Some ((bare mi)\<lparr>etc_ptr := ptr, etc := Some e\<rparr>), m2)"
    "fs_step bs m1 m2" "same_blks bs {} m1 m2"
    by (rule read_vnode_good [OF ok1 r mi g]) (rule that, assumption+)
  have "inode_at bs m2 ib = inode_at bs m ib" if "in_table m ib" "ib \<noteq> inode_num mi" for ib
    using u(4) that same_blksD [OF v(3), of "inode_block m ib"] inode_place(3) [OF assms(1,3) that(1)]
    by (simp add: inode_at_def C inode_place_cong [OF fs_stepD(1) [OF v(2)]])
  then show ?thesis using u(1) v(1) fs_step_ok [OF v(2) ok1]
    by (intro exI [of _ m1] exI [of _ e] exI [of _ m2]) (simp add: bare_def)
qed

text \<open>
  For examples: a file system with a table of 16 inodes in the blocks 3 to 6 and its map in block 2, and a file of 600
  bytes in the blocks 10 and 11.
\<close>

definition demo_ifs :: myfs_info where
  "demo_ifs = demo_fs\<lparr>dsb := demo_sb\<lparr>num_inodes := 16, inode_map_start := 2, num_inode_map_blocks := 1, inodes_start := 3,
     num_inode_blocks := 4\<rparr>, inode_map := \<lparr>numbits = 16, next_free = 0, is_full = False, bits = replicate 128 0\<rparr>\<rparr>"

definition demo_file :: myfs_inode where
  "demo_file = \<lparr>i_magic1 = INODE_MAGIC1, i_uid = 0, i_gid = 0, i_mode = 0, inode_num = 5, i_flags = 0, i_pad = replicate 4 0,
     create_time = 0, last_modified_time = 0, etc_ptr = 0, etc = None,
     i_data = \<lparr>direct = [10, 11, 0, 0, 0, 0], indirect = 0, double_indirect = 0, ds_size = 600\<rparr>\<rparr>"

lemma demo_ifs_facts:
  "fs_ok demo_bs demo_ifs" "spare demo_ifs = 100 - int NUM_FLUSH_BLOCKS" "heap_ok (tmp demo_ifs)" "itab_ok demo_ifs"
  "\<not> loose demo_bs demo_ifs b" "bsize_of demo_ifs = 512" "num_blocks (dsb demo_ifs) = 64"
  "fs_blk demo_bs demo_ifs b = fs_blk demo_bs demo_fs b" "in_table demo_ifs ia \<longleftrightarrow> 0 \<le> ia \<and> ia < 16"
  "inodes_start (dsb demo_ifs) = 3"
proof -
  have d: "cache demo_ifs = cache demo_fs" "myfs_fd demo_ifs = myfs_fd demo_fs" "tmp demo_ifs = tmp demo_fs"
    "bsize_of demo_ifs = bsize_of demo_fs" "num_blocks (dsb demo_ifs) = num_blocks (dsb demo_fs)" "read_only demo_ifs = read_only demo_fs"
    by (simp_all add: demo_ifs_def demo_fs_def)
  show "fs_ok demo_bs demo_ifs" using demo_fs_facts(1) unfolding fs_ok_def d .
  show "spare demo_ifs = 100 - int NUM_FLUSH_BLOCKS" "heap_ok (tmp demo_ifs)" "\<not> loose demo_bs demo_ifs b"
    "bsize_of demo_ifs = 512" "num_blocks (dsb demo_ifs) = 64" "fs_blk demo_bs demo_ifs b = fs_blk demo_bs demo_fs b"
    using demo_fs_facts(2,3,5,6,7) by (simp_all add: spare_def loose_def fs_blk_def d)
  show "itab_ok demo_ifs" "inodes_start (dsb demo_ifs) = 3" "in_table demo_ifs ia \<longleftrightarrow> 0 \<le> ia \<and> ia < 16"
    by (simp_all add: itab_ok_def in_table_def demo_ifs_def demo_sb_def)
qed

lemma demo_file_facts:
  "inode_typed demo_file" "i_magic1 demo_file = INODE_MAGIC1" "inode_num demo_file = 5" "ds_size (i_data demo_file) = 600"
  "inode_typed (demo_file\<lparr>last_modified_time := 7\<rparr>)"
  by (simp_all add: demo_file_def inode_typed_def fits_s_def INODE_MAGIC1_def NUM_DIRECT_BLOCKS_def)

theorem inode_write_read_witness:
  "\<exists>m1 e m2. update_inode demo_file demo_ifs = Some m1 \<and>
    myfs_read_vnode 4096 5 m1 = Some (0, Some (demo_file\<lparr>etc_ptr := 4096, etc := Some e\<rparr>), m2)"
proof -
  have "0 < spare demo_ifs" "in_table demo_ifs (inode_num demo_file)" "0 \<le> ds_size (i_data demo_file)"
    by (simp_all add: demo_ifs_facts demo_file_facts NUM_FLUSH_BLOCKS_def)
  with inode_write_read [OF demo_ifs_facts(1) _ demo_ifs_facts(4,3) _ demo_file_facts(1,2) _ demo_ifs_facts(5), of 4096]
  show ?thesis unfolding demo_file_facts(3) by blast
qed

end
