(* ===== verification/Inode_Map.thy ===== *)
theory Inode_Map
  imports Inode Bitmap_Props
begin

text \<open>
  The map of used inodes: allocation and release of an inode keep the map in memory and the map on the disk
  the same, hand out numbers that are free, and an inode that was made can be read again.
\<close>

section \<open>Invariant\<close>

definition imap_ok :: "(int \<Rightarrow> int) \<Rightarrow> myfs_info \<Rightarrow> bool" where
  "imap_ok bs m \<longleftrightarrow> bv_wf (inode_map m) \<and> numbits (inode_map m) = num_inodes (dsb m) \<and> num_inodes (dsb m) < 2 ^ 31 \<and>
     int (4 * length (bits (inode_map m))) = num_inode_map_blocks (dsb m) * bsize_of m \<and> 0 < num_inode_map_blocks (dsb m) \<and>
     0 < inode_map_start (dsb m) \<and> inode_map_start (dsb m) + num_inode_map_blocks (dsb m) \<le> num_blocks (dsb m) \<and>
     (\<forall>j < nat (num_inode_map_blocks (dsb m)).
        fs_blk bs m (inode_map_start (dsb m) + int j) = map_part (nat (bsize_of m)) (bits (inode_map m)) j)"

lemma imap_okD:
  assumes "imap_ok bs m"
  shows "bv_wf (inode_map m)" "numbits (inode_map m) = num_inodes (dsb m)" "num_inodes (dsb m) < 2 ^ 31"
    "int (4 * length (bits (inode_map m))) = num_inode_map_blocks (dsb m) * bsize_of m" "0 < num_inode_map_blocks (dsb m)"
    "0 < inode_map_start (dsb m)" "inode_map_start (dsb m) + num_inode_map_blocks (dsb m) \<le> num_blocks (dsb m)"
    "\<And>j. j < nat (num_inode_map_blocks (dsb m)) \<Longrightarrow>
        fs_blk bs m (inode_map_start (dsb m) + int j) = map_part (nat (bsize_of m)) (bits (inode_map m)) j"
  using assms unfolding imap_ok_def by blast+

definition imap_area :: "myfs_info \<Rightarrow> fs_off_t set" where
  "imap_area m = {inode_map_start (dsb m)..<inode_map_start (dsb m) + num_inode_map_blocks (dsb m)}"

text \<open>The part of the map that holds a bit.\<close>

lemma imap_part_of:
  assumes ok: "fs_ok bs m" and im: "imap_ok bs m" and b: "0 \<le> b" "b < num_inodes (dsb m)"
  defines "j \<equiv> nat b div (8 * nat (bsize_of m))"
  shows "j < nat (num_inode_map_blocks (dsb m))" "c_int (c_div (c_div b 8) (c_int (bsize_of m))) = int j"
proof -
  note K = fs_okD [OF ok] and M = imap_okD [OF im]
  have z: "0 < nat (bsize_of m)" using K(1) by simp
  have "int (32 * length (bits (inode_map m))) = int (nat (num_inode_map_blocks (dsb m)) * (8 * nat (bsize_of m)))"
    using M(4,5) K(1) by simp
  then have eq: "32 * length (bits (inode_map m)) = nat (num_inode_map_blocks (dsb m)) * (8 * nat (bsize_of m))"
    by (simp only: of_nat_eq_iff)
  have "b < int (32 * length (bits (inode_map m)))" using M(1,2) b(2) by (simp add: bv_wf_def)
  then have "nat b < 32 * length (bits (inode_map m))" using b(1) by (simp only: nat_less_iff)
  then show j: "j < nat (num_inode_map_blocks (dsb m))" unfolding eq j_def using z by (simp add: less_mult_imp_div_less)
  have "b div 8 div bsize_of m = b div (8 * bsize_of m)" using K(1) by (simp add: zdiv_zmult2_eq)
  then have d: "c_div (c_div b 8) (c_int (bsize_of m)) = int j"
    using K(1,9) b(1) by (simp add: j_def zdiv_int nat_mult_distrib pos_imp_zdiv_nonneg_iff)
  show "c_int (c_div (c_div b 8) (c_int (bsize_of m))) = int j" unfolding d
    by (rule c_int_id) (use j M(6,7) K(4) in simp_all)
qed

lemma imap_write:
  assumes ok: "fs_ok bs m" and sp: "0 \<le> spare m" and im: "imap_ok bs m"
    and w: "bv_wf im'" "numbits im' = numbits (inode_map m)" "length (bits im') = length (bits (inode_map m))"
    and j: "j < nat (num_inode_map_blocks (dsb m))"
    and diff: "\<And>x. x div (8 * nat (bsize_of m)) \<noteq> j \<Longrightarrow> x \<in> bit_set (bits im') \<longleftrightarrow> x \<in> bit_set (bits (inode_map m))"
  obtains m2 where "bitmap_ptr (bits im') (int j * bsize_of m) = Some (drop (j * nat (bsize_of m)) (chunk_bytes (bits im')))"
    "write_blocks (m\<lparr>inode_map := im'\<rparr>) (inode_map_start (dsb m) + int j) (drop (j * nat (bsize_of m)) (chunk_bytes (bits im'))) 1 =
       Some (1, m2)" "fs_move bs m m2" "imap_ok bs m2" "inode_map m2 = im'" "dsb m2 = dsb m" "bbm_bv m2 = bbm_bv m"
    "same_blks bs (imap_area m) m m2"
proof -
  let ?z = "nat (bsize_of m)" and ?n = "nat (num_inode_map_blocks (dsb m))" and ?s = "inode_map_start (dsb m)"
  note K = fs_okD [OF ok] and M = imap_okD [OF im]
  let ?m1 = "m\<lparr>inode_map := im'\<rparr>"
  have ok1: "fs_ok bs ?m1" "0 \<le> spare ?m1" using ok sp by (simp_all add: fs_ok_def spare_def)
  have "int (4 * length (bits im')) = int (?n * ?z)" using M(4,5) w(3) K(1) by simp
  then have bl: "length (chunk_bytes (bits im')) = ?n * ?z" by (simp only: chunk_bytes_length of_nat_eq_iff)
  have jz: "Suc j * ?z \<le> ?n * ?z" using j by (intro mult_le_mono1) simp
  let ?ptr = "drop (j * ?z) (chunk_bytes (bits im'))"
  have bp: "bitmap_ptr (bits im') (int j * bsize_of m) = Some ?ptr"
  proof -
    have e: "int j * bsize_of m = int (j * ?z)" using K(1) by simp
    have "j * ?z \<le> length (chunk_bytes (bits im'))" unfolding bl using jz by (simp only: mult_Suc)
    then have "int (j * ?z) \<le> int (4 * length (bits im'))" unfolding chunk_bytes_length of_nat_le_iff .
    then have "int (j * ?z) \<le> 4 * int (length (bits im'))" unfolding of_nat_mult of_nat_numeral .
    then show ?thesis unfolding bitmap_ptr_def e nat_int by (simp del: of_nat_mult)
  qed
  have pl: "?z \<le> length ?ptr" using jz unfolding length_drop bl mult_Suc by arith
  have b: "0 < ?s + int j" "?s + int j + int 1 \<le> num_blocks (dsb ?m1)" "0 < (1::nat)"
    "int 1 * bsize_of ?m1 < 2 ^ 31" "1 * nat (bsize_of ?m1) \<le> length ?ptr"
    using j M(6,7) K(2) pl by simp_all
  obtain m2 where m2: "write_blocks ?m1 (?s + int j) ?ptr (int 1) = Some (int 1, m2)" "fs_step bs ?m1 m2"
    "same_blks bs {?s + int j..<?s + int j + int 1} ?m1 m2"
    "\<forall>i < 1. fs_blk bs m2 (?s + int j + int i) = at ?ptr (i * nat (bsize_of ?m1)) (nat (bsize_of ?m1))"
    by (rule write_blocks_good [OF ok1 b])
  note S = fs_stepD [OF m2(2)]
  have mv: "fs_move bs m m2"
    by (rule fs_step_move [where bv = "bbm_bv m" and im = im' and u = "used_blocks (dsb m)" and f = "sb_flags (dsb m)"])
       (use m2(2) in simp)
  have blk: "fs_blk bs m2 b = (if b = ?s + int j then map_part ?z (bits im') j else fs_blk bs m b)" if "fs_has m b" for b
    using m2(3,4) that by (auto simp: same_blks_def fs_has_def fs_blk_def map_part_def at_def)
  have part: "map_part ?z (bits im') i = map_part ?z (bits (inode_map m)) i" if "i \<noteq> j" for i
  proof (rule map_part_eq [OF w(3) fs_ok_quads [OF ok]])
    fix x assume "i * (8 * ?z) \<le> x" "x < Suc i * (8 * ?z)"
    then have "x div (8 * ?z) = i" by (intro div_nat_eqI) (simp_all add: mult.commute)
    then show "x \<in> bit_set (bits im') \<longleftrightarrow> x \<in> bit_set (bits (inode_map m))" using diff that by simp
  qed
  have "fs_blk bs m2 (?s + int i) = map_part ?z (bits im') i" if "i < ?n" for i
    using blk [of "?s + int i"] that M(6-8) part by (auto simp: fs_has_def)
  then have "imap_ok bs m2"
    unfolding imap_ok_def using M w S(1,6) by simp
  moreover have "same_blks bs (imap_area m) m m2"
    using blk j by (auto simp: same_blks_def imap_area_def)
  ultimately show thesis using that [OF bp] m2(1) mv S(1,3,6) by simp
qed

section \<open>Allocation and release\<close>

lemma allocate_inode_good:
  assumes ok: "fs_ok bs m" and sp: "0 \<le> spare m" and im: "imap_ok bs m" and hp: "heap_ok (tmp m)"
  obtains (none) m' where "myfs_allocate_inode env mode m = Some (None, m')" "m' = m \<or> m' = m\<lparr>inode_map := (inode_map m)\<lparr>is_full := True\<rparr>\<rparr>"
  | (made) mi m' where "myfs_allocate_inode env mode m = Some (Some mi, m')" "0 \<le> inode_num mi" "inode_num mi < num_inodes (dsb m)"
      "nat (inode_num mi) \<notin> used_bits (inode_map m)" "used_bits (inode_map m') = insert (nat (inode_num mi)) (used_bits (inode_map m))"
      "fs_move bs m m'" "imap_ok bs m'" "dsb m' = dsb m" "bbm_bv m' = bbm_bv m" "same_blks bs (imap_area m) m m'"
      "i_magic1 mi = INODE_MAGIC1" "i_mode mi = mode" "i_uid mi = o_uid env" "i_gid mi = o_gid env" "create_time mi = o_time env"
      "i_data mi = \<lparr>direct = replicate NUM_DIRECT_BLOCKS 0, indirect = 0, double_indirect = 0, ds_size = 0\<rparr>"
      "i_flags mi = 0" "i_pad mi = replicate 4 0" "last_modified_time mi = o_time env" "etc_ptr mi = o_ptr env" "etc mi = fresh_etc True"
proof -
  note K = fs_okD [OF ok] and M = imap_okD [OF im]
  let ?z = "nat (bsize_of m)"
  show thesis
  proof (cases rule: GetFreeRangeOfBits_cases [OF M(1), of 1])
    case (1 big bv')
    then show thesis using hp
      by (intro none [of "m\<lparr>inode_map := bv'\<rparr>"]) (auto simp: myfs_allocate_inode_def)
  next
    case (2 st bv')
    note wf = range_taken_wf [OF M(1) 2(3) [simplified] 2(4) [simplified]]
    have st: "st < nat (num_inodes (dsb m))" "st \<notin> bit_set (bits (inode_map m))"
      using 2(3) M(2) by (simp_all add: free_run_def)
    then have lt: "int st < num_inodes (dsb m)" by linarith
    let ?j = "st div (8 * ?z)"
    note J = imap_part_of [OF ok im _ lt, simplified]
    have bs': "bit_set (bits bv') = insert st (bit_set (bits (inode_map m)))" "length (bits bv') = length (bits (inode_map m))"
      "numbits bv' = numbits (inode_map m)" using 2(4) by (auto simp: range_taken_def)
    have diff: "x \<in> bit_set (bits bv') \<longleftrightarrow> x \<in> bit_set (bits (inode_map m))" if "x div (8 * ?z) \<noteq> ?j" for x
      using that bs'(1) by auto
    obtain m2 where m2: "bitmap_ptr (bits bv') (int ?j * bsize_of m) = Some (drop (?j * ?z) (chunk_bytes (bits bv')))"
      "write_blocks (m\<lparr>inode_map := bv'\<rparr>) (inode_map_start (dsb m) + int ?j) (drop (?j * ?z) (chunk_bytes (bits bv'))) 1 =
         Some (1, m2)" "fs_move bs m m2" "imap_ok bs m2" "inode_map m2 = bv'" "dsb m2 = dsb m" "bbm_bv m2 = bbm_bv m"
      "same_blks bs (imap_area m) m m2"
      by (rule imap_write [OF ok sp im conjunct1 [OF wf] bs'(3,2) J(1) diff]) (assumption | blast)+
    obtain e where e: "fresh_etc True = Some e" by (simp add: fresh_etc_def new_lock_def create_sem_def)
    have nj: "\<not> num_inode_map_blocks (dsb m) \<le> int ?j" using J(1) by linarith
    let ?mi = "\<lparr>i_magic1 = INODE_MAGIC1, i_uid = o_uid env, i_gid = o_gid env, i_mode = mode, inode_num = int st, i_flags = 0,
       i_pad = replicate 4 0, create_time = o_time env, last_modified_time = o_time env, etc_ptr = o_ptr env, etc = Some e,
       i_data = \<lparr>direct = replicate NUM_DIRECT_BLOCKS 0, indirect = 0, double_indirect = 0, ds_size = 0\<rparr>\<rparr>"
    have "myfs_allocate_inode env mode m = Some (Some ?mi, m2)"
      using hp 2(1) e J(2) nj m2(1,2) K(9) by (simp add: myfs_allocate_inode_def Let_def)
    then show thesis
      by (rule made) (use st lt wf m2 e in \<open>simp_all add: used_bits_def\<close>)
  qed
qed

lemma free_inode_good:
  assumes ok: "fs_ok bs m" and sp: "0 \<le> spare m" and im: "imap_ok bs m" and ia: "0 \<le> ia" "ia < num_inodes (dsb m)"
  obtains m' where "myfs_free_inode ia m = Some (0, m')" "fs_move bs m m'" "imap_ok bs m'"
    "used_bits (inode_map m') = used_bits (inode_map m) - {nat ia}" "dsb m' = dsb m" "bbm_bv m' = bbm_bv m"
    "same_blks bs (imap_area m) m m'"
proof -
  note K = fs_okD [OF ok] and M = imap_okD [OF im]
  let ?z = "nat (bsize_of m)" and ?j = "nat ia div (8 * nat (bsize_of m))"
  have ci: "c_int ia = ia" by (rule c_int_id) (use ia M(3) in simp_all)
  have lt: "ia < numbits (inode_map m)" using ia M(2) by simp
  obtain bv' where u: "UnSetBV (inode_map m) ia = Some (True, bv')" "bv_wf bv'"
    "bit_set (bits bv') = bit_set (bits (inode_map m)) - {nat ia}" "numbits bv' = numbits (inode_map m)"
    by (rule UnSetBV_in_range [OF M(1) ia(1) lt]) (rule that, assumption+)
  have len: "length (bits bv') = length (bits (inode_map m))"
    using u(1) by (auto simp: UnSetBV_def Let_def split: if_splits)
  note J = imap_part_of [OF ok im ia]
  have diff: "x \<in> bit_set (bits bv') \<longleftrightarrow> x \<in> bit_set (bits (inode_map m))" if "x div (8 * ?z) \<noteq> ?j" for x
    using that u(3) by auto
  obtain m2 where m2: "bitmap_ptr (bits bv') (int ?j * bsize_of m) = Some (drop (?j * ?z) (chunk_bytes (bits bv')))"
    "write_blocks (m\<lparr>inode_map := bv'\<rparr>) (inode_map_start (dsb m) + int ?j) (drop (?j * ?z) (chunk_bytes (bits bv'))) 1 =
       Some (1, m2)" "fs_move bs m m2" "imap_ok bs m2" "inode_map m2 = bv'" "dsb m2 = dsb m" "bbm_bv m2 = bbm_bv m"
    "same_blks bs (imap_area m) m m2"
    by (rule imap_write [OF ok sp im u(2,4) len J(1) diff]) (assumption | blast)+
  have "myfs_free_inode ia m = Some (0, m2)" using u(1) ci J(2) m2(1,2) K(9) by (simp add: myfs_free_inode_def Let_def)
  then show thesis
    by (rule that) (use m2 u(3,4) in \<open>auto simp: used_bits_def\<close>)
qed

text \<open>
  Claim C23: \<open>myfs_allocate_inode\<close> makes an empty inode with a number that was free, marks it in the map in memory
  and on the disk, and marks no other; \<open>myfs_free_inode\<close> takes exactly that mark away.
\<close>

theorem inode_allocation:
  assumes ok: "fs_ok bs m" and sp: "0 \<le> spare m" and im: "imap_ok bs m" and hp: "heap_ok (tmp m)"
    and al: "myfs_allocate_inode env mode m = Some (Some mi, m1)"
  shows "nat (inode_num mi) \<notin> used_bits (inode_map m) \<and> inode_num mi < num_inodes (dsb m) \<and> ds_size (i_data mi) = 0 \<and>
    imap_ok bs m1 \<and> used_bits (inode_map m1) = insert (nat (inode_num mi)) (used_bits (inode_map m)) \<and>
    (\<exists>m2. myfs_free_inode (inode_num mi) m1 = Some (0, m2) \<and> imap_ok bs m2 \<and> used_bits (inode_map m2) = used_bits (inode_map m))"
proof (cases rule: allocate_inode_good [OF ok sp im hp, of env mode])
  case (1 m')
  then show ?thesis using al by simp
next
  case (2 mi' m')
  then have e: "mi' = mi" "m' = m1" using al by simp_all
  note A = 2 [unfolded e]
  have ok1: "fs_ok bs m1" by (rule fs_move_ok [OF A(6) ok])
  have p: "0 \<le> spare m1" "inode_num mi < num_inodes (dsb m1)" using fs_moveD(8) [OF A(6)] sp A(3,8) by simp_all
  obtain m2 where f: "myfs_free_inode (inode_num mi) m1 = Some (0, m2)" "imap_ok bs m2"
    "used_bits (inode_map m2) = used_bits (inode_map m1) - {nat (inode_num mi)}"
    by (rule free_inode_good [OF ok1 p(1) A(7) A(2) p(2)]) (rule that, assumption+)
  show ?thesis using A(2-7,16) f by auto
qed

lemma chunk_bytes_zero: "chunk_bytes (replicate n 0) = replicate (4 * n) 0"
  by (induction n) (simp_all add: chunk_bytes_def le_bytes_def numeral_eq_Suc)

lemma demo_imap: "imap_ok demo_bs demo_ifs"
proof -
  have "fs_blk demo_bs demo_ifs 2 = replicate 512 0" by (simp add: demo_ifs_facts demo_fs_facts)
  moreover have "map_part 512 (replicate 128 0) 0 = replicate 512 0" by (simp add: map_part_def at_def chunk_bytes_zero)
  moreover have "bv_wf (inode_map demo_ifs)" by (simp add: bv_wf_def demo_ifs_def)
  ultimately show ?thesis by (simp add: imap_ok_def demo_ifs_facts) (simp add: demo_ifs_def demo_sb_def)
qed

theorem inode_allocation_witness:
  "\<exists>mi m1 m2. myfs_allocate_inode \<lparr>o_uid = 0, o_gid = 0, o_time = 7, o_ptr = 4096\<rparr> 0 demo_ifs = Some (Some mi, m1) \<and>
    used_bits (inode_map m1) = {nat (inode_num mi)} \<and> myfs_free_inode (inode_num mi) m1 = Some (0, m2) \<and>
    used_bits (inode_map m2) = {}"
proof -
  let ?env = "\<lparr>o_uid = 0, o_gid = 0, o_time = 7, o_ptr = 4096\<rparr>"
  have sp: "0 \<le> spare demo_ifs" by (simp add: demo_ifs_facts NUM_FLUSH_BLOCKS_def)
  have im: "inode_map demo_ifs = \<lparr>numbits = int 16, next_free = 0, is_full = False, bits = replicate 128 0\<rparr>" by (simp add: demo_ifs_def)
  obtain bv' where g: "GetFreeRangeOfBits (inode_map demo_ifs) 1 = Some (0, -1, bv')"
    using first_range [of 1 16 128] unfolding im by auto
  have u: "used_bits (inode_map demo_ifs) = {}" by (auto simp: im used_bits_def bit_set_def)
  show ?thesis
  proof (cases rule: allocate_inode_good [OF demo_ifs_facts(1) sp demo_imap demo_ifs_facts(3), of ?env 0])
    case (1 m')
    moreover have "num_inode_map_blocks (dsb demo_ifs) = 1" by (simp add: demo_ifs_def)
    ultimately show ?thesis using g
      by (auto simp: myfs_allocate_inode_def demo_ifs_facts fresh_etc_def new_lock_def create_sem_def Let_def
          split: Option.bind_splits if_splits)
  next
    case (2 mi m1)
    then show ?thesis using inode_allocation [OF demo_ifs_facts(1) sp demo_imap demo_ifs_facts(3) 2(1)] unfolding u by blast
  qed
qed

end
