(* ===== verification/Data_Stream.thy ===== *)
theory Data_Stream
  imports Inode
begin

text \<open>
  \<open>dstream.c\<close>: the bytes of a file in direct, indirect and double-indirect blocks.  An inode is passed and
  returned; \<open>now\<close> is what \<open>time(NULL)\<close> returns.  The data that a read stores into the caller's buffer is
  returned as a list; its length is the value stored through \<open>_len\<close>.
\<close>

section \<open>Ranges\<close>

text \<open>An entry is an \<open>fs_off_t\<close> of 8 bytes.\<close>

definition MAX_DIRECT_RANGE :: "int \<Rightarrow> int" where
  "MAX_DIRECT_RANGE bsize = int NUM_DIRECT_BLOCKS * bsize"

definition INDIRECT_SIZE :: "int \<Rightarrow> int" where
  "INDIRECT_SIZE bsize = bsize div 8 * bsize"

definition MAX_INDIRECT_RANGE :: "int \<Rightarrow> int" where
  "MAX_INDIRECT_RANGE bsize = bsize div 8 * bsize + MAX_DIRECT_RANGE bsize"

definition MAX_DOUBLE_INDIRECT_RANGE :: "int \<Rightarrow> int" where
  "MAX_DOUBLE_INDIRECT_RANGE bsize = bsize div 8 * (bsize div 8 * bsize) + MAX_INDIRECT_RANGE bsize"

text \<open>Entry \<open>i\<close> of a block of addresses.\<close>

definition entry :: "byte list \<Rightarrow> int \<Rightarrow> fs_off_t option" where
  "entry xs i = (if i < 0 \<or> int (length xs) < 8 * i + 8 then None else Some (le_sint (at xs (nat (8 * i)) 8)))"

definition set_entry :: "byte list \<Rightarrow> int \<Rightarrow> fs_off_t \<Rightarrow> byte list option" where
  "set_entry xs i x = (if i < 0 \<or> int (length xs) < 8 * i + 8 then None
     else Some (overwrite xs (nat (8 * i)) (le_bytes 8 x)))"

section \<open>From a position to a block\<close>

definition addr_check :: "myfs_info \<Rightarrow> fs_off_t \<Rightarrow> unit option" where
  "addr_check m addr = (if addr < 0 \<or> addr > num_blocks (dsb m) then myfs_die else Some ())"

text \<open>Reading one entry of a block: \<open>get_block\<close>, the access, \<open>release_block\<close>.\<close>

definition fetch_entry :: "fs_off_t \<Rightarrow> int \<Rightarrow> myfs_info \<Rightarrow> (fs_off_t \<times> myfs_info) option" where
  "fetch_entry b i m = do {
     (block, m1) \<leftarrow> get_blk b m;
     a \<leftarrow> block;
     addr \<leftarrow> entry (peek_blk a m1) i;
     m2 \<leftarrow> release_blk b m1;
     Some (addr, m2)
   }"

text \<open>The address found through a double-indirect block is checked and then forgotten: the result is -1.\<close>

definition file_pos_to_disk_addr :: "myfs_inode \<Rightarrow> fs_off_t \<Rightarrow> myfs_info \<Rightarrow> (fs_off_t \<times> myfs_info) option" where
  "file_pos_to_disk_addr mi pos m =
     (let bsize = c_int (bsize_of m); d = i_data mi in
      if pos < MAX_DIRECT_RANGE bsize then do {
        let index = c_int (c_div pos bsize);
        addr \<leftarrow> (if index < 0 \<or> index \<ge> int (length (direct d)) then None else Some (direct d ! nat index));
        _ \<leftarrow> addr_check m addr;
        Some (addr, m)
      }
      else if pos < MAX_INDIRECT_RANGE bsize then do {
        (addr, m1) \<leftarrow> fetch_entry (indirect d) (c_div (pos - MAX_DIRECT_RANGE bsize) bsize) m;
        _ \<leftarrow> addr_check m1 addr;
        Some (addr, m1)
      }
      else if pos < MAX_DOUBLE_INDIRECT_RANGE bsize then do {
        (tmp, m1) \<leftarrow> fetch_entry (double_indirect d) (c_int (c_div (pos - MAX_INDIRECT_RANGE bsize) (INDIRECT_SIZE bsize))) m;
        (addr, m2) \<leftarrow> fetch_entry tmp (c_div (c_mod (pos - MAX_INDIRECT_RANGE bsize) (INDIRECT_SIZE bsize)) bsize) m1;
        _ \<leftarrow> addr_check m2 addr;
        Some (-1, m2)
      }
      else Some (-1, m))"

section \<open>Reading\<close>

text \<open>The copy out of one block: \<open>amt\<close> bytes from \<open>offset\<close>.  \<open>None\<close> inside stands for \<open>get_block\<close> returning \<open>NULL\<close>.\<close>

definition copy_out :: "fs_off_t \<Rightarrow> nat \<Rightarrow> nat \<Rightarrow> myfs_info \<Rightarrow> (byte list option \<times> myfs_info) option" where
  "copy_out addr offset amt m = do {
     (block, m1) \<leftarrow> get_blk addr m;
     case block of
       None \<Rightarrow> Some (None, m1)
     | Some a \<Rightarrow>
         if length (peek_blk a m1) < offset + amt then None
         else do {
           let xs = at (peek_blk a m1) offset amt;
           m2 \<leftarrow> release_blk addr m1;
           Some (Some xs, m2)
         }
   }"

text \<open>The main loop: \<open>left\<close> bytes to go.  With a block size of 0 it would never end.\<close>

function read_loop :: "int \<Rightarrow> myfs_inode \<Rightarrow> fs_off_t \<Rightarrow> nat \<Rightarrow> byte list \<Rightarrow> myfs_info \<Rightarrow> (errno \<times> byte list \<times> myfs_info) option" where
  "read_loop bsize mi pos left acc m =
     (if left = 0 then Some (0, acc, m)
      else if bsize \<le> 0 then None
      else do {
        (addr, m1) \<leftarrow> file_pos_to_disk_addr mi pos m;
        if addr < 0 then Some (EINVAL, acc, m1)
        else do {
          let amt = (if int left < bsize then left else nat bsize);
          (xs, m2) \<leftarrow> copy_out addr 0 amt m1;
          case xs of
            None \<Rightarrow> Some (EINVAL, acc, m2)
          | Some ys \<Rightarrow> read_loop bsize mi (pos + int amt) (left - amt) (acc @ ys) m2
        }
      })"
  by pat_completeness auto
termination
  by (relation "measure (\<lambda>(bsize, mi, pos, left, acc, m). left)") auto

declare read_loop.simps [simp del]

definition myfs_read_data_stream :: "myfs_inode \<Rightarrow> fs_off_t \<Rightarrow> int \<Rightarrow> myfs_info \<Rightarrow> (errno \<times> byte list \<times> myfs_info) option" where
  "myfs_read_data_stream mi pos len m =
     (let bsize = c_int (bsize_of m); size = ds_size (i_data mi) in
      if len = 0 then Some (0, [], m)
      else let pos = (if pos < 0 then 0 else pos) in
      if pos > size then Some (0, [], m)
      else let len = (if take_bit 64 (pos + len) > take_bit 64 size then take_bit 64 (size - pos) else len) in
      do {
        (addr, m1) \<leftarrow> file_pos_to_disk_addr mi pos m;
        if addr < 0 then Some (EINVAL, [], m1)
        else if c_mod pos bsize \<noteq> 0 then do {
          let offset = c_mod pos bsize;
          let amt = nat (if len < bsize - offset then len else bsize - offset);
          (xs, m2) \<leftarrow> copy_out addr (nat offset) amt m1;
          case xs of
            None \<Rightarrow> Some (EINVAL, [], m2)
          | Some ys \<Rightarrow> read_loop bsize mi (pos + int amt) (nat len - amt) ys m2
        }
        else read_loop bsize mi pos (nat len) [] m1
      })"

section \<open>Growing\<close>

abbreviation upd_data :: "(data_stream \<Rightarrow> data_stream) \<Rightarrow> myfs_inode \<Rightarrow> myfs_inode" where
  "upd_data f mi \<equiv> mi\<lparr>i_data := f (i_data mi)\<rparr>"

text \<open>One block for the file: an error number, or the block.\<close>

definition new_block :: "myfs_inode \<Rightarrow> myfs_info \<Rightarrow> ((errno + fs_off_t) \<times> myfs_info) option" where
  "new_block mi m = do {
     (err, _, addr, m1) \<leftarrow> myfs_allocate_blocks m (inode_num mi) 1 EXACT_ALLOCATION;
     Some (if err \<noteq> 0 then Inl err else if addr < 0 then Inl ENOSPC else Inr addr, m1)
   }"

text \<open>The loop over the direct blocks: \<open>k\<close> blocks are still needed.  It returns the error, if any, and \<open>k\<close>.\<close>

fun grow_direct :: "int \<Rightarrow> nat \<Rightarrow> nat \<Rightarrow> myfs_inode \<Rightarrow> myfs_info \<Rightarrow> (errno option \<times> nat \<times> myfs_inode \<times> myfs_info) option" where
  "grow_direct bsize 0 index mi m = Some (None, 0, mi, m)"
| "grow_direct bsize (Suc k) index mi m =
     (if \<not> index < NUM_DIRECT_BLOCKS then Some (None, Suc k, mi, m)
      else do {
        (r, m1) \<leftarrow> new_block mi m;
        case r of
          Inl err \<Rightarrow> Some (Some err, Suc k, mi, m1)
        | Inr addr \<Rightarrow> grow_direct bsize k (Suc index)
            (upd_data (\<lambda>d. d\<lparr>direct := (direct d)[index := addr], ds_size := ds_size d + bsize\<rparr>) mi) m1
      })"

text \<open>The loop over the entries of the indirect block, which is pinned and accessed at \<open>a\<close>.\<close>

fun grow_indirect :: "int \<Rightarrow> nat \<Rightarrow> int \<Rightarrow> nat \<Rightarrow> myfs_inode \<Rightarrow> myfs_info \<Rightarrow> (errno option \<times> myfs_inode \<times> myfs_info) option" where
  "grow_indirect bsize 0 index a mi m = Some (None, mi, m)"
| "grow_indirect bsize (Suc k) index a mi m =
     (if \<not> index < bsize div 8 then Some (None, mi, m)
      else do {
        (r, m1) \<leftarrow> new_block mi m;
        case r of
          Inl err \<Rightarrow> Some (Some err, mi, m1)
        | Inr addr \<Rightarrow> do {
            xs \<leftarrow> set_entry (peek_blk a m1) index addr;
            grow_indirect bsize k (index + 1) a (upd_data (\<lambda>d. d\<lparr>ds_size := ds_size d + bsize\<rparr>) mi) (poke_blk a xs m1)
          }
      })"

definition get_empty_blk :: "fs_off_t \<Rightarrow> myfs_info \<Rightarrow> (nat option \<times> myfs_info) option" where
  "get_empty_blk b m = do { (p, c) \<leftarrow> get_empty_block (myfs_fd m) b (bsize_of m) (cache m); Some (p, m\<lparr>cache := c\<rparr>) }"

text \<open>The pointer to the indirect block, which is made when the file has none.\<close>

definition indirect_ptr :: "myfs_inode \<Rightarrow> myfs_info \<Rightarrow> ((errno + nat option) \<times> myfs_inode \<times> myfs_info) option" where
  "indirect_ptr mi m =
     (if indirect (i_data mi) = 0 then do {
        (r, m1) \<leftarrow> new_block mi m;
        case r of
          Inl err \<Rightarrow> Some (Inl err, mi, m1)
        | Inr addr \<Rightarrow> do {
            (p, m2) \<leftarrow> get_empty_blk addr m1;
            Some (Inr p, upd_data (\<lambda>d. d\<lparr>indirect := addr\<rparr>) mi, m2)
          }
      }
      else do { (p, m1) \<leftarrow> get_blk (indirect (i_data mi)) m; Some (Inr p, mi, m1) })"

definition grow_into_indirect ::
  "int \<Rightarrow> fs_off_t \<Rightarrow> nat \<Rightarrow> myfs_inode \<Rightarrow> myfs_info \<Rightarrow> (errno \<times> myfs_inode \<times> myfs_info) option" where
  "grow_into_indirect bsize new_size k mi m =
     (if MAX_DIRECT_RANGE bsize \<le> ds_size (i_data mi) \<and> ds_size (i_data mi) < MAX_INDIRECT_RANGE bsize
      then do {
        (r, mi1, m1) \<leftarrow> indirect_ptr mi m;
        case r of
          Inl err \<Rightarrow> Some (err, mi1, m1)
        | Inr p \<Rightarrow> do {
            a \<leftarrow> p;
            let index = c_int (c_div (ds_size (i_data mi1) - MAX_DIRECT_RANGE bsize) bsize);
            (e, mi2, m2) \<leftarrow> grow_indirect bsize k index a mi1 m1;
            case e of
              Some err \<Rightarrow> Some (err, mi2, m2)
            | None \<Rightarrow> do {
                m3 \<leftarrow> dirty_blk (indirect (i_data mi2)) m2;
                m4 \<leftarrow> release_blk (indirect (i_data mi2)) m3;
                if ds_size (i_data mi2) \<ge> new_size
                then Some (0, upd_data (\<lambda>d. d\<lparr>ds_size := new_size\<rparr>) mi2, m4)
                else if ds_size (i_data mi2) \<ge> MAX_INDIRECT_RANGE bsize then Some (E2BIG, mi2, m4)
                else Some (-1, mi2, m4)
              }
          }
      }
      else if ds_size (i_data mi) \<ge> MAX_INDIRECT_RANGE bsize then Some (E2BIG, mi, m)
      else Some (-1, mi, m))"

definition round_up :: "int \<Rightarrow> int \<Rightarrow> int" where
  "round_up bsize x = (x + bsize - 1) AND NOT (bsize - 1)"

definition grow_dstream :: "fs_off_t \<Rightarrow> myfs_inode \<Rightarrow> myfs_info \<Rightarrow> (errno \<times> myfs_inode \<times> myfs_info) option" where
  "grow_dstream new_size mi m =
     (let bsize = c_int (bsize_of m);
          cur = round_up bsize (ds_size (i_data mi)); new = round_up bsize new_size in
      if take_bit 64 new_size > MAX_DOUBLE_INDIRECT_RANGE bsize then Some (E2BIG, mi, m)
      else if cur = new then Some (0, upd_data (\<lambda>d. d\<lparr>ds_size := new_size\<rparr>) mi, m)
      else let k = nat (c_div (new - cur) bsize); mi0 = upd_data (\<lambda>d. d\<lparr>ds_size := cur\<rparr>) mi in
      if cur < MAX_DIRECT_RANGE bsize then do {
        let index = nat (c_int (c_div cur bsize));
        if direct (i_data mi0) ! index \<noteq> 0 then myfs_die
        else do {
          (e, k', mi1, m1) \<leftarrow> grow_direct bsize k index mi0 m;
          case e of
            Some err \<Rightarrow> Some (err, mi1, m1)
          | None \<Rightarrow>
              if ds_size (i_data mi1) \<ge> new_size
              then Some (0, upd_data (\<lambda>d. d\<lparr>ds_size := new_size\<rparr>) mi1, m1)
              else grow_into_indirect bsize new_size k' mi1 m1
        }
      }
      else grow_into_indirect bsize new_size k mi0 m)"

section \<open>Shrinking\<close>

text \<open>Freeing the blocks of the entries \<open>j\<close>, \<open>j + 1\<close>, \<dots> of a block; errors are only reported.\<close>

fun free_entries :: "nat \<Rightarrow> int \<Rightarrow> nat \<Rightarrow> myfs_info \<Rightarrow> myfs_info option" where
  "free_entries 0 j a m = Some m"
| "free_entries (Suc k) j a m = do {
     x \<leftarrow> entry (peek_blk a m) j;
     (_, m1) \<leftarrow> myfs_free_blocks m x 1;
     free_entries k (j + 1) a m1
   }"

text \<open>The outer loop over the double-indirect block, which is accessed at \<open>a\<close>.\<close>

fun shrink_double_loop :: "int \<Rightarrow> nat \<Rightarrow> int \<Rightarrow> int \<Rightarrow> bool \<Rightarrow> nat \<Rightarrow> myfs_info \<Rightarrow> myfs_info option" where
  "shrink_double_loop bsize 0 i j free_block2 a m = Some m"
| "shrink_double_loop bsize (Suc k) i j free_block2 a m = do {
     x \<leftarrow> entry (peek_blk a m) i;
     if x = 0 then Some m
     else do {
       (block2, m1) \<leftarrow> get_blk x m;
       m2 \<leftarrow> (case block2 of
               None \<Rightarrow> Some m1
             | Some a2 \<Rightarrow> do {
                 m' \<leftarrow> free_entries (nat (bsize div 8 - j)) j a2 m1;
                 x' \<leftarrow> entry (peek_blk a m') i;
                 release_blk x' m'
               });
       m3 \<leftarrow> (if free_block2 then do {
                x' \<leftarrow> entry (peek_blk a m2) i;
                (_, m') \<leftarrow> myfs_free_blocks m2 x' 1;
                Some m'
              } else Some m2);
       shrink_double_loop bsize k (i + 1) 0 True a m3
     }
   }"

definition shrink_double_indirect :: "int \<Rightarrow> fs_off_t \<Rightarrow> myfs_inode \<Rightarrow> myfs_info \<Rightarrow> (myfs_inode \<times> myfs_info) option" where
  "shrink_double_indirect bsize new_size_rounded mi m = do {
     let dbl = double_indirect (i_data mi);
     (block, m1) \<leftarrow> get_blk dbl m;
     case block of
       None \<Rightarrow> myfs_die
     | Some a \<Rightarrow> do {
         let (i, j) = (if new_size_rounded < MAX_INDIRECT_RANGE bsize then (0, 0)
                       else (c_div (new_size_rounded - MAX_INDIRECT_RANGE bsize) (INDIRECT_SIZE bsize),
                             c_div (c_mod (new_size_rounded - MAX_INDIRECT_RANGE bsize) (INDIRECT_SIZE bsize)) bsize));
         m2 \<leftarrow> shrink_double_loop bsize (nat (bsize div 8 - i)) i j (j = 0) a m1;
         m3 \<leftarrow> release_blk dbl m2;
         if i = 0 then do {
           (_, m4) \<leftarrow> myfs_free_blocks m3 dbl 1;
           Some (upd_data (\<lambda>d. d\<lparr>double_indirect := 0\<rparr>) mi, m4)
         }
         else Some (mi, m3)
       }
   }"

fun shrink_indirect_loop :: "nat \<Rightarrow> int \<Rightarrow> nat \<Rightarrow> myfs_info \<Rightarrow> myfs_info option" where
  "shrink_indirect_loop 0 i a m = Some m"
| "shrink_indirect_loop (Suc k) i a m = do {
     x \<leftarrow> entry (peek_blk a m) i;
     if x = 0 then Some m
     else do { (_, m1) \<leftarrow> myfs_free_blocks m x 1; shrink_indirect_loop k (i + 1) a m1 }
   }"

definition shrink_indirect :: "int \<Rightarrow> fs_off_t \<Rightarrow> myfs_inode \<Rightarrow> myfs_info \<Rightarrow> (myfs_inode \<times> myfs_info) option" where
  "shrink_indirect bsize new_size_rounded mi m = do {
     let ind = indirect (i_data mi);
     let i = (if new_size_rounded > MAX_DIRECT_RANGE bsize
              then c_div (new_size_rounded - MAX_DIRECT_RANGE bsize) bsize else 0);
     (block, m1) \<leftarrow> get_blk ind m;
     a \<leftarrow> block;
     m2 \<leftarrow> shrink_indirect_loop (nat (bsize div 8 - i)) i a m1;
     m3 \<leftarrow> release_blk ind m2;
     if i = 0 then do {
       (_, m4) \<leftarrow> myfs_free_blocks m3 ind 1;
       Some (upd_data (\<lambda>d. d\<lparr>indirect := 0\<rparr>) mi, m4)
     }
     else Some (mi, m3)
   }"

fun shrink_direct :: "nat \<Rightarrow> nat \<Rightarrow> myfs_inode \<Rightarrow> myfs_info \<Rightarrow> (myfs_inode \<times> myfs_info) option" where
  "shrink_direct 0 i mi m = Some (mi, m)"
| "shrink_direct (Suc k) i mi m =
     (if direct (i_data mi) ! i = 0 then Some (mi, m)
      else do {
        (_, m1) \<leftarrow> myfs_free_blocks m (direct (i_data mi) ! i) 1;
        shrink_direct k (Suc i) (upd_data (\<lambda>d. d\<lparr>direct := (direct d)[i := 0]\<rparr>) mi) m1
      })"

text \<open>The new size is rounded after subtracting one.\<close>

definition shrink_dstream :: "fs_off_t \<Rightarrow> myfs_inode \<Rightarrow> myfs_info \<Rightarrow> (errno \<times> myfs_inode \<times> myfs_info) option" where
  "shrink_dstream new_size mi m =
     (let bsize = c_int (bsize_of m);
          cur = round_up bsize (ds_size (i_data mi)); new = round_up bsize (new_size - 1) in
      if take_bit 64 new_size > MAX_DOUBLE_INDIRECT_RANGE bsize then Some (E2BIG, mi, m)
      else if cur = new then Some (0, upd_data (\<lambda>d. d\<lparr>ds_size := new_size\<rparr>) mi, m)
      else do {
        (mi1, m1) \<leftarrow> (if take_bit 64 new < MAX_DOUBLE_INDIRECT_RANGE bsize \<and> double_indirect (i_data mi) \<noteq> 0
                     then shrink_double_indirect bsize new mi m else Some (mi, m));
        (mi2, m2) \<leftarrow> (if take_bit 64 new < MAX_INDIRECT_RANGE bsize \<and> indirect (i_data mi1) \<noteq> 0
                     then shrink_indirect bsize new mi1 m1 else Some (mi1, m1));
        (mi3, m3) \<leftarrow> (if new < MAX_DIRECT_RANGE bsize
                     then (let i = c_div new bsize in
                           if i < 0 then None else shrink_direct (NUM_DIRECT_BLOCKS - nat i) (nat i) mi2 m2)
                     else Some (mi2, m2));
        Some (0, upd_data (\<lambda>d. d\<lparr>ds_size := new_size\<rparr>) mi3, m3)
      })"

section \<open>Writing\<close>

definition copy_in :: "fs_off_t \<Rightarrow> nat \<Rightarrow> byte list \<Rightarrow> myfs_info \<Rightarrow> (bool \<times> myfs_info) option" where
  "copy_in addr offset xs m = do {
     (block, m1) \<leftarrow> get_blk addr m;
     case block of
       None \<Rightarrow> Some (False, m1)
     | Some a \<Rightarrow>
         if length (peek_blk a m1) < offset + length xs then None
         else do {
           m2 \<leftarrow> dirty_blk addr (poke_blk a (overwrite (peek_blk a m1) offset xs) m1);
           m3 \<leftarrow> release_blk addr m2;
           Some (True, m3)
         }
   }"

text \<open>The main loop: \<open>buf\<close> is what is still to be written, \<open>dn\<close> the number of bytes done.\<close>

function write_loop :: "int \<Rightarrow> myfs_inode \<Rightarrow> fs_off_t \<Rightarrow> byte list \<Rightarrow> nat \<Rightarrow> myfs_info \<Rightarrow> (errno \<times> nat \<times> myfs_info) option" where
  "write_loop bsize mi pos buf dn m =
     (if buf = [] then Some (0, dn, m)
      else if bsize \<le> 0 then None
      else do {
        (addr, m1) \<leftarrow> file_pos_to_disk_addr mi pos m;
        if addr < 0 then Some (EINVAL, dn, m1)
        else do {
          let amt = (if int (length buf) < bsize then length buf else nat bsize);
          (ok, m2) \<leftarrow> copy_in addr 0 (take amt buf) m1;
          if \<not> ok then Some (EINVAL, dn, m2)
          else write_loop bsize mi (pos + int amt) (drop amt buf) (dn + amt) m2
        }
      })"
  by pat_completeness auto
termination
  by (relation "measure (\<lambda>(bsize, mi, pos, buf, dn, m). length buf)") auto

declare write_loop.simps [simp del]

text \<open>The first, partial block and then the loop.\<close>

definition write_blocks_at :: "int \<Rightarrow> myfs_inode \<Rightarrow> fs_off_t \<Rightarrow> byte list \<Rightarrow> myfs_info \<Rightarrow> (errno \<times> nat \<times> myfs_info) option" where
  "write_blocks_at bsize mi pos buf m = do {
     (addr, m1) \<leftarrow> file_pos_to_disk_addr mi pos m;
     if addr < 0 then Some (EINVAL, 0, m1)
     else if c_mod pos bsize \<noteq> 0 then do {
       let offset = c_mod pos bsize;
       let amt = nat (if int (length buf) < bsize - offset then int (length buf) else bsize - offset);
       (ok, m2) \<leftarrow> copy_in addr (nat offset) (take amt buf) m1;
       if \<not> ok then Some (EINVAL, 0, m2)
       else write_loop bsize mi (pos + int amt) (drop amt buf) amt m2
     }
     else write_loop bsize mi pos buf 0 m1
   }"

text \<open>The result: error, the value of \<open>_len\<close>, the inode and the file system.  A failed \<open>grow_dstream\<close> leaves \<open>_len\<close>.\<close>

definition myfs_write_data_stream ::
  "int \<Rightarrow> myfs_inode \<Rightarrow> fs_off_t \<Rightarrow> byte list \<Rightarrow> myfs_info \<Rightarrow> (errno \<times> nat \<times> myfs_inode \<times> myfs_info) option" where
  "myfs_write_data_stream now mi pos buf m =
     (let bsize = c_int (bsize_of m); len = length buf in
      if len = 0 then Some (0, 0, mi, m)
      else let pos = (if pos < 0 then 0 else pos) in
      do {
        (err, mi1, m1) \<leftarrow>
          (if take_bit 64 (pos + int len) > take_bit 64 (ds_size (i_data mi)) then do {
             (err, mi1, m1) \<leftarrow> grow_dstream (pos + int len) mi m;
             if err \<noteq> 0 then Some (err, mi1, m1)
             else do {
               let mi2 = mi1\<lparr>last_modified_time := now\<rparr>;
               m2 \<leftarrow> update_inode mi2 m1;
               (_, m3) \<leftarrow> write_super_block m2;
               Some (0, mi2, m3)
             }
           }
           else Some (0, mi, m));
        if err \<noteq> 0 then Some (err, len, mi1, m1)
        else do {
          (e, dn, m2) \<leftarrow> write_blocks_at bsize mi1 pos buf m1;
          if e \<noteq> 0 then Some (e, dn, mi1, m2)
          else do {
            let mi2 = mi1\<lparr>last_modified_time := now\<rparr>;
            m3 \<leftarrow> update_inode mi2 m2;
            Some (0, dn, mi2, m3)
          }
        }
      })"

definition myfs_set_file_size :: "int \<Rightarrow> fs_off_t \<Rightarrow> myfs_inode \<Rightarrow> myfs_info \<Rightarrow> (errno \<times> myfs_inode \<times> myfs_info) option" where
  "myfs_set_file_size now new_size mi m =
     (if new_size = ds_size (i_data mi) then Some (0, mi, m)
      else do {
        (err, mi1, m1) \<leftarrow> (if new_size < ds_size (i_data mi) then shrink_dstream new_size mi m
                          else grow_dstream new_size mi m);
        if err \<noteq> 0 then Some (err, mi1, m1)
        else do {
          let mi2 = mi1\<lparr>last_modified_time := now\<rparr>;
          m2 \<leftarrow> update_inode mi2 m1;
          (_, m3) \<leftarrow> write_super_block m2;
          Some (0, mi2, m3)
        }
      })"

definition myfs_free_data_stream :: "myfs_inode \<Rightarrow> myfs_info \<Rightarrow> (errno \<times> myfs_inode \<times> myfs_info) option" where
  "myfs_free_data_stream mi m = do {
     (_, mi1, m1) \<leftarrow> shrink_dstream 0 mi m;
     (_, m2) \<leftarrow> write_super_block m1;
     Some (0, mi1, m2)
   }"

end
