(* ===== verification/Stream_Read.thy ===== *)
theory Stream_Read
  imports Data_Stream
begin

text \<open>
  What a file holds, and that \<open>myfs_read_data_stream\<close> returns it.
\<close>

section \<open>The blocks of a file\<close>

definition nth_block :: "(int \<Rightarrow> int) \<Rightarrow> myfs_info \<Rightarrow> myfs_inode \<Rightarrow> nat \<Rightarrow> fs_off_t" where
  "nth_block bs m mi i = (if i < NUM_DIRECT_BLOCKS then direct (i_data mi) ! i
     else le_sint (at (fs_blk bs m (indirect (i_data mi))) (8 * (i - NUM_DIRECT_BLOCKS)) 8))"

definition nblks :: "myfs_info \<Rightarrow> myfs_inode \<Rightarrow> nat" where
  "nblks m mi = nat ((ds_size (i_data mi) + bsize_of m - 1) div bsize_of m)"

text \<open>A file of at most the direct and indirect range whose blocks can all be visited.\<close>

definition usable :: "(int \<Rightarrow> int) \<Rightarrow> myfs_info \<Rightarrow> fs_off_t \<Rightarrow> bool" where
  "usable bs m b \<longleftrightarrow> fs_has m b \<and> \<not> loose bs m b"

definition stream_ok :: "(int \<Rightarrow> int) \<Rightarrow> myfs_info \<Rightarrow> myfs_inode \<Rightarrow> bool" where
  "stream_ok bs m mi \<longleftrightarrow> length (direct (i_data mi)) = NUM_DIRECT_BLOCKS \<and> 0 \<le> ds_size (i_data mi) \<and>
     ds_size (i_data mi) \<le> MAX_INDIRECT_RANGE (bsize_of m) \<and>
     (\<forall>i < nblks m mi. usable bs m (nth_block bs m mi i)) \<and>
     (MAX_DIRECT_RANGE (bsize_of m) < ds_size (i_data mi) \<longrightarrow> usable bs m (indirect (i_data mi)))"

definition file_data :: "(int \<Rightarrow> int) \<Rightarrow> myfs_info \<Rightarrow> myfs_inode \<Rightarrow> byte list" where
  "file_data bs m mi = concat (map (\<lambda>i. fs_blk bs m (nth_block bs m mi i)) [0..<nblks m mi])"

definition file_bytes :: "(int \<Rightarrow> int) \<Rightarrow> myfs_info \<Rightarrow> myfs_inode \<Rightarrow> byte list" where
  "file_bytes bs m mi = take (nat (ds_size (i_data mi))) (file_data bs m mi)"

lemma at_concat:
  assumes "\<forall>x \<in> set xs. length x = z" "i < length xs" "p + n \<le> z"
  shows "at (concat xs) (i * z + p) n = at (xs ! i) p n"
  using assms
proof (induction xs arbitrary: i)
  case (Cons x xs)
  show ?case
  proof (cases i)
    case 0
    then show ?thesis using Cons.prems by (simp add: at_def)
  next
    case (Suc k)
    have "at (concat (x # xs)) (i * z + p) n = at (concat xs) (k * z + p) n"
      using Cons.prems(1) Suc by (simp add: at_def add.assoc)
    also have "\<dots> = at (xs ! k) p n" using Cons.prems Suc by (intro Cons.IH) auto
    finally show ?thesis using Suc by simp
  qed
qed simp

lemma at_split: "at xs p (a + b) = at xs p a @ at xs (p + a) b"
  by (simp add: at_def take_add add.commute)

lemma at_length: "p + n \<le> length xs \<Longrightarrow> length (at xs p n) = n"
  by (simp add: at_def)

lemma at_take: "p + n \<le> k \<Longrightarrow> at (take k xs) p n = at xs p n"
  by (simp add: at_def drop_take min_def)

text \<open>The block that holds a position of the file.\<close>

lemma pos_block:
  assumes "fs_ok bs m" "0 \<le> pos" "pos < ds_size (i_data mi)"
  shows "nat (pos div bsize_of m) < nblks m mi" "pos = int (nat (pos div bsize_of m)) * bsize_of m + pos mod bsize_of m"
proof -
  have z: "0 < bsize_of m" using fs_okD(1) [OF assms(1)] by simp
  have q: "0 \<le> pos div bsize_of m" using assms(2) z by (simp add: pos_imp_zdiv_nonneg_iff)
  have "pos div bsize_of m + 1 = (pos + bsize_of m) div bsize_of m" using z div_add_self2 [of "bsize_of m" pos] by simp
  also have "\<dots> \<le> (ds_size (i_data mi) + bsize_of m - 1) div bsize_of m" by (rule zdiv_mono1) (use assms(3) z in simp_all)
  finally show "nat (pos div bsize_of m) < nblks m mi" using q by (simp add: nblks_def)
  show "pos = int (nat (pos div bsize_of m)) * bsize_of m + pos mod bsize_of m" using q by simp
qed

lemma file_blocks_length:
  assumes "fs_ok bs m" "stream_ok bs m mi"
  shows "\<forall>x \<in> set (map (\<lambda>i. fs_blk bs m (nth_block bs m mi i)) [0..<nblks m mi]). length x = nat (bsize_of m)"
    "length (file_data bs m mi) = nblks m mi * nat (bsize_of m)"
    "nat (ds_size (i_data mi)) \<le> length (file_data bs m mi)"
proof -
  show l: "\<forall>x \<in> set (map (\<lambda>i. fs_blk bs m (nth_block bs m mi i)) [0..<nblks m mi]). length x = nat (bsize_of m)"
    using assms fs_blk_length [OF assms(1)] by (auto simp: stream_ok_def usable_def)
  then show e: "length (file_data bs m mi) = nblks m mi * nat (bsize_of m)"
    unfolding file_data_def using length_concat_const [OF l] by simp
  have z: "0 < bsize_of m" "0 \<le> ds_size (i_data mi)" using fs_okD(1) [OF assms(1)] assms(2) by (simp_all add: stream_ok_def)
  then have "0 \<le> (ds_size (i_data mi) + bsize_of m - 1) div bsize_of m" by (simp add: pos_imp_zdiv_nonneg_iff)
  then have "ds_size (i_data mi) \<le> int (nblks m mi * nat (bsize_of m))"
    using ceil_div(1) [OF z(1), of "ds_size (i_data mi)"] z by (simp add: nblks_def)
  then show "nat (ds_size (i_data mi)) \<le> length (file_data bs m mi)" unfolding e by linarith
qed

lemma file_data_at:
  assumes "fs_ok bs m" "stream_ok bs m mi" "i < nblks m mi" "p + n \<le> nat (bsize_of m)"
  shows "at (file_data bs m mi) (i * nat (bsize_of m) + p) n = at (fs_blk bs m (nth_block bs m mi i)) p n"
  unfolding file_data_def using at_concat [OF file_blocks_length(1) [OF assms(1,2)], of i p n] assms(3,4) by simp

section \<open>Files whose blocks are apart\<close>

definition stream_blocks :: "(int \<Rightarrow> int) \<Rightarrow> myfs_info \<Rightarrow> myfs_inode \<Rightarrow> fs_off_t list" where
  "stream_blocks bs m mi = map (nth_block bs m mi) [0..<nblks m mi]"

definition stream_apart :: "(int \<Rightarrow> int) \<Rightarrow> myfs_info \<Rightarrow> myfs_inode \<Rightarrow> bool" where
  "stream_apart bs m mi \<longleftrightarrow> distinct (stream_blocks bs m mi) \<and>
     (MAX_DIRECT_RANGE (bsize_of m) < ds_size (i_data mi) \<longrightarrow> indirect (i_data mi) \<notin> set (stream_blocks bs m mi))"

text \<open>Beyond the direct range the indirect block is in use.\<close>

lemma indirect_used:
  assumes "0 < bsize_of m" "i < nblks m mi" "\<not> i < NUM_DIRECT_BLOCKS"
  shows "MAX_DIRECT_RANGE (bsize_of m) < ds_size (i_data mi)"
proof (rule ccontr)
  assume "\<not> ?thesis"
  then have "(ds_size (i_data mi) + bsize_of m - 1) div bsize_of m \<le>
      (int NUM_DIRECT_BLOCKS * bsize_of m + (bsize_of m - 1)) div bsize_of m"
    using assms(1) by (intro zdiv_mono1) (simp_all add: MAX_DIRECT_RANGE_def)
  also have "\<dots> = int NUM_DIRECT_BLOCKS" using assms(1) by simp
  finally have "nblks m mi \<le> NUM_DIRECT_BLOCKS" by (simp add: nblks_def)
  then show False using assms(2,3) by linarith
qed

text \<open>A step that changes blocks outside a file's own map keeps the list of its blocks.\<close>

lemma stream_move:
  assumes ok: "fs_ok bs m" and st: "fs_move bs m m'" and sb: "same_blks bs A m m'" and so: "stream_ok bs m mi"
    and ind: "MAX_DIRECT_RANGE (bsize_of m) < ds_size (i_data mi) \<longrightarrow> indirect (i_data mi) \<notin> A"
  shows "stream_ok bs m' mi" "\<And>i. i < nblks m mi \<Longrightarrow> nth_block bs m' mi i = nth_block bs m mi i"
    "stream_blocks bs m' mi = stream_blocks bs m mi" "nblks m' mi = nblks m mi" "stream_apart bs m mi \<Longrightarrow> stream_apart bs m' mi"
    "\<And>b. usable bs m b \<Longrightarrow> usable bs m' b"
proof -
  note S = fs_moveD [OF st]
  have z: "0 < bsize_of m" using fs_okD(1) [OF ok] by simp
  show us: "usable bs m' b" if "usable bs m b" for b using that S(9,19) by (auto simp: usable_def)
  show nn: "nblks m' mi = nblks m mi" using S(11) by (simp add: nblks_def)
  show nb: "nth_block bs m' mi i = nth_block bs m mi i" if i: "i < nblks m mi" for i
  proof (cases "i < NUM_DIRECT_BLOCKS")
    case False
    note u = indirect_used [OF z i False]
    have "fs_has m (indirect (i_data mi))" using u so by (simp add: stream_ok_def usable_def)
    then show ?thesis using same_blksD [OF sb _ ind [rule_format, OF u]] by (simp add: nth_block_def)
  qed (simp add: nth_block_def)
  show "stream_ok bs m' mi" using so us nb nn S(11) by (simp add: stream_ok_def)
  show sl: "stream_blocks bs m' mi = stream_blocks bs m mi" unfolding stream_blocks_def nn using nb by simp
  show "stream_apart bs m' mi" if "stream_apart bs m mi" using that S(11) by (simp add: stream_apart_def sl)
qed

text \<open>Steps that change no block of a file keep it.\<close>

lemma stream_data_keep:
  assumes ok: "fs_ok bs m" and st: "fs_move bs m m'" and sb: "same_blks bs A m m'" and so: "stream_ok bs m mi"
    and ind: "MAX_DIRECT_RANGE (bsize_of m) < ds_size (i_data mi) \<longrightarrow> indirect (i_data mi) \<notin> A"
    and dj: "set (stream_blocks bs m mi) \<inter> A = {}"
  shows "file_data bs m' mi = file_data bs m mi"
proof -
  note M = stream_move [OF ok st sb so ind]
  have "fs_blk bs m' (nth_block bs m mi i) = fs_blk bs m (nth_block bs m mi i)" if "i < nblks m mi" for i
  proof (rule same_blksD [OF sb])
    show "fs_has m (nth_block bs m mi i)" using that so by (simp add: stream_ok_def usable_def)
    have "nth_block bs m mi i \<in> set (stream_blocks bs m mi)" using that by (simp add: stream_blocks_def)
    then show "nth_block bs m mi i \<notin> A" using dj by blast
  qed
  then show ?thesis unfolding file_data_def M(4) using M(2)
    by (intro arg_cong [where f = concat] map_cong refl) simp
qed

lemma stream_keep:
  assumes ok: "fs_ok bs m" and st: "fs_step bs m m'" and sb: "same_blks bs {} m m'" and so: "stream_ok bs m mi"
  shows "stream_ok bs m' mi" "file_data bs m' mi = file_data bs m mi" "file_bytes bs m' mi = file_bytes bs m mi"
    "\<And>i. i < nblks m mi \<Longrightarrow> nth_block bs m' mi i = nth_block bs m mi i" "nblks m' mi = nblks m mi"
    "\<And>b. usable bs m b \<Longrightarrow> usable bs m' b"
proof -
  have ind: "MAX_DIRECT_RANGE (bsize_of m) < ds_size (i_data mi) \<longrightarrow> indirect (i_data mi) \<notin> {}" by simp
  note M = stream_move [OF ok fs_step_is_move [OF st] sb so ind]
  show "stream_ok bs m' mi" "\<And>i. i < nblks m mi \<Longrightarrow> nth_block bs m' mi i = nth_block bs m mi i" "nblks m' mi = nblks m mi"
    "\<And>b. usable bs m b \<Longrightarrow> usable bs m' b" by (rule M, assumption?)+
  show fd: "file_data bs m' mi = file_data bs m mi" by (rule stream_data_keep [OF ok fs_step_is_move [OF st] sb so ind]) simp
  then show "file_bytes bs m' mi = file_bytes bs m mi" by (simp add: file_bytes_def)
qed

section \<open>Positions, copies and the loop\<close>

lemma zdiv_less_iff:
  fixes x z n :: int assumes z: "0 < z"
  shows "x div z < n \<longleftrightarrow> x < n * z"
proof
  assume "x div z < n"
  then have "(x div z + 1) * z \<le> n * z" using z by (intro mult_right_mono) simp_all
  moreover have "x < (x div z + 1) * z"
    unfolding distrib_right mult_1 using pos_mod_bound [OF z, of x] div_mult_mod_eq [of x z] by linarith
  ultimately show "x < n * z" by simp
next
  assume x: "x < n * z"
  show "x div z < n"
  proof (rule ccontr)
    assume "\<not> ?thesis"
    then have "n * z \<le> x div z * z" using z by (intro mult_right_mono) simp_all
    also have "\<dots> \<le> x" using pos_mod_sign [OF z, of x] div_mult_mod_eq [of x z] by linarith
    finally show False using x by simp
  qed
qed

lemma entry_good: "fs_ok bs m \<Longrightarrow> fs_has m b \<Longrightarrow> 0 \<le> i \<Longrightarrow> i < bsize_of m div 8 \<Longrightarrow>
    entry (fs_blk bs m b) i = Some (le_sint (at (fs_blk bs m b) (8 * nat i) 8))"
  using fs_blk_length [of bs m b] fs_okD(1) [of bs m] by (simp add: entry_def nat_mult_distrib)

lemma fetch_entry_good:
  assumes ok: "fs_ok bs m" and sp: "0 < spare m" and u: "usable bs m b" and i: "0 \<le> i" "i < bsize_of m div 8"
  obtains m' where "fetch_entry b i m = Some (le_sint (at (fs_blk bs m b) (8 * nat i) 8), m')" "fs_step bs m m'" "same_blks bs {} m m'"
proof -
  obtain a m1 m2 where v: "get_blk b m = Some (Some a, m1)" "peek_blk a m1 = fs_blk bs m b" "dsb m1 = dsb m"
    "release_blk b m1 = Some m2" "fs_step bs m m2" "same_blks bs {} m m2"
    by (rule visit_blk [OF ok sp]) (use u in \<open>auto simp: usable_def\<close>)
  then show thesis using that [of m2] entry_good [OF ok _ i, of b] u by (simp add: fetch_entry_def usable_def)
qed

lemma pos_to_addr_good:
  assumes ok: "fs_ok bs m" and sp: "0 < spare m" and so: "stream_ok bs m mi" and pos: "0 \<le> pos" "pos < ds_size (i_data mi)"
  obtains m' where "file_pos_to_disk_addr mi pos m = Some (nth_block bs m mi (nat (pos div bsize_of m)), m')"
    "fs_step bs m m'" "same_blks bs {} m m'"
proof -
  note K = fs_okD [OF ok]
  let ?z = "bsize_of m" and ?i = "nat (pos div bsize_of m)"
  have z: "0 < ?z" using K(1) by simp
  note P = pos_block [OF ok pos]
  have us: "usable bs m (nth_block bs m mi ?i)" using so P(1) by (simp add: stream_ok_def)
  then have ck: "0 \<le> nth_block bs m mi ?i" "nth_block bs m mi ?i \<le> num_blocks (dsb m)" by (simp_all add: usable_def fs_has_def)
  have q: "0 \<le> pos div ?z" using pos(1) z by (simp add: pos_imp_zdiv_nonneg_iff)
  show thesis
  proof (cases "pos < MAX_DIRECT_RANGE ?z")
    case True
    then have i: "pos div ?z < int NUM_DIRECT_BLOCKS" using zdiv_less_iff [OF z] by (simp add: MAX_DIRECT_RANGE_def)
    have ci: "c_int (pos div ?z) = pos div ?z" by (rule c_int_id) (use q i in \<open>simp_all add: NUM_DIRECT_BLOCKS_def\<close>)
    have "length (direct (i_data mi)) = NUM_DIRECT_BLOCKS" using so by (simp add: stream_ok_def)
    moreover have "nth_block bs m mi ?i = direct (i_data mi) ! ?i" using i q by (simp add: nth_block_def nat_less_iff)
    ultimately have "file_pos_to_disk_addr mi pos m = Some (nth_block bs m mi ?i, m)"
      using True K(9) pos(1) z i q ci ck by (simp add: file_pos_to_disk_addr_def addr_check_def)
    then show thesis by (rule that) (simp_all add: fs_step_refl [OF ok] same_blks_def)
  next
    case False
    let ?j = "(pos - MAX_DIRECT_RANGE ?z) div ?z"
    have "pos div ?z = (pos - MAX_DIRECT_RANGE ?z + int NUM_DIRECT_BLOCKS * ?z) div ?z" by (simp add: MAX_DIRECT_RANGE_def)
    also have "\<dots> = int NUM_DIRECT_BLOCKS + ?j" using z by (intro div_mult_self1) simp
    finally have j: "?j = pos div ?z - int NUM_DIRECT_BLOCKS" by simp
    have d0: "0 \<le> pos - MAX_DIRECT_RANGE ?z" using False by simp
    then have j0: "0 \<le> ?j" using z by (simp add: pos_imp_zdiv_nonneg_iff)
    have sz: "MAX_DIRECT_RANGE ?z < ds_size (i_data mi)" "pos < MAX_INDIRECT_RANGE ?z"
      using False pos(2) so by (simp_all add: stream_ok_def)
    have j1: "?j < ?z div 8" using zdiv_less_iff [OF z] sz(2) by (simp add: MAX_INDIRECT_RANGE_def)
    have ind: "usable bs m (indirect (i_data mi))" using so sz(1) by (simp add: stream_ok_def)
    obtain m' where f: "fetch_entry (indirect (i_data mi)) ?j m =
        Some (le_sint (at (fs_blk bs m (indirect (i_data mi))) (8 * nat ?j) 8), m')" "fs_step bs m m'" "same_blks bs {} m m'"
      by (rule fetch_entry_good [OF ok sp ind j0 j1])
    have "nat ?j = ?i - NUM_DIRECT_BLOCKS" "NUM_DIRECT_BLOCKS \<le> ?i" using j j0 by linarith+
    then have nb: "nth_block bs m mi ?i = le_sint (at (fs_blk bs m (indirect (i_data mi))) (8 * nat ?j) 8)" by (simp add: nth_block_def)
    have cd: "c_div (pos - MAX_DIRECT_RANGE ?z) ?z = ?j" by (rule c_div_id [OF d0 z])
    have "file_pos_to_disk_addr mi pos m = Some (nth_block bs m mi ?i, m')"
      using False sz(2) K(9) f(1) ck fs_stepD(1) [OF f(2)] cd
      by (simp add: file_pos_to_disk_addr_def addr_check_def nb Let_def)
    then show thesis using f(2,3) by (rule that)
  qed
qed

lemma copy_out_good:
  assumes ok: "fs_ok bs m" and sp: "0 < spare m" and u: "usable bs m b" and n: "p + n \<le> nat (bsize_of m)"
  obtains m' where "copy_out b p n m = Some (Some (at (fs_blk bs m b) p n), m')" "fs_step bs m m'" "same_blks bs {} m m'"
proof -
  obtain a m1 m2 where v: "get_blk b m = Some (Some a, m1)" "peek_blk a m1 = fs_blk bs m b" "dsb m1 = dsb m"
    "release_blk b m1 = Some m2" "fs_step bs m m2" "same_blks bs {} m m2"
    by (rule visit_blk [OF ok sp]) (use u in \<open>auto simp: usable_def\<close>)
  have "length (fs_blk bs m b) = nat (bsize_of m)" using fs_blk_length [OF ok] u by (simp add: usable_def)
  then show thesis using that [of m2] v n by (simp add: copy_out_def)
qed

text \<open>One step of a read: the address of a position and the copy out of its block.\<close>

lemma read_step:
  assumes ok: "fs_ok bs m" and sp: "0 < spare m" and so: "stream_ok bs m mi" and pos: "0 \<le> pos" "pos < ds_size (i_data mi)"
    and n: "nat (pos mod bsize_of m) + n \<le> nat (bsize_of m)"
  obtains b m1 m2 where "file_pos_to_disk_addr mi pos m = Some (b, m1)" "0 \<le> b" "fs_step bs m m1" "dsb m1 = dsb m"
    "copy_out b (nat (pos mod bsize_of m)) n m1 = Some (Some (at (file_data bs m mi) (nat pos) n), m2)"
    "fs_step bs m m2" "same_blks bs {} m m2"
proof -
  note P = pos_block [OF ok pos]
  let ?i = "nat (pos div bsize_of m)" and ?p = "nat (pos mod bsize_of m)"
  have z: "0 < bsize_of m" using fs_okD(1) [OF ok] by simp
  obtain m1 where a: "file_pos_to_disk_addr mi pos m = Some (nth_block bs m mi ?i, m1)" "fs_step bs m m1" "same_blks bs {} m m1"
    by (rule pos_to_addr_good [OF ok sp so pos])
  note S = fs_stepD [OF a(2)]
  have u: "usable bs m (nth_block bs m mi ?i)" using so P(1) by (simp add: stream_ok_def)
  have u1: "usable bs m1 (nth_block bs m mi ?i)" by (rule stream_keep(6) [OF ok a(2,3) so u])
  have sp1: "0 < spare m1" "?p + n \<le> nat (bsize_of m1)" using S(1,10) sp n by simp_all
  obtain m2 where c: "copy_out (nth_block bs m mi ?i) ?p n m1 = Some (Some (at (fs_blk bs m1 (nth_block bs m mi ?i)) ?p n), m2)"
    "fs_step bs m1 m2" "same_blks bs {} m1 m2"
    by (rule copy_out_good [OF fs_step_ok [OF a(2) ok] sp1(1) u1 sp1(2)])
  have "fs_blk bs m1 (nth_block bs m mi ?i) = fs_blk bs m (nth_block bs m mi ?i)"
    using a(3) u by (simp add: same_blks_def usable_def)
  moreover have "nat pos = ?i * nat (bsize_of m) + ?p"
  proof -
    have "pos = int (?i * nat (bsize_of m) + ?p)" using P(2) z by simp
    then show ?thesis by (metis nat_int)
  qed
  ultimately have e: "at (fs_blk bs m1 (nth_block bs m mi ?i)) ?p n = at (file_data bs m mi) (nat pos) n"
    using file_data_at [OF ok so P(1) n] by simp
  have sb: "same_blks bs {} m m2" using same_blks_trans [OF a(3) c(3)] S(1) by simp
  show thesis
    by (rule that [OF a(1) _ a(2) S(1) c(1) [unfolded e] fs_step_trans [OF a(2) c(2)] sb])
       (use u in \<open>simp add: usable_def fs_has_def\<close>)
qed

lemma read_loop_good:
  assumes "fs_ok bs m" "0 < spare m" "stream_ok bs m mi" "0 \<le> pos" "pos mod bsize_of m = 0 \<or> left = 0"
    "pos + int left \<le> ds_size (i_data mi)"
  shows "\<exists>m'. read_loop (bsize_of m) mi pos left acc m = Some (0, acc @ at (file_data bs m mi) (nat pos) left, m') \<and>
    fs_step bs m m' \<and> same_blks bs {} m m'"
  using assms
proof (induction left arbitrary: pos acc m rule: less_induct)
  case (less left)
  note ok = less.prems(1)
  let ?z = "bsize_of m"
  have z: "0 < ?z" using fs_okD(1) [OF ok] by simp
  show ?case
  proof (cases "left = 0")
    case True
    then show ?thesis using fs_step_refl [OF ok] by (subst read_loop.simps) (simp add: at_def same_blks_def)
  next
    case False
    let ?amt = "if int left < ?z then left else nat ?z"
    have al: "pos mod ?z = 0" using less.prems(5) False by simp
    have amt: "0 < ?amt" "?amt \<le> left" "nat (pos mod ?z) + ?amt \<le> nat ?z" using False z al by auto
    have p: "pos < ds_size (i_data mi)" using less.prems(6) False by linarith
    obtain b m1 m2 where r: "file_pos_to_disk_addr mi pos m = Some (b, m1)" "0 \<le> b" "fs_step bs m m1" "dsb m1 = dsb m"
      "copy_out b (nat (pos mod ?z)) ?amt m1 = Some (Some (at (file_data bs m mi) (nat pos) ?amt), m2)"
      "fs_step bs m m2" "same_blks bs {} m m2"
      by (rule read_step [OF ok less.prems(2,3,4) p amt(3)])
    note S = fs_stepD [OF r(6)] and SK = stream_keep [OF ok r(6,7) less.prems(3)]
    have al2: "(pos + int ?amt) mod ?z = 0 \<or> left - ?amt = 0" using al z by (auto simp: mod_add_eq [symmetric])
    have le2: "pos + int ?amt + int (left - ?amt) \<le> ds_size (i_data mi)" using less.prems(6) amt(2) by linarith
    have "\<exists>m'. read_loop (bsize_of m2) mi (pos + int ?amt) (left - ?amt) (acc @ at (file_data bs m mi) (nat pos) ?amt) m2 =
        Some (0, (acc @ at (file_data bs m mi) (nat pos) ?amt) @ at (file_data bs m2 mi) (nat (pos + int ?amt)) (left - ?amt), m') \<and>
        fs_step bs m2 m' \<and> same_blks bs {} m2 m'"
      by (rule less.IH) (use amt less.prems(2,4) S(1,10) fs_step_ok [OF r(6) ok] SK(1) al2 le2 in simp_all)
    then obtain m' where m': "read_loop ?z mi (pos + int ?amt) (left - ?amt) (acc @ at (file_data bs m mi) (nat pos) ?amt) m2 =
        Some (0, (acc @ at (file_data bs m mi) (nat pos) ?amt) @ at (file_data bs m mi) (nat (pos + int ?amt)) (left - ?amt), m')"
      "fs_step bs m2 m'" "same_blks bs {} m2 m'" using S(1) SK(2) by auto
    have "nat (pos + int ?amt) = nat pos + ?amt" using less.prems(4) by (simp only: nat_add_distrib of_nat_0_le_iff nat_int)
    then have cat: "at (file_data bs m mi) (nat pos) ?amt @ at (file_data bs m mi) (nat (pos + int ?amt)) (left - ?amt) =
        at (file_data bs m mi) (nat pos) left"
      using at_split [of "file_data bs m mi" "nat pos" ?amt "left - ?amt"] amt(2) by simp
    have "read_loop ?z mi pos left acc m = Some (0, acc @ at (file_data bs m mi) (nat pos) left, m')"
      by (subst read_loop.simps) (use False z r(1,2,5) al m'(1) cat in \<open>simp add: Let_def\<close>)
    moreover have "same_blks bs {} m m'" using same_blks_trans [OF r(7) m'(3)] S(1) by simp
    ultimately show ?thesis using fs_step_trans [OF r(6) m'(2)] by blast
  qed
qed

section \<open>Reading a file\<close>

lemma stream_size_bound:
  assumes "fs_ok bs m" "stream_ok bs m mi"
  shows "0 \<le> ds_size (i_data mi)" "ds_size (i_data mi) < 2 ^ 62"
proof -
  note K = fs_okD [OF assms(1)]
  have "bsize_of m div 8 * bsize_of m \<le> 4096 * 32768" using K(1,2) by (intro mult_mono) simp_all
  then have "MAX_INDIRECT_RANGE (bsize_of m) < 2 ^ 62"
    using K(2) by (simp add: MAX_INDIRECT_RANGE_def MAX_DIRECT_RANGE_def NUM_DIRECT_BLOCKS_def)
  then show "0 \<le> ds_size (i_data mi)" "ds_size (i_data mi) < 2 ^ 62" using assms(2) unfolding stream_ok_def by linarith+
qed

lemma file_bytes_at:
  assumes "fs_ok bs m" "stream_ok bs m mi" "0 \<le> pos" "pos \<le> ds_size (i_data mi)"
  shows "at (file_bytes bs m mi) (nat pos) n = at (file_data bs m mi) (nat pos) (min n (nat (ds_size (i_data mi) - pos)))"
proof -
  have "nat (ds_size (i_data mi) - pos) = nat (ds_size (i_data mi)) - nat pos" using assms(3) by (simp add: nat_diff_distrib')
  then show ?thesis by (simp add: file_bytes_def at_def drop_take)
qed

text \<open>The part of a read after its length is cut to the end of the file.\<close>

lemma read_from:
  assumes ok: "fs_ok bs m" and sp: "0 < spare m" and so: "stream_ok bs m mi" and pos: "0 \<le> pos" "pos < ds_size (i_data mi)"
    and n: "0 < n" "pos + int n \<le> ds_size (i_data mi)" and big: "int n \<le> len" "len < 2 ^ 62"
    and cut: "int n = (if ds_size (i_data mi) < pos + len then ds_size (i_data mi) - pos else len)"
  obtains m' where "myfs_read_data_stream mi pos len m = Some (0, at (file_data bs m mi) (nat pos) n, m')"
    "fs_step bs m m'" "same_blks bs {} m m'"
proof -
  note K = fs_okD [OF ok] and B = stream_size_bound [OF ok so]
  let ?z = "bsize_of m" and ?sz = "ds_size (i_data mi)"
  have z: "0 < ?z" using K(1) by simp
  have t: "take_bit 64 (pos + len) = pos + len" "take_bit 64 ?sz = ?sz" "take_bit 64 (?sz - pos) = ?sz - pos"
    using B pos n(1) big by (simp_all add: take_bit_int_eq_self_iff)
  have r: "0 \<le> pos mod ?z" "pos mod ?z < ?z" using z by simp_all
  define amt where "amt = (if pos mod ?z = 0 then 0 else nat (if int n < ?z - pos mod ?z then int n else ?z - pos mod ?z))"
  have a: "amt \<le> n" "nat (pos mod ?z) + amt \<le> nat ?z" using r by (auto simp: amt_def)
  obtain b m1 m2 where h: "file_pos_to_disk_addr mi pos m = Some (b, m1)" "0 \<le> b" "fs_step bs m m1" "dsb m1 = dsb m"
    "copy_out b (nat (pos mod ?z)) amt m1 = Some (Some (at (file_data bs m mi) (nat pos) amt), m2)"
    "fs_step bs m m2" "same_blks bs {} m m2"
    by (rule read_step [OF ok sp so pos a(2)])
  obtain m1' where h': "file_pos_to_disk_addr mi pos m = Some (nth_block bs m mi (nat (pos div ?z)), m1')"
    "fs_step bs m m1'" "same_blks bs {} m m1'" by (rule pos_to_addr_good [OF ok sp so pos])
  have sb1: "same_blks bs {} m m1" using h(1) h'(1,3) by simp
  define mm where "mm = (if pos mod ?z = 0 then m1 else m2)"
  have st: "fs_step bs m mm" "same_blks bs {} m mm" using h(3,6,7) sb1 by (simp_all add: mm_def)
  note S = fs_stepD [OF st(1)] and SK = stream_keep [OF ok st so]
  have al: "(pos + int amt) mod ?z = 0 \<or> n - amt = 0"
  proof (cases "pos mod ?z = 0 \<or> int n < ?z - pos mod ?z")
    case False
    then have "pos + int amt = (pos - pos mod ?z) + ?z" using r by (simp add: amt_def)
    also have "\<dots> = (pos div ?z + 1) * ?z" by (simp add: minus_mod_eq_div_mult algebra_simps)
    finally show ?thesis by simp
  qed (auto simp: amt_def)
  have sp': "0 < spare mm" "0 \<le> pos + int amt" "pos + int amt + int (n - amt) \<le> ?sz" using S(10) sp pos n a(1) by simp_all
  have zz: "bsize_of mm = ?z" using S(1) by simp
  obtain m' where l: "read_loop ?z mi (pos + int amt) (n - amt) (at (file_data bs m mi) (nat pos) amt) mm =
      Some (0, at (file_data bs m mi) (nat pos) amt @ at (file_data bs m mi) (nat (pos + int amt)) (n - amt), m')"
    "fs_step bs mm m'" "same_blks bs {} mm m'"
    using read_loop_good [OF fs_step_ok [OF st(1) ok] sp'(1) SK(1) sp'(2) al [folded zz] sp'(3)] zz SK(2) by metis
  have "nat (pos + int amt) = nat pos + amt" using pos(1) by (simp add: nat_add_distrib)
  then have cat: "at (file_data bs m mi) (nat pos) amt @ at (file_data bs m mi) (nat (pos + int amt)) (n - amt) =
      at (file_data bs m mi) (nat pos) n" using at_split [of "file_data bs m mi" "nat pos" amt "n - amt"] a(1) by simp
  have ln: "(if ?sz < pos + len then ?sz - pos else len) = int n" "len \<noteq> 0" "\<not> pos < 0" "\<not> ?sz < pos"
    using cut n big pos by simp_all
  have e: "myfs_read_data_stream mi pos len m = Some (0, at (file_data bs m mi) (nat pos) n, m')"
  proof (cases "pos mod ?z = 0")
    case True
    then have "mm = m1" "amt = 0" by (simp_all add: mm_def amt_def)
    then have "read_loop ?z mi pos n [] m1 = Some (0, at (file_data bs m mi) (nat pos) n, m')" using l(1) cat by (simp add: at_def)
    then show ?thesis unfolding myfs_read_data_stream_def Let_def
      using h(1,2) K(9) t ln True pos(1) z by (cases "?sz < pos + len") simp_all
  next
    case False
    then have am: "nat (if int n < ?z - pos mod ?z then int n else ?z - pos mod ?z) = amt" and "mm = m2"
      by (simp_all add: mm_def amt_def)
    then have l2: "read_loop ?z mi (pos + int amt) (n - amt) (at (file_data bs m mi) (nat pos) amt) m2 =
        Some (0, at (file_data bs m mi) (nat pos) n, m')" using l(1) cat by simp
    show ?thesis unfolding myfs_read_data_stream_def Let_def
      using h(1,2,5) K(9) t ln False pos(1) z l2 am
      by (cases "?sz < pos + len"; cases "int n < ?z - pos mod ?z") simp_all
  qed
  show thesis by (rule that [OF e fs_step_trans [OF st(1) l(2)]]) (use same_blks_trans [OF st(2) l(3)] S(1) in simp)
qed

text \<open>
  Claim C2: \<open>myfs_read_data_stream\<close> returns the bytes of the file from the position on, as many as asked for and as the
  file has, and every block of the file system holds what it held.
\<close>

theorem read_data_stream_correct:
  assumes "fs_ok bs m" "0 < spare m" "stream_ok bs m mi" "0 \<le> pos" "pos < ds_size (i_data mi)" "0 < len" "len < 2 ^ 62"
  shows "\<exists>m'. myfs_read_data_stream mi pos len m = Some (0, take (nat len) (drop (nat pos) (file_bytes bs m mi)), m') \<and>
    fs_ok bs m' \<and> stream_ok bs m' mi \<and> (\<forall>b. fs_has m b \<longrightarrow> fs_blk bs m' b = fs_blk bs m b)"
proof -
  let ?sz = "ds_size (i_data mi)"
  define n where "n = min (nat len) (nat (?sz - pos))"
  have p: "0 < n" "pos + int n \<le> ?sz" "int n \<le> len" "int n = (if ?sz < pos + len then ?sz - pos else len)"
    using assms(5,6) by (auto simp: n_def)
  obtain m' where r: "myfs_read_data_stream mi pos len m = Some (0, at (file_data bs m mi) (nat pos) n, m')"
    "fs_step bs m m'" "same_blks bs {} m m'"
    by (rule read_from [OF assms(1-5) p(1-3) assms(7) p(4)])
  have "at (file_data bs m mi) (nat pos) n = take (nat len) (drop (nat pos) (file_bytes bs m mi))"
    using file_bytes_at [OF assms(1,3,4), of "nat len"] assms(5) by (simp add: n_def at_def)
  then show ?thesis using r fs_step_ok [OF r(2) assms(1)] stream_keep(1) [OF assms(1) r(2,3) assms(3)]
    by (auto simp: same_blks_def)
qed

lemma demo_stream: "stream_ok demo_bs demo_ifs demo_file" "stream_blocks demo_bs demo_ifs demo_file = [10, 11]"
    "stream_apart demo_bs demo_ifs demo_file" "file_bytes demo_bs demo_ifs demo_file = replicate 600 0"
proof -
  have n: "nblks demo_ifs demo_file = 2" by (simp add: nblks_def demo_ifs_facts demo_file_facts)
  have nb: "nth_block demo_bs demo_ifs demo_file 0 = 10" "nth_block demo_bs demo_ifs demo_file 1 = 11"
    by (simp_all add: nth_block_def NUM_DIRECT_BLOCKS_def demo_file_def)
  have lt: "i < 2 \<longleftrightarrow> i = 0 \<or> i = 1" for i :: nat by auto
  show "stream_ok demo_bs demo_ifs demo_file"
    unfolding stream_ok_def n lt using nb
    by (auto simp: demo_ifs_facts MAX_INDIRECT_RANGE_def MAX_DIRECT_RANGE_def NUM_DIRECT_BLOCKS_def usable_def fs_has_def)
       (simp_all add: demo_file_def)
  show bl: "stream_blocks demo_bs demo_ifs demo_file = [10, 11]" using nb by (simp add: stream_blocks_def n upt_rec)
  show "stream_apart demo_bs demo_ifs demo_file"
    by (simp add: stream_apart_def bl demo_file_facts demo_ifs_facts MAX_DIRECT_RANGE_def NUM_DIRECT_BLOCKS_def)
  have "file_data demo_bs demo_ifs demo_file = replicate 512 0 @ replicate 512 0"
    using nb by (simp add: file_data_def n upt_rec demo_ifs_facts demo_fs_facts)
  then show "file_bytes demo_bs demo_ifs demo_file = replicate 600 0"
    by (simp add: file_bytes_def demo_file_facts flip: replicate_add)
qed

theorem read_data_stream_correct_witness:
  "\<exists>m'. myfs_read_data_stream demo_file 500 1000 demo_ifs = Some (0, replicate 100 0, m') \<and> stream_ok demo_bs m' demo_file"
  using read_data_stream_correct [OF demo_ifs_facts(1) _ demo_stream(1), of 500 1000]
  by (auto simp: demo_ifs_facts demo_file_facts demo_stream NUM_FLUSH_BLOCKS_def)

end
