(* ===== verification/Stream_Write.thy ===== *)
theory Stream_Write
  imports Stream_Read
begin

text \<open>
  \<open>myfs_write_data_stream\<close> inside a file: the bytes written replace the bytes of the file, and nothing else changes.
\<close>

section \<open>Overwriting\<close>

lemma concat_overwrite:
  assumes "\<forall>x \<in> set xs. length x = z" "i < length xs" "p + length ys \<le> z"
  shows "concat (xs[i := overwrite (xs ! i) p ys]) = overwrite (concat xs) (i * z + p) ys"
  using assms
proof (induction xs arbitrary: i)
  case (Cons x xs)
  show ?case
  proof (cases i)
    case 0
    then show ?thesis using Cons.prems by (simp add: overwrite_def)
  next
    case (Suc k)
    have "concat (xs[k := overwrite (xs ! k) p ys]) = overwrite (concat xs) (k * z + p) ys"
      using Cons.prems Suc by (intro Cons.IH) auto
    then show ?thesis using Suc Cons.prems(1) by (simp add: overwrite_def add.assoc)
  qed
qed simp

lemma overwrite_split:
  assumes "p + length xs + length ys \<le> length zs"
  shows "overwrite (overwrite zs p xs) (p + length xs) ys = overwrite zs p (xs @ ys)"
proof -
  let ?h = "take p zs @ xs"
  have p: "p \<le> length zs" using assms by simp
  then have l: "length ?h = p + length xs" by simp
  have "overwrite zs p xs = ?h @ drop (p + length xs) zs" using p by (simp add: overwrite_def)
  then have "take (p + length xs) (overwrite zs p xs) = ?h" "drop (p + length xs + length ys) (overwrite zs p xs) =
      drop (p + length xs + length ys) zs"
    using l assms by (simp_all add: min_def add.commute add.left_commute)
  then show ?thesis using p overwrite_length [of p xs zs] assms by (simp add: overwrite_def [of _ "p + length xs"] add.assoc) (simp add: overwrite_def)
qed

section \<open>One block\<close>

lemma copy_in_good:
  assumes ok: "fs_ok bs m" and sp: "0 < spare m" and u: "fs_has m b" and n: "p + length xs \<le> nat (bsize_of m)"
  obtains m' where "copy_in b p xs m = Some (True, m')" "fs_step bs m m'" "same_blks bs {b} m m'"
    "fs_blk bs m' b = overwrite (fs_blk bs m b) p xs"
proof -
  have l: "length (fs_blk bs m b) = nat (bsize_of m)" using fs_blk_length [OF ok u] .
  let ?f = "\<lambda>x. overwrite x p xs"
  have lf: "length (?f (fs_blk bs m b)) = nat (bsize_of m)" using overwrite_length [of p xs "fs_blk bs m b"] n l by simp
  obtain a m1 m2 m3 where c: "get_blk b m = Some (Some a, m1)" "peek_blk a m1 = fs_blk bs m b"
    "dirty_blk b (poke_blk a (?f (fs_blk bs m b)) m1) = Some m2" "release_blk b m2 = Some m3" "fs_step bs m m3"
    "same_blks bs {b} m m3" "fs_blk bs m3 b = ?f (fs_blk bs m b)"
    by (rule change_blk [OF ok sp u, of ?f, OF lf]) (rule that, assumption+)
  then show thesis using that [of m3] n l by (simp add: copy_in_def)
qed

text \<open>One step of a write: the address of a position and the copy into its block.\<close>

lemma write_step:
  assumes ok: "fs_ok bs m" and sp: "0 < spare m" and so: "stream_ok bs m mi" and ap: "stream_apart bs m mi"
    and pos: "0 \<le> pos" "pos < ds_size (i_data mi)" and n: "nat (pos mod bsize_of m) + length xs \<le> nat (bsize_of m)"
  obtains b m1 m2 where "file_pos_to_disk_addr mi pos m = Some (b, m1)" "0 \<le> b" "fs_step bs m m1" "same_blks bs {} m m1"
    "copy_in b (nat (pos mod bsize_of m)) xs m1 = Some (True, m2)"
    "fs_step bs m m2" "same_blks bs (set (stream_blocks bs m mi)) m m2" "stream_ok bs m2 mi" "stream_apart bs m2 mi"
    "stream_blocks bs m2 mi = stream_blocks bs m mi"
    "file_data bs m2 mi = overwrite (file_data bs m mi) (nat pos) xs"
proof -
  note P = pos_block [OF ok pos]
  let ?i = "nat (pos div bsize_of m)" and ?p = "nat (pos mod bsize_of m)"
  let ?b = "nth_block bs m mi ?i" and ?bl = "\<lambda>m i. fs_blk bs m (nth_block bs m mi i)"
  have z: "0 < bsize_of m" using fs_okD(1) [OF ok] by simp
  obtain m1 where a: "file_pos_to_disk_addr mi pos m = Some (?b, m1)" "fs_step bs m m1" "same_blks bs {} m m1"
    by (rule pos_to_addr_good [OF ok sp so pos])
  note S = fs_stepD [OF a(2)]
  have u: "fs_has m ?b" using so P(1) by (simp add: stream_ok_def usable_def)
  have sp1: "0 < spare m1" "?p + length xs \<le> nat (bsize_of m1)" "fs_has m1 ?b" using S(1,10) sp n u by (simp_all add: fs_has_def)
  obtain m2 where c: "copy_in ?b ?p xs m1 = Some (True, m2)" "fs_step bs m1 m2" "same_blks bs {?b} m1 m2"
    "fs_blk bs m2 ?b = overwrite (fs_blk bs m1 ?b) ?p xs"
    by (rule copy_in_good [OF fs_step_ok [OF a(2) ok] sp1(1,3,2)])
  have st: "fs_step bs m m2" by (rule fs_step_trans [OF a(2) c(2)])
  have sb: "same_blks bs {?b} m m2" using same_blks_trans [OF a(3) c(3)] S(1) by simp
  have mem: "?b \<in> set (stream_blocks bs m mi)" using P(1) by (simp add: stream_blocks_def)
  have ind: "MAX_DIRECT_RANGE (bsize_of m) < ds_size (i_data mi) \<longrightarrow> indirect (i_data mi) \<notin> {?b}"
    using mem ap by (auto simp: stream_apart_def)
  note M = stream_move [OF ok fs_step_is_move [OF st] sb so ind]
  have nb: "?bl m2 i = (if i = ?i then overwrite (?bl m ?i) ?p xs else ?bl m i)" if i: "i < nblks m mi" for i
  proof (cases "i = ?i")
    case True
    then show ?thesis using c(4) a(3) u M(2) [OF P(1)] by (simp add: same_blks_def)
  next
    case False
    have "nth_block bs m mi i \<noteq> ?b" using ap i P(1) False
      by (auto simp: stream_apart_def stream_blocks_def distinct_map inj_on_def)
    then show ?thesis using False same_blksD [OF sb, of "nth_block bs m mi i"] so i M(2) [OF i]
      by (simp add: stream_ok_def usable_def)
  qed
  have mp: "map (?bl m2) [0..<nblks m mi] = (map (?bl m) [0..<nblks m mi])[?i := overwrite (map (?bl m) [0..<nblks m mi] ! ?i) ?p xs]"
    by (rule nth_equalityI) (use nb P(1) in \<open>simp_all add: nth_list_update\<close>)
  have np: "nat pos = ?i * nat (bsize_of m) + ?p"
  proof -
    have "pos = int (?i * nat (bsize_of m) + ?p)" using P(2) z by simp
    then show ?thesis by (metis nat_int)
  qed
  have fd: "file_data bs m2 mi = overwrite (file_data bs m mi) (nat pos) xs"
    unfolding file_data_def M(4) mp np
    by (rule concat_overwrite [OF file_blocks_length(1) [OF ok so]]) (use P(1) n in simp_all)
  have b0: "0 \<le> ?b" using u by (simp add: fs_has_def)
  show thesis
    by (rule that [OF a(1) b0 a(2,3) c(1) st same_blks_mono [OF sb] M(1) M(5) [OF ap] M(3) fd]) (use mem in simp)
qed

section \<open>The loop\<close>

lemma write_loop_good:
  assumes "fs_ok bs m" "0 < spare m" "stream_ok bs m mi" "stream_apart bs m mi" "0 \<le> pos"
    "pos mod bsize_of m = 0 \<or> buf = []" "pos + int (length buf) \<le> ds_size (i_data mi)"
  shows "\<exists>m'. write_loop (bsize_of m) mi pos buf dn m = Some (0, dn + length buf, m') \<and> fs_step bs m m' \<and>
    same_blks bs (set (stream_blocks bs m mi)) m m' \<and> stream_ok bs m' mi \<and> stream_blocks bs m' mi = stream_blocks bs m mi \<and>
    file_data bs m' mi = overwrite (file_data bs m mi) (nat pos) buf"
  using assms
proof (induction "length buf" arbitrary: pos buf dn m rule: less_induct)
  case less
  note ok = less.prems(1)
  let ?z = "bsize_of m" and ?B = "set (stream_blocks bs m mi)"
  have z: "0 < ?z" using fs_okD(1) [OF ok] by simp
  have room: "nat pos + length buf \<le> length (file_data bs m mi)"
    using file_blocks_length(3) [OF ok less.prems(3)] less.prems(5,7) by linarith
  show ?case
  proof (cases "buf = []")
    case True
    have "overwrite (file_data bs m mi) (nat pos) [] = file_data bs m mi" using room by (simp add: overwrite_def)
    then show ?thesis using True fs_step_refl [OF ok] less.prems(3) by (subst write_loop.simps) (simp add: same_blks_def)
  next
    case False
    define amt where "amt = (if int (length buf) < ?z then length buf else nat ?z)"
    have al: "pos mod ?z = 0" using less.prems(6) False by simp
    have amt: "0 < amt" "amt \<le> length buf" "nat (pos mod ?z) + length (take amt buf) \<le> nat ?z"
      using False z al by (auto simp: amt_def)
    have ll: "length (take amt buf) = amt" using amt(2) by simp
    have p: "pos < ds_size (i_data mi)" using less.prems(7) False by (cases buf) simp_all
    obtain b m1 m2 where r: "file_pos_to_disk_addr mi pos m = Some (b, m1)" "0 \<le> b" "fs_step bs m m1"
      "copy_in b (nat (pos mod ?z)) (take amt buf) m1 = Some (True, m2)"
      "fs_step bs m m2" "same_blks bs ?B m m2" "stream_ok bs m2 mi" "stream_apart bs m2 mi"
      "stream_blocks bs m2 mi = stream_blocks bs m mi"
      "file_data bs m2 mi = overwrite (file_data bs m mi) (nat pos) (take amt buf)"
      by (rule write_step [OF ok less.prems(2-5) p amt(3)]) (rule that, assumption+)
    note S = fs_stepD [OF r(5)]
    have al2: "(pos + int amt) mod bsize_of m2 = 0 \<or> drop amt buf = []"
      using al z S(1) by (auto simp: mod_add_eq [symmetric] amt_def)
    have le2: "pos + int amt + int (length (drop amt buf)) \<le> ds_size (i_data mi)" using less.prems(7) amt(2) by simp
    have "\<exists>m'. write_loop (bsize_of m2) mi (pos + int amt) (drop amt buf) (dn + amt) m2 =
        Some (0, dn + amt + length (drop amt buf), m') \<and> fs_step bs m2 m' \<and>
        same_blks bs (set (stream_blocks bs m2 mi)) m2 m' \<and> stream_ok bs m' mi \<and> stream_blocks bs m' mi = stream_blocks bs m2 mi \<and>
        file_data bs m' mi = overwrite (file_data bs m2 mi) (nat (pos + int amt)) (drop amt buf)"
      by (rule less.hyps [OF _ fs_step_ok [OF r(5) ok] _ r(7,8) _ al2 le2]) (use amt less.prems(2,5) S(10) in simp_all)
    then obtain m' where m': "write_loop ?z mi (pos + int amt) (drop amt buf) (dn + amt) m2 = Some (0, dn + length buf, m')"
      "fs_step bs m2 m'" "same_blks bs ?B m2 m'" "stream_ok bs m' mi" "stream_blocks bs m' mi = stream_blocks bs m mi"
      "file_data bs m' mi = overwrite (file_data bs m2 mi) (nat (pos + int amt)) (drop amt buf)"
      using S(1) r(9) amt(2) by auto
    have "nat (pos + int amt) = nat pos + length (take amt buf)" using less.prems(5) ll by (simp add: nat_add_distrib)
    then have fd: "file_data bs m' mi = overwrite (file_data bs m mi) (nat pos) buf"
      unfolding m'(6) r(10) using overwrite_split [of "nat pos" "take amt buf" "drop amt buf" "file_data bs m mi"] room ll amt(2) by simp
    have "write_loop ?z mi pos buf dn m = Some (0, dn + length buf, m')"
      by (subst write_loop.simps) (use False z r(1,2,4) al m'(1) in \<open>simp add: Let_def amt_def [symmetric]\<close>)
    moreover have "same_blks bs ?B m m'" using same_blks_trans [OF r(6) m'(3)] S(1) by simp
    ultimately show ?thesis using fs_step_trans [OF r(5) m'(2)] m'(4,5) fd by blast
  qed
qed

lemma write_blocks_at_good:
  assumes ok: "fs_ok bs m" and sp: "0 < spare m" and so: "stream_ok bs m mi" and ap: "stream_apart bs m mi"
    and pos: "0 \<le> pos" and n: "buf \<noteq> []" "pos + int (length buf) \<le> ds_size (i_data mi)"
  obtains m' where "write_blocks_at (bsize_of m) mi pos buf m = Some (0, length buf, m')" "fs_step bs m m'"
    "same_blks bs (set (stream_blocks bs m mi)) m m'" "stream_ok bs m' mi" "stream_blocks bs m' mi = stream_blocks bs m mi"
    "file_data bs m' mi = overwrite (file_data bs m mi) (nat pos) buf"
proof -
  let ?z = "bsize_of m" and ?B = "set (stream_blocks bs m mi)"
  have z: "0 < ?z" using fs_okD(1) [OF ok] by simp
  have p: "pos < ds_size (i_data mi)" using n by (cases buf) simp_all
  have r: "0 \<le> pos mod ?z" "pos mod ?z < ?z" using z by simp_all
  have room: "nat pos + length buf \<le> length (file_data bs m mi)"
    using file_blocks_length(3) [OF ok so] pos n(2) by linarith
  show thesis
  proof (cases "pos mod ?z = 0")
    case True
    obtain m1 where a: "file_pos_to_disk_addr mi pos m = Some (nth_block bs m mi (nat (pos div ?z)), m1)"
      "fs_step bs m m1" "same_blks bs {} m m1" by (rule pos_to_addr_good [OF ok sp so pos p])
    have b0: "0 \<le> nth_block bs m mi (nat (pos div ?z))"
      using so pos_block(1) [OF ok pos p] by (auto simp: stream_ok_def usable_def fs_has_def intro: less_imp_le)
    note S = fs_stepD [OF a(2)]
    have "MAX_DIRECT_RANGE ?z < ds_size (i_data mi) \<longrightarrow> indirect (i_data mi) \<notin> {}" by simp
    note M = stream_move [OF ok fs_step_is_move [OF a(2)] a(3) so this] and SK = stream_keep [OF ok a(2,3) so]
    have q: "0 < spare m1" "pos mod bsize_of m1 = 0 \<or> buf = []" using S(1,10) sp True by simp_all
    obtain m' where "write_loop (bsize_of m1) mi pos buf 0 m1 = Some (0, 0 + length buf, m')" "fs_step bs m1 m'"
      "same_blks bs (set (stream_blocks bs m1 mi)) m1 m'" "stream_ok bs m' mi" "stream_blocks bs m' mi = stream_blocks bs m1 mi"
      "file_data bs m' mi = overwrite (file_data bs m1 mi) (nat pos) buf"
      using write_loop_good [OF fs_step_ok [OF a(2) ok] q(1) SK(1) M(5) [OF ap] pos q(2) n(2), of 0] by blast
    note w = this [unfolded M(3) SK(2)]
    have "same_blks bs ?B m m'" using same_blks_trans [OF a(3) w(3)] S(1) by simp
    then show thesis using that [OF _ fs_step_trans [OF a(2) w(2)] _ w(4-6)] a(1) b0 True pos z w(1) S(1)
      by (simp add: write_blocks_at_def)
  next
    case False
    define amt where "amt = nat (if int (length buf) < ?z - pos mod ?z then int (length buf) else ?z - pos mod ?z)"
    have amt: "amt \<le> length buf" "nat (pos mod ?z) + length (take amt buf) \<le> nat ?z" using r by (auto simp: amt_def)
    have ll: "length (take amt buf) = amt" using amt(1) by simp
    obtain b m1 m2 where h: "file_pos_to_disk_addr mi pos m = Some (b, m1)" "0 \<le> b"
      "copy_in b (nat (pos mod ?z)) (take amt buf) m1 = Some (True, m2)"
      "fs_step bs m m2" "same_blks bs ?B m m2" "stream_ok bs m2 mi" "stream_apart bs m2 mi"
      "stream_blocks bs m2 mi = stream_blocks bs m mi"
      "file_data bs m2 mi = overwrite (file_data bs m mi) (nat pos) (take amt buf)"
      by (rule write_step [OF ok sp so ap pos p amt(2)]) (rule that, assumption+)
    note S = fs_stepD [OF h(4)]
    have al: "(pos + int amt) mod bsize_of m2 = 0 \<or> drop amt buf = []"
    proof (cases "int (length buf) < ?z - pos mod ?z")
      case False
      then have "pos + int amt = (pos - pos mod ?z) + ?z" using r by (simp add: amt_def)
      also have "\<dots> = (pos div ?z + 1) * ?z" by (simp add: minus_mod_eq_div_mult algebra_simps)
      finally show ?thesis using S(1) by simp
    qed (auto simp: amt_def)
    have q: "0 < spare m2" "0 \<le> pos + int amt" "pos + int amt + int (length (drop amt buf)) \<le> ds_size (i_data mi)"
      using S(10) sp pos n(2) amt(1) by simp_all
    obtain m' where "write_loop (bsize_of m2) mi (pos + int amt) (drop amt buf) amt m2 = Some (0, amt + length (drop amt buf), m')"
      "fs_step bs m2 m'" "same_blks bs (set (stream_blocks bs m2 mi)) m2 m'" "stream_ok bs m' mi"
      "stream_blocks bs m' mi = stream_blocks bs m2 mi"
      "file_data bs m' mi = overwrite (file_data bs m2 mi) (nat (pos + int amt)) (drop amt buf)"
      using write_loop_good [OF fs_step_ok [OF h(4) ok] q(1) h(6,7) q(2) al q(3), of amt] by blast
    note w = this [unfolded h(8,9)]
    have "nat (pos + int amt) = nat pos + length (take amt buf)" using pos ll by (simp add: nat_add_distrib)
    then have fd: "file_data bs m' mi = overwrite (file_data bs m mi) (nat pos) buf"
      unfolding w(6) using overwrite_split [of "nat pos" "take amt buf" "drop amt buf" "file_data bs m mi"] room ll amt(1) by simp
    have "same_blks bs ?B m m'" using same_blks_trans [OF h(5) w(3)] S(1) by simp
    moreover have "write_blocks_at ?z mi pos buf m = Some (0, length buf, m')"
      using h(1-3) False pos z w(1) S(1) amt(1) by (simp add: write_blocks_at_def Let_def amt_def [symmetric])
    ultimately show thesis using that [OF _ fs_step_trans [OF h(4) w(2)] _ w(4,5) fd] by blast
  qed
qed

section \<open>A write inside the file\<close>

text \<open>The inode of a file is in the table, and its block is none of the file's blocks.\<close>

definition inode_clear :: "(int \<Rightarrow> int) \<Rightarrow> myfs_info \<Rightarrow> myfs_inode \<Rightarrow> bool" where
  "inode_clear bs m mi \<longleftrightarrow> itab_ok m \<and> in_table m (inode_num mi) \<and>
     inode_block m (inode_num mi) \<notin> set (stream_blocks bs m mi) \<and>
     (MAX_DIRECT_RANGE (bsize_of m) < ds_size (i_data mi) \<longrightarrow> inode_block m (inode_num mi) \<noteq> indirect (i_data mi))"

lemma stamp_stream [simp]:
  "stream_ok bs m (mi\<lparr>last_modified_time := t\<rparr>) = stream_ok bs m mi"
  "file_bytes bs m (mi\<lparr>last_modified_time := t\<rparr>) = file_bytes bs m mi"
proof -
  have "nth_block bs m (mi\<lparr>last_modified_time := t\<rparr>) i = nth_block bs m mi i" for i by (simp add: nth_block_def cong: if_cong)
  then show "stream_ok bs m (mi\<lparr>last_modified_time := t\<rparr>) = stream_ok bs m mi"
    "file_bytes bs m (mi\<lparr>last_modified_time := t\<rparr>) = file_bytes bs m mi"
    by (simp_all add: stream_ok_def file_bytes_def file_data_def nblks_def)
qed

lemma write_good:
  assumes ok: "fs_ok bs m" and sp: "0 < spare m" and so: "stream_ok bs m mi" and ap: "stream_apart bs m mi"
    and ic: "inode_clear bs m mi" and ty: "inode_typed (mi\<lparr>last_modified_time := now\<rparr>)"
    and pos: "0 \<le> pos" and n: "buf \<noteq> []" "pos + int (length buf) \<le> ds_size (i_data mi)"
  obtains m' where "myfs_write_data_stream now mi pos buf m = Some (0, length buf, mi\<lparr>last_modified_time := now\<rparr>, m')"
    "fs_step bs m m'" "stream_ok bs m' mi" "file_bytes bs m' mi = overwrite (file_bytes bs m mi) (nat pos) buf"
    "same_blks bs (insert (inode_block m (inode_num mi)) (set (stream_blocks bs m mi))) m m'"
    "inode_at bs m' (inode_num mi) = inode_bytes (mi\<lparr>last_modified_time := now\<rparr>)"
proof -
  let ?mi = "mi\<lparr>last_modified_time := now\<rparr>" and ?ib = "inode_block m (inode_num mi)" and ?sz = "ds_size (i_data mi)"
  note K = fs_okD [OF ok] and B = stream_size_bound [OF ok so]
  obtain m1 where w: "write_blocks_at (bsize_of m) mi pos buf m = Some (0, length buf, m1)" "fs_step bs m m1"
    "same_blks bs (set (stream_blocks bs m mi)) m m1" "stream_ok bs m1 mi" "stream_blocks bs m1 mi = stream_blocks bs m mi"
    "file_data bs m1 mi = overwrite (file_data bs m mi) (nat pos) buf"
    by (rule write_blocks_at_good [OF ok sp so ap pos n])
  note S = fs_stepD [OF w(2)]
  note C = inode_place_cong [OF S(1)]
  have ok1: "fs_ok bs m1" by (rule fs_step_ok [OF w(2) ok])
  have q: "0 < spare m1" "itab_ok m1" "in_table m1 (inode_num ?mi)"
    using S(10) sp ic C by (simp_all add: inode_clear_def)
  obtain m2 where u: "update_inode ?mi m1 = Some m2" "fs_step bs m1 m2" "same_blks bs {inode_block m1 (inode_num ?mi)} m1 m2"
    "inode_at bs m2 (inode_num ?mi) = inode_bytes ?mi"
    by (rule update_inode_good [OF ok1 q ty]) (rule that, assumption+)
  have sb: "same_blks bs {?ib} m1 m2" using u(3) C by simp
  have ind: "MAX_DIRECT_RANGE (bsize_of m1) < ?sz \<longrightarrow> indirect (i_data mi) \<notin> {?ib}" "set (stream_blocks bs m1 mi) \<inter> {?ib} = {}"
    using ic S(1) w(5) by (auto simp: inode_clear_def)
  note M = stream_move [OF ok1 fs_step_is_move [OF u(2)] sb w(4) ind(1)]
    and D = stream_data_keep [OF ok1 fs_step_is_move [OF u(2)] sb w(4) ind]
  have "take_bit 64 (pos + int (length buf)) = pos + int (length buf)" "take_bit 64 ?sz = ?sz"
    using B pos n(2) by (simp_all add: take_bit_int_eq_self_iff)
  then have e: "myfs_write_data_stream now mi pos buf m = Some (0, length buf, ?mi, m2)"
    using n pos w(1) u(1) K(9) by (simp add: myfs_write_data_stream_def Let_def)
  have "min (nat ?sz) (nat pos) = nat pos" "min (nat pos) (nat ?sz) = nat pos" "nat pos \<le> nat ?sz" "length buf \<le> nat ?sz - nat pos" "nat pos \<le> length (file_data bs m mi)"
    using pos n(2) file_blocks_length(3) [OF ok so] by linarith+
  then have "file_bytes bs m2 mi = overwrite (file_bytes bs m mi) (nat pos) buf"
    using file_blocks_length(3) [OF ok so] by (simp add: file_bytes_def D w(6) overwrite_def drop_take)
  moreover have "same_blks bs (insert ?ib (set (stream_blocks bs m mi))) m m2"
    using same_blks_trans [OF w(3) sb] S(1) by simp
  ultimately show thesis using that [OF e fs_step_trans [OF w(2) u(2)] M(1)] u(4) by simp
qed

text \<open>
  Claim C1: \<open>myfs_write_data_stream\<close> inside a file writes all bytes: the file then holds them at their position and
  is otherwise as before, the inode with the new time is in its place of the table, and every block that is neither one
  of the file's nor the inode's holds what it held.
\<close>

theorem write_data_stream_correct:
  assumes "fs_ok bs m" "0 < spare m" "stream_ok bs m mi" "stream_apart bs m mi" "inode_clear bs m mi"
    "inode_typed (mi\<lparr>last_modified_time := now\<rparr>)" "0 \<le> pos" "buf \<noteq> []" "pos + int (length buf) \<le> ds_size (i_data mi)"
  shows "\<exists>m'. myfs_write_data_stream now mi pos buf m = Some (0, length buf, mi\<lparr>last_modified_time := now\<rparr>, m') \<and>
    fs_ok bs m' \<and> stream_ok bs m' mi \<and>
    file_bytes bs m' mi = take (nat pos) (file_bytes bs m mi) @ buf @ drop (nat pos + length buf) (file_bytes bs m mi) \<and>
    inode_at bs m' (inode_num mi) = inode_bytes (mi\<lparr>last_modified_time := now\<rparr>) \<and>
    (\<forall>b. fs_has m b \<longrightarrow> b \<notin> set (stream_blocks bs m mi) \<longrightarrow> b \<noteq> inode_block m (inode_num mi) \<longrightarrow> fs_blk bs m' b = fs_blk bs m b)"
proof -
  obtain m' where w: "myfs_write_data_stream now mi pos buf m = Some (0, length buf, mi\<lparr>last_modified_time := now\<rparr>, m')"
    "fs_step bs m m'" "stream_ok bs m' mi" "file_bytes bs m' mi = overwrite (file_bytes bs m mi) (nat pos) buf"
    "same_blks bs (insert (inode_block m (inode_num mi)) (set (stream_blocks bs m mi))) m m'"
    "inode_at bs m' (inode_num mi) = inode_bytes (mi\<lparr>last_modified_time := now\<rparr>)"
    by (rule write_good [OF assms])
  have "nat pos \<le> length (file_bytes bs m mi)"
    using file_blocks_length(3) [OF assms(1,3)] assms(7,9) by (simp add: file_bytes_def)
  then have "file_bytes bs m' mi = take (nat pos) (file_bytes bs m mi) @ buf @ drop (nat pos + length buf) (file_bytes bs m mi)"
    unfolding w(4) by (simp add: overwrite_def)
  then show ?thesis using w(1,3,5,6) fs_step_ok [OF w(2) assms(1)] by (auto simp: same_blks_def)
qed

text \<open>
  Bytes written inside a file by \<open>myfs_write_data_stream\<close> are read back by \<open>myfs_read_data_stream\<close>.
\<close>

theorem write_read_round_trip:
  assumes "fs_ok bs m" "0 < spare m" "stream_ok bs m mi" "stream_apart bs m mi" "inode_clear bs m mi"
    "inode_typed (mi\<lparr>last_modified_time := now\<rparr>)" "0 \<le> pos" "buf \<noteq> []" "pos + int (length buf) \<le> ds_size (i_data mi)"
  shows "\<exists>mi' m1 m2. myfs_write_data_stream now mi pos buf m = Some (0, length buf, mi', m1) \<and>
    myfs_read_data_stream mi' pos (int (length buf)) m1 = Some (0, buf, m2)"
proof -
  let ?mi = "mi\<lparr>last_modified_time := now\<rparr>" and ?n = "length buf"
  obtain m1 where w: "myfs_write_data_stream now mi pos buf m = Some (0, ?n, ?mi, m1)"
    "fs_step bs m m1" "stream_ok bs m1 mi" "file_bytes bs m1 mi = overwrite (file_bytes bs m mi) (nat pos) buf"
    by (rule write_good [OF assms]) (rule that, assumption+)
  note S = fs_stepD [OF w(2)]
  have ok1: "fs_ok bs m1" and so1: "stream_ok bs m1 ?mi" using fs_step_ok [OF w(2) assms(1)] w(3) by simp_all
  have n: "0 < ?n" "0 < spare m1" "pos < ds_size (i_data ?mi)" "pos + int ?n \<le> ds_size (i_data ?mi)" "int ?n < 2 ^ 62"
    "int ?n = (if ds_size (i_data ?mi) < pos + int ?n then ds_size (i_data ?mi) - pos else int ?n)"
    using assms(2,7-9) S(10) stream_size_bound [OF assms(1,3)] by (cases buf; simp)+
  obtain m2 where r: "myfs_read_data_stream ?mi pos (int ?n) m1 = Some (0, at (file_data bs m1 ?mi) (nat pos) ?n, m2)"
    by (rule read_from [OF ok1 n(2) so1 assms(7) n(3,1,4) order_refl n(5,6)])
  have "nat pos + ?n \<le> length (file_bytes bs m mi)"
    using file_blocks_length(3) [OF assms(1,3)] assms(7,9) by (simp add: file_bytes_def)
  then have "at (file_bytes bs m1 ?mi) (nat pos) ?n = buf"
    using w(4) overwrite_get [of "nat pos" buf "file_bytes bs m mi"] by (simp add: at_def)
  moreover have "at (file_bytes bs m1 ?mi) (nat pos) ?n = at (file_data bs m1 ?mi) (nat pos) ?n"
  proof -
    have "min ?n (nat (ds_size (i_data ?mi) - pos)) = ?n" using n(4) by linarith
    then show ?thesis using n(3) file_bytes_at [OF ok1 so1 assms(7), of ?n] by simp
  qed
  ultimately show ?thesis using w(1) r by simp
qed

lemma demo_clear: "inode_clear demo_bs demo_ifs demo_file"
proof -
  have "in_table demo_ifs 5" by (simp add: demo_ifs_facts)
  then have "inode_block demo_ifs 5 = 4"
    using inode_place(1) [OF demo_ifs_facts(1,4), of 5] by (simp add: demo_ifs_facts)
  then show ?thesis
    by (simp add: inode_clear_def demo_ifs_facts demo_file_facts demo_stream MAX_DIRECT_RANGE_def NUM_DIRECT_BLOCKS_def)
qed

theorem write_data_stream_correct_witness:
  "\<exists>m'. myfs_write_data_stream 7 demo_file 510 [1, 2, 3] demo_ifs = Some (0, 3, demo_file\<lparr>last_modified_time := 7\<rparr>, m') \<and>
    file_bytes demo_bs m' demo_file = replicate 510 0 @ [1, 2, 3] @ replicate 87 0"
proof -
  have "0 < spare demo_ifs" "0 \<le> (510::int)" "[1, 2, 3::byte] \<noteq> []" "510 + int (length [1, 2, 3::byte]) \<le> ds_size (i_data demo_file)"
    by (simp_all add: demo_ifs_facts demo_file_facts NUM_FLUSH_BLOCKS_def)
  from write_data_stream_correct [OF demo_ifs_facts(1) this(1) demo_stream(1,3) demo_clear demo_file_facts(5) this(2-)]
  show ?thesis by (auto simp: demo_stream)
qed

theorem write_read_round_trip_witness:
  "\<exists>mi m1 m2. myfs_write_data_stream 7 demo_file 510 [1, 2, 3] demo_ifs = Some (0, 3, mi, m1) \<and>
    myfs_read_data_stream mi 510 3 m1 = Some (0, [1, 2, 3], m2)"
proof -
  have "0 < spare demo_ifs" "0 \<le> (510::int)" "[1, 2, 3::byte] \<noteq> []" "510 + int (length [1, 2, 3::byte]) \<le> ds_size (i_data demo_file)"
    by (simp_all add: demo_ifs_facts demo_file_facts NUM_FLUSH_BLOCKS_def)
  from write_read_round_trip [OF demo_ifs_facts(1) this(1) demo_stream(1,3) demo_clear demo_file_facts(5) this(2-)]
  show ?thesis by (simp add: numeral_3_eq_3)
qed

end
