(* ===== verification/Stream_Grow.thy ===== *)
theory Stream_Grow
  imports Stream_Write Inode_Map
begin

text \<open>
  Growing a file within its direct blocks: \<open>grow_dstream\<close> takes free blocks, and a write at the end of a file appends
  to its contents.
\<close>

section \<open>Taking blocks\<close>

text \<open>The blocks \<open>bl\<close> were free and now are used; apart from the map no block changed.\<close>

definition taken_blocks :: "(int \<Rightarrow> int) \<Rightarrow> BitVector \<Rightarrow> myfs_info \<Rightarrow> fs_off_t list \<Rightarrow> BitVector \<Rightarrow> myfs_info \<Rightarrow> bool" where
  "taken_blocks bs bv m bl bv' m' \<longleftrightarrow> fs_move bs m m' \<and> map_ok bs bv' m' \<and> distinct bl \<and>
     (\<forall>b \<in> set bl. num_bitmap_blocks m < b \<and> b < num_blocks (dsb m) \<and> nat b \<notin> used_bits bv) \<and>
     used_bits bv' = used_bits bv \<union> nat ` set bl \<and> same_blks bs {1..num_bitmap_blocks m} m m' \<and> inode_map m' = inode_map m \<and>
     dsb m' = (dsb m)\<lparr>used_blocks := used_blocks (dsb m) + int (length bl),
       sb_flags := (if bl = [] then sb_flags (dsb m) else MYFS_DIRTY)\<rparr> \<and> (exact_map bv m \<longrightarrow> exact_map bv' m')"

lemma taken_blocksD:
  assumes "taken_blocks bs bv m bl bv' m'"
  shows "fs_move bs m m'" "map_ok bs bv' m'" "distinct bl" "\<And>b. b \<in> set bl \<Longrightarrow> num_bitmap_blocks m < b"
    "\<And>b. b \<in> set bl \<Longrightarrow> b < num_blocks (dsb m)" "\<And>b. b \<in> set bl \<Longrightarrow> nat b \<notin> used_bits bv"
    "used_bits bv' = used_bits bv \<union> nat ` set bl" "same_blks bs {1..num_bitmap_blocks m} m m'" "inode_map m' = inode_map m"
    "dsb m' = (dsb m)\<lparr>used_blocks := used_blocks (dsb m) + int (length bl),
       sb_flags := (if bl = [] then sb_flags (dsb m) else MYFS_DIRTY)\<rparr>" "exact_map bv m \<Longrightarrow> exact_map bv' m'"
  using assms unfolding taken_blocks_def by blast+

lemma taken_blocks_none:
  assumes ok: "fs_ok bs m" and mo: "map_ok bs bv m" and bv': "bv' = bv \<or> bv' = bv\<lparr>is_full := True\<rparr>"
    and ex: "bv' = bv \<or> (exact_map bv m \<longrightarrow> used_bits bv = {..<nat (num_blocks (dsb m))})"
  shows "taken_blocks bs bv m [] bv' (m\<lparr>bbm_bv := Some bv'\<rparr>)"
proof -
  let ?m = "m\<lparr>bbm_bv := Some bv'\<rparr>"
  have "fs_move bs m ?m"
  proof (rule fs_moveI)
    show "?m = m\<lparr>bbm_bv := Some bv', inode_map := inode_map m,
        dsb := (dsb m)\<lparr>used_blocks := used_blocks (dsb m), sb_flags := sb_flags (dsb m)\<rparr>, cache := cache m\<rparr>" by simp
    show "bc.calm bs (cache m) (cache m)" by (rule bc.calm_refl) (rule fs_okD(5) [OF ok])
  qed simp
  moreover have "fs_blk bs ?m b = fs_blk bs m b" for b by (simp add: fs_blk_def)
  moreover have "used_bits bv' = used_bits bv" "bits bv' = bits bv" "bv_wf bv'" "numbits bv' = numbits bv"
    using bv' map_okD(3) [OF mo] by (auto simp: used_bits_def bv_wf_def)
  moreover have "exact_map bv' ?m" if "exact_map bv m"
  proof (cases "bv' = bv")
    case True
    then show ?thesis using that by (simp add: exact_map_def)
  next
    case False
    then show ?thesis using exact_marked [OF that mo _ bv'] ex that by simp
  qed
  ultimately show ?thesis using mo by (simp add: taken_blocks_def map_ok_def same_blks_def)
qed

lemma taken_blocks_refl:
  assumes "fs_ok bs m" "map_ok bs bv m"
  shows "taken_blocks bs bv m [] bv m"
proof -
  have "m\<lparr>bbm_bv := Some bv\<rparr> = m" using map_okD(1) [OF assms(2)] by simp
  then show ?thesis using taken_blocks_none [OF assms, of bv] by simp
qed

lemma taken_blocks_trans:
  assumes a: "taken_blocks bs bv m xs bv1 m1" and b: "taken_blocks bs bv1 m1 ys bv2 m2"
  shows "taken_blocks bs bv m (xs @ ys) bv2 m2"
proof -
  note A = taken_blocksD [OF a] and B = taken_blocksD [OF b]
  note S = fs_moveD [OF A(1)]
  have "same_blks bs {1..num_bitmap_blocks m} m m2" using same_blks_trans [OF A(8) B(8)] S(2,12) by simp
  moreover have "dsb m2 = (dsb m)\<lparr>used_blocks := used_blocks (dsb m) + int (length (xs @ ys)),
      sb_flags := (if xs @ ys = [] then sb_flags (dsb m) else MYFS_DIRTY)\<rparr>"
    unfolding B(10) A(10) by simp
  moreover have "distinct (xs @ ys)"
  proof -
    have "False" if x: "x \<in> set xs" "x \<in> set ys" for x
      using B(6) [OF x(2)] x(1) A(7) by blast
    then show ?thesis using A(3) B(3) by auto
  qed
  moreover have "\<forall>b \<in> set (xs @ ys). num_bitmap_blocks m < b \<and> b < num_blocks (dsb m) \<and> nat b \<notin> used_bits bv"
    using A(4-6) B(4-6) A(7) S(2,12) by auto
  moreover have "used_bits bv2 = used_bits bv \<union> nat ` set (xs @ ys)" using A(7) B(7) by (auto simp: image_Un)
  ultimately show ?thesis unfolding taken_blocks_def using fs_move_trans [OF A(1) B(1)] B(2) A(9) B(9) A(11) B(11) by simp
qed

text \<open>What is taken was free, so with an exact map no more blocks are taken than are free.\<close>

lemma taken_blocks_count:
  assumes "taken_blocks bs bv m bl bv' m'" "exact_map bv m" "map_ok bs bv m"
  shows "int (length bl) \<le> num_blocks (dsb m) - used_blocks (dsb m)"
    "used_bits bv' = {..<nat (num_blocks (dsb m))} \<Longrightarrow> int (length bl) = num_blocks (dsb m) - used_blocks (dsb m)"
proof -
  note T = taken_blocksD [OF assms(1)]
  have c: "used_blocks (dsb m) + int (length bl) = int (card (used_bits bv'))"
    using T(11) [OF assms(2)] by (simp add: exact_map_def T(10))
  show "int (length bl) \<le> num_blocks (dsb m) - used_blocks (dsb m)"
    using c used_bits_card [OF map_okD(3) [OF T(2)]] map_okD(4) [OF T(2)] fs_moveD(12) [OF T(1)] by simp
  show "int (length bl) = num_blocks (dsb m) - used_blocks (dsb m)" if "used_bits bv' = {..<nat (num_blocks (dsb m))}"
    using c that map_okD(6,7) [OF assms(3)] by simp
qed

lemma new_block_cases:
  assumes ok: "fs_ok bs m" and sp: "0 \<le> spare m" and mo: "map_ok bs bv m"
  obtains (full) bv' m' where "new_block mi m = Some (Inl ENOSPC, m')" "taken_blocks bs bv m [] bv' m'"
      "exact_map bv m \<Longrightarrow> used_bits bv = {..<nat (num_blocks (dsb m))}"
  | (got) b bv' m' where "new_block mi m = Some (Inr b, m')" "taken_blocks bs bv m [b] bv' m'"
proof (cases rule: alloc_block [OF ok sp mo, of "inode_num mi"])
  case (1 bv')
  then have "taken_blocks bs bv m [] bv' (m\<lparr>bbm_bv := Some bv'\<rparr>)" using taken_blocks_none [OF ok mo 1(2)] by blast
  moreover have "new_block mi m = Some (Inl ENOSPC, m\<lparr>bbm_bv := Some bv'\<rparr>)" using 1(1) by (simp add: new_block_def)
  ultimately show thesis using 1(3) by (intro full)
next
  case (2 b bv' m')
  have "0 < b" using 2(3) map_okD(6) [OF mo] by simp
  moreover have "taken_blocks bs bv m [b] bv' m'" unfolding taken_blocks_def using 2(2-11) by simp
  ultimately show thesis using got 2(1) by (simp add: new_block_def)
qed

section \<open>The loop over the direct blocks\<close>

definition put_at :: "'a list \<Rightarrow> nat \<Rightarrow> 'a list \<Rightarrow> 'a list" where
  "put_at xs i ys = take i xs @ ys @ drop (i + length ys) xs"

lemma put_at_Nil [simp]: "put_at xs i [] = xs"
  by (simp add: put_at_def)

lemma put_at_Cons: "i < length xs \<Longrightarrow> put_at (xs[i := y]) (Suc i) ys = put_at xs i (y # ys)"
  by (simp add: put_at_def take_Suc_conv_app_nth)

lemma put_at_length: "i + length ys \<le> length xs \<Longrightarrow> length (put_at xs i ys) = length xs"
  by (simp add: put_at_def)

lemma put_at_nth: "i + length ys \<le> length xs \<Longrightarrow> j < i + length ys \<Longrightarrow>
    put_at xs i ys ! j = (if j < i then xs ! j else ys ! (j - i))"
  by (auto simp: put_at_def nth_append)

definition with_blocks :: "int \<Rightarrow> nat \<Rightarrow> fs_off_t list \<Rightarrow> myfs_inode \<Rightarrow> myfs_inode" where
  "with_blocks z i bl mi = upd_data (\<lambda>d. d\<lparr>direct := put_at (direct d) i bl, ds_size := ds_size d + int (length bl) * z\<rparr>) mi"

lemma grow_direct_good:
  assumes "fs_ok bs m" "0 \<le> spare m" "map_ok bs bv m" "index + k \<le> NUM_DIRECT_BLOCKS"
    "length (direct (i_data mi)) = NUM_DIRECT_BLOCKS"
  shows "\<exists>e k' bl bv' m'. grow_direct z k index mi m = Some (e, k', with_blocks z index bl mi, m') \<and> taken_blocks bs bv m bl bv' m' \<and>
    length bl + k' = k \<and> e = (if k' = 0 then None else Some ENOSPC) \<and>
    (k' \<noteq> 0 \<longrightarrow> exact_map bv m \<longrightarrow> used_bits bv' = {..<nat (num_blocks (dsb m))})"
  using assms
proof (induction k arbitrary: index mi m bv)
  case 0
  have "taken_blocks bs bv m [] bv m" by (rule taken_blocks_refl [OF 0(1,3)])
  then show ?case by (intro exI [of _ None] exI [of _ 0] exI [of _ "[]"] exI [of _ bv] exI [of _ m]) (simp add: with_blocks_def)
next
  case (Suc k)
  have i: "index < NUM_DIRECT_BLOCKS" using Suc.prems(4) by simp
  show ?case
  proof (cases rule: new_block_cases [OF Suc.prems(1-3), of mi])
    case (1 bv' m')
    have "used_bits bv' = used_bits bv" using taken_blocksD(7) [OF 1(2)] by simp
    then have "exact_map bv m \<longrightarrow> used_bits bv' = {..<nat (num_blocks (dsb m))}" using 1(3) by simp
    then show ?thesis using i 1(1,2)
      by (intro exI [of _ "Some ENOSPC"] exI [of _ "Suc k"] exI [of _ "[]"] exI [of _ bv'] exI [of _ m']) (simp add: with_blocks_def)
  next
    case (2 b bv1 m1)
    let ?mi = "upd_data (\<lambda>d. d\<lparr>direct := (direct d)[index := b], ds_size := ds_size d + z\<rparr>) mi"
    note T = taken_blocksD [OF 2(2)]
    have "\<exists>e k' bl bv' m'. grow_direct z k (Suc index) ?mi m1 = Some (e, k', with_blocks z (Suc index) bl ?mi, m') \<and>
        taken_blocks bs bv1 m1 bl bv' m' \<and> length bl + k' = k \<and> e = (if k' = 0 then None else Some ENOSPC) \<and>
        (k' \<noteq> 0 \<longrightarrow> exact_map bv1 m1 \<longrightarrow> used_bits bv' = {..<nat (num_blocks (dsb m1))})"
      by (rule Suc.IH [OF fs_move_ok [OF T(1) Suc.prems(1)] _ T(2)]) (use Suc.prems fs_moveD(8) [OF T(1)] in simp_all)
    then obtain e k' bl bv' m' where r: "grow_direct z k (Suc index) ?mi m1 = Some (e, k', with_blocks z (Suc index) bl ?mi, m')"
      "taken_blocks bs bv1 m1 bl bv' m'" "length bl + k' = k" "e = (if k' = 0 then None else Some ENOSPC)"
      "k' \<noteq> 0 \<longrightarrow> exact_map bv1 m1 \<longrightarrow> used_bits bv' = {..<nat (num_blocks (dsb m1))}" by (elim exE conjE) (rule that)
    have "with_blocks z (Suc index) bl ?mi = with_blocks z index (b # bl) mi"
      using put_at_Cons [of index "direct (i_data mi)" b bl] i Suc.prems(5) by (simp add: with_blocks_def distrib_right)
    moreover have "taken_blocks bs bv m (b # bl) bv' m'" using taken_blocks_trans [OF 2(2) r(2)] by simp
    moreover have "k' \<noteq> 0 \<longrightarrow> exact_map bv m \<longrightarrow> used_bits bv' = {..<nat (num_blocks (dsb m))}"
      using r(5) T(11) fs_moveD(12) [OF T(1)] by simp
    ultimately show ?thesis using i 2(1) r(1-4)
      by (intro exI [of _ e] exI [of _ k'] exI [of _ "b # bl"] exI [of _ bv'] exI [of _ m']) simp
  qed
qed

section \<open>Growing\<close>

text \<open>How many blocks \<open>x\<close> bytes need.\<close>

definition bcount :: "myfs_info \<Rightarrow> int \<Rightarrow> int" where
  "bcount m x = (x + bsize_of m - 1) div bsize_of m"

definition resized :: "fs_off_t \<Rightarrow> nat \<Rightarrow> fs_off_t list \<Rightarrow> myfs_inode \<Rightarrow> myfs_inode" where
  "resized new i bl mi = upd_data (\<lambda>d. d\<lparr>direct := put_at (direct d) i bl, ds_size := new\<rparr>) mi"

lemma nblks_bcount: "nblks m mi = nat (bcount m (ds_size (i_data mi)))"
  by (simp add: nblks_def bcount_def)

lemma bcount_facts:
  assumes ok: "fs_ok bs m"
  shows "0 \<le> x \<Longrightarrow> 0 \<le> bcount m x" "x \<le> bcount m x * bsize_of m" "bcount m x * bsize_of m < x + bsize_of m"
    "x \<le> y \<Longrightarrow> bcount m x \<le> bcount m y" "x \<le> n * bsize_of m \<Longrightarrow> bcount m x \<le> n" "round_up (bsize_of m) x = bcount m x * bsize_of m"
proof -
  let ?z = "bsize_of m"
  have z: "0 < ?z" using fs_okD(1) [OF ok] by simp
  show "0 \<le> bcount m x" if "0 \<le> x" using that z by (simp add: bcount_def pos_imp_zdiv_nonneg_iff)
  have e: "bcount m x * ?z + (x + ?z - 1) mod ?z = x + ?z - 1" by (simp add: bcount_def)
  have r: "0 \<le> (x + ?z - 1) mod ?z" "(x + ?z - 1) mod ?z < ?z" using z by simp_all
  show "x \<le> bcount m x * ?z" "bcount m x * ?z < x + ?z" using e r by linarith+
  show "bcount m x \<le> bcount m y" if "x \<le> y" using that z by (simp add: bcount_def zdiv_mono1)
  show "bcount m x \<le> n" if "x \<le> n * ?z"
  proof -
    have "x + ?z - 1 < (n + 1) * ?z" using that by (simp add: distrib_right)
    then have "(x + ?z - 1) div ?z < n + 1" using zdiv_less_iff [OF z] by blast
    then show ?thesis by (simp add: bcount_def)
  qed
  show "round_up ?z x = bcount m x * ?z" by (simp add: round_up_def fs_ok_align [OF ok] bcount_def)
qed

lemma grow_good:
  assumes ok: "fs_ok bs m" and sp: "0 \<le> spare m" and mo: "map_ok bs bv m"
    and ld: "length (direct (i_data mi)) = NUM_DIRECT_BLOCKS" and sz: "0 \<le> ds_size (i_data mi)" "ds_size (i_data mi) \<le> new"
    and new: "new \<le> MAX_DIRECT_RANGE (bsize_of m)"
    and zero: "nblks m mi < NUM_DIRECT_BLOCKS \<longrightarrow> direct (i_data mi) ! nblks m mi = 0"
  obtains (grown) bl bv' m' where "grow_dstream new mi m = Some (0, resized new (nblks m mi) bl mi, m')"
      "taken_blocks bs bv m bl bv' m'" "int (length bl) = bcount m new - bcount m (ds_size (i_data mi))"
  | (full) bl bv' m' where "grow_dstream new mi m =
        Some (ENOSPC, resized (int (nblks m mi + length bl) * bsize_of m) (nblks m mi) bl mi, m')"
      "taken_blocks bs bv m bl bv' m'" "int (length bl) < bcount m new - bcount m (ds_size (i_data mi))"
      "exact_map bv m \<Longrightarrow> used_bits bv' = {..<nat (num_blocks (dsb m))}"
proof -
  let ?z = "bsize_of m" and ?s = "ds_size (i_data mi)"
  note K = fs_okD [OF ok] and B = bcount_facts [OF ok]
  let ?c = "bcount m ?s" and ?d = "bcount m new"
  have z: "0 < ?z" using K(1) by simp
  have cd: "0 \<le> ?c" "?c \<le> ?d" "?d \<le> int NUM_DIRECT_BLOCKS"
    using B(1) [OF sz(1)] B(4) [OF sz(2)] B(5) [of new "int NUM_DIRECT_BLOCKS"] new by (simp_all add: MAX_DIRECT_RANGE_def)
  have n: "int (nblks m mi) = ?c" using cd(1) by (simp add: nblks_bcount)
  have "0 \<le> ?z div 8 * (?z div 8 * ?z)" "0 \<le> ?z div 8 * ?z" using z by (simp_all add: pos_imp_zdiv_nonneg_iff)
  then have "new \<le> MAX_DOUBLE_INDIRECT_RANGE ?z"
    using new unfolding MAX_DOUBLE_INDIRECT_RANGE_def MAX_INDIRECT_RANGE_def by linarith
  moreover have "new < 2 ^ 64" using new z K(2) by (simp add: MAX_DIRECT_RANGE_def NUM_DIRECT_BLOCKS_def)
  then have "take_bit 64 new = new" using sz by (simp add: take_bit_int_eq_self_iff)
  ultimately have big: "\<not> take_bit 64 new > MAX_DOUBLE_INDIRECT_RANGE ?z" by simp
  show thesis
  proof (cases "?c = ?d")
    case True
    have "taken_blocks bs bv m [] bv m" by (rule taken_blocks_refl [OF ok mo])
    moreover have "grow_dstream new mi m = Some (0, resized new (nblks m mi) [] mi, m)"
      using True big K(9) by (simp add: grow_dstream_def B(6) resized_def)
    ultimately show thesis using grown [of "[]"] True by simp
  next
    case False
    let ?k = "nat (?d - ?c)" and ?mi = "upd_data (\<lambda>d. d\<lparr>ds_size := ?c * ?z\<rparr>) mi"
    have lt: "?c < ?d" "?c < int NUM_DIRECT_BLOCKS" "nblks m mi < NUM_DIRECT_BLOCKS" "nblks m mi + ?k \<le> NUM_DIRECT_BLOCKS"
      using False cd n by linarith+
    have eq: "c_div (?d * ?z - ?c * ?z) ?z = ?d - ?c" "c_div (?c * ?z) ?z = ?c" "?c * ?z \<noteq> ?d * ?z"
      "?c * ?z < MAX_DIRECT_RANGE ?z" "c_int ?c = ?c"
      using lt z cd(1) by (simp_all add: left_diff_distrib [symmetric] MAX_DIRECT_RANGE_def NUM_DIRECT_BLOCKS_def)
    obtain e k' bl bv' m' where g: "grow_direct ?z ?k (nblks m mi) ?mi m = Some (e, k', with_blocks ?z (nblks m mi) bl ?mi, m')"
      "taken_blocks bs bv m bl bv' m'" "length bl + k' = ?k" "e = (if k' = 0 then None else Some ENOSPC)"
      "k' \<noteq> 0 \<longrightarrow> exact_map bv m \<longrightarrow> used_bits bv' = {..<nat (num_blocks (dsb m))}"
      using grow_direct_good [OF ok sp mo lt(4), of ?mi ?z] ld by (elim exE conjE meta_impE) (simp, rule that)
    have w: "with_blocks ?z (nblks m mi) bl ?mi = resized ((?c + int (length bl)) * ?z) (nblks m mi) bl mi"
      by (simp add: with_blocks_def resized_def distrib_right)
    have gd: "grow_dstream new mi m = (case e of Some err \<Rightarrow> Some (err, with_blocks ?z (nblks m mi) bl ?mi, m')
        | None \<Rightarrow> if (?c + int (length bl)) * ?z \<ge> new then Some (0, resized new (nblks m mi) bl mi, m')
            else grow_into_indirect ?z new k' (with_blocks ?z (nblks m mi) bl ?mi) m')"
      using big K(9) eq zero [rule_format, OF lt(3)] g(1) n
      by (simp add: grow_dstream_def B(6) Let_def w nblks_bcount [symmetric] split: option.split) (simp add: resized_def)
    show thesis
    proof (cases "k' = 0")
      case True
      then have "?c + int (length bl) = ?d" using g(3) lt by linarith
      then show thesis using grown [of bl m' bv'] gd g(2,4) True B(2) [of new] by simp
    next
      case False
      then have "int (length bl) < ?d - ?c" using g(3) lt by linarith
      moreover have "int (nblks m mi + length bl) = ?c + int (length bl)" using n by simp
      moreover have "exact_map bv m \<Longrightarrow> used_bits bv' = {..<nat (num_blocks (dsb m))}" using g(5) False by blast
      ultimately show thesis using gd g(2,4) False w by (intro full [of bl m' bv']) simp_all
    qed
  qed
qed

section \<open>The file after growing\<close>

text \<open>A file at rest: its blocks and the block of its inode are used and lie behind the map.\<close>

definition file_ok :: "(int \<Rightarrow> int) \<Rightarrow> BitVector \<Rightarrow> myfs_info \<Rightarrow> myfs_inode \<Rightarrow> bool" where
  "file_ok bs bv m mi \<longleftrightarrow> stream_ok bs m mi \<and> stream_apart bs m mi \<and> inode_clear bs m mi \<and>
     (\<forall>b \<in> insert (inode_block m (inode_num mi)) (set (stream_blocks bs m mi)). num_bitmap_blocks m < b \<and> nat b \<in> used_bits bv)"

lemma file_okD:
  assumes "file_ok bs bv m mi"
  shows "stream_ok bs m mi" "stream_apart bs m mi" "inode_clear bs m mi" "num_bitmap_blocks m < inode_block m (inode_num mi)"
    "nat (inode_block m (inode_num mi)) \<in> used_bits bv" "\<And>b. b \<in> set (stream_blocks bs m mi) \<Longrightarrow> num_bitmap_blocks m < b"
    "\<And>b. b \<in> set (stream_blocks bs m mi) \<Longrightarrow> nat b \<in> used_bits bv"
  using assms unfolding file_ok_def by blast+

definition quiet :: "(int \<Rightarrow> int) \<Rightarrow> myfs_info \<Rightarrow> bool" where
  "quiet bs m \<longleftrightarrow> (\<forall>b. fs_has m b \<longrightarrow> \<not> loose bs m b)"

lemma file_data_blocks: "file_data bs m mi = concat (map (fs_blk bs m) (stream_blocks bs m mi))"
  by (simp add: file_data_def stream_blocks_def comp_def)

lemma inode_block_cong:
  assumes "inodes_start (dsb m') = inodes_start (dsb m)" "block_size (dsb m') = block_size (dsb m)"
    "num_inode_blocks (dsb m') = num_inode_blocks (dsb m)" "num_blocks (dsb m') = num_blocks (dsb m)"
  shows "inode_block m' ia = inode_block m ia" "in_table m' ia = in_table m ia" "itab_ok m' = itab_ok m"
  using assms by (simp_all add: inode_block_def in_table_def itab_ok_def)

lemma inode_at_keep:
  assumes ok: "fs_ok bs m" and it: "itab_ok m" "in_table m ia" and mv: "fs_move bs m m'" and sb: "same_blks bs A m m'"
    and "inode_block m ia \<notin> A"
  shows "inode_at bs m' ia = inode_at bs m ia"
proof -
  note S = fs_moveD [OF mv]
  have "inode_block m' ia = inode_block m ia" "inode_offset m' ia = inode_offset m ia"
    using inode_block_cong(1) [OF S(16,11,17,12)] S(11) by (simp_all add: inode_offset_def)
  then show ?thesis using same_blksD [OF sb inode_place(3) [OF ok it] assms(6)] by (simp add: inode_at_def)
qed

lemma grown_file:
  assumes ok: "fs_ok bs m" and mo: "map_ok bs bv m" and q: "quiet bs m" and fo: "file_ok bs bv m mi"
    and tk: "taken_blocks bs bv m bl bv' m'" and new: "ds_size (i_data mi) \<le> new" "new \<le> MAX_DIRECT_RANGE (bsize_of m)"
    and len: "int (length bl) = bcount m new - bcount m (ds_size (i_data mi))"
  defines "mi' \<equiv> resized new (nblks m mi) bl mi"
  shows "file_ok bs bv' m' mi'" "stream_blocks bs m' mi' = stream_blocks bs m mi @ bl"
    "take (nat (ds_size (i_data mi))) (file_bytes bs m' mi') = file_bytes bs m mi" "quiet bs m'"
proof -
  note T = taken_blocksD [OF tk] and F = file_okD [OF fo] and B = bcount_facts [OF ok]
  note S = fs_moveD [OF T(1)]
  let ?s = "ds_size (i_data mi)" and ?n = "nblks m mi"
  have ld: "length (direct (i_data mi)) = NUM_DIRECT_BLOCKS" "0 \<le> ?s" using F(1) by (simp_all add: stream_ok_def)
  have mi': "ds_size (i_data mi') = new" "direct (i_data mi') = put_at (direct (i_data mi)) ?n bl" "inode_num mi' = inode_num mi"
    by (simp_all add: mi'_def resized_def)
  have c: "0 \<le> bcount m ?s" "bcount m new \<le> int NUM_DIRECT_BLOCKS"
    using B(1) [OF ld(2)] B(5) [of new "int NUM_DIRECT_BLOCKS"] new(2) by (simp_all add: MAX_DIRECT_RANGE_def)
  have n6: "?n + length bl \<le> NUM_DIRECT_BLOCKS" using c len by (simp add: nblks_bcount)
  have nb': "nblks m' mi' = ?n + length bl"
    using c(1) len S(11) by (simp add: nblks_bcount mi'(1) bcount_def)
  have pl: "?n + length bl \<le> length (direct (i_data mi))" using n6 ld(1) by simp
  have nth': "nth_block bs m' mi' i = (if i < ?n then nth_block bs m mi i else bl ! (i - ?n))" if "i < ?n + length bl" for i
    using that n6 put_at_nth [OF pl, of i] by (simp add: nth_block_def mi'(2))
  show sl: "stream_blocks bs m' mi' = stream_blocks bs m mi @ bl"
    by (rule nth_equalityI) (auto simp: stream_blocks_def nb' nth' nth_append)
  have has: "fs_has m b" if "b \<in> set bl" for b using that T(4,5) map_okD(6) [OF mo] by (fastforce simp: fs_has_def)
  show q': "quiet bs m'" using q S(9,19) by (auto simp: quiet_def)
  have hasb: "fs_has m b" if "b \<in> set (stream_blocks bs m mi)" for b
    using that F(1) by (auto simp: stream_blocks_def stream_ok_def usable_def)
  have us: "usable bs m' b" if "b \<in> set (stream_blocks bs m' mi')" for b
    using that has hasb q' S(19) unfolding sl by (auto simp: usable_def quiet_def)
  have le: "new \<le> MAX_INDIRECT_RANGE (bsize_of m)" "\<not> MAX_DIRECT_RANGE (bsize_of m') < new"
    using new(2) fs_okD(1) [OF ok] S(11) by (simp_all add: MAX_INDIRECT_RANGE_def pos_imp_zdiv_nonneg_iff add_increasing)
  have so': "stream_ok bs m' mi'"
    unfolding stream_ok_def mi' using us le ld new(1) S(11) put_at_length [OF pl] by (auto simp: stream_blocks_def)
  have "set (stream_blocks bs m mi) \<inter> set bl = {}" using F(7) T(6) by blast
  then have ap': "stream_apart bs m' mi'" unfolding stream_apart_def sl mi' using F(2) T(3) le(2) by (simp add: stream_apart_def)
  note I = inode_block_cong [OF S(16,11,17,12)]
  have ic': "inode_clear bs m' mi'" unfolding inode_clear_def sl I mi'
    using F(3,5) T(6) le(2) by (auto simp: inode_clear_def)
  show "file_ok bs bv' m' mi'" unfolding file_ok_def I sl mi' using so' ap' ic' F(4-7) T(4,7) S(2) by auto
  have old: "map (fs_blk bs m') (stream_blocks bs m mi) = map (fs_blk bs m) (stream_blocks bs m mi)"
    using F(6) hasb T(8) by (force simp: same_blks_def)
  have fd: "file_data bs m' mi' = file_data bs m mi @ concat (map (fs_blk bs m') bl)"
    unfolding file_data_blocks sl by (simp add: old)
  show "take (nat ?s) (file_bytes bs m' mi') = file_bytes bs m mi"
    using new(1) ld(2) file_blocks_length(3) [OF ok F(1)] by (simp add: file_bytes_def mi' fd min_def)
qed

section \<open>Steps that leave the map and the file alone\<close>

lemma map_ok_keep:
  assumes "map_ok bs bv m" "fs_move bs m m'" "same_blks bs A m m'" "A \<inter> {1..num_bitmap_blocks m} = {}" "bbm_bv m' = bbm_bv m"
  shows "map_ok bs bv m'"
proof -
  note M = map_okD [OF assms(1)] and S = fs_moveD [OF assms(2)]
  have "fs_blk bs m' (1 + int j) = fs_blk bs m (1 + int j)" if "j < nat (num_bitmap_blocks m)" for j
    using that M(7) assms(4) by (intro same_blksD [OF assms(3)]) (auto simp: fs_has_def)
  then show ?thesis using M S assms(5) by (simp add: map_ok_def)
qed

lemma file_ok_keep:
  assumes ok: "fs_ok bs m" and fo: "file_ok bs bv m mi" and mv: "fs_move bs m m'" and sb: "same_blks bs A m m'"
    and ind: "MAX_DIRECT_RANGE (bsize_of m) < ds_size (i_data mi) \<longrightarrow> indirect (i_data mi) \<notin> A"
  shows "file_ok bs bv m' mi" "stream_blocks bs m' mi = stream_blocks bs m mi"
    "set (stream_blocks bs m mi) \<inter> A = {} \<Longrightarrow> file_bytes bs m' mi = file_bytes bs m mi"
proof -
  note F = file_okD [OF fo] and S = fs_moveD [OF mv]
  note M = stream_move [OF ok mv sb F(1) ind] and I = inode_block_cong [OF S(16,11,17,12)]
  show "stream_blocks bs m' mi = stream_blocks bs m mi" by (rule M(3))
  show "file_ok bs bv m' mi" unfolding file_ok_def inode_clear_def I M(3)
    using M(1) M(5) [OF F(2)] F(3-7) S(2,11) by (auto simp: inode_clear_def)
  show "file_bytes bs m' mi = file_bytes bs m mi" if "set (stream_blocks bs m mi) \<inter> A = {}"
    using stream_data_keep [OF ok mv sb F(1) ind that] by (simp add: file_bytes_def)
qed

lemma quiet_move: "fs_move bs m m' \<Longrightarrow> quiet bs m \<Longrightarrow> quiet bs m'"
  using fs_moveD(9,19) [of bs m m'] by (auto simp: quiet_def)

text \<open>Storing the inode and the super block.\<close>

lemma commit_good:
  assumes ok: "fs_ok bs m" and sp: "0 < spare m" and mo: "map_ok bs bv m" and sm: "sb_mem m" and fo: "file_ok bs bv m mi"
    and ty: "inode_typed mi" and sz: "ds_size (i_data mi) \<le> MAX_DIRECT_RANGE (bsize_of m)"
  obtains m1 m2 where "update_inode mi m = Some m1" "write_super_block m1 = Some (0, m2)" "fs_move bs m m2"
    "same_blks bs {inode_block m (inode_num mi)} m m2" "map_ok bs bv m2" "file_ok bs bv m2 mi"
    "file_bytes bs m2 mi = file_bytes bs m mi" "stream_blocks bs m2 mi = stream_blocks bs m mi"
    "used_blocks (dsb m2) = used_blocks (dsb m)" "inode_at bs m2 (inode_num mi) = inode_bytes mi"
proof -
  let ?ib = "inode_block m (inode_num mi)"
  note F = file_okD [OF fo]
  have it: "itab_ok m" "in_table m (inode_num mi)" using F(3) by (simp_all add: inode_clear_def)
  obtain m1 where u: "update_inode mi m = Some m1" "fs_step bs m m1" "same_blks bs {?ib} m m1"
    "inode_at bs m1 (inode_num mi) = inode_bytes mi"
    by (rule update_inode_good [OF ok sp it ty]) (rule that, assumption+)
  note S = fs_stepD [OF u(2)]
  have sm1: "sb_mem m1" using sm fs_moveD(1) [OF fs_step_is_move [OF u(2)]] S(1) by (simp add: sb_mem_def)
  obtain m2 where w: "write_super_block m1 = Some (0, m2)" "fs_move bs m1 m2" "same_blks bs {} m1 m2" "bbm_bv m2 = bbm_bv m1"
    "dsb m2 = clean_sb (dsb m1)"
    by (rule write_super_block_good [OF fs_step_ok [OF u(2) ok] sm1]) (rule that, assumption+)
  have mv: "fs_move bs m m2" by (rule fs_move_trans [OF fs_step_is_move [OF u(2)] w(2)])
  have sb: "same_blks bs {?ib} m m2" using same_blks_trans [OF u(3) w(3)] S(1) by simp
  have bb: "bbm_bv m2 = bbm_bv m" using w(4) u(2) by (auto elim: fs_stepE)
  have mo2: "map_ok bs bv m2" by (rule map_ok_keep [OF mo mv sb _ bb]) (use F(4) in auto)
  have ind: "MAX_DIRECT_RANGE (bsize_of m) < ds_size (i_data mi) \<longrightarrow> indirect (i_data mi) \<notin> {?ib}" using sz by simp
  note K = file_ok_keep [OF ok fo mv sb ind]
  have "set (stream_blocks bs m mi) \<inter> {?ib} = {}" using F(3) by (simp add: inode_clear_def)
  moreover have "used_blocks (dsb m2) = used_blocks (dsb m)" using w(5) S(1) by (simp add: clean_sb_def)
  moreover have "inode_at bs m2 (inode_num mi) = inode_bytes mi"
    using u(4) inode_at_keep [OF fs_step_ok [OF u(2) ok] _ _ w(2,3)] it inode_place_cong [OF S(1)] by simp
  ultimately show thesis by (intro that [OF u(1) w(1) mv sb mo2 K(1) K(3) K(2)])
qed

lemma inode_typed_resized:
  assumes ty: "inode_typed (mi\<lparr>last_modified_time := t\<rparr>)" and bl: "\<forall>b \<in> set bl. 0 \<le> b \<and> b < 2 ^ 31"
    and i: "i + length bl \<le> NUM_DIRECT_BLOCKS" and new: "0 \<le> new" "new < 2 ^ 62"
  shows "inode_typed ((resized new i bl mi)\<lparr>last_modified_time := t\<rparr>)"
proof -
  have "set (put_at (direct (i_data mi)) i bl) \<subseteq> set (direct (i_data mi)) \<union> set bl"
    using set_take_subset set_drop_subset unfolding put_at_def by fastforce
  moreover have "fits_s 8 b" if "b \<in> set bl" for b using bl that by (force simp: fits_s_def)
  moreover have "fits_s 8 b" if "b \<in> set (direct (i_data mi))" for b using ty that by (simp add: inode_typed_def list_all_iff)
  ultimately have "list_all (fits_s 8) (put_at (direct (i_data mi)) i bl)" unfolding list_all_iff by blast
  then show ?thesis using ty new i put_at_length [of i bl "direct (i_data mi)"]
    by (simp add: inode_typed_def resized_def fits_s_def)
qed

lemma sb_mem_taken:
  assumes "sb_mem m" "taken_blocks bs bv m bl bv' m'" "0 \<le> used_blocks (dsb m)" "used_blocks (dsb m) + int (length bl) < 2 ^ 62"
  shows "sb_mem m'"
proof -
  have "sb_typed (dsb m')" unfolding taken_blocksD(10) [OF assms(2)]
    using assms(1,3,4) by (auto simp: sb_mem_def sb_typed_def fits_s_def MYFS_DIRTY_def)
  then show ?thesis using assms(1) fs_moveD(1,11) [OF taken_blocksD(1) [OF assms(2)]] by (simp add: sb_mem_def)
qed

lemma overwrite_take:
  assumes "p + length ys \<le> n" "n \<le> length xs"
  shows "take n (overwrite xs p ys) = overwrite (take n xs) p ys"
proof (cases "p < n")
  case True
  then show ?thesis using assms by (auto simp: overwrite_def drop_take min_def)
next
  case False
  then have "n = p" "length ys = 0" using assms by linarith+
  then show ?thesis using assms by (simp add: overwrite_def)
qed

lemma file_bytes_length: "fs_ok bs m \<Longrightarrow> stream_ok bs m mi \<Longrightarrow> length (file_bytes bs m mi) = nat (ds_size (i_data mi))"
  using file_blocks_length(3) [of bs m mi] by (simp add: file_bytes_def)

lemma overwrite_end:
  assumes "take s xs = ys" "p \<le> s" "s \<le> length xs" "length xs = p + length zs"
  shows "overwrite xs p zs = take p ys @ zs"
  using assms by (auto simp: overwrite_def min_def)

lemma stamp_file:
  "stream_blocks bs m (mi\<lparr>last_modified_time := t\<rparr>) = stream_blocks bs m mi"
  "file_ok bs bv m (mi\<lparr>last_modified_time := t\<rparr>) = file_ok bs bv m mi"
proof -
  have "nth_block bs m (mi\<lparr>last_modified_time := t\<rparr>) i = nth_block bs m mi i" for i by (simp add: nth_block_def cong: if_cong)
  then show sl: "stream_blocks bs m (mi\<lparr>last_modified_time := t\<rparr>) = stream_blocks bs m mi"
    by (simp add: stream_blocks_def nblks_def)
  show "file_ok bs bv m (mi\<lparr>last_modified_time := t\<rparr>) = file_ok bs bv m mi"
    by (simp add: file_ok_def stream_apart_def inode_clear_def sl)
qed

section \<open>A write past the end\<close>

text \<open>The part of a write after the file has grown.\<close>

lemma store_good:
  assumes ok: "fs_ok bs m" and sp: "0 < spare m" and mo: "map_ok bs bv m" and sm: "sb_mem m" and fo: "file_ok bs bv m mi"
    and ty: "inode_typed mi" and sz: "ds_size (i_data mi) \<le> MAX_DIRECT_RANGE (bsize_of m)"
    and pos: "0 \<le> pos" "buf \<noteq> []" "pos + int (length buf) \<le> ds_size (i_data mi)"
  obtains m1 m2 m3 m4 where "update_inode mi m = Some m1" "write_super_block m1 = Some (0, m2)"
    "write_blocks_at (bsize_of m) mi pos buf m2 = Some (0, length buf, m3)" "update_inode mi m3 = Some m4" "fs_move bs m m4"
    "map_ok bs bv m4" "file_ok bs bv m4 mi" "file_bytes bs m4 mi = overwrite (file_bytes bs m mi) (nat pos) buf"
    "same_blks bs (insert (inode_block m (inode_num mi)) (set (stream_blocks bs m mi))) m m4"
    "inode_at bs m4 (inode_num mi) = inode_bytes mi" "used_blocks (dsb m4) = used_blocks (dsb m)"
    "stream_blocks bs m4 mi = stream_blocks bs m mi"
proof -
  let ?ib = "inode_block m (inode_num mi)" and ?B = "set (stream_blocks bs m mi)"
  obtain m1 m2 where c: "update_inode mi m = Some m1" "write_super_block m1 = Some (0, m2)" "fs_move bs m m2"
    "same_blks bs {?ib} m m2" "map_ok bs bv m2" "file_ok bs bv m2 mi"
    "file_bytes bs m2 mi = file_bytes bs m mi" "stream_blocks bs m2 mi = stream_blocks bs m mi"
    "used_blocks (dsb m2) = used_blocks (dsb m)"
    by (rule commit_good [OF ok sp mo sm fo ty sz]) (rule that, assumption+)
  note S2 = fs_moveD [OF c(3)] and F2 = file_okD [OF c(6)]
  have ok2: "fs_ok bs m2" by (rule fs_move_ok [OF c(3) ok])
  have sp2: "0 < spare m2" using sp S2(8) by simp
  obtain m3 where w: "write_blocks_at (bsize_of m2) mi pos buf m2 = Some (0, length buf, m3)" "fs_step bs m2 m3"
    "same_blks bs (set (stream_blocks bs m2 mi)) m2 m3" "file_data bs m3 mi = overwrite (file_data bs m2 mi) (nat pos) buf"
    by (rule write_blocks_at_good [OF ok2 sp2 F2(1,2) pos]) (rule that, assumption+)
  note mv3 = fs_step_is_move [OF w(2)] and ok3 = fs_step_ok [OF w(2) ok2]
  have bb: "bbm_bv m3 = bbm_bv m2" using w(2) by (auto elim: fs_stepE)
  have mo3: "map_ok bs bv m3" by (rule map_ok_keep [OF c(5) mv3 w(3) _ bb]) (use F2(6) in fastforce)
  have ind: "MAX_DIRECT_RANGE (bsize_of m2) < ds_size (i_data mi) \<longrightarrow> indirect (i_data mi) \<notin> set (stream_blocks bs m2 mi)"
    using F2(2) by (simp add: stream_apart_def)
  note K3 = file_ok_keep [OF ok2 c(6) mv3 w(3) ind]
  note fo3 = K3(1)
  note F3 = file_okD [OF fo3] and S3 = fs_moveD [OF mv3]
  have it: "0 < spare m3" "itab_ok m3" "in_table m3 (inode_num mi)" using sp2 S3(8) F3(3) by (simp_all add: inode_clear_def)
  obtain m4 where u: "update_inode mi m3 = Some m4" "fs_step bs m3 m4" "same_blks bs {inode_block m3 (inode_num mi)} m3 m4"
    "inode_at bs m4 (inode_num mi) = inode_bytes mi"
    by (rule update_inode_good [OF ok3 it ty]) (rule that, assumption+)
  note mv4 = fs_step_is_move [OF u(2)]
  have ind3: "MAX_DIRECT_RANGE (bsize_of m3) < ds_size (i_data mi) \<longrightarrow> indirect (i_data mi) \<notin> {inode_block m3 (inode_num mi)}"
    "set (stream_blocks bs m3 mi) \<inter> {inode_block m3 (inode_num mi)} = {}" using F3(3) by (auto simp: inode_clear_def)
  note K4 = file_ok_keep [OF ok3 fo3 mv4 u(3) ind3(1)]
  have bb4: "bbm_bv m4 = bbm_bv m3" using u(2) by (auto elim: fs_stepE)
  have mo4: "map_ok bs bv m4" by (rule map_ok_keep [OF mo3 mv4 u(3) _ bb4]) (use F3(4) in auto)
  have ib: "inode_block m3 (inode_num mi) = ?ib"
    using inode_block_cong(1) [OF S2(16,11,17,12)] inode_block_cong(1) [OF S3(16,11,17,12)] by simp
  have sb: "same_blks bs (insert ?ib ?B) m m4"
    using same_blks_trans [OF same_blks_trans [OF c(4) w(3)] u(3)] S2(12) S3(12) ib c(8) by simp
  have "nat pos + length buf \<le> nat (ds_size (i_data mi))" using pos by linarith
  then have fb: "file_bytes bs m4 mi = overwrite (file_bytes bs m mi) (nat pos) buf"
    using K4(3) [OF ind3(2)] c(7) file_blocks_length(3) [OF ok2 F2(1)] w(4) by (simp add: file_bytes_def overwrite_take)
  have w': "write_blocks_at (bsize_of m) mi pos buf m2 = Some (0, length buf, m3)" using w(1) S2(11) by simp
  have ubs: "used_blocks (dsb m4) = used_blocks (dsb m)" using c(9) fs_stepD(1) [OF w(2)] fs_stepD(1) [OF u(2)] by simp
  have sl: "stream_blocks bs m4 mi = stream_blocks bs m mi" using K4(2) K3(2) c(8) by simp
  show thesis
    by (rule that [OF c(1,2) w' u(1) fs_move_trans [OF fs_move_trans [OF c(3) mv3] mv4] mo4 K4(1) fb sb u(4) ubs sl])
qed

text \<open>The map gained exactly the blocks \<open>bl\<close>, which were free, and counts them.\<close>

definition gained :: "BitVector \<Rightarrow> myfs_info \<Rightarrow> fs_off_t list \<Rightarrow> BitVector \<Rightarrow> myfs_info \<Rightarrow> bool" where
  "gained bv m bl bv' m' \<longleftrightarrow> distinct bl \<and>
     (\<forall>b \<in> set bl. num_bitmap_blocks m < b \<and> b < num_blocks (dsb m) \<and> nat b \<notin> used_bits bv) \<and>
     used_bits bv' = used_bits bv \<union> nat ` set bl \<and> used_blocks (dsb m') = used_blocks (dsb m) + int (length bl) \<and>
     (exact_map bv m \<longrightarrow> exact_map bv' m')"

lemma taken_gained:
  assumes "taken_blocks bs bv m bl bv' m1" "used_blocks (dsb m') = used_blocks (dsb m1)"
  shows "gained bv m bl bv' m'"
  using assms taken_blocksD(3-7,10,11) [OF assms(1)] by (auto simp: gained_def exact_map_def)

lemma write_extends:
  assumes ok: "fs_ok bs m" and sp: "0 < spare m" and mo: "map_ok bs bv m" and q: "quiet bs m" and sm: "sb_mem m"
    and fo: "file_ok bs bv m mi" and us: "0 \<le> used_blocks (dsb m)" "used_blocks (dsb m) \<le> num_blocks (dsb m)"
    and zero: "nblks m mi < NUM_DIRECT_BLOCKS \<longrightarrow> direct (i_data mi) ! nblks m mi = 0"
    and ty: "inode_typed (mi\<lparr>last_modified_time := now\<rparr>)" and pos: "0 \<le> pos" "pos \<le> ds_size (i_data mi)"
    and len: "ds_size (i_data mi) < pos + int (length buf)" "pos + int (length buf) \<le> MAX_DIRECT_RANGE (bsize_of m)"
  defines "need \<equiv> bcount m (pos + int (length buf)) - bcount m (ds_size (i_data mi))"
  obtains (written) mi' m' bv' bl where "myfs_write_data_stream now mi pos buf m = Some (0, length buf, mi', m')" "fs_ok bs m'"
      "map_ok bs bv' m'" "gained bv m bl bv' m'" "int (length bl) = need" "etc mi' = etc mi" "file_ok bs bv' m' mi'"
      "stream_blocks bs m' mi' = stream_blocks bs m mi @ bl" "ds_size (i_data mi') = pos + int (length buf)"
      "file_bytes bs m' mi' = take (nat pos) (file_bytes bs m mi) @ buf" "inode_at bs m' (inode_num mi) = inode_bytes mi'"
      "\<And>b. fs_has m b \<Longrightarrow> nat b \<in> used_bits bv \<Longrightarrow> num_bitmap_blocks m < b \<Longrightarrow> b \<notin> set (stream_blocks bs m mi) \<Longrightarrow>
         b \<noteq> inode_block m (inode_num mi) \<Longrightarrow> fs_blk bs m' b = fs_blk bs m b"
      "exact_map bv m \<Longrightarrow> need \<le> num_blocks (dsb m) - used_blocks (dsb m)"
  | (full) mi' m' bv' bl where "myfs_write_data_stream now mi pos buf m = Some (ENOSPC, length buf, mi', m')" "fs_ok bs m'"
      "map_ok bs bv' m'" "gained bv m bl bv' m'" "int (length bl) < need" "etc mi' = etc mi"
      "ds_size (i_data mi') = int (nblks m mi + length bl) * bsize_of m"
      "\<And>b. fs_has m b \<Longrightarrow> num_bitmap_blocks m < b \<Longrightarrow> fs_blk bs m' b = fs_blk bs m b"
      "exact_map bv m \<Longrightarrow> num_blocks (dsb m) - used_blocks (dsb m) < need"
proof -
  let ?new = "pos + int (length buf)" and ?s = "ds_size (i_data mi)" and ?z = "bsize_of m"
  note F = file_okD [OF fo] and K = fs_okD [OF ok]
  have ld: "length (direct (i_data mi)) = NUM_DIRECT_BLOCKS" "0 \<le> ?s" using F(1) by (simp_all add: stream_ok_def)
  have sp0: "0 \<le> spare m" "?s \<le> ?new" "0 \<le> ?new" "buf \<noteq> []" using sp len pos by auto
  have small: "?new < 2 ^ 62" using len(2) K(2) by (simp add: MAX_DIRECT_RANGE_def NUM_DIRECT_BLOCKS_def)
  have tb: "take_bit 64 ?new = ?new" "take_bit 64 ?s = ?s" using small sp0 ld(2) by (simp_all add: take_bit_int_eq_self_iff)
  have zz: "take_bit 64 ?s < take_bit 64 ?new" "\<not> pos < 0" using tb len(1) pos(1) by simp_all
  show thesis
  proof (cases rule: grow_good [OF ok sp0(1) mo ld sp0(2) len(2) zero])
    case (2 bl bv' m')
    let ?mi = "resized (int (nblks m mi + length bl) * ?z) (nblks m mi) bl mi"
    note T = taken_blocksD [OF 2(2)]
    have e: "myfs_write_data_stream now mi pos buf m = Some (ENOSPC, length buf, ?mi, m')"
      using 2(1) sp0(4) zz K(9) by (simp add: myfs_write_data_stream_def Let_def)
    have lt: "int (length bl) < need" using 2(3) by (simp add: need_def)
    have ex: "num_blocks (dsb m) - used_blocks (dsb m) < need" if "exact_map bv m"
      using taken_blocks_count(2) [OF 2(2) that mo 2(4) [OF that]] lt by simp
    have same: "fs_blk bs m' b = fs_blk bs m b" if "fs_has m b" "num_bitmap_blocks m < b" for b
      using same_blksD [OF T(8) that(1)] that(2) by simp
    show thesis
      by (rule full [OF e fs_move_ok [OF T(1) ok] T(2) taken_gained [OF 2(2) refl] lt _ _ same ex]) (simp_all add: resized_def)
  next
    case (1 bl bv1 m1)
    let ?mi = "(resized ?new (nblks m mi) bl mi)\<lparr>last_modified_time := now\<rparr>" and ?ib = "inode_block m (inode_num mi)"
    note T = taken_blocksD [OF 1(2)]
    note S = fs_moveD [OF T(1)]
    note G = grown_file [OF ok mo q fo 1(2) sp0(2) len(2) 1(3)]
    have ok1: "fs_ok bs m1" by (rule fs_move_ok [OF T(1) ok])
    have nn: "nblks m mi + length bl \<le> NUM_DIRECT_BLOCKS"
      using 1(3) bcount_facts(1) [OF ok ld(2)] bcount_facts(5) [OF ok, of ?new "int NUM_DIRECT_BLOCKS"] len(2)
      by (simp add: nblks_bcount MAX_DIRECT_RANGE_def)
    have "\<forall>b \<in> set bl. 0 \<le> b \<and> b < 2 ^ 31" using T(4,5) map_okD(6) [OF mo] K(4) by fastforce
    then have ty1: "inode_typed ?mi" using inode_typed_resized [OF ty _ nn sp0(3) small] by simp
    have sm1: "sb_mem m1" by (rule sb_mem_taken [OF sm 1(2) us(1)]) (use us(2) K(4) nn in \<open>simp add: NUM_DIRECT_BLOCKS_def\<close>)
    have fo1: "file_ok bs bv1 m1 ?mi" "stream_blocks bs m1 ?mi = stream_blocks bs m mi @ bl" "file_bytes bs m1 ?mi = file_bytes bs m1 (resized ?new (nblks m mi) bl mi)"
      using G(1,2) by (simp_all add: stamp_file)
    have d: "ds_size (i_data ?mi) = ?new" "inode_num ?mi = inode_num mi" "ds_size (i_data ?mi) \<le> MAX_DIRECT_RANGE (bsize_of m1)"
      using len(2) S(11) by (simp_all add: resized_def)
    have sp1: "0 < spare m1" using sp S(8) by simp
    have p1: "?new \<le> ds_size (i_data ?mi)" using d(1) by simp
    obtain m2 m3 m4 m5 where c: "update_inode ?mi m1 = Some m2" "write_super_block m2 = Some (0, m3)"
      "write_blocks_at (bsize_of m1) ?mi pos buf m3 = Some (0, length buf, m4)" "update_inode ?mi m4 = Some m5" "fs_move bs m1 m5"
      "map_ok bs bv1 m5" "file_ok bs bv1 m5 ?mi" "file_bytes bs m5 ?mi = overwrite (file_bytes bs m1 ?mi) (nat pos) buf"
      "same_blks bs (insert (inode_block m1 (inode_num ?mi)) (set (stream_blocks bs m1 ?mi))) m1 m5"
      "inode_at bs m5 (inode_num ?mi) = inode_bytes ?mi" "used_blocks (dsb m5) = used_blocks (dsb m1)"
      "stream_blocks bs m5 ?mi = stream_blocks bs m1 ?mi"
      by (rule store_good [OF ok1 sp1 T(2) sm1 fo1(1) ty1 d(3) pos(1) sp0(4) p1])
    have e: "myfs_write_data_stream now mi pos buf m = Some (0, length buf, ?mi, m5)"
      using 1(1) c(1-4) sp0(4) zz K(9) S(11) by (simp add: myfs_write_data_stream_def Let_def)
    have fb: "file_bytes bs m5 ?mi = take (nat pos) (file_bytes bs m mi) @ buf"
      unfolding c(8)
    proof (rule overwrite_end)
      show "take (nat ?s) (file_bytes bs m1 ?mi) = file_bytes bs m mi" using G(3) fo1(3) by simp
      show "length (file_bytes bs m1 ?mi) = nat pos + length buf" "nat ?s \<le> length (file_bytes bs m1 ?mi)"
        using file_bytes_length [OF ok1 file_okD(1) [OF fo1(1)]] d(1) pos(1) len(1) by (simp_all add: nat_add_distrib)
    qed (use pos in simp)
    have same: "fs_blk bs m5 b = fs_blk bs m b"
      if "fs_has m b" "nat b \<in> used_bits bv" "num_bitmap_blocks m < b" "b \<notin> set (stream_blocks bs m mi)" "b \<noteq> ?ib" for b
    proof -
      have "b \<notin> set bl" using T(6) that(2) by blast
      then have "fs_blk bs m5 b = fs_blk bs m1 b"
        using same_blksD [OF c(9), of b] that S(19) fo1(2) d(2) inode_block_cong(1) [OF S(16,11,17,12)] by simp
      also have "\<dots> = fs_blk bs m b" using same_blksD [OF T(8), of b] that by simp
      finally show ?thesis .
    qed
    have l: "int (length bl) = need" using 1(3) by (simp add: need_def)
    have ex: "need \<le> num_blocks (dsb m) - used_blocks (dsb m)" if "exact_map bv m"
      using taken_blocks_count(1) [OF 1(2) that mo] l by simp
    have c': "stream_blocks bs m5 ?mi = stream_blocks bs m mi @ bl" "inode_at bs m5 (inode_num mi) = inode_bytes ?mi" "etc ?mi = etc mi"
      using c(10,12) fo1(2) d(2) by (simp_all add: resized_def)
    show thesis
      by (rule written [OF e fs_move_ok [OF c(5) ok1] c(6) taken_gained [OF 1(2) c(11)] l c'(3) c(7) c'(1) d(1) fb c'(2) same ex])
  qed
qed

text \<open>
  Claim C3: a write that starts inside a file or at its end and runs past the end, with all blocks in the direct range,
  marks in the map, in memory and on the disk, exactly some new blocks \<open>bl\<close>: they were free, nothing else is marked or
  unmarked, and the count of used blocks grows by their number.  When it succeeds, the blocks of the file are the old ones
  followed by \<open>bl\<close>, as many as the new size needs, the contents are what they were up to the position followed by the bytes
  written, and the inode is stored; every other used block holds what it held.  When it fails, it is with \<open>ENOSPC\<close>, and the
  inode in memory all the same has its size raised to the whole blocks it got.  With an exact map the write succeeds if and
  only if the blocks it needs are free.
\<close>

theorem write_extends_file:
  assumes ok: "fs_ok bs m" and sp: "0 < spare m" and mo: "map_ok bs bv m" and q: "quiet bs m" and sm: "sb_mem m"
    and fo: "file_ok bs bv m mi" and us: "0 \<le> used_blocks (dsb m)" "used_blocks (dsb m) \<le> num_blocks (dsb m)"
    and zero: "nblks m mi < NUM_DIRECT_BLOCKS \<longrightarrow> direct (i_data mi) ! nblks m mi = 0"
    and ty: "inode_typed (mi\<lparr>last_modified_time := now\<rparr>)" and pos: "0 \<le> pos" "pos \<le> ds_size (i_data mi)"
    and len: "ds_size (i_data mi) < pos + int (length buf)" "pos + int (length buf) \<le> MAX_DIRECT_RANGE (bsize_of m)"
  shows "\<exists>ret mi' m' bv' bl. myfs_write_data_stream now mi pos buf m = Some (ret, length buf, mi', m') \<and> fs_ok bs m' \<and>
     map_ok bs bv' m' \<and> gained bv m bl bv' m' \<and>
     (\<forall>b. fs_has m b \<longrightarrow> nat b \<in> used_bits bv \<longrightarrow> num_bitmap_blocks m < b \<longrightarrow> b \<notin> set (stream_blocks bs m mi) \<longrightarrow>
        b \<noteq> inode_block m (inode_num mi) \<longrightarrow> fs_blk bs m' b = fs_blk bs m b) \<and>
     (exact_map bv m \<longrightarrow>
        (ret = 0 \<longleftrightarrow> bcount m (pos + int (length buf)) - bcount m (ds_size (i_data mi)) \<le> num_blocks (dsb m) - used_blocks (dsb m))) \<and>
     (if ret = 0 then file_ok bs bv' m' mi' \<and> stream_blocks bs m' mi' = stream_blocks bs m mi @ bl \<and>
        int (length bl) = bcount m (pos + int (length buf)) - bcount m (ds_size (i_data mi)) \<and>
        ds_size (i_data mi') = pos + int (length buf) \<and> file_bytes bs m' mi' = take (nat pos) (file_bytes bs m mi) @ buf \<and>
        inode_at bs m' (inode_num mi) = inode_bytes mi'
      else ret = ENOSPC \<and> ds_size (i_data mi') = int (nblks m mi + length bl) * bsize_of m)"
proof (cases rule: write_extends [OF assms])
  case (1 mi' m' bv' bl)
  have ex: "exact_map bv m \<longrightarrow> (0 = (0::int) \<longleftrightarrow>
      bcount m (pos + int (length buf)) - bcount m (ds_size (i_data mi)) \<le> num_blocks (dsb m) - used_blocks (dsb m))"
    using 1(13) by blast
  have same: "\<forall>b. fs_has m b \<longrightarrow> nat b \<in> used_bits bv \<longrightarrow> num_bitmap_blocks m < b \<longrightarrow> b \<notin> set (stream_blocks bs m mi) \<longrightarrow>
      b \<noteq> inode_block m (inode_num mi) \<longrightarrow> fs_blk bs m' b = fs_blk bs m b" using 1(12) by blast
  show ?thesis
    by (rule exI [of _ 0], rule exI [of _ mi'], rule exI [of _ m'], rule exI [of _ bv'], rule exI [of _ bl], unfold if_P [OF refl])
       (intro conjI 1(1-4) same ex 1(7,8,5,9-11))
next
  case (2 mi' m' bv' bl)
  have ex: "exact_map bv m \<longrightarrow> (ENOSPC = 0 \<longleftrightarrow>
      bcount m (pos + int (length buf)) - bcount m (ds_size (i_data mi)) \<le> num_blocks (dsb m) - used_blocks (dsb m))"
    using 2(9) by fastforce
  have same: "\<forall>b. fs_has m b \<longrightarrow> nat b \<in> used_bits bv \<longrightarrow> num_bitmap_blocks m < b \<longrightarrow> b \<notin> set (stream_blocks bs m mi) \<longrightarrow>
      b \<noteq> inode_block m (inode_num mi) \<longrightarrow> fs_blk bs m' b = fs_blk bs m b" using 2(8) by blast
  have ne: "ENOSPC \<noteq> 0" by simp
  show ?thesis
    by (rule exI [of _ ENOSPC], rule exI [of _ mi'], rule exI [of _ m'], rule exI [of _ bv'], rule exI [of _ bl], unfold if_not_P [OF ne])
       (intro conjI 2(1-4) same ex refl 2(7))
qed

text \<open>
  The example file system with a map in block 1 in which the first twelve blocks are used; the file of the example is in
  it.
\<close>

definition demo_mdisk :: devices where
  "demo_mdisk = \<lparr>file_of = (\<lambda>_. replicate 512 0 @ [0xFF, 0x0F] @ replicate 32254 0), io_fault = (\<lambda>_ _. False)\<rparr>"

definition demo_map :: BitVector where
  "demo_map = \<lparr>numbits = 64, next_free = 12, is_full = False, bits = mask 12 # replicate 127 0\<rparr>"

definition demo_mfs :: myfs_info where
  "demo_mfs = demo_ifs\<lparr>dsb := (dsb demo_ifs)\<lparr>used_blocks := 12\<rparr>, bbm_bv := Some demo_map, num_bitmap_blocks := 1, bbm_sem := 1,
     cache := demo_blocks_on demo_mdisk\<rparr>"

lemma demo_mdisk_facts: "length (file_of demo_mdisk 3) = 32768" "\<not> io_fault demo_mdisk 3 p"
  by (simp_all add: demo_mdisk_def)

lemmas demo_mblocks = demo_blocks_on_facts [OF demo_mdisk_facts]

lemma demo_mfs_facts:
  "fs_ok demo_bs demo_mfs" "spare demo_mfs = 100 - int NUM_FLUSH_BLOCKS" "quiet demo_bs demo_mfs" "sb_mem demo_mfs"
  "bsize_of demo_mfs = 512" "num_blocks (dsb demo_mfs) = 64" "used_blocks (dsb demo_mfs) = 12" "num_bitmap_blocks demo_mfs = 1"
  "fs_blk demo_bs demo_mfs b = get_bytes demo_mdisk 3 (nat b * 512) 512" "itab_ok demo_mfs"
  "in_table demo_mfs ia \<longleftrightarrow> 0 \<le> ia \<and> ia < 16" "inodes_start (dsb demo_mfs) = 3" "heap_ok (tmp demo_mfs)"
proof -
  have c: "cache demo_mfs = demo_blocks_on demo_mdisk" "myfs_fd demo_mfs = 3" "read_only demo_mfs = False"
    by (simp_all add: demo_mfs_def demo_ifs_def demo_fs_def)
  show d: "bsize_of demo_mfs = 512" "num_blocks (dsb demo_mfs) = 64" "used_blocks (dsb demo_mfs) = 12" "num_bitmap_blocks demo_mfs = 1"
    "inodes_start (dsb demo_mfs) = 3" "heap_ok (tmp demo_mfs)"
    by (simp_all add: demo_mfs_def demo_ifs_def demo_sb_def demo_fs_def)
  show "fs_ok demo_bs demo_mfs" by (simp add: fs_ok_def c d demo_mblocks demo_bs_def block_addr_def)
  show "spare demo_mfs = 100 - int NUM_FLUSH_BLOCKS"
    using held_card [OF demo_mblocks(1)] by (simp add: spare_def c pin_room_def demo_mblocks)
  show "quiet demo_bs demo_mfs" by (simp add: quiet_def loose_def c stale_def demo_mblocks)
  show "fs_blk demo_bs demo_mfs b = get_bytes demo_mdisk 3 (nat b * 512) 512"
    by (simp add: fs_blk_def c view_def demo_mblocks blk_of_def demo_bs_def)
  show "sb_mem demo_mfs"
    by (simp add: demo_mfs_def demo_ifs_def demo_fs_def demo_sb_def sb_mem_def sb_typed_def sizeof_super_block_def fits_s_def
        SUPER_BLOCK_MAGIC1_def SUPER_BLOCK_MAGIC2_def SUPER_BLOCK_MAGIC3_def MYFS_BIG_ENDIAN_def)
  show "itab_ok demo_mfs" "in_table demo_mfs ia \<longleftrightarrow> 0 \<le> ia \<and> ia < 16"
    by (simp_all add: itab_ok_def in_table_def demo_mfs_def demo_ifs_def demo_sb_def)
qed

lemma demo_map_ok: "map_ok demo_bs demo_map demo_mfs" "used_bits demo_map = {..<12}"
proof -
  have "x \<in> used_bits demo_map \<longleftrightarrow> x < 12" for x
  proof (cases "x div 32")
    case 0
    then have "x mod 32 = x" "x < 32" by auto
    then show ?thesis using 0 by (simp add: used_bits_def bit_set_def demo_map_def bit_mask_iff)
  next
    case (Suc k)
    then have x: "32 \<le> x" by auto
    have "(replicate 127 0 :: chunk list) ! k = 0" if "k < 127" using that by simp
    then show ?thesis using Suc x by (auto simp: used_bits_def bit_set_def demo_map_def)
  qed
  then show u: "used_bits demo_map = {..<12}" by auto
  have cb: "chunk_bytes (mask 12 # replicate 127 0) = [0xFF, 0x0F] @ replicate 510 0"
  proof -
    have "le_bytes 4 (uint (mask 12 :: chunk)) = [0xFF, 0x0F, 0, 0]" by code_simp
    then have "chunk_bytes (mask 12 # replicate 127 0) = [0xFF, 0x0F, 0, 0] @ replicate 508 0"
      using chunk_bytes_zero [of 127] by (simp add: chunk_bytes_def)
    also have "\<dots> = [0xFF, 0x0F] @ replicate 2 0 @ replicate 508 0" by (simp add: numeral_eq_Suc)
    finally show ?thesis by (simp flip: replicate_add)
  qed
  have "fs_blk demo_bs demo_mfs 1 = [0xFF, 0x0F] @ replicate 510 0"
    by (simp add: demo_mfs_facts get_bytes_def demo_mdisk_def)
  then have m: "fs_blk demo_bs demo_mfs 1 = map_part 512 (bits demo_map) 0"
    unfolding map_part_def at_def demo_map_def BitVector.simps cb by simp
  have wf: "bv_wf demo_map" by (simp add: bv_wf_def demo_map_def)
  have f: "bbm_bv demo_mfs = Some demo_map" "bbm_sem demo_mfs = 1" "numbits demo_map = 64" "length (bits demo_map) = 128"
    by (simp_all add: demo_mfs_def demo_map_def)
  show "map_ok demo_bs demo_map demo_mfs"
    unfolding map_ok_def demo_mfs_facts(5,6,8) u f
  proof (intro conjI wf allI impI)
    fix j assume "j < nat 1"
    then show "fs_blk demo_bs demo_mfs (1 + int j) = map_part (nat 512) (bits demo_map) j" using m by simp
  qed auto
qed

lemma demo_exact: "exact_map demo_map demo_mfs"
  by (simp add: exact_map_def demo_map_ok demo_mfs_facts) (simp add: demo_map_def)

lemma demo_file_ok: "file_ok demo_bs demo_map demo_mfs demo_file" "nblks demo_mfs demo_file = 2"
    "file_bytes demo_bs demo_mfs demo_file = replicate 600 0"
proof -
  show n: "nblks demo_mfs demo_file = 2" by (simp add: nblks_def demo_mfs_facts demo_file_facts)
  have nb: "nth_block demo_bs demo_mfs demo_file 0 = 10" "nth_block demo_bs demo_mfs demo_file 1 = 11"
    by (simp_all add: nth_block_def NUM_DIRECT_BLOCKS_def demo_file_def)
  have lt: "i < 2 \<longleftrightarrow> i = 0 \<or> i = 1" for i :: nat by auto
  have q: "\<not> loose demo_bs demo_mfs b" if "fs_has demo_mfs b" for b using demo_mfs_facts(3) that by (simp add: quiet_def)
  have so: "stream_ok demo_bs demo_mfs demo_file"
    unfolding stream_ok_def n lt using nb q
    by (auto simp: demo_mfs_facts MAX_INDIRECT_RANGE_def MAX_DIRECT_RANGE_def NUM_DIRECT_BLOCKS_def usable_def fs_has_def demo_file_facts)
       (simp_all add: demo_file_def)
  have bl: "stream_blocks demo_bs demo_mfs demo_file = [10, 11]" using nb by (simp add: stream_blocks_def n upt_rec)
  have "in_table demo_mfs 5" by (simp add: demo_mfs_facts)
  then have "inode_block demo_mfs 5 = 4" using inode_place(1) [OF demo_mfs_facts(1,10), of 5] by (simp add: demo_mfs_facts)
  then show "file_ok demo_bs demo_map demo_mfs demo_file"
    using so by (simp add: file_ok_def stream_apart_def inode_clear_def bl demo_mfs_facts demo_file_facts demo_map_ok
        MAX_DIRECT_RANGE_def NUM_DIRECT_BLOCKS_def)
  have "file_data demo_bs demo_mfs demo_file = replicate 512 0 @ replicate 512 0"
    using nb by (simp add: file_data_def n upt_rec demo_mfs_facts get_bytes_def demo_mdisk_def)
  then show "file_bytes demo_bs demo_mfs demo_file = replicate 600 0"
    by (simp add: file_bytes_def demo_file_facts flip: replicate_add)
qed

theorem write_extends_file_witness:
  "\<exists>mi m bv b. myfs_write_data_stream 7 demo_file 600 (replicate 500 1) demo_mfs = Some (0, 500, mi, m) \<and> map_ok demo_bs bv m \<and>
     12 \<le> b \<and> b < 64 \<and> used_bits bv = insert (nat b) {..<12} \<and> used_blocks (dsb m) = 13 \<and>
     file_bytes demo_bs m mi = replicate 600 0 @ replicate 500 1"
proof -
  let ?buf = "replicate 500 (1::byte)"
  have p: "0 < spare demo_mfs" "0 \<le> used_blocks (dsb demo_mfs)" "used_blocks (dsb demo_mfs) \<le> num_blocks (dsb demo_mfs)"
    "nblks demo_mfs demo_file < NUM_DIRECT_BLOCKS \<longrightarrow> direct (i_data demo_file) ! nblks demo_mfs demo_file = 0"
    "0 \<le> (600::int)" "600 \<le> ds_size (i_data demo_file)"
    by (simp_all add: demo_mfs_facts demo_file_facts demo_file_ok NUM_FLUSH_BLOCKS_def) (simp add: demo_file_def)
  have l: "ds_size (i_data demo_file) < 600 + int (length ?buf)"
    "600 + int (length ?buf) \<le> MAX_DIRECT_RANGE (bsize_of demo_mfs)"
    by (simp_all add: demo_mfs_facts demo_file_facts MAX_DIRECT_RANGE_def NUM_DIRECT_BLOCKS_def)
  have n: "bcount demo_mfs (600 + int (length ?buf)) - bcount demo_mfs (ds_size (i_data demo_file)) = 1"
    by (simp add: bcount_def demo_mfs_facts demo_file_facts)
  obtain ret mi m bv bl where h: "myfs_write_data_stream 7 demo_file 600 ?buf demo_mfs = Some (ret, length ?buf, mi, m)"
    "map_ok demo_bs bv m" "gained demo_map demo_mfs bl bv m" "exact_map demo_map demo_mfs \<longrightarrow> (ret = 0 \<longleftrightarrow> 1 \<le> (52::int))"
    "if ret = 0 then int (length bl) = 1 \<and> file_bytes demo_bs m mi = take (nat 600) (file_bytes demo_bs demo_mfs demo_file) @ ?buf
     else ret = ENOSPC"
    using write_extends_file [OF demo_mfs_facts(1) p(1) demo_map_ok(1) demo_mfs_facts(3,4) demo_file_ok(1) p(2-4) demo_file_facts(5) p(5,6) l]
    unfolding n by (elim exE conjE) (rule that, assumption+, simp add: demo_mfs_facts, simp split: if_splits)
  have r: "ret = 0" using h(4) demo_exact by simp
  then have f: "length bl = 1" "file_bytes demo_bs m mi = replicate 600 0 @ ?buf" using h(5) by (simp_all add: demo_file_ok)
  then obtain b where "bl = [b]" by (cases bl) auto
  then have "1 < b" "b < 64" "nat b \<notin> {..<12}" "used_bits bv = insert (nat b) {..<12}" "used_blocks (dsb m) = 13"
    using h(3) by (simp_all add: gained_def demo_map_ok demo_mfs_facts)
  then show ?thesis using h(1,2) r f(2) by (intro exI [of _ mi] exI [of _ m] exI [of _ bv] exI [of _ b]) simp
qed

end
