(* ===== verification/Stream_Shrink.thy ===== *)
theory Stream_Shrink
  imports Stream_Grow
begin

text \<open>
  Shrinking and releasing a file whose blocks are all direct blocks: which blocks \<open>shrink_dstream\<close> gives back.
\<close>

section \<open>Giving blocks back\<close>

definition released :: "(int \<Rightarrow> int) \<Rightarrow> BitVector \<Rightarrow> myfs_info \<Rightarrow> fs_off_t list \<Rightarrow> BitVector \<Rightarrow> myfs_info \<Rightarrow> bool" where
  "released bs bv m bl bv' m' \<longleftrightarrow> fs_move bs m m' \<and> map_ok bs bv' m' \<and> used_bits bv' = used_bits bv - nat ` set bl \<and>
     same_blks bs {1..num_bitmap_blocks m} m m' \<and> inode_map m' = inode_map m \<and>
     dsb m' = (dsb m)\<lparr>used_blocks := used_blocks (dsb m) - int (length bl),
       sb_flags := (if bl = [] then sb_flags (dsb m) else MYFS_DIRTY)\<rparr>"

lemma releasedD:
  assumes "released bs bv m bl bv' m'"
  shows "fs_move bs m m'" "map_ok bs bv' m'" "used_bits bv' = used_bits bv - nat ` set bl"
    "same_blks bs {1..num_bitmap_blocks m} m m'" "inode_map m' = inode_map m"
    "dsb m' = (dsb m)\<lparr>used_blocks := used_blocks (dsb m) - int (length bl),
       sb_flags := (if bl = [] then sb_flags (dsb m) else MYFS_DIRTY)\<rparr>"
  using assms unfolding released_def by blast+

lemma released_none: "fs_ok bs m \<Longrightarrow> map_ok bs bv m \<Longrightarrow> released bs bv m [] bv m"
  by (simp add: released_def fs_move_refl same_blks_def)

lemma released_Cons:
  assumes ok: "fs_ok bs m" and sp: "0 \<le> spare m" and mo: "map_ok bs bv m" and b: "num_bitmap_blocks m < b" "b < num_blocks (dsb m)"
    and rest: "\<And>bv1 m1. myfs_free_blocks m b 1 = Some (0, m1) \<Longrightarrow> fs_move bs m m1 \<Longrightarrow> map_ok bs bv1 m1 \<Longrightarrow>
      \<exists>bv' m'. P m1 m' \<and> released bs bv1 m1 bl bv' m'"
  shows "\<exists>m1 bv' m'. myfs_free_blocks m b 1 = Some (0, m1) \<and> P m1 m' \<and> released bs bv m (b # bl) bv' m'"
proof -
  obtain bv1 m1 where f: "myfs_free_blocks m b 1 = Some (0, m1)" "fs_move bs m m1" "map_ok bs bv1 m1"
    "used_bits bv1 = used_bits bv - {nat b}" "same_blks bs {1..num_bitmap_blocks m} m m1" "inode_map m1 = inode_map m"
    "dsb m1 = (dsb m)\<lparr>used_blocks := used_blocks (dsb m) - 1, sb_flags := MYFS_DIRTY\<rparr>"
    by (rule free_block [OF ok sp mo b])
  obtain bv' m' where r: "P m1 m'" "released bs bv1 m1 bl bv' m'" using rest [OF f(1-3)] by blast
  note R = releasedD [OF r(2)] and S = fs_moveD [OF f(2)]
  have "same_blks bs {1..num_bitmap_blocks m} m m'" using same_blks_trans [OF f(5) R(4)] S(2,12) by simp
  then have "released bs bv m (b # bl) bv' m'"
    unfolding released_def using fs_move_trans [OF f(2) R(1)] R(2,3,5,6) f(4,6,7) by auto
  then show ?thesis using f(1) r(1) by blast
qed

section \<open>Direct blocks\<close>

text \<open>A file with the \<open>n\<close> direct blocks \<open>bl\<close> and none after them.\<close>

definition direct_file :: "myfs_info \<Rightarrow> fs_off_t list \<Rightarrow> myfs_inode \<Rightarrow> bool" where
  "direct_file m bl mi \<longleftrightarrow> length bl \<le> NUM_DIRECT_BLOCKS \<and> direct (i_data mi) = bl @ replicate (NUM_DIRECT_BLOCKS - length bl) 0 \<and>
     (\<forall>b \<in> set bl. num_bitmap_blocks m < b \<and> b < num_blocks (dsb m)) \<and> indirect (i_data mi) = 0 \<and> double_indirect (i_data mi) = 0"

definition cut_blocks :: "nat \<Rightarrow> fs_off_t list \<Rightarrow> fs_off_t list" where
  "cut_blocks i bl = take i bl @ replicate (NUM_DIRECT_BLOCKS - min i (length bl)) 0"

lemma shrink_direct_good:
  assumes "fs_ok bs m" "0 \<le> spare m" "map_ok bs bv m" "i \<le> length bl" "length bl \<le> NUM_DIRECT_BLOCKS"
    "direct (i_data mi) = bl @ replicate (NUM_DIRECT_BLOCKS - length bl) 0" "k = NUM_DIRECT_BLOCKS - i"
    "\<forall>b \<in> set (drop i bl). num_bitmap_blocks m < b \<and> b < num_blocks (dsb m)"
  shows "\<exists>bv' m'. shrink_direct k i mi m = Some (upd_data (\<lambda>d. d\<lparr>direct := cut_blocks i bl\<rparr>) mi, m') \<and>
    released bs bv m (drop i bl) bv' m'"
proof -
  let ?zs = "\<lambda>n. replicate n (0::int)"
  have gen: "\<exists>bv' m'. shrink_direct k (length pre) mi m =
        Some (upd_data (\<lambda>d. d\<lparr>direct := pre @ ?zs (length rest + r)\<rparr>) mi, m') \<and> released bs bv m rest bv' m'"
    if "fs_ok bs m" "0 \<le> spare m" "map_ok bs bv m" "direct (i_data mi) = pre @ rest @ ?zs r" "k = length rest + r"
      "\<forall>b \<in> set rest. num_bitmap_blocks m < b \<and> b < num_blocks (dsb m)" for pre rest r k m mi bv
    using that
  proof (induction rest arbitrary: pre k m mi bv)
    case Nil
    have "shrink_direct k (length pre) mi m = Some (mi, m)" using Nil.prems(4,5) by (cases r) (simp_all add: nth_append)
    moreover have "upd_data (\<lambda>d. d\<lparr>direct := pre @ ?zs r\<rparr>) mi = mi" using Nil.prems(4) by simp
    ultimately show ?case using released_none [OF Nil.prems(1,3)] by auto
  next
    case (Cons b rest)
    have b: "num_bitmap_blocks m < b" "b < num_blocks (dsb m)" "b \<noteq> 0" using Cons.prems(6) map_okD(6) [OF Cons.prems(3)] by auto
    let ?mi = "upd_data (\<lambda>d. d\<lparr>direct := (direct d)[length pre := 0]\<rparr>) mi"
    have at: "direct (i_data mi) ! length pre = b" using Cons.prems(4) by simp
    have d': "direct (i_data ?mi) = (pre @ [0]) @ rest @ ?zs r" using Cons.prems(4) by simp
    have "\<exists>m1 bv' m'. myfs_free_blocks m b 1 = Some (0, m1) \<and> shrink_direct (length rest + r) (length (pre @ [0])) ?mi m1 =
          Some (upd_data (\<lambda>d. d\<lparr>direct := (pre @ [0]) @ ?zs (length rest + r)\<rparr>) ?mi, m') \<and> released bs bv m (b # rest) bv' m'"
      by (rule released_Cons [OF Cons.prems(1-3) b(1,2)], rule Cons.IH)
         (use fs_move_ok [OF _ Cons.prems(1)] fs_moveD(2,8,12) Cons.prems(2,6) d' in auto)
    then obtain m1 bv' m' where h: "myfs_free_blocks m b 1 = Some (0, m1)" "shrink_direct (length rest + r) (Suc (length pre)) ?mi m1 =
          Some (upd_data (\<lambda>d. d\<lparr>direct := (pre @ [0]) @ ?zs (length rest + r)\<rparr>) ?mi, m')" "released bs bv m (b # rest) bv' m'"
      by auto
    have "shrink_direct k (length pre) mi m = Some (upd_data (\<lambda>d. d\<lparr>direct := pre @ ?zs (length (b # rest) + r)\<rparr>) mi, m')"
      using Cons.prems(5) b(3) at h(1,2) by simp
    then show ?case using h(3) by blast
  qed
  have "direct (i_data mi) = take i bl @ drop i bl @ ?zs (NUM_DIRECT_BLOCKS - length bl)" "length (take i bl) = i"
    "k = length (drop i bl) + (NUM_DIRECT_BLOCKS - length bl)" "length (drop i bl) + (NUM_DIRECT_BLOCKS - length bl) = NUM_DIRECT_BLOCKS - min i (length bl)"
    using assms(4-7) by (simp_all add: min_def)
  then show ?thesis using gen [OF assms(1-3) _ _ assms(8), of mi "take i bl" "NUM_DIRECT_BLOCKS - length bl" k]
    by (simp add: cut_blocks_def)
qed

section \<open>Shrinking\<close>

definition shrunk :: "fs_off_t \<Rightarrow> nat \<Rightarrow> fs_off_t list \<Rightarrow> myfs_inode \<Rightarrow> myfs_inode" where
  "shrunk new r bl mi = upd_data (\<lambda>d. d\<lparr>direct := cut_blocks r bl, ds_size := new\<rparr>) mi"

text \<open>The number of blocks that stay is computed from one byte less than the new size.\<close>

lemma shrink_good:
  assumes ok: "fs_ok bs m" and sp: "0 \<le> spare m" and mo: "map_ok bs bv m" and df: "direct_file m bl mi"
    and n: "length bl = nblks m mi" and new: "0 \<le> new" "new < ds_size (i_data mi)" "ds_size (i_data mi) \<le> MAX_DIRECT_RANGE (bsize_of m)"
  defines "r \<equiv> nat (bcount m (new - 1))"
  shows "\<exists>bv' m'. shrink_dstream new mi m = Some (0, shrunk new r bl mi, m') \<and> released bs bv m (drop r bl) bv' m'" "r \<le> length bl"
proof -
  let ?z = "bsize_of m" and ?s = "ds_size (i_data mi)"
  note K = fs_okD [OF ok] and B = bcount_facts [OF ok] and D = df [unfolded direct_file_def]
  have z: "0 < ?z" using K(1) by simp
  have c0: "0 \<le> bcount m (new - 1)" using new(1) K(1) by (simp add: bcount_def pos_imp_zdiv_nonneg_iff)
  have c: "bcount m (new - 1) \<le> bcount m ?s" "bcount m ?s \<le> int NUM_DIRECT_BLOCKS"
    using B(4) [of "new - 1" ?s] B(5) [of ?s "int NUM_DIRECT_BLOCKS"] new by (simp_all add: MAX_DIRECT_RANGE_def)
  then show r: "r \<le> length bl" by (simp add: n nblks_bcount r_def)
  have small: "bcount m (new - 1) * ?z < 2 ^ 62" "new < 2 ^ 62" "\<not> MAX_DOUBLE_INDIRECT_RANGE ?z < new"
  proof -
    have "bcount m (new - 1) * ?z < new - 1 + ?z" by (rule B(3))
    moreover have "new < 6 * 32768" using new K(2) by (simp add: MAX_DIRECT_RANGE_def NUM_DIRECT_BLOCKS_def)
    ultimately show "bcount m (new - 1) * ?z < 2 ^ 62" "new < 2 ^ 62" using K(2) by simp_all
    have "0 \<le> ?z div 8 * (?z div 8 * ?z)" "0 \<le> ?z div 8 * ?z" using z by (simp_all add: pos_imp_zdiv_nonneg_iff)
    then show "\<not> MAX_DOUBLE_INDIRECT_RANGE ?z < new"
      using new unfolding MAX_DOUBLE_INDIRECT_RANGE_def MAX_INDIRECT_RANGE_def by linarith
  qed
  have tb: "take_bit 64 new = new" using small(2) new(1) by (simp add: take_bit_int_eq_self_iff)
  show "\<exists>bv' m'. shrink_dstream new mi m = Some (0, shrunk new r bl mi, m') \<and> released bs bv m (drop r bl) bv' m'"
  proof (cases "bcount m ?s = bcount m (new - 1)")
    case True
    then have "r = length bl" by (simp add: n nblks_bcount r_def)
    then have "drop r bl = []" "cut_blocks r bl = direct (i_data mi)" using D by (simp_all add: cut_blocks_def)
    then show ?thesis using released_none [OF ok mo] True small(3) tb K(9)
      by (intro exI [of _ bv] exI [of _ m]) (simp add: shrink_dstream_def B(6) shrunk_def Let_def)
  next
    case False
    have ne: "bcount m ?s * ?z \<noteq> bcount m (new - 1) * ?z" using False z by simp
    have lt: "bcount m (new - 1) * ?z < MAX_DIRECT_RANGE ?z" using False c z by (simp add: MAX_DIRECT_RANGE_def)
    have i: "c_div (bcount m (new - 1) * ?z) ?z = bcount m (new - 1)" using c0 z by simp
    have bl: "\<forall>b \<in> set (drop r bl). num_bitmap_blocks m < b \<and> b < num_blocks (dsb m)" using D by (auto dest: in_set_dropD)
    obtain bv' m' where s: "shrink_direct (NUM_DIRECT_BLOCKS - r) r mi m = Some (upd_data (\<lambda>d. d\<lparr>direct := cut_blocks r bl\<rparr>) mi, m')"
      "released bs bv m (drop r bl) bv' m'"
      using shrink_direct_good [OF ok sp mo r _ _ refl bl, of mi] D by blast
    have "shrink_dstream new mi m = Some (0, shrunk new r bl mi, m')"
      using ne lt i s(1) D small(3) tb K(9) c0 by (simp add: shrink_dstream_def B(6) shrunk_def Let_def r_def)
    then show ?thesis using s(2) by blast
  qed
qed

text \<open>What is left of the file.\<close>

lemma shrunk_file:
  assumes ok: "fs_ok bs m" and mo: "map_ok bs bv m" and fo: "file_ok bs bv m mi" and bl: "bl = stream_blocks bs m mi"
    and rl: "released bs bv m (drop r bl) bv' m'" and new: "0 \<le> new" "new \<le> ds_size (i_data mi)" "ds_size (i_data mi) \<le> MAX_DIRECT_RANGE (bsize_of m)"
    and r: "r = nat (bcount m new)"
  defines "mi' \<equiv> shrunk new r bl mi"
  shows "file_ok bs bv' m' mi'" "stream_blocks bs m' mi' = take r bl" "file_bytes bs m' mi' = take (nat new) (file_bytes bs m mi)"
proof -
  note R = releasedD [OF rl] and F = file_okD [OF fo] and B = bcount_facts [OF ok]
  note S = fs_moveD [OF R(1)]
  let ?s = "ds_size (i_data mi)" and ?z = "bsize_of m"
  have ln: "length bl = nblks m mi" by (simp add: bl stream_blocks_def)
  have rn: "r \<le> length bl" using B(4) [OF new(2)] by (simp add: ln r nblks_bcount)
  have "bcount m ?s \<le> int NUM_DIRECT_BLOCKS" using B(5) [of ?s "int NUM_DIRECT_BLOCKS"] new(3) by (simp add: MAX_DIRECT_RANGE_def)
  then have n6: "length bl \<le> NUM_DIRECT_BLOCKS" by (simp add: ln nblks_bcount)
  have mi': "ds_size (i_data mi') = new" "direct (i_data mi') = cut_blocks r bl" "inode_num mi' = inode_num mi" by (simp_all add: mi'_def shrunk_def)
  have nb': "nblks m' mi' = r" using S(11) by (simp add: nblks_bcount mi' bcount_def r)
  have nth': "nth_block bs m' mi' i = bl ! i" if "i < r" for i using that rn n6 by (simp add: nth_block_def mi' cut_blocks_def nth_append)
  show sl: "stream_blocks bs m' mi' = take r bl"
    by (rule nth_equalityI) (use rn nth' in \<open>simp_all add: stream_blocks_def nb'\<close>)
  have hasb: "fs_has m b" "\<not> loose bs m b" if "b \<in> set bl" for b
    using that F(1) by (auto simp: bl stream_blocks_def stream_ok_def usable_def)
  have tk: "set (take r bl) \<subseteq> set bl" by (rule set_take_subset)
  have us: "usable bs m' b" if "b \<in> set (take r bl)" for b using hasb [of b] that tk S(9,19) by (auto simp: usable_def)
  have le: "new \<le> MAX_INDIRECT_RANGE ?z" "\<not> MAX_DIRECT_RANGE (bsize_of m') < new"
    using new(2,3) fs_okD(1) [OF ok] S(11) by (simp_all add: MAX_INDIRECT_RANGE_def pos_imp_zdiv_nonneg_iff add_increasing)
  have lc: "length (cut_blocks r bl) = NUM_DIRECT_BLOCKS" using rn n6 by (simp add: cut_blocks_def)
  have "usable bs m' (bl ! i)" if "i < r" for i
    using us [of "bl ! i"] nth_mem [of i "take r bl"] that rn by simp
  then have so': "stream_ok bs m' mi'"
    unfolding stream_ok_def mi' nb' using le new(1) S(11) lc by (auto simp: nth')
  have di: "distinct bl" using F(2) by (simp add: bl stream_apart_def)
  have ap': "stream_apart bs m' mi'" unfolding stream_apart_def sl mi' using di le(2) by simp
  note I = inode_block_cong [OF S(16,11,17,12)]
  have ic': "inode_clear bs m' mi'" unfolding inode_clear_def sl I mi' using F(3) le(2) tk bl by (auto simp: inode_clear_def)
  have pos: "0 < b" if "b \<in> insert (inode_block m (inode_num mi)) (set bl)" for b
    using that F(4,6) map_okD(6) [OF mo] by (auto simp: bl intro: less_trans)
  have out: "nat b \<notin> nat ` set (drop r bl)" if "b \<in> insert (inode_block m (inode_num mi)) (set (take r bl))" for b
  proof
    assume "nat b \<in> nat ` set (drop r bl)"
    then obtain c where c: "c \<in> set (drop r bl)" "nat b = nat c" by blast
    have "c \<in> set bl" "b \<in> insert (inode_block m (inode_num mi)) (set bl)" using c(1) that tk by (auto dest: in_set_dropD)
    then have "b = c" using pos [of b] pos [of c] c(2) by simp
    moreover have "inode_block m (inode_num mi) \<notin> set bl" using F(3) by (simp add: inode_clear_def bl)
    moreover have "set (take r bl) \<inter> set (drop r bl) = {}" using di by (rule set_take_disj_set_drop_if_distinct) simp
    ultimately show False using that c(1) \<open>c \<in> set bl\<close> by auto
  qed
  show "file_ok bs bv' m' mi'"
    unfolding file_ok_def I sl mi' R(3) using so' ap' ic' F(4-7) S(2) out tk bl by auto
  have old: "map (fs_blk bs m') (take r bl) = map (fs_blk bs m) (take r bl)"
    using F(6) hasb(1) tk R(4) bl by (force simp: same_blks_def)
  have "file_data bs m mi = concat (map (fs_blk bs m) (take r bl)) @ concat (map (fs_blk bs m) (drop r bl))"
    unfolding file_data_blocks bl [symmetric] by (simp flip: concat_append map_append)
  moreover have "file_data bs m' mi' = concat (map (fs_blk bs m) (take r bl))" unfolding file_data_blocks sl old ..
  moreover have "nat new \<le> length (file_data bs m' mi')"
    using file_blocks_length(3) [OF fs_move_ok [OF R(1) ok] so'] mi' by simp
  ultimately show "file_bytes bs m' mi' = take (nat new) (file_bytes bs m mi)"
    using new by (simp add: file_bytes_def mi' min_def)
qed

lemma bcount_pred:
  assumes ok: "fs_ok bs m" and new: "new mod bsize_of m \<noteq> 1"
  shows "bcount m (new - 1) = bcount m new"
proof -
  let ?z = "bsize_of m" and ?q = "bcount m new"
  have z: "0 < ?z" "1 < ?z" using fs_okD(1) [OF ok] by simp_all
  have "?q * ?z \<noteq> new + ?z - 1"
  proof
    assume "?q * ?z = new + ?z - 1"
    then have "new = 1 + (?q - 1) * ?z" by (simp add: left_diff_distrib)
    then have "new mod ?z = (1 + (?q - 1) * ?z) mod ?z" by (rule arg_cong)
    then show False using new z by simp
  qed
  then have "?q * ?z \<le> new - 1 + ?z - 1" using bcount_facts(3) [OF ok, of new] by linarith
  then have "\<not> (new - 1 + ?z - 1) div ?z < ?q" unfolding zdiv_less_iff [OF z(1)] by simp
  moreover have "bcount m (new - 1) \<le> ?q" by (rule bcount_facts(4) [OF ok]) simp
  ultimately show ?thesis by (simp add: bcount_def)
qed

lemma inode_typed_shrunk:
  assumes ty: "inode_typed (mi\<lparr>last_modified_time := t\<rparr>)" and df: "direct_file m bl mi" and r: "r \<le> length bl" and new: "0 \<le> new" "new < 2 ^ 62"
  shows "inode_typed ((shrunk new r bl mi)\<lparr>last_modified_time := t\<rparr>)"
proof -
  note D = df [unfolded direct_file_def]
  have "fits_s 8 b" if "b \<in> set bl" for b using ty D that by (auto simp: inode_typed_def list_all_iff)
  then have "list_all (fits_s 8) (cut_blocks r bl)" by (auto simp: cut_blocks_def list_all_iff fits_s_def dest: in_set_takeD)
  moreover have "length (cut_blocks r bl) = NUM_DIRECT_BLOCKS" using r D by (simp add: cut_blocks_def)
  ultimately show ?thesis using ty new by (simp add: inode_typed_def shrunk_def fits_s_def)
qed

lemma sb_mem_released:
  assumes "sb_mem m" "released bs bv m bl bv' m'" "- (2 ^ 62) \<le> used_blocks (dsb m) - int (length bl)" "used_blocks (dsb m) < 2 ^ 62"
  shows "sb_mem m'"
proof -
  have "sb_typed (dsb m')" unfolding releasedD(6) [OF assms(2)]
    using assms(1,3,4) by (auto simp: sb_mem_def sb_typed_def fits_s_def MYFS_DIRTY_def)
  then show ?thesis using assms(1) fs_moveD(1,11) [OF releasedD(1) [OF assms(2)]] by (simp add: sb_mem_def)
qed

lemma truncate_good:
  assumes ok: "fs_ok bs m" and sp: "0 < spare m" and mo: "map_ok bs bv m" and sm: "sb_mem m" and fo: "file_ok bs bv m mi"
    and df: "direct_file m (stream_blocks bs m mi) mi" and us: "0 \<le> used_blocks (dsb m)" "used_blocks (dsb m) \<le> num_blocks (dsb m)"
    and ty: "inode_typed (mi\<lparr>last_modified_time := now\<rparr>)"
    and new: "0 \<le> new" "new < ds_size (i_data mi)" "ds_size (i_data mi) \<le> MAX_DIRECT_RANGE (bsize_of m)" "new mod bsize_of m \<noteq> 1"
  shows "\<exists>mi' m' bv'. myfs_set_file_size now new mi m = Some (0, mi', m') \<and> fs_ok bs m' \<and> map_ok bs bv' m' \<and> file_ok bs bv' m' mi' \<and>
    ds_size (i_data mi') = new \<and> etc mi' = etc mi \<and> file_bytes bs m' mi' = take (nat new) (file_bytes bs m mi) \<and>
    used_bits bv' = used_bits bv - nat ` set (drop (nblks m mi') (stream_blocks bs m mi)) \<and>
    used_blocks (dsb m') = used_blocks (dsb m) - int (length (drop (nblks m mi') (stream_blocks bs m mi))) \<and>
    stream_blocks bs m' mi' = take (nblks m mi') (stream_blocks bs m mi) \<and> inode_at bs m' (inode_num mi) = inode_bytes mi' \<and>
    (\<forall>b. fs_has m b \<longrightarrow> num_bitmap_blocks m < b \<longrightarrow> b \<noteq> inode_block m (inode_num mi) \<longrightarrow> fs_blk bs m' b = fs_blk bs m b)"
proof -
  let ?bl = "stream_blocks bs m mi" and ?r = "nat (bcount m new)"
  note K = fs_okD [OF ok]
  have ln: "length ?bl = nblks m mi" by (simp add: stream_blocks_def)
  have sp0: "0 \<le> spare m" "new \<le> ds_size (i_data mi)" using sp new by simp_all
  obtain bv' m1 where s: "shrink_dstream new mi m = Some (0, shrunk new ?r ?bl mi, m1)" "released bs bv m (drop ?r ?bl) bv' m1"
    and r: "?r \<le> length ?bl"
    using shrink_good [OF ok sp0(1) mo df ln new(1-3)] bcount_pred [OF ok new(4)] by auto
  note R = releasedD [OF s(2)]
  note S = fs_moveD [OF R(1)]
  note H = shrunk_file [OF ok mo fo refl s(2) new(1) sp0(2) new(3) refl]
  let ?mi = "(shrunk new ?r ?bl mi)\<lparr>last_modified_time := now\<rparr>"
  have small: "new < 2 ^ 62" using new K(2) by (simp add: MAX_DIRECT_RANGE_def NUM_DIRECT_BLOCKS_def)
  have ok1: "fs_ok bs m1" by (rule fs_move_ok [OF R(1) ok])
  have "length (drop ?r ?bl) \<le> NUM_DIRECT_BLOCKS" using df by (auto simp: direct_file_def)
  then have sm1: "sb_mem m1" by (intro sb_mem_released [OF sm s(2)]) (use us K(4) in \<open>simp_all add: NUM_DIRECT_BLOCKS_def\<close>)
  have f1: "file_ok bs bv' m1 ?mi" "ds_size (i_data ?mi) \<le> MAX_DIRECT_RANGE (bsize_of m1)" "0 < spare m1"
    using H(1) new sp S(8,11) by (simp_all add: stamp_file shrunk_def)
  obtain m2 m3 where c: "update_inode ?mi m1 = Some m2" "write_super_block m2 = Some (0, m3)" "fs_move bs m1 m3"
    "map_ok bs bv' m3" "file_ok bs bv' m3 ?mi" "file_bytes bs m3 ?mi = file_bytes bs m1 ?mi"
    "same_blks bs {inode_block m1 (inode_num ?mi)} m1 m3" "stream_blocks bs m3 ?mi = stream_blocks bs m1 ?mi"
    "used_blocks (dsb m3) = used_blocks (dsb m1)" "inode_at bs m3 (inode_num ?mi) = inode_bytes ?mi"
    by (rule commit_good [OF ok1 f1(3) R(2) sm1 f1(1) inode_typed_shrunk [OF ty df r new(1) small] f1(2)]) (rule that, assumption+)
  have e: "myfs_set_file_size now new mi m = Some (0, ?mi, m3)"
    using s(1) c(1,2) new(2) by (simp add: myfs_set_file_size_def)
  have fb: "file_bytes bs m3 ?mi = take (nat new) (file_bytes bs m mi)" using c(6) H(3) by simp
  have d: "ds_size (i_data ?mi) = new" "nblks m ?mi = ?r" "etc ?mi = etc mi" "inode_num ?mi = inode_num mi"
    by (simp_all add: shrunk_def nblks_bcount)
  have sl: "stream_blocks bs m3 ?mi = take ?r ?bl" using c(8) H(2) by (simp add: stamp_file)
  have ub: "used_blocks (dsb m3) = used_blocks (dsb m) - int (length (drop ?r ?bl))" using c(9) R(6) by simp
  have same: "fs_blk bs m3 b = fs_blk bs m b" if "fs_has m b" "num_bitmap_blocks m < b" "b \<noteq> inode_block m (inode_num mi)" for b
    using same_blksD [OF c(7), of b] same_blksD [OF R(4), of b] that S(19) inode_block_cong(1) [OF S(16,11,17,12)] d(4) by simp
  have ia: "inode_at bs m3 (inode_num mi) = inode_bytes ?mi" using c(10) d(4) by simp
  show ?thesis
    by (rule exI [of _ ?mi], rule exI [of _ m3], rule exI [of _ bv'], unfold d(2))
       (intro conjI e fs_move_ok [OF c(3) ok1] c(4,5) d(1,3) fb R(3) ub sl ia allI impI [OF impI [OF impI [OF same]]])
qed

text \<open>
  Claim C4: setting the size of a file in its direct range to a smaller size, one that is not one more than a multiple of the
  block size, keeps the first bytes of the file and its first blocks, gives back exactly the blocks behind them, in the map in
  memory and on the disk and in the count of used blocks, stores the inode, and changes no other block.
\<close>

theorem truncate_correct:
  assumes ok: "fs_ok bs m" and sp: "0 < spare m" and mo: "map_ok bs bv m" and sm: "sb_mem m" and fo: "file_ok bs bv m mi"
    and df: "direct_file m (stream_blocks bs m mi) mi" and us: "0 \<le> used_blocks (dsb m)" "used_blocks (dsb m) \<le> num_blocks (dsb m)"
    and ty: "inode_typed (mi\<lparr>last_modified_time := now\<rparr>)"
    and new: "0 \<le> new" "new < ds_size (i_data mi)" "ds_size (i_data mi) \<le> MAX_DIRECT_RANGE (bsize_of m)" "new mod bsize_of m \<noteq> 1"
  shows "\<exists>mi' m' bv'. myfs_set_file_size now new mi m = Some (0, mi', m') \<and> fs_ok bs m' \<and> map_ok bs bv' m' \<and> file_ok bs bv' m' mi' \<and>
    ds_size (i_data mi') = new \<and> file_bytes bs m' mi' = take (nat new) (file_bytes bs m mi) \<and>
    used_bits bv' = used_bits bv - nat ` set (drop (nblks m mi') (stream_blocks bs m mi)) \<and>
    used_blocks (dsb m') = used_blocks (dsb m) - int (length (drop (nblks m mi') (stream_blocks bs m mi))) \<and>
    stream_blocks bs m' mi' = take (nblks m mi') (stream_blocks bs m mi) \<and> inode_at bs m' (inode_num mi) = inode_bytes mi' \<and>
    (\<forall>b. fs_has m b \<longrightarrow> num_bitmap_blocks m < b \<longrightarrow> b \<noteq> inode_block m (inode_num mi) \<longrightarrow> fs_blk bs m' b = fs_blk bs m b)"
  using truncate_good [OF assms] by (elim exE conjE) (intro exI conjI; assumption)

text \<open>
  Setting the size to one byte more than \<open>i\<close> blocks gives back block \<open>i\<close>, which holds that byte, and clears its
  entry: the file then has a size that reaches into a block it does not have.
\<close>

theorem truncate_drops_block:
  assumes ok: "fs_ok bs m" and sp: "0 \<le> spare m" and mo: "map_ok bs bv m" and df: "direct_file m bl mi"
    and n: "length bl = nblks m mi" and new: "new = int i * bsize_of m + 1" "new < ds_size (i_data mi)"
      "ds_size (i_data mi) \<le> MAX_DIRECT_RANGE (bsize_of m)"
  shows "\<exists>mi' m' bv'. shrink_dstream new mi m = Some (0, mi', m') \<and> ds_size (i_data mi') = int i * bsize_of m + 1 \<and>
    i < length bl \<and> direct (i_data mi') ! i = 0 \<and> map_ok bs bv' m' \<and> nat (bl ! i) \<notin> used_bits bv'"
proof -
  note K = fs_okD [OF ok]
  have z: "0 < bsize_of m" using K(1) by simp
  have n0: "0 \<le> new" using new(1) z by simp
  have "new - 1 + bsize_of m - 1 = (bsize_of m - 1) + int i * bsize_of m" by (simp add: new(1))
  then have "bcount m (new - 1) = ((bsize_of m - 1) + int i * bsize_of m) div bsize_of m" unfolding bcount_def by (rule arg_cong)
  also have "\<dots> = int i + (bsize_of m - 1) div bsize_of m" using z by (intro div_mult_self1) simp
  finally have c: "bcount m (new - 1) = int i" using z by (simp add: div_pos_pos_trivial)
  have "int i < bcount m (ds_size (i_data mi))"
  proof (rule ccontr)
    assume "\<not> ?thesis"
    then have "bcount m (ds_size (i_data mi)) * bsize_of m \<le> int i * bsize_of m" using z by (intro mult_right_mono) simp_all
    then show False using bcount_facts(2) [OF ok, of "ds_size (i_data mi)"] new by linarith
  qed
  then have i: "i < length bl" by (simp add: n nblks_bcount)
  obtain bv' m' where s: "shrink_dstream new mi m = Some (0, shrunk new i bl mi, m')" "released bs bv m (drop i bl) bv' m'"
    using shrink_good(1) [OF ok sp mo df n n0 new(2,3)] c by auto
  have "bl ! i \<in> set (drop i bl)" using i by (auto simp: in_set_conv_nth intro!: exI [of _ 0])
  then have "nat (bl ! i) \<notin> used_bits bv'" using releasedD(3) [OF s(2)] by blast
  moreover have "direct (i_data (shrunk new i bl mi)) ! i = 0"
    using i df by (simp add: shrunk_def cut_blocks_def nth_append direct_file_def)
  ultimately show ?thesis using s(1) i releasedD(2) [OF s(2)]
    by (intro exI [of _ "shrunk new i bl mi"] exI [of _ m'] exI [of _ bv']) (simp add: shrunk_def new(1))
qed

text \<open>
  Claim C5: releasing the data of a file whose blocks are all direct blocks gives back every block it had, and no other, in the
  map in memory and on the disk and in the count of used blocks, leaves an empty file, and changes no block outside the map.
\<close>

theorem free_data_stream_correct:
  assumes ok: "fs_ok bs m" and sp: "0 \<le> spare m" and mo: "map_ok bs bv m" and sm: "sb_mem m" and df: "direct_file m bl mi"
    and n: "length bl = nblks m mi" and sz: "0 < ds_size (i_data mi)" "ds_size (i_data mi) \<le> MAX_DIRECT_RANGE (bsize_of m)"
    and us: "0 \<le> used_blocks (dsb m)" "used_blocks (dsb m) \<le> num_blocks (dsb m)"
  shows "\<exists>mi' m' bv'. myfs_free_data_stream mi m = Some (0, mi', m') \<and> fs_ok bs m' \<and> map_ok bs bv' m' \<and>
    used_bits bv' = used_bits bv - nat ` set bl \<and> used_blocks (dsb m') = used_blocks (dsb m) - int (length bl) \<and>
    ds_size (i_data mi') = 0 \<and> direct (i_data mi') = replicate NUM_DIRECT_BLOCKS 0 \<and>
    (\<forall>b. fs_has m b \<longrightarrow> num_bitmap_blocks m < b \<longrightarrow> fs_blk bs m' b = fs_blk bs m b)"
proof -
  have "(bsize_of m - 2) div bsize_of m = 0" using fs_okD(1) [OF ok] by (intro div_pos_pos_trivial) simp_all
  then have "bcount m (0 - 1) = 0" by (simp add: bcount_def)
  then obtain bv' m1 where s: "shrink_dstream 0 mi m = Some (0, shrunk 0 0 bl mi, m1)" "released bs bv m bl bv' m1"
    using shrink_good(1) [OF ok sp mo df n order_refl sz] by auto
  note R = releasedD [OF s(2)]
  have ok1: "fs_ok bs m1" by (rule fs_move_ok [OF R(1) ok])
  have "length bl \<le> NUM_DIRECT_BLOCKS" using df by (simp add: direct_file_def)
  then have sm1: "sb_mem m1" by (intro sb_mem_released [OF sm s(2)]) (use us fs_okD(4) [OF ok] in \<open>simp_all add: NUM_DIRECT_BLOCKS_def\<close>)
  obtain m2 where w: "write_super_block m1 = Some (0, m2)" "fs_move bs m1 m2" "same_blks bs {} m1 m2" "bbm_bv m2 = bbm_bv m1"
    "dsb m2 = clean_sb (dsb m1)"
    by (rule write_super_block_good [OF ok1 sm1]) (rule that, assumption+)
  have "fs_blk bs m2 b = fs_blk bs m b" if "fs_has m b" "num_bitmap_blocks m < b" for b
    using same_blksD [OF w(3), of b] same_blksD [OF R(4), of b] that fs_moveD(19) [OF R(1)] by simp
  moreover have "map_ok bs bv' m2" by (rule map_ok_keep [OF R(2) w(2,3) _ w(4)]) simp
  ultimately show ?thesis using s(1) w(1,5) fs_move_ok [OF w(2) ok1] R(3,6)
    by (intro exI [of _ "shrunk 0 0 bl mi"] exI [of _ m2] exI [of _ bv'])
       (simp add: myfs_free_data_stream_def shrunk_def cut_blocks_def clean_sb_def)
qed

lemma demo_direct: "direct_file demo_mfs [10, 11] demo_file" "stream_blocks demo_bs demo_mfs demo_file = [10, 11]"
proof -
  show "direct_file demo_mfs [10, 11] demo_file"
    by (simp add: direct_file_def demo_mfs_facts NUM_DIRECT_BLOCKS_def) (simp add: demo_file_def numeral_eq_Suc)
  show "stream_blocks demo_bs demo_mfs demo_file = [10, 11]"
    by (simp add: stream_blocks_def demo_file_ok(2) upt_rec nth_block_def NUM_DIRECT_BLOCKS_def) (simp add: demo_file_def)
qed

lemma demo_used: "0 \<le> used_blocks (dsb demo_mfs)" "used_blocks (dsb demo_mfs) \<le> num_blocks (dsb demo_mfs)" "0 < spare demo_mfs"
    "ds_size (i_data demo_file) \<le> MAX_DIRECT_RANGE (bsize_of demo_mfs)"
  by (simp_all add: demo_mfs_facts demo_file_facts MAX_DIRECT_RANGE_def NUM_DIRECT_BLOCKS_def NUM_FLUSH_BLOCKS_def)

theorem truncate_correct_witness:
  "\<exists>mi m bv. myfs_set_file_size 7 100 demo_file demo_mfs = Some (0, mi, m) \<and> file_bytes demo_bs m mi = replicate 100 0 \<and>
     map_ok demo_bs bv m \<and> used_bits bv = {..<11} \<and> used_blocks (dsb m) = 11 \<and> stream_blocks demo_bs m mi = [10]"
proof -
  have p: "0 \<le> (100::int)" "100 < ds_size (i_data demo_file)" "100 mod bsize_of demo_mfs \<noteq> 1"
    by (simp_all add: demo_mfs_facts demo_file_facts)
  have df: "direct_file demo_mfs (stream_blocks demo_bs demo_mfs demo_file) demo_file" using demo_direct by simp
  obtain mi m bv where h: "myfs_set_file_size 7 100 demo_file demo_mfs = Some (0, mi, m)" "map_ok demo_bs bv m" "ds_size (i_data mi) = 100"
    "file_bytes demo_bs m mi = take (nat 100) (file_bytes demo_bs demo_mfs demo_file)"
    "used_bits bv = used_bits demo_map - nat ` set (drop (nblks demo_mfs mi) (stream_blocks demo_bs demo_mfs demo_file))"
    "used_blocks (dsb m) = used_blocks (dsb demo_mfs) - int (length (drop (nblks demo_mfs mi) (stream_blocks demo_bs demo_mfs demo_file)))"
    "stream_blocks demo_bs m mi = take (nblks demo_mfs mi) (stream_blocks demo_bs demo_mfs demo_file)"
    using truncate_correct [OF demo_mfs_facts(1) demo_used(3) demo_map_ok(1) demo_mfs_facts(4) demo_file_ok(1) df demo_used(1,2)
        demo_file_facts(5) p(1,2) demo_used(4) p(3)] by (elim exE conjE) (rule that, assumption+)
  have n: "nblks demo_mfs mi = 1" using h(3) by (simp add: nblks_def demo_mfs_facts)
  then have "used_bits bv = {..<12} - {11}" using h(5) by (simp add: demo_direct demo_map_ok)
  also have "\<dots> = {..<11}" by auto
  finally show ?thesis using h(1,2,4,6,7) n
    by (intro exI [of _ mi] exI [of _ m] exI [of _ bv]) (simp add: demo_file_ok demo_direct demo_mfs_facts)
qed

theorem truncate_drops_block_witness:
  "\<exists>mi m bv. shrink_dstream 513 demo_file demo_mfs = Some (0, mi, m) \<and> ds_size (i_data mi) = 513 \<and> direct (i_data mi) ! 1 = 0 \<and>
     map_ok demo_bs bv m \<and> 11 \<notin> used_bits bv"
proof -
  have p: "0 \<le> spare demo_mfs" "length [10, 11::int] = nblks demo_mfs demo_file" "513 = int 1 * bsize_of demo_mfs + 1"
    "513 < ds_size (i_data demo_file)"
    using demo_used(3) by (simp_all add: demo_mfs_facts demo_file_facts demo_file_ok)
  from truncate_drops_block [OF demo_mfs_facts(1) p(1) demo_map_ok(1) demo_direct(1) p(2-4) demo_used(4)]
  show ?thesis by (auto simp: demo_mfs_facts)
qed

theorem free_data_stream_correct_witness:
  "\<exists>mi m bv. myfs_free_data_stream demo_file demo_mfs = Some (0, mi, m) \<and> map_ok demo_bs bv m \<and> used_bits bv = {..<10} \<and>
     used_blocks (dsb m) = 10"
proof -
  have p: "0 \<le> spare demo_mfs" "length [10, 11::int] = nblks demo_mfs demo_file" "0 < ds_size (i_data demo_file)"
    using demo_used(3) by (simp_all add: demo_file_facts demo_file_ok)
  have "{..<12} - {10, 11} = {..<10::nat}" by auto
  then show ?thesis
    using free_data_stream_correct [OF demo_mfs_facts(1) p(1) demo_map_ok(1) demo_mfs_facts(4) demo_direct(1) p(2,3) demo_used(4,1,2)]
    by (auto simp: demo_map_ok demo_mfs_facts(7))
qed

end
