(* ===== verification/Stream_Edge.thy ===== *)
theory Stream_Edge
  imports Stream_Shrink
begin

text \<open>
  Where the code of the data streams and of the inode table departs from what it is for: the double-indirect range, reads at
  the end of a file, and the last inodes.
\<close>

lemma ranges_pos:
  assumes "fs_ok bs m"
  shows "0 < MAX_DIRECT_RANGE (bsize_of m)" "MAX_DIRECT_RANGE (bsize_of m) < MAX_INDIRECT_RANGE (bsize_of m)" "0 < INDIRECT_SIZE (bsize_of m)"
proof -
  have "0 < bsize_of m" "0 < bsize_of m div 8" using fs_okD(1) [OF assms] by simp_all
  then have "0 < bsize_of m div 8 * bsize_of m" by simp
  then show "0 < MAX_DIRECT_RANGE (bsize_of m)" "MAX_DIRECT_RANGE (bsize_of m) < MAX_INDIRECT_RANGE (bsize_of m)"
    "0 < INDIRECT_SIZE (bsize_of m)"
    using fs_okD(1) [OF assms] by (simp_all add: MAX_DIRECT_RANGE_def MAX_INDIRECT_RANGE_def INDIRECT_SIZE_def NUM_DIRECT_BLOCKS_def)
qed

section \<open>The double-indirect range\<close>

text \<open>
  Claim C21: a read at a position in the double-indirect range fails with \<open>EINVAL\<close> and returns no byte, although both
  blocks of addresses and the address found in them are valid.
\<close>

theorem double_indirect_unreadable:
  assumes ok: "fs_ok bs m" and sp: "0 < spare m"
    and pos: "MAX_INDIRECT_RANGE (bsize_of m) \<le> pos" "pos < MAX_DOUBLE_INDIRECT_RANGE (bsize_of m)" "pos \<le> ds_size (i_data mi)"
    and len: "0 < len"
    and dbl: "usable bs m (double_indirect (i_data mi))"
    and t: "le_sint (at (fs_blk bs m (double_indirect (i_data mi)))
        (8 * nat ((pos - MAX_INDIRECT_RANGE (bsize_of m)) div INDIRECT_SIZE (bsize_of m))) 8) = t" "usable bs m t"
    and addr: "le_sint (at (fs_blk bs m t)
        (8 * nat ((pos - MAX_INDIRECT_RANGE (bsize_of m)) mod INDIRECT_SIZE (bsize_of m) div bsize_of m)) 8) = addr" "0 \<le> addr" "addr \<le> num_blocks (dsb m)"
  shows "\<exists>m'. myfs_read_data_stream mi pos len m = Some (EINVAL, [], m') \<and> fs_ok bs m'"
proof -
  let ?z = "bsize_of m" and ?d = "pos - MAX_INDIRECT_RANGE (bsize_of m)" and ?I = "INDIRECT_SIZE (bsize_of m)"
  note K = fs_okD [OF ok]
  have z: "0 < ?z" "0 < ?z div 8" using K(1) by simp_all
  have I: "0 < ?I" by (rule ranges_pos(3) [OF ok])
  have d: "0 \<le> ?d" "?d < ?z div 8 * ?I" using pos(1,2) by (simp_all add: MAX_DOUBLE_INDIRECT_RANGE_def INDIRECT_SIZE_def)
  have i: "0 \<le> ?d div ?I" "?d div ?I < ?z div 8" using d I zdiv_less_iff [OF I] by (simp_all add: pos_imp_zdiv_nonneg_iff)
  have r: "0 \<le> ?d mod ?I" "?d mod ?I < ?I" using I by simp_all
  have j: "0 \<le> ?d mod ?I div ?z" "?d mod ?I div ?z < ?z div 8"
    using r z zdiv_less_iff [OF z(1), of "?d mod ?I" "?z div 8"] by (simp_all add: pos_imp_zdiv_nonneg_iff INDIRECT_SIZE_def)
  obtain m1 where f1: "fetch_entry (double_indirect (i_data mi)) (?d div ?I) m = Some (t, m1)" "fs_step bs m m1" "same_blks bs {} m m1"
    using fetch_entry_good [OF ok sp dbl i] unfolding t(1) by metis
  note S = fs_stepD [OF f1(2)]
  have ok1: "fs_ok bs m1" by (rule fs_step_ok [OF f1(2) ok])
  have u1: "usable bs m1 t" using t(2) S(1,11) by (auto simp: usable_def fs_has_def)
  have b1: "fs_blk bs m1 t = fs_blk bs m t" using f1(3) t(2) by (simp add: same_blks_def usable_def)
  have sp1: "0 < spare m1" "?d mod ?I div ?z < bsize_of m1 div 8" using sp S(1,10) j(2) by simp_all
  obtain m2 where f2: "fetch_entry t (?d mod ?I div ?z) m1 = Some (addr, m2)" "fs_step bs m1 m2"
    using fetch_entry_good [OF ok1 sp1(1) u1 j(1) sp1(2)] unfolding b1 addr(1) by metis
  have ck: "addr_check m2 addr = Some ()" using addr(2,3) fs_stepD(1) [OF f2(2)] S(1) by (simp add: addr_check_def)
  have mx: "\<not> pos < MAX_DIRECT_RANGE ?z" "\<not> pos < MAX_INDIRECT_RANGE ?z" "\<not> pos < 0"
    using pos(1) ranges_pos [OF ok] by linarith+
  have ci: "c_int (?d div ?I) = ?d div ?I" by (rule c_int_id) (use i K(2) in simp_all)
  have c: "c_int (c_div ?d ?I) = ?d div ?I" "c_div (c_mod ?d ?I) ?z = ?d mod ?I div ?z"
    using c_div_id [OF d(1) I] c_mod_id [OF d(1) I] c_div_id [OF r(1) z(1)] ci by simp_all
  have "file_pos_to_disk_addr mi pos m = Some (-1, m2)"
    using mx pos(2) c f1(1) f2(1) ck K(9) by (simp add: file_pos_to_disk_addr_def Let_def)
  then have "myfs_read_data_stream mi pos len m = Some (EINVAL, [], m2)"
    using mx(3) pos(3) len K(9) by (simp add: myfs_read_data_stream_def Let_def)
  then show ?thesis using fs_step_ok [OF f2(2) ok1] by blast
qed

section \<open>Reading at the end of a file\<close>

text \<open>
  When a file fills its direct blocks exactly and has no indirect block, a read at the end of the file, which
  should return no byte, takes the super block for the block of addresses; if the first bytes of the name of the volume,
  read as a number, are not the number of a block, the file system dies.
\<close>

theorem read_at_end_dies:
  assumes ok: "fs_ok bs m" and sp: "0 < spare m" and sz: "ds_size (i_data mi) = MAX_DIRECT_RANGE (bsize_of m)"
    and ind: "indirect (i_data mi) = 0" and len: "0 < len"
    and name: "num_blocks (dsb m) < le_sint (at (fs_blk bs m 0) 0 8)"
  shows "myfs_read_data_stream mi (ds_size (i_data mi)) len m = None"
proof -
  let ?z = "bsize_of m" and ?p = "MAX_DIRECT_RANGE (bsize_of m)"
  note K = fs_okD [OF ok]
  have z: "0 < ?z" "0 < ?z div 8" using K(1) by simp_all
  have on: "on_device (cache m) (myfs_fd m) 0" using K(3,7) by (simp add: on_device_def)
  have b: "bs (myfs_fd m) < 64 * 1024" "int (card (held pins (cache m))) < pin_room (cache m)"
    using K(2,6) sp by (simp_all add: spare_def)
  have ns: "\<not> stale bs (cache m) (myfs_fd m) 0" using ok by (simp add: fs_ok_def stale_def block_addr_def)
  obtain a s1 s2 where s: "get_block (myfs_fd m) 0 (bs (myfs_fd m)) (cache m) = Some (Some a, s1)"
    "peek a s1 = view bs (cache m) (myfs_fd m) 0" "release_block (myfs_fd m) 0 s1 = Some (0, s2)"
    using bc.visit_block [OF K(5) on b ns] by (elim exE conjE) (rule that)
  have l: "length (fs_blk bs m 0) = nat ?z" using view_length [OF K(5) on] K(6) by (simp add: fs_blk_def)
  have "entry (fs_blk bs m 0) 0 = Some (le_sint (at (fs_blk bs m 0) 0 8))" using l K(1) by (simp add: entry_def)
  then have f: "fetch_entry 0 0 m = Some (le_sint (at (fs_blk bs m 0) 0 8), m\<lparr>cache := s2\<rparr>)"
    using s K(6) by (simp add: fetch_entry_def get_blk_def release_blk_def fs_blk_def)
  have "?p < MAX_INDIRECT_RANGE ?z" by (rule ranges_pos(2) [OF ok])
  then have "file_pos_to_disk_addr mi ?p m = None"
    using f ind name K(9) z(1) by (simp add: file_pos_to_disk_addr_def Let_def addr_check_def myfs_die_def)
  moreover have "\<not> ?p < 0" using ranges_pos(1) [OF ok] by simp
  ultimately show ?thesis using len K(9) by (simp add: myfs_read_data_stream_def Let_def sz)
qed

section \<open>The last inodes\<close>

text \<open>
  When the inodes do not fill whole blocks, the table that \<open>myfs_create_inodes\<close> lays out is too short: storing
  the last inode passes the range check and writes to the block behind the table, which is free for the data of files.
\<close>

theorem last_inode_beyond_table:
  assumes ok: "fs_ok bs m" and sp: "0 < spare m" and st: "0 < inodes_start (dsb m)" "0 < num_inodes (dsb m)"
    and nib: "num_inode_blocks (dsb m) = num_inodes (dsb m) * 128 div bsize_of m" "num_inodes (dsb m) * 128 mod bsize_of m \<noteq> 0"
    and fit: "inodes_start (dsb m) + num_inode_blocks (dsb m) < num_blocks (dsb m)"
    and mi: "inode_num mi = num_inodes (dsb m) - 1" "inode_typed mi"
  shows "\<exists>m' off. update_inode mi m = Some m' \<and>
    at (fs_blk bs m' (inodes_start (dsb m) + num_inode_blocks (dsb m))) off 128 = inode_bytes mi"
proof -
  let ?b = "inodes_start (dsb m) + num_inode_blocks (dsb m)" and ?ia = "num_inodes (dsb m) - 1"
  note K = fs_okD [OF ok]
  define k where "k = bsize_of m div 128"
  have k: "bsize_of m = 128 * k" "4 \<le> k" "k \<le> 256" using fs_ok_inodes [OF ok] K(2) by (simp_all add: k_def)
  have q: "num_inode_blocks (dsb m) = num_inodes (dsb m) div k" "num_inodes (dsb m) mod k \<noteq> 0"
    using nib k by (simp_all add: mult.commute [of _ 128])
  have n: "?ia = k * num_inode_blocks (dsb m) + (num_inodes (dsb m) mod k - 1)" unfolding q(1) using div_mult_mod_eq [of "num_inodes (dsb m)" k] by simp
  have rm: "0 \<le> num_inodes (dsb m) mod k" "num_inodes (dsb m) mod k < k" using k by simp_all
  then have r: "0 \<le> num_inodes (dsb m) mod k - 1" "num_inodes (dsb m) mod k - 1 < k" using q(2) by linarith+
  have dv: "?ia div k = num_inode_blocks (dsb m)" "?ia mod k = num_inodes (dsb m) mod k - 1"
    using int_div_pos_eq [OF n r] int_mod_pos_eq [OF n r] by simp_all
  have nn: "0 \<le> num_inode_blocks (dsb m)" using st(2) k(2) by (simp add: q(1) pos_imp_zdiv_nonneg_iff)
  have lt: "num_inode_blocks (dsb m) < 2 ^ 31" using fit st(1) K(4) by linarith
  have "k * num_inode_blocks (dsb m) \<le> 256 * num_inode_blocks (dsb m)" using k(3) nn by (intro mult_right_mono) simp_all
  then have big: "0 \<le> ?ia" "?ia < 2 ^ 40" using st(2) n r lt k(3) by simp_all
  have t: "take_bit 64 (?ia * 128) = ?ia * 128" "take_bit 64 ?ia = ?ia" using big by (simp_all add: take_bit_int_eq_self_iff)
  have "x * 128 div (128 * k) = x div k" for x by (simp add: mult.commute)
  then have "?ia * 128 div (128 * k) = ?ia div k" by blast
  then have b0: "inode_block m ?ia = signed_take_bit 63 ?b"
    using t(1) K(9) k(1) dv(1) by (simp add: inode_block_def sizeof_inode_def)
  have b: "inode_block m ?ia = ?b" unfolding b0
    by (rule signed_take_bit_int_eq_self) (use st(1) nn fit K(4) in simp_all)
  have has: "fs_has m ?b" using st(1) nn fit by (simp add: fs_has_def)
  have c: "c_int (?ia mod k * 128) = ?ia mod k * 128" by (rule c_int_id) (use dv(2) r k(3) in simp_all)
  have o: "inode_offset m ?ia = ?ia mod k * 128" using t(2) K(9) c k by (simp add: inode_offset_def sizeof_inode_def)
  let ?o = "nat (inode_offset m ?ia)" and ?x = "fs_blk bs m ?b"
  let ?f = "\<lambda>x. overwrite x ?o (inode_bytes mi)"
  have lx: "length ?x = nat (bsize_of m)" by (rule fs_blk_length [OF ok has])
  have lb: "length (inode_bytes mi) = 128" using inode_bytes_length [OF mi(2)] by (simp add: sizeof_inode_def)
  have off: "0 \<le> inode_offset m ?ia" "inode_offset m ?ia + 128 \<le> bsize_of m" using o dv(2) r k(1) by simp_all
  then have fo: "?o + 128 \<le> length ?x" using lx by linarith
  have lf: "length (?f ?x) = nat (bsize_of m)" using overwrite_length [of ?o "inode_bytes mi" ?x] fo lb lx by simp
  obtain a m1 m2 m3 where g: "get_blk ?b m = Some (Some a, m1)" "peek_blk a m1 = ?x" "dirty_blk ?b (poke_blk a (?f ?x) m1) = Some m2"
    "release_blk ?b m2 = Some m3" "fs_blk bs m3 ?b = ?f ?x"
    by (rule change_blk [OF ok sp has, of ?f, OF lf]) (rule that, assumption+)
  have "update_inode mi m = Some m3" using g(1-4) b mi(1) off fo by (simp add: update_inode_def Let_def sizeof_inode_def)
  moreover have "at (fs_blk bs m3 ?b) ?o 128 = inode_bytes mi"
    unfolding g(5) at_def using overwrite_get [of ?o "inode_bytes mi" ?x] fo lb by simp
  ultimately show ?thesis by blast
qed

section \<open>Examples\<close>

definition demo_big :: myfs_inode where
  "demo_big = demo_file\<lparr>i_data := \<lparr>direct = replicate 6 10, indirect = 11, double_indirect = 12, ds_size = 1000000\<rparr>\<rparr>"

theorem double_indirect_unreadable_witness:
  "\<exists>m m'. copy_in 12 0 (le_bytes 8 13) demo_mfs = Some (True, m) \<and> myfs_read_data_stream demo_big 35840 1 m = Some (EINVAL, [], m')"
proof -
  have h: "fs_has demo_mfs 12" "0 < spare demo_mfs" "0 + length (le_bytes 8 13) \<le> nat (bsize_of demo_mfs)"
    using demo_used(3) by (simp_all add: fs_has_def demo_mfs_facts)
  obtain m where c: "copy_in 12 0 (le_bytes 8 13) demo_mfs = Some (True, m)" "fs_step demo_bs demo_mfs m" "same_blks demo_bs {12} demo_mfs m"
    "fs_blk demo_bs m 12 = overwrite (fs_blk demo_bs demo_mfs 12) 0 (le_bytes 8 13)"
    by (rule copy_in_good [OF demo_mfs_facts(1) h(2,1,3)])
  note S = fs_stepD [OF c(2)]
  have z: "bsize_of m = 512" "num_blocks (dsb m) = 64" "0 < spare m" using S(1,10) h(2) by (simp_all add: demo_mfs_facts)
  have b: "double_indirect (i_data demo_big) = 12" "ds_size (i_data demo_big) = 1000000" by (simp_all add: demo_big_def)
  have u: "usable demo_bs m x" if "0 < x" "x < 64" for x
    using demo_mfs_facts(3,6) S(1,11) that by (auto simp: usable_def quiet_def fs_has_def)
  have "at (fs_blk demo_bs m 12) 0 8 = le_bytes 8 13" unfolding c(4) by (simp add: overwrite_def at_def)
  then have t: "le_sint (at (fs_blk demo_bs m 12) 0 8) = 13" using le_sint_fits [of 8 13] by (simp add: fits_s_def)
  have "fs_blk demo_bs m 13 = fs_blk demo_bs demo_mfs 13" by (rule same_blksD [OF c(3)]) (simp_all add: fs_has_def demo_mfs_facts)
  also have "\<dots> = replicate 512 0" by (simp add: demo_mfs_facts get_bytes_def demo_mdisk_def)
  finally have "at (fs_blk demo_bs m 13) 0 8 = le_bytes 8 0" by (simp add: at_def le_bytes_def numeral_eq_Suc)
  then have a: "le_sint (at (fs_blk demo_bs m 13) 0 8) = 0" using le_sint_fits [of 8 0] by (simp add: fits_s_def)
  have "\<exists>m'. myfs_read_data_stream demo_big 35840 1 m = Some (EINVAL, [], m') \<and> fs_ok demo_bs m'"
    by (rule double_indirect_unreadable [OF fs_step_ok [OF c(2) demo_mfs_facts(1)] z(3), where t = 13 and addr = 0])
       (use u t a z in \<open>simp_all add: b MAX_INDIRECT_RANGE_def MAX_DIRECT_RANGE_def MAX_DOUBLE_INDIRECT_RANGE_def INDIRECT_SIZE_def NUM_DIRECT_BLOCKS_def\<close>)
  then show ?thesis using c(1) by blast
qed

definition demo_full :: myfs_inode where
  "demo_full = demo_file\<lparr>i_data := \<lparr>direct = [10, 11, 12, 13, 14, 15], indirect = 0, double_indirect = 0, ds_size = 3072\<rparr>\<rparr>"

theorem read_at_end_dies_witness:
  "\<exists>m. write_super_block (demo_mfs\<lparr>dsb := (dsb demo_mfs)\<lparr>sb_name := replicate 32 0x41\<rparr>\<rparr>) = Some (0, m) \<and>
     myfs_read_data_stream demo_full 3072 10 m = None"
proof -
  let ?m = "demo_mfs\<lparr>dsb := (dsb demo_mfs)\<lparr>sb_name := replicate 32 0x41\<rparr>\<rparr>"
  have ok: "fs_ok demo_bs ?m" using demo_mfs_facts(1) by (simp add: fs_ok_def)
  have sm: "sb_mem ?m" using demo_mfs_facts(4) by (simp add: sb_mem_def sb_typed_def)
  obtain m where w: "write_super_block ?m = Some (0, m)" "fs_move demo_bs ?m m" "fs_blk demo_bs m 0 = sb_image ?m"
    by (rule write_super_block_good [OF ok sm]) (rule that, assumption+)
  note S = fs_moveD [OF w(2)]
  have z: "bsize_of m = 512" "num_blocks (dsb m) = 64" using S(11,12) by (simp_all add: demo_mfs_facts)
  have "spare ?m = spare demo_mfs" by (simp add: spare_def)
  then have sp: "0 < spare m" using S(8) demo_used(3) by simp
  have "at (fs_blk demo_bs m 0) 0 8 = replicate 8 0x41"
    unfolding w(3) by (simp add: sb_image_def demo_mfs_facts at_def sb_bytes_def clean_sb_def)
  moreover have "le_sint (replicate 8 (0x41 :: byte)) = 0x4141414141414141" by code_simp
  ultimately have nm: "num_blocks (dsb m) < le_sint (at (fs_blk demo_bs m 0) 0 8)" using z by simp
  have d: "ds_size (i_data demo_full) = MAX_DIRECT_RANGE (bsize_of m)" "indirect (i_data demo_full) = 0" "ds_size (i_data demo_full) = 3072"
    using z by (simp_all add: demo_full_def MAX_DIRECT_RANGE_def NUM_DIRECT_BLOCKS_def)
  have "myfs_read_data_stream demo_full 3072 10 m = None"
    using read_at_end_dies [OF fs_move_ok [OF w(2) ok] sp d(1,2) _ nm, of 10] d(3) by simp
  then show ?thesis using w(1) by blast
qed

theorem last_inode_beyond_table_witness:
  "\<exists>m off. update_inode (demo_file\<lparr>inode_num := 16\<rparr>) (demo_mfs\<lparr>dsb := (dsb demo_mfs)\<lparr>num_inodes := 17\<rparr>\<rparr>) = Some m \<and>
     at (fs_blk demo_bs m 7) off 128 = inode_bytes (demo_file\<lparr>inode_num := 16\<rparr>)"
proof -
  let ?m = "demo_mfs\<lparr>dsb := (dsb demo_mfs)\<lparr>num_inodes := 17\<rparr>\<rparr>" and ?mi = "demo_file\<lparr>inode_num := 16\<rparr>"
  have ok: "fs_ok demo_bs ?m" "0 < spare ?m" using demo_mfs_facts(1) demo_used(3) by (simp_all add: fs_ok_def spare_def)
  have nb: "num_inode_blocks (dsb demo_mfs) = 4" by (simp add: demo_mfs_def demo_ifs_def)
  have ty: "inode_typed ?mi" using demo_file_facts(1) by (simp add: inode_typed_def fits_s_def)
  show ?thesis
    using last_inode_beyond_table [OF ok _ _ _ _ _ _ ty] by (simp add: demo_mfs_facts nb)
qed

end
