(* ===== verification/Skip_List.thy ===== *)
theory Skip_List
  imports FS_Prelude
begin

text \<open>
  The skip list of \<open>sl.c\<close> and \<open>skiplist.h\<close>: the ordered index in which the vnode layer of
  \<open>kernel.c\<close> and the root file system keep their vnodes.

  The nodes live in a store from addresses to nodes; a node is its key and the array of its
  forward pointers, whose length is what \<open>NewNodeOfLevel\<close> allocates.  The comparison function
  is an argument, as it is a field of the C structure; \<open>rand\<close> is the list of the values it
  returns, \<open>malloc\<close> the address it returns (\<open>None\<close> for \<open>NULL\<close>).  A read of a forward array past its end, or of
  memory that is not a node, does not come back.
\<close>

section \<open>Data\<close>

type_synonym sladdr = nat

record 'a SLNodeStruct =
  sl_key :: "'a option"
  forward :: "sladdr option list"

record SkipList =
  sl_header :: sladdr
  sl_flags :: int
  sl_level :: nat
  sl_count :: int

type_synonym 'a slheap = "sladdr \<rightharpoonup> 'a SLNodeStruct"
type_synonym 'a slcmp = "'a \<Rightarrow> 'a \<Rightarrow> int"

definition MaxNumberOfLevels :: nat where "MaxNumberOfLevels = 16"
definition MaxLevel :: nat where "MaxLevel = MaxNumberOfLevels - 1"
definition ALLOW_DUPLICATES :: int where "ALLOW_DUPLICATES = 1"
definition NO_DUPLICATES :: int where "NO_DUPLICATES = 0"
definition DUPLICATE_ITEM :: int where "DUPLICATE_ITEM = - 1"
definition SL_DELETE :: int where "SL_DELETE = 1"
definition SL_QUIT :: int where "SL_QUIT = 2"
definition RAND_MAX :: int where "RAND_MAX = 2147483647"
definition P_25 :: int where "P_25 = RAND_MAX div 4"

section \<open>Reading and writing the nodes\<close>

definition get_forward :: "'a slheap \<Rightarrow> sladdr \<Rightarrow> nat \<Rightarrow> sladdr option option" where
  "get_forward h p k = do {
     n \<leftarrow> h p;
     if k < length (forward n) then Some (forward n ! k) else None }"

definition set_forward :: "'a slheap \<Rightarrow> sladdr \<Rightarrow> nat \<Rightarrow> sladdr option \<Rightarrow> 'a slheap option" where
  "set_forward h p k v = do {
     n \<leftarrow> h p;
     if k < length (forward n) then Some (h(p \<mapsto> n\<lparr>forward := (forward n)[k := v]\<rparr>)) else None }"

definition get_key :: "'a slheap \<Rightarrow> sladdr \<Rightarrow> 'a option" where
  "get_key h p = do { n \<leftarrow> h p; sl_key n }"

section \<open>The operations\<close>

text \<open>\<open>NewSL\<close>: two allocations, the list itself and its header, either of which can fail.\<close>

definition NewSL :: "bool \<Rightarrow> bool \<Rightarrow> sladdr option \<Rightarrow> int \<Rightarrow> 'a slheap \<Rightarrow> (SkipList \<times> 'a slheap) option" where
  "NewSL has_compare mem hdr flgs h =
     (if \<not> has_compare \<or> \<not> mem then None
      else case hdr of
        None \<Rightarrow> None
      | Some p \<Rightarrow>
          Some (\<lparr>sl_header = p, sl_flags = flgs, sl_level = 1, sl_count = 0\<rparr>,
            h(p \<mapsto> \<lparr>sl_key = None, forward = replicate MaxNumberOfLevels None\<rparr>)))"

text \<open>\<open>FreeSL\<close>: the header is freed first, then every node along level 0; the second component
  is the sequence of the keys given to \<open>freeitem\<close>.\<close>

partial_function (option) free_nodes :: "'a slheap \<Rightarrow> sladdr option \<Rightarrow> ('a option list \<times> 'a slheap) option" where
  "free_nodes h p = (case p of
     None \<Rightarrow> Some ([], h)
   | Some a \<Rightarrow> do {
       q \<leftarrow> get_forward h a 0;
       n \<leftarrow> h a;
       r \<leftarrow> free_nodes (h(a := None)) q;
       Some (sl_key n # fst r, snd r) })"

definition FreeSL :: "SkipList \<Rightarrow> 'a slheap \<Rightarrow> ('a option list \<times> 'a slheap) option" where
  "FreeSL l h = do {
     q \<leftarrow> get_forward h (sl_header l) 0;
     free_nodes (h(sl_header l := None)) q }"

text \<open>\<open>RandomLevelSL\<close>: the number of leading values of \<open>rand\<close> below \<open>P_25\<close>, capped.\<close>

definition RandomLevelSL :: "int list \<Rightarrow> nat" where
  "RandomLevelSL rs =
     (let level = length (takeWhile (\<lambda>r. r < P_25) rs)
      in if level > MaxLevel then MaxLevel else level)"

text \<open>The inner loop of every search, \<open>while ((q = p->forward[k]) && compare(q->key, key) < 0) p = q\<close>:
  the final \<open>p\<close> and the final \<open>q\<close>.\<close>

partial_function (option) sl_advance ::
  "'a slcmp \<Rightarrow> 'a slheap \<Rightarrow> 'a \<Rightarrow> nat \<Rightarrow> sladdr \<Rightarrow> (sladdr \<times> sladdr option) option" where
  "sl_advance cmp h x k p = do {
     q \<leftarrow> get_forward h p k;
     case q of
       None \<Rightarrow> Some (p, None)
     | Some a \<Rightarrow> do {
         y \<leftarrow> get_key h a;
         if cmp y x < 0 then sl_advance cmp h x k a else Some (p, Some a) } }"

text \<open>The descent \<open>for (k = l->level-1; k >= 0; k--)\<close>: the array \<open>update\<close> for the levels walked
  and the last \<open>q\<close>.  A list of level 0 would leave \<open>q\<close> unset.\<close>

fun sl_descend ::
  "'a slcmp \<Rightarrow> 'a slheap \<Rightarrow> 'a \<Rightarrow> nat \<Rightarrow> sladdr \<Rightarrow> (sladdr list \<times> sladdr option) option" where
  "sl_descend cmp h x 0 p = None"
| "sl_descend cmp h x (Suc 0) p = do {
     (p', q) \<leftarrow> sl_advance cmp h x 0 p;
     Some ([p'], q) }"
| "sl_descend cmp h x (Suc (Suc k)) p = do {
     (p', q) \<leftarrow> sl_advance cmp h x (Suc k) p;
     (upd, q') \<leftarrow> sl_descend cmp h x (Suc k) p';
     Some (upd @ [p'], q') }"

definition key_eq :: "'a slcmp \<Rightarrow> 'a slheap \<Rightarrow> sladdr option \<Rightarrow> 'a \<Rightarrow> bool option" where
  "key_eq cmp h q x = (case q of
     None \<Rightarrow> Some False
   | Some a \<Rightarrow> do { y \<leftarrow> get_key h a; Some (cmp y x = 0) })"

text \<open>The link loop of \<open>InsertSL\<close>, \<open>for (; k >= 0; k--)\<close>, on the levels \<open>n - 1, \<dots>, 0\<close>.\<close>

primrec sl_link :: "sladdr \<Rightarrow> sladdr list \<Rightarrow> nat \<Rightarrow> 'a slheap \<Rightarrow> 'a slheap option" where
  "sl_link q upd 0 h = Some h"
| "sl_link q upd (Suc k) h = do {
     v \<leftarrow> get_forward h (upd ! k) k;
     h1 \<leftarrow> set_forward h q k v;
     h2 \<leftarrow> set_forward h1 (upd ! k) k (Some q);
     sl_link q upd k h2 }"

definition InsertSL ::
  "'a slcmp \<Rightarrow> int list \<Rightarrow> sladdr option \<Rightarrow> 'a \<Rightarrow> SkipList \<times> 'a slheap
     \<Rightarrow> (int \<times> SkipList \<times> 'a slheap) option" where
  "InsertSL cmp rs mem x s = (let (l, h) = s in do {
     (upd, q) \<leftarrow> sl_descend cmp h x (sl_level l) (sl_header l);
     dup \<leftarrow> key_eq cmp h q x;
     if sl_flags l AND ALLOW_DUPLICATES = 0 \<and> dup then Some (DUPLICATE_ITEM, l, h)
     else
       let k0 = RandomLevelSL rs;
           (k, l1, upd1) = (if k0 \<ge> sl_level l
              then (sl_level l, l\<lparr>sl_level := Suc (sl_level l)\<rparr>, upd @ [sl_header l])
              else (k0, l, upd))
       in case mem of
         None \<Rightarrow> Some (0, l1, h)
       | Some a \<Rightarrow> do {
           h' \<leftarrow> sl_link a upd1 (Suc k)
                  (h(a \<mapsto> \<lparr>sl_key = Some x, forward = replicate (Suc k) None\<rparr>));
           Some (1, l1\<lparr>sl_count := sl_count l1 + 1\<rparr>, h') } })"

text \<open>The unlink loop of \<open>DeleteSL\<close>, on the levels \<open>k, \<dots>, m - 1\<close>, and the loop that lowers
  the level of the list.\<close>

fun sl_unlink :: "sladdr \<Rightarrow> sladdr list \<Rightarrow> nat \<Rightarrow> 'a slheap \<Rightarrow> 'a slheap option" where
  "sl_unlink q [] k h = Some h"
| "sl_unlink q (p # upd) k h = do {
     v \<leftarrow> get_forward h p k;
     if v \<noteq> Some q then Some h
     else do {
       w \<leftarrow> get_forward h q k;
       h' \<leftarrow> set_forward h p k w;
       sl_unlink q upd (Suc k) h' } }"

primrec sl_lower :: "'a slheap \<Rightarrow> sladdr \<Rightarrow> nat \<Rightarrow> nat option" where
  "sl_lower h hdr 0 = do { v \<leftarrow> get_forward h hdr 0; Some 0 }"
| "sl_lower h hdr (Suc m) = do {
     v \<leftarrow> get_forward h hdr (Suc m);
     if v = None then sl_lower h hdr m else Some (Suc m) }"

definition DeleteSL ::
  "'a slcmp \<Rightarrow> 'a \<Rightarrow> SkipList \<times> 'a slheap \<Rightarrow> (int \<times> SkipList \<times> 'a slheap) option" where
  "DeleteSL cmp x s = (let (l, h) = s in do {
     (upd, q0) \<leftarrow> sl_descend cmp h x (sl_level l) (sl_header l);
     q \<leftarrow> get_forward h (upd ! 0) 0;
     eq \<leftarrow> key_eq cmp h q x;
     case q of
       None \<Rightarrow> Some (0, l, h)
     | Some a \<Rightarrow>
         if \<not> eq then Some (0, l, h)
         else do {
           h1 \<leftarrow> sl_unlink a upd 0 h;
           let h2 = h1(a := None);
           m \<leftarrow> sl_lower h2 (sl_header l) (sl_level l - 1);
           Some (1, l\<lparr>sl_count := sl_count l - 1, sl_level := m + 1\<rparr>, h2) } })"

definition SearchSL :: "'a slcmp \<Rightarrow> 'a \<Rightarrow> SkipList \<times> 'a slheap \<Rightarrow> 'a option option" where
  "SearchSL cmp x s = (let (l, h) = s in do {
     (upd, q) \<leftarrow> sl_descend cmp h x (sl_level l) (sl_header l);
     eq \<leftarrow> key_eq cmp h q x;
     case q of
       None \<Rightarrow> Some None
     | Some a \<Rightarrow> if eq then do { y \<leftarrow> get_key h a; Some (Some y) } else Some None })"

definition NumInSL :: "SkipList \<Rightarrow> int" where
  "NumInSL l = sl_count l"

text \<open>\<open>DoForSL\<close> walks level 0 and calls \<open>function\<close> on every key.  It keeps, for every level, the node
  whose pointer leads to the next node of that level (\<open>who\<close>) and that pointer (\<open>save\<close>); the entries
  from the level of the list on are never set, and hold whatever the stack held (\<open>save0\<close>, \<open>who0\<close>).\<close>

function dofor_keep ::
  "'a slheap \<Rightarrow> sladdr \<Rightarrow> nat \<Rightarrow> sladdr option list \<Rightarrow> sladdr list
     \<Rightarrow> (sladdr option list \<times> sladdr list) option" where
  "dofor_keep h p k save who =
     (if length save \<le> k then None
      else if save ! k \<noteq> Some p then Some (save, who)
      else do {
        v \<leftarrow> get_forward h p k;
        dofor_keep h p (Suc k) (save[k := v]) (who[k := p]) })"
  by pat_completeness auto
termination by (relation "measure (\<lambda>(h, p, k, save, who). length save - k)") auto

function dofor_drop ::
  "sladdr \<Rightarrow> nat \<Rightarrow> sladdr list \<Rightarrow> 'a slheap \<times> sladdr option list
     \<Rightarrow> ('a slheap \<times> sladdr option list) option" where
  "dofor_drop p k who (h, save) =
     (if length save \<le> k then None
      else if save ! k \<noteq> Some p then Some (h, save)
      else do {
        v \<leftarrow> get_forward h p k;
        h' \<leftarrow> set_forward h (who ! k) k v;
        v' \<leftarrow> get_forward h' p k;
        dofor_drop p (Suc k) who (h', save[k := v']) })"
  by pat_completeness auto
termination by (relation "measure (\<lambda>(p, k, who, h, save). length save - k)") auto

partial_function (option) dofor_loop ::
  "('a \<Rightarrow> 's \<Rightarrow> int \<times> 's) \<Rightarrow> sladdr option \<Rightarrow> 's \<Rightarrow> sladdr option list \<Rightarrow> sladdr list
     \<Rightarrow> SkipList \<Rightarrow> 'a slheap \<Rightarrow> ('s \<times> SkipList \<times> 'a slheap) option" where
  "dofor_loop f p arg save who l h = (case p of
     None \<Rightarrow> Some (arg, l, h)
   | Some a \<Rightarrow> do {
       q \<leftarrow> get_forward h a 0;
       x \<leftarrow> get_key h a;
       let (ret, arg') = f x arg;
       (save', who', l', h') \<leftarrow>
         (if ret AND SL_DELETE \<noteq> 0 then do {
            (h1, save1) \<leftarrow> dofor_drop a 0 who (h, save);
            Some (save1, who, l\<lparr>sl_count := sl_count l - 1\<rparr>, h1(a := None)) }
          else do {
            (save1, who1) \<leftarrow> dofor_keep h a 0 save who;
            Some (save1, who1, l, h) });
       if ret AND SL_QUIT \<noteq> 0 then Some (arg', l', h')
       else dofor_loop f q arg' save' who' l' h' })"

definition DoForSL ::
  "('a \<Rightarrow> 's \<Rightarrow> int \<times> 's) \<Rightarrow> sladdr option list \<Rightarrow> sladdr list \<Rightarrow> 's \<Rightarrow> SkipList \<times> 'a slheap
     \<Rightarrow> ('s \<times> SkipList \<times> 'a slheap) option" where
  "DoForSL f save0 who0 arg s = (let (l, h) = s in do {
     n \<leftarrow> h (sl_header l);
     let save = take (sl_level l) (forward n) @ drop (sl_level l) save0;
     let who = replicate (sl_level l) (sl_header l) @ drop (sl_level l) who0;
     p \<leftarrow> get_forward h (sl_header l) 0;
     dofor_loop f p arg save who l h })"

text \<open>\<open>DoForRangeSL\<close>: the same on the run of the keys equal to \<open>key\<close>, with its own comparison.\<close>

partial_function (option) dorange_loop ::
  "'a slcmp \<Rightarrow> ('a \<Rightarrow> 's \<Rightarrow> int \<times> 's) \<Rightarrow> 'a \<Rightarrow> sladdr list \<Rightarrow> sladdr \<Rightarrow> 's
     \<Rightarrow> SkipList \<Rightarrow> 'a slheap \<Rightarrow> ('s \<times> SkipList \<times> 'a slheap) option" where
  "dorange_loop cmp f x upd p arg l h = do {
     q \<leftarrow> get_forward h p 0;
     y \<leftarrow> get_key h p;
     let (ret, arg') = f y arg;
     (l', h') \<leftarrow>
       (if ret AND SL_DELETE \<noteq> 0 then do {
          h1 \<leftarrow> sl_unlink p upd 0 h;
          Some (l\<lparr>sl_count := sl_count l - 1\<rparr>, h1(p := None)) }
        else Some (l, h));
     if ret AND SL_QUIT \<noteq> 0 then Some (arg', l', h')
     else do {
       eq \<leftarrow> key_eq cmp h' q x;
       case q of
         None \<Rightarrow> Some (arg', l', h')
       | Some a \<Rightarrow> if eq then dorange_loop cmp f x upd a arg' l' h' else Some (arg', l', h') } }"

definition DoForRangeSL ::
  "'a slcmp \<Rightarrow> ('a \<Rightarrow> 's \<Rightarrow> int \<times> 's) \<Rightarrow> 'a \<Rightarrow> 's \<Rightarrow> SkipList \<times> 'a slheap
     \<Rightarrow> ('s \<times> SkipList \<times> 'a slheap) option" where
  "DoForRangeSL cmp f x arg s = (let (l, h) = s in do {
     (upd, q0) \<leftarrow> sl_descend cmp h x (sl_level l) (sl_header l);
     p \<leftarrow> get_forward h (upd ! 0) 0;
     eq \<leftarrow> key_eq cmp h p x;
     case p of
       None \<Rightarrow> Some (arg, l, h)
     | Some a \<Rightarrow> if eq then dorange_loop cmp f x upd a arg l h else Some (arg, l, h) })"

declare sl_advance.simps [code] free_nodes.simps [code] dofor_loop.simps [code] dorange_loop.simps [code]

end
