(* ===== verification/Skip_Chains.thy ===== *)
theory Skip_Chains
  imports Skip_List
begin

text \<open>
  The pointers of a skip list as chains: what the search, link, unlink and lowering loops of
  \<open>sl.c\<close> do to them.
\<close>

section \<open>The chains of a skip list\<close>

text \<open>\<open>chain h k p as\<close>: from node \<open>p\<close>, the pointers of level \<open>k\<close> lead through \<open>as\<close> to \<open>NULL\<close>.  A node
  belongs to the chains of the levels below the length of its array.\<close>

primrec chain :: "'a slheap \<Rightarrow> nat \<Rightarrow> sladdr \<Rightarrow> sladdr list \<Rightarrow> bool" where
  "chain h k p [] \<longleftrightarrow> get_forward h p k = Some None"
| "chain h k p (a # as) \<longleftrightarrow> get_forward h p k = Some (Some a) \<and> chain h k a as"

definition height :: "'a slheap \<Rightarrow> sladdr \<Rightarrow> nat" where
  "height h a = (case h a of None \<Rightarrow> 0 | Some n \<Rightarrow> length (forward n))"

definition tall :: "'a slheap \<Rightarrow> nat \<Rightarrow> sladdr list \<Rightarrow> sladdr list" where
  "tall h k as = filter (\<lambda>a. k < height h a) as"

abbreviation keyof :: "'a slheap \<Rightarrow> sladdr \<Rightarrow> 'a" where
  "keyof h a \<equiv> the (get_key h a)"

lemma tall_simps [simp]:
  "tall h k [] = []" "tall h k (as @ bs) = tall h k as @ tall h k bs"
  "tall h k (a # as) = (if k < height h a then a # tall h k as else tall h k as)"
  "set (tall h k as) = {a \<in> set as. k < height h a}"
  by (simp_all add: tall_def)

lemma get_forward_height: "get_forward h p k \<noteq> None \<longleftrightarrow> k < height h p"
  by (auto simp: get_forward_def height_def split: option.splits if_splits)

lemma get_forward_ex: "k < height h p \<Longrightarrow> \<exists>v. get_forward h p k = Some v"
  using get_forward_height [of h p k] by auto

text \<open>\<open>h'\<close> is \<open>h\<close> with other forward pointers only.\<close>

definition same_nodes :: "'a slheap \<Rightarrow> 'a slheap \<Rightarrow> bool" where
  "same_nodes h h' \<longleftrightarrow> get_key h' = get_key h \<and> height h' = height h \<and> dom h' = dom h"

lemma same_nodesD:
  "same_nodes h h' \<Longrightarrow> get_key h' = get_key h" "same_nodes h h' \<Longrightarrow> height h' = height h"
  "same_nodes h h' \<Longrightarrow> dom h' = dom h"
  by (simp_all add: same_nodes_def)

lemma set_forward_ex:
  assumes "k < height h p"
  obtains h' where "set_forward h p k v = Some h'" "same_nodes h h'"
    "\<forall>p' k'. get_forward h' p' k' = (if p' = p \<and> k' = k then Some v else get_forward h p' k')"
proof -
  obtain n where n: "h p = Some n" "k < length (forward n)"
    using assms by (auto simp: height_def split: option.splits)
  let ?h = "h(p \<mapsto> n\<lparr>forward := (forward n)[k := v]\<rparr>)"
  show ?thesis
    by (rule that [of ?h])
       (use n in \<open>auto simp: set_forward_def get_forward_def height_def get_key_def same_nodes_def fun_eq_iff\<close>)
qed

lemma chain_frame:
  "(\<And>a. a \<in> insert p (set as) \<Longrightarrow> get_forward h' a k = get_forward h a k) \<Longrightarrow>
     chain h' k p as = chain h k p as"
  by (induction as arbitrary: p) auto

lemma chain_last: "chain h k p (as @ bs) \<Longrightarrow> chain h k (last (p # as)) bs"
  by (induction as arbitrary: p) auto

lemma chain_first: "chain h k p as \<Longrightarrow> get_forward h p k = Some (case as of [] \<Rightarrow> None | a # _ \<Rightarrow> Some a)"
  by (cases as) auto

lemma chain_insert:
  assumes "chain h k p (as @ bs)" "distinct (p # as @ bs)" "q \<notin> set (p # as @ bs)"
    and "get_forward h' (last (p # as)) k = Some (Some q)"
    and "get_forward h' q k = get_forward h (last (p # as)) k"
    and "\<And>a. a \<noteq> q \<Longrightarrow> a \<noteq> last (p # as) \<Longrightarrow> get_forward h' a k = get_forward h a k"
  shows "chain h' k p (as @ q # bs)"
  using assms
proof (induction as arbitrary: p)
  case Nil
  have "chain h' k q bs"
  proof (cases bs)
    case (Cons b cs)
    have "chain h' k b cs = chain h k b cs" by (rule chain_frame) (use Nil Cons in \<open>simp; metis\<close>)
    with Nil Cons show ?thesis by simp
  qed (use Nil in simp)
  with Nil show ?case by simp
next
  case (Cons a as)
  have "get_forward h' p k = get_forward h p k"
    by (rule Cons.prems(6)) (use Cons.prems(2,3) last_in_set [of "a # as"] in auto)
  moreover have "chain h' k a (as @ q # bs)" by (rule Cons.IH) (use Cons.prems in auto)
  ultimately show ?case using Cons.prems(1) by simp
qed

lemma chain_delete:
  assumes "chain h k p (as @ q # bs)" "distinct (p # as @ q # bs)"
    and "get_forward h' (last (p # as)) k = get_forward h q k"
    and "\<And>a. a \<noteq> q \<Longrightarrow> a \<noteq> last (p # as) \<Longrightarrow> get_forward h' a k = get_forward h a k"
  shows "chain h' k p (as @ bs)"
  using assms
proof (induction as arbitrary: p)
  case Nil
  show ?case
  proof (cases bs)
    case (Cons b cs)
    have "chain h' k b cs = chain h k b cs" by (rule chain_frame) (use Nil Cons in \<open>simp; metis\<close>)
    with Nil Cons show ?thesis by simp
  qed (use Nil in simp)
next
  case (Cons a as)
  have "get_forward h' p k = get_forward h p k"
    by (rule Cons.prems(4)) (use Cons.prems(2) last_in_set [of "a # as"] in auto)
  moreover have "chain h' k a (as @ bs)" by (rule Cons.IH) (use Cons.prems in auto)
  ultimately show ?case using Cons.prems(1) by simp
qed

section \<open>The loops on the chains\<close>

lemma sl_advance_chain:
  assumes "chain h k p (as @ bs)"
    and "\<And>a. a \<in> set (as @ bs) \<Longrightarrow> get_key h a \<noteq> None"
    and "\<And>a. a \<in> set as \<Longrightarrow> cmp (keyof h a) x < 0"
    and "bs \<noteq> [] \<Longrightarrow> \<not> cmp (keyof h (hd bs)) x < 0"
  shows "sl_advance cmp h x k p = Some (last (p # as), case bs of [] \<Rightarrow> None | b # _ \<Rightarrow> Some b)"
  using assms
proof (induction as arbitrary: p)
  case Nil
  then show ?case by (subst sl_advance.simps) (cases bs, auto)
next
  case (Cons a as)
  obtain y where "get_key h a = Some y" using Cons.prems(2) [of a] by auto
  moreover have "sl_advance cmp h x k a = Some (last (a # as), case bs of [] \<Rightarrow> None | b # _ \<Rightarrow> Some b)"
    by (rule Cons.IH) (use Cons.prems in auto)
  ultimately show ?case
    using Cons.prems(1) Cons.prems(3) [of a] by (subst sl_advance.simps) simp
qed

lemma sl_link_effect:
  assumes "n \<le> height h q" "\<forall>k < n. upd ! k \<noteq> q \<and> k < height h (upd ! k)"
  shows "\<exists>h'. sl_link q upd n h = Some h' \<and> same_nodes h h' \<and>
    (\<forall>p k. get_forward h' p k = (if k < n \<and> p = q then get_forward h (upd ! k) k
       else if k < n \<and> p = upd ! k then Some (Some q) else get_forward h p k))"
  using assms
proof (induction n arbitrary: h)
  case (Suc n)
  obtain v where v: "get_forward h (upd ! n) n = Some v"
    using get_forward_ex Suc.prems(2) by blast
  obtain h1 where h1: "set_forward h q n v = Some h1" "same_nodes h h1"
    "\<forall>p' k'. get_forward h1 p' k' = (if p' = q \<and> k' = n then Some v else get_forward h p' k')"
    by (rule set_forward_ex [of n h q v]) (use Suc.prems(1) in auto)
  obtain h2 where h2: "set_forward h1 (upd ! n) n (Some q) = Some h2" "same_nodes h1 h2"
    "\<forall>p' k'. get_forward h2 p' k' =
       (if p' = upd ! n \<and> k' = n then Some (Some q) else get_forward h1 p' k')"
    by (rule set_forward_ex [of n h1 "upd ! n" "Some q"])
       (use Suc.prems(2) same_nodesD [OF h1(2)] in auto)
  obtain h' where h': "sl_link q upd n h2 = Some h'" "same_nodes h2 h'"
    "\<forall>p k. get_forward h' p k = (if k < n \<and> p = q then get_forward h2 (upd ! k) k
       else if k < n \<and> p = upd ! k then Some (Some q) else get_forward h2 p k)"
    using Suc.IH [of h2] Suc.prems same_nodesD [OF h1(2)] same_nodesD [OF h2(2)] by auto
  have "same_nodes h h'" using h1(2) h2(2) h'(2) by (simp add: same_nodes_def)
  moreover have "get_forward h' p k = (if k < Suc n \<and> p = q then get_forward h (upd ! k) k
       else if k < Suc n \<and> p = upd ! k then Some (Some q) else get_forward h p k)" for p k
  proof (cases "k = n")
    case True
    with v h1(3) h2(3) h'(3) Suc.prems(2) show ?thesis by simp
  next
    case False
    then have "k < Suc n \<longleftrightarrow> k < n" by auto
    with False h1(3) h2(3) h'(3) show ?thesis by simp
  qed
  ultimately show ?case using v h1(1) h2(1) h'(1) by simp
qed (simp add: same_nodes_def)

lemma sl_unlink_effect:
  assumes "\<forall>i < length upd. upd ! i \<noteq> q \<and> k + i < height h (upd ! i) \<and>
      (get_forward h (upd ! i) (k + i) = Some (Some q) \<longleftrightarrow> k + i < height h q)"
  shows "\<exists>h'. sl_unlink q upd k h = Some h' \<and> same_nodes h h' \<and>
    (\<forall>p j. get_forward h' p j = (if k \<le> j \<and> j < k + length upd \<and> j < height h q \<and> p = upd ! (j - k)
       then get_forward h q j else get_forward h p j))"
  using assms
proof (induction upd arbitrary: h k)
  case Nil
  then show ?case by (auto simp: same_nodes_def)
next
  case (Cons p upd)
  have p: "p \<noteq> q" "k < height h p" "get_forward h p k = Some (Some q) \<longleftrightarrow> k < height h q"
    using Cons.prems by fastforce+
  obtain v where v: "get_forward h p k = Some v" using get_forward_ex p(2) by blast
  show ?case
  proof (cases "k < height h q")
    case False
    with p(3) v have "v \<noteq> Some q" by simp
    with v False show ?thesis by (auto simp: same_nodes_def)
  next
    case True
    with p(3) v have vq: "v = Some q" by simp
    obtain w where w: "get_forward h q k = Some w" using get_forward_ex [OF True] by blast
    obtain h1 where h1: "set_forward h p k w = Some h1" "same_nodes h h1"
      "\<forall>p' k'. get_forward h1 p' k' = (if p' = p \<and> k' = k then Some w else get_forward h p' k')"
      by (rule set_forward_ex [OF p(2)])
    have "\<forall>i < length upd. upd ! i \<noteq> q \<and> Suc k + i < height h1 (upd ! i) \<and>
        (get_forward h1 (upd ! i) (Suc k + i) = Some (Some q) \<longleftrightarrow> Suc k + i < height h1 q)"
      using Cons.prems h1(3) same_nodesD(2) [OF h1(2)] by fastforce
    then obtain h' where h': "sl_unlink q upd (Suc k) h1 = Some h'" "same_nodes h1 h'"
      "\<forall>p j. get_forward h' p j =
        (if Suc k \<le> j \<and> j < Suc k + length upd \<and> j < height h1 q \<and> p = upd ! (j - Suc k)
         then get_forward h1 q j else get_forward h1 p j)"
      using Cons.IH [of "Suc k" h1] by blast
    have "get_forward h' p' j = (if k \<le> j \<and> j < k + length (p # upd) \<and> j < height h q \<and>
        p' = (p # upd) ! (j - k) then get_forward h q j else get_forward h p' j)" for p' j
    proof (cases "j = k")
      case True
      then show ?thesis using h'(3) h1(3) w \<open>k < height h q\<close> by simp
    next
      case False
      then have "k < j \<Longrightarrow> (p # upd) ! (j - k) = upd ! (j - Suc k)"
        by (metis Suc_diff_Suc nth_Cons_Suc)
      with False show ?thesis
        using h'(3) h1(3) same_nodesD(2) [OF h1(2)] p(1) by (cases "k < j") auto
    qed
    moreover have "same_nodes h h'" using h1(2) h'(2) by (simp add: same_nodes_def)
    ultimately show ?thesis using v vq w h1(1) h'(1) by simp
  qed
qed

lemma sl_lower_effect:
  assumes "m < height h hdr"
  obtains m' where "sl_lower h hdr m = Some m'" "m' \<le> m"
    "\<And>k. m' < k \<Longrightarrow> k \<le> m \<Longrightarrow> get_forward h hdr k = Some None"
    "m' = 0 \<or> get_forward h hdr m' \<noteq> Some None"
  using assms
proof (induction m arbitrary: thesis)
  case 0
  then show ?case using get_forward_ex [of 0 h hdr] by auto
next
  case (Suc m)
  obtain v where v: "get_forward h hdr (Suc m) = Some v" using get_forward_ex Suc.prems(2) by blast
  show ?case
  proof (cases v)
    case None
    obtain m' where m': "sl_lower h hdr m = Some m'" "m' \<le> m"
      "\<And>k. m' < k \<Longrightarrow> k \<le> m \<Longrightarrow> get_forward h hdr k = Some None"
      "m' = 0 \<or> get_forward h hdr m' \<noteq> Some None"
      using Suc.IH Suc.prems(2) by (metis Suc_lessD)
    have "get_forward h hdr k = Some None" if "m' < k" "k \<le> Suc m" for k
      using m'(3) [of k] that v None by (cases "k = Suc m") auto
    with m' v None show ?thesis by (intro Suc.prems(1) [of m']) auto
  next
    case (Some a)
    with v show ?thesis by (intro Suc.prems(1) [of "Suc m"]) auto
  qed
qed

end
