(* ===== verification/Skip_Index.thy ===== *)
theory Skip_Index
  imports Skip_Chains
begin

text \<open>
  The invariant of the skip list and the laws its operations keep: under a comparison function
  that is a linear order on ranks, \<open>SearchSL\<close>, \<open>InsertSL\<close> and \<open>DeleteSL\<close> are the operations of a
  finite map (locale \<open>ordered_index\<close>), whatever levels the random numbers give.
\<close>

lemma find_append:
  "find P (xs @ ys) = (case find P xs of None \<Rightarrow> find P ys | Some x \<Rightarrow> Some x)"
  by (induction xs) auto

section \<open>The invariant\<close>

definition in_order :: "'a slcmp \<Rightarrow> SkipList \<Rightarrow> 'a \<Rightarrow> 'a \<Rightarrow> bool" where
  "in_order cmp l y z \<longleftrightarrow> cmp y z < 0 \<or> (sl_flags l AND ALLOW_DUPLICATES \<noteq> 0 \<and> cmp y z = 0)"

definition sl_inv :: "'a slcmp \<Rightarrow> SkipList \<Rightarrow> 'a slheap \<Rightarrow> sladdr list \<Rightarrow> bool" where
  "sl_inv cmp l h as \<longleftrightarrow> distinct (sl_header l # as) \<and> height h (sl_header l) = MaxNumberOfLevels \<and>
     (\<forall>a \<in> set as. get_key h a \<noteq> None \<and> 1 \<le> height h a \<and> height h a \<le> sl_level l) \<and>
     (\<forall>k < MaxNumberOfLevels. chain h k (sl_header l) (tall h k as)) \<and>
     sorted_wrt (\<lambda>a b. in_order cmp l (keyof h a) (keyof h b)) as \<and>
     1 \<le> sl_level l \<and> sl_level l \<le> MaxNumberOfLevels \<and> sl_count l = int (length as)"

lemma sl_invD:
  assumes "sl_inv cmp l h as"
  shows "distinct as" "sl_header l \<notin> set as" "height h (sl_header l) = MaxNumberOfLevels"
    "\<And>a. a \<in> set as \<Longrightarrow> get_key h a \<noteq> None" "\<And>a. a \<in> set as \<Longrightarrow> 1 \<le> height h a"
    "\<And>a. a \<in> set as \<Longrightarrow> height h a \<le> sl_level l"
    "\<And>k. k < MaxNumberOfLevels \<Longrightarrow> chain h k (sl_header l) (tall h k as)"
    "sorted_wrt (\<lambda>a b. in_order cmp l (keyof h a) (keyof h b)) as"
    "1 \<le> sl_level l" "sl_level l \<le> MaxNumberOfLevels" "sl_count l = int (length as)"
  using assms by (auto simp: sl_inv_def)

text \<open>The nodes before and from the place of a key, and the nodes that precede that place in the
  chain of each level: the array \<open>update\<close>.\<close>

definition before :: "'a slcmp \<Rightarrow> 'a slheap \<Rightarrow> 'a \<Rightarrow> sladdr list \<Rightarrow> sladdr list" where
  "before cmp h x as = takeWhile (\<lambda>a. cmp (keyof h a) x < 0) as"

definition onward :: "'a slcmp \<Rightarrow> 'a slheap \<Rightarrow> 'a \<Rightarrow> sladdr list \<Rightarrow> sladdr list" where
  "onward cmp h x as = dropWhile (\<lambda>a. cmp (keyof h a) x < 0) as"

definition preds :: "'a slheap \<Rightarrow> sladdr \<Rightarrow> sladdr list \<Rightarrow> nat \<Rightarrow> sladdr list" where
  "preds h hdr as n = map (\<lambda>k. last (hdr # tall h k as)) [0..<n]"

abbreviation first_node :: "sladdr list \<Rightarrow> sladdr option" where
  "first_node bs \<equiv> (case bs of [] \<Rightarrow> None | b # _ \<Rightarrow> Some b)"

lemma before_onward [simp]: "before cmp h x as @ onward cmp h x as = as"
  by (simp add: before_def onward_def)

lemma before_less: "a \<in> set (before cmp h x as) \<Longrightarrow> cmp (keyof h a) x < 0"
  by (auto simp: before_def dest: set_takeWhileD)

lemma before_sub: "set (before cmp h x as) \<subseteq> set as" "set (onward cmp h x as) \<subseteq> set as"
  by (auto simp: before_def onward_def dest: set_takeWhileD set_dropWhileD)

lemma preds_nth [simp]: "k < n \<Longrightarrow> preds h hdr as n ! k = last (hdr # tall h k as)"
  "length (preds h hdr as n) = n"
  by (simp_all add: preds_def)

lemma preds_Suc: "preds h hdr as (Suc n) = preds h hdr as n @ [last (hdr # tall h n as)]"
  by (simp add: preds_def)

lemma last_tall: "last (hdr # tall h k as) = hdr \<or>
    (last (hdr # tall h k as) \<in> set as \<and> k < height h (last (hdr # tall h k as)))"
proof (cases "tall h k as = []")
  case False
  then have "last (tall h k as) \<in> set (tall h k as)" by (rule last_in_set)
  with False show ?thesis by simp
qed simp

lemma preds_tall:
  assumes "sl_inv cmp l h as" "set bs \<subseteq> set as" "k < sl_level l"
  shows "k < height h (last (sl_header l # tall h k bs))"
  using last_tall [of "sl_header l" h k bs] sl_invD(3,10) [OF assms(1)] assms(3) by auto

section \<open>The laws of the index\<close>

locale sl_order =
  fixes cmp :: "'a slcmp" and rank :: "'a \<Rightarrow> 'r::linorder"
  assumes cmp_less: "cmp x y < 0 \<longleftrightarrow> rank x < rank y"
    and cmp_eq: "cmp x y = 0 \<longleftrightarrow> rank x = rank y"
begin

lemma onward_not_less:
  assumes "sl_inv cmp l h as" "b \<in> set (onward cmp h x as)"
  shows "\<not> cmp (keyof h b) x < 0"
proof -
  obtain c cs where o: "onward cmp h x as = c # cs" using assms(2) by (cases "onward cmp h x as") auto
  have c: "\<not> cmp (keyof h c) x < 0"
    using o hd_dropWhile [of "\<lambda>a. cmp (keyof h a) x < 0" as] by (simp add: onward_def)
  have "sorted_wrt (\<lambda>a b. in_order cmp l (keyof h a) (keyof h b)) (before cmp h x as @ c # cs)"
    using sl_invD(8) [OF assms(1)] o before_onward [of cmp h x as] by simp
  then have "\<forall>d \<in> set cs. in_order cmp l (keyof h c) (keyof h d)" by (simp add: sorted_wrt_append)
  with c assms(2) o show ?thesis by (fastforce simp: in_order_def cmp_less cmp_eq)
qed

lemma advance_to:
  assumes inv: "sl_inv cmp l h as" and k: "k < MaxNumberOfLevels"
    and p: "p = sl_header l \<or> p \<in> set (before cmp h x as) \<and> k < height h p"
  shows "sl_advance cmp h x k p = Some (last (sl_header l # tall h k (before cmp h x as)),
    first_node (tall h k (onward cmp h x as)))"
proof -
  let ?A = "before cmp h x as" and ?B = "onward cmp h x as"
  have ch: "chain h k (sl_header l) (tall h k ?A @ tall h k ?B)"
    using sl_invD(7) [OF inv k] before_onward [of cmp h x as] by (metis tall_simps(2))
  obtain us where us: "chain h k p (us @ tall h k ?B)" "set us \<subseteq> set ?A"
    "last (p # us) = last (sl_header l # tall h k ?A)"
  proof (cases "p = sl_header l")
    case True
    with ch that [of "tall h k ?A"] show thesis by auto
  next
    case False
    with p have "p \<in> set (tall h k ?A)" by simp
    then obtain vs us where v: "tall h k ?A = (vs @ [p]) @ us" by (metis append.assoc append_Cons append_Nil split_list)
    from ch v have "chain h k (last (sl_header l # vs @ [p])) (us @ tall h k ?B)"
      using chain_last [of h k "sl_header l" "vs @ [p]"] by simp
    moreover have "set us \<subseteq> set ?A"
    proof -
      have "set us \<subseteq> set (tall h k ?A)" unfolding v by auto
      then show ?thesis by auto
    qed
    ultimately show thesis using v by (intro that [of us]) auto
  qed
  have "sl_advance cmp h x k p = Some (last (p # us), first_node (tall h k ?B))"
  proof (rule sl_advance_chain [OF us(1)])
    fix a assume "a \<in> set (us @ tall h k ?B)"
    then have "a \<in> set as" using us(2) before_sub [of cmp h x as] by auto
    then show "get_key h a \<noteq> None" by (rule sl_invD(4) [OF inv])
  next
    fix a assume "a \<in> set us"
    with us(2) show "cmp (keyof h a) x < 0" using before_less [of a cmp h x as] by blast
  next
    assume "tall h k ?B \<noteq> []"
    then have "hd (tall h k ?B) \<in> set (tall h k ?B)" by (rule hd_in_set)
    then show "\<not> cmp (keyof h (hd (tall h k ?B))) x < 0" using onward_not_less [OF inv] by simp
  qed
  with us(3) show ?thesis by simp
qed

lemma tall_0:
  assumes inv: "sl_inv cmp l h as"
  shows "tall h 0 (onward cmp h x as) = onward cmp h x as"
  using sl_invD(5) [OF inv] before_sub(2) [of cmp h x as]
  by (fastforce simp: tall_def filter_id_conv)

lemma descend_to:
  assumes inv: "sl_inv cmp l h as"
  shows "Suc n \<le> MaxNumberOfLevels \<Longrightarrow>
    p = sl_header l \<or> p \<in> set (before cmp h x as) \<and> n < height h p \<Longrightarrow>
    sl_descend cmp h x (Suc n) p =
      Some (preds h (sl_header l) (before cmp h x as) (Suc n), first_node (onward cmp h x as))"
proof (induction n arbitrary: p)
  case 0
  with advance_to [OF inv _ 0(2)] tall_0 [OF inv, of x] show ?case by (simp add: MaxNumberOfLevels_def preds_def)
next
  case (Suc n)
  let ?p = "last (sl_header l # tall h (Suc n) (before cmp h x as))"
  have "?p = sl_header l \<or> ?p \<in> set (before cmp h x as) \<and> n < height h ?p"
    using last_tall [of "sl_header l" h "Suc n" "before cmp h x as"] Suc_lessD by blast
  from Suc.IH [OF _ this] advance_to [OF inv _ Suc.prems(2)] Suc.prems(1) show ?case
    by (simp add: preds_Suc)
qed

lemma descend_list:
  assumes "sl_inv cmp l h as"
  shows "sl_descend cmp h x (sl_level l) (sl_header l) =
    Some (preds h (sl_header l) (before cmp h x as) (sl_level l), first_node (onward cmp h x as))"
  using descend_to [OF assms, of "sl_level l - 1" "sl_header l" x] sl_invD(9,10) [OF assms] by simp

lemma key_eq_first:
  assumes "sl_inv cmp l h as"
  shows "key_eq cmp h (first_node (onward cmp h x as)) x =
    Some (onward cmp h x as \<noteq> [] \<and> cmp (keyof h (hd (onward cmp h x as))) x = 0)"
proof (cases "onward cmp h x as")
  case (Cons b bs)
  then have "get_key h b \<noteq> None"
    using sl_invD(4) [OF assms, of b] before_sub(2) [of cmp h x as] by auto
  with Cons show ?thesis by (auto simp: key_eq_def)
qed (simp add: key_eq_def)

lemma SearchSL_correct:
  assumes "sl_inv cmp l h as"
  shows "SearchSL cmp x (l, h) = Some (find (\<lambda>y. cmp y x = 0) (map (keyof h) as))"
proof -
  let ?B = "onward cmp h x as"
  have "find (\<lambda>y. cmp y x = 0) (map (keyof h) (before cmp h x as)) = None"
    using before_less [of _ cmp h x as] by (fastforce simp: find_None_iff)
  then have f: "find (\<lambda>y. cmp y x = 0) (map (keyof h) as) = find (\<lambda>y. cmp y x = 0) (map (keyof h) ?B)"
    using before_onward [of cmp h x as] by (metis (no_types, lifting) find_append map_append option.simps(4))
  show ?thesis
  proof (cases ?B)
    case Nil
    with f key_eq_first [OF assms, of x] show ?thesis by (simp add: SearchSL_def descend_list [OF assms])
  next
    case (Cons b bs)
    then have b: "get_key h b \<noteq> None"
      using sl_invD(4) [OF assms, of b] before_sub(2) [of cmp h x as] by auto
    have rest: "find (\<lambda>y. cmp y x = 0) (map (keyof h) bs) = None" if "cmp (keyof h b) x \<noteq> 0"
    proof -
      have "rank x < rank (keyof h b)"
        using that onward_not_less [OF assms, of b x] Cons by (auto simp: cmp_less cmp_eq)
      moreover have "sorted_wrt (\<lambda>a b. in_order cmp l (keyof h a) (keyof h b)) (before cmp h x as @ b # bs)"
        using sl_invD(8) [OF assms] Cons before_onward [of cmp h x as] by simp
      ultimately show ?thesis
        by (fastforce simp: find_None_iff sorted_wrt_append in_order_def cmp_less cmp_eq)
    qed
    from b f rest Cons key_eq_first [OF assms, of x] show ?thesis
      by (auto simp: SearchSL_def descend_list [OF assms])
  qed
qed

lemma insert_sorted:
  assumes inv: "sl_inv cmp l h as"
    and new: "sl_flags l AND ALLOW_DUPLICATES = 0 \<Longrightarrow> onward cmp h x as \<noteq> [] \<Longrightarrow>
      cmp (keyof h (hd (onward cmp h x as))) x \<noteq> 0"
    and b: "b \<in> set (onward cmp h x as)"
  shows "in_order cmp l x (keyof h b)"
proof -
  obtain c cs where o: "onward cmp h x as = c # cs" using b by (cases "onward cmp h x as") auto
  have "sorted_wrt (\<lambda>a b. in_order cmp l (keyof h a) (keyof h b)) (before cmp h x as @ c # cs)"
    using sl_invD(8) [OF inv] o before_onward [of cmp h x as] by simp
  then have "b = c \<or> in_order cmp l (keyof h c) (keyof h b)" using b o by (auto simp: sorted_wrt_append)
  moreover have "\<not> rank (keyof h c) < rank x" "\<not> rank (keyof h b) < rank x"
    using onward_not_less [OF inv, of _ x] o b by (auto simp: cmp_less)
  ultimately show ?thesis using new o by (auto simp: in_order_def cmp_less cmp_eq)
qed

lemma link_keeps:
  assumes inv: "sl_inv cmp l h as" and a: "a \<notin> set (sl_header l # as)"
    and A: "A = before cmp h x as" and B: "B = onward cmp h x as"
    and ord: "\<And>b. b \<in> set B \<Longrightarrow> in_order cmp l x (keyof h b)"
    and k: "k < MaxNumberOfLevels" "k \<le> sl_level l" and m: "m = max (sl_level l) (Suc k)"
    and upd: "\<And>j. j \<le> k \<Longrightarrow> upd ! j = last (sl_header l # tall h j A)"
    and l': "l' = l\<lparr>sl_level := m, sl_count := sl_count l + 1\<rparr>"
  shows "\<exists>h'. sl_link a upd (Suc k) (h(a \<mapsto> \<lparr>sl_key = Some x, forward = replicate (Suc k) None\<rparr>)) = Some h' \<and>
    sl_inv cmp l' h' (A @ a # B) \<and> keyof h' a = x \<and>
    (\<forall>c. c \<noteq> a \<longrightarrow> get_key h' c = get_key h c) \<and> dom h' = insert a (dom h)"
proof -
  define h0 where "h0 = h(a \<mapsto> \<lparr>sl_key = Some x, forward = replicate (Suc k) None\<rparr>)"
  have h0: "height h0 = (height h)(a := Suc k)" "get_key h0 = (get_key h)(a \<mapsto> x)"
    by (auto simp: h0_def height_def get_key_def fun_eq_iff)
  have fw0: "get_forward h0 c j = get_forward h c j" if "c \<noteq> a" for c j
    using that by (simp add: h0_def get_forward_def)
  have as: "as = A @ B" by (simp add: A B)
  have dist: "distinct (sl_header l # A @ B)" "a \<notin> set (sl_header l # A @ B)"
    using sl_invD(1,2) [OF inv] a by (auto simp: as)
  have pred: "last (sl_header l # tall h j A) \<in> set (sl_header l # A)" for j
    using last_tall [of "sl_header l" h j A] by auto
  have up: "upd ! j \<noteq> a \<and> j < height h0 (upd ! j)" if "j \<le> k" for j
  proof -
    have "upd ! j \<noteq> a" using pred [of j] dist(2) upd [OF that] by auto
    moreover have "j < height h (upd ! j)"
      using last_tall [of "sl_header l" h j A] sl_invD(3) [OF inv] k(1) that upd [OF that] by auto
    ultimately show ?thesis by (simp add: h0(1))
  qed
  have "Suc k \<le> height h0 a" by (simp add: h0(1))
  moreover have "\<forall>j < Suc k. upd ! j \<noteq> a \<and> j < height h0 (upd ! j)"
    using up by (simp add: less_Suc_eq_le)
  ultimately
  obtain h' where h': "sl_link a upd (Suc k) h0 = Some h'" "same_nodes h0 h'"
    "\<forall>p j. get_forward h' p j = (if j < Suc k \<and> p = a then get_forward h0 (upd ! j) j
       else if j < Suc k \<and> p = upd ! j then Some (Some a) else get_forward h0 p j)"
    using sl_link_effect by blast
  have ht: "height h' = (height h)(a := Suc k)" and key: "get_key h' = (get_key h)(a \<mapsto> x)"
    using h0 same_nodesD [OF h'(2)] by auto
  have tl: "tall h' j cs = tall h j cs" if "a \<notin> set cs" for j cs
    using that by (auto simp: tall_def ht intro!: filter_cong)
  have "chain h' j (sl_header l) (tall h' j (A @ a # B))" if j: "j < MaxNumberOfLevels" for j
  proof -
    have c: "chain h j (sl_header l) (tall h j A @ tall h j B)" using sl_invD(7) [OF inv j] by (simp add: as)
    have d: "distinct (sl_header l # tall h j A @ tall h j B)"
      "a \<notin> set (sl_header l # tall h j A @ tall h j B)"
      using dist by (auto simp: tall_def)
    show ?thesis
    proof (cases "j \<le> k")
      case True
      have "chain h' j (sl_header l) (tall h j A @ a # tall h j B)"
        by (rule chain_insert [OF c d])
           (use True h'(3) upd [OF True] up [OF True] fw0 in \<open>auto simp: less_Suc_eq_le\<close>)
      with True tl [of A j] tl [of B j] dist(2) show ?thesis by (simp add: ht less_Suc_eq_le)
    next
      case False
      have "chain h' j (sl_header l) (tall h j A @ tall h j B) = chain h j (sl_header l) (tall h j A @ tall h j B)"
      proof (rule chain_frame)
        fix c assume "c \<in> insert (sl_header l) (set (tall h j A @ tall h j B))"
        then have "c \<noteq> a" using d(2) by (metis list.simps(15))
        with False h'(3) fw0 show "get_forward h' c j = get_forward h c j" by simp
      qed
      with False c tl [of A j] tl [of B j] dist(2) show ?thesis by (simp add: ht)
    qed
  qed
  moreover have "sorted_wrt (\<lambda>b c. in_order cmp l' (keyof h' b) (keyof h' c)) (A @ a # B)"
  proof -
    have o: "in_order cmp l' = in_order cmp l" by (simp add: in_order_def l' fun_eq_iff)
    have keys: "keyof h' b = keyof h b" if "b \<in> set (A @ B)" for b using that dist(2) key by auto
    have "sorted_wrt (\<lambda>b c. in_order cmp l (keyof h' b) (keyof h' c)) (A @ B)"
      using sl_invD(8) [OF inv] sorted_wrt_mono_rel [of "A @ B" "\<lambda>b c. in_order cmp l (keyof h b) (keyof h c)"]
        keys as by (metis (no_types, lifting))
    moreover have "in_order cmp l (keyof h b) x" if "b \<in> set A" for b
      using that before_less [of b cmp h x as] by (simp add: A in_order_def)
    ultimately show ?thesis using ord keys key by (auto simp: o sorted_wrt_append)
  qed
  ultimately have "sl_inv cmp l' h' (A @ a # B)"
    using dist sl_invD(3-6,9-11) [OF inv] k m by (auto simp: sl_inv_def l' ht key as MaxNumberOfLevels_def intro: max.coboundedI1)
  moreover have "dom h' = insert a (dom h)" using same_nodesD(3) [OF h'(2)] by (simp add: h0_def)
  ultimately show ?thesis using h'(1) key unfolding h0_def by auto
qed

lemma InsertSL_duplicate:
  assumes inv: "sl_inv cmp l h as" and dup: "sl_flags l AND ALLOW_DUPLICATES = 0"
    and mem: "\<exists>y \<in> set (map (keyof h) as). cmp y x = 0"
  shows "InsertSL cmp rs m x (l, h) = Some (DUPLICATE_ITEM, l, h)"
proof -
  obtain b where b: "b \<in> set as" "cmp (keyof h b) x = 0" using mem by auto
  then have o: "b \<in> set (onward cmp h x as)"
    using before_less [of b cmp h x as] before_onward [of cmp h x as] by (metis Un_iff less_irrefl set_append)
  have "onward cmp h x as \<noteq> [] \<and> cmp (keyof h (hd (onward cmp h x as))) x = 0"
    using insert_sorted [OF inv _ o] o b(2) dup by (fastforce simp: in_order_def cmp_less cmp_eq)
  with key_eq_first [OF inv, of x] dup show ?thesis by (simp add: InsertSL_def descend_list [OF inv])
qed

lemma InsertSL_new:
  assumes inv: "sl_inv cmp l h as" and a: "a \<notin> set (sl_header l # as)"
    and new: "sl_flags l AND ALLOW_DUPLICATES = 0 \<Longrightarrow> \<forall>y \<in> set (map (keyof h) as). cmp y x \<noteq> 0"
  shows "\<exists>l' h'. InsertSL cmp rs (Some a) x (l, h) = Some (1, l', h') \<and>
    sl_inv cmp l' h' (before cmp h x as @ a # onward cmp h x as) \<and> sl_header l' = sl_header l \<and>
    sl_flags l' = sl_flags l \<and> keyof h' a = x \<and>
    (\<forall>c. c \<noteq> a \<longrightarrow> get_key h' c = get_key h c) \<and> dom h' = insert a (dom h)"
proof -
  let ?A = "before cmp h x as" and ?B = "onward cmp h x as" and ?r = "RandomLevelSL rs"
  have r: "?r < MaxNumberOfLevels" by (simp add: RandomLevelSL_def MaxLevel_def MaxNumberOfLevels_def Let_def)
  have new': "?B \<noteq> [] \<Longrightarrow> cmp (keyof h (hd ?B)) x \<noteq> 0" if "sl_flags l AND ALLOW_DUPLICATES = 0"
  proof -
    assume "?B \<noteq> []"
    then have "hd ?B \<in> set as" using before_sub(2) [of cmp h x as] hd_in_set by blast
    with new [OF that] show ?thesis by simp
  qed
  note ord = insert_sorted [OF inv new']
  have go: "\<not> (sl_flags l AND ALLOW_DUPLICATES = 0 \<and> (?B \<noteq> [] \<and> cmp (keyof h (hd ?B)) x = 0))"
    using new' by blast
  show ?thesis
  proof (cases "sl_level l \<le> ?r")
    case True
    have "tall h (sl_level l) ?A = []"
      using sl_invD(6) [OF inv] before_sub(1) [of cmp h x as] by (auto simp: tall_def filter_empty_conv not_less)
    then have "preds h (sl_header l) ?A (sl_level l) @ [sl_header l] = preds h (sl_header l) ?A (Suc (sl_level l))"
      by (simp add: preds_Suc)
    moreover have "\<exists>h'. sl_link a (preds h (sl_header l) ?A (Suc (sl_level l))) (Suc (sl_level l))
        (h(a \<mapsto> \<lparr>sl_key = Some x, forward = replicate (Suc (sl_level l)) None\<rparr>)) = Some h' \<and>
      sl_inv cmp (l\<lparr>sl_level := Suc (sl_level l), sl_count := sl_count l + 1\<rparr>) h' (?A @ a # ?B) \<and>
      keyof h' a = x \<and>
    (\<forall>c. c \<noteq> a \<longrightarrow> get_key h' c = get_key h c) \<and> dom h' = insert a (dom h)"
      by (rule link_keeps [OF inv a refl refl ord]) (use True r in auto)
    ultimately show ?thesis
      using True key_eq_first [OF inv, of x] go by (auto simp: InsertSL_def descend_list [OF inv] Let_def)
  next
    case False
    have "\<exists>h'. sl_link a (preds h (sl_header l) ?A (sl_level l)) (Suc ?r)
        (h(a \<mapsto> \<lparr>sl_key = Some x, forward = replicate (Suc ?r) None\<rparr>)) = Some h' \<and>
      sl_inv cmp (l\<lparr>sl_level := sl_level l, sl_count := sl_count l + 1\<rparr>) h' (?A @ a # ?B) \<and>
      keyof h' a = x \<and>
    (\<forall>c. c \<noteq> a \<longrightarrow> get_key h' c = get_key h c) \<and> dom h' = insert a (dom h)"
      by (rule link_keeps [OF inv a refl refl ord]) (use False r in auto)
    then show ?thesis
      using False key_eq_first [OF inv, of x] go by (auto simp: InsertSL_def descend_list [OF inv] Let_def)
  qed
qed

lemma first_pred:
  assumes inv: "sl_inv cmp l h as"
  shows "get_forward h (preds h (sl_header l) (before cmp h x as) (sl_level l) ! 0) 0 =
    Some (first_node (onward cmp h x as))"
proof -
  have "chain h 0 (sl_header l) (tall h 0 (before cmp h x as) @ tall h 0 (onward cmp h x as))"
    using sl_invD(7) [OF inv, of 0] before_onward [of cmp h x as]
    by (metis MaxNumberOfLevels_def tall_simps(2) zero_less_numeral)
  from chain_first [OF chain_last [OF this]] show ?thesis
    using sl_invD(9) [OF inv] tall_0 [OF inv, of x] by simp
qed

lemma DeleteSL_absent:
  assumes inv: "sl_inv cmp l h as" and mem: "\<forall>y \<in> set (map (keyof h) as). cmp y x \<noteq> 0"
  shows "DeleteSL cmp x (l, h) = Some (0, l, h)"
proof -
  let ?B = "onward cmp h x as"
  have "get_forward h (preds h (sl_header l) (before cmp h x as) (sl_level l) ! 0) 0 = Some (first_node ?B)"
    by (rule first_pred [OF inv])
  moreover have "key_eq cmp h (first_node ?B) x = Some False"
    using mem key_eq_first [OF inv, of x] before_sub(2) [of cmp h x as] by fastforce
  ultimately show ?thesis
    by (cases ?B) (simp_all add: DeleteSL_def descend_list [OF inv])
qed

lemma unlink_keeps:
  assumes inv: "sl_inv cmp l h (A @ q # B)"
    and upd: "upd = preds h (sl_header l) A (sl_level l)"
  shows "\<exists>h1 m. sl_unlink q upd 0 h = Some h1 \<and>
    sl_lower (h1(q := None)) (sl_header l) (sl_level l - 1) = Some m \<and>
    sl_inv cmp (l\<lparr>sl_count := sl_count l - 1, sl_level := m + 1\<rparr>) (h1(q := None)) (A @ B) \<and>
    (\<forall>c. c \<noteq> q \<longrightarrow> get_key (h1(q := None)) c = get_key h c) \<and> dom (h1(q := None)) = dom h - {q}"
proof -
  let ?hd = "sl_header l"
  have dist: "distinct (?hd # A @ q # B)" using sl_invD(1,2) [OF inv] by simp
  have ch: "chain h j ?hd (tall h j A @ tall h j (q # B))" if "j < MaxNumberOfLevels" for j
    using sl_invD(7) [OF inv that] by simp
  have d: "distinct (?hd # tall h j A @ q # tall h j B)" for j using dist by (auto simp: tall_def)
  have nq: "last (?hd # tall h j A) \<noteq> q" for j using last_tall [of ?hd h j A] dist by auto
  have lv: "sl_level l \<le> MaxNumberOfLevels" "1 \<le> sl_level l" "height h q \<le> sl_level l"
    using sl_invD(6,9,10) [OF inv] by auto
  have "\<forall>i < length upd. upd ! i \<noteq> q \<and> 0 + i < height h (upd ! i) \<and>
      (get_forward h (upd ! i) (0 + i) = Some (Some q) \<longleftrightarrow> 0 + i < height h q)"
  proof (intro allI impI)
    fix i assume "i < length upd"
    then have i: "i < sl_level l" "i < MaxNumberOfLevels" using lv by (auto simp: upd)
    have "get_forward h (last (?hd # tall h i A)) i = Some (first_node (tall h i (q # B)))"
      by (rule chain_first [OF chain_last [OF ch [OF i(2)]]])
    moreover have "q \<notin> set (tall h i B)" using dist by simp
    ultimately have "get_forward h (last (?hd # tall h i A)) i = Some (Some q) \<longleftrightarrow> i < height h q"
      by (cases "tall h i B") auto
    moreover have "i < height h (last (?hd # tall h i A))" by (rule preds_tall [OF inv _ i(1)]) auto
    ultimately show "upd ! i \<noteq> q \<and> 0 + i < height h (upd ! i) \<and>
      (get_forward h (upd ! i) (0 + i) = Some (Some q) \<longleftrightarrow> 0 + i < height h q)"
      using i nq by (simp add: upd del: last.simps)
  qed
  from sl_unlink_effect [OF this]
  obtain h1 where h1: "sl_unlink q upd 0 h = Some h1" "same_nodes h h1"
    "\<forall>p j. get_forward h1 p j = (if 0 \<le> j \<and> j < 0 + length upd \<and> j < height h q \<and> p = upd ! (j - 0)
       then get_forward h q j else get_forward h p j)"
    by blast
  define h2 where "h2 = h1(q := None)"
  have fw: "get_forward h2 p j = (if j < height h q \<and> p = last (?hd # tall h j A)
       then get_forward h q j else get_forward h p j)" if "p \<noteq> q" for p j
    using h1(3) that lv(3) by (auto simp: h2_def get_forward_def upd)
  have ht: "height h2 p = height h p" and key: "get_key h2 p = get_key h p" if "p \<noteq> q" for p
    using that same_nodesD [OF h1(2)] by (auto simp: h2_def height_def get_key_def fun_eq_iff)
  have ab: "a \<noteq> q" if "a \<in> set (A @ B)" for a using that dist by auto
  have tl: "tall h2 j cs = tall h j cs" if "q \<notin> set cs" for j cs
    unfolding tall_def by (rule filter_cong [OF refl]) (use that ht in metis)
  have c2: "chain h2 j ?hd (tall h2 j (A @ B))" if j: "j < MaxNumberOfLevels" for j
  proof -
    have "chain h2 j ?hd (tall h j A @ tall h j B)"
    proof (cases "j < height h q")
      case True
      show ?thesis
        by (rule chain_delete [OF _ d]) (use ch [OF j] True nq fw in auto)
    next
      case False
      have "chain h2 j ?hd (tall h j A @ tall h j B) = chain h j ?hd (tall h j A @ tall h j B)"
      proof (rule chain_frame)
        fix c assume "c \<in> insert ?hd (set (tall h j A @ tall h j B))"
        then have "c \<noteq> q" using dist by auto
        with False fw show "get_forward h2 c j = get_forward h c j" by simp
      qed
      with False ch [OF j] show ?thesis by simp
    qed
    then show ?thesis using tl [of A j] tl [of B j] dist by simp
  qed
  have hd16: "height h2 ?hd = MaxNumberOfLevels" using ht [of ?hd] sl_invD(3) [OF inv] dist by auto
  obtain m where m: "sl_lower h2 ?hd (sl_level l - 1) = Some m" "m \<le> sl_level l - 1"
    "\<And>k. m < k \<Longrightarrow> k \<le> sl_level l - 1 \<Longrightarrow> get_forward h2 ?hd k = Some None"
    by (rule sl_lower_effect [of "sl_level l - 1" h2 ?hd]) (use hd16 lv in auto)
  have low: "height h2 a \<le> m + 1" if a: "a \<in> set (A @ B)" for a
  proof (rule ccontr)
    assume n: "\<not> height h2 a \<le> m + 1"
    have "height h2 a \<le> sl_level l" using a ht [OF ab [OF a]] sl_invD(6) [OF inv, of a] by auto
    with n have "m + 1 \<le> sl_level l - 1" "m + 1 < MaxNumberOfLevels" using lv by auto
    with m(3) [of "m + 1"] c2 [of "m + 1"] have "tall h2 (m + 1) (A @ B) = []"
      by (cases "tall h2 (m + 1) (A @ B)") auto
    with n a show False by (auto simp: tall_def filter_empty_conv)
  qed
  have "sorted_wrt (\<lambda>a b. in_order cmp l (keyof h a) (keyof h b)) (A @ B)"
    using sl_invD(8) [OF inv] by (auto simp: sorted_wrt_append)
  moreover have "keyof h2 a = keyof h a" if "a \<in> set (A @ B)" for a using key [OF ab [OF that]] by simp
  ultimately have "sorted_wrt (\<lambda>a b. in_order cmp l (keyof h2 a) (keyof h2 b)) (A @ B)"
    using sorted_wrt_mono_rel [of "A @ B" "\<lambda>b c. in_order cmp l (keyof h b) (keyof h c)"]
    by (metis (no_types, lifting))
  moreover have "get_key h2 a \<noteq> None \<and> 1 \<le> height h2 a" if "a \<in> set (A @ B)" for a
    using that sl_invD(4,5) [OF inv, of a] ht [OF ab [OF that]] key [OF ab [OF that]] by auto
  ultimately have "sl_inv cmp (l\<lparr>sl_count := sl_count l - 1, sl_level := m + 1\<rparr>) h2 (A @ B)"
    using dist hd16 c2 low m(2) lv sl_invD(11) [OF inv] by (auto simp: sl_inv_def in_order_def)
  moreover have "dom h2 = dom h - {q}" using same_nodesD(3) [OF h1(2)] by (simp add: h2_def)
  ultimately show ?thesis using h1(1) m(1) key unfolding h2_def by auto
qed

lemma DeleteSL_present:
  assumes inv: "sl_inv cmp l h as" and q: "onward cmp h x as = q # B" "cmp (keyof h q) x = 0"
  shows "\<exists>l' h'. DeleteSL cmp x (l, h) = Some (1, l', h') \<and>
    sl_inv cmp l' h' (before cmp h x as @ B) \<and> sl_header l' = sl_header l \<and>
    sl_flags l' = sl_flags l \<and> (\<forall>c. c \<noteq> q \<longrightarrow> get_key h' c = get_key h c) \<and>
    dom h' = dom h - {q}"
proof -
  let ?A = "before cmp h x as"
  have as: "as = ?A @ q # B" using before_onward [of cmp h x as] q(1) by simp
  obtain h1 m where h1: "sl_unlink q (preds h (sl_header l) ?A (sl_level l)) 0 h = Some h1"
    "sl_lower (h1(q := None)) (sl_header l) (sl_level l - 1) = Some m"
    "sl_inv cmp (l\<lparr>sl_count := sl_count l - 1, sl_level := m + 1\<rparr>) (h1(q := None)) (?A @ B)"
    "\<forall>c. c \<noteq> q \<longrightarrow> get_key (h1(q := None)) c = get_key h c" "dom (h1(q := None)) = dom h - {q}"
    using unlink_keeps [of l h ?A q B, OF _ refl] inv as by auto
  have "DeleteSL cmp x (l, h) =
      Some (1, l\<lparr>sl_count := sl_count l - 1, sl_level := m + 1\<rparr>, h1(q := None))"
    using first_pred [OF inv, of x] key_eq_first [OF inv, of x] q h1(1,2)
    by (simp add: DeleteSL_def descend_list [OF inv] Let_def)
  with h1(3-5) show ?thesis by auto
qed

lemma insert_nodes:
  assumes inv: "sl_inv cmp l h as"
    and keys: "keyof h' a = x" "\<forall>c. c \<noteq> a \<longrightarrow> get_key h' c = get_key h c" and a: "a \<notin> set as"
  shows "map (keyof h') (before cmp h x as @ a # onward cmp h x as) =
    takeWhile (\<lambda>y. cmp y x < 0) (map (keyof h) as) @ x # dropWhile (\<lambda>y. cmp y x < 0) (map (keyof h) as)"
proof -
  have m: "map (keyof h') bs = map (keyof h) bs" if "set bs \<subseteq> set as" for bs
    using that keys(2) a by (auto intro!: map_cong arg_cong [of _ _ the])
  have "map (keyof h') (before cmp h x as) = map (keyof h) (before cmp h x as)"
    "map (keyof h') (onward cmp h x as) = map (keyof h) (onward cmp h x as)"
    by (rule m [OF before_sub(1)], rule m [OF before_sub(2)])
  then show ?thesis
    using keys(1) by (simp only: map_append list.map) (simp add: before_def onward_def takeWhile_map dropWhile_map comp_def)
qed

lemma free_cell:
  assumes "sl_inv cmp l h as" "h a = None"
  shows "a \<notin> set (sl_header l # as)"
  using sl_invD(3) [OF assms(1)] sl_invD(4) [OF assms(1), of a] assms(2)
  by (auto simp: height_def get_key_def MaxNumberOfLevels_def)

end

section \<open>What the list holds\<close>

text \<open>A skip list without duplicates that holds the keys \<open>ks\<close>, in this order.\<close>

definition sl_holds :: "'a slcmp \<Rightarrow> SkipList \<times> 'a slheap \<Rightarrow> 'a list \<Rightarrow> bool" where
  "sl_holds cmp s ks \<longleftrightarrow> sl_flags (fst s) = NO_DUPLICATES \<and>
     (\<exists>as. sl_inv cmp (fst s) (snd s) as \<and> ks = map (keyof (snd s)) as)"

definition sl_nodes :: "SkipList \<times> 'a slheap \<Rightarrow> sladdr set" where
  "sl_nodes s = dom (snd s)"

text \<open>The finite map from ranks to items that a list of items stands for.\<close>

definition sl_map :: "('a \<Rightarrow> 'r) \<Rightarrow> 'a list \<Rightarrow> 'r \<rightharpoonup> 'a" where
  "sl_map rank ks r = find (\<lambda>y. rank y = r) ks"

text \<open>An ordered index without duplicates as its clients use it: \<open>holds\<close> is the list of the items
  in order, \<open>cells\<close> the memory in use.\<close>

locale ordered_index =
  fixes cmp :: "'a slcmp" and rank :: "'a \<Rightarrow> 'r::linorder"
    and holds :: "'s \<Rightarrow> 'a list \<Rightarrow> bool" and cells :: "'s \<Rightarrow> sladdr set"
    and search :: "'a \<Rightarrow> 's \<Rightarrow> 'a option option"
    and ins :: "int list \<Rightarrow> sladdr option \<Rightarrow> 'a \<Rightarrow> 's \<Rightarrow> (int \<times> 's) option"
    and del :: "'a \<Rightarrow> 's \<Rightarrow> (int \<times> 's) option"
  assumes cmp_rank: "cmp x y = 0 \<longleftrightarrow> rank x = rank y"
    and holds_sorted: "holds s ks \<Longrightarrow> sorted_wrt (\<lambda>x y. rank x < rank y) ks"
    and search_law: "holds s ks \<Longrightarrow> search x s = Some (find (\<lambda>y. cmp y x = 0) ks)"
    and ins_dup: "holds s ks \<Longrightarrow> \<exists>y \<in> set ks. rank y = rank x \<Longrightarrow> ins rs m x s = Some (DUPLICATE_ITEM, s)"
    and ins_law: "holds s ks \<Longrightarrow> \<forall>y \<in> set ks. rank y \<noteq> rank x \<Longrightarrow> a \<notin> cells s \<Longrightarrow>
      \<exists>s'. ins rs (Some a) x s = Some (1, s') \<and> cells s' = insert a (cells s) \<and>
        holds s' (filter (\<lambda>y. rank y < rank x) ks @ x # filter (\<lambda>y. rank x < rank y) ks)"
    and ins_fail: "holds s ks \<Longrightarrow> \<forall>y \<in> set ks. rank y \<noteq> rank x \<Longrightarrow>
      \<exists>s'. ins rs None x s = Some (0, s') \<and> cells s' = cells s \<and> holds s' ks"
    and del_none: "holds s ks \<Longrightarrow> \<forall>y \<in> set ks. rank y \<noteq> rank x \<Longrightarrow> del x s = Some (0, s)"
    and del_law: "holds s ks \<Longrightarrow> \<exists>y \<in> set ks. rank y = rank x \<Longrightarrow>
      \<exists>s'. del x s = Some (1, s') \<and> cells s' \<subseteq> cells s \<and> holds s' (filter (\<lambda>y. rank y \<noteq> rank x) ks)"
begin

lemma find_rank:
  "sorted_wrt (\<lambda>x y. rank x < rank y) ks \<Longrightarrow> find (\<lambda>z. rank z = r) ks = Some y \<longleftrightarrow> y \<in> set ks \<and> rank y = r"
  by (induction ks) auto

lemma find_none: "find (\<lambda>z. rank z = r) ks = None \<longleftrightarrow> (\<forall>y \<in> set ks. rank y \<noteq> r)"
  by (auto simp: find_None_iff)

lemma sl_map_iff: "holds s ks \<Longrightarrow> sl_map rank ks r = Some y \<longleftrightarrow> y \<in> set ks \<and> rank y = r"
  unfolding sl_map_def by (rule find_rank [OF holds_sorted])

lemma map_ext_holds:
  assumes "holds s ks" "\<And>y. y \<in> set ks \<longleftrightarrow> m (rank y) = Some y" "\<And>r y. m r = Some y \<Longrightarrow> rank y = r"
  shows "sl_map rank ks = m"
proof
  fix r
  have "sl_map rank ks r = Some y \<longleftrightarrow> m r = Some y" for y
    using sl_map_iff [OF assms(1), of r y] assms(2) [of y] assms(3) [of r y] by metis
  then show "sl_map rank ks r = m r" by (metis not_Some_eq)
qed

lemma search_map: "holds s ks \<Longrightarrow> search x s = Some (sl_map rank ks (rank x))"
  by (simp add: search_law cmp_rank sl_map_def)

lemma insert_map:
  assumes h: "holds s ks" and n: "sl_map rank ks (rank x) = None" and a: "a \<notin> cells s"
  shows "\<exists>s' ks'. ins rs (Some a) x s = Some (1, s') \<and> cells s' = insert a (cells s) \<and> holds s' ks' \<and>
    sl_map rank ks' = (sl_map rank ks)(rank x \<mapsto> x)"
proof -
  have n': "\<forall>y \<in> set ks. rank y \<noteq> rank x" using n by (simp add: sl_map_def find_none)
  let ?k = "filter (\<lambda>y. rank y < rank x) ks @ x # filter (\<lambda>y. rank x < rank y) ks"
  obtain s' where s': "ins rs (Some a) x s = Some (1, s')" "cells s' = insert a (cells s)" "holds s' ?k"
    using ins_law [OF h n' a] by blast
  have "sl_map rank ?k = (sl_map rank ks)(rank x \<mapsto> x)"
  proof (rule map_ext_holds [OF s'(3)])
    fix y show "y \<in> set ?k \<longleftrightarrow> ((sl_map rank ks)(rank x \<mapsto> x)) (rank y) = Some y"
      using sl_map_iff [OF h, of "rank y" y] n' by auto
  qed (use sl_map_iff [OF h] in \<open>auto split: if_splits\<close>)
  with s' show ?thesis by blast
qed

lemma insert_map_fail:
  assumes "holds s ks" "sl_map rank ks (rank x) = None"
  shows "\<exists>s'. ins rs None x s = Some (0, s') \<and> cells s' = cells s \<and> holds s' ks"
  using ins_fail [OF assms(1), of x rs] assms(2) by (simp add: sl_map_def find_none)

lemma insert_map_dup:
  assumes "holds s ks" "sl_map rank ks (rank x) \<noteq> None"
  shows "ins rs m x s = Some (DUPLICATE_ITEM, s)"
  using ins_dup [OF assms(1), of x rs m] assms(2) by (auto simp: sl_map_def find_none)

lemma delete_map:
  assumes h: "holds s ks" and x: "sl_map rank ks (rank x) \<noteq> None"
  shows "\<exists>s' ks'. del x s = Some (1, s') \<and> cells s' \<subseteq> cells s \<and> holds s' ks' \<and>
    sl_map rank ks' = (sl_map rank ks)(rank x := None)"
proof -
  have "\<exists>y \<in> set ks. rank y = rank x" using x by (auto simp: sl_map_def find_none)
  then obtain s' where s': "del x s = Some (1, s')" "cells s' \<subseteq> cells s"
    "holds s' (filter (\<lambda>y. rank y \<noteq> rank x) ks)"
    using del_law [OF h] by blast
  have "sl_map rank (filter (\<lambda>y. rank y \<noteq> rank x) ks) = (sl_map rank ks)(rank x := None)"
    by (rule map_ext_holds [OF s'(3)]) (use sl_map_iff [OF h] in \<open>auto split: if_splits\<close>)
  with s' show ?thesis by blast
qed

lemma delete_map_none:
  assumes "holds s ks" "sl_map rank ks (rank x) = None"
  shows "del x s = Some (0, s)"
  using del_none [OF assms(1), of x] assms(2) by (simp add: sl_map_def find_none)

end

context sl_order
begin

lemma holds_strict:
  assumes "sl_holds cmp s ks"
  shows "sorted_wrt (\<lambda>x y. rank x < rank y) ks"
  using assms by (auto simp: sl_holds_def sl_inv_def in_order_def NO_DUPLICATES_def cmp_less sorted_wrt_map)

lemma split_at_rank:
  "sorted_wrt (\<lambda>x y. rank x < rank y) ks \<Longrightarrow> \<forall>y \<in> set ks. rank y \<noteq> rank x \<Longrightarrow>
   takeWhile (\<lambda>y. cmp y x < 0) ks = filter (\<lambda>y. rank y < rank x) ks \<and>
   dropWhile (\<lambda>y. cmp y x < 0) ks = filter (\<lambda>y. rank x < rank y) ks"
proof (induction ks)
  case (Cons k ks)
  show ?case
  proof (cases "rank k < rank x")
    case True
    with Cons show ?thesis by (auto simp: cmp_less)
  next
    case False
    with Cons.prems have "rank x < rank k" by auto
    with Cons.prems(1) have "\<forall>y \<in> set ks. rank x < rank y" by auto
    then have "filter (\<lambda>y. rank y < rank x) ks = []" "filter (\<lambda>y. rank x < rank y) ks = ks"
      by (auto simp: filter_empty_conv filter_id_conv)
    with False \<open>rank x < rank k\<close> show ?thesis by (simp add: cmp_less)
  qed
qed simp

lemma insert_holds:
  assumes "sl_holds cmp s ks" "\<forall>y \<in> set ks. rank y \<noteq> rank x" "a \<notin> sl_nodes s"
  shows "\<exists>s'. InsertSL cmp rs (Some a) x s = Some (1, s') \<and> sl_nodes s' = insert a (sl_nodes s) \<and>
    sl_holds cmp s' (filter (\<lambda>y. rank y < rank x) ks @ x # filter (\<lambda>y. rank x < rank y) ks)"
proof -
  obtain l h as where s: "s = (l, h)" and inv: "sl_inv cmp l h as" and ks: "ks = map (keyof h) as"
    and f: "sl_flags l = NO_DUPLICATES"
    using assms(1) by (cases s) (auto simp: sl_holds_def)
  have a: "a \<notin> set (sl_header l # as)" using free_cell [OF inv, of a] assms(3) s by (auto simp: sl_nodes_def)
  obtain l' h' where r: "InsertSL cmp rs (Some a) x (l, h) = Some (1, l', h')"
    "sl_inv cmp l' h' (before cmp h x as @ a # onward cmp h x as)" "sl_flags l' = sl_flags l"
    "keyof h' a = x" "\<forall>c. c \<noteq> a \<longrightarrow> get_key h' c = get_key h c" "dom h' = insert a (dom h)"
    using InsertSL_new [OF inv a, of x rs] assms(2) ks by (auto simp: cmp_eq)
  have "map (keyof h') (before cmp h x as @ a # onward cmp h x as) =
      filter (\<lambda>y. rank y < rank x) ks @ x # filter (\<lambda>y. rank x < rank y) ks"
    using insert_nodes [OF inv r(4,5)] a split_at_rank [OF holds_strict [OF assms(1)] assms(2)] ks by auto
  then have "sl_holds cmp (l', h') (filter (\<lambda>y. rank y < rank x) ks @ x # filter (\<lambda>y. rank x < rank y) ks)"
    using r(2,3) f unfolding sl_holds_def by (auto intro!: exI [of _ "before cmp h x as @ a # onward cmp h x as"])
  with r(1,6) s show ?thesis by (auto simp: sl_nodes_def)
qed

lemma insert_holds_fail:
  assumes "sl_holds cmp s ks" "\<forall>y \<in> set ks. rank y \<noteq> rank x"
  shows "\<exists>s'. InsertSL cmp rs None x s = Some (0, s') \<and> sl_nodes s' = sl_nodes s \<and> sl_holds cmp s' ks"
proof -
  obtain l h as where s: "s = (l, h)" and inv: "sl_inv cmp l h as" and ks: "ks = map (keyof h) as"
    and f: "sl_flags l = NO_DUPLICATES"
    using assms(1) by (cases s) (auto simp: sl_holds_def)
  have "\<not> (onward cmp h x as \<noteq> [] \<and> cmp (keyof h (hd (onward cmp h x as))) x = 0)"
    using assms(2) ks before_sub(2) [of cmp h x as] hd_in_set by (fastforce simp: cmp_eq)
  moreover have "sl_inv cmp (l\<lparr>sl_level := Suc (sl_level l)\<rparr>) h as" if "sl_level l \<le> RandomLevelSL rs"
  proof -
    have "Suc (sl_level l) \<le> MaxNumberOfLevels"
      using that by (auto simp: RandomLevelSL_def MaxLevel_def MaxNumberOfLevels_def Let_def split: if_splits)
    moreover have "in_order cmp (l\<lparr>sl_level := Suc (sl_level l)\<rparr>) = in_order cmp l"
      by (simp add: in_order_def fun_eq_iff)
    ultimately show ?thesis using inv by (auto simp: sl_inv_def)
  qed
  ultimately show ?thesis
    using s inv ks f key_eq_first [OF inv, of x]
    by (auto simp: InsertSL_def descend_list [OF inv] Let_def sl_nodes_def sl_holds_def)
qed

lemma delete_holds:
  assumes "sl_holds cmp s ks" "\<exists>y \<in> set ks. rank y = rank x"
  shows "\<exists>s'. DeleteSL cmp x s = Some (1, s') \<and> sl_nodes s' \<subseteq> sl_nodes s \<and>
    sl_holds cmp s' (filter (\<lambda>y. rank y \<noteq> rank x) ks)"
proof -
  obtain l h as where s: "s = (l, h)" and inv: "sl_inv cmp l h as" and ks: "ks = map (keyof h) as"
    and f: "sl_flags l = NO_DUPLICATES"
    using assms(1) by (cases s) (auto simp: sl_holds_def)
  let ?A = "before cmp h x as"
  obtain b where b: "b \<in> set as" "cmp (keyof h b) x = 0" using assms(2) ks by (auto simp: cmp_eq)
  have o: "b \<in> set (onward cmp h x as)"
    using b before_less [of b cmp h x as] before_onward [of cmp h x as] by (metis Un_iff less_irrefl set_append)
  then obtain q B where q: "onward cmp h x as = q # B" by (cases "onward cmp h x as") auto
  have qx: "cmp (keyof h q) x = 0"
    using insert_sorted [OF inv _ o] o q b(2) f
    by (fastforce simp: in_order_def cmp_less cmp_eq NO_DUPLICATES_def)
  obtain l' h' where r: "DeleteSL cmp x (l, h) = Some (1, l', h')" "sl_inv cmp l' h' (?A @ B)"
    "sl_flags l' = sl_flags l" "\<forall>c. c \<noteq> q \<longrightarrow> get_key h' c = get_key h c" "dom h' = dom h - {q}"
    using DeleteSL_present [OF inv q qx] by blast
  have as: "as = ?A @ q # B" using before_onward [of cmp h x as] q by simp
  have nq: "q \<notin> set (?A @ B)" using sl_invD(1) [OF inv] as by (metis distinct.simps(2) distinct_append Un_iff set_append disjoint_iff list.set_intros(1))
  have "sorted_wrt (\<lambda>y z. rank y < rank z) (map (keyof h) ?A @ keyof h q # map (keyof h) B)"
    using holds_strict [OF assms(1)] ks as by (metis list.simps(9) map_append)
  then have "filter (\<lambda>y. rank y \<noteq> rank x) ks = map (keyof h) (?A @ B)"
    using qx by (subst ks, subst as)
      (auto simp: sorted_wrt_append cmp_eq filter_id_conv intro!: arg_cong2 [of _ _ _ _ "(@)"], fastforce+)
  also have "\<dots> = map (keyof h') (?A @ B)"
    by (rule map_cong [OF refl]) (metis nq r(4))
  finally show ?thesis using r s f by (auto simp: sl_holds_def sl_nodes_def)
qed

lemma delete_holds_none:
  assumes "sl_holds cmp s ks" "\<forall>y \<in> set ks. rank y \<noteq> rank x"
  shows "DeleteSL cmp x s = Some (0, s)"
  using assms DeleteSL_absent [of "fst s" "snd s"] by (cases s) (auto simp: sl_holds_def cmp_eq)

lemma index_laws:
  "ordered_index cmp rank (sl_holds cmp) sl_nodes (SearchSL cmp) (InsertSL cmp) (DeleteSL cmp)"
proof
  show "cmp x y = 0 \<longleftrightarrow> rank x = rank y" for x y by (rule cmp_eq)
  show "sl_holds cmp s ks \<Longrightarrow> SearchSL cmp x s = Some (find (\<lambda>y. cmp y x = 0) ks)" for s ks x
    using SearchSL_correct by (cases s) (auto simp: sl_holds_def)
  show "sl_holds cmp s ks \<Longrightarrow> \<exists>y \<in> set ks. rank y = rank x \<Longrightarrow>
      InsertSL cmp rs m x s = Some (DUPLICATE_ITEM, s)" for s ks x rs m
    using InsertSL_duplicate [of "fst s" "snd s"]
    by (cases s) (fastforce simp: sl_holds_def cmp_eq NO_DUPLICATES_def)
qed (fact holds_strict insert_holds insert_holds_fail delete_holds_none delete_holds)+

end

sublocale sl_order \<subseteq> ordered_index cmp rank "sl_holds cmp" sl_nodes "SearchSL cmp" "InsertSL cmp" "DeleteSL cmp"
  by (rule index_laws)

text \<open>A new list is empty.\<close>

lemma NewSL_holds:
  assumes "NewSL has_compare mem hdr NO_DUPLICATES Map.empty = Some s"
  shows "sl_holds cmp s [] \<and> sl_nodes s = {sl_header (fst s)}"
proof -
  obtain p where s: "s = (\<lparr>sl_header = p, sl_flags = NO_DUPLICATES, sl_level = 1, sl_count = 0\<rparr>,
      [p \<mapsto> \<lparr>sl_key = None, forward = replicate MaxNumberOfLevels None\<rparr>])"
    using assms by (auto simp: NewSL_def split: if_splits option.splits)
  have "get_forward (snd s) p k = Some None" if "k < MaxNumberOfLevels" for k
    using that by (simp add: s get_forward_def)
  then show ?thesis
    by (auto simp: s sl_holds_def sl_inv_def sl_nodes_def height_def MaxNumberOfLevels_def)
qed

end
