(* ===== verification/Vnode_Layer.thy ===== *)
theory Vnode_Layer
  imports Skip_Index "HOL-Library.Product_Lexorder"
begin

text \<open>
  The vnode layer of \<open>kernel.c\<close>: the table of the vnodes in core, the three lists they are on, the
  index from (name space, vnode id) to vnode, reference counts, and the calls of the file systems
  that load, release and remove a vnode.

  A vnode is named by its address, a name space by its id (\<open>nsid\<close>, which is never used twice), a file system
  by the address of its \<open>fsystem\<close>.  The doubly linked lists are lists of addresses
  (theory \<open>Vnode_List\<close> relates them to the pointers).  An item of the index is the address of a vnode
  with the two fields that \<open>compare_vnode\<close> reads through it; they do not change while
  the vnode is in the index: \<open>sort_vnode\<close> is called after they are set and \<open>clear_vnode\<close> resets them
  after \<open>DeleteSL\<close>.  The table of the operations of a file system is named by a string; what the
  operations do is an argument \<open>E\<close> of the functions that call them.  Execution is single threaded: \<open>vnlock\<close>
  is always free when it is taken, and waiting for a busy vnode never ends.
\<close>

section \<open>Data\<close>

type_synonym vaddr = nat
type_synonym vnode_id = int
type_synonym nspace_id = nat

datatype vlist = FREE_LIST | USED_LIST | LOCKED_LIST

definition invalid_vnid :: vnode_id where "invalid_vnid = 0"

record vnode =
  vn_vnid :: vnode_id
  vn_ns :: "nspace_id option"
  vn_mounted :: "nspace_id option"
  vn_remove :: bool
  vn_busy :: bool
  vn_inlist :: vlist
  vn_rcnt :: int
  vn_data :: int

record fsystem =
  fs_fsid :: nat
  fs_fixed :: bool
  fs_aid :: int
  fs_name :: string
  fs_rcnt :: int
  fs_ops :: string

record nspace =
  ns_dev :: int
  ns_ino :: int
  ns_fs :: nat
  ns_vnodes :: "vaddr list"
  ns_data :: int
  ns_root :: "vaddr option"
  ns_mount :: "vaddr option"
  ns_shutdown :: bool

record vnitem =
  it_vnid :: vnode_id
  it_nsid :: nspace_id
  it_vn :: vaddr

record ofile =
  of_type :: int
  of_vn :: vaddr
  of_cookie :: int
  of_rcnt :: int
  of_ocnt :: int
  of_pos :: int
  of_omode :: int

record fdarray =
  fd_num :: nat
  fd_alloc :: "64 word list"
  fd_coes :: "64 word list"
  fd_fds :: "nat option list"

record 'w kernel =
  k_vn :: "vaddr \<Rightarrow> vnode"
  k_list :: "vlist \<Rightarrow> vaddr list"
  k_index :: "SkipList \<times> vnitem slheap"
  k_rand :: "int list"
  k_slnext :: sladdr
  k_mem :: bool
  k_usdvnnum :: int
  k_ns :: "nspace_id \<rightharpoonup> nspace"
  k_nstab :: "nspace_id option list"
  k_nshead :: "nspace_id list"
  k_nxnsid :: nat
  k_fs :: "nat \<rightharpoonup> fsystem"
  k_fstab :: "nat option list"
  k_nxfsid :: nat
  k_nxaddr :: nat
  k_rootvn :: "vaddr option"
  k_of :: "nat \<rightharpoonup> ofile"
  k_fds :: fdarray
  k_iofds :: "fdarray option"
  k_cwd :: "vaddr option"
  k_world :: 'w

text \<open>The three operations of a file system that the vnode layer itself calls.  They act on the
  state of the file systems only.\<close>

record 'w vnops =
  op_read_vnode :: "int \<Rightarrow> vnode_id \<Rightarrow> bool \<Rightarrow> 'w \<Rightarrow> (errno \<times> int \<times> 'w) option"
  op_release_vnode :: "int \<Rightarrow> int \<Rightarrow> bool \<Rightarrow> 'w \<Rightarrow> (errno \<times> 'w) option"
  op_remove_vnode :: "int \<Rightarrow> int \<Rightarrow> bool \<Rightarrow> 'w \<Rightarrow> (errno \<times> 'w) option"

type_synonym 'w vnenv = "string \<Rightarrow> 'w vnops"

definition upd_vn :: "vaddr \<Rightarrow> (vnode \<Rightarrow> vnode) \<Rightarrow> 'w kernel \<Rightarrow> 'w kernel" where
  "upd_vn v f k = k\<lparr>k_vn := (k_vn k)(v := f (k_vn k v))\<rparr>"

definition upd_ns :: "nspace_id \<Rightarrow> (nspace \<Rightarrow> nspace) \<Rightarrow> 'w kernel \<Rightarrow> 'w kernel option" where
  "upd_ns n f k = do { ns \<leftarrow> k_ns k n; Some (k\<lparr>k_ns := (k_ns k)(n \<mapsto> f ns)\<rparr>) }"

text \<open>The name space of a vnode and the operations of its file system,
  \<open>vn->ns\<close> and \<open>vn->ns->fs->ops\<close>.\<close>

definition ns_of :: "'w kernel \<Rightarrow> vaddr \<Rightarrow> nspace option" where
  "ns_of k v = do { n \<leftarrow> vn_ns (k_vn k v); k_ns k n }"

definition ops_of :: "(string \<Rightarrow> 'o) \<Rightarrow> 'w kernel \<Rightarrow> vaddr \<Rightarrow> 'o option" where
  "ops_of E k v = do { ns \<leftarrow> ns_of k v; fs \<leftarrow> k_fs k (ns_fs ns); Some (E (fs_ops fs)) }"

section \<open>The index\<close>

definition compare_vnode :: "vnitem \<Rightarrow> vnitem \<Rightarrow> int" where
  "compare_vnode vna vnb =
     (if it_vnid vna > it_vnid vnb then 1
      else if it_vnid vna < it_vnid vnb then - 1
      else if it_nsid vna > it_nsid vnb then 1
      else if it_nsid vna < it_nsid vnb then - 1
      else 0)"

definition lookup_vnode :: "nspace_id \<Rightarrow> vnode_id \<Rightarrow> 'w kernel \<Rightarrow> vaddr option option" where
  "lookup_vnode nsid vnid k = do {
     r \<leftarrow> SearchSL compare_vnode \<lparr>it_vnid = vnid, it_nsid = nsid, it_vn = 0\<rparr> (k_index k);
     Some (map_option it_vn r) }"

text \<open>The item of a vnode; a vnode without a name space has none.\<close>

definition item_of :: "'w kernel \<Rightarrow> vaddr \<Rightarrow> vnitem option" where
  "item_of k v = do {
     n \<leftarrow> vn_ns (k_vn k v);
     Some \<lparr>it_vnid = vn_vnid (k_vn k v), it_nsid = n, it_vn = v\<rparr> }"

section \<open>Lists\<close>

definition move_vnode :: "vaddr \<Rightarrow> vlist \<Rightarrow> 'w kernel \<Rightarrow> 'w kernel" where
  "move_vnode v l k =
     (let from = vn_inlist (k_vn k v);
          k1 = k\<lparr>k_list := (k_list k)(from := remove1 v (k_list k from))\<rparr>;
          k2 = upd_vn v (vn_inlist_update (\<lambda>_. l)) k1
      in k2\<lparr>k_list := (k_list k2)(l := k_list k2 l @ [v])\<rparr>)"

definition steal_vnode :: "vlist \<Rightarrow> 'w kernel \<Rightarrow> vaddr option \<times> 'w kernel" where
  "steal_vnode l k = (case k_list k l of
     [] \<Rightarrow> (None, k)
   | v # _ \<Rightarrow> (Some v, move_vnode v LOCKED_LIST k))"

text \<open>Unlinking a vnode from the list of its name space: a vnode that is not on it has no neighbours,
  and is taken for the only one.\<close>

definition ns_unlink :: "vaddr \<Rightarrow> vaddr list \<Rightarrow> vaddr list" where
  "ns_unlink v vs = (if v \<in> set vs then remove1 v vs else [])"

definition clear_vnode :: "vaddr \<Rightarrow> 'w kernel \<Rightarrow> 'w kernel option" where
  "clear_vnode v k = do {
     it \<leftarrow> item_of k v;
     (_, s) \<leftarrow> DeleteSL compare_vnode it (k_index k);
     k1 \<leftarrow> upd_ns (it_nsid it) (ns_vnodes_update (ns_unlink v)) (k\<lparr>k_index := s\<rparr>);
     Some (upd_vn v (\<lambda>n. n\<lparr>vn_vnid := invalid_vnid, vn_ns := None, vn_remove := False,
       vn_data := 0, vn_rcnt := 0, vn_busy := False, vn_mounted := None\<rparr>) k1) }"

text \<open>\<open>sort_vnode\<close>.  The memory of a new node is the next unused address.\<close>

definition rand_rest :: "int list \<Rightarrow> int list" where
  "rand_rest rs = drop (Suc (length (takeWhile (\<lambda>r. r < P_25) rs))) rs"

definition sort_vnode :: "vaddr \<Rightarrow> 'w kernel \<Rightarrow> (errno \<times> 'w kernel) option" where
  "sort_vnode v k = do {
     it \<leftarrow> item_of k v;
     (r, s) \<leftarrow> InsertSL compare_vnode (k_rand k) (if k_mem k then Some (k_slnext k) else None) it (k_index k);
     let k1 = k\<lparr>k_index := s, k_rand := (if r = DUPLICATE_ITEM then k_rand k else rand_rest (k_rand k)),
                k_slnext := (if r = 1 then Suc (k_slnext k) else k_slnext k)\<rparr>;
     if r = 0 then Some (ENOMEM, k1)
     else do {
       k2 \<leftarrow> upd_ns (it_nsid it) (ns_vnodes_update (\<lambda>vs. v # vs)) k1;
       Some (0, k2) } }"

section \<open>Reference counts\<close>

definition nsidtons :: "nspace_id \<Rightarrow> 'w kernel \<Rightarrow> nspace_id option" where
  "nsidtons nsid k =
     (case k_nstab k ! (nsid mod length (k_nstab k)) of
        None \<Rightarrow> None
      | Some n \<Rightarrow> (case k_ns k n of
            None \<Rightarrow> None
          | Some ns \<Rightarrow> if n \<noteq> nsid \<or> ns_shutdown ns then None else Some n))"

definition inc_vnode :: "vaddr \<Rightarrow> 'w kernel \<Rightarrow> 'w kernel" where
  "inc_vnode v k = upd_vn v (\<lambda>n. n\<lparr>vn_rcnt := vn_rcnt n + 1\<rparr>) k"

text \<open>\<open>flush_vnode\<close>: the \<open>PANIC\<close> of \<open>kernel.c\<close> prints its argument and comes back.\<close>

definition flush_vnode :: "'w vnenv \<Rightarrow> vaddr \<Rightarrow> bool \<Rightarrow> 'w kernel \<Rightarrow> 'w kernel option" where
  "flush_vnode E v r k = do {
     let k1 = upd_vn v (vn_busy_update (\<lambda>_. True)) k;
     ops \<leftarrow> ops_of E k1 v;
     ns \<leftarrow> ns_of k1 v;
     (err, w) \<leftarrow> op_release_vnode ops (ns_data ns) (vn_data (k_vn k1 v)) r (k_world k1);
     clear_vnode v (upd_vn v (vn_busy_update (\<lambda>_. False)) (k1\<lparr>k_world := w\<rparr>)) }"

definition dec_vnode :: "'w vnenv \<Rightarrow> vaddr \<Rightarrow> bool \<Rightarrow> 'w kernel \<Rightarrow> 'w kernel option" where
  "dec_vnode E v r k0 =
     (let k = upd_vn v (\<lambda>n. n\<lparr>vn_rcnt := vn_rcnt n - 1\<rparr>) k0
      in if vn_rcnt (k_vn k v) \<noteq> 0 then Some k
         else if vn_remove (k_vn k v) then do {
           let k1 = move_vnode v LOCKED_LIST (upd_vn v (vn_busy_update (\<lambda>_. True)) k);
           ops \<leftarrow> ops_of E k1 v;
           ns \<leftarrow> ns_of k1 v;
           (_, w) \<leftarrow> op_remove_vnode ops (ns_data ns) (vn_data (k_vn k1 v)) r (k_world k1);
           k2 \<leftarrow> clear_vnode v (k1\<lparr>k_world := w\<rparr>);
           Some (move_vnode v FREE_LIST k2) }
         else
           let k1 = move_vnode v USED_LIST k
           in if int (length (k_list k1 USED_LIST)) > k_usdvnnum k1
              then do {
                let (old, k2) = steal_vnode USED_LIST k1;
                ovn \<leftarrow> old;
                k3 \<leftarrow> flush_vnode E ovn r k2;
                Some (move_vnode ovn FREE_LIST k3) }
              else Some k1)"

section \<open>Loading a vnode\<close>

text \<open>The loop of \<open>load_vnode\<close>: the vnode found, or one from the free list, for which the oldest vnode in no use
  is released when there is none.\<close>

partial_function (option) load_pick ::
  "'w vnenv \<Rightarrow> nspace_id \<Rightarrow> vnode_id \<Rightarrow> bool \<Rightarrow> 'w kernel \<Rightarrow> (vaddr \<times> 'w kernel) option" where
  "load_pick E nsid vnid r k = do {
     found \<leftarrow> lookup_vnode nsid vnid k;
     case found of
       Some v \<Rightarrow> if vn_busy (k_vn k v) then None else Some (v, k)
     | None \<Rightarrow> (case steal_vnode FREE_LIST k of
           (Some v, k1) \<Rightarrow> Some (v, k1)
         | (None, k1) \<Rightarrow> (case steal_vnode USED_LIST k1 of
               (None, k2) \<Rightarrow> None
             | (Some v, k2) \<Rightarrow> do {
                 k3 \<leftarrow> flush_vnode E v r k2;
                 load_pick E nsid vnid r (move_vnode v FREE_LIST k3) })) }"

declare load_pick.simps [code]

definition load_vnode ::
  "'w vnenv \<Rightarrow> nspace_id \<Rightarrow> vnode_id \<Rightarrow> bool \<Rightarrow> 'w kernel \<Rightarrow> (errno \<times> vaddr \<times> 'w kernel) option" where
  "load_vnode E nsid vnid r k0 = do {
     (v, k) \<leftarrow> load_pick E nsid vnid r k0;
     if vn_ns (k_vn k v) = None then
       (case nsidtons nsid k of
          None \<Rightarrow> Some (ENOENT, v, move_vnode v FREE_LIST k)
        | Some n \<Rightarrow> do {
            let k1 = upd_vn v (\<lambda>x. x\<lparr>vn_ns := Some n, vn_vnid := vnid, vn_busy := True\<rparr>) k;
            (err, k2) \<leftarrow> sort_vnode v k1;
            if err \<noteq> 0 then do {
              k3 \<leftarrow> clear_vnode v k2;
              Some (err, v, move_vnode v FREE_LIST k3) }
            else do {
              let k3 = move_vnode v LOCKED_LIST k2;
              ops \<leftarrow> ops_of E k3 v;
              ns \<leftarrow> ns_of k3 v;
              (err2, d, w) \<leftarrow> op_read_vnode ops (ns_data ns) vnid r (k_world k3);
              let k4 = upd_vn v (\<lambda>x. x\<lparr>vn_data := d, vn_busy := False\<rparr>) (k3\<lparr>k_world := w\<rparr>);
              if err2 \<noteq> 0 then do {
                k5 \<leftarrow> clear_vnode v k4;
                Some (err2, v, move_vnode v FREE_LIST k5) }
              else Some (0, v, upd_vn v (vn_rcnt_update (\<lambda>_. 1)) k4) } })
     else
       let k1 = inc_vnode v k
       in Some (0, v, if vn_rcnt (k_vn k1 v) = 1 then move_vnode v LOCKED_LIST k1 else k1) }"

section \<open>What the file systems call\<close>

definition get_vnode ::
  "'w vnenv \<Rightarrow> nspace_id \<Rightarrow> vnode_id \<Rightarrow> 'w kernel \<Rightarrow> (errno \<times> int \<times> 'w kernel) option" where
  "get_vnode E nsid vnid k = do {
     (err, v, k1) \<leftarrow> load_vnode E nsid vnid True k;
     Some (err, if err \<noteq> 0 then 0 else vn_data (k_vn k1 v), k1) }"

definition put_vnode :: "'w vnenv \<Rightarrow> nspace_id \<Rightarrow> vnode_id \<Rightarrow> 'w kernel \<Rightarrow> (errno \<times> 'w kernel) option" where
  "put_vnode E nsid vnid k = do {
     found \<leftarrow> lookup_vnode nsid vnid k;
     case found of
       None \<Rightarrow> Some (ENOENT, k)
     | Some v \<Rightarrow> do { k1 \<leftarrow> dec_vnode E v True k; Some (0, k1) } }"

definition new_vnode ::
  "'w vnenv \<Rightarrow> nspace_id \<Rightarrow> vnode_id \<Rightarrow> int \<Rightarrow> 'w kernel \<Rightarrow> (errno \<times> 'w kernel) option" where
  "new_vnode E nsid vnid d k0 = do {
     (got, k) \<leftarrow> (case steal_vnode FREE_LIST k0 of
         (Some v, k1) \<Rightarrow> Some (Some v, k1)
       | (None, k1) \<Rightarrow> (case steal_vnode USED_LIST k1 of
             (None, k2) \<Rightarrow> Some (None, k2)
           | (Some v, k2) \<Rightarrow> do { k3 \<leftarrow> flush_vnode E v True k2; Some (Some v, k3) }));
     case got of
       None \<Rightarrow> Some (ENOMEM, k)
     | Some v \<Rightarrow> (case nsidtons nsid k of
           None \<Rightarrow> Some (ENOENT, upd_vn v (vn_ns_update (\<lambda>_. None)) k)
         | Some n \<Rightarrow> sort_vnode v (upd_vn v (\<lambda>x. x\<lparr>vn_ns := Some n, vn_vnid := vnid, vn_data := d,
                                                 vn_rcnt := 1\<rparr>) k)) }"

definition set_remove :: "bool \<Rightarrow> nspace_id \<Rightarrow> vnode_id \<Rightarrow> 'w kernel \<Rightarrow> (errno \<times> 'w kernel) option" where
  "set_remove b nsid vnid k = do {
     found \<leftarrow> lookup_vnode nsid vnid k;
     case found of
       None \<Rightarrow> Some (ENOENT, k)
     | Some v \<Rightarrow> if vn_rcnt (k_vn k v) = 0 then Some (ENOENT, k)
               else Some (0, upd_vn v (vn_remove_update (\<lambda>_. b)) k) }"

definition remove_vnode :: "nspace_id \<Rightarrow> vnode_id \<Rightarrow> 'w kernel \<Rightarrow> (errno \<times> 'w kernel) option" where
  "remove_vnode = set_remove True"

definition unremove_vnode :: "nspace_id \<Rightarrow> vnode_id \<Rightarrow> 'w kernel \<Rightarrow> (errno \<times> 'w kernel) option" where
  "unremove_vnode = set_remove False"

definition is_vnode_removed :: "nspace_id \<Rightarrow> vnode_id \<Rightarrow> 'w kernel \<Rightarrow> int option" where
  "is_vnode_removed nsid vnid k = do {
     found \<leftarrow> lookup_vnode nsid vnid k;
     Some (case found of None \<Rightarrow> ENOENT | Some v \<Rightarrow> of_bool (vn_remove (k_vn k v))) }"

section \<open>Mount points\<close>

definition is_mount_vnode :: "vaddr \<Rightarrow> 'w kernel \<Rightarrow> (vaddr option \<times> 'w kernel) option" where
  "is_mount_vnode v k = (case vn_mounted (k_vn k v) of
     None \<Rightarrow> Some (None, k)
   | Some n \<Rightarrow> do {
       ns \<leftarrow> k_ns k n;
       root \<leftarrow> ns_root ns;
       Some (Some root, inc_vnode root k) })"

fun mount_search :: "'w kernel \<Rightarrow> nspace_id \<Rightarrow> vnode_id \<Rightarrow> nspace_id list \<Rightarrow> vnode_id option option" where
  "mount_search k nsid vnid [] = Some None"
| "mount_search k nsid vnid (n # ns) = do {
     sp \<leftarrow> k_ns k n;
     case ns_mount sp of
       None \<Rightarrow> mount_search k nsid vnid ns
     | Some m \<Rightarrow> do {
         mns \<leftarrow> vn_ns (k_vn k m);
         if mns \<noteq> nsid \<or> vn_vnid (k_vn k m) \<noteq> vnid then mount_search k nsid vnid ns
         else do { root \<leftarrow> ns_root sp; Some (Some (vn_vnid (k_vn k root))) } } }"

definition is_mount_vnid :: "nspace_id \<Rightarrow> vnode_id \<Rightarrow> 'w kernel \<Rightarrow> vnode_id option option" where
  "is_mount_vnid nsid vnid k = mount_search k nsid vnid (k_nshead k)"

definition is_root :: "vaddr \<Rightarrow> 'w kernel \<Rightarrow> (vaddr option \<times> 'w kernel) option" where
  "is_root v k = do {
     ns \<leftarrow> ns_of k v;
     case ns_mount ns of
       Some m \<Rightarrow> if ns_root ns = Some v then Some (Some m, inc_vnode m k) else Some (None, k)
     | None \<Rightarrow> Some (None, k) }"

section \<open>The order of the index\<close>

definition vrank :: "vnitem \<Rightarrow> vnode_id \<times> nspace_id" where
  "vrank i = (it_vnid i, it_nsid i)"

interpretation vi: sl_order compare_vnode vrank
  by unfold_locales (auto simp: compare_vnode_def vrank_def)

end
