(* ===== verification/Vnode_Inv.thy ===== *)
theory Vnode_Inv
  imports Vnode_Layer
begin

text \<open>
  The invariant of the vnode layer and what its operations keep of it.
\<close>

section \<open>The invariant\<close>

text \<open>Every vnode is on the list its \<open>inlist\<close> names, and on no other.\<close>

definition lists_ok :: "nat \<Rightarrow> 'w kernel \<Rightarrow> bool" where
  "lists_ok nv k \<longleftrightarrow> (\<forall>l. distinct (k_list k l)) \<and>
     (\<forall>l v. v \<in> set (k_list k l) \<longleftrightarrow> v < nv \<and> vn_inlist (k_vn k v) = l)"

text \<open>The index holds the items of the vnodes \<open>S\<close>.\<close>

definition index_is :: "vaddr set \<Rightarrow> 'w kernel \<Rightarrow> bool" where
  "index_is S k \<longleftrightarrow> (\<exists>ks. sl_holds compare_vnode (k_index k) ks \<and>
     (\<forall>r it. sl_map vrank ks r = Some it \<longleftrightarrow> vrank it = r \<and> it_vn it \<in> S \<and> item_of k (it_vn it) = Some it))"

text \<open>The list of every name space has its vnodes, and their file system exists.\<close>

definition spaces_ok :: "vaddr set \<Rightarrow> 'w kernel \<Rightarrow> bool" where
  "spaces_ok S k \<longleftrightarrow>
     (\<forall>n sp. k_ns k n = Some sp \<longrightarrow> k_fs k (ns_fs sp) \<noteq> None \<and> distinct (ns_vnodes sp) \<and>
        set (ns_vnodes sp) = {v \<in> S. vn_ns (k_vn k v) = Some n}) \<and>
     (\<forall>v \<in> S. ns_of k v \<noteq> None)"

definition vcore :: "nat \<Rightarrow> vaddr set \<Rightarrow> 'w kernel \<Rightarrow> bool" where
  "vcore nv S k \<longleftrightarrow> lists_ok nv k \<and> S \<subseteq> {..<nv} \<and> index_is S k \<and> spaces_ok S k \<and>
     k_mem k \<and> sl_nodes (k_index k) \<subseteq> {..<k_slnext k}"

text \<open>The state of one vnode between two calls: free, in core but in no use, or in use.\<close>

definition vn_state :: "vnode \<Rightarrow> bool" where
  "vn_state x \<longleftrightarrow> \<not> vn_busy x \<and> (case vn_inlist x of
     FREE_LIST \<Rightarrow> vn_ns x = None \<and> vn_rcnt x = 0 \<and> \<not> vn_remove x
   | USED_LIST \<Rightarrow> vn_ns x \<noteq> None \<and> vn_rcnt x = 0 \<and> \<not> vn_remove x
   | LOCKED_LIST \<Rightarrow> vn_ns x \<noteq> None \<and> 0 < vn_rcnt x)"

definition in_core :: "nat \<Rightarrow> 'w kernel \<Rightarrow> vaddr set" where
  "in_core nv k = {v. v < nv \<and> vn_ns (k_vn k v) \<noteq> None}"

definition vn_inv :: "nat \<Rightarrow> 'w kernel \<Rightarrow> bool" where
  "vn_inv nv k \<longleftrightarrow> vcore nv (in_core nv k) k \<and> (\<forall>v < nv. vn_state (k_vn k v)) \<and>
     int (length (k_list k USED_LIST)) \<le> k_usdvnnum k"

text \<open>The operations of the file systems come back.\<close>

definition release_total :: "'w vnenv \<Rightarrow> bool" where
  "release_total E \<longleftrightarrow> (\<forall>t a b r w. op_release_vnode (E t) a b r w \<noteq> None)"

definition env_total :: "'w vnenv \<Rightarrow> bool" where
  "env_total E \<longleftrightarrow> release_total E \<and>
     (\<forall>t a b r w. op_remove_vnode (E t) a b r w \<noteq> None \<and> op_read_vnode (E t) a b r w \<noteq> None)"

text \<open>The two calls whose return depends on what they are given: the removal of the vnode \<open>v\<close>, and the loading of a
  vnode of the name space \<open>n\<close> in the state \<open>w\<close> of the file systems.\<close>

definition removes :: "'w vnenv \<Rightarrow> vaddr \<Rightarrow> bool \<Rightarrow> 'w kernel \<Rightarrow> bool" where
  "removes E v r k \<longleftrightarrow> (\<forall>sp fs. ns_of k v = Some sp \<longrightarrow> k_fs k (ns_fs sp) = Some fs \<longrightarrow>
     op_remove_vnode (E (fs_ops fs)) (ns_data sp) (vn_data (k_vn k v)) r (k_world k) \<noteq> None)"

definition reads :: "'w vnenv \<Rightarrow> nspace_id \<Rightarrow> vnode_id \<Rightarrow> bool \<Rightarrow> 'w \<Rightarrow> 'w kernel \<Rightarrow> bool" where
  "reads E n i r w k \<longleftrightarrow> (\<forall>sp fs. k_ns k n = Some sp \<longrightarrow> k_fs k (ns_fs sp) = Some fs \<longrightarrow>
     op_read_vnode (E (fs_ops fs)) (ns_data sp) i r w \<noteq> None)"

lemma release_returns:
  assumes "release_total E"
  shows "\<exists>err w'. op_release_vnode (E t) a b r w = Some (err, w')"
  using assms by (metis release_total_def not_None_eq surj_pair)

lemma env_returns:
  assumes "env_total E"
  shows "release_total E" "removes E v r k" "reads E n i r w k"
  using assms by (auto simp: env_total_def removes_def reads_def)

text \<open>What no operation of the vnode layer changes.\<close>

definition kframe :: "'w kernel \<Rightarrow> 'w kernel \<Rightarrow> bool" where
  "kframe k k' \<longleftrightarrow> k_nstab k' = k_nstab k \<and> k_fs k' = k_fs k \<and> k_usdvnnum k' = k_usdvnnum k \<and>
     k_nshead k' = k_nshead k \<and> k_of k' = k_of k \<and> k_fds k' = k_fds k \<and> k_rootvn k' = k_rootvn k \<and>
     (\<forall>n. map_option (ns_vnodes_update (\<lambda>_. [])) (k_ns k' n) = map_option (ns_vnodes_update (\<lambda>_. [])) (k_ns k n))"

lemma kframe_refl [simp]: "kframe k k"
  by (simp add: kframe_def)

lemma kframe_trans: "kframe a b \<Longrightarrow> kframe b c \<Longrightarrow> kframe a c"
  by (simp add: kframe_def)

lemma kframe_ns:
  assumes "kframe k k'" "k_ns k n = Some sp"
  obtains vs where "k_ns k' n = Some (sp\<lparr>ns_vnodes := vs\<rparr>)"
proof -
  have "map_option (ns_vnodes_update (\<lambda>_. [])) (k_ns k' n) = Some (sp\<lparr>ns_vnodes := []\<rparr>)"
    using assms by (simp add: kframe_def)
  then obtain sp' where "k_ns k' n = Some sp'" "sp'\<lparr>ns_vnodes := []\<rparr> = sp\<lparr>ns_vnodes := []\<rparr>" by auto
  then have "sp' = sp\<lparr>ns_vnodes := ns_vnodes sp'\<rparr>" by (cases sp'; cases sp) auto
  with \<open>k_ns k' n = Some sp'\<close> show ?thesis by (intro that [of "ns_vnodes sp'"]) simp
qed

lemma kframe_none: "kframe k k' \<Longrightarrow> k_ns k' n = None \<longleftrightarrow> k_ns k n = None"
  unfolding kframe_def by (metis map_option_is_None)

lemma nsidtons_frame:
  assumes "kframe k k'"
  shows "nsidtons nsid k' = nsidtons nsid k"
proof -
  have t: "k_nstab k' = k_nstab k" using assms by (simp add: kframe_def)
  have "(case k_ns k' n of None \<Rightarrow> None | Some ns \<Rightarrow> if n \<noteq> nsid \<or> ns_shutdown ns then None else Some n) =
      (case k_ns k n of None \<Rightarrow> None | Some ns \<Rightarrow> if n \<noteq> nsid \<or> ns_shutdown ns then None else Some n)" for n
  proof (cases "k_ns k n")
    case None
    then show ?thesis using kframe_none [OF assms, of n] by simp
  next
    case (Some sp)
    obtain vs where "k_ns k' n = Some (sp\<lparr>ns_vnodes := vs\<rparr>)" by (rule kframe_ns [OF assms Some])
    with Some show ?thesis by simp
  qed
  then show ?thesis unfolding nsidtons_def t by (simp split: option.split)
qed

section \<open>Simple updates\<close>

lemma upd_vn_fields [simp]:
  "k_vn (upd_vn v f k) = (k_vn k)(v := f (k_vn k v))" "k_list (upd_vn v f k) = k_list k"
  "k_index (upd_vn v f k) = k_index k" "k_ns (upd_vn v f k) = k_ns k" "k_mem (upd_vn v f k) = k_mem k"
  "k_slnext (upd_vn v f k) = k_slnext k" "k_fs (upd_vn v f k) = k_fs k" "k_world (upd_vn v f k) = k_world k"
  "k_usdvnnum (upd_vn v f k) = k_usdvnnum k" "k_nstab (upd_vn v f k) = k_nstab k"
  "k_nshead (upd_vn v f k) = k_nshead k" "k_of (upd_vn v f k) = k_of k" "k_fds (upd_vn v f k) = k_fds k"
  "k_rootvn (upd_vn v f k) = k_rootvn k"
  by (simp_all add: upd_vn_def)

lemma kframe_upd [simp]: "kframe k (upd_vn v f k)" "kframe k (k\<lparr>k_world := w\<rparr>)"
  by (simp_all add: kframe_def)

lemma vcore_cong:
  assumes c: "vcore nv S k"
    and same: "k_list k' = k_list k" "k_index k' = k_index k" "k_ns k' = k_ns k" "k_fs k' = k_fs k"
      "k_mem k' = k_mem k" "k_slnext k' = k_slnext k"
    and il: "\<And>u. u < nv \<Longrightarrow> vn_inlist (k_vn k' u) = vn_inlist (k_vn k u)"
    and key: "\<And>u. u \<in> S \<Longrightarrow> vn_ns (k_vn k' u) = vn_ns (k_vn k u) \<and> vn_vnid (k_vn k' u) = vn_vnid (k_vn k u)"
  shows "vcore nv S k'"
proof -
  have "item_of k' v = item_of k v" if "v \<in> S" for v using key [OF that] by (simp add: item_of_def)
  then have "(it_vn it \<in> S \<and> item_of k' (it_vn it) = Some it) = (it_vn it \<in> S \<and> item_of k (it_vn it) = Some it)" for it
    by auto
  then have "index_is S k' = index_is S k" by (simp add: index_is_def same)
  moreover have "{v \<in> S. vn_ns (k_vn k' v) = Some n} = {v \<in> S. vn_ns (k_vn k v) = Some n}" for n
    using key by auto
  then have "spaces_ok S k' = spaces_ok S k" using key by (simp add: spaces_ok_def ns_of_def same)
  ultimately show ?thesis using c il by (auto simp: vcore_def lists_ok_def same)
qed

lemma vcore_upd:
  assumes "vcore nv S k" "vn_inlist (f (k_vn k v)) = vn_inlist (k_vn k v)"
    and "v \<in> S \<Longrightarrow> vn_ns (f (k_vn k v)) = vn_ns (k_vn k v) \<and> vn_vnid (f (k_vn k v)) = vn_vnid (k_vn k v)"
  shows "vcore nv S (upd_vn v f k)"
  by (rule vcore_cong [OF assms(1)]) (use assms(2,3) in auto)

lemma vcore_world: "vcore nv S k \<Longrightarrow> vcore nv S (k\<lparr>k_world := w\<rparr>)"
  by (rule vcore_cong) auto

section \<open>Lists\<close>

lemma move_vnode_fields [simp]:
  "k_vn (move_vnode v l k) = (k_vn k)(v := (k_vn k v)\<lparr>vn_inlist := l\<rparr>)"
  "k_index (move_vnode v l k) = k_index k" "k_ns (move_vnode v l k) = k_ns k" "k_mem (move_vnode v l k) = k_mem k"
  "k_slnext (move_vnode v l k) = k_slnext k" "k_fs (move_vnode v l k) = k_fs k"
  "k_world (move_vnode v l k) = k_world k" "k_usdvnnum (move_vnode v l k) = k_usdvnnum k"
  "kframe k (move_vnode v l k)"
  by (simp_all add: move_vnode_def Let_def kframe_def)

lemma move_vnode_list:
  assumes "lists_ok nv k" "v < nv"
  shows "k_list (move_vnode v l k) m = (if m = l then remove1 v (k_list k l) @ [v] else remove1 v (k_list k m))"
proof -
  have "v \<notin> set (k_list k m)" if "m \<noteq> vn_inlist (k_vn k v)" for m
    using assms that by (auto simp: lists_ok_def)
  then show ?thesis by (auto simp: move_vnode_def Let_def remove1_idem)
qed

lemma move_vnode_lists_ok:
  assumes "lists_ok nv k" "v < nv"
  shows "lists_ok nv (move_vnode v l k)"
proof -
  have d: "distinct (k_list k m)" and m: "u \<in> set (k_list k m) \<longleftrightarrow> u < nv \<and> vn_inlist (k_vn k u) = m" for m u
    using assms(1) by (simp_all add: lists_ok_def)
  show ?thesis
    unfolding lists_ok_def move_vnode_list [OF assms] using d m assms(2) by auto
qed

lemma vcore_move:
  assumes "vcore nv S k" "v < nv"
  shows "vcore nv S (move_vnode v l k)"
proof -
  let ?k = "k\<lparr>k_list := k_list (move_vnode v l k), k_vn := k_vn (move_vnode v l k)\<rparr>"
  have "lists_ok nv (move_vnode v l k)" using move_vnode_lists_ok assms by (auto simp: vcore_def)
  moreover have "item_of (move_vnode v l k) u = item_of k u" for u by (simp add: item_of_def)
  moreover have "vn_ns (k_vn (move_vnode v l k) u) = vn_ns (k_vn k u)" for u by simp
  ultimately show ?thesis
    using assms(1) by (simp add: vcore_def index_is_def spaces_ok_def ns_of_def del: move_vnode_fields(1))
qed

section \<open>Clearing, sorting and releasing a vnode\<close>

lemma vcoreD:
  assumes "vcore nv S k"
  shows "lists_ok nv k" "S \<subseteq> {..<nv}" "index_is S k" "spaces_ok S k" "k_mem k"
    "sl_nodes (k_index k) \<subseteq> {..<k_slnext k}"
  using assms by (auto simp: vcore_def)

lemma vcore_space:
  assumes "vcore nv S k" "v \<in> S"
  obtains n sp where "vn_ns (k_vn k v) = Some n" "k_ns k n = Some sp" "v \<in> set (ns_vnodes sp)"
    "distinct (ns_vnodes sp)" "k_fs k (ns_fs sp) \<noteq> None"
proof -
  have "ns_of k v \<noteq> None" using vcoreD(4) [OF assms(1)] assms(2) by (simp add: spaces_ok_def)
  then obtain n sp where n: "vn_ns (k_vn k v) = Some n" "k_ns k n = Some sp" by (auto simp: ns_of_def)
  with vcoreD(4) [OF assms(1)] assms(2) show ?thesis
    by (intro that [of n sp]) (auto simp: spaces_ok_def)
qed

text \<open>A change to the list of one name space.\<close>

lemma spaces_ok_change:
  assumes "spaces_ok S k" "k_ns k n = Some sp" "k_fs k' = k_fs k"
    and "k_ns k' = (k_ns k)(n \<mapsto> ns_vnodes_update f sp)" "vs = f (ns_vnodes sp)" "distinct vs"
    and "set vs = {v \<in> S'. vn_ns (k_vn k' v) = Some n}"
    and "\<And>m. m \<noteq> n \<Longrightarrow> {v \<in> S'. vn_ns (k_vn k' v) = Some m} = {v \<in> S. vn_ns (k_vn k v) = Some m}"
    and "\<And>v. v \<in> S' \<Longrightarrow> ns_of k v \<noteq> None \<and> vn_ns (k_vn k' v) = vn_ns (k_vn k v)"
  shows "spaces_ok S' k'"
  unfolding spaces_ok_def
proof (intro conjI allI impI ballI)
  fix m sp' assume m: "k_ns k' m = Some sp'"
  show "k_fs k' (ns_fs sp') \<noteq> None"
    using m assms(1-4) by (auto simp: spaces_ok_def split: if_splits)
  show "distinct (ns_vnodes sp')"
    using m assms(1-6) by (auto simp: spaces_ok_def split: if_splits)
  show "set (ns_vnodes sp') = {v \<in> S'. vn_ns (k_vn k' v) = Some m}"
  proof (cases "m = n")
    case False
    with m assms(4) have "k_ns k m = Some sp'" by simp
    then have "set (ns_vnodes sp') = {v \<in> S. vn_ns (k_vn k v) = Some m}"
      using assms(1) by (simp add: spaces_ok_def)
    with assms(8) [OF False] show ?thesis by simp
  next
    case True
    with m assms(4,5) have "ns_vnodes sp' = vs" by auto
    with True assms(7) show ?thesis by simp
  qed
next
  fix v assume "v \<in> S'"
  with assms(9) [OF this] assms(4) show "ns_of k' v \<noteq> None"
    by (cases "vn_ns (k_vn k v)") (simp_all add: ns_of_def)
qed

lemma item_ofD:
  "item_of k u = Some i \<Longrightarrow> vn_ns (k_vn k u) = Some (it_nsid i) \<and> vn_vnid (k_vn k u) = it_vnid i \<and> it_vn i = u"
  by (auto simp: item_of_def)

text \<open>A vnode after \<open>clear_vnode\<close>.\<close>

definition cleared :: "vnode \<Rightarrow> vnode" where
  "cleared x = x\<lparr>vn_vnid := invalid_vnid, vn_ns := None, vn_remove := False,
     vn_data := 0, vn_rcnt := 0, vn_busy := False, vn_mounted := None\<rparr>"

lemma cleared_fields [simp]:
  "vn_ns (cleared x) = None" "vn_rcnt (cleared x) = 0" "vn_busy (cleared x) = False"
  "vn_remove (cleared x) = False" "vn_inlist (cleared x) = vn_inlist x"
  "vn_mounted (cleared x) = None"
  by (simp_all add: cleared_def)

lemma clear_vnode_core:
  assumes c: "vcore nv S k" and v: "v \<in> S"
  shows "\<exists>k'. clear_vnode v k = Some k' \<and> vcore nv (S - {v}) k' \<and> k_vn k' = (k_vn k)(v := cleared (k_vn k v)) \<and>
    k_list k' = k_list k \<and> k_world k' = k_world k \<and> kframe k k'"
proof -
  obtain n sp where n: "vn_ns (k_vn k v) = Some n" "k_ns k n = Some sp" "v \<in> set (ns_vnodes sp)"
    "distinct (ns_vnodes sp)" "k_fs k (ns_fs sp) \<noteq> None"
    by (rule vcore_space [OF c v])
  define it where "it = \<lparr>it_vnid = vn_vnid (k_vn k v), it_nsid = n, it_vn = v\<rparr>"
  have it: "item_of k v = Some it" "it_vn it = v" "it_nsid it = n" using n(1) by (simp_all add: item_of_def it_def)
  obtain ks where ks: "sl_holds compare_vnode (k_index k) ks"
    "\<And>r i. sl_map vrank ks r = Some i \<longleftrightarrow> vrank i = r \<and> it_vn i \<in> S \<and> item_of k (it_vn i) = Some i"
    using vcoreD(3) [OF c] by (auto simp: index_is_def)
  have "sl_map vrank ks (vrank it) = Some it" using ks(2) [of "vrank it" it] it v by simp
  then obtain s' ks' where d: "DeleteSL compare_vnode it (k_index k) = Some (1, s')"
    "sl_nodes s' \<subseteq> sl_nodes (k_index k)" "sl_holds compare_vnode s' ks'"
    "sl_map vrank ks' = (sl_map vrank ks)(vrank it := None)"
    using vi.delete_map [OF ks(1), of it] by auto
  define k' where "k' = k\<lparr>k_index := s', k_ns := (k_ns k)(n \<mapsto> ns_vnodes_update (ns_unlink v) sp),
    k_vn := (k_vn k)(v := cleared (k_vn k v))\<rparr>"
  have r: "clear_vnode v k = Some k'"
    using it d(1) n by (simp add: clear_vnode_def upd_ns_def k'_def upd_vn_def cleared_def)
  have item: "item_of k' u = (if u = v then None else item_of k u)" for u
    by (simp add: item_of_def k'_def)
  have "sl_map vrank ks' r = Some i \<longleftrightarrow> vrank i = r \<and> it_vn i \<in> S - {v} \<and> item_of k' (it_vn i) = Some i" for r i
  proof -
    have 1: "i = it" if "it_vn i = v" "item_of k (it_vn i) = Some i" using that it by simp
    have 2: "i = it" if "vrank i = vrank it" "it_vn i \<in> S" "item_of k (it_vn i) = Some i"
    proof -
      have "sl_map vrank ks (vrank it) = Some i" using that ks(2) by blast
      then show ?thesis using \<open>sl_map vrank ks (vrank it) = Some it\<close> by simp
    qed
    show ?thesis
    proof (cases "r = vrank it")
      case True
      have "\<not> (vrank i = r \<and> it_vn i \<in> S - {v} \<and> item_of k' (it_vn i) = Some i)"
        using 2 True item [of "it_vn i"] it(2) by auto
      with True d(4) show ?thesis by simp
    next
      case False
      have "it_vn i \<noteq> v" if "vrank i = r" "item_of k (it_vn i) = Some i" using 1 that False by metis
      with False show ?thesis using ks(2) [of r i] d(4) item [of "it_vn i"] by auto
    qed
  qed
  then have "index_is (S - {v}) k'" using d(3) by (auto simp: index_is_def k'_def)
  moreover have "spaces_ok (S - {v}) k'"
  proof (rule spaces_ok_change [OF vcoreD(4) [OF c] n(2), of _ "ns_unlink v" "remove1 v (ns_vnodes sp)"])
    have "set (ns_vnodes sp) = {u \<in> S. vn_ns (k_vn k u) = Some n}"
      using vcoreD(4) [OF c] n(2) by (simp add: spaces_ok_def)
    then show "set (remove1 v (ns_vnodes sp)) = {u \<in> S - {v}. vn_ns (k_vn k' u) = Some n}"
      using n(4) by (auto simp: k'_def)
    show "{u \<in> S - {v}. vn_ns (k_vn k' u) = Some m} = {u \<in> S. vn_ns (k_vn k u) = Some m}" if "m \<noteq> n" for m
      using that n(1) by (auto simp: k'_def)
    show "ns_of k u \<noteq> None \<and> vn_ns (k_vn k' u) = vn_ns (k_vn k u)" if "u \<in> S - {v}" for u
      using that vcoreD(4) [OF c] by (auto simp: spaces_ok_def k'_def)
  qed (use n(3,4) in \<open>simp_all add: k'_def ns_unlink_def\<close>)
  moreover have "lists_ok nv k'" using vcoreD(1) [OF c] by (auto simp: lists_ok_def k'_def)
  ultimately have "vcore nv (S - {v}) k'"
    using vcoreD(2,5,6) [OF c] d(2) by (auto simp: vcore_def k'_def)
  moreover have "kframe k k'" using n(2) by (auto simp: kframe_def k'_def)
  ultimately show ?thesis using r by (auto simp: k'_def)
qed

lemma flush_vnode_core:
  assumes c: "vcore nv S k" and v: "v \<in> S" and E: "release_total E"
  shows "\<exists>k'. flush_vnode E v r k = Some k' \<and> vcore nv (S - {v}) k' \<and> k_vn k' = (k_vn k)(v := cleared (k_vn k v)) \<and>
    k_list k' = k_list k \<and> kframe k k'"
proof -
  let ?k1 = "upd_vn v (vn_busy_update (\<lambda>_. True)) k"
  obtain n sp where n: "vn_ns (k_vn k v) = Some n" "k_ns k n = Some sp" "k_fs k (ns_fs sp) \<noteq> None"
    by (rule vcore_space [OF c v])
  then obtain fs where fs: "k_fs k (ns_fs sp) = Some fs" by auto
  obtain err w where w: "op_release_vnode (E (fs_ops fs)) (ns_data sp) (vn_data (k_vn ?k1 v)) r (k_world ?k1) = Some (err, w)"
    using release_returns [OF E] by blast
  let ?k2 = "upd_vn v (vn_busy_update (\<lambda>_. False)) (?k1\<lparr>k_world := w\<rparr>)"
  have "vcore nv S ?k2" by (intro vcore_upd vcore_world c) simp_all
  from clear_vnode_core [OF this v] obtain k' where k': "clear_vnode v ?k2 = Some k'" "vcore nv (S - {v}) k'"
    "k_vn k' = (k_vn ?k2)(v := cleared (k_vn ?k2 v))" "k_list k' = k_list k" "kframe ?k2 k'" by auto
  have "flush_vnode E v r k = Some k'"
    using n fs w k'(1) by (simp add: flush_vnode_def ops_of_def ns_of_def)
  moreover have "kframe k k'"
    by (rule kframe_trans [OF kframe_trans [OF kframe_trans [OF kframe_upd(1) kframe_upd(2)] kframe_upd(1)] k'(5)])
  moreover have "k_vn k' = (k_vn k)(v := cleared (k_vn k v))" using k'(3) by (auto simp: cleared_def)
  ultimately show ?thesis using k' by blast
qed

lemma sort_vnode_core:
  assumes c: "vcore nv S k" and v: "v < nv" "v \<notin> S" and n: "vn_ns (k_vn k v) = Some n" "k_ns k n \<noteq> None"
    and new: "\<And>u. u \<in> S \<Longrightarrow> vn_ns (k_vn k u) \<noteq> Some n \<or> vn_vnid (k_vn k u) \<noteq> vn_vnid (k_vn k v)"
  shows "\<exists>k'. sort_vnode v k = Some (0, k') \<and> vcore nv (insert v S) k' \<and> k_vn k' = k_vn k \<and>
    k_list k' = k_list k \<and> k_world k' = k_world k \<and> kframe k k'"
proof -
  obtain sp where sp: "k_ns k n = Some sp" using n(2) by auto
  define it where "it = \<lparr>it_vnid = vn_vnid (k_vn k v), it_nsid = n, it_vn = v\<rparr>"
  have it: "item_of k v = Some it" "it_vn it = v" "it_nsid it = n" using n(1) by (simp_all add: item_of_def it_def)
  obtain ks where ks: "sl_holds compare_vnode (k_index k) ks"
    "\<And>r i. sl_map vrank ks r = Some i \<longleftrightarrow> vrank i = r \<and> it_vn i \<in> S \<and> item_of k (it_vn i) = Some i"
    using vcoreD(3) [OF c] by (auto simp: index_is_def)
  have "sl_map vrank ks (vrank it) = None"
  proof (rule ccontr)
    assume "sl_map vrank ks (vrank it) \<noteq> None"
    then obtain i where "sl_map vrank ks (vrank it) = Some i" by auto
    with ks(2) have "vrank i = vrank it" "it_vn i \<in> S" "item_of k (it_vn i) = Some i" by blast+
    with new [of "it_vn i"] item_ofD [of k "it_vn i" i] show False by (auto simp: vrank_def it_def)
  qed
  moreover have "k_slnext k \<notin> sl_nodes (k_index k)" using vcoreD(6) [OF c] by auto
  ultimately obtain s' ks' where d: "InsertSL compare_vnode (k_rand k) (Some (k_slnext k)) it (k_index k) = Some (1, s')"
    "sl_nodes s' = insert (k_slnext k) (sl_nodes (k_index k))" "sl_holds compare_vnode s' ks'"
    "sl_map vrank ks' = (sl_map vrank ks)(vrank it \<mapsto> it)"
    using vi.insert_map [OF ks(1), of it "k_slnext k" "k_rand k"] by blast
  define k' where "k' = k\<lparr>k_index := s', k_rand := rand_rest (k_rand k), k_slnext := Suc (k_slnext k),
    k_ns := (k_ns k)(n \<mapsto> ns_vnodes_update ((#) v) sp)\<rparr>"
  have r: "sort_vnode v k = Some (0, k')"
    using it d(1) sp vcoreD(5) [OF c] by (simp add: sort_vnode_def upd_ns_def k'_def DUPLICATE_ITEM_def)
  have item: "item_of k' u = item_of k u" for u by (simp add: item_of_def k'_def)
  have "sl_map vrank ks' r = Some i \<longleftrightarrow> vrank i = r \<and> it_vn i \<in> insert v S \<and> item_of k' (it_vn i) = Some i" for r i
  proof -
    have 1: "i = it" if "it_vn i = v" "item_of k (it_vn i) = Some i" using that it by simp
    have 2: "\<not> (vrank i = vrank it \<and> it_vn i \<in> S \<and> item_of k (it_vn i) = Some i)"
      using ks(2) \<open>sl_map vrank ks (vrank it) = None\<close> by (metis option.distinct(1))
    show ?thesis
    proof (cases "r = vrank it")
      case True
      have "it = i \<longleftrightarrow> vrank i = vrank it \<and> it_vn i \<in> insert v S \<and> item_of k (it_vn i) = Some i"
        using 1 2 it by blast
      with True d(4) item show ?thesis by simp
    next
      case False
      have "it_vn i \<noteq> v" if "vrank i = r" "item_of k (it_vn i) = Some i" using 1 that False by metis
      with False show ?thesis using ks(2) [of r i] d(4) item [of "it_vn i"] by auto
    qed
  qed
  then have "index_is (insert v S) k'" using d(3) by (auto simp: index_is_def k'_def)
  moreover have "spaces_ok (insert v S) k'"
  proof (rule spaces_ok_change [OF vcoreD(4) [OF c] sp, of _ "(#) v" "v # ns_vnodes sp"])
    have s: "set (ns_vnodes sp) = {u \<in> S. vn_ns (k_vn k u) = Some n}" "distinct (ns_vnodes sp)"
      using vcoreD(4) [OF c] sp by (simp_all add: spaces_ok_def)
    then show "set (v # ns_vnodes sp) = {u \<in> insert v S. vn_ns (k_vn k' u) = Some n}"
      using n(1) by (auto simp: k'_def)
    show "distinct (v # ns_vnodes sp)" using s v(2) by simp
    show "{u \<in> insert v S. vn_ns (k_vn k' u) = Some m} = {u \<in> S. vn_ns (k_vn k u) = Some m}" if "m \<noteq> n" for m
      using that n(1) by (auto simp: k'_def)
    show "ns_of k u \<noteq> None \<and> vn_ns (k_vn k' u) = vn_ns (k_vn k u)" if "u \<in> insert v S" for u
      using that vcoreD(4) [OF c] n(1) sp by (auto simp: spaces_ok_def ns_of_def k'_def)
  qed (simp_all add: k'_def)
  moreover have "lists_ok nv k'" using vcoreD(1) [OF c] by (auto simp: lists_ok_def k'_def)
  ultimately have "vcore nv (insert v S) k'"
    using vcoreD(2,5,6) [OF c] d(2) v by (auto simp: vcore_def k'_def)
  moreover have "kframe k k'" using sp by (auto simp: kframe_def k'_def)
  ultimately show ?thesis using r by (auto simp: k'_def)
qed

end
