(* ===== verification/Vnode_Refs.thy ===== *)
theory Vnode_Refs
  imports Vnode_Inv
begin

text \<open>
  The vnode layer as a count of references: \<open>vn_refs\<close> gives the number of references to each vnode
  id of a name space, whether the vnode is in core or not.  \<open>load_vnode\<close> adds one, \<open>dec_vnode\<close> takes
  one away, and the recycling of the vnodes in no use is not seen.
\<close>

section \<open>Looking a vnode up\<close>

definition is_vn :: "nspace_id \<Rightarrow> vnode_id \<Rightarrow> vnode \<Rightarrow> bool" where
  "is_vn n i x \<longleftrightarrow> vn_ns x = Some n \<and> vn_vnid x = i"

lemma lookup_cases:
  assumes "vcore nv S k"
  obtains (found) v where "lookup_vnode n i k = Some (Some v)" "v \<in> S" "is_vn n i (k_vn k v)"
      "\<And>u. u \<in> S \<Longrightarrow> is_vn n i (k_vn k u) \<Longrightarrow> u = v"
    | (absent) "lookup_vnode n i k = Some None" "\<And>u. u \<in> S \<Longrightarrow> \<not> is_vn n i (k_vn k u)"
proof -
  obtain ks where ks: "sl_holds compare_vnode (k_index k) ks"
    "\<And>r j. sl_map vrank ks r = Some j \<longleftrightarrow> vrank j = r \<and> it_vn j \<in> S \<and> item_of k (it_vn j) = Some j"
    using vcoreD(3) [OF assms] by (auto simp: index_is_def)
  have l: "lookup_vnode n i k = Some (map_option it_vn (sl_map vrank ks (i, n)))"
    using vi.search_map [OF ks(1), of "\<lparr>it_vnid = i, it_nsid = n, it_vn = 0\<rparr>"]
    by (simp add: lookup_vnode_def vrank_def)
  have hit: "sl_map vrank ks (i, n) = Some \<lparr>it_vnid = i, it_nsid = n, it_vn = u\<rparr>"
    if "u \<in> S" "is_vn n i (k_vn k u)" for u
    using that ks(2) [of "(i, n)" "\<lparr>it_vnid = i, it_nsid = n, it_vn = u\<rparr>"]
    by (simp add: is_vn_def item_of_def vrank_def)
  show ?thesis
  proof (cases "sl_map vrank ks (i, n)")
    case None
    with l hit show ?thesis by (intro absent) auto
  next
    case (Some j)
    then have j: "vrank j = (i, n)" "it_vn j \<in> S" "item_of k (it_vn j) = Some j" using ks(2) by blast+
    then have v: "is_vn n i (k_vn k (it_vn j))"
      using item_ofD [OF j(3)] by (simp add: is_vn_def vrank_def)
    show ?thesis
    proof (rule found [OF _ j(2) v])
      show "lookup_vnode n i k = Some (Some (it_vn j))" using l Some by simp
      show "u = it_vn j" if "u \<in> S" "is_vn n i (k_vn k u)" for u using hit [OF that] Some by simp
    qed
  qed
qed

lemma lookup_found:
  assumes "vcore nv S k" "v \<in> S" "is_vn n i (k_vn k v)"
  shows "lookup_vnode n i k = Some (Some v)"
proof (cases rule: lookup_cases [OF assms(1), where n = n and i = i])
  case (1 u)
  have "v = u" by (rule 1(4) [OF assms(2,3)])
  with 1(1) show ?thesis by simp
next
  case 2
  from 2(2) [OF assms(2)] assms(3) show ?thesis ..
qed

lemma vcore_unique:
  assumes "vcore nv S k" "u \<in> S" "v \<in> S" "is_vn n i (k_vn k u)" "is_vn n i (k_vn k v)"
  shows "u = v"
  using lookup_found [OF assms(1,2,4)] lookup_found [OF assms(1,3,5)] by simp

section \<open>References\<close>

definition vn_refs :: "'w kernel \<Rightarrow> nspace_id \<Rightarrow> vnode_id \<Rightarrow> int" where
  "vn_refs k n i = (case lookup_vnode n i k of Some (Some v) \<Rightarrow> vn_rcnt (k_vn k v) | _ \<Rightarrow> 0)"

lemma vn_refs_found:
  assumes "vcore nv S k" "v \<in> S" "is_vn n i (k_vn k v)"
  shows "vn_refs k n i = vn_rcnt (k_vn k v)"
  by (simp add: vn_refs_def lookup_found [OF assms])

lemma vn_refs_absent:
  assumes "vcore nv S k" "\<And>u. u \<in> S \<Longrightarrow> \<not> is_vn n i (k_vn k u)"
  shows "vn_refs k n i = 0"
proof (cases rule: lookup_cases [OF assms(1), where n = n and i = i])
  case (1 u)
  from assms(2) [OF 1(2)] 1(3) show ?thesis ..
next
  case 2
  then show ?thesis by (simp add: vn_refs_def)
qed

text \<open>Two states in which the same vnodes are used, up to vnodes without references.\<close>

lemma vn_refs_same:
  assumes c: "vcore nv S k" "vcore nv S' k'"
    and fwd: "\<And>u. u \<in> S \<Longrightarrow> is_vn n i (k_vn k u) \<Longrightarrow>
      (u \<in> S' \<and> is_vn n i (k_vn k' u) \<and> vn_rcnt (k_vn k' u) = vn_rcnt (k_vn k u)) \<or>
      (vn_rcnt (k_vn k u) = 0 \<and> u \<notin> S')"
    and bwd: "\<And>u. u \<in> S' \<Longrightarrow> is_vn n i (k_vn k' u) \<Longrightarrow> u \<in> S \<and> is_vn n i (k_vn k u)"
  shows "vn_refs k' n i = vn_refs k n i"
proof (cases rule: lookup_cases [OF c(1), where n = n and i = i])
  case (1 v)
  note r = vn_refs_found [OF c(1) 1(2,3)]
  from fwd [OF 1(2,3)] show ?thesis
  proof
    assume "v \<in> S' \<and> is_vn n i (k_vn k' v) \<and> vn_rcnt (k_vn k' v) = vn_rcnt (k_vn k v)"
    with vn_refs_found [OF c(2), of v n i] r show ?thesis by simp
  next
    assume z: "vn_rcnt (k_vn k v) = 0 \<and> v \<notin> S'"
    have "\<not> is_vn n i (k_vn k' u)" if "u \<in> S'" for u using that bwd 1(4) z by metis
    with vn_refs_absent [OF c(2), of n i] r z show ?thesis by simp
  qed
next
  case 2
  have "\<not> is_vn n i (k_vn k' u)" if "u \<in> S'" for u using that bwd 2(2) by blast
  then show ?thesis using vn_refs_absent [OF c(1) 2(2)] vn_refs_absent [OF c(2), of n i] by simp
qed

section \<open>Recycling\<close>

lemma steal_head:
  assumes "vcore nv S k" "k_list k l = v # vs" "l \<noteq> LOCKED_LIST"
  shows "\<exists>k'. steal_vnode l k = (Some v, k') \<and> vcore nv S k' \<and> v < nv \<and>
    k_vn k' = (k_vn k)(v := (k_vn k v)\<lparr>vn_inlist := LOCKED_LIST\<rparr>) \<and>
    k_list k' = (k_list k)(l := vs, LOCKED_LIST := k_list k LOCKED_LIST @ [v]) \<and> kframe k k'"
proof -
  note L = vcoreD(1) [OF assms(1)]
  have "v \<in> set (k_list k l)" by (simp add: assms(2))
  then have v: "v < nv" "\<And>m. m \<noteq> l \<Longrightarrow> v \<notin> set (k_list k m)" "v \<notin> set vs"
    using L assms(2) unfolding lists_ok_def by (metis, metis, metis distinct.simps(2))
  have "k_list (move_vnode v LOCKED_LIST k) = (k_list k)(l := vs, LOCKED_LIST := k_list k LOCKED_LIST @ [v])"
    using v assms(2,3) by (auto simp: move_vnode_list [OF L v(1)] remove1_idem fun_eq_iff)
  with v vcore_move [OF assms(1) v(1)] assms(2) show ?thesis by (auto simp: steal_vnode_def)
qed

lemma to_free:
  assumes "vcore nv S k" "k_list k LOCKED_LIST = vs @ [v]"
  shows "vcore nv S (move_vnode v FREE_LIST k) \<and>
    k_list (move_vnode v FREE_LIST k) = (k_list k)(LOCKED_LIST := vs, FREE_LIST := k_list k FREE_LIST @ [v])"
proof -
  note L = vcoreD(1) [OF assms(1)]
  have "v \<in> set (k_list k LOCKED_LIST)" by (simp add: assms(2))
  then have v: "v < nv" "\<And>m. m \<noteq> LOCKED_LIST \<Longrightarrow> v \<notin> set (k_list k m)" "v \<notin> set vs"
    using L assms(2) unfolding lists_ok_def by (metis, metis, metis distinct_append list.set_intros(1) disjoint_iff)
  have "remove1 v (vs @ [v]) = vs" using v(3) by (simp add: remove1_append)
  with v vcore_move [OF assms(1) v(1)] assms(2) show ?thesis
    by (auto simp: move_vnode_list [OF L v(1)] remove1_idem fun_eq_iff)
qed

text \<open>The oldest vnode in no use is stolen, released and put on the free list.\<close>

lemma recycle:
  assumes c: "vcore nv S k" and l: "k_list k USED_LIST = v # vs" and v: "v \<in> S" and E: "release_total E"
  shows "\<exists>k1 k3 k4. steal_vnode USED_LIST k = (Some v, k1) \<and> flush_vnode E v r k1 = Some k3 \<and>
    k4 = move_vnode v FREE_LIST k3 \<and> vcore nv (S - {v}) k4 \<and> v < nv \<and>
    k_vn k4 = (k_vn k)(v := cleared ((k_vn k v)\<lparr>vn_inlist := FREE_LIST\<rparr>)) \<and>
    k_list k4 = (k_list k)(USED_LIST := vs, FREE_LIST := k_list k FREE_LIST @ [v]) \<and> kframe k k4"
proof -
  obtain k1 where k1: "steal_vnode USED_LIST k = (Some v, k1)" "vcore nv S k1" "v < nv"
    "k_vn k1 = (k_vn k)(v := (k_vn k v)\<lparr>vn_inlist := LOCKED_LIST\<rparr>)"
    "k_list k1 = (k_list k)(USED_LIST := vs, LOCKED_LIST := k_list k LOCKED_LIST @ [v])" "kframe k k1"
    using steal_head [OF c l] by auto
  obtain k3 where k3: "flush_vnode E v r k1 = Some k3" "vcore nv (S - {v}) k3"
    "k_vn k3 = (k_vn k1)(v := cleared (k_vn k1 v))" "k_list k3 = k_list k1" "kframe k1 k3"
    using flush_vnode_core [OF k1(2) v E] by blast
  have "k_list k3 LOCKED_LIST = k_list k LOCKED_LIST @ [v]" using k1 k3 by simp
  from to_free [OF k3(2) this]
  have "vcore nv (S - {v}) (move_vnode v FREE_LIST k3)"
    "k_list (move_vnode v FREE_LIST k3) = (k_list k)(USED_LIST := vs, FREE_LIST := k_list k FREE_LIST @ [v])"
    using k1 k3 by (auto simp: fun_eq_iff)
  moreover have "kframe k (move_vnode v FREE_LIST k3)"
    by (rule kframe_trans [OF kframe_trans [OF k1(6) k3(5)]]) simp
  moreover have "k_vn (move_vnode v FREE_LIST k3) = (k_vn k)(v := cleared ((k_vn k v)\<lparr>vn_inlist := FREE_LIST\<rparr>))"
    using k1 k3 by (auto simp: cleared_def fun_eq_iff)
  ultimately show ?thesis using k1 k3 by blast
qed

section \<open>Taking a reference away\<close>

lemma vn_invD:
  assumes "vn_inv nv k"
  shows "vcore nv (in_core nv k) k" "\<And>v. v < nv \<Longrightarrow> vn_state (k_vn k v)"
    "int (length (k_list k USED_LIST)) \<le> k_usdvnnum k"
  using assms by (auto simp: vn_inv_def)

lemma vn_inv_lists:
  assumes "vn_inv nv k"
  shows "v \<in> set (k_list k l) \<longleftrightarrow> v < nv \<and> vn_inlist (k_vn k v) = l" "distinct (k_list k l)"
  using vcoreD(1) [OF vn_invD(1) [OF assms]] by (auto simp: lists_ok_def)

text \<open>The states of the vnodes after a change of one of them, \<open>v\<close>, and perhaps the recycling of another.\<close>

lemma vn_invI:
  assumes "vcore nv S k'" "S = in_core nv k'" "\<And>u. u < nv \<Longrightarrow> vn_state (k_vn k' u)"
    and "int (length (k_list k' USED_LIST)) \<le> k_usdvnnum k'"
  shows "vn_inv nv k'"
  using assms by (simp add: vn_inv_def)

lemma in_use:
  assumes "vn_inv nv k" "v < nv" "0 < vn_rcnt (k_vn k v)"
  shows "vn_inlist (k_vn k v) = LOCKED_LIST" "v \<in> in_core nv k" "\<not> vn_busy (k_vn k v)"
  using vn_invD(2) [OF assms(1,2)] assms(2,3)
  by (auto simp: vn_state_def in_core_def split: vlist.splits)

text \<open>One step of \<open>dec_vnode\<close> at a time: the last reference of a vnode that is to be removed.\<close>

lemma dec_vnode_remove:
  assumes inv: "vn_inv nv k" and v: "v < nv" "vn_rcnt (k_vn k v) = 1" "vn_remove (k_vn k v)" and E: "removes E v r k"
  shows "\<exists>k'. dec_vnode E v r k = Some k' \<and> vcore nv (in_core nv k - {v}) k' \<and>
    k_vn k' = (k_vn k)(v := cleared ((k_vn k v)\<lparr>vn_inlist := FREE_LIST\<rparr>)) \<and>
    k_list k' USED_LIST = k_list k USED_LIST \<and> kframe k k' \<and>
    (\<exists>sp fs err. ns_of k v = Some sp \<and> k_fs k (ns_fs sp) = Some fs \<and>
       op_remove_vnode (E (fs_ops fs)) (ns_data sp) (vn_data (k_vn k v)) r (k_world k) = Some (err, k_world k'))"
proof -
  let ?k1 = "move_vnode v LOCKED_LIST (upd_vn v (vn_busy_update (\<lambda>_. True))
    (upd_vn v (\<lambda>n. n\<lparr>vn_rcnt := vn_rcnt n - 1\<rparr>) k))"
  have use: "vn_inlist (k_vn k v) = LOCKED_LIST" "v \<in> in_core nv k"
    by (rule in_use [OF inv v(1)], simp add: v)+
  have c1: "vcore nv (in_core nv k) ?k1" by (intro vcore_move vcore_upd vn_invD(1) [OF inv] v) simp_all
  obtain n sp where n: "vn_ns (k_vn ?k1 v) = Some n" "k_ns ?k1 n = Some sp" "k_fs ?k1 (ns_fs sp) \<noteq> None"
    by (rule vcore_space [OF c1 use(2)])
  then obtain fs where fs: "k_fs ?k1 (ns_fs sp) = Some fs" by auto
  obtain err w where w: "op_remove_vnode (E (fs_ops fs)) (ns_data sp) (vn_data (k_vn ?k1 v)) r (k_world ?k1) = Some (err, w)"
    using E n fs by (fastforce simp: removes_def ns_of_def)
  obtain k2 where k2: "clear_vnode v (?k1\<lparr>k_world := w\<rparr>) = Some k2" "vcore nv (in_core nv k - {v}) k2"
    "k_vn k2 = (k_vn ?k1)(v := cleared (k_vn ?k1 v))" "k_list k2 = k_list ?k1" "kframe (?k1\<lparr>k_world := w\<rparr>) k2"
    "k_world k2 = w"
    using clear_vnode_core [OF vcore_world [OF c1] use(2), of w] by auto
  let ?k' = "move_vnode v FREE_LIST k2"
  have "dec_vnode E v r k = Some ?k'"
    using v n fs w k2(1) by (simp add: dec_vnode_def ops_of_def ns_of_def Let_def)
  moreover have "vcore nv (in_core nv k - {v}) ?k'" by (rule vcore_move [OF k2(2) v(1)])
  moreover have "k_vn ?k' = (k_vn k)(v := cleared ((k_vn k v)\<lparr>vn_inlist := FREE_LIST\<rparr>))"
    using k2(3) by (auto simp: cleared_def fun_eq_iff)
  moreover have "k_list ?k' USED_LIST = k_list k USED_LIST"
  proof -
    have "v \<notin> set (k_list k USED_LIST)" using vn_inv_lists [OF inv] use(1) by simp
    moreover have "lists_ok nv (upd_vn v (vn_busy_update (\<lambda>_. True)) (upd_vn v (\<lambda>n. n\<lparr>vn_rcnt := vn_rcnt n - 1\<rparr>) k))"
      using vcoreD(1) [OF vn_invD(1) [OF inv]] by (auto simp: lists_ok_def)
    ultimately show ?thesis
      using k2(4) v(1) by (simp add: move_vnode_list [OF vcoreD(1) [OF k2(2)] v(1)] move_vnode_list remove1_idem)
  qed
  moreover have "kframe k ?k'"
  proof -
    have "kframe k ?k1" by (rule kframe_trans [OF kframe_trans [OF kframe_upd(1) kframe_upd(1)] move_vnode_fields(9)])
    then have "kframe k k2" by (rule kframe_trans [OF kframe_trans [OF _ kframe_upd(2)] k2(5)])
    then show ?thesis by (rule kframe_trans [OF _ move_vnode_fields(9)])
  qed
  moreover have "ns_of k v = Some sp" "k_fs k (ns_fs sp) = Some fs"
    "op_remove_vnode (E (fs_ops fs)) (ns_data sp) (vn_data (k_vn k v)) r (k_world k) = Some (err, k_world ?k')"
    using n fs w k2(6) by (simp_all add: ns_of_def)
  ultimately show ?thesis by blast
qed

lemma dec_vnode_last:
  assumes inv: "vn_inv nv k" and v: "v < nv" "vn_rcnt (k_vn k v) = 1" "\<not> vn_remove (k_vn k v)" and E: "release_total E"
  shows "\<exists>k' R. dec_vnode E v r k = Some k' \<and> vcore nv (in_core nv k - R) k' \<and>
    (R = {} \<or> (\<exists>u < nv. R = {u} \<and> (u = v \<or> vn_inlist (k_vn k u) = USED_LIST))) \<and>
    (\<forall>u. k_vn k' u = (if u \<in> R then cleared ((k_vn k u)\<lparr>vn_inlist := FREE_LIST\<rparr>)
       else if u = v then (k_vn k v)\<lparr>vn_rcnt := 0, vn_inlist := USED_LIST\<rparr> else k_vn k u)) \<and>
    int (length (k_list k' USED_LIST)) \<le> k_usdvnnum k \<and> kframe k k'"
proof -
  let ?k0 = "upd_vn v (\<lambda>n. n\<lparr>vn_rcnt := vn_rcnt n - 1\<rparr>) k"
  let ?k1 = "move_vnode v USED_LIST ?k0"
  have use: "vn_inlist (k_vn k v) = LOCKED_LIST" "v \<in> in_core nv k"
    by (rule in_use [OF inv v(1)], simp add: v)+
  have c0: "vcore nv (in_core nv k) ?k0" by (intro vcore_upd vn_invD(1) [OF inv]) simp_all
  have c1: "vcore nv (in_core nv k) ?k1" by (rule vcore_move [OF c0 v(1)])
  have f1: "kframe k ?k1" by (rule kframe_trans [OF kframe_upd(1) move_vnode_fields(9)])
  have l1: "k_list ?k1 USED_LIST = k_list k USED_LIST @ [v]"
    using vn_inv_lists [OF inv] use(1) by (simp add: move_vnode_list [OF vcoreD(1) [OF c0] v(1)] remove1_idem)
  have n1: "k_vn ?k1 u = (if u = v then (k_vn k v)\<lparr>vn_rcnt := 0, vn_inlist := USED_LIST\<rparr> else k_vn k u)" for u
    using v by (cases "k_vn k v") simp
  show ?thesis
  proof (cases "int (length (k_list ?k1 USED_LIST)) > k_usdvnnum ?k1")
    case False
    then have "dec_vnode E v r k = Some ?k1" using v by (simp add: dec_vnode_def Let_def)
    with c1 f1 n1 False show ?thesis by (intro exI [of _ ?k1] exI [of _ "{}"]) auto
  next
    case True
    obtain u us where us: "k_list ?k1 USED_LIST = u # us" by (metis l1 append_is_Nil_conv neq_Nil_conv)
    have u: "u < nv \<and> (u = v \<or> vn_inlist (k_vn k u) = USED_LIST)"
    proof -
      have "u \<in> set (k_list ?k1 USED_LIST)" by (simp add: us)
      then show ?thesis using l1 vn_inv_lists(1) [OF inv, of u USED_LIST] v(1) by auto
    qed
    then have ui: "u \<in> in_core nv k"
      using use(2) vn_invD(2) [OF inv, of u] by (auto simp: in_core_def vn_state_def)
    obtain k2 k3 k4 where k4: "steal_vnode USED_LIST ?k1 = (Some u, k2)" "flush_vnode E u r k2 = Some k3"
      "k4 = move_vnode u FREE_LIST k3" "vcore nv (in_core nv k - {u}) k4"
      "k_vn k4 = (k_vn ?k1)(u := cleared ((k_vn ?k1 u)\<lparr>vn_inlist := FREE_LIST\<rparr>))"
      "k_list k4 = (k_list ?k1)(USED_LIST := us, FREE_LIST := k_list ?k1 FREE_LIST @ [u])" "kframe ?k1 k4"
      using recycle [OF c1 us ui E] by blast
    have "dec_vnode E v r k = Some k4" using v True k4(1-3) by (simp add: dec_vnode_def Let_def)
    moreover have "int (length (k_list k4 USED_LIST)) \<le> k_usdvnnum k"
    proof -
      have "length us = length (k_list k USED_LIST)" using arg_cong [OF us, of length] by (simp add: l1)
      moreover have "k_list k4 USED_LIST = us" by (simp add: k4(6))
      ultimately show ?thesis using vn_invD(3) [OF inv] by simp
    qed
    moreover have "k_vn k4 w = (if w \<in> {u} then cleared ((k_vn k w)\<lparr>vn_inlist := FREE_LIST\<rparr>)
       else if w = v then (k_vn k v)\<lparr>vn_rcnt := 0, vn_inlist := USED_LIST\<rparr> else k_vn k w)" for w
      unfolding k4(5) using n1 [of w] n1 [of u] by (auto simp: cleared_def simp del: move_vnode_fields(1))
    ultimately show ?thesis
      using k4(4) u kframe_trans [OF f1 k4(7)] by (intro exI [of _ k4] exI [of _ "{u}"]) auto
  qed
qed

text \<open>All cases together: the vnodes \<open>R\<close> go to the free list.\<close>

definition dec_of :: "nat \<Rightarrow> vaddr \<Rightarrow> vaddr set \<Rightarrow> 'w kernel \<Rightarrow> 'w kernel \<Rightarrow> bool" where
  "dec_of nv v R k k' \<longleftrightarrow> vcore nv (in_core nv k - R) k' \<and>
     (\<forall>u \<in> R. u < nv \<and> (u = v \<and> vn_rcnt (k_vn k v) = 1 \<or> u \<noteq> v \<and> vn_inlist (k_vn k u) = USED_LIST)) \<and>
     (\<forall>u. k_vn k' u = (if u \<in> R then cleared ((k_vn k u)\<lparr>vn_inlist := FREE_LIST\<rparr>)
        else if u = v then (k_vn k v)\<lparr>vn_rcnt := vn_rcnt (k_vn k v) - 1,
          vn_inlist := (if vn_rcnt (k_vn k v) = 1 then USED_LIST else LOCKED_LIST)\<rparr>
        else k_vn k u)) \<and>
     (v \<notin> R \<longrightarrow> vn_rcnt (k_vn k v) = 1 \<longrightarrow> \<not> vn_remove (k_vn k v)) \<and>
     int (length (k_list k' USED_LIST)) \<le> k_usdvnnum k \<and> kframe k k'"

lemma dec_vnode_shape_at:
  assumes inv: "vn_inv nv k" and v: "v < nv" "0 < vn_rcnt (k_vn k v)" and E: "release_total E"
    and R: "vn_rcnt (k_vn k v) = 1 \<Longrightarrow> vn_remove (k_vn k v) \<Longrightarrow> removes E v r k"
  shows "\<exists>k' R. dec_vnode E v r k = Some k' \<and> dec_of nv v R k k'"
proof -
  note use = in_use [OF inv v]
  consider (more) "1 < vn_rcnt (k_vn k v)" | (rem) "vn_rcnt (k_vn k v) = 1" "vn_remove (k_vn k v)"
    | (last) "vn_rcnt (k_vn k v) = 1" "\<not> vn_remove (k_vn k v)"
    using v(2) by linarith
  then show ?thesis
  proof cases
    case more
    let ?k = "upd_vn v (\<lambda>n. n\<lparr>vn_rcnt := vn_rcnt n - 1\<rparr>) k"
    have "dec_vnode E v r k = Some ?k" using more by (simp add: dec_vnode_def)
    moreover have "vcore nv (in_core nv k) ?k" by (intro vcore_upd vn_invD(1) [OF inv]) simp_all
    then have "dec_of nv v {} k ?k"
      using more use(1) vn_invD(3) [OF inv] by (simp add: dec_of_def)
    ultimately show ?thesis by blast
  next
    case rem
    obtain k' where k': "dec_vnode E v r k = Some k'" "vcore nv (in_core nv k - {v}) k'"
      "k_vn k' = (k_vn k)(v := cleared ((k_vn k v)\<lparr>vn_inlist := FREE_LIST\<rparr>))"
      "k_list k' USED_LIST = k_list k USED_LIST" "kframe k k'"
      using dec_vnode_remove [OF inv v(1) rem R [OF rem]] by blast
    then have "dec_of nv v {v} k k'" using rem v(1) vn_invD(3) [OF inv] by (simp add: dec_of_def)
    with k' show ?thesis by blast
  next
    case last
    obtain k' R where k': "dec_vnode E v r k = Some k'" "vcore nv (in_core nv k - R) k'"
      "R = {} \<or> (\<exists>u < nv. R = {u} \<and> (u = v \<or> vn_inlist (k_vn k u) = USED_LIST))"
      "\<forall>u. k_vn k' u = (if u \<in> R then cleared ((k_vn k u)\<lparr>vn_inlist := FREE_LIST\<rparr>)
         else if u = v then (k_vn k v)\<lparr>vn_rcnt := 0, vn_inlist := USED_LIST\<rparr> else k_vn k u)"
      "int (length (k_list k' USED_LIST)) \<le> k_usdvnnum k" "kframe k k'"
      using dec_vnode_last [OF inv v(1) last E] by blast
    then have "dec_of nv v R k k'" using last by (auto simp: dec_of_def)
    with k' show ?thesis by blast
  qed
qed

lemma dec_vnode_shape:
  assumes inv: "vn_inv nv k" and v: "v < nv" "0 < vn_rcnt (k_vn k v)" and E: "env_total E"
  shows "\<exists>k' R. dec_vnode E v r k = Some k' \<and> dec_of nv v R k k'"
  by (rule dec_vnode_shape_at [OF inv v env_returns(1) [OF E]]) (rule env_returns(2) [OF E])

lemma dec_of_inv:
  assumes inv: "vn_inv nv k" and v: "v < nv" "0 < vn_rcnt (k_vn k v)" and d: "dec_of nv v R k k'"
  shows "vn_inv nv k'"
proof (rule vn_invI)
  have K: "k_vn k' u = (if u \<in> R then cleared ((k_vn k u)\<lparr>vn_inlist := FREE_LIST\<rparr>)
        else if u = v then (k_vn k v)\<lparr>vn_rcnt := vn_rcnt (k_vn k v) - 1,
          vn_inlist := (if vn_rcnt (k_vn k v) = 1 then USED_LIST else LOCKED_LIST)\<rparr>
        else k_vn k u)" for u
    using d by (simp add: dec_of_def)
  show "vcore nv (in_core nv k - R) k'" using d by (simp add: dec_of_def)
  show "in_core nv k - R = in_core nv k'" by (auto simp: in_core_def K)
  have "vn_ns (k_vn k v) \<noteq> None" "\<not> vn_busy (k_vn k v)"
    using in_use [OF inv v] by (auto simp: in_core_def)
  then show "vn_state (k_vn k' u)" if "u < nv" for u
    using vn_invD(2) [OF inv that] v d unfolding K by (auto simp: vn_state_def dec_of_def)
  show "int (length (k_list k' USED_LIST)) \<le> k_usdvnnum k'" using d by (simp add: dec_of_def kframe_def)
qed

lemma dec_of_refs:
  assumes inv: "vn_inv nv k" and v: "v < nv" "0 < vn_rcnt (k_vn k v)" and d: "dec_of nv v R k k'"
    and i: "is_vn n i (k_vn k v)"
  shows "vn_refs k' m j = (if m = n \<and> j = i then vn_refs k m j - 1 else vn_refs k m j)"
proof -
  have K: "k_vn k' u = (if u \<in> R then cleared ((k_vn k u)\<lparr>vn_inlist := FREE_LIST\<rparr>)
        else if u = v then (k_vn k v)\<lparr>vn_rcnt := vn_rcnt (k_vn k v) - 1,
          vn_inlist := (if vn_rcnt (k_vn k v) = 1 then USED_LIST else LOCKED_LIST)\<rparr>
        else k_vn k u)" for u
    using d by (simp add: dec_of_def)
  have R: "\<And>u. u \<in> R \<Longrightarrow> u < nv \<and> (u = v \<and> vn_rcnt (k_vn k v) = 1 \<or> u \<noteq> v \<and> vn_inlist (k_vn k u) = USED_LIST)"
    and c': "vcore nv (in_core nv k - R) k'"
    using d by (simp_all add: dec_of_def)
  note c = vn_invD(1) [OF inv] and vc = in_use(2) [OF inv v]
  show ?thesis
  proof (cases "m = n \<and> j = i")
    case True
    have r: "vn_refs k n i = vn_rcnt (k_vn k v)" by (rule vn_refs_found [OF c vc i])
    show ?thesis
    proof (cases "v \<in> R")
      case False
      have "vn_refs k' n i = vn_rcnt (k_vn k' v)"
        by (rule vn_refs_found [OF c']) (use False vc i in \<open>auto simp: K is_vn_def\<close>)
      with r True False show ?thesis by (simp add: K)
    next
      case T: True
      have "vn_refs k' n i = 0"
      proof (rule vn_refs_absent [OF c'])
        fix u assume u: "u \<in> in_core nv k - R"
        with T have "u \<noteq> v" "k_vn k' u = k_vn k u" by (auto simp: K)
        with u vcore_unique [OF c, of u v n i] vc i show "\<not> is_vn n i (k_vn k' u)" by auto
      qed
      with r True R [OF T] show ?thesis by simp
    qed
  next
    case False
    have "vn_refs k' m j = vn_refs k m j"
    proof (rule vn_refs_same [OF c c'])
      fix u assume u: "u \<in> in_core nv k" "is_vn m j (k_vn k u)"
      with False i have "u \<noteq> v" by (auto simp: is_vn_def)
      moreover have "vn_rcnt (k_vn k u) = 0" if "u \<in> R"
        using R [OF that] \<open>u \<noteq> v\<close> vn_invD(2) [OF inv, of u] by (auto simp: vn_state_def)
      ultimately show "u \<in> in_core nv k - R \<and> is_vn m j (k_vn k' u) \<and> vn_rcnt (k_vn k' u) = vn_rcnt (k_vn k u) \<or>
          vn_rcnt (k_vn k u) = 0 \<and> u \<notin> in_core nv k - R"
        using u by (auto simp: K)
    next
      fix u assume "u \<in> in_core nv k - R" "is_vn m j (k_vn k' u)"
      then show "u \<in> in_core nv k \<and> is_vn m j (k_vn k u)" by (auto simp: K is_vn_def split: if_splits)
    qed
    with False show ?thesis by auto
  qed
qed

end
