(* ===== verification/Vnode_Load.thy ===== *)
theory Vnode_Load
  imports Vnode_Refs
begin

text \<open>
  \<open>load_vnode\<close> and its clients: a vnode found in core, one read by its file system, one recycled for it,
  and the errors.
\<close>

section \<open>The vnode \<open>load_vnode\<close> works on\<close>

text \<open>A vnode taken for a new identity: it was free, or in no use.\<close>

definition pick_of :: "nat \<Rightarrow> vaddr \<Rightarrow> 'w kernel \<Rightarrow> 'w kernel \<Rightarrow> bool" where
  "pick_of nv v k k' \<longleftrightarrow> v < nv \<and> vcore nv (in_core nv k - {v}) k' \<and> (\<forall>u. u \<noteq> v \<longrightarrow> k_vn k' u = k_vn k u) \<and>
     vn_rcnt (k_vn k v) = 0 \<and> vn_ns (k_vn k' v) = None \<and> vn_rcnt (k_vn k' v) = 0 \<and> \<not> vn_busy (k_vn k' v) \<and>
     \<not> vn_remove (k_vn k' v) \<and> vn_inlist (k_vn k' v) = LOCKED_LIST \<and>
     (vn_mounted (k_vn k' v) = None \<or> vn_mounted (k_vn k' v) = vn_mounted (k_vn k v)) \<and>
     int (length (k_list k' USED_LIST)) \<le> k_usdvnnum k \<and> kframe k k'"

lemma load_pick_found:
  assumes "vn_inv nv k" "v \<in> in_core nv k" "is_vn n i (k_vn k v)"
  shows "load_pick E n i r k = Some (v, k)"
proof -
  have "lookup_vnode n i k = Some (Some v)" by (rule lookup_found [OF vn_invD(1) [OF assms(1)] assms(2,3)])
  moreover have "\<not> vn_busy (k_vn k v)"
    using vn_invD(2) [OF assms(1), of v] assms(2) by (simp add: in_core_def vn_state_def)
  ultimately show ?thesis by (subst load_pick.simps) simp
qed

lemma lookup_absent:
  assumes "vcore nv S k" "\<And>u. u \<in> S \<Longrightarrow> \<not> is_vn n i (k_vn k u)"
  shows "lookup_vnode n i k = Some None"
proof (cases rule: lookup_cases [OF assms(1), where n = n and i = i])
  case (1 u)
  from assms(2) [OF 1(2)] 1(3) show ?thesis ..
qed

lemma pick_free:
  assumes inv: "vn_inv nv k" and l: "k_list k FREE_LIST = v # vs"
  shows "\<exists>k'. steal_vnode FREE_LIST k = (Some v, k') \<and> pick_of nv v k k'"
proof -
  have "v \<in> set (k_list k FREE_LIST)" by (simp add: l)
  then have f: "v < nv" "vn_inlist (k_vn k v) = FREE_LIST" using vn_inv_lists(1) [OF inv] by auto
  then have st: "vn_ns (k_vn k v) = None" "vn_rcnt (k_vn k v) = 0" "\<not> vn_busy (k_vn k v)" "\<not> vn_remove (k_vn k v)"
    using vn_invD(2) [OF inv f(1)] by (auto simp: vn_state_def)
  then have "in_core nv k - {v} = in_core nv k" by (auto simp: in_core_def)
  with steal_head [OF vn_invD(1) [OF inv] l] f st vn_invD(3) [OF inv] show ?thesis
    by (auto simp: pick_of_def)
qed

text \<open>With an empty free list, the oldest vnode in no use is released and then taken.\<close>

lemma pick_used:
  assumes inv: "vn_inv nv k" and l: "k_list k FREE_LIST = []" "k_list k USED_LIST = v # vs" and E: "release_total E"
  shows "\<exists>k1 k3 k4 k5. steal_vnode USED_LIST k = (Some v, k1) \<and> flush_vnode E v r k1 = Some k3 \<and>
    k4 = move_vnode v FREE_LIST k3 \<and> vcore nv (in_core nv k - {v}) k4 \<and>
    (\<forall>u. u \<noteq> v \<longrightarrow> k_vn k4 u = k_vn k u) \<and>
    steal_vnode FREE_LIST k4 = (Some v, k5) \<and> pick_of nv v k k5"
proof -
  have "v \<in> set (k_list k USED_LIST)" by (simp add: l)
  then have f: "v < nv" "vn_inlist (k_vn k v) = USED_LIST" using vn_inv_lists(1) [OF inv] by auto
  then have st: "vn_ns (k_vn k v) \<noteq> None" "vn_rcnt (k_vn k v) = 0"
    using vn_invD(2) [OF inv f(1)] by (auto simp: vn_state_def)
  then have vc: "v \<in> in_core nv k" using f by (simp add: in_core_def)
  obtain k1 k3 k4 where k4: "steal_vnode USED_LIST k = (Some v, k1)" "flush_vnode E v r k1 = Some k3"
    "k4 = move_vnode v FREE_LIST k3" "vcore nv (in_core nv k - {v}) k4"
    "k_vn k4 = (k_vn k)(v := cleared ((k_vn k v)\<lparr>vn_inlist := FREE_LIST\<rparr>))"
    "k_list k4 = (k_list k)(USED_LIST := vs, FREE_LIST := k_list k FREE_LIST @ [v])" "kframe k k4"
    using recycle [OF vn_invD(1) [OF inv] l(2) vc E] by blast
  have "k_list k4 FREE_LIST = [v]" by (simp add: k4(6) l(1))
  from steal_head [OF k4(4) this] obtain k5 where k5: "steal_vnode FREE_LIST k4 = (Some v, k5)"
    "vcore nv (in_core nv k - {v}) k5"
    "k_vn k5 = (k_vn k4)(v := (k_vn k4 v)\<lparr>vn_inlist := LOCKED_LIST\<rparr>)"
    "k_list k5 = (k_list k4)(FREE_LIST := [], LOCKED_LIST := k_list k4 LOCKED_LIST @ [v])" "kframe k4 k5"
    by auto
  have "k_list k5 USED_LIST = vs" by (simp add: k5(4) k4(6))
  then have "pick_of nv v k k5"
    using f st k5 k4(5) vn_invD(3) [OF inv] l(2) kframe_trans [OF k4(7) k5(5)] by (simp add: pick_of_def)
  moreover have "\<forall>u. u \<noteq> v \<longrightarrow> k_vn k4 u = k_vn k u" unfolding k4(5) by simp
  ultimately show ?thesis using k4(1-4) k5(1) by blast
qed

lemma load_pick_absent:
  assumes inv: "vn_inv nv k" and E: "release_total E" and a: "\<And>u. u \<in> in_core nv k \<Longrightarrow> \<not> is_vn n i (k_vn k u)"
    and some: "k_list k FREE_LIST \<noteq> [] \<or> k_list k USED_LIST \<noteq> []"
  shows "\<exists>v k'. load_pick E n i r k = Some (v, k') \<and> pick_of nv v k k'"
proof -
  have none: "lookup_vnode n i k = Some None" by (rule lookup_absent [OF vn_invD(1) [OF inv] a])
  show ?thesis
  proof (cases "k_list k FREE_LIST")
    case (Cons v vs)
    with pick_free [OF inv Cons] none show ?thesis by (subst load_pick.simps) auto
  next
    case Nil
    with some obtain v vs where u: "k_list k USED_LIST = v # vs" by (cases "k_list k USED_LIST") auto
    have f: "steal_vnode FREE_LIST k = (None, k)" using Nil by (simp add: steal_vnode_def)
    obtain k1 k3 k4 k5 where p: "steal_vnode USED_LIST k = (Some v, k1)" "flush_vnode E v r k1 = Some k3"
      "k4 = move_vnode v FREE_LIST k3" "vcore nv (in_core nv k - {v}) k4" "\<forall>u. u \<noteq> v \<longrightarrow> k_vn k4 u = k_vn k u"
      "steal_vnode FREE_LIST k4 = (Some v, k5)" "pick_of nv v k k5"
      using pick_used [OF inv Nil u E] by blast
    have "lookup_vnode n i k4 = Some None" by (rule lookup_absent [OF p(4)]) (use a p(5) in auto)
    then have "load_pick E n i r k4 = Some (v, k5)" using p(6) by (subst load_pick.simps) simp
    with p none f show ?thesis by (subst load_pick.simps) simp
  qed
qed

section \<open>The result of loading\<close>

definition load_of :: "nat \<Rightarrow> vaddr \<Rightarrow> nspace_id \<Rightarrow> vnode_id \<Rightarrow> 'w kernel \<Rightarrow> 'w kernel \<Rightarrow> bool" where
  "load_of nv v n i k k' \<longleftrightarrow> v < nv \<and> vcore nv (insert v (in_core nv k)) k' \<and>
     (\<forall>u. u \<noteq> v \<longrightarrow> k_vn k' u = k_vn k u) \<and> is_vn n i (k_vn k' v) \<and>
     vn_rcnt (k_vn k' v) = vn_refs k n i + 1 \<and> vn_inlist (k_vn k' v) = LOCKED_LIST \<and> \<not> vn_busy (k_vn k' v) \<and>
     (is_vn n i (k_vn k v) \<or> vn_rcnt (k_vn k v) = 0) \<and>
     (is_vn n i (k_vn k v) \<longrightarrow> vn_mounted (k_vn k' v) = vn_mounted (k_vn k v) \<and> vn_data (k_vn k' v) = vn_data (k_vn k v) \<and>
        vn_remove (k_vn k' v) = vn_remove (k_vn k v)) \<and>
     (\<not> is_vn n i (k_vn k v) \<longrightarrow> \<not> vn_remove (k_vn k' v)) \<and>
     (vn_mounted (k_vn k' v) = None \<or> vn_mounted (k_vn k' v) = vn_mounted (k_vn k v)) \<and>
     int (length (k_list k' USED_LIST)) \<le> k_usdvnnum k \<and> kframe k k'"

text \<open>After an error: the vnode taken is free again.\<close>

definition unload_of :: "nat \<Rightarrow> vaddr \<Rightarrow> 'w kernel \<Rightarrow> 'w kernel \<Rightarrow> bool" where
  "unload_of nv v k k' \<longleftrightarrow> v < nv \<and> vcore nv (in_core nv k - {v}) k' \<and> (\<forall>u. u \<noteq> v \<longrightarrow> k_vn k' u = k_vn k u) \<and>
     vn_rcnt (k_vn k v) = 0 \<and> vn_ns (k_vn k' v) = None \<and> vn_rcnt (k_vn k' v) = 0 \<and> \<not> vn_busy (k_vn k' v) \<and>
     \<not> vn_remove (k_vn k' v) \<and> vn_inlist (k_vn k' v) = FREE_LIST \<and>
     (vn_mounted (k_vn k' v) = None \<or> vn_mounted (k_vn k' v) = vn_mounted (k_vn k v)) \<and>
     int (length (k_list k' USED_LIST)) \<le> k_usdvnnum k \<and> kframe k k'"

lemma in_core_refs:
  assumes "vn_inv nv k"
  shows "0 \<le> vn_refs k n i"
proof (cases rule: lookup_cases [OF vn_invD(1) [OF assms], where n = n and i = i])
  case (1 v)
  have "vn_state (k_vn k v)" using vn_invD(2) [OF assms] 1(2) by (simp add: in_core_def)
  with 1(1) show ?thesis by (auto simp: vn_refs_def vn_state_def split: vlist.splits)
next
  case 2
  show ?thesis by (simp add: vn_refs_def 2(1))
qed

lemma load_of_inv:
  assumes inv: "vn_inv nv k" and d: "load_of nv v n i k k'"
  shows "vn_inv nv k'"
proof (rule vn_invI)
  show "vcore nv (insert v (in_core nv k)) k'" using d by (simp add: load_of_def)
  have "u \<in> insert v (in_core nv k) \<longleftrightarrow> u \<in> in_core nv k'" for u
    using d by (cases "u = v") (simp_all add: in_core_def load_of_def is_vn_def)
  then show "insert v (in_core nv k) = in_core nv k'" by blast
  show "vn_state (k_vn k' u)" if "u < nv" for u
    using vn_invD(2) [OF inv that] d in_core_refs [OF inv, of n i]
    by (cases "u = v") (auto simp: load_of_def vn_state_def is_vn_def)
  show "int (length (k_list k' USED_LIST)) \<le> k_usdvnnum k'" using d by (simp add: load_of_def kframe_def)
qed

lemma unload_of_inv:
  assumes inv: "vn_inv nv k" and d: "unload_of nv v k k'"
  shows "vn_inv nv k'"
proof (rule vn_invI)
  show "vcore nv (in_core nv k - {v}) k'" using d by (simp add: unload_of_def)
  have "u \<in> in_core nv k - {v} \<longleftrightarrow> u \<in> in_core nv k'" for u
    using d by (cases "u = v") (simp_all add: in_core_def unload_of_def)
  then show "in_core nv k - {v} = in_core nv k'" by blast
  show "vn_state (k_vn k' u)" if "u < nv" for u
    using vn_invD(2) [OF inv that] d by (cases "u = v") (auto simp: unload_of_def vn_state_def)
  show "int (length (k_list k' USED_LIST)) \<le> k_usdvnnum k'" using d by (simp add: unload_of_def kframe_def)
qed

lemma unload_of_refs:
  assumes inv: "vn_inv nv k" and d: "unload_of nv v k k'"
  shows "vn_refs k' m j = vn_refs k m j"
proof (rule vn_refs_same [OF vn_invD(1) [OF inv]])
  show "vcore nv (in_core nv k - {v}) k'" using d by (simp add: unload_of_def)
next
  fix u assume "u \<in> in_core nv k" "is_vn m j (k_vn k u)"
  then show "u \<in> in_core nv k - {v} \<and> is_vn m j (k_vn k' u) \<and> vn_rcnt (k_vn k' u) = vn_rcnt (k_vn k u) \<or>
      vn_rcnt (k_vn k u) = 0 \<and> u \<notin> in_core nv k - {v}"
    using d by (cases "u = v") (auto simp: unload_of_def)
next
  fix u assume "u \<in> in_core nv k - {v}" "is_vn m j (k_vn k' u)"
  then show "u \<in> in_core nv k \<and> is_vn m j (k_vn k u)" using d by (auto simp: unload_of_def)
qed

lemma load_of_refs:
  assumes inv: "vn_inv nv k" and d: "load_of nv v n i k k'"
  shows "vn_refs k' m j = (if m = n \<and> j = i then vn_refs k m j + 1 else vn_refs k m j)"
proof -
  have c': "vcore nv (insert v (in_core nv k)) k'" and o: "\<And>u. u \<noteq> v \<Longrightarrow> k_vn k' u = k_vn k u"
    and i: "is_vn n i (k_vn k' v)" and r: "vn_rcnt (k_vn k' v) = vn_refs k n i + 1"
    and old: "is_vn n i (k_vn k v) \<or> vn_rcnt (k_vn k v) = 0"
    using d by (auto simp: load_of_def)
  show ?thesis
  proof (cases "m = n \<and> j = i")
    case True
    with vn_refs_found [OF c' _ i] r show ?thesis by simp
  next
    case False
    have not: "\<not> is_vn m j (k_vn k' v)" using i False by (auto simp: is_vn_def)
    have "vn_refs k' m j = vn_refs k m j"
    proof (rule lookup_cases [OF vn_invD(1) [OF inv], of m j])
      fix u assume u: "u \<in> in_core nv k" "is_vn m j (k_vn k u)"
        and un: "\<And>w. w \<in> in_core nv k \<Longrightarrow> is_vn m j (k_vn k w) \<Longrightarrow> w = u"
      note f = vn_refs_found [OF vn_invD(1) [OF inv] u]
      show ?thesis
      proof (cases "u = v")
        case True
        then have "vn_rcnt (k_vn k v) = 0" using old u(2) False by (auto simp: is_vn_def)
        moreover have "vn_refs k' m j = 0"
        proof (rule vn_refs_absent [OF c'])
          show "\<not> is_vn m j (k_vn k' w)" if "w \<in> insert v (in_core nv k)" for w
            using that not un [of w] True o [of w] by (cases "w = v") auto
        qed
        ultimately show ?thesis using f True by simp
      next
        case F: False
        with vn_refs_found [OF c', of u m j] u o f show ?thesis by simp
      qed
    next
      assume a: "\<And>u. u \<in> in_core nv k \<Longrightarrow> \<not> is_vn m j (k_vn k u)"
      have "vn_refs k' m j = 0"
      proof (rule vn_refs_absent [OF c'])
        show "\<not> is_vn m j (k_vn k' w)" if "w \<in> insert v (in_core nv k)" for w
          using that not a [of w] o [of w] by (cases "w = v") auto
      qed
      with vn_refs_absent [OF vn_invD(1) [OF inv], of m j] a show ?thesis by simp
    qed
    with False show ?thesis by auto
  qed
qed

section \<open>Loading\<close>

lemma nsidtons_Some:
  assumes "nsidtons n k = Some m"
  shows "m = n" "k_ns k n \<noteq> None"
  using assms by (auto simp: nsidtons_def split: option.splits if_splits)

lemma load_found:
  assumes inv: "vn_inv nv k" and v: "v \<in> in_core nv k" "is_vn n i (k_vn k v)"
  shows "\<exists>k'. load_vnode E n i r k = Some (0, v, k') \<and> load_of nv v n i k k' \<and> k_world k' = k_world k"
proof -
  let ?k1 = "inc_vnode v k"
  have nv: "v < nv" "vn_ns (k_vn k v) = Some n" "vn_ns (k_vn k v) \<noteq> None"
    using v by (auto simp: in_core_def is_vn_def)
  have c1: "vcore nv (in_core nv k) ?k1" unfolding inc_vnode_def by (intro vcore_upd vn_invD(1) [OF inv]) simp_all
  have refs: "vn_refs k n i = vn_rcnt (k_vn k v)" by (rule vn_refs_found [OF vn_invD(1) [OF inv] v])
  have st: "\<not> vn_busy (k_vn k v)" "vn_rcnt (k_vn k v) = 0 \<and> vn_inlist (k_vn k v) = USED_LIST \<or>
      0 < vn_rcnt (k_vn k v) \<and> vn_inlist (k_vn k v) = LOCKED_LIST"
    using vn_invD(2) [OF inv nv(1)] nv(2) by (auto simp: vn_state_def split: vlist.splits)
  define k' where "k' = (if vn_rcnt (k_vn ?k1 v) = 1 then move_vnode v LOCKED_LIST ?k1 else ?k1)"
  have "load_vnode E n i r k = Some (0, v, k')"
    using load_pick_found [OF inv v, of E r] nv(2) by (simp add: load_vnode_def k'_def Let_def)
  moreover have "load_of nv v n i k k'"
  proof -
    have "vcore nv (in_core nv k) k'" unfolding k'_def using c1 vcore_move [OF c1 nv(1)] by simp
    moreover have "insert v (in_core nv k) = in_core nv k" using v(1) by blast
    moreover have "length (k_list k' USED_LIST) \<le> length (k_list k USED_LIST)"
      by (simp add: k'_def move_vnode_list [OF vcoreD(1) [OF c1] nv(1)] length_remove1) (simp add: inc_vnode_def)
    moreover have "kframe k k'"
      unfolding k'_def inc_vnode_def using kframe_trans [OF kframe_upd(1) move_vnode_fields(9)] by auto
    ultimately show ?thesis
      using nv v(2) refs st vn_invD(3) [OF inv] by (auto simp: load_of_def k'_def inc_vnode_def is_vn_def)
  qed
  moreover have "k_world k' = k_world k" by (simp add: k'_def inc_vnode_def)
  ultimately show ?thesis by blast
qed

text \<open>The vnode taken gets its identity and goes into the index.\<close>

lemma enter_core:
  assumes inv: "vn_inv nv k" and p: "pick_of nv v k k1" and n: "k_ns k n \<noteq> None"
    and a: "\<And>u. u \<in> in_core nv k \<Longrightarrow> \<not> is_vn n i (k_vn k u)"
    and f: "is_vn n i (f (k_vn k1 v))" "vn_inlist (f (k_vn k1 v)) = LOCKED_LIST"
  shows "\<exists>k2. sort_vnode v (upd_vn v f k1) = Some (0, k2) \<and> vcore nv (insert v (in_core nv k)) k2 \<and>
    k_vn k2 = (k_vn k1)(v := f (k_vn k1 v)) \<and> k_list k2 = k_list k1 \<and> kframe k k2"
proof -
  let ?k = "upd_vn v f k1" and ?S = "in_core nv k - {v}"
  have v: "v < nv" and c: "vcore nv ?S k1" and fr: "kframe k k1" and o: "\<And>u. u \<noteq> v \<Longrightarrow> k_vn k1 u = k_vn k u"
    and il: "vn_inlist (k_vn k1 v) = LOCKED_LIST"
    using p by (auto simp: pick_of_def)
  have c1: "vcore nv ?S ?k" by (intro vcore_upd c) (use f il in auto)
  have "\<exists>k2. sort_vnode v ?k = Some (0, k2) \<and> vcore nv (insert v ?S) k2 \<and> k_vn k2 = k_vn ?k \<and>
      k_list k2 = k_list ?k \<and> k_world k2 = k_world ?k \<and> kframe ?k k2"
  proof (rule sort_vnode_core [OF c1 v])
    show "vn_ns (k_vn ?k v) = Some n" using f by (simp add: is_vn_def)
    show "k_ns ?k n \<noteq> None" using n kframe_none [OF fr, of n] by simp
    show "vn_ns (k_vn ?k u) \<noteq> Some n \<or> vn_vnid (k_vn ?k u) \<noteq> vn_vnid (k_vn ?k v)" if "u \<in> ?S" for u
      using that a [of u] o [of u] f by (auto simp: is_vn_def)
  qed auto
  moreover have "insert v ?S = insert v (in_core nv k)" by auto
  moreover have "kframe k ?k" by (rule kframe_trans [OF fr kframe_upd(1)])
  ultimately show ?thesis using kframe_trans by fastforce
qed

lemma unload_back:
  assumes p: "pick_of nv v k k1" and c: "vcore nv (in_core nv k - {v}) k2" and f: "kframe k k2"
    and o: "\<And>u. u \<noteq> v \<Longrightarrow> k_vn k2 u = k_vn k u"
    and v: "vn_ns (k_vn k2 v) = None" "vn_rcnt (k_vn k2 v) = 0" "\<not> vn_busy (k_vn k2 v)" "\<not> vn_remove (k_vn k2 v)"
    and m: "vn_mounted (k_vn k2 v) = None \<or> vn_mounted (k_vn k2 v) = vn_mounted (k_vn k v)"
    and l: "length (k_list k2 USED_LIST) \<le> length (k_list k1 USED_LIST)"
  shows "unload_of nv v k (move_vnode v FREE_LIST k2)"
proof -
  have nv: "v < nv" "int (length (k_list k1 USED_LIST)) \<le> k_usdvnnum k" "vn_rcnt (k_vn k v) = 0"
    using p by (auto simp: pick_of_def)
  have "length (k_list (move_vnode v FREE_LIST k2) USED_LIST) \<le> length (k_list k1 USED_LIST)"
    using l by (simp add: move_vnode_list [OF vcoreD(1) [OF c] nv(1)] length_remove1) linarith
  with nv v o m vcore_move [OF c nv(1)] kframe_trans [OF f move_vnode_fields(9)] show ?thesis
    by (simp add: unload_of_def)
qed

lemma upd_ns_world: "upd_ns n f k = Some k' \<Longrightarrow> k_world k' = k_world k"
  by (cases "k_ns k n") (auto simp: upd_ns_def)

lemma sort_vnode_world:
  assumes "sort_vnode v k = Some (err, k')"
  shows "k_world k' = k_world k"
proof -
  obtain it where it: "item_of k v = Some it" using assms by (cases "item_of k v") (simp_all add: sort_vnode_def)
  have "InsertSL compare_vnode (k_rand k) (if k_mem k then Some (k_slnext k) else None) it (k_index k) \<noteq> None"
    using assms it by (intro notI) (simp add: sort_vnode_def)
  then obtain r s where
    r: "InsertSL compare_vnode (k_rand k) (if k_mem k then Some (k_slnext k) else None) it (k_index k) = Some (r, s)" by auto
  let ?k1 = "k\<lparr>k_index := s, k_rand := (if r = DUPLICATE_ITEM then k_rand k else rand_rest (k_rand k)),
                k_slnext := (if r = 1 then Suc (k_slnext k) else k_slnext k)\<rparr>"
  have "(if r = 0 then Some (ENOMEM, ?k1)
     else do { k2 \<leftarrow> upd_ns (it_nsid it) (ns_vnodes_update (\<lambda>vs. v # vs)) ?k1; Some (0, k2) }) = Some (err, k')"
    using assms it r by (simp add: sort_vnode_def Let_def)
  then have "k' = ?k1 \<or> upd_ns (it_nsid it) (ns_vnodes_update (\<lambda>vs. v # vs)) ?k1 = Some k'"
    by (cases "upd_ns (it_nsid it) (ns_vnodes_update (\<lambda>vs. v # vs)) ?k1") (auto split: if_splits)
  then show ?thesis using upd_ns_world [of "it_nsid it" "ns_vnodes_update (\<lambda>vs. v # vs)" ?k1 k'] by auto
qed

text \<open>What was read, when the vnode was not in core: the state of the file systems comes from the call of \<open>read_vnode\<close>,
  and so does the data of the vnode.\<close>

definition read_by :: "'w vnenv \<Rightarrow> nspace_id \<Rightarrow> vnode_id \<Rightarrow> bool \<Rightarrow> errno \<Rightarrow> vaddr \<Rightarrow> 'w kernel \<Rightarrow> 'w kernel \<Rightarrow> bool" where
  "read_by E n i r err v k k' \<longleftrightarrow> (\<exists>k1. load_pick E n i r k = Some (v, k1) \<and>
     (err \<noteq> 0 \<and> k_world k' = k_world k1 \<or>
      (\<exists>sp fs d. k_ns k n = Some sp \<and> k_fs k (ns_fs sp) = Some fs \<and>
         op_read_vnode (E (fs_ops fs)) (ns_data sp) i r (k_world k1) = Some (err, d, k_world k') \<and>
         (err = 0 \<longrightarrow> vn_data (k_vn k' v) = d))))"

lemma load_absent:
  assumes inv: "vn_inv nv k" and E: "release_total E" and a: "\<And>u. u \<in> in_core nv k \<Longrightarrow> \<not> is_vn n i (k_vn k u)"
    and some: "k_list k FREE_LIST \<noteq> [] \<or> k_list k USED_LIST \<noteq> []"
    and R: "\<And>v k1. load_pick E n i r k = Some (v, k1) \<Longrightarrow> reads E n i r (k_world k1) k"
  shows "\<exists>err v k'. load_vnode E n i r k = Some (err, v, k') \<and>
    (if err = 0 then load_of nv v n i k k' else unload_of nv v k k') \<and> read_by E n i r err v k k'"
proof -
  obtain v k1 where pk: "load_pick E n i r k = Some (v, k1)" and p: "pick_of nv v k k1"
    using load_pick_absent [OF inv E a some] by blast
  have v: "v < nv" and c: "vcore nv (in_core nv k - {v}) k1" and fr: "kframe k k1"
    and o: "\<And>u. u \<noteq> v \<Longrightarrow> k_vn k1 u = k_vn k u"
    and pv: "vn_ns (k_vn k1 v) = None" "vn_rcnt (k_vn k1 v) = 0" "\<not> vn_busy (k_vn k1 v)" "\<not> vn_remove (k_vn k1 v)"
      "vn_inlist (k_vn k1 v) = LOCKED_LIST" "vn_rcnt (k_vn k v) = 0"
      "int (length (k_list k1 USED_LIST)) \<le> k_usdvnnum k"
      "vn_mounted (k_vn k1 v) = None \<or> vn_mounted (k_vn k1 v) = vn_mounted (k_vn k v)"
    using p by (auto simp: pick_of_def)
  have nv: "\<not> is_vn n i (k_vn k v)" using a [of v] v by (auto simp: in_core_def is_vn_def)
  show ?thesis
  proof (cases "nsidtons n k1")
    case None
    have "load_vnode E n i r k = Some (ENOENT, v, move_vnode v FREE_LIST k1)"
      using pk pv(1) None by (simp add: load_vnode_def)
    moreover have "unload_of nv v k (move_vnode v FREE_LIST k1)"
      by (rule unload_back [OF p c fr o]) (use pv in auto)
    ultimately show ?thesis using pk by (intro exI conjI) (auto simp: read_by_def)
  next
    case (Some m)
    then have m: "m = n" "k_ns k n \<noteq> None"
      using nsidtons_Some [OF Some] kframe_none [OF fr] by auto
    let ?f = "\<lambda>x. x\<lparr>vn_ns := Some n, vn_vnid := i, vn_busy := True\<rparr>"
    obtain k2 where k2: "sort_vnode v (upd_vn v ?f k1) = Some (0, k2)" "vcore nv (insert v (in_core nv k)) k2"
      "k_vn k2 = (k_vn k1)(v := ?f (k_vn k1 v))" "k_list k2 = k_list k1" "kframe k k2"
      using enter_core [OF inv p m(2) a, of ?f] pv(5) by (auto simp: is_vn_def)
    let ?k3 = "move_vnode v LOCKED_LIST k2"
    have c3: "vcore nv (insert v (in_core nv k)) ?k3" by (rule vcore_move [OF k2(2) v])
    obtain sp where sp: "vn_ns (k_vn ?k3 v) = Some n" "k_ns ?k3 n = Some sp" "k_fs ?k3 (ns_fs sp) \<noteq> None"
      by (rule vcore_space [OF c3, of v]) (auto simp: k2(3))
    then obtain fs where fs: "k_fs ?k3 (ns_fs sp) = Some fs" by auto
    have w3: "k_world ?k3 = k_world k1" using sort_vnode_world [OF k2(1)] by simp
    obtain sp0 where sp0: "k_ns k n = Some sp0" using m(2) by auto
    obtain vs where "k_ns ?k3 n = Some (sp0\<lparr>ns_vnodes := vs\<rparr>)"
      by (rule kframe_ns [OF kframe_trans [OF k2(5) move_vnode_fields(9)] sp0])
    with sp(2) have sp': "ns_fs sp0 = ns_fs sp" "ns_data sp0 = ns_data sp" by auto
    have fs': "k_fs k (ns_fs sp0) = Some fs" using fs sp'(1) k2(5) by (simp add: kframe_def)
    have "op_read_vnode (E (fs_ops fs)) (ns_data sp) i r (k_world ?k3) \<noteq> None"
      using R [OF pk, unfolded reads_def, rule_format, OF sp0 fs'] sp'(2) w3 by simp
    then obtain err d w where w: "op_read_vnode (E (fs_ops fs)) (ns_data sp) i r (k_world ?k3) = Some (err, d, w)" by auto
    have rd: "k_ns k n = Some sp0" "k_fs k (ns_fs sp0) = Some fs"
      "op_read_vnode (E (fs_ops fs)) (ns_data sp0) i r (k_world k1) = Some (err, d, w)"
      using sp0 fs' w [unfolded w3] sp'(2) by simp_all
    let ?k4 = "upd_vn v (\<lambda>x. x\<lparr>vn_data := d, vn_busy := False\<rparr>) (?k3\<lparr>k_world := w\<rparr>)"
    have c4: "vcore nv (insert v (in_core nv k)) ?k4" by (intro vcore_upd vcore_world c3) simp_all
    have f4: "kframe k ?k4"
      by (rule kframe_trans [OF kframe_trans [OF kframe_trans [OF k2(5) move_vnode_fields(9)] kframe_upd(2)] kframe_upd(1)])
    have l4: "length (k_list ?k4 USED_LIST) \<le> length (k_list k1 USED_LIST)"
      by (simp add: move_vnode_list [OF vcoreD(1) [OF k2(2)] v] k2(4) length_remove1)
    show ?thesis
    proof (cases "err = 0")
      case True
      let ?k' = "upd_vn v (vn_rcnt_update (\<lambda>_. 1)) ?k4"
      have "load_vnode E n i r k = Some (0, v, ?k')"
        using pk pv(1) Some m k2(1) sp fs w True by (simp add: load_vnode_def ops_of_def ns_of_def Let_def)
      moreover have "load_of nv v n i k ?k'"
      proof -
        have "vcore nv (insert v (in_core nv k)) ?k'" by (intro vcore_upd c4) simp_all
        moreover have "vn_refs k n i = 0" by (rule vn_refs_absent [OF vn_invD(1) [OF inv] a])
        moreover have "k_list ?k' = k_list ?k4" by simp
        ultimately show ?thesis
          using v o k2(3) l4 pv nv kframe_trans [OF f4 kframe_upd(1)] by (auto simp: load_of_def is_vn_def)
      qed
      moreover have "read_by E n i r 0 v k ?k'" using pk rd True by (auto simp: read_by_def)
      ultimately show ?thesis by (intro exI conjI) auto
    next
      case False
      obtain k5 where k5: "clear_vnode v ?k4 = Some k5" "vcore nv (insert v (in_core nv k) - {v}) k5"
        "k_vn k5 = (k_vn ?k4)(v := cleared (k_vn ?k4 v))" "k_list k5 = k_list ?k4" "kframe ?k4 k5"
        "k_world k5 = w"
        using clear_vnode_core [OF c4, of v] by auto
      have "load_vnode E n i r k = Some (err, v, move_vnode v FREE_LIST k5)"
        using pk pv(1) Some m k2(1) sp fs w False k5(1) by (simp add: load_vnode_def ops_of_def ns_of_def Let_def)
      moreover have "unload_of nv v k (move_vnode v FREE_LIST k5)"
      proof (rule unload_back [OF p])
        show "vcore nv (in_core nv k - {v}) k5" using k5(2) by simp
        show "kframe k k5" by (rule kframe_trans [OF f4 k5(5)])
        show "length (k_list k5 USED_LIST) \<le> length (k_list k1 USED_LIST)" using l4 k5(4) by simp
      qed (use k5(3) k2(3) o in \<open>auto simp: cleared_def\<close>)
      moreover have "read_by E n i r err v k (move_vnode v FREE_LIST k5)"
        using pk rd k5(6) False unfolding read_by_def by (intro exI [of _ k1]) auto
      ultimately show ?thesis using False by (intro exI conjI) auto
    qed
  qed
qed

lemma load_vnode_shape_at:
  assumes inv: "vn_inv nv k" and E: "release_total E"
    and some: "k_list k FREE_LIST \<noteq> [] \<or> k_list k USED_LIST \<noteq> []"
    and R: "\<And>v k1. load_pick E n i r k = Some (v, k1) \<Longrightarrow> reads E n i r (k_world k1) k"
  shows "\<exists>err v k'. load_vnode E n i r k = Some (err, v, k') \<and>
    (if err = 0 then load_of nv v n i k k' else unload_of nv v k k') \<and>
    (err = 0 \<and> v \<in> in_core nv k \<and> is_vn n i (k_vn k v) \<and> k_world k' = k_world k \<or> read_by E n i r err v k k')"
proof (cases "\<exists>u \<in> in_core nv k. is_vn n i (k_vn k u)")
  case True
  with load_found [OF inv] show ?thesis by force
next
  case False
  with load_absent [OF inv E _ some, of n i r] R show ?thesis by blast
qed

lemma load_vnode_shape:
  assumes inv: "vn_inv nv k" and E: "env_total E"
    and some: "k_list k FREE_LIST \<noteq> [] \<or> k_list k USED_LIST \<noteq> []"
  shows "\<exists>err v k'. load_vnode E n i r k = Some (err, v, k') \<and>
    (if err = 0 then load_of nv v n i k k' else unload_of nv v k k')"
  using load_vnode_shape_at [OF inv env_returns(1) [OF E] some env_returns(3) [OF E], of n i r] by blast

section \<open>A new vnode\<close>

lemma new_vnode_shape:
  assumes inv: "vn_inv nv k" and E: "release_total E" and a: "\<And>u. u \<in> in_core nv k \<Longrightarrow> \<not> is_vn n i (k_vn k u)"
    and some: "k_list k FREE_LIST \<noteq> [] \<or> k_list k USED_LIST \<noteq> []" and ns: "nsidtons n k \<noteq> None"
  shows "\<exists>v k'. new_vnode E n i d k = Some (0, k') \<and> load_of nv v n i k k' \<and> vn_data (k_vn k' v) = d"
proof -
  let ?get = "case steal_vnode FREE_LIST k of
         (Some v, k1) \<Rightarrow> Some (Some v, k1)
       | (None, k1) \<Rightarrow> (case steal_vnode USED_LIST k1 of
             (None, k2) \<Rightarrow> Some (None, k2)
           | (Some v, k2) \<Rightarrow> do { k3 \<leftarrow> flush_vnode E v True k2; Some (Some v, k3) })"
  obtain v k1 where get: "?get = Some (Some v, k1)" and p: "pick_of nv v k k1"
  proof (cases "k_list k FREE_LIST")
    case (Cons v vs)
    with pick_free [OF inv Cons] that show thesis by auto
  next
    case Nil
    with some obtain v vs where u: "k_list k USED_LIST = v # vs" by (cases "k_list k USED_LIST") auto
    have "v \<in> set (k_list k USED_LIST)" by (simp add: u)
    then have f: "v < nv" "vn_inlist (k_vn k v) = USED_LIST" using vn_inv_lists(1) [OF inv] by auto
    then have st: "vn_ns (k_vn k v) \<noteq> None" "vn_rcnt (k_vn k v) = 0"
      using vn_invD(2) [OF inv f(1)] by (auto simp: vn_state_def)
    obtain k1 where k1: "steal_vnode USED_LIST k = (Some v, k1)" "vcore nv (in_core nv k) k1"
      "k_vn k1 = (k_vn k)(v := (k_vn k v)\<lparr>vn_inlist := LOCKED_LIST\<rparr>)"
      "k_list k1 = (k_list k)(USED_LIST := vs, LOCKED_LIST := k_list k LOCKED_LIST @ [v])" "kframe k k1"
      using steal_head [OF vn_invD(1) [OF inv] u] by auto
    have vc: "v \<in> in_core nv k" using f st by (simp add: in_core_def)
    obtain k3 where k3: "flush_vnode E v True k1 = Some k3" "vcore nv (in_core nv k - {v}) k3"
      "k_vn k3 = (k_vn k1)(v := cleared (k_vn k1 v))" "k_list k3 = k_list k1" "kframe k1 k3"
      using flush_vnode_core [OF k1(2) vc E] by blast
    have "pick_of nv v k k3"
      using f st k1 k3 u vn_invD(3) [OF inv] kframe_trans [OF k1(5) k3(5)] by (simp add: pick_of_def)
    with k1(1) k3(1) Nil show thesis by (intro that) (simp_all add: steal_vnode_def)
  qed
  have fr: "kframe k k1" and pv: "v < nv" "\<And>u. u \<noteq> v \<Longrightarrow> k_vn k1 u = k_vn k u" "\<not> vn_busy (k_vn k1 v)"
    "\<not> vn_remove (k_vn k1 v)" "vn_inlist (k_vn k1 v) = LOCKED_LIST" "vn_rcnt (k_vn k v) = 0"
    "int (length (k_list k1 USED_LIST)) \<le> k_usdvnnum k"
    "vn_mounted (k_vn k1 v) = None \<or> vn_mounted (k_vn k1 v) = vn_mounted (k_vn k v)"
    using p by (auto simp: pick_of_def)
  have nv: "\<not> is_vn n i (k_vn k v)" using a [of v] pv(1) by (auto simp: in_core_def is_vn_def)
  have n: "nsidtons n k1 = Some n" "k_ns k n \<noteq> None"
    using ns nsidtons_frame [OF fr, of n] nsidtons_Some [of n k] by auto
  let ?f = "\<lambda>x. x\<lparr>vn_ns := Some n, vn_vnid := i, vn_data := d, vn_rcnt := 1\<rparr>"
  obtain k2 where k2: "sort_vnode v (upd_vn v ?f k1) = Some (0, k2)" "vcore nv (insert v (in_core nv k)) k2"
    "k_vn k2 = (k_vn k1)(v := ?f (k_vn k1 v))" "k_list k2 = k_list k1" "kframe k k2"
    using enter_core [OF inv p n(2) a, of ?f] pv(5) by (auto simp: is_vn_def)
  have "new_vnode E n i d k = Some (0, k2)"
    unfolding new_vnode_def get using n(1) k2(1) by simp
  moreover have "vn_refs k n i = 0" by (rule vn_refs_absent [OF vn_invD(1) [OF inv] a])
  then have "load_of nv v n i k k2" using pv nv k2 by (auto simp: load_of_def is_vn_def)
  ultimately show ?thesis using k2(3) by auto
qed

end
