(* ===== verification/Vnode_Props.thy ===== *)
theory Vnode_Props
  imports Vnode_Load
begin

text \<open>
  The properties of the skip list and of the vnode layer, with a small kernel of three vnodes, one mounted file system
  and at most one vnode in no use as the concrete state.
\<close>

section \<open>A concrete kernel\<close>

definition free_vn :: vnode where
  "free_vn = \<lparr>vn_vnid = invalid_vnid, vn_ns = None, vn_mounted = None, vn_remove = False, vn_busy = False,
     vn_inlist = FREE_LIST, vn_rcnt = 0, vn_data = 0\<rparr>"

definition demo_env :: "nat vnenv" where
  "demo_env t = \<lparr>op_read_vnode = (\<lambda>d i r w. Some (if i = 13 then ENOENT else 0, i * 10, w)),
     op_release_vnode = (\<lambda>d x r w. Some (0, Suc w)), op_remove_vnode = (\<lambda>d x r w. Some (0, Suc w))\<rparr>"

definition demo_index :: "SkipList \<times> vnitem slheap" where
  "demo_index = the (NewSL True True (Some 0) NO_DUPLICATES Map.empty)"

definition demo_fds :: fdarray where
  "demo_fds = \<lparr>fd_num = 2, fd_alloc = [0], fd_coes = [0], fd_fds = [None, None]\<rparr>"

definition demo_kernel :: "nat kernel" where
  "demo_kernel = \<lparr>k_vn = (\<lambda>_. free_vn), k_list = (\<lambda>l. if l = FREE_LIST then [0, 1, 2] else []),
     k_index = demo_index, k_rand = [], k_slnext = 1, k_mem = True, k_usdvnnum = 1,
     k_ns = [1 \<mapsto> \<lparr>ns_dev = 0, ns_ino = 0, ns_fs = 0, ns_vnodes = [], ns_data = 5, ns_root = None,
       ns_mount = None, ns_shutdown = False\<rparr>],
     k_nstab = [None, Some 1], k_nshead = [1], k_nxnsid = 2,
     k_fs = [0 \<mapsto> \<lparr>fs_fsid = 1, fs_fixed = True, fs_aid = - 1, fs_name = ''demo'', fs_rcnt = 1, fs_ops = ''demo''\<rparr>],
     k_fstab = [Some 0], k_nxfsid = 2, k_nxaddr = 1, k_rootvn = None, k_of = Map.empty, k_fds = demo_fds,
     k_iofds = None, k_cwd = None, k_world = 0\<rparr>"

lemma demo_index_new: "NewSL True True (Some 0) NO_DUPLICATES Map.empty = Some demo_index"
  by (simp add: demo_index_def NewSL_def)

lemma demo_env_total: "env_total demo_env"
  by (simp add: env_total_def release_total_def demo_env_def)

lemma demo_holds: "sl_holds compare_vnode demo_index []" "sl_nodes demo_index = {0}"
proof -
  show "sl_holds compare_vnode demo_index []" using NewSL_holds [OF demo_index_new] by blast
  have "snd demo_index = [0 \<mapsto> \<lparr>sl_key = None, forward = replicate MaxNumberOfLevels None\<rparr>]"
    by (simp add: demo_index_def NewSL_def)
  then show "sl_nodes demo_index = {0}" unfolding sl_nodes_def by (simp only: dom_fun_upd option.distinct if_False dom_empty)
qed

lemma sl_map_Nil: "sl_map rank [] = Map.empty"
  by (simp add: sl_map_def fun_eq_iff)

lemma demo_vn_inv: "vn_inv 3 demo_kernel"
proof (rule vn_invI)
  have f: "k_index demo_kernel = demo_index" "k_slnext demo_kernel = 1" "k_mem demo_kernel"
    by (simp_all add: demo_kernel_def)
  have "index_is {} demo_kernel"
    unfolding index_is_def by (rule exI [of _ "[]"]) (simp add: f demo_holds sl_map_Nil)
  moreover have "lists_ok 3 demo_kernel"
  proof -
    have "v \<in> set [0, 1, 2 :: nat] \<longleftrightarrow> v < 3" for v by auto
    then show ?thesis by (auto simp: lists_ok_def demo_kernel_def free_vn_def)
  qed
  moreover have "spaces_ok {} demo_kernel" by (simp add: spaces_ok_def demo_kernel_def)
  ultimately show "vcore 3 {} demo_kernel" by (simp add: vcore_def f demo_holds(2))
  show "{} = in_core 3 demo_kernel" by (simp add: in_core_def demo_kernel_def free_vn_def)
qed (simp_all add: demo_kernel_def free_vn_def vn_state_def)

lemma demo_free: "k_list demo_kernel FREE_LIST \<noteq> [] \<or> k_list demo_kernel USED_LIST \<noteq> []"
  by (simp add: demo_kernel_def)

lemma demo_absent: "u \<in> in_core 3 demo_kernel \<Longrightarrow> \<not> is_vn n i (k_vn demo_kernel u)"
  by (simp add: in_core_def demo_kernel_def free_vn_def)

lemma demo_ns: "nsidtons 1 demo_kernel \<noteq> None"
  by (simp add: nsidtons_def demo_kernel_def)

text \<open>The same kernel with vnode 7 in use.\<close>

definition demo_kernel1 :: "nat kernel" where
  "demo_kernel1 = snd (the (new_vnode demo_env 1 7 70 demo_kernel))"

lemma demo1_inv: "vn_inv 3 demo_kernel1"
  using new_vnode_shape [OF demo_vn_inv env_returns(1) [OF demo_env_total] demo_absent demo_free demo_ns, of 7 70]
    load_of_inv [OF demo_vn_inv]
  by (auto simp: demo_kernel1_def)

lemma demo1_free: "k_list demo_kernel1 FREE_LIST \<noteq> [] \<or> k_list demo_kernel1 USED_LIST \<noteq> []"
  by code_simp

section \<open>The index\<close>

text \<open>Claim C29: the skip list ordered by \<open>compare_vnode\<close> implements a finite map.  In a skip list without
  duplicates, \<open>SearchSL\<close> always comes back with the item of the given vnode id and name space, or \<open>NULL\<close>; \<open>InsertSL\<close> of an absent
  key, with memory for the node, adds it and \<open>DeleteSL\<close> takes it out again, whatever levels the random
  numbers give.  Deleting an absent key returns 0 and inserting one that is there \<open>DUPLICATE_ITEM\<close>, and the list stays as it
  is.\<close>

theorem skiplist_is_map:
  assumes "sl_holds compare_vnode s ks" "sl_map vrank ks (vrank x) = None" "a \<notin> sl_nodes s"
  shows "\<exists>s1 ks1 s2 ks2.
    (\<forall>y. SearchSL compare_vnode y s = Some (sl_map vrank ks (vrank y))) \<and>
    InsertSL compare_vnode rs (Some a) x s = Some (1, s1) \<and> sl_holds compare_vnode s1 ks1 \<and>
    sl_map vrank ks1 = (sl_map vrank ks)(vrank x \<mapsto> x) \<and>
    (\<forall>y. SearchSL compare_vnode y s1 = Some (sl_map vrank ks1 (vrank y))) \<and>
    DeleteSL compare_vnode x s1 = Some (1, s2) \<and> sl_holds compare_vnode s2 ks2 \<and>
    sl_map vrank ks2 = sl_map vrank ks \<and>
    DeleteSL compare_vnode x s = Some (0, s) \<and> (\<forall>m. InsertSL compare_vnode rs m x s1 = Some (DUPLICATE_ITEM, s1))"
proof -
  obtain s1 ks1 where i: "InsertSL compare_vnode rs (Some a) x s = Some (1, s1)" "sl_holds compare_vnode s1 ks1"
    "sl_map vrank ks1 = (sl_map vrank ks)(vrank x \<mapsto> x)"
    using vi.insert_map [OF assms] by blast
  then have "sl_map vrank ks1 (vrank x) \<noteq> None" by simp
  then obtain s2 ks2 where d: "DeleteSL compare_vnode x s1 = Some (1, s2)" "sl_holds compare_vnode s2 ks2"
    "sl_map vrank ks2 = (sl_map vrank ks1)(vrank x := None)"
    using vi.delete_map [OF i(2)] by blast
  have "sl_map vrank ks2 = sl_map vrank ks" using d(3) i(3) assms(2) by auto
  moreover have "\<forall>m. InsertSL compare_vnode rs m x s1 = Some (DUPLICATE_ITEM, s1)"
    using vi.insert_map_dup [OF i(2)] i(3) by simp
  ultimately show ?thesis
    using i d vi.search_map [OF assms(1)] vi.search_map [OF i(2)] vi.delete_map_none [OF assms(1,2)] by blast
qed

theorem skiplist_is_map_witness:
  "\<exists>s1. InsertSL compare_vnode [0, 0] (Some 1) \<lparr>it_vnid = 7, it_nsid = 1, it_vn = 2\<rparr> demo_index = Some (1, s1) \<and>
     SearchSL compare_vnode \<lparr>it_vnid = 7, it_nsid = 1, it_vn = 0\<rparr> s1 =
       Some (Some \<lparr>it_vnid = 7, it_nsid = 1, it_vn = 2\<rparr>)"
  using skiplist_is_map [OF demo_holds(1), of "\<lparr>it_vnid = 7, it_nsid = 1, it_vn = 2\<rparr>" 1 "[0, 0]"] demo_holds(2)
  by (fastforce simp: sl_map_Nil vrank_def)

section \<open>References\<close>

text \<open>Claim C30: \<open>load_vnode\<close> adds exactly one reference to the vnode it is asked for and to no other,
  and keeps the invariant of the vnode layer; when it returns an error no count has changed.  It comes
  back whenever there is a vnode that is free or in no use, which it recycles, provided that the file systems release every
  vnode and the one of the name space comes back from reading this vnode (an error is allowed).\<close>

theorem load_vnode_counts:
  assumes "vn_inv nv k" "release_total E" "\<forall>v k1. load_pick E n i r k = Some (v, k1) \<longrightarrow> reads E n i r (k_world k1) k"
    and "k_list k FREE_LIST \<noteq> [] \<or> k_list k USED_LIST \<noteq> []"
  shows "\<exists>err v k'. load_vnode E n i r k = Some (err, v, k') \<and> vn_inv nv k' \<and>
    (if err = 0
     then vn_ns (k_vn k' v) = Some n \<and> vn_vnid (k_vn k' v) = i \<and>
       (\<forall>m j. vn_refs k' m j = (if m = n \<and> j = i then vn_refs k m j + 1 else vn_refs k m j))
     else \<forall>m j. vn_refs k' m j = vn_refs k m j)"
proof -
  obtain err v k' where l: "load_vnode E n i r k = Some (err, v, k')"
    "if err = 0 then load_of nv v n i k k' else unload_of nv v k k'"
    using load_vnode_shape_at [OF assms(1,2,4), of n i r] assms(3) by blast
  show ?thesis
  proof (cases "err = 0")
    case True
    with l(2) have d: "load_of nv v n i k k'" by simp
    then have "vn_ns (k_vn k' v) = Some n" "vn_vnid (k_vn k' v) = i" by (auto simp: load_of_def is_vn_def)
    with l(1) load_of_inv [OF assms(1) d] load_of_refs [OF assms(1) d] True show ?thesis by auto
  next
    case False
    with l(2) have d: "unload_of nv v k k'" by simp
    with l(1) unload_of_inv [OF assms(1) d] unload_of_refs [OF assms(1) d] False show ?thesis by auto
  qed
qed

theorem load_vnode_counts_witness:
  "\<exists>v k'. load_vnode demo_env 1 7 True demo_kernel = Some (0, v, k') \<and> vn_inv 3 k' \<and> vn_refs k' 1 7 = 1"
proof -
  have "\<forall>v k1. load_pick demo_env 1 7 True demo_kernel = Some (v, k1) \<longrightarrow> reads demo_env 1 7 True (k_world k1) demo_kernel"
    by (simp add: env_returns(3) [OF demo_env_total])
  from load_vnode_counts [OF demo_vn_inv env_returns(1) [OF demo_env_total] this demo_free]
  obtain err v k' where l: "load_vnode demo_env 1 7 True demo_kernel = Some (err, v, k')" "vn_inv 3 k'"
    "err = 0 \<longrightarrow> vn_refs k' 1 7 = vn_refs demo_kernel 1 7 + 1" by (auto split: if_splits)
  have "map_option fst (load_vnode demo_env 1 7 True demo_kernel) = Some 0" "vn_refs demo_kernel 1 7 = 0" by code_simp+
  with l show ?thesis by auto
qed

text \<open>Claim C31: \<open>dec_vnode\<close> takes exactly one reference away from a vnode in use and from no other.  With
  the last reference a vnode that is marked so is given to the \<open>remove\<close> call of its file system and goes to the free list,
  and otherwise it stays in core; the number of vnodes in no use stays within its bound.  The file systems release every
  vnode, and the one of the name space comes back from removing this vnode.\<close>

theorem dec_vnode_counts:
  assumes "vn_inv nv k" "release_total E" "vn_rcnt (k_vn k v) = 1 \<longrightarrow> vn_remove (k_vn k v) \<longrightarrow> removes E v r k" "v < nv" "0 < vn_rcnt (k_vn k v)"
    and "vn_ns (k_vn k v) = Some n" "vn_vnid (k_vn k v) = i"
  shows "\<exists>k'. dec_vnode E v r k = Some k' \<and> vn_inv nv k' \<and> int (length (k_list k' USED_LIST)) \<le> k_usdvnnum k \<and>
    (\<forall>m j. vn_refs k' m j = (if m = n \<and> j = i then vn_refs k m j - 1 else vn_refs k m j)) \<and>
    (vn_rcnt (k_vn k v) = 1 \<and> vn_remove (k_vn k v) \<longrightarrow> vn_inlist (k_vn k' v) = FREE_LIST \<and>
       (\<exists>sp fs err. ns_of k v = Some sp \<and> k_fs k (ns_fs sp) = Some fs \<and>
          op_remove_vnode (E (fs_ops fs)) (ns_data sp) (vn_data (k_vn k v)) r (k_world k) = Some (err, k_world k')))"
proof -
  obtain k' R where d: "dec_vnode E v r k = Some k'" "dec_of nv v R k k'"
    using dec_vnode_shape_at [OF assms(1,4,5,2)] assms(3) by blast
  have i: "is_vn n i (k_vn k v)" using assms(6,7) by (simp add: is_vn_def)
  have "vn_inlist (k_vn k' v) = FREE_LIST \<and> (\<exists>sp fs err. ns_of k v = Some sp \<and> k_fs k (ns_fs sp) = Some fs \<and>
      op_remove_vnode (E (fs_ops fs)) (ns_data sp) (vn_data (k_vn k v)) r (k_world k) = Some (err, k_world k'))"
    if c: "vn_rcnt (k_vn k v) = 1" "vn_remove (k_vn k v)"
  proof -
    have "removes E v r k" using assms(3) c by blast
    from dec_vnode_remove [OF assms(1,4) c this] d(1) have "k_vn k' v = cleared ((k_vn k v)\<lparr>vn_inlist := FREE_LIST\<rparr>)"
      "\<exists>sp fs err. ns_of k v = Some sp \<and> k_fs k (ns_fs sp) = Some fs \<and>
        op_remove_vnode (E (fs_ops fs)) (ns_data sp) (vn_data (k_vn k v)) r (k_world k) = Some (err, k_world k')" by auto
    then show ?thesis by (simp add: cleared_def)
  qed
  moreover have "int (length (k_list k' USED_LIST)) \<le> k_usdvnnum k" using d(2) by (simp add: dec_of_def)
  ultimately show ?thesis
    using d(1) dec_of_inv [OF assms(1,4,5) d(2)] dec_of_refs [OF assms(1,4,5) d(2) i] by blast
qed

text \<open>The same kernel with the vnode marked for removal.\<close>

definition demo_marked :: "nat kernel" where
  "demo_marked = upd_vn 0 (\<lambda>n. n\<lparr>vn_remove := True\<rparr>) demo_kernel1"

lemma demo_marked_inv: "vn_inv 3 demo_marked"
proof -
  have i: "in_core 3 demo_marked = in_core 3 demo_kernel1" by (auto simp: in_core_def demo_marked_def)
  have "vcore 3 (in_core 3 demo_kernel1) demo_marked"
    unfolding demo_marked_def by (intro vcore_upd vn_invD(1) [OF demo1_inv]) simp_all
  moreover have "vn_state (k_vn demo_marked u)" if "u < 3" for u
  proof (cases "u = 0")
    case True
    have "vn_state (k_vn demo_marked 0)" by code_simp
    then show ?thesis using True by simp
  next
    case False
    then show ?thesis using vn_invD(2) [OF demo1_inv that] by (simp add: demo_marked_def)
  qed
  moreover have "int (length (k_list demo_marked USED_LIST)) \<le> k_usdvnnum demo_marked" by code_simp
  ultimately show ?thesis by (simp add: vn_inv_def i)
qed

theorem dec_vnode_counts_witness:
  "\<exists>k'. dec_vnode demo_env 0 False demo_marked = Some k' \<and> vn_refs demo_marked 1 7 = 1 \<and> vn_refs k' 1 7 = 0 \<and> vn_inv 3 k' \<and>
     vn_inlist (k_vn k' 0) = FREE_LIST"
proof -
  have r: "vn_rcnt (k_vn demo_marked 0) = 1 \<longrightarrow> vn_remove (k_vn demo_marked 0) \<longrightarrow> removes demo_env 0 False demo_marked"
    by (simp add: env_returns(2) [OF demo_env_total])
  have p: "0 < (3::nat)" "0 < vn_rcnt (k_vn demo_marked 0)" "vn_ns (k_vn demo_marked 0) = Some 1" "vn_vnid (k_vn demo_marked 0) = 7"
    by code_simp+
  have q: "vn_rcnt (k_vn demo_marked 0) = 1 \<and> vn_remove (k_vn demo_marked 0)" "vn_refs demo_marked 1 7 = 1" by code_simp+
  from dec_vnode_counts [OF demo_marked_inv env_returns(1) [OF demo_env_total] r p]
  obtain k' where d: "dec_vnode demo_env 0 False demo_marked = Some k'" "vn_inv 3 k'"
    "\<forall>m j. vn_refs k' m j = (if m = 1 \<and> j = 7 then vn_refs demo_marked m j - 1 else vn_refs demo_marked m j)"
    "vn_inlist (k_vn k' 0) = FREE_LIST" using q(1) by blast
  then have "vn_refs k' 1 7 = 0" using q(2) by simp
  with d q(2) show ?thesis by blast
qed

text \<open>A file system that gets a vnode and puts it back leaves all counts as they were.\<close>

theorem get_put_vnode:
  assumes "vn_inv nv k" "env_total E" "k_list k FREE_LIST \<noteq> [] \<or> k_list k USED_LIST \<noteq> []"
    and "get_vnode E n i k = Some (0, d, k1)"
  shows "\<exists>k2. put_vnode E n i k1 = Some (0, k2) \<and> vn_inv nv k2 \<and> vn_refs k2 = vn_refs k"
proof -
  obtain err v k' where l: "load_vnode E n i True k = Some (err, v, k')"
    "if err = 0 then load_of nv v n i k k' else unload_of nv v k k'"
    using load_vnode_shape [OF assms(1,2)] assms(3) by blast
  with assms(4) have e: "err = 0" "k' = k1" by (auto simp: get_vnode_def)
  with l(2) have o: "load_of nv v n i k k1" by simp
  note inv1 = load_of_inv [OF assms(1) o]
  have v: "v < nv" "is_vn n i (k_vn k1 v)" "0 < vn_rcnt (k_vn k1 v)" "v \<in> in_core nv k1"
    using o in_core_refs [OF assms(1), of n i] by (auto simp: load_of_def is_vn_def in_core_def)
  have look: "lookup_vnode n i k1 = Some (Some v)" by (rule lookup_found [OF vn_invD(1) [OF inv1] v(4,2)])
  obtain k2 R where d: "dec_vnode E v True k1 = Some k2" "dec_of nv v R k1 k2"
    using dec_vnode_shape [OF inv1 v(1,3) assms(2)] by blast
  have "vn_refs k2 m j = vn_refs k m j" for m j
    using dec_of_refs [OF inv1 v(1,3) d(2) v(2), of m j] load_of_refs [OF assms(1) o, of m j] by auto
  then show ?thesis
    using look d dec_of_inv [OF inv1 v(1,3) d(2)] by (auto simp: put_vnode_def fun_eq_iff)
qed

theorem get_put_vnode_witness:
  "\<exists>d k1 k2. get_vnode demo_env 1 7 demo_kernel1 = Some (0, d, k1) \<and> vn_refs k1 1 7 = 2 \<and>
     put_vnode demo_env 1 7 k1 = Some (0, k2) \<and> vn_refs k2 1 7 = 1"
proof -
  have "case get_vnode demo_env 1 7 demo_kernel1 of Some (e, d, k1) \<Rightarrow> e = 0 \<and> vn_refs k1 1 7 = 2 | None \<Rightarrow> False"
    by code_simp
  then obtain d k1 where g: "get_vnode demo_env 1 7 demo_kernel1 = Some (0, d, k1)" "vn_refs k1 1 7 = 2"
    by (auto split: option.splits)
  have "vn_refs demo_kernel1 1 7 = 1" by code_simp
  with g get_put_vnode [OF demo1_inv demo_env_total demo1_free g(1)] show ?thesis by auto
qed

text \<open>A new vnode of a mounted name space, under an id not in core, starts with one
  reference and the data it was given, and no other count changes.\<close>

theorem new_vnode_counts:
  assumes "vn_inv nv k" "env_total E" "k_list k FREE_LIST \<noteq> [] \<or> k_list k USED_LIST \<noteq> []"
    and "lookup_vnode n i k = Some None" "nsidtons n k \<noteq> None"
  shows "\<exists>k'. new_vnode E n i d k = Some (0, k') \<and> vn_inv nv k' \<and>
    vn_refs k' = (\<lambda>m j. if m = n \<and> j = i then 1 else vn_refs k m j) \<and>
    (\<exists>v. lookup_vnode n i k' = Some (Some v) \<and> vn_data (k_vn k' v) = d)"
proof -
  have a: "\<not> is_vn n i (k_vn k u)" if "u \<in> in_core nv k" for u
    using lookup_found [OF vn_invD(1) [OF assms(1)] that, of n i] assms(4) by auto
  obtain v k' where n: "new_vnode E n i d k = Some (0, k')" "load_of nv v n i k k'" "vn_data (k_vn k' v) = d"
    using new_vnode_shape [OF assms(1) env_returns(1) [OF assms(2)] a assms(3,5), of d] by blast
  note inv' = load_of_inv [OF assms(1) n(2)]
  have v: "v \<in> in_core nv k'" "is_vn n i (k_vn k' v)" using n(2) by (auto simp: load_of_def in_core_def is_vn_def)
  have "lookup_vnode n i k' = Some (Some v)" by (rule lookup_found [OF vn_invD(1) [OF inv'] v])
  moreover have "vn_refs k n i = 0" by (simp add: vn_refs_def assms(4))
  then have "vn_refs k' = (\<lambda>m j. if m = n \<and> j = i then 1 else vn_refs k m j)"
    using load_of_refs [OF assms(1) n(2)] by (auto simp: fun_eq_iff)
  ultimately show ?thesis using n inv' by blast
qed

theorem new_vnode_counts_witness:
  "\<exists>k'. new_vnode demo_env 1 7 70 demo_kernel = Some (0, k') \<and> vn_refs k' 1 7 = 1"
proof -
  have "lookup_vnode 1 7 demo_kernel = Some None" by code_simp
  from new_vnode_counts [OF demo_vn_inv demo_env_total demo_free this demo_ns, of 70] show ?thesis by auto
qed

section \<open>Errors\<close>

lemma item_of_index: "item_of (k\<lparr>k_index := a, k_rand := b, k_slnext := c\<rparr>) v = item_of k v"
  by (simp add: item_of_def)

text \<open>\<open>new_vnode\<close> on a name space that is not mounted returns \<open>ENOENT\<close> and loses the vnode it had
  taken from the free list: it stays on the list of the vnodes in use without a reference, a name or an index entry, so that
  no call can ever reach it again.\<close>

theorem new_vnode_leaks:
  assumes "vn_inv nv k" "nsidtons n k = None" "k_list k FREE_LIST = v # vs"
  shows "\<exists>k'. new_vnode E n i d k = Some (ENOENT, k') \<and> k_list k' FREE_LIST = vs \<and>
    v \<in> set (k_list k' LOCKED_LIST) \<and> vn_rcnt (k_vn k' v) = 0 \<and> vn_ns (k_vn k' v) = None \<and> \<not> vn_inv nv k'"
proof -
  obtain k1 where k1: "steal_vnode FREE_LIST k = (Some v, k1)" "v < nv"
    "k_vn k1 = (k_vn k)(v := (k_vn k v)\<lparr>vn_inlist := LOCKED_LIST\<rparr>)"
    "k_list k1 = (k_list k)(FREE_LIST := vs, LOCKED_LIST := k_list k LOCKED_LIST @ [v])" "kframe k k1"
    using steal_head [OF vn_invD(1) [OF assms(1)] assms(3)] by auto
  have "v \<in> set (k_list k FREE_LIST)" by (simp add: assms(3))
  then have "vn_rcnt (k_vn k v) = 0"
    using vn_inv_lists(1) [OF assms(1)] vn_invD(2) [OF assms(1), of v] by (auto simp: vn_state_def)
  let ?k' = "upd_vn v (vn_ns_update (\<lambda>_. None)) k1"
  have "new_vnode E n i d k = Some (ENOENT, ?k')"
    using k1(1) nsidtons_frame [OF k1(5), of n] assms(2) by (simp add: new_vnode_def)
  moreover have "vn_rcnt (k_vn ?k' v) = 0" "vn_ns (k_vn ?k' v) = None" "k_list ?k' FREE_LIST = vs"
    "v \<in> set (k_list ?k' LOCKED_LIST)"
    using k1 \<open>vn_rcnt (k_vn k v) = 0\<close> by simp_all
  moreover have "\<not> vn_inv nv ?k'"
  proof
    assume "vn_inv nv ?k'"
    from vn_invD(2) [OF this k1(2)] k1(3) show False by (simp add: vn_state_def)
  qed
  ultimately show ?thesis by blast
qed

theorem new_vnode_leaks_witness:
  "\<exists>k'. new_vnode demo_env 2 7 70 demo_kernel = Some (ENOENT, k') \<and> k_list k' FREE_LIST = [1, 2] \<and> \<not> vn_inv 3 k'"
proof -
  have "nsidtons 2 demo_kernel = None" "k_list demo_kernel FREE_LIST = 0 # [1, 2]"
    by code_simp+
  from new_vnode_leaks [OF demo_vn_inv this, of demo_env 7 70] show ?thesis by blast
qed

text \<open>When the index is out of memory, \<open>load_vnode\<close> on a vnode that is not in core returns \<open>ENOMEM\<close>, and its
  error path unlinks the vnode from the list of its name space, where it never was: all the
  vnodes of the name space fall off that list, while they stay in the index and in use.\<close>

theorem load_vnode_no_memory:
  assumes "sl_holds compare_vnode (k_index k) ks" "\<not> k_mem k" "lookup_vnode n i k = Some None"
    and "k_list k FREE_LIST = v # vs" "vn_ns (k_vn k v) = None" "nsidtons n k = Some n"
    and "k_ns k n = Some sp" "v \<notin> set (ns_vnodes sp)"
  shows "\<exists>k'. load_vnode E n i r k = Some (ENOMEM, v, k') \<and> k_ns k' n = Some (sp\<lparr>ns_vnodes := []\<rparr>) \<and>
    sl_holds compare_vnode (k_index k') ks \<and> (\<forall>u. u \<noteq> v \<longrightarrow> k_vn k' u = k_vn k u)"
proof -
  let ?it = "\<lparr>it_vnid = i, it_nsid = n, it_vn = v\<rparr>"
  let ?k1 = "upd_vn v (\<lambda>x. x\<lparr>vn_ns := Some n, vn_vnid := i, vn_busy := True\<rparr>) (move_vnode v LOCKED_LIST k)"
  have none: "sl_map vrank ks (vrank ?it) = None"
    using assms(3) vi.search_map [OF assms(1), of "\<lparr>it_vnid = i, it_nsid = n, it_vn = 0\<rparr>"]
    by (simp add: lookup_vnode_def vrank_def)
  obtain s' where s': "InsertSL compare_vnode (k_rand ?k1) None ?it (k_index k) = Some (0, s')"
    "sl_holds compare_vnode s' ks"
    using vi.insert_map_fail [OF assms(1) none, of "k_rand ?k1"] by blast
  have del: "DeleteSL compare_vnode ?it s' = Some (0, s')" by (rule vi.delete_map_none [OF s'(2) none])
  have it: "item_of ?k1 v = Some ?it" by (simp add: item_of_def)
  have sort: "sort_vnode v ?k1 = Some (ENOMEM, ?k1\<lparr>k_index := s', k_rand := rand_rest (k_rand ?k1),
      k_slnext := k_slnext ?k1\<rparr>)" (is "_ = Some (_, ?k2)")
    using it s'(1) assms(2) by (simp add: sort_vnode_def DUPLICATE_ITEM_def)
  have f: "nsidtons n (move_vnode v LOCKED_LIST k) = Some n"
    using nsidtons_frame [OF move_vnode_fields(9)] assms(6) by metis
  have pick: "load_pick E n i r k = Some (v, move_vnode v LOCKED_LIST k)"
    using assms(3,4) by (subst load_pick.simps) (simp add: steal_vnode_def)
  obtain k5 where "clear_vnode v ?k2 = Some k5" "k_index k5 = s'"
    "k_ns k5 = (k_ns k)(n \<mapsto> ns_vnodes_update (ns_unlink v) sp)" "\<forall>u. u \<noteq> v \<longrightarrow> k_vn k5 u = k_vn k u"
    using it del assms(7) by (simp add: clear_vnode_def upd_ns_def item_of_index)
  moreover have "ns_vnodes_update (ns_unlink v) sp = sp\<lparr>ns_vnodes := []\<rparr>"
    using assms(8) by (cases sp) (simp add: ns_unlink_def)
  ultimately show ?thesis
    using pick f sort assms(5) s'(2) by (simp add: load_vnode_def)
qed

text \<open>The kernel with vnode 7 in use, out of memory.\<close>

definition demo_poor :: "nat kernel" where
  "demo_poor = demo_kernel1\<lparr>k_mem := False\<rparr>"

theorem load_vnode_no_memory_witness:
  "\<exists>k' sp. load_vnode demo_env 1 8 True demo_poor = Some (ENOMEM, 1, k') \<and>
     k_ns demo_poor 1 = Some sp \<and> ns_vnodes sp = [0] \<and> k_ns k' 1 = Some (sp\<lparr>ns_vnodes := []\<rparr>)"
proof -
  obtain ks where ks: "sl_holds compare_vnode (k_index demo_poor) ks"
    using vcoreD(3) [OF vn_invD(1) [OF demo1_inv]] by (auto simp: index_is_def demo_poor_def)
  have "map_option ns_vnodes (k_ns demo_poor 1) = Some [0]" by code_simp
  then obtain sp where sp: "k_ns demo_poor 1 = Some sp" "ns_vnodes sp = [0]" by auto
  have "\<exists>k'. load_vnode demo_env 1 8 True demo_poor = Some (ENOMEM, 1, k') \<and>
      k_ns k' 1 = Some (sp\<lparr>ns_vnodes := []\<rparr>) \<and> sl_holds compare_vnode (k_index k') ks \<and>
      (\<forall>u. u \<noteq> 1 \<longrightarrow> k_vn k' u = k_vn demo_poor u)"
    by (rule load_vnode_no_memory [OF ks _ _ _ _ _ sp(1), of 8 1 "[2]"]) (code_simp | simp add: sp(2))+
  with sp show ?thesis by blast
qed

end
