(* ===== verification/Vnode_List.thy ===== *)
theory Vnode_List
  imports Cache_List Vnode_Props
begin

text \<open>
  The doubly linked lists of \<open>kernel.c\<close> with their pointers: \<open>move_vnode\<close>, and the list of the vnodes of a name
  space in \<open>clear_vnode\<close> and \<open>sort_vnode\<close>.  The pointers and the reading of two ends as a list are those
  of \<open>Cache_List\<close>; \<open>lru\<close> is \<open>head\<close>, \<open>mru\<close> is \<open>tail\<close>.  The operations are those of the interface \<open>lru_lists\<close>,
  and the model of the vnode layer works on the lists they stand for.
\<close>

section \<open>Pointers\<close>

text \<open>The two conditionals that unlink a vnode, in \<open>move_vnode\<close> and in \<open>clear_vnode\<close>.\<close>

definition vl_unlink :: "cache_ent_list \<Rightarrow> nat \<Rightarrow> links \<Rightarrow> cache_ent_list \<times> links" where
  "vl_unlink L v h =
     (let (L1, h1) = (case prv h v of
            Some p \<Rightarrow> (L, set_nxt p (nxt h v) h)
          | None \<Rightarrow> (L\<lparr>lru := nxt h v\<rparr>, h))
      in case nxt h1 v of
            Some n \<Rightarrow> (L1, set_prv n (prv h1 v) h1)
          | None \<Rightarrow> (L1\<lparr>mru := prv h1 v\<rparr>, h1))"

text \<open>\<open>clear_vnode\<close> then resets the pointers of the vnode.\<close>

definition vl_clear :: "cache_ent_list \<Rightarrow> nat \<Rightarrow> links \<Rightarrow> cache_ent_list \<times> links" where
  "vl_clear L v h = (let (L1, h1) = vl_unlink L v h in (L1, set_prv v None (set_nxt v None h1)))"

text \<open>The second half of \<open>move_vnode\<close>: at the tail.\<close>

definition vl_append :: "cache_ent_list \<Rightarrow> nat \<Rightarrow> links \<Rightarrow> cache_ent_list \<times> links" where
  "vl_append L v h =
     (let h1 = set_prv v (mru L) (set_nxt v None h);
          (L1, h2) = (case mru L of
            Some p \<Rightarrow> (L, set_nxt p (Some v) h1)
          | None \<Rightarrow> (L\<lparr>lru := Some v\<rparr>, h1))
      in (L1\<lparr>mru := Some v\<rparr>, h2))"

text \<open>\<open>sort_vnode\<close>: at the head.\<close>

definition vl_push :: "cache_ent_list \<Rightarrow> nat \<Rightarrow> links \<Rightarrow> cache_ent_list \<times> links" where
  "vl_push L v h =
     (let h1 = set_prv v None (set_nxt v (lru L) h);
          (L1, h2) = (case lru L of
            Some p \<Rightarrow> (L, set_prv p (Some v) h1)
          | None \<Rightarrow> (L\<lparr>mru := Some v\<rparr>, h1))
      in (L1\<lparr>lru := Some v\<rparr>, h2))"

record vnlists =
  vl_links :: links
  vl_inlist :: "nat \<Rightarrow> vlist"
  vl_ends :: "vlist \<Rightarrow> cache_ent_list"
  vl_num :: "vlist \<Rightarrow> int"

definition move_vnode_links :: "nat \<Rightarrow> vlist \<Rightarrow> vnlists \<Rightarrow> vnlists" where
  "move_vnode_links v l s =
     (let from = vl_inlist s v;
          (L1, h1) = vl_unlink (vl_ends s from) v (vl_links s);
          s1 = s\<lparr>vl_links := h1, vl_ends := (vl_ends s)(from := L1),
                 vl_num := (vl_num s)(from := vl_num s from - 1), vl_inlist := (vl_inlist s)(v := l)\<rparr>;
          (L2, h2) = vl_append (vl_ends s1 l) v (vl_links s1)
      in s1\<lparr>vl_links := h2, vl_ends := (vl_ends s1)(l := L2), vl_num := (vl_num s1)(l := vl_num s1 l + 1)\<rparr>)"

section \<open>The operations on lists\<close>

lemma dlist_ends:
  assumes d: "dlist h L xs" and v: "v \<in> set xs"
  shows "prv h v \<noteq> Some v" "nxt h v \<noteq> Some v" "lru L = Some v \<longleftrightarrow> prv h v = None" "mru L = Some v \<longleftrightarrow> nxt h v = None"
proof -
  obtain ys zs where xs: "xs = ys @ v # zs" using split_list [OF v] by blast
  have dist: "v \<notin> set ys" "v \<notin> set zs" using d xs by (simp_all add: dlist_def)
  have p: "prv h v = last_of None ys" and n: "nxt h v = first_of zs None"
    and e: "lru L = first_of ys (Some v)" "mru L = last_of (Some v) zs"
    using d xs by (auto simp: dlist_def)
  show "prv h v \<noteq> Some v" "nxt h v \<noteq> Some v"
    using dist p n by (auto dest: last_of_mem first_of_mem)
  show "lru L = Some v \<longleftrightarrow> prv h v = None" using dist p e by (cases ys) (auto simp: last_of_def)
  show "mru L = Some v \<longleftrightarrow> nxt h v = None"
    using dist n e by (cases zs) (auto simp: last_of_def split: if_splits)
qed

lemma vl_clear_is_delete:
  assumes "dlist h L xs" "v \<in> set xs"
  shows "vl_clear L v h = delete_from_list L v h"
  using dlist_ends [OF assms] unfolding vl_clear_def vl_unlink_def delete_from_list_def
  by (cases "prv h v"; cases "nxt h v") (auto simp: set_nxt_def set_prv_def Let_def)

lemma vl_append_is_head:
  assumes "dlist h L xs" "detached h v"
  shows "add_to_head L v h = Some (vl_append L v h)"
proof -
  have "lru L = None \<longleftrightarrow> mru L = None" using assms(1) by (cases xs) (auto simp: dlist_def last_of_def)
  with assms(2) show ?thesis
    by (cases "mru L") (auto simp: add_to_head_def vl_append_def detached_def Let_def)
qed

lemma vl_push_is_tail:
  assumes "dlist h L xs" "detached h v"
  shows "add_to_tail L v h = Some (vl_push L v h)"
proof -
  have "lru L = None \<longleftrightarrow> mru L = None" using assms(1) by (cases xs) (auto simp: dlist_def last_of_def)
  with assms(2) show ?thesis
    by (cases "lru L") (auto simp: add_to_tail_def vl_push_def detached_def Let_def)
qed

text \<open>The pointers of the vnode do not matter to \<open>vl_append\<close>.\<close>

lemma vl_append_fresh: "vl_append L v (set_prv v None (set_nxt v None h)) = vl_append L v h"
  by (simp add: vl_append_def set_nxt_def set_prv_def)

interpretation vl: lru_lists dlist detached same_links vl_clear
  "\<lambda>L v h. if detached h v then Some (vl_append L v h) else None"
  "\<lambda>L v h. if detached h v then Some (vl_push L v h) else None"
proof unfold_locales
  show "dlist h l xs \<Longrightarrow> a \<in> set xs \<Longrightarrow> \<exists>l' h'. vl_clear l a h = (l', h') \<and>
      dlist h' l' (remove1 a xs) \<and> detached h' a \<and> same_links (set xs) h h'" for h l xs a
    using dl.del_law [of h l xs a] vl_clear_is_delete [of h l xs a] by simp
  show "dlist h l xs \<Longrightarrow> detached h a \<Longrightarrow> a \<notin> set xs \<Longrightarrow>
      \<exists>l' h'. (if detached h a then Some (vl_append l a h) else None) = Some (l', h') \<and>
      dlist h' l' (xs @ [a]) \<and> same_links (insert a (set xs)) h h'" for h l xs a
    using dl.head_law [of h l xs a] vl_append_is_head [of h l xs a] by simp
  show "dlist h l xs \<Longrightarrow> detached h a \<Longrightarrow> a \<notin> set xs \<Longrightarrow>
      \<exists>l' h'. (if detached h a then Some (vl_push l a h) else None) = Some (l', h') \<and>
      dlist h' l' (a # xs) \<and> same_links (insert a (set xs)) h h'" for h l xs a
    using dl.tail_law [of h l xs a] vl_push_is_tail [of h l xs a] by simp
qed (fact dl.frame dl.rep_distinct)+

text \<open>The unlinking in \<open>clear_vnode\<close> is \<open>ns_unlink\<close>, on a vnode of the list and on one in no list.\<close>

lemma ns_unlink_links:
  assumes "dlist h L xs" "v \<in> set xs \<or> detached h v"
  shows "dlist (snd (vl_clear L v h)) (fst (vl_clear L v h)) (ns_unlink v xs)"
proof (cases "v \<in> set xs")
  case True
  with vl.del_law [OF assms(1)] show ?thesis by (fastforce simp: ns_unlink_def)
next
  case False
  with assms(2) have "vl_clear L v h = (L\<lparr>lru := None, mru := None\<rparr>, set_prv v None (set_nxt v None h))"
    by (simp add: vl_clear_def vl_unlink_def detached_def)
  with False show ?thesis by (simp add: ns_unlink_def dlist_def)
qed

section \<open>All lists together\<close>

definition lists_rep :: "vnlists \<Rightarrow> (vlist \<Rightarrow> nat list) \<Rightarrow> bool" where
  "lists_rep s xs \<longleftrightarrow> (\<forall>l. dlist (vl_links s) (vl_ends s l) (xs l) \<and> vl_num s l = int (length (xs l))) \<and>
     (\<forall>l v. v \<in> set (xs l) \<longrightarrow> vl_inlist s v = l)"

text \<open>Claim C32: \<open>move_vnode\<close> on the pointers, the counts and the list numbers does what the model of the
  vnode layer does on lists: it takes the vnode out of the list it is on and puts it at the tail of
  the other.\<close>

theorem move_vnode_refines:
  assumes rep: "lists_rep s (k_list k)" and v: "v \<in> set (k_list k (vn_inlist (k_vn k v)))"
  shows "lists_rep (move_vnode_links v l s) (k_list (move_vnode v l k))"
proof -
  let ?f = "vn_inlist (k_vn k v)" and ?h = "vl_links s"
  have f: "vl_inlist s v = ?f" using rep v by (simp add: lists_rep_def)
  have D: "dlist ?h (vl_ends s m) (k_list k m)" and num: "vl_num s m = int (length (k_list k m))" for m
    using rep by (simp_all add: lists_rep_def)
  have dis: "set (k_list k m) \<inter> set (k_list k m') = {}" if "m \<noteq> m'" for m m'
    using rep that unfolding lists_rep_def by blast
  obtain L1 h1 where u: "vl_unlink (vl_ends s ?f) v ?h = (L1, h1)" by fastforce
  let ?h1 = "set_prv v None (set_nxt v None h1)"
  from vl.del_law [OF D v] u have d1: "dlist ?h1 L1 (remove1 v (k_list k ?f))" "detached ?h1 v"
    "same_links (set (k_list k ?f)) ?h ?h1"
    by (simp_all add: vl_clear_def)
  define ys where "ys = (k_list k)(?f := remove1 v (k_list k ?f))"
  define E where "E = (vl_ends s)(?f := L1)"
  have E: "dlist ?h1 (E m) (ys m)" for m
    using d1(1) vl.frame [OF D d1(3), of m] dis [of ?f m] by (auto simp: E_def ys_def)
  have nv: "v \<notin> set (ys m)" for m
    using v dis [of m ?f] distinct_remove1_removeAll [of "k_list k ?f" v] vl.rep_distinct [OF D, of ?f]
    by (auto simp: ys_def)
  obtain L2 h2 where a: "vl_append (E l) v h1 = (L2, h2)" by fastforce
  with vl.head_law [OF E d1(2) nv, of l] have d2: "dlist h2 L2 (ys l @ [v])" "same_links (insert v (set (ys l))) ?h1 h2"
    using d1(2) by (simp_all add: vl_append_fresh)
  have sub: "set (ys m) \<subseteq> set (k_list k m)" for m by (simp add: ys_def set_remove1_subset)
  have ysd: "set (ys m) \<inter> set (ys l) = {}" if "m \<noteq> l" for m
    using dis [OF that] sub [of m] sub [of l] by blast
  have m: "k_list (move_vnode v l k) = ys(l := ys l @ [v])"
    by (simp add: move_vnode_def Let_def ys_def upd_vn_def)
  have F: "dlist h2 ((E(l := L2)) m) ((ys(l := ys l @ [v])) m)" for m
    using d2(1) vl.frame [OF E d2(2), of m] ysd [of m] nv [of m] by auto
  have "length (remove1 v (k_list k ?f)) = length (k_list k ?f) - 1" "0 < length (k_list k ?f)"
    using v by (auto simp: length_remove1)
  then have n: "((vl_num s)(?f := vl_num s ?f - 1)) m = int (length (ys m))" for m
    using num int_length_pred [OF v] by (auto simp: ys_def)
  have i: "((vl_inlist s)(v := l)) u = m" if "u \<in> set ((ys(l := ys l @ [v])) m)" for u m
  proof -
    have "vl_inlist s u = m" if "u \<in> set (ys m)" for u m using that sub [of m] rep by (auto simp: lists_rep_def)
    then show ?thesis using that nv by (auto split: if_splits)
  qed
  define N where "N = (vl_num s)(?f := vl_num s ?f - 1)"
  have fields: "vl_links (move_vnode_links v l s) = h2" "vl_ends (move_vnode_links v l s) = E(l := L2)"
    "vl_num (move_vnode_links v l s) = N(l := N l + 1)" "vl_inlist (move_vnode_links v l s) = (vl_inlist s)(v := l)"
    using a u f by (simp_all add: move_vnode_links_def Let_def E_def N_def del: fun_upd_apply)
  have "N m = int (length (ys m))" for m using n [of m] by (simp add: N_def)
  then have "(N(l := N l + 1)) m = int (length ((ys(l := ys l @ [v])) m))" for m by simp
  with F i show ?thesis unfolding m lists_rep_def fields by blast
qed

text \<open>The pointers of the free list of three vnodes.\<close>

definition demo_links :: vnlists where
  "demo_links = \<lparr>vl_links = \<lparr>nxt = [0 \<mapsto> 1, 1 \<mapsto> 2], prv = [1 \<mapsto> 0, 2 \<mapsto> 1]\<rparr>,
     vl_inlist = (\<lambda>_. FREE_LIST),
     vl_ends = (\<lambda>l. if l = FREE_LIST then \<lparr>lru = Some 0, mru = Some 2\<rparr> else \<lparr>lru = None, mru = None\<rparr>),
     vl_num = (\<lambda>l. if l = FREE_LIST then 3 else 0)\<rparr>"

theorem move_vnode_refines_witness:
  "lists_rep (move_vnode_links 1 LOCKED_LIST demo_links) (k_list (move_vnode 1 LOCKED_LIST demo_kernel))"
proof (rule move_vnode_refines)
  have "dlist (vl_links demo_links) (vl_ends demo_links l) (k_list demo_kernel l)" for l
    by (cases l) (simp_all add: demo_links_def demo_kernel_def dlist_def last_of_def)
  then show "lists_rep demo_links (k_list demo_kernel)"
    by (simp add: lists_rep_def) (simp add: demo_links_def demo_kernel_def)
  show "1 \<in> set (k_list demo_kernel (vn_inlist (k_vn demo_kernel 1)))"
    by (simp add: demo_kernel_def free_vn_def)
qed

end
