(* ===== verification/Fd_Table.thy ===== *)
theory Fd_Table
  imports Vnode_Layer
begin

text \<open>
  The table of the file descriptors of \<open>kernel.c\<close> (\<open>struct fdarray\<close>): the allocation and close-on-exec bits,
  kept 32 to an \<open>unsigned long\<close> of 64 bits, and the search for a free descriptor.  The macros \<open>SETBIT\<close> and
  \<open>GETBIT\<close> shift an \<open>int\<close>, so that the mask of the last bit of a word is negative and fills the upper half of the
  word: the words are kept sign extended, and the test of \<open>new_fd\<close> for a full word never succeeds.
\<close>

section \<open>The bits\<close>

text \<open>\<open>(x << (i % 32))\<close> as an \<open>int\<close>, converted to \<open>unsigned long\<close>.\<close>

definition int_shl :: "int \<Rightarrow> nat \<Rightarrow> 64 word" where
  "int_shl x j = word_of_int (signed_take_bit 31 (x * 2 ^ j))"

definition SETBIT :: "64 word list \<Rightarrow> nat \<Rightarrow> int \<Rightarrow> 64 word list" where
  "SETBIT a i v = a[i div 32 := (a ! (i div 32) AND NOT (int_shl 1 (i mod 32))) OR int_shl v (i mod 32)]"

definition GETBIT :: "64 word list \<Rightarrow> nat \<Rightarrow> 64 word" where
  "GETBIT a i = drop_bit (i mod 32) (a ! (i div 32) AND int_shl 1 (i mod 32))"

definition BITSZ :: "nat \<Rightarrow> nat" where
  "BITSZ n = (n + 31) div 32 * 32"

definition new_fds :: "bool \<Rightarrow> bool \<Rightarrow> nat \<Rightarrow> fdarray option" where
  "new_fds mem lock num =
     (if \<not> mem then None
      else if \<not> lock then None
      else Some \<lparr>fd_num = num, fd_alloc = replicate (BITSZ num div 8) 0,
             fd_coes = replicate (BITSZ num div 8) 0, fd_fds = replicate num None\<rparr>)"

text \<open>The search of \<open>new_fd\<close>: whole words first, then the rest.\<close>

fun scan_words :: "64 word list \<Rightarrow> nat list \<Rightarrow> nat option" where
  "scan_words a [] = None"
| "scan_words a (w # ws) =
     (if a ! w \<noteq> 0xffffffff
      then (case find (\<lambda>i. GETBIT a i = 0) [w * 32..<w * 32 + 32] of
              Some i \<Rightarrow> Some i
            | None \<Rightarrow> scan_words a ws)
      else scan_words a ws)"

definition free_slot :: "fdarray \<Rightarrow> nat option" where
  "free_slot F =
     (let stop = fd_num F div 32 * 32
      in case scan_words (fd_alloc F) [0..<fd_num F div 32] of
           Some i \<Rightarrow> Some i
         | None \<Rightarrow> find (\<lambda>i. GETBIT (fd_alloc F) i = 0) [stop..<fd_num F])"

section \<open>Reading and writing single bits\<close>

definition sext :: "64 word \<Rightarrow> bool" where
  "sext w \<longleftrightarrow> (\<forall>m \<ge> 31. m < 64 \<longrightarrow> bit w m = bit w 31)"

definition fd_bit :: "64 word list \<Rightarrow> nat \<Rightarrow> bool" where
  "fd_bit a i \<longleftrightarrow> bit (a ! (i div 32)) (i mod 32)"

definition bits_ok :: "nat \<Rightarrow> 64 word list \<Rightarrow> bool" where
  "bits_ok n a \<longleftrightarrow> n \<le> length a * 32 \<and> (\<forall>w \<in> set a. sext w)"

lemma bit_int_shl_1:
  assumes "j < 32"
  shows "bit (int_shl 1 j) m \<longleftrightarrow> m < 64 \<and> (m = j \<or> j = 31 \<and> 31 \<le> m)"
  using assms by (auto simp: int_shl_def bit_simps min_def bit_exp_iff)

lemma int_shl_0 [simp]: "int_shl 0 j = 0"
  by (simp add: int_shl_def)

lemma bit_setbit:
  fixes b :: bool
  assumes "j < 32" "m < 64"
  shows "bit ((w AND NOT (int_shl 1 j)) OR int_shl (of_bool b) j) m \<longleftrightarrow>
    (if m = j \<or> j = 31 \<and> 31 \<le> m then b else bit w m)"
  using assms bit_int_shl_1 [OF assms(1), of m]
  by (cases b) (auto simp: bit_simps)

lemma SETBIT_word:
  assumes "i div 32 < length a"
  shows "SETBIT a i (of_bool b) ! k =
    (if k = i div 32 then (a ! k AND NOT (int_shl 1 (i mod 32))) OR int_shl (of_bool b) (i mod 32) else a ! k)"
  using assms by (auto simp: SETBIT_def)

lemma sext_setbit:
  assumes "sext w" "j < 32"
  shows "sext ((w AND NOT (int_shl 1 j)) OR int_shl (of_bool b) j)"
  unfolding sext_def
proof (intro allI impI)
  fix m :: nat assume m: "31 \<le> m" "m < 64"
  let ?W = "(w AND NOT (int_shl 1 j)) OR int_shl (of_bool b) j"
  have "(m = j \<or> j = 31 \<and> 31 \<le> m) \<longleftrightarrow> j = 31" using m(1) assms(2) by linarith
  then have "bit ?W m \<longleftrightarrow> (if j = 31 then b else bit w m)"
    using bit_setbit [OF assms(2) m(2), of w b] by presburger
  moreover have "bit ?W 31 \<longleftrightarrow> (if j = 31 then b else bit w 31)"
  proof -
    have "(31 = j \<or> j = 31 \<and> 31 \<le> (31::nat)) \<longleftrightarrow> j = 31" "(31::nat) < 64" by auto
    then show ?thesis using bit_setbit [OF assms(2), of 31 w b] by presburger
  qed
  moreover have "bit w m = bit w 31" by (rule assms(1) [unfolded sext_def, rule_format, OF m])
  ultimately show "bit ?W m = bit ?W 31" by presburger
qed

lemma bits_ok_set:
  assumes "bits_ok n a" "i < n"
  shows "bits_ok n (SETBIT a i (of_bool b))" "j < n \<Longrightarrow> fd_bit (SETBIT a i (of_bool b)) j = (if j = i then b else fd_bit a j)"
proof -
  have l: "i div 32 < length a" using assms by (auto simp: bits_ok_def)
  then have "sext (a ! (i div 32))" using assms(1) by (simp add: bits_ok_def)
  then have "sext ((a ! (i div 32) AND NOT (int_shl 1 (i mod 32))) OR int_shl (of_bool b) (i mod 32))"
    by (rule sext_setbit) simp
  then show "bits_ok n (SETBIT a i (of_bool b))"
    using assms(1) set_update_subset_insert unfolding bits_ok_def SETBIT_def by fastforce
  show "fd_bit (SETBIT a i (of_bool b)) j = (if j = i then b else fd_bit a j)" if "j < n"
  proof (cases "j div 32 = i div 32")
    case True
    have "j mod 32 < 32" "i mod 32 < 32" "j mod 32 < 64" by simp_all
    moreover have "j mod 32 = i mod 32 \<longleftrightarrow> j = i" using True by (metis div_mult_mod_eq)
    ultimately show ?thesis
      using True bit_setbit [of "i mod 32" "j mod 32" "a ! (i div 32)" b]
      by (auto simp: fd_bit_def SETBIT_word [OF l])
  next
    case False
    then show ?thesis by (auto simp: fd_bit_def SETBIT_word [OF l])
  qed
qed

lemma GETBIT_zero:
  assumes "bits_ok n a" "i < n"
  shows "GETBIT a i = 0 \<longleftrightarrow> \<not> fd_bit a i"
proof -
  let ?w = "a ! (i div 32)" and ?j = "i mod 32"
  have "sext ?w" using assms by (auto simp: bits_ok_def)
  have j: "?j < 32" by simp
  have b: "bit (GETBIT a i) m \<longleftrightarrow> bit ?w (m + ?j) \<and> m + ?j < 64 \<and> (m = 0 \<or> ?j = 31)" for m
    using bit_int_shl_1 [OF j, of "m + ?j"] by (auto simp: GETBIT_def bit_simps ac_simps)
  show ?thesis
  proof
    assume "GETBIT a i = 0"
    with b [of 0] show "\<not> fd_bit a i" by (auto simp: fd_bit_def)
  next
    assume n: "\<not> fd_bit a i"
    show "GETBIT a i = 0"
    proof (rule bit_word_eqI)
      fix m assume "m < LENGTH(64)"
      show "bit (GETBIT a i) m = bit 0 m"
        using b [of m] n \<open>sext ?w\<close> [unfolded sext_def, rule_format, of "m + ?j"]
        by (cases "?j = 31") (auto simp: fd_bit_def)
    qed
  qed
qed

section \<open>The lowest free descriptor\<close>

lemma full_word: "sext w \<Longrightarrow> w \<noteq> 0xffffffff"
proof
  assume s: "sext w" "w = 0xffffffff"
  have "bit w 32 = bit w 31" using s(1) [unfolded sext_def, rule_format, of 32] by simp
  with s(2) show False by simp
qed

lemma scan_words_find:
  assumes "\<And>w. w < n \<Longrightarrow> a ! w \<noteq> 0xffffffff"
  shows "scan_words a [m..<n] = find (\<lambda>i. GETBIT a i = 0) [m * 32..<n * 32]"
proof (cases "m \<le> n")
  case True
  then show ?thesis
    using assms
  proof (induction rule: inc_induct)
    case (step k)
    have "[k * 32..<n * 32] = [k * 32..<k * 32 + 32] @ [Suc k * 32..<n * 32]"
      using upt_add_eq_append [of "k * 32" "k * 32 + 32" "n * 32 - (k * 32 + 32)"] step.hyps(2)
      by (simp add: add.commute)
    moreover have "[k..<n] = k # [Suc k..<n]" using step.hyps(2) by (simp add: upt_conv_Cons)
    ultimately show ?case using step by (simp add: find_append split: option.split)
  qed simp
qed simp

definition fdarray_ok :: "fdarray \<Rightarrow> bool" where
  "fdarray_ok F \<longleftrightarrow> length (fd_fds F) = fd_num F \<and> bits_ok (fd_num F) (fd_alloc F) \<and>
     bits_ok (fd_num F) (fd_coes F) \<and> (\<forall>i < fd_num F. fd_bit (fd_alloc F) i \<longleftrightarrow> fd_fds F ! i \<noteq> None)"

lemma free_slot_find:
  assumes "fdarray_ok F"
  shows "free_slot F = find (\<lambda>i. fd_fds F ! i = None) [0..<fd_num F]"
proof -
  let ?n = "fd_num F" and ?a = "fd_alloc F"
  have ok: "bits_ok ?n ?a" and bits: "\<And>i. i < ?n \<Longrightarrow> fd_bit ?a i \<longleftrightarrow> fd_fds F ! i \<noteq> None"
    using assms by (auto simp: fdarray_ok_def)
  have "?a ! w \<noteq> 0xffffffff" if "w < ?n div 32" for w
  proof -
    have "w < length ?a" using that ok by (auto simp: bits_ok_def)
    then show ?thesis using full_word ok by (auto simp: bits_ok_def)
  qed
  then have "scan_words ?a [0..<?n div 32] = find (\<lambda>i. GETBIT ?a i = 0) [0..<?n div 32 * 32]"
    using scan_words_find [of "?n div 32" ?a 0] by simp
  moreover have "[0..<?n] = [0..<?n div 32 * 32] @ [?n div 32 * 32..<?n]"
    using upt_add_eq_append [of 0 "?n div 32 * 32" "?n mod 32"] by simp
  ultimately have "free_slot F = find (\<lambda>i. GETBIT ?a i = 0) [0..<?n]"
    unfolding free_slot_def Let_def by (simp add: find_append)
  also have "\<dots> = find (\<lambda>i. fd_fds F ! i = None) [0..<?n]"
    by (rule find_cong) (use GETBIT_zero [OF ok] bits in auto)
  finally show ?thesis .
qed

lemma new_fds_ok:
  assumes "new_fds mem lock num = Some F"
  shows "fdarray_ok F \<and> fd_num F = num \<and> (\<forall>i < num. fd_fds F ! i = None)"
proof -
  have F: "F = \<lparr>fd_num = num, fd_alloc = replicate (BITSZ num div 8) 0,
             fd_coes = replicate (BITSZ num div 8) 0, fd_fds = replicate num None\<rparr>"
    using assms by (auto simp: new_fds_def split: if_splits)
  have "num \<le> BITSZ num div 8 * 32"
  proof -
    have "(num + 31) div 32 * 32 div 8 = (num + 31) div 32 * 4" by simp
    moreover have "num \<le> (num + 31) div 32 * 32" by simp
    ultimately show ?thesis unfolding BITSZ_def by simp
  qed
  moreover have "i div 32 < BITSZ num div 8" if "i < num" for i
    by (rule less_mult_imp_div_less) (use that calculation in linarith)
  ultimately show ?thesis
    by (auto simp: F fdarray_ok_def bits_ok_def sext_def fd_bit_def)
qed

end
