(* ===== verification/Kernel_Files.thy ===== *)
theory Kernel_Files
  imports Fd_Table
begin

text \<open>
  Open files of \<open>kernel.c\<close>: the operations a file system offers (\<open>struct vnode_ops\<close> of \<open>fsproto.h\<close>), the
  \<open>ofile\<close> structures with their two counts, and the functions that take, give back, add and remove file
  descriptors.  The operations that may be missing are options; calling one that is missing does not come
  back.  Path names and file names are strings without the terminating zero.
\<close>

section \<open>The operations of a file system\<close>

record my_stat =
  st_dev :: int
  st_ino :: int
  st_mode :: int
  st_nlink :: int
  st_uid :: int
  st_gid :: int
  st_size :: int
  st_blksize :: int
  st_atime :: int
  st_mtime :: int
  st_ctime :: int
  st_crtime :: int

record my_dirent =
  d_dev :: int
  d_ino :: int
  d_reclen :: int
  d_name :: string

type_synonym 'w kact = "'w kernel \<Rightarrow> (errno \<times> 'w kernel) option"
type_synonym ('a, 'w) kget = "'w kernel \<Rightarrow> (errno \<times> 'a \<times> 'w kernel) option"

record 'w fsops =
  op_walk :: "(int \<Rightarrow> int \<Rightarrow> string \<Rightarrow> bool \<Rightarrow> (string option \<times> vnode_id, 'w) kget) option"
  op_access :: "(int \<Rightarrow> int \<Rightarrow> int \<Rightarrow> 'w kact) option"
  op_create :: "(int \<Rightarrow> int \<Rightarrow> string \<Rightarrow> int \<Rightarrow> int \<Rightarrow> (vnode_id \<times> int, 'w) kget) option"
  op_mkdir :: "(int \<Rightarrow> int \<Rightarrow> string \<Rightarrow> int \<Rightarrow> 'w kact) option"
  op_symlink :: "(int \<Rightarrow> int \<Rightarrow> string \<Rightarrow> string option \<Rightarrow> 'w kact) option"
  op_link :: "(int \<Rightarrow> int \<Rightarrow> string \<Rightarrow> int \<Rightarrow> 'w kact) option"
  op_rename :: "(int \<Rightarrow> int \<Rightarrow> string \<Rightarrow> int \<Rightarrow> string \<Rightarrow> 'w kact) option"
  op_unlink :: "(int \<Rightarrow> int \<Rightarrow> string \<Rightarrow> 'w kact) option"
  op_rmdir :: "(int \<Rightarrow> int \<Rightarrow> string \<Rightarrow> 'w kact) option"
  op_readlink :: "(int \<Rightarrow> int \<Rightarrow> int \<Rightarrow> (byte list \<times> int, 'w) kget) option"
  op_opendir :: "(int \<Rightarrow> int \<Rightarrow> (int, 'w) kget) option"
  op_closedir :: "(int \<Rightarrow> int \<Rightarrow> int \<Rightarrow> 'w kact) option"
  op_free_dircookie :: "(int \<Rightarrow> int \<Rightarrow> int \<Rightarrow> 'w kact) option"
  op_rewinddir :: "(int \<Rightarrow> int \<Rightarrow> int \<Rightarrow> 'w kact) option"
  op_readdir :: "(int \<Rightarrow> int \<Rightarrow> int \<Rightarrow> int \<Rightarrow> int \<Rightarrow> (my_dirent list, 'w) kget) option"
  op_open :: "(int \<Rightarrow> int \<Rightarrow> int \<Rightarrow> (int, 'w) kget) option"
  op_close :: "(int \<Rightarrow> int \<Rightarrow> int \<Rightarrow> 'w kact) option"
  op_free_cookie :: "(int \<Rightarrow> int \<Rightarrow> int \<Rightarrow> 'w kact) option"
  op_read :: "(int \<Rightarrow> int \<Rightarrow> int \<Rightarrow> fs_off_t \<Rightarrow> int \<Rightarrow> (byte list, 'w) kget) option"
  op_write :: "(int \<Rightarrow> int \<Rightarrow> int \<Rightarrow> fs_off_t \<Rightarrow> byte list \<Rightarrow> (int, 'w) kget) option"
  op_ioctl :: "(int \<Rightarrow> int \<Rightarrow> int \<Rightarrow> int \<Rightarrow> int \<Rightarrow> int \<Rightarrow> 'w kact) option"
  op_rstat :: "(int \<Rightarrow> int \<Rightarrow> (my_stat, 'w) kget) option"
  op_wstat :: "(int \<Rightarrow> int \<Rightarrow> my_stat \<Rightarrow> int \<Rightarrow> 'w kact) option"
  op_fsync :: "(int \<Rightarrow> int \<Rightarrow> 'w kact) option"
  op_mount :: "(nspace_id \<Rightarrow> string option \<Rightarrow> int \<Rightarrow> int \<Rightarrow> int \<Rightarrow> (int \<times> vnode_id, 'w) kget) option"
  op_unmount :: "(int \<Rightarrow> 'w kact) option"
  op_sync :: "(int \<Rightarrow> 'w kact) option"

type_synonym 'w fsenv = "string \<Rightarrow> 'w fsops"

text \<open>A call through \<open>vn->ns->fs->ops\<close>: the operation with the first two arguments of all operations on a
  vnode, \<open>vn->ns->data\<close> and \<open>vn->data\<close>; \<open>None\<close> inside is a missing operation.\<close>

definition vop :: "('w fsops \<Rightarrow> (int \<Rightarrow> int \<Rightarrow> 'f) option) \<Rightarrow> 'w fsenv \<Rightarrow> vaddr \<Rightarrow> 'w kernel \<Rightarrow> 'f option option" where
  "vop sel H v k = do {
     ops \<leftarrow> ops_of H k v;
     ns \<leftarrow> ns_of k v;
     Some (map_option (\<lambda>f. f (ns_data ns) (vn_data (k_vn k v))) (sel ops)) }"

section \<open>Constants\<close>

definition FD_FILE :: int where "FD_FILE = 1"
definition FD_DIR :: int where "FD_DIR = 2"
definition FD_WD :: int where "FD_WD = 4"
definition FD_ALL :: int where "FD_ALL = 7"
definition O_WRONLY :: int where "O_WRONLY = 1"
definition O_RDONLY :: int where "O_RDONLY = 0"
definition O_CREAT :: int where "O_CREAT = 0x40"
definition O_APPEND :: int where "O_APPEND = 0x400"
definition OMODE_MASK :: int where "OMODE_MASK = 3"

section \<open>Descriptor tables\<close>

definition get_fds :: "bool \<Rightarrow> 'w kernel \<Rightarrow> fdarray option" where
  "get_fds ker k = (if ker then Some (k_fds k) else k_iofds k)"

definition put_fds :: "bool \<Rightarrow> fdarray \<Rightarrow> 'w kernel \<Rightarrow> 'w kernel" where
  "put_fds ker F k = (if ker then k\<lparr>k_fds := F\<rparr> else k\<lparr>k_iofds := Some F\<rparr>)"

text \<open>The entry of a descriptor: \<open>(fd >= 0) && (fd < fds->num) && fds->fds[fd]\<close>.\<close>

definition fd_entry :: "fdarray \<Rightarrow> int \<Rightarrow> nat option" where
  "fd_entry F fd = (if 0 \<le> fd \<and> fd < int (fd_num F) then fd_fds F ! nat fd else None)"

definition upd_of :: "nat \<Rightarrow> (ofile \<Rightarrow> ofile) \<Rightarrow> 'w kernel \<Rightarrow> 'w kernel option" where
  "upd_of f g k = do { x \<leftarrow> k_of k f; Some (k\<lparr>k_of := (k_of k)(f \<mapsto> g x)\<rparr>) }"

section \<open>The end of an open file\<close>

definition invoke_close :: "'w fsenv \<Rightarrow> nat \<Rightarrow> 'w kernel \<Rightarrow> (errno \<times> 'w kernel) option" where
  "invoke_close H f k = do {
     x \<leftarrow> k_of k f;
     if of_type x = FD_FILE then do {
       p \<leftarrow> vop op_close H (of_vn x) k; op \<leftarrow> p; op (of_cookie x) k }
     else if of_type x = FD_DIR then do {
       p \<leftarrow> vop op_closedir H (of_vn x) k; op \<leftarrow> p; op (of_cookie x) k }
     else Some (0, k) }"

text \<open>The call \<open>if (op) (*op)(vn->ns->data, vn->data, cookie)\<close> whose result is dropped.\<close>

definition call_opt :: "(int \<Rightarrow> 'w kact) option \<Rightarrow> int \<Rightarrow> 'w kernel \<Rightarrow> 'w kernel option" where
  "call_opt p c k = (case p of None \<Rightarrow> Some k | Some op \<Rightarrow> do { (_, k1) \<leftarrow> op c k; Some k1 })"

definition invoke_free :: "'w vnenv \<Rightarrow> 'w fsenv \<Rightarrow> nat \<Rightarrow> 'w kernel \<Rightarrow> 'w kernel option" where
  "invoke_free E H f k = do {
     x \<leftarrow> k_of k f;
     k1 \<leftarrow> (if of_type x = FD_FILE then do { p \<leftarrow> vop op_free_cookie H (of_vn x) k; call_opt p (of_cookie x) k }
            else if of_type x = FD_DIR then do { p \<leftarrow> vop op_free_dircookie H (of_vn x) k; call_opt p (of_cookie x) k }
            else Some k);
     k2 \<leftarrow> dec_vnode E (of_vn x) False k1;
     Some (k2\<lparr>k_of := (k_of k2)(f := None)\<rparr>) }"

definition put_fd :: "'w vnenv \<Rightarrow> 'w fsenv \<Rightarrow> nat \<Rightarrow> 'w kernel \<Rightarrow> 'w kernel option" where
  "put_fd E H f k = do {
     x \<leftarrow> k_of k f;
     k1 \<leftarrow> upd_of f (\<lambda>y. y\<lparr>of_rcnt := of_rcnt y - 1\<rparr>) k;
     if of_rcnt x = 1 then invoke_free E H f k1 else Some k1 }"

text \<open>The sequence that \<open>new_fd\<close>, \<open>remove_fd\<close> and \<open>free_fds\<close> end a descriptor with: the last opener closes,
  the last reference frees.\<close>

definition drop_fd :: "'w vnenv \<Rightarrow> 'w fsenv \<Rightarrow> nat \<Rightarrow> 'w kernel \<Rightarrow> (errno \<times> 'w kernel) option" where
  "drop_fd E H f k = do {
     x \<leftarrow> k_of k f;
     k1 \<leftarrow> upd_of f (\<lambda>y. y\<lparr>of_ocnt := of_ocnt y - 1\<rparr>) k;
     (err, k2) \<leftarrow> (if of_ocnt x = 1 then invoke_close H f k1 else Some (0, k1));
     k3 \<leftarrow> put_fd E H f k2;
     Some (err, k3) }"

section \<open>Descriptors\<close>

definition get_fd :: "bool \<Rightarrow> int \<Rightarrow> int \<Rightarrow> 'w kernel \<Rightarrow> (nat option \<times> 'w kernel) option" where
  "get_fd ker fd type k = do {
     F \<leftarrow> get_fds ker k;
     case fd_entry F fd of
       None \<Rightarrow> Some (None, k)
     | Some f \<Rightarrow> do {
         x \<leftarrow> k_of k f;
         if of_type x AND type \<noteq> 0 then do {
           k1 \<leftarrow> upd_of f (\<lambda>y. y\<lparr>of_rcnt := of_rcnt y + 1\<rparr>) k;
           Some (Some f, k1) }
         else Some (None, k) } }"

definition new_fd ::
  "'w vnenv \<Rightarrow> 'w fsenv \<Rightarrow> bool \<Rightarrow> int \<Rightarrow> nat option \<Rightarrow> int \<Rightarrow> bool \<Rightarrow> 'w kernel \<Rightarrow> (int \<times> 'w kernel) option" where
  "new_fd E H ker nfd f0 fd coe k = do {
     F \<leftarrow> get_fds ker k;
     case (case f0 of Some f \<Rightarrow> Some f | None \<Rightarrow> fd_entry F fd) of
       None \<Rightarrow> Some (EBADF, k)
     | Some f \<Rightarrow> do {
         k1 \<leftarrow> upd_of f (\<lambda>y. y\<lparr>of_rcnt := of_rcnt y + 1, of_ocnt := of_ocnt y + 1\<rparr>) k;
         if nfd \<ge> 0 then
           (if nfd \<ge> int (fd_num F) then do {
              k2 \<leftarrow> upd_of f (\<lambda>y. y\<lparr>of_rcnt := of_rcnt y - 1, of_ocnt := of_ocnt y - 1\<rparr>) k1;
              Some (EBADF, k2) }
            else do {
              let i = nat nfd;
              let old = fd_fds F ! i;
              let k2 = put_fds ker (F\<lparr>fd_fds := (fd_fds F)[i := Some f], fd_alloc := SETBIT (fd_alloc F) i 1,
                                     fd_coes := SETBIT (fd_coes F) i (of_bool coe)\<rparr>) k1;
              k3 \<leftarrow> (case old of None \<Rightarrow> Some k2 | Some g \<Rightarrow> do { (_, k3) \<leftarrow> drop_fd E H g k2; Some k3 });
              Some (nfd, k3) })
         else (case free_slot F of
             None \<Rightarrow> do {
               k2 \<leftarrow> upd_of f (\<lambda>y. y\<lparr>of_rcnt := of_rcnt y - 1, of_ocnt := of_ocnt y - 1\<rparr>) k1;
               Some (EMFILE, k2) }
           | Some i \<Rightarrow>
               Some (int i, put_fds ker (F\<lparr>fd_fds := (fd_fds F)[i := Some f], fd_alloc := SETBIT (fd_alloc F) i 1,
                                     fd_coes := SETBIT (fd_coes F) i (of_bool coe)\<rparr>) k1)) } }"

definition remove_fd ::
  "'w vnenv \<Rightarrow> 'w fsenv \<Rightarrow> bool \<Rightarrow> int \<Rightarrow> int \<Rightarrow> 'w kernel \<Rightarrow> (errno \<times> 'w kernel) option" where
  "remove_fd E H ker fd type k = do {
     F \<leftarrow> get_fds ker k;
     case fd_entry F fd of
       None \<Rightarrow> Some (EBADF, k)
     | Some f \<Rightarrow> do {
         x \<leftarrow> k_of k f;
         if of_type x = type then
           drop_fd E H f (put_fds ker (F\<lparr>fd_alloc := SETBIT (fd_alloc F) (nat fd) 0,
                                         fd_fds := (fd_fds F)[nat fd := None]\<rparr>) k)
         else Some (EBADF, k) } }"

text \<open>The three accessors: the close-on-exec bit and the open mode of a descriptor of the given type.\<close>

definition get_coe :: "bool \<Rightarrow> int \<Rightarrow> int \<Rightarrow> 'w kernel \<Rightarrow> (errno \<times> bool) option" where
  "get_coe ker fd type k = do {
     F \<leftarrow> get_fds ker k;
     case fd_entry F fd of
       None \<Rightarrow> Some (EBADF, False)
     | Some f \<Rightarrow> do {
         x \<leftarrow> k_of k f;
         Some (if of_type x = type then (0, GETBIT (fd_coes F) (nat fd) \<noteq> 0) else (EBADF, False)) } }"

definition set_coe :: "bool \<Rightarrow> int \<Rightarrow> int \<Rightarrow> bool \<Rightarrow> 'w kernel \<Rightarrow> (errno \<times> 'w kernel) option" where
  "set_coe ker fd type coe k = do {
     F \<leftarrow> get_fds ker k;
     case fd_entry F fd of
       None \<Rightarrow> Some (EBADF, k)
     | Some f \<Rightarrow> do {
         x \<leftarrow> k_of k f;
         Some (if of_type x = type
               then (0, put_fds ker (F\<lparr>fd_coes := SETBIT (fd_coes F) (nat fd) (of_bool coe)\<rparr>) k)
               else (EBADF, k)) } }"

definition get_omode :: "bool \<Rightarrow> int \<Rightarrow> int \<Rightarrow> 'w kernel \<Rightarrow> (errno \<times> int) option" where
  "get_omode ker fd type k = do {
     F \<leftarrow> get_fds ker k;
     case fd_entry F fd of
       None \<Rightarrow> Some (EBADF, 0)
     | Some f \<Rightarrow> do {
         x \<leftarrow> k_of k f;
         Some (if of_type x = type then (0, of_omode x) else (EBADF, 0)) } }"

text \<open>A new \<open>ofile\<close>, zeroed by \<open>calloc\<close>; its address is the next unused one.\<close>

definition new_ofile :: "int \<Rightarrow> vaddr \<Rightarrow> int \<Rightarrow> int \<Rightarrow> 'w kernel \<Rightarrow> (nat \<times> 'w kernel) option" where
  "new_ofile type v cookie omode k =
     (if k_mem k then Some (k_nxaddr k, k\<lparr>k_nxaddr := Suc (k_nxaddr k), k_of := (k_of k)(k_nxaddr k \<mapsto>
         \<lparr>of_type = type, of_vn = v, of_cookie = cookie, of_rcnt = 0, of_ocnt = 0, of_pos = 0, of_omode = omode\<rparr>)\<rparr>)
      else None)"

definition free_ofile :: "nat \<Rightarrow> 'w kernel \<Rightarrow> 'w kernel" where
  "free_ofile f k = k\<lparr>k_of := (k_of k)(f := None)\<rparr>"

definition alloc_wd_fd ::
  "'w vnenv \<Rightarrow> 'w fsenv \<Rightarrow> bool \<Rightarrow> vaddr \<Rightarrow> bool \<Rightarrow> 'w kernel \<Rightarrow> (errno \<times> int \<times> 'w kernel) option" where
  "alloc_wd_fd E H ker v coe k =
     (case new_ofile FD_WD v 0 0 k of
        None \<Rightarrow> Some (ENOMEM, 0, k)
      | Some (f, k1) \<Rightarrow> do {
          (nfd, k2) \<leftarrow> new_fd E H ker (- 1) (Some f) (- 1) coe k1;
          if nfd < 0 then Some (EMFILE, 0, free_ofile f k2) else Some (0, nfd, k2) })"

fun drop_all :: "'w vnenv \<Rightarrow> 'w fsenv \<Rightarrow> nat option list \<Rightarrow> 'w kernel \<Rightarrow> 'w kernel option" where
  "drop_all E H [] k = Some k"
| "drop_all E H (None # fs) k = drop_all E H fs k"
| "drop_all E H (Some f # fs) k = do { (_, k1) \<leftarrow> drop_fd E H f k; drop_all E H fs k1 }"

definition free_fds :: "'w vnenv \<Rightarrow> 'w fsenv \<Rightarrow> fdarray \<Rightarrow> 'w kernel \<Rightarrow> 'w kernel option" where
  "free_fds E H F k = drop_all E H (fd_fds F) k"

end
