(* ===== verification/Kernel_Path.thy ===== *)
theory Kernel_Path
  imports Kernel_Files
begin

text \<open>
  Path names of \<open>kernel.c\<close>: the checked copy of a path (\<open>new_path\<close>), the walk along it through the file systems,
  across mount points and symbolic links (\<open>parse_path\<close>), and the two ways the system calls use it
  (\<open>get_dir_fd\<close>, \<open>get_file_fd\<close>).  The results are the error number and the vnode, whose address means nothing after an error.
\<close>

section \<open>Strings\<close>

definition MAXPATHLEN :: nat where "MAXPATHLEN = 4096"
definition FILE_NAME_LENGTH :: nat where "FILE_NAME_LENGTH = 256"
definition MAX_SYM_LINKS :: nat where "MAX_SYM_LINKS = 16"

text \<open>\<open>do p++; while ( *p == '/')\<close> and the scan for the next slash.\<close>

definition skip_slashes :: "string \<Rightarrow> string" where
  "skip_slashes = dropWhile (\<lambda>c. c = CHR ''/'')"

definition upto_slash :: "string \<Rightarrow> string" where
  "upto_slash = takeWhile (\<lambda>c. c \<noteq> CHR ''/'')"

definition from_slash :: "string \<Rightarrow> string" where
  "from_slash = dropWhile (\<lambda>c. c \<noteq> CHR ''/'')"

lemma slash_lengths:
  "length (skip_slashes s) \<le> length s" "length (from_slash s) \<le> length s" "length (upto_slash s) \<le> length s"
  by (simp_all add: skip_slashes_def from_slash_def upto_slash_def length_dropWhile_le length_takeWhile_le)

text \<open>The loop of \<open>new_path\<close> that checks the length of every component.\<close>

function names_fit :: "string \<Rightarrow> bool" where
  "names_fit s = (if s = [] then True
     else let q = skip_slashes s
          in length (upto_slash q) < FILE_NAME_LENGTH \<and> names_fit (from_slash q))"
  by pat_completeness auto
termination
proof (relation "measure length", simp)
  fix s q :: string assume s: "s \<noteq> []" "q = skip_slashes s"
  show "(from_slash q, s) \<in> measure length"
  proof (cases "hd s = CHR ''/''")
    case True
    then have "length q < length s" using s by (cases s) (auto simp: skip_slashes_def length_dropWhile_le less_Suc_eq_le)
    with slash_lengths(2) [of q] show ?thesis by simp
  next
    case False
    then have "q = s" using s by (cases s) (auto simp: skip_slashes_def)
    moreover have "length (from_slash s) < length s"
      using s(1) False by (cases s) (auto simp: from_slash_def length_dropWhile_le less_Suc_eq_le)
    ultimately show ?thesis by simp
  qed
qed

declare names_fit.simps [simp del]

definition new_path :: "bool \<Rightarrow> string option \<Rightarrow> errno \<times> string option" where
  "new_path mem path = (case path of
     None \<Rightarrow> (0, None)
   | Some s \<Rightarrow>
       if s = [] then (ENOENT, None)
       else if length s \<ge> MAXPATHLEN then (ENAMETOOLONG, None)
       else if \<not> names_fit s then (ENAMETOOLONG, None)
       else if \<not> mem then (ENOMEM, None)
       else (0, Some (if last s = CHR ''/'' then s @ ''.'' else s)))"

definition cat_paths :: "bool \<Rightarrow> string \<Rightarrow> string \<Rightarrow> string option" where
  "cat_paths mem a b = (if mem then Some (a @ ''/'' @ b) else None)"

section \<open>Walking\<close>

lemma next_shorter: "length (skip_slashes (from_slash cs)) < length (c # cs)"
  using slash_lengths(1) [of "from_slash cs"] slash_lengths(2) [of cs] by simp

text \<open>The loop of \<open>parse_path\<close>; \<open>i\<close> counts the symbolic links.\<close>

function parse_loop ::
  "'w vnenv \<Rightarrow> 'w fsenv \<Rightarrow> bool \<Rightarrow> nat \<Rightarrow> string \<Rightarrow> vaddr \<Rightarrow> 'w kernel \<Rightarrow> (errno \<times> vaddr \<times> 'w kernel) option" where
  "parse_loop E H eat i [] bvn k = Some (0, bvn, k)"
| "parse_loop E H eat i (c # cs) bvn0 k0 = do {
     let p = c # upto_slash cs;
     let np = skip_slashes (from_slash cs);
     (bvn, k) \<leftarrow> (if p = ''..'' then do {
          (m, k1) \<leftarrow> is_root bvn0 k0;
          (case m of
             None \<Rightarrow> Some (bvn0, k1)
           | Some vn \<Rightarrow> do { k2 \<leftarrow> dec_vnode E bvn0 False k1; Some (vn, k2) }) }
        else Some (bvn0, k0));
     w \<leftarrow> vop op_walk H bvn k;
     walk \<leftarrow> w;
     (err, (newpath, vnid), k3) \<leftarrow> walk p (eat \<or> np \<noteq> []) k;
     if err \<noteq> 0 then do { k4 \<leftarrow> dec_vnode E bvn False k3; Some (err, bvn, k4) }
     else (case newpath of
         Some new \<Rightarrow>
           if Suc i > MAX_SYM_LINKS then do { k4 \<leftarrow> dec_vnode E bvn False k3; Some (ELOOP, bvn, k4) }
           else (case cat_paths (k_mem k3) new np of
               None \<Rightarrow> do { k4 \<leftarrow> dec_vnode E bvn False k3; Some (ENOMEM, bvn, k4) }
             | Some q \<Rightarrow>
                 if q \<noteq> [] \<and> hd q = CHR ''/'' then do {
                   k4 \<leftarrow> dec_vnode E bvn False k3;
                   root \<leftarrow> k_rootvn k4;
                   parse_loop E H eat (Suc i) (skip_slashes q) root (inc_vnode root k4) }
                 else parse_loop E H eat (Suc i) q bvn k3)
       | None \<Rightarrow> do {
           n \<leftarrow> vn_ns (k_vn k3 bvn);
           found \<leftarrow> lookup_vnode n vnid k3;
           k4 \<leftarrow> dec_vnode E bvn False k3;
           vn \<leftarrow> found;
           (m, k5) \<leftarrow> is_mount_vnode vn k4;
           (case m of
              Some root \<Rightarrow> do { k6 \<leftarrow> dec_vnode E vn False k5; parse_loop E H eat i np root k6 }
            | None \<Rightarrow> parse_loop E H eat i np vn k5) }) }"
  by pat_completeness auto

termination
  by (relation "measures [\<lambda>(E, H, eat, i, p, b, k). Suc MAX_SYM_LINKS - i, \<lambda>(E, H, eat, i, p, b, k). length p]")
     (auto simp: next_shorter [simplified])

definition parse_path ::
  "'w vnenv \<Rightarrow> 'w fsenv \<Rightarrow> bool \<Rightarrow> string option \<Rightarrow> vaddr \<Rightarrow> 'w kernel \<Rightarrow> (errno \<times> vaddr \<times> 'w kernel) option" where
  "parse_path E H eat path bvn k = (case path of
     None \<Rightarrow> Some (0, bvn, k)
   | Some p \<Rightarrow> parse_loop E H eat 0 p bvn k)"

definition parse_path_fd ::
  "'w vnenv \<Rightarrow> 'w fsenv \<Rightarrow> bool \<Rightarrow> int \<Rightarrow> string option \<Rightarrow> bool \<Rightarrow> 'w kernel \<Rightarrow> (errno \<times> vaddr \<times> 'w kernel) option" where
  "parse_path_fd E H ker fd path eat k =
     (if path \<noteq> None \<and> the path \<noteq> [] \<and> hd (the path) = CHR ''/'' then do {
        root \<leftarrow> k_rootvn k;
        parse_path E H eat (Some (skip_slashes (the path))) root (inc_vnode root k) }
      else if fd \<ge> 0 then do {
        (f, k1) \<leftarrow> get_fd ker fd FD_ALL k;
        case f of
          None \<Rightarrow> Some (EBADF, 0, k1)
        | Some f \<Rightarrow> do {
            x \<leftarrow> k_of k1 f;
            k2 \<leftarrow> put_fd E H f (inc_vnode (of_vn x) k1);
            parse_path E H eat path (of_vn x) k2 } }
      else do {
        cwd \<leftarrow> k_cwd k;
        parse_path E H eat path cwd (inc_vnode cwd k) })"

definition parse_path_vn ::
  "'w vnenv \<Rightarrow> 'w fsenv \<Rightarrow> nspace_id \<Rightarrow> vnode_id \<Rightarrow> string option \<Rightarrow> bool \<Rightarrow> 'w kernel \<Rightarrow> (errno \<times> vaddr \<times> 'w kernel) option" where
  "parse_path_vn E H nsid vnid path eat k =
     (if path \<noteq> None \<and> the path \<noteq> [] \<and> hd (the path) = CHR ''/'' then do {
        root \<leftarrow> k_rootvn k;
        parse_path E H eat (Some (skip_slashes (the path))) root (inc_vnode root k) }
      else do {
        (err, bvn, k1) \<leftarrow> load_vnode E nsid vnid False k;
        if err \<noteq> 0 then Some (err, bvn, k1) else parse_path E H eat path bvn k1 })"

section \<open>What the system calls use\<close>

definition get_file_fd ::
  "'w vnenv \<Rightarrow> 'w fsenv \<Rightarrow> bool \<Rightarrow> int \<Rightarrow> string option \<Rightarrow> bool \<Rightarrow> 'w kernel \<Rightarrow> (errno \<times> vaddr \<times> 'w kernel) option" where
  "get_file_fd E H ker fd path eat k =
     (let (err, p) = new_path (k_mem k) path
      in if err \<noteq> 0 then Some (err, 0, k) else parse_path_fd E H ker fd p eat k)"

definition get_file_vn ::
  "'w vnenv \<Rightarrow> 'w fsenv \<Rightarrow> nspace_id \<Rightarrow> vnode_id \<Rightarrow> string option \<Rightarrow> bool \<Rightarrow> 'w kernel \<Rightarrow> (errno \<times> vaddr \<times> 'w kernel) option" where
  "get_file_vn E H nsid vnid path eat k =
     (let (err, p) = new_path (k_mem k) path
      in if err \<noteq> 0 then Some (err, 0, k) else parse_path_vn E H nsid vnid p eat k)"

text \<open>\<open>get_dir_fd\<close> splits the path at its last slash: the file name, and the directory with a dot for the
  name.\<close>

definition split_path :: "string \<Rightarrow> string \<times> string" where
  "split_path p =
     (if CHR ''/'' \<in> set p
      then (let name = rev (upto_slash (rev p)); dir = take (length p - length name) p in (name, dir @ ''.''))
      else (p, ''.''))"

definition get_dir_fd ::
  "'w vnenv \<Rightarrow> 'w fsenv \<Rightarrow> bool \<Rightarrow> int \<Rightarrow> string option \<Rightarrow> 'w kernel \<Rightarrow> (errno \<times> string \<times> vaddr \<times> 'w kernel) option" where
  "get_dir_fd E H ker fd path k =
     (let (err, p) = new_path (k_mem k) path
      in if err \<noteq> 0 then Some (err, [], 0, k)
         else do {
           p' \<leftarrow> p;
           let (name, dir) = split_path p';
           (err2, v, k1) \<leftarrow> parse_path_fd E H ker fd (Some dir) True k;
           Some (err2, name, v, k1) })"

end
