(* ===== verification/Kernel_Sys.thy ===== *)
theory Kernel_Sys
  imports Kernel_Path
begin

text \<open>
  The system calls of \<open>kernel.c\<close> on files and directories.  A call returns its C result, an \<open>errno\<close>, a
  descriptor or a count, and what it stores through pointers.
\<close>

section \<open>The end of a call\<close>

text \<open>\<open>dec_vnode(vn, FALSE); return err;\<close>\<close>

definition put_back :: "'w vnenv \<Rightarrow> vaddr \<Rightarrow> 'r \<Rightarrow> 'w kernel \<Rightarrow> ('r \<times> 'w kernel) option" where
  "put_back E v r k = do { k1 \<leftarrow> dec_vnode E v False k; Some (r, k1) }"

text \<open>\<open>put_fd(f); return r;\<close>\<close>

definition give_back :: "'w vnenv \<Rightarrow> 'w fsenv \<Rightarrow> nat \<Rightarrow> 'r \<Rightarrow> 'w kernel \<Rightarrow> ('r \<times> 'w kernel) option" where
  "give_back E H f r k = do { k1 \<leftarrow> put_fd E H f k; Some (r, k1) }"

text \<open>Calls on the vnode of a path: find it, call the operation if there is one, put the vnode back.\<close>

definition on_file ::
  "'w vnenv \<Rightarrow> 'w fsenv \<Rightarrow> bool \<Rightarrow> int \<Rightarrow> string option \<Rightarrow> bool \<Rightarrow> ('w fsops \<Rightarrow> (int \<Rightarrow> int \<Rightarrow> 'f) option) \<Rightarrow>
     ('f \<Rightarrow> ('r, 'w) kget) \<Rightarrow> 'r \<Rightarrow> ('r, 'w) kget" where
  "on_file E H ker fd path eat sel call dflt k = do {
     (err, v, k1) \<leftarrow> get_file_fd E H ker fd path eat k;
     if err \<noteq> 0 then Some (err, dflt, k1)
     else do {
       p \<leftarrow> vop sel H v k1;
       case p of
         None \<Rightarrow> do { (e, k2) \<leftarrow> put_back E v EINVAL k1; Some (e, dflt, k2) }
       | Some op \<Rightarrow> do {
           (err2, r, k2) \<leftarrow> call op k1;
           (e, k3) \<leftarrow> put_back E v err2 k2;
           Some (e, r, k3) } } }"

text \<open>Calls on a name in the directory of a path.\<close>

definition in_dir ::
  "'w vnenv \<Rightarrow> 'w fsenv \<Rightarrow> bool \<Rightarrow> int \<Rightarrow> string option \<Rightarrow> ('w fsops \<Rightarrow> (int \<Rightarrow> int \<Rightarrow> 'f) option) \<Rightarrow>
     ('f \<Rightarrow> string \<Rightarrow> 'w kact) \<Rightarrow> 'w kact" where
  "in_dir E H ker fd path sel call k = do {
     (err, name, dvn, k1) \<leftarrow> get_dir_fd E H ker fd path k;
     if err \<noteq> 0 then Some (err, k1)
     else do {
       p \<leftarrow> vop sel H dvn k1;
       case p of
         None \<Rightarrow> put_back E dvn EINVAL k1
       | Some op \<Rightarrow> do { (err2, k2) \<leftarrow> call op name k1; put_back E dvn err2 k2 } } }"

definition no_stat :: my_stat where
  "no_stat = \<lparr>st_dev = 0, st_ino = 0, st_mode = 0, st_nlink = 0, st_uid = 0, st_gid = 0, st_size = 0,
     st_blksize = 0, st_atime = 0, st_mtime = 0, st_ctime = 0, st_crtime = 0\<rparr>"

definition MY_S_ISDIR :: "int \<Rightarrow> bool" where
  "MY_S_ISDIR m \<longleftrightarrow> m AND 0xf000 = 0x4000"

section \<open>Calls by path\<close>

definition sys_access :: "'w vnenv \<Rightarrow> 'w fsenv \<Rightarrow> bool \<Rightarrow> int \<Rightarrow> string option \<Rightarrow> int \<Rightarrow> 'w kact" where
  "sys_access E H ker fd path mode k = do {
     (err, _, k1) \<leftarrow> on_file E H ker fd path True op_access
       (\<lambda>op k. do { (e, k') \<leftarrow> op mode k; Some (e, (), k') }) () k;
     Some (err, k1) }"

definition sys_rstat :: "'w vnenv \<Rightarrow> 'w fsenv \<Rightarrow> bool \<Rightarrow> int \<Rightarrow> string option \<Rightarrow> bool \<Rightarrow> (my_stat, 'w) kget" where
  "sys_rstat E H ker fd path eat k = on_file E H ker fd path eat op_rstat (\<lambda>op. op) no_stat k"

definition sys_wstat ::
  "'w vnenv \<Rightarrow> 'w fsenv \<Rightarrow> bool \<Rightarrow> int \<Rightarrow> string option \<Rightarrow> my_stat \<Rightarrow> int \<Rightarrow> bool \<Rightarrow> 'w kact" where
  "sys_wstat E H ker fd path st msk eat k = do {
     (err, _, k1) \<leftarrow> on_file E H ker fd path eat op_wstat
       (\<lambda>op k. do { (e, k') \<leftarrow> op st msk k; Some (e, (), k') }) () k;
     Some (err, k1) }"

text \<open>\<open>sys_readlink\<close> returns the size the operation stored, or the error: a caller cannot tell the two apart.\<close>

definition sys_readlink ::
  "'w vnenv \<Rightarrow> 'w fsenv \<Rightarrow> bool \<Rightarrow> int \<Rightarrow> string option \<Rightarrow> int \<Rightarrow> 'w kernel \<Rightarrow> (int \<times> byte list \<times> 'w kernel) option" where
  "sys_readlink E H ker fd path bufsize k = do {
     (err, (buf, sz), k1) \<leftarrow> on_file E H ker fd path False op_readlink (\<lambda>op. op bufsize) ([], 0) k;
     Some (if err \<noteq> 0 then err else sz, buf, k1) }"

definition sys_chdir :: "'w vnenv \<Rightarrow> 'w fsenv \<Rightarrow> bool \<Rightarrow> int \<Rightarrow> string option \<Rightarrow> 'w kact" where
  "sys_chdir E H ker fd path k = do {
     (err, v, k1) \<leftarrow> get_file_fd E H ker fd path True k;
     if err \<noteq> 0 then Some (err, k1)
     else do {
       p \<leftarrow> vop op_rstat H v k1;
       case p of
         None \<Rightarrow> put_back E v EINVAL k1
       | Some op \<Rightarrow> do {
           (err2, st, k2) \<leftarrow> op k1;
           if err2 \<noteq> 0 then put_back E v err2 k2
           else if \<not> MY_S_ISDIR (st_mode st) then put_back E v ENOTDIR k2
           else do {
             cwd \<leftarrow> k_cwd k2;
             k3 \<leftarrow> dec_vnode E cwd False k2;
             Some (0, k3\<lparr>k_cwd := Some v\<rparr>) } } } }"

section \<open>Calls on a directory entry\<close>

definition sys_mkdir :: "'w vnenv \<Rightarrow> 'w fsenv \<Rightarrow> bool \<Rightarrow> int \<Rightarrow> string option \<Rightarrow> int \<Rightarrow> 'w kact" where
  "sys_mkdir E H ker fd path perms = in_dir E H ker fd path op_mkdir (\<lambda>op name. op name perms)"

definition sys_unlink :: "'w vnenv \<Rightarrow> 'w fsenv \<Rightarrow> bool \<Rightarrow> int \<Rightarrow> string option \<Rightarrow> 'w kact" where
  "sys_unlink E H ker fd path = in_dir E H ker fd path op_unlink (\<lambda>op name. op name)"

definition sys_rmdir :: "'w vnenv \<Rightarrow> 'w fsenv \<Rightarrow> bool \<Rightarrow> int \<Rightarrow> string option \<Rightarrow> 'w kact" where
  "sys_rmdir E H ker fd path = in_dir E H ker fd path op_rmdir (\<lambda>op name. op name)"

definition sys_symlink :: "'w vnenv \<Rightarrow> 'w fsenv \<Rightarrow> bool \<Rightarrow> string option \<Rightarrow> int \<Rightarrow> string option \<Rightarrow> 'w kact" where
  "sys_symlink E H ker oldpath nfd newpath k = do {
     (err, name, dvn, k1) \<leftarrow> get_dir_fd E H ker nfd newpath k;
     if err \<noteq> 0 then Some (err, k1)
     else
       let (err2, buf) = new_path (k_mem k1) oldpath
       in if err2 \<noteq> 0 then put_back E dvn err2 k1
          else do {
            p \<leftarrow> vop op_symlink H dvn k1;
            case p of
              None \<Rightarrow> put_back E dvn EINVAL k1
            | Some op \<Rightarrow> do { (err3, k2) \<leftarrow> op name buf k1; put_back E dvn err3 k2 } } }"

definition sys_link ::
  "'w vnenv \<Rightarrow> 'w fsenv \<Rightarrow> bool \<Rightarrow> int \<Rightarrow> string option \<Rightarrow> int \<Rightarrow> string option \<Rightarrow> 'w kact" where
  "sys_link E H ker ofd oldpath nfd newpath k = do {
     (err, v, k1) \<leftarrow> get_file_fd E H ker ofd oldpath True k;
     if err \<noteq> 0 then Some (err, k1)
     else do {
       (err2, name, dvn, k2) \<leftarrow> get_dir_fd E H ker nfd newpath k1;
       if err2 \<noteq> 0 then put_back E v err2 k2
       else if vn_ns (k_vn k2 v) \<noteq> vn_ns (k_vn k2 dvn) then do {
         (e, k3) \<leftarrow> put_back E dvn EXDEV k2; put_back E v e k3 }
       else do {
         p \<leftarrow> vop op_link H dvn k2;
         case p of
           None \<Rightarrow> do { (e, k3) \<leftarrow> put_back E dvn EINVAL k2; put_back E v e k3 }
         | Some op \<Rightarrow> do {
             (err3, k3) \<leftarrow> op name (vn_data (k_vn k2 v)) k2;
             (e, k4) \<leftarrow> put_back E dvn err3 k3;
             put_back E v e k4 } } } }"

text \<open>\<open>sys_rename\<close>: the two directories on different file systems take the exit that does not put the
  new one back.\<close>

definition sys_rename ::
  "'w vnenv \<Rightarrow> 'w fsenv \<Rightarrow> bool \<Rightarrow> int \<Rightarrow> string option \<Rightarrow> int \<Rightarrow> string option \<Rightarrow> 'w kact" where
  "sys_rename E H ker ofd oldpath nfd newpath k = do {
     (err, oldname, odvn, k1) \<leftarrow> get_dir_fd E H ker ofd oldpath k;
     if err \<noteq> 0 then Some (err, k1)
     else do {
       (err2, newname, ndvn, k2) \<leftarrow> get_dir_fd E H ker nfd newpath k1;
       if err2 \<noteq> 0 then put_back E odvn err2 k2
       else if vn_ns (k_vn k2 odvn) \<noteq> vn_ns (k_vn k2 ndvn) then put_back E odvn EXDEV k2
       else do {
         p \<leftarrow> vop op_rename H odvn k2;
         case p of
           None \<Rightarrow> do { (e, k3) \<leftarrow> put_back E ndvn EINVAL k2; put_back E odvn e k3 }
         | Some op \<Rightarrow> do {
             (err3, k3) \<leftarrow> op oldname (vn_data (k_vn k2 ndvn)) newname k2;
             if err3 \<noteq> 0 then do { (e, k4) \<leftarrow> put_back E ndvn err3 k3; put_back E odvn e k4 }
             else do { (e, k4) \<leftarrow> put_back E odvn 0 k3; put_back E ndvn e k4 } } } } }"

section \<open>Open files\<close>

definition neg_err :: "int \<Rightarrow> int" where
  "neg_err err = (if err > 0 then - err else err)"

text \<open>What \<open>sys_open\<close> and \<open>sys_opendir\<close> do when there is no \<open>ofile\<close> or no descriptor: close and free the cookie.\<close>

definition undo_open ::
  "('w fsops \<Rightarrow> (int \<Rightarrow> int \<Rightarrow> int \<Rightarrow> 'w kact) option) \<Rightarrow> ('w fsops \<Rightarrow> (int \<Rightarrow> int \<Rightarrow> int \<Rightarrow> 'w kact) option) \<Rightarrow>
     'w fsenv \<Rightarrow> vaddr \<Rightarrow> int \<Rightarrow> 'w kernel \<Rightarrow> 'w kernel option" where
  "undo_open close free H v cookie k = do {
     p \<leftarrow> vop close H v k;
     op \<leftarrow> p;
     (_, k1) \<leftarrow> op cookie k;
     q \<leftarrow> vop free H v k1;
     call_opt q cookie k1 }"

definition sys_opendir ::
  "'w vnenv \<Rightarrow> 'w fsenv \<Rightarrow> bool \<Rightarrow> int \<Rightarrow> string option \<Rightarrow> bool \<Rightarrow> 'w kernel \<Rightarrow> (int \<times> 'w kernel) option" where
  "sys_opendir E H ker fd path coe k = do {
     (err, v, k1) \<leftarrow> get_file_fd E H ker fd path True k;
     if err \<noteq> 0 then Some (neg_err err, k1)
     else do {
       p \<leftarrow> vop op_opendir H v k1;
       case p of
         None \<Rightarrow> put_back E v (neg_err EINVAL) k1
       | Some op \<Rightarrow> do {
           (err2, cookie, k2) \<leftarrow> op k1;
           if err2 \<noteq> 0 then put_back E v (neg_err err2) k2
           else (case new_ofile FD_DIR v cookie 0 k2 of
               None \<Rightarrow> do {
                 k3 \<leftarrow> undo_open op_closedir op_free_dircookie H v cookie k2;
                 put_back E v (neg_err ENOMEM) k3 }
             | Some (f, k3) \<Rightarrow> do {
                 (nfd, k4) \<leftarrow> new_fd E H ker (- 1) (Some f) (- 1) coe k3;
                 if nfd < 0 then do {
                   k5 \<leftarrow> undo_open op_closedir op_free_dircookie H v cookie (free_ofile f k4);
                   put_back E v (neg_err EMFILE) k5 }
                 else Some (nfd, k4) }) } } }"

definition sys_closedir :: "'w vnenv \<Rightarrow> 'w fsenv \<Rightarrow> bool \<Rightarrow> int \<Rightarrow> 'w kact" where
  "sys_closedir E H ker fd = remove_fd E H ker fd FD_DIR"

text \<open>The second half of \<open>sys_open\<close>: an \<open>ofile\<close> and a descriptor for the vnode that \<open>open\<close> or \<open>create\<close> gave.  The file is
  removed again when it was created for this call.\<close>

definition open_fd ::
  "'w vnenv \<Rightarrow> 'w fsenv \<Rightarrow> bool \<Rightarrow> int \<Rightarrow> bool \<Rightarrow> (vaddr \<times> string) option \<Rightarrow> vaddr \<Rightarrow> int \<Rightarrow> 'w kernel
     \<Rightarrow> (int \<times> 'w kernel) option" where
  "open_fd E H ker omode coe created v cookie k =
     (let undo = (\<lambda>err k. do {
        k1 \<leftarrow> undo_open op_close op_free_cookie H v cookie k;
        case created of
          None \<Rightarrow> put_back E v err k1
        | Some (dvn, name) \<Rightarrow> do {
            ops \<leftarrow> ops_of H k1 v;
            op \<leftarrow> op_unlink ops;
            dns \<leftarrow> ns_of k1 dvn;
            (_, k2) \<leftarrow> op (ns_data dns) (vn_data (k_vn k1 dvn)) name k1;
            (_, k3) \<leftarrow> put_back E v () k2;
            put_back E dvn (neg_err err) k3 } })
      in case new_ofile FD_FILE v cookie omode k of
           None \<Rightarrow> undo ENOMEM k
         | Some (f, k1) \<Rightarrow> do {
             (nfd, k2) \<leftarrow> new_fd E H ker (- 1) (Some f) (- 1) coe k1;
             if nfd < 0 then undo EMFILE (free_ofile f k2) else Some (nfd, k2) })"

definition sys_open ::
  "'w vnenv \<Rightarrow> 'w fsenv \<Rightarrow> bool \<Rightarrow> int \<Rightarrow> string option \<Rightarrow> int \<Rightarrow> int \<Rightarrow> bool \<Rightarrow> 'w kernel \<Rightarrow> (int \<times> 'w kernel) option" where
  "sys_open E H ker fd path omode perms coe k =
     (if omode AND O_CREAT \<noteq> 0 then do {
        (err, name, dvn, k1) \<leftarrow> get_dir_fd E H ker fd path k;
        if err \<noteq> 0 then Some (neg_err err, k1)
        else do {
          p \<leftarrow> vop op_create H dvn k1;
          case p of
            None \<Rightarrow> put_back E dvn (neg_err EINVAL) k1
          | Some op \<Rightarrow> do {
              (err2, (vnid, cookie), k2) \<leftarrow> op name omode perms k1;
              if err2 \<noteq> 0 then put_back E dvn (neg_err err2) k2
              else do {
                n \<leftarrow> vn_ns (k_vn k2 dvn);
                found \<leftarrow> lookup_vnode n vnid k2;
                k3 \<leftarrow> dec_vnode E dvn False k2;
                v \<leftarrow> found;
                open_fd E H ker omode coe (Some (dvn, name)) v cookie k3 } } } }
      else do {
        (err, v, k1) \<leftarrow> get_file_fd E H ker fd path True k;
        if err \<noteq> 0 then Some (err, k1)
        else do {
          p \<leftarrow> vop op_open H v k1;
          case p of
            None \<Rightarrow> put_back E v EINVAL k1
          | Some op \<Rightarrow> do {
              (err2, cookie, k2) \<leftarrow> op omode k1;
              if err2 \<noteq> 0 then put_back E v err2 k2
              else open_fd E H ker omode coe None v cookie k2 } } })"

definition sys_close :: "'w vnenv \<Rightarrow> 'w fsenv \<Rightarrow> bool \<Rightarrow> int \<Rightarrow> 'w kact" where
  "sys_close E H ker fd = remove_fd E H ker fd FD_FILE"

section \<open>Calls on a descriptor\<close>

definition sys_rewinddir :: "'w vnenv \<Rightarrow> 'w fsenv \<Rightarrow> bool \<Rightarrow> int \<Rightarrow> 'w kact" where
  "sys_rewinddir E H ker fd k = do {
     (f, k1) \<leftarrow> get_fd ker fd FD_DIR k;
     case f of
       None \<Rightarrow> Some (EBADF, k1)
     | Some f \<Rightarrow> do {
         x \<leftarrow> k_of k1 f;
         p \<leftarrow> vop op_rewinddir H (of_vn x) k1;
         op \<leftarrow> p;
         (err, k2) \<leftarrow> op (of_cookie x) k1;
         give_back E H f err k2 } }"

text \<open>The loop of \<open>sys_readdir\<close> that patches the mount points and the root.  The lock \<open>vnlock\<close> is released
  around \<open>sys_rstat\<close>.\<close>

fun patch_ents ::
  "'w vnenv \<Rightarrow> 'w fsenv \<Rightarrow> bool \<Rightarrow> int \<Rightarrow> vaddr \<Rightarrow> my_dirent list \<Rightarrow> (my_dirent list, 'w) kget" where
  "patch_ents E H ker fd v [] k = Some (0, [], k)"
| "patch_ents E H ker fd v (d # ds) k = do {
     n \<leftarrow> vn_ns (k_vn k v);
     ns \<leftarrow> ns_of k v;
     m \<leftarrow> is_mount_vnid n (d_ino d) k;
     let d1 = (case m of None \<Rightarrow> d | Some vnid \<Rightarrow> d\<lparr>d_ino := vnid\<rparr>);
     if ns_mount ns \<noteq> None \<and> d_name d = ''..'' then do {
       (err, st, k1) \<leftarrow> sys_rstat E H ker fd (Some ''..'') False k;
       if err \<noteq> 0 then Some (err, d1 # ds, k1)
       else do {
         (err2, ds', k2) \<leftarrow> patch_ents E H ker fd v ds k1;
         Some (err2, d1\<lparr>d_ino := st_ino st\<rparr> # ds', k2) } }
     else do {
       (err2, ds', k2) \<leftarrow> patch_ents E H ker fd v ds k;
       Some (err2, d1 # ds', k2) } }"

definition sys_readdir ::
  "'w vnenv \<Rightarrow> 'w fsenv \<Rightarrow> bool \<Rightarrow> int \<Rightarrow> int \<Rightarrow> int \<Rightarrow> 'w kernel \<Rightarrow> (int \<times> my_dirent list \<times> 'w kernel) option" where
  "sys_readdir E H ker fd bufsize count k = do {
     (f, k1) \<leftarrow> get_fd ker fd FD_DIR k;
     case f of
       None \<Rightarrow> Some (EBADF, [], k1)
     | Some f \<Rightarrow> do {
         x \<leftarrow> k_of k1 f;
         p \<leftarrow> vop op_readdir H (of_vn x) k1;
         op \<leftarrow> p;
         (err, ds, k2) \<leftarrow> op (of_cookie x) count bufsize k1;
         if err \<noteq> 0 then Some (err, ds, k2)
         else do {
           (err2, ds', k3) \<leftarrow> patch_ents E H ker fd (of_vn x) ds k2;
           (r, k4) \<leftarrow> give_back E H f (if err2 \<noteq> 0 then err2 else int (length ds)) k3;
           Some (r, ds', k4) } } }"

definition set_pos :: "nat \<Rightarrow> int \<Rightarrow> 'w kernel \<Rightarrow> 'w kernel option" where
  "set_pos f p k = upd_of f (\<lambda>y. y\<lparr>of_pos := p\<rparr>) k"

text \<open>\<open>sys_lseek\<close>: the new position, computed from the size of the file for the end and in append mode.\<close>

definition seek_size :: "'w fsenv \<Rightarrow> vaddr \<Rightarrow> (int, 'w) kget" where
  "seek_size H v k = do {
     p \<leftarrow> vop op_rstat H v k;
     case p of
       None \<Rightarrow> Some (EINVAL, 0, k)
     | Some op \<Rightarrow> do { (err, st, k1) \<leftarrow> op k; Some (err, st_size st, k1) } }"

definition sys_lseek ::
  "'w vnenv \<Rightarrow> 'w fsenv \<Rightarrow> bool \<Rightarrow> int \<Rightarrow> fs_off_t \<Rightarrow> int \<Rightarrow> 'w kernel \<Rightarrow> (fs_off_t \<times> 'w kernel) option" where
  "sys_lseek E H ker fd pos whence k = do {
     (f, k1) \<leftarrow> get_fd ker fd FD_FILE k;
     case f of
       None \<Rightarrow> Some (EBADF, k1)
     | Some f \<Rightarrow> do {
         x \<leftarrow> k_of k1 f;
         if whence \<notin> {0, 1, 2} then give_back E H f EINVAL k1
         else do {
           (err, new, k2) \<leftarrow>
             (if whence = 0 then Some (0, pos, k1)
              else if whence = 1 \<and> of_omode x AND O_APPEND = 0 then Some (0, of_pos x + pos, k1)
              else do { (e, sz, k') \<leftarrow> seek_size H (of_vn x) k1; Some (e, pos + sz, k') });
           if err \<noteq> 0 then give_back E H f err k2
           else if new < 0 then do { k3 \<leftarrow> set_pos f 0 k2; give_back E H f EINVAL k3 }
           else do { k3 \<leftarrow> set_pos f new k2; give_back E H f new k3 } } } }"

definition sys_read ::
  "'w vnenv \<Rightarrow> 'w fsenv \<Rightarrow> bool \<Rightarrow> int \<Rightarrow> int \<Rightarrow> 'w kernel \<Rightarrow> (int \<times> byte list \<times> 'w kernel) option" where
  "sys_read E H ker fd len k = do {
     (f, k1) \<leftarrow> get_fd ker fd FD_FILE k;
     case f of
       None \<Rightarrow> Some (EBADF, [], k1)
     | Some f \<Rightarrow> do {
         x \<leftarrow> k_of k1 f;
         if of_omode x AND OMODE_MASK = O_WRONLY then do {
           (r, k2) \<leftarrow> give_back E H f EBADF k1; Some (r, [], k2) }
         else do {
           p \<leftarrow> vop op_read H (of_vn x) k1;
           op \<leftarrow> p;
           (err, buf, k2) \<leftarrow> op (of_cookie x) (of_pos x) len k1;
           if err \<noteq> 0 then do { (r, k3) \<leftarrow> give_back E H f err k2; Some (r, buf, k3) }
           else do {
             k3 \<leftarrow> upd_of f (\<lambda>y. y\<lparr>of_pos := of_pos y + int (length buf)\<rparr>) k2;
             (r, k4) \<leftarrow> give_back E H f (int (length buf)) k3;
             Some (r, buf, k4) } } } }"

definition sys_write ::
  "'w vnenv \<Rightarrow> 'w fsenv \<Rightarrow> bool \<Rightarrow> int \<Rightarrow> byte list \<Rightarrow> 'w kernel \<Rightarrow> (int \<times> 'w kernel) option" where
  "sys_write E H ker fd buf k = do {
     (f, k1) \<leftarrow> get_fd ker fd FD_FILE k;
     case f of
       None \<Rightarrow> Some (EBADF, k1)
     | Some f \<Rightarrow> do {
         x \<leftarrow> k_of k1 f;
         if of_omode x AND OMODE_MASK = O_RDONLY then give_back E H f EBADF k1
         else do {
           p \<leftarrow> vop op_write H (of_vn x) k1;
           op \<leftarrow> p;
           (err, sz, k2) \<leftarrow> op (of_cookie x) (of_pos x) buf k1;
           if err \<noteq> 0 then give_back E H f err k2
           else do {
             k3 \<leftarrow> upd_of f (\<lambda>y. y\<lparr>of_pos := of_pos y + sz\<rparr>) k2;
             give_back E H f sz k3 } } } }"

definition sys_ioctl :: "'w vnenv \<Rightarrow> 'w fsenv \<Rightarrow> bool \<Rightarrow> int \<Rightarrow> int \<Rightarrow> int \<Rightarrow> int \<Rightarrow> 'w kact" where
  "sys_ioctl E H ker fd cmd arg sz k = do {
     (f, k1) \<leftarrow> get_fd ker fd FD_FILE k;
     case f of
       None \<Rightarrow> Some (EBADF, k1)
     | Some f \<Rightarrow> do {
         x \<leftarrow> k_of k1 f;
         p \<leftarrow> vop op_ioctl H (of_vn x) k1;
         (err, k2) \<leftarrow> (case p of None \<Rightarrow> Some (EINVAL, k1) | Some op \<Rightarrow> op (of_cookie x) cmd arg sz k1);
         give_back E H f err k2 } }"

end
