(* ===== verification/Kernel_Props.thy ===== *)
theory Kernel_Props
  imports Kernel_Sys Vnode_Props
begin

text \<open>
  Properties of the descriptor table and of the path names of \<open>kernel.c\<close>.
\<close>

section \<open>Descriptors\<close>

lemma find_None_all: "find P [0..<n] = None \<longleftrightarrow> (\<forall>i < n. \<not> P i)"
  by (auto simp: find_None_iff)

lemma find_first:
  assumes "find P [0..<n] = Some i"
  shows "i < n" "P i" "\<And>j. j < i \<Longrightarrow> \<not> P j"
proof -
  obtain m where m: "m < length [0..<n]" "P ([0..<n] ! m)" "i = [0..<n] ! m" "\<forall>j < m. \<not> P ([0..<n] ! j)"
    using assms by (auto simp: find_Some_iff)
  then have "i = m" by simp
  with m show "i < n" "P i" "\<And>j. j < i \<Longrightarrow> \<not> P j" by auto
qed

text \<open>Claim C33: the search of \<open>new_fd\<close> for a free descriptor, word by word over the sign extended
  words of the allocation bits, gives what a plain search of the table from its start gives: the lowest descriptor that has
  no open file.\<close>

theorem free_slot_lowest:
  assumes "fdarray_ok F"
  shows "free_slot F = (if \<forall>i < fd_num F. fd_fds F ! i \<noteq> None then None
    else Some (LEAST i. i < fd_num F \<and> fd_fds F ! i = None))"
proof (cases "find (\<lambda>i. fd_fds F ! i = None) [0..<fd_num F]")
  case None
  then show ?thesis using free_slot_find [OF assms] by (auto simp: find_None_all)
next
  case (Some i)
  note f = find_first [OF Some]
  have "(LEAST i. i < fd_num F \<and> fd_fds F ! i = None) = i"
  proof (rule Least_equality)
    show "i \<le> j" if "j < fd_num F \<and> fd_fds F ! j = None" for j using f(3) [of j] that by (cases "j < i") auto
  qed (use f(1,2) in simp)
  then show ?thesis using Some f(1,2) free_slot_find [OF assms] by auto
qed

lemma fdarray_ok_add:
  assumes "fdarray_ok F" "i < fd_num F"
  shows "fdarray_ok (F\<lparr>fd_fds := (fd_fds F)[i := Some f], fd_alloc := SETBIT (fd_alloc F) i 1\<rparr>)"
    "fdarray_ok (F\<lparr>fd_coes := SETBIT (fd_coes F) i (of_bool b)\<rparr>)"
    "fdarray_ok (F\<lparr>fd_fds := (fd_fds F)[i := None], fd_alloc := SETBIT (fd_alloc F) i 0\<rparr>)"
  using assms bits_ok_set [where n = "fd_num F" and a = "fd_alloc F" and i = i and b = True]
    bits_ok_set [where n = "fd_num F" and a = "fd_coes F" and i = i and b = b]
    bits_ok_set [where n = "fd_num F" and a = "fd_alloc F" and i = i and b = False]
  by (auto simp: fdarray_ok_def nth_list_update)

text \<open>Taking the descriptors \<open>js\<close> one after the other for the file at address 0, and a table of forty
  descriptors of which the first 33 are taken.\<close>

primrec take_fds :: "nat list \<Rightarrow> fdarray \<Rightarrow> fdarray" where
  "take_fds [] F = F"
| "take_fds (j # js) F = take_fds js (F\<lparr>fd_fds := (fd_fds F)[j := Some 0], fd_alloc := SETBIT (fd_alloc F) j 1\<rparr>)"

lemma take_fds_ok:
  "fdarray_ok F \<Longrightarrow> \<forall>j \<in> set js. j < fd_num F \<Longrightarrow> fdarray_ok (take_fds js F) \<and> fd_num (take_fds js F) = fd_num F"
  by (induction js arbitrary: F) (auto simp: fdarray_ok_add)

definition demo_fds :: fdarray where
  "demo_fds = take_fds [0..<33] (the (new_fds True True 40))"

lemma demo_fds_ok: "fdarray_ok demo_fds" "fd_num demo_fds = 40"
proof -
  obtain F where F: "new_fds True True 40 = Some F" by (simp add: new_fds_def)
  show "fdarray_ok demo_fds" "fd_num demo_fds = 40"
    using take_fds_ok [of F "[0..<33]"] new_fds_ok [OF F] F by (auto simp: demo_fds_def)
qed

theorem free_slot_lowest_witness: "free_slot demo_fds = Some 33"
proof -
  have "fd_fds demo_fds = replicate 33 (Some 0) @ replicate 7 None" by code_simp
  moreover have "(LEAST i. i < fd_num demo_fds \<and> fd_fds demo_fds ! i = None) = 33"
    by (rule Least_equality) (auto simp: calculation demo_fds_ok(2) nth_append split: if_splits)
  ultimately show ?thesis
    using free_slot_lowest [OF demo_fds_ok(1)] by (auto simp: demo_fds_ok(2) nth_append)
qed

lemma fd_fields [simp]:
  "get_fds ker (put_fds ker F k) = Some F" "k_of (put_fds ker F k) = k_of k"
  by (simp_all add: get_fds_def put_fds_def)

lemma fds_of_update [simp]: "get_fds ker (k\<lparr>k_of := g\<rparr>) = get_fds ker k"
  by (simp add: get_fds_def)

lemma free_slotD:
  assumes "fdarray_ok F" "free_slot F = Some i"
  shows "i < fd_num F" "fd_fds F ! i = None" "\<And>j. j < i \<Longrightarrow> fd_fds F ! j \<noteq> None"
  using find_first [of "\<lambda>i. fd_fds F ! i = None" "fd_num F" i] free_slot_find [OF assms(1)] assms(2) by auto

text \<open>Claim C34: a new open file gets the lowest free descriptor; the table stays consistent with its allocation bits, no other
  descriptor changes, the file is found under the descriptor with the close-on-exec bit that was asked for, and
  its two counts grow by one.\<close>

theorem new_fd_installs:
  assumes "get_fds ker k = Some F" "fdarray_ok F" "free_slot F = Some i" "k_of k f = Some x"
  shows "\<exists>k' F'. new_fd E H ker (- 1) (Some f) fd coe k = Some (int i, k') \<and> get_fds ker k' = Some F' \<and>
    fdarray_ok F' \<and> fd_fds F ! i = None \<and> (\<forall>j < i. fd_fds F ! j \<noteq> None) \<and> fd_fds F' = (fd_fds F)[i := Some f] \<and>
    get_coe ker (int i) (of_type x) k' = Some (0, coe) \<and> get_omode ker (int i) (of_type x) k' = Some (0, of_omode x) \<and>
    k_of k' = (k_of k)(f \<mapsto> x\<lparr>of_rcnt := of_rcnt x + 1, of_ocnt := of_ocnt x + 1\<rparr>)"
proof -
  note i = free_slotD [OF assms(2,3)]
  let ?F = "F\<lparr>fd_fds := (fd_fds F)[i := Some f], fd_alloc := SETBIT (fd_alloc F) i 1,
    fd_coes := SETBIT (fd_coes F) i (of_bool coe)\<rparr>"
  let ?k = "put_fds ker ?F (k\<lparr>k_of := (k_of k)(f \<mapsto> x\<lparr>of_rcnt := of_rcnt x + 1, of_ocnt := of_ocnt x + 1\<rparr>)\<rparr>)"
  have new: "new_fd E H ker (- 1) (Some f) fd coe k = Some (int i, ?k)"
    using assms by (simp add: new_fd_def upd_of_def)
  have ok: "fdarray_ok ?F"
    using fdarray_ok_add(2) [where i = i and b = coe, OF fdarray_ok_add(1) [where f = f, OF assms(2) i(1)]] i(1)
    by simp
  have n: "length (fd_fds F) = fd_num F" "bits_ok (fd_num F) (fd_coes F)" using assms(2) by (simp_all add: fdarray_ok_def)
  have e: "fd_entry ?F (int i) = Some f" using i(1) n(1) by (simp add: fd_entry_def)
  have "GETBIT (fd_coes ?F) i = 0 \<longleftrightarrow> \<not> coe"
    using GETBIT_zero [of "fd_num F" "fd_coes ?F" i] bits_ok_set [OF n(2) i(1)] i(1) by simp
  then have "get_coe ker (int i) (of_type x) ?k = Some (0, coe)" using e by (simp add: get_coe_def)
  moreover have "get_omode ker (int i) (of_type x) ?k = Some (0, of_omode x)" using e by (simp add: get_omode_def)
  ultimately show ?thesis using new ok i by auto
qed

text \<open>A kernel with the table above and one open file.\<close>

definition demo_open :: "nat kernel" where
  "demo_open = demo_kernel\<lparr>k_fds := demo_fds,
     k_of := [0 \<mapsto> \<lparr>of_type = FD_FILE, of_vn = 0, of_cookie = 0, of_rcnt = 33, of_ocnt = 33, of_pos = 0, of_omode = 2\<rparr>]\<rparr>"

theorem new_fd_installs_witness:
  "\<exists>k'. new_fd demo_env undefined True (- 1) (Some 0) (- 1) True demo_open = Some (33, k') \<and>
     get_coe True 33 FD_FILE k' = Some (0, True)"
proof -
  have "k_of demo_open 0 = Some \<lparr>of_type = FD_FILE, of_vn = 0, of_cookie = 0, of_rcnt = 33, of_ocnt = 33, of_pos = 0,
      of_omode = 2\<rparr>" "get_fds True demo_open = Some demo_fds"
    by (simp_all add: demo_open_def get_fds_def)
  moreover have "free_slot demo_fds = Some 33" by code_simp
  ultimately show ?thesis
    using new_fd_installs [OF _ demo_fds_ok(1), of True demo_open 33 0 _ demo_env undefined "- 1" True] by fastforce
qed

text \<open>Claim C35: when every descriptor is taken, \<open>alloc_wd_fd\<close> still reports success: \<open>new_fd\<close> returns the
  positive number \<open>EMFILE\<close>, its callers look for a negative one, and the caller is handed descriptor 24, which is
  the open file of someone else.  The new \<open>ofile\<close> is never freed.\<close>

theorem full_table_gives_descriptor_24:
  assumes "get_fds ker k = Some F" "fdarray_ok F" "24 < fd_num F" "\<forall>i < fd_num F. fd_fds F ! i \<noteq> None" "k_mem k"
  shows "\<exists>k'. alloc_wd_fd E H ker v coe k = Some (0, 24, k') \<and> get_fds ker k' = Some F \<and>
    (\<exists>x. k_of k' (k_nxaddr k) = Some x \<and> of_vn x = v \<and> of_rcnt x = 0)"
proof -
  have full: "free_slot F = None" using free_slot_find [OF assms(2)] assms(4) by (simp add: find_None_all)
  let ?a = "k_nxaddr k"
  let ?x = "\<lparr>of_type = FD_WD, of_vn = v, of_cookie = 0, of_rcnt = 0, of_ocnt = 0, of_pos = 0, of_omode = 0\<rparr>"
  let ?k = "k\<lparr>k_nxaddr := Suc ?a, k_of := (k_of k)(?a \<mapsto> ?x)\<rparr>"
  have F: "get_fds ker ?k = Some F" using assms(1) by (cases ker) (simp_all add: get_fds_def)
  then have "new_fd E H ker (- 1) (Some ?a) (- 1) coe ?k = Some (24, ?k)"
    using full by (simp add: new_fd_def upd_of_def)
  then have "alloc_wd_fd E H ker v coe k = Some (0, 24, ?k)"
    using assms(5) by (simp add: alloc_wd_fd_def new_ofile_def)
  with F show ?thesis by auto
qed

definition demo_full :: "nat kernel" where
  "demo_full = demo_open\<lparr>k_fds := take_fds [33..<40] demo_fds, k_nxaddr := 5\<rparr>"

theorem full_table_gives_descriptor_24_witness:
  "\<exists>k'. alloc_wd_fd demo_env undefined True 2 False demo_full = Some (0, 24, k')"
proof -
  let ?F = "k_fds demo_full"
  have l: "fd_fds ?F = replicate 40 (Some 0)" "fd_num ?F = 40" "k_mem demo_full" "k_nxaddr demo_full = 5" by code_simp+
  have "fdarray_ok ?F" using take_fds_ok [of demo_fds "[33..<40]"] demo_fds_ok by (simp add: demo_full_def)
  with l show ?thesis
    using full_table_gives_descriptor_24 [of True demo_full ?F demo_env undefined 2 False]
    by (auto simp: get_fds_def)
qed

section \<open>Path names\<close>

text \<open>The components of a path, by the slashes in it.\<close>

primrec components :: "string \<Rightarrow> string list" where
  "components [] = [[]]"
| "components (c # cs) = (if c = CHR ''/'' then [] # components cs
     else (c # hd (components cs)) # tl (components cs))"

lemma components_upto:
  "components q = upto_slash q # (case from_slash q of [] \<Rightarrow> [] | _ # r \<Rightarrow> components r)"
  by (induction q) (simp_all add: upto_slash_def from_slash_def)

lemma components_skip:
  "P [] \<Longrightarrow> (\<forall>w \<in> set (components (skip_slashes s)). P w) \<longleftrightarrow> (\<forall>w \<in> set (components s). P w)"
  by (induction s) (auto simp: skip_slashes_def)

lemma components_from:
  assumes "P []"
  shows "(\<forall>w \<in> set (components q). P w) \<longleftrightarrow> P (upto_slash q) \<and> (\<forall>w \<in> set (components (from_slash q)). P w)"
proof (cases "from_slash q")
  case Nil
  then show ?thesis using assms by (subst components_upto) simp
next
  case (Cons c r)
  then have "c = CHR ''/''" using hd_dropWhile [of "\<lambda>c. c \<noteq> CHR ''/''" q] by (auto simp: from_slash_def)
  with Cons assms show ?thesis by (subst components_upto) simp
qed

lemma names_fit_components: "names_fit s \<longleftrightarrow> (\<forall>w \<in> set (components s). length w < FILE_NAME_LENGTH)"
proof (induction s rule: names_fit.induct)
  case (1 s)
  let ?P = "\<lambda>w. length w < FILE_NAME_LENGTH" and ?q = "skip_slashes s"
  have p: "?P []" by (simp add: FILE_NAME_LENGTH_def)
  show ?case
  proof (cases "s = []")
    case True
    then show ?thesis using p by (simp add: names_fit.simps)
  next
    case False
    have "names_fit s \<longleftrightarrow> ?P (upto_slash ?q) \<and> names_fit (from_slash ?q)"
      using False by (subst names_fit.simps) (simp add: Let_def)
    also have "\<dots> \<longleftrightarrow> ?P (upto_slash ?q) \<and> (\<forall>w \<in> set (components (from_slash ?q)). ?P w)" using 1 [OF False refl] by simp
    also have "\<dots> \<longleftrightarrow> (\<forall>w \<in> set (components ?q). ?P w)" using components_from [of ?P ?q] p by simp
    also have "\<dots> \<longleftrightarrow> (\<forall>w \<in> set (components s). ?P w)" using components_skip [of ?P s] p by simp
    finally show ?thesis .
  qed
qed

text \<open>Claim C36: the scan of \<open>new_path\<close> accepts exactly the paths that are not empty, are shorter than
  \<open>MAXPATHLEN\<close> and have only components that fit a file name; the copy is the path, with a dot
  after a slash at its end.\<close>

theorem new_path_accepts:
  "new_path mem (Some s) =
     (if s = [] then (ENOENT, None)
      else if MAXPATHLEN \<le> length s \<or> (\<exists>w \<in> set (components s). FILE_NAME_LENGTH \<le> length w) then (ENAMETOOLONG, None)
      else if mem then (0, Some (s @ (if last s = CHR ''/'' then ''.'' else [])))
      else (ENOMEM, None))"
  using names_fit_components [of s] by (auto simp: new_path_def not_less)

section \<open>Splitting a path\<close>

lemma components_last: "last (components s) = rev (upto_slash (rev s))"
proof (induction s)
  case (Cons c s)
  have n: "components s \<noteq> []" by (cases s) simp_all
  show ?case
  proof (cases "CHR ''/'' \<in> set s")
    case True
    then have "tl (components s) \<noteq> []"
      by (subst components_upto) (auto simp: from_slash_def dropWhile_eq_Nil_conv components_upto split: list.split)
    moreover have "upto_slash (rev s @ [c]) = upto_slash (rev s)"
      using True by (simp add: upto_slash_def takeWhile_append1 [of "CHR ''/''"])
    ultimately show ?thesis using Cons n by (auto simp: last_tl)
  next
    case False
    then have "upto_slash (rev s) = rev s" by (auto simp: upto_slash_def takeWhile_eq_all_conv)
    moreover have "from_slash s = []" "upto_slash s = s"
      using False by (auto simp: from_slash_def upto_slash_def takeWhile_eq_all_conv)
    then have "components s = [s]" by (subst components_upto) simp
    moreover have "upto_slash (rev s @ [c]) = (if c = CHR ''/'' then rev s else rev s @ [c])"
      using False unfolding upto_slash_def by (subst takeWhile_append2) auto
    ultimately show ?thesis by simp
  qed
qed (simp add: upto_slash_def)

lemma components_dot: "components (s @ ''.'') = butlast (components s) @ [last (components s) @ ''.'']"
proof (induction s)
  case (Cons c s)
  have n: "components s \<noteq> []" by (cases s) simp_all
  then show ?case using Cons by (cases "components s") auto
qed simp

text \<open>Claim C37: the file name that \<open>get_dir_fd\<close> copies into the 256 bytes of its callers fits with the
  terminating zero, is not empty and has no slash; the directory that is left ends in a dot in place of the name, so that the two
  make up the path.\<close>

theorem split_path_bounds:
  assumes "new_path mem (Some s) = (0, Some p)" "split_path p = (name, dir)"
  shows "length name < FILE_NAME_LENGTH \<and> name \<noteq> [] \<and> CHR ''/'' \<notin> set name \<and> length p \<le> MAXPATHLEN \<and>
    length dir \<le> length p \<and> (\<exists>d. dir = d @ ''.'' \<and> p = d @ name \<and> (d = [] \<or> last d = CHR ''/''))"
proof -
  have s: "s \<noteq> []" "length s < MAXPATHLEN" "\<forall>w \<in> set (components s). length w < FILE_NAME_LENGTH"
    "p = s @ (if last s = CHR ''/'' then ''.'' else [])"
    using assms(1) by (auto simp: new_path_accepts not_le split: if_splits)
  have p: "p \<noteq> []" "last p \<noteq> CHR ''/''" "length p \<le> MAXPATHLEN" using s by auto
  define n where "n = rev (upto_slash (rev p))"
  have n: "n \<noteq> []" "CHR ''/'' \<notin> set n"
    using p set_takeWhileD [of "CHR ''/''"] by (auto simp: n_def upto_slash_def last_conv_nth hd_rev takeWhile_eq_Nil_iff)
  define d where "d = rev (from_slash (rev p))"
  have dn: "p = d @ n" "d = [] \<or> last d = CHR ''/''"
    using takeWhile_dropWhile_id [of "\<lambda>c. c \<noteq> CHR ''/''" "rev p"] hd_dropWhile [of "\<lambda>c. c \<noteq> CHR ''/''" "rev p"]
    by (auto simp: d_def n_def upto_slash_def from_slash_def last_rev simp flip: rev_append)
  have sp: "split_path p = (n, d @ ''.'')"
  proof (cases "CHR ''/'' \<in> set p")
    case True
    have "take (length p - length n) p = d" using dn(1) by simp
    with True show ?thesis by (simp add: split_path_def n_def [symmetric] Let_def)
  next
    case False
    then have "upto_slash (rev p) = rev p" "from_slash (rev p) = []"
      by (auto simp: upto_slash_def from_slash_def takeWhile_eq_all_conv)
    then have "n = p" "d = []" by (simp_all add: n_def d_def)
    with False show ?thesis by (simp add: split_path_def)
  qed
  have "length n < FILE_NAME_LENGTH"
  proof (cases "last s = CHR ''/''")
    case True
    then have "last (components s) = []" using s(1) by (simp add: components_last upto_slash_def takeWhile_eq_Nil_iff hd_rev)
    moreover have "p = s @ ''.''" using s(4) True by simp
    then have "last (components p) = last (components s) @ ''.''" using components_dot [of s] by (metis last_snoc)
    ultimately have "n = ''.''" unfolding n_def components_last [symmetric] by simp
    then show ?thesis by (simp add: FILE_NAME_LENGTH_def)
  next
    case False
    then have "n = last (components s)" using components_last [of s] s(4) by (simp add: n_def)
    moreover have "components s \<noteq> []" by (cases s) simp_all
    ultimately show ?thesis using s(3) by simp
  qed
  moreover have "length (d @ ''.'') \<le> length p" using dn(1) n(1) by (cases n) auto
  ultimately show ?thesis using assms(2) sp n dn p(3) by auto
qed

theorem split_path_bounds_witness:
  "new_path True (Some ''/usr//bin/'') = (0, Some ''/usr//bin/.'') \<and> split_path ''/usr//bin/.'' = (''.'', ''/usr//bin/.'') \<and>
   split_path ''/usr/ls'' = (''ls'', ''/usr/.'') \<and> length ''ls'' < FILE_NAME_LENGTH"
proof -
  have "new_path True (Some ''/usr/ls'') = (0, Some ''/usr/ls'')" "split_path ''/usr/ls'' = (''ls'', ''/usr/.'')" by code_simp+
  note b = split_path_bounds [OF this]
  moreover have "new_path True (Some ''/usr//bin/'') = (0, Some ''/usr//bin/.'')"
    "split_path ''/usr//bin/.'' = (''.'', ''/usr//bin/.'')" "split_path ''/usr/ls'' = (''ls'', ''/usr/.'')" by code_simp+
  ultimately show ?thesis by simp
qed

end
