(* ===== verification/Kernel_Mount.thy ===== *)
theory Kernel_Mount
  imports Kernel_Sys
begin

text \<open>
  Mounting and unmounting in \<open>kernel.c\<close>, the table of the file systems and the start of the vnode layer.
  \<open>stat\<close> on the device is an input of \<open>sys_mount\<close>: \<open>None\<close> without a device, otherwise its answer.
\<close>

section \<open>The table of the file systems\<close>

text \<open>The loops \<open>for (i = 0; i < n; i++, nx++) if (!tab[nx % n])\<close> of \<open>install_file_system\<close> and \<open>sys_mount\<close>: the
  free number found, if any, and the counter after the loop.\<close>

fun next_slot :: "'a option list \<Rightarrow> nat \<Rightarrow> nat \<Rightarrow> nat option \<times> nat" where
  "next_slot tab 0 nx = (None, nx)"
| "next_slot tab (Suc i) nx =
     (if tab ! (nx mod length tab) = None then (Some nx, Suc nx) else next_slot tab i (Suc nx))"

definition install_file_system ::
  "string \<Rightarrow> string \<Rightarrow> bool \<Rightarrow> int \<Rightarrow> 'w kernel \<Rightarrow> nat option \<times> 'w kernel" where
  "install_file_system ops name fixed aid k =
     (if \<not> k_mem k then (None, k)
      else case next_slot (k_fstab k) (length (k_fstab k)) (k_nxfsid k) of
        (None, nx) \<Rightarrow> (None, k\<lparr>k_nxfsid := nx\<rparr>)
      | (Some fsid, nx) \<Rightarrow>
          let a = k_nxaddr k
          in (Some a, k\<lparr>k_nxaddr := Suc a, k_nxfsid := nx,
                k_fstab := (k_fstab k)[fsid mod length (k_fstab k) := Some a],
                k_fs := (k_fs k)(a \<mapsto> \<lparr>fs_fsid = fsid, fs_fixed = fixed, fs_aid = aid, fs_name = name,
                                      fs_rcnt = 1, fs_ops = ops\<rparr>)\<rparr>))"

definition fs_named :: "'w kernel \<Rightarrow> string \<Rightarrow> nat option \<Rightarrow> bool" where
  "fs_named k name e = (case e of None \<Rightarrow> False
     | Some a \<Rightarrow> (case k_fs k a of None \<Rightarrow> False | Some fs \<Rightarrow> fs_name fs = name))"

text \<open>\<open>inc_file_system\<close>; \<open>load_file_system\<close> finds nothing.\<close>

definition inc_file_system :: "string \<Rightarrow> 'w kernel \<Rightarrow> nat option \<times> 'w kernel" where
  "inc_file_system name k = (case find (fs_named k name) (k_fstab k) of
     Some (Some a) \<Rightarrow> (Some a, k\<lparr>k_fs := (k_fs k)(a := map_option (\<lambda>fs. fs\<lparr>fs_rcnt := fs_rcnt fs + 1\<rparr>) (k_fs k a))\<rparr>)
   | _ \<Rightarrow> (None, k))"

definition unload_file_system :: "nat \<Rightarrow> fsystem \<Rightarrow> 'w kernel \<Rightarrow> 'w kernel" where
  "unload_file_system a fs k =
     k\<lparr>k_fstab := (k_fstab k)[fs_fsid fs mod length (k_fstab k) := None], k_fs := (k_fs k)(a := None)\<rparr>"

definition dec_file_system :: "nat \<Rightarrow> 'w kernel \<Rightarrow> 'w kernel option" where
  "dec_file_system a k = do {
     fs \<leftarrow> k_fs k a;
     let fs' = fs\<lparr>fs_rcnt := fs_rcnt fs - 1\<rparr>;
     let k1 = k\<lparr>k_fs := (k_fs k)(a \<mapsto> fs')\<rparr>;
     Some (if \<not> fs_fixed fs' \<and> fs_rcnt fs' = 0 then unload_file_system a fs' k1 else k1) }"

section \<open>Mounting\<close>

definition twice_mounted :: "'w kernel \<Rightarrow> int \<Rightarrow> int \<Rightarrow> bool" where
  "twice_mounted k dev ino \<longleftrightarrow> (\<exists>n \<in> set (k_nshead k). \<exists>sp. k_ns k n = Some sp \<and> ns_dev sp = dev \<and> ns_ino sp = ino)"

lemma twice_mounted_code [code]:
  "twice_mounted k dev ino = list_ex (\<lambda>n. case k_ns k n of None \<Rightarrow> False
     | Some sp \<Rightarrow> ns_dev sp = dev \<and> ns_ino sp = ino) (k_nshead k)"
  by (auto simp: twice_mounted_def list_ex_iff split: option.splits)

text \<open>Taking a name space out of the table and the list (\<open>error5\<close> of \<open>sys_mount\<close>, and \<open>sys_unmount\<close>).\<close>

definition drop_ns :: "nspace_id \<Rightarrow> 'w kernel \<Rightarrow> 'w kernel" where
  "drop_ns n k = k\<lparr>k_nstab := (k_nstab k)[n mod length (k_nstab k) := None], k_nshead := remove1 n (k_nshead k)\<rparr>"

definition free_ns :: "nspace_id \<Rightarrow> 'w kernel \<Rightarrow> 'w kernel" where
  "free_ns n k = k\<lparr>k_ns := (k_ns k)(n := None)\<rparr>"

text \<open>\<open>sys_mount\<close>: the value returned (\<open>None\<close> is \<open>NULL\<close>) and \<open>errno\<close>, which the exit for a device that does
  not exist leaves alone.  The exit for a directory that is already in use (\<open>error6\<close>) calls \<open>dec_vnode\<close> while \<open>vnlock\<close>
  is held, and never comes back.\<close>

definition sys_mount ::
  "'w vnenv \<Rightarrow> 'w fsenv \<Rightarrow> string \<Rightarrow> int \<Rightarrow> string option \<Rightarrow> string option \<Rightarrow> (int \<times> int) option \<Rightarrow>
     int \<Rightarrow> int \<Rightarrow> int \<Rightarrow> errno \<Rightarrow> 'w kernel \<Rightarrow> (int option \<times> errno \<times> 'w kernel) option" where
  "sys_mount E H filesystem fd whr device stat flags parms len errno0 k =
     (if device \<noteq> None \<and> stat = None then Some (None, errno0, k)
      else let (dev, ino) = (if device = None then (- 1, - 1) else the stat) in do {
        (err, mnt, k1) \<leftarrow> get_file_fd E H True fd whr True k;
        if err \<noteq> 0 then Some (None, err, k1)
        else do {
          p \<leftarrow> vop op_rstat H mnt k1;
          rstat \<leftarrow> p;
          (err2, st, k2) \<leftarrow> rstat k1;
          let quit = (\<lambda>err k. do { k' \<leftarrow> dec_vnode E mnt False k; Some (None, err, k') });
          if err2 \<noteq> 0 then quit err2 k2
          else if \<not> MY_S_ISDIR (st_mode st) then quit ENOTDIR k2
          else if \<not> k_mem k2 then quit ENOMEM k2
          else (case inc_file_system filesystem k2 of
              (None, k3) \<Rightarrow> quit ENODEV k3
            | (Some fs, k3) \<Rightarrow>
                if device \<noteq> None \<and> twice_mounted k3 dev ino then do {
                  k4 \<leftarrow> dec_file_system fs k3; quit ENODEV k4 }
                else (case next_slot (k_nstab k3) (length (k_nstab k3)) (k_nxnsid k3) of
                    (None, nx) \<Rightarrow> do { k4 \<leftarrow> dec_file_system fs (k3\<lparr>k_nxnsid := nx\<rparr>); quit EMFILE k4 }
                  | (Some n, nx) \<Rightarrow> do {
                      let k4 = k3\<lparr>k_nxnsid := nx, k_nstab := (k_nstab k3)[n mod length (k_nstab k3) := Some n],
                        k_nshead := n # k_nshead k3,
                        k_ns := (k_ns k3)(n \<mapsto> \<lparr>ns_dev = dev, ns_ino = ino, ns_fs = fs, ns_vnodes = [],
                          ns_data = 0, ns_root = None, ns_mount = None, ns_shutdown = False\<rparr>)\<rparr>;
                      fsys \<leftarrow> k_fs k4 fs;
                      mount \<leftarrow> op_mount (H (fs_ops fsys));
                      (err3, (data, vnid), k5) \<leftarrow> mount n device flags parms len k4;
                      if err3 \<noteq> 0 then do {
                        k6 \<leftarrow> dec_file_system fs (drop_ns n k5);
                        quit err3 (free_ns n k6) }
                      else do {
                        root \<leftarrow> lookup_vnode n vnid k5;
                        k6 \<leftarrow> upd_ns n (\<lambda>sp. sp\<lparr>ns_root := root, ns_data := data\<rparr>) k5;
                        if Some mnt = k_rootvn k6 \<or> vn_mounted (k_vn k6 mnt) \<noteq> None then None
                        else do {
                          k7 \<leftarrow> upd_ns n (\<lambda>sp. sp\<lparr>ns_mount := Some mnt\<rparr>)
                                  (upd_vn mnt (\<lambda>x. x\<lparr>vn_mounted := Some n\<rparr>) k6);
                          Some (Some data, errno0, k7) } } })) } })"

section \<open>Unmounting\<close>

text \<open>The loop that releases the vnodes of a name space, from the head of its list.\<close>

fun release_all :: "'w vnenv \<Rightarrow> vaddr list \<Rightarrow> 'w kernel \<Rightarrow> 'w kernel option" where
  "release_all E [] k = Some k"
| "release_all E (v # vs) k = do {
     ops \<leftarrow> ops_of E k v;
     ns \<leftarrow> ns_of k v;
     (_, w) \<leftarrow> op_release_vnode ops (ns_data ns) (vn_data (k_vn k v)) False (k_world k);
     k1 \<leftarrow> clear_vnode v (upd_vn v (vn_busy_update (\<lambda>_. False)) (k\<lparr>k_world := w\<rparr>));
     release_all E vs (move_vnode v FREE_LIST k1) }"

fun set_busy :: "vaddr list \<Rightarrow> 'w kernel \<Rightarrow> 'w kernel" where
  "set_busy [] k = k"
| "set_busy (v # vs) k = set_busy vs (upd_vn v (vn_busy_update (\<lambda>_. True)) k)"

definition sys_unmount :: "'w vnenv \<Rightarrow> 'w fsenv \<Rightarrow> int \<Rightarrow> string option \<Rightarrow> 'w kact" where
  "sys_unmount E H fd whr k = do {
     (err, root, k1) \<leftarrow> get_file_fd E H True fd whr True k;
     if err \<noteq> 0 then Some (err, k1)
     else do {
       n \<leftarrow> vn_ns (k_vn k1 root);
       ns \<leftarrow> k_ns k1 n;
       if ns_root ns \<noteq> Some root then Some (EINVAL, k1)
       else if k_rootvn k1 = Some root then Some (EBUSY, k1)
       else
         let k2 = upd_vn root (\<lambda>x. x\<lparr>vn_rcnt := vn_rcnt x - 2\<rparr>) k1
         in if \<exists>v \<in> set (ns_vnodes ns). vn_busy (k_vn k2 v) \<or> vn_rcnt (k_vn k2 v) \<noteq> 0
            then Some (EBUSY, upd_vn root (\<lambda>x. x\<lparr>vn_rcnt := vn_rcnt x + 1\<rparr>) k2)
            else do {
              mnt \<leftarrow> ns_mount ns;
              k3 \<leftarrow> upd_ns n (\<lambda>sp. sp\<lparr>ns_shutdown := True\<rparr>) (upd_vn mnt (\<lambda>x. x\<lparr>vn_mounted := None\<rparr>) k2);
              k4 \<leftarrow> release_all E (ns_vnodes ns) (set_busy (ns_vnodes ns) k3);
              fsys \<leftarrow> k_fs k4 (ns_fs ns);
              unmount \<leftarrow> op_unmount (H (fs_ops fsys));
              (_, k5) \<leftarrow> unmount (ns_data ns) (drop_ns n k4);
              k6 \<leftarrow> dec_file_system (ns_fs ns) (free_ns n k5);
              put_back E mnt 0 k6 } } }"

section \<open>Synchronising\<close>

fun sync_all :: "'w fsenv \<Rightarrow> nspace_id list \<Rightarrow> 'w kernel \<Rightarrow> 'w kernel option" where
  "sync_all H [] k = Some k"
| "sync_all H (n # ns) k = do {
     sp \<leftarrow> k_ns k n;
     root \<leftarrow> ns_root sp;
     fsys \<leftarrow> k_fs k (ns_fs sp);
     let k1 = inc_vnode root k;
     k2 \<leftarrow> call_opt (op_sync (H (fs_ops fsys))) (ns_data sp) k1;
     sync_all H ns (upd_vn root (\<lambda>x. x\<lparr>vn_rcnt := vn_rcnt x - 1\<rparr>) k2) }"

definition sys_sync :: "'w fsenv \<Rightarrow> 'w kact" where
  "sys_sync H k = do { k1 \<leftarrow> sync_all H (k_nshead k) k; Some (0, k1) }"

section \<open>The start\<close>

text \<open>The tables of \<open>init_vnode_layer\<close>, sized by the memory: one vnode and one descriptor for every
  32 KB, a quarter of the vnodes in no use at most, a mount point for every 128 KB and a file system for every 256 KB.
  The C code does not check these allocations: without memory (\<open>mem\<close>) it writes through a null pointer.\<close>

definition init_tables :: "bool \<Rightarrow> nat \<Rightarrow> int list \<Rightarrow> 'w \<Rightarrow> 'w kernel option" where
  "init_tables mem memsize rs w = (if \<not> mem then None else do {
     let vnnum = memsize div 2 ^ 15;
     sl \<leftarrow> NewSL True mem (Some 0) NO_DUPLICATES Map.empty;
     fds \<leftarrow> new_fds mem mem (memsize div 2 ^ 15);
     Some \<lparr>k_vn = (\<lambda>_. \<lparr>vn_vnid = invalid_vnid, vn_ns = None, vn_mounted = None, vn_remove = False,
              vn_busy = False, vn_inlist = FREE_LIST, vn_rcnt = 0, vn_data = 0\<rparr>),
       k_list = (\<lambda>l. if l = FREE_LIST then [0..<vnnum] else []),
       k_index = sl, k_rand = rs, k_slnext = 1, k_mem = mem, k_usdvnnum = int (vnnum div 4),
       k_ns = Map.empty, k_nstab = replicate (memsize div 2 ^ 17) None, k_nshead = [], k_nxnsid = 1,
       k_fs = Map.empty, k_fstab = replicate (memsize div 2 ^ 18) None, k_nxfsid = 1, k_nxaddr = 0,
       k_rootvn = None, k_of = Map.empty, k_fds = fds, k_iofds = None, k_cwd = None, k_world = w\<rparr> })"

text \<open>The first name space comes from \<open>malloc\<close>, and its device and inode numbers are never set: they are what the memory held,
  \<open>dev0\<close> and \<open>ino0\<close>.\<close>

definition init_vnode_layer :: "'w fsenv \<Rightarrow> bool \<Rightarrow> nat \<Rightarrow> int \<Rightarrow> int \<Rightarrow> int list \<Rightarrow> 'w \<Rightarrow> (errno \<times> 'w kernel) option" where
  "init_vnode_layer H mem memsize dev0 ino0 rs w = do {
     k \<leftarrow> init_tables mem memsize rs w;
     let (_, k1) = install_file_system ''rootfs'' ''rootfs'' True (- 1) k;
     let (f, k2) = inc_file_system ''rootfs'' k1;
     fs \<leftarrow> f;
     let n = k_nxnsid k2;
     let k3 = k2\<lparr>k_nxnsid := Suc n, k_nstab := (k_nstab k2)[n mod length (k_nstab k2) := Some n], k_nshead := [n],
       k_ns := [n \<mapsto> \<lparr>ns_dev = dev0, ns_ino = ino0, ns_fs = fs, ns_vnodes = [], ns_data = 0, ns_root = None,
                    ns_mount = None, ns_shutdown = False\<rparr>]\<rparr>;
     fsys \<leftarrow> k_fs k3 fs;
     mount \<leftarrow> op_mount (H (fs_ops fsys));
     (_, (data, vnid), k4) \<leftarrow> mount n None 0 0 0 k3;
     root \<leftarrow> lookup_vnode n vnid k4;
     k5 \<leftarrow> upd_ns n (\<lambda>sp. sp\<lparr>ns_data := data, ns_root := root\<rparr>) k4;
     Some (0, k5\<lparr>k_rootvn := root\<rparr>) }"

end
