(* ===== verification/Rootfs.thy ===== *)
theory Rootfs
  imports Kernel_Mount "HOL-Library.List_Lexorder" "HOL-Library.Char_ord"
begin

text \<open>
  The root file system of \<open>rootfs.c\<close>: a tree of directories and symbolic links in memory.  Its nodes, name
  spaces and directory positions live in a store from addresses; the \<open>void *\<close> values that the kernel keeps for it are these
  addresses.  The children of a directory, a doubly linked list ordered by name in the C code, are a list of addresses.
  A name is \<open>None\<close> where the C pointer is \<open>NULL\<close> or dangling.  \<open>strcmp\<close> is the
  lexicographic order of the strings; \<open>time\<close>, \<open>malloc\<close> and \<open>rand\<close> are fields of the store.  The lock of the name space
  is free at every call.
\<close>

section \<open>Data\<close>

record rnode =
  rn_name :: "string option"
  rn_removed :: bool
  rn_ns :: nat
  rn_vnid :: vnode_id
  rn_parent :: nat
  rn_mtime :: int
  rn_uid :: int
  rn_gid :: int
  rn_mode :: int
  rn_kids :: "nat list"
  rn_symlink :: "string option"

record dirpos =
  dp_pos :: nat
  dp_name :: string

record ritem =
  ri_vnid :: vnode_id
  ri_node :: nat

record rspace =
  rs_nsid :: nspace_id
  rs_vnnum :: int
  rs_root :: nat
  rs_nxvnid :: vnode_id
  rs_index :: "SkipList \<times> ritem slheap"
  rs_slnext :: sladdr

record rfs =
  rf_ns :: "nat \<rightharpoonup> rspace"
  rf_node :: "nat \<rightharpoonup> rnode"
  rf_pos :: "nat \<rightharpoonup> dirpos"
  rf_next :: nat
  rf_mem :: bool
  rf_moves :: bool
  rf_rand :: "int list"
  rf_time :: int

definition MY_S_IFMT :: int where "MY_S_IFMT = 0xf000"
definition MY_S_IFDIR :: int where "MY_S_IFDIR = 0x4000"
definition MY_S_IFLNK :: int where "MY_S_IFLNK = 0xa000"

definition MY_S_ISLNK :: "int \<Rightarrow> bool" where
  "MY_S_ISLNK m \<longleftrightarrow> m AND 0xf000 = 0xa000"

definition rootfs_compare_vnode :: "ritem \<Rightarrow> ritem \<Rightarrow> int" where
  "rootfs_compare_vnode a b =
     (if ri_vnid a > ri_vnid b then 1 else if ri_vnid a < ri_vnid b then - 1 else 0)"

definition upd_node :: "nat \<Rightarrow> (rnode \<Rightarrow> rnode) \<Rightarrow> rfs \<Rightarrow> rfs option" where
  "upd_node a f w = do { x \<leftarrow> rf_node w a; Some (w\<lparr>rf_node := (rf_node w)(a \<mapsto> f x)\<rparr>) }"

text \<open>An action on the store of the root file system as an action on the kernel.\<close>

definition on_world :: "('w \<Rightarrow> ('r \<times> 'w) option) \<Rightarrow> 'w kernel \<Rightarrow> ('r \<times> 'w kernel) option" where
  "on_world f k = do { (r, w) \<leftarrow> f (k_world k); Some (r, k\<lparr>k_world := w\<rparr>) }"

section \<open>What the vnode layer calls\<close>

definition rootfs_read_vnode :: "int \<Rightarrow> vnode_id \<Rightarrow> bool \<Rightarrow> rfs \<Rightarrow> (errno \<times> int \<times> rfs) option" where
  "rootfs_read_vnode d i r w = do {
     ns \<leftarrow> rf_ns w (nat d);
     f \<leftarrow> SearchSL rootfs_compare_vnode \<lparr>ri_vnid = i, ri_node = 0\<rparr> (rs_index ns);
     Some (case f of None \<Rightarrow> (ENOENT, 0, w) | Some it \<Rightarrow> (0, int (ri_node it), w)) }"

definition rootfs_write_vnode :: "int \<Rightarrow> int \<Rightarrow> bool \<Rightarrow> rfs \<Rightarrow> (errno \<times> rfs) option" where
  "rootfs_write_vnode d x r w = Some (0, w)"

definition rootfs_remove_vnode :: "int \<Rightarrow> int \<Rightarrow> bool \<Rightarrow> rfs \<Rightarrow> (errno \<times> rfs) option" where
  "rootfs_remove_vnode d x r w = do {
     ns \<leftarrow> rf_ns w (nat d);
     node \<leftarrow> rf_node w (nat x);
     (_, s) \<leftarrow> DeleteSL rootfs_compare_vnode \<lparr>ri_vnid = rn_vnid node, ri_node = nat x\<rparr> (rs_index ns);
     Some (0, w\<lparr>rf_ns := (rf_ns w)(nat d \<mapsto> ns\<lparr>rs_index := s, rs_vnnum := rs_vnnum ns - 1\<rparr>),
                rf_node := (rf_node w)(nat x := None)\<rparr>) }"

section \<open>Directories\<close>

text \<open>The search by name along the children; a dangling name is not read without harm.\<close>

fun find_kid :: "rfs \<Rightarrow> string \<Rightarrow> nat list \<Rightarrow> nat option option" where
  "find_kid w name [] = Some None"
| "find_kid w name (a # as) = do {
     x \<leftarrow> rf_node w a;
     nm \<leftarrow> rn_name x;
     if nm = name then Some (Some a) else find_kid w name as }"

text \<open>The search of \<open>do_create\<close>, which stops at the first greater name, and the place of a new child: before
  the first name that is not smaller.\<close>

fun create_lookup :: "rfs \<Rightarrow> string \<Rightarrow> nat list \<Rightarrow> nat option option" where
  "create_lookup w name [] = Some None"
| "create_lookup w name (a # as) = do {
     x \<leftarrow> rf_node w a;
     nm \<leftarrow> rn_name x;
     if name < nm then Some None
     else if name = nm then Some (Some a)
     else create_lookup w name as }"

fun insert_kid :: "rfs \<Rightarrow> string \<Rightarrow> nat \<Rightarrow> nat list \<Rightarrow> nat list option" where
  "insert_kid w name v [] = Some [v]"
| "insert_kid w name v (a # as) = do {
     x \<leftarrow> rf_node w a;
     nm \<leftarrow> rn_name x;
     if name > nm then do { as' \<leftarrow> insert_kid w name v as; Some (a # as') }
     else Some (v # a # as) }"

definition unlink_kid :: "nat \<Rightarrow> rfs \<Rightarrow> rfs option" where
  "unlink_kid v w = do {
     x \<leftarrow> rf_node w v;
     upd_node (rn_parent x) (rn_kids_update (remove1 v)) w }"

definition rootfs_walk ::
  "rfs vnenv \<Rightarrow> int \<Rightarrow> int \<Rightarrow> string \<Rightarrow> bool \<Rightarrow> (string option \<times> vnode_id, rfs) kget" where
  "rootfs_walk E d b file want k = do {
     ns \<leftarrow> rf_ns (k_world k) (nat d);
     base \<leftarrow> rf_node (k_world k) (nat b);
     let load = (\<lambda>vnid. do {
       (err, x, k1) \<leftarrow> get_vnode E (rs_nsid ns) vnid k;
       if err \<noteq> 0 then Some (err, (None, 0), k1)
       else do { vn \<leftarrow> rf_node (k_world k1) (nat x); Some (0, (None, rn_vnid vn), k1) } });
     if \<not> MY_S_ISDIR (rn_mode base) then Some (ENOTDIR, (None, 0), k)
     else if rn_removed base then Some (ENOENT, (None, 0), k)
     else if file = ''.'' then do {
       (err, _, k1) \<leftarrow> get_vnode E (rs_nsid ns) (rn_vnid base) k;
       Some (err, (None, if err = 0 then rn_vnid base else 0), k1) }
     else if file = ''..'' then do {
       par \<leftarrow> rf_node (k_world k) (rn_parent base);
       load (rn_vnid par) }
     else do {
       f \<leftarrow> find_kid (k_world k) file (rn_kids base);
       case f of
         None \<Rightarrow> Some (ENOENT, (None, 0), k)
       | Some a \<Rightarrow> do {
           vn \<leftarrow> rf_node (k_world k) a;
           if MY_S_ISLNK (rn_mode vn) \<and> want then
             (let (err, np) = new_path (k_mem k) (rn_symlink vn)
              in if err \<noteq> 0 then Some (err, (None, 0), k)
                 else do { new \<leftarrow> np; Some (0, (Some new, 0), k) })
           else load (rn_vnid vn) } } }"

definition do_create :: "nat \<Rightarrow> nat \<Rightarrow> string \<Rightarrow> int \<Rightarrow> rfs \<Rightarrow> ((errno \<times> nat) \<times> rfs) option" where
  "do_create d dir name mode w = do {
     ns \<leftarrow> rf_ns w d;
     x \<leftarrow> rf_node w dir;
     if \<not> MY_S_ISDIR (rn_mode x) then Some ((ENOTDIR, 0), w)
     else if rn_removed x then Some ((ENOENT, 0), w)
     else if name = ''.'' \<or> name = ''..'' then Some ((EEXIST, 0), w)
     else do {
       f \<leftarrow> create_lookup w name (rn_kids x);
       case f of
         Some _ \<Rightarrow> Some ((EEXIST, 0), w)
       | None \<Rightarrow>
           if \<not> rf_mem w then Some ((ENOMEM, 0), w)
           else do {
             let v = rf_next w;
             let vnid = rs_nxvnid ns + 1;
             kids \<leftarrow> insert_kid w name v (rn_kids x);
             (r, s) \<leftarrow> InsertSL rootfs_compare_vnode (rf_rand w) (Some (rs_slnext ns))
                        \<lparr>ri_vnid = vnid, ri_node = v\<rparr> (rs_index ns);
             Some ((0, v), w\<lparr>rf_next := Suc v,
               rf_rand := (if r = DUPLICATE_ITEM then rf_rand w else rand_rest (rf_rand w)),
               rf_ns := (rf_ns w)(d \<mapsto> ns\<lparr>rs_nxvnid := vnid, rs_vnnum := rs_vnnum ns + 1, rs_index := s,
                 rs_slnext := (if r = 1 then Suc (rs_slnext ns) else rs_slnext ns)\<rparr>),
               rf_node := (rf_node w)(dir \<mapsto> x\<lparr>rn_mtime := rf_time w, rn_kids := kids\<rparr>,
                 v \<mapsto> \<lparr>rn_name = Some name, rn_removed = False, rn_ns = d, rn_vnid = vnid, rn_parent = dir,
                      rn_mtime = rf_time w, rn_uid = 0, rn_gid = 0, rn_mode = mode, rn_kids = [],
                      rn_symlink = None\<rparr>)\<rparr>) } } }"

definition rootfs_mkdir :: "int \<Rightarrow> int \<Rightarrow> string \<Rightarrow> int \<Rightarrow> rfs kact" where
  "rootfs_mkdir d dir name perms k = do {
     ((err, _), k1) \<leftarrow> on_world (do_create (nat d) (nat dir) name ((perms AND NOT MY_S_IFMT) OR MY_S_IFDIR)) k;
     Some (err, k1) }"

definition rootfs_symlink :: "int \<Rightarrow> int \<Rightarrow> string \<Rightarrow> string option \<Rightarrow> rfs kact" where
  "rootfs_symlink d dir name path k = do {
     p \<leftarrow> path;
     if \<not> rf_mem (k_world k) then Some (ENOMEM, k)
     else do {
       ((err, v), k1) \<leftarrow> on_world (do_create (nat d) (nat dir) name MY_S_IFLNK) k;
       if err \<noteq> 0 then Some (err, k1)
       else do {
         w \<leftarrow> upd_node v (rn_symlink_update (\<lambda>_. Some p)) (k_world k1);
         Some (0, k1\<lparr>k_world := w\<rparr>) } } }"

text \<open>Taking a node out of its directory for good: the vnode is loaded, marked and put back, so that it goes when its last
  user does (\<open>do_unlink\<close>, and \<open>rootfs_rename\<close> over an existing name).\<close>

definition kill_node :: "rfs vnenv \<Rightarrow> nspace_id \<Rightarrow> nat \<Rightarrow> (nat \<Rightarrow> rfs \<Rightarrow> rfs option) \<Rightarrow> rfs kact" where
  "kill_node E nsid v edit k = do {
     vn \<leftarrow> rf_node (k_world k) v;
     (err, x, k1) \<leftarrow> get_vnode E nsid (rn_vnid vn) k;
     if err \<noteq> 0 then Some (err, k1)
     else do {
       let u = nat x;
       un \<leftarrow> rf_node (k_world k1) u;
       (err2, k2) \<leftarrow> remove_vnode nsid (rn_vnid un) k1;
       if err2 \<noteq> 0 then Some (err2, k2)
       else do {
         w \<leftarrow> unlink_kid u (k_world k2);
         w1 \<leftarrow> edit u w;
         (_, k3) \<leftarrow> put_vnode E nsid (rn_vnid un) (k2\<lparr>k_world := w1\<rparr>);
         Some (0, k3) } } }"

definition do_unlink :: "rfs vnenv \<Rightarrow> nat \<Rightarrow> nat \<Rightarrow> string \<Rightarrow> bool \<Rightarrow> rfs kact" where
  "do_unlink E d dir name isdir k = do {
     ns \<leftarrow> rf_ns (k_world k) d;
     x \<leftarrow> rf_node (k_world k) dir;
     if \<not> MY_S_ISDIR (rn_mode x) then Some (ENOTDIR, k)
     else if name = ''..'' \<or> name = ''.'' then Some (EINVAL, k)
     else do {
       f \<leftarrow> find_kid (k_world k) name (rn_kids x);
       case f of
         None \<Rightarrow> Some (ENOENT, k)
       | Some v \<Rightarrow> do {
           vn \<leftarrow> rf_node (k_world k) v;
           if isdir \<and> rn_mode vn AND MY_S_IFDIR = 0 then Some (ENOTDIR, k)
           else if \<not> isdir \<and> rn_mode vn AND MY_S_IFDIR \<noteq> 0 then Some (EISDIR, k)
           else if v = rs_root ns then Some (EBUSY, k)
           else if MY_S_ISDIR (rn_mode vn) \<and> rn_kids vn \<noteq> [] then Some (ENOTEMPTY, k)
           else kill_node E (rs_nsid ns) v (\<lambda>u w. do {
                  w1 \<leftarrow> upd_node u (rn_removed_update (\<lambda>_. True)) w;
                  upd_node dir (rn_mtime_update (\<lambda>_. rf_time w)) w1 }) k } } }"

definition rootfs_unlink :: "rfs vnenv \<Rightarrow> int \<Rightarrow> int \<Rightarrow> string \<Rightarrow> rfs kact" where
  "rootfs_unlink E d dir name = do_unlink E (nat d) (nat dir) name False"

definition rootfs_rmdir :: "rfs vnenv \<Rightarrow> int \<Rightarrow> int \<Rightarrow> string \<Rightarrow> rfs kact" where
  "rootfs_rmdir E d dir name = do_unlink E (nat d) (nat dir) name True"

section \<open>Renaming\<close>

text \<open>The climb from the new directory to the root: \<open>True\<close> when the old directory is met on the way.  The
  climb does not end on a cycle.\<close>

partial_function (option) climbs_through :: "rfs \<Rightarrow> nat \<Rightarrow> nat \<Rightarrow> nat \<Rightarrow> bool option" where
  "climbs_through w root olddir a =
     (if a = root then Some False
      else do {
        x \<leftarrow> rf_node w a;
        if rn_parent x = olddir then Some True else climbs_through w root olddir (rn_parent x) })"

declare climbs_through.simps [code]

text \<open>The end of \<open>rootfs_rename\<close>: out of the old directory and into the new one.\<close>

definition move_kid :: "nat \<Rightarrow> nat \<Rightarrow> nat \<Rightarrow> string \<Rightarrow> rfs \<Rightarrow> rfs option" where
  "move_kid v olddir newdir newname w = do {
     w1 \<leftarrow> unlink_kid v w;
     nd \<leftarrow> rf_node w1 newdir;
     kids \<leftarrow> insert_kid w1 newname v (rn_kids nd);
     w2 \<leftarrow> upd_node newdir (rn_kids_update (\<lambda>_. kids)) w1;
     w3 \<leftarrow> upd_node v (rn_parent_update (\<lambda>_. newdir)) w2;
     w4 \<leftarrow> upd_node olddir (rn_mtime_update (\<lambda>_. rf_time w)) w3;
     w5 \<leftarrow> upd_node newdir (rn_mtime_update (\<lambda>_. rf_time w)) w4;
     upd_node v (rn_name_update (\<lambda>_. Some newname)) w5 }"

definition rootfs_rename ::
  "rfs vnenv \<Rightarrow> int \<Rightarrow> int \<Rightarrow> string \<Rightarrow> int \<Rightarrow> string \<Rightarrow> rfs kact" where
  "rootfs_rename E d od oldname nd newname k = do {
     let w = k_world k;
     let olddir = nat od;
     let newdir = nat nd;
     ns \<leftarrow> rf_ns w (nat d);
     o1 \<leftarrow> rf_node w olddir;
     n1 \<leftarrow> rf_node w newdir;
     if \<not> MY_S_ISDIR (rn_mode o1) \<or> \<not> MY_S_ISDIR (rn_mode n1) then Some (ENOTDIR, k)
     else if oldname = ''.'' \<or> oldname = ''..'' then Some (EPERM, k)
     else do {
       f \<leftarrow> find_kid w oldname (rn_kids o1);
       case f of
         None \<Rightarrow> Some (ENOENT, k)
       | Some v \<Rightarrow>
           if newname = ''.'' \<or> newname = ''..'' then Some (EPERM, k)
           else do {
             g \<leftarrow> find_kid w newname (rn_kids n1);
             if g = Some v then Some (0, k)
             else do {
               bad \<leftarrow> climbs_through w (rs_root ns) olddir newdir;
               if bad then Some (EINVAL, k)
               else do {
                 vn \<leftarrow> rf_node w v;
                 nm \<leftarrow> rn_name vn;
                 let grow = (length newname > length nm);
                 if grow \<and> \<not> rf_mem w then Some (ENOMEM, k)
                 else do {
                   w1 \<leftarrow> (if grow \<and> rf_moves w then upd_node v (rn_name_update (\<lambda>_. None)) w else Some w);
                   let k1 = k\<lparr>k_world := w1\<rparr>;
                   (err, k2) \<leftarrow> (case g of
                       None \<Rightarrow> Some (0, k1)
                     | Some u \<Rightarrow> do {
                         un \<leftarrow> rf_node w1 u;
                         if u = rs_root ns then Some (EBUSY, k1)
                         else if MY_S_ISDIR (rn_mode un) \<and> rn_kids un \<noteq> [] then Some (ENOTEMPTY, k1)
                         else kill_node E (rs_nsid ns) u (\<lambda>_ w. Some w) k1 });
                   if err \<noteq> 0 then Some (err, k2)
                   else do {
                     w2 \<leftarrow> move_kid v olddir newdir newname (k_world k2);
                     Some (0, k2\<lparr>k_world := w2\<rparr>) } } } } } } }"

section \<open>Directory positions and attributes\<close>

definition rootfs_readlink :: "int \<Rightarrow> int \<Rightarrow> int \<Rightarrow> (byte list \<times> int, rfs) kget" where
  "rootfs_readlink d x bufsize k = do {
     node \<leftarrow> rf_node (k_world k) (nat x);
     if \<not> MY_S_ISLNK (rn_mode node) then Some (EINVAL, ([], bufsize), k)
     else do {
       s \<leftarrow> rn_symlink node;
       let bytes = map (\<lambda>c. word_of_nat (of_char c)) s;
       Some (0, (take (nat bufsize) bytes, int (length s)), k) } }"

definition rootfs_opendir :: "int \<Rightarrow> int \<Rightarrow> (int, rfs) kget" where
  "rootfs_opendir d x k = do {
     let w = k_world k;
     node \<leftarrow> rf_node w (nat x);
     if \<not> MY_S_ISDIR (rn_mode node) then Some (ENOTDIR, 0, k)
     else if \<not> rf_mem w then Some (ENOMEM, 0, k)
     else Some (0, int (rf_next w), k\<lparr>k_world := w\<lparr>rf_next := Suc (rf_next w),
            rf_pos := (rf_pos w)(rf_next w \<mapsto> \<lparr>dp_pos = 0, dp_name = []\<rparr>)\<rparr>\<rparr>) }"

definition rootfs_closedir :: "int \<Rightarrow> int \<Rightarrow> int \<Rightarrow> rfs kact" where
  "rootfs_closedir d x c k = Some (0, k)"

definition rootfs_free_dircookie :: "int \<Rightarrow> int \<Rightarrow> int \<Rightarrow> rfs kact" where
  "rootfs_free_dircookie d x c k = do {
     _ \<leftarrow> rf_pos (k_world k) (nat c);
     Some (0, k\<lparr>k_world := (k_world k)\<lparr>rf_pos := (rf_pos (k_world k))(nat c := None)\<rparr>\<rparr>) }"

definition rootfs_rewinddir :: "int \<Rightarrow> int \<Rightarrow> int \<Rightarrow> rfs kact" where
  "rootfs_rewinddir d x c k = do {
     _ \<leftarrow> rf_pos (k_world k) (nat c);
     Some (0, k\<lparr>k_world := (k_world k)\<lparr>rf_pos := (rf_pos (k_world k))(nat c \<mapsto> \<lparr>dp_pos = 0, dp_name = []\<rparr>)\<rparr>\<rparr>) }"

text \<open>The names and ids of the children, and those after the last name returned.\<close>

fun kid_ents :: "rfs \<Rightarrow> nat list \<Rightarrow> (string \<times> vnode_id) list option" where
  "kid_ents w [] = Some []"
| "kid_ents w (a # as) = do {
     x \<leftarrow> rf_node w a;
     nm \<leftarrow> rn_name x;
     es \<leftarrow> kid_ents w as;
     Some ((nm, rn_vnid x) # es) }"

text \<open>The loop of \<open>rootfs_readdir\<close>: at most \<open>n\<close> entries, while the record of the next one fits
  in the \<open>room\<close> left.  A record takes 24 bytes (a four-byte device, padding, an eight-byte inode number, a
  \<open>short\<close> and a \<open>char\<close>, padded) and the length of the name, rounded up to eight.\<close>

definition rec_len :: "string \<Rightarrow> int" where
  "rec_len name = 24 + int (length name)"

definition rec_step :: "string \<Rightarrow> int" where
  "rec_step name = (rec_len name + 7) div 8 * 8"

fun emit :: "nat \<Rightarrow> int \<Rightarrow> (string \<times> vnode_id) list \<Rightarrow> my_dirent list" where
  "emit 0 room es = []"
| "emit (Suc n) room [] = []"
| "emit (Suc n) room ((name, vnid) # es) =
     (if rec_len name > room then []
      else \<lparr>d_dev = 0, d_ino = vnid, d_reclen = rec_step name, d_name = name\<rparr> # emit n (room - rec_step name) es)"

definition rootfs_readdir :: "int \<Rightarrow> int \<Rightarrow> int \<Rightarrow> int \<Rightarrow> int \<Rightarrow> (my_dirent list, rfs) kget" where
  "rootfs_readdir d x c num bufsize k = do {
     let w = k_world k;
     node \<leftarrow> rf_node w (nat x);
     par \<leftarrow> rf_node w (rn_parent node);
     dp \<leftarrow> rf_pos w (nat c);
     es \<leftarrow> kid_ents w (rn_kids node);
     let rest = (if dp_pos dp > 2 then dropWhile (\<lambda>(nm, _). dp_name dp \<ge> nm) es else es);
     let all = drop (dp_pos dp) [(''.'', rn_vnid node), (''..'', rn_vnid par)] @ rest;
     let out = emit (nat num) bufsize all;
     let pos = dp_pos dp + length out;
     let dp' = \<lparr>dp_pos = pos, dp_name = (if pos > 2 \<and> out \<noteq> [] then d_name (last out) else dp_name dp)\<rparr>;
     Some (0, out, k\<lparr>k_world := w\<lparr>rf_pos := (rf_pos w)(nat c \<mapsto> dp')\<rparr>\<rparr>) }"

definition rootfs_rstat :: "int \<Rightarrow> int \<Rightarrow> (my_stat, rfs) kget" where
  "rootfs_rstat d x k = do {
     ns \<leftarrow> rf_ns (k_world k) (nat d);
     node \<leftarrow> rf_node (k_world k) (nat x);
     Some (0, no_stat\<lparr>st_dev := int (rs_nsid ns), st_ino := rn_vnid node, st_mode := rn_mode node, st_nlink := 1,
       st_uid := rn_uid node, st_gid := rn_gid node, st_size := 0, st_blksize := 0,
       st_atime := rn_mtime node, st_ctime := rn_mtime node, st_mtime := rn_mtime node\<rparr>, k) }"

definition rootfs_wstat :: "int \<Rightarrow> int \<Rightarrow> my_stat \<Rightarrow> int \<Rightarrow> rfs kact" where
  "rootfs_wstat d x st m k =
     (if m AND 8 \<noteq> 0 then Some (EINVAL, k)
      else do {
        w \<leftarrow> upd_node (nat x) (\<lambda>n.
          let n1 = (if m AND 1 \<noteq> 0 then n\<lparr>rn_mode := (rn_mode n AND MY_S_IFMT) OR (st_mode st AND NOT MY_S_IFMT)\<rparr> else n);
              n2 = (if m AND 2 \<noteq> 0 then n1\<lparr>rn_uid := st_uid st\<rparr> else n1);
              n3 = (if m AND 4 \<noteq> 0 then n2\<lparr>rn_gid := st_gid st\<rparr> else n2);
              n4 = (if m AND 0x20 \<noteq> 0 then n3\<lparr>rn_mtime := st_mtime st\<rparr> else n3)
          in if m AND 0x10 \<noteq> 0 then n4\<lparr>rn_mtime := st_atime st\<rparr> else n4) (k_world k);
        Some (0, k\<lparr>k_world := w\<rparr>) })"

definition rootfs_access :: "int \<Rightarrow> int \<Rightarrow> int \<Rightarrow> rfs kact" where
  "rootfs_access d x mode k = Some (0, k)"

section \<open>Mounting\<close>

definition rootfs_mount ::
  "rfs vnenv \<Rightarrow> nspace_id \<Rightarrow> string option \<Rightarrow> int \<Rightarrow> int \<Rightarrow> int \<Rightarrow> (int \<times> vnode_id, rfs) kget" where
  "rootfs_mount E nsid device flags parms len k =
     (let w = k_world k in
      if device \<noteq> None \<or> parms \<noteq> 0 \<or> len \<noteq> 0 then Some (EINVAL, (0, 0), k)
      else if \<not> rf_mem w then Some (ENOMEM, (0, 0), k)
      else case NewSL True True (Some 0) NO_DUPLICATES Map.empty of
        None \<Rightarrow> Some (- 1, (0, 0), k)
      | Some sl \<Rightarrow> do {
          let d = rf_next w;
          let root = Suc d;
          let w1 = w\<lparr>rf_next := Suc root,
            rf_ns := (rf_ns w)(d \<mapsto> \<lparr>rs_nsid = nsid, rs_vnnum = 0, rs_root = root, rs_nxvnid = 1,
                                    rs_index = sl, rs_slnext = 1\<rparr>),
            rf_node := (rf_node w)(root \<mapsto> \<lparr>rn_name = None, rn_removed = False, rn_ns = d, rn_vnid = 1,
              rn_parent = root, rn_mtime = rf_time w, rn_uid = 0, rn_gid = 0, rn_mode = MY_S_IFDIR OR 0x1ff,
              rn_kids = [], rn_symlink = None\<rparr>)\<rparr>;
          (err, k1) \<leftarrow> new_vnode E nsid 1 (int root) (k\<lparr>k_world := w1\<rparr>);
          if err \<noteq> 0 then Some (err, (0, 0), k1\<lparr>k_world := (k_world k1)\<lparr>
              rf_ns := (rf_ns (k_world k1))(d := None), rf_node := (rf_node (k_world k1))(root := None)\<rparr>\<rparr>)
          else Some (0, (int d, 1), k1) })"

text \<open>The loop of \<open>rootfs_unmount\<close>: down to a leaf, up to its parent, and the first child of that is freed; it stops as
  soon as the parent is the root.\<close>

partial_function (option) first_leaf :: "rfs \<Rightarrow> nat \<Rightarrow> nat option" where
  "first_leaf w a = do {
     x \<leftarrow> rf_node w a;
     case rn_kids x of [] \<Rightarrow> Some a | c # _ \<Rightarrow> first_leaf w c }"

partial_function (option) unmount_loop :: "int \<Rightarrow> nat \<Rightarrow> nat \<Rightarrow> rfs \<Rightarrow> rfs option" where
  "unmount_loop d root a w = do {
     l \<leftarrow> first_leaf w a;
     x \<leftarrow> rf_node w l;
     let p = rn_parent x;
     if p = root then Some w
     else do {
       y \<leftarrow> rf_node w p;
       (case rn_kids y of
          [] \<Rightarrow> None
        | v # vs \<Rightarrow> do {
            w1 \<leftarrow> upd_node p (rn_kids_update (\<lambda>_. vs)) w;
            (_, w2) \<leftarrow> rootfs_remove_vnode d (int v) True w1;
            unmount_loop d root p w2 }) } }"

declare first_leaf.simps [code] unmount_loop.simps [code]

definition rootfs_unmount :: "int \<Rightarrow> rfs kact" where
  "rootfs_unmount d k = do {
     let w = k_world k;
     ns \<leftarrow> rf_ns w (nat d);
     w1 \<leftarrow> unmount_loop d (rs_root ns) (rs_root ns) w;
     Some (0, k\<lparr>k_world := w1\<lparr>rf_node := (rf_node w1)(rs_root ns := None), rf_ns := (rf_ns w1)(nat d := None)\<rparr>\<rparr>) }"

section \<open>The tables of operations\<close>

definition rootfs_vnops :: "rfs vnops" where
  "rootfs_vnops = \<lparr>op_read_vnode = rootfs_read_vnode, op_release_vnode = rootfs_write_vnode,
     op_remove_vnode = rootfs_remove_vnode\<rparr>"

definition rootfs_ops :: "rfs vnenv \<Rightarrow> rfs fsops" where
  "rootfs_ops E = \<lparr>op_walk = Some (rootfs_walk E), op_access = Some rootfs_access, op_create = None,
     op_mkdir = Some rootfs_mkdir, op_symlink = Some rootfs_symlink, op_link = None,
     op_rename = Some (rootfs_rename E), op_unlink = Some (rootfs_unlink E), op_rmdir = Some (rootfs_rmdir E),
     op_readlink = Some rootfs_readlink, op_opendir = Some rootfs_opendir, op_closedir = Some rootfs_closedir,
     op_free_dircookie = Some rootfs_free_dircookie, op_rewinddir = Some rootfs_rewinddir,
     op_readdir = Some rootfs_readdir, op_open = None, op_close = None, op_free_cookie = None, op_read = None,
     op_write = None, op_ioctl = None, op_rstat = Some rootfs_rstat, op_wstat = Some rootfs_wstat,
     op_fsync = None, op_mount = Some (rootfs_mount E), op_unmount = Some rootfs_unmount, op_sync = None\<rparr>"

end
