(* ===== verification/Kernel_Walk.thy ===== *)
theory Kernel_Walk
  imports Kernel_Path Vnode_Load
begin

text \<open>
  The walk along a path keeps the books: \<open>parse_path\<close> comes back, and between its call and its return exactly one reference
  moves from the vnode it starts at to the vnode it returns; after an error it is gone.  What the walk relies on is the
  contract \<open>walk_fs\<close> of the file systems: their operation \<open>walk\<close> loads the vnode it returns once, and
  changes no other count.
\<close>

section \<open>Counting references\<close>

text \<open>The references of the vnodes, and a count with one more reference for \<open>v\<close>.\<close>

definition counts :: "nat \<Rightarrow> (vaddr \<Rightarrow> int) \<Rightarrow> 'w kernel \<Rightarrow> bool" where
  "counts nv C k \<longleftrightarrow> (\<forall>v < nv. vn_rcnt (k_vn k v) = C v)"

definition plus1 :: "(vaddr \<Rightarrow> int) \<Rightarrow> vaddr \<Rightarrow> vaddr \<Rightarrow> int" where
  "plus1 C v = (\<lambda>u. C u + of_bool (u = v))"

text \<open>What stays of the vnodes that are held according to \<open>B\<close>; no vnode becomes a mount point.\<close>

definition same_vn :: "vnode \<Rightarrow> vnode \<Rightarrow> bool" where
  "same_vn x y \<longleftrightarrow> vn_ns y = vn_ns x \<and> vn_vnid y = vn_vnid x \<and> vn_mounted y = vn_mounted x \<and> vn_data y = vn_data x"

definition keeps :: "nat \<Rightarrow> (vaddr \<Rightarrow> int) \<Rightarrow> 'w kernel \<Rightarrow> 'w kernel \<Rightarrow> bool" where
  "keeps nv B k k' \<longleftrightarrow> kframe k k' \<and> (\<forall>v < nv. 0 < B v \<longrightarrow> same_vn (k_vn k v) (k_vn k' v)) \<and>
     (\<forall>v < nv. vn_mounted (k_vn k' v) \<noteq> None \<longrightarrow> vn_mounted (k_vn k' v) = vn_mounted (k_vn k v))"

lemma keeps_refl [simp]: "keeps nv B k k"
  by (simp add: keeps_def same_vn_def)

lemma keeps_trans: "keeps nv B a b \<Longrightarrow> keeps nv B b c \<Longrightarrow> keeps nv B a c"
  unfolding keeps_def same_vn_def by (metis kframe_trans)

lemma keeps_mono: "keeps nv C k k' \<Longrightarrow> (\<And>v. B v \<le> C v) \<Longrightarrow> keeps nv B k k'"
  unfolding keeps_def by (meson less_le_trans)

text \<open>The roots and the mount points of the mounted name spaces are held, and so is the root of the whole tree.\<close>

definition mounts_ok :: "nat \<Rightarrow> (vaddr \<Rightarrow> int) \<Rightarrow> 'w kernel \<Rightarrow> bool" where
  "mounts_ok nv B k \<longleftrightarrow> (\<forall>v < nv. \<forall>n. vn_mounted (k_vn k v) = Some n \<longrightarrow>
       (\<exists>sp. k_ns k n = Some sp \<and> ns_root sp \<noteq> None)) \<and>
     (\<forall>n sp v. k_ns k n = Some sp \<longrightarrow> ns_root sp = Some v \<or> ns_mount sp = Some v \<longrightarrow> v < nv \<and> 0 < B v) \<and>
     (\<exists>r < nv. k_rootvn k = Some r \<and> 0 < B r)"

lemma mounts_ok_keeps:
  assumes m: "mounts_ok nv B k" and s: "keeps nv B k k'"
  shows "mounts_ok nv B k'"
proof -
  have f: "kframe k k'" using s by (simp add: keeps_def)
  have ns: "\<exists>sp0. k_ns k n = Some sp0 \<and> ns_root sp = ns_root sp0 \<and> ns_mount sp = ns_mount sp0" if "k_ns k' n = Some sp" for n sp
  proof -
    have "k_ns k n \<noteq> None" using kframe_none [OF f, of n] that by simp
    then obtain sp0 where sp0: "k_ns k n = Some sp0" by auto
    obtain vs where "k_ns k' n = Some (sp0\<lparr>ns_vnodes := vs\<rparr>)" by (rule kframe_ns [OF f sp0])
    with that sp0 show ?thesis by auto
  qed
  have ns': "\<exists>sp. k_ns k' n = Some sp \<and> ns_root sp = ns_root sp0" if "k_ns k n = Some sp0" for n sp0
    by (rule kframe_ns [OF f that]) auto
  have "k_rootvn k' = k_rootvn k" using f by (simp add: kframe_def)
  moreover have "\<exists>sp. k_ns k' n = Some sp \<and> ns_root sp \<noteq> None" if "v < nv" "vn_mounted (k_vn k' v) = Some n" for v n
  proof -
    have "vn_mounted (k_vn k v) = Some n" using s that by (auto simp: keeps_def)
    with m \<open>v < nv\<close> have "\<exists>sp. k_ns k n = Some sp \<and> ns_root sp \<noteq> None" unfolding mounts_ok_def by blast
    with ns' show ?thesis by metis
  qed
  moreover have "v < nv \<and> 0 < B v" if "k_ns k' n = Some sp" "ns_root sp = Some v \<or> ns_mount sp = Some v" for n sp v
    using ns [OF that(1)] that(2) m unfolding mounts_ok_def by metis
  ultimately show ?thesis using m unfolding mounts_ok_def by auto
qed

section \<open>The steps\<close>

lemma inc_vnode_held:
  assumes inv: "vn_inv nv k" and c: "counts nv C k" and v: "v < nv" "0 < C v"
  shows "vn_inv nv (inc_vnode v k)" "counts nv (plus1 C v) (inc_vnode v k)" "keeps nv B k (inc_vnode v k)"
proof -
  have r: "0 < vn_rcnt (k_vn k v)" using c v by (simp add: counts_def)
  show "vn_inv nv (inc_vnode v k)"
  proof (rule vn_invI)
    show "vcore nv (in_core nv k) (inc_vnode v k)"
      unfolding inc_vnode_def by (rule vcore_upd [OF vn_invD(1) [OF inv]]) simp_all
    show "in_core nv k = in_core nv (inc_vnode v k)" by (auto simp: in_core_def inc_vnode_def)
    show "vn_state (k_vn (inc_vnode v k) u)" if "u < nv" for u
      using vn_invD(2) [OF inv that] in_use [OF inv v(1) r] r by (auto simp: inc_vnode_def vn_state_def)
    show "int (length (k_list (inc_vnode v k) USED_LIST)) \<le> k_usdvnnum (inc_vnode v k)"
      using vn_invD(3) [OF inv] by (simp add: inc_vnode_def)
  qed
  show "counts nv (plus1 C v) (inc_vnode v k)" using c by (auto simp: counts_def plus1_def inc_vnode_def)
  show "keeps nv B k (inc_vnode v k)" by (auto simp: keeps_def same_vn_def inc_vnode_def)
qed

lemma dec_of_counts:
  assumes inv: "vn_inv nv k" and c: "counts nv (plus1 C v) k" and v: "v < nv" "\<And>u. 0 \<le> C u" and d: "dec_of nv v R k k'"
  shows "counts nv C k'" "keeps nv C k k'"
proof -
  have r: "vn_rcnt (k_vn k u) = C u + of_bool (u = v)" if "u < nv" for u using c that by (simp add: counts_def plus1_def)
  have used: "vn_rcnt (k_vn k u) = 0" if "u < nv" "vn_inlist (k_vn k u) = USED_LIST" for u
    using vn_invD(2) [OF inv that(1)] that(2) by (simp add: vn_state_def)
  have R: "C u = 0" if "u \<in> R" for u
    using d that r [of u] r [of v] v(1) used [of u] by (auto simp: dec_of_def)
  have K: "k_vn k' u = (if u \<in> R then cleared ((k_vn k u)\<lparr>vn_inlist := FREE_LIST\<rparr>)
        else if u = v then (k_vn k v)\<lparr>vn_rcnt := vn_rcnt (k_vn k v) - 1,
          vn_inlist := (if vn_rcnt (k_vn k v) = 1 then USED_LIST else LOCKED_LIST)\<rparr>
        else k_vn k u)" for u
    using d by (simp add: dec_of_def)
  show "counts nv C k'" using r R by (auto simp: counts_def K)
  have "kframe k k'" using d by (simp add: dec_of_def)
  then show "keeps nv C k k'" using R by (auto simp: keeps_def same_vn_def K cleared_def)
qed

text \<open>A vnode without a reference is free or in no use.\<close>

lemma spare_vnode:
  assumes "vn_inv nv k" "v < nv" "vn_rcnt (k_vn k v) = 0"
  shows "k_list k FREE_LIST \<noteq> [] \<or> k_list k USED_LIST \<noteq> []"
proof -
  have "vn_inlist (k_vn k v) \<noteq> LOCKED_LIST" using vn_invD(2) [OF assms(1,2)] assms(3) by (auto simp: vn_state_def)
  then show ?thesis
    using vn_inv_lists(1) [OF assms(1), of v] assms(2) by (cases "vn_inlist (k_vn k v)") (metis empty_iff list.set(1))+
qed

text \<open>Loading a vnode adds one reference to it.\<close>

lemma load_of_counts:
  assumes inv: "vn_inv nv k" and c: "counts nv C k" and d: "load_of nv v n i k k'"
  shows "counts nv (plus1 C v) k'" "keeps nv C k k'" "lookup_vnode n i k' = Some (Some v)" "v < nv"
proof -
  have v: "v < nv" "is_vn n i (k_vn k' v)" "vn_rcnt (k_vn k' v) = vn_refs k n i + 1" "kframe k k'"
    "is_vn n i (k_vn k v) \<or> vn_rcnt (k_vn k v) = 0"
    and c': "vcore nv (insert v (in_core nv k)) k'" and o: "\<And>u. u \<noteq> v \<Longrightarrow> k_vn k' u = k_vn k u"
    using d by (auto simp: load_of_def)
  have refs: "vn_refs k n i = vn_rcnt (k_vn k v)"
  proof (cases "is_vn n i (k_vn k v)")
    case True
    then have "v \<in> in_core nv k" using v(1) by (auto simp: in_core_def is_vn_def)
    then show ?thesis by (rule vn_refs_found [OF vn_invD(1) [OF inv] _ True])
  next
    case False
    have "\<not> is_vn n i (k_vn k u)" if u: "u \<in> in_core nv k" for u
    proof (cases "u = v")
      case u': False
      show ?thesis
      proof
        assume "is_vn n i (k_vn k u)"
        then have "is_vn n i (k_vn k' u)" using o [OF u'] by simp
        from vcore_unique [OF c' _ _ this v(2)] u u' show False by blast
      qed
    qed (use False in simp)
    then have "vn_refs k n i = 0" by (rule vn_refs_absent [OF vn_invD(1) [OF inv]])
    with False v(5) show ?thesis by simp
  qed
  show "counts nv (plus1 C v) k'" unfolding counts_def
  proof (intro allI impI)
    fix u assume "u < nv"
    with c show "vn_rcnt (k_vn k' u) = plus1 C v u"
      using v(3) refs o [of u] by (cases "u = v") (simp_all add: counts_def plus1_def)
  qed
  have "same_vn (k_vn k u) (k_vn k' u)" if u: "u < nv" "0 < C u" for u
  proof (cases "u = v")
    case True
    then have "is_vn n i (k_vn k v)" using u c v(5) by (simp add: counts_def)
    with True v(2) d show ?thesis by (simp add: same_vn_def is_vn_def load_of_def)
  qed (simp add: o same_vn_def)
  moreover have "vn_mounted (k_vn k' u) = vn_mounted (k_vn k u)" if "vn_mounted (k_vn k' u) \<noteq> None" for u
    using d o [of u] that by (cases "u = v") (auto simp: load_of_def)
  ultimately show "keeps nv C k k'" using v(4) by (auto simp: keeps_def)
  show "lookup_vnode n i k' = Some (Some v)" by (rule lookup_found [OF c' _ v(2)]) simp
  show "v < nv" by (rule v(1))
qed

lemma unload_of_counts:
  assumes c: "counts nv C k" and d: "unload_of nv v k k'"
  shows "counts nv C k'" "keeps nv C k k'"
proof -
  have o: "\<And>u. u \<noteq> v \<Longrightarrow> k_vn k' u = k_vn k u" and r: "vn_rcnt (k_vn k' v) = vn_rcnt (k_vn k v)" "kframe k k'"
    "vn_rcnt (k_vn k v) = 0" "vn_mounted (k_vn k' v) = None \<or> vn_mounted (k_vn k' v) = vn_mounted (k_vn k v)"
    using d by (auto simp: unload_of_def)
  have "vn_rcnt (k_vn k' u) = vn_rcnt (k_vn k u)" for u using o r by (cases "u = v") auto
  with c show "counts nv C k'" by (simp add: counts_def)
  have "same_vn (k_vn k u) (k_vn k' u)" if "u < nv" "0 < C u" for u
    using that c r(3) o [of u] by (cases "u = v") (auto simp: counts_def same_vn_def)
  moreover have "vn_mounted (k_vn k' u) = vn_mounted (k_vn k u)" if "vn_mounted (k_vn k' u) \<noteq> None" for u
    using r(4) o [of u] that by (cases "u = v") auto
  ultimately show "keeps nv C k k'" using r(2) by (auto simp: keeps_def)
qed

lemma plus1_simps: "plus1 C v v = C v + 1" "(\<And>u. 0 \<le> C u) \<Longrightarrow> 0 \<le> plus1 C v u" "C u \<le> plus1 C v u"
  "plus1 (plus1 C u) v = plus1 (plus1 C v) u"
  by (auto simp: plus1_def fun_eq_iff)

section \<open>The contract of the file systems\<close>

text \<open>\<open>W\<close> is what the file systems themselves rely on: it holds before every call into them and after it.\<close>

locale walk_fs =
  fixes nv :: nat and E :: "'w vnenv" and H :: "'w fsenv" and W :: "'w kernel \<Rightarrow> bool"
  assumes dec: "vn_inv nv k \<Longrightarrow> W k \<Longrightarrow> v < nv \<Longrightarrow> 0 < vn_rcnt (k_vn k v) \<Longrightarrow>
      \<exists>k' R. dec_vnode E v False k = Some k' \<and> dec_of nv v R k k' \<and> W k'"
    and inc: "W k \<Longrightarrow> W (inc_vnode v k)"
    and walk: "vn_inv nv k \<Longrightarrow> W k \<Longrightarrow> counts nv C k \<Longrightarrow> b < nv \<Longrightarrow> 0 < C b \<Longrightarrow> u < nv \<Longrightarrow> C u = 0 \<Longrightarrow>
      \<exists>f err new i k'. vop op_walk H b k = Some (Some f) \<and> f p want k = Some (err, (new, i), k') \<and>
        vn_inv nv k' \<and> W k' \<and> keeps nv C k k' \<and>
        (if err = 0 \<and> new = None
         then \<exists>v n. v < nv \<and> vn_ns (k_vn k' b) = Some n \<and> lookup_vnode n i k' = Some (Some v) \<and> counts nv (plus1 C v) k'
         else counts nv C k')"
begin

text \<open>The walk stands at \<open>v\<close>: the others hold \<open>B\<close>, the walk holds one reference to \<open>v\<close>, and two more vnodes fit.\<close>

definition stands :: "(vaddr \<Rightarrow> int) \<Rightarrow> vaddr \<Rightarrow> 'w kernel \<Rightarrow> bool" where
  "stands B v k \<longleftrightarrow> vn_inv nv k \<and> W k \<and> v < nv \<and> counts nv (plus1 B v) k \<and> mounts_ok nv B k \<and> (\<forall>u. 0 \<le> B u) \<and>
     card {u. u < nv \<and> 0 < B u} + 2 \<le> nv"

definition gone :: "(vaddr \<Rightarrow> int) \<Rightarrow> 'w kernel \<Rightarrow> bool" where
  "gone B k \<longleftrightarrow> vn_inv nv k \<and> W k \<and> counts nv B k"

lemma spare:
  assumes "stands B v k"
  shows "\<exists>u < nv. plus1 B v u = 0"
proof (rule ccontr)
  assume n: "\<not> (\<exists>u < nv. plus1 B v u = 0)"
  have nn: "\<And>u. 0 \<le> B u" and room: "card {u. u < nv \<and> 0 < B u} + 2 \<le> nv" using assms by (simp_all add: stands_def)
  have "u = v \<or> 0 < B u" if "u < nv" for u
    using n that nn [of u] unfolding plus1_def by (cases "u = v") force+
  then have "{..<nv} \<subseteq> insert v {u. u < nv \<and> 0 < B u}" by auto
  then have "card {..<nv} \<le> card (insert v {u. u < nv \<and> 0 < B u})" by (intro card_mono) auto
  also have "\<dots> \<le> Suc (card {u. u < nv \<and> 0 < B u})" by (rule card_insert_le_m1) simp_all
  finally show False using room by simp
qed

lemma drop:
  assumes "vn_inv nv k" "W k" "counts nv (plus1 C v) k" "v < nv" "\<And>u. 0 \<le> C u"
  shows "\<exists>k'. dec_vnode E v False k = Some k' \<and> gone C k' \<and> keeps nv C k k'"
proof -
  have r: "0 < vn_rcnt (k_vn k v)" using assms(3,4) assms(5) [of v] by (simp add: counts_def plus1_def)
  obtain k' R where d: "dec_vnode E v False k = Some k'" "dec_of nv v R k k'" "W k'" using dec [OF assms(1,2,4) r] by blast
  show ?thesis
    using d dec_of_inv [OF assms(1,4) r d(2)] dec_of_counts [OF assms(1,3,4,5) d(2)] by (auto simp: gone_def)
qed

lemma drop_stands:
  assumes "stands B v k"
  shows "\<exists>k'. dec_vnode E v False k = Some k' \<and> gone B k' \<and> keeps nv B k k'"
  by (rule drop) (use assms in \<open>auto simp: stands_def\<close>)

text \<open>Moving on to a vnode \<open>u\<close> that has been given a reference.\<close>

lemma move_on:
  assumes s: "stands B v k" and k: "vn_inv nv k1" "W k1" "counts nv (plus1 (plus1 B v) u) k1" "keeps nv B k k1" "u < nv"
  shows "\<exists>k2. dec_vnode E v False k1 = Some k2 \<and> stands B u k2 \<and> keeps nv B k k2"
proof -
  have nn: "\<And>u. 0 \<le> B u" and m: "mounts_ok nv B k" using s by (simp_all add: stands_def)
  obtain k2 where k2: "dec_vnode E v False k1 = Some k2" "gone (plus1 B u) k2" "keeps nv (plus1 B u) k1 k2"
    using drop [of k1 "plus1 B u" v] k plus1_simps(2) [OF nn] s by (auto simp: stands_def plus1_simps(4) [of B v u])
  have "keeps nv B k k2" by (rule keeps_trans [OF k(4) keeps_mono [OF k2(3) plus1_simps(3)]])
  with k2 mounts_ok_keeps [OF m] s k(5) show ?thesis by (auto simp: stands_def gone_def)
qed

lemma hold:
  assumes s: "stands B v k" and u: "u < nv" "0 < B u"
  shows "vn_inv nv (inc_vnode u k)" "W (inc_vnode u k)" "counts nv (plus1 (plus1 B v) u) (inc_vnode u k)"
    "keeps nv B k (inc_vnode u k)"
proof -
  have k: "vn_inv nv k" "W k" "counts nv (plus1 B v) k" "0 < plus1 B v u"
    using s u(2) plus1_simps(3) [of B u v] by (auto simp: stands_def)
  show "vn_inv nv (inc_vnode u k)" "counts nv (plus1 (plus1 B v) u) (inc_vnode u k)" "keeps nv B k (inc_vnode u k)"
    by (rule inc_vnode_held [OF k(1,3) u(1) k(4)])+
  show "W (inc_vnode u k)" by (rule inc [OF k(2)])
qed

lemma stands_keeps:
  assumes "stands B v k" "vn_inv nv k'" "W k'" "counts nv (plus1 B v) k'" "keeps nv B k k'"
  shows "stands B v k'"
  using assms mounts_ok_keeps [OF _ assms(5)] by (auto simp: stands_def)

text \<open>Leaving a name space through \<open>..\<close> at its root, and entering the name space mounted on a vnode.\<close>

lemma climb_out:
  assumes s: "stands B v k"
  shows "\<exists>m k1. is_root v k = Some (m, k1) \<and> (case m of
      None \<Rightarrow> k1 = k
    | Some u \<Rightarrow> \<exists>k2. dec_vnode E v False k1 = Some k2 \<and> stands B u k2 \<and> keeps nv B k k2)"
proof -
  have "v \<in> in_core nv k"
    by (rule in_use(2) [where k = k])
      (use s plus1_simps(1) [of B v] in \<open>auto simp: stands_def counts_def intro: add_nonneg_pos\<close>)
  then obtain n sp where n: "vn_ns (k_vn k v) = Some n" "k_ns k n = Some sp"
    using vcore_space [OF vn_invD(1), of nv k v] s by (metis stands_def)
  show ?thesis
  proof (cases "ns_root sp = Some v \<and> ns_mount sp \<noteq> None")
    case True
    then obtain u where u: "ns_mount sp = Some u" by auto
    with s n have "u < nv" "0 < B u" unfolding stands_def mounts_ok_def by blast+
    with move_on [OF s hold [OF s]] u n True show ?thesis by (auto simp: is_root_def ns_of_def)
  next
    case False
    then have "is_root v k = Some (None, k)" using n by (auto simp: is_root_def ns_of_def split: option.split)
    then show ?thesis by simp
  qed
qed

lemma cross_mount:
  assumes s: "stands B v k"
  shows "\<exists>m k1. is_mount_vnode v k = Some (m, k1) \<and> (case m of
      None \<Rightarrow> k1 = k
    | Some u \<Rightarrow> \<exists>k2. dec_vnode E v False k1 = Some k2 \<and> stands B u k2 \<and> keeps nv B k k2)"
proof (cases "vn_mounted (k_vn k v)")
  case None
  then show ?thesis by (simp add: is_mount_vnode_def)
next
  case (Some n)
  with s obtain sp u where u: "k_ns k n = Some sp" "ns_root sp = Some u" unfolding stands_def mounts_ok_def by blast
  with s have "u < nv" "0 < B u" unfolding stands_def mounts_ok_def by blast+
  with move_on [OF s hold [OF s]] u Some show ?thesis by (auto simp: is_mount_vnode_def)
qed

section \<open>One turn of the loop\<close>

text \<open>What a turn of the loop of \<open>parse_path\<close> leads to: an error with the reference given back, or the loop further on.\<close>

definition turn :: "bool \<Rightarrow> nat \<Rightarrow> nat \<Rightarrow> (vaddr \<Rightarrow> int) \<Rightarrow> 'w kernel \<Rightarrow> (errno \<times> vaddr \<times> 'w kernel) option \<Rightarrow> bool" where
  "turn eat i len B k res \<longleftrightarrow>
     (\<exists>err v k'. res = Some (err, v, k') \<and> err \<noteq> 0 \<and> gone B k' \<and> keeps nv B k k') \<or>
     (\<exists>i' p' v' k'. res = parse_loop E H eat i' p' v' k' \<and> stands B v' k' \<and> keeps nv B k k' \<and>
        (i' = i \<and> length p' < len \<or> i' = Suc i \<and> i' \<le> MAX_SYM_LINKS))"

lemma turn_keeps: "keeps nv B k0 k \<Longrightarrow> turn eat i len B k res \<Longrightarrow> turn eat i len B k0 res"
  unfolding turn_def using keeps_trans [of nv B k0 k] by blast

lemma turn_on:
  assumes "res = parse_loop E H eat i' p' v' k'" "stands B v' k'" "keeps nv B k k'"
    and "i' = i \<and> length p' < len \<or> i' = Suc i \<and> i' \<le> MAX_SYM_LINKS"
  shows "turn eat i len B k res"
  using assms unfolding turn_def by blast

lemma turn_error:
  assumes "stands B v k" "err \<noteq> 0"
  shows "turn eat i len B k (do { k4 \<leftarrow> dec_vnode E v False k; Some (err, v, k4) })"
  using drop_stands [OF assms(1)] assms(2) by (auto simp: turn_def)

text \<open>After \<open>walk\<close> has followed a symbolic link.\<close>

lemma turn_link:
  assumes s: "stands B v k"
  shows "turn eat i len B k (if Suc i > MAX_SYM_LINKS then do { k4 \<leftarrow> dec_vnode E v False k; Some (ELOOP, v, k4) }
     else (case cat_paths (k_mem k) new np of
         None \<Rightarrow> do { k4 \<leftarrow> dec_vnode E v False k; Some (ENOMEM, v, k4) }
       | Some q \<Rightarrow>
           if q \<noteq> [] \<and> hd q = CHR ''/'' then do {
             k4 \<leftarrow> dec_vnode E v False k;
             root \<leftarrow> k_rootvn k4;
             parse_loop E H eat (Suc i) (skip_slashes q) root (inc_vnode root k4) }
           else parse_loop E H eat (Suc i) q v k))"
proof (cases "Suc i > MAX_SYM_LINKS")
  case True
  with turn_error [OF s, of ELOOP] show ?thesis by simp
next
  case False
  have "k_mem k" using s vcoreD(5) [OF vn_invD(1)] by (auto simp: stands_def)
  then obtain q where q: "cat_paths (k_mem k) new np = Some q" by (simp add: cat_paths_def)
  show ?thesis
  proof (cases "q \<noteq> [] \<and> hd q = CHR ''/''")
    case True
    obtain k4 where k4: "dec_vnode E v False k = Some k4" "gone B k4" "keeps nv B k k4" using drop_stands [OF s] by blast
    have m4: "mounts_ok nv B k4" using mounts_ok_keeps [OF _ k4(3)] s by (simp add: stands_def)
    then obtain r where r: "k_rootvn k4 = Some r" "r < nv" "0 < B r" by (auto simp: mounts_ok_def)
    have g: "vn_inv nv k4" "W k4" "counts nv B k4" using k4(2) by (simp_all add: gone_def)
    note h = inc_vnode_held [OF g(1,3) r(2,3)]
    have "keeps nv B k (inc_vnode r k4)" by (rule keeps_trans [OF k4(3) h(3)])
    moreover have "stands B r (inc_vnode r k4)"
      using h(1,2) inc [OF g(2)] mounts_ok_keeps [OF m4 h(3)] s r by (simp add: stands_def)
    ultimately show ?thesis using q True False k4(1) r(1)
      by (intro turn_on [of _ eat "Suc i" "skip_slashes q" r "inc_vnode r k4"]) auto
  next
    case f: False
    then show ?thesis using q False s by (intro turn_on [of _ eat "Suc i" q v k]) auto
  qed
qed

text \<open>After \<open>walk\<close> has loaded the next vnode \<open>u\<close>.\<close>

lemma turn_step:
  assumes s: "stands B v k" and k: "vn_inv nv k1" "W k1" "counts nv (plus1 (plus1 B v) u) k1" "keeps nv B k k1" "u < nv"
    and n: "vn_ns (k_vn k1 v) = Some n" "lookup_vnode n j k1 = Some (Some u)" and l: "length np < len"
  shows "turn eat i len B k (do {
       n \<leftarrow> vn_ns (k_vn k1 v);
       found \<leftarrow> lookup_vnode n j k1;
       k4 \<leftarrow> dec_vnode E v False k1;
       vn \<leftarrow> found;
       (m, k5) \<leftarrow> is_mount_vnode vn k4;
       (case m of
          Some root \<Rightarrow> do { k6 \<leftarrow> dec_vnode E vn False k5; parse_loop E H eat i np root k6 }
        | None \<Rightarrow> parse_loop E H eat i np vn k5) })"
proof -
  obtain k4 where k4: "dec_vnode E v False k1 = Some k4" "stands B u k4" "keeps nv B k k4" using move_on [OF s k] by blast
  obtain m k5 where m: "is_mount_vnode u k4 = Some (m, k5)" "case m of None \<Rightarrow> k5 = k4
    | Some r \<Rightarrow> \<exists>k6. dec_vnode E u False k5 = Some k6 \<and> stands B r k6 \<and> keeps nv B k4 k6"
    using cross_mount [OF k4(2)] by blast
  show ?thesis
  proof (cases m)
    case None
    then show ?thesis using n m k4 l by (intro turn_on [of _ eat i np u k4]) auto
  next
    case (Some r)
    with m(2) obtain k6 where k6: "dec_vnode E u False k5 = Some k6" "stands B r k6" "keeps nv B k4 k6" by auto
    then show ?thesis using n m(1) k4 l Some keeps_trans [OF k4(3) k6(3)]
      by (intro turn_on [of _ eat i np r k6]) auto
  qed
qed

lemma parse_turn:
  assumes s0: "stands B v0 k0"
  shows "turn eat i (length (c # cs)) B k0 (parse_loop E H eat i (c # cs) v0 k0)"
proof -
  let ?p = "c # upto_slash cs" and ?np = "skip_slashes (from_slash cs)"
  obtain v k where root: "(if ?p = ''..'' then do {
          (m, k1) \<leftarrow> is_root v0 k0;
          (case m of
             None \<Rightarrow> Some (v0, k1)
           | Some vn \<Rightarrow> do { k2 \<leftarrow> dec_vnode E v0 False k1; Some (vn, k2) }) }
        else Some (v0, k0)) = Some (v, k)"
    and s: "stands B v k" and e: "keeps nv B k0 k"
  proof (cases "?p = ''..''")
    case True
    obtain m k1 where m: "is_root v0 k0 = Some (m, k1)" "case m of None \<Rightarrow> k1 = k0
      | Some u \<Rightarrow> \<exists>k2. dec_vnode E v0 False k1 = Some k2 \<and> stands B u k2 \<and> keeps nv B k0 k2"
      using climb_out [OF s0] by blast
    with True s0 show ?thesis by (cases m) (auto intro: that)
  qed (use s0 in \<open>auto intro: that\<close>)
  have C: "vn_inv nv k" "W k" "counts nv (plus1 B v) k" "v < nv" "0 < plus1 B v v"
    using s by (auto simp: stands_def plus1_def intro: add_nonneg_pos)
  obtain u0 where u0: "u0 < nv" "plus1 B v u0 = 0" using spare [OF s] by blast
  obtain f err new j k3 where w: "vop op_walk H v k = Some (Some f)" "f ?p (eat \<or> ?np \<noteq> []) k = Some (err, (new, j), k3)"
    "vn_inv nv k3" "W k3" "keeps nv (plus1 B v) k k3"
    "if err = 0 \<and> new = None
     then \<exists>u n. u < nv \<and> vn_ns (k_vn k3 v) = Some n \<and> lookup_vnode n j k3 = Some (Some u) \<and> counts nv (plus1 (plus1 B v) u) k3
     else counts nv (plus1 B v) k3"
    using walk [OF C u0] by blast
  note kp = keeps_mono [OF w(5) plus1_simps(3)]
  note step = parse_loop.simps(2) [of E H eat i c cs v0 k0, unfolded Let_def root]
  have "turn eat i (length (c # cs)) B k (parse_loop E H eat i (c # cs) v0 k0)"
  proof (cases "err = 0 \<and> new = None")
    case True
    with w(6) obtain u n where u: "u < nv" "vn_ns (k_vn k3 v) = Some n" "lookup_vnode n j k3 = Some (Some u)"
      "counts nv (plus1 (plus1 B v) u) k3" by auto
    show ?thesis
      unfolding step using turn_step [OF s w(3,4) u(4) kp u(1,2,3) next_shorter, of eat i] True w(1,2) by simp
  next
    case False
    with w(6) have s3: "stands B v k3" using stands_keeps [OF s w(3,4) _ kp] by simp
    have "turn eat i (length (c # cs)) B k3 (parse_loop E H eat i (c # cs) v0 k0)"
    proof (cases "err = 0")
      case True
      with False obtain q where "new = Some q" by auto
      then show ?thesis unfolding step using turn_link [OF s3, of eat i _ q ?np] True w(1,2) by simp
    next
      case err: False
      then show ?thesis unfolding step using turn_error [OF s3 err] w(1,2) by simp
    qed
    then show ?thesis by (rule turn_keeps [OF kp])
  qed
  then show ?thesis by (rule turn_keeps [OF e])
qed

text \<open>The whole walk, by induction on the symbolic links left and on the length of the path.\<close>

lemma parse_loop_refs:
  assumes "stands B v k"
  shows "\<exists>err u k'. parse_loop E H eat i p v k = Some (err, u, k') \<and> keeps nv B k k' \<and>
    (if err = 0 then stands B u k' else gone B k')"
  using assms
proof (induction "Suc MAX_SYM_LINKS - i" arbitrary: i p v k rule: less_induct)
  case less
  note links = less.hyps
  from less.prems show ?case
  proof (induction "length p" arbitrary: p v k rule: less_induct)
    case (less p)
    show ?case
    proof (cases p)
      case Nil
      with less.prems show ?thesis by simp
    next
      case (Cons c cs)
      from parse_turn [OF less.prems, of eat i c cs] Cons
      consider (err) err u k' where "parse_loop E H eat i p v k = Some (err, u, k')" "err \<noteq> 0" "gone B k'" "keeps nv B k k'"
        | (on) i' p' v' k' where "parse_loop E H eat i p v k = parse_loop E H eat i' p' v' k'" "stands B v' k'" "keeps nv B k k'"
          "i' = i \<and> length p' < length p \<or> i' = Suc i \<and> i' \<le> MAX_SYM_LINKS"
        unfolding turn_def by blast
      then show ?thesis
      proof cases
        case err
        then show ?thesis by auto
      next
        case on
        from on(4) have "\<exists>err u k2. parse_loop E H eat i' p' v' k' = Some (err, u, k2) \<and> keeps nv B k' k2 \<and>
            (if err = 0 then stands B u k2 else gone B k2)"
        proof
          assume "i' = i \<and> length p' < length p"
          then show ?thesis using less.hyps [of p' v' k'] on(2) by blast
        next
          assume "i' = Suc i \<and> i' \<le> MAX_SYM_LINKS"
          then have "Suc MAX_SYM_LINKS - i' < Suc MAX_SYM_LINKS - i" by arith
          from links [OF this on(2)] show ?thesis .
        qed
        with on(1,3) show ?thesis using keeps_trans by metis
      qed
    qed
  qed
qed

text \<open>A call with an absolute path: \<open>get_file_fd\<close> starts at the root of the tree.\<close>

lemma get_file_refs:
  assumes k: "vn_inv nv k" "W k" "counts nv B k" "mounts_ok nv B k" "\<And>u. 0 \<le> B u"
    and room: "card {u. u < nv \<and> 0 < B u} + 2 \<le> nv" and path: "s \<noteq> []" "hd s = CHR ''/''"
  shows "\<exists>err v k'. get_file_fd E H ker fd (Some s) eat k = Some (err, v, k') \<and> keeps nv B k k' \<and>
    (if err = 0 then stands B v k' else gone B k')"
proof -
  obtain err p where p: "new_path (k_mem k) (Some s) = (err, p)" by fastforce
  show ?thesis
  proof (cases "err = 0")
    case False
    with p k show ?thesis by (simp add: get_file_fd_def gone_def)
  next
    case True
    with p path obtain q where q: "p = Some q" "q \<noteq> []" "hd q = CHR ''/''"
      by (auto simp: new_path_def split: if_splits)
    obtain r where r: "k_rootvn k = Some r" "r < nv" "0 < B r" using k(4) by (auto simp: mounts_ok_def)
    note h = inc_vnode_held [OF k(1,3) r(2,3)]
    have "stands B r (inc_vnode r k)"
      using h inc [OF k(2)] mounts_ok_keeps [OF k(4) h(3)] k(5) room r(2) by (simp add: stands_def)
    from parse_loop_refs [OF this, of eat 0 "skip_slashes q"] obtain err u k' where
      l: "parse_loop E H eat 0 (skip_slashes q) r (inc_vnode r k) = Some (err, u, k')" "keeps nv B (inc_vnode r k) k'"
        "if err = 0 then stands B u k' else gone B k'" by blast
    have "get_file_fd E H ker fd (Some s) eat k = Some (err, u, k')"
      using p True q r(1) l(1) by (simp add: get_file_fd_def parse_path_fd_def parse_path_def)
    with l(3) keeps_trans [OF h(3) l(2)] show ?thesis by blast
  qed
qed

end

end
