(* ===== verification/Rootfs_Inv.thy ===== *)
theory Rootfs_Inv
  imports Rootfs Kernel_Walk
begin

text \<open>
  The invariant of the root file system, on its own and together with the vnode layer: its nodes make up trees with sorted
  directories, its index holds every node but the root under its id, and every vnode in core that belongs to it
  points to the node with its id.  Releasing, removing and loading a vnode keep it.
\<close>

interpretation ri: sl_order rootfs_compare_vnode ri_vnid
  by unfold_locales (auto simp: rootfs_compare_vnode_def)

section \<open>The invariant of the store\<close>

definition kid_name :: "rfs \<Rightarrow> nat \<Rightarrow> string" where
  "kid_name w c = (case rf_node w c of None \<Rightarrow> [] | Some y \<Rightarrow> (case rn_name y of None \<Rightarrow> [] | Some s \<Rightarrow> s))"

definition node_ok :: "rfs \<Rightarrow> nat \<Rightarrow> rnode \<Rightarrow> bool" where
  "node_ok w a x \<longleftrightarrow> a < rf_next w \<and> (\<exists>rs. rf_ns w (rn_ns x) = Some rs \<and> rn_vnid x \<le> rs_nxvnid rs) \<and>
     (\<not> rn_removed x \<longrightarrow> (\<exists>y. rf_node w (rn_parent x) = Some y \<and> rn_ns y = rn_ns x)) \<and>
     (MY_S_ISLNK (rn_mode x) \<longrightarrow> rn_symlink x \<noteq> None)"

definition kids_ok :: "rfs \<Rightarrow> nat \<Rightarrow> rnode \<Rightarrow> bool" where
  "kids_ok w a x \<longleftrightarrow> (\<forall>c \<in> set (rn_kids x). \<exists>y. rf_node w c = Some y \<and> rn_name y \<noteq> None \<and> rn_ns y = rn_ns x \<and>
       rn_parent y = a \<and> \<not> rn_removed y) \<and>
     sorted_wrt (\<lambda>c c'. kid_name w c < kid_name w c') (rn_kids x)"

text \<open>The index of a name space maps an id to the node with this id; the root is not in it.\<close>

definition indexed :: "rfs \<Rightarrow> nat \<Rightarrow> rspace \<Rightarrow> vnode_id \<Rightarrow> ritem \<Rightarrow> bool" where
  "indexed w d rs i it \<longleftrightarrow> ri_vnid it = i \<and> ri_node it \<noteq> rs_root rs \<and>
     (\<exists>x. rf_node w (ri_node it) = Some x \<and> rn_ns x = d \<and> rn_vnid x = i)"

definition space_ok :: "rfs \<Rightarrow> nat \<Rightarrow> rspace \<Rightarrow> bool" where
  "space_ok w d rs \<longleftrightarrow> (\<exists>x. rf_node w (rs_root rs) = Some x \<and> rn_ns x = d) \<and> sl_nodes (rs_index rs) \<subseteq> {..<rs_slnext rs} \<and>
     (\<exists>ks. sl_holds rootfs_compare_vnode (rs_index rs) ks \<and>
        (\<forall>i it. sl_map ri_vnid ks i = Some it \<longleftrightarrow> indexed w d rs i it))"

definition rfs_ok :: "rfs \<Rightarrow> bool" where
  "rfs_ok w \<longleftrightarrow> (\<forall>a x. rf_node w a = Some x \<longrightarrow> node_ok w a x \<and> kids_ok w a x) \<and>
     (\<forall>d rs. rf_ns w d = Some rs \<longrightarrow> space_ok w d rs)"

lemma rfs_okD:
  assumes "rfs_ok w"
  shows "rf_node w a = Some x \<Longrightarrow> node_ok w a x" "rf_node w a = Some x \<Longrightarrow> kids_ok w a x"
    "rf_ns w d = Some rs \<Longrightarrow> space_ok w d rs"
  using assms by (simp_all add: rfs_ok_def)

section \<open>Removing a node\<close>

text \<open>A node that nothing in the store points to any more.\<close>

definition orphan :: "rfs \<Rightarrow> nat \<Rightarrow> bool" where
  "orphan w a \<longleftrightarrow> (\<forall>b y. rf_node w b = Some y \<longrightarrow> a \<notin> set (rn_kids y) \<and> (b \<noteq> a \<and> \<not> rn_removed y \<longrightarrow> rn_parent y \<noteq> a)) \<and>
     (\<forall>d rs. rf_ns w d = Some rs \<longrightarrow> rs_root rs \<noteq> a)"

lemma node_gone:
  assumes ok: "rfs_ok w" and x: "rf_node w a = Some x" "rn_ns x = d" and rs: "rf_ns w d = Some rs" and o: "orphan w a"
  shows "\<exists>s. DeleteSL rootfs_compare_vnode \<lparr>ri_vnid = rn_vnid x, ri_node = a\<rparr> (rs_index rs) = Some (1, s) \<and>
    rfs_ok (w\<lparr>rf_ns := (rf_ns w)(d \<mapsto> rs\<lparr>rs_index := s, rs_vnnum := rs_vnnum rs - 1\<rparr>),
              rf_node := (rf_node w)(a := None)\<rparr>)"
proof -
  let ?it = "\<lparr>ri_vnid = rn_vnid x, ri_node = a\<rparr>"
  have root: "rs_root r \<noteq> a" if "rf_ns w e = Some r" for e r using o that by (simp add: orphan_def)
  have nokid: "a \<notin> set (rn_kids y)" and noparent: "b \<noteq> a \<Longrightarrow> \<not> rn_removed y \<Longrightarrow> rn_parent y \<noteq> a"
    if "rf_node w b = Some y" for b y
    using o that by (simp_all add: orphan_def)
  obtain ks where ks: "sl_holds rootfs_compare_vnode (rs_index rs) ks"
    "\<And>i it. sl_map ri_vnid ks i = Some it \<longleftrightarrow> indexed w d rs i it"
    using rfs_okD(3) [OF ok rs] by (auto simp: space_ok_def)
  have it: "sl_map ri_vnid ks (ri_vnid ?it) = Some ?it" using ks(2) x root [OF rs] by (auto simp: indexed_def)
  then obtain s ks' where s: "DeleteSL rootfs_compare_vnode ?it (rs_index rs) = Some (1, s)"
    "sl_nodes s \<subseteq> sl_nodes (rs_index rs)" "sl_holds rootfs_compare_vnode s ks'"
    "sl_map ri_vnid ks' = (sl_map ri_vnid ks)(ri_vnid ?it := None)"
    using ri.delete_map [OF ks(1), of ?it] by auto
  let ?rs = "rs\<lparr>rs_index := s, rs_vnnum := rs_vnnum rs - 1\<rparr>"
  let ?w = "w\<lparr>rf_ns := (rf_ns w)(d \<mapsto> ?rs), rf_node := (rf_node w)(a := None)\<rparr>"
  have "node_ok ?w b y \<and> kids_ok ?w b y" if "rf_node ?w b = Some y" for b y
  proof -
    have b: "b \<noteq> a" "rf_node w b = Some y" using that by (auto split: if_splits)
    have "node_ok ?w b y"
      using rfs_okD(1) [OF ok b(2)] noparent [OF b(2,1)] rs by (auto simp: node_ok_def)
    moreover have "kid_name ?w c = kid_name w c" if "c \<in> set (rn_kids y)" for c
      using that nokid [OF b(2)] by (auto simp: kid_name_def)
    then have "kids_ok ?w b y"
      using rfs_okD(2) [OF ok b(2)] nokid [OF b(2)] unfolding kids_ok_def
      by (auto elim!: sorted_wrt_mono_rel [rotated])
    ultimately show ?thesis ..
  qed
  moreover have "space_ok ?w e r" if e: "rf_ns ?w e = Some r" for e r
  proof (cases "e = d")
    case True
    then have r: "r = ?rs" using e by simp
    have "sl_map ri_vnid ks' i = Some it \<longleftrightarrow> indexed ?w d ?rs i it" for i it
    proof -
      have "indexed ?w d ?rs i it \<longleftrightarrow> ri_node it \<noteq> a \<and> indexed w d rs i it" by (auto simp: indexed_def)
      moreover have "ri_node it = a \<longleftrightarrow> i = rn_vnid x" if j: "indexed w d rs i it"
      proof
        show "i = rn_vnid x" if "ri_node it = a" using j that x(1) by (auto simp: indexed_def)
        show "ri_node it = a" if "i = rn_vnid x" using ks(2) [of i it] it j that by auto
      qed
      moreover have "sl_map ri_vnid ks' i = Some it \<longleftrightarrow> i \<noteq> rn_vnid x \<and> indexed w d rs i it"
        using s(4) ks(2) [of i it] by simp
      ultimately show ?thesis by blast
    qed
    with r True rfs_okD(3) [OF ok rs] root [OF rs] s(2,3) show ?thesis by (auto simp: space_ok_def)
  next
    case False
    then have e': "rf_ns w e = Some r" using e by simp
    have "indexed ?w e r = indexed w e r" using x(1,2) False by (auto simp: indexed_def fun_eq_iff)
    with rfs_okD(3) [OF ok e'] root [OF e'] show ?thesis by (auto simp: space_ok_def)
  qed
  ultimately show ?thesis using s(1) by (auto simp: rfs_ok_def)
qed

section \<open>The vnodes\<close>

text \<open>The tables of operations when every mounted file system is the root file system.\<close>

definition rootfs_env :: "rfs vnenv" where
  "rootfs_env = (\<lambda>_. rootfs_vnops)"

definition rootfs_sys :: "rfs fsenv" where
  "rootfs_sys = (\<lambda>_. rootfs_ops rootfs_env)"

text \<open>A vnode in core points to the node with its id; once it is marked for removal nothing else does, and a directory is
  marked as removed.\<close>

definition doomed :: "rfs \<Rightarrow> nat \<Rightarrow> rnode \<Rightarrow> bool" where
  "doomed w a x \<longleftrightarrow> orphan w a \<and> (MY_S_ISDIR (rn_mode x) \<longrightarrow> rn_removed x)"

definition vn_linked :: "rfs kernel \<Rightarrow> vaddr \<Rightarrow> bool" where
  "vn_linked k v \<longleftrightarrow> (\<exists>n sp x. vn_ns (k_vn k v) = Some n \<and> k_ns k n = Some sp \<and>
     rf_node (k_world k) (nat (vn_data (k_vn k v))) = Some x \<and> rn_vnid x = vn_vnid (k_vn k v) \<and> rn_ns x = nat (ns_data sp) \<and>
     (vn_remove (k_vn k v) \<longrightarrow> doomed (k_world k) (nat (vn_data (k_vn k v))) x))"

definition spaces_linked :: "rfs kernel \<Rightarrow> bool" where
  "spaces_linked k \<longleftrightarrow> (\<forall>n sp. k_ns k n = Some sp \<longrightarrow>
     (\<exists>rs. rf_ns (k_world k) (nat (ns_data sp)) = Some rs \<and> rs_nsid rs = n))"

definition rootfs_ok :: "nat \<Rightarrow> rfs kernel \<Rightarrow> bool" where
  "rootfs_ok nv k \<longleftrightarrow> rfs_ok (k_world k) \<and> spaces_linked k \<and> (\<forall>v \<in> in_core nv k. vn_linked k v)"

lemma kframe_data:
  assumes "kframe k k'"
  shows "map_option ns_data (k_ns k' n) = map_option ns_data (k_ns k n)"
proof (cases "k_ns k n")
  case None
  then show ?thesis using kframe_none [OF assms, of n] by simp
next
  case (Some sp)
  obtain vs where "k_ns k' n = Some (sp\<lparr>ns_vnodes := vs\<rparr>)" by (rule kframe_ns [OF assms Some])
  with Some show ?thesis by simp
qed

lemma spaces_linked_frame:
  assumes "spaces_linked k" "kframe k k'"
    and "\<And>d rs. rf_ns (k_world k) d = Some rs \<Longrightarrow> \<exists>rs'. rf_ns (k_world k') d = Some rs' \<and> rs_nsid rs' = rs_nsid rs"
  shows "spaces_linked k'"
  unfolding spaces_linked_def
proof (intro allI impI)
  fix n sp assume sp: "k_ns k' n = Some sp"
  obtain sp0 where sp0: "k_ns k n = Some sp0" "ns_data sp0 = ns_data sp"
    using kframe_data [OF assms(2), of n] sp by (cases "k_ns k n") auto
  then show "\<exists>rs. rf_ns (k_world k') (nat (ns_data sp)) = Some rs \<and> rs_nsid rs = n"
    using assms(1,3) by (metis spaces_linked_def)
qed

text \<open>A vnode that keeps its identity, in a store that keeps its node.\<close>

lemma vn_linked_frame:
  assumes l: "vn_linked k v" and f: "kframe k k'"
    and v: "vn_ns (k_vn k' v) = vn_ns (k_vn k v)" "vn_vnid (k_vn k' v) = vn_vnid (k_vn k v)"
      "vn_data (k_vn k' v) = vn_data (k_vn k v)" "vn_remove (k_vn k' v) \<Longrightarrow> vn_remove (k_vn k v)"
    and w: "\<And>x. rf_node (k_world k) (nat (vn_data (k_vn k v))) = Some x \<Longrightarrow>
        \<exists>y. rf_node (k_world k') (nat (vn_data (k_vn k v))) = Some y \<and> rn_vnid y = rn_vnid x \<and> rn_ns y = rn_ns x \<and>
          (doomed (k_world k) (nat (vn_data (k_vn k v))) x \<longrightarrow> doomed (k_world k') (nat (vn_data (k_vn k v))) y)"
  shows "vn_linked k' v"
proof -
  obtain n sp x where n: "vn_ns (k_vn k v) = Some n" "k_ns k n = Some sp"
    "rf_node (k_world k) (nat (vn_data (k_vn k v))) = Some x" "rn_vnid x = vn_vnid (k_vn k v)" "rn_ns x = nat (ns_data sp)"
    "vn_remove (k_vn k v) \<longrightarrow> doomed (k_world k) (nat (vn_data (k_vn k v))) x"
    using l by (auto simp: vn_linked_def)
  obtain vs where "k_ns k' n = Some (sp\<lparr>ns_vnodes := vs\<rparr>)" by (rule kframe_ns [OF f n(2)])
  with n v w [OF n(3)] show ?thesis by (auto simp: vn_linked_def)
qed

lemma rootfs_ok_frame:
  assumes ok: "rootfs_ok nv k" and f: "kframe k k'" "k_world k' = k_world k"
    and v: "\<And>v. v \<in> in_core nv k' \<Longrightarrow> v \<in> in_core nv k \<and> vn_ns (k_vn k' v) = vn_ns (k_vn k v) \<and>
      vn_vnid (k_vn k' v) = vn_vnid (k_vn k v) \<and> vn_data (k_vn k' v) = vn_data (k_vn k v) \<and>
      (vn_remove (k_vn k' v) \<longrightarrow> vn_remove (k_vn k v))"
  shows "rootfs_ok nv k'"
proof -
  have "vn_linked k' v" if "v \<in> in_core nv k'" for v
    using ok v [OF that] by (intro vn_linked_frame [OF _ f(1)]) (auto simp: rootfs_ok_def f(2))
  then show ?thesis
    using ok spaces_linked_frame [OF _ f(1)] f(2) by (auto simp: rootfs_ok_def)
qed

section \<open>Giving a reference back\<close>

lemma rootfs_release: "release_total rootfs_env"
  by (simp add: release_total_def rootfs_env_def rootfs_vnops_def rootfs_write_vnode_def)

lemma clear_vnode_world:
  assumes "clear_vnode v k = Some k'"
  shows "k_world k' = k_world k"
proof -
  obtain it where it: "item_of k v = Some it" using assms by (cases "item_of k v") (simp_all add: clear_vnode_def)
  have "DeleteSL compare_vnode it (k_index k) \<noteq> None" using assms it by (intro notI) (simp add: clear_vnode_def)
  then obtain r s where r: "DeleteSL compare_vnode it (k_index k) = Some (r, s)" by auto
  have "upd_ns (it_nsid it) (ns_vnodes_update (ns_unlink v)) (k\<lparr>k_index := s\<rparr>) \<noteq> None"
    using assms it r by (intro notI) (simp add: clear_vnode_def)
  then obtain k1 where k1: "upd_ns (it_nsid it) (ns_vnodes_update (ns_unlink v)) (k\<lparr>k_index := s\<rparr>) = Some k1" by auto
  from upd_ns_world [OF this] show ?thesis using assms it r k1 by (auto simp: clear_vnode_def)
qed

lemma flush_vnode_world:
  assumes "flush_vnode rootfs_env v r k = Some k'"
  shows "k_world k' = k_world k"
proof -
  let ?k1 = "upd_vn v (vn_busy_update (\<lambda>_. True)) k"
  have "ops_of rootfs_env ?k1 v \<noteq> None" "ns_of ?k1 v \<noteq> None"
    using assms by (intro notI; simp add: flush_vnode_def Let_def split: bind_splits)+
  then obtain ops ns where o: "ops_of rootfs_env ?k1 v = Some ops" "ns_of ?k1 v = Some ns" by auto
  then have "ops = rootfs_vnops" by (auto simp: ops_of_def rootfs_env_def bind_eq_Some_conv)
  with assms o have "clear_vnode v (upd_vn v (vn_busy_update (\<lambda>_. False)) (?k1\<lparr>k_world := k_world k\<rparr>)) = Some k'"
    by (simp add: flush_vnode_def Let_def rootfs_vnops_def rootfs_write_vnode_def)
  from clear_vnode_world [OF this] show ?thesis by simp
qed

lemma dec_vnode_world:
  assumes "dec_vnode rootfs_env v r k = Some k'" "\<not> (vn_rcnt (k_vn k v) = 1 \<and> vn_remove (k_vn k v))"
  shows "k_world k' = k_world k"
proof -
  let ?k = "upd_vn v (\<lambda>n. n\<lparr>vn_rcnt := vn_rcnt n - 1\<rparr>) k"
  let ?k1 = "move_vnode v USED_LIST ?k"
  show ?thesis
  proof (cases "vn_rcnt (k_vn k v) = 1 \<and> int (length (k_list ?k1 USED_LIST)) > k_usdvnnum ?k1")
    case False
    with assms have "k' = ?k \<or> k' = ?k1" by (auto simp: dec_vnode_def Let_def split: if_splits)
    then show ?thesis by auto
  next
    case True
    obtain old k2 where st: "steal_vnode USED_LIST ?k1 = (old, k2)" by fastforce
    have d: "do { ovn \<leftarrow> old; k3 \<leftarrow> flush_vnode rootfs_env ovn r k2; Some (move_vnode ovn FREE_LIST k3) } = Some k'"
      using assms True st by (simp add: dec_vnode_def Let_def)
    then obtain u where u: "old = Some u" by (cases old) auto
    with d obtain k3 where k3: "flush_vnode rootfs_env u r k2 = Some k3" "k' = move_vnode u FREE_LIST k3"
      by (cases "flush_vnode rootfs_env u r k2") auto
    have "k_world k2 = k_world ?k1" using st u by (auto simp: steal_vnode_def split: list.splits)
    with flush_vnode_world [OF k3(1)] k3(2) show ?thesis by simp
  qed
qed

text \<open>Two vnodes in core point to different nodes.\<close>

lemma linked_distinct:
  assumes inv: "vn_inv nv k" and ok: "rootfs_ok nv k" and u: "u \<in> in_core nv k" and v: "v \<in> in_core nv k"
    and e: "nat (vn_data (k_vn k u)) = nat (vn_data (k_vn k v))"
  shows "u = v"
proof -
  obtain n sp x where n: "vn_ns (k_vn k u) = Some n" "k_ns k n = Some sp"
    "rf_node (k_world k) (nat (vn_data (k_vn k u))) = Some x" "rn_vnid x = vn_vnid (k_vn k u)" "rn_ns x = nat (ns_data sp)"
    using ok u by (auto simp: rootfs_ok_def vn_linked_def)
  obtain m sq y where m: "vn_ns (k_vn k v) = Some m" "k_ns k m = Some sq"
    "rf_node (k_world k) (nat (vn_data (k_vn k v))) = Some y" "rn_vnid y = vn_vnid (k_vn k v)" "rn_ns y = nat (ns_data sq)"
    using ok v by (auto simp: rootfs_ok_def vn_linked_def)
  have "x = y" using n(3) m(3) e by simp
  moreover have "\<exists>rs. rf_ns (k_world k) (nat (ns_data sp)) = Some rs \<and> rs_nsid rs = n"
    "\<exists>rs. rf_ns (k_world k) (nat (ns_data sq)) = Some rs \<and> rs_nsid rs = m"
    using ok n(2) m(2) by (auto simp: rootfs_ok_def spaces_linked_def)
  ultimately have "n = m" using n(5) m(5) by auto
  with n m \<open>x = y\<close> have "is_vn n (rn_vnid x) (k_vn k u)" "is_vn n (rn_vnid x) (k_vn k v)" by (auto simp: is_vn_def)
  then show ?thesis by (rule vcore_unique [OF vn_invD(1) [OF inv] u v])
qed

lemma orphan_less:
  assumes "orphan w b" "w' = w\<lparr>rf_ns := (rf_ns w)(d \<mapsto> rs'), rf_node := (rf_node w)(a := None)\<rparr>"
    "rf_ns w d = Some rs" "rs_root rs' = rs_root rs"
  shows "orphan w' b"
  using assms unfolding orphan_def by (auto split: if_splits)

lemma rootfs_remove:
  assumes inv: "vn_inv nv k" and ok: "rootfs_ok nv k" and v: "v \<in> in_core nv k" "vn_remove (k_vn k v)"
    and sp: "ns_of k v = Some sp"
  shows "\<exists>w'. rootfs_remove_vnode (ns_data sp) (vn_data (k_vn k v)) r (k_world k) = Some (0, w') \<and>
    (\<forall>k'. kframe k k' \<longrightarrow> k_world k' = w' \<longrightarrow> in_core nv k' = in_core nv k - {v} \<longrightarrow>
       (\<forall>u. u \<noteq> v \<longrightarrow> k_vn k' u = k_vn k u) \<longrightarrow> rootfs_ok nv k')"
proof -
  let ?w = "k_world k" and ?a = "nat (vn_data (k_vn k v))"
  have l: "vn_linked k v" using ok v(1) by (simp add: rootfs_ok_def)
  then obtain n x where n: "vn_ns (k_vn k v) = Some n" "k_ns k n = Some sp" "rf_node ?w ?a = Some x"
    "rn_ns x = nat (ns_data sp)" "orphan ?w ?a"
    using sp v(2) by (auto simp: vn_linked_def ns_of_def doomed_def)
  obtain rs where rs: "rf_ns ?w (nat (ns_data sp)) = Some rs" "rs_nsid rs = n"
    using ok n(2) by (auto simp: rootfs_ok_def spaces_linked_def)
  have rok: "rfs_ok ?w" using ok by (simp add: rootfs_ok_def)
  from node_gone [OF rok n(3,4) rs(1) n(5)] obtain s where
    s: "DeleteSL rootfs_compare_vnode \<lparr>ri_vnid = rn_vnid x, ri_node = ?a\<rparr> (rs_index rs) = Some (1, s)"
      "rfs_ok (?w\<lparr>rf_ns := (rf_ns ?w)(nat (ns_data sp) \<mapsto> rs\<lparr>rs_index := s, rs_vnnum := rs_vnnum rs - 1\<rparr>),
                 rf_node := (rf_node ?w)(?a := None)\<rparr>)" (is "rfs_ok ?w'") by blast
  have "rootfs_remove_vnode (ns_data sp) (vn_data (k_vn k v)) r ?w = Some (0, ?w')"
    using rs(1) n(3) s(1) by (simp add: rootfs_remove_vnode_def)
  moreover have "rootfs_ok nv k'" if f: "kframe k k'" "k_world k' = ?w'" "in_core nv k' = in_core nv k - {v}"
    "\<forall>u. u \<noteq> v \<longrightarrow> k_vn k' u = k_vn k u" for k'
  proof -
    have "vn_linked k' u" if u: "u \<in> in_core nv k'" for u
    proof -
      have u': "u \<in> in_core nv k" "u \<noteq> v" "k_vn k' u = k_vn k u" using u f(3,4) by auto
      have "nat (vn_data (k_vn k u)) \<noteq> ?a" using linked_distinct [OF inv ok u'(1) v(1)] u'(2) by blast
      moreover have "vn_linked k u" using ok u'(1) by (simp add: rootfs_ok_def)
      ultimately show ?thesis
        using u'(3) f(2) rs(1) by (intro vn_linked_frame [OF _ f(1)]) (auto simp: doomed_def intro: orphan_less)
    qed
    moreover have "spaces_linked k'"
      using ok rs(1) by (intro spaces_linked_frame [OF _ f(1)]) (auto simp: rootfs_ok_def f(2))
    ultimately show ?thesis using s(2) f(2) by (simp add: rootfs_ok_def)
  qed
  ultimately show ?thesis by blast
qed

lemma rootfs_dec:
  assumes inv: "vn_inv nv k" and ok: "rootfs_ok nv k" and v: "v < nv" "0 < vn_rcnt (k_vn k v)"
  shows "\<exists>k' R. dec_vnode rootfs_env v r k = Some k' \<and> dec_of nv v R k k' \<and> rootfs_ok nv k'"
proof -
  note vc = in_use(2) [OF inv v]
  have rem: "removes rootfs_env v r k" if "vn_remove (k_vn k v)"
    using rootfs_remove [OF inv ok vc that] by (fastforce simp: removes_def rootfs_env_def rootfs_vnops_def)
  obtain k' R where d: "dec_vnode rootfs_env v r k = Some k'" "dec_of nv v R k k'"
    using dec_vnode_shape_at [OF inv v rootfs_release, of r] rem by blast
  have "rootfs_ok nv k'"
  proof (cases "vn_rcnt (k_vn k v) = 1 \<and> vn_remove (k_vn k v)")
    case True
    then have t: "vn_rcnt (k_vn k v) = 1" "vn_remove (k_vn k v)" by simp_all
    obtain k2 sp and fs :: fsystem and err where k2: "dec_vnode rootfs_env v r k = Some k2" "vcore nv (in_core nv k - {v}) k2"
      "k_vn k2 = (k_vn k)(v := cleared ((k_vn k v)\<lparr>vn_inlist := FREE_LIST\<rparr>))" "kframe k k2" "ns_of k v = Some sp"
      "op_remove_vnode (rootfs_env (fs_ops fs)) (ns_data sp) (vn_data (k_vn k v)) r (k_world k) = Some (err, k_world k2)"
      using dec_vnode_remove [OF inv v(1) t rem [OF t(2)]] by blast
    have k': "k2 = k'" using d(1) k2(1) by simp
    have "in_core nv k' = in_core nv k - {v}" using k2(3) by (auto simp: in_core_def k' [symmetric])
    moreover have "rootfs_remove_vnode (ns_data sp) (vn_data (k_vn k v)) r (k_world k) = Some (err, k_world k')"
      using k2(6) k' by (simp add: rootfs_env_def rootfs_vnops_def)
    ultimately show ?thesis
      using rootfs_remove [OF inv ok vc _ k2(5), of r] True k2(3,4) k' by auto
  next
    case False
    have w: "k_world k' = k_world k" by (rule dec_vnode_world [OF d(1) False])
    have f: "kframe k k'" using d(2) by (simp add: dec_of_def)
    have K: "k_vn k' u = (if u \<in> R then cleared ((k_vn k u)\<lparr>vn_inlist := FREE_LIST\<rparr>)
        else if u = v then (k_vn k v)\<lparr>vn_rcnt := vn_rcnt (k_vn k v) - 1,
          vn_inlist := (if vn_rcnt (k_vn k v) = 1 then USED_LIST else LOCKED_LIST)\<rparr>
        else k_vn k u)" for u
      using d(2) by (simp add: dec_of_def)
    show ?thesis
      by (rule rootfs_ok_frame [OF ok f w]) (auto simp: in_core_def K split: if_splits)
  qed
  with d show ?thesis by blast
qed

section \<open>Loading a vnode\<close>

lemma load_pick_world:
  assumes "load_pick rootfs_env n i r k = Some (v, k')"
  shows "k_world k' = k_world k"
proof -
  define P where "P = (\<lambda>(E :: rfs vnenv) (n :: nspace_id) (i :: vnode_id) (r :: bool) (k :: rfs kernel) (y :: vaddr \<times> rfs kernel).
    E = rootfs_env \<longrightarrow> k_world (snd y) = k_world k)"
  have "P E n i r k y" if "load_pick E n i r k = Some y" for E n i r k y
  proof (rule load_pick.raw_induct [OF _ that])
    fix f :: "rfs vnenv \<Rightarrow> nspace_id \<Rightarrow> vnode_id \<Rightarrow> bool \<Rightarrow> rfs kernel \<Rightarrow> (vaddr \<times> rfs kernel) option" and E n i r k y
    assume IH: "\<And>E n i r k y. f E n i r k = Some y \<Longrightarrow> P E n i r k y"
      and eq: "do {
       found \<leftarrow> lookup_vnode n i k;
       case found of
         Some v \<Rightarrow> if vn_busy (k_vn k v) then None else Some (v, k)
       | None \<Rightarrow> (case steal_vnode FREE_LIST k of
             (Some v, k1) \<Rightarrow> Some (v, k1)
           | (None, k1) \<Rightarrow> (case steal_vnode USED_LIST k1 of
                 (None, k2) \<Rightarrow> None
               | (Some v, k2) \<Rightarrow> do {
                   k3 \<leftarrow> flush_vnode E v r k2;
                   f E n i r (move_vnode v FREE_LIST k3) })) } = Some y"
    have st: "k_world k1 = k_world k0" if "steal_vnode l k0 = (a, k1)" for l and k0 :: "rfs kernel" and a k1
      using that by (auto simp: steal_vnode_def split: list.splits)
    show "P E n i r k y"
      unfolding P_def
    proof
      assume E: "E = rootfs_env"
      from eq show "k_world (snd y) = k_world k"
        by (auto split: bind_splits option.splits prod.splits if_splits
            dest!: st IH [unfolded P_def] flush_vnode_world [of _ r] simp: E)
    qed
  qed
  from this [OF assms] show ?thesis by (simp add: P_def)
qed

end
