(* ===== verification/Rootfs_Walk.thy ===== *)
theory Rootfs_Walk
  imports Rootfs_Inv
begin

text \<open>
  The root file system keeps the contract \<open>walk_fs\<close> of the path walk, so that the walk over it, across mount points and
  symbolic links, comes back and keeps all references in balance.
\<close>

section \<open>Loading a vnode\<close>

lemma rootfs_read:
  assumes ok: "rootfs_ok nv k" and sp: "k_ns k n = Some sp"
  shows "\<exists>err d. rootfs_read_vnode (ns_data sp) i r (k_world k) = Some (err, d, k_world k) \<and>
    (err = 0 \<longrightarrow> (\<exists>x. rf_node (k_world k) (nat d) = Some x \<and> rn_vnid x = i \<and> rn_ns x = nat (ns_data sp)))"
proof -
  obtain rs where rs: "rf_ns (k_world k) (nat (ns_data sp)) = Some rs"
    using ok sp unfolding rootfs_ok_def spaces_linked_def by blast
  then have "space_ok (k_world k) (nat (ns_data sp)) rs" using ok by (auto simp: rootfs_ok_def intro: rfs_okD(3))
  then obtain ks where ks: "sl_holds rootfs_compare_vnode (rs_index rs) ks"
    "\<And>i it. sl_map ri_vnid ks i = Some it \<longleftrightarrow> indexed (k_world k) (nat (ns_data sp)) rs i it"
    by (auto simp: space_ok_def)
  have "SearchSL rootfs_compare_vnode \<lparr>ri_vnid = i, ri_node = 0\<rparr> (rs_index rs) = Some (sl_map ri_vnid ks i)"
    using ri.search_map [OF ks(1), of "\<lparr>ri_vnid = i, ri_node = 0\<rparr>"] by simp
  with rs ks(2) [of i] show ?thesis
    by (cases "sl_map ri_vnid ks i") (auto simp: rootfs_read_vnode_def indexed_def)
qed

lemma rootfs_load:
  assumes inv: "vn_inv nv k" and ok: "rootfs_ok nv k" and some: "k_list k FREE_LIST \<noteq> [] \<or> k_list k USED_LIST \<noteq> []"
  shows "\<exists>err v k'. load_vnode rootfs_env n i r k = Some (err, v, k') \<and>
    (if err = 0 then load_of nv v n i k k' else unload_of nv v k k') \<and> k_world k' = k_world k \<and> rootfs_ok nv k'"
proof -
  have R: "reads rootfs_env n i r (k_world k1) k" if "load_pick rootfs_env n i r k = Some (v, k1)" for v k1
    using rootfs_read [OF ok, of n _ i r] load_pick_world [OF that]
    by (fastforce simp: reads_def rootfs_env_def rootfs_vnops_def)
  obtain err v k' where l: "load_vnode rootfs_env n i r k = Some (err, v, k')"
    "if err = 0 then load_of nv v n i k k' else unload_of nv v k k'"
    "err = 0 \<and> v \<in> in_core nv k \<and> is_vn n i (k_vn k v) \<and> k_world k' = k_world k \<or> read_by rootfs_env n i r err v k k'"
    using load_vnode_shape_at [OF inv rootfs_release some, of n i r] R by blast
  have rd: "k_world k' = k_world k \<and> (err = 0 \<longrightarrow> is_vn n i (k_vn k v) \<or> (\<exists>sp x. k_ns k n = Some sp \<and>
      rf_node (k_world k) (nat (vn_data (k_vn k' v))) = Some x \<and> rn_vnid x = i \<and> rn_ns x = nat (ns_data sp)))"
  proof (cases "read_by rootfs_env n i r err v k k'")
    case True
    then obtain k1 where k1: "load_pick rootfs_env n i r k = Some (v, k1)" "err \<noteq> 0 \<and> k_world k' = k_world k1 \<or>
        (\<exists>sp d. k_ns k n = Some sp \<and> rootfs_read_vnode (ns_data sp) i r (k_world k1) = Some (err, d, k_world k') \<and>
           (err = 0 \<longrightarrow> vn_data (k_vn k' v) = d))"
      by (auto simp: read_by_def rootfs_env_def rootfs_vnops_def)
    have w: "k_world k1 = k_world k" by (rule load_pick_world [OF k1(1)])
    from k1(2) show ?thesis
    proof
      assume "\<exists>sp d. k_ns k n = Some sp \<and> rootfs_read_vnode (ns_data sp) i r (k_world k1) = Some (err, d, k_world k') \<and>
           (err = 0 \<longrightarrow> vn_data (k_vn k' v) = d)"
      then obtain sp d where sp: "k_ns k n = Some sp" "rootfs_read_vnode (ns_data sp) i r (k_world k) = Some (err, d, k_world k')"
        "err = 0 \<longrightarrow> vn_data (k_vn k' v) = d" using w by auto
      from rootfs_read [OF ok sp(1), of i r] sp show ?thesis by auto
    qed (simp add: w)
  qed (use l(3) in auto)
  have "rootfs_ok nv k'"
  proof (cases "err = 0")
    case False
    then have d: "unload_of nv v k k'" using l(2) by simp
    then have f: "kframe k k'" "\<And>u. u \<noteq> v \<Longrightarrow> k_vn k' u = k_vn k u" "vn_ns (k_vn k' v) = None" by (auto simp: unload_of_def)
    have "u \<in> in_core nv k \<and> k_vn k' u = k_vn k u" if "u \<in> in_core nv k'" for u
      using f(2) [of u] f(3) that by (cases "u = v") (auto simp: in_core_def)
    then show ?thesis using rd by (intro rootfs_ok_frame [OF ok f(1)]) auto
  next
    case True
    then have d: "load_of nv v n i k k'" using l(2) by simp
    then have f: "kframe k k'" and o: "\<And>u. u \<noteq> v \<Longrightarrow> k_vn k' u = k_vn k u" and v: "v < nv" "is_vn n i (k_vn k' v)"
      by (auto simp: load_of_def)
    have "vn_linked k' u" if u: "u \<in> in_core nv k'" for u
    proof (cases "u = v")
      case False
      then have "vn_linked k u" using u o ok by (auto simp: rootfs_ok_def in_core_def)
      then show ?thesis using o [OF False] rd by (intro vn_linked_frame [OF _ f]) auto
    next
      case uv: True
      show ?thesis
      proof (cases "is_vn n i (k_vn k v)")
        case old: True
        then have "vn_linked k v" using ok v(1) by (auto simp: rootfs_ok_def in_core_def is_vn_def)
        then show ?thesis
          using old v(2) d rd uv by (intro vn_linked_frame [OF _ f]) (auto simp: load_of_def is_vn_def)
      next
        case new: False
        with rd True obtain sp x where x: "k_ns k n = Some sp" "rf_node (k_world k) (nat (vn_data (k_vn k' v))) = Some x"
          "rn_vnid x = i" "rn_ns x = nat (ns_data sp)" by auto
        obtain vs where "k_ns k' n = Some (sp\<lparr>ns_vnodes := vs\<rparr>)" by (rule kframe_ns [OF f x(1)])
        with x v(2) rd new d uv show ?thesis by (auto simp: vn_linked_def is_vn_def load_of_def)
      qed
    qed
    then show ?thesis using ok rd spaces_linked_frame [OF _ f] by (auto simp: rootfs_ok_def)
  qed
  with l rd show ?thesis by blast
qed

text \<open>\<open>get_vnode\<close> as the operations of the root file system call it.\<close>

lemma rootfs_get:
  assumes inv: "vn_inv nv k" and ok: "rootfs_ok nv k" and c: "counts nv C k" and u: "u < nv" "C u = 0"
  shows "\<exists>err x k'. get_vnode rootfs_env n i k = Some (err, x, k') \<and> vn_inv nv k' \<and> rootfs_ok nv k' \<and> keeps nv C k k' \<and>
    (if err = 0 then (\<exists>v < nv. lookup_vnode n i k' = Some (Some v) \<and> counts nv (plus1 C v) k') \<and>
       (\<exists>y. rf_node (k_world k') (nat x) = Some y \<and> rn_vnid y = i)
     else counts nv C k')"
proof -
  have "k_list k FREE_LIST \<noteq> [] \<or> k_list k USED_LIST \<noteq> []"
    by (rule spare_vnode [OF inv u(1)]) (use c u in \<open>simp add: counts_def\<close>)
  from rootfs_load [OF inv ok this, of n i True] obtain err v k' where
    l: "load_vnode rootfs_env n i True k = Some (err, v, k')"
      "if err = 0 then load_of nv v n i k k' else unload_of nv v k k'" "rootfs_ok nv k'" by blast
  show ?thesis
  proof (cases "err = 0")
    case True
    with l(2) have d: "load_of nv v n i k k'" by simp
    note k' = load_of_counts [OF inv c d] and inv' = load_of_inv [OF inv d]
    have "is_vn n i (k_vn k' v)" using d by (simp add: load_of_def)
    moreover from this have "vn_linked k' v" using l(3) k'(4) by (auto simp: rootfs_ok_def in_core_def is_vn_def)
    ultimately have "\<exists>y. rf_node (k_world k') (nat (vn_data (k_vn k' v))) = Some y \<and> rn_vnid y = i"
      by (auto simp: vn_linked_def is_vn_def)
    with l(1,3) k' inv' True show ?thesis by (auto simp: get_vnode_def)
  next
    case False
    with l(2) have d: "unload_of nv v k k'" by simp
    with l(1,3) unload_of_counts [OF c d] unload_of_inv [OF inv d] False show ?thesis by (auto simp: get_vnode_def)
  qed
qed

section \<open>One step of the walk\<close>

lemma find_kid_returns:
  assumes "\<forall>c \<in> set kids. \<exists>y. rf_node w c = Some y \<and> rn_name y \<noteq> None"
  shows "\<exists>r. find_kid w name kids = Some r \<and> (\<forall>a. r = Some a \<longrightarrow> a \<in> set kids)"
  using assms
proof (induction kids)
  case (Cons c kids)
  then obtain y nm where y: "rf_node w c = Some y" "rn_name y = Some nm" by auto
  from Cons obtain r where r: "find_kid w name kids = Some r" "\<forall>a. r = Some a \<longrightarrow> a \<in> set kids" by auto
  show ?case
  proof (cases "nm = name")
    case True
    with y show ?thesis by simp
  next
    case False
    with y r show ?thesis by simp
  qed
qed simp

text \<open>The result of a step: an error or a symbolic link with all references as they were, or a vnode with one more.\<close>

definition walked ::
  "nat \<Rightarrow> (vaddr \<Rightarrow> int) \<Rightarrow> nspace_id \<Rightarrow> rfs kernel \<Rightarrow> (errno \<times> (string option \<times> vnode_id) \<times> rfs kernel) option \<Rightarrow> bool" where
  "walked nv C n k res \<longleftrightarrow> (\<exists>err new i k'. res = Some (err, (new, i), k') \<and> vn_inv nv k' \<and> rootfs_ok nv k' \<and> keeps nv C k k' \<and>
     (if err = 0 \<and> new = None then \<exists>v. v < nv \<and> lookup_vnode n i k' = Some (Some v) \<and> counts nv (plus1 C v) k'
      else counts nv C k'))"

lemma walked_load:
  assumes "vn_inv nv k'" "rootfs_ok nv k'" "keeps nv C k k'" "v < nv" "lookup_vnode n i k' = Some (Some v)" "counts nv (plus1 C v) k'"
  shows "walked nv C n k (Some (0, (None, i), k'))"
  unfolding walked_def using assms by (intro exI [of _ "0 :: errno"] exI [of _ None] exI [of _ i] exI [of _ k']) auto

lemma walked_stay:
  assumes "vn_inv nv k'" "rootfs_ok nv k'" "keeps nv C k k'" "counts nv C k'" "err \<noteq> 0 \<or> new \<noteq> None"
  shows "walked nv C n k (Some (err, (new, i), k'))"
  unfolding walked_def using assms by (intro exI [of _ err] exI [of _ new] exI [of _ i] exI [of _ k']) auto

lemmas walked_same = walked_stay [OF _ _ keeps_refl]

lemma rootfs_walk_law:
  assumes inv: "vn_inv nv k" and ok: "rootfs_ok nv k" and c: "counts nv C k" and b: "b < nv" "0 < C b"
    and u: "u < nv" "C u = 0"
  shows "\<exists>f n. vop op_walk rootfs_sys b k = Some (Some f) \<and> vn_ns (k_vn k b) = Some n \<and> walked nv C n k (f p want k)"
proof -
  let ?w = "k_world k"
  have bc: "b \<in> in_core nv k" using in_use(2) [OF inv b(1)] c b by (simp add: counts_def)
  obtain n sp where n: "vn_ns (k_vn k b) = Some n" "k_ns k n = Some sp" "k_fs k (ns_fs sp) \<noteq> None"
    by (rule vcore_space [OF vn_invD(1) [OF inv] bc])
  then obtain fs where fs: "k_fs k (ns_fs sp) = Some fs" by auto
  let ?f = "rootfs_walk rootfs_env (ns_data sp) (vn_data (k_vn k b))"
  have op: "vop op_walk rootfs_sys b k = Some (Some ?f)"
    using n fs by (simp add: vop_def ops_of_def ns_of_def rootfs_sys_def rootfs_ops_def)
  have "vn_linked k b" using ok bc by (simp add: rootfs_ok_def)
  with n obtain x where x: "rf_node ?w (nat (vn_data (k_vn k b))) = Some x" "rn_ns x = nat (ns_data sp)"
    by (auto simp: vn_linked_def)
  obtain rs where rs: "rf_ns ?w (nat (ns_data sp)) = Some rs" "rs_nsid rs = n"
    using ok n(2) unfolding rootfs_ok_def spaces_linked_def by blast
  have rok: "rfs_ok ?w" using ok by (simp add: rootfs_ok_def)
  note nok = rfs_okD(1) [OF rok x(1), unfolded node_ok_def] and kok = rfs_okD(2) [OF rok x(1), unfolded kids_ok_def]
  let ?load = "\<lambda>i. do { (err, y, k1) \<leftarrow> get_vnode rootfs_env n i k;
       if err \<noteq> 0 then Some (err, (None, 0), k1)
       else do { vn \<leftarrow> rf_node (k_world k1) (nat y); Some (0, (None, rn_vnid vn), k1) } }"
  have load: "walked nv C n k (?load i)" for i
  proof -
    obtain err y k' where g: "get_vnode rootfs_env n i k = Some (err, y, k')" "vn_inv nv k'" "rootfs_ok nv k'" "keeps nv C k k'"
      "if err = 0 then (\<exists>v < nv. lookup_vnode n i k' = Some (Some v) \<and> counts nv (plus1 C v) k') \<and>
         (\<exists>z. rf_node (k_world k') (nat y) = Some z \<and> rn_vnid z = i) else counts nv C k'"
      using rootfs_get [OF inv ok c u, of n i] by blast
    show ?thesis
    proof (cases "err = 0")
      case True
      with g(5) obtain v z where v: "v < nv" "lookup_vnode n i k' = Some (Some v)" "counts nv (plus1 C v) k'"
        "rf_node (k_world k') (nat y) = Some z" "rn_vnid z = i" by auto
      with g(1) True walked_load [OF g(2-4) v(1-3)] show ?thesis by simp
    next
      case False
      with g walked_stay [OF g(2-4), of err None n 0] show ?thesis by simp
    qed
  qed
  note same = walked_same [OF inv ok c]
  have "walked nv C n k (?f p want k)"
  proof (cases "\<not> MY_S_ISDIR (rn_mode x) \<or> rn_removed x")
    case True
    then show ?thesis using same [of ENOTDIR] same [of ENOENT] x(1) rs(1) by (auto simp: rootfs_walk_def)
  next
    case dir: False
    consider (dot) "p = ''.''" | (up) "p = ''..''" | (name) "p \<noteq> ''.''" "p \<noteq> ''..''" by blast
    then show ?thesis
    proof cases
      case dot
      obtain err y k' where g: "get_vnode rootfs_env n (rn_vnid x) k = Some (err, y, k')" "vn_inv nv k'" "rootfs_ok nv k'"
        "keeps nv C k k'"
        "if err = 0 then (\<exists>v < nv. lookup_vnode n (rn_vnid x) k' = Some (Some v) \<and> counts nv (plus1 C v) k') \<and>
           (\<exists>z. rf_node (k_world k') (nat y) = Some z \<and> rn_vnid z = rn_vnid x) else counts nv C k'"
        using rootfs_get [OF inv ok c u, of n "rn_vnid x"] by blast
      then have "?f p want k = Some (err, (None, if err = 0 then rn_vnid x else 0), k')"
        using dir dot x(1) rs by (simp add: rootfs_walk_def)
      moreover have "walked nv C n k (Some (0, (None, rn_vnid x), k'))" if "err = 0"
        using g(5) that walked_load [OF g(2-4)] by auto
      ultimately show ?thesis using g walked_stay [OF g(2-4), of err None n 0] by (cases "err = 0") simp_all
    next
      case up
      obtain y where y: "rf_node ?w (rn_parent x) = Some y" using nok dir by auto
      have "?f p want k = ?load (rn_vnid y)" using dir up x(1) rs y by (simp add: rootfs_walk_def)
      with load show ?thesis by simp
    next
      case name
      obtain r where r: "find_kid ?w p (rn_kids x) = Some r" "\<forall>a. r = Some a \<longrightarrow> a \<in> set (rn_kids x)"
        using find_kid_returns [of "rn_kids x" ?w p] kok by blast
      show ?thesis
      proof (cases r)
        case None
        with r name dir x(1) rs same [of ENOENT] show ?thesis by (simp add: rootfs_walk_def)
      next
        case (Some a)
        then have a: "a \<in> set (rn_kids x)" using r(2) by simp
        then obtain y where y: "rf_node ?w a = Some y" using kok by blast
        show ?thesis
        proof (cases "MY_S_ISLNK (rn_mode y) \<and> want")
          case False
          then have "?f p want k = ?load (rn_vnid y)" using name dir x(1) rs y r(1) Some by (auto simp: rootfs_walk_def)
          with load show ?thesis by simp
        next
          case True
          then obtain s where s: "rn_symlink y = Some s" using rfs_okD(1) [OF rok y] by (auto simp: node_ok_def)
          obtain err np where np: "new_path (k_mem k) (Some s) = (err, np)" by fastforce
          then have "np \<noteq> None" if "err = 0" using that by (auto simp: new_path_def split: if_splits)
          with np True name dir x(1) rs y r(1) Some s same [of err] same [of 0 np]
          show ?thesis by (cases "err = 0") (auto simp: rootfs_walk_def)
        qed
      qed
    qed
  qed
  with op n(1) show ?thesis by blast
qed

section \<open>The walk\<close>

interpretation rw: walk_fs nv rootfs_env rootfs_sys "rootfs_ok nv" for nv
proof
  fix k v assume "vn_inv nv k" "rootfs_ok nv k" "v < nv" "0 < vn_rcnt (k_vn k v)"
  then show "\<exists>k' R. dec_vnode rootfs_env v False k = Some k' \<and> dec_of nv v R k k' \<and> rootfs_ok nv k'"
    by (rule rootfs_dec)
next
  fix k v assume "rootfs_ok nv k"
  then show "rootfs_ok nv (inc_vnode v k)"
    by (rule rootfs_ok_frame) (auto simp: inc_vnode_def in_core_def split: if_splits)
next
  fix k C b u p want
  assume a: "vn_inv nv k" "rootfs_ok nv k" "counts nv C k" "b < nv" "0 < C b" "u < nv" "C u = 0"
  from rootfs_walk_law [OF this, of p want] obtain f n err new i k' where
    f: "vop op_walk rootfs_sys b k = Some (Some f)" "vn_ns (k_vn k b) = Some n" "f p want k = Some (err, (new, i), k')"
      "vn_inv nv k'" "rootfs_ok nv k'" "keeps nv C k k'"
      "if err = 0 \<and> new = None then \<exists>v. v < nv \<and> lookup_vnode n i k' = Some (Some v) \<and> counts nv (plus1 C v) k'
       else counts nv C k'"
    by (auto simp: walked_def)
  have "vn_ns (k_vn k' b) = Some n" using f(2,6) a(4,5) by (simp add: keeps_def same_vn_def)
  then have "if err = 0 \<and> new = None
       then \<exists>v n. v < nv \<and> vn_ns (k_vn k' b) = Some n \<and> lookup_vnode n i k' = Some (Some v) \<and> counts nv (plus1 C v) k'
       else counts nv C k'" using f(7) by (simp split: if_splits)
  with f(1,3-6) show "\<exists>f err new i k'. vop op_walk rootfs_sys b k = Some (Some f) \<and> f p want k = Some (err, (new, i), k') \<and>
      vn_inv nv k' \<and> rootfs_ok nv k' \<and> keeps nv C k k' \<and>
      (if err = 0 \<and> new = None
       then \<exists>v n. v < nv \<and> vn_ns (k_vn k' b) = Some n \<and> lookup_vnode n i k' = Some (Some v) \<and> counts nv (plus1 C v) k'
       else counts nv C k')"
    by blast
qed

end
