(* ===== verification/Rootfs_Dirs.thy ===== *)
theory Rootfs_Dirs
  imports Rootfs_Walk
begin

text \<open>
  The directories of the root file system as maps from names to nodes.  The sorted lists of children, with their two searches and the
  insertion, implement these maps; creating a node adds one entry and keeps the invariant of the store.
\<close>

section \<open>Searching and inserting\<close>

definition dir_map :: "rfs \<Rightarrow> nat \<Rightarrow> string \<rightharpoonup> nat" where
  "dir_map w d name = (case rf_node w d of None \<Rightarrow> None | Some x \<Rightarrow> find (\<lambda>c. kid_name w c = name) (rn_kids x))"

definition named :: "rfs \<Rightarrow> nat list \<Rightarrow> bool" where
  "named w kids \<longleftrightarrow> (\<forall>c \<in> set kids. \<exists>y nm. rf_node w c = Some y \<and> rn_name y = Some nm)"

lemma named_Cons [simp]: "named w (c # kids) \<longleftrightarrow> (\<exists>y nm. rf_node w c = Some y \<and> rn_name y = Some nm) \<and> named w kids"
  by (simp add: named_def)

lemma kid_name_eq: "rf_node w c = Some y \<Longrightarrow> rn_name y = Some nm \<Longrightarrow> kid_name w c = nm"
  by (simp add: kid_name_def)

lemma find_kid_find: "named w kids \<Longrightarrow> find_kid w name kids = Some (find (\<lambda>c. kid_name w c = name) kids)"
  by (induction kids) (auto simp: kid_name_eq)

lemma create_lookup_find:
  "named w kids \<Longrightarrow> sorted_wrt (\<lambda>c c'. kid_name w c < kid_name w c') kids \<Longrightarrow>
     create_lookup w name kids = Some (find (\<lambda>c. kid_name w c = name) kids)"
proof (induction kids)
  case (Cons c kids)
  then obtain y nm where y: "rf_node w c = Some y" "rn_name y = Some nm" by auto
  then have k: "kid_name w c = nm" by (rule kid_name_eq)
  have "find (\<lambda>c. kid_name w c = name) kids = None" if "name < nm"
    using Cons.prems(2) k that by (auto simp: find_None_iff)
  with Cons y k show ?case by auto
qed simp

lemma insert_kid_sorted:
  assumes "named w kids" "sorted_wrt (\<lambda>c c'. kid_name w c < kid_name w c') kids" "find (\<lambda>c. kid_name w c = name) kids = None"
  shows "\<exists>us vs. insert_kid w name v kids = Some (us @ v # vs) \<and> kids = us @ vs \<and>
    (\<forall>c \<in> set us. kid_name w c < name) \<and> (\<forall>c \<in> set vs. name < kid_name w c)"
  using assms
proof (induction kids)
  case (Cons c kids)
  then obtain y nm where y: "rf_node w c = Some y" "rn_name y = Some nm" by auto
  then have k: "kid_name w c = nm" by (rule kid_name_eq)
  show ?case
  proof (cases "name > nm")
    case True
    from Cons obtain us vs where "insert_kid w name v kids = Some (us @ v # vs)" "kids = us @ vs"
      "\<forall>c \<in> set us. kid_name w c < name" "\<forall>c \<in> set vs. name < kid_name w c"
      by (auto split: if_splits)
    with True y k show ?thesis by (intro exI [of _ "c # us"] exI [of _ vs]) simp
  next
    case False
    with Cons.prems(3) k have "name < nm" by (auto split: if_splits)
    moreover have "\<forall>d \<in> set kids. nm < kid_name w d" using Cons.prems(2) k by auto
    ultimately show ?thesis using y k False by (intro exI [of _ "[]"] exI [of _ "c # kids"]) auto
  qed
qed simp

lemma kids_named: "kids_ok w a x \<Longrightarrow> named w (rn_kids x)"
  by (fastforce simp: kids_ok_def named_def)

section \<open>Creating a node\<close>

text \<open>The store after \<open>do_create\<close>.\<close>

definition created :: "nat \<Rightarrow> nat \<Rightarrow> string \<Rightarrow> int \<Rightarrow> rnode \<Rightarrow> rspace \<Rightarrow> nat list \<Rightarrow> (SkipList \<times> ritem slheap) \<Rightarrow> rfs \<Rightarrow> rfs \<Rightarrow> bool" where
  "created d dir name mode x rs kids s w w' \<longleftrightarrow>
     rf_next w' = Suc (rf_next w) \<and> rf_mem w' = rf_mem w \<and>
     rf_ns w' = (rf_ns w)(d \<mapsto> rs\<lparr>rs_nxvnid := rs_nxvnid rs + 1, rs_vnnum := rs_vnnum rs + 1, rs_index := s,
       rs_slnext := Suc (rs_slnext rs)\<rparr>) \<and>
     rf_node w' = (rf_node w)(dir \<mapsto> x\<lparr>rn_mtime := rf_time w, rn_kids := kids\<rparr>,
       rf_next w \<mapsto> \<lparr>rn_name = Some name, rn_removed = False, rn_ns = d, rn_vnid = rs_nxvnid rs + 1, rn_parent = dir,
         rn_mtime = rf_time w, rn_uid = 0, rn_gid = 0, rn_mode = mode, rn_kids = [], rn_symlink = None\<rparr>)"

lemma do_create_returns:
  assumes ok: "rfs_ok w" and x: "rf_node w dir = Some x" "MY_S_ISDIR (rn_mode x)" "\<not> rn_removed x" and rs: "rf_ns w (rn_ns x) = Some rs"
    and name: "name \<noteq> ''.''" "name \<noteq> ''..''" "dir_map w dir name = None" and mem: "rf_mem w"
  shows "\<exists>w' us vs s ks. do_create (rn_ns x) dir name mode w = Some ((0, rf_next w), w') \<and>
    created (rn_ns x) dir name mode x rs (us @ rf_next w # vs) s w w' \<and> rn_kids x = us @ vs \<and>
    (\<forall>c \<in> set us. kid_name w c < name) \<and> (\<forall>c \<in> set vs. name < kid_name w c) \<and>
    sl_nodes s = insert (rs_slnext rs) (sl_nodes (rs_index rs)) \<and> sl_holds rootfs_compare_vnode s ks \<and>
    (\<forall>i it. sl_map ri_vnid ks i = Some it \<longleftrightarrow> it = \<lparr>ri_vnid = rs_nxvnid rs + 1, ri_node = rf_next w\<rparr> \<and> i = rs_nxvnid rs + 1 \<or>
       indexed w (rn_ns x) rs i it)"
proof -
  let ?d = "rn_ns x" and ?it = "\<lparr>ri_vnid = rs_nxvnid rs + 1, ri_node = rf_next w\<rparr>"
  note kids = rfs_okD(2) [OF ok x(1)]
  have sorted: "sorted_wrt (\<lambda>c c'. kid_name w c < kid_name w c') (rn_kids x)" using kids by (simp add: kids_ok_def)
  have f: "find (\<lambda>c. kid_name w c = name) (rn_kids x) = None" using name(3) x(1) by (simp add: dir_map_def)
  obtain us vs where ins: "insert_kid w name (rf_next w) (rn_kids x) = Some (us @ rf_next w # vs)" "rn_kids x = us @ vs"
    "\<forall>c \<in> set us. kid_name w c < name" "\<forall>c \<in> set vs. name < kid_name w c"
    using insert_kid_sorted [OF kids_named [OF kids] sorted f] by blast
  have look: "create_lookup w name (rn_kids x) = Some None" using create_lookup_find [OF kids_named [OF kids] sorted] f by simp
  obtain ks where ks: "sl_holds rootfs_compare_vnode (rs_index rs) ks" "sl_nodes (rs_index rs) \<subseteq> {..<rs_slnext rs}"
    "\<And>i it. sl_map ri_vnid ks i = Some it \<longleftrightarrow> indexed w ?d rs i it"
    using rfs_okD(3) [OF ok rs] by (auto simp: space_ok_def)
  have new: "\<not> indexed w ?d rs (rs_nxvnid rs + 1) it" for it
  proof
    assume "indexed w ?d rs (rs_nxvnid rs + 1) it"
    then obtain y where y: "rf_node w (ri_node it) = Some y" "rn_ns y = ?d" "rn_vnid y = rs_nxvnid rs + 1"
      by (auto simp: indexed_def)
    from rfs_okD(1) [OF ok y(1)] y(2,3) rs show False by (simp add: node_ok_def)
  qed
  have "sl_map ri_vnid ks (ri_vnid ?it) = None"
    using ks(3) [of "rs_nxvnid rs + 1"] new by (cases "sl_map ri_vnid ks (rs_nxvnid rs + 1)") auto
  moreover have "rs_slnext rs \<notin> sl_nodes (rs_index rs)" using ks(2) by auto
  ultimately obtain s ks' where s: "InsertSL rootfs_compare_vnode (rf_rand w) (Some (rs_slnext rs)) ?it (rs_index rs) = Some (1, s)"
    "sl_nodes s = insert (rs_slnext rs) (sl_nodes (rs_index rs))" "sl_holds rootfs_compare_vnode s ks'"
    "sl_map ri_vnid ks' = (sl_map ri_vnid ks)(ri_vnid ?it \<mapsto> ?it)"
    using ri.insert_map [OF ks(1), of ?it "rs_slnext rs" "rf_rand w"] by blast
  have "sl_map ri_vnid ks' i = Some it \<longleftrightarrow> it = ?it \<and> i = rs_nxvnid rs + 1 \<or> indexed w ?d rs i it" for i it
    using s(4) ks(3) [of i it] new [of it] by (cases "i = rs_nxvnid rs + 1") auto
  moreover obtain w' where w': "do_create ?d dir name mode w = Some ((0, rf_next w), w')"
    "created ?d dir name mode x rs (us @ rf_next w # vs) s w w'"
    using x rs name(1,2) look mem ins(1) s(1) by (simp add: do_create_def Let_def created_def DUPLICATE_ITEM_def)
  ultimately show ?thesis using ins(2-4) s(2,3) by blast
qed

text \<open>Every node but the directory stays as it was, and the directory keeps all but its time and its children.\<close>

definition like :: "rnode \<Rightarrow> rnode \<Rightarrow> bool" where
  "like x y \<longleftrightarrow> y = x\<lparr>rn_mtime := rn_mtime y, rn_kids := rn_kids y\<rparr>"

lemma likeD:
  assumes "like x y"
  shows "rn_ns y = rn_ns x" "rn_vnid y = rn_vnid x" "rn_name y = rn_name x" "rn_parent y = rn_parent x"
    "rn_removed y = rn_removed x" "rn_mode y = rn_mode x" "rn_symlink y = rn_symlink x"
  using assms by (cases x; cases y; simp add: like_def)+

lemma created_nodes:
  assumes ok: "rfs_ok w" and x: "rf_node w dir = Some x" and c: "created (rn_ns x) dir name mode x rs kids s w w'"
  shows "rf_node w (rf_next w) = None" "dir \<noteq> rf_next w"
    "rf_node w b = Some y \<Longrightarrow> \<exists>y'. rf_node w' b = Some y' \<and> like y y' \<and> (b \<noteq> dir \<longrightarrow> y' = y)"
    "b \<noteq> rf_next w \<Longrightarrow> rf_node w' b = Some y' \<Longrightarrow> \<exists>y. rf_node w b = Some y \<and> like y y' \<and> (b \<noteq> dir \<longrightarrow> y' = y)"
    "b \<noteq> rf_next w \<Longrightarrow> kid_name w' b = kid_name w b" "kid_name w' (rf_next w) = name"
proof -
  have fresh: "b \<noteq> rf_next w" if "rf_node w b = Some y" for b y using rfs_okD(1) [OF ok that] by (simp add: node_ok_def)
  show none: "rf_node w (rf_next w) = None" using fresh by (cases "rf_node w (rf_next w)") auto
  show "dir \<noteq> rf_next w" by (rule fresh [OF x])
  have n: "rf_node w' = (rf_node w)(dir \<mapsto> x\<lparr>rn_mtime := rf_time w, rn_kids := kids\<rparr>,
       rf_next w \<mapsto> \<lparr>rn_name = Some name, rn_removed = False, rn_ns = rn_ns x, rn_vnid = rs_nxvnid rs + 1, rn_parent = dir,
         rn_mtime = rf_time w, rn_uid = 0, rn_gid = 0, rn_mode = mode, rn_kids = [], rn_symlink = None\<rparr>)"
    using c by (simp add: created_def)
  show "rf_node w b = Some y \<Longrightarrow> \<exists>y'. rf_node w' b = Some y' \<and> like y y' \<and> (b \<noteq> dir \<longrightarrow> y' = y)"
    using fresh [of b y] x by (auto simp: n like_def)
  show "b \<noteq> rf_next w \<Longrightarrow> rf_node w' b = Some y' \<Longrightarrow> \<exists>y. rf_node w b = Some y \<and> like y y' \<and> (b \<noteq> dir \<longrightarrow> y' = y)"
    using x by (auto simp: n like_def split: if_splits)
  show "b \<noteq> rf_next w \<Longrightarrow> kid_name w' b = kid_name w b" using x by (simp add: kid_name_def n)
  show "kid_name w' (rf_next w) = name" by (simp add: kid_name_def n)
qed

lemma created_node_ok:
  assumes ok: "rfs_ok w" and x: "rf_node w dir = Some x" and rs: "rf_ns w (rn_ns x) = Some rs"
    and c: "created (rn_ns x) dir name mode x rs kids s w w'" and m: "\<not> MY_S_ISLNK mode" and y: "rf_node w' b = Some y"
  shows "node_ok w' b y"
proof -
  note N = created_nodes [OF ok x c]
  have ns: "rf_ns w' = (rf_ns w)(rn_ns x \<mapsto> rs\<lparr>rs_nxvnid := rs_nxvnid rs + 1, rs_vnnum := rs_vnnum rs + 1, rs_index := s,
       rs_slnext := Suc (rs_slnext rs)\<rparr>)" "rf_next w' = Suc (rf_next w)" using c by (simp_all add: created_def)
  show ?thesis
  proof (cases "b = rf_next w")
    case True
    with y c have "y = \<lparr>rn_name = Some name, rn_removed = False, rn_ns = rn_ns x, rn_vnid = rs_nxvnid rs + 1, rn_parent = dir,
         rn_mtime = rf_time w, rn_uid = 0, rn_gid = 0, rn_mode = mode, rn_kids = [], rn_symlink = None\<rparr>"
      by (simp add: created_def)
    moreover obtain x' where "rf_node w' dir = Some x'" "rn_ns x' = rn_ns x" using N(3) [OF x] likeD(1) by blast
    ultimately show ?thesis using True m by (simp add: node_ok_def ns)
  next
    case False
    from N(4) [OF False y] obtain z where z: "rf_node w b = Some z" "like z y" by blast
    note zok = rfs_okD(1) [OF ok z(1), unfolded node_ok_def] and l = likeD [OF z(2)]
    have "\<exists>r. rf_ns w' (rn_ns y) = Some r \<and> rn_vnid y \<le> rs_nxvnid r"
      using zok rs l by (cases "rn_ns z = rn_ns x") (auto simp: ns)
    moreover have "\<exists>q. rf_node w' (rn_parent y) = Some q \<and> rn_ns q = rn_ns y" if "\<not> rn_removed y"
      using zok that N(3) likeD(1) l(1,4,5) by metis
    ultimately show ?thesis using zok l by (auto simp: node_ok_def ns)
  qed
qed

lemma created_kids_ok:
  assumes ok: "rfs_ok w" and x: "rf_node w dir = Some x"
    and c: "created (rn_ns x) dir name mode x rs (us @ rf_next w # vs) s w w'"
    and k: "rn_kids x = us @ vs" "\<forall>c \<in> set us. kid_name w c < name" "\<forall>c \<in> set vs. name < kid_name w c"
    and y: "rf_node w' b = Some y"
  shows "kids_ok w' b y"
proof -
  note N = created_nodes [OF ok x c]
  have old: "\<exists>q'. rf_node w' a = Some q' \<and> rn_name q' \<noteq> None \<and> rn_ns q' = rn_ns z \<and> rn_parent q' = p \<and> \<not> rn_removed q'" "a \<noteq> rf_next w"
    if "kids_ok w p z" "a \<in> set (rn_kids z)" for a p z
  proof -
    obtain q where q: "rf_node w a = Some q" "rn_name q \<noteq> None" "rn_ns q = rn_ns z" "rn_parent q = p" "\<not> rn_removed q"
      using \<open>kids_ok w p z\<close> \<open>a \<in> set (rn_kids z)\<close> unfolding kids_ok_def by blast
    with N(1) show "a \<noteq> rf_next w" by auto
    from N(3) [OF q(1)] obtain q' where "rf_node w' a = Some q'" "like q q'" by blast
    with q likeD [of q q']
    show "\<exists>q'. rf_node w' a = Some q' \<and> rn_name q' \<noteq> None \<and> rn_ns q' = rn_ns z \<and> rn_parent q' = p \<and> \<not> rn_removed q'" by metis
  qed
  consider (new) "b = rf_next w" | (dir) "b = dir" | (rest) "b \<noteq> rf_next w" "b \<noteq> dir" by blast
  then show ?thesis
  proof cases
    case new
    then have "rn_kids y = []" using y c by (auto simp: created_def)
    then show ?thesis by (simp add: kids_ok_def)
  next
    case dir
    note xok = rfs_okD(2) [OF ok x]
    have y': "y = x\<lparr>rn_mtime := rf_time w, rn_kids := us @ rf_next w # vs\<rparr>"
      using y c dir N(2) by (auto simp: created_def)
    have "\<exists>q. rf_node w' a = Some q \<and> rn_name q \<noteq> None \<and> rn_ns q = rn_ns y \<and> rn_parent q = b \<and> \<not> rn_removed q"
      if a: "a \<in> set (rn_kids y)" for a
    proof (cases "a = rf_next w")
      case True
      then show ?thesis using c y' dir by (auto simp: created_def)
    next
      case False
      with a y' k(1) have "a \<in> set (rn_kids x)" by auto
      from old(1) [OF xok this] show ?thesis using y' dir by simp
    qed
    moreover have "sorted_wrt (\<lambda>c c'. kid_name w' c < kid_name w' c') (us @ rf_next w # vs)"
    proof -
      have "sorted_wrt (\<lambda>c c'. kid_name w c < kid_name w c') (us @ vs)" using xok k(1) by (simp add: kids_ok_def)
      moreover have kn: "kid_name w' a = kid_name w a" if "a \<in> set (us @ vs)" for a
        using N(5) old(2) [OF xok] that k(1) by simp
      ultimately have "sorted_wrt (\<lambda>c c'. kid_name w' c < kid_name w' c') (us @ vs)"
        by (elim sorted_wrt_mono_rel [rotated]) simp
      with k(2,3) kn N(6) show ?thesis by (auto simp: sorted_wrt_append)
    qed
    ultimately show ?thesis using y' unfolding kids_ok_def by simp
  next
    case rest
    from N(4) [OF rest(1) y] rest(2) have y0: "rf_node w b = Some y" by auto
    note yok = rfs_okD(2) [OF ok y0]
    have kn: "kid_name w' a = kid_name w a" if "a \<in> set (rn_kids y)" for a using N(5) old(2) [OF yok that] by simp
    have "sorted_wrt (\<lambda>c c'. kid_name w' c < kid_name w' c') (rn_kids y)"
      using yok kn unfolding kids_ok_def by (elim conjE sorted_wrt_mono_rel [rotated]) simp
    with old(1) [OF yok] show ?thesis unfolding kids_ok_def by blast
  qed
qed

lemma created_ok:
  assumes ok: "rfs_ok w" and x: "rf_node w dir = Some x" and rs: "rf_ns w (rn_ns x) = Some rs"
    and c: "created (rn_ns x) dir name mode x rs (us @ rf_next w # vs) s w w'" and m: "\<not> MY_S_ISLNK mode"
    and k: "rn_kids x = us @ vs" "\<forall>c \<in> set us. kid_name w c < name" "\<forall>c \<in> set vs. name < kid_name w c"
    and s: "sl_nodes s = insert (rs_slnext rs) (sl_nodes (rs_index rs))" "sl_holds rootfs_compare_vnode s ks"
      "\<And>i it. sl_map ri_vnid ks i = Some it \<longleftrightarrow> it = \<lparr>ri_vnid = rs_nxvnid rs + 1, ri_node = rf_next w\<rparr> \<and> i = rs_nxvnid rs + 1 \<or>
         indexed w (rn_ns x) rs i it"
  shows "rfs_ok w'"
proof -
  note N = created_nodes [OF ok x c]
  have root: "\<exists>y. rf_node w' (rs_root r) = Some y \<and> rn_ns y = e" "rs_root r \<noteq> rf_next w" if "space_ok w e r" for e r
  proof -
    obtain y where y: "rf_node w (rs_root r) = Some y" "rn_ns y = e"
      using \<open>space_ok w e r\<close> by (auto simp: space_ok_def)
    show "rs_root r \<noteq> rf_next w" using y N(1) by auto
    show "\<exists>y. rf_node w' (rs_root r) = Some y \<and> rn_ns y = e" using N(3) [OF y(1)] y(2) likeD(1) by metis
  qed
  have new: "rf_node w' (rf_next w) = Some \<lparr>rn_name = Some name, rn_removed = False, rn_ns = rn_ns x,
      rn_vnid = rs_nxvnid rs + 1, rn_parent = dir, rn_mtime = rf_time w, rn_uid = 0, rn_gid = 0, rn_mode = mode,
      rn_kids = [], rn_symlink = None\<rparr>" using c by (simp add: created_def)
  have idx: "indexed w' e r' i it \<longleftrightarrow> it = \<lparr>ri_vnid = rs_nxvnid rs + 1, ri_node = rf_next w\<rparr> \<and> i = rs_nxvnid rs + 1 \<and> e = rn_ns x \<or>
      indexed w e r i it" if "space_ok w e r" "rs_root r' = rs_root r" for e r r' i it
  proof (cases "ri_node it = rf_next w")
    case True
    then have none: "\<not> indexed w e r i it" using N(1) by (auto simp: indexed_def)
    have eq: "it = \<lparr>ri_vnid = rs_nxvnid rs + 1, ri_node = rf_next w\<rparr> \<longleftrightarrow> ri_vnid it = rs_nxvnid rs + 1"
      using True by (cases it) auto
    have idx: "indexed w' e r' i it \<longleftrightarrow> ri_vnid it = i \<and> rn_ns x = e \<and> rs_nxvnid rs + 1 = i"
      unfolding indexed_def True that(2) new using root(2) [OF that(1)] by simp
    show ?thesis unfolding eq idx using none by auto
  next
    case False
    have "(\<exists>y. rf_node w' (ri_node it) = Some y \<and> rn_ns y = e \<and> rn_vnid y = i) \<longleftrightarrow>
        (\<exists>y. rf_node w (ri_node it) = Some y \<and> rn_ns y = e \<and> rn_vnid y = i)"
      (is "?new \<longleftrightarrow> ?old")
    proof
      assume ?new
      then obtain y where y: "rf_node w' (ri_node it) = Some y" "rn_ns y = e" "rn_vnid y = i" by blast
      from N(4) [OF False y(1)] obtain z where "rf_node w (ri_node it) = Some z" "like z y" by blast
      with y likeD [of z y] show ?old by simp
    next
      assume ?old
      then obtain y where y: "rf_node w (ri_node it) = Some y" "rn_ns y = e" "rn_vnid y = i" by blast
      from N(3) [OF y(1)] obtain z where "rf_node w' (ri_node it) = Some z" "like y z" by blast
      with y likeD [of y z] show ?new by simp
    qed
    then show ?thesis using False that(2) by (auto simp: indexed_def)
  qed
  have "space_ok w' e r" if e: "rf_ns w' e = Some r" for e r
  proof (cases "e = rn_ns x")
    case True
    let ?rs = "rs\<lparr>rs_nxvnid := rs_nxvnid rs + 1, rs_vnnum := rs_vnnum rs + 1, rs_index := s, rs_slnext := Suc (rs_slnext rs)\<rparr>"
    have r: "r = ?rs" using e c True by (simp add: created_def)
    note rok = rfs_okD(3) [OF ok rs]
    have "sl_nodes s \<subseteq> {..<Suc (rs_slnext rs)}" using s(1) rok by (auto simp: space_ok_def)
    moreover have "sl_map ri_vnid ks i = Some it \<longleftrightarrow> indexed w' e ?rs i it" for i it
      using s(3) [of i it] idx [OF rok, of ?rs i it] True by simp
    ultimately show ?thesis using root(1) [OF rok] r True s(2) by (auto simp: space_ok_def)
  next
    case False
    then have e': "rf_ns w e = Some r" using e c by (simp add: created_def)
    note rok = rfs_okD(3) [OF ok e']
    have "indexed w' e r i it = indexed w e r i it" for i it using idx [OF rok, of r i it] False by simp
    with rok root(1) [OF rok] show ?thesis by (simp add: space_ok_def)
  qed
  with created_node_ok [OF ok x rs c m] created_kids_ok [OF ok x c k] show ?thesis by (simp add: rfs_ok_def)
qed

section \<open>Directories as maps\<close>

lemma created_dir_map:
  assumes ok: "rfs_ok w" and x: "rf_node w dir = Some x"
    and c: "created (rn_ns x) dir name mode x rs (us @ rf_next w # vs) s w w'"
    and k: "rn_kids x = us @ vs" "\<forall>c \<in> set us. kid_name w c < name" "\<forall>c \<in> set vs. name < kid_name w c"
  shows "dir_map w' = (dir_map w)(dir := (dir_map w dir)(name \<mapsto> rf_next w), rf_next w := Map.empty)"
proof (intro ext)
  fix b q
  note N = created_nodes [OF ok x c]
  have kn: "kid_name w' a = kid_name w a" if "rf_node w b = Some y" "a \<in> set (rn_kids y)" for a b y
  proof -
    have "rf_node w a \<noteq> None" using rfs_okD(2) [OF ok that(1)] that(2) by (auto simp: kids_ok_def)
    with N(1) have "a \<noteq> rf_next w" by auto
    then show ?thesis by (rule N(5))
  qed
  consider (new) "b = rf_next w" | (dir) "b = dir" | (rest) "b \<noteq> rf_next w" "b \<noteq> dir" by blast
  then show "dir_map w' b q = ((dir_map w)(dir := (dir_map w dir)(name \<mapsto> rf_next w), rf_next w := Map.empty)) b q"
  proof cases
    case new
    then show ?thesis using c by (simp add: dir_map_def created_def)
  next
    case dir
    have y: "rf_node w' dir = Some (x\<lparr>rn_mtime := rf_time w, rn_kids := us @ rf_next w # vs\<rparr>)"
      using c N(2) by (simp add: created_def)
    have f: "find (\<lambda>c. kid_name w' c = q) zs = find (\<lambda>c. kid_name w c = q) zs" if "set zs \<subseteq> set (rn_kids x)" for zs
      by (rule find_cong) (use kn [OF x] that in auto)
    have "find (\<lambda>c. kid_name w c = name) us = None" using k(2) by (auto simp: find_None_iff)
    then have "find (\<lambda>c. kid_name w' c = q) (us @ rf_next w # vs) =
        (if q = name then Some (rf_next w) else find (\<lambda>c. kid_name w c = q) (us @ vs))"
      using f [of us] f [of vs] k(1) N(6) by (cases "q = name") (simp_all add: find_append split: option.split)
    with dir y x k(1) N(2) show ?thesis by (simp add: dir_map_def)
  next
    case rest
    show ?thesis
    proof (cases "rf_node w b")
      case None
      then show ?thesis using rest c by (simp add: dir_map_def created_def)
    next
      case (Some y)
      from N(3) [OF Some] rest have "rf_node w' b = Some y" by auto
      moreover have "find (\<lambda>c. kid_name w' c = q) (rn_kids y) = find (\<lambda>c. kid_name w c = q) (rn_kids y)"
        by (rule find_cong) (use kn [OF Some] in auto)
      ultimately show ?thesis using rest Some by (simp add: dir_map_def)
    qed
  qed
qed

lemma created_linked:
  assumes ok: "rootfs_ok nv k" and x: "rf_node (k_world k) dir = Some x" "MY_S_ISDIR (rn_mode x)" "\<not> rn_removed x"
    and rs: "rf_ns (k_world k) (rn_ns x) = Some rs"
    and c: "created (rn_ns x) dir name mode x rs (us @ rf_next (k_world k) # vs) s (k_world k) w'"
    and k: "rn_kids x = us @ vs" and ok': "rfs_ok w'"
  shows "rootfs_ok nv (k\<lparr>k_world := w'\<rparr>)"
proof -
  let ?w = "k_world k" and ?k = "k\<lparr>k_world := w'\<rparr>"
  have rok: "rfs_ok ?w" using ok by (simp add: rootfs_ok_def)
  note N = created_nodes [OF rok x(1) c]
  have dead: "orphan w' a" if a: "rf_node ?w a = Some z" "doomed ?w a z" for a z
    unfolding orphan_def
  proof (intro conjI allI impI)
    have o: "orphan ?w a" and ad: "a \<noteq> dir" "a \<noteq> rf_next ?w" using a x N(1) by (auto simp: doomed_def)
    fix b y assume y: "rf_node w' b = Some y"
    consider (new) "b = rf_next ?w" | (dir) "b = dir" | (rest) "rf_node ?w b = Some y"
      using N(4) [OF _ y] by blast
    then have "a \<notin> set (rn_kids y) \<and> (b \<noteq> a \<and> \<not> rn_removed y \<longrightarrow> rn_parent y \<noteq> a)"
    proof cases
      case new
      with y c ad show ?thesis by (auto simp: created_def)
    next
      case dir
      then have "y = x\<lparr>rn_mtime := rf_time ?w, rn_kids := us @ rf_next ?w # vs\<rparr>" using y c N(2) by (auto simp: created_def)
      moreover have "a \<notin> set (rn_kids x)" "dir \<noteq> a \<and> \<not> rn_removed x \<longrightarrow> rn_parent x \<noteq> a"
        using o x(1) unfolding orphan_def by blast+
      ultimately show ?thesis using k ad dir by auto
    next
      case rest
      with o show ?thesis by (auto simp: orphan_def)
    qed
    then show "a \<notin> set (rn_kids y)" "b \<noteq> a \<and> \<not> rn_removed y \<Longrightarrow> rn_parent y \<noteq> a" by auto
  next
    fix e r assume "rf_ns w' e = Some r"
    then obtain r0 where "rf_ns ?w e = Some r0" "rs_root r = rs_root r0"
      using c rs by (cases "e = rn_ns x") (auto simp: created_def)
    with a(2) show "rs_root r \<noteq> a" unfolding doomed_def orphan_def by metis
  qed
  have f: "kframe k ?k" by (rule kframe_upd)
  have "vn_linked ?k v" if v: "v \<in> in_core nv ?k" for v
  proof (rule vn_linked_frame [OF _ f])
    show "vn_linked k v" using ok v by (simp add: rootfs_ok_def in_core_def)
    fix z assume z: "rf_node ?w (nat (vn_data (k_vn k v))) = Some z"
    from N(3) [OF z] obtain y where y: "rf_node w' (nat (vn_data (k_vn k v))) = Some y" "like z y" by blast
    note l = likeD [OF y(2)]
    have "doomed w' (nat (vn_data (k_vn k v))) y" if "doomed ?w (nat (vn_data (k_vn k v))) z"
      using dead [OF z that] that l(5,6) unfolding doomed_def by simp
    then show "\<exists>y. rf_node (k_world ?k) (nat (vn_data (k_vn k v))) = Some y \<and> rn_vnid y = rn_vnid z \<and> rn_ns y = rn_ns z \<and>
        (doomed ?w (nat (vn_data (k_vn k v))) z \<longrightarrow> doomed (k_world ?k) (nat (vn_data (k_vn k v))) y)"
      using y(1) l(1,2) by (intro exI [of _ y]) simp
  qed simp_all
  moreover have "spaces_linked ?k"
  proof (rule spaces_linked_frame [OF _ f])
    show "spaces_linked k" using ok by (simp add: rootfs_ok_def)
    fix d r assume "rf_ns ?w d = Some r"
    with c rs show "\<exists>r'. rf_ns (k_world ?k) d = Some r' \<and> rs_nsid r' = rs_nsid r"
      by (cases "d = rn_ns x") (simp_all add: created_def)
  qed
  ultimately show ?thesis using ok' by (simp add: rootfs_ok_def)
qed

lemma not_link: "\<not> MY_S_ISLNK ((perms AND NOT MY_S_IFMT) OR MY_S_IFDIR)"
proof
  assume "MY_S_ISLNK ((perms AND NOT MY_S_IFMT) OR MY_S_IFDIR)"
  then have "((perms AND NOT MY_S_IFMT) OR MY_S_IFDIR) AND 0xf000 = 0xa000" by (simp add: MY_S_ISLNK_def)
  then have "bit (((perms AND NOT MY_S_IFMT) OR MY_S_IFDIR) AND 0xf000) 15 = bit (0xa000 :: int) 15" by simp
  then show False by (simp add: bit_and_iff bit_or_iff bit_not_iff MY_S_IFMT_def MY_S_IFDIR_def)
qed

end
