(* ===== verification/Rootfs_Props.thy ===== *)
theory Rootfs_Props
  imports Rootfs_Dirs Kernel_Mount
begin

text \<open>
  The kernel with its root file system: what holds after \<open>init_vnode_layer\<close>, and that walking a path in any state that
  calls can lead to comes back and keeps the books.
\<close>

section \<open>Start\<close>

text \<open>The kernel of \<open>init_vnode_layer\<close> just before the root file system is mounted.\<close>

definition booting :: "nat \<Rightarrow> int \<Rightarrow> int \<Rightarrow> int list \<Rightarrow> SkipList \<times> vnitem slheap \<Rightarrow> fdarray \<Rightarrow> 'w \<Rightarrow> 'w kernel" where
  "booting memsize dev0 ino0 rs sl fds w = \<lparr>k_vn = (\<lambda>_. \<lparr>vn_vnid = invalid_vnid, vn_ns = None, vn_mounted = None, vn_remove = False,
              vn_busy = False, vn_inlist = FREE_LIST, vn_rcnt = 0, vn_data = 0\<rparr>),
       k_list = (\<lambda>l. if l = FREE_LIST then [0..<memsize div 2 ^ 15] else []),
       k_index = sl, k_rand = rs, k_slnext = 1, k_mem = True, k_usdvnnum = int (memsize div 2 ^ 15 div 4),
       k_ns = [1 \<mapsto> \<lparr>ns_dev = dev0, ns_ino = ino0, ns_fs = 0, ns_vnodes = [], ns_data = 0, ns_root = None,
                    ns_mount = None, ns_shutdown = False\<rparr>],
       k_nstab = (replicate (memsize div 2 ^ 17) None)[1 mod (memsize div 2 ^ 17) := Some 1], k_nshead = [1], k_nxnsid = Suc 1,
       k_fs = [0 \<mapsto> \<lparr>fs_fsid = 1, fs_fixed = True, fs_aid = - 1, fs_name = ''rootfs'', fs_rcnt = 2, fs_ops = ''rootfs''\<rparr>],
       k_fstab = (replicate (memsize div 2 ^ 18) None)[1 mod (memsize div 2 ^ 18) := Some 0], k_nxfsid = Suc 1, k_nxaddr = 1,
       k_rootvn = None, k_of = Map.empty, k_fds = fds, k_iofds = None, k_cwd = None, k_world = w\<rparr>"

lemma find_replicate: "i < m \<Longrightarrow> \<not> P None \<Longrightarrow> P x \<Longrightarrow> find P ((replicate m None)[i := x]) = Some x"
  by (induction m arbitrary: i) (auto split: nat.split)

lemma next_slot_empty: "0 < m \<Longrightarrow> next_slot (replicate m (None :: 'a option)) m n = (Some n, Suc n)"
  using nth_replicate [of "n mod m" m "None :: 'a option"] by (cases m) (simp_all del: replicate.simps nth_replicate)

lemma booting_inv:
  assumes "2 ^ 18 \<le> memsize" "NewSL True True (Some 0) NO_DUPLICATES Map.empty = Some sl"
  shows "vn_inv (memsize div 2 ^ 15) (booting memsize dev0 ino0 rs sl fds w)"
proof (rule vn_invI)
  let ?k = "booting memsize dev0 ino0 rs sl fds w" and ?nv = "memsize div 2 ^ 15"
  have h: "sl_holds compare_vnode sl []" "sl_nodes sl = {sl_header (fst sl)}" using NewSL_holds [OF assms(2)] by blast+
  moreover have "sl_header (fst sl) = 0" using assms(2) by (auto simp: NewSL_def)
  moreover have "index_is {} ?k"
    unfolding index_is_def by (rule exI [of _ "[]"]) (simp add: booting_def h sl_map_def)
  moreover have "lists_ok ?nv ?k" by (auto simp: lists_ok_def booting_def)
  moreover have "spaces_ok {} ?k" by (simp add: spaces_ok_def booting_def)
  ultimately show "vcore ?nv {} ?k" by (simp add: vcore_def booting_def)
  show "{} = in_core ?nv ?k" by (simp add: in_core_def booting_def)
qed (simp_all add: booting_def vn_state_def)

lemma init_booting:
  assumes m: "2 ^ 18 \<le> memsize"
  obtains sl fds where "NewSL True True (Some 0) NO_DUPLICATES Map.empty = Some sl"
    "new_fds True True (memsize div 2 ^ 15) = Some fds"
    "init_vnode_layer rootfs_sys True memsize dev0 ino0 rs w = do {
       (_, (data, vnid), k4) \<leftarrow> rootfs_mount rootfs_env 1 None 0 0 0 (booting memsize dev0 ino0 rs sl fds w);
       root \<leftarrow> lookup_vnode 1 vnid k4;
       k5 \<leftarrow> upd_ns 1 (\<lambda>sp. sp\<lparr>ns_data := data, ns_root := root\<rparr>) k4;
       Some (0, k5\<lparr>k_rootvn := root\<rparr>) }"
proof -
  obtain sl :: "SkipList \<times> vnitem slheap" where sl: "NewSL True True (Some 0) NO_DUPLICATES Map.empty = Some sl" by (auto simp: NewSL_def)
  obtain fds where fds: "new_fds True True (memsize div 2 ^ 15) = Some fds" by (auto simp: new_fds_def)
  define nv nt nf where "nv = memsize div 2 ^ 15" and "nt = memsize div 2 ^ 17" and "nf = memsize div 2 ^ 18"
  then have d: "memsize div 32768 = nv" "memsize div 131072 = nt" "memsize div 262144 = nf" by simp_all
  have n: "0 < nf" using m by (simp add: nf_def div_greater_zero_iff)
  have s: "next_slot (replicate nf None) nf (Suc 0) = (Some (Suc 0), Suc (Suc 0))"
    using next_slot_empty [OF n, of 1] by simp
  have f: "find (fs_named k name) ((replicate nf None)[i := Some 0]) = Some (Some 0)"
    if "fs_named k name (Some 0)" "i < nf" for k :: "rfs kernel" and name i
    by (rule find_replicate) (use that in \<open>simp_all add: fs_named_def\<close>)
  have i: "of_bool (nf \<noteq> Suc 0) < nf" using n by (cases "nf = Suc 0") auto
  have fds': "new_fds True True nv = Some fds" using fds by (simp add: nv_def)
  have "init_vnode_layer rootfs_sys True memsize dev0 ino0 rs w = do {
       (_, (data, vnid), k4) \<leftarrow> rootfs_mount rootfs_env 1 None 0 0 0 (booting memsize dev0 ino0 rs sl fds w);
       root \<leftarrow> lookup_vnode 1 vnid k4;
       k5 \<leftarrow> upd_ns 1 (\<lambda>sp. sp\<lparr>ns_data := data, ns_root := root\<rparr>) k4;
       Some (0, k5\<lparr>k_rootvn := root\<rparr>) }"
    using n by (simp add: init_vnode_layer_def init_tables_def sl fds' install_file_system_def inc_file_system_def d s f i
        fs_named_def booting_def rootfs_sys_def rootfs_ops_def cong: if_cong)
  with sl fds show thesis by (rule that)
qed

text \<open>The file system with nothing but the root that \<open>rootfs_mount\<close> makes.\<close>

definition mounted_world :: "rfs \<Rightarrow> SkipList \<times> ritem slheap \<Rightarrow> rfs" where
  "mounted_world w sl = w\<lparr>rf_next := Suc (Suc (rf_next w)),
     rf_ns := [rf_next w \<mapsto> \<lparr>rs_nsid = 1, rs_vnnum = 0, rs_root = Suc (rf_next w), rs_nxvnid = 1, rs_index = sl, rs_slnext = 1\<rparr>],
     rf_node := [Suc (rf_next w) \<mapsto> \<lparr>rn_name = None, rn_removed = False, rn_ns = rf_next w, rn_vnid = 1,
       rn_parent = Suc (rf_next w), rn_mtime = rf_time w, rn_uid = 0, rn_gid = 0, rn_mode = MY_S_IFDIR OR 0x1ff,
       rn_kids = [], rn_symlink = None\<rparr>]\<rparr>"

lemma mounted_world_ok:
  assumes "NewSL True True (Some 0) NO_DUPLICATES Map.empty = Some sl"
  shows "rfs_ok (mounted_world w sl)"
proof -
  have h: "sl_holds rootfs_compare_vnode sl []" "sl_nodes sl = {sl_header (fst sl)}" using NewSL_holds [OF assms] by blast+
  have z: "sl_header (fst sl) = 0" using assms by (auto simp: NewSL_def)
  let ?w = "mounted_world w sl"
  have "space_ok ?w d rs" if "rf_ns ?w d = Some rs" for d rs
  proof -
    have d: "d = rf_next w" "rs = \<lparr>rs_nsid = 1, rs_vnnum = 0, rs_root = Suc d, rs_nxvnid = 1, rs_index = sl, rs_slnext = 1\<rparr>"
      using that by (simp_all add: mounted_world_def split: if_splits)
    then have "\<not> indexed ?w d rs i it" for i it by (simp add: indexed_def mounted_world_def)
    with d h z show ?thesis by (simp add: space_ok_def mounted_world_def sl_map_def exI [of _ "[]"])
  qed
  moreover have "node_ok ?w a x \<and> kids_ok ?w a x" if "rf_node ?w a = Some x" for a x
    using that by (auto simp: mounted_world_def node_ok_def kids_ok_def MY_S_ISLNK_def MY_S_IFDIR_def split: if_splits)
  ultimately show ?thesis by (simp add: rfs_ok_def)
qed

text \<open>The invariants of the running kernel: those of the vnode layer and of the root file system, and the roots and mount
  points of the name spaces are held.\<close>

definition running :: "nat \<Rightarrow> rfs kernel \<Rightarrow> bool" where
  "running nv k \<longleftrightarrow> vn_inv nv k \<and> rootfs_ok nv k \<and> mounts_ok nv (\<lambda>v. vn_rcnt (k_vn k v)) k"

lemma vn_inv_root:
  assumes inv: "vn_inv nv k" and k': "k_ns k n = Some sp" "ns_vnodes sp' = ns_vnodes sp" "ns_fs sp' = ns_fs sp"
    "k' = k\<lparr>k_ns := (k_ns k)(n \<mapsto> sp'), k_rootvn := r\<rparr>"
  shows "vn_inv nv k'"
proof -
  have c: "lists_ok nv k" "index_is (in_core nv k) k" "spaces_ok (in_core nv k) k" "k_mem k" "in_core nv k \<subseteq> {..<nv}"
    "sl_nodes (k_index k) \<subseteq> {..<k_slnext k}" using vn_invD(1) [OF inv] by (auto simp: vcore_def)
  have i: "in_core nv k' = in_core nv k" by (simp add: in_core_def k'(4))
  have "lists_ok nv k'" using c(1) by (simp add: lists_ok_def k'(4))
  moreover have "index_is (in_core nv k) k'" using c(2) by (simp add: index_is_def item_of_def k'(4))
  moreover have "ns_of k' v \<noteq> None" if "v \<in> in_core nv k" for v
    using c(3) that by (cases "vn_ns (k_vn k v)") (auto simp: spaces_ok_def ns_of_def k'(4))
  then have "spaces_ok (in_core nv k) k'" using c(3) k'(1-3) by (auto simp: spaces_ok_def k'(4))
  ultimately have "vcore nv (in_core nv k) k'" using c(4-6) by (simp add: vcore_def k'(4))
  then show ?thesis using inv by (simp add: vn_inv_def i) (simp add: k'(4))
qed

lemma rootfs_mounts:
  assumes m: "2 ^ 18 \<le> memsize" and sl: "NewSL True True (Some 0) NO_DUPLICATES Map.empty = Some sl"
    and w: "rf_mem w" "rf_ns w = Map.empty" "rf_node w = Map.empty"
  obtains s v k' where "rootfs_mount rootfs_env 1 None 0 0 0 (booting memsize dev0 ino0 rs sl fds w) = Some (0, (int (rf_next w), 1), k')"
    "NewSL True True (Some 0) NO_DUPLICATES Map.empty = Some s" "k_world k' = mounted_world w s"
    "load_of (memsize div 2 ^ 15) v 1 1 (booting memsize dev0 ino0 rs sl fds (mounted_world w s)) k'"
    "vn_data (k_vn k' v) = int (Suc (rf_next w))"
proof -
  let ?nv = "memsize div 2 ^ 15"
  obtain s :: "SkipList \<times> ritem slheap" where s: "NewSL True True (Some 0) NO_DUPLICATES Map.empty = Some s"
    by (auto simp: NewSL_def)
  let ?b = "booting memsize dev0 ino0 rs sl fds (mounted_world w s)"
  have n: "0 < memsize div 2 ^ 17" "0 < ?nv" using m by (simp_all add: div_greater_zero_iff)
  then have "1 mod (memsize div 2 ^ 17) < memsize div 2 ^ 17" by (intro mod_less_divisor)
  then have ns: "nsidtons 1 ?b \<noteq> None"
    unfolding nsidtons_def booting_def by (simp del: mod_less_divisor One_nat_def mod_by_1)
  have a: "\<not> is_vn 1 1 (k_vn ?b u)" if "u \<in> in_core ?nv ?b" for u using that by (simp add: in_core_def booting_def)
  have f: "k_list ?b FREE_LIST = 0 # [1..<?nv]" using n(2) by (simp add: booting_def upt_conv_Cons)
  obtain v k' where k': "new_vnode rootfs_env 1 1 (int (Suc (rf_next w))) ?b = Some (0, k')" "load_of ?nv v 1 1 ?b k'"
    "vn_data (k_vn k' v) = int (Suc (rf_next w))"
    using new_vnode_shape [OF booting_inv [OF m sl] rootfs_release a _ ns, of "int (Suc (rf_next w))"] f by auto
  have "nsidtons 1 (move_vnode 0 LOCKED_LIST ?b) = nsidtons 1 ?b" by (rule nsidtons_frame [OF move_vnode_fields(9)])
  then obtain k1 where k1: "steal_vnode FREE_LIST ?b = (Some 0, k1)" "k_world k1 = k_world ?b" "nsidtons 1 k1 \<noteq> None"
    using f ns by (simp add: steal_vnode_def)
  then obtain n where "sort_vnode 0 (upd_vn 0 (\<lambda>x. x\<lparr>vn_ns := Some n, vn_vnid := 1, vn_data := int (Suc (rf_next w)), vn_rcnt := 1\<rparr>) k1)
      = Some (0, k')"
    using k'(1) by (auto simp: new_vnode_def)
  from sort_vnode_world [OF this] k1(2) have "k_world k' = mounted_world w s" by (simp add: booting_def upd_vn_def)
  moreover have "rootfs_mount rootfs_env 1 None 0 0 0 (booting memsize dev0 ino0 rs sl fds w) = Some (0, (int (rf_next w), 1), k')"
  proof -
    have "(booting memsize dev0 ino0 rs sl fds w)\<lparr>k_world := mounted_world w s\<rparr> = ?b" by (simp add: booting_def)
    moreover have "k_world (booting memsize dev0 ino0 rs sl fds w) = w" by (simp add: booting_def)
    ultimately show ?thesis using k'(1) w s by (simp add: rootfs_mount_def mounted_world_def)
  qed
  ultimately show thesis using s k' by (intro that)
qed

text \<open>The state after the start: one vnode in use, linked to an empty directory.\<close>

lemma init_running:
  assumes m: "2 ^ 18 \<le> memsize" and w: "rf_mem w" "rf_ns w = Map.empty" "rf_node w = Map.empty"
  shows "\<exists>v k x. init_vnode_layer rootfs_sys True memsize dev0 ino0 rs w = Some (0, k) \<and> running (memsize div 2 ^ 15) k \<and>
    v < memsize div 2 ^ 15 \<and> k_rootvn k = Some v \<and> (\<forall>u. vn_rcnt (k_vn k u) = of_bool (u = v)) \<and>
    rf_node (k_world k) (nat (vn_data (k_vn k v))) = Some x \<and> MY_S_ISDIR (rn_mode x) \<and> \<not> rn_removed x \<and> rn_kids x = [] \<and>
    rf_mem (k_world k)"
proof -
  let ?nv = "memsize div 2 ^ 15"
  obtain sl fds where i: "NewSL True True (Some 0) NO_DUPLICATES Map.empty = Some sl"
    "init_vnode_layer rootfs_sys True memsize dev0 ino0 rs w = do {
       (_, (data, vnid), k4) \<leftarrow> rootfs_mount rootfs_env 1 None 0 0 0 (booting memsize dev0 ino0 rs sl fds w);
       root \<leftarrow> lookup_vnode 1 vnid k4;
       k5 \<leftarrow> upd_ns 1 (\<lambda>sp. sp\<lparr>ns_data := data, ns_root := root\<rparr>) k4;
       Some (0, k5\<lparr>k_rootvn := root\<rparr>) }"
    by (rule init_booting [OF m])
  obtain s v k4 where k4: "rootfs_mount rootfs_env 1 None 0 0 0 (booting memsize dev0 ino0 rs sl fds w) = Some (0, (int (rf_next w), 1), k4)"
    "NewSL True True (Some 0) NO_DUPLICATES Map.empty = Some s" "k_world k4 = mounted_world w s"
    "load_of ?nv v 1 1 (booting memsize dev0 ino0 rs sl fds (mounted_world w s)) k4" "vn_data (k_vn k4 v) = int (Suc (rf_next w))"
    by (rule rootfs_mounts [OF m i(1) w])
  let ?b = "booting memsize dev0 ino0 rs sl fds (mounted_world w s)"
  have inv4: "vn_inv ?nv k4" by (rule load_of_inv [OF booting_inv [OF m i(1)] k4(4)])
  have v: "v < ?nv" "is_vn 1 1 (k_vn k4 v)" "vn_rcnt (k_vn k4 v) = vn_refs ?b 1 1 + 1" "kframe ?b k4"
    "\<not> vn_remove (k_vn k4 v)" "vn_mounted (k_vn k4 v) = None" "\<And>u. u \<noteq> v \<Longrightarrow> k_vn k4 u = k_vn ?b u"
    using k4(4) by (auto simp: load_of_def booting_def)
  have vc: "v \<in> in_core ?nv k4" using v(1,2) by (simp add: in_core_def is_vn_def)
  have look: "lookup_vnode 1 1 k4 = Some (Some v)" by (rule lookup_found [OF vn_invD(1) [OF inv4] vc v(2)])
  have "vn_refs ?b 1 1 = 0"
    by (rule vn_refs_absent [OF vn_invD(1) [OF booting_inv [OF m i(1)]]]) (simp add: in_core_def booting_def)
  with v(3) have r: "vn_rcnt (k_vn k4 v) = 1" by simp
  obtain sp where sp: "k_ns k4 1 = Some sp" "\<And>n. n \<noteq> 1 \<Longrightarrow> k_ns k4 n = None" "ns_mount sp = None"
  proof -
    have b: "k_ns ?b 1 = Some \<lparr>ns_dev = dev0, ns_ino = ino0, ns_fs = 0, ns_vnodes = [], ns_data = 0, ns_root = None,
      ns_mount = None, ns_shutdown = False\<rparr>" "\<And>n. n \<noteq> 1 \<Longrightarrow> k_ns ?b n = None" by (simp_all add: booting_def)
    obtain vs where vs: "k_ns k4 1 = Some (\<lparr>ns_dev = dev0, ns_ino = ino0, ns_fs = 0, ns_vnodes = [], ns_data = 0, ns_root = None,
      ns_mount = None, ns_shutdown = False\<rparr>\<lparr>ns_vnodes := vs\<rparr>)" by (rule kframe_ns [OF v(4) b(1)])
    then show thesis using kframe_none [OF v(4)] b(2) by (intro that [OF vs]) simp_all
  qed
  define sp' where "sp' = sp\<lparr>ns_data := int (rf_next w), ns_root := Some v\<rparr>"
  define k where "k = k4\<lparr>k_ns := (k_ns k4)(1 \<mapsto> sp'), k_rootvn := Some v\<rparr>"
  have f: "k_vn k = k_vn k4" "k_world k = mounted_world w s" "k_ns k = [1 \<mapsto> sp']" "k_rootvn k = Some v"
    using sp(2) k4(3) by (auto simp: k_def fun_eq_iff)
  have "init_vnode_layer rootfs_sys True memsize dev0 ino0 rs w = Some (0, k)"
    using i(2) k4(1) look sp(1) by (simp add: upd_ns_def k_def sp'_def)
  moreover have "vn_inv ?nv k" by (rule vn_inv_root [OF inv4 sp(1) _ _ k_def]) (simp_all add: sp'_def)
  moreover have "rootfs_ok ?nv k"
  proof -
    have "spaces_linked k" by (simp add: spaces_linked_def f sp'_def mounted_world_def)
    moreover have "u = v" if "u \<in> in_core ?nv k" for u
      using that v(7) [of u] by (cases "u = v") (auto simp: in_core_def f booting_def)
    moreover have "vn_linked k v"
      using v(2,5) k4(5) by (simp add: vn_linked_def f sp'_def is_vn_def mounted_world_def)
    ultimately show ?thesis using mounted_world_ok [OF k4(2)] f(2) by (auto simp: rootfs_ok_def)
  qed
  moreover have c: "vn_rcnt (k_vn k u) = of_bool (u = v)" "vn_mounted (k_vn k u) = None" for u
    using v(6) v(7) [of u] r by (cases "u = v"; simp add: f booting_def)+
  then have "mounts_ok ?nv (\<lambda>u. vn_rcnt (k_vn k u)) k"
    using v(1) sp(3) by (auto simp: mounts_ok_def f(3,4) sp'_def)
  moreover have "\<exists>x. rf_node (k_world k) (nat (vn_data (k_vn k v))) = Some x \<and> MY_S_ISDIR (rn_mode x) \<and> \<not> rn_removed x \<and>
      rn_kids x = []"
    using k4(5) by (simp add: f mounted_world_def MY_S_ISDIR_def MY_S_IFDIR_def)
  moreover have "rf_mem (k_world k)" using w(1) by (simp add: f mounted_world_def)
  ultimately have "running ?nv k" unfolding running_def by blast
  with \<open>init_vnode_layer rootfs_sys True memsize dev0 ino0 rs w = Some (0, k)\<close> \<open>rf_mem (k_world k)\<close> v(1) f(4) c(1)
    \<open>\<exists>x. rf_node (k_world k) (nat (vn_data (k_vn k v))) = Some x \<and> MY_S_ISDIR (rn_mode x) \<and> \<not> rn_removed x \<and> rn_kids x = []\<close>
  show ?thesis by blast
qed

text \<open>Claim C16: \<open>init_vnode_layer\<close>, with at least 256 KB, memory for its tables and a root file system that has memory, and
  whatever the fields held that it leaves uninitialised, comes back with a
  kernel in which all invariants hold: those of the vnode layer (one vnode for every 32 KB), of the root file system and of
  the mount points.  Its only vnode in use is the root of the tree, an empty directory with one reference.\<close>

theorem init_vnode_layer_running:
  assumes m: "2 ^ 18 \<le> memsize" and w: "rf_mem w" "rf_ns w = Map.empty" "rf_node w = Map.empty"
  shows "\<exists>v k. init_vnode_layer rootfs_sys True memsize dev0 ino0 rs w = Some (0, k) \<and> running (memsize div 2 ^ 15) k \<and>
    k_rootvn k = Some v \<and> (\<forall>u. vn_rcnt (k_vn k u) = of_bool (u = v)) \<and>
    dir_map (k_world k) (nat (vn_data (k_vn k v))) = Map.empty \<and> rf_mem (k_world k)"
proof -
  obtain v k x where k: "init_vnode_layer rootfs_sys True memsize dev0 ino0 rs w = Some (0, k)" "running (memsize div 2 ^ 15) k"
    "k_rootvn k = Some v" "\<forall>u. vn_rcnt (k_vn k u) = of_bool (u = v)"
    "rf_node (k_world k) (nat (vn_data (k_vn k v))) = Some x" "rn_kids x = []" "rf_mem (k_world k)"
    using init_running [OF assms, of dev0 ino0 rs] by blast
  then have "dir_map (k_world k) (nat (vn_data (k_vn k v))) = Map.empty" by (simp add: dir_map_def fun_eq_iff)
  with k show ?thesis by blast
qed

definition empty_rfs :: rfs where
  "empty_rfs = \<lparr>rf_ns = Map.empty, rf_node = Map.empty, rf_pos = Map.empty, rf_next = 0, rf_mem = True, rf_moves = False,
     rf_rand = [], rf_time = 0\<rparr>"

definition demo_boot :: "rfs kernel" where
  "demo_boot = snd (the (init_vnode_layer rootfs_sys True (2 ^ 18) 0 0 [] empty_rfs))"

theorem init_vnode_layer_running_witness:
  "\<exists>v. running 8 demo_boot \<and> k_rootvn demo_boot = Some v \<and> vn_rcnt (k_vn demo_boot v) = 1"
  using init_vnode_layer_running [of "2 ^ 18" empty_rfs 0 0 "[]"] by (auto simp: empty_rfs_def demo_boot_def)

lemma demo_boot_facts:
  obtains v x where "running 8 demo_boot" "v < 8" "k_rootvn demo_boot = Some v" "\<And>u. vn_rcnt (k_vn demo_boot u) = of_bool (u = v)"
    "rf_node (k_world demo_boot) (nat (vn_data (k_vn demo_boot v))) = Some x" "MY_S_ISDIR (rn_mode x)" "\<not> rn_removed x"
    "rn_kids x = []" "rf_mem (k_world demo_boot)"
  using init_running [of "2 ^ 18" empty_rfs 0 0 "[]"] by (auto simp: empty_rfs_def demo_boot_def)

text \<open>Claim C14: in a running kernel, with room for two more vnodes, looking up any absolute path (through mount points,
  symbolic links, missing names and files that are not directories) comes back, and all invariants are kept.  On success
  exactly one reference has been added, to the vnode returned; on an error no count has changed.\<close>

theorem get_file_fd_balanced:
  assumes "running nv k" "card {u. u < nv \<and> 0 < vn_rcnt (k_vn k u)} + 2 \<le> nv" "path = CHR ''/'' # rest"
  shows "\<exists>err v k'. get_file_fd rootfs_env rootfs_sys ker fd (Some path) eat k = Some (err, v, k') \<and> running nv k' \<and>
    (\<forall>u < nv. vn_rcnt (k_vn k' u) = vn_rcnt (k_vn k u) + of_bool (err = 0 \<and> u = v)) \<and>
    (err = 0 \<longrightarrow> v < nv) \<and> keeps nv (\<lambda>u. vn_rcnt (k_vn k u)) k k'"
proof -
  define B where "B = (\<lambda>u. if u < nv then vn_rcnt (k_vn k u) else 0)"
  have i: "vn_inv nv k" "rootfs_ok nv k" "mounts_ok nv (\<lambda>u. vn_rcnt (k_vn k u)) k" using assms(1) by (simp_all add: running_def)
  have m: "mounts_ok nv B k" using i(3) by (fastforce simp: mounts_ok_def B_def)
  have "0 \<le> B u" for u using vn_invD(2) [OF i(1), of u] by (auto simp: B_def vn_state_def split: vlist.splits)
  moreover have "{u. u < nv \<and> 0 < B u} = {u. u < nv \<and> 0 < vn_rcnt (k_vn k u)}" by (auto simp: B_def)
  moreover have "counts nv B k" by (simp add: counts_def B_def)
  ultimately obtain err v k' where g: "get_file_fd rootfs_env rootfs_sys ker fd (Some path) eat k = Some (err, v, k')"
    "keeps nv B k k'" "if err = 0 then rw.stands nv B v k' else rw.gone nv B k'"
    using rw.get_file_refs [OF i(1,2) _ m, of path ker fd eat] assms(2,3) by auto
  have n: "counts nv (if err = 0 then plus1 B v else B) k'" "vn_inv nv k'" "rootfs_ok nv k'" "err = 0 \<longrightarrow> v < nv"
    using g(3) by (auto simp: rw.stands_def rw.gone_def split: if_splits)
  then have c: "\<forall>u < nv. vn_rcnt (k_vn k' u) = vn_rcnt (k_vn k u) + of_bool (err = 0 \<and> u = v)"
    by (auto simp: counts_def plus1_def B_def split: if_splits)
  have "mounts_ok nv (\<lambda>u. vn_rcnt (k_vn k' u)) k'"
    using mounts_ok_keeps [OF m g(2)] c unfolding mounts_ok_def B_def by (smt (verit) of_bool_eq)
  then have "running nv k'" using n by (simp add: running_def)
  moreover have "keeps nv (\<lambda>u. vn_rcnt (k_vn k u)) k k'" using g(2) by (simp add: keeps_def B_def)
  ultimately show ?thesis using g(1) c n(4) by blast
qed

theorem get_file_fd_balanced_witness:
  "\<exists>err v k'. get_file_fd rootfs_env rootfs_sys True (- 1) (Some ''/../usr//bin'') True demo_boot = Some (err, v, k') \<and>
     running 8 k' \<and> (\<forall>u < 8. vn_rcnt (k_vn k' u) = vn_rcnt (k_vn demo_boot u) + of_bool (err = 0 \<and> u = v))"
proof -
  obtain v where r: "running 8 demo_boot" "v < 8" "\<forall>u. vn_rcnt (k_vn demo_boot u) = of_bool (u = v)"
    using demo_boot_facts by metis
  then have "{u. u < 8 \<and> 0 < vn_rcnt (k_vn demo_boot u)} = {v}" by auto
  then have "card {u. u < 8 \<and> 0 < vn_rcnt (k_vn demo_boot u)} + 2 \<le> 8" by simp
  from get_file_fd_balanced [OF r(1) this refl, of True "- 1" "''../usr//bin''" True] show ?thesis by blast
qed

section \<open>Making directories\<close>

text \<open>Claim C15: \<open>rootfs_mkdir\<close> on a directory that has not been removed adds exactly one entry to it, for an empty
  directory at a new address, and to no other directory; a name that is taken, and the names of the directory
  itself and its parent, are refused with \<open>EEXIST\<close> and nothing changes.  The children stay sorted, the index complete and
  the vnodes linked to their nodes.\<close>

theorem rootfs_mkdir_refines:
  assumes "rootfs_ok nv k" "rf_node (k_world k) dir = Some x" "MY_S_ISDIR (rn_mode x)" "\<not> rn_removed x" "rf_mem (k_world k)"
  shows "\<exists>err k'. rootfs_mkdir (int (rn_ns x)) (int dir) name perms k = Some (err, k') \<and> rootfs_ok nv k' \<and>
    (if name = ''.'' \<or> name = ''..'' \<or> dir_map (k_world k) dir name \<noteq> None then err = EEXIST \<and> k' = k
     else err = 0 \<and> (\<exists>v. rf_node (k_world k) v = None \<and> dir_map (k_world k') =
       (dir_map (k_world k))(dir := (dir_map (k_world k) dir)(name \<mapsto> v), v := Map.empty)))"
proof -
  let ?w = "k_world k" and ?mode = "(perms AND NOT MY_S_IFMT) OR MY_S_IFDIR"
  have rok: "rfs_ok ?w" using assms(1) by (simp add: rootfs_ok_def)
  obtain rs where rs: "rf_ns ?w (rn_ns x) = Some rs" using rfs_okD(1) [OF rok assms(2)] by (auto simp: node_ok_def)
  note kids = rfs_okD(2) [OF rok assms(2)]
  show ?thesis
  proof (cases "name = ''.'' \<or> name = ''..'' \<or> dir_map ?w dir name \<noteq> None")
    case True
    have "create_lookup ?w name (rn_kids x) = Some (dir_map ?w dir name)"
      using create_lookup_find [OF kids_named [OF kids]] kids assms(2) by (simp add: kids_ok_def dir_map_def)
    with True have "do_create (rn_ns x) dir name ?mode ?w = Some ((EEXIST, 0), ?w)"
      using assms(2-4) rs by (auto simp: do_create_def)
    then have "rootfs_mkdir (int (rn_ns x)) (int dir) name perms k = Some (EEXIST, k)"
      by (simp add: rootfs_mkdir_def on_world_def)
    with True assms(1) show ?thesis by auto
  next
    case False
    then have f: "name \<noteq> ''.''" "name \<noteq> ''..''" "dir_map ?w dir name = None" by auto
    obtain w' us vs s ks where c: "do_create (rn_ns x) dir name ?mode ?w = Some ((0, rf_next ?w), w')"
      "created (rn_ns x) dir name ?mode x rs (us @ rf_next ?w # vs) s ?w w'" "rn_kids x = us @ vs"
      "\<forall>c \<in> set us. kid_name ?w c < name" "\<forall>c \<in> set vs. name < kid_name ?w c"
      "sl_nodes s = insert (rs_slnext rs) (sl_nodes (rs_index rs))" "sl_holds rootfs_compare_vnode s ks"
      "\<And>i it. sl_map ri_vnid ks i = Some it \<longleftrightarrow> it = \<lparr>ri_vnid = rs_nxvnid rs + 1, ri_node = rf_next ?w\<rparr> \<and> i = rs_nxvnid rs + 1 \<or>
         indexed ?w (rn_ns x) rs i it"
      using do_create_returns [OF rok assms(2-4) rs f assms(5), of ?mode] by blast
    have ok': "rfs_ok w'" by (rule created_ok [OF rok assms(2) rs c(2) not_link c(3-8)])
    have "rootfs_mkdir (int (rn_ns x)) (int dir) name perms k = Some (0, k\<lparr>k_world := w'\<rparr>)"
      using c(1) by (simp add: rootfs_mkdir_def on_world_def)
    moreover have "rootfs_ok nv (k\<lparr>k_world := w'\<rparr>)" by (rule created_linked [OF assms(1-4) rs c(2,3) ok'])
    moreover have "rf_node ?w (rf_next ?w) = None" by (rule created_nodes(1) [OF rok assms(2) c(2)])
    ultimately show ?thesis using created_dir_map [OF rok assms(2) c(2-5)] False by auto
  qed
qed

theorem rootfs_mkdir_refines_witness:
  "\<exists>d a k'. rootfs_mkdir (int d) (int a) ''tmp'' 0x1ff demo_boot = Some (0, k') \<and> rootfs_ok 8 k' \<and>
     dom (dir_map (k_world k') a) = {''tmp''}"
proof -
  obtain v x where b: "running 8 demo_boot" "rf_node (k_world demo_boot) (nat (vn_data (k_vn demo_boot v))) = Some x"
    "MY_S_ISDIR (rn_mode x)" "\<not> rn_removed x" "rn_kids x = []" "rf_mem (k_world demo_boot)" by (rule demo_boot_facts)
  let ?a = "nat (vn_data (k_vn demo_boot v))"
  have e: "dir_map (k_world demo_boot) ?a = Map.empty" using b(2,5) by (simp add: dir_map_def fun_eq_iff)
  have "rootfs_ok 8 demo_boot" using b(1) by (simp add: running_def)
  from rootfs_mkdir_refines [OF this b(2-4,6), of "''tmp''" "0x1ff"]
  obtain k' w where k': "rootfs_mkdir (int (rn_ns x)) (int ?a) ''tmp'' 0x1ff demo_boot = Some (0, k')" "rootfs_ok 8 k'"
    "rf_node (k_world demo_boot) w = None" "dir_map (k_world k') =
       (dir_map (k_world demo_boot))(?a := (dir_map (k_world demo_boot) ?a)(''tmp'' \<mapsto> w), w := Map.empty)"
    by (auto simp: e)
  have "w \<noteq> ?a" using k'(3) b(2) by auto
  then have "dom (dir_map (k_world k') ?a) = {''tmp''}" by (simp add: k'(4) e)
  with k'(1,2) show ?thesis by blast
qed

end
