(* ===== verification/Myfs_Dir.thy ===== *)
theory Myfs_Dir
  imports Data_Stream Rootfs
begin

text \<open>
  Directories of the file system, \<open>dir.c\<close>: entries packed into the bytes of a file, and the functions that look
  up, add and remove an entry.  The bytes of a directory are kept in memory behind its inode (\<open>contents\<close>) once they have been
  read.

  A pointer to an entry is its offset in the contents; \<open>malloc\<close> and \<open>realloc\<close> return addresses that are multiples of
  eight, and so \<open>NEXT_MDE\<close> rounds offsets.  Bytes of the stack that are written without having been set are an input (\<open>junk\<close>).
  An access outside the contents does not come back.  The overlapping \<open>memcpy\<close> of \<open>dir_delete\<close> copies forwards.
\<close>

section \<open>Entries\<close>

text \<open>The characters of a C string, without the zero at its end.\<close>

definition c_bytes :: "string \<Rightarrow> byte list" where
  "c_bytes s = map (\<lambda>c. word_of_nat (of_char c)) s"

text \<open>\<open>inum\<close> takes the bytes 0 to 7 of an entry, \<open>name_len\<close> byte 8, and the name starts at byte 9.\<close>

definition NEXT_MDE :: "nat \<Rightarrow> nat \<Rightarrow> nat" where
  "NEXT_MDE p name_len = (p + 9 + (name_len + 1) + 7) div 8 * 8"

definition MDE_SIZE :: "nat \<Rightarrow> nat" where
  "MDE_SIZE name_len = NEXT_MDE 0 name_len"

definition sizeof_myfs_dirent :: nat where
  "sizeof_myfs_dirent = 16"

definition MKDIR_BUFSIZE :: nat where
  "MKDIR_BUFSIZE = (2 * sizeof_myfs_dirent + 1 + 2 + 15) div 16 * 16"

definition mde_inum :: "byte list \<Rightarrow> nat \<Rightarrow> int option" where
  "mde_inum buf p = (if p + 8 \<le> length buf then Some (le_sint (at buf p 8)) else None)"

definition mde_name_len :: "byte list \<Rightarrow> nat \<Rightarrow> nat option" where
  "mde_name_len buf p = (if p + 8 < length buf then Some (unat (buf ! (p + 8))) else None)"

text \<open>The first \<open>n\<close> bytes of a buffer that begins with \<open>xs\<close>.\<close>

definition fill :: "nat \<Rightarrow> byte list \<Rightarrow> byte list" where
  "fill n xs = take n (xs @ replicate n 0)"

definition mde_bytes :: "byte list \<Rightarrow> int \<Rightarrow> byte list \<Rightarrow> byte list" where
  "mde_bytes junk inum name =
     fill (MDE_SIZE (length name mod 256)) (le_bytes 8 inum @ [word_of_nat (length name)] @ name @ [0] @ junk)"

text \<open>\<open>strcmp(mde->name, name) == 0\<close>, on the bytes from the name on.\<close>

fun same_name :: "byte list \<Rightarrow> byte list \<Rightarrow> bool option" where
  "same_name [] name = None"
| "same_name (b # bs) [] = Some (b = 0)"
| "same_name (b # bs) (c # cs) = (if b = c then same_name bs cs else Some False)"

text \<open>The loop over the entries, to the first one with the name.\<close>

lemma NEXT_MDE_gt: "p < NEXT_MDE p n"
  unfolding NEXT_MDE_def by presburger

function find_mde :: "byte list \<Rightarrow> byte list \<Rightarrow> nat \<Rightarrow> nat \<Rightarrow> nat option option" where
  "find_mde buf name end p =
     (if p \<ge> end then Some None
      else do {
        eq \<leftarrow> same_name (drop (p + 9) buf) name;
        if eq then Some (Some p)
        else do {
          n \<leftarrow> mde_name_len buf p;
          find_mde buf name end (NEXT_MDE p n)
        }
      })"
  by pat_completeness auto

termination
  by (relation "measure (\<lambda>(buf, name, end, p). end - p)") (auto simp: NEXT_MDE_gt intro: diff_less_mono2)

declare find_mde.simps [simp del]

section \<open>Contents\<close>

definition set_contents :: "byte list option \<Rightarrow> myfs_inode \<Rightarrow> myfs_inode" where
  "set_contents c mi = mi\<lparr>etc := map_option (\<lambda>e. e\<lparr>contents := c\<rparr>) (etc mi)\<rparr>"

definition get_dir_contents :: "myfs_inode \<Rightarrow> myfs_info \<Rightarrow> (errno \<times> myfs_inode \<times> myfs_info) option" where
  "get_dir_contents mi m =
     (if ds_size (i_data mi) < 0 \<or> \<not> heap_ok (tmp m) then Some (ENOMEM, set_contents None mi, m)
      else do {
        (ret, xs, m1) \<leftarrow> myfs_read_data_stream mi 0 (ds_size (i_data mi)) m;
        if int (length xs) \<noteq> ds_size (i_data mi) then Some (ret, set_contents None mi, m1)
        else Some (0, set_contents (Some xs) mi, m1)
      })"

text \<open>The beginning of \<open>dir_lookup\<close>, \<open>dir_insert\<close> and \<open>dir_delete\<close>: the contents are read when they are not there.\<close>

definition need_contents :: "myfs_inode \<Rightarrow> myfs_info \<Rightarrow> (errno \<times> myfs_inode \<times> myfs_info) option" where
  "need_contents dir m = do {
     e \<leftarrow> etc dir;
     case contents e of
       None \<Rightarrow> get_dir_contents dir m
     | Some _ \<Rightarrow> Some (0, dir, m)
   }"

definition dir_lookup :: "string \<Rightarrow> myfs_inode \<Rightarrow> myfs_info \<Rightarrow> (errno \<times> vnode_id \<times> myfs_inode \<times> myfs_info) option" where
  "dir_lookup name dir m = do {
     (ret, dir1, m1) \<leftarrow> need_contents dir m;
     if ret \<noteq> 0 then Some (ret, 0, dir1, m1)
     else do {
       e \<leftarrow> etc dir1;
       buf \<leftarrow> contents e;
       f \<leftarrow> find_mde buf (c_bytes name) (nat (ds_size (i_data dir1))) 0;
       case f of
         None \<Rightarrow> Some (ENOENT, 0, dir1, m1)
       | Some p \<Rightarrow> do { i \<leftarrow> mde_inum buf p; Some (0, i, dir1, m1) }
     }
   }"

text \<open>
  The entry is put together in a buffer of the stack that holds 280 bytes.  The code rounds the address of the buffer up to 8; an
  array of 16 bytes and more is aligned at 16 by the x86-64 ABI, so that all 280 bytes are there.
\<close>

definition dir_insert ::
  "int \<Rightarrow> byte list \<Rightarrow> string \<Rightarrow> fs_off_t \<Rightarrow> myfs_inode \<Rightarrow> myfs_info \<Rightarrow> (errno \<times> myfs_inode \<times> myfs_info) option" where
  "dir_insert now junk name inum dir m = do {
     (ret, dir1, m1) \<leftarrow> need_contents dir m;
     if ret \<noteq> 0 then Some (ret, dir1, m1)
     else if 9 + length name + 1 > FILE_NAME_LENGTH + sizeof_myfs_dirent + 8 then None
     else do {
       e \<leftarrow> etc dir1;
       let buf = (case contents e of Some xs \<Rightarrow> xs | None \<Rightarrow> junk);
       let ent = mde_bytes junk inum (c_bytes name);
       if \<not> heap_ok (tmp m1) \<or> ds_size (i_data dir1) < 0 then Some (ENOMEM, dir1, m1)
       else do {
         let ptr = fill (nat (ds_size (i_data dir1))) buf @ ent;
         let dir2 = dir1\<lparr>etc := Some (e\<lparr>contents := Some ptr, counter := counter e + 1\<rparr>)\<rparr>;
         (ret, sz, dir3, m2) \<leftarrow> myfs_write_data_stream now dir2 0 ptr m1;
         Some (ret, dir3, m2)
       }
     }
   }"

text \<open>A \<open>realloc\<close> to no bytes frees the contents and returns \<open>NULL\<close>; the pointer to them is then used again.\<close>

definition dir_delete ::
  "int \<Rightarrow> string \<Rightarrow> myfs_inode \<Rightarrow> myfs_info \<Rightarrow> (errno \<times> myfs_inode \<times> myfs_info) option" where
  "dir_delete now name dir m =
     (if name = ''.'' \<or> name = ''..'' then Some (EINVAL, dir, m)
      else do {
        (ret, dir1, m1) \<leftarrow> need_contents dir m;
        if ret \<noteq> 0 then Some (ret, dir1, m1)
        else do {
          e \<leftarrow> etc dir1;
          buf \<leftarrow> contents e;
          let end = nat (ds_size (i_data dir1));
          f \<leftarrow> find_mde buf (c_bytes name) end 0;
          case f of
            None \<Rightarrow> Some (ENOENT, dir1, m1)
          | Some p \<Rightarrow> do {
              n \<leftarrow> mde_name_len buf p;
              let next = NEXT_MDE p n;
              let sz = next - p;
              buf1 \<leftarrow> (if next < end then
                         (if length buf < end then None
                          else Some (overwrite buf p (at buf next (end - next))))
                       else Some buf);
              let nsize = ds_size (i_data dir1) - int sz;
              let dir2 = dir1\<lparr>etc := Some (e\<lparr>contents := Some buf1\<rparr>)\<rparr>;
              if \<not> heap_ok (tmp m1) \<or> nsize < 0 then Some (ENOMEM, dir2, m1)
              else if nsize = 0 then None
              else do {
                let ptr = fill (nat nsize) buf1;
                let dir3 = dir1\<lparr>etc := Some (e\<lparr>contents := Some ptr, counter := counter e + 1\<rparr>)\<rparr>;
                (ret, done, dir4, m2) \<leftarrow> myfs_write_data_stream now dir3 0 ptr m1;
                if ret \<noteq> 0 \<or> int done \<noteq> ds_size (i_data dir4) - int sz then Some (ret, dir4, m2)
                else do {
                  (_, dir5, m3) \<leftarrow> myfs_set_file_size now (int done) dir4 m2;
                  Some (0, dir5, m3)
                }
              }
            }
        }
      })"

section \<open>New directories\<close>

definition make_dir ::
  "outside \<Rightarrow> byte list \<Rightarrow> myfs_inode option \<Rightarrow> int \<Rightarrow> myfs_info \<Rightarrow> (errno \<times> myfs_inode option \<times> myfs_info) option" where
  "make_dir env junk parent mode m = do {
     (got, m1) \<leftarrow> myfs_allocate_inode env mode m;
     case got of
       None \<Rightarrow> Some (ENOSPC, None, m1)
     | Some mi0 \<Rightarrow> do {
         let mi = mi0\<lparr>i_mode := i_mode mi0 OR MY_S_IFDIR\<rparr>;
         let up = (case parent of Some p \<Rightarrow> inode_num p | None \<Rightarrow> inode_num mi);
         let start = mde_bytes junk (inode_num mi) (c_bytes ''.'') @ mde_bytes junk up (c_bytes ''..'');
         (ret, len, mi1, m2) \<leftarrow> myfs_write_data_stream (o_time env) mi 0 start m1;
         if ret \<noteq> 0 \<or> len \<noteq> length start then do {
           (_, m3) \<leftarrow> myfs_free_inode (inode_num mi1) m2;
           Some (if ret = 0 then ENOSPC else ret, None, m3)
         }
         else do {
           m3 \<leftarrow> update_inode mi1 m2;
           Some (0, Some mi1, m3)
         }
       }
   }"

text \<open>Its errors are positive and the test is \<open>ret < 0\<close>: after an error the inode pointer is used unset.\<close>

definition myfs_create_root_dir :: "outside \<Rightarrow> byte list \<Rightarrow> myfs_info \<Rightarrow> (errno \<times> myfs_info) option" where
  "myfs_create_root_dir env junk m = do {
     (ret, new, m1) \<leftarrow> make_dir env junk None 0x1ff m;
     if ret < 0 then Some (ret, m1)
     else do {
       mi \<leftarrow> new;
       Some (0, m1\<lparr>dsb := (dsb m1)\<lparr>root_inum := inode_num mi\<rparr>, root_dir := Some mi\<rparr>)
     }
   }"

end
