(* ===== verification/Myfs_Entries.thy ===== *)
theory Myfs_Entries
  imports Myfs_Dir Stream_Shrink
begin

text \<open>
  The bytes of a directory as a list of entries: reading the packed entries gives back the list, a search finds the
  first entry with the name, and adding or removing bytes adds or removes the entry.
\<close>

section \<open>One entry\<close>

text \<open>An entry: its name, its inode number, and what lay behind its name in memory.\<close>

type_synonym dent = "byte list \<times> int \<times> byte list"

definition dent_ok :: "dent \<Rightarrow> bool" where
  "dent_ok e \<longleftrightarrow> length (fst e) < 256 \<and> 0 \<notin> set (fst e) \<and> fits_s 8 (fst (snd e))"

definition dent_bytes :: "dent \<Rightarrow> byte list" where
  "dent_bytes e = mde_bytes (snd (snd e)) (fst (snd e)) (fst e)"

definition dents_bytes :: "dent list \<Rightarrow> byte list" where
  "dents_bytes es = concat (map dent_bytes es)"

lemma dents_bytes_simps [simp]:
  "dents_bytes [] = []" "dents_bytes (e # es) = dent_bytes e @ dents_bytes es"
  "dents_bytes (es @ fs) = dents_bytes es @ dents_bytes fs"
  by (simp_all add: dents_bytes_def)

lemma NEXT_MDE_aligned: "8 dvd p \<Longrightarrow> NEXT_MDE p n = p + MDE_SIZE n"
proof (elim dvdE)
  fix k assume p: "p = 8 * k"
  have "(n + 17 + k * 8) div 8 = k + (n + 17) div 8" by (rule div_mult_self1) simp
  then show ?thesis by (simp add: p NEXT_MDE_def MDE_SIZE_def algebra_simps)
qed

lemma MDE_SIZE_facts: "8 dvd MDE_SIZE n" "n + 10 \<le> MDE_SIZE n" "MDE_SIZE n < n + 18"
  unfolding MDE_SIZE_def NEXT_MDE_def by presburger+

lemma fill_length [simp]: "length (fill n xs) = n"
  by (simp add: fill_def)

lemma fill_same: "length xs = n \<Longrightarrow> fill n xs = xs"
  by (simp add: fill_def)

lemma dent_bytes_eq:
  assumes "dent_ok (nm, i, junk)"
  shows "\<exists>pad. dent_bytes (nm, i, junk) = le_bytes 8 i @ word_of_nat (length nm) # nm @ 0 # pad"
proof -
  let ?s = "MDE_SIZE (length nm)" and ?h = "le_bytes 8 i @ [word_of_nat (length nm)] @ nm @ [0]"
  have n: "length nm mod 256 = length nm" "length ?h \<le> ?s" using assms MDE_SIZE_facts(2) [of "length nm"] by (simp_all add: dent_ok_def)
  have "dent_bytes (nm, i, junk) = take ?s (?h @ junk @ replicate ?s 0)" by (simp add: dent_bytes_def mde_bytes_def fill_def n(1))
  also have "\<dots> = ?h @ take (?s - length ?h) (junk @ replicate ?s 0)" using take_append [of ?s ?h] take_all [OF n(2)] by metis
  finally show ?thesis by simp
qed

lemma dent_length: "dent_ok e \<Longrightarrow> length (dent_bytes e) = MDE_SIZE (length (fst e))"
  by (simp add: dent_bytes_def mde_bytes_def dent_ok_def)

lemma dents_aligned: "list_all dent_ok es \<Longrightarrow> 8 dvd length (dents_bytes es)"
  by (induction es) (simp_all add: dent_length MDE_SIZE_facts(1))

lemma same_name_eq: "0 \<notin> set nm \<Longrightarrow> 0 \<notin> set name \<Longrightarrow> same_name (nm @ 0 # rest) name = Some (nm = name)"
proof (induction nm arbitrary: name)
  case Nil
  then show ?case by (cases name) auto
next
  case (Cons b nm)
  then show ?case by (cases name) auto
qed

text \<open>The fields of the entry that starts behind \<open>pre\<close>.\<close>

lemma mde_fields:
  assumes "dent_ok e" "length pre = p"
  shows "mde_inum (pre @ dent_bytes e @ rest) p = Some (fst (snd e))"
    "mde_name_len (pre @ dent_bytes e @ rest) p = Some (length (fst e))"
    "0 \<notin> set name \<Longrightarrow> same_name (drop (p + 9) (pre @ dent_bytes e @ rest)) name = Some (fst e = name)"
proof -
  obtain nm i junk where e: "e = (nm, i, junk)" by (cases e)
  obtain pad where b: "dent_bytes e = le_bytes 8 i @ word_of_nat (length nm) # nm @ 0 # pad"
    using dent_bytes_eq assms(1) unfolding e by blast
  have n: "length nm < 256" "0 \<notin> set nm" "fits_s 8 i" using assms(1) by (simp_all add: e dent_ok_def)
  show "mde_inum (pre @ dent_bytes e @ rest) p = Some (fst (snd e))"
    using assms(2) n(3) unfolding b by (simp add: mde_inum_def e at_def le_sint_fits)
  show "mde_name_len (pre @ dent_bytes e @ rest) p = Some (length (fst e))"
    using assms(2) n(1) unfolding b by (simp add: mde_name_len_def e nth_append unat_of_nat)
  show "same_name (drop (p + 9) (pre @ dent_bytes e @ rest)) name = Some (fst e = name)" if "0 \<notin> set name"
    using assms(2) same_name_eq [OF n(2) that, of "pad @ rest"] unfolding b by (simp add: e)
qed

section \<open>Searching\<close>

fun dent_pos :: "byte list \<Rightarrow> dent list \<Rightarrow> nat option" where
  "dent_pos name [] = None"
| "dent_pos name (e # es) = (if fst e = name then Some 0 else map_option ((+) (length (dent_bytes e))) (dent_pos name es))"

lemma find_mde_from:
  assumes "list_all dent_ok es" "0 \<notin> set name" "8 dvd length pre"
  shows "find_mde (pre @ dents_bytes es @ rest) name (length pre + length (dents_bytes es)) (length pre) =
    Some (map_option ((+) (length pre)) (dent_pos name es))"
  using assms(1,3)
proof (induction es arbitrary: pre)
  case Nil
  show ?case by (subst find_mde.simps) simp
next
  case (Cons e es)
  have e: "dent_ok e" "list_all dent_ok es" using Cons.prems by simp_all
  have l: "length (dent_bytes e) = MDE_SIZE (length (fst e))" by (rule dent_length [OF e(1)])
  then have pos: "0 < length (dent_bytes e)" using MDE_SIZE_facts(2) [of "length (fst e)"] by simp
  note F = mde_fields [OF e(1) refl, where pre = pre and rest = "dents_bytes es @ rest"]
  show ?case
  proof (cases "fst e = name")
    case True
    then show ?thesis using F(3) [OF assms(2)] pos by (subst find_mde.simps) simp
  next
    case False
    have "find_mde ((pre @ dent_bytes e) @ dents_bytes es @ rest) name (length (pre @ dent_bytes e) + length (dents_bytes es))
        (length (pre @ dent_bytes e)) = Some (map_option ((+) (length (pre @ dent_bytes e))) (dent_pos name es))"
      using Cons.IH [OF e(2), of "pre @ dent_bytes e"] Cons.prems(2) l MDE_SIZE_facts(1) by simp
    then show ?thesis
      using False F(2) F(3) [OF assms(2)] pos NEXT_MDE_aligned [OF Cons.prems(2), of "length (fst e)"] l
      by (subst find_mde.simps) (cases "dent_pos name es"; simp add: add.assoc)
  qed
qed

lemma find_mde_dents:
  assumes "list_all dent_ok es" "0 \<notin> set name"
  shows "find_mde (dents_bytes es) name (length (dents_bytes es)) 0 = Some (dent_pos name es)"
  using find_mde_from [OF assms, of "[]" "[]"] by (cases "dent_pos name es") simp_all

text \<open>The entry at the position found, with what lies before and behind it.\<close>

lemma dent_pos_split:
  assumes "dent_pos name es = Some p"
  obtains us e vs where "es = us @ e # vs" "fst e = name" "name \<notin> fst ` set us" "p = length (dents_bytes us)"
proof -
  have "\<exists>us e vs. es = us @ e # vs \<and> fst e = name \<and> name \<notin> fst ` set us \<and> p = length (dents_bytes us)"
    using assms
  proof (induction es arbitrary: p)
    case (Cons e es)
    show ?case
    proof (cases "fst e = name")
      case True
      with Cons.prems show ?thesis by (intro exI [of _ "[]"]) auto
    next
      case False
      with Cons.prems obtain q where q: "dent_pos name es = Some q" "p = length (dent_bytes e) + q" by auto
      from Cons.IH [OF q(1)] obtain us f vs where "es = us @ f # vs" "fst f = name" "name \<notin> fst ` set us" "q = length (dents_bytes us)"
        by blast
      with False q(2) show ?thesis by (intro exI [of _ "e # us"] exI [of _ f] exI [of _ vs]) auto
    qed
  qed simp
  with that show thesis by blast
qed

lemma dent_pos_None: "dent_pos name es = None \<longleftrightarrow> name \<notin> fst ` set es"
  by (induction es) auto

text \<open>The list as a map from names to inode numbers; the first entry counts.\<close>

definition dents_map :: "dent list \<Rightarrow> byte list \<rightharpoonup> int" where
  "dents_map es = map_of (map (\<lambda>e. (fst e, fst (snd e))) es)"

lemma dents_map_split:
  assumes "name \<notin> fst ` set us" "fst e = name"
  shows "dents_map (us @ e # vs) name = Some (fst (snd e))"
  using assms by (induction us) (auto simp: dents_map_def)

lemma dents_map_None: "dents_map es name = None \<longleftrightarrow> name \<notin> fst ` set es"
  by (auto simp: dents_map_def map_of_eq_None_iff image_image)

lemma find_mde_inum:
  assumes "list_all dent_ok es" "0 \<notin> set name"
  shows "\<exists>f. find_mde (dents_bytes es) name (length (dents_bytes es)) 0 = Some f \<and>
    (case f of None \<Rightarrow> dents_map es name = None | Some p \<Rightarrow> mde_inum (dents_bytes es) p = dents_map es name \<and> dents_map es name \<noteq> None)"
proof (cases "dent_pos name es")
  case None
  then have "dents_map es name = None" by (simp add: dents_map_None dent_pos_None)
  then show ?thesis using find_mde_dents [OF assms] None by simp
next
  case (Some p)
  obtain us e vs where s: "es = us @ e # vs" "fst e = name" "name \<notin> fst ` set us" "p = length (dents_bytes us)"
    by (rule dent_pos_split [OF Some])
  have "mde_inum (dents_bytes es) p = Some (fst (snd e))"
    using mde_fields(1) [of e "dents_bytes us" p "dents_bytes vs"] assms(1) s(1,4) by simp
  then show ?thesis using find_mde_dents [OF assms] Some dents_map_split [OF s(3,2)] s(1) by simp
qed

end
