(* ===== verification/Myfs_Vnops.thy ===== *)
theory Myfs_Vnops
  imports Myfs_Dir
begin

text \<open>
  The operations that the file system offers to the kernel: the handlers of \<open>file.c\<close> and \<open>dir.c\<close> and their
  table, \<open>myfs_ops\<close>.  They run in a world with one mounted file system (\<open>init_fs\<close> mounts one, and the block cache is part of
  its state), the inodes in memory and the cookies of open directories, by their addresses.
\<close>

section \<open>The world of the file system\<close>

text \<open>\<open>curptr\<close> is an offset in the contents, or nothing for \<open>NULL\<close>: the contents only move together with a change of the
  counter, and then it is computed anew.\<close>

record dir_cookie =
  curptr :: "nat option"
  dc_index :: int
  dc_counter :: int

text \<open>\<open>mw_at\<close> is the address of the mounted \<open>myfs_info\<close> and \<open>mw_nsid\<close> its name space, \<open>mw_cache\<close> the block cache while nothing
  is mounted, \<open>mw_next\<close> the next address that \<open>malloc\<close> returns, \<open>mw_open\<close> what \<open>open\<close> answers for a
  device, \<open>mw_after\<close> the bytes behind the super block in a new \<open>myfs_info\<close>.\<close>

record mworld =
  mw_at :: int
  mw_fs :: "myfs_info option"
  mw_nsid :: nspace_id
  mw_ino :: "int \<rightharpoonup> myfs_inode"
  mw_dc :: "int \<rightharpoonup> dir_cookie"
  mw_next :: int
  mw_out :: outside
  mw_junk :: "byte list"
  mw_cache :: block_cache
  mw_mem :: tmp_state
  mw_open :: "string \<Rightarrow> int"
  mw_after :: "byte list"

definition fs_at :: "int \<Rightarrow> mworld \<Rightarrow> myfs_info option" where
  "fs_at d w = (if d = mw_at w then mw_fs w else None)"

text \<open>An action on the inode at \<open>x\<close> of the file system at \<open>d\<close>, and as an operation of the kernel.\<close>

definition with_inode ::
  "int \<Rightarrow> int \<Rightarrow> (myfs_inode \<Rightarrow> myfs_info \<Rightarrow> ('r \<times> myfs_inode \<times> myfs_info) option) \<Rightarrow> mworld \<Rightarrow> ('r \<times> mworld) option" where
  "with_inode d x f w = do {
     m \<leftarrow> fs_at d w;
     mi \<leftarrow> mw_ino w x;
     (r, mi', m') \<leftarrow> f mi m;
     Some (r, w\<lparr>mw_fs := Some m', mw_ino := (mw_ino w)(x \<mapsto> mi')\<rparr>)
   }"

definition on_inode ::
  "int \<Rightarrow> int \<Rightarrow> (myfs_inode \<Rightarrow> myfs_info \<Rightarrow> ('r \<times> myfs_inode \<times> myfs_info) option) \<Rightarrow> mworld kernel \<Rightarrow> ('r \<times> mworld kernel) option" where
  "on_inode d x f = on_world (with_inode d x f)"

text \<open>Handlers that check the inode and do nothing else.\<close>

definition checked :: "errno \<Rightarrow> myfs_inode \<Rightarrow> myfs_info \<Rightarrow> (errno \<times> myfs_inode \<times> myfs_info) option" where
  "checked err mi m = do { _ \<leftarrow> CHECK_INODE mi; Some (err, mi, m) }"

section \<open>What the vnode layer calls\<close>

definition read_vnode_op :: "int \<Rightarrow> vnode_id \<Rightarrow> bool \<Rightarrow> mworld \<Rightarrow> (errno \<times> int \<times> mworld) option" where
  "read_vnode_op d i r w = do {
     m \<leftarrow> fs_at d w;
     let p = mw_next w;
     (err, got, m1) \<leftarrow> myfs_read_vnode (o_ptr (mw_out w)) i m;
     case got of
       None \<Rightarrow> Some (err, 0, w\<lparr>mw_fs := Some m1\<rparr>)
     | Some mi \<Rightarrow> Some (err, p, w\<lparr>mw_fs := Some m1, mw_ino := (mw_ino w)(p \<mapsto> mi), mw_next := p + 16\<rparr>)
   }"

definition myfs_release_vnode :: "int \<Rightarrow> int \<Rightarrow> bool \<Rightarrow> mworld \<Rightarrow> (errno \<times> mworld) option" where
  "myfs_release_vnode d x r w = do {
     mi \<leftarrow> mw_ino w x;
     _ \<leftarrow> CHECK_INODE mi;
     Some (0, w\<lparr>mw_ino := (mw_ino w)(x := None)\<rparr>)
   }"

definition myfs_remove_vnode :: "int \<Rightarrow> int \<Rightarrow> bool \<Rightarrow> mworld \<Rightarrow> (errno \<times> mworld) option" where
  "myfs_remove_vnode d x r w = do {
     m \<leftarrow> fs_at d w;
     mi \<leftarrow> mw_ino w x;
     _ \<leftarrow> CHECK_INODE mi;
     (_, mi1, m1) \<leftarrow> myfs_free_data_stream mi m;
     (_, m2) \<leftarrow> myfs_free_inode (inode_num mi1) m1;
     Some (0, w\<lparr>mw_fs := Some m2, mw_ino := (mw_ino w)(x := None)\<rparr>)
   }"

section \<open>Directories\<close>

definition lookup_in :: "int \<Rightarrow> int \<Rightarrow> string \<Rightarrow> (vnode_id, mworld) kget" where
  "lookup_in d dir name k = do {
     ((err, i), k1) \<leftarrow> on_inode d dir (\<lambda>mi m. do { (err, i, mi1, m1) \<leftarrow> dir_lookup name mi m; Some ((err, i), mi1, m1) }) k;
     Some (err, i, k1)
   }"

definition myfs_walk :: "mworld vnenv \<Rightarrow> int \<Rightarrow> int \<Rightarrow> string \<Rightarrow> bool \<Rightarrow> (string option \<times> vnode_id, mworld) kget" where
  "myfs_walk E d base file want k = do {
     (ret, vnid, k1) \<leftarrow> lookup_in d base file k;
     if ret \<noteq> 0 then Some (ret, (None, vnid), k1)
     else do {
       (err, _, k2) \<leftarrow> get_vnode E (mw_nsid (k_world k1)) vnid k1;
       if err \<noteq> 0 then Some (ENOENT, (None, vnid), k2) else Some (0, (None, vnid), k2)
     }
   }"

text \<open>\<open>make_dir\<close> reports errors as positive numbers, and \<open>ret < 0\<close> does not see them: the new inode is then used
  without having been set.\<close>

definition myfs_mkdir :: "int \<Rightarrow> int \<Rightarrow> string \<Rightarrow> int \<Rightarrow> mworld kact" where
  "myfs_mkdir d dir name mode k = on_inode d dir (\<lambda>parent m. do {
     let env = mw_out (k_world k);
     let junk = mw_junk (k_world k);
     _ \<leftarrow> CHECK_INODE parent;
     if name = ''.'' \<or> name = ''..'' then Some (EINVAL, parent, m)
     else if length name \<ge> FILE_NAME_LENGTH - 1 then Some (ENAMETOOLONG, parent, m)
     else do {
       (found, _, parent1, m1) \<leftarrow> dir_lookup name parent m;
       if found = 0 then Some (EEXIST, parent1, m1)
       else do {
         (ret, new, m2) \<leftarrow> make_dir env junk (Some parent1) mode m1;
         if ret < 0 then Some (ret, parent1, m2)
         else do {
           mi \<leftarrow> new;
           (ret, parent2, m3) \<leftarrow> dir_insert (o_time env) junk name (inode_num mi) parent1 m2;
           m4 \<leftarrow> (if ret \<noteq> 0 then do { (_, m4) \<leftarrow> myfs_free_inode (inode_num mi) m3; Some m4 } else Some m3);
           Some (ret, parent2, m4)
         }
       }
     }
   }) k"

text \<open>\<open>myfs_rmdir\<close> and \<open>myfs_unlink\<close> after their checks: the entry goes, and the vnode is marked for removal and put back.  When the
  entry cannot be deleted the reference is not given back.\<close>

definition drop_entry :: "mworld vnenv \<Rightarrow> int \<Rightarrow> int \<Rightarrow> string \<Rightarrow> vnode_id \<Rightarrow> mworld kact" where
  "drop_entry E d dir name vnid k = do {
     let n = mw_nsid (k_world k);
     (ret, k1) \<leftarrow> on_inode d dir (dir_delete (o_time (mw_out (k_world k))) name) k;
     if ret \<noteq> 0 then Some (ret, k1)
     else do {
       (_, k2) \<leftarrow> remove_vnode n vnid k1;
       (_, k3) \<leftarrow> put_vnode E n vnid k2;
       Some (0, k3)
     }
   }"

definition put_err :: "mworld vnenv \<Rightarrow> vnode_id \<Rightarrow> errno \<Rightarrow> mworld kact" where
  "put_err E vnid err k = do { (_, k1) \<leftarrow> put_vnode E (mw_nsid (k_world k)) vnid k; Some (err, k1) }"

text \<open>The test that nothing is in a directory any more.\<close>

definition looks_empty :: "myfs_inode \<Rightarrow> bool" where
  "looks_empty mi \<longleftrightarrow> \<not> take_bit 64 (ds_size (i_data mi)) > int MKDIR_BUFSIZE"

definition myfs_rmdir :: "mworld vnenv \<Rightarrow> int \<Rightarrow> int \<Rightarrow> string \<Rightarrow> mworld kact" where
  "myfs_rmdir E d dir name k = do {
     x \<leftarrow> mw_ino (k_world k) dir;
     _ \<leftarrow> CHECK_INODE x;
     (ret, vnid, k1) \<leftarrow> lookup_in d dir name k;
     if ret \<noteq> 0 then Some (ret, k1)
     else do {
       (ret, p, k2) \<leftarrow> get_vnode E (mw_nsid (k_world k1)) vnid k1;
       if ret \<noteq> 0 then Some (ret, k2)
       else do {
         mi \<leftarrow> mw_ino (k_world k2) p;
         if \<not> MY_S_ISDIR (i_mode mi) then put_err E vnid ENOTDIR k2
         else if \<not> looks_empty mi then put_err E vnid ENOTEMPTY k2
         else drop_entry E d dir name vnid k2
       }
     }
   }"

definition myfs_opendir :: "int \<Rightarrow> int \<Rightarrow> (int, mworld) kget" where
  "myfs_opendir d x k = do {
     m \<leftarrow> fs_at d (k_world k);
     mi \<leftarrow> mw_ino (k_world k) x;
     _ \<leftarrow> CHECK_INODE mi;
     if \<not> heap_ok (tmp m) then Some (ENOMEM, 0, k)
     else do {
       (ret, k1) \<leftarrow> on_inode d x need_contents k;
       if ret \<noteq> 0 then Some (ret, 0, k1)
       else do {
         let w = k_world k1;
         mi1 \<leftarrow> mw_ino w x;
         e \<leftarrow> etc mi1;
         let c = mw_next w;
         Some (0, c, k1\<lparr>k_world := w\<lparr>mw_next := c + 16,
           mw_dc := (mw_dc w)(c \<mapsto> \<lparr>curptr = map_option (\<lambda>_. 0) (contents e), dc_index = 0, dc_counter = counter e\<rparr>)\<rparr>\<rparr>)
       }
     }
   }"

definition myfs_closedir :: "int \<Rightarrow> int \<Rightarrow> int \<Rightarrow> mworld kact" where
  "myfs_closedir d x c = on_inode d x (checked 0)"

definition myfs_free_dircookie :: "int \<Rightarrow> int \<Rightarrow> int \<Rightarrow> mworld kact" where
  "myfs_free_dircookie d x c k = do {
     (_, k1) \<leftarrow> on_inode d x (checked 0) k;
     _ \<leftarrow> mw_dc (k_world k1) c;
     Some (0, k1\<lparr>k_world := (k_world k1)\<lparr>mw_dc := (mw_dc (k_world k1))(c := None)\<rparr>\<rparr>)
   }"

definition myfs_rewinddir :: "int \<Rightarrow> int \<Rightarrow> int \<Rightarrow> mworld kact" where
  "myfs_rewinddir d x c k = do {
     (_, k1) \<leftarrow> on_inode d x (checked 0) k;
     mi \<leftarrow> mw_ino (k_world k1) x;
     e \<leftarrow> etc mi;
     _ \<leftarrow> mw_dc (k_world k1) c;
     Some (0, k1\<lparr>k_world := (k_world k1)\<lparr>mw_dc := (mw_dc (k_world k1))(c \<mapsto>
       \<lparr>curptr = map_option (\<lambda>_. 0) (contents e), dc_index = 0, dc_counter = counter e\<rparr>)\<rparr>\<rparr>)
   }"

text \<open>The loop that finds the place again after the directory has changed.\<close>

fun skip_mdes :: "byte list \<Rightarrow> nat \<Rightarrow> nat \<Rightarrow> nat \<Rightarrow> nat option" where
  "skip_mdes buf end 0 p = Some p"
| "skip_mdes buf end (Suc n) p =
     (if p \<ge> end then Some p else do { len \<leftarrow> mde_name_len buf p; skip_mdes buf end n (NEXT_MDE p len) })"

definition resync :: "byte list \<Rightarrow> nat \<Rightarrow> int \<Rightarrow> dir_cookie \<Rightarrow> dir_cookie option" where
  "resync buf end cnt dc =
     (if dc_counter dc \<noteq> cnt then do {
        p \<leftarrow> skip_mdes buf end (nat (dc_index dc - 1)) 0;
        Some \<lparr>curptr = Some p, dc_index = dc_index dc - 1, dc_counter = cnt\<rparr>
      }
      else Some dc)"

text \<open>One entry for a call; \<open>d_name\<close> starts at byte 18 of the record, and nothing asks whether the name fits in the caller's
  buffer.\<close>

definition next_mde :: "int \<Rightarrow> byte list \<Rightarrow> nat \<Rightarrow> int \<Rightarrow> dir_cookie \<Rightarrow> (my_dirent list \<times> dir_cookie) option" where
  "next_mde dev buf end bufsize dc =
     (case curptr dc of
        None \<Rightarrow> None
      | Some p \<Rightarrow>
          if p \<ge> end then Some ([], dc)
          else do {
            i \<leftarrow> mde_inum buf p;
            n \<leftarrow> mde_name_len buf p;
            if p + 9 + n + 1 > length buf \<or> bufsize < 18 + int n + 1 then None
            else Some ([\<lparr>d_dev = dev, d_ino = i, d_reclen = int n,
                         d_name = map (\<lambda>b. char_of (unat b)) (takeWhile (\<lambda>b. b \<noteq> 0) (at buf (p + 9) (n + 1)))\<rparr>],
                       dc\<lparr>curptr := Some (NEXT_MDE p n), dc_index := dc_index dc + 1\<rparr>)
          })"

definition myfs_readdir :: "int \<Rightarrow> int \<Rightarrow> int \<Rightarrow> int \<Rightarrow> int \<Rightarrow> (my_dirent list, mworld) kget" where
  "myfs_readdir d x c num bufsize k = do {
     m \<leftarrow> fs_at d (k_world k);
     (_, k1) \<leftarrow> on_inode d x (checked 0) k;
     mi \<leftarrow> mw_ino (k_world k1) x;
     e \<leftarrow> etc mi;
     case contents e of
       None \<Rightarrow> Some (0, [], k1)
     | Some buf \<Rightarrow> do {
         dc \<leftarrow> mw_dc (k_world k1) c;
         let end = nat (ds_size (i_data mi));
         dc1 \<leftarrow> resync buf end (counter e) dc;
         (ds, dc2) \<leftarrow> next_mde (myfs_fd m) buf end bufsize dc1;
         Some (0, ds, k1\<lparr>k_world := (k_world k1)\<lparr>mw_dc := (mw_dc (k_world k1))(c \<mapsto> dc2)\<rparr>\<rparr>)
       }
   }"

section \<open>Files\<close>

definition MY_S_IFREG :: int where "MY_S_IFREG = 0x8000"
definition MY_S_IUMSK :: int where "MY_S_IUMSK = 0xfff"

definition myfs_access :: "int \<Rightarrow> int \<Rightarrow> int \<Rightarrow> mworld kact" where
  "myfs_access d x mode = on_inode d x (checked 0)"

definition make_file :: "outside \<Rightarrow> int \<Rightarrow> myfs_info \<Rightarrow> (errno \<times> myfs_inode option \<times> myfs_info) option" where
  "make_file env mode m = do {
     (got, m1) \<leftarrow> myfs_allocate_inode env mode m;
     case got of
       None \<Rightarrow> Some (ENOSPC, None, m1)
     | Some mi0 \<Rightarrow> do {
         let mi = mi0\<lparr>i_mode := i_mode mi0 OR MY_S_IFREG\<rparr>;
         m2 \<leftarrow> update_inode mi m1;
         Some (0, Some mi, m2)
       }
   }"

text \<open>The part of \<open>myfs_create\<close> before the vnode is made: the inode of the new file, when there is one.\<close>

definition create_inode ::
  "outside \<Rightarrow> byte list \<Rightarrow> string \<Rightarrow> int \<Rightarrow> myfs_inode \<Rightarrow> myfs_info \<Rightarrow> ((errno \<times> myfs_inode option) \<times> myfs_inode \<times> myfs_info) option" where
  "create_inode env junk name mode parent m = do {
     _ \<leftarrow> CHECK_INODE parent;
     if name = ''.'' \<or> name = ''..'' then Some ((EINVAL, None), parent, m)
     else if length name \<ge> FILE_NAME_LENGTH - 1 then Some ((ENAMETOOLONG, None), parent, m)
     else do {
       (found, _, parent1, m1) \<leftarrow> dir_lookup name parent m;
       if found = 0 then Some ((EEXIST, None), parent1, m1)
       else do {
         (ret, new, m2) \<leftarrow> make_file env mode m1;
         if ret < 0 then Some ((ret, None), parent1, m2)
         else do {
           mi \<leftarrow> new;
           (ret, parent2, m3) \<leftarrow> dir_insert (o_time env) junk name (inode_num mi) parent1 m2;
           if ret \<noteq> 0 then do { (_, m4) \<leftarrow> myfs_free_inode (inode_num mi) m3; Some ((ret, None), parent2, m4) }
           else Some ((0, Some mi), parent2, m3)
         }
       }
     }
   }"

definition myfs_create :: "mworld vnenv \<Rightarrow> int \<Rightarrow> int \<Rightarrow> string \<Rightarrow> int \<Rightarrow> int \<Rightarrow> (vnode_id \<times> int, mworld) kget" where
  "myfs_create E d dir name omode mode k = do {
     ((ret, new), k1) \<leftarrow> on_inode d dir (create_inode (mw_out (k_world k)) (mw_junk (k_world k)) name mode) k;
     case new of
       None \<Rightarrow> Some (ret, (0, 0), k1)
     | Some mi \<Rightarrow> do {
         let w = k_world k1;
         let p = mw_next w;
         let k2 = k1\<lparr>k_world := w\<lparr>mw_ino := (mw_ino w)(p \<mapsto> mi), mw_next := p + 16\<rparr>\<rparr>;
         (err, k3) \<leftarrow> new_vnode E (mw_nsid w) (inode_num mi) p k2;
         if err \<noteq> 0 then myfs_die else Some (0, (inode_num mi, 0), k3)
       }
   }"

definition myfs_symlink :: "int \<Rightarrow> int \<Rightarrow> string \<Rightarrow> string option \<Rightarrow> mworld kact" where
  "myfs_symlink d dir name path k = Some (EINVAL, k)"

definition myfs_readlink :: "int \<Rightarrow> int \<Rightarrow> int \<Rightarrow> (byte list \<times> int, mworld) kget" where
  "myfs_readlink d x bufsize k = do { (err, k1) \<leftarrow> on_inode d x (checked EINVAL) k; Some (err, ([], bufsize), k1) }"

definition myfs_link :: "int \<Rightarrow> int \<Rightarrow> string \<Rightarrow> int \<Rightarrow> mworld kact" where
  "myfs_link d dir name x k = Some (EINVAL, k)"

definition myfs_rename :: "int \<Rightarrow> int \<Rightarrow> string \<Rightarrow> int \<Rightarrow> string \<Rightarrow> mworld kact" where
  "myfs_rename d olddir oldname newdir newname k = Some (EINVAL, k)"

definition myfs_unlink :: "mworld vnenv \<Rightarrow> int \<Rightarrow> int \<Rightarrow> string \<Rightarrow> mworld kact" where
  "myfs_unlink E d dir name k = do {
     x \<leftarrow> mw_ino (k_world k) dir;
     _ \<leftarrow> CHECK_INODE x;
     (ret, vnid, k1) \<leftarrow> lookup_in d dir name k;
     if ret \<noteq> 0 then Some (ret, k1)
     else do {
       (ret, p, k2) \<leftarrow> get_vnode E (mw_nsid (k_world k1)) vnid k1;
       if ret \<noteq> 0 then Some (ret, k2)
       else do {
         mi \<leftarrow> mw_ino (k_world k2) p;
         if MY_S_ISDIR (i_mode mi) then put_err E vnid EISDIR k2
         else drop_entry E d dir name vnid k2
       }
     }
   }"

definition myfs_open :: "int \<Rightarrow> int \<Rightarrow> int \<Rightarrow> (int, mworld) kget" where
  "myfs_open d x omode k = do { (err, k1) \<leftarrow> on_inode d x (checked 0) k; Some (err, 0, k1) }"

definition myfs_close :: "int \<Rightarrow> int \<Rightarrow> int \<Rightarrow> mworld kact" where
  "myfs_close d x c = on_inode d x (checked 0)"

definition myfs_free_cookie :: "int \<Rightarrow> int \<Rightarrow> int \<Rightarrow> mworld kact" where
  "myfs_free_cookie d x c = on_inode d x (checked 0)"

definition myfs_read :: "int \<Rightarrow> int \<Rightarrow> int \<Rightarrow> fs_off_t \<Rightarrow> int \<Rightarrow> (byte list, mworld) kget" where
  "myfs_read d x c pos len k = do {
     ((err, xs), k1) \<leftarrow> on_inode d x (\<lambda>mi m. do {
       _ \<leftarrow> CHECK_INODE mi;
       (err, xs, m1) \<leftarrow> myfs_read_data_stream mi pos len m;
       Some ((err, xs), mi, m1) }) k;
     Some (err, xs, k1)
   }"

definition myfs_write :: "int \<Rightarrow> int \<Rightarrow> int \<Rightarrow> fs_off_t \<Rightarrow> byte list \<Rightarrow> (int, mworld) kget" where
  "myfs_write d x c pos buf k = do {
     ((err, n), k1) \<leftarrow> on_inode d x (\<lambda>mi m. do {
       _ \<leftarrow> CHECK_INODE mi;
       (err, n, mi1, m1) \<leftarrow> myfs_write_data_stream (o_time (mw_out (k_world k))) mi pos buf m;
       Some ((err, int n), mi1, m1) }) k;
     Some (err, n, k1)
   }"

definition myfs_ioctl :: "int \<Rightarrow> int \<Rightarrow> int \<Rightarrow> int \<Rightarrow> int \<Rightarrow> int \<Rightarrow> mworld kact" where
  "myfs_ioctl d x c cmd buf len = on_inode d x (checked EINVAL)"

definition myfs_rstat :: "int \<Rightarrow> int \<Rightarrow> (my_stat, mworld) kget" where
  "myfs_rstat d x k = do {
     let now = o_time (mw_out (k_world k));
     (st, k1) \<leftarrow> on_inode d x (\<lambda>mi m. do {
       _ \<leftarrow> CHECK_INODE mi;
       Some (\<lparr>st_dev = myfs_fd m, st_ino = inode_num mi, st_mode = i_mode mi, st_nlink = 1, st_uid = i_uid mi, st_gid = i_gid mi,
              st_size = ds_size (i_data mi), st_blksize = 1024, st_atime = now, st_mtime = last_modified_time mi,
              st_ctime = last_modified_time mi, st_crtime = create_time mi\<rparr>, mi, m) }) k;
     Some (0, st, k1)
   }"

definition wstat_owner :: "my_stat \<Rightarrow> int \<Rightarrow> myfs_inode \<Rightarrow> myfs_inode" where
  "wstat_owner st msk mi =
     (let mi1 = (if msk AND 1 \<noteq> 0 then mi\<lparr>i_mode := (i_mode mi AND MY_S_IFMT) OR (st_mode st AND MY_S_IUMSK)\<rparr> else mi);
          mi2 = (if msk AND 2 \<noteq> 0 then mi1\<lparr>i_uid := st_uid st\<rparr> else mi1)
      in if msk AND 4 \<noteq> 0 then mi2\<lparr>i_gid := st_gid st\<rparr> else mi2)"

definition myfs_wstat :: "int \<Rightarrow> int \<Rightarrow> my_stat \<Rightarrow> int \<Rightarrow> mworld kact" where
  "myfs_wstat d x st msk k = on_inode d x (\<lambda>mi m. do {
     let now = o_time (mw_out (k_world k));
     _ \<leftarrow> CHECK_INODE mi;
     if msk = 0 then Some (0, mi, m)
     else do {
       let mi1 = wstat_owner st msk mi;
       (err, mi2, m1) \<leftarrow>
         (if msk AND 8 = 0 then Some (0, mi1, m)
          else if MY_S_ISDIR (i_mode mi1) then Some (EISDIR, mi1, m)
          else do {
            (err, mi2, m1) \<leftarrow> myfs_set_file_size now (st_size st) mi1 m;
            Some (err, mi2\<lparr>last_modified_time := now\<rparr>, m1)
          });
       if err \<noteq> 0 then Some (err, mi2, m1)
       else do {
         let mi3 = (if msk AND 0x40 \<noteq> 0 then mi2\<lparr>create_time := st_crtime st\<rparr> else mi2);
         let mi4 = (if msk AND 0x20 \<noteq> 0 then mi3\<lparr>last_modified_time := st_mtime st\<rparr> else mi3);
         m2 \<leftarrow> update_inode mi4 m1;
         Some (0, mi4, m2)
       }
     }
   }) k"

definition myfs_fsync :: "int \<Rightarrow> int \<Rightarrow> mworld kact" where
  "myfs_fsync d x = on_inode d x (checked 0)"

end
