(* ===== verification/Myfs_Mount.thy ===== *)
theory Myfs_Mount
  imports Myfs_Vnops
begin

text \<open>
  Creating, mounting and unmounting a file system: \<open>mount.c\<close>, the empty journal of \<open>journal.c\<close>, and the table
  of operations \<open>myfs_ops\<close> of \<open>myfs_vnops.h\<close>.  What \<open>open\<close> returns for the device is an input.
\<close>

section \<open>The journal\<close>

text \<open>The journal is not implemented: its functions return 0 and change nothing.\<close>

definition myfs_create_journal :: "myfs_info \<Rightarrow> errno" where
  "myfs_create_journal m = 0"

definition myfs_init_journal :: "myfs_info \<Rightarrow> errno" where
  "myfs_init_journal m = 0"

definition myfs_shutdown_journal :: "myfs_info \<Rightarrow> errno" where
  "myfs_shutdown_journal m = 0"

definition myfs_create_journal_entry :: "myfs_info \<Rightarrow> int option" where
  "myfs_create_journal_entry m = None"

definition myfs_write_journal_entry :: "myfs_info \<Rightarrow> int option \<Rightarrow> fs_off_t \<Rightarrow> byte list \<Rightarrow> errno" where
  "myfs_write_journal_entry m jent b block = 0"

definition myfs_end_journal_entry :: "myfs_info \<Rightarrow> int option \<Rightarrow> errno" where
  "myfs_end_journal_entry m jent = 0"

definition sync_journal :: "myfs_info \<Rightarrow> myfs_info" where
  "sync_journal m = m"

section \<open>Creating\<close>

definition MAX_READERS :: int where "MAX_READERS = 1000000"
definition IDENT_NAME_LENGTH :: nat where "IDENT_NAME_LENGTH = 32"

text \<open>A \<open>myfs_info\<close> fresh from \<open>calloc\<close>; \<open>after\<close> are the bytes behind its super block.\<close>

definition zero_sb :: super_block where
  "zero_sb = \<lparr>sb_name = replicate IDENT_NAME_LENGTH 0, sb_magic1 = 0, fs_byte_order = 0, block_size = 0, block_shift = 0, num_blocks = 0,
     used_blocks = 0, num_inodes = 0, inode_map_start = 0, num_inode_map_blocks = 0, inodes_start = 0, num_inode_blocks = 0,
     sb_magic2 = 0, sb_flags = 0, root_inum = 0, journal_start = 0, journal_length = 0, log_start = 0, log_end = 0,
     sb_magic3 = 0, sb_pad = replicate 4 0\<rparr>"

definition zero_myfs :: "byte list \<Rightarrow> tmp_state \<Rightarrow> block_cache \<Rightarrow> myfs_info" where
  "zero_myfs after t c = \<lparr>dsb = zero_sb, after_dsb = after, bbm_bv = None, num_bitmap_blocks = 0, bbm_sem = 0,
     inode_map = \<lparr>numbits = 0, next_free = 0, is_full = False, bits = []\<rparr>, myfs_sem = 0, myfs_fd = 0, read_only = False,
     dev_block_size = 0, dev_block_conversion = 0, root_dir = None, tmp = t, cache = c\<rparr>"

definition volume_name :: "string option \<Rightarrow> string" where
  "volume_name name = (case name of
     None \<Rightarrow> ''untitled''
   | Some s \<Rightarrow> map (\<lambda>c. if c = CHR ''/'' then CHR ''-'' else c) s)"

text \<open>The loop for the shift; \<open>1 << 31\<close> is the smallest integer.\<close>

definition bshift_of :: "int \<Rightarrow> nat option" where
  "bshift_of bsize = find (\<lambda>i. c_int (2 ^ i) = bsize) [0..<32]"

text \<open>The exit after an error: block zero is overwritten, and the file system is thrown away.\<close>

definition create_failed :: "myfs_info \<Rightarrow> (myfs_info option \<times> block_cache) option" where
  "create_failed m = do {
     m1 \<leftarrow> (if myfs_fd m \<ge> 0 then do { (_, m1) \<leftarrow> write_blocks m 0 (replicate 4096 (- 1)) 1; Some m1 } else Some m);
     Some (None, cache (myfs_shutdown_inodes (myfs_shutdown_storage_map m1)))
   }"

definition myfs_create_fs ::
  "outside \<Rightarrow> byte list \<Rightarrow> byte list \<Rightarrow> tmp_state \<Rightarrow> int \<Rightarrow> string option \<Rightarrow> int \<Rightarrow> block_cache \<Rightarrow> (myfs_info option \<times> block_cache) option" where
  "myfs_create_fs env junk after t fd name bsize0 c =
     (if take_bit 64 bsize0 mod int sizeof_inode \<noteq> 0 then Some (None, c)
      else let name1 = volume_name name; bsize1 = (if bsize0 < 512 then 512 else bsize0) in
      case bshift_of bsize1 of
        None \<Rightarrow> Some (None, c)
      | Some bshift \<Rightarrow>
          if \<not> heap_ok t then Some (None, c)
          else do {
            sm \<leftarrow> create_sem (heap_ok t) MAX_READERS;
            let m0 = (zero_myfs after t c)\<lparr>dsb := zero_sb\<lparr>sb_magic1 := SUPER_BLOCK_MAGIC1, sb_magic2 := c_int SUPER_BLOCK_MAGIC2,
              sb_magic3 := SUPER_BLOCK_MAGIC3, fs_byte_order := MYFS_BIG_ENDIAN\<rparr>, myfs_sem := sm, myfs_fd := fd\<rparr>;
            if fd < 0 then create_failed m0
            else do {
              let dev_bsize = get_device_block_size fd;
              let num_dev_blocks = get_num_device_blocks (devs c) fd;
              let bsize = (if bsize1 < dev_bsize then dev_bsize else bsize1);
              if c_mod bsize dev_bsize \<noteq> 0 then create_failed m0
              else do {
                let conv = c_div bsize dev_bsize;
                let m1 = m0\<lparr>dsb := (dsb m0)\<lparr>block_size := bsize, block_shift := int bshift, num_blocks := c_div num_dev_blocks conv\<rparr>,
                  dev_block_conversion := conv, dev_block_size := dev_bsize\<rparr>;
                (_, c1) \<leftarrow> init_cache_for_device fd (c_div num_dev_blocks conv) (cache m1);
                (e1, t1) \<leftarrow> init_tmp_blocks (bsize_of m1) (tmp m1);
                let m2 = m1\<lparr>cache := c1, tmp := t1\<rparr>;
                if e1 \<noteq> 0 then create_failed m2
                else do {
                  (e2, m3) \<leftarrow> myfs_create_storage_map m2;
                  if e2 \<noteq> 0 then create_failed m3
                  else do {
                    (e3, m4) \<leftarrow> myfs_create_inodes m3;
                    if e3 \<noteq> 0 \<or> myfs_create_journal m4 \<noteq> 0 then create_failed m4
                    else do {
                      (e4, m5) \<leftarrow> myfs_create_root_dir env junk m4;
                      if e4 \<noteq> 0 then create_failed m5
                      else do {
                        let m6 = m5\<lparr>dsb := (dsb m5)\<lparr>sb_name := overwrite (sb_name (dsb m5)) 0
                                     (take (IDENT_NAME_LENGTH - 1) (c_bytes name1))\<rparr>\<rparr>;
                        (e5, m7) \<leftarrow> write_super_block m6;
                        if e5 \<noteq> 0 then create_failed m7 else Some (Some m7, cache m7)
                      }
                    }
                  }
                }
              }
            }
          })"

section \<open>Mounting\<close>

text \<open>\<open>1 << n\<close> as it is compared with an unsigned block size; a shift by 32 or more is undefined.\<close>

definition one_shl :: "int \<Rightarrow> int option" where
  "one_shl n = (if 0 \<le> n \<and> n < 32 then Some (2 ^ nat n) else None)"

text \<open>The numbers of bytes are compared as 64-bit products; the number of blocks comes from the disk and the product may wrap around.\<close>

definition super_block_is_sane :: "myfs_info \<Rightarrow> (bool \<times> myfs_info) option" where
  "super_block_is_sane m =
     (let sb = dsb m in
      if sb_magic1 sb \<noteq> SUPER_BLOCK_MAGIC1 \<or> sb_magic2 sb \<noteq> c_int SUPER_BLOCK_MAGIC2 \<or> sb_magic3 sb \<noteq> SUPER_BLOCK_MAGIC3
      then Some (False, m)
      else if dev_block_size m = 0 then None
      else if block_size sb mod dev_block_size m \<noteq> 0 then Some (False, m)
      else let bsz = get_device_block_size (myfs_fd m) in
      if bsz = 0 then Some (False, m)
      else if signed_take_bit 63 (num_blocks sb * block_size sb) >
          signed_take_bit 63 (get_num_device_blocks (devs (cache m)) (myfs_fd m) * bsz) then Some (False, m)
      else do {
        s \<leftarrow> one_shl (block_shift sb);
        if block_size sb = s then Some (True, m)
        else if block_shift sb > 8 \<and> block_shift sb < 16 then Some (True, m\<lparr>dsb := sb\<lparr>block_size := s\<rparr>\<rparr>)
        else (case find (\<lambda>i. 2 ^ i = block_size sb) [0..<32] of
            None \<Rightarrow> Some (False, m)
          | Some i \<Rightarrow> if i > 16 then Some (False, m) else Some (True, m\<lparr>dsb := sb\<lparr>block_shift := int i\<rparr>\<rparr>))
      })"

text \<open>The exits of \<open>myfs_mount\<close> after an error.  Closing the device and freeing memory leave nothing of the file
  system; what stays is the cache.\<close>

definition mount_error2 :: "myfs_info \<Rightarrow> block_cache option" where
  "mount_error2 m = do { (_, c) \<leftarrow> remove_cached_device_blocks (myfs_fd m) False (cache m); Some c }"

definition mount_error6 :: "myfs_info \<Rightarrow> block_cache option" where
  "mount_error6 m = mount_error2 (m\<lparr>inode_map := inode_map (myfs_shutdown_inodes m), tmp := shutdown_tmp_blocks (tmp m)\<rparr>)"

definition mount_error7 :: "myfs_info \<Rightarrow> block_cache option" where
  "mount_error7 m = mount_error6 (myfs_shutdown_storage_map m)"

text \<open>The part of \<open>myfs_mount\<close> before the root directory: the file system, or an error and the cache.\<close>

definition mount_fs ::
  "byte list \<Rightarrow> tmp_state \<Rightarrow> int \<Rightarrow> block_cache \<Rightarrow> ((errno \<times> block_cache) + myfs_info) option" where
  "mount_fs after t fd c = do {
     sm \<leftarrow> create_sem (heap_ok t) MAX_READERS;
     let m0 = (zero_myfs after t c)\<lparr>myfs_sem := sm, myfs_fd := fd\<rparr>;
     if fd < 0 then Some (Inl (ENODEV, c))
     else do {
       let (e1, m1) = read_super_block m0;
       if e1 \<noteq> 0 then do { c1 \<leftarrow> mount_error2 m1; Some (Inl (EBADF, c1)) }
       else do {
         (sane, m2) \<leftarrow> super_block_is_sane m1;
         if \<not> sane then do { c1 \<leftarrow> mount_error2 m2; Some (Inl (EBADF, c1)) }
         else if bsize_of m2 mod int sizeof_inode \<noteq> 0 then do { c1 \<leftarrow> mount_error2 m2; Some (Inl (EINVAL, c1)) }
         else do {
           (e2, c2) \<leftarrow> init_cache_for_device fd (num_blocks (dsb m2)) (cache m2);
           let m3 = m2\<lparr>cache := c2\<rparr>;
           if e2 \<noteq> 0 then do { c1 \<leftarrow> mount_error2 m3; Some (Inl (EBADF, c1)) }
           else do {
             (e3, t3) \<leftarrow> init_tmp_blocks (bsize_of m3) (tmp m3);
             let m4 = m3\<lparr>tmp := t3\<rparr>;
             if e3 \<noteq> 0 then do { c1 \<leftarrow> mount_error2 m4; Some (Inl (ENOMEM, c1)) }
             else if myfs_init_journal m4 \<noteq> 0 then do { c1 \<leftarrow> mount_error2 (m4\<lparr>tmp := shutdown_tmp_blocks (tmp m4)\<rparr>); Some (Inl (EBADF, c1)) }
             else do {
               (e4, m5) \<leftarrow> myfs_init_inodes m4;
               if e4 \<noteq> 0 then do { c1 \<leftarrow> mount_error2 (m5\<lparr>tmp := shutdown_tmp_blocks (tmp m5)\<rparr>); Some (Inl (ENOMEM, c1)) }
               else do {
                 (e5, m6) \<leftarrow> myfs_init_storage_map m5;
                 if e5 \<noteq> 0 then do { c1 \<leftarrow> mount_error6 m6; Some (Inl (EBADF, c1)) } else Some (Inr m6)
               }
             }
           }
         }
       }
     }
   }"

text \<open>\<open>"myfs:"\<close> and the name of the device go into 128 bytes.\<close>

definition myfs_mount :: "mworld vnenv \<Rightarrow> nspace_id \<Rightarrow> string option \<Rightarrow> int \<Rightarrow> int \<Rightarrow> int \<Rightarrow> (int \<times> vnode_id, mworld) kget" where
  "myfs_mount E nsid device flags parms len k =
     (let w = k_world k; data = mw_next w; fd = (case device of None \<Rightarrow> - 1 | Some s \<Rightarrow> mw_open w s) in
      if \<not> heap_ok (mw_mem w) then Some (ENOMEM, (0, 0), k)
      else if (case device of None \<Rightarrow> False | Some s \<Rightarrow> length s + 6 > 128) then None
      else do {
        r \<leftarrow> mount_fs (mw_after w) (mw_mem w) fd (mw_cache w);
        case r of
          Inl (err, c) \<Rightarrow> Some (err, (data, 0), k\<lparr>k_world := w\<lparr>mw_cache := c, mw_next := data + 16\<rparr>\<rparr>)
        | Inr m \<Rightarrow> do {
            let vnid = root_inum (dsb m);
            let w1 = w\<lparr>mw_at := data, mw_fs := Some m, mw_nsid := nsid, mw_next := data + 16\<rparr>;
            (e1, p, w2) \<leftarrow> read_vnode_op data vnid False w1;
            m1 \<leftarrow> mw_fs w2;
            if e1 \<noteq> 0 then do {
              c \<leftarrow> mount_error7 m1;
              Some (EBADF, (data, vnid), k\<lparr>k_world := w2\<lparr>mw_fs := None, mw_cache := c\<rparr>\<rparr>) }
            else do {
              let w3 = w2\<lparr>mw_fs := Some (m1\<lparr>root_dir := mw_ino w2 p\<rparr>)\<rparr>;
              (e2, k1) \<leftarrow> new_vnode E nsid vnid p (k\<lparr>k_world := w3\<rparr>);
              if e2 \<noteq> 0 then do {
                m2 \<leftarrow> mw_fs (k_world k1);
                c \<leftarrow> mount_error7 m2;
                Some (ENOMEM, (data, vnid), k1\<lparr>k_world := (k_world k1)\<lparr>mw_fs := None, mw_cache := c\<rparr>\<rparr>) }
              else Some (0, (data, vnid), k1)
            }
          }
      })"

definition unmount_fs :: "myfs_info \<Rightarrow> block_cache option" where
  "unmount_fs m = do {
     let m1 = myfs_shutdown_inodes (myfs_shutdown_storage_map (sync_journal m));
     (_, c) \<leftarrow> remove_cached_device_blocks (myfs_fd m1) True (cache (sync_journal m1));
     (_, m2) \<leftarrow> write_super_block (m1\<lparr>cache := c\<rparr>);
     Some (cache m2)
   }"

definition myfs_unmount :: "int \<Rightarrow> mworld kact" where
  "myfs_unmount d k =
     (if d = 0 then Some (EINVAL, k)
      else do {
        m \<leftarrow> fs_at d (k_world k);
        c \<leftarrow> unmount_fs m;
        Some (0, k\<lparr>k_world := (k_world k)\<lparr>mw_fs := None, mw_cache := c\<rparr>\<rparr>)
      })"

section \<open>The table of operations\<close>

definition myfs_vnops :: "mworld vnops" where
  "myfs_vnops = \<lparr>op_read_vnode = read_vnode_op, op_release_vnode = myfs_release_vnode, op_remove_vnode = myfs_remove_vnode\<rparr>"

definition myfs_ops :: "mworld vnenv \<Rightarrow> mworld fsops" where
  "myfs_ops E = \<lparr>op_walk = Some (myfs_walk E), op_access = Some myfs_access, op_create = Some (myfs_create E),
     op_mkdir = Some myfs_mkdir, op_symlink = Some myfs_symlink, op_link = None, op_rename = Some myfs_rename,
     op_unlink = Some (myfs_unlink E), op_rmdir = Some (myfs_rmdir E), op_readlink = Some myfs_readlink,
     op_opendir = Some myfs_opendir, op_closedir = Some myfs_closedir, op_free_dircookie = Some myfs_free_dircookie,
     op_rewinddir = Some myfs_rewinddir, op_readdir = Some myfs_readdir, op_open = Some myfs_open, op_close = Some myfs_close,
     op_free_cookie = Some myfs_free_cookie, op_read = Some myfs_read, op_write = Some myfs_write, op_ioctl = Some myfs_ioctl,
     op_rstat = Some myfs_rstat, op_wstat = Some myfs_wstat, op_fsync = Some myfs_fsync,
     op_mount = Some (myfs_mount E), op_unmount = Some myfs_unmount, op_sync = None\<rparr>"

end
