(* ===== verification/Myfs_Dir_Props.thy ===== *)
theory Myfs_Dir_Props
  imports Myfs_Entries Myfs_Mount
begin

text \<open>
  Directories of the file system on the disk: looking up, adding and removing entries refine the list of the
  entries, through the data streams down to the blocks; and what the checks around them miss.
\<close>

section \<open>A directory in working order\<close>

text \<open>The bytes of the file are the entries, and so are the contents in memory once they have been read.\<close>

definition dir_ok :: "(int \<Rightarrow> int) \<Rightarrow> BitVector \<Rightarrow> myfs_info \<Rightarrow> myfs_inode \<Rightarrow> dent list \<Rightarrow> bool" where
  "dir_ok bs bv m dir es \<longleftrightarrow> file_ok bs bv m dir \<and> file_bytes bs m dir = dents_bytes es \<and> list_all dent_ok es \<and>
     (\<exists>e. etc dir = Some e \<and> (contents e = None \<or> contents e = Some (dents_bytes es)))"

lemma dir_okD:
  assumes "dir_ok bs bv m dir es"
  shows "file_ok bs bv m dir" "stream_ok bs m dir" "file_bytes bs m dir = dents_bytes es" "list_all dent_ok es"
  using assms by (auto simp: dir_ok_def file_ok_def)

lemma dir_size:
  assumes "fs_ok bs m" "dir_ok bs bv m dir es"
  shows "ds_size (i_data dir) = int (length (dents_bytes es))"
  using file_bytes_length [OF assms(1) dir_okD(2) [OF assms(2)]] dir_okD(2,3) [OF assms(2)] by (simp add: stream_ok_def)

text \<open>What is only in memory does not matter on the disk.\<close>

lemma etc_file [simp]:
  "stream_blocks bs m (mi\<lparr>etc := x\<rparr>) = stream_blocks bs m mi" "file_ok bs bv m (mi\<lparr>etc := x\<rparr>) = file_ok bs bv m mi"
  "file_bytes bs m (mi\<lparr>etc := x\<rparr>) = file_bytes bs m mi" "stream_ok bs m (mi\<lparr>etc := x\<rparr>) = stream_ok bs m mi"
  "nblks m (mi\<lparr>etc := x\<rparr>) = nblks m mi" "inode_typed (mi\<lparr>etc := x\<rparr>) = inode_typed mi"
proof -
  have b: "nth_block bs m (mi\<lparr>etc := x\<rparr>) i = nth_block bs m mi i" for i by (simp add: nth_block_def cong: if_cong)
  show n: "nblks m (mi\<lparr>etc := x\<rparr>) = nblks m mi" by (simp add: nblks_def)
  show sb: "stream_blocks bs m (mi\<lparr>etc := x\<rparr>) = stream_blocks bs m mi" by (simp add: stream_blocks_def n b)
  show so: "stream_ok bs m (mi\<lparr>etc := x\<rparr>) = stream_ok bs m mi" by (simp add: stream_ok_def n b)
  show "file_ok bs bv m (mi\<lparr>etc := x\<rparr>) = file_ok bs bv m mi"
    by (simp add: file_ok_def stream_apart_def inode_clear_def sb so)
  show "file_bytes bs m (mi\<lparr>etc := x\<rparr>) = file_bytes bs m mi" by (simp add: file_bytes_def file_data_def n b)
  show "inode_typed (mi\<lparr>etc := x\<rparr>) = inode_typed mi" by (simp add: inode_typed_def)
qed

text \<open>Reading the contents.\<close>

lemma need_contents_good:
  assumes ok: "fs_ok bs m" and sp: "0 < spare m" and h: "heap_ok (tmp m)" and d: "dir_ok bs bv m dir es"
  obtains e m' where "need_contents dir m = Some (0, dir\<lparr>etc := Some e\<rparr>, m')" "contents e = Some (dents_bytes es)"
    "fs_step bs m m'" "same_blks bs {} m m'" "dir_ok bs bv m' (dir\<lparr>etc := Some e\<rparr>) es"
proof -
  obtain e where e: "etc dir = Some e" "contents e = None \<or> contents e = Some (dents_bytes es)" using d by (auto simp: dir_ok_def)
  note D = dir_okD [OF d] and sz = dir_size [OF ok d]
  have keep: "dir_ok bs bv m' (dir\<lparr>etc := Some (e\<lparr>contents := Some (dents_bytes es)\<rparr>)\<rparr>) es"
    if "fs_step bs m m'" "same_blks bs {} m m'" for m'
    using file_ok_keep(1,3) [OF ok D(1) fs_step_is_move [OF that(1)] that(2)] D(3,4) by (simp add: dir_ok_def)
  have refl: "fs_step bs m m" "same_blks bs {} m m" using fs_step_refl [OF ok] by (simp_all add: same_blks_def)
  let ?e = "e\<lparr>contents := Some (dents_bytes es)\<rparr>"
  show thesis
  proof (cases "contents e")
    case (Some xs)
    with e(2) have "e = ?e" by (cases e) auto
    then have "dir = dir\<lparr>etc := Some ?e\<rparr>" using e(1) by (cases dir) auto
    then have "need_contents dir m = Some (0, dir\<lparr>etc := Some ?e\<rparr>, m)" using Some e(1) by (simp add: need_contents_def)
    then show thesis by (rule that) (simp_all add: refl keep)
  next
    case None
    obtain m' where r: "myfs_read_data_stream dir 0 (ds_size (i_data dir)) m = Some (0, dents_bytes es, m')"
      "fs_step bs m m'" "same_blks bs {} m m'"
    proof (cases "dents_bytes es = []")
      case True
      then have "myfs_read_data_stream dir 0 (ds_size (i_data dir)) m = Some (0, dents_bytes es, m)"
        by (simp add: myfs_read_data_stream_def sz)
      then show thesis by (rule that) (simp_all add: refl)
    next
      case False
      have b: "ds_size (i_data dir) < 2 ^ 62" using stream_size_bound [OF ok D(2)] by simp
      obtain m' where "myfs_read_data_stream dir 0 (ds_size (i_data dir)) m =
          Some (0, at (file_data bs m dir) (nat 0) (length (dents_bytes es)), m')" "fs_step bs m m'" "same_blks bs {} m m'"
        by (rule read_from [OF ok sp D(2), of 0 "length (dents_bytes es)" "ds_size (i_data dir)"]) (use False sz b in auto)
      moreover have "at (file_data bs m dir) (nat 0) (length (dents_bytes es)) = dents_bytes es"
        using D(3) sz by (simp add: at_def file_bytes_def)
      ultimately show thesis by (intro that) simp_all
    qed
    have "need_contents dir m = Some (0, dir\<lparr>etc := Some ?e\<rparr>, m')"
      using None e(1) h sz r(1) by (simp add: need_contents_def get_dir_contents_def set_contents_def)
    then show thesis by (rule that) (simp_all add: r keep)
  qed
qed

section \<open>Looking up\<close>

text \<open>Claim C8: \<open>dir_lookup\<close> in a directory of the file system comes back with the inode number of the first entry with the
  name, or with \<open>ENOENT\<close> when there is none, whether the contents are in memory or have to be read from the disk; the
  directory holds the same entries afterwards and no block changes.\<close>

theorem dir_lookup_refines:
  assumes "fs_ok bs m" "0 < spare m" "heap_ok (tmp m)" "dir_ok bs bv m dir es" "0 \<notin> set (c_bytes name)"
  shows "\<exists>dir' m'. dir_lookup name dir m = Some (case dents_map es (c_bytes name) of
        None \<Rightarrow> (ENOENT, 0, dir', m') | Some i \<Rightarrow> (0, i, dir', m')) \<and>
    fs_ok bs m' \<and> dir_ok bs bv m' dir' es \<and> (\<forall>b. fs_has m b \<longrightarrow> fs_blk bs m' b = fs_blk bs m b)"
proof -
  obtain e m' where n: "need_contents dir m = Some (0, dir\<lparr>etc := Some e\<rparr>, m')" "contents e = Some (dents_bytes es)"
    "fs_step bs m m'" "same_blks bs {} m m'" "dir_ok bs bv m' (dir\<lparr>etc := Some e\<rparr>) es"
    by (rule need_contents_good [OF assms(1-4)])
  obtain f where f: "find_mde (dents_bytes es) (c_bytes name) (length (dents_bytes es)) 0 = Some f"
    "case f of None \<Rightarrow> dents_map es (c_bytes name) = None
     | Some p \<Rightarrow> mde_inum (dents_bytes es) p = dents_map es (c_bytes name) \<and> dents_map es (c_bytes name) \<noteq> None"
    using find_mde_inum [OF dir_okD(4) [OF assms(4)] assms(5)] by blast
  have "dir_lookup name dir m = Some (case dents_map es (c_bytes name) of
        None \<Rightarrow> (ENOENT, 0, dir\<lparr>etc := Some e\<rparr>, m') | Some i \<Rightarrow> (0, i, dir\<lparr>etc := Some e\<rparr>, m'))"
    using n(1,2) f dir_size [OF assms(1,4)] by (auto simp: dir_lookup_def split: option.splits)
  moreover have "fs_ok bs m'" by (rule fs_step_ok [OF n(3) assms(1)])
  ultimately show ?thesis using n(4,5) unfolding same_blks_def by blast
qed

section \<open>Adding\<close>

text \<open>What a step that only used the cache keeps for the next one.\<close>

lemma step_keeps:
  assumes "fs_step bs m m'" "same_blks bs {} m m'" "map_ok bs bv m" "quiet bs m" "sb_mem m"
  shows "map_ok bs bv m'" "quiet bs m'" "sb_mem m'"
proof -
  note S = fs_stepD [OF assms(1)]
  show "map_ok bs bv m'" by (rule map_ok_keep [OF assms(3) fs_step_is_move [OF assms(1)] assms(2)]) (simp_all add: S(3))
  show "quiet bs m'" by (rule quiet_move [OF fs_step_is_move [OF assms(1)] assms(4)])
  show "sb_mem m'" using assms(5) by (simp add: sb_mem_def S(1,2))
qed

text \<open>Claim C7: \<open>dir_insert\<close> into a directory that stays within its direct blocks adds exactly one entry at its end, in
  memory, in the bytes of its file and in its stored inode, or it returns \<open>ENOSPC\<close>.  The blocks \<open>bl\<close> it takes were
  free, they and no others are marked, and they follow the blocks of the directory; used blocks that belong neither to the directory nor to its inode or
  the block map stay as they are.  With an exact map it succeeds if and only if the blocks it needs are free.\<close>

theorem dir_insert_appends:
  assumes "fs_ok bs m" "0 < spare m" "heap_ok (tmp m)" "map_ok bs bv m" "quiet bs m" "sb_mem m"
    and "0 \<le> used_blocks (dsb m)" "used_blocks (dsb m) \<le> num_blocks (dsb m)" "dir_ok bs bv m dir es"
    and "nblks m dir < NUM_DIRECT_BLOCKS \<longrightarrow> direct (i_data dir) ! nblks m dir = 0"
    and "inode_typed (dir\<lparr>last_modified_time := now\<rparr>)" "dent_ok (c_bytes name, inum, junk)" "length name < FILE_NAME_LENGTH - 1"
    and "int (length (dents_bytes es) + MDE_SIZE (length name)) \<le> MAX_DIRECT_RANGE (bsize_of m)"
  shows "\<exists>ret dir' m' bv' bl. dir_insert now junk name inum dir m = Some (ret, dir', m') \<and> fs_ok bs m' \<and> map_ok bs bv' m' \<and>
    gained bv m bl bv' m' \<and>
    (\<forall>b. fs_has m b \<longrightarrow> nat b \<in> used_bits bv \<longrightarrow> num_bitmap_blocks m < b \<longrightarrow> b \<notin> set (stream_blocks bs m dir) \<longrightarrow>
       b \<noteq> inode_block m (inode_num dir) \<longrightarrow> fs_blk bs m' b = fs_blk bs m b) \<and>
    (exact_map bv m \<longrightarrow> (ret = 0 \<longleftrightarrow> bcount m (int (length (dents_bytes es) + MDE_SIZE (length name))) -
       bcount m (int (length (dents_bytes es))) \<le> num_blocks (dsb m) - used_blocks (dsb m))) \<and>
    (if ret = 0 then dir_ok bs bv' m' dir' (es @ [(c_bytes name, inum, junk)]) \<and>
       stream_blocks bs m' dir' = stream_blocks bs m dir @ bl \<and> inode_at bs m' (inode_num dir) = inode_bytes dir'
     else ret = ENOSPC)"
proof -
  let ?new = "(c_bytes name, inum, junk)"
  obtain e m1 where n: "need_contents dir m = Some (0, dir\<lparr>etc := Some e\<rparr>, m1)" "contents e = Some (dents_bytes es)"
    "fs_step bs m m1" "same_blks bs {} m m1" "dir_ok bs bv m1 (dir\<lparr>etc := Some e\<rparr>) es"
    by (rule need_contents_good [OF assms(1-3,9)])
  note S = fs_stepD [OF n(3)] and K = step_keeps [OF n(3,4) assms(4-6)]
  define e' where "e' = e\<lparr>contents := Some (dents_bytes (es @ [?new])), counter := counter e + 1\<rparr>"
  define d2 where "d2 = dir\<lparr>etc := Some e'\<rparr>"
  let ?buf = "dents_bytes (es @ [?new])"
  have ok1: "fs_ok bs m1" by (rule fs_step_ok [OF n(3) assms(1)])
  have sz: "ds_size (i_data dir) = int (length (dents_bytes es))" by (rule dir_size [OF assms(1,9)])
  have f2: "file_ok bs bv m1 d2" "ds_size (i_data d2) = int (length (dents_bytes es))" "nblks m1 d2 = nblks m dir"
    "i_data d2 = i_data dir" "inode_num d2 = inode_num dir" "stream_blocks bs m1 d2 = stream_blocks bs m dir"
    using dir_okD(1) [OF n(5)] sz S(1) file_ok_keep(2) [OF assms(1) dir_okD(1) [OF assms(9)] fs_step_is_move [OF n(3)] n(4)]
    by (simp_all add: d2_def nblks_def)
  have len: "length ?buf = length (dents_bytes es) + MDE_SIZE (length name)" using dent_length [OF assms(12)] by (simp add: c_bytes_def)
  have ins: "dir_insert now junk name inum dir m =
      (case myfs_write_data_stream now d2 0 ?buf m1 of None \<Rightarrow> None | Some (ret, s, d, m2) \<Rightarrow> Some (ret, d, m2))"
  proof -
    have "fill (length (dents_bytes es)) (dents_bytes es) @ mde_bytes junk inum (c_bytes name) = ?buf"
      by (simp add: fill_same dent_bytes_def)
    then show ?thesis
      using n(1,2) assms(3,13) sz S(8)
      by (simp add: dir_insert_def sizeof_myfs_dirent_def FILE_NAME_LENGTH_def e'_def d2_def split: option.splits)
  qed
  have P: "0 < spare m1" "inode_typed (d2\<lparr>last_modified_time := now\<rparr>)" "ds_size (i_data d2) < 0 + int (length ?buf)"
    "0 \<le> used_blocks (dsb m1)" "used_blocks (dsb m1) \<le> num_blocks (dsb m1)" "(0::int) \<le> 0" "0 \<le> ds_size (i_data d2)"
    "nblks m1 d2 < NUM_DIRECT_BLOCKS \<longrightarrow> direct (i_data d2) ! nblks m1 d2 = 0" "0 + int (length ?buf) \<le> MAX_DIRECT_RANGE (bsize_of m1)"
    using assms(2,7,8,10,11,14) len S(1,10) f2 MDE_SIZE_facts(2) [of "length name"] by (simp_all add: d2_def inode_typed_def)
  have B: "bcount m1 (0 + int (length ?buf)) - bcount m1 (ds_size (i_data d2)) =
      bcount m (int (length (dents_bytes es) + MDE_SIZE (length name))) - bcount m (int (length (dents_bytes es)))"
    using S(1) f2(2) len by (simp add: bcount_def)
  have G: "gained bv m bl bv' m' = gained bv m1 bl bv' m'" "exact_map bv m1 = exact_map bv m" for bl bv' m'
    using S(1,4) by (simp_all add: gained_def exact_map_def)
  show ?thesis
  proof (cases rule: write_extends [OF ok1 P(1) K(1,2,3) f2(1) P(4,5,8,2,6,7,3,9)])
    case (1 d3 m3 bv3 bl)
    have i: "dir_insert now junk name inum dir m = Some (0, d3, m3)" using ins 1(1) by simp
    have d: "dir_ok bs bv3 m3 d3 (es @ [?new])"
      using 1(6,7,10) dir_okD(4) [OF assms(9)] assms(12) by (simp add: dir_ok_def d2_def e'_def)
    have same: "fs_blk bs m3 b = fs_blk bs m b" if "fs_has m b" "nat b \<in> used_bits bv" "num_bitmap_blocks m < b"
      "b \<notin> set (stream_blocks bs m dir)" "b \<noteq> inode_block m (inode_num dir)" for b
      using 1(12) that same_blksD [OF n(4) that(1)] inode_place_cong [OF S(1)] S(4) f2(5,6) by simp
    have ex: "exact_map bv m \<longrightarrow> bcount m (int (length (dents_bytes es) + MDE_SIZE (length name))) -
        bcount m (int (length (dents_bytes es))) \<le> num_blocks (dsb m) - used_blocks (dsb m)"
      using 1(13) unfolding B G S(1) by blast
    show ?thesis
      by (rule exI [of _ 0], rule exI [of _ d3], rule exI [of _ m3], rule exI [of _ bv3], rule exI [of _ bl])
         (use i 1(2,3,4,8,11) G(1) d same ex f2(5,6) in simp)
  next
    case (2 d3 m3 bv3 bl)
    have i: "dir_insert now junk name inum dir m = Some (ENOSPC, d3, m3)" using ins 2(1) by simp
    have same: "fs_blk bs m3 b = fs_blk bs m b" if "fs_has m b" "num_bitmap_blocks m < b" for b
      using 2(8) that same_blksD [OF n(4) that(1)] inode_place_cong [OF S(1)] S(4) by simp
    have ex: "exact_map bv m \<longrightarrow> \<not> bcount m (int (length (dents_bytes es) + MDE_SIZE (length name))) -
        bcount m (int (length (dents_bytes es))) \<le> num_blocks (dsb m) - used_blocks (dsb m)"
      using 2(9) unfolding B G S(1) by linarith
    show ?thesis
      by (rule exI [of _ ENOSPC], rule exI [of _ d3], rule exI [of _ m3], rule exI [of _ bv3], rule exI [of _ bl])
         (use i 2(2,3,4) G(1) same ex in simp)
  qed
qed

section \<open>Removing\<close>

lemma c_bytes_inj: "c_bytes s = c_bytes t \<longleftrightarrow> s = t"
proof -
  have "inj (\<lambda>c. word_of_nat (of_char c) :: byte)"
  proof (rule injI)
    fix a b assume "(word_of_nat (of_char a) :: byte) = word_of_nat (of_char b)"
    then have "unat (word_of_nat (of_char a) :: byte) = unat (word_of_nat (of_char b) :: byte)" by simp
    then show "a = b" by (simp add: unat_of_nat)
  qed
  then show ?thesis by (simp add: c_bytes_def inj_map_eq_map)
qed

lemma dents_nonempty: "list_all dent_ok es \<Longrightarrow> es \<noteq> [] \<Longrightarrow> dents_bytes es \<noteq> []"
proof
  assume "list_all dent_ok es" "es \<noteq> []" and no: "dents_bytes es = []"
  then obtain e fs where e: "es = e # fs" "dent_ok e" by (cases es) auto
  then have "length (dent_bytes e) = 0" using no by simp
  then show False using dent_length [OF e(2)] MDE_SIZE_facts(2) [of "length (fst e)"] by simp
qed

text \<open>The list without the first entry with a name.\<close>

fun del_dent :: "byte list \<Rightarrow> dent list \<Rightarrow> dent list" where
  "del_dent name [] = []"
| "del_dent name (e # es) = (if fst e = name then es else e # del_dent name es)"

lemma del_dent_split: "name \<notin> fst ` set us \<Longrightarrow> fst e = name \<Longrightarrow> del_dent name (us @ e # vs) = us @ vs"
  by (induction us) auto

text \<open>Moving the entries behind the one that goes over it.\<close>

lemma move_down:
  assumes "length es = n" "length xs = k"
  shows "take (length us + k) (overwrite (us @ es @ xs) (length us) (at (us @ es @ xs) (length us + n) k)) = us @ (xs :: byte list)"
  using assms by (simp add: overwrite_def at_def)

text \<open>Writing fewer bytes over the beginning of a file and cutting it there.\<close>

lemma rewrite_shorter:
  assumes ok: "fs_ok bs m" and sp: "0 < spare m" and mo: "map_ok bs bv m" and sm: "sb_mem m" and fo: "file_ok bs bv m mi"
    and df: "direct_file m (stream_blocks bs m mi) mi" and us: "0 \<le> used_blocks (dsb m)" "used_blocks (dsb m) \<le> num_blocks (dsb m)"
    and ty: "inode_typed (mi\<lparr>last_modified_time := now\<rparr>)" and sz: "ds_size (i_data mi) \<le> MAX_DIRECT_RANGE (bsize_of m)"
    and buf: "buf \<noteq> []" "int (length buf) < ds_size (i_data mi)" "8 dvd length buf"
  obtains m1 mi2 m2 bv' where
    "myfs_write_data_stream now mi 0 buf m = Some (0, length buf, mi\<lparr>last_modified_time := now\<rparr>, m1)"
    "myfs_set_file_size now (int (length buf)) (mi\<lparr>last_modified_time := now\<rparr>) m1 = Some (0, mi2, m2)"
    "fs_ok bs m2" "map_ok bs bv' m2" "file_ok bs bv' m2 mi2" "file_bytes bs m2 mi2 = buf" "etc mi2 = etc mi"
    "used_bits bv' = used_bits bv - nat ` set (drop (nblks m mi2) (stream_blocks bs m mi))"
    "used_blocks (dsb m2) = used_blocks (dsb m) - int (length (drop (nblks m mi2) (stream_blocks bs m mi)))"
    "stream_blocks bs m2 mi2 = take (nblks m mi2) (stream_blocks bs m mi)" "inode_at bs m2 (inode_num mi) = inode_bytes mi2"
    "\<forall>b. fs_has m b \<longrightarrow> num_bitmap_blocks m < b \<longrightarrow> b \<notin> set (stream_blocks bs m mi) \<longrightarrow> b \<noteq> inode_block m (inode_num mi) \<longrightarrow>
       fs_blk bs m2 b = fs_blk bs m b"
proof -
  note F = file_okD [OF fo]
  let ?mi = "mi\<lparr>last_modified_time := now\<rparr>" and ?A = "insert (inode_block m (inode_num mi)) (set (stream_blocks bs m mi))"
  have p: "0 \<le> (0 :: int)" "0 + int (length buf) \<le> ds_size (i_data mi)" using buf(2) by simp_all
  obtain m1 where w: "myfs_write_data_stream now mi 0 buf m = Some (0, length buf, ?mi, m1)" "fs_step bs m m1"
    "file_bytes bs m1 mi = overwrite (file_bytes bs m mi) (nat 0) buf" "same_blks bs ?A m m1"
    by (rule write_good [OF ok sp F(1-3) ty p(1) buf(1) p(2)]) (rule that, assumption+)
  note S = fs_stepD [OF w(2)] and mv = fs_step_is_move [OF w(2)]
  have ok1: "fs_ok bs m1" by (rule fs_step_ok [OF w(2) ok])
  have mo1: "map_ok bs bv m1" by (rule map_ok_keep [OF mo mv w(4)]) (use F(4,6) S(3) in force)+
  have ind: "MAX_DIRECT_RANGE (bsize_of m) < ds_size (i_data mi) \<longrightarrow> indirect (i_data mi) \<notin> ?A" using sz by simp
  note K = file_ok_keep [OF ok fo mv w(4) ind]
  have f1: "file_ok bs bv m1 ?mi" "direct_file m1 (stream_blocks bs m1 ?mi) ?mi" "ds_size (i_data ?mi) \<le> MAX_DIRECT_RANGE (bsize_of m1)"
    "inode_typed (?mi\<lparr>last_modified_time := now\<rparr>)" "sb_mem m1" "0 < spare m1"
    "0 \<le> used_blocks (dsb m1)" "used_blocks (dsb m1) \<le> num_blocks (dsb m1)"
    using K(1,2) df sz ty sm sp us S(1,2,4,10) by (simp_all add: stamp_file direct_file_def sb_mem_def)
  have "8 dvd bsize_of m1" using ok1 by (auto simp: fs_ok_def)
  moreover have "8 dvd int (length buf)" using buf(3) by presburger
  ultimately have "8 dvd int (length buf) mod bsize_of m1" by (rule dvd_mod [rotated])
  then have "int (length buf) mod bsize_of m1 \<noteq> 1" by auto
  with truncate_good [OF ok1 f1(6) mo1 f1(5,1,2,7,8,4), of "int (length buf)"] buf(2) f1(3)
  obtain mi2 m2 bv' where r: "myfs_set_file_size now (int (length buf)) ?mi m1 = Some (0, mi2, m2)" "fs_ok bs m2" "map_ok bs bv' m2"
    "file_ok bs bv' m2 mi2" "etc mi2 = etc ?mi" "file_bytes bs m2 mi2 = take (nat (int (length buf))) (file_bytes bs m1 ?mi)"
    "used_bits bv' = used_bits bv - nat ` set (drop (nblks m1 mi2) (stream_blocks bs m1 ?mi))"
    "used_blocks (dsb m2) = used_blocks (dsb m1) - int (length (drop (nblks m1 mi2) (stream_blocks bs m1 ?mi)))"
    "stream_blocks bs m2 mi2 = take (nblks m1 mi2) (stream_blocks bs m1 ?mi)" "inode_at bs m2 (inode_num ?mi) = inode_bytes mi2"
    "\<forall>b. fs_has m1 b \<longrightarrow> num_bitmap_blocks m1 < b \<longrightarrow> b \<noteq> inode_block m1 (inode_num ?mi) \<longrightarrow> fs_blk bs m2 b = fs_blk bs m1 b"
    by (elim meta_impE exE conjE) (simp, simp, simp, simp, rule that, assumption+)
  have "file_bytes bs m1 ?mi = file_bytes bs m1 mi" by simp
  then have fb: "file_bytes bs m2 mi2 = buf" using r(6) w(3) by (simp add: overwrite_def)
  have c: "stream_blocks bs m1 ?mi = stream_blocks bs m mi" "nblks m1 mi2 = nblks m mi2" "inode_num ?mi = inode_num mi"
    "used_blocks (dsb m1) = used_blocks (dsb m)" "etc ?mi = etc mi"
    using K(2) S(1) by (simp_all add: stamp_file nblks_def)
  have same: "fs_blk bs m2 b = fs_blk bs m b" if "fs_has m b" "num_bitmap_blocks m < b" "b \<notin> set (stream_blocks bs m mi)"
    "b \<noteq> inode_block m (inode_num mi)" for b
    using r(11) same_blksD [OF w(4) that(1)] that S(4) inode_place_cong [OF S(1)] by simp
  show thesis by (rule that [OF w(1) r(1-4) fb r(5,7-10) [unfolded c]]) (use same in blast)
qed

text \<open>Claim C6: \<open>dir_delete\<close> takes the first entry with the name out of a directory whose blocks are all direct blocks, in memory,
  in the bytes of its file and in its stored inode; the directory keeps its first blocks, and exactly the ones it no longer
  needs are given back, in the map in memory and on the disk and in the count of used blocks; no block changes that belongs neither to the directory nor to
  its inode or the map.  Without such an entry it returns \<open>ENOENT\<close>, for the names of the directory itself and its parent
  \<open>EINVAL\<close>, and no block changes.\<close>

theorem dir_delete_removes:
  assumes "fs_ok bs m" "0 < spare m" "heap_ok (tmp m)" "map_ok bs bv m" "quiet bs m" "sb_mem m"
    and "0 \<le> used_blocks (dsb m)" "used_blocks (dsb m) \<le> num_blocks (dsb m)" "dir_ok bs bv m dir es"
    and "direct_file m (stream_blocks bs m dir) dir" "ds_size (i_data dir) \<le> MAX_DIRECT_RANGE (bsize_of m)"
    and "inode_typed (dir\<lparr>last_modified_time := now\<rparr>)" "0 \<notin> set (c_bytes name)" "c_bytes ''.'' \<in> fst ` set es"
  shows "\<exists>ret dir' m' bv'. dir_delete now name dir m = Some (ret, dir', m') \<and> fs_ok bs m' \<and> map_ok bs bv' m' \<and>
    (if name = ''.'' \<or> name = ''..'' then ret = EINVAL \<and> dir' = dir \<and> m' = m
     else if dents_map es (c_bytes name) = None then ret = ENOENT \<and> dir_ok bs bv' m' dir' es \<and> bv' = bv \<and> dsb m' = dsb m \<and>
       (\<forall>b. fs_has m b \<longrightarrow> fs_blk bs m' b = fs_blk bs m b)
     else ret = 0 \<and> dir_ok bs bv' m' dir' (del_dent (c_bytes name) es) \<and>
       used_bits bv' = used_bits bv - nat ` set (drop (nblks m dir') (stream_blocks bs m dir)) \<and>
       used_blocks (dsb m') = used_blocks (dsb m) - int (length (drop (nblks m dir') (stream_blocks bs m dir))) \<and>
       stream_blocks bs m' dir' = take (nblks m dir') (stream_blocks bs m dir) \<and> inode_at bs m' (inode_num dir) = inode_bytes dir' \<and>
       (\<forall>b. fs_has m b \<longrightarrow> num_bitmap_blocks m < b \<longrightarrow> b \<notin> set (stream_blocks bs m dir) \<longrightarrow> b \<noteq> inode_block m (inode_num dir) \<longrightarrow>
          fs_blk bs m' b = fs_blk bs m b))"
proof (cases "name = ''.'' \<or> name = ''..''")
  case True
  then have "dir_delete now name dir m = Some (EINVAL, dir, m)" by (auto simp: dir_delete_def)
  with True assms(1,4) show ?thesis by auto
next
  case nd: False
  obtain e m1 where n: "need_contents dir m = Some (0, dir\<lparr>etc := Some e\<rparr>, m1)" "contents e = Some (dents_bytes es)"
    "fs_step bs m m1" "same_blks bs {} m m1" "dir_ok bs bv m1 (dir\<lparr>etc := Some e\<rparr>) es"
    by (rule need_contents_good [OF assms(1-3,9)])
  note S = fs_stepD [OF n(3)] and K = step_keeps [OF n(3,4) assms(4-6)] and D = dir_okD [OF assms(9)]
  have ok1: "fs_ok bs m1" by (rule fs_step_ok [OF n(3) assms(1)])
  have sz: "ds_size (i_data dir) = int (length (dents_bytes es))" by (rule dir_size [OF assms(1,9)])
  note fm = find_mde_dents [OF D(4) assms(13)]
  show ?thesis
  proof (cases "dent_pos (c_bytes name) es")
    case None
    then have "dents_map es (c_bytes name) = None" by (simp add: dents_map_None dent_pos_None)
    moreover have "dir_delete now name dir m = Some (ENOENT, dir\<lparr>etc := Some e\<rparr>, m1)"
      using nd n(1,2) fm None sz by (simp add: dir_delete_def)
    moreover have "\<forall>b. fs_has m b \<longrightarrow> fs_blk bs m1 b = fs_blk bs m b" using n(4) by (simp add: same_blks_def)
    ultimately show ?thesis using nd ok1 K(1) n(5) S(1)
      by (intro exI [of _ ENOENT] exI [of _ "dir\<lparr>etc := Some e\<rparr>"] exI [of _ m1] exI [of _ bv]) simp
  next
    case (Some p)
    obtain us x vs where s: "es = us @ x # vs" "fst x = c_bytes name" "c_bytes name \<notin> fst ` set us" "p = length (dents_bytes us)"
      by (rule dent_pos_split [OF Some])
    have x: "dent_ok x" "list_all dent_ok (us @ vs)" using D(4) s(1) by simp_all
    let ?buf = "dents_bytes (us @ vs)" and ?sz = "MDE_SIZE (length (fst x))"
    have len: "length (dents_bytes es) = length ?buf + ?sz" "0 < ?sz" "length (dent_bytes x) = ?sz"
      using dent_length [OF x(1)] MDE_SIZE_facts(2) [of "length (fst x)"] s(1) by simp_all
    have nl: "mde_name_len (dents_bytes es) p = Some (length (fst x))"
      using mde_fields(2) [OF x(1) s(4) [symmetric], of "dents_bytes vs"] s(1) by simp
    have "list_all dent_ok us" using x(2) by simp
    then have nx: "NEXT_MDE p (length (fst x)) = p + ?sz" using NEXT_MDE_aligned dents_aligned s(4) by blast
    have "c_bytes ''.'' \<noteq> c_bytes name" using nd by (auto simp: c_bytes_inj)
    then have "us @ vs \<noteq> []" using assms(14) s(1,2) by auto
    then have ne: "?buf \<noteq> []" by (rule dents_nonempty [OF x(2)])
    define e' where "e' = e\<lparr>contents := Some ?buf, counter := counter e + 1\<rparr>"
    define d3 where "d3 = dir\<lparr>etc := Some e'\<rparr>"
    have f3: "file_ok bs bv m1 d3" "stream_blocks bs m1 d3 = stream_blocks bs m dir" "i_data d3 = i_data dir"
      using dir_okD(1) [OF n(5)] file_ok_keep(2) [OF assms(1) D(1) fs_step_is_move [OF n(3)] n(4)] by (simp_all add: d3_def)
    have h: "0 < spare m1" "direct_file m1 (stream_blocks bs m1 d3) d3" "0 \<le> used_blocks (dsb m1)"
      "used_blocks (dsb m1) \<le> num_blocks (dsb m1)" "inode_typed (d3\<lparr>last_modified_time := now\<rparr>)"
      "ds_size (i_data d3) \<le> MAX_DIRECT_RANGE (bsize_of m1)" "int (length ?buf) < ds_size (i_data d3)"
      using assms(2,7,8,10,11,12) sz len(1,2) S(1,4,10) f3(2,3) by (simp_all add: direct_file_def d3_def inode_typed_def)
    obtain m2 mi2 m3 bv' where w:
      "myfs_write_data_stream now d3 0 ?buf m1 = Some (0, length ?buf, d3\<lparr>last_modified_time := now\<rparr>, m2)"
      "myfs_set_file_size now (int (length ?buf)) (d3\<lparr>last_modified_time := now\<rparr>) m2 = Some (0, mi2, m3)"
      "fs_ok bs m3" "map_ok bs bv' m3" "file_ok bs bv' m3 mi2" "file_bytes bs m3 mi2 = ?buf" "etc mi2 = etc d3"
      "used_bits bv' = used_bits bv - nat ` set (drop (nblks m1 mi2) (stream_blocks bs m1 d3))"
      "used_blocks (dsb m3) = used_blocks (dsb m1) - int (length (drop (nblks m1 mi2) (stream_blocks bs m1 d3)))"
      "stream_blocks bs m3 mi2 = take (nblks m1 mi2) (stream_blocks bs m1 d3)" "inode_at bs m3 (inode_num d3) = inode_bytes mi2"
      "\<forall>b. fs_has m1 b \<longrightarrow> num_bitmap_blocks m1 < b \<longrightarrow> b \<notin> set (stream_blocks bs m1 d3) \<longrightarrow> b \<noteq> inode_block m1 (inode_num d3) \<longrightarrow>
         fs_blk bs m3 b = fs_blk bs m1 b"
      by (rule rewrite_shorter [OF ok1 h(1) K(1,3) f3(1) h(2-6) ne h(7) dents_aligned [OF x(2)]])
    define b1 where "b1 = (if p + ?sz < length (dents_bytes es)
      then overwrite (dents_bytes es) p (at (dents_bytes es) (p + ?sz) (length (dents_bytes es) - (p + ?sz))) else dents_bytes es)"
    have b1: "fill (length ?buf) b1 = ?buf"
    proof (cases "p + ?sz < length (dents_bytes es)")
      case True
      have "take (length (dents_bytes us) + length (dents_bytes vs)) b1 = dents_bytes us @ dents_bytes vs"
        using move_down [OF len(3) refl, of "dents_bytes us" "dents_bytes vs"] True s(1,4) len(3) by (simp add: b1_def)
      then show ?thesis using True len by (simp add: b1_def fill_def overwrite_def)
    next
      case False
      then have "dents_bytes vs = []" using s(1,4) len(3) by simp
      then show ?thesis using False s(1) by (simp add: b1_def fill_def)
    qed
    have dd: "dir_delete now name dir m = Some (0, mi2, m3)"
    proof -
      define L B Z where "L = dents_bytes es" and "B = ?buf" and "Z = ?sz"
      have z: "p + Z - p = Z" "int (length L) - int Z = int (length B)" "0 < length B" "nat (int (length B)) = length B" "\<not> length L < Z"
        using len ne by (simp_all add: L_def B_def Z_def)
      have br: "(if p + Z < length L then if length L < length L then None
           else Some (overwrite L p (at L (p + Z) (length L - (p + Z)))) else Some L) = Some b1"
        by (simp add: b1_def L_def Z_def)
      have d3: "d3 = dir\<lparr>etc := Some (e\<lparr>contents := Some B, counter := counter e + 1\<rparr>)\<rparr>" by (simp add: d3_def e'_def B_def)
      show ?thesis
        unfolding dir_delete_def
        using nd n(1,2) assms(3) fm Some sz nl nx S(8) w(1,2) b1 z(3)
        unfolding L_def [symmetric] B_def [symmetric] Z_def [symmetric] d3
        by (simp add: z br)
    qed
    have do: "dir_ok bs bv' m3 mi2 (us @ vs)" using w(5-7) x(2) by (simp add: dir_ok_def d3_def e'_def)
    have l: "dents_map es (c_bytes name) \<noteq> None" "del_dent (c_bytes name) es = us @ vs"
      using dents_map_split [OF s(3,2)] del_dent_split [OF s(3,2)] s(1) by simp_all
    have c: "nblks m1 mi2 = nblks m mi2" "used_blocks (dsb m1) = used_blocks (dsb m)" "inode_num d3 = inode_num dir"
      using S(1) by (simp_all add: nblks_def d3_def)
    have same: "fs_blk bs m3 b = fs_blk bs m b" if "fs_has m b" "num_bitmap_blocks m < b" "b \<notin> set (stream_blocks bs m dir)"
      "b \<noteq> inode_block m (inode_num dir)" for b
      using w(12) same_blksD [OF n(4) that(1)] that S(4) inode_place_cong [OF S(1)] f3(2) c(3) by simp
    show ?thesis
      by (rule exI [of _ 0], rule exI [of _ mi2], rule exI [of _ m3], rule exI [of _ bv'], unfold if_not_P [OF nd] if_not_P [OF l(1)] l(2))
         (intro conjI dd w(3,4) refl do w(8-11) [unfolded c f3(2)] allI impI [OF impI [OF impI [OF impI [OF same]]]])
  qed
qed

section \<open>An example\<close>

text \<open>The example file system with a directory in block 10 that has one file besides its own two entries.\<close>

definition demo_dents :: "dent list" where
  "demo_dents = [(c_bytes ''.'', 5, []), (c_bytes ''..'', 5, []), (c_bytes ''a'', 7, [])]"

definition demo_dir :: myfs_inode where
  "demo_dir = demo_file\<lparr>i_mode := MY_S_IFDIR, etc := fresh_etc True, last_modified_time := 7,
     i_data := \<lparr>direct = [10, 0, 0, 0, 0, 0], indirect = 0, double_indirect = 0, ds_size = 48\<rparr>\<rparr>"

definition demo_dfs :: myfs_info where
  "demo_dfs = snd (snd (snd (the (myfs_write_data_stream 7 demo_dir 0 (dents_bytes demo_dents) demo_mfs))))"

lemma demo_dents_facts:
  "list_all dent_ok demo_dents" "length (dents_bytes demo_dents) = 48" "c_bytes ''.'' \<in> fst ` set demo_dents"
  "dents_map demo_dents (c_bytes ''a'') = Some 7"
proof -
  show "list_all dent_ok demo_dents" by (simp add: demo_dents_def dent_ok_def c_bytes_def fits_s_def)
  then have "length (dents_bytes demo_dents) = (\<Sum>e \<leftarrow> demo_dents. MDE_SIZE (length (fst e)))"
    by (simp add: demo_dents_def dent_length)
  then show "length (dents_bytes demo_dents) = 48" by (simp add: demo_dents_def MDE_SIZE_def NEXT_MDE_def c_bytes_def)
  show "c_bytes ''.'' \<in> fst ` set demo_dents" by (simp add: demo_dents_def)
  show "dents_map demo_dents (c_bytes ''a'') = Some 7" by (simp add: demo_dents_def dents_map_def c_bytes_inj)
qed

lemma demo_dir_ok:
  "fs_ok demo_bs demo_dfs" "0 < spare demo_dfs" "heap_ok (tmp demo_dfs)" "map_ok demo_bs demo_map demo_dfs" "quiet demo_bs demo_dfs"
  "sb_mem demo_dfs" "0 \<le> used_blocks (dsb demo_dfs)" "used_blocks (dsb demo_dfs) \<le> num_blocks (dsb demo_dfs)"
  "dir_ok demo_bs demo_map demo_dfs demo_dir demo_dents" "direct_file demo_dfs (stream_blocks demo_bs demo_dfs demo_dir) demo_dir"
  "nblks demo_dfs demo_dir = 1" "bsize_of demo_dfs = 512" "exact_map demo_map demo_dfs" "num_blocks (dsb demo_dfs) = 64"
  "used_blocks (dsb demo_dfs) = 12" "stream_blocks demo_bs demo_dfs demo_dir = [10]"
proof -
  have i: "i_data demo_dir = \<lparr>direct = [10, 0, 0, 0, 0, 0], indirect = 0, double_indirect = 0, ds_size = 48\<rparr>" "inode_num demo_dir = 5"
    by (simp_all add: demo_dir_def demo_file_def)
  have ty: "inode_typed (demo_dir\<lparr>last_modified_time := 7\<rparr>)"
    by (simp add: demo_dir_def demo_file_def inode_typed_def fits_s_def INODE_MAGIC1_def NUM_DIRECT_BLOCKS_def MY_S_IFDIR_def)
  have n: "nblks demo_mfs demo_dir = 1" by (simp add: nblks_def demo_mfs_facts i)
  have nb: "nth_block demo_bs demo_mfs demo_dir 0 = 10" by (simp add: nth_block_def NUM_DIRECT_BLOCKS_def i)
  have q: "\<not> loose demo_bs demo_mfs b" if "fs_has demo_mfs b" for b using demo_mfs_facts(3) that by (simp add: quiet_def)
  have so: "stream_ok demo_bs demo_mfs demo_dir"
    unfolding stream_ok_def n using nb q
    by (simp add: demo_mfs_facts MAX_INDIRECT_RANGE_def MAX_DIRECT_RANGE_def NUM_DIRECT_BLOCKS_def usable_def fs_has_def i)
  have bl: "stream_blocks demo_bs demo_mfs demo_dir = [10]" using nb by (simp add: stream_blocks_def n)
  have "inode_block demo_mfs 5 = 4" using inode_place(1) [OF demo_mfs_facts(1,10), of 5] by (simp add: demo_mfs_facts)
  then have fo: "file_ok demo_bs demo_map demo_mfs demo_dir"
    using so by (simp add: file_ok_def stream_apart_def inode_clear_def bl demo_mfs_facts i demo_map_ok MAX_DIRECT_RANGE_def NUM_DIRECT_BLOCKS_def)
  have fb: "length (file_bytes demo_bs demo_mfs demo_dir) = 48" using file_bytes_length [OF demo_mfs_facts(1) so] by (simp add: i)
  note F = file_okD [OF fo]
  let ?A = "insert (inode_block demo_mfs (inode_num demo_dir)) (set (stream_blocks demo_bs demo_mfs demo_dir))"
  have nz: "dents_bytes demo_dents \<noteq> []" "0 + int (length (dents_bytes demo_dents)) \<le> ds_size (i_data demo_dir)" "0 \<le> (0::int)"
    using demo_dents_facts(2) by (auto simp: i)
  obtain m where w: "myfs_write_data_stream 7 demo_dir 0 (dents_bytes demo_dents) demo_mfs =
      Some (0, length (dents_bytes demo_dents), demo_dir\<lparr>last_modified_time := 7\<rparr>, m)" "fs_step demo_bs demo_mfs m"
    "file_bytes demo_bs m demo_dir = overwrite (file_bytes demo_bs demo_mfs demo_dir) (nat 0) (dents_bytes demo_dents)"
    "same_blks demo_bs ?A demo_mfs m"
    by (rule write_good [OF demo_mfs_facts(1) demo_used(3) F(1-3) ty nz(3,1,2)]) (rule that, assumption+)
  have m: "demo_dfs = m" using w(1) by (simp add: demo_dfs_def)
  note S = fs_stepD [OF w(2)] and mv = fs_step_is_move [OF w(2)]
  show "fs_ok demo_bs demo_dfs" unfolding m by (rule fs_step_ok [OF w(2) demo_mfs_facts(1)])
  show "0 < spare demo_dfs" "heap_ok (tmp demo_dfs)" "sb_mem demo_dfs" "0 \<le> used_blocks (dsb demo_dfs)"
    "used_blocks (dsb demo_dfs) \<le> num_blocks (dsb demo_dfs)" "bsize_of demo_dfs = 512"
    using demo_used(1-3) demo_mfs_facts(4,5,13) S(1,2,8,10) by (simp_all add: m sb_mem_def)
  show "quiet demo_bs demo_dfs" unfolding m by (rule quiet_move [OF mv demo_mfs_facts(3)])
  show "map_ok demo_bs demo_map demo_dfs"
    unfolding m by (rule map_ok_keep [OF demo_map_ok(1) mv w(4)]) (use F(4,6) S(3) in force)+
  have ind: "MAX_DIRECT_RANGE (bsize_of demo_mfs) < ds_size (i_data demo_dir) \<longrightarrow> indirect (i_data demo_dir) \<notin> ?A"
    by (simp add: i demo_mfs_facts MAX_DIRECT_RANGE_def NUM_DIRECT_BLOCKS_def)
  note K = file_ok_keep [OF demo_mfs_facts(1) fo mv w(4) ind]
  have "file_bytes demo_bs m demo_dir = dents_bytes demo_dents" using w(3) fb demo_dents_facts(2) by (simp add: overwrite_def)
  moreover have "\<exists>e. etc demo_dir = Some e \<and> contents e = None"
    by (simp add: demo_dir_def fresh_etc_def new_lock_def create_sem_def)
  ultimately show "dir_ok demo_bs demo_map demo_dfs demo_dir demo_dents"
    using K(1) demo_dents_facts(1) unfolding dir_ok_def m by blast
  show "direct_file demo_dfs (stream_blocks demo_bs demo_dfs demo_dir) demo_dir"
    unfolding m K(2) bl by (simp add: direct_file_def i NUM_DIRECT_BLOCKS_def demo_mfs_facts S(1,4) numeral_eq_Suc)
  show "nblks demo_dfs demo_dir = 1" using n S(1) by (simp add: nblks_def m)
  show "num_blocks (dsb demo_dfs) = 64" "used_blocks (dsb demo_dfs) = 12" "exact_map demo_map demo_dfs"
    using demo_exact S(1) by (simp_all add: m demo_mfs_facts exact_map_def)
  show "stream_blocks demo_bs demo_dfs demo_dir = [10]" unfolding m K(2) bl ..
qed

theorem dir_lookup_refines_witness:
  "\<exists>dir m. dir_lookup ''a'' demo_dir demo_dfs = Some (0, 7, dir, m) \<and> dir_ok demo_bs demo_map m dir demo_dents"
proof -
  have "0 \<notin> set (c_bytes ''a'')" by (simp add: c_bytes_def)
  from dir_lookup_refines [OF demo_dir_ok(1-3,9) this] demo_dents_facts(4) show ?thesis by auto
qed

lemma demo_dir_typed: "inode_typed (demo_dir\<lparr>last_modified_time := 7\<rparr>)"
  by (simp add: demo_dir_def demo_file_def inode_typed_def fits_s_def INODE_MAGIC1_def NUM_DIRECT_BLOCKS_def MY_S_IFDIR_def)

theorem dir_insert_appends_witness:
  "\<exists>dir m bv. dir_insert 7 [] ''file'' 9 demo_dir demo_dfs = Some (0, dir, m) \<and> map_ok demo_bs bv m \<and>
     dir_ok demo_bs bv m dir (demo_dents @ [(c_bytes ''file'', 9, [])]) \<and> inode_at demo_bs m 5 = inode_bytes dir"
proof -
  have p: "dent_ok (c_bytes ''file'', 9, [])" "length ''file'' < FILE_NAME_LENGTH - 1" "inode_num demo_dir = 5"
    by (simp_all add: dent_ok_def c_bytes_def fits_s_def FILE_NAME_LENGTH_def demo_dir_def demo_file_def)
  have z: "nblks demo_dfs demo_dir < NUM_DIRECT_BLOCKS \<longrightarrow> direct (i_data demo_dir) ! nblks demo_dfs demo_dir = 0"
    unfolding demo_dir_ok(11) by (simp add: demo_dir_def)
  have l: "int (length (dents_bytes demo_dents) + MDE_SIZE (length ''file'')) \<le> MAX_DIRECT_RANGE (bsize_of demo_dfs)"
    by (simp add: demo_dents_facts demo_dir_ok(12) MDE_SIZE_def NEXT_MDE_def MAX_DIRECT_RANGE_def NUM_DIRECT_BLOCKS_def)
  have n: "bcount demo_dfs (int (length (dents_bytes demo_dents) + MDE_SIZE (length ''file''))) -
      bcount demo_dfs (int (length (dents_bytes demo_dents))) \<le> num_blocks (dsb demo_dfs) - used_blocks (dsb demo_dfs)"
    by (simp add: bcount_def demo_dents_facts demo_dir_ok(12,14,15) MDE_SIZE_def NEXT_MDE_def)
  show ?thesis
    using dir_insert_appends [OF demo_dir_ok(1-9) z demo_dir_typed p(1,2) l]
  proof (elim exE conjE)
    fix ret dir m bv bl
    assume r: "dir_insert 7 [] ''file'' 9 demo_dir demo_dfs = Some (ret, dir, m)" "map_ok demo_bs bv m"
      "exact_map demo_map demo_dfs \<longrightarrow> (ret = 0 \<longleftrightarrow> bcount demo_dfs (int (length (dents_bytes demo_dents) + MDE_SIZE (length ''file''))) -
        bcount demo_dfs (int (length (dents_bytes demo_dents))) \<le> num_blocks (dsb demo_dfs) - used_blocks (dsb demo_dfs))"
      "if ret = 0 then dir_ok demo_bs bv m dir (demo_dents @ [(c_bytes ''file'', 9, [])]) \<and>
        stream_blocks demo_bs m dir = stream_blocks demo_bs demo_dfs demo_dir @ bl \<and> inode_at demo_bs m (inode_num demo_dir) = inode_bytes dir
       else ret = ENOSPC"
    have "ret = 0" using r(3) demo_dir_ok(13) n by blast
    then show ?thesis using r(1,2,4) p(3) by (intro exI [of _ dir] exI [of _ m] exI [of _ bv]) simp
  qed
qed

theorem dir_delete_removes_witness:
  "\<exists>dir m bv. dir_delete 7 ''a'' demo_dir demo_dfs = Some (0, dir, m) \<and> map_ok demo_bs bv m \<and>
     dir_ok demo_bs bv m dir (take 2 demo_dents) \<and> inode_at demo_bs m 5 = inode_bytes dir"
proof -
  have p: "0 \<notin> set (c_bytes ''a'')" "inode_num demo_dir = 5" "\<not> (''a'' = ''.'' \<or> ''a'' = ''..'')"
    by (simp_all add: c_bytes_def demo_dir_def demo_file_def)
  have sz: "ds_size (i_data demo_dir) \<le> MAX_DIRECT_RANGE (bsize_of demo_dfs)"
    by (simp add: demo_dir_ok(12) demo_dir_def MAX_DIRECT_RANGE_def NUM_DIRECT_BLOCKS_def)
  have "del_dent (c_bytes ''a'') demo_dents = take 2 demo_dents" "dents_map demo_dents (c_bytes ''a'') \<noteq> None"
    using demo_dents_facts(4) by (simp_all add: demo_dents_def c_bytes_inj)
  then show ?thesis
    using dir_delete_removes [OF demo_dir_ok(1-10) sz demo_dir_typed p(1) demo_dents_facts(3)] p(2,3) by (elim exE conjE) auto
qed

section \<open>What the checks miss\<close>

text \<open>Claim C39: the test of \<open>myfs_rmdir\<close> whether a directory is empty compares its size with 48 bytes, but the entries of the
  directory itself and its parent take 32: a directory passes for empty exactly when it is, or when it has one more
  entry with a name of at most six characters.\<close>

theorem looks_empty_iff:
  assumes "list_all dent_ok es" "es = [dot, dotdot] @ fs" "fst dot = c_bytes ''.''" "fst dotdot = c_bytes ''..''"
    and "ds_size (i_data mi) = int (length (dents_bytes es))" "int (length (dents_bytes es)) < 2 ^ 63"
  shows "looks_empty mi \<longleftrightarrow> fs = [] \<or> (\<exists>f. fs = [f] \<and> length (fst f) \<le> 6)"
proof -
  have l: "length (dent_bytes e) = MDE_SIZE (length (fst e))" if "e \<in> set es" for e
    using dent_length assms(1) that by (simp add: list_all_iff)
  have "length (dents_bytes es) = 32 + length (dents_bytes fs)"
    using l assms(2-4) by (simp add: MDE_SIZE_def NEXT_MDE_def c_bytes_def)
  moreover from this have "take_bit 64 (32 + int (length (dents_bytes fs))) = 32 + int (length (dents_bytes fs))"
    using assms(6) by (intro take_bit_int_eq_self) simp_all
  ultimately have e: "looks_empty mi \<longleftrightarrow> length (dents_bytes fs) \<le> 16"
    using assms(5) by (simp add: looks_empty_def MKDIR_BUFSIZE_def sizeof_myfs_dirent_def) linarith
  have six: "MDE_SIZE n \<le> 16 \<longleftrightarrow> n \<le> 6" for n unfolding MDE_SIZE_def NEXT_MDE_def by presburger
  have ten: "16 \<le> MDE_SIZE n" for n unfolding MDE_SIZE_def NEXT_MDE_def by presburger
  show ?thesis
  proof (cases fs)
    case Nil
    then show ?thesis using e by simp
  next
    case (Cons f gs)
    have f: "length (dent_bytes f) = MDE_SIZE (length (fst f))" using l assms(2) Cons by simp
    show ?thesis
    proof (cases gs)
      case Nil
      then show ?thesis using e f six Cons by simp
    next
      case (Cons g hs)
      then have "length (dent_bytes g) = MDE_SIZE (length (fst g))" using l assms(2) \<open>fs = f # gs\<close> by simp
      then show ?thesis using e f ten [of "length (fst f)"] ten [of "length (fst g)"] Cons \<open>fs = f # gs\<close> by simp
    qed
  qed
qed

theorem looks_empty_iff_witness: "looks_empty demo_dir \<and> length demo_dents = 3"
proof -
  have "demo_dents = [(c_bytes ''.'', 5, []), (c_bytes ''..'', 5, [])] @ [(c_bytes ''a'', 7, [])]" by (simp add: demo_dents_def)
  moreover have "ds_size (i_data demo_dir) = int (length (dents_bytes demo_dents))" "int (length (dents_bytes demo_dents)) < 2 ^ 63"
    by (simp_all add: demo_dents_facts demo_dir_def)
  ultimately have "looks_empty demo_dir \<longleftrightarrow>
      [(c_bytes ''a'', 7, [])] = [] \<or> (\<exists>f. [(c_bytes ''a'', 7, [])] = [f :: dent] \<and> length (fst f) \<le> 6)"
    using looks_empty_iff [OF demo_dents_facts(1)] by simp
  then show ?thesis by (simp add: c_bytes_def demo_dents_def)
qed

text \<open>Claim C40: \<open>read_super_block\<close> takes 1024 bytes for the block size of the device, and \<open>super_block_is_sane\<close> asks that the block size
  is a multiple of it: a file system with blocks of 512 bytes, the size \<open>myfs_create_fs\<close> chooses for every smaller one, is never mounted.\<close>

theorem mount_refuses_512:
  assumes "heap_ok t" "0 \<le> fd"
    and "read_super_block ((zero_myfs after t c)\<lparr>myfs_sem := MAX_READERS, myfs_fd := fd\<rparr>) = (0, m1)" "block_size (dsb m1) = 512"
  shows "mount_fs after t fd c = map_option (\<lambda>c1. Inl (EBADF, c1)) (mount_error2 m1)"
proof -
  have "dev_block_size m1 = 1024" using assms(3)
    by (auto simp: read_super_block_def get_device_block_size_def Let_def split: if_splits prod.splits)
  then have "super_block_is_sane m1 = Some (False, m1)" using assms(4) by (simp add: super_block_is_sane_def Let_def)
  then show ?thesis using assms(1-3) by (cases "mount_error2 m1") (simp_all add: mount_fs_def create_sem_def)
qed

definition demo_sdisk :: devices where
  "demo_sdisk = \<lparr>file_of = (\<lambda>_. sb_bytes demo_sb @ replicate 32608 0), io_fault = (\<lambda>_ _. False)\<rparr>"

theorem mount_refuses_512_witness:
  "block_size (sb_of_bytes (file_of demo_sdisk 3)) = 512 \<and>
   (\<forall>m. mount_fs [] (tmp demo_fs) 3 (demo_blocks_on demo_sdisk) \<noteq> Some (Inr m))"
proof -
  have ty: "sb_typed demo_sb" using demo_fs_facts(4) by (simp add: sb_mem_def demo_fs_def)
  have l: "length (sb_bytes demo_sb) = 160" using sb_bytes_length [OF ty] by (simp add: sizeof_super_block_def)
  have g: "good_dev demo_sdisk 3" "length (file_of demo_sdisk 3) = 32768" "\<And>p. \<not> io_fault demo_sdisk 3 p"
    by (simp_all add: good_dev_def demo_sdisk_def l)
  let ?m0 = "(zero_myfs [] (tmp demo_fs) (demo_blocks_on demo_sdisk))\<lparr>myfs_sem := MAX_READERS, myfs_fd := 3\<rparr>"
  have r: "read_pos (devs (cache ?m0)) (myfs_fd ?m0) 0 1024 = (1024, sb_bytes demo_sb @ replicate 864 0)"
    using read_pos_good [OF g(1), of 0 1024] g(2) l
    by (simp add: zero_myfs_def demo_blocks_on_facts(5) [OF g(2,3)] get_bytes_def) (simp add: demo_sdisk_def)
  obtain m1 where m1: "read_super_block ?m0 = (0, m1)" "dsb m1 = demo_sb"
    using r by (simp add: read_super_block_def get_device_block_size_def Let_def zero_myfs_def demo_fs_facts(3) sb_round_trip [OF ty])
  have "block_size (dsb m1) = 512" by (simp add: m1(2) demo_sb_def)
  from mount_refuses_512 [OF demo_fs_facts(3) _ m1(1) this]
  have "mount_fs [] (tmp demo_fs) 3 (demo_blocks_on demo_sdisk) = map_option (\<lambda>c. Inl (EBADF, c)) (mount_error2 m1)" by simp
  then show ?thesis by (auto simp: demo_sdisk_def sb_round_trip [OF ty]) (simp add: demo_sb_def)
qed

end
