(* ===== verification/Argv.thy ===== *)
theory Argv
  imports FS_Prelude "HOL-Library.Sublist"
begin

text \<open>
  \<open>argv.c\<close>: the line a user types into the shell is cut into words in place.  The memory is the list of characters from the
  beginning of the line to the end of its buffer, a pointer into it is an offset, and an access outside does not come
  back.  \<open>build_argv\<close> is shown to be a tokenizer with two kinds of quotes and with escapes.
\<close>

section \<open>Scanning\<close>

definition NUL :: char where "NUL = CHR 0x00"
definition DOUBLE_QUOTE :: char where "DOUBLE_QUOTE = CHR 0x22"
definition SINGLE_QUOTE :: char where "SINGLE_QUOTE = CHR 0x27"
definition BACK_SLASH :: char where "BACK_SLASH = CHR 0x5C"

definition white :: "char \<Rightarrow> bool" where
  "white c \<longleftrightarrow> c = CHR '' '' \<or> c = CHR 0x09 \<or> c = CHR 0x0A"

function skip_space :: "char list \<Rightarrow> nat \<Rightarrow> nat option" where
  "skip_space buf p =
     (if length buf \<le> p then None else if white (buf ! p) then skip_space buf (p + 1) else Some p)"
  by pat_completeness auto

termination
  by (relation "measure (\<lambda>(buf, p). length buf - p)") auto

declare skip_space.simps [simp del]

text \<open>\<open>strcpy(str, str+1)\<close>, copying forwards.\<close>

definition copy_down :: "char list \<Rightarrow> nat \<Rightarrow> char list option" where
  "copy_down buf p =
     (let s = takeWhile (\<lambda>c. c \<noteq> NUL) (drop (p + 1) buf) in
      if length buf \<le> p + 1 + length s then None
      else Some (take p buf @ s @ [NUL] @ drop (p + 1 + length s) buf))"

lemma copy_down_length: "copy_down buf p = Some buf' \<Longrightarrow> length buf' = length buf"
  by (auto simp: copy_down_def Let_def split: if_splits)

text \<open>The three inner loops, which differ in the characters at which they stop.\<close>

function scan_word :: "(char \<Rightarrow> bool) \<Rightarrow> char list \<Rightarrow> nat \<Rightarrow> (char list \<times> nat) option" where
  "scan_word stop buf p =
     (if length buf \<le> p then None
      else if buf ! p = NUL \<or> stop (buf ! p) then Some (buf, p)
      else do {
        buf1 \<leftarrow> (if buf ! p = BACK_SLASH then copy_down buf p else Some buf);
        scan_word stop buf1 (p + 1)
      })"
  by pat_completeness auto

termination
  by (relation "measure (\<lambda>(stop, buf, p). length buf - p)") (auto dest: copy_down_length split: if_splits)

declare scan_word.simps [simp del]

text \<open>One round of the outer loop: where the word begins, and the pointer behind it.\<close>

definition next_word :: "char list \<Rightarrow> nat \<Rightarrow> (nat \<times> char list \<times> nat) option" where
  "next_word buf p = do {
     let (start, stop) =
       (if buf ! p = DOUBLE_QUOTE then (p + 1, \<lambda>c. c = DOUBLE_QUOTE)
        else if buf ! p = SINGLE_QUOTE then (p + 1, \<lambda>c. c = SINGLE_QUOTE)
        else (p, white));
     (buf1, q) \<leftarrow> scan_word stop buf start;
     if buf1 ! q \<noteq> NUL then Some (start, buf1[q := NUL], q + 1) else Some (start, buf1, q)
   }"

lemma skip_space_bounds: "skip_space buf p = Some q \<Longrightarrow> p \<le> q \<and> q < length buf \<and> \<not> white (buf ! q)"
  by (induction buf p rule: skip_space.induct) (subst (asm) (2) skip_space.simps, auto split: if_splits)

lemma scan_word_bounds: "scan_word stop buf p = Some (buf', q) \<Longrightarrow> p \<le> q \<and> q < length buf \<and> length buf' = length buf"
proof (induction stop buf p rule: scan_word.induct)
  case (1 stop buf p)
  show ?case
  proof (cases "buf ! p = NUL \<or> stop (buf ! p)")
    case True
    then show ?thesis using "1.prems" by (subst (asm) scan_word.simps) (auto split: if_splits)
  next
    case False
    then obtain b where l: "\<not> length buf \<le> p" and b: "(if buf ! p = BACK_SLASH then copy_down buf p else Some buf) = Some b"
      and s: "scan_word stop b (p + 1) = Some (buf', q)"
      using "1.prems" by (subst (asm) scan_word.simps) (auto simp: bind_eq_Some_conv split: if_splits)
    have "length b = length buf" using b by (auto dest: copy_down_length split: if_splits)
    then show ?thesis using "1.IH" [OF l False b s] by auto
  qed
qed

lemma next_word_bounds:
  assumes "next_word buf p = Some (a, buf', q)" "buf ! p \<noteq> NUL" "\<not> white (buf ! p)"
  shows "p < q \<and> length buf' = length buf"
proof (cases "buf ! p = DOUBLE_QUOTE \<or> buf ! p = SINGLE_QUOTE")
  case True
  then show ?thesis using assms(1)
    by (auto simp: next_word_def Let_def bind_eq_Some_conv split: if_splits dest!: scan_word_bounds)
next
  case False
  then obtain b r where s: "scan_word white buf p = Some (b, r)" and q: "q = (if b ! r \<noteq> NUL then r + 1 else r)" "length buf' = length b"
    using assms(1) by (auto simp: next_word_def Let_def bind_eq_Some_conv split: if_splits)
  have "p < r"
    using s assms(2,3)
    by (subst (asm) scan_word.simps) (auto simp: bind_eq_Some_conv split: if_splits dest!: scan_word_bounds)
  then show ?thesis using q scan_word_bounds [OF s] by auto
qed

section \<open>The table of words\<close>

text \<open>\<open>ok\<close> says for which sizes \<open>calloc\<close> has memory.\<close>

function argv_loop :: "(nat \<Rightarrow> bool) \<Rightarrow> nat option list \<Rightarrow> nat \<Rightarrow> char list \<Rightarrow> nat \<Rightarrow> (nat option list option \<times> nat \<times> char list) option" where
  "argv_loop ok argv argc buf p =
     (if length buf \<le> p then None
      else if buf ! p = NUL then Some (Some argv, argc, buf)
      else do {
        p1 \<leftarrow> skip_space buf p;
        if buf ! p1 = NUL then Some (Some argv, argc, buf)
        else do {
          (a, buf1, p2) \<leftarrow> next_word buf p1;
          if length argv \<le> argc then None
          else let argv1 = argv[argc := Some a] in
            if length argv \<le> argc + 2 then
              (if \<not> ok (2 * length argv) then Some (None, argc + 1, buf1)
               else argv_loop ok (take (argc + 1) argv1 @ replicate (2 * length argv - (argc + 1)) None) (argc + 1) buf1 p2)
            else argv_loop ok argv1 (argc + 1) buf1 p2
        }
      })"
  by pat_completeness auto

termination
proof (relation "measure (\<lambda>(ok, argv, argc, buf, p). length buf - p)", goal_cases)
  case 1
  show ?case by simp
next
  case (2 ok argv argc buf p p1 x a y buf1 p2 argv1)
  then show ?case using skip_space_bounds [of buf p p1] next_word_bounds [of buf p1 a buf1 p2] by auto
next
  case (3 ok argv argc buf p p1 x a y buf1 p2 argv1)
  then show ?case using skip_space_bounds [of buf p p1] next_word_bounds [of buf p1 a buf1 p2] by auto
qed

declare argv_loop.simps [simp del]

definition build_argv :: "(nat \<Rightarrow> bool) \<Rightarrow> char list \<Rightarrow> (nat option list option \<times> nat \<times> char list) option" where
  "build_argv ok str = (if \<not> ok 16 then Some (None, 0, str) else argv_loop ok (replicate 16 None) 0 str 0)"

section \<open>The tokenizer it implements\<close>

text \<open>A word up to a character at which it stops, and what comes behind that character; a backslash takes the next character as it
  is.\<close>

fun word_of :: "(char \<Rightarrow> bool) \<Rightarrow> string \<Rightarrow> string \<times> string option" where
  "word_of stop [] = ([], None)"
| "word_of stop (c # cs) =
     (if stop c then ([], Some cs)
      else if c = BACK_SLASH then (case cs of [] \<Rightarrow> ([], None) | d # ds \<Rightarrow> apfst ((#) d) (word_of stop ds))
      else apfst ((#) c) (word_of stop cs))"

lemma word_of_rest: "word_of stop s = (w, Some r) \<Longrightarrow> length r < length s"
proof (induction stop s arbitrary: w rule: word_of.induct)
  case (2 stop c cs)
  then show ?case by (cases cs) (auto simp: apfst_def map_prod_def split: if_splits prod.splits)
qed simp

definition quote_of :: "char \<Rightarrow> (char \<Rightarrow> bool) option" where
  "quote_of c = (if c = DOUBLE_QUOTE \<or> c = SINGLE_QUOTE then Some (\<lambda>d. d = c) else None)"

definition first_word :: "char \<Rightarrow> string \<Rightarrow> string \<times> string option" where
  "first_word c cs = (case quote_of c of Some stop \<Rightarrow> word_of stop cs | None \<Rightarrow> word_of white (c # cs))"

lemma first_word_rest: "first_word c cs = (w, Some r) \<Longrightarrow> length r < length (c # cs)"
  using word_of_rest [of white "c # cs" w r] word_of_rest [of "the (quote_of c)" cs w r]
  by (cases "quote_of c") (simp_all del: word_of.simps add: first_word_def)

function tokens :: "string \<Rightarrow> string list" where
  "tokens s =
     (case dropWhile white s of
        [] \<Rightarrow> []
      | c # cs \<Rightarrow> (case first_word c cs of (w, None) \<Rightarrow> [w] | (w, Some r) \<Rightarrow> w # tokens r))"
  by pat_completeness auto

termination
proof (relation "measure length", goal_cases)
  case 1
  show ?case by simp
next
  case (2 s c cs w x r)
  then show ?case using length_dropWhile_le [of white s] first_word_rest [of c cs w r] by simp
qed

declare tokens.simps [simp del]

text \<open>A line: no zero inside and no backslash at its end.\<close>

definition line :: "string \<Rightarrow> bool" where
  "line s \<longleftrightarrow> NUL \<notin> set s \<and> (s \<noteq> [] \<longrightarrow> last s \<noteq> BACK_SLASH)"

lemma line_simps [simp]: "line []" "line (c # cs) \<longleftrightarrow> c \<noteq> NUL \<and> (if cs = [] then c \<noteq> BACK_SLASH else line cs)"
  by (auto simp: line_def)

lemma line_drop: "line (xs @ ys) \<Longrightarrow> line ys"
  by (auto simp: line_def)

lemma copy_down_append:
  assumes "NUL \<notin> set s"
  shows "copy_down (pre @ c # s @ NUL # rest) (length pre) = Some (pre @ s @ NUL # NUL # rest)"
proof -
  have "takeWhile (\<lambda>c. c \<noteq> NUL) (s @ NUL # rest) = s"
    using assms by (subst takeWhile_append2) auto
  then show ?thesis by (simp add: copy_down_def Let_def)
qed

text \<open>Scanning leaves the word in the memory, and a zero more at the end of the line for each backslash that was taken out.\<close>

lemma scan_word_line:
  assumes "line s" "\<not> stop NUL"
  shows "\<exists>w k c r. word_of stop s = (w, r) \<and> NUL \<notin> set w \<and> c \<noteq> NUL \<and> (case r of None \<Rightarrow> True | Some x \<Rightarrow> line x) \<and>
    scan_word stop (pre @ s @ NUL # rest) (length pre) =
      Some (pre @ w @ (case r of None \<Rightarrow> [] | Some x \<Rightarrow> c # x) @ NUL # replicate k NUL @ rest, length pre + length w)"
  using assms
proof (induction stop s arbitrary: pre rest rule: word_of.induct)
  case (1 stop)
  have "scan_word stop (pre @ NUL # rest) (length pre) = Some (pre @ NUL # rest, length pre)"
    by (subst scan_word.simps) simp
  then show ?case by (intro exI [of _ "[]"] exI [of _ 0] exI [of _ BACK_SLASH] exI [of _ None]) (simp add: NUL_def BACK_SLASH_def)
next
  case (2 stop c cs)
  have c: "c \<noteq> NUL" using 2(3) by simp
  consider "stop c" | "\<not> stop c" "c = BACK_SLASH" | "\<not> stop c" "c \<noteq> BACK_SLASH" by blast
  then show ?case
  proof cases
    case 1
    then have "scan_word stop (pre @ (c # cs) @ NUL # rest) (length pre) = Some (pre @ (c # cs) @ NUL # rest, length pre)"
      by (subst scan_word.simps) (simp add: nth_append)
    moreover have "line cs" using 2(3) by (auto split: if_splits)
    ultimately show ?thesis using 1 c
      by (intro exI [of _ "[]"] exI [of _ 0] exI [of _ c] exI [of _ "Some cs"]) simp
  next
    case 2: 2
    then obtain d ds where cs: "cs = d # ds" using \<open>line (c # cs)\<close> by (cases cs) auto
    have l: "line ds" "d \<noteq> NUL" "NUL \<notin> set (d # ds)" using \<open>line (c # cs)\<close> by (auto simp: cs line_def split: if_splits)
    have "scan_word stop (pre @ (c # cs) @ NUL # rest) (length pre) = scan_word stop ((pre @ [d]) @ ds @ NUL # NUL # rest) (length (pre @ [d]))"
      using 2 c copy_down_append [OF l(3), of pre c rest] by (subst scan_word.simps) (simp add: nth_append cs)
    moreover obtain w k c' r where "word_of stop ds = (w, r)" "NUL \<notin> set w" "c' \<noteq> NUL" "case r of None \<Rightarrow> True | Some x \<Rightarrow> line x"
      "scan_word stop ((pre @ [d]) @ ds @ NUL # NUL # rest) (length (pre @ [d])) =
        Some ((pre @ [d]) @ w @ (case r of None \<Rightarrow> [] | Some x \<Rightarrow> c' # x) @ NUL # replicate k NUL @ NUL # rest, length (pre @ [d]) + length w)"
      using "2.IH"(1) [OF 2 cs l(1) \<open>\<not> stop NUL\<close>, of "pre @ [d]" "NUL # rest"] by blast
    ultimately show ?thesis using 2 l(2)
      by (intro exI [of _ "d # w"] exI [of _ "Suc k"] exI [of _ c'] exI [of _ r]) (simp add: cs replicate_append_same)
  next
    case 3
    have "line cs" using \<open>line (c # cs)\<close> by (auto split: if_splits)
    moreover have "scan_word stop (pre @ (c # cs) @ NUL # rest) (length pre) = scan_word stop ((pre @ [c]) @ cs @ NUL # rest) (length (pre @ [c]))"
      using 3 c by (subst scan_word.simps) (simp add: nth_append)
    moreover obtain w k c' r where "word_of stop cs = (w, r)" "NUL \<notin> set w" "c' \<noteq> NUL" "case r of None \<Rightarrow> True | Some x \<Rightarrow> line x"
      "scan_word stop ((pre @ [c]) @ cs @ NUL # rest) (length (pre @ [c])) =
        Some ((pre @ [c]) @ w @ (case r of None \<Rightarrow> [] | Some x \<Rightarrow> c' # x) @ NUL # replicate k NUL @ rest, length (pre @ [c]) + length w)"
      using "2.IH"(2) [OF 3 calculation(1) \<open>\<not> stop NUL\<close>, of "pre @ [c]" rest] by blast
    ultimately show ?thesis using 3 c
      by (intro exI [of _ "c # w"] exI [of _ k] exI [of _ c'] exI [of _ r]) simp
  qed
qed

text \<open>One word of a line, with the pointer behind it.\<close>

lemma next_word_line:
  assumes "line (c # cs)" "\<not> white c"
  obtains pre1 w r k where "first_word c cs = (w, r)" "NUL \<notin> set w" "prefix pre pre1"
    "r = None \<Longrightarrow> next_word (pre @ (c # cs) @ NUL # rest) (length pre) =
       Some (length pre1, pre1 @ w @ NUL # replicate k NUL @ rest, length (pre1 @ w))"
    "\<And>x. r = Some x \<Longrightarrow> line x \<and> next_word (pre @ (c # cs) @ NUL # rest) (length pre) =
       Some (length pre1, (pre1 @ w @ [NUL]) @ x @ NUL # replicate k NUL @ rest, length (pre1 @ w @ [NUL]))"
proof (cases "quote_of c")
  case None
  then have q: "c \<noteq> DOUBLE_QUOTE" "c \<noteq> SINGLE_QUOTE" by (auto simp: quote_of_def split: if_splits)
  obtain w k d r where w: "word_of white (c # cs) = (w, r)" "NUL \<notin> set w" "d \<noteq> NUL" "case r of None \<Rightarrow> True | Some x \<Rightarrow> line x"
    "scan_word white (pre @ (c # cs) @ NUL # rest) (length pre) =
       Some (pre @ w @ (case r of None \<Rightarrow> [] | Some x \<Rightarrow> d # x) @ NUL # replicate k NUL @ rest, length pre + length w)"
    using scan_word_line [OF assms(1), of white pre rest] by (auto simp: white_def NUL_def)
  show ?thesis
    by (rule that [of w r pre k]) (use w None q in \<open>auto simp: first_word_def next_word_def nth_append list_update_append simp del: word_of.simps\<close>)
next
  case (Some stop)
  have l: "line cs" using assms(1) by (auto split: if_splits)
  have st: "stop = (\<lambda>d. d = c)" "c = DOUBLE_QUOTE \<or> c = SINGLE_QUOTE" using Some by (auto simp: quote_of_def split: if_splits)
  obtain w k d r where w: "word_of stop cs = (w, r)" "NUL \<notin> set w" "d \<noteq> NUL" "case r of None \<Rightarrow> True | Some x \<Rightarrow> line x"
    "scan_word stop ((pre @ [c]) @ cs @ NUL # rest) (length (pre @ [c])) =
       Some ((pre @ [c]) @ w @ (case r of None \<Rightarrow> [] | Some x \<Rightarrow> d # x) @ NUL # replicate k NUL @ rest, length (pre @ [c]) + length w)"
    using scan_word_line [OF l, of stop "pre @ [c]" rest] assms(1) st by (auto split: if_splits)
  have n: "next_word (pre @ (c # cs) @ NUL # rest) (length pre) = do {
      (buf1, q) \<leftarrow> scan_word stop ((pre @ [c]) @ cs @ NUL # rest) (length (pre @ [c]));
      if buf1 ! q \<noteq> NUL then Some (Suc (length pre), buf1[q := NUL], q + 1) else Some (Suc (length pre), buf1, q) }"
  proof -
    have "SINGLE_QUOTE \<noteq> DOUBLE_QUOTE" by (simp add: SINGLE_QUOTE_def DOUBLE_QUOTE_def)
    then show ?thesis using st(2) unfolding st(1) next_word_def by (elim disjE) simp_all
  qed
  have f: "first_word c cs = (w, r)" using Some w(1) by (simp add: first_word_def)
  note n = n [unfolded w(5), simplified]
  show ?thesis
    by (rule that [of w r "pre @ [c]" k, OF f w(2)]) (use w(3,4) in \<open>simp_all add: n nth_append list_update_append\<close>)
qed

lemma skip_space_line:
  "\<forall>c \<in> set ws. white c \<Longrightarrow> \<not> white c \<Longrightarrow> skip_space (pre @ ws @ c # rest) (length pre) = Some (length pre + length ws)"
proof (induction ws arbitrary: pre)
  case Nil
  then show ?case by (subst skip_space.simps) simp
next
  case (Cons b ws)
  have "skip_space (pre @ (b # ws) @ c # rest) (length pre) = skip_space ((pre @ [b]) @ ws @ c # rest) (length (pre @ [b]))"
    using Cons.prems by (subst skip_space.simps) (simp add: nth_append)
  then show ?case using Cons.IH [of "pre @ [b]"] Cons.prems by simp
qed

text \<open>The C string that begins at an offset.\<close>

definition word_at :: "char list \<Rightarrow> nat \<Rightarrow> string" where
  "word_at buf a = takeWhile (\<lambda>c. c \<noteq> NUL) (drop a buf)"

lemma word_at_append: "NUL \<notin> set w \<Longrightarrow> word_at (pre @ w @ NUL # rest) (length pre) = w"
  by (simp add: word_at_def) (subst takeWhile_append2, auto)

text \<open>One round of the loop stores the word, in a table that has grown when it was full.\<close>

lemma argv_loop_round:
  assumes "\<forall>n. ok n" "2 \<le> m" "\<forall>d \<in> set ws. white d" "line (ws @ c # cs)" "\<not> white c"
    and n: "next_word ((pre @ ws) @ (c # cs) @ NUL # rest) (length (pre @ ws)) = Some (a, buf', q)"
  shows "\<exists>m' \<ge> 2. argv_loop ok (map Some old @ replicate m None) (length old) (pre @ (ws @ c # cs) @ NUL # rest) (length pre) =
    argv_loop ok (map Some (old @ [a]) @ replicate m' None) (length (old @ [a])) buf' q"
proof -
  let ?buf = "pre @ (ws @ c # cs) @ NUL # rest" and ?t = "map Some old @ replicate m None"
  have "NUL \<notin> set (ws @ c # cs)" using assms(4) by (simp add: line_def del: line_simps)
  then have nz: "?buf ! length pre \<noteq> NUL" "c \<noteq> NUL" by (cases ws; force)+
  have sk: "skip_space ?buf (length pre) = Some (length (pre @ ws))"
    using skip_space_line [of ws c pre "cs @ NUL # rest"] assms(3,5) by simp
  have at: "?buf ! length (pre @ ws) = c" by (simp add: nth_append)
  have n': "next_word ?buf (length (pre @ ws)) = Some (a, buf', q)" using n by simp
  have t: "?t[length old := Some a] = map Some (old @ [a]) @ replicate (m - 1) None"
    using assms(2) by (cases m) (simp_all add: list_update_append)
  have loop: "argv_loop ok ?t (length old) ?buf (length pre) =
    (if m \<le> 2 then argv_loop ok (map Some (old @ [a]) @ replicate (length old + 3) None) (length (old @ [a])) buf' q
     else argv_loop ok (map Some (old @ [a]) @ replicate (m - 1) None) (length (old @ [a])) buf' q)"
    using nz sk at n' t assms(1,2) by (subst argv_loop.simps) (simp add: Let_def list_update_append numeral_2_eq_2 add.commute [of 3])
  show ?thesis
  proof (cases "m \<le> 2")
    case True
    then show ?thesis using loop by (intro exI [of _ "length old + 3"]) simp
  next
    case False
    then show ?thesis using loop by (intro exI [of _ "m - 1"]) simp
  qed
qed

lemma argv_loop_end: "argv_loop ok argv argc (pre @ NUL # rest) (length pre) = Some (Some argv, argc, pre @ NUL # rest)"
  by (subst argv_loop.simps) simp

text \<open>The table has the words that were there, then those of the line, and is closed by null pointers.\<close>

lemma argv_loop_line:
  assumes "line s" "\<forall>n. ok n" "2 \<le> m"
  shows "\<exists>av z n. argv_loop ok (map Some old @ replicate m None) (length old) (pre @ s @ NUL # rest) (length pre) =
      Some (Some (map Some (old @ av) @ replicate n None), length (old @ av), pre @ z @ rest) \<and>
    0 < n \<and> length z = length s + 1 \<and> map (word_at (pre @ z @ rest)) av = tokens s"
  using assms(1,3)
proof (induction s arbitrary: pre rest old m rule: measure_induct_rule [of length])
  case (less s)
  obtain ws t where s: "s = ws @ t" and ws: "\<forall>d \<in> set ws. white d" and t: "dropWhile white s = t"
    using takeWhile_dropWhile_id [of white s] set_takeWhileD [of _ white s] by metis
  show ?case
  proof (cases t)
    case Nil
    have "skip_space (pre @ ws @ NUL # rest) (length pre) = Some (length pre + length ws)"
      by (rule skip_space_line [OF ws]) (simp add: white_def NUL_def)
    then have "argv_loop ok (map Some old @ replicate m None) (length old) (pre @ s @ NUL # rest) (length pre) =
        Some (Some (map Some old @ replicate m None), length old, pre @ s @ NUL # rest)"
      by (subst argv_loop.simps) (simp add: s Nil nth_append)
    moreover have "tokens s = []" by (simp only: tokens.simps [of s] t Nil list.case)
    ultimately show ?thesis using less.prems(2)
      by (intro exI [of _ "[]"] exI [of _ "s @ [NUL]"] exI [of _ m]) simp
  next
    case (Cons c cs)
    have c: "\<not> white c" using t Cons hd_dropWhile [of white s] by simp
    have l: "line (c # cs)" "line (ws @ c # cs)" using less.prems(1) line_drop [of ws "c # cs"] by (simp_all add: s Cons del: line_simps)
    obtain pre1 w r k where w: "first_word c cs = (w, r)" "NUL \<notin> set w" "prefix (pre @ ws) pre1"
      "r = None \<Longrightarrow> next_word ((pre @ ws) @ (c # cs) @ NUL # rest) (length (pre @ ws)) =
         Some (length pre1, pre1 @ w @ NUL # replicate k NUL @ rest, length (pre1 @ w))"
      "\<And>x. r = Some x \<Longrightarrow> line x \<and> next_word ((pre @ ws) @ (c # cs) @ NUL # rest) (length (pre @ ws)) =
         Some (length pre1, (pre1 @ w @ [NUL]) @ x @ NUL # replicate k NUL @ rest, length (pre1 @ w @ [NUL]))"
      by (rule next_word_line [OF l(1) c, where pre = "pre @ ws" and rest = rest]) blast
    obtain u where u: "pre1 = pre @ u" using w(3) by (auto simp: prefix_def)
    have cz: "((pre @ ws) @ (c # cs) @ NUL # rest) ! length (pre @ ws) = c" "c \<noteq> NUL" using l(1) by (simp_all add: nth_append)
    show ?thesis
    proof (cases r)
      case None
      obtain m' where "2 \<le> m'" "argv_loop ok (map Some old @ replicate m None) (length old) (pre @ s @ NUL # rest) (length pre) =
          argv_loop ok (map Some (old @ [length pre1]) @ replicate m' None) (length (old @ [length pre1]))
            ((pre1 @ w) @ NUL # replicate k NUL @ rest) (length (pre1 @ w))"
        using argv_loop_round [OF assms(2) less.prems(2) ws l(2) c w(4) [OF None], where old = old] by (auto simp: s Cons)
      moreover have "length (u @ w @ NUL # replicate k NUL) = length s + 1"
        using next_word_bounds [OF w(4) [OF None]] c cz by (simp add: u s Cons)
      ultimately show ?thesis
        using word_at_append [OF w(2), of pre1 "replicate k NUL @ rest"] w(1) t Cons None
          argv_loop_end [of ok "map Some (old @ [length pre1]) @ replicate m' None" "length (old @ [length pre1])" "pre1 @ w"
            "replicate k NUL @ rest"]
        by (intro exI [of _ "[length pre1]"] exI [of _ "u @ w @ NUL # replicate k NUL"] exI [of _ m'])
          (simp add: u tokens.simps [of s])
    next
      case (Some x)
      note wx = w(5) [OF Some]
      obtain m' where m': "2 \<le> m'" "argv_loop ok (map Some old @ replicate m None) (length old) (pre @ s @ NUL # rest) (length pre) =
          argv_loop ok (map Some (old @ [length pre1]) @ replicate m' None) (length (old @ [length pre1]))
            ((pre1 @ w @ [NUL]) @ x @ NUL # replicate k NUL @ rest) (length (pre1 @ w @ [NUL]))"
        using argv_loop_round [OF assms(2) less.prems(2) ws l(2) c conjunct2 [OF wx], where old = old] by (auto simp: s Cons)
      have "length x < length s" using first_word_rest [of c cs w x] w(1) Some by (simp add: s Cons)
      from less.IH [OF this conjunct1 [OF wx] m'(1), of "old @ [length pre1]" "pre1 @ w @ [NUL]" "replicate k NUL @ rest"]
      obtain av z n where ih: "argv_loop ok (map Some (old @ [length pre1]) @ replicate m' None) (length (old @ [length pre1]))
            ((pre1 @ w @ [NUL]) @ x @ NUL # replicate k NUL @ rest) (length (pre1 @ w @ [NUL])) =
          Some (Some (map Some ((old @ [length pre1]) @ av) @ replicate n None), length ((old @ [length pre1]) @ av),
            (pre1 @ w @ [NUL]) @ z @ replicate k NUL @ rest)" "0 < n" "length z = length x + 1"
          "map (word_at ((pre1 @ w @ [NUL]) @ z @ replicate k NUL @ rest)) av = tokens x"
        by blast
      have "length (u @ w @ NUL # z @ replicate k NUL) = length s + 1"
        using next_word_bounds [OF conjunct2 [OF wx]] c cz ih(3) by (simp add: u s Cons)
      then show ?thesis
        using m'(2) ih(1,2,4) word_at_append [OF w(2), of pre1 "z @ replicate k NUL @ rest"] w(1) t Cons Some
        by (intro exI [of _ "length pre1 # av"] exI [of _ "u @ w @ NUL # z @ replicate k NUL"] exI [of _ n])
          (simp add: u tokens.simps [of s])
    qed
  qed
qed

text \<open>Claim C38: for every line that does not end in a backslash, \<open>build_argv\<close> comes back with the words of the line:
  separated by white space, quoted by one of two quotes, with backslashes that take the next character as it is.  The table is closed by a
  null pointer, whatever the number of words, and nothing behind the line is touched.\<close>

theorem build_argv_tokens:
  assumes "NUL \<notin> set s" "s = [] \<or> last s \<noteq> BACK_SLASH" "\<forall>n. ok n"
  shows "\<exists>av n z. build_argv ok (s @ NUL # rest) = Some (Some (map Some av @ replicate n None), length av, z @ rest) \<and>
    0 < n \<and> length z = length s + 1 \<and> map (word_at (z @ rest)) av = tokens s"
  using argv_loop_line [of s ok 16 "[]" "[]" rest] assms by (simp add: build_argv_def line_def) blast

theorem build_argv_tokens_witness:
  "\<exists>av n z. build_argv (\<lambda>_. True) (''cp \"a b\" c'' @ NUL # []) = Some (Some (map Some av @ replicate n None), 3, z) \<and>
    map (word_at z) av = [''cp'', ''a b'', ''c'']"
proof -
  let ?s = "''cp \"a b\" c''"
  have l: "NUL \<notin> set ?s" "?s = [] \<or> last ?s \<noteq> BACK_SLASH" "\<forall>n :: nat. (\<lambda>_. True) n" by (simp_all add: NUL_def BACK_SLASH_def)
  have t: "tokens ?s = [''cp'', ''a b'', ''c'']" by code_simp
  obtain av n z where r: "build_argv (\<lambda>_. True) (?s @ NUL # []) = Some (Some (map Some av @ replicate n None), length av, z)"
      "map (word_at z) av = [''cp'', ''a b'', ''c'']"
    using build_argv_tokens [OF l, of "[]"] unfolding t append_Nil2 by (elim exE conjE) (rule that)
  have "length av = 3" using arg_cong [OF r(2), of length] by simp
  then show ?thesis using r by metis
qed

end
