(* ===== verification/Spec2Isabelle.thy ===== *)
theory Spec2Isabelle
  imports Bit_Range Cache_List Cache_Props Byte_Codec Sem_Lock Tmp_Blocks Bitmap_Props Inode_Map Stream_Edge
    Vnode_List Kernel_Props Kernel_Mount Rootfs_Props Myfs_Dir_Props Argv
begin

text \<open>
  A verification of \<open>fs-kit\<close>, the file system construction kit: a small file system, \<open>myfs\<close>, on a block cache, with
  a simulated kernel above and a plain file as its disk below.

  \<^bold>\<open>The program and the theories.\<close>  From the bottom up:

  \<^item> \<open>sysdep.c\<close> (\<open>read_pos\<close> to \<open>writev_pos\<close>) and \<open>read_phys_blocks\<close>, \<open>write_phys_blocks\<close> of \<open>cache.c\<close> move blocks
    between memory and the device: theory \<open>Phys_IO\<close>.  A device is a list of bytes and a set of positions at which
    transfers fail.
  \<^item> \<open>cache.c\<close> keeps blocks of the devices in memory.  \<open>Hash_Table\<close> has its hash table, \<open>Cache_List\<close> the doubly linked
    lists with their pointers, \<open>Block_Cache\<close> and \<open>Cache_Ops\<close> the state and the operations on entries (start-up, flushing,
    looking up, marking, releasing, claiming entries, clones, shut-down), \<open>Cache_IO\<close> the central \<open>cache_block_io\<close> with its
    branches (hit, miss, requests of 64 KB and more, read-ahead) and the entry points \<open>get_block\<close>, \<open>get_empty_block\<close>,
    \<open>cached_read\<close>, \<open>cached_write\<close>, \<open>cached_write_locked\<close>.
  \<^item> \<open>stub.c\<close> and \<open>lock.h\<close>, semaphores and locks: \<open>Sem_Lock\<close>.
  \<^item> \<open>util.c\<close>, the pool of temporary blocks: \<open>Tmp_Blocks\<close>.
  \<^item> \<open>bitvector.c\<close>, maps of bits and the search for a free range: \<open>Bit_Vector\<close>, \<open>Bit_Range\<close>.
  \<^item> \<open>myfs.h\<close> and \<open>io.c\<close>, the mounted file system, the super block and transfers of its blocks: \<open>Myfs_IO\<close>, with
    \<open>Byte_Codec\<close> for integers as bytes.
  \<^item> \<open>bitmap.c\<close>, the map of used blocks: \<open>Block_Bitmap\<close>, properties in \<open>Bitmap_Props\<close>.
  \<^item> \<open>inode.c\<close> and \<open>myfs_read_vnode\<close> of \<open>file.c\<close>: \<open>Inode\<close>, \<open>Inode_Map\<close>.
  \<^item> \<open>dstream.c\<close>, the bytes of a file: \<open>Data_Stream\<close>, properties in \<open>Stream_Read\<close>, \<open>Stream_Write\<close>,
    \<open>Stream_Grow\<close>, \<open>Stream_Shrink\<close>, \<open>Stream_Edge\<close>.
  \<^item> \<open>dir.c\<close>, entries packed into the bytes of a file: \<open>Myfs_Dir\<close> (the functions on one directory) and \<open>Myfs_Vnops\<close> (the
    operations the kernel calls); \<open>Myfs_Entries\<close> has the entries as a list and \<open>Myfs_Dir_Props\<close> the properties.
  \<^item> \<open>file.c\<close>, the other operations the kernel calls: \<open>Myfs_Vnops\<close>, over a world (\<open>mworld\<close>) of one mounted file system,
    the inodes in memory and the cookies of open directories.
  \<^item> \<open>mount.c\<close>, \<open>journal.c\<close> and the table of operations of \<open>myfs_vnops.h\<close>: \<open>Myfs_Mount\<close>.
  \<^item> \<open>sl.c\<close>, skip lists: \<open>Skip_List\<close> has the nodes in a heap and the operations as they follow and change pointers,
    \<open>Skip_Chains\<close> the lists of each level and \<open>Skip_Index\<close> the skip list as a finite map.
  \<^item> \<open>kernel.c\<close>, the simulated kernel.  \<open>Vnode_Layer\<close> has the table of vnodes, its index, the four lists and the calls of file
    systems (\<open>get_vnode\<close>, \<open>put_vnode\<close>, \<open>new_vnode\<close>, \<open>remove_vnode\<close>); \<open>Vnode_List\<close> the pointers of the lists; \<open>Fd_Table\<close> and
    \<open>Kernel_Files\<close> descriptors and open files; \<open>Kernel_Path\<close> the walk along a path, with mount points and symbolic
    links; \<open>Kernel_Sys\<close> the system calls; \<open>Kernel_Mount\<close> file system types, mounting, unmounting and the start of the kernel.
    The model is polymorphic in the world of the file systems, whose operations are tables of functions, as in the code.
  \<^item> \<open>rootfs.c\<close>, the file system of the root, a tree in memory: \<open>Rootfs\<close>.
  \<^item> \<open>argv.c\<close>, the words of a command line: \<open>Argv\<close>.

  \<^bold>\<open>Conventions.\<close>  A function of the program that may not return (panic, \<open>myfs_die\<close>, a null pointer or an access outside
  an object, a semaphore nobody will release) has an option as its result, and \<open>None\<close> says that control does not come back;
  error numbers are values.  C's \<open>int\<close> and \<open>fs_off_t\<close> are integers with the conversions written out (\<open>c_int\<close>,
  \<open>take_bit 64\<close>, \<open>signed_take_bit 63\<close>) where a value may not fit; chunks of bit vectors are 32-bit words and bytes 8-bit
  words.  The layout is that of a little-endian machine with 64-bit pointers.  One thread runs.  What comes from outside
  (whether \<open>malloc\<close> has memory, the failing positions of a device, the time, ids, the addresses of new objects) is an
  argument or a field of the state.  Loops are structural recursions, functions with a termination proof, or, where a loop of the
  code may not end, partial functions whose result is then \<open>None\<close>: that the restart loops of \<open>flush_ents\<close> and
  \<open>flush_device\<close> come back is proved in \<open>Cache_Sync\<close>, that the loop of \<open>load_vnode\<close> does in \<open>Vnode_Load\<close>.

  Three places are wider than the code.  Counts of references (\<open>vn_rcnt\<close> of a vnode, \<open>of_rcnt\<close> and \<open>of_ocnt\<close> of an open file) and the size
  of the hash table (\<open>ht_max\<close>) are unbounded integers: the model is that of a run with fewer than \<open>2 ^ 31\<close> references to one object, and
  with tables for which \<open>calloc\<close> has memory only while their size is an \<open>int\<close>.  \<open>write_super_block\<close> writes a whole block
  from the address of the super block in \<open>myfs_info\<close>, which is not that long: the bytes behind it in memory are the field \<open>after_dsb\<close>,
  the one read outside an object that does not end in \<open>None\<close>, since the program could not run otherwise.

  \<^bold>\<open>Interfaces.\<close>  Locales hold what one part promises to another, each interpreted on the model of the code:
  \<open>bit_map\<close> (\<open>Bit_Vector\<close>) for the users of bit vectors, \<open>block_index\<close> (\<open>Hash_Table\<close>) for the table of cached blocks,
  \<open>lru_lists\<close> (\<open>Cache_List\<close>) for linked lists, interpreted on those of the cache and, in \<open>Vnode_List\<close>, on those of the kernel,
  \<open>block_store\<close> (\<open>Block_Store\<close>) for the file system above the cache, \<open>sl_order\<close> (\<open>Skip_Index\<close>) for the comparison a skip list is
  given, with \<open>ordered_index\<close> as what it then provides, interpreted on the two indexes of \<open>kernel.c\<close> and \<open>rootfs.c\<close>,
  and \<open>walk_fs\<close> (\<open>Kernel_Walk\<close>) for a file system the kernel walks through, interpreted on the root file system in
  \<open>Rootfs_Walk\<close>.

  \<^bold>\<open>What is shown.\<close>
  \<^item> The cache: its invariant \<open>cache_inv\<close> (\<open>Cache_Inv\<close>) holds after start-up and after every request; a hit and a miss
    (\<open>Cache_Miss\<close>, \<open>Cache_Prepare\<close>, \<open>Cache_Fill\<close>, \<open>Cache_Install\<close>, \<open>Cache_Serve\<close>), whole requests (\<open>Cache_Loop\<close>,
    \<open>Cache_Large\<close>) and flushes (\<open>Cache_Flush\<close>, \<open>Cache_Sync\<close>) change what clients see of the blocks exactly as asked.
    \<open>Block_Store\<close> sums this up for the file system and \<open>Cache_Props\<close> has the properties.
  \<^item> The file system on it: every operation is a step (\<open>fs_step\<close>, \<open>fs_move\<close> of \<open>Myfs_IO\<close>) that keeps \<open>fs_ok\<close> and
    changes only the blocks it names (\<open>same_blks\<close>).  Super block, block map, inode map and inode table keep the copy in
    memory and the copy on the disk equal; reading and writing a file agree with the list of its bytes.  A map is exact
    (\<open>exact_map\<close> of \<open>Block_Bitmap\<close>) when the count in the super block is the number of used blocks and the device has a multiple of
    32 blocks: then a block, and room for a longer file or directory, is refused only when there is none.  Growing and
    shrinking are treated for files in their direct blocks; reading and overwriting for indirect ones too.
  \<^item> Directories: looking up, adding and removing an entry in the bytes on the disk agree with the list of entries
    (\<open>Myfs_Dir_Props\<close>, on the lemmas for growing and shrinking a file).
  \<^item> The kernel: the skip list is a finite map whatever levels the random numbers give; every operation of the vnode
    layer keeps its invariant (\<open>Vnode_Inv\<close>) and the number of references it promises (\<open>Vnode_Refs\<close>, \<open>Vnode_Load\<close>,
    \<open>Vnode_Props\<close>); descriptors, path names and their bounds are in \<open>Kernel_Props\<close>.  The kernel that \<open>init_vnode_layer\<close> starts
    on the root file system satisfies all invariants, every path can be looked up in it, and the references balance
    (\<open>Rootfs_Inv\<close>, \<open>Rootfs_Walk\<close>, \<open>Rootfs_Props\<close>); \<open>rootfs_mkdir\<close> refines adding a name to one map of a tree of maps
    (\<open>Rootfs_Dirs\<close>).
  \<^item> \<open>build_argv\<close> is a tokenizer (\<open>Argv\<close>).
  \<^item> Where the code departs from what it means to do, theorems show how: the searches of \<open>GetFreeRangeOfBits\<close> that
    start in a later chunk, counts of used blocks, the size of the block map, the size of the inode table, shrinking a file to one byte more than whole blocks,
    reading at its end and in the double-indirect range, counting locks, temporary blocks without memory, a full table of
    descriptors, vnodes lost after errors, directories that pass for empty, and blocks of 512 bytes.

  \<^bold>\<open>Not modelled.\<close>  \<open>initfs.c\<close>, twelve lines of glue that start the kernel and mount \<open>myfs\<close> below the root file system: the
  world of the kernel holds one kind of file system, and a sum of the two would change every callback.  Likewise
  at most one \<open>myfs\<close> is mounted at a time.  The shell, the test program and the tools (\<open>fsh.c\<close>, \<open>tstfs.c\<close>, \<open>makefs.c\<close>,
  \<open>mkfile.c\<close>, \<open>hexdump.c\<close>) and the output for debugging in \<open>kernel.c\<close>, \<open>cache.c\<close> and \<open>util.c\<close>, which print or pass command
  lines on to modelled functions.  Concurrency: one thread runs, and a lock that is not free stops it.
\<close>

end
